(* ===== verification/Prelude.thy ===== *)
theory Prelude
  imports Main "HOL-Library.Word" "HOL-Library.Monad_Syntax" "HOL-Library.Multiset"
begin

text \<open>
  Shared vocabulary of the development: the machine-integer types of the C sources, the generic
  ring buffer that three components of skynet implement by hand, pointer chains through a
  \<open>next\<close> field, byte-order conversions, and the interface of a first-in first-out queue that
  those components provide and their clients rely on.

  Conventions. A C function that mutates a structure takes the structure and returns it updated.
  A function that may abort (a failed \<open>assert\<close>, a null dereference) or may not return
  (a loop with no bound) has an \<open>option\<close> result, \<open>None\<close> being that outcome; an error that the
  code reports to its caller is a value of the result type.
\<close>

unbundle bit_operations_syntax

named_theorems ring_simps
  \<open>equations that move between the ring-buffer arithmetic and lists\<close>
named_theorems heap_simps
  \<open>equations for updates of the pointer-indexed heaps\<close>

type_synonym u8 = "8 word"
type_synonym u16 = "16 word"
type_synonym u32 = "32 word"
type_synonym u64 = "64 word"
type_synonym bytes = "u8 list"
type_synonym ptr = nat

section \<open>Options\<close>

lemma bind_SomeE:
  assumes "Option.bind x f = Some z"
  obtains y where "x = Some y" and "f y = Some z"
  using assms by (cases x) auto

section \<open>Arrays\<close>

text \<open>
  A C array of structures is a list of cells, \<open>None\<close> for a cell \<open>malloc\<close> returned and nothing
  has stored to. A read of such a cell or outside the array, and a write outside it, is \<open>None\<close>.
\<close>

definition arr_read :: "'a option list \<Rightarrow> nat \<Rightarrow> 'a option" where
  "arr_read xs i = (if i < length xs then xs ! i else None)"

definition arr_write :: "'a option list \<Rightarrow> nat \<Rightarrow> 'a \<Rightarrow> 'a option list option" where
  "arr_write xs i v = (if i < length xs then Some (xs[i := Some v]) else None)"

section \<open>Ring buffers\<close>

text \<open>
  \<open>ring xs h n\<close> reads \<open>n\<close> cells of the array \<open>xs\<close> from index \<open>h\<close>, wrapping at its end:
  the contents of a circular buffer with head \<open>h\<close>. \<open>ring_len\<close> is the number of cells between
  a head and a tail index.
\<close>

definition ring :: "'a list \<Rightarrow> nat \<Rightarrow> nat \<Rightarrow> 'a list" where
  "ring xs h n = map (\<lambda>i. xs ! ((h + i) mod length xs)) [0..<n]"

definition ring_len :: "nat \<Rightarrow> nat \<Rightarrow> nat \<Rightarrow> nat" where
  "ring_len h t c = (if h \<le> t then t - h else t + c - h)"

lemma length_ring [simp, ring_simps]: "length (ring xs h n) = n"
  by (simp add: ring_def)

lemma ring_zero [simp]: "ring xs h 0 = []"
  by (simp add: ring_def)

lemma ring_nth [ring_simps]: "i < n \<Longrightarrow> ring xs h n ! i = xs ! ((h + i) mod length xs)"
  by (simp add: ring_def)

lemma ring_Suc_front:
  "xs \<noteq> [] \<Longrightarrow> ring xs h (Suc n) = xs ! (h mod length xs) # ring xs (Suc h mod length xs) n"
  by (rule nth_equalityI)
    (auto simp: ring_def nth_Cons mod_simps split: nat.splits simp del: upt_Suc)

lemma ring_push:
  assumes "n < length xs"
  shows "ring (xs[(h + n) mod length xs := x]) h (Suc n) = ring xs h n @ [x]"
proof -
  have ne: "(h + i) mod length xs \<noteq> (h + n) mod length xs" if "i < n" for i
  proof
    assume "(h + i) mod length xs = (h + n) mod length xs"
    then have "length xs dvd (h + n) - (h + i)"
      using that by (metis mod_eq_dvd_iff_nat add_le_cancel_left less_imp_le)
    then show False using that assms by (auto dest: dvd_imp_le)
  qed
  have "0 < length xs" using assms by auto
  then have "(h + n) mod length xs < length xs" by simp
  then show ?thesis
    by (simp add: ring_def nth_list_update_neq ne [THEN not_sym])
qed

lemma ring_linear:
  assumes "h + n \<le> length xs"
  shows "ring xs h n = take n (drop h xs)"
  using assms by (intro nth_equalityI) (auto simp: ring_def)

lemma ring_len_less: "h < c \<Longrightarrow> t < c \<Longrightarrow> ring_len h t c < c"
  by (auto simp: ring_len_def)

lemma ring_len_zero_iff: "h < c \<Longrightarrow> t < c \<Longrightarrow> ring_len h t c = 0 \<longleftrightarrow> h = t"
  by (auto simp: ring_len_def)

lemma ring_len_tail: "h < c \<Longrightarrow> t < c \<Longrightarrow> (h + ring_len h t c) mod c = t"
  by (auto simp: ring_len_def)

lemma ring_len_push:
  assumes "h < c" "t < c" "Suc t mod c \<noteq> h"
  shows "ring_len h (Suc t mod c) c = Suc (ring_len h t c)"
proof (cases "Suc t = c")
  case True
  with assms show ?thesis by (auto simp: ring_len_def)
next
  case False
  with assms(2) have "Suc t mod c = Suc t" by simp
  with assms show ?thesis by (auto simp: ring_len_def)
qed

lemma ring_len_full:
  assumes "h < c" "t < c" "Suc t mod c = h"
  shows "Suc (ring_len h t c) = c"
proof (cases "Suc t = c")
  case True
  with assms show ?thesis by (auto simp: ring_len_def)
next
  case False
  with assms(2) have "Suc t mod c = Suc t" by simp
  with assms show ?thesis by (auto simp: ring_len_def)
qed

lemma ring_len_pop:
  assumes "h < c" "t < c" "h \<noteq> t"
  shows "Suc (ring_len (Suc h mod c) t c) = ring_len h t c"
proof (cases "Suc h = c")
  case True
  with assms show ?thesis by (auto simp: ring_len_def)
next
  case False
  with assms(1) have "Suc h mod c = Suc h" by simp
  with assms show ?thesis by (auto simp: ring_len_def)
qed

section \<open>Growing rings\<close>

text \<open>
  The queues of the code: an array of \<open>c\<close> cells, head and tail indices, equal when the queue is empty.
  \<open>ring_ok\<close> says that every cell between them has been stored to, \<open>pending\<close> is what they hold. The four
  steps of the implementations: store behind the tail, take from the head, and move \<open>n\<close> cells to the
  front of a larger array.
\<close>

definition ring_ok :: "'a option list \<Rightarrow> nat \<Rightarrow> nat \<Rightarrow> nat \<Rightarrow> bool" where
  "ring_ok xs h t c \<longleftrightarrow> 0 < c \<and> length xs = c \<and> h < c \<and> t < c \<and> None \<notin> set (ring xs h (ring_len h t c))"

definition pending :: "'a option list \<Rightarrow> nat \<Rightarrow> nat \<Rightarrow> nat \<Rightarrow> 'a list" where
  "pending xs h t c = map the (ring xs h (ring_len h t c))"

lemma pending_empty_iff: "ring_ok xs h t c \<Longrightarrow> pending xs h t c = [] \<longleftrightarrow> h = t"
  using ring_len_zero_iff [of h c t] length_ring [of xs h "ring_len h t c"]
  by (auto simp: ring_ok_def pending_def simp del: length_ring)

lemma ring_new: "0 < c \<Longrightarrow> ring_ok (replicate c None) 0 0 c" "pending (replicate c None) 0 0 c = []"
  by (simp_all add: ring_ok_def pending_def ring_len_def)

lemma ring_store_cells:
  assumes "ring_ok xs h t c"
  shows "ring (xs[t := Some m]) h (Suc (ring_len h t c)) = ring xs h (ring_len h t c) @ [Some m]"
  using assms ring_push [of "ring_len h t c" xs h "Some m"]
  by (simp add: ring_ok_def ring_len_less ring_len_tail)

lemma ring_store:
  assumes "ring_ok xs h t c" "Suc t mod c \<noteq> h"
  shows "ring_ok (xs[t := Some m]) h (Suc t mod c) c"
    "pending (xs[t := Some m]) h (Suc t mod c) c = pending xs h t c @ [m]"
  using ring_store_cells [OF assms(1), of m] ring_len_push [of h c t] assms
  by (auto simp: ring_ok_def pending_def)

lemma ring_move:
  assumes "None \<notin> set (ring xs h n)" "n < c"
  shows "ring_ok (ring xs h n @ replicate (c - n) None) 0 n c"
    "pending (ring xs h n @ replicate (c - n) None) 0 n c = map the (ring xs h n)"
proof -
  have "ring (ring xs h n @ replicate (c - n) None) 0 n = ring xs h n"
    using assms(2) by (subst ring_linear) auto
  then show "ring_ok (ring xs h n @ replicate (c - n) None) 0 n c"
    "pending (ring xs h n @ replicate (c - n) None) 0 n c = map the (ring xs h n)"
    using assms by (simp_all add: ring_ok_def pending_def ring_len_def)
qed

lemma ring_store_full:
  assumes "ring_ok xs h t c" "Suc t mod c = h" "c < c'"
  shows "ring_ok (ring (xs[t := Some m]) h c @ replicate (c' - c) None) 0 c c'"
    "pending (ring (xs[t := Some m]) h c @ replicate (c' - c) None) 0 c c' = pending xs h t c @ [m]"
proof -
  have c: "ring (xs[t := Some m]) h c = ring xs h (ring_len h t c) @ [Some m]"
    using ring_store_cells [OF assms(1), of m] ring_len_full [of h c t] assms by (simp add: ring_ok_def)
  then have "None \<notin> set (ring (xs[t := Some m]) h c)" using assms(1) by (simp add: ring_ok_def)
  from ring_move [OF this assms(3)] c
  show "ring_ok (ring (xs[t := Some m]) h c @ replicate (c' - c) None) 0 c c'"
    "pending (ring (xs[t := Some m]) h c @ replicate (c' - c) None) 0 c c' = pending xs h t c @ [m]"
    by (simp_all add: pending_def)
qed

lemma ring_take:
  assumes "ring_ok xs h t c" "pending xs h t c = m # ms"
  shows "h \<noteq> t" "xs ! h = Some m" "ring_ok xs (Suc h mod c) t c" "pending xs (Suc h mod c) t c = ms"
proof -
  show ne: "h \<noteq> t" using pending_empty_iff [OF assms(1)] assms(2) by simp
  have wf: "h < c" "t < c" "xs \<noteq> []" "length xs = c" using assms(1) by (auto simp: ring_ok_def)
  have n: "ring_len h t c = Suc (ring_len (Suc h mod c) t c)" using ring_len_pop [OF wf(1,2) ne] by simp
  have r: "ring xs h (ring_len h t c) = xs ! h # ring xs (Suc h mod c) (ring_len (Suc h mod c) t c)"
    unfolding n using ring_Suc_front [OF wf(3), of h] wf by simp
  have "None \<noteq> xs ! h" using assms(1) unfolding ring_ok_def r by auto
  then obtain x where "xs ! h = Some x" by (cases "xs ! h") auto
  then show "xs ! h = Some m" "pending xs (Suc h mod c) t c = ms"
    using assms(2) unfolding pending_def r by auto
  show "ring_ok xs (Suc h mod c) t c" using assms(1) unfolding ring_ok_def r by simp
qed

lemma ring_read: "xs \<noteq> [] \<Longrightarrow> map (\<lambda>i. arr_read xs ((h + i) mod length xs)) [0..<n] = ring xs h n"
  by (simp add: ring_def arr_read_def)

section \<open>Pointer chains\<close>

text \<open>
  \<open>chain nxt p xs\<close>: following \<open>nxt\<close> from \<open>p\<close> visits exactly the nodes \<open>xs\<close> and ends in a null
  pointer.
\<close>

primrec chain :: "('p \<Rightarrow> 'p option) \<Rightarrow> 'p option \<Rightarrow> 'p list \<Rightarrow> bool" where
  "chain nxt p [] \<longleftrightarrow> p = None"
| "chain nxt p (x # xs) \<longleftrightarrow> p = Some x \<and> chain nxt (nxt x) xs"

lemma chain_None [simp]: "chain nxt None xs \<longleftrightarrow> xs = []"
  by (cases xs) auto

lemma chain_Some: "chain nxt (Some x) xs \<longleftrightarrow> (\<exists>ys. xs = x # ys \<and> chain nxt (nxt x) ys)"
  by (cases xs) auto

lemma chain_upd_notin: "x \<notin> set xs \<Longrightarrow> chain (nxt(x := v)) p xs \<longleftrightarrow> chain nxt p xs"
  by (induction xs arbitrary: p) auto

lemma chain_cong: "(\<And>x. x \<in> set xs \<Longrightarrow> nxt x = nxt' x) \<Longrightarrow> chain nxt p xs \<longleftrightarrow> chain nxt' p xs"
  by (induction xs arbitrary: p) auto

lemma chain_unique: "chain nxt p xs \<Longrightarrow> chain nxt p ys \<Longrightarrow> xs = ys"
  by (induction xs arbitrary: p ys) (auto simp: chain_Some)

lemma chain_snoc:
  assumes "chain nxt p (xs @ [y])" "y \<notin> set xs" "z \<notin> set (xs @ [y])" "nxt z = None"
  shows "chain (nxt(y := Some z)) p (xs @ [y, z])"
  using assms by (induction xs arbitrary: p) auto

lemma chain_last_None: "chain nxt p (xs @ [y]) \<Longrightarrow> nxt y = None"
  by (induction xs arbitrary: p) auto

section \<open>First-in first-out queues\<close>

text \<open>
  What a client of a queue relies on. \<open>deq q = Some (None, q')\<close> says that the queue was empty,
  \<open>Some (Some x, q')\<close> that \<open>x\<close> was taken out, \<open>None\<close> that the operation does not return.
\<close>

locale fifo =
  fixes enq :: "'a \<Rightarrow> 'q \<Rightarrow> 'q option"
    and deq :: "'q \<Rightarrow> ('a option \<times> 'q) option"
    and contents :: "'q \<Rightarrow> 'a list"
    and wf :: "'q \<Rightarrow> bool"
  assumes enq_ok: "wf q \<Longrightarrow> \<exists>q'. enq x q = Some q' \<and> wf q' \<and> contents q' = contents q @ [x]"
    and deq_empty: "wf q \<Longrightarrow> contents q = [] \<Longrightarrow>
          \<exists>q'. deq q = Some (None, q') \<and> wf q' \<and> contents q' = []"
    and deq_cons: "wf q \<Longrightarrow> contents q = x # xs \<Longrightarrow>
          \<exists>q'. deq q = Some (Some x, q') \<and> wf q' \<and> contents q' = xs"

text \<open>
  Two loops over a queue: storing a list of elements one after the other, and
  \<open>while ((m = pop(q)) != NULL) body(m)\<close>, which returns what the body saw, in order, and the
  queue it leaves.
\<close>

primrec enq_all :: "('a \<Rightarrow> 'q \<Rightarrow> 'q option) \<Rightarrow> 'a list \<Rightarrow> 'q \<Rightarrow> 'q option" where
  "enq_all enq [] q = Some q"
| "enq_all enq (x # xs) q = Option.bind (enq x q) (enq_all enq xs)"

partial_function (option) drain ::
  "('q \<Rightarrow> ('a option \<times> 'q) option) \<Rightarrow> 'q \<Rightarrow> ('a list \<times> 'q) option" where
  "drain deq q =
     (case deq q of
        None \<Rightarrow> None
      | Some (None, q') \<Rightarrow> Some ([], q')
      | Some (Some x, q') \<Rightarrow>
          Option.bind (drain deq q') (\<lambda>(xs, q''). Some (x # xs, q'')))"

text \<open>
  Any sequence of operations on a queue, and what a list used as a queue answers to it.
\<close>

datatype 'a qop = Enq 'a | Deq

primrec run_queue :: "('a \<Rightarrow> 'q \<Rightarrow> 'q option) \<Rightarrow> ('q \<Rightarrow> ('a option \<times> 'q) option)
    \<Rightarrow> 'a qop list \<Rightarrow> 'q \<Rightarrow> ('a option list \<times> 'q) option" where
  "run_queue enq deq [] q = Some ([], q)"
| "run_queue enq deq (x # xs) q =
     (case x of
        Enq a \<Rightarrow> Option.bind (enq a q) (run_queue enq deq xs)
      | Deq \<Rightarrow> Option.bind (deq q) (\<lambda>(r, q).
          Option.bind (run_queue enq deq xs q) (\<lambda>(rs, q). Some (r # rs, q))))"

primrec run_list :: "'a qop list \<Rightarrow> 'a list \<Rightarrow> 'a option list \<times> 'a list" where
  "run_list [] ms = ([], ms)"
| "run_list (x # xs) ms =
     (case x of
        Enq a \<Rightarrow> run_list xs (ms @ [a])
      | Deq \<Rightarrow> (let (rs, ms') = run_list xs (tl ms)
                in ((if ms = [] then None else Some (hd ms)) # rs, ms')))"

context fifo
begin

lemma run_refines:
  "wf q \<Longrightarrow> \<exists>q'. run_queue enq deq ops q = Some (fst (run_list ops (contents q)), q')
     \<and> wf q' \<and> contents q' = snd (run_list ops (contents q))"
proof (induction ops arbitrary: q)
  case Nil
  then show ?case by simp
next
  case (Cons x ops)
  show ?case
  proof (cases x)
    case (Enq a)
    obtain q1 where "enq a q = Some q1" "wf q1" "contents q1 = contents q @ [a]"
      using enq_ok [OF Cons.prems] by blast
    with Cons.IH [of q1] Enq show ?thesis by auto
  next
    case Deq
    obtain q1 where q1: "deq q = Some (if contents q = [] then None else Some (hd (contents q)), q1)"
      "wf q1" "contents q1 = tl (contents q)"
      using deq_empty [OF Cons.prems] deq_cons [OF Cons.prems] by (cases "contents q") auto
    obtain q2 where "run_queue enq deq ops q1 = Some (fst (run_list ops (contents q1)), q2)"
      "wf q2" "contents q2 = snd (run_list ops (contents q1))"
      using Cons.IH [OF q1(2)] by blast
    with q1 Deq show ?thesis by (auto simp: Let_def split_beta)
  qed
qed

lemma enq_list:
  "wf q \<Longrightarrow> \<exists>q'. enq_all enq xs q = Some q' \<and> wf q' \<and> contents q' = contents q @ xs"
proof (induction xs arbitrary: q)
  case Nil
  then show ?case by simp
next
  case (Cons x xs)
  obtain q1 where "enq x q = Some q1" "wf q1" "contents q1 = contents q @ [x]"
    using enq_ok [OF Cons.prems] by blast
  with Cons.IH [of q1] show ?case by auto
qed

lemma drain_all:
  "wf q \<Longrightarrow> \<exists>q'. drain deq q = Some (contents q, q') \<and> wf q' \<and> contents q' = []"
proof (induction "contents q" arbitrary: q)
  case Nil
  then show ?case using deq_empty [of q] by (auto simp: drain.simps [of deq q])
next
  case (Cons x xs)
  obtain q1 where q1: "deq q = Some (Some x, q1)" "wf q1" "contents q1 = xs"
    using deq_cons [OF Cons.prems] Cons.hyps(2) by metis
  obtain q2 where "drain deq q1 = Some (xs, q2)" "wf q2" "contents q2 = []"
    using Cons.hyps(1) [of q1] q1 by auto
  then show ?case
    using q1 Cons.hyps(2) by (auto simp: drain.simps [of deq q])
qed

lemma drain_after_enq:
  assumes "wf q"
  shows "\<exists>q1 q2. enq_all enq xs q = Some q1 \<and> drain deq q1 = Some (contents q @ xs, q2)
    \<and> wf q2 \<and> contents q2 = []"
  using enq_list [OF assms, of xs] drain_all by force

end

section \<open>Byte order\<close>

text \<open>Little-endian and big-endian byte strings of a 32-bit value, and back.\<close>

definition le32 :: "u32 \<Rightarrow> bytes" where
  "le32 w = [ucast w, ucast (drop_bit 8 w), ucast (drop_bit 16 w), ucast (drop_bit 24 w)]"

definition of_le32 :: "u8 \<Rightarrow> u8 \<Rightarrow> u8 \<Rightarrow> u8 \<Rightarrow> u32" where
  "of_le32 a b c d = ucast a OR push_bit 8 (ucast b) OR push_bit 16 (ucast c) OR push_bit 24 (ucast d)"

lemma of_le32_le32:
  "of_le32 (ucast w) (ucast (drop_bit 8 w)) (ucast (drop_bit 16 w)) (ucast (drop_bit 24 w)) = w"
proof (rule bit_eqI)
  fix n
  assume "possible_bit TYPE(u32) n"
  then have "n < 32" by simp
  then consider "n < 8" | "8 \<le> n \<and> n < 16" | "16 \<le> n \<and> n < 24" | "24 \<le> n \<and> n < 32" by linarith
  then show "bit (of_le32 (ucast w) (ucast (drop_bit 8 w)) (ucast (drop_bit 16 w))
      (ucast (drop_bit 24 w))) n = bit w n"
    by cases (auto simp: of_le32_def bit_simps)
qed

lemma ucast_of_le32:
  "ucast (of_le32 a b c d) = a"
  "ucast (drop_bit 8 (of_le32 a b c d)) = b"
  "ucast (drop_bit 16 (of_le32 a b c d)) = c"
  "ucast (drop_bit 24 (of_le32 a b c d)) = d"
  by (rule bit_word_eqI, force simp: of_le32_def bit_simps dest: bit_imp_le_length)+

lemma length_le32 [simp]: "length (le32 w) = 4"
  by (simp add: le32_def)

section \<open>Masks\<close>

text \<open>The low and the high bits of a word, as remainder and quotient.\<close>

lemma or_mask_eq_iff:
  "(a OR mask n) = (b OR mask n) \<longleftrightarrow> unat a div 2 ^ n = unat b div 2 ^ n" for a b :: "'a::len word"
proof -
  have "(a OR mask n) = (b OR mask n) \<longleftrightarrow> drop_bit n a = drop_bit n b"
  proof
    assume eq: "(a OR mask n) = (b OR mask n)"
    show "drop_bit n a = drop_bit n b"
    proof (rule bit_word_eqI)
      fix m
      have "bit (a OR mask n) (n + m) = bit (b OR mask n) (n + m)" by (simp only: eq)
      then show "bit (drop_bit n a) m = bit (drop_bit n b) m" by (simp add: bit_simps)
    qed
  next
    assume eq: "drop_bit n a = drop_bit n b"
    show "(a OR mask n) = (b OR mask n)"
    proof (rule bit_word_eqI)
      fix m
      assume "m < LENGTH('a)"
      moreover have "bit (drop_bit n a) (m - n) = bit (drop_bit n b) (m - n)" by (simp only: eq)
      ultimately show "bit (a OR mask n) m = bit (b OR mask n) m"
        by (cases "m < n") (auto simp: bit_simps)
    qed
  qed
  also have "\<dots> \<longleftrightarrow> unat (drop_bit n a) = unat (drop_bit n b)"
    by (rule word_unat_eq_iff)
  finally show ?thesis by (simp only: unat_drop_bit_eq) (simp only: drop_bit_eq_div)
qed

lemma unat_and_mask: "unat (a AND mask n) = unat a mod 2 ^ n" for a :: "'a::len word"
  by (simp only: take_bit_eq_mask [symmetric] unsigned_take_bit_eq) (simp only: take_bit_eq_mod)

lemma unat_and_one: "unat (b AND 1) = unat b mod 2" for b :: "'a::len word"
  using unat_and_mask [of b 1] by simp

lemma map_in_shuffles: "zs \<in> shuffles xs ys \<Longrightarrow> map f zs \<in> shuffles (map f xs) (map f ys)"
  by (induction xs ys arbitrary: zs rule: shuffles.induct) auto

end
