(* ===== verification/Mq.thy ===== *)
theory Mq
  imports Prelude
begin

text \<open>
  The message queues of \<open>skynet-src/skynet_mq.c\<close>: a growing ring buffer per service and the
  global list of queues that have work, linked through their \<open>next\<close> pointers. Every operation
  runs under the spin lock of the queue it works on (and of the global list), so each is one
  atomic step; \<open>Scheduler\<close> interleaves them. The type of a message is a parameter, since the
  queue only copies it. Indices and counters are natural numbers (the C \<open>int\<close>s stay far below
  \<open>2\<^sup>3\<^sup>1\<close> unless a queue holds that many messages).
\<close>

definition DEFAULT_QUEUE_SIZE :: nat where
  "DEFAULT_QUEUE_SIZE = 64"

definition MQ_OVERLOAD :: nat where
  "MQ_OVERLOAD = 1024"

record 'm message_queue =
  mq_handle :: u32
  mq_cap :: nat
  mq_head :: nat
  mq_tail :: nat
  mq_release :: bool
  mq_in_global :: bool
  mq_overload :: nat
  mq_overload_threshold :: nat
  mq_queue :: "'m option list"
  mq_next :: "ptr option"

record 'm mq_state =
  mq_heap :: "ptr \<Rightarrow> 'm message_queue option"
  gq_head :: "ptr option"
  gq_tail :: "ptr option"

section \<open>One queue\<close>

definition skynet_mq_create :: "u32 \<Rightarrow> 'm message_queue" where
  "skynet_mq_create handle =
     \<lparr>mq_handle = handle, mq_cap = DEFAULT_QUEUE_SIZE, mq_head = 0, mq_tail = 0,
      mq_release = False, mq_in_global = True, mq_overload = 0,
      mq_overload_threshold = MQ_OVERLOAD,
      mq_queue = replicate DEFAULT_QUEUE_SIZE None, mq_next = None\<rparr>"

definition skynet_mq_length :: "'m message_queue \<Rightarrow> nat" where
  "skynet_mq_length q =
     (if mq_head q \<le> mq_tail q then mq_tail q - mq_head q
      else mq_tail q + mq_cap q - mq_head q)"

definition skynet_mq_overload :: "'m message_queue \<Rightarrow> nat \<times> 'm message_queue" where
  "skynet_mq_overload q =
     (if mq_overload q \<noteq> 0 then (mq_overload q, q\<lparr>mq_overload := 0\<rparr>) else (0, q))"

text \<open>The loop \<open>while (length > q->overload_threshold)\<close> of \<open>skynet_mq_pop\<close>.\<close>

partial_function (option) overload_loop :: "nat \<Rightarrow> nat \<Rightarrow> nat \<Rightarrow> (nat \<times> nat) option" where
  "overload_loop len overload threshold =
     (if len > threshold then overload_loop len len (threshold * 2)
      else Some (overload, threshold))"

definition skynet_mq_pop :: "'m message_queue \<Rightarrow> ('m option \<times> 'm message_queue) option" where
  "skynet_mq_pop q =
     (if mq_head q \<noteq> mq_tail q then do {
        message \<leftarrow> arr_read (mq_queue q) (mq_head q);
        let head = (if mq_head q + 1 \<ge> mq_cap q then 0 else mq_head q + 1);
        let len = int (mq_tail q) - int head;
        let len = (if len < 0 then len + int (mq_cap q) else len);
        (overload, threshold) \<leftarrow>
           overload_loop (nat len) (mq_overload q) (mq_overload_threshold q);
        Some (Some message, q\<lparr>mq_head := head, mq_overload := overload,
                              mq_overload_threshold := threshold\<rparr>)
      }
      else Some (None, q\<lparr>mq_overload_threshold := MQ_OVERLOAD, mq_in_global := False\<rparr>))"

definition expand_queue :: "'m message_queue \<Rightarrow> 'm message_queue" where
  "expand_queue q =
     q\<lparr>mq_head := 0, mq_tail := mq_cap q, mq_cap := mq_cap q * 2,
       mq_queue := map (\<lambda>i. arr_read (mq_queue q) ((mq_head q + i) mod mq_cap q)) [0..<mq_cap q]
                   @ replicate (mq_cap q) None\<rparr>"

text \<open>The part of \<open>skynet_mq_push\<close> that stores the message, up to the expansion.\<close>

definition mq_store :: "'m \<Rightarrow> 'm message_queue \<Rightarrow> 'm message_queue option" where
  "mq_store message q = do {
     cells \<leftarrow> arr_write (mq_queue q) (mq_tail q) message;
     let tail = (if mq_tail q + 1 \<ge> mq_cap q then 0 else mq_tail q + 1);
     let q = q\<lparr>mq_queue := cells, mq_tail := tail\<rparr>;
     Some (if mq_head q = mq_tail q then expand_queue q else q)
   }"

section \<open>The global queue and the operations on the heap of queues\<close>

text \<open>
  These work on any state that extends \<^typ>\<open>'m mq_state\<close>, so that the operations of the whole
  node reuse them as they are.
\<close>

definition skynet_globalmq_push ::
  "ptr \<Rightarrow> ('m, 'z) mq_state_scheme \<Rightarrow> ('m, 'z) mq_state_scheme option" where
  "skynet_globalmq_push queue s = do {
     q \<leftarrow> mq_heap s queue;
     if mq_next q \<noteq> None then None
     else (case gq_tail s of
        Some t \<Rightarrow> do {
          tq \<leftarrow> mq_heap s t;
          Some (s\<lparr>mq_heap := (mq_heap s)(t \<mapsto> tq\<lparr>mq_next := Some queue\<rparr>),
                  gq_tail := Some queue\<rparr>)
        }
      | None \<Rightarrow> Some (s\<lparr>gq_head := Some queue, gq_tail := Some queue\<rparr>))
   }"

definition skynet_globalmq_pop ::
  "('m, 'z) mq_state_scheme \<Rightarrow> (ptr option \<times> ('m, 'z) mq_state_scheme) option" where
  "skynet_globalmq_pop s =
     (case gq_head s of
        None \<Rightarrow> Some (None, s)
      | Some mq \<Rightarrow> do {
          q \<leftarrow> mq_heap s mq;
          if mq_next q = None \<and> gq_tail s \<noteq> Some mq then None
          else Some (Some mq,
            s\<lparr>gq_head := mq_next q,
              gq_tail := (if mq_next q = None then None else gq_tail s),
              mq_heap := (mq_heap s)(mq \<mapsto> q\<lparr>mq_next := None\<rparr>)\<rparr>)
        })"

definition skynet_mq_init :: "'m mq_state" where
  "skynet_mq_init = \<lparr>mq_heap = Map.empty, gq_head = None, gq_tail = None\<rparr>"

definition skynet_mq_push ::
  "ptr \<Rightarrow> 'm \<Rightarrow> ('m, 'z) mq_state_scheme \<Rightarrow> ('m, 'z) mq_state_scheme option" where
  "skynet_mq_push p message s = do {
     q \<leftarrow> mq_heap s p;
     q \<leftarrow> mq_store message q;
     if \<not> mq_in_global q
     then skynet_globalmq_push p (s\<lparr>mq_heap := (mq_heap s)(p \<mapsto> q\<lparr>mq_in_global := True\<rparr>)\<rparr>)
     else Some (s\<lparr>mq_heap := (mq_heap s)(p \<mapsto> q)\<rparr>)
   }"

definition skynet_mq_mark_release ::
  "ptr \<Rightarrow> ('m, 'z) mq_state_scheme \<Rightarrow> ('m, 'z) mq_state_scheme option" where
  "skynet_mq_mark_release p s = do {
     q \<leftarrow> mq_heap s p;
     if mq_release q then None
     else do {
       let s = s\<lparr>mq_heap := (mq_heap s)(p \<mapsto> q\<lparr>mq_release := True\<rparr>)\<rparr>;
       if \<not> mq_in_global q then skynet_globalmq_push p s else Some s
     }
   }"

text \<open>\<open>skynet_mq_pop\<close> on the heap.\<close>

definition mq_pop_at ::
  "ptr \<Rightarrow> ('m, 'z) mq_state_scheme \<Rightarrow> ('m option \<times> ('m, 'z) mq_state_scheme) option" where
  "mq_pop_at p s = do {
     q \<leftarrow> mq_heap s p;
     (m, q) \<leftarrow> skynet_mq_pop q;
     Some (m, s\<lparr>mq_heap := (mq_heap s)(p \<mapsto> q)\<rparr>)
   }"

definition mq_release_at ::
  "ptr \<Rightarrow> ('m, 'z) mq_state_scheme \<Rightarrow> ('m, 'z) mq_state_scheme option" where
  "mq_release_at p s = do {
     q \<leftarrow> mq_heap s p;
     if mq_next q \<noteq> None then None else Some (s\<lparr>mq_heap := (mq_heap s)(p := None)\<rparr>)
   }"

partial_function (option) drop_queue ::
  "('m \<Rightarrow> ('m, 'z) mq_state_scheme \<Rightarrow> ('m, 'z) mq_state_scheme option) \<Rightarrow> ptr
     \<Rightarrow> ('m, 'z) mq_state_scheme \<Rightarrow> ('m, 'z) mq_state_scheme option" where
  "drop_queue drop_func p s =
     Option.bind (mq_pop_at p s) (\<lambda>(msg, s).
       case msg of
         None \<Rightarrow> mq_release_at p s
       | Some m \<Rightarrow> Option.bind (drop_func m s) (\<lambda>s. drop_queue drop_func p s))"

definition skynet_mq_release ::
  "('m \<Rightarrow> ('m, 'z) mq_state_scheme \<Rightarrow> ('m, 'z) mq_state_scheme option) \<Rightarrow> ptr
     \<Rightarrow> ('m, 'z) mq_state_scheme \<Rightarrow> ('m, 'z) mq_state_scheme option" where
  "skynet_mq_release drop_func p s = do {
     q \<leftarrow> mq_heap s p;
     if mq_release q then drop_queue drop_func p s else skynet_globalmq_push p s
   }"

section \<open>The ring buffer is a queue\<close>

text \<open>The pending messages, oldest first, and what every operation keeps true of a queue.\<close>

definition mq_contents :: "'m message_queue \<Rightarrow> 'm list" where
  "mq_contents q = pending (mq_queue q) (mq_head q) (mq_tail q) (mq_cap q)"

definition mq_wf :: "'m message_queue \<Rightarrow> bool" where
  "mq_wf q \<longleftrightarrow> ring_ok (mq_queue q) (mq_head q) (mq_tail q) (mq_cap q) \<and> 0 < mq_overload_threshold q"

lemma overload_loop_terminates:
  assumes "0 < threshold"
  shows "\<exists>ovl thr. overload_loop len overload threshold = Some (ovl, thr)
    \<and> len \<le> thr \<and> threshold \<le> thr \<and> (len \<le> threshold \<longrightarrow> ovl = overload \<and> thr = threshold)
    \<and> (threshold < len \<longrightarrow> ovl = len)"
  using assms
proof (induction "len - threshold" arbitrary: overload threshold rule: less_induct)
  case less
  show ?case
  proof (cases "len > threshold")
    case True
    with less.prems have "len - threshold * 2 < len - threshold" "0 < threshold * 2" by linarith+
    from less.hyps [OF this, of len] show ?thesis
      using True by (subst overload_loop.simps) (force simp: not_le)
  next
    case False
    then show ?thesis by (subst overload_loop.simps) auto
  qed
qed

lemma mq_wf_create: "mq_wf (skynet_mq_create h)" "mq_contents (skynet_mq_create h) = []"
  by (simp_all add: mq_wf_def mq_contents_def skynet_mq_create_def DEFAULT_QUEUE_SIZE_def
      MQ_OVERLOAD_def ring_new)

lemma mq_create_simps [simp]:
  "mq_handle (skynet_mq_create h) = h" "mq_release (skynet_mq_create h) = False"
  "mq_in_global (skynet_mq_create h) = True" "mq_next (skynet_mq_create h) = None"
  by (simp_all add: skynet_mq_create_def)

lemma wrap_eq_mod: "i < c \<Longrightarrow> (if c \<le> Suc i then 0 else i + 1) = Suc i mod c"
  by (auto simp: le_less_Suc_eq less_Suc_eq_le mod_Suc)

lemma expand_queue_cells:
  assumes "0 < mq_cap q" "length (mq_queue q) = mq_cap q"
  shows "mq_queue (expand_queue q) = ring (mq_queue q) (mq_head q) (mq_cap q) @ replicate (mq_cap q) None"
  using assms ring_read [of "mq_queue q" "mq_head q" "mq_cap q"] by (force simp: expand_queue_def)

lemma mq_store_ok:
  assumes "mq_wf q"
  shows "\<exists>q'. mq_store m q = Some q' \<and> mq_wf q' \<and> mq_contents q' = mq_contents q @ [m]"
proof -
  let ?t = "Suc (mq_tail q) mod mq_cap q"
  define q1 where "q1 = q\<lparr>mq_queue := (mq_queue q)[mq_tail q := Some m], mq_tail := ?t\<rparr>"
  have ok: "ring_ok (mq_queue q) (mq_head q) (mq_tail q) (mq_cap q)" "0 < mq_overload_threshold q"
    using assms by (simp_all add: mq_wf_def)
  then have store: "mq_store m q = Some (if mq_head q = ?t then expand_queue q1 else q1)"
    by (simp add: mq_store_def arr_write_def wrap_eq_mod q1_def Let_def ring_ok_def)
  show ?thesis
  proof (cases "mq_head q = ?t")
    case True
    have "0 < mq_cap q1" "length (mq_queue q1) = mq_cap q1" "mq_cap q < mq_cap q * 2"
      using ok(1) by (simp_all add: q1_def ring_ok_def)
    then have "mq_wf (expand_queue q1)" "mq_contents (expand_queue q1) = mq_contents q @ [m]"
      using ring_store_full [OF ok(1) True [symmetric], of "mq_cap q * 2" m] expand_queue_cells [of q1] ok(2)
      by (simp_all add: mq_wf_def mq_contents_def) (simp_all add: expand_queue_def q1_def)
    with store True show ?thesis by auto
  next
    case False
    with ring_store [OF ok(1), of m] ok(2) have "mq_wf q1" "mq_contents q1 = mq_contents q @ [m]"
      by (simp_all add: mq_wf_def mq_contents_def q1_def)
    with store False show ?thesis by auto
  qed
qed

lemma mq_store_frame:
  assumes "mq_store m q = Some q'"
  shows "mq_handle q' = mq_handle q" "mq_release q' = mq_release q"
    "mq_in_global q' = mq_in_global q" "mq_next q' = mq_next q"
  using assms by (auto simp: mq_store_def expand_queue_def bind_eq_Some_conv Let_def split: if_splits)

lemma mq_pop_length:
  assumes "h < c" "t < c"
  shows "nat (let len = int t - int h in if len < 0 then len + int c else len) = ring_len h t c"
  using assms by (auto simp: ring_len_def Let_def)

lemma mq_pop_nonempty:
  assumes "mq_wf q" "mq_contents q = x # xs"
  shows "\<exists>q'. skynet_mq_pop q = Some (Some x, q') \<and> mq_wf q' \<and> mq_contents q' = xs
    \<and> length xs \<le> mq_overload_threshold q'
    \<and> (mq_overload_threshold q < length xs \<longrightarrow> mq_overload q' = length xs)"
proof -
  let ?c = "mq_cap q" and ?h = "mq_head q" and ?t = "mq_tail q"
  let ?h' = "Suc ?h mod ?c"
  let ?n = "ring_len ?h' ?t ?c"
  have ok: "ring_ok (mq_queue q) ?h ?t ?c" "0 < mq_overload_threshold q"
    using assms(1) by (simp_all add: mq_wf_def)
  note r = ring_take [OF ok(1) assms(2) [unfolded mq_contents_def]]
  have lt: "?h < ?c" "?t < ?c" "?h' < ?c" "length (mq_queue q) = ?c" using ok(1) by (auto simp: ring_ok_def)
  have lxs: "length xs = ?n" using r(4) by (auto simp: pending_def)
  obtain ovl thr where ol: "overload_loop ?n (mq_overload q) (mq_overload_threshold q) = Some (ovl, thr)"
    and thr: "?n \<le> thr" "mq_overload_threshold q \<le> thr"
      "mq_overload_threshold q < ?n \<longrightarrow> ovl = ?n"
    using overload_loop_terminates [OF ok(2), of ?n "mq_overload q"] by blast
  let ?q = "q\<lparr>mq_head := ?h', mq_overload := ovl, mq_overload_threshold := thr\<rparr>"
  have "skynet_mq_pop q = Some (Some x, ?q)"
    using r(1,2) lt ol mq_pop_length [OF lt(3,2)] wrap_eq_mod [of ?h ?c]
    by (simp add: skynet_mq_pop_def arr_read_def Let_def)
  moreover have "mq_wf ?q" using ok r(3) thr by (auto simp: mq_wf_def)
  moreover have "mq_contents ?q = xs" using r(4) by (simp add: mq_contents_def)
  ultimately show ?thesis using thr lxs by auto
qed

lemma mq_contents_empty_iff: "mq_wf q \<Longrightarrow> mq_contents q = [] \<longleftrightarrow> mq_head q = mq_tail q"
  by (simp add: mq_wf_def mq_contents_def pending_empty_iff)

lemma mq_pop_empty:
  assumes "mq_wf q" "mq_contents q = []"
  shows "skynet_mq_pop q
      = Some (None, q\<lparr>mq_overload_threshold := MQ_OVERLOAD, mq_in_global := False\<rparr>)"
  using assms mq_contents_empty_iff [OF assms(1)] by (simp add: skynet_mq_pop_def)

lemma mq_wf_threshold:
  "mq_wf q \<Longrightarrow> 0 < t \<Longrightarrow> mq_wf (q\<lparr>mq_overload_threshold := t, mq_in_global := b\<rparr>)"
  "mq_contents (q\<lparr>mq_overload_threshold := t, mq_in_global := b\<rparr>) = mq_contents q"
  by (auto simp: mq_wf_def mq_contents_def)

interpretation mq: fifo mq_store skynet_mq_pop mq_contents mq_wf
proof unfold_locales
  fix q :: "'m message_queue" and m
  assume "mq_wf q"
  then show "\<exists>q'. mq_store m q = Some q' \<and> mq_wf q' \<and> mq_contents q' = mq_contents q @ [m]"
    by (rule mq_store_ok)
next
  fix q :: "'m message_queue"
  assume "mq_wf q" "mq_contents q = []"
  then show "\<exists>q'. skynet_mq_pop q = Some (None, q') \<and> mq_wf q' \<and> mq_contents q' = []"
    by (auto simp: mq_pop_empty mq_wf_threshold MQ_OVERLOAD_def)
next
  fix q :: "'m message_queue" and x xs
  assume wf: "mq_wf q" and c: "mq_contents q = x # xs"
  show "\<exists>q'. skynet_mq_pop q = Some (Some x, q') \<and> mq_wf q' \<and> mq_contents q' = xs"
    using mq_pop_nonempty [OF wf c] by auto
qed

lemma mq_pop_frame:
  assumes "skynet_mq_pop q = Some (r, q')"
  shows "mq_handle q' = mq_handle q" "mq_release q' = mq_release q" "mq_next q' = mq_next q"
    "mq_in_global q' = (r \<noteq> None \<and> mq_in_global q)"
proof -
  have "mq_handle q' = mq_handle q \<and> mq_release q' = mq_release q \<and> mq_next q' = mq_next q
      \<and> mq_in_global q' = (r \<noteq> None \<and> mq_in_global q)"
  proof (cases "mq_head q = mq_tail q")
    case True
    then show ?thesis using assms by (auto simp: skynet_mq_pop_def)
  next
    case False
    then obtain m h ovl thr where "r = Some m"
      "q' = q\<lparr>mq_head := h, mq_overload := ovl, mq_overload_threshold := thr\<rparr>"
      using assms by (simp add: skynet_mq_pop_def bind_eq_Some_conv Let_def split_beta) blast
    then show ?thesis by simp
  qed
  then show "mq_handle q' = mq_handle q" "mq_release q' = mq_release q" "mq_next q' = mq_next q"
    "mq_in_global q' = (r \<noteq> None \<and> mq_in_global q)" by blast+
qed

section \<open>Properties\<close>

text \<open>
  C1. Refinement: whatever sequence of pushes and pops runs on a queue made by
  \<open>skynet_mq_create\<close> (through wrap-arounds, expansions and overload bookkeeping), every operation
  returns and the pops give exactly what a list used as a first-in first-out queue gives.
\<close>

theorem mq_refines_list:
  "\<exists>q. run_queue mq_store skynet_mq_pop ops (skynet_mq_create h) = Some (fst (run_list ops []), q)
     \<and> mq_contents q = snd (run_list ops [])"
  using mq.run_refines [of "skynet_mq_create h" ops] by (auto simp: mq_wf_create)

text \<open>
  Overload accounting: popping a non-empty well-formed queue returns its oldest message (the
  doubling loop ends), afterwards the threshold is at least the number of messages left, and when
  that number had passed the old threshold it is what \<open>skynet_mq_overload\<close> will report, once.
\<close>

lemma mq_pop_overload:
  assumes "mq_wf q" "mq_contents q = x # xs"
  shows "\<exists>q'. skynet_mq_pop q = Some (Some x, q') \<and> mq_contents q' = xs
    \<and> skynet_mq_length q' = length xs \<and> length xs \<le> mq_overload_threshold q'
    \<and> (mq_overload_threshold q < length xs \<longrightarrow> fst (skynet_mq_overload q') = length xs)
    \<and> fst (skynet_mq_overload (snd (skynet_mq_overload q'))) = 0"
proof -
  obtain q' where q': "skynet_mq_pop q = Some (Some x, q')" "mq_wf q'" "mq_contents q' = xs"
    "length xs \<le> mq_overload_threshold q'"
    "mq_overload_threshold q < length xs \<longrightarrow> mq_overload q' = length xs"
    using mq_pop_nonempty [OF assms] by blast
  have "skynet_mq_length q' = length (mq_contents q')"
    by (simp add: skynet_mq_length_def mq_contents_def pending_def ring_len_def)
  with q' show ?thesis by (auto simp: skynet_mq_overload_def)
qed

end
