(* ===== verification/Scheduler.thy ===== *)
theory Scheduler
  imports Mq
begin

text \<open>
  The protocol between the worker threads and the queues of \<open>skynet-src/skynet_mq.c\<close>, as
  \<open>skynet_context_message_dispatch\<close> runs it: the queues with work are linked into the global
  list, a worker takes one out, dispatches messages from it and puts it back or lets it go idle.
  The theory shows that the global list is a well-formed list under every operation, and, by
  rule induction over the interleaved steps of all threads, that a service is never dispatched
  by two workers at once, that no queue with messages is forgotten, and that no assertion of
  \<open>skynet_mq.c\<close> fails.
\<close>

section \<open>The global list as a list\<close>

definition next_of :: "('m, 'z) mq_state_scheme \<Rightarrow> ptr \<Rightarrow> ptr option" where
  "next_of s p = Option.bind (mq_heap s p) mq_next"

definition gq_inv :: "('m, 'z) mq_state_scheme \<Rightarrow> ptr list \<Rightarrow> bool" where
  "gq_inv s xs \<longleftrightarrow> chain (next_of s) (gq_head s) xs \<and> distinct xs
     \<and> gq_tail s = (if xs = [] then None else Some (last xs))
     \<and> (\<forall>p \<in> set xs. mq_heap s p \<noteq> None)
     \<and> (\<forall>p. p \<notin> set xs \<longrightarrow> next_of s p = None)"

text \<open>What the operations on the global list leave alone: every field but \<open>next\<close>.\<close>

definition unlinked :: "('m, 'z) mq_state_scheme \<Rightarrow> ptr \<Rightarrow> 'm message_queue option" where
  "unlinked s p = map_option (mq_next_update (\<lambda>_. None)) (mq_heap s p)"

lemma gq_inv_init: "gq_inv skynet_mq_init []"
  by (simp add: gq_inv_def skynet_mq_init_def next_of_def)

lemma gq_inv_next_last: "gq_inv s xs \<Longrightarrow> xs \<noteq> [] \<Longrightarrow> next_of s (last xs) = None"
  unfolding gq_inv_def by (cases xs rule: rev_cases) (auto dest: chain_last_None)

lemma globalmq_push_ok:
  assumes "gq_inv s xs" "mq_heap s p \<noteq> None" "p \<notin> set xs"
  shows "\<exists>s'. skynet_globalmq_push p s = Some s' \<and> gq_inv s' (xs @ [p])
    \<and> unlinked s' = unlinked s \<and> mq_state.more s' = mq_state.more s"
proof -
  from assms(2) obtain q where q: "mq_heap s p = Some q" by blast
  have nq: "mq_next q = None" using assms q by (auto simp: gq_inv_def next_of_def)
  show ?thesis
  proof (cases xs rule: rev_cases)
    case Nil
    then show ?thesis using assms q nq
      by (auto simp: skynet_globalmq_push_def gq_inv_def next_of_def unlinked_def)
  next
    case (snoc ys t)
    then obtain tq where tq: "mq_heap s t = Some tq"
      using assms(1) by (auto simp: gq_inv_def)
    let ?s = "s\<lparr>mq_heap := (mq_heap s)(t \<mapsto> tq\<lparr>mq_next := Some p\<rparr>), gq_tail := Some p\<rparr>"
    have push: "skynet_globalmq_push p s = Some ?s"
      using q nq tq assms(1) snoc by (simp add: skynet_globalmq_push_def gq_inv_def)
    have nxt: "next_of ?s = (next_of s)(t := Some p)"
      by (auto simp: next_of_def fun_eq_iff)
    have "chain (next_of ?s) (gq_head s) (ys @ [t, p])"
      unfolding nxt using assms snoc by (intro chain_snoc) (auto simp: gq_inv_def)
    then have "gq_inv ?s (xs @ [p])"
      using assms q tq snoc nxt by (auto simp: gq_inv_def)
    moreover have "unlinked ?s = unlinked s"
      using tq by (auto simp: unlinked_def fun_eq_iff)
    ultimately show ?thesis using push by auto
  qed
qed

lemma globalmq_pop_empty: "gq_inv s [] \<Longrightarrow> skynet_globalmq_pop s = Some (None, s)"
  by (simp add: gq_inv_def skynet_globalmq_pop_def)

lemma globalmq_pop_ok:
  assumes "gq_inv s (p # xs)"
  shows "\<exists>s'. skynet_globalmq_pop s = Some (Some p, s') \<and> gq_inv s' xs
    \<and> unlinked s' = unlinked s \<and> mq_state.more s' = mq_state.more s"
proof -
  from assms obtain q where q: "mq_heap s p = Some q" by (auto simp: gq_inv_def)
  let ?s = "s\<lparr>gq_head := mq_next q, gq_tail := (if mq_next q = None then None else gq_tail s),
    mq_heap := (mq_heap s)(p \<mapsto> q\<lparr>mq_next := None\<rparr>)\<rparr>"
  have ch: "chain (next_of s) (mq_next q) xs" and "p \<notin> set xs"
    using assms q by (auto simp: gq_inv_def next_of_def)
  then have nil: "mq_next q = None \<longleftrightarrow> xs = []" by (cases xs) auto
  have nxt: "next_of ?s = (next_of s)(p := None)" by (auto simp: next_of_def fun_eq_iff)
  have pop: "skynet_globalmq_pop s = Some (Some p, ?s)"
    using assms q nil by (auto simp: skynet_globalmq_pop_def gq_inv_def)
  have "gq_inv ?s xs"
    using assms ch \<open>p \<notin> set xs\<close> nil nxt
    by (auto simp: gq_inv_def chain_upd_notin)
  moreover have "unlinked ?s = unlinked s" using q by (auto simp: unlinked_def fun_eq_iff)
  ultimately show ?thesis using pop by auto
qed

text \<open>An update of a queue that keeps its link keeps the list.\<close>

lemma gq_inv_upd:
  assumes "gq_inv s xs" "mq_heap s p = Some q" "mq_next q' = mq_next q"
  shows "gq_inv (s\<lparr>mq_heap := (mq_heap s)(p \<mapsto> q')\<rparr>) xs"
proof -
  have "next_of (s\<lparr>mq_heap := (mq_heap s)(p \<mapsto> q')\<rparr>) = next_of s"
    using assms by (auto simp: next_of_def fun_eq_iff)
  then show ?thesis using assms by (auto simp: gq_inv_def)
qed

lemma gq_inv_more: "gq_inv s xs \<Longrightarrow> mq_state.truncate s' = mq_state.truncate s \<Longrightarrow> gq_inv s' xs"
  by (cases s; cases s') (simp add: gq_inv_def mq_state.defs next_of_def [abs_def])

section \<open>Workers and queues, interleaved\<close>

text \<open>
  The state adds what each thread holds: the queue it took from the global list (or has just
  created) and has not yet let go. The rules are the atomic steps of \<open>skynet_server.c\<close> on
  queues:
  \<^item> \<open>create\<close>: \<open>skynet_context_new\<close> makes a queue, flagged \<open>in_global\<close>, and holds it while the
    service initialises;
  \<^item> \<open>push\<close>: any thread sends to a service it has a reference on, so the queue is not marked;
  \<^item> \<open>take\<close>: a worker without a queue pops the global list;
  \<^item> \<open>pop\<close>, \<open>idle\<close>: the holder takes a message, or finds the queue empty, and then the queue is
    no longer its own; it has a reference on the service, so the queue is not marked;
  \<^item> \<open>yield\<close>: the holder puts the queue (back) into the global list;
  \<^item> \<open>mark\<close>: the last reference to the service is gone (\<open>delete_context\<close>);
  \<^item> \<open>drop\<close>: the holder of a marked queue finds it empty and frees it (\<open>_drop_queue\<close>).
\<close>

record 'm sched = "'m mq_state" +
  held :: "nat \<Rightarrow> ptr option"

inductive sched_step :: "'m sched \<Rightarrow> 'm sched \<Rightarrow> bool" where
  create: "mq_heap s p = None \<Longrightarrow> held s w = None \<Longrightarrow>
     sched_step s (s\<lparr>mq_heap := (mq_heap s)(p \<mapsto> skynet_mq_create h), held := (held s)(w \<mapsto> p)\<rparr>)"
| push: "mq_heap s p = Some q \<Longrightarrow> \<not> mq_release q \<Longrightarrow> skynet_mq_push p m s = Some s' \<Longrightarrow>
     sched_step s s'"
| take: "held s w = None \<Longrightarrow> skynet_globalmq_pop s = Some (Some p, s') \<Longrightarrow>
     sched_step s (s'\<lparr>held := (held s')(w \<mapsto> p)\<rparr>)"
| pop: "held s w = Some p \<Longrightarrow> mq_pop_at p s = Some (Some m, s') \<Longrightarrow> sched_step s s'"
| idle: "held s w = Some p \<Longrightarrow> mq_heap s p = Some q \<Longrightarrow> \<not> mq_release q \<Longrightarrow>
     mq_pop_at p s = Some (None, s') \<Longrightarrow> sched_step s (s'\<lparr>held := (held s')(w := None)\<rparr>)"
| yield: "held s w = Some p \<Longrightarrow> mq_heap s p = Some q \<Longrightarrow> \<not> mq_release q \<Longrightarrow>
     skynet_globalmq_push p s = Some s' \<Longrightarrow> sched_step s (s'\<lparr>held := (held s')(w := None)\<rparr>)"
| mark: "skynet_mq_mark_release p s = Some s' \<Longrightarrow> sched_step s s'"
| drop: "held s w = Some p \<Longrightarrow> mq_heap s p = Some q \<Longrightarrow> mq_release q \<Longrightarrow>
     mq_pop_at p s = Some (None, s') \<Longrightarrow> mq_release_at p s' = Some s'' \<Longrightarrow>
     sched_step s (s''\<lparr>held := (held s'')(w := None)\<rparr>)"

definition sched_init :: "'m sched" where
  "sched_init = mq_state.extend skynet_mq_init \<lparr>held = Map.empty\<rparr>"

inductive sched_reachable :: "'m sched \<Rightarrow> bool" where
  start: "sched_reachable sched_init"
| step: "sched_reachable s \<Longrightarrow> sched_step s s' \<Longrightarrow> sched_reachable s'"

text \<open>
  The invariant, over the queues \<open>u\<close> (links erased), the global list \<open>xs\<close> and the holders \<open>h\<close>:
  a queue is listed or held, never both and never twice, exactly when one of its two flags is
  set, and it is flagged whenever it has a message.
\<close>

definition scheduled :: "'m message_queue \<Rightarrow> bool" where
  "scheduled q \<longleftrightarrow> mq_in_global q \<or> mq_release q"

definition sched_ok ::
  "(ptr \<Rightarrow> 'm message_queue option) \<Rightarrow> ptr list \<Rightarrow> (nat \<Rightarrow> ptr option) \<Rightarrow> bool" where
  "sched_ok u xs h \<longleftrightarrow> set xs \<inter> ran h = {} \<and> inj_on h (dom h) \<and> ran h \<subseteq> dom u
     \<and> (\<forall>p q. u p = Some q \<longrightarrow> mq_wf q \<and> (scheduled q \<longleftrightarrow> p \<in> set xs \<union> ran h)
          \<and> (mq_contents q \<noteq> [] \<longrightarrow> scheduled q))"

definition sched_at :: "'m sched \<Rightarrow> ptr list \<Rightarrow> bool" where
  "sched_at s xs \<longleftrightarrow> gq_inv s xs \<and> sched_ok (unlinked s) xs (held s)"

definition sched_inv :: "'m sched \<Rightarrow> bool" where
  "sched_inv s \<longleftrightarrow> (\<exists>xs. sched_at s xs)"

lemma mq_wf_unlink [simp]: "mq_wf (q\<lparr>mq_next := x\<rparr>) = mq_wf q"
  "mq_contents (q\<lparr>mq_next := x\<rparr>) = mq_contents q" "scheduled (q\<lparr>mq_next := x\<rparr>) = scheduled q"
  by (simp_all add: mq_wf_def mq_contents_def scheduled_def)

lemma unlinked_upd [heap_simps]:
  "unlinked (s\<lparr>mq_heap := (mq_heap s)(p := x)\<rparr>)
     = (unlinked s)(p := map_option (mq_next_update (\<lambda>_. None)) x)"
  by (auto simp: unlinked_def fun_eq_iff)

lemma unlinked_held [heap_simps]:
  "unlinked (s\<lparr>held := h\<rparr>) = unlinked s"
  by (auto simp: unlinked_def fun_eq_iff)

lemma gq_inv_held [simp]: "gq_inv (s\<lparr>held := h\<rparr>) xs = gq_inv s xs"
  by (simp add: gq_inv_def next_of_def [abs_def])

lemma unlinked_SomeI: "mq_heap s p = Some q \<Longrightarrow> unlinked s p = Some (q\<lparr>mq_next := None\<rparr>)"
  by (simp add: unlinked_def)

lemma ran_fun_upd_None: "inj_on h (dom h) \<Longrightarrow> h w = Some p \<Longrightarrow> ran (h(w := None)) = ran h - {p}"
  by (auto simp: ran_def inj_on_def dom_def) (metis option.inject)

lemma inj_on_dom_upd_None: "inj_on h (dom h) \<Longrightarrow> inj_on (h(w := None)) (dom (h(w := None)))"
  by (auto simp: inj_on_def)

lemma inj_on_dom_upd_Some:
  "inj_on h (dom h) \<Longrightarrow> p \<notin> ran h \<Longrightarrow> inj_on (h(w \<mapsto> p)) (dom (h(w \<mapsto> p)))"
  by (auto simp: inj_on_def ran_def)

text \<open>One queue changes, and stays listed or held as before.\<close>

lemma sched_ok_upd:
  assumes "sched_ok u xs h" "u p = Some q" "mq_wf q'" "scheduled q' = scheduled q"
    "mq_contents q' \<noteq> [] \<longrightarrow> scheduled q'"
  shows "sched_ok (u(p \<mapsto> q')) xs h"
  using assms by (auto simp: sched_ok_def)

text \<open>A queue that was neither listed nor held is flagged and listed.\<close>

lemma sched_ok_list:
  assumes "sched_ok u xs h" "u p = Some q" "\<not> scheduled q" "mq_wf q'" "scheduled q'"
  shows "sched_ok (u(p \<mapsto> q')) (xs @ [p]) h" "p \<notin> set xs"
  using assms by (auto simp: sched_ok_def)

text \<open>A listed queue becomes held; a held queue becomes listed; a held queue is let go.\<close>

lemma sched_ok_take:
  assumes "sched_ok u (p # xs) h" "distinct (p # xs)" "u p \<noteq> None" "h w = None"
  shows "sched_ok u xs (h(w \<mapsto> p))"
  using assms inj_on_dom_upd_Some [of h p w] by (auto simp: sched_ok_def)

lemma sched_ok_yield:
  assumes "sched_ok u xs h" "h w = Some p"
  shows "sched_ok u (xs @ [p]) (h(w := None))" "p \<notin> set xs"
proof -
  have "p \<in> ran h" using assms(2) by (auto simp: ran_def)
  with assms ran_fun_upd_None [of h w p] inj_on_dom_upd_None [of h w]
  show "sched_ok u (xs @ [p]) (h(w := None))" "p \<notin> set xs"
    by (auto simp: sched_ok_def)
qed

lemma sched_ok_letgo:
  assumes "sched_ok u xs h" "h w = Some p"
    "case x of None \<Rightarrow> True | Some q \<Rightarrow> mq_wf q \<and> \<not> scheduled q \<and> mq_contents q = []"
  shows "sched_ok (u(p := x)) xs (h(w := None))" "p \<notin> set xs"
proof -
  have "p \<in> ran h" using assms(2) by (auto simp: ran_def)
  with assms ran_fun_upd_None [of h w p] inj_on_dom_upd_None [of h w]
  show "sched_ok (u(p := x)) xs (h(w := None))" "p \<notin> set xs"
    by (auto simp: sched_ok_def split: option.splits)
qed

lemma sched_ok_create:
  assumes "sched_ok u xs h" "u p = None" "p \<notin> set xs" "h w = None"
    "mq_wf q" "scheduled q"
  shows "sched_ok (u(p \<mapsto> q)) xs (h(w \<mapsto> p))"
proof -
  have "p \<notin> ran h" using assms(1,2) by (auto simp: sched_ok_def)
  with assms inj_on_dom_upd_Some [of h p w] show ?thesis by (auto simp: sched_ok_def)
qed

section \<open>Every step keeps the invariant\<close>

lemma sched_okD:
  assumes "sched_ok u xs h" "u p = Some q"
  shows "mq_wf q" "scheduled q \<longleftrightarrow> p \<in> set xs \<union> ran h" "mq_contents q \<noteq> [] \<Longrightarrow> scheduled q"
  using assms by (auto simp: sched_ok_def)

lemma sched_ok_held:
  "sched_ok (unlinked s) xs h \<Longrightarrow> h w = Some p \<Longrightarrow> \<exists>q. mq_heap s p = Some q"
  unfolding sched_ok_def by (auto dest!: ranI [of h w p] simp: unlinked_def [abs_def] dom_def)

lemma scheduled_create [simp]: "scheduled (skynet_mq_create h)"
  by (simp add: scheduled_def skynet_mq_create_def)

lemma create_unlink [simp]: "skynet_mq_create h\<lparr>mq_next := None\<rparr> = skynet_mq_create h"
  by (simp add: skynet_mq_create_def)

text \<open>
  What each operation does to the heap, in any state whose global list is \<open>xs\<close>: it returns, and
  the listed and held queues change as described.
\<close>

lemma mq_push_scheduled_ok:
  assumes "gq_inv s xs" "mq_heap s p = Some q" "mq_wf q" "mq_in_global q"
  shows "\<exists>q' s'. mq_store m q = Some q' \<and> skynet_mq_push p m s = Some s' \<and> gq_inv s' xs
    \<and> unlinked s' = (unlinked s)(p \<mapsto> q'\<lparr>mq_next := None\<rparr>) \<and> mq_state.more s' = mq_state.more s"
proof -
  obtain q' where q': "mq_store m q = Some q'" using mq_store_ok [OF assms(3)] by blast
  note f = mq_store_frame [OF q']
  have "gq_inv (s\<lparr>mq_heap := (mq_heap s)(p \<mapsto> q')\<rparr>) xs"
    using assms f by (intro gq_inv_upd) auto
  then show ?thesis using assms q' f by (auto simp: skynet_mq_push_def heap_simps)
qed

lemma mq_push_idle_ok:
  assumes "gq_inv s xs" "mq_heap s p = Some q" "mq_wf q" "\<not> mq_in_global q" "p \<notin> set xs"
  shows "\<exists>q' s'. mq_store m q = Some q' \<and> skynet_mq_push p m s = Some s' \<and> gq_inv s' (xs @ [p])
    \<and> unlinked s' = (unlinked s)(p \<mapsto> q'\<lparr>mq_in_global := True, mq_next := None\<rparr>)
    \<and> mq_state.more s' = mq_state.more s"
proof -
  obtain q' where q': "mq_store m q = Some q'" using mq_store_ok [OF assms(3)] by blast
  note f = mq_store_frame [OF q']
  let ?s = "s\<lparr>mq_heap := (mq_heap s)(p \<mapsto> q'\<lparr>mq_in_global := True\<rparr>)\<rparr>"
  have "gq_inv ?s xs" using assms f by (intro gq_inv_upd) auto
  with globalmq_push_ok [of ?s xs p] assms
  obtain s' where "skynet_globalmq_push p ?s = Some s'" "gq_inv s' (xs @ [p])"
    "unlinked s' = unlinked ?s" "mq_state.more s' = mq_state.more ?s" by auto
  then show ?thesis using assms q' f by (auto simp: skynet_mq_push_def heap_simps)
qed

lemma mq_pop_at_ok:
  assumes "gq_inv s xs" "mq_heap s p = Some q" "mq_wf q"
  shows "\<exists>r q' s'. skynet_mq_pop q = Some (r, q') \<and> mq_pop_at p s = Some (r, s') \<and> mq_wf q'
    \<and> mq_contents q' = tl (mq_contents q) \<and> (r = None \<longleftrightarrow> mq_contents q = []) \<and> gq_inv s' xs
    \<and> unlinked s' = (unlinked s)(p \<mapsto> q'\<lparr>mq_next := None\<rparr>) \<and> mq_state.more s' = mq_state.more s"
proof -
  obtain r q' where p: "skynet_mq_pop q = Some (r, q')" "mq_wf q'"
    "mq_contents q' = tl (mq_contents q)" "r = None \<longleftrightarrow> mq_contents q = []"
    using mq.deq_empty [OF assms(3)] mq.deq_cons [OF assms(3)]
    by (cases "mq_contents q") fastforce+
  note f = mq_pop_frame [OF p(1)]
  have "gq_inv (s\<lparr>mq_heap := (mq_heap s)(p \<mapsto> q')\<rparr>) xs"
    using assms f by (intro gq_inv_upd) auto
  then show ?thesis using assms p by (auto simp: mq_pop_at_def heap_simps)
qed

text \<open>
  Each step, from a state whose global list is \<open>xs\<close>: queues are only added behind it, except that
  \<open>take\<close> removes the first.
\<close>

lemma sched_at_push:
  assumes "sched_at s xs" "mq_heap s p = Some q" "\<not> mq_release q"
  shows "\<exists>s' ys. skynet_mq_push p m s = Some s' \<and> sched_at s' (xs @ ys)"
proof -
  have xs: "gq_inv s xs" "sched_ok (unlinked s) xs (held s)"
    using assms(1) by (auto simp: sched_at_def)
  have u: "unlinked s p = Some (q\<lparr>mq_next := None\<rparr>)" using assms(2) by (rule unlinked_SomeI)
  have wf: "mq_wf q" using sched_okD(1) [OF xs(2) u] by simp
  show ?thesis
  proof (cases "mq_in_global q")
    case True
    obtain q' s' where s': "mq_store m q = Some q'" "skynet_mq_push p m s = Some s'"
      "gq_inv s' xs" "unlinked s' = (unlinked s)(p \<mapsto> q'\<lparr>mq_next := None\<rparr>)"
      "mq_state.more s' = mq_state.more s"
      using mq_push_scheduled_ok [OF xs(1) assms(2) wf True, of m] by blast
    note f = mq_store_frame [OF s'(1)]
    have "mq_wf q'" using mq_store_ok [OF wf, of m] s'(1) by auto
    then have "sched_ok (unlinked s') xs (held s)" unfolding s'(4) using f True
      by (intro sched_ok_upd [OF xs(2) u]) (auto simp: scheduled_def)
    moreover have "held s' = held s" using s'(5) by (cases s; cases s') simp
    ultimately show ?thesis using s' by (intro exI [of _ s'] exI [of _ "[]"]) (simp add: sched_at_def)
  next
    case False
    have "\<not> scheduled (q\<lparr>mq_next := None\<rparr>)" using False assms(3) by (simp add: scheduled_def)
    note new = sched_ok_list [OF xs(2) u this]
    have "p \<notin> set xs" using sched_okD(2) [OF xs(2) u] False assms(3) by (simp add: scheduled_def)
    then obtain q' s' where s': "mq_store m q = Some q'" "skynet_mq_push p m s = Some s'"
      "gq_inv s' (xs @ [p])"
      "unlinked s' = (unlinked s)(p \<mapsto> q'\<lparr>mq_in_global := True, mq_next := None\<rparr>)"
      "mq_state.more s' = mq_state.more s"
      using mq_push_idle_ok [OF xs(1) assms(2) wf False, of m] by blast
    have "mq_wf q'" using mq_store_ok [OF wf, of m] s'(1) by auto
    then have "mq_wf (q'\<lparr>mq_in_global := True, mq_next := None\<rparr>)" by (simp add: mq_wf_def)
    then have "sched_ok (unlinked s') (xs @ [p]) (held s)" unfolding s'(4)
      by (rule new(1)) (simp add: scheduled_def)
    moreover have "held s' = held s" using s'(5) by (cases s; cases s') simp
    ultimately show ?thesis using s' by (intro exI [of _ s'] exI [of _ "[p]"]) (simp add: sched_at_def)
  qed
qed


lemma sched_at_globalpush:
  assumes "sched_at s xs" "held s w = Some p"
  shows "\<exists>s'. skynet_globalmq_push p s = Some s' \<and> sched_at (s'\<lparr>held := (held s')(w := None)\<rparr>) (xs @ [p])"
proof -
  have xs: "gq_inv s xs" "sched_ok (unlinked s) xs (held s)"
    using assms(1) by (auto simp: sched_at_def)
  have "mq_heap s p \<noteq> None" using sched_ok_held [OF xs(2) assms(2)] by auto
  then obtain s' where s': "skynet_globalmq_push p s = Some s'" "gq_inv s' (xs @ [p])"
    "unlinked s' = unlinked s" "mq_state.more s' = mq_state.more s"
    using globalmq_push_ok [OF xs(1)] sched_ok_yield(2) [OF xs(2) assms(2)] by blast
  have "held s' = held s" using s'(4) by (cases s; cases s') simp
  then show ?thesis using s' sched_ok_yield(1) [OF xs(2) assms(2)]
    by (auto simp: sched_at_def heap_simps)
qed

lemma sched_at_take:
  assumes "sched_at s xs" "held s w = None" "skynet_globalmq_pop s = Some (Some p, s')"
  shows "\<exists>ys. xs = p # ys \<and> sched_at (s'\<lparr>held := (held s')(w \<mapsto> p)\<rparr>) ys"
proof -
  have xs: "gq_inv s xs" "sched_ok (unlinked s) xs (held s)"
    using assms(1) by (auto simp: sched_at_def)
  obtain x ys where l: "xs = x # ys"
    using xs(1) assms(3) globalmq_pop_empty [of s] by (cases xs) auto
  note p = globalmq_pop_ok [OF xs(1) [unfolded l]]
  then have s': "x = p" "gq_inv s' ys" "unlinked s' = unlinked s" "mq_state.more s' = mq_state.more s"
    using assms(3) by auto
  have "distinct (p # ys)" "unlinked s p \<noteq> None"
    using xs(1) l s'(1) by (auto simp: gq_inv_def unlinked_def)
  then have "sched_ok (unlinked s) ys ((held s)(w \<mapsto> p))"
    using sched_ok_take [of "unlinked s" p ys "held s" w] xs(2) l s'(1) assms(2) by auto
  moreover have "held s' = held s" using s'(4) by (cases s; cases s') simp
  ultimately show ?thesis using s' l by (auto simp: sched_at_def heap_simps)
qed

lemma sched_at_pop:
  assumes "sched_at s xs" "held s w = Some p"
  shows "\<exists>q r s'. mq_heap s p = Some q \<and> mq_pop_at p s = Some (r, s')
    \<and> (r = None \<longleftrightarrow> mq_contents q = [])
    \<and> (r \<noteq> None \<longrightarrow> sched_at s' xs) \<and> (r = None \<longrightarrow> \<not> mq_release q \<longrightarrow>
          sched_at (s'\<lparr>held := (held s')(w := None)\<rparr>) xs)
    \<and> (r = None \<longrightarrow> (\<exists>s''. mq_release_at p s' = Some s''
          \<and> sched_at (s''\<lparr>held := (held s'')(w := None)\<rparr>) xs))"
proof -
  have xs: "gq_inv s xs" "sched_ok (unlinked s) xs (held s)"
    using assms(1) by (auto simp: sched_at_def)
  have ran: "p \<in> ran (held s)" using assms(2) by (auto simp: ran_def)
  obtain q where q: "mq_heap s p = Some q" using sched_ok_held [OF xs(2) assms(2)] by auto
  note u = unlinked_SomeI [OF q]
  have wf: "mq_wf q" and sch: "scheduled q"
    using sched_okD(1,2) [OF xs(2) u] ran by simp_all
  obtain r q' s' where p: "skynet_mq_pop q = Some (r, q')" "mq_pop_at p s = Some (r, s')" "mq_wf q'"
    "mq_contents q' = tl (mq_contents q)" "r = None \<longleftrightarrow> mq_contents q = []" "gq_inv s' xs"
    "unlinked s' = (unlinked s)(p \<mapsto> q'\<lparr>mq_next := None\<rparr>)" "mq_state.more s' = mq_state.more s"
    using mq_pop_at_ok [OF xs(1) q wf] by blast
  note f = mq_pop_frame [OF p(1)]
  have h: "held s' = held s" using p(8) by (cases s; cases s') simp
  have pxs: "p \<notin> set xs" using sched_ok_yield(2) [OF xs(2) assms(2)] .
  have 1: "sched_at s' xs" if "r \<noteq> None"
    using that p h sch f sched_ok_upd [OF xs(2) u, of "q'\<lparr>mq_next := None\<rparr>"]
    by (auto simp: sched_at_def scheduled_def)
  have 2: "sched_at (s'\<lparr>held := (held s')(w := None)\<rparr>) xs" if "r = None" "\<not> mq_release q"
    using that p h f sched_ok_letgo(1) [OF xs(2) assms(2), of "Some (q'\<lparr>mq_next := None\<rparr>)"]
    by (auto simp: sched_at_def scheduled_def heap_simps)
  have hp: "mq_heap s' p \<noteq> None" using fun_cong [OF p(7), of p] by (auto simp: unlinked_def)
  have np: "next_of s' p = None" using p(6) pxs by (auto simp: gq_inv_def)
  let ?s = "s'\<lparr>mq_heap := (mq_heap s')(p := None)\<rparr>"
  have rel: "mq_release_at p s' = Some ?s" using hp np by (auto simp: mq_release_at_def next_of_def)
  have "next_of ?s = next_of s'" using np by (auto simp: next_of_def fun_eq_iff)
  then have "gq_inv ?s xs" using p(6) pxs by (auto simp: gq_inv_def)
  moreover have "unlinked ?s = (unlinked s)(p := None)" using p(7) by (simp add: heap_simps)
  moreover have "sched_ok ((unlinked s)(p := None)) xs ((held s)(w := None))"
    by (rule sched_ok_letgo(1) [OF xs(2) assms(2)]) simp
  ultimately have 3: "sched_at (?s\<lparr>held := (held ?s)(w := None)\<rparr>) xs"
    using h by (auto simp: sched_at_def heap_simps)
  show ?thesis using q p(2,5) 1 2 3 rel by blast
qed

lemma sched_at_mark:
  assumes "sched_at s xs" "mq_heap s p = Some q" "\<not> mq_release q"
  shows "\<exists>s' ys. skynet_mq_mark_release p s = Some s' \<and> sched_at s' (xs @ ys)"
proof -
  have xs: "gq_inv s xs" "sched_ok (unlinked s) xs (held s)"
    using assms(1) by (auto simp: sched_at_def)
  let ?q = "q\<lparr>mq_release := True\<rparr>"
  let ?s = "s\<lparr>mq_heap := (mq_heap s)(p \<mapsto> ?q)\<rparr>"
  note u = unlinked_SomeI [OF assms(2)]
  have wf: "mq_wf (?q\<lparr>mq_next := None\<rparr>)"
    using sched_okD(1) [OF xs(2) u] by (simp add: mq_wf_def)
  have inv: "gq_inv ?s xs" using xs(1) assms(2) by (rule gq_inv_upd) simp
  show ?thesis
  proof (cases "mq_in_global q")
    case True
    have "sched_ok ((unlinked s)(p \<mapsto> ?q\<lparr>mq_next := None\<rparr>)) xs (held s)"
      using True wf by (intro sched_ok_upd [OF xs(2) u]) (auto simp: scheduled_def)
    then show ?thesis using True assms inv
      by (intro exI [of _ ?s] exI [of _ "[]"]) (simp add: skynet_mq_mark_release_def sched_at_def heap_simps)
  next
    case False
    then have ns: "\<not> scheduled (q\<lparr>mq_next := None\<rparr>)" using assms(3) by (simp add: scheduled_def)
    note new = sched_ok_list [OF xs(2) u ns wf]
    have "p \<notin> set xs" by (rule new(2)) (simp add: scheduled_def)
    then obtain s' where s': "skynet_globalmq_push p ?s = Some s'" "gq_inv s' (xs @ [p])"
      "unlinked s' = unlinked ?s" "mq_state.more s' = mq_state.more ?s"
      using globalmq_push_ok [OF inv, of p] by auto
    have "held s' = held s" using s'(4) by (cases s; cases s') simp
    moreover have "sched_ok ((unlinked s)(p \<mapsto> ?q\<lparr>mq_next := None\<rparr>)) (xs @ [p]) (held s)"
      by (rule new(1)) (simp add: scheduled_def)
    ultimately show ?thesis using False assms s'
      by (intro exI [of _ s'] exI [of _ "[p]"]) (simp add: skynet_mq_mark_release_def sched_at_def heap_simps)
  qed
qed

lemma sched_at_create:
  assumes "sched_at s xs" "mq_heap s p = None" "held s w = None"
  shows "sched_at (s\<lparr>mq_heap := (mq_heap s)(p \<mapsto> skynet_mq_create h), held := (held s)(w \<mapsto> p)\<rparr>) xs"
proof -
  have xs: "gq_inv s xs" "sched_ok (unlinked s) xs (held s)"
    using assms(1) by (auto simp: sched_at_def)
  let ?s = "s\<lparr>mq_heap := (mq_heap s)(p \<mapsto> skynet_mq_create h)\<rparr>"
  have "p \<notin> set xs" using xs(1) assms(2) by (auto simp: gq_inv_def)
  then have "sched_ok ((unlinked s)(p \<mapsto> skynet_mq_create h)) xs ((held s)(w \<mapsto> p))"
    using assms mq_wf_create
    by (intro sched_ok_create [OF xs(2)])
      (auto simp: unlinked_def)
  moreover have "next_of ?s = next_of s"
    using assms(2) by (auto simp: next_of_def fun_eq_iff skynet_mq_create_def)
  then have "gq_inv ?s xs" using xs(1) by (auto simp: gq_inv_def)
  ultimately show ?thesis by (auto simp: sched_at_def heap_simps)
qed

text \<open>The steps that \<open>take\<close> makes.\<close>

definition took :: "'m sched \<Rightarrow> ptr \<Rightarrow> 'm sched \<Rightarrow> bool" where
  "took s p s' \<longleftrightarrow> (\<exists>w s1. held s w = None \<and> skynet_globalmq_pop s = Some (Some p, s1) \<and>
     s' = s1\<lparr>held := (held s1)(w \<mapsto> p)\<rparr>)"

lemma sched_at_step:
  assumes "sched_step s s'" "sched_at s xs"
  shows "(\<exists>ys. sched_at s' (xs @ ys)) \<or> (\<exists>p ys. xs = p # ys \<and> took s p s' \<and> sched_at s' ys)"
  using assms
proof (cases rule: sched_step.cases)
  case (create p w h)
  then show ?thesis using sched_at_create [OF assms(2), of p w h] by (metis append_Nil2)
next
  case (push p q m)
  then show ?thesis using sched_at_push [OF assms(2), of p q m] by auto
next
  case (take w p s1)
  then show ?thesis using sched_at_take [OF assms(2), of w p s1] by (auto simp: took_def)
next
  case (pop w p m)
  then show ?thesis using sched_at_pop [OF assms(2), of w p] by (auto intro: exI [of _ "[]"])
next
  case (idle w p q s1)
  then show ?thesis using sched_at_pop [OF assms(2), of w p] by (auto intro!: exI [of _ "[]"])
next
  case (yield w p q s1)
  then show ?thesis using sched_at_globalpush [OF assms(2), of w p] by auto
next
  case (mark p)
  then obtain q where "mq_heap s p = Some q" "\<not> mq_release q"
    by (auto simp: skynet_mq_mark_release_def bind_eq_Some_conv split: if_splits)
  then show ?thesis using mark sched_at_mark [OF assms(2), of p q] by auto
next
  case (drop w p q s1 s2)
  then show ?thesis using sched_at_pop [OF assms(2), of w p] by (auto intro!: exI [of _ "[]"])
qed

lemma sched_inv_step: "sched_step s s' \<Longrightarrow> sched_inv s \<Longrightarrow> sched_inv s'"
  using sched_at_step by (fastforce simp: sched_inv_def)

lemma sched_inv_init: "sched_inv sched_init"
proof -
  have "gq_inv (sched_init :: 'm sched) []"
    by (simp add: gq_inv_def sched_init_def skynet_mq_init_def mq_state.defs next_of_def)
  moreover have "sched_ok (unlinked (sched_init :: 'm sched)) [] (held (sched_init :: 'm sched))"
    by (simp add: sched_ok_def sched_init_def skynet_mq_init_def mq_state.defs unlinked_def)
  ultimately show ?thesis by (auto simp: sched_inv_def sched_at_def)
qed

lemma sched_reachable_inv: "sched_reachable s \<Longrightarrow> sched_inv s"
  by (induction rule: sched_reachable.induct) (auto intro: sched_inv_init sched_inv_step)

section \<open>Properties\<close>

text \<open>
  C3. Mutual exclusion: in every state the threads can reach, two workers never hold the same
  queue and a held queue is not in the global list, so the messages of one service are never
  dispatched by two threads at the same time.
\<close>

theorem sched_mutual_exclusion:
  assumes "sched_reachable s"
  shows "\<exists>xs. chain (next_of s) (gq_head s) xs \<and> distinct xs
    \<and> (\<forall>w p. held s w = Some p \<longrightarrow> p \<notin> set xs \<and> mq_heap s p \<noteq> None
          \<and> (\<forall>w'. held s w' = Some p \<longrightarrow> w' = w))"
proof -
  obtain xs where xs: "gq_inv s xs" "sched_ok (unlinked s) xs (held s)"
    using sched_reachable_inv [OF assms] by (auto simp: sched_inv_def sched_at_def)
  have "p \<notin> set xs \<and> mq_heap s p \<noteq> None \<and> (\<forall>w'. held s w' = Some p \<longrightarrow> w' = w)"
    if "held s w = Some p" for w p
    using that xs sched_ok_yield(2) [OF xs(2) that] sched_ok_held [OF xs(2) that]
    by (auto simp: sched_ok_def inj_on_def dom_def)
  then show ?thesis using xs(1) by (auto simp: gq_inv_def)
qed

text \<open>
  C2. No lost wake-up: in every reachable state a queue that holds a message, or that is marked
  for release, is in the global list or held by a worker.
\<close>

theorem sched_no_lost_wakeup:
  assumes "sched_reachable s" "mq_heap s p = Some q" "mq_contents q \<noteq> [] \<or> mq_release q"
  shows "\<exists>xs. chain (next_of s) (gq_head s) xs \<and> (p \<in> set xs \<or> (\<exists>w. held s w = Some p))"
proof -
  obtain xs where xs: "gq_inv s xs" "sched_ok (unlinked s) xs (held s)"
    using sched_reachable_inv [OF assms(1)] by (auto simp: sched_inv_def sched_at_def)
  note d = sched_okD [OF xs(2) unlinked_SomeI [OF assms(2)]]
  have "scheduled q" using assms(3) d(3) by (auto simp: scheduled_def)
  then have "p \<in> set xs \<union> ran (held s)" using d(2) by simp
  then show ?thesis using xs(1) by (auto simp: gq_inv_def ran_def)
qed


text \<open>
  \<open>waits p s n s'\<close>: the threads run from \<open>s\<close> to \<open>s'\<close> with \<open>n\<close> \<open>take\<close> steps and queue \<open>p\<close> is taken by none of
  them.
\<close>

inductive waits :: "ptr \<Rightarrow> 'm sched \<Rightarrow> nat \<Rightarrow> 'm sched \<Rightarrow> bool" for p and s where
  start: "waits p s 0 s"
| other: "waits p s n s1 \<Longrightarrow> sched_step s1 s2 \<Longrightarrow> \<not> (\<exists>q. took s1 q s2) \<Longrightarrow> waits p s n s2"
| take: "waits p s n s1 \<Longrightarrow> sched_step s1 s2 \<Longrightarrow> took s1 q s2 \<Longrightarrow> q \<noteq> p \<Longrightarrow> waits p s (Suc n) s2"

lemma took_first:
  assumes "took s p s'" "sched_at s xs"
  shows "\<exists>ys. xs = p # ys \<and> sched_at s' ys"
proof -
  obtain w s1 where w: "held s w = None" "skynet_globalmq_pop s = Some (Some p, s1)" "s' = s1\<lparr>held := (held s1)(w \<mapsto> p)\<rparr>"
    using assms(1) by (auto simp: took_def)
  then show ?thesis using sched_at_take [OF assms(2) w(1,2)] by simp
qed

lemma waits_position:
  assumes "waits p s n s'" "sched_at s xs" "k < length xs" "xs ! k = p"
  shows "\<exists>ys. sched_at s' ys \<and> n \<le> k \<and> k - n < length ys \<and> ys ! (k - n) = p"
  using assms
proof (induction rule: waits.induct)
  case start
  then show ?case by auto
next
  case (other n s1 s2)
  then obtain ys where ys: "sched_at s1 ys" "n \<le> k" "k - n < length ys" "ys ! (k - n) = p" by blast
  then obtain zs where "sched_at s2 (ys @ zs)" using sched_at_step [OF other.hyps(2) ys(1)] other.hyps(3) by auto
  then show ?case using ys by (intro exI [of _ "ys @ zs"]) (simp add: nth_append)
next
  case (take n s1 s2 q)
  then obtain ys where ys: "sched_at s1 ys" "n \<le> k" "k - n < length ys" "ys ! (k - n) = p" by blast
  obtain zs where zs: "ys = q # zs" "sched_at s2 zs" using took_first [OF take.hyps(3) ys(1)] by blast
  then obtain j where "k - n = Suc j" using ys(4) take.hyps(4) by (cases "k - n") auto
  moreover from this have "k - Suc n = j" "Suc n \<le> k" by linarith+
  ultimately show ?case using ys zs by (intro exI [of _ zs]) simp
qed

text \<open>
  C16. No starvation: the queue at position \<open>k\<close> of the global list is passed over by at most \<open>k\<close> \<open>take\<close>
  steps, whatever the threads do in between; the next one takes it.
\<close>

theorem sched_bounded_waiting:
  assumes "sched_reachable s" "chain (next_of s) (gq_head s) xs" "k < length xs" "waits (xs ! k) s n s'"
  shows "n \<le> k"
proof -
  obtain ys where ys: "sched_at s ys" using sched_reachable_inv [OF assms(1)] by (auto simp: sched_inv_def)
  then have "chain (next_of s) (gq_head s) ys" by (simp add: sched_at_def gq_inv_def)
  then have "xs = ys" using chain_unique [OF assms(2)] by blast
  then show ?thesis using waits_position [OF assms(4)] ys assms(3) by blast
qed

text \<open>A reachable state in which worker 0 holds queue 7, and one in which it has a message.\<close>

definition sched_ex1 :: "nat sched" where
  "sched_ex1 = sched_init\<lparr>mq_heap := (mq_heap (sched_init :: nat sched))(7 \<mapsto> skynet_mq_create 1),
     held := (held (sched_init :: nat sched))(0 \<mapsto> 7)\<rparr>"

definition sched_ex2 :: "nat sched" where
  "sched_ex2 = sched_ex1\<lparr>mq_heap := (mq_heap sched_ex1)(7 \<mapsto> (skynet_mq_create 1)
     \<lparr>mq_queue := (replicate 64 None)[0 := Some 42], mq_tail := 1\<rparr>)\<rparr>"

lemma sched_ex1_simps:
  "mq_heap sched_ex1 7 = Some (skynet_mq_create 1)" "held sched_ex1 0 = Some 7"
  by (simp_all add: sched_ex1_def)

lemma sched_ex1_reachable: "sched_reachable sched_ex1"
  unfolding sched_ex1_def
  by (intro sched_reachable.step [OF sched_reachable.start] sched_step.create)
    (simp_all add: sched_init_def mq_state.defs skynet_mq_init_def)

lemma sched_ex2_reachable: "sched_reachable sched_ex2"
proof (rule sched_reachable.step [OF sched_ex1_reachable])
  have "mq_store (42::nat) (skynet_mq_create 1) = Some ((skynet_mq_create 1)
      \<lparr>mq_queue := (replicate 64 None)[0 := Some 42], mq_tail := 1\<rparr>)"
    by (simp add: mq_store_def arr_write_def skynet_mq_create_def DEFAULT_QUEUE_SIZE_def)
  then have "skynet_mq_push 7 42 sched_ex1 = Some sched_ex2"
    by (simp add: skynet_mq_push_def sched_ex1_simps sched_ex2_def)
  then show "sched_step sched_ex1 sched_ex2"
    by (rule sched_step.push [OF sched_ex1_simps(1), rotated]) simp
qed

theorem sched_mutual_exclusion_witness:
  "held sched_ex1 0 = Some 7
    \<and> (\<exists>xs. chain (next_of sched_ex1) (gq_head sched_ex1) xs \<and> 7 \<notin> set xs)"
  using sched_mutual_exclusion [OF sched_ex1_reachable] sched_ex1_simps(2) by blast

theorem sched_no_lost_wakeup_witness:
  "\<exists>xs. chain (next_of sched_ex2) (gq_head sched_ex2) xs
    \<and> (7 \<in> set xs \<or> (\<exists>w. held sched_ex2 w = Some 7))"
proof (rule sched_no_lost_wakeup [OF sched_ex2_reachable])
  show "mq_heap sched_ex2 7 = Some ((skynet_mq_create 1)
     \<lparr>mq_queue := (replicate 64 None)[0 := Some 42], mq_tail := 1\<rparr>)"
    by (simp add: sched_ex2_def)
  show "mq_contents ((skynet_mq_create 1)
     \<lparr>mq_queue := (replicate 64 None)[0 := Some 42], mq_tail := 1\<rparr>) \<noteq> []
     \<or> mq_release ((skynet_mq_create 1)
     \<lparr>mq_queue := (replicate 64 None)[0 := Some (42::nat)], mq_tail := 1\<rparr>)"
    by (simp add: mq_contents_def pending_def ring_def ring_len_def skynet_mq_create_def)
qed



text \<open>Two idle workers and two queues in the global list, 7 before 8.\<close>

definition queue_ex :: "u32 \<Rightarrow> ptr option \<Rightarrow> nat message_queue" where
  "queue_ex h n = (skynet_mq_create h)\<lparr>mq_next := n\<rparr>"

definition sched_ex3 :: "nat sched" where
  "sched_ex3 = sched_ex1\<lparr>held := Map.empty, gq_head := Some 7, gq_tail := Some 7\<rparr>"

definition sched_ex4 :: "nat sched" where
  "sched_ex4 = \<lparr>mq_heap = [7 \<mapsto> queue_ex 1 None, 8 \<mapsto> queue_ex 2 None], gq_head = Some 7, gq_tail = Some 7, held = [0 \<mapsto> 8]\<rparr>"

definition sched_ex5 :: "nat sched" where
  "sched_ex5 = \<lparr>mq_heap = [7 \<mapsto> queue_ex 1 (Some 8), 8 \<mapsto> queue_ex 2 None], gq_head = Some 7, gq_tail = Some 8, held = Map.empty\<rparr>"

definition sched_ex6 :: "nat sched" where
  "sched_ex6 = \<lparr>mq_heap = [7 \<mapsto> queue_ex 1 None, 8 \<mapsto> queue_ex 2 None], gq_head = Some 8, gq_tail = Some 8, held = [1 \<mapsto> 7]\<rparr>"

lemma queue_ex_simps [simp]:
  "mq_next (queue_ex h n) = n" "mq_release (queue_ex h n) = False" "(queue_ex h n)\<lparr>mq_next := m\<rparr> = queue_ex h m"
  "skynet_mq_create h = queue_ex h None"
  by (simp_all add: queue_ex_def skynet_mq_create_def)

lemma sched_ex5_reachable: "sched_reachable sched_ex5"
proof -
  have "sched_step sched_ex1 (sched_ex1\<lparr>gq_head := Some 7, gq_tail := Some 7, held := (held (sched_ex1\<lparr>gq_head := Some 7, gq_tail := Some 7\<rparr>))(0 := None)\<rparr>)"
    by (rule sched_step.yield [where p = 7 and q = "queue_ex 1 None"])
      (simp_all add: sched_ex1_def skynet_globalmq_push_def sched_init_def mq_state.defs skynet_mq_init_def del: fun_upd_apply,
       simp_all)
  then have "sched_reachable sched_ex3"
    using sched_reachable.step [OF sched_ex1_reachable]
    by (simp add: sched_ex3_def sched_ex1_def sched_init_def mq_state.defs)
  moreover have "sched_step sched_ex3 sched_ex4"
  proof -
    have "sched_step sched_ex3 (sched_ex3\<lparr>mq_heap := (mq_heap sched_ex3)(8 \<mapsto> skynet_mq_create 2), held := (held sched_ex3)(0 \<mapsto> 8)\<rparr>)"
      by (rule sched_step.create) (simp_all add: sched_ex3_def sched_ex1_def sched_init_def mq_state.defs skynet_mq_init_def)
    then show ?thesis
      by (simp add: sched_ex3_def sched_ex4_def sched_ex1_def sched_init_def mq_state.defs skynet_mq_init_def fun_upd_twist)
  qed
  moreover have "sched_step sched_ex4 sched_ex5"
  proof -
    have "skynet_globalmq_push 8 sched_ex4 = Some (sched_ex5\<lparr>held := held sched_ex4\<rparr>)"
      by (simp add: skynet_globalmq_push_def sched_ex4_def sched_ex5_def fun_upd_twist)
    from sched_step.yield [OF _ _ _ this, of 0 "queue_ex 2 None"] show ?thesis
      by (simp add: sched_ex4_def sched_ex5_def)
  qed
  ultimately show ?thesis using sched_reachable.step by metis
qed

theorem sched_bounded_waiting_witness: "waits 8 sched_ex5 1 sched_ex6 \<and> (1::nat) \<le> 1"
proof -
  have pop: "skynet_globalmq_pop sched_ex5 = Some (Some 7, sched_ex6\<lparr>held := Map.empty\<rparr>)"
    by (simp add: skynet_globalmq_pop_def sched_ex5_def sched_ex6_def fun_upd_twist)
  have st: "sched_ex6 = (sched_ex6\<lparr>held := Map.empty\<rparr>)\<lparr>held := (held (sched_ex6\<lparr>held := Map.empty\<rparr>))(1 \<mapsto> 7)\<rparr>"
    by (simp add: sched_ex6_def)
  have "sched_step sched_ex5 sched_ex6"
    by (subst st, rule sched_step.take [OF _ pop]) (simp add: sched_ex5_def)
  moreover have "took sched_ex5 7 sched_ex6"
    unfolding took_def by (intro exI [of _ 1] exI [of _ "sched_ex6\<lparr>held := Map.empty\<rparr>"]) (use pop st in \<open>simp add: sched_ex5_def\<close>)
  ultimately have w: "waits 8 sched_ex5 (Suc 0) sched_ex6"
    using waits.take [OF waits.start] by force
  have "chain (next_of sched_ex5) (gq_head sched_ex5) [7, 8]" by (simp add: sched_ex5_def next_of_def)
  from sched_bounded_waiting [OF sched_ex5_reachable this, of 1] w show ?thesis by simp
qed

end
