(* ===== verification/Message.thy ===== *)
theory Message
  imports Prelude
begin

text \<open>
  The messages the node passes around: \<open>struct skynet_message\<close> of \<open>skynet-src/skynet_mq.h\<close>, the
  \<open>struct remote_message\<close> of \<open>skynet-src/skynet_harbor.h\<close> and the message types of
  \<open>skynet-src/skynet.h\<close>. A message carries its type in the high 8 bits of its 64-bit size.
\<close>

unbundle bit_operations_syntax

definition PTYPE_TEXT :: nat where "PTYPE_TEXT = 0"
definition PTYPE_RESPONSE :: nat where "PTYPE_RESPONSE = 1"
definition PTYPE_CLIENT :: nat where "PTYPE_CLIENT = 3"
definition PTYPE_SYSTEM :: nat where "PTYPE_SYSTEM = 4"
definition PTYPE_HARBOR :: nat where "PTYPE_HARBOR = 5"
definition PTYPE_SOCKET :: nat where "PTYPE_SOCKET = 6"
definition PTYPE_ERROR :: nat where "PTYPE_ERROR = 7"

lemmas ptype_defs = PTYPE_TEXT_def PTYPE_RESPONSE_def PTYPE_CLIENT_def PTYPE_SYSTEM_def
  PTYPE_HARBOR_def PTYPE_SOCKET_def PTYPE_ERROR_def

text \<open>
  \<open>GLOBALNAME_LENGTH\<close> bytes of name and a handle, one of which addresses a remote service.
  A message body is a null pointer, a block of bytes, a message of the socket layer, or (to the harbor
  service) a remote message. A \<open>skynet_socket_message\<close> has its text, when there is one, behind it in the
  same block.
\<close>

record remote_name =
  rn_name :: bytes
  rn_handle :: u32

record skynet_socket_message =
  sk_type :: int
  sk_id :: int
  sk_ud :: int
  sk_buffer :: "bytes option"
  sk_text :: bytes

datatype payload = Null | Data bytes | Socket_message skynet_socket_message | Remote remote_message
  and remote_message = RemoteMessage (rm_destination: remote_name) (rm_message: payload)
    (rm_sz: u64) (rm_type: nat)

record skynet_message =
  msg_source :: u32
  msg_session :: int
  msg_data :: payload
  msg_sz :: u64

definition MESSAGE_TYPE_SHIFT :: nat where
  "MESSAGE_TYPE_SHIFT = 56"

definition MESSAGE_TYPE_MASK :: u64 where
  "MESSAGE_TYPE_MASK = drop_bit 8 (- 1)"

definition HANDLE_MASK :: u32 where
  "HANDLE_MASK = 0xffffff"

definition HANDLE_REMOTE_SHIFT :: nat where
  "HANDLE_REMOTE_SHIFT = 24"

text \<open>Packing a type into a size and taking both out again.\<close>

definition pack_sz :: "u64 \<Rightarrow> nat \<Rightarrow> u64" where
  "pack_sz sz type = sz OR push_bit MESSAGE_TYPE_SHIFT (of_nat type)"

definition sz_type :: "u64 \<Rightarrow> nat" where
  "sz_type sz = unat (drop_bit MESSAGE_TYPE_SHIFT sz)"

definition sz_size :: "u64 \<Rightarrow> u64" where
  "sz_size sz = sz AND MESSAGE_TYPE_MASK"

lemma MESSAGE_TYPE_MASK_mask: "MESSAGE_TYPE_MASK = mask 56"
  by (rule bit_word_eqI) (simp add: MESSAGE_TYPE_MASK_def bit_simps)

lemma sz_size_take_bit: "sz_size sz = take_bit 56 sz"
  by (simp add: sz_size_def MESSAGE_TYPE_MASK_mask take_bit_eq_mask)

lemma sz_type_pack:
  assumes "sz_size sz = sz" "type < 256"
  shows "sz_type (pack_sz sz type) = type"
proof -
  have "drop_bit 56 sz = 0"
    using assms(1) by (metis sz_size_take_bit drop_bit_take_bit diff_self_eq_0 take_bit_0)
  then have "drop_bit 56 (pack_sz sz type) = drop_bit 56 (push_bit 56 (of_nat type))"
    by (simp add: pack_sz_def MESSAGE_TYPE_SHIFT_def)
  also have "\<dots> = take_bit 8 (of_nat type)"
    by (rule bit_word_eqI) (auto simp: bit_simps)
  also have "\<dots> = of_nat type"
    using assms(2) by (simp add: take_bit_of_nat take_bit_nat_eq_self)
  finally show ?thesis
    using assms(2) by (simp add: sz_type_def MESSAGE_TYPE_SHIFT_def unat_of_nat)
qed

lemma sz_size_pack: "sz_size (pack_sz sz type) = sz_size sz"
  by (rule bit_word_eqI) (auto simp: pack_sz_def sz_size_take_bit MESSAGE_TYPE_SHIFT_def bit_simps)

end
