(* ===== verification/Timer.thy ===== *)
theory Timer
  imports Message
begin

text \<open>
  The timing wheel of \<open>skynet-src/skynet_timer.c\<close>: 256 near slots, four levels of 64 slots, a
  32-bit tick counter that wraps. A slot's linked list is a list, oldest node first; the node's
  trailing \<open>struct timer_event\<close> is a field. \<open>dispatch_list\<close> hands one message per node to
  \<open>skynet_context_push\<close>: the functions here return the events in dispatch order and \<open>Server\<close>
  pushes the messages. The clock readings (\<open>clock_gettime\<close>) are arguments.
\<close>

unbundle bit_operations_syntax

record timer_event =
  ev_handle :: u32
  ev_session :: int

record timer_node =
  tn_expire :: u32
  tn_event :: timer_event

record timer =
  tm_near :: "timer_node list list"
  tm_t :: "timer_node list list list"
  tm_time :: u32
  tm_starttime :: u32
  tm_current :: u64
  tm_current_point :: u64

definition TIME_NEAR_SHIFT :: nat where "TIME_NEAR_SHIFT = 8"
definition TIME_NEAR :: u32 where "TIME_NEAR = 256"
definition TIME_LEVEL_SHIFT :: nat where "TIME_LEVEL_SHIFT = 6"
definition TIME_NEAR_MASK :: u32 where "TIME_NEAR_MASK = 255"
definition TIME_LEVEL_MASK :: u32 where "TIME_LEVEL_MASK = 63"

lemmas time_defs = TIME_NEAR_SHIFT_def TIME_NEAR_def TIME_LEVEL_SHIFT_def TIME_NEAR_MASK_def
  TIME_LEVEL_MASK_def

definition link_clear :: "'a list \<Rightarrow> 'a list \<times> 'a list" where
  "link_clear lst = (lst, [])"

definition link :: "'a list \<Rightarrow> 'a \<Rightarrow> 'a list" where
  "link lst node = lst @ [node]"

text \<open>The loop over \<open>i < 3\<close> of \<open>add_node\<close>: the level whose block holds both times.\<close>

function add_level :: "u32 \<Rightarrow> u32 \<Rightarrow> nat \<Rightarrow> u32 \<Rightarrow> nat" where
  "add_level time current_time i msk =
     (if i < 3 then
        if (time OR (msk - 1)) = (current_time OR (msk - 1)) then i
        else add_level time current_time (Suc i) (push_bit TIME_LEVEL_SHIFT msk)
      else i)"
  by pat_completeness auto
termination
  by (relation "measure (\<lambda>(_, _, i, _). 3 - i)") auto

declare add_level.simps [simp del]

definition add_node :: "timer \<Rightarrow> timer_node \<Rightarrow> timer" where
  "add_node T node =
     (let time = tn_expire node; current_time = tm_time T in
      if (time OR TIME_NEAR_MASK) = (current_time OR TIME_NEAR_MASK) then
        let idx = unat (time AND TIME_NEAR_MASK) in
        T\<lparr>tm_near := (tm_near T)[idx := link (tm_near T ! idx) node]\<rparr>
      else
        let i = add_level time current_time 0 (push_bit TIME_LEVEL_SHIFT TIME_NEAR);
            idx = unat (drop_bit (TIME_NEAR_SHIFT + i * TIME_LEVEL_SHIFT) time AND TIME_LEVEL_MASK)
        in T\<lparr>tm_t := (tm_t T)[i := (tm_t T ! i)[idx := link (tm_t T ! i ! idx) node]]\<rparr>)"

definition timer_add :: "timer \<Rightarrow> timer_event \<Rightarrow> int \<Rightarrow> timer" where
  "timer_add T event time =
     add_node T \<lparr>tn_expire = of_int time + tm_time T, tn_event = event\<rparr>"

definition move_list :: "timer \<Rightarrow> nat \<Rightarrow> nat \<Rightarrow> timer" where
  "move_list T level idx =
     (let (current, rest) = link_clear (tm_t T ! level ! idx)
      in foldl add_node (T\<lparr>tm_t := (tm_t T)[level := (tm_t T ! level)[idx := rest]]\<rparr>) current)"

text \<open>
  The loop of \<open>timer_shift\<close>: \<open>Some (Some (i, idx))\<close> when it moves slot \<open>idx\<close> of level \<open>i\<close> and
  leaves by \<open>break\<close>, \<open>Some None\<close> when its condition fails.
\<close>

partial_function (option) shift_loop ::
  "u32 \<Rightarrow> u32 \<Rightarrow> u32 \<Rightarrow> nat \<Rightarrow> (nat \<times> nat) option option" where
  "shift_loop ct msk time i =
     (if ct AND (msk - 1) = 0 then
        let idx = time AND TIME_LEVEL_MASK in
        if idx \<noteq> 0 then Some (Some (i, unat idx))
        else shift_loop ct (push_bit TIME_LEVEL_SHIFT msk) (drop_bit TIME_LEVEL_SHIFT time) (Suc i)
      else Some None)"

definition timer_shift :: "timer \<Rightarrow> timer option" where
  "timer_shift T =
     (let ct = tm_time T + 1; T = T\<lparr>tm_time := ct\<rparr> in
      if ct = 0 then Some (move_list T 3 0)
      else do {
        moved \<leftarrow> shift_loop ct TIME_NEAR (drop_bit TIME_NEAR_SHIFT ct) 0;
        Some (case moved of None \<Rightarrow> T | Some (i, idx) \<Rightarrow> move_list T i idx)
      })"

text \<open>The message \<open>dispatch_list\<close> and \<open>skynet_timeout\<close> build for a session.\<close>

definition timeout_message :: "int \<Rightarrow> skynet_message" where
  "timeout_message session =
     \<lparr>msg_source = 0, msg_session = session, msg_data = Null, msg_sz = pack_sz 0 PTYPE_RESPONSE\<rparr>"

definition dispatch_list :: "timer_node list \<Rightarrow> (u32 \<times> skynet_message) list" where
  "dispatch_list current =
     map (\<lambda>n. (ev_handle (tn_event n), timeout_message (ev_session (tn_event n)))) current"

text \<open>
  \<open>timer_execute\<close>: the nodes handed to \<open>dispatch_list\<close>. The lock is released during the dispatch,
  so the loop tests the slot again; a node added meanwhile expires later than now and goes to
  another slot (\<open>timer_add_other_slot\<close>), so the second test finds it empty.
\<close>

definition timer_execute :: "timer \<Rightarrow> timer_node list \<times> timer" where
  "timer_execute T =
     (let idx = unat (tm_time T AND TIME_NEAR_MASK) in
      if tm_near T ! idx \<noteq> [] then
        let (current, rest) = link_clear (tm_near T ! idx)
        in (current, T\<lparr>tm_near := (tm_near T)[idx := rest]\<rparr>)
      else ([], T))"

definition timer_update :: "timer \<Rightarrow> (timer_node list \<times> timer) option" where
  "timer_update T = do {
     let (ns1, T) = timer_execute T;
     T \<leftarrow> timer_shift T;
     let (ns2, T) = timer_execute T;
     Some (ns1 @ ns2, T)
   }"

definition timer_create_timer :: timer where
  "timer_create_timer =
     \<lparr>tm_near = replicate 256 [], tm_t = replicate 4 (replicate 64 []), tm_time = 0,
      tm_starttime = 0, tm_current = 0, tm_current_point = 0\<rparr>"

text \<open>Clock readings in seconds and nanoseconds to centiseconds.\<close>

definition systime :: "nat \<Rightarrow> nat \<Rightarrow> u32 \<times> u32" where
  "systime tv_sec tv_nsec = (of_nat tv_sec, of_nat (tv_nsec div 10000000))"

definition gettime :: "nat \<Rightarrow> nat \<Rightarrow> u64" where
  "gettime tv_sec tv_nsec = of_nat tv_sec * 100 + of_nat (tv_nsec div 10000000)"

primrec timer_updates :: "nat \<Rightarrow> timer \<Rightarrow> (timer_node list list \<times> timer) option" where
  "timer_updates 0 T = Some ([], T)"
| "timer_updates (Suc n) T = do {
     (ns, T) \<leftarrow> timer_update T;
     (nss, T) \<leftarrow> timer_updates n T;
     Some (ns # nss, T)
   }"

definition skynet_updatetime :: "u64 \<Rightarrow> timer \<Rightarrow> (timer_node list list \<times> timer) option" where
  "skynet_updatetime cp T =
     (if cp < tm_current_point T then Some ([], T\<lparr>tm_current_point := cp\<rparr>)
      else if cp \<noteq> tm_current_point T then
        let diff = (ucast (cp - tm_current_point T) :: u32)
        in timer_updates (unat diff)
             (T\<lparr>tm_current_point := cp, tm_current := tm_current T + ucast diff\<rparr>)
      else Some ([], T))"

definition skynet_timer_init :: "nat \<times> nat \<Rightarrow> nat \<times> nat \<Rightarrow> timer" where
  "skynet_timer_init realtime monotonic =
     (let (sec, current) = systime (fst realtime) (snd realtime)
      in timer_create_timer\<lparr>tm_starttime := sec, tm_current := ucast current,
           tm_current_point := gettime (fst monotonic) (snd monotonic)\<rparr>)"

section \<open>Where a node goes\<close>

text \<open>
  The slot of a node that expires at \<open>e\<close> when the time is \<open>c\<close>: level 0 is \<open>near\<close>, level \<open>i + 1\<close>
  is \<open>t[i]\<close>. It is the one fact the wheel keeps: every node sits where \<open>add_node\<close> would put it
  now.
\<close>

definition place :: "nat \<Rightarrow> nat \<Rightarrow> nat \<times> nat" where
  "place c e =
     (if e div 2 ^ 8 = c div 2 ^ 8 then (0, e mod 2 ^ 8)
      else if e div 2 ^ 14 = c div 2 ^ 14 then (1, e div 2 ^ 8 mod 64)
      else if e div 2 ^ 20 = c div 2 ^ 20 then (2, e div 2 ^ 14 mod 64)
      else if e div 2 ^ 26 = c div 2 ^ 26 then (3, e div 2 ^ 20 mod 64)
      else (4, e div 2 ^ 26 mod 64))"

definition slot :: "timer \<Rightarrow> nat \<times> nat \<Rightarrow> timer_node list" where
  "slot T p = (case p of (0, j) \<Rightarrow> tm_near T ! j | (Suc i, j) \<Rightarrow> tm_t T ! i ! j)"

definition set_slot :: "timer \<Rightarrow> nat \<times> nat \<Rightarrow> timer_node list \<Rightarrow> timer" where
  "set_slot T p ns =
     (case p of
        (0, j) \<Rightarrow> T\<lparr>tm_near := (tm_near T)[j := ns]\<rparr>
      | (Suc i, j) \<Rightarrow> T\<lparr>tm_t := (tm_t T)[i := (tm_t T ! i)[j := ns]]\<rparr>)"

definition slots :: "(nat \<times> nat) list" where
  "slots = map (Pair 0) [0..<256] @ List.product [1..<5] [0..<64]"

definition shape :: "timer \<Rightarrow> bool" where
  "shape T \<longleftrightarrow> length (tm_near T) = 256 \<and> length (tm_t T) = 4 \<and> (\<forall>i < 4. length (tm_t T ! i) = 64)"

lemma in_slots: "p \<in> set slots \<longleftrightarrow> (fst p = 0 \<and> snd p < 256) \<or> (1 \<le> fst p \<and> fst p < 5 \<and> snd p < 64)"
  by (cases p) (auto simp: slots_def image_iff simp del: upt_rec_numeral)

lemma distinct_slots: "distinct slots"
proof -
  have "distinct (List.product [1..<5] [0..<(64::nat)])"
    by (intro distinct_product distinct_upt)
  moreover have "distinct (map (Pair (0::nat)) [0..<(256::nat)])"
    by (simp only: distinct_map distinct_upt) (simp add: inj_on_def)
  ultimately show ?thesis by (auto simp: slots_def simp del: upt_rec_numeral)
qed

lemma place_in_slots: "place c e \<in> set slots"
proof -
  have "x mod 64 < 64" "x mod 2 ^ 8 < 256" for x :: nat by simp_all
  then show ?thesis
    unfolding in_slots place_def by (auto simp only: fst_conv snd_conv split: if_split)
qed

lemma mask_literals:
  "(255 :: u32) = mask 8" "(63 :: u32) = mask 6" "(16383 :: u32) = mask 14"
  "(1048575 :: u32) = mask 20" "(67108863 :: u32) = mask 26"
  by (simp_all add: mask_eq_exp_minus_1)

lemma add_level_eq:
  "add_level time cur 0 16384 =
     (if unat time div 2 ^ 14 = unat cur div 2 ^ 14 then 0
      else if unat time div 2 ^ 20 = unat cur div 2 ^ 20 then 1
      else if unat time div 2 ^ 26 = unat cur div 2 ^ 26 then 2 else 3)"
proof -
  have "add_level time cur 0 16384 =
     (if (time OR 16383) = (cur OR 16383) then 0
      else if (time OR 1048575) = (cur OR 1048575) then 1
      else if (time OR 67108863) = (cur OR 67108863) then 2 else 3)"
    by (simp add: add_level.simps [of _ _ 0] add_level.simps [of _ _ 1] add_level.simps [of _ _ 2]
        add_level.simps [of _ _ 3] add_level.simps [of _ _ "Suc 0"] add_level.simps [of _ _ "Suc (Suc 0)"]
        add_level.simps [of _ _ "Suc (Suc (Suc 0))"] TIME_LEVEL_SHIFT_def push_bit_eq_mult)
  then show ?thesis by (simp only: mask_literals or_mask_eq_iff)
qed

lemma slot_simps:
  "slot T (0, j) = tm_near T ! j" "slot T (1, j) = tm_t T ! 0 ! j" "slot T (2, j) = tm_t T ! 1 ! j"
  "slot T (3, j) = tm_t T ! 2 ! j" "slot T (4, j) = tm_t T ! 3 ! j"
  by (simp_all add: slot_def numeral_eq_Suc split: nat.splits)

lemma set_slot_simps:
  "set_slot T (0, j) ns = T\<lparr>tm_near := (tm_near T)[j := ns]\<rparr>"
  "set_slot T (1, j) ns = T\<lparr>tm_t := (tm_t T)[0 := (tm_t T ! 0)[j := ns]]\<rparr>"
  "set_slot T (2, j) ns = T\<lparr>tm_t := (tm_t T)[1 := (tm_t T ! 1)[j := ns]]\<rparr>"
  "set_slot T (3, j) ns = T\<lparr>tm_t := (tm_t T)[2 := (tm_t T ! 2)[j := ns]]\<rparr>"
  "set_slot T (4, j) ns = T\<lparr>tm_t := (tm_t T)[3 := (tm_t T ! 3)[j := ns]]\<rparr>"
  by (simp_all add: set_slot_def numeral_eq_Suc split: nat.splits)

text \<open>\<open>add_node\<close> stores the node in its slot.\<close>

lemma add_node_place:
  "add_node T n = set_slot T (place (unat (tm_time T)) (unat (tn_expire n)))
     (slot T (place (unat (tm_time T)) (unat (tn_expire n))) @ [n])"
proof -
  let ?e = "tn_expire n" and ?c = "tm_time T"
  have near: "(?e OR 255) = (?c OR 255) \<longleftrightarrow> unat ?e div 2 ^ 8 = unat ?c div 2 ^ 8"
    by (simp only: mask_literals or_mask_eq_iff)
  have idx: "unat (drop_bit k ?e AND 63) = unat ?e div 2 ^ k mod 64" for k
    by (simp only: mask_literals unat_and_mask unat_drop_bit_eq) (simp add: drop_bit_eq_div)
  have near_idx: "unat (?e AND 255) = unat ?e mod 2 ^ 8"
    by (simp only: mask_literals unat_and_mask)
  have lev: "push_bit 6 (256 :: u32) = 16384" by (simp add: push_bit_eq_mult)
  let ?P = "\<lambda>k. unat ?e div 2 ^ k = unat ?c div 2 ^ k"
  note unfolds = add_node_def place_def link_def Let_def time_defs lev near near_idx add_level_eq idx
  consider (a) "?P 8" | (b) "\<not> ?P 8" "?P 14" | (c) "\<not> ?P 8" "\<not> ?P 14" "?P 20"
    | (d) "\<not> ?P 8" "\<not> ?P 14" "\<not> ?P 20" "?P 26" | (e) "\<not> ?P 8" "\<not> ?P 14" "\<not> ?P 20" "\<not> ?P 26"
    by blast
  then show ?thesis
    by cases (simp_all only: unfolds if_True if_False slot_simps set_slot_simps mult_0 add_0_right
        mult_1 arith_simps numeral_times_numeral numeral_plus_numeral simp_thms)
qed

section \<open>One tick of the clock\<close>

text \<open>The slot \<open>timer_shift\<close> empties when the time becomes \<open>c\<close>, if any.\<close>

definition moved :: "nat \<Rightarrow> (nat \<times> nat) option" where
  "moved c =
     (if c = 0 then Some (4, 0)
      else if c mod 2 ^ 8 \<noteq> 0 then None
      else if c div 2 ^ 8 mod 64 \<noteq> 0 then Some (1, c div 2 ^ 8 mod 64)
      else if c div 2 ^ 14 mod 64 \<noteq> 0 then Some (2, c div 2 ^ 14 mod 64)
      else if c div 2 ^ 20 mod 64 \<noteq> 0 then Some (3, c div 2 ^ 20 mod 64)
      else Some (4, c div 2 ^ 26 mod 64))"

lemma div_step_same: "c < e \<Longrightarrow> e div m = c div m \<Longrightarrow> Suc c div m = e div m" for c e m :: nat
  by (metis Suc_leI div_le_mono le_antisym le_SucI order_refl)

lemma div_step_dvd: "Suc c div m \<noteq> c div m \<Longrightarrow> m dvd Suc c" for c m :: nat
  by (metis div_Suc mod_0_imp_dvd)

lemma div_coarser: "e div 2 ^ a = c div 2 ^ a \<Longrightarrow> a \<le> b \<Longrightarrow> e div 2 ^ b = c div 2 ^ b"
  for c e :: nat
  by (metis div_mult2_eq le_add_diff_inverse power_add)

lemma same_div_diff: "e div m = c div m \<Longrightarrow> 0 < m \<Longrightarrow> c - e < m" for c e m :: nat
proof -
  assume eq: "e div m = c div m" and "0 < m"
  define q where "q = c div m * m"
  have "c = q + c mod m" "e = q + e mod m" using eq by (simp_all add: q_def) (metis div_mult_mod_eq)
  moreover have "c mod m < m" using \<open>0 < m\<close> by simp
  ultimately show ?thesis by linarith
qed

text \<open>The number of ticks until a node expires, on the wrapping counter.\<close>

definition ticks :: "nat \<Rightarrow> nat \<Rightarrow> nat" where
  "ticks c e = (e + 2 ^ 32 - c) mod 2 ^ 32"

lemma same_block_less:
  assumes "e < 2 ^ 32" "c < 2 ^ 32" "0 < ticks c e" "ticks c e < 2 ^ 31" "k \<le> 26"
    "e div 2 ^ k = c div 2 ^ k"
  shows "c < e"
proof (rule ccontr)
  assume "\<not> c < e"
  have "c \<noteq> e" using assms(2,3) by (auto simp: ticks_def)
  with \<open>\<not> c < e\<close> have "e < c" by simp
  have "e div 2 ^ 26 = c div 2 ^ 26" using div_coarser assms(5,6) by blast
  then have "c - e < 2 ^ 26" by (rule same_div_diff) simp
  then have "ticks c e = e + 2 ^ 32 - c" using \<open>e < c\<close> assms(2) by (simp add: ticks_def)
  with \<open>c - e < 2 ^ 26\<close> assms(4) show False by simp
qed

text \<open>
  One level of the wheel: a node of level \<open>k\<close> (block width \<open>2\<^sup>w\<close> inside \<open>2\<^sup>W\<close>) either keeps its
  block apart from the new time, or the new time opens exactly its slot.
\<close>

lemma level_step:
  assumes "c < e" "w + 6 = W" "e div 2 ^ w \<noteq> c div 2 ^ w" "e div 2 ^ W = c div 2 ^ W"
    "e div 2 ^ w = Suc c div 2 ^ w"
  shows "2 ^ w dvd Suc c" "e div 2 ^ w mod 64 = Suc c div 2 ^ w mod 64" "Suc c div 2 ^ w mod 64 \<noteq> 0"
proof -
  show d: "2 ^ w dvd Suc c" using assms(3,5) by (intro div_step_dvd) simp
  show "e div 2 ^ w mod 64 = Suc c div 2 ^ w mod 64" using assms(5) by simp
  show "Suc c div 2 ^ w mod 64 \<noteq> 0"
  proof
    assume "Suc c div 2 ^ w mod 64 = 0"
    with d have "2 ^ w * 64 dvd Suc c" by (metis dvd_div_iff_mult dvd_eq_mod_eq_0 mult.commute
          power_not_zero zero_neq_numeral)
    then have "2 ^ W dvd Suc c" using assms(2) by (simp add: power_add flip: assms(2))
    then have "Suc c div 2 ^ W \<noteq> c div 2 ^ W"
      by (metis Suc_n_not_le_n div_Suc dvd_imp_mod_0 order_refl)
    moreover have "Suc c div 2 ^ W = e div 2 ^ W" using assms(1,4) by (rule div_step_same)
    ultimately show False using assms(4) by simp
  qed
qed

lemma dvd_coarse_zero:
  assumes "2 ^ w dvd (c::nat)" "a + 6 \<le> w"
  shows "c div 2 ^ a mod 64 = 0"
proof -
  have "2 ^ (a + 6) dvd c" using assms by (meson le_imp_power_dvd dvd_trans)
  then obtain k where "c = 2 ^ (a + 6) * k" by blast
  then have "c = 2 ^ a * (64 * k)" by (simp add: power_add)
  then show ?thesis by simp
qed

lemma dvd_low_zero: "2 ^ w dvd (c::nat) \<Longrightarrow> 8 \<le> w \<Longrightarrow> c mod 2 ^ 8 = 0"
  by (meson dvd_imp_mod_0 dvd_trans le_imp_power_dvd)

text \<open>
  The heart of the wheel: when the clock advances by one tick, a pending node is already where the
  new time wants it, unless its slot is the one that \<open>timer_shift\<close> empties and redistributes.
\<close>

lemma place_step:
  assumes e: "e < 2 ^ 32" and c: "c < 2 ^ 32" and t: "0 < ticks c e" "ticks c e < 2 ^ 31"
    and nm: "moved (Suc c mod 2 ^ 32) \<noteq> Some (place c e)"
  shows "place (Suc c mod 2 ^ 32) e = place c e"
proof -
  let ?P = "\<lambda>k c. e div 2 ^ k = c div 2 ^ k"
  note less = same_block_less [OF e c t]
  have nowrap: "Suc c mod 2 ^ 32 = Suc c" if "c < e" using that e by simp
  have coarse: "?P b x" if "?P a x" "a \<le> b" for a b x using div_coarser that by blast
  note unf = place_def if_True if_False simp_thms
  consider (a) "?P 8 c" | (b) "\<not> ?P 8 c" "?P 14 c" | (c) "\<not> ?P 14 c" "?P 20 c"
    | (d) "\<not> ?P 20 c" "?P 26 c" | (e) "\<not> ?P 26 c" by blast
  then show ?thesis
  proof cases
    case a
    then have "c < e" using less [of 8] by simp
    with a have "?P 8 (Suc c mod 2 ^ 32)" using div_step_same nowrap by metis
    with a show ?thesis by (simp only: unf)
  next
    case b
    then have ce: "c < e" using less [of 14] by simp
    with b have W: "?P 14 (Suc c)" using div_step_same by metis
    have "\<not> ?P 8 (Suc c)"
    proof
      assume h: "?P 8 (Suc c)"
      note l = level_step [OF ce _ b h, simplified]
      from l(1) have "Suc c mod 2 ^ 8 = 0" by simp
      with l nm b ce nowrap show False by (simp add: moved_def place_def)
    qed
    with W b ce nowrap show ?thesis by (simp only: unf)
  next
    case c
    then have ce: "c < e" using less [of 20] by simp
    with c have W: "?P 20 (Suc c)" using div_step_same by metis
    have n8: "\<not> ?P 8 c" using c(1) coarse [of 8 c 14] by auto
    have "\<not> ?P 14 (Suc c)"
    proof
      assume h: "?P 14 (Suc c)"
      note l = level_step [OF ce _ c h, simplified]
      have "Suc c mod 2 ^ 8 = 0" "Suc c div 2 ^ 8 mod 64 = 0"
        using l(1) dvd_low_zero [of 14 "Suc c"] dvd_coarse_zero [of 14 "Suc c" 8] by simp_all
      with l nm c n8 ce nowrap show False by (simp add: moved_def place_def)
    qed
    moreover from this have "\<not> ?P 8 (Suc c)" using coarse [of 8 "Suc c" 14] by auto
    ultimately show ?thesis using W c n8 ce nowrap by (simp only: unf)
  next
    case d
    then have ce: "c < e" using less [of 26] by simp
    with d have W: "?P 26 (Suc c)" using div_step_same by metis
    have n: "\<not> ?P 8 c" "\<not> ?P 14 c" using d(1) coarse [of 8 c 20] coarse [of 14 c 20] by auto
    have "\<not> ?P 20 (Suc c)"
    proof
      assume h: "?P 20 (Suc c)"
      note l = level_step [OF ce _ d h, simplified]
      have "Suc c mod 2 ^ 8 = 0" "Suc c div 2 ^ 8 mod 64 = 0" "Suc c div 2 ^ 14 mod 64 = 0"
        using l(1) dvd_low_zero [of 20 "Suc c"] dvd_coarse_zero [of 20 "Suc c" 8]
          dvd_coarse_zero [of 20 "Suc c" 14] by simp_all
      with l nm d n ce nowrap show False by (simp add: moved_def place_def)
    qed
    moreover from this have "\<not> ?P 8 (Suc c)" "\<not> ?P 14 (Suc c)"
      using coarse [of 8 "Suc c" 20] coarse [of 14 "Suc c" 20] by auto
    ultimately show ?thesis using W d n ce nowrap by (simp only: unf)
  next
    case e
    let ?c = "Suc c mod 2 ^ 32"
    have n: "\<not> ?P 8 c" "\<not> ?P 14 c" "\<not> ?P 20 c"
      using e coarse [of 8 c 26] coarse [of 14 c 26] coarse [of 20 c 26] by auto
    have "\<not> ?P 26 ?c"
    proof
      assume h: "?P 26 ?c"
      have d: "2 ^ 26 dvd ?c"
        using h e c div_step_dvd [of c "2 ^ 26"] by (cases "Suc c = 2 ^ 32") (auto simp: mod_Suc)
      have z: "?c mod 2 ^ 8 = 0" "?c div 2 ^ 8 mod 64 = 0" "?c div 2 ^ 14 mod 64 = 0"
        "?c div 2 ^ 20 mod 64 = 0"
        using d dvd_low_zero [of 26 ?c] dvd_coarse_zero [of 26 ?c 8]
          dvd_coarse_zero [of 26 ?c 14] dvd_coarse_zero [of 26 ?c 20] by simp_all
      have "moved ?c = Some (4, ?c div 2 ^ 26 mod 64)" using z by (simp add: moved_def)
      moreover have "place c e = (4, ?c div 2 ^ 26 mod 64)" using e n h by (simp add: place_def)
      ultimately show False using nm by simp
    qed
    moreover from this have "\<not> ?P 8 ?c" "\<not> ?P 14 ?c" "\<not> ?P 20 ?c"
      using coarse [of 8 ?c 26] coarse [of 14 ?c 26] coarse [of 20 ?c 26] by auto
    ultimately show ?thesis using e n by (simp only: unf)
  qed
qed

section \<open>The shift\<close>

lemma unat_and_literals:
  "unat (x AND 255) = unat x mod 2 ^ 8" "unat (x AND 63) = unat x mod 64"
  "unat (x AND 16383) = unat x mod 2 ^ 14" "unat (x AND 1048575) = unat x mod 2 ^ 20"
  "unat (x AND 67108863) = unat x mod 2 ^ 26" for x :: u32
  by (simp_all only: mask_literals unat_and_mask) simp

lemma and_zero_iff:
  "x AND y = 0 \<longleftrightarrow> unat (x AND y) = 0" for x y :: u32
  by (simp add: word_unat_eq_iff)

lemma mod_split_zero: "(x::nat) mod 2 ^ a = 0 \<Longrightarrow> x div 2 ^ a mod 64 = 0 \<Longrightarrow> x mod 2 ^ (a + 6) = 0"
  by (simp add: power_add mod_mult2_eq)

text \<open>The loop returns after at most four rounds, with the slot \<open>moved\<close> names.\<close>

lemma shift_loop_moved:
  assumes "ct \<noteq> 0"
  shows "shift_loop ct 256 (drop_bit 8 ct) 0 =
    Some (map_option (\<lambda>(i, j). (i - 1, j)) (moved (unat ct)))"
proof -
  let ?n = "unat ct"
  have lt: "?n < 2 ^ 32" by (rule order_less_le_trans [OF unsigned_less]) simp
  have nz: "?n \<noteq> 0" using assms by (simp add: word_unat_eq_iff)
  have m: "ct AND 255 = 0 \<longleftrightarrow> ?n mod 2 ^ 8 = 0" "ct AND 16383 = 0 \<longleftrightarrow> ?n mod 2 ^ 14 = 0"
    "ct AND 1048575 = 0 \<longleftrightarrow> ?n mod 2 ^ 20 = 0" "ct AND 67108863 = 0 \<longleftrightarrow> ?n mod 2 ^ 26 = 0"
    by (simp_all only: and_zero_iff unat_and_literals)
  have d: "unat (drop_bit k ct AND 63) = ?n div 2 ^ k mod 64" for k
    by (simp only: unat_and_literals unat_drop_bit_eq) (simp only: drop_bit_eq_div)
  have dz: "drop_bit k ct AND 63 = 0 \<longleftrightarrow> ?n div 2 ^ k mod 64 = 0" for k
    by (simp only: and_zero_iff d)
  have s: "push_bit 6 (256 :: u32) = 16384" "push_bit 6 (16384 :: u32) = 1048576"
    "push_bit 6 (1048576 :: u32) = 67108864" by (simp_all add: push_bit_eq_mult)
  have db: "drop_bit 6 (drop_bit 8 ct) = drop_bit 14 ct" "drop_bit 6 (drop_bit 14 ct) = drop_bit 20 ct"
    "drop_bit 6 (drop_bit 20 ct) = drop_bit 26 ct" by (simp_all only: drop_bit_drop_bit) simp_all
  have sub: "(256::u32) - 1 = 255" "(16384::u32) - 1 = 16383" "(1048576::u32) - 1 = 1048575"
    "(67108864::u32) - 1 = 67108863" by simp_all
  note step = shift_loop.simps [of ct _ _ 0] shift_loop.simps [of ct _ _ "Suc 0"]
    shift_loop.simps [of ct _ _ "Suc (Suc 0)"] shift_loop.simps [of ct _ _ "Suc (Suc (Suc 0))"]
  note eqs = step sub m TIME_LEVEL_MASK_def TIME_LEVEL_SHIFT_def s db dz d Let_def if_True if_False
    simp_thms moved_def nz option.map prod.case
  have z: "?n mod 2 ^ 8 = 0 \<Longrightarrow> ?n div 2 ^ 8 mod 64 = 0 \<Longrightarrow> ?n mod 2 ^ 14 = 0"
    "?n mod 2 ^ 14 = 0 \<Longrightarrow> ?n div 2 ^ 14 mod 64 = 0 \<Longrightarrow> ?n mod 2 ^ 20 = 0"
    "?n mod 2 ^ 20 = 0 \<Longrightarrow> ?n div 2 ^ 20 mod 64 = 0 \<Longrightarrow> ?n mod 2 ^ 26 = 0"
    using mod_split_zero [of ?n 8] mod_split_zero [of ?n 14] mod_split_zero [of ?n 20]
    by simp_all
  have last: "?n div 2 ^ 26 mod 64 \<noteq> 0" if "?n mod 2 ^ 26 = 0"
    using mod_split_zero [OF that] nz lt by auto
  consider (a) "?n mod 2 ^ 8 \<noteq> 0" | (b) "?n mod 2 ^ 8 = 0" "?n div 2 ^ 8 mod 64 \<noteq> 0"
    | (c) "?n mod 2 ^ 8 = 0" "?n div 2 ^ 8 mod 64 = 0" "?n div 2 ^ 14 mod 64 \<noteq> 0"
    | (d) "?n mod 2 ^ 8 = 0" "?n div 2 ^ 8 mod 64 = 0" "?n div 2 ^ 14 mod 64 = 0"
      "?n div 2 ^ 20 mod 64 \<noteq> 0"
    | (e) "?n mod 2 ^ 8 = 0" "?n div 2 ^ 8 mod 64 = 0" "?n div 2 ^ 14 mod 64 = 0"
      "?n div 2 ^ 20 mod 64 = 0" by blast
  then show ?thesis
  proof cases
    case a then show ?thesis by (simp only: eqs)
  next
    case b then show ?thesis by (simp only: eqs) simp
  next
    case c with z(1) [OF c(1,2)] show ?thesis by (simp only: eqs) simp
  next
    case d with z(1) [OF d(1,2)] z(2) show ?thesis by (simp only: eqs) simp
  next
    case e
    note z14 = z(1) [OF e(1,2)] note z20 = z(2) [OF z14 e(3)] note z26 = z(3) [OF z20 e(4)]
    from e z14 z20 z26 last [OF z26] show ?thesis by (simp only: eqs) simp
  qed
qed

section \<open>The wheel as a calendar\<close>

lemma shape_set_slot [simp]: "p \<in> set slots \<Longrightarrow> shape (set_slot T p ns) = shape T"
  unfolding in_slots shape_def set_slot_def
  by (cases p; cases "fst p") (auto simp: nth_list_update split: if_splits)

lemma time_set_slot [simp]: "tm_time (set_slot T p ns) = tm_time T"
  by (cases p; cases "fst p") (auto simp: set_slot_def)

lemma slot_set_slot:
  assumes "shape T" "p \<in> set slots" "q \<in> set slots"
  shows "slot (set_slot T p ns) q = (if q = p then ns else slot T q)"
  using assms unfolding in_slots shape_def set_slot_def slot_def
  by (cases p; cases q; cases "fst p"; cases "fst q") (auto simp: nth_list_update)

lemma slot_time_update [simp]: "slot (T\<lparr>tm_time := c\<rparr>) p = slot T p" "shape (T\<lparr>tm_time := c\<rparr>) = shape T"
  by (simp_all add: slot_def shape_def split: prod.split nat.split)

abbreviation now :: "timer \<Rightarrow> nat" where "now T \<equiv> unat (tm_time T)"
abbreviation expires :: "timer_node \<Rightarrow> nat" where "expires n \<equiv> unat (tn_expire n)"

lemma foldl_add_node:
  assumes "shape T" "q \<in> set slots"
  shows "shape (foldl add_node T ns)" "tm_time (foldl add_node T ns) = tm_time T"
    "slot (foldl add_node T ns) q = slot T q @ filter (\<lambda>n. place (now T) (expires n) = q) ns"
  using assms
  by (induction ns arbitrary: T) (simp_all add: add_node_place place_in_slots slot_set_slot)

lemma moved_in_slots: "c < 2 ^ 32 \<Longrightarrow> moved c = Some p \<Longrightarrow> p \<in> set slots \<and> 1 \<le> fst p"
  unfolding in_slots moved_def by (auto split: if_splits)

definition after_move :: "timer \<Rightarrow> u32 \<Rightarrow> nat \<times> nat \<Rightarrow> timer_node list" where
  "after_move T c q =
     (case moved (unat c) of
        None \<Rightarrow> slot T q
      | Some p \<Rightarrow> (if q = p then [] else slot T q) @
                  filter (\<lambda>n. place (unat c) (expires n) = q) (slot T p))"

lemma move_list_place:
  "i < 4 \<Longrightarrow> move_list T i j = foldl add_node (set_slot T (Suc i, j) []) (slot T (Suc i, j))"
  by (simp add: move_list_def link_clear_def set_slot_def slot_def)

lemma unat_u32_less: "unat (c :: u32) < 2 ^ 32"
  by (rule order_less_le_trans [OF unsigned_less]) simp

lemma timer_shift_slots:
  assumes "shape T"
  obtains T' where "timer_shift T = Some T'" "shape T'" "tm_time T' = tm_time T + 1"
    "\<And>q. q \<in> set slots \<Longrightarrow> slot T' q = after_move T (tm_time T + 1) q"
proof -
  let ?c = "tm_time T + 1" and ?T = "T\<lparr>tm_time := tm_time T + 1\<rparr>"
  have eq: "timer_shift T = Some (case moved (unat ?c) of None \<Rightarrow> ?T
      | Some p \<Rightarrow> foldl add_node (set_slot ?T p []) (slot T p))"
  proof (cases "?c = 0")
    case True
    then have "moved (unat ?c) = Some (4, 0)" by (simp add: moved_def)
    then show ?thesis using True move_list_place [of 3 ?T 0]
      by (simp add: timer_shift_def Let_def numeral_eq_Suc)
  next
    case False
    have "move_list ?T (i - 1) j = foldl add_node (set_slot ?T (i, j) []) (slot T (i, j))"
      if "moved (unat ?c) = Some (i, j)" for i j
    proof -
      have "1 \<le> i" "i < 5" using moved_in_slots [OF unat_u32_less that] by (auto simp: in_slots)
      then show ?thesis using move_list_place [of "i - 1" ?T j] by simp
    qed
    then show ?thesis using False
      by (auto simp: timer_shift_def Let_def time_defs shift_loop_moved split: option.splits)
  qed
  show thesis
  proof (rule that [OF eq])
    have "(0, 0) \<in> set slots" by (simp add: in_slots)
    show "shape (case moved (unat ?c) of None \<Rightarrow> ?T
      | Some p \<Rightarrow> foldl add_node (set_slot ?T p []) (slot T p))"
     "tm_time (case moved (unat ?c) of None \<Rightarrow> ?T
      | Some p \<Rightarrow> foldl add_node (set_slot ?T p []) (slot T p)) = ?c"
      using assms foldl_add_node(1,2) [OF _ \<open>(0, 0) \<in> set slots\<close>] moved_in_slots [OF unat_u32_less, of ?c]
      by (auto split: option.splits)
  next
    fix q assume q: "q \<in> set slots"
    then show "slot (case moved (unat ?c) of None \<Rightarrow> ?T
      | Some p \<Rightarrow> foldl add_node (set_slot ?T p []) (slot T p)) q = after_move T ?c q"
      using assms moved_in_slots [OF unat_u32_less, of ?c]
      by (auto simp: after_move_def foldl_add_node(3) slot_set_slot split: option.splits)
  qed
qed

text \<open>
  The wheel holds, for each time, the nodes that expire then, oldest first: \<open>timer_cal\<close>. The
  invariant says that every node sits in its place and expires within the next \<open>2\<^sup>31\<close> ticks.
\<close>

definition timer_cal :: "timer \<Rightarrow> u32 \<Rightarrow> timer_node list" where
  "timer_cal T e = filter (\<lambda>n. tn_expire n = e) (slot T (place (now T) (unat e)))"

definition placed :: "nat \<Rightarrow> timer \<Rightarrow> bool" where
  "placed lo T \<longleftrightarrow> shape T \<and>
     (\<forall>p \<in> set slots. \<forall>n \<in> set (slot T p).
        place (now T) (expires n) = p \<and> lo \<le> unat (tn_expire n - tm_time T) \<and>
        unat (tn_expire n - tm_time T) < 2 ^ 31)"

definition timer_inv :: "timer \<Rightarrow> bool" where
  "timer_inv T \<longleftrightarrow> placed 1 T"

lemma ticks_eq: "ticks (unat c) (unat e) = unat (e - c)" for c e :: u32
proof -
  have "unat c < 2 ^ 32" "unat e < 2 ^ 32" by (rule unat_u32_less)+
  then show ?thesis by (cases "unat c \<le> unat e") (auto simp: ticks_def unat_sub_if_size word_size
        mod_if)
qed

lemma unat_suc: "unat (c + 1) = Suc (unat c) mod 2 ^ 32" for c :: u32
  by (simp add: unat_word_ariths)

lemma place_near_iff: "place c e = (0, c mod 256) \<longleftrightarrow> e = c"
proof
  assume "place c e = (0, c mod 256)"
  then have "e div 256 = c div 256" "e mod 256 = c mod 256" by (auto simp: place_def split: if_splits)
  then show "e = c" by (metis div_mult_mod_eq)
qed (simp add: place_def)

lemma placed_step:
  assumes "placed 1 T" "p \<in> set slots" "n \<in> set (slot T p)" "moved (unat (tm_time T + 1)) \<noteq> Some p"
  shows "place (unat (tm_time T + 1)) (expires n) = p"
proof -
  have n: "place (now T) (expires n) = p" "1 \<le> unat (tn_expire n - tm_time T)"
    "unat (tn_expire n - tm_time T) < 2 ^ 31" using assms(1-3) by (auto simp: placed_def)
  then show ?thesis
    using place_step [OF unat_u32_less [of "tn_expire n"] unat_u32_less [of "tm_time T"]] assms(4)
    by (simp only: ticks_eq unat_suc) simp
qed

lemma unat_minus_suc: "1 \<le> unat (e - c) \<Longrightarrow> unat (e - (c + 1)) = unat (e - c) - 1" for c e :: u32
proof -
  assume "1 \<le> unat (e - c)"
  then have "unat (e - c - 1) = unat (e - c) - 1" by (intro unat_minus_one) auto
  then show ?thesis by (simp add: algebra_simps)
qed

lemma after_move_mem:
  "n \<in> set (after_move T c q) \<Longrightarrow> (n \<in> set (slot T q) \<and> moved (unat c) \<noteq> Some q) \<or>
     (\<exists>p. moved (unat c) = Some p \<and> n \<in> set (slot T p) \<and> place (unat c) (expires n) = q)"
  unfolding after_move_def by (cases "moved (unat c)") (auto split: if_splits simp del: split_paired_Ex)

lemma timer_shift_placed:
  assumes "placed 1 T" "timer_shift T = Some T'"
  shows "placed 0 T'"
proof -
  from assms obtain t: "shape T'" "tm_time T' = tm_time T + 1"
      "\<And>q. q \<in> set slots \<Longrightarrow> slot T' q = after_move T (tm_time T + 1) q"
    by (metis option.inject placed_def timer_shift_slots)
  { fix q n assume q: "q \<in> set slots" "n \<in> set (slot T' q)"
    from after_move_mem [OF q(2) [unfolded t(3) [OF q(1)]]]
    have "place (unat (tm_time T + 1)) (expires n) = q \<and> (\<exists>p \<in> set slots. n \<in> set (slot T p))"
      using placed_step [OF assms(1) q(1)] moved_in_slots [OF unat_u32_less] q(1) by blast
    moreover from this have "1 \<le> unat (tn_expire n - tm_time T)" "unat (tn_expire n - tm_time T) < 2 ^ 31"
      using assms(1) by (auto simp: placed_def)
    ultimately have "place (now T') (expires n) = q" "unat (tn_expire n - tm_time T') < 2 ^ 31"
      using unat_minus_suc [of "tn_expire n" "tm_time T"] by (simp_all only: t(2)) }
  with t(1) show ?thesis by (simp add: placed_def)
qed

lemma placed_filter:
  assumes "placed lo T" "p \<in> set slots" "place (now T) (unat e) \<noteq> p"
  shows "filter (\<lambda>n. tn_expire n = e) (slot T p) = []"
  using assms by (auto simp: placed_def filter_empty_conv)

lemma timer_shift_cal:
  assumes "placed 1 T" "timer_shift T = Some T'"
  shows "timer_cal T' = timer_cal T"
proof
  fix e :: u32
  from assms obtain t: "shape T'" "tm_time T' = tm_time T + 1"
      "\<And>q. q \<in> set slots \<Longrightarrow> slot T' q = after_move T (tm_time T + 1) q"
    by (metis option.inject placed_def timer_shift_slots)
  let ?c' = "unat (tm_time T + 1)" and ?q = "place (now T) (unat e)"
  let ?q' = "place ?c' (unat e)" and ?F = "\<lambda>p. filter (\<lambda>n. tn_expire n = e) (slot T p)"
  have q: "?q \<in> set slots" "?q' \<in> set slots" by (rule place_in_slots)+
  have other: "p \<in> set slots \<Longrightarrow> p \<noteq> ?q \<Longrightarrow> ?F p = []" for p
    using placed_filter [OF assms(1)] by metis
  have stay: "?F ?q = [] \<or> ?q' = ?q" if "moved ?c' \<noteq> Some ?q"
    using placed_step [OF assms(1) q(1) _ that] by (auto simp: filter_empty_conv)
  have sub: "filter (\<lambda>n. tn_expire n = e) (filter (\<lambda>n. place ?c' (expires n) = ?q') ns) =
      filter (\<lambda>n. tn_expire n = e) ns" for ns by (auto intro: filter_cong)
  have "timer_cal T' e = filter (\<lambda>n. tn_expire n = e) (after_move T (tm_time T + 1) ?q')"
    using t q by (simp add: timer_cal_def)
  also have "\<dots> = ?F ?q"
  proof (cases "moved ?c'")
    case None
    with stay other [OF q(2)] show ?thesis by (cases "?q' = ?q") (auto simp: after_move_def)
  next
    case (Some p)
    then have p: "p \<in> set slots" using moved_in_slots [OF unat_u32_less] by blast
    have "filter (\<lambda>n. tn_expire n = e) (after_move T (tm_time T + 1) ?q') =
        (if ?q' = p then [] else ?F ?q') @ ?F p"
      using Some by (simp add: after_move_def sub del: filter_filter)
    also have "\<dots> = ?F ?q"
      using Some stay other [OF q(2)] other [OF p]
      by (cases "p = ?q"; cases "?q' = ?q"; simp)
    finally show ?thesis .
  qed
  finally show "timer_cal T' e = timer_cal T e" by (simp add: timer_cal_def)
qed

lemma set_slot_same: "slot T (0, j) = ns \<Longrightarrow> set_slot T (0, j) ns = T"
  by (auto simp: set_slot_def slot_def)

lemma timer_execute_slot:
  "timer_execute T = (slot T (0, now T mod 256), set_slot T (0, now T mod 256) [])"
proof -
  have "unat (tm_time T AND 255) = now T mod 256" by (simp only: unat_and_literals) simp
  then show ?thesis using set_slot_same [of T "now T mod 256" "[]"]
    by (auto simp: timer_execute_def link_clear_def slot_def set_slot_def Let_def TIME_NEAR_MASK_def)
qed

lemma near_in_slots: "(0, c mod 256) \<in> set slots"
  by (simp add: in_slots)

lemma current_slot:
  assumes "placed lo T"
  shows "slot T (0, now T mod 256) = timer_cal T (tm_time T)"
proof -
  have "tn_expire n = tm_time T" if "n \<in> set (slot T (0, now T mod 256))" for n
    using assms that near_in_slots [of "now T"] place_near_iff
    by (metis (no_types, lifting) placed_def word_unat_eq_iff)
  then have "filter (\<lambda>n. tn_expire n = tm_time T) (slot T (0, now T mod 256)) =
      slot T (0, now T mod 256)" by simp
  moreover have "place (now T) (now T) = (0, now T mod 256)" by (simp add: place_near_iff)
  ultimately show ?thesis by (simp add: timer_cal_def)
qed

lemma current_slot_empty: "placed 1 T \<Longrightarrow> timer_cal T (tm_time T) = []"
  using place_in_slots by (fastforce simp: timer_cal_def placed_def filter_empty_conv)

lemma execute_placed:
  assumes "placed 0 T" and T': "T' = set_slot T (0, now T mod 256) []"
  shows "placed 1 T'" "timer_cal T' = (timer_cal T)(tm_time T := [])"
proof -
  have sh: "shape T" using assms(1) by (simp add: placed_def)
  have [simp]: "tm_time T' = tm_time T" by (simp add: T')
  have sl: "slot T' q = (if q = (0, now T mod 256) then [] else slot T q)" if "q \<in> set slots" for q
    using slot_set_slot [OF sh near_in_slots that] by (simp only: T')
  { fix q n assume q: "q \<in> set slots" "n \<in> set (slot T' q)"
    then have n: "q \<noteq> (0, now T mod 256)" "n \<in> set (slot T q)" using sl by (auto split: if_splits)
    then have "place (now T) (expires n) = q" "unat (tn_expire n - tm_time T) < 2 ^ 31"
      using q assms(1) by (auto simp: placed_def)
    moreover from this n have "tn_expire n \<noteq> tm_time T" using place_near_iff by metis
    then have "1 \<le> unat (tn_expire n - tm_time T)" by (simp add: Suc_le_eq unat_gt_0)
    ultimately have "place (now T') (expires n) = q \<and> 1 \<le> unat (tn_expire n - tm_time T') \<and>
      unat (tn_expire n - tm_time T') < 2 ^ 31" by simp }
  moreover have "shape T'" using sh near_in_slots by (simp add: T')
  ultimately show "placed 1 T'" by (simp add: placed_def)
  show "timer_cal T' = (timer_cal T)(tm_time T := [])"
  proof
    fix e
    have "place (now T) (unat e) = (0, now T mod 256) \<longleftrightarrow> e = tm_time T"
      by (simp add: place_near_iff word_unat_eq_iff)
    then show "timer_cal T' e = ((timer_cal T)(tm_time T := [])) e"
      by (simp add: timer_cal_def sl place_in_slots)
  qed
qed

text \<open>One tick fires exactly the nodes that expire then, in the order they were added.\<close>

lemma timer_update_cal:
  assumes "timer_inv T"
  obtains T' where "timer_update T = Some (timer_cal T (tm_time T + 1), T')" "timer_inv T'"
    "tm_time T' = tm_time T + 1" "timer_cal T' = (timer_cal T)(tm_time T + 1 := [])"
proof -
  have pl: "placed 1 T" and sh: "shape T" using assms by (simp_all add: timer_inv_def placed_def)
  have "slot T (0, now T mod 256) = []" using current_slot [OF pl] current_slot_empty [OF pl] by simp
  then have ex1: "timer_execute T = ([], T)"
    by (simp add: timer_execute_slot set_slot_same)
  obtain T1 where T1: "timer_shift T = Some T1" "tm_time T1 = tm_time T + 1"
    using timer_shift_slots [OF sh] by metis
  note p1 = timer_shift_placed [OF pl T1(1)] and c1 = timer_shift_cal [OF pl T1(1)]
  note p2 = execute_placed [OF p1 refl]
  have "timer_update T = Some (timer_cal T (tm_time T + 1), set_slot T1 (0, now T1 mod 256) [])"
    unfolding timer_update_def ex1 using current_slot [OF p1]
    by (simp add: T1 timer_execute_slot c1)
  then show thesis using p2 T1 c1 by (intro that) (simp_all add: timer_inv_def)
qed

lemma timer_add_cal:
  fixes ev :: timer_event
  assumes "timer_inv T" "0 < t" "t < 2 ^ 31"
  defines "n \<equiv> \<lparr>tn_expire = of_int t + tm_time T, tn_event = ev\<rparr>"
  shows "timer_inv (timer_add T ev t)"
    "timer_cal (timer_add T ev t) = (timer_cal T)(tn_expire n := timer_cal T (tn_expire n) @ [n])"
    "tm_time (timer_add T ev t) = tm_time T"
proof -
  let ?p = "place (now T) (expires n)" and ?T = "timer_add T ev t"
  have sh: "shape T" using assms(1) by (simp add: timer_inv_def placed_def)
  have T': "?T = set_slot T ?p (slot T ?p @ [n])"
    by (simp add: timer_add_def add_node_place n_def)
  show tm: "tm_time ?T = tm_time T" by (simp add: T')
  have sl: "slot ?T q = (if q = ?p then slot T ?p @ [n] else slot T q)" if "q \<in> set slots" for q
    using slot_set_slot [OF sh place_in_slots that] by (simp only: T')
  have "tn_expire n - tm_time T = (of_int t :: u32)" by (simp add: n_def)
  then have d: "unat (tn_expire n - tm_time T) = nat t"
    using assms(2,3) by (simp add: unat_eq_nat_uint uint_word_of_int)
  have "shape ?T" using sh by (simp add: T' place_in_slots)
  then show "timer_inv ?T"
    using assms(1-3) d tm by (auto simp: timer_inv_def placed_def sl)
  show "timer_cal ?T = (timer_cal T)(tn_expire n := timer_cal T (tn_expire n) @ [n])"
    by (rule ext) (auto simp: timer_cal_def sl tm place_in_slots)
qed

section \<open>The interface the clock thread relies on\<close>

primrec run_ticks :: "('s \<Rightarrow> ('n list \<times> 's) option) \<Rightarrow> nat \<Rightarrow> 's \<Rightarrow> ('n list list \<times> 's) option" where
  "run_ticks tick 0 s = Some ([], s)"
| "run_ticks tick (Suc k) s = do {
     (ns, s) \<leftarrow> tick s;
     (nss, s) \<leftarrow> run_ticks tick k s;
     Some (ns # nss, s)
   }"

definition upcoming :: "(u32 \<Rightarrow> 'n list) \<Rightarrow> u32 \<Rightarrow> nat \<Rightarrow> 'n list list" where
  "upcoming cal c k = map (\<lambda>j. cal (c + 1 + of_nat j)) [0..<k]"

lemma upcoming_Suc: "upcoming cal c (Suc k) = cal (c + 1) # upcoming cal (c + 1) k"
  unfolding upcoming_def by (subst upt_conv_Cons) (auto simp: map_Suc_upt [symmetric] algebra_simps
      simp del: upt_Suc)

lemma upcoming_irrelevant:
  "k < 2 ^ 32 \<Longrightarrow> upcoming (cal(c := ns)) c k = upcoming cal c k"
proof -
  assume k: "k < 2 ^ 32"
  have "c + 1 + of_nat j \<noteq> c" if "j < k" for j
  proof
    assume "c + 1 + of_nat j = c"
    then have "(of_nat (Suc j) :: u32) = 0" by (simp add: algebra_simps)
    then have "2 ^ 32 dvd Suc j" by (simp only: word_of_nat_eq_0_iff) simp
    with that k show False by (auto dest: dvd_imp_le)
  qed
  then show ?thesis by (simp add: upcoming_def)
qed

text \<open>
  A timer, for the thread that drives it: a calendar of batches. A tick returns the batch of the
  next instant and removes it.
\<close>

locale calendar =
  fixes tick :: "'s \<Rightarrow> ('n list \<times> 's) option"
    and clock :: "'s \<Rightarrow> u32"
    and cal :: "'s \<Rightarrow> u32 \<Rightarrow> 'n list"
    and wf :: "'s \<Rightarrow> bool"
  assumes tick_spec: "wf s \<Longrightarrow> \<exists>s'. tick s = Some (cal s (clock s + 1), s') \<and> wf s' \<and>
      clock s' = clock s + 1 \<and> cal s' = (cal s)(clock s + 1 := [])"
begin

lemma ticks_spec:
  assumes "wf s" "k \<le> 2 ^ 32"
  shows "\<exists>s'. run_ticks tick k s = Some (upcoming (cal s) (clock s) k, s') \<and> wf s' \<and>
    clock s' = clock s + of_nat k"
  using assms
proof (induction k arbitrary: s)
  case 0
  then show ?case by (simp add: upcoming_def)
next
  case (Suc k)
  from tick_spec [OF Suc.prems(1)] obtain s1 where s1: "tick s = Some (cal s (clock s + 1), s1)"
    "wf s1" "clock s1 = clock s + 1" "cal s1 = (cal s)(clock s + 1 := [])" by blast
  moreover from Suc.IH [OF s1(2)] Suc.prems(2) obtain s2 where
    "run_ticks tick k s1 = Some (upcoming (cal s1) (clock s1) k, s2)" "wf s2"
    "clock s2 = clock s1 + of_nat k" by auto
  moreover have "upcoming (cal s1) (clock s1) k = upcoming (cal s) (clock s + 1) k"
    using Suc.prems(2) by (simp add: s1 upcoming_irrelevant)
  ultimately show ?case by (auto simp: upcoming_Suc algebra_simps)
qed

end

interpretation wheel: calendar timer_update tm_time timer_cal timer_inv
proof
  fix T assume "timer_inv T"
  from timer_update_cal [OF this]
  show "\<exists>T'. timer_update T = Some (timer_cal T (tm_time T + 1), T') \<and> timer_inv T' \<and>
    tm_time T' = tm_time T + 1 \<and> timer_cal T' = (timer_cal T)(tm_time T + 1 := [])" by metis
qed

lemma timer_updates_run: "timer_updates k T = run_ticks timer_update k T"
  by (induction k arbitrary: T) (simp_all split: Option.bind_splits)

lemma slot_create [simp]: "p \<in> set slots \<Longrightarrow> slot timer_create_timer p = []"
  unfolding in_slots by (cases p; cases "fst p") (auto simp: slot_def timer_create_timer_def)

lemma timer_inv_create: "timer_inv timer_create_timer"
proof -
  have "shape timer_create_timer"
    unfolding shape_def timer_create_timer_def by (simp only: timer.simps length_replicate nth_replicate) simp
  then show ?thesis by (simp add: timer_inv_def placed_def)
qed

lemma timer_fields:
  "timer_inv (T\<lparr>tm_starttime := a\<rparr>) = timer_inv T" "timer_inv (T\<lparr>tm_current := b\<rparr>) = timer_inv T"
  "timer_inv (T\<lparr>tm_current_point := d\<rparr>) = timer_inv T"
  "timer_cal (T\<lparr>tm_starttime := a\<rparr>) = timer_cal T" "timer_cal (T\<lparr>tm_current := b\<rparr>) = timer_cal T"
  "timer_cal (T\<lparr>tm_current_point := d\<rparr>) = timer_cal T"
  by (auto simp: timer_inv_def placed_def timer_cal_def slot_def shape_def fun_eq_iff
      split: prod.splits nat.splits)

lemma timer_inv_init: "timer_inv (skynet_timer_init r m)"
  by (simp add: skynet_timer_init_def timer_fields timer_inv_create split: prod.splits)

lemma timer_add_other_slot:
  assumes "timer_inv T" "0 < t" "t < 2 ^ 31"
  shows "slot (timer_add T ev t) (0, now T mod 256) = slot T (0, now T mod 256)"
proof -
  note a = timer_add_cal [OF assms, of ev]
  have "placed 1 (timer_add T ev t)" "placed 1 T" using a assms by (simp_all add: timer_inv_def)
  then show ?thesis using current_slot current_slot_empty a(3) by metis
qed

text \<open>
  C5. The timing wheel implements a calendar: from any state whose nodes are in place, one
  \<open>timer_update\<close> returns exactly the nodes that expire at the next instant, in the order in which
  they were added, removes them and nothing else, advances the 32-bit clock by one (wrapping) and
  keeps every other node in place, whichever of the five levels it is in.
\<close>

theorem timer_update_refines_calendar:
  assumes "timer_inv T"
  shows "\<exists>T'. timer_update T = Some (timer_cal T (tm_time T + 1), T') \<and> timer_inv T' \<and>
    tm_time T' = tm_time T + 1 \<and> timer_cal T' = (timer_cal T)(tm_time T + 1 := [])"
  using wheel.tick_spec [OF assms] .

definition timer_ex :: timer where
  "timer_ex = timer_add (timer_add timer_create_timer \<lparr>ev_handle = 7, ev_session = 1\<rparr> 1)
     \<lparr>ev_handle = 8, ev_session = 2\<rparr> 300"

lemma timer_ex_inv: "timer_inv timer_ex"
  by (simp add: timer_ex_def timer_inv_create timer_add_cal)

theorem timer_update_refines_calendar_witness:
  "timer_inv timer_ex \<and> (\<exists>T'. timer_update timer_ex = Some (timer_cal timer_ex (tm_time timer_ex + 1), T') \<and>
     timer_inv T' \<and> tm_time T' = tm_time timer_ex + 1 \<and>
     timer_cal T' = (timer_cal timer_ex)(tm_time timer_ex + 1 := []))"
  using timer_update_refines_calendar [OF timer_ex_inv] timer_ex_inv by simp

text \<open>
  C6. A timeout is never lost, early or late: when \<open>timer_add\<close> registers an event with a positive
  delay \<open>t\<close>, the following ticks of the clock return exactly what they would have returned without
  it, except that the event comes last in the batch of the \<open>t\<close>-th tick.
\<close>

theorem timer_fires_on_time:
  assumes "timer_inv T" "0 < t" "t < 2 ^ 31" "k \<le> 2 ^ 32"
  shows "\<exists>nss T1 T2. timer_updates k T = Some (nss, T1) \<and> timer_inv T2 \<and>
    timer_updates k (timer_add T ev t) =
      Some (map (\<lambda>j. if int j + 1 = t
                     then nss ! j @ [\<lparr>tn_expire = of_int t + tm_time T, tn_event = ev\<rparr>]
                     else nss ! j) [0..<k], T2)"
proof -
  note a = timer_add_cal [OF assms(1-3), of ev]
  have eq: "tm_time T + 1 + of_nat j = of_int t + tm_time T \<longleftrightarrow> int j + 1 = t" if "j < k" for j
  proof -
    have "tm_time T + 1 + of_nat j = of_int t + tm_time T \<longleftrightarrow> (of_nat j + 1 :: u32) = of_int t"
      by (auto simp: algebra_simps)
    also have "\<dots> \<longleftrightarrow> (of_int (int j + 1) :: u32) = of_int t" by simp
    also have "\<dots> \<longleftrightarrow> (int j + 1) mod 2 ^ 32 = t mod 2 ^ 32"
      by (simp only: word_of_int_eq_iff take_bit_eq_mod) simp
    also have "\<dots> \<longleftrightarrow> int j + 1 = t"
      using that assms(2-4) by (cases "int j + 1 = 2 ^ 32") simp_all
    finally show ?thesis .
  qed
  let ?n = "\<lparr>tn_expire = of_int t + tm_time T, tn_event = ev\<rparr>"
  let ?nss = "upcoming (timer_cal T) (tm_time T) k"
  have "timer_cal (timer_add T ev t) (tm_time T + 1 + of_nat j) =
      (if int j + 1 = t then ?nss ! j @ [?n] else ?nss ! j)" if "j < k" for j
    using eq [OF that] that by (simp only: a fun_upd_def) (auto simp: upcoming_def ac_simps)
  then have "upcoming (timer_cal (timer_add T ev t)) (tm_time T) k =
      map (\<lambda>j. if int j + 1 = t then ?nss ! j @ [?n] else ?nss ! j) [0..<k]"
    unfolding upcoming_def [of "timer_cal (timer_add T ev t)"] by simp
  moreover obtain T1 where "run_ticks timer_update k T = Some (?nss, T1)"
    using wheel.ticks_spec [OF assms(1,4)] by blast
  moreover obtain T2 where "run_ticks timer_update k (timer_add T ev t) =
      Some (upcoming (timer_cal (timer_add T ev t)) (tm_time T) k, T2)" "timer_inv T2"
    using wheel.ticks_spec [OF a(1) assms(4)] unfolding a(3) by blast
  ultimately show ?thesis unfolding timer_updates_run
    by (intro exI [of _ ?nss] exI [of _ T1] exI [of _ T2] conjI) (simp_all only:)
qed

theorem timer_fires_on_time_witness:
  "\<exists>nss T1 T2. timer_updates 300 timer_ex = Some (nss, T1) \<and> timer_inv T2 \<and>
    timer_updates 300 (timer_add timer_ex \<lparr>ev_handle = 9, ev_session = 3\<rparr> 300) =
      Some (map (\<lambda>j. if int j + 1 = 300
                     then nss ! j @ [\<lparr>tn_expire = of_int 300 + tm_time timer_ex,
                            tn_event = \<lparr>ev_handle = 9, ev_session = 3\<rparr>\<rparr>]
                     else nss ! j) [0..<300], T2)"
  by (rule timer_fires_on_time [OF timer_ex_inv]) simp_all

lemma foldl_add_node_clock:
  "tm_current (foldl add_node T ns) = tm_current T"
  "tm_current_point (foldl add_node T ns) = tm_current_point T"
  by (induction ns arbitrary: T) (simp_all add: add_node_def Let_def)

lemma timer_update_clock:
  "timer_update T = Some (ns, T') \<Longrightarrow> tm_current T' = tm_current T"
  "timer_update T = Some (ns, T') \<Longrightarrow> tm_current_point T' = tm_current_point T"
  by (auto simp: timer_update_def timer_execute_def timer_shift_def move_list_def link_clear_def
      Let_def foldl_add_node_clock bind_eq_Some_conv split: if_splits option.splits)

lemma timer_updates_clock:
  "timer_updates k T = Some (nss, T') \<Longrightarrow>
     tm_current T' = tm_current T \<and> tm_current_point T' = tm_current_point T"
  by (induction k arbitrary: T nss) (auto simp: bind_eq_Some_conv timer_update_clock)

text \<open>
  \<open>skynet_updatetime\<close> always returns. When the monotonic clock went backwards it only resets
  its reference point; otherwise it runs one tick for each centisecond since the reference point
  (modulo \<open>2\<^sup>32\<close>), returns their batches in order, moves the reference point, and adds the same
  number to the system time \<open>current\<close>.
\<close>

theorem updatetime_catches_up:
  assumes "timer_inv T"
  shows "\<exists>nss T'. skynet_updatetime cp T = Some (nss, T') \<and> timer_inv T' \<and>
    nss = upcoming (timer_cal T) (tm_time T)
      (if cp < tm_current_point T then 0 else unat (ucast (cp - tm_current_point T) :: u32)) \<and>
    tm_time T' = tm_time T + of_nat (length nss) \<and> tm_current_point T' = cp \<and>
    tm_current T' = tm_current T + of_nat (length nss)"
proof -
  define diff where "diff = (ucast (cp - tm_current_point T) :: u32)"
  let ?T = "T\<lparr>tm_current_point := cp, tm_current := tm_current T + ucast diff\<rparr>"
  have zero: "upcoming f c 0 = []" for f :: "u32 \<Rightarrow> timer_node list" and c by (simp add: upcoming_def)
  consider "cp < tm_current_point T" | "cp = tm_current_point T"
    | "\<not> cp < tm_current_point T" "cp \<noteq> tm_current_point T" by blast
  then show ?thesis
  proof cases
    case 3
    have "unat diff \<le> 2 ^ 32" using unat_u32_less by (rule less_imp_le)
    then obtain T' where "timer_updates (unat diff) ?T =
        Some (upcoming (timer_cal T) (tm_time T) (unat diff), T')" "timer_inv T'"
        "tm_time T' = tm_time T + diff"
      using wheel.ticks_spec [of ?T "unat diff"] assms by (auto simp: timer_updates_run timer_fields)
    moreover from this timer_updates_clock have "tm_current T' = tm_current T + ucast diff"
      "tm_current_point T' = cp" by fastforce+
    ultimately show ?thesis
      using 3 by (auto simp: skynet_updatetime_def Let_def diff_def [symmetric] upcoming_def)
  qed (use assms in \<open>auto simp: skynet_updatetime_def timer_fields zero\<close>)
qed

theorem updatetime_catches_up_witness:
  "\<exists>nss T'. skynet_updatetime 5 timer_ex = Some (nss, T') \<and> timer_inv T' \<and>
    nss = upcoming (timer_cal timer_ex) (tm_time timer_ex)
      (if 5 < tm_current_point timer_ex then 0
       else unat (ucast (5 - tm_current_point timer_ex) :: u32)) \<and>
    tm_time T' = tm_time timer_ex + of_nat (length nss) \<and> tm_current_point T' = 5 \<and>
    tm_current T' = tm_current timer_ex + of_nat (length nss)"
  by (rule updatetime_catches_up [OF timer_ex_inv])
end
