(* ===== verification/Cstr.thy ===== *)
theory Cstr
  imports Prelude
begin

text \<open>
  What the code uses of the C library's strings: \<open>strcmp\<close>, \<open>strtol\<close>/\<open>strtoul\<close>, \<open>strsep\<close>, \<open>strchr\<close>
  and the \<open>printf\<close> conversions \<open>%x\<close> and \<open>%d\<close>. A string is a list of characters without its NUL.
\<close>

fun strcmp :: "string \<Rightarrow> string \<Rightarrow> int" where
  "strcmp [] [] = 0"
| "strcmp [] (b # t) = - 1"
| "strcmp (a # s) [] = 1"
| "strcmp (a # s) (b # t) =
     (if a = b then strcmp s t else int (of_char a) - int (of_char b))"

definition isspace :: "char \<Rightarrow> bool" where
  "isspace c \<longleftrightarrow> c = CHR '' '' \<or> (9 \<le> (of_char c :: nat) \<and> (of_char c :: nat) \<le> 13)"

definition digit_val :: "char \<Rightarrow> nat" where
  "digit_val c =
     (let n = of_char c in
      if 48 \<le> n \<and> n \<le> 57 then n - 48
      else if 97 \<le> n \<and> n \<le> 122 then n - 87
      else if 65 \<le> n \<and> n \<le> 90 then n - 55 else 36)"

fun digits :: "nat \<Rightarrow> nat \<Rightarrow> string \<Rightarrow> nat \<times> string" where
  "digits base acc [] = (acc, [])"
| "digits base acc (c # s) =
     (if digit_val c < base then digits base (acc * base + digit_val c) s else (acc, c # s))"

text \<open>Sign, value and rest of the text: the common part of \<open>strtol\<close> and \<open>strtoul\<close>.\<close>

definition strto :: "nat \<Rightarrow> string \<Rightarrow> bool \<times> nat \<times> string" where
  "strto base s0 =
     (let s = dropWhile isspace s0;
          (neg, s) = (case s of [] \<Rightarrow> (False, s)
                      | c # t \<Rightarrow> if c = CHR ''-'' then (True, t)
                                 else if c = CHR ''+'' then (False, t) else (False, s));
          hex = (base = 0 \<or> base = 16) \<and> 2 < length s \<and> s ! 0 = CHR ''0'' \<and>
                (s ! 1 = CHR ''x'' \<or> s ! 1 = CHR ''X'') \<and> digit_val (s ! 2) < 16;
          b = (if hex then 16
               else if base \<noteq> 0 then base
               else if s \<noteq> [] \<and> hd s = CHR ''0'' then 8 else 10);
          s = (if hex then drop 2 s else s)
      in if s = [] \<or> \<not> digit_val (hd s) < b then (False, 0, s0)
         else let (v, rest) = digits b 0 s in (neg, v, rest))"

definition strtoul :: "nat \<Rightarrow> string \<Rightarrow> u64" where
  "strtoul base s =
     (case strto base s of (neg, v, _) \<Rightarrow>
        if v \<ge> 2 ^ 64 then - 1 else if neg then - of_nat v else of_nat v)"

definition strtol :: "nat \<Rightarrow> string \<Rightarrow> int \<times> string" where
  "strtol base s =
     (case strto base s of (neg, v, rest) \<Rightarrow>
        (if neg then max (- (2 ^ 63)) (- int v) else min (2 ^ 63 - 1) (int v), rest))"

text \<open>Assignment of a long to an \<open>int\<close>.\<close>

definition to_int :: "int \<Rightarrow> int" where
  "to_int v = (v + 2 ^ 31) mod 2 ^ 32 - 2 ^ 31"

definition digit_char :: "nat \<Rightarrow> char" where
  "digit_char n = char_of (if n < 10 then n + 48 else n + 87)"

fun show_base :: "nat \<Rightarrow> nat \<Rightarrow> string" where
  "show_base b n = (if n < b \<or> b < 2 then [digit_char n] else show_base b (n div b) @ [digit_char (n mod b)])"

declare show_base.simps [simp del]

definition fmt_x :: "u32 \<Rightarrow> string" where
  "fmt_x n = show_base 16 (unat n)"

definition fmt_d :: "int \<Rightarrow> string" where
  "fmt_d i = (if i < 0 then CHR ''-'' # show_base 10 (nat (- i)) else show_base 10 (nat i))"

text \<open>\<open>strsep\<close>: the token and, when a separator ends it, what follows.\<close>

definition strsep :: "char list \<Rightarrow> string \<Rightarrow> string \<times> string option" where
  "strsep seps s =
     (takeWhile (\<lambda>c. c \<notin> set seps) s,
      case dropWhile (\<lambda>c. c \<notin> set seps) s of [] \<Rightarrow> None | _ # rest \<Rightarrow> Some rest)"

definition strchr :: "string \<Rightarrow> char \<Rightarrow> string option" where
  "strchr s c = (case dropWhile (\<lambda>d. d \<noteq> c) s of [] \<Rightarrow> None | t \<Rightarrow> Some t)"

section \<open>Order\<close>

lemma strcmp_refl [simp]: "strcmp s s = 0"
  by (induction s) auto

lemma strcmp_eq_iff [simp]: "strcmp s t = 0 \<longleftrightarrow> s = t"
  by (induction s t rule: strcmp.induct) auto

lemma strcmp_swap: "strcmp s t < 0 \<longleftrightarrow> strcmp t s > 0"
  by (induction s t rule: strcmp.induct) auto

lemma strcmp_trans: "strcmp s t < 0 \<Longrightarrow> strcmp t u < 0 \<Longrightarrow> strcmp s u < 0"
proof (induction s t arbitrary: u rule: strcmp.induct)
  case (4 a s b t)
  then show ?case by (cases u) (auto split: if_splits)
qed (auto elim: strcmp.elims, (case_tac u; auto)+)

section \<open>Printed numbers are read back\<close>

lemma digit_val_char: "n < 36 \<Longrightarrow> digit_val (digit_char n) = n"
  by (auto simp: digit_val_def digit_char_def Let_def)

lemma digits_append:
  "\<forall>c \<in> set s. digit_val c < base \<Longrightarrow>
     digits base acc (s @ t) = digits base (foldl (\<lambda>a c. a * base + digit_val c) acc s) t"
  by (induction s arbitrary: acc) auto

definition digits_value :: "nat \<Rightarrow> string \<Rightarrow> nat" where
  "digits_value base s = foldl (\<lambda>a c. a * base + digit_val c) 0 s"

lemma show_base_digits:
  assumes "2 \<le> b" "b \<le> 36"
  shows "\<forall>c \<in> set (show_base b n). digit_val c < b" "digits_value b (show_base b n) = n"
    "show_base b n \<noteq> []"
  using assms
proof (induction b n rule: show_base.induct)
  case (1 b n)
  have "digit_val (digit_char (n mod b)) = n mod b" if "2 \<le> b" "b \<le> 36"
    using that by (intro digit_val_char) (meson less_le_trans mod_less_divisor order_less_le_trans
        zero_less_numeral)
  note dm = this
  { case 1 then show ?case using "1.IH" dm by (auto simp: show_base.simps [of b n] digit_val_char) }
  { case 2 then show ?case using "1.IH" dm
      by (auto simp: show_base.simps [of b n] digit_val_char digits_value_def) }
  { case 3 then show ?case by (simp add: show_base.simps [of b n]) }
qed

lemma digit_not_special: "digit_val c < 16 \<Longrightarrow> \<not> isspace c \<and> c \<noteq> CHR ''-'' \<and> c \<noteq> CHR ''+'' \<and>
    c \<noteq> CHR ''x'' \<and> c \<noteq> CHR ''X''"
  by (auto simp: digit_val_def isspace_def Let_def split: if_splits)

text \<open>A text of hexadecimal digits is read as its value, up to the first other character.\<close>

lemma strto_hex:
  assumes "s \<noteq> []" "\<forall>c \<in> set s. digit_val c < 16" "t = [] \<or> 16 \<le> digit_val (hd t)"
    "t = [] \<or> hd t \<noteq> CHR ''x'' \<and> hd t \<noteq> CHR ''X''"
  shows "strto 16 (s @ t) = (False, digits_value 16 s, t)"
proof -
  obtain c u where s: "s = c # u" using assms(1) by (cases s) auto
  have sp: "\<not> isspace c \<and> c \<noteq> CHR ''-'' \<and> c \<noteq> CHR ''+''" using assms(2) digit_not_special s by auto
  have d: "digits 16 0 (s @ t) = (digits_value 16 s, t)"
    using digits_append [OF assms(2), of 0 t] assms(3) by (cases t) (auto simp: digits_value_def)
  have "(s @ t) ! 1 \<noteq> CHR ''x'' \<and> (s @ t) ! 1 \<noteq> CHR ''X''" if "2 < length (s @ t)"
    using that assms(2,4) digit_not_special s by (cases u; cases t) auto
  then show ?thesis using sp d assms(2) s by (auto simp: strto_def Let_def)
qed

lemma strtoul_fmt_x: "strtoul 16 (fmt_x h) = ucast h"
proof -
  have "unat h < 2 ^ 32" by (rule order_less_le_trans [OF unsigned_less]) simp
  then show ?thesis
    using strto_hex [of "fmt_x h" "[]"] show_base_digits [of 16 "unat h"]
    by (simp add: strtoul_def fmt_x_def)
qed

end
