(* ===== verification/Names.thy ===== *)
theory Names
  imports Message Cstr
begin

text \<open>
  The handle storage of \<open>skynet-src/skynet_handle.c\<close> and its directory of local names: a sorted,
  growing array searched by bisection. \<open>Kernel\<close> continues with the slots of the same structure.
\<close>

unbundle bit_operations_syntax

record handle_name =
  hn_name :: string
  hn_handle :: u32

record handle_storage =
  hs_harbor :: u32
  hs_handle_index :: u32
  hs_slot_size :: nat
  hs_slot :: "ptr option list"
  hs_name_cap :: nat
  hs_name_count :: nat
  hs_name :: "handle_name option list"

definition MAX_SLOT_SIZE :: nat where
  "MAX_SLOT_SIZE = 0x40000000"

definition DEFAULT_SLOT_SIZE :: nat where
  "DEFAULT_SLOT_SIZE = 4"

definition skynet_handle_init :: "u32 \<Rightarrow> handle_storage" where
  "skynet_handle_init harbor =
     \<lparr>hs_harbor = push_bit HANDLE_REMOTE_SHIFT (harbor AND 0xff), hs_handle_index = 1,
      hs_slot_size = DEFAULT_SLOT_SIZE, hs_slot = replicate DEFAULT_SLOT_SIZE None,
      hs_name_cap = 2, hs_name_count = 0, hs_name = replicate 2 None\<rparr>"

text \<open>
  The bisection loop of \<open>skynet_handle_findname\<close> and of \<open>_insert_name\<close>: the index found, or the
  value of \<open>begin\<close> when the loop ends.
\<close>

function name_search ::
  "handle_name option list \<Rightarrow> string \<Rightarrow> int \<Rightarrow> int \<Rightarrow> (nat + nat) option" where
  "name_search arr name begin end =
     (if begin \<le> end then
        let mid = (begin + end) div 2 in
        case arr_read arr (nat mid) of
          None \<Rightarrow> None
        | Some n \<Rightarrow>
            let c = strcmp (hn_name n) name in
            if c = 0 then Some (Inl (nat mid))
            else if c < 0 then name_search arr name (mid + 1) end
            else name_search arr name begin (mid - 1)
      else Some (Inr (nat begin)))"
  by pat_completeness auto
termination
  by (relation "measure (\<lambda>(_, _, b, e). nat (e - b + 1))") auto

declare name_search.simps [simp del]

definition skynet_handle_findname :: "handle_storage \<Rightarrow> string \<Rightarrow> u32 option" where
  "skynet_handle_findname s name = do {
     r \<leftarrow> name_search (hs_name s) name 0 (int (hs_name_count s) - 1);
     case r of
       Inl i \<Rightarrow> do { n \<leftarrow> arr_read (hs_name s) i; Some (hn_handle n) }
     | Inr _ \<Rightarrow> Some 0
   }"

text \<open>\<open>for (i = name_count; i > before; i--) name[i] = name[i-1]\<close>\<close>

fun shift_up :: "handle_name option list \<Rightarrow> nat \<Rightarrow> nat \<Rightarrow> handle_name option list option" where
  "shift_up arr i before =
     (if i > before then do {
        n \<leftarrow> arr_read arr (i - 1);
        arr \<leftarrow> arr_write arr i n;
        shift_up arr (i - 1) before
      }
      else Some arr)"

declare shift_up.simps [simp del]

text \<open>The first part of \<open>_insert_name_before\<close>: a free cell at \<open>before\<close>, in a larger array when full.\<close>

definition make_room :: "handle_storage \<Rightarrow> nat \<Rightarrow> handle_storage option" where
  "make_room s before =
     (if hs_name_count s \<ge> hs_name_cap s then
        let cap = hs_name_cap s * 2 in
        if cap > MAX_SLOT_SIZE then None
        else Some (s\<lparr>hs_name_cap := cap,
                     hs_name := map (\<lambda>i. if i < before then arr_read (hs_name s) i
                                         else if before < i \<and> i < Suc (hs_name_count s)
                                         then arr_read (hs_name s) (i - 1) else None) [0..<cap]\<rparr>)
      else do {
        arr \<leftarrow> shift_up (hs_name s) (hs_name_count s) before;
        Some (s\<lparr>hs_name := arr\<rparr>)
      })"

definition insert_name_before ::
  "handle_storage \<Rightarrow> string \<Rightarrow> u32 \<Rightarrow> nat \<Rightarrow> handle_storage option" where
  "insert_name_before s name handle before = do {
     s \<leftarrow> make_room s before;
     arr \<leftarrow> arr_write (hs_name s) before \<lparr>hn_name = name, hn_handle = handle\<rparr>;
     Some (s\<lparr>hs_name := arr, hs_name_count := hs_name_count s + 1\<rparr>)
   }"

text \<open>\<open>_insert_name\<close>: no name is returned when it is taken.\<close>

definition insert_name ::
  "handle_storage \<Rightarrow> string \<Rightarrow> u32 \<Rightarrow> (string option \<times> handle_storage) option" where
  "insert_name s name handle = do {
     r \<leftarrow> name_search (hs_name s) name 0 (int (hs_name_count s) - 1);
     case r of
       Inl _ \<Rightarrow> Some (None, s)
     | Inr begin \<Rightarrow> do {
         s \<leftarrow> insert_name_before s name handle begin;
         Some (Some name, s)
       }
   }"

definition skynet_handle_namehandle ::
  "u32 \<Rightarrow> string \<Rightarrow> handle_storage \<Rightarrow> (string option \<times> handle_storage) option" where
  "skynet_handle_namehandle handle name s = insert_name s name handle"

text \<open>The loop of \<open>skynet_handle_retire\<close> that drops the names of a handle.\<close>

fun compact ::
  "u32 \<Rightarrow> handle_name option list \<Rightarrow> nat list \<Rightarrow> nat \<Rightarrow> (handle_name option list \<times> nat) option" where
  "compact handle arr [] j = Some (arr, j)"
| "compact handle arr (i # is) j = do {
     n \<leftarrow> arr_read arr i;
     if hn_handle n = handle then compact handle arr is j
     else do {
       arr \<leftarrow> (if i \<noteq> j then arr_write arr j n else Some arr);
       compact handle arr is (j + 1)
     }
   }"

definition drop_names :: "u32 \<Rightarrow> handle_storage \<Rightarrow> handle_storage option" where
  "drop_names handle s = do {
     (arr, j) \<leftarrow> compact handle (hs_name s) [0..<hs_name_count s] 0;
     Some (s\<lparr>hs_name := arr, hs_name_count := j\<rparr>)
   }"

section \<open>Order of names\<close>

definition name_less :: "handle_name \<Rightarrow> handle_name \<Rightarrow> bool" where
  "name_less m n \<longleftrightarrow> strcmp (hn_name m) (hn_name n) < 0"

section \<open>The directory\<close>

definition names :: "handle_storage \<Rightarrow> handle_name list" where
  "names s = map the (take (hs_name_count s) (hs_name s))"

definition names_wf :: "handle_storage \<Rightarrow> bool" where
  "names_wf s \<longleftrightarrow> 0 < hs_name_cap s \<and> length (hs_name s) = hs_name_cap s \<and>
     hs_name_count s \<le> hs_name_cap s \<and> None \<notin> set (take (hs_name_count s) (hs_name s)) \<and>
     sorted_wrt name_less (names s)"

definition directory :: "handle_storage \<Rightarrow> string \<Rightarrow> u32 option" where
  "directory s = map_of (map (\<lambda>n. (hn_name n, hn_handle n)) (names s))"

lemma names_cells:
  assumes "None \<notin> set (take k arr)" "k \<le> length arr" "i < k"
  shows "arr_read arr i = Some (map the (take k arr) ! i)"
proof -
  have "take k arr ! i \<in> set (take k arr)" using assms by (intro nth_mem) simp
  then have "arr ! i \<noteq> None" using assms by (metis nth_take)
  then show ?thesis using assms by (auto simp: arr_read_def)
qed

lemma take_cells:
  assumes "\<And>i. i < k \<Longrightarrow> arr_read arr i = Some (L ! i)" "length L = k" "k \<le> length arr"
  shows "map the (take k arr) = L" "None \<notin> set (take k arr)"
proof -
  have "take k arr = map Some L"
    using assms by (intro nth_equalityI) (auto simp: arr_read_def split: if_splits)
  then show "map the (take k arr) = L" "None \<notin> set (take k arr)"
    by (auto simp: comp_def)
qed

lemma names_read: "names_wf s \<Longrightarrow> i < hs_name_count s \<Longrightarrow> arr_read (hs_name s) i = Some (names s ! i)"
  unfolding names_wf_def names_def by (intro names_cells) simp_all

lemma length_names [simp]: "names_wf s \<Longrightarrow> length (names s) = hs_name_count s"
  by (simp add: names_wf_def names_def)

text \<open>What the bisection returns: the entry, or the place that splits the names around it.\<close>

definition splits_at :: "handle_name list \<Rightarrow> string \<Rightarrow> nat \<Rightarrow> bool" where
  "splits_at L name p \<longleftrightarrow> p \<le> length L \<and> (\<forall>i < p. strcmp (hn_name (L ! i)) name < 0) \<and>
     (\<forall>i < length L. p \<le> i \<longrightarrow> strcmp (hn_name (L ! i)) name > 0)"

lemma name_search_spec:
  assumes "sorted_wrt name_less L" "\<And>i. i < length L \<Longrightarrow> arr_read arr i = Some (L ! i)"
    "0 \<le> b" "e < int (length L)" "b \<le> e + 1"
    "\<forall>i < nat b. strcmp (hn_name (L ! i)) name < 0"
    "\<forall>i < length L. e < int i \<longrightarrow> strcmp (hn_name (L ! i)) name > 0"
  shows "(\<exists>i < length L. name_search arr name b e = Some (Inl i) \<and> hn_name (L ! i) = name) \<or>
    (\<exists>p. name_search arr name b e = Some (Inr p) \<and> splits_at L name p)"
  using assms
proof (induction arr name b e rule: name_search.induct)
  case (1 arr name b e)
  show ?case
  proof (cases "b \<le> e")
    case False
    with "1.prems" have "splits_at L name (nat b)" by (auto simp: splits_at_def)
    with False show ?thesis by (simp add: name_search.simps)
  next
    case True
    define mid where "mid = (b + e) div 2"
    have m: "b \<le> mid" "mid \<le> e" "0 \<le> mid" "nat mid < length L" using True "1.prems" by (auto simp: mid_def)
    then have rd: "arr_read arr (nat mid) = Some (L ! nat mid)" using "1.prems" by simp
    let ?c = "strcmp (hn_name (L ! nat mid)) name"
    have step: "name_search arr name b e =
      (if ?c = 0 then Some (Inl (nat mid)) else if ?c < 0 then name_search arr name (mid + 1) e
       else name_search arr name b (mid - 1))"
      using True rd by (simp add: name_search.simps [of arr name b e] Let_def flip: mid_def)
    have lt: "strcmp (hn_name (L ! i)) (hn_name (L ! j)) < 0" if "i < j" "j < length L" for i j
      using "1.prems"(1) that by (auto simp: sorted_wrt_iff_nth_less name_less_def)
    consider "?c = 0" | "?c < 0" | "?c > 0" by linarith
    then show ?thesis
    proof cases
      case 1 with step m show ?thesis by auto
    next
      case 2
      have "\<forall>i < nat (mid + 1). strcmp (hn_name (L ! i)) name < 0"
      proof (intro allI impI)
        fix i assume "i < nat (mid + 1)"
        then have "i = nat mid \<or> i < nat mid" using m by linarith
        with lt [of i "nat mid"] 2 m strcmp_trans show "strcmp (hn_name (L ! i)) name < 0" by blast
      qed
      with 2 "1.IH"(1) [OF True mid_def rd refl] "1.prems" m step show ?thesis by auto
    next
      case 3
      have "\<forall>i < length L. mid - 1 < int i \<longrightarrow> strcmp (hn_name (L ! i)) name > 0"
      proof (intro allI impI)
        fix i assume i: "i < length L" "mid - 1 < int i"
        show "strcmp (hn_name (L ! i)) name > 0"
        proof (cases "i = nat mid")
          case False
          then have "nat mid < i" using i m by linarith
          with lt i 3 strcmp_trans strcmp_swap show ?thesis by metis
        qed (use 3 in simp)
      qed
      with 3 "1.IH"(2) [OF True mid_def rd refl] "1.prems" m step show ?thesis by auto
    qed
  qed
qed

lemma names_search:
  assumes "names_wf s"
  obtains i where "i < hs_name_count s"
      "name_search (hs_name s) name 0 (int (hs_name_count s) - 1) = Some (Inl i)"
      "hn_name (names s ! i) = name"
  | p where "name_search (hs_name s) name 0 (int (hs_name_count s) - 1) = Some (Inr p)"
      "splits_at (names s) name p"
proof -
  have "sorted_wrt name_less (names s)" using assms by (simp add: names_wf_def)
  from name_search_spec [OF this, of "hs_name s" 0 "int (hs_name_count s) - 1" name] show thesis
    using assms that by (auto simp: names_read)
qed

lemma directory_index:
  assumes "names_wf s" "i < hs_name_count s"
  shows "directory s (hn_name (names s ! i)) = Some (hn_handle (names s ! i))"
proof -
  have "hn_name (names s ! i) \<noteq> hn_name (names s ! j)" if "i < j" "j < length (names s)" for i j
  proof -
    have "name_less (names s ! i) (names s ! j)"
      using assms(1) that unfolding names_wf_def sorted_wrt_iff_nth_less by blast
    then show ?thesis by (auto simp: name_less_def)
  qed
  then have "distinct (map hn_name (names s))"
    by (auto simp: distinct_conv_nth) (metis linorder_neqE_nat)
  then show ?thesis using assms
    by (auto simp: directory_def comp_def intro!: map_of_is_SomeI)
qed

lemma splits_at_fresh: "splits_at (names s) name p \<Longrightarrow> directory s name = None"
  unfolding directory_def map_of_eq_None_iff splits_at_def
  by (auto simp: in_set_conv_nth) (metis less_irrefl not_le strcmp_refl)

text \<open>Lookup returns what the directory holds, 0 for a missing name.\<close>

lemma findname_directory:
  assumes "names_wf s"
  shows "skynet_handle_findname s name = Some (case directory s name of None \<Rightarrow> 0 | Some h \<Rightarrow> h)"
  using assms
proof (cases rule: names_search [where name = name])
  case (1 i)
  with assms show ?thesis
    by (auto simp: skynet_handle_findname_def names_read directory_index)
next
  case (2 p)
  then show ?thesis by (simp add: skynet_handle_findname_def splits_at_fresh)
qed

lemma shift_up_spec:
  assumes "before \<le> i" "i < length arr" "\<And>k. k < i \<Longrightarrow> arr ! k \<noteq> None"
  shows "\<exists>arr'. shift_up arr i before = Some arr' \<and> length arr' = length arr \<and>
    (\<forall>k < length arr. k < before \<or> i < k \<longrightarrow> arr' ! k = arr ! k) \<and>
    (\<forall>k. before < k \<and> k \<le> i \<longrightarrow> arr' ! k = arr ! (k - 1))"
  using assms
proof (induction arr i before rule: shift_up.induct)
  case (1 arr i before)
  show ?case
  proof (cases "before < i")
    case False
    with "1.prems" show ?thesis by (auto simp: shift_up.simps)
  next
    case True
    with "1.prems" obtain n where n: "arr ! (i - 1) = Some n" by (metis diff_less gr_implies_not0
          less_numeral_extra(1) not_None_eq not_gr_zero)
    let ?arr = "arr[i := Some n]"
    have rd: "arr_read arr (i - 1) = Some n" "arr_write arr i n = Some ?arr"
      using n True "1.prems" by (auto simp: arr_read_def arr_write_def)
    have pre: "before \<le> i - 1" "i - 1 < length ?arr" "\<And>k. k < i - 1 \<Longrightarrow> ?arr ! k \<noteq> None"
      using True "1.prems" by auto
    from "1.IH" [OF True rd pre] obtain arr' where a:
      "shift_up ?arr (i - 1) before = Some arr'" "length arr' = length arr"
      "\<forall>k < length arr. k < before \<or> i - 1 < k \<longrightarrow> arr' ! k = ?arr ! k"
      "\<forall>k. before < k \<and> k \<le> i - 1 \<longrightarrow> arr' ! k = ?arr ! (k - 1)"
      unfolding length_list_update by blast
    have "shift_up arr i before = Some arr'" using True rd a(1) by (simp add: shift_up.simps [of arr])
    moreover have "arr' ! k = arr ! (k - 1)" if "before < k" "k \<le> i" for k
      using a(3,4) that n True "1.prems" by (cases "k = i") auto
    ultimately show ?thesis using a True by auto
  qed
qed

lemma arr_read_nth: "k < length xs \<Longrightarrow> arr_read xs k = xs ! k"
  by (simp add: arr_read_def)

lemma make_room_grow:
  assumes wf: "names_wf s" and p: "p \<le> hs_name_count s" and full: "hs_name_cap s \<le> hs_name_count s"
    and cap: "hs_name_count s < MAX_SLOT_SIZE div 2"
  shows "\<exists>arr. make_room s p = Some (s\<lparr>hs_name_cap := length arr, hs_name := arr\<rparr>) \<and>
    hs_name_count s < length arr \<and> (\<forall>i \<le> hs_name_count s. i \<noteq> p \<longrightarrow>
      arr_read arr i = Some (if i < p then names s ! i else names s ! (i - 1)))"
proof -
  let ?n = "hs_name_count s"
  have c: "hs_name_cap s = ?n" "0 < ?n" using wf full by (auto simp: names_wf_def)
  let ?arr = "map (\<lambda>i. if i < p then arr_read (hs_name s) i else if p < i \<and> i < Suc ?n
                       then arr_read (hs_name s) (i - 1) else None) [0..<2 * ?n]"
  have "arr_read ?arr i = Some (if i < p then names s ! i else names s ! (i - 1))"
    if "i \<le> ?n" "i \<noteq> p" for i
    using that c p by (auto simp: arr_read_nth names_read [OF wf] simp del: upt_Suc)
  with full c cap show ?thesis
    by (intro exI [of _ ?arr]) (auto simp: make_room_def Let_def mult.commute)
qed

lemma make_room_shift:
  assumes wf: "names_wf s" and p: "p \<le> hs_name_count s" and room: "hs_name_count s < hs_name_cap s"
  shows "\<exists>arr. make_room s p = Some (s\<lparr>hs_name_cap := length arr, hs_name := arr\<rparr>) \<and>
    hs_name_count s < length arr \<and> (\<forall>i \<le> hs_name_count s. i \<noteq> p \<longrightarrow>
      arr_read arr i = Some (if i < p then names s ! i else names s ! (i - 1)))"
proof -
  let ?n = "hs_name_count s"
  have c: "?n < length (hs_name s)" "length (hs_name s) = hs_name_cap s"
    using wf room by (auto simp: names_wf_def)
  note rd = names_read [OF wf]
  have "hs_name s ! k \<noteq> None" if "k < ?n" for k using rd [OF that] that c by (simp add: arr_read_nth)
  from shift_up_spec [OF p c(1) this] obtain arr where a:
    "shift_up (hs_name s) ?n p = Some arr" "length arr = length (hs_name s)"
    "\<forall>k < length (hs_name s). k < p \<or> ?n < k \<longrightarrow> arr ! k = hs_name s ! k"
    "\<forall>k. p < k \<and> k \<le> ?n \<longrightarrow> arr ! k = hs_name s ! (k - 1)" by blast
  have "arr_read arr i = Some (if i < p then names s ! i else names s ! (i - 1))"
    if "i \<le> ?n" "i \<noteq> p" for i
    using that a c p rd [of i] rd [of "i - 1"] by (cases "i < p") (simp_all add: arr_read_nth)
  with room a c show ?thesis by (intro exI [of _ arr]) (auto simp: make_room_def)
qed

lemma insert_name_before_spec:
  assumes wf: "names_wf s" and p: "p \<le> hs_name_count s"
    and cap: "hs_name_count s < MAX_SLOT_SIZE div 2"
  shows "\<exists>c arr. insert_name_before s name h p =
      Some (s\<lparr>hs_name_cap := c, hs_name := arr, hs_name_count := Suc (hs_name_count s)\<rparr>) \<and>
    map the (take (Suc (hs_name_count s)) arr) =
      take p (names s) @ \<lparr>hn_name = name, hn_handle = h\<rparr> # drop p (names s) \<and>
    length arr = c \<and> hs_name_count s < c \<and> None \<notin> set (take (Suc (hs_name_count s)) arr)"
proof -
  let ?n = "hs_name_count s" and ?L = "names s" and ?e = "\<lparr>hn_name = name, hn_handle = h\<rparr>"
  let ?L' = "take p ?L @ ?e # drop p ?L"
  have L': "?L' ! i = (if i < p then ?L ! i else if i = p then ?e else ?L ! (i - 1))" if "i \<le> ?n" for i
    using that p wf by (auto simp: nth_append nth_Cons')
  have lL': "length ?L' = Suc ?n" using p wf by simp
  obtain arr where room: "make_room s p = Some (s\<lparr>hs_name_cap := length arr, hs_name := arr\<rparr>)"
    "?n < length arr"
    "\<forall>i \<le> ?n. i \<noteq> p \<longrightarrow> arr_read arr i = Some (if i < p then ?L ! i else ?L ! (i - 1))"
    using make_room_grow [OF wf p _ cap] make_room_shift [OF wf p] by (metis not_le)
  then have eq: "insert_name_before s name h p = Some (s\<lparr>hs_name_cap := length arr,
      hs_name := arr[p := Some ?e], hs_name_count := Suc ?n\<rparr>)"
    using p by (auto simp: insert_name_before_def arr_write_def)
  have cells: "arr_read (arr[p := Some ?e]) i = Some (?L' ! i)" if "i < Suc ?n" for i
    using that room p L' [of i] by (cases "i = p") (auto simp: arr_read_def)
  from take_cells [OF cells lL'] room(2) have
    "map the (take (Suc ?n) (arr[p := Some ?e])) = ?L'" "None \<notin> set (take (Suc ?n) (arr[p := Some ?e]))"
    by simp_all
  with eq room(2) show ?thesis by (intro exI [of _ "length arr"] exI [of _ "arr[p := Some ?e]"]) simp
qed

text \<open>Inserting at the place the bisection returns keeps the order.\<close>

lemma sorted_insert:
  assumes "sorted_wrt name_less L" "splits_at L (hn_name e) p"
  shows "sorted_wrt name_less (take p L @ e # drop p L)"
proof -
  have "name_less m e" if "m \<in> set (take p L)" for m
    using that assms(2) by (auto simp: in_set_conv_nth splits_at_def name_less_def)
  moreover have "name_less e m" if "m \<in> set (drop p L)" for m
  proof -
    from that obtain i where "m = L ! (p + i)" "p + i < length L" by (auto simp: in_set_conv_nth)
    then show ?thesis using assms(2) strcmp_swap by (auto simp: splits_at_def name_less_def)
  qed
  moreover have "sorted_wrt name_less (take p L @ drop p L)" using assms(1) by simp
  ultimately show ?thesis by (simp only: sorted_wrt_append sorted_wrt.simps) auto
qed

lemma map_of_insert:
  "map_of (xs @ ys) k = None \<Longrightarrow> map_of (xs @ (k, v) # ys) = (map_of (xs @ ys))(k \<mapsto> v)"
  by (rule ext) (auto simp: map_add_def split: option.splits)

text \<open>
  A new name is added and returned; a name that is taken is refused and nothing changes. Only the
  fields of the directory change.
\<close>

lemma insert_name_directory:
  assumes wf: "names_wf s" and cap: "hs_name_count s < MAX_SLOT_SIZE div 2"
  shows "case directory s name of
      Some _ \<Rightarrow> insert_name s name h = Some (None, s)
    | None \<Rightarrow> \<exists>c arr. let s' = s\<lparr>hs_name_cap := c, hs_name := arr, hs_name_count := Suc (hs_name_count s)\<rparr> in
        insert_name s name h = Some (Some name, s') \<and> names_wf s' \<and>
        directory s' = (directory s)(name \<mapsto> h)"
  using wf
proof (cases rule: names_search [where name = name])
  case (1 i)
  with wf show ?thesis using directory_index by (fastforce simp: insert_name_def)
next
  case (2 p)
  then have p: "p \<le> hs_name_count s" using wf by (simp add: splits_at_def)
  let ?e = "\<lparr>hn_name = name, hn_handle = h\<rparr>"
  from insert_name_before_spec [OF wf p cap, of name h] obtain c arr where i:
    "insert_name_before s name h p =
      Some (s\<lparr>hs_name_cap := c, hs_name := arr, hs_name_count := Suc (hs_name_count s)\<rparr>)"
    "map the (take (Suc (hs_name_count s)) arr) = take p (names s) @ ?e # drop p (names s)"
    "length arr = c" "hs_name_count s < c" "None \<notin> set (take (Suc (hs_name_count s)) arr)" by blast
  let ?s' = "s\<lparr>hs_name_cap := c, hs_name := arr, hs_name_count := Suc (hs_name_count s)\<rparr>"
  have n': "names ?s' = take p (names s) @ ?e # drop p (names s)" using i by (simp add: names_def)
  have fresh: "directory s name = None" using splits_at_fresh 2 by blast
  have "sorted_wrt name_less (names ?s')"
    using wf 2 sorted_insert [of "names s" ?e p] unfolding n' by (simp add: names_wf_def)
  then have "names_wf ?s'" using i by (auto simp: names_wf_def)
  moreover have "directory ?s' = (directory s)(name \<mapsto> h)"
    using map_of_insert [of "map (\<lambda>n. (hn_name n, hn_handle n)) (take p (names s))"
        "map (\<lambda>n. (hn_name n, hn_handle n)) (drop p (names s))" name h] fresh
    unfolding directory_def n' map_append [symmetric] append_take_drop_id by simp
  moreover have "insert_name s name h = Some (Some name, ?s')" using 2 i by (simp add: insert_name_def)
  ultimately show ?thesis using fresh by (auto simp: Let_def)
qed

lemma compact_spec:
  fixes h :: u32
  assumes "j \<le> i" "i \<le> length L" "length L \<le> length arr"
    "\<And>k. i \<le> k \<Longrightarrow> k < length L \<Longrightarrow> arr_read arr k = Some (L ! k)"
  defines "R \<equiv> filter (\<lambda>n. hn_handle n \<noteq> h) (drop i L)"
  shows "\<exists>arr'. compact h arr [i..<length L] j = Some (arr', j + length R) \<and>
    length arr' = length arr \<and> (\<forall>k < j. arr' ! k = arr ! k) \<and>
    (\<forall>k < length R. arr_read arr' (j + k) = Some (R ! k))"
  using assms(1-4) unfolding R_def
proof (induction "length L - i" arbitrary: i j arr)
  case 0
  then show ?case by simp
next
  case (Suc d)
  then have i: "i < length L" by simp
  have up: "[i..<length L] = i # [Suc i..<length L]" using i by (simp add: upt_conv_Cons)
  have dr: "drop i L = L ! i # drop (Suc i) L" using i by (simp add: Cons_nth_drop_Suc)
  have rd: "arr_read arr i = Some (L ! i)" using Suc.prems i by simp
  note IH = Suc.hyps(1) [of "Suc i"]
  show ?case
  proof (cases "hn_handle (L ! i) = h")
    case True
    with IH [of j arr] Suc.hyps(2) Suc.prems i show ?thesis by (auto simp: up dr rd)
  next
    case False
    define arr1 where "arr1 = arr[j := Some (L ! i)]"
    have w: "(if i \<noteq> j then arr_write arr j (L ! i) else Some arr) = Some arr1"
      using Suc.prems(1,3) i rd list_update_id [of arr j]
      by (cases "i = j") (auto simp: arr_write_def arr1_def arr_read_def)
    have cells: "arr_read arr1 k = Some (L ! k)" if "Suc i \<le> k" "k < length L" for k
      using that Suc.prems(1,3) Suc.prems(4) [of k] by (simp add: arr1_def arr_read_def)
    let ?R = "filter (\<lambda>n. hn_handle n \<noteq> h) (drop (Suc i) L)"
    have pre: "d = length L - Suc i" "Suc j \<le> Suc i" "Suc i \<le> length L" "length L \<le> length arr1"
      using Suc.hyps(2) Suc.prems i by (auto simp: arr1_def)
    have "length arr1 = length arr" by (simp add: arr1_def)
    with IH [OF pre cells] obtain arr' where a:
      "compact h arr1 [Suc i..<length L] (Suc j) = Some (arr', Suc j + length ?R)"
      "length arr' = length arr" "\<forall>k < Suc j. arr' ! k = arr1 ! k"
      "\<forall>k < length ?R. arr_read arr' (Suc j + k) = Some (?R ! k)" by metis
    have "arr_read arr' j = Some (L ! i)" using a(2,3) Suc.prems(1,3) i by (simp add: arr1_def arr_read_def)
    with a(4) have "\<forall>k < length (L ! i # ?R). arr_read arr' (j + k) = Some ((L ! i # ?R) ! k)"
      by (auto simp: nth_Cons split: nat.split)
    moreover have "\<forall>k < j. arr' ! k = arr ! k" using a(3) by (simp add: arr1_def)
    ultimately show ?thesis using a(1,2) False by (auto simp: up dr rd w)
  qed
qed

lemma map_of_filter_handle:
  assumes "distinct (map hn_name L)"
  shows "map_of (map (\<lambda>n. (hn_name n, hn_handle n)) (filter (\<lambda>n. hn_handle n \<noteq> h) L)) k =
    (let v = map_of (map (\<lambda>n. (hn_name n, hn_handle n)) L) k in if v = Some h then None else v)"
  using assms by (induction L) (auto simp: Let_def map_of_eq_None_iff image_iff)

lemma sorted_distinct_names: "sorted_wrt name_less L \<Longrightarrow> distinct (map hn_name L)"
  by (induction L) (auto simp: name_less_def)

lemma drop_names_directory:
  assumes wf: "names_wf s"
  shows "\<exists>arr j. let s' = s\<lparr>hs_name := arr, hs_name_count := j\<rparr> in
    drop_names h s = Some s' \<and> names_wf s' \<and> j \<le> hs_name_count s \<and>
    directory s' = (\<lambda>k. if directory s k = Some h then None else directory s k)"
proof -
  let ?L = "names s" let ?R = "filter (\<lambda>n. hn_handle n \<noteq> h) ?L"
  have len: "length ?L \<le> length (hs_name s)" using wf by (simp add: names_wf_def)
  from compact_spec [of 0 0 ?L "hs_name s" h] len names_read [OF wf] wf obtain arr where a:
    "compact h (hs_name s) [0..<hs_name_count s] 0 = Some (arr, length ?R)"
    "length arr = length (hs_name s)" "\<forall>k < length ?R. arr_read arr k = Some (?R ! k)" by auto
  let ?s' = "s\<lparr>hs_name := arr, hs_name_count := length ?R\<rparr>"
  have R: "length ?R \<le> length arr" using len a(2) length_filter_le [of _ ?L] le_trans by metis
  have t: "map the (take (length ?R) arr) = ?R" "None \<notin> set (take (length ?R) arr)"
    using take_cells [of "length ?R" arr ?R] a(3) R by auto
  then have n': "names ?s' = ?R" by (simp add: names_def)
  have "names_wf ?s'"
    using wf a(2) R t n' by (simp add: names_wf_def sorted_wrt_filter)
  moreover have "directory ?s' k = (if directory s k = Some h then None else directory s k)" for k
    using map_of_filter_handle [of ?L h k] sorted_distinct_names wf
    by (simp add: directory_def n' names_wf_def Let_def)
  moreover have "length ?R \<le> hs_name_count s" using wf by (metis length_filter_le length_names)
  ultimately show ?thesis using a(1)
    by (intro exI [of _ arr] exI [of _ "length ?R"]) (simp add: Let_def drop_names_def fun_eq_iff)
qed

section \<open>The interface of a name service\<close>

locale name_service =
  fixes find :: "'s \<Rightarrow> 'k \<Rightarrow> u32 option"
    and add :: "'s \<Rightarrow> 'k \<Rightarrow> u32 \<Rightarrow> ('k option \<times> 's) option"
    and remove :: "u32 \<Rightarrow> 's \<Rightarrow> 's option"
    and dir :: "'s \<Rightarrow> 'k \<Rightarrow> u32 option"
    and wf :: "'s \<Rightarrow> bool"
    and room :: "'s \<Rightarrow> bool"
  assumes find_dir: "wf s \<Longrightarrow> find s k = Some (case dir s k of None \<Rightarrow> 0 | Some h \<Rightarrow> h)"
    and add_new: "wf s \<Longrightarrow> room s \<Longrightarrow> dir s k = None \<Longrightarrow>
      \<exists>s'. add s k h = Some (Some k, s') \<and> wf s' \<and> dir s' = (dir s)(k \<mapsto> h)"
    and add_taken: "wf s \<Longrightarrow> room s \<Longrightarrow> dir s k = Some h' \<Longrightarrow> add s k h = Some (None, s)"
    and remove_dir: "wf s \<Longrightarrow>
      \<exists>s'. remove h s = Some s' \<and> wf s' \<and>
        dir s' = (\<lambda>k. if dir s k = Some h then None else dir s k)"
begin

lemma find_after_add:
  assumes "wf s" "room s"
  shows "\<exists>r s'. add s k h = Some (r, s') \<and> wf s' \<and> (r = Some k \<longleftrightarrow> dir s k = None) \<and>
    (\<forall>k'. find s' k' = (if k' = k \<and> dir s k = None then Some h else find s k'))"
proof (cases "dir s k")
  case None
  from add_new [OF assms None] show ?thesis using None by (fastforce simp: find_dir assms(1))
next
  case (Some h')
  from add_taken [OF assms Some] show ?thesis using Some assms(1) by auto
qed

lemma find_after_remove:
  assumes "wf s"
  shows "\<exists>s'. remove h s = Some s' \<and> wf s' \<and>
    (\<forall>k. find s' k = (if dir s k = Some h then Some 0 else find s k))"
  using remove_dir [OF assms, of h] assms by (fastforce simp: find_dir)

end

definition names_room :: "handle_storage \<Rightarrow> bool" where
  "names_room s \<longleftrightarrow> hs_name_count s < MAX_SLOT_SIZE div 2"

interpretation local_names: name_service skynet_handle_findname insert_name drop_names directory
  names_wf names_room
proof
  fix s k h h'
  assume wf: "names_wf s"
  then show "skynet_handle_findname s k = Some (case directory s k of None \<Rightarrow> 0 | Some h \<Rightarrow> h)"
    by (rule findname_directory)
  show "\<exists>s'. drop_names h s = Some s' \<and> names_wf s' \<and>
      directory s' = (\<lambda>k. if directory s k = Some h then None else directory s k)"
    using drop_names_directory [OF wf, of h] by (auto simp: Let_def)
  assume "names_room s"
  with wf have "case directory s k of
      Some _ \<Rightarrow> insert_name s k h = Some (None, s)
    | None \<Rightarrow> \<exists>c arr. let s' = s\<lparr>hs_name_cap := c, hs_name := arr, hs_name_count := Suc (hs_name_count s)\<rparr> in
        insert_name s k h = Some (Some k, s') \<and> names_wf s' \<and> directory s' = (directory s)(k \<mapsto> h)"
    by (intro insert_name_directory) (simp_all add: names_room_def)
  then show "directory s k = None \<Longrightarrow>
      \<exists>s'. insert_name s k h = Some (Some k, s') \<and> names_wf s' \<and> directory s' = (directory s)(k \<mapsto> h)"
    and "directory s k = Some h' \<Longrightarrow> insert_name s k h = Some (None, s)" by (auto simp: Let_def)
qed

text \<open>
  The directory of local names: registering a name returns it exactly when nobody holds it, and
  the search by bisection then finds the new handle under it; every other name is found as before,
  and a name that is taken keeps its first holder.
\<close>

theorem namehandle_then_findname:
  assumes "names_wf s" "names_room s"
  shows "\<exists>r s'. skynet_handle_namehandle h name s = Some (r, s') \<and> names_wf s' \<and>
    (r = Some name \<longleftrightarrow> directory s name = None) \<and>
    (\<forall>k. skynet_handle_findname s' k =
       (if k = name \<and> directory s name = None then Some h else skynet_handle_findname s k))"
  using local_names.find_after_add [OF assms] by (simp add: skynet_handle_namehandle_def)

lemma names_wf_init: "names_wf (skynet_handle_init harbor)" "names_room (skynet_handle_init harbor)"
  by (simp_all add: names_wf_def names_def skynet_handle_init_def names_room_def MAX_SLOT_SIZE_def)

theorem namehandle_then_findname_witness:
  "\<exists>r s'. skynet_handle_namehandle 0x01000007 ''db'' (skynet_handle_init 1) = Some (r, s') \<and> names_wf s' \<and>
    (r = Some ''db'' \<longleftrightarrow> directory (skynet_handle_init 1) ''db'' = None) \<and>
    (\<forall>k. skynet_handle_findname s' k =
       (if k = ''db'' \<and> directory (skynet_handle_init 1) ''db'' = None then Some 0x01000007
        else skynet_handle_findname (skynet_handle_init 1) k))"
  by (rule namehandle_then_findname [OF names_wf_init])

end
