(* ===== verification/Kernel.thy ===== *)
theory Kernel
  imports Names Scheduler Timer
begin

text \<open>
  The state of a node and the services in it: \<open>struct skynet_context\<close> and \<open>G_NODE\<close> of
  \<open>skynet-src/skynet_server.c\<close>, \<open>H\<close> of \<open>skynet_handle.c\<close>, \<open>REMOTE\<close> and \<open>HARBOR\<close> of
  \<open>skynet_harbor.c\<close>, \<open>TI\<close> of \<open>skynet_timer.c\<close>, together with the queues of \<open>Mq\<close>. Reference counting of
  contexts is here, since the handle table needs it. The code of services (shared objects found by
  \<open>skynet_module.c\<close>) is a parameter.
\<close>

record skynet_context =
  cx_instance :: nat
  cx_mod :: nat
  cx_cb_ud :: nat
  cx_cb :: "nat option"
  cx_queue :: "ptr option"
  cx_logfile :: "nat option"
  cx_cpu_cost :: u64
  cx_cpu_start :: u64
  cx_result :: string
  cx_handle :: u32
  cx_session_id :: int
  cx_ref :: int
  cx_message_count :: int
  cx_init :: bool
  cx_endless :: bool
  cx_profile :: bool

text \<open>\<open>k_brk\<close> is the next address \<open>malloc\<close> returns; \<open>k_handle_key\<close> the running thread's key.\<close>

record kernel = "skynet_message mq_state" +
  k_ctx :: "ptr \<Rightarrow> skynet_context option"
  k_brk :: ptr
  k_H :: handle_storage
  k_total :: int
  k_monitor_exit :: u32
  k_profile :: bool
  k_handle_key :: u32
  k_HARBOR :: "u32 option"
  k_REMOTE :: "ptr option"
  k_logger :: u32
  k_TI :: timer
  k_env :: "string \<Rightarrow> string option"

text \<open>
  The functions of the loaded modules: \<open>xxx_create\<close>, \<open>xxx_init\<close>, \<open>xxx_release\<close>, \<open>xxx_signal\<close>, and
  the callbacks that services install, whose boolean result says whether the callback keeps the
  message. The file operations of \<open>skynet_log.c\<close>, the thread's CPU clock and the text of a number of
  microseconds in seconds (\<open>%lf\<close>) are there too.
\<close>

record modules =
  md_query :: "string \<Rightarrow> nat option"
  md_create :: "nat \<Rightarrow> kernel \<Rightarrow> (nat option \<times> kernel) option"
  md_init :: "nat \<Rightarrow> nat \<Rightarrow> ptr \<Rightarrow> string option \<Rightarrow> kernel \<Rightarrow> (int \<times> kernel) option"
  md_release :: "nat \<Rightarrow> nat \<Rightarrow> kernel \<Rightarrow> kernel option"
  md_signal :: "nat \<Rightarrow> nat \<Rightarrow> int \<Rightarrow> kernel \<Rightarrow> kernel option"
  md_callback :: "nat \<Rightarrow> ptr \<Rightarrow> nat \<Rightarrow> nat \<Rightarrow> int \<Rightarrow> u32 \<Rightarrow> payload \<Rightarrow> u64 \<Rightarrow> kernel \<Rightarrow>
    (bool \<times> kernel) option"
  md_log_open :: "ptr \<Rightarrow> u32 \<Rightarrow> kernel \<Rightarrow> (nat option \<times> kernel) option"
  md_log_close :: "ptr \<Rightarrow> nat \<Rightarrow> u32 \<Rightarrow> kernel \<Rightarrow> kernel option"
  md_thread_time :: "kernel \<Rightarrow> u64"
  md_show_seconds :: "u64 \<Rightarrow> string"

definition upd_ctx :: "ptr \<Rightarrow> (skynet_context \<Rightarrow> skynet_context) \<Rightarrow> kernel \<Rightarrow> kernel option" where
  "upd_ctx p f k = do { c \<leftarrow> k_ctx k p; Some (k\<lparr>k_ctx := (k_ctx k)(p \<mapsto> f c)\<rparr>) }"

definition context_inc :: "kernel \<Rightarrow> kernel" where
  "context_inc k = k\<lparr>k_total := k_total k + 1\<rparr>"

definition context_dec :: "kernel \<Rightarrow> kernel" where
  "context_dec k = k\<lparr>k_total := k_total k - 1\<rparr>"

definition skynet_context_handle :: "ptr \<Rightarrow> kernel \<Rightarrow> u32 option" where
  "skynet_context_handle p k = map_option cx_handle (k_ctx k p)"

definition skynet_context_grab :: "ptr \<Rightarrow> kernel \<Rightarrow> kernel option" where
  "skynet_context_grab p = upd_ctx p (cx_ref_update (\<lambda>r. r + 1))"

definition skynet_context_reserve :: "ptr \<Rightarrow> kernel \<Rightarrow> kernel option" where
  "skynet_context_reserve p k = do { k \<leftarrow> skynet_context_grab p k; Some (context_dec k) }"

definition delete_context :: "modules \<Rightarrow> ptr \<Rightarrow> kernel \<Rightarrow> kernel option" where
  "delete_context M p k = do {
     c \<leftarrow> k_ctx k p;
     k \<leftarrow> md_release M (cx_mod c) (cx_instance c) k;
     q \<leftarrow> cx_queue c;
     k \<leftarrow> skynet_mq_mark_release q k;
     Some (context_dec (k\<lparr>k_ctx := (k_ctx k)(p := None)\<rparr>))
   }"

definition skynet_context_release :: "modules \<Rightarrow> ptr \<Rightarrow> kernel \<Rightarrow> (ptr option \<times> kernel) option" where
  "skynet_context_release M p k = do {
     c \<leftarrow> k_ctx k p;
     k \<leftarrow> upd_ctx p (cx_ref_update (\<lambda>r. r - 1)) k;
     if cx_ref c - 1 = 0 then do { k \<leftarrow> delete_context M p k; Some (None, k) }
     else Some (Some p, k)
   }"

section \<open>The handle table\<close>

text \<open>The inner loop of \<open>skynet_handle_register\<close>, with the number of rounds left.\<close>

primrec handle_scan :: "handle_storage \<Rightarrow> nat \<Rightarrow> u32 \<Rightarrow> (u32 \<times> nat) option" where
  "handle_scan s 0 handle = None"
| "handle_scan s (Suc n) handle =
     (let handle = (if handle > HANDLE_MASK then 1 else handle);
          hash = unat (handle AND (of_nat (hs_slot_size s) - 1))
      in if hs_slot s ! hash = None then Some (handle, hash) else handle_scan s n (handle + 1))"

text \<open>The loop that copies the slots into a table of twice the size.\<close>

primrec rehash ::
  "(ptr \<Rightarrow> u32 option) \<Rightarrow> handle_storage \<Rightarrow> nat list \<Rightarrow> ptr option list \<Rightarrow> ptr option list option" where
  "rehash handle_of s [] new_slot = Some new_slot"
| "rehash handle_of s (i # is) new_slot = do {
     ctx \<leftarrow> hs_slot s ! i;
     h \<leftarrow> handle_of ctx;
     let hash = unat (h AND (of_nat (hs_slot_size s * 2) - 1));
     if new_slot ! hash \<noteq> None then None
     else rehash handle_of s is (new_slot[hash := Some ctx])
   }"

partial_function (option) register_loop ::
  "(ptr \<Rightarrow> u32 option) \<Rightarrow> ptr \<Rightarrow> handle_storage \<Rightarrow> (u32 \<times> handle_storage) option" where
  "register_loop handle_of ctx s =
     (case handle_scan s (hs_slot_size s) (hs_handle_index s) of
        Some (handle, hash) \<Rightarrow>
          Some (handle, s\<lparr>hs_slot := (hs_slot s)[hash := Some ctx], hs_handle_index := handle + 1\<rparr>)
      | None \<Rightarrow>
          if \<not> hs_slot_size s * 2 - 1 \<le> unat HANDLE_MASK then None
          else Option.bind
            (rehash handle_of s [0..<hs_slot_size s] (replicate (hs_slot_size s * 2) None))
            (\<lambda>new_slot. register_loop handle_of ctx
               (s\<lparr>hs_slot := new_slot, hs_slot_size := hs_slot_size s * 2\<rparr>)))"

definition skynet_handle_register :: "ptr \<Rightarrow> kernel \<Rightarrow> (u32 \<times> kernel) option" where
  "skynet_handle_register ctx k = do {
     (handle, H) \<leftarrow> register_loop (\<lambda>p. skynet_context_handle p k) ctx (k_H k);
     Some (handle OR hs_harbor H, k\<lparr>k_H := H\<rparr>)
   }"

definition slot_of :: "handle_storage \<Rightarrow> u32 \<Rightarrow> nat" where
  "slot_of s handle = unat (handle AND (of_nat (hs_slot_size s) - 1))"

text \<open>The part of \<open>skynet_handle_retire\<close> under the lock.\<close>

definition retire_slot ::
  "(ptr \<Rightarrow> u32 option) \<Rightarrow> u32 \<Rightarrow> handle_storage \<Rightarrow> (ptr option \<times> handle_storage) option" where
  "retire_slot handle_of handle s =
     (case hs_slot s ! slot_of s handle of
        None \<Rightarrow> Some (None, s)
      | Some ctx \<Rightarrow> do {
          h \<leftarrow> handle_of ctx;
          if h = handle then do {
            s \<leftarrow> drop_names handle (s\<lparr>hs_slot := (hs_slot s)[slot_of s handle := None]\<rparr>);
            Some (Some ctx, s)
          }
          else Some (None, s)
        })"

definition skynet_handle_retire :: "modules \<Rightarrow> u32 \<Rightarrow> kernel \<Rightarrow> (bool \<times> kernel) option" where
  "skynet_handle_retire M handle k = do {
     (ctx, H) \<leftarrow> retire_slot (\<lambda>p. skynet_context_handle p k) handle (k_H k);
     let k = k\<lparr>k_H := H\<rparr>;
     case ctx of
       None \<Rightarrow> Some (False, k)
     | Some p \<Rightarrow> do { (_, k) \<leftarrow> skynet_context_release M p k; Some (True, k) }
   }"

text \<open>One pass of \<open>skynet_handle_retireall\<close> from slot \<open>i\<close>; \<open>slot_size\<close> is read again each time.\<close>

partial_function (option) retire_pass ::
  "modules \<Rightarrow> nat \<Rightarrow> nat \<Rightarrow> kernel \<Rightarrow> (nat \<times> kernel) option" where
  "retire_pass M i n k =
     (if i < hs_slot_size (k_H k) then
        (case hs_slot (k_H k) ! i of
           None \<Rightarrow> retire_pass M (i + 1) n k
         | Some ctx \<Rightarrow>
             Option.bind (skynet_context_handle ctx k) (\<lambda>handle.
               if handle \<noteq> 0 then
                 Option.bind (skynet_handle_retire M handle k)
                   (\<lambda>(r, k). retire_pass M (i + 1) (if r then n + 1 else n) k)
               else retire_pass M (i + 1) n k))
      else Some (n, k))"

partial_function (option) skynet_handle_retireall :: "modules \<Rightarrow> kernel \<Rightarrow> kernel option" where
  "skynet_handle_retireall M k =
     Option.bind (retire_pass M 0 0 k)
       (\<lambda>(n, k). if n = 0 then Some k else skynet_handle_retireall M k)"

definition skynet_handle_grab :: "u32 \<Rightarrow> kernel \<Rightarrow> (ptr option \<times> kernel) option" where
  "skynet_handle_grab handle k =
     (case hs_slot (k_H k) ! slot_of (k_H k) handle of
        None \<Rightarrow> Some (None, k)
      | Some ctx \<Rightarrow> do {
          h \<leftarrow> skynet_context_handle ctx k;
          if h = handle then do { k \<leftarrow> skynet_context_grab ctx k; Some (Some ctx, k) }
          else Some (None, k)
        })"

section \<open>Handles as a finite map\<close>

text \<open>
  \<open>handle_of\<close> gives the handle stored in a context. The table maps a handle to the context that
  sits in its slot and carries that handle.
\<close>

definition lookup :: "(ptr \<Rightarrow> u32 option) \<Rightarrow> handle_storage \<Rightarrow> u32 \<Rightarrow> ptr option" where
  "lookup handle_of s h =
     (case hs_slot s ! slot_of s h of
        None \<Rightarrow> None
      | Some p \<Rightarrow> if handle_of p = Some h then Some p else None)"

definition table_shape :: "handle_storage \<Rightarrow> bool" where
  "table_shape s \<longleftrightarrow> (\<exists>n. 2 \<le> n \<and> n \<le> 24 \<and> hs_slot_size s = 2 ^ n) \<and>
     length (hs_slot s) = hs_slot_size s \<and> hs_harbor s AND HANDLE_MASK = 0 \<and>
     1 \<le> unat (hs_handle_index s) \<and> unat (hs_handle_index s) \<le> 2 ^ 24"

definition handle_inv :: "(ptr \<Rightarrow> u32 option) \<Rightarrow> handle_storage \<Rightarrow> bool" where
  "handle_inv handle_of s \<longleftrightarrow> table_shape s \<and>
     (\<forall>i < hs_slot_size s. \<forall>p. hs_slot s ! i = Some p \<longrightarrow>
        (\<exists>h. handle_of p = Some h \<and> unat h mod hs_slot_size s = i \<and> h AND HANDLE_MASK \<noteq> 0 \<and>
             h AND NOT HANDLE_MASK = hs_harbor s))"

lemma pow2_minus_1: "(of_nat (2 ^ n) - 1 :: u32) = mask n"
  by (simp add: mask_eq_exp_minus_1)

lemma unat_and_size:
  "hs_slot_size s = 2 ^ n \<Longrightarrow> unat (h AND (of_nat (hs_slot_size s) - 1)) = unat h mod hs_slot_size s"
  for h :: u32
  by (simp only: pow2_minus_1 unat_and_mask)

lemma slot_of_mod: "table_shape s \<Longrightarrow> slot_of s h = unat h mod hs_slot_size s"
  unfolding table_shape_def slot_of_def by (elim conjE exE) (rule unat_and_size)

lemma slot_of_less: "table_shape s \<Longrightarrow> slot_of s h < length (hs_slot s)"
  by (auto simp: slot_of_mod) (auto simp: table_shape_def)

lemma HANDLE_MASK_mask: "HANDLE_MASK = mask 24"
  by (simp add: HANDLE_MASK_def mask_eq_exp_minus_1)

lemma unat_HANDLE_MASK: "unat HANDLE_MASK = 2 ^ 24 - 1"
  by (simp add: HANDLE_MASK_def)

lemma unat_suc_small: "unat h \<le> 2 ^ 24 \<Longrightarrow> unat (h + 1) = Suc (unat h)" for h :: u32
  by (simp add: unat_word_ariths)

subsection \<open>The search for a free slot\<close>

text \<open>The handles the inner loop tries in \<open>n\<close> rounds from \<open>c\<close>: upwards, and again from 1.\<close>

definition tried :: "nat \<Rightarrow> nat \<Rightarrow> nat \<Rightarrow> bool" where
  "tried n c x \<longleftrightarrow> x < 2 ^ 24 \<and> ((c \<le> x \<and> x < c + n) \<or> (1 \<le> x \<and> x + 2 ^ 24 \<le> n + c))"

lemma tried_Suc:
  assumes "tried (Suc n) c x" "1 \<le> c" "c \<le> 2 ^ 24"
  shows "x = (if c = 2 ^ 24 then 1 else c) \<or> tried n (Suc (if c = 2 ^ 24 then 1 else c)) x"
  using assms by (auto simp: tried_def)

lemma handle_scan_hit:
  assumes "table_shape s" "1 \<le> unat c" "unat c \<le> 2 ^ 24" "tried n (unat c) x"
    "hs_slot s ! (x mod hs_slot_size s) = None"
  shows "handle_scan s n c \<noteq> None"
  using assms(2-4)
proof (induction n arbitrary: c)
  case 0
  then show ?case by (auto simp: tried_def)
next
  case (Suc n)
  define d where "d = (if c > HANDLE_MASK then 1 else c)"
  have d: "unat d = (if unat c = 2 ^ 24 then 1 else unat c)"
    using Suc.prems by (auto simp: d_def word_less_nat_alt unat_HANDLE_MASK)
  then have dn: "1 \<le> unat d" "unat d < 2 ^ 24" using Suc.prems by auto
  obtain m where "hs_slot_size s = 2 ^ m" using assms(1) by (auto simp: table_shape_def)
  then have hash: "unat (d AND (of_nat (hs_slot_size s) - 1)) = unat d mod hs_slot_size s"
    by (rule unat_and_size)
  have suc: "unat (d + 1) = Suc (unat d)" using dn by (intro unat_suc_small) simp
  have step: "handle_scan s (Suc n) c = (if hs_slot s ! (unat d mod hs_slot_size s) = None
      then Some (d, unat d mod hs_slot_size s) else handle_scan s n (d + 1))"
    by (simp only: handle_scan.simps Let_def d_def [symmetric] hash)
  have "x = unat d \<or> tried n (unat (d + 1)) x"
    using tried_Suc [OF Suc.prems(3,1,2)] unfolding suc d .
  then show ?case
  proof
    assume "x = unat d"
    then show ?thesis unfolding step using assms(5) by simp
  next
    assume "tried n (unat (d + 1)) x"
    then have "handle_scan s n (d + 1) \<noteq> None" using Suc.IH [of "d + 1"] suc dn by simp
    then show ?thesis unfolding step by simp
  qed
qed

lemma handle_scan_found:
  assumes "table_shape s" "1 \<le> unat c" "unat c \<le> 2 ^ 24" "handle_scan s n c = Some (h, hash)"
  shows "1 \<le> unat h \<and> unat h < 2 ^ 24 \<and> hash = unat h mod hs_slot_size s \<and> hs_slot s ! hash = None"
  using assms(2-4)
proof (induction n arbitrary: c)
  case (Suc n)
  define d where "d = (if c > HANDLE_MASK then 1 else c)"
  have dn: "1 \<le> unat d" "unat d < 2 ^ 24"
    using Suc.prems by (auto simp: d_def word_less_nat_alt unat_HANDLE_MASK split: if_splits)
  obtain m where "hs_slot_size s = 2 ^ m" using assms(1) by (auto simp: table_shape_def)
  then have hash: "unat (d AND (of_nat (hs_slot_size s) - 1)) = unat d mod hs_slot_size s"
    by (rule unat_and_size)
  have suc: "unat (d + 1) = Suc (unat d)" using dn by (intro unat_suc_small) simp
  have step: "handle_scan s (Suc n) c = (if hs_slot s ! (unat d mod hs_slot_size s) = None
      then Some (d, unat d mod hs_slot_size s) else handle_scan s n (d + 1))"
    by (simp only: handle_scan.simps Let_def d_def [symmetric] hash)
  show ?case
    using Suc.IH [of "d + 1"] Suc.prems(3) suc dn unfolding step by (auto split: if_splits)
qed simp

text \<open>Which free slots one run of the inner loop is sure to find: all but slot 0 when it wraps.\<close>

definition scan_finds :: "handle_storage \<Rightarrow> bool" where
  "scan_finds s \<longleftrightarrow> (\<exists>i. i < hs_slot_size s \<and> hs_slot s ! i = None \<and>
     (i \<noteq> 0 \<or> unat (hs_handle_index s) + hs_slot_size s \<le> 2 ^ 24))"

lemma tried_residue:
  assumes "1 \<le> c" "c \<le> 2 ^ 24" "m \<le> 24" "i < 2 ^ m" "i \<noteq> 0 \<or> c + 2 ^ m \<le> 2 ^ 24"
  shows "\<exists>x. tried (2 ^ m) c x \<and> x mod 2 ^ m = i"
proof -
  let ?S = "2 ^ m :: nat"
  have S: "0 < ?S" "?S \<le> 2 ^ 24" using power_increasing [OF assms(3), of "2 :: nat"] by simp_all
  have dv: "?S dvd 2 ^ 24" using assms(3) by (rule le_imp_power_dvd)
  show ?thesis
  proof (cases "c + ?S \<le> 2 ^ 24")
    case True
    define x where "x = c + (i + (?S - c mod ?S)) mod ?S"
    have "x mod ?S = (c mod ?S + (i + (?S - c mod ?S))) mod ?S"
      unfolding x_def by (simp only: mod_add_left_eq mod_add_right_eq)
    also have "c mod ?S + (i + (?S - c mod ?S)) = i + ?S"
      using S mod_less_divisor [OF S(1), of c] by linarith
    also have "(i + ?S) mod ?S = i" using assms(4) by simp
    finally have "x mod ?S = i" .
    moreover have "c \<le> x" "x < c + ?S" using S by (simp_all add: x_def)
    ultimately show ?thesis using True by (intro exI [of _ x]) (auto simp: tried_def)
  next
    case False
    then have i: "i \<noteq> 0" using assms(5) by blast
    show ?thesis
    proof (cases "c \<le> 2 ^ 24 - (?S - i)")
      case True
      let ?x = "2 ^ 24 - (?S - i)"
      obtain q where q: "(2::nat) ^ 24 = ?S * q" using dv by blast
      have "?x = ?S * (q - 1) + i" using q S assms(4) by (cases q) (auto simp: algebra_simps)
      then have "?x mod ?S = i" using assms(4) by (metis mod_less mod_mult_self4)
      then show ?thesis using True False i assms(4) S by (intro exI [of _ ?x]) (auto simp: tried_def)
    next
      case False
      then have "tried ?S c i" using i assms(4) S by (auto simp: tried_def)
      then show ?thesis using assms(4) by (intro exI [of _ i]) simp
    qed
  qed
qed

lemma scan_finds_hit:
  assumes "table_shape s" "scan_finds s"
  shows "handle_scan s (hs_slot_size s) (hs_handle_index s) \<noteq> None"
proof -
  from assms(2) obtain i where i: "i < hs_slot_size s" "hs_slot s ! i = None"
    "i \<noteq> 0 \<or> unat (hs_handle_index s) + hs_slot_size s \<le> 2 ^ 24" by (auto simp: scan_finds_def)
  from assms(1) obtain m where m: "m \<le> 24" "hs_slot_size s = 2 ^ m" and c:
    "1 \<le> unat (hs_handle_index s)" "unat (hs_handle_index s) \<le> 2 ^ 24" by (auto simp: table_shape_def)
  from tried_residue [OF c m(1)] i m(2) obtain x where
    "tried (hs_slot_size s) (unat (hs_handle_index s)) x" "x mod hs_slot_size s = i" by metis
  then show ?thesis using handle_scan_hit [OF assms(1) c] i(2) by blast
qed

subsection \<open>Growing the table\<close>

definition full :: "handle_storage \<Rightarrow> bool" where
  "full s \<longleftrightarrow> (\<forall>i < hs_slot_size s. hs_slot s ! i \<noteq> None)"

text \<open>Slot \<open>j\<close> of the table of twice the size after the first \<open>k\<close> contexts have been moved.\<close>

definition moved_slot :: "(ptr \<Rightarrow> u32 option) \<Rightarrow> handle_storage \<Rightarrow> nat \<Rightarrow> nat \<Rightarrow> ptr option" where
  "moved_slot handle_of s k j =
     (let i = j mod hs_slot_size s in
      if i < k \<and> unat (the (handle_of (the (hs_slot s ! i)))) mod (2 * hs_slot_size s) = j
      then hs_slot s ! i else None)"

lemma mod_double: "(x::nat) mod (2 * n) mod n = x mod n"
  by (simp add: mod_mod_cancel)

lemma rehash_moved:
  assumes inv: "handle_inv handle_of s" and full: "full s" and k: "k \<le> hs_slot_size s"
  shows "rehash handle_of s [k..<hs_slot_size s] (map (moved_slot handle_of s k) [0..<2 * hs_slot_size s]) =
    Some (map (moved_slot handle_of s (hs_slot_size s)) [0..<2 * hs_slot_size s])"
  using k
proof (induction "hs_slot_size s - k" arbitrary: k)
  case 0
  then show ?case by simp
next
  case (Suc d)
  let ?S = "hs_slot_size s"
  have k: "k < ?S" using Suc.hyps(2) by simp
  obtain m where m: "?S = 2 ^ m" using inv by (auto simp: handle_inv_def table_shape_def)
  obtain p h where p: "hs_slot s ! k = Some p" "handle_of p = Some h" "unat h mod ?S = k"
    using inv full k by (fastforce simp: handle_inv_def full_def)
  let ?hash = "unat h mod (2 * ?S)"
  have hash: "unat (h AND (of_nat (?S * 2) - 1)) = ?hash"
    using pow2_minus_1 [of "Suc m"] unat_and_mask [of h "Suc m"] m by (simp add: mult.commute)
  have lt: "?hash < 2 * ?S" using k by (intro mod_less_divisor) linarith
  have hk: "?hash mod ?S = k" using p(3) by (simp add: mod_double)
  let ?new = "map (moved_slot handle_of s k) [0..<2 * ?S]"
  have free: "?new ! ?hash = None" using lt hk by (simp add: moved_slot_def Let_def)
  have "?new[?hash := Some p] = map (moved_slot handle_of s (Suc k)) [0..<2 * ?S]"
  proof (rule nth_equalityI)
    fix j assume "j < length (?new[?hash := Some p])"
    then have j: "j < 2 * ?S" by simp
    show "?new[?hash := Some p] ! j = map (moved_slot handle_of s (Suc k)) [0..<2 * ?S] ! j"
      using j hk p by (cases "j = ?hash") (auto simp: moved_slot_def Let_def less_Suc_eq nth_list_update)
  qed simp
  moreover have "[k..<?S] = k # [Suc k..<?S]" using k by (simp add: upt_conv_Cons)
  ultimately show ?case
    using Suc.hyps(1) [of "Suc k"] Suc.hyps(2) k p hash free by (simp add: Let_def)
qed

definition grown :: "(ptr \<Rightarrow> u32 option) \<Rightarrow> handle_storage \<Rightarrow> handle_storage" where
  "grown handle_of s =
     s\<lparr>hs_slot := map (moved_slot handle_of s (hs_slot_size s)) [0..<2 * hs_slot_size s],
       hs_slot_size := hs_slot_size s * 2\<rparr>"

lemma rehash_grown:
  assumes "handle_inv handle_of s" "full s"
  shows "Option.bind (rehash handle_of s [0..<hs_slot_size s] (replicate (hs_slot_size s * 2) None))
      (\<lambda>new_slot. f (s\<lparr>hs_slot := new_slot, hs_slot_size := hs_slot_size s * 2\<rparr>)) =
    f (grown handle_of s)"
proof -
  have "replicate (hs_slot_size s * 2) None = map (moved_slot handle_of s 0) [0..<2 * hs_slot_size s]"
    by (intro nth_equalityI) (auto simp: moved_slot_def Let_def)
  then show ?thesis using rehash_moved [OF assms, of 0] by (simp add: grown_def)
qed

lemma grown_shape:
  assumes "table_shape s" "hs_slot_size s * 2 \<le> 2 ^ 24"
  shows "table_shape (grown handle_of s)"
proof -
  from assms(1) obtain n where n: "2 \<le> n" "n \<le> 24" "hs_slot_size s = 2 ^ n"
    by (auto simp: table_shape_def)
  have "(2::nat) ^ Suc n \<le> 2 ^ 24" using assms(2) n(3) by simp
  then have "Suc n \<le> 24" by (simp only: power_increasing_iff)
  then show ?thesis using assms(1) n by (auto simp: table_shape_def grown_def intro!: exI [of _ "Suc n"])
qed

lemma grown_slot:
  assumes "j < 2 * hs_slot_size s" "0 < hs_slot_size s"
  shows "hs_slot (grown handle_of s) ! j =
    (if unat (the (handle_of (the (hs_slot s ! (j mod hs_slot_size s))))) mod (2 * hs_slot_size s) = j
     then hs_slot s ! (j mod hs_slot_size s) else None)"
  using assms by (simp add: grown_def moved_slot_def Let_def)

lemma table_size_pos: "table_shape s \<Longrightarrow> 4 \<le> hs_slot_size s"
proof -
  assume "table_shape s"
  then obtain n where "2 \<le> n" "hs_slot_size s = 2 ^ n" by (auto simp: table_shape_def)
  then show ?thesis using power_increasing [of 2 n "2 :: nat"] by simp
qed

lemma grown_lookup:
  assumes "handle_inv handle_of s" "full s" "hs_slot_size s * 2 \<le> 2 ^ 24"
  shows "handle_inv handle_of (grown handle_of s)" "lookup handle_of (grown handle_of s) = lookup handle_of s"
    "scan_finds (grown handle_of s)"
proof -
  let ?S = "hs_slot_size s" and ?G = "grown handle_of s"
  have sh: "table_shape s" using assms(1) by (simp add: handle_inv_def)
  have S: "0 < ?S" "4 \<le> ?S" using table_size_pos [OF sh] by simp_all
  have shG: "table_shape ?G" using grown_shape [OF sh assms(3)] .
  have sz: "hs_slot_size ?G = 2 * ?S" "hs_harbor ?G = hs_harbor s" by (simp_all add: grown_def)
  have cell: "\<exists>p h. hs_slot s ! i = Some p \<and> handle_of p = Some h \<and> unat h mod ?S = i \<and>
      h AND HANDLE_MASK \<noteq> 0 \<and> h AND NOT HANDLE_MASK = hs_harbor s" if "i < ?S" for i
    using assms(1,2) that by (fastforce simp: handle_inv_def full_def)
  have mS: "j mod ?S < ?S" for j using S by simp
  show "handle_inv handle_of ?G"
    unfolding handle_inv_def sz
  proof (intro conjI allI impI shG)
    fix j p assume j: "j < 2 * ?S" and p: "hs_slot ?G ! j = Some p"
    obtain p' h where c: "hs_slot s ! (j mod ?S) = Some p'" "handle_of p' = Some h"
      "h AND HANDLE_MASK \<noteq> 0" "h AND NOT HANDLE_MASK = hs_harbor s" using cell [OF mS] by blast
    with p j S show "\<exists>h. handle_of p = Some h \<and> unat h mod (2 * ?S) = j \<and> h AND HANDLE_MASK \<noteq> 0 \<and>
        h AND NOT HANDLE_MASK = hs_harbor s" by (auto simp: grown_slot split: if_splits)
  qed
  show "lookup handle_of ?G = lookup handle_of s"
  proof
    fix h :: u32
    have lt: "unat h mod (2 * ?S) < 2 * ?S" using S by simp
    have md: "unat h mod (2 * ?S) mod ?S = unat h mod ?S" by (rule mod_double)
    obtain p h' where c: "hs_slot s ! (unat h mod ?S) = Some p" "handle_of p = Some h'" using cell [OF mS] by blast
    show "lookup handle_of ?G h = lookup handle_of s h"
      using c by (auto simp: lookup_def slot_of_mod [OF sh] slot_of_mod [OF shG] sz grown_slot [OF lt S(1)] md)
  qed
  show "scan_finds ?G"
  proof -
    obtain p h where c: "hs_slot s ! 1 = Some p" "handle_of p = Some h" using cell [of 1] S by auto
    define j where "j = (if unat h mod (2 * ?S) = 1 then 1 + ?S else 1)"
    have j: "j < 2 * ?S" "j mod ?S = 1" "j \<noteq> 0" "unat h mod (2 * ?S) \<noteq> j" using S by (auto simp: j_def mod_Suc)
    then have "hs_slot ?G ! j = None" using c S by (simp add: grown_slot)
    then show ?thesis using j sz by (auto simp: scan_finds_def)
  qed
qed

subsection \<open>Registration\<close>

lemma handle_parts:
  assumes "unat h < 2 ^ 24" "r AND HANDLE_MASK = 0"
  shows "(h OR r) AND HANDLE_MASK = h" "(h OR r) AND NOT HANDLE_MASK = r"
proof -
  have "take_bit 24 h = h" using assms(1) by (simp add: word_unat_eq_iff unsigned_take_bit_eq take_bit_nat_eq_self)
  then have h: "h AND mask 24 = h" by (simp add: take_bit_eq_mask)
  have r: "r AND mask 24 = 0" using assms(2) by (simp add: HANDLE_MASK_mask)
  show "(h OR r) AND HANDLE_MASK = h"
    using h r by (simp add: HANDLE_MASK_mask bit.conj_disj_distrib2)
  have "h AND NOT (mask 24) = 0" using h by (metis and.assoc and.right_neutral bit.conj_cancel_right bit.conj_zero_right)
  moreover have "r AND NOT (mask 24) = r"
  proof (rule bit_word_eqI)
    fix m assume "m < LENGTH(32)"
    have "bit (r AND mask 24) m = bit (0 :: u32) m" by (simp only: r)
    with \<open>m < LENGTH(32)\<close> show "bit (r AND NOT (mask 24)) m = bit r m" by (auto simp: bit_simps)
  qed
  ultimately show "(h OR r) AND NOT HANDLE_MASK = r"
    by (simp add: HANDLE_MASK_mask bit.conj_disj_distrib2)
qed

lemma handle_mod:
  assumes "unat h < 2 ^ 24" "r AND HANDLE_MASK = 0" "n \<le> 24"
  shows "unat (h OR r) mod 2 ^ n = unat h mod 2 ^ n"
proof -
  have "unat (h OR r) mod 2 ^ 24 = unat ((h OR r) AND HANDLE_MASK)"
    by (simp only: HANDLE_MASK_mask unat_and_mask)
  also have "\<dots> = unat h" using handle_parts(1) [OF assms(1,2)] by simp
  finally have "unat (h OR r) mod 2 ^ 24 mod 2 ^ n = unat h mod 2 ^ n" by simp
  then show ?thesis using le_imp_power_dvd [OF assms(3), of "2 :: nat"] by (simp add: mod_mod_cancel)
qed

lemma register_place:
  assumes inv: "handle_inv handle_of s" and h: "1 \<le> unat h" "unat h < 2 ^ 24"
    and free: "hs_slot s ! (unat h mod hs_slot_size s) = None"
    and new: "\<forall>i < hs_slot_size s. hs_slot s ! i \<noteq> Some ctx"
  defines "hh \<equiv> h OR hs_harbor s"
  defines "s' \<equiv> s\<lparr>hs_slot := (hs_slot s)[unat h mod hs_slot_size s := Some ctx], hs_handle_index := h + 1\<rparr>"
  shows "handle_inv (handle_of(ctx \<mapsto> hh)) s'" "lookup handle_of s hh = None"
    "lookup (handle_of(ctx \<mapsto> hh)) s' = (lookup handle_of s)(hh \<mapsto> ctx)" "hh AND HANDLE_MASK = h"
proof -
  let ?S = "hs_slot_size s"
  have sh: "table_shape s" using inv by (simp add: handle_inv_def)
  then obtain n where n: "n \<le> 24" "?S = 2 ^ n" and r: "hs_harbor s AND HANDLE_MASK = 0"
    and len: "length (hs_slot s) = ?S" by (auto simp: table_shape_def)
  note parts = handle_parts [OF h(2) r, folded hh_def]
  show "hh AND HANDLE_MASK = h" by (rule parts)
  have hm: "unat hh mod ?S = unat h mod ?S" using handle_mod [OF h(2) r n(1)] by (simp add: hh_def n(2))
  have nz: "h \<noteq> 0" using h by auto
  have idx: "unat (h + 1) = Suc (unat h)" using h by (intro unat_suc_small) simp
  have sh': "table_shape s'" using sh h idx by (simp add: table_shape_def s'_def)
  have lt: "x mod ?S < ?S" for x using table_size_pos [OF sh] by simp
  show "lookup handle_of s hh = None" using free by (simp add: lookup_def slot_of_mod [OF sh] hm)
  have slot': "hs_slot s' ! i = (if i = unat h mod ?S then Some ctx else hs_slot s ! i)" if "i < ?S" for i
    using that len by (simp add: s'_def)
  have sz: "hs_slot_size s' = ?S" "hs_harbor s' = hs_harbor s" by (simp_all add: s'_def)
  show "handle_inv (handle_of(ctx \<mapsto> hh)) s'"
    unfolding handle_inv_def sz
  proof (intro conjI allI impI sh')
    fix i p assume "i < ?S" "hs_slot s' ! i = Some p"
    then show "\<exists>h. (handle_of(ctx \<mapsto> hh)) p = Some h \<and> unat h mod ?S = i \<and> h AND HANDLE_MASK \<noteq> 0 \<and>
        h AND NOT HANDLE_MASK = hs_harbor s"
      using inv new parts nz hm by (auto simp: slot' handle_inv_def split: if_splits)
  qed
  show "lookup (handle_of(ctx \<mapsto> hh)) s' = (lookup handle_of s)(hh \<mapsto> ctx)"
  proof
    fix g :: u32
    show "lookup (handle_of(ctx \<mapsto> hh)) s' g = ((lookup handle_of s)(hh \<mapsto> ctx)) g"
      using free new hm lt [of "unat g"]
      by (cases "unat g mod ?S = unat h mod ?S")
        (auto simp: lookup_def slot_of_mod [OF sh] slot_of_mod [OF sh'] sz slot' split: option.splits)
  qed
qed

text \<open>When \<open>skynet_handle_register\<close> succeeds: the loop finds a free slot, or the table is full and may grow.\<close>

definition can_register :: "handle_storage \<Rightarrow> bool" where
  "can_register s \<longleftrightarrow> scan_finds s \<or> (full s \<and> hs_slot_size s * 2 \<le> 2 ^ 24)"

lemma register_found:
  assumes inv: "handle_inv handle_of s" and "scan_finds s"
    and new: "\<forall>i < hs_slot_size s. hs_slot s ! i \<noteq> Some ctx"
  shows "\<exists>h s'. register_loop handle_of ctx s = Some (h, s') \<and> hs_harbor s' = hs_harbor s \<and>
    hs_name s' = hs_name s \<and> hs_name_count s' = hs_name_count s \<and> hs_name_cap s' = hs_name_cap s \<and>
    (let hh = h OR hs_harbor s in
     hh AND HANDLE_MASK \<noteq> 0 \<and> lookup handle_of s hh = None \<and> handle_inv (handle_of(ctx \<mapsto> hh)) s' \<and>
     lookup (handle_of(ctx \<mapsto> hh)) s' = (lookup handle_of s)(hh \<mapsto> ctx))"
proof -
  have sh: "table_shape s" using inv by (simp add: handle_inv_def)
  then have c: "1 \<le> unat (hs_handle_index s)" "unat (hs_handle_index s) \<le> 2 ^ 24" by (auto simp: table_shape_def)
  obtain h hash where f: "handle_scan s (hs_slot_size s) (hs_handle_index s) = Some (h, hash)"
    using scan_finds_hit [OF sh assms(2)] by auto
  from handle_scan_found [OF sh c f] have h: "1 \<le> unat h" "unat h < 2 ^ 24"
    "hash = unat h mod hs_slot_size s" "hs_slot s ! (unat h mod hs_slot_size s) = None" by auto
  have "h \<noteq> 0" using h by auto
  with register_place [OF inv h(1,2,4) new] show ?thesis
    using f h(3) by (subst register_loop.simps) (auto simp: Let_def)
qed

text \<open>
  Registration returns a handle that no service has and whose local part is not 0, and afterwards
  exactly the same handles are bound, to the same contexts, plus the new one.
\<close>

lemma register_loop_ok:
  assumes inv: "handle_inv handle_of s" and can: "can_register s"
    and new: "\<forall>i < hs_slot_size s. hs_slot s ! i \<noteq> Some ctx"
  shows "\<exists>h s'. register_loop handle_of ctx s = Some (h, s') \<and> hs_harbor s' = hs_harbor s \<and>
    hs_name s' = hs_name s \<and> hs_name_count s' = hs_name_count s \<and> hs_name_cap s' = hs_name_cap s \<and>
    (let hh = h OR hs_harbor s in
     hh AND HANDLE_MASK \<noteq> 0 \<and> lookup handle_of s hh = None \<and> handle_inv (handle_of(ctx \<mapsto> hh)) s' \<and>
     lookup (handle_of(ctx \<mapsto> hh)) s' = (lookup handle_of s)(hh \<mapsto> ctx))"
proof (cases "scan_finds s")
  case True
  then show ?thesis by (rule register_found [OF inv _ new])
next
  case False
  then have full: "full s" and size: "hs_slot_size s * 2 \<le> 2 ^ 24" using can by (auto simp: can_register_def)
  let ?G = "grown handle_of s"
  have sh: "table_shape s" using inv by (simp add: handle_inv_def)
  then have c: "1 \<le> unat (hs_handle_index s)" "unat (hs_handle_index s) \<le> 2 ^ 24" by (auto simp: table_shape_def)
  have "handle_scan s (hs_slot_size s) (hs_handle_index s) = None"
  proof (rule ccontr)
    assume "handle_scan s (hs_slot_size s) (hs_handle_index s) \<noteq> None"
    then obtain h hash where "handle_scan s (hs_slot_size s) (hs_handle_index s) = Some (h, hash)" by auto
    from handle_scan_found [OF sh c this] have "hs_slot s ! (unat h mod hs_slot_size s) = None" by auto
    moreover have "unat h mod hs_slot_size s < hs_slot_size s" using table_size_pos [OF sh] by simp
    ultimately show False using full by (auto simp: full_def)
  qed
  moreover have "hs_slot_size s * 2 - 1 \<le> unat HANDLE_MASK" using size by (simp add: unat_HANDLE_MASK)
  ultimately have step: "register_loop handle_of ctx s = register_loop handle_of ctx ?G"
    using rehash_grown [OF inv full, of "register_loop handle_of ctx"]
    by (subst register_loop.simps) simp
  have "\<forall>i < hs_slot_size ?G. hs_slot ?G ! i \<noteq> Some ctx"
  proof (intro allI impI)
    fix i assume "i < hs_slot_size ?G"
    then have i: "i < 2 * hs_slot_size s" by (simp add: grown_def)
    have S: "0 < hs_slot_size s" using table_size_pos [OF sh] by simp
    then have "i mod hs_slot_size s < hs_slot_size s" by simp
    with new show "hs_slot ?G ! i \<noteq> Some ctx" using grown_slot [OF i S] by auto
  qed
  from register_found [OF grown_lookup(1) [OF inv full size] grown_lookup(3) [OF inv full size] this]
  show ?thesis unfolding step grown_lookup(2) [OF inv full size] by (simp add: grown_def)
qed

lemma lookup_drop_names: "lookup handle_of (s\<lparr>hs_name := a, hs_name_count := j\<rparr>) = lookup handle_of s"
  "handle_inv handle_of (s\<lparr>hs_name := a, hs_name_count := j\<rparr>) = handle_inv handle_of s"
  by (auto simp: lookup_def slot_of_def handle_inv_def table_shape_def fun_eq_iff)

lemma lookup_bound: "lookup handle_of s h = Some p \<longleftrightarrow>
    hs_slot s ! slot_of s h = Some p \<and> handle_of p = Some h"
  by (auto simp: lookup_def split: option.splits)

text \<open>Retiring a handle unbinds it and its names and nothing else; an unbound handle is left alone.\<close>

lemma retire_slot_ok:
  assumes inv: "handle_inv handle_of s" and names: "names_wf s"
  shows "\<exists>s'. retire_slot handle_of h s = Some (lookup handle_of s h, s') \<and> handle_inv handle_of s' \<and>
    lookup handle_of s' = (lookup handle_of s)(h := None) \<and> names_wf s' \<and>
    directory s' = (if lookup handle_of s h = None then directory s
                    else (\<lambda>k. if directory s k = Some h then None else directory s k))"
proof (cases "lookup handle_of s h")
  case None
  have sh: "table_shape s" using inv by (simp add: handle_inv_def)
  have "\<exists>g. handle_of p = Some g" if "hs_slot s ! slot_of s h = Some p" for p
    using inv that slot_of_less [OF sh, of h] sh by (fastforce simp: handle_inv_def table_shape_def)
  then have "retire_slot handle_of h s = Some (None, s)"
    using None by (fastforce simp: retire_slot_def lookup_def split: option.splits if_splits)
  then show ?thesis using None inv names by (auto simp: fun_upd_idem)
next
  case (Some p)
  have sh: "table_shape s" using inv by (simp add: handle_inv_def)
  note p = Some [unfolded lookup_bound]
  let ?i = "slot_of s h" let ?s = "s\<lparr>hs_slot := (hs_slot s)[?i := None]\<rparr>"
  have wf': "names_wf ?s" and dir': "directory ?s = directory s"
    using names by (simp_all add: names_wf_def names_def directory_def)
  from drop_names_directory [OF wf', of h, unfolded Let_def dir'] obtain arr j where d:
    "drop_names h ?s = Some (?s\<lparr>hs_name := arr, hs_name_count := j\<rparr>)"
    "names_wf (?s\<lparr>hs_name := arr, hs_name_count := j\<rparr>)"
    "directory (?s\<lparr>hs_name := arr, hs_name_count := j\<rparr>) =
      (\<lambda>k. if directory s k = Some h then None else directory s k)" by blast
  have slot': "hs_slot ?s ! i = (if i = ?i then None else hs_slot s ! i)" if "i < hs_slot_size s" for i
    using that sh by (auto simp: table_shape_def)
  have lt: "slot_of s g < hs_slot_size s" for g using slot_of_less [OF sh, of g] sh by (simp add: table_shape_def)
  have "handle_inv handle_of ?s"
    using inv slot' by (auto simp: handle_inv_def table_shape_def split: if_splits)
  moreover have "lookup handle_of ?s g = ((lookup handle_of s)(h := None)) g" for g
    using p slot' [OF lt, of g]
    by (cases "slot_of s g = ?i") (auto simp: lookup_def slot_of_def split: option.splits)
  ultimately show ?thesis
    using d p Some by (auto simp: retire_slot_def lookup_drop_names fun_eq_iff)
qed

section \<open>Properties of the handle table\<close>


text \<open>A node with one service, built by the operations themselves.\<close>

definition ctx_ex :: "u32 \<Rightarrow> ptr \<Rightarrow> skynet_context" where
  "ctx_ex h q =
     \<lparr>cx_instance = 0, cx_mod = 0, cx_cb_ud = 0, cx_cb = None, cx_queue = Some q, cx_logfile = None,
      cx_cpu_cost = 0, cx_cpu_start = 0, cx_result = [], cx_handle = h, cx_session_id = 0, cx_ref = 1,
      cx_message_count = 0, cx_init = True, cx_endless = False, cx_profile = False\<rparr>"

definition kernel_ex :: kernel where
  "kernel_ex =
     \<lparr>mq_heap = [20 \<mapsto> skynet_mq_create 0x01000001], gq_head = Some 20, gq_tail = Some 20,
      k_ctx = [10 \<mapsto> ctx_ex 0x01000001 20, 11 \<mapsto> ctx_ex 0 21], k_brk = 100,
      k_H = (skynet_handle_init 1)\<lparr>hs_slot := [None, Some 10, None, None], hs_handle_index := 2\<rparr>,
      k_total = 2, k_monitor_exit = 0, k_profile = False, k_handle_key = 0,
      k_HARBOR = Some 0x01000000, k_REMOTE = None, k_logger = 0,
      k_TI = timer_create_timer, k_env = Map.empty\<rparr>"

lemma kernel_ex_inv:
  "handle_inv (\<lambda>p. skynet_context_handle p kernel_ex) (k_H kernel_ex)" "can_register (k_H kernel_ex)"
proof -
  have four: "i < 4 \<longleftrightarrow> i = 0 \<or> i = 1 \<or> i = 2 \<or> i = 3" for i :: nat by auto
  have sh: "table_shape (k_H kernel_ex)"
    by (auto simp: table_shape_def kernel_ex_def skynet_handle_init_def DEFAULT_SLOT_SIZE_def HANDLE_REMOTE_SHIFT_def
        HANDLE_MASK_def push_bit_eq_mult intro!: exI [of _ 2])
  show "handle_inv (\<lambda>p. skynet_context_handle p kernel_ex) (k_H kernel_ex)"
    using sh by (auto simp: handle_inv_def kernel_ex_def skynet_handle_init_def DEFAULT_SLOT_SIZE_def four
        skynet_context_handle_def ctx_ex_def HANDLE_MASK_def HANDLE_REMOTE_SHIFT_def push_bit_eq_mult)
  show "can_register (k_H kernel_ex)"
    by (auto simp: can_register_def scan_finds_def kernel_ex_def skynet_handle_init_def DEFAULT_SLOT_SIZE_def
        intro!: exI [of _ 2])
qed


text \<open>
  A run of the inner loop of \<open>skynet_handle_register\<close> that wraps from the last handle to 1 skips
  slot 0: in a table of four slots whose only free slot is slot 0, with handle \<open>0xffffff\<close> next, it
  tries slots 3, 1, 2 and 3, finds nothing, and the code that moves the contexts to a larger table
  then reads the handle of the null context in the free slot.
\<close>

theorem handle_register_null_slot:
  "register_loop (\<lambda>p. Some (of_nat p)) 9
     ((skynet_handle_init 0)\<lparr>hs_slot := [None, Some 1, Some 2, Some 3], hs_handle_index := 0xffffff\<rparr>)
   = None"
proof -
  let ?s = "(skynet_handle_init 0)\<lparr>hs_slot := [None, Some 1, Some 2, Some 3], hs_handle_index := 0xffffff\<rparr>"
  have "handle_scan ?s (hs_slot_size ?s) (hs_handle_index ?s) = None" by code_simp
  moreover have "rehash (\<lambda>p. Some (of_nat p)) ?s [0..<hs_slot_size ?s] (replicate (hs_slot_size ?s * 2) None) = None"
    by code_simp
  ultimately show ?thesis by (subst register_loop.simps) simp
qed

text \<open>
  \<open>skynet_handle_retire\<close> (its part under the lock) unbinds the handle, whatever the table and
  the directory hold: the slot is freed when it belongs to the handle, every name of the handle is
  removed, and all other handles and names stay as they were; for a handle that is not bound
  nothing changes.
\<close>

theorem handle_retire_unbinds:
  assumes "handle_inv handle_of s" "names_wf s"
  shows "\<exists>s'. retire_slot handle_of h s = Some (lookup handle_of s h, s') \<and> handle_inv handle_of s' \<and>
    lookup handle_of s' = (lookup handle_of s)(h := None) \<and> names_wf s' \<and>
    directory s' = (if lookup handle_of s h = None then directory s
                    else (\<lambda>k. if directory s k = Some h then None else directory s k))"
  using retire_slot_ok [OF assms] .

lemma names_wf_slots [simp]:
  "names_wf (s\<lparr>hs_slot := x\<rparr>) = names_wf s" "names_wf (s\<lparr>hs_handle_index := y\<rparr>) = names_wf s"
  by (simp_all add: names_wf_def names_def)

theorem handle_retire_unbinds_witness:
  "\<exists>s'. retire_slot (\<lambda>p. skynet_context_handle p kernel_ex) 0x01000001 (k_H kernel_ex) =
      Some (lookup (\<lambda>p. skynet_context_handle p kernel_ex) (k_H kernel_ex) 0x01000001, s') \<and>
    handle_inv (\<lambda>p. skynet_context_handle p kernel_ex) s' \<and>
    lookup (\<lambda>p. skynet_context_handle p kernel_ex) s' =
      (lookup (\<lambda>p. skynet_context_handle p kernel_ex) (k_H kernel_ex))(0x01000001 := None) \<and> names_wf s' \<and>
    directory s' = (if lookup (\<lambda>p. skynet_context_handle p kernel_ex) (k_H kernel_ex) 0x01000001 = None
                    then directory (k_H kernel_ex)
                    else (\<lambda>k. if directory (k_H kernel_ex) k = Some 0x01000001 then None
                              else directory (k_H kernel_ex) k))"
proof (rule handle_retire_unbinds [OF kernel_ex_inv(1)])
  show "names_wf (k_H kernel_ex)" using names_wf_init(1) [of 1] by (simp add: kernel_ex_def)
qed

end
