(* ===== verification/Server.thy ===== *)
theory Server
  imports Kernel
begin

text \<open>
  Messages between services: \<open>skynet-src/skynet_server.c\<close> with \<open>skynet_error.c\<close>, \<open>skynet_harbor.c\<close>,
  \<open>skynet_monitor.c\<close>, \<open>skynet_env.c\<close> and \<open>skynet_timeout\<close> of \<open>skynet_timer.c\<close>. Every function returns
  \<open>None\<close> where the C code fails an assertion or follows a null pointer; the memory of message
  bodies is not tracked. A context argument that may be \<open>NULL\<close> is a \<open>ptr option\<close>.
\<close>

definition cstr :: "string \<Rightarrow> bytes" where
  "cstr s = map of_char s"

definition PTYPE_TAG_DONTCOPY :: u32 where "PTYPE_TAG_DONTCOPY = 0x10000"
definition PTYPE_TAG_ALLOCSESSION :: u32 where "PTYPE_TAG_ALLOCSESSION = 0x20000"
definition GLOBALNAME_LENGTH :: nat where "GLOBALNAME_LENGTH = 16"

definition fmt_08x :: "u32 \<Rightarrow> string" where
  "fmt_08x n = replicate (8 - length (fmt_x n)) CHR ''0'' @ fmt_x n"

section \<open>Sending\<close>

definition skynet_context_newsession :: "ptr \<Rightarrow> kernel \<Rightarrow> (int \<times> kernel) option" where
  "skynet_context_newsession p k = do {
     c \<leftarrow> k_ctx k p;
     let session = to_int (cx_session_id c + 1);
     let session = (if session \<le> 0 then 1 else session);
     k \<leftarrow> upd_ctx p (cx_session_id_update (\<lambda>_. session)) k;
     Some (session, k)
   }"

definition skynet_context_push :: "modules \<Rightarrow> u32 \<Rightarrow> skynet_message \<Rightarrow> kernel \<Rightarrow> (int \<times> kernel) option" where
  "skynet_context_push M handle message k = do {
     (ctx, k) \<leftarrow> skynet_handle_grab handle k;
     case ctx of
       None \<Rightarrow> Some (- 1, k)
     | Some p \<Rightarrow> do {
         c \<leftarrow> k_ctx k p;
         q \<leftarrow> cx_queue c;
         k \<leftarrow> skynet_mq_push q message k;
         (_, k) \<leftarrow> skynet_context_release M p k;
         Some (0, k)
       }
   }"

text \<open>\<open>skynet_error\<close>, with its text already formatted: a message to the service named "logger".\<close>

definition skynet_error :: "modules \<Rightarrow> ptr option \<Rightarrow> string \<Rightarrow> kernel \<Rightarrow> kernel option" where
  "skynet_error M context text k = do {
     logger \<leftarrow> (if k_logger k = 0 then skynet_handle_findname (k_H k) ''logger'' else Some (k_logger k));
     let k = k\<lparr>k_logger := logger\<rparr>;
     if logger = 0 then Some k
     else do {
       source \<leftarrow> (case context of None \<Rightarrow> Some 0 | Some p \<Rightarrow> skynet_context_handle p k);
       (_, k) \<leftarrow> skynet_context_push M logger
          \<lparr>msg_source = source, msg_session = 0, msg_data = Data (cstr text),
           msg_sz = pack_sz (of_nat (length text)) PTYPE_TEXT\<rparr> k;
       Some k
     }
   }"

definition skynet_context_endless :: "modules \<Rightarrow> u32 \<Rightarrow> kernel \<Rightarrow> kernel option" where
  "skynet_context_endless M handle k = do {
     (ctx, k) \<leftarrow> skynet_handle_grab handle k;
     case ctx of
       None \<Rightarrow> Some k
     | Some p \<Rightarrow> do {
         k \<leftarrow> upd_ctx p (cx_endless_update (\<lambda>_. True)) k;
         (_, k) \<leftarrow> skynet_context_release M p k;
         Some k
       }
   }"

definition skynet_context_send ::
  "ptr \<Rightarrow> payload \<Rightarrow> u64 \<Rightarrow> u32 \<Rightarrow> nat \<Rightarrow> int \<Rightarrow> kernel \<Rightarrow> kernel option" where
  "skynet_context_send ctx msg sz source type session k = do {
     c \<leftarrow> k_ctx k ctx;
     q \<leftarrow> cx_queue c;
     skynet_mq_push q \<lparr>msg_source = source, msg_session = session, msg_data = msg,
                      msg_sz = pack_sz sz type\<rparr> k
   }"

definition invalid_type :: "nat \<Rightarrow> bool" where
  "invalid_type type \<longleftrightarrow> type \<noteq> PTYPE_SYSTEM \<and> type \<noteq> PTYPE_HARBOR"

text \<open>\<open>sizeof (struct remote_message)\<close> on a 64-bit machine\<close>

definition sizeof_remote_message :: u64 where
  "sizeof_remote_message = 48"

definition skynet_harbor_send :: "remote_message \<Rightarrow> u32 \<Rightarrow> int \<Rightarrow> kernel \<Rightarrow> kernel option" where
  "skynet_harbor_send rmsg source session k =
     (if invalid_type (rm_type rmsg) then do {
        ctx \<leftarrow> k_REMOTE k;
        skynet_context_send ctx (Remote rmsg) sizeof_remote_message source PTYPE_SYSTEM session k
      }
      else None)"

definition skynet_harbor_message_isremote :: "u32 \<Rightarrow> kernel \<Rightarrow> bool option" where
  "skynet_harbor_message_isremote handle k = do {
     HARBOR \<leftarrow> k_HARBOR k;
     let h = handle AND NOT HANDLE_MASK;
     Some (h \<noteq> HARBOR \<and> h \<noteq> 0)
   }"

definition skynet_isremote :: "u32 \<Rightarrow> kernel \<Rightarrow> (bool \<times> u32) option" where
  "skynet_isremote handle k = do {
     ret \<leftarrow> skynet_harbor_message_isremote handle k;
     Some (ret, drop_bit HANDLE_REMOTE_SHIFT handle)
   }"

definition skynet_harbor_init :: "u32 \<Rightarrow> kernel \<Rightarrow> kernel" where
  "skynet_harbor_init harbor k = k\<lparr>k_HARBOR := Some (push_bit HANDLE_REMOTE_SHIFT harbor)\<rparr>"

definition skynet_harbor_start :: "ptr \<Rightarrow> kernel \<Rightarrow> kernel option" where
  "skynet_harbor_start ctx k = do {
     k \<leftarrow> skynet_context_reserve ctx k;
     Some (k\<lparr>k_REMOTE := Some ctx\<rparr>)
   }"

definition skynet_harbor_exit :: "modules \<Rightarrow> kernel \<Rightarrow> kernel option" where
  "skynet_harbor_exit M k =
     (let ctx = k_REMOTE k; k = k\<lparr>k_REMOTE := None\<rparr> in
      case ctx of
        None \<Rightarrow> Some k
      | Some p \<Rightarrow> do { (_, k) \<leftarrow> skynet_context_release M p k; Some k })"

text \<open>\<open>_filter_args\<close>: a copied body is the same value.\<close>

definition filter_args ::
  "ptr option \<Rightarrow> u32 \<Rightarrow> int \<Rightarrow> u64 \<Rightarrow> kernel \<Rightarrow> ((int \<times> u64) \<times> kernel) option" where
  "filter_args context type session sz k = do {
     (session, k) \<leftarrow>
       (if type AND PTYPE_TAG_ALLOCSESSION \<noteq> 0 then
          if session \<noteq> 0 then None
          else do { p \<leftarrow> context; skynet_context_newsession p k }
        else Some (session, k));
     Some ((session, pack_sz sz (unat (type AND 0xff))), k)
   }"

definition source_of :: "ptr option \<Rightarrow> u32 \<Rightarrow> kernel \<Rightarrow> u32 option" where
  "source_of context source k =
     (if source = 0 then do { p \<leftarrow> context; skynet_context_handle p k } else Some source)"

text \<open>The name of a remote destination given by handle is not set in C; it is empty here.\<close>

definition skynet_send ::
  "modules \<Rightarrow> ptr option \<Rightarrow> u32 \<Rightarrow> u32 \<Rightarrow> u32 \<Rightarrow> int \<Rightarrow> payload \<Rightarrow> u64 \<Rightarrow> kernel \<Rightarrow> (int \<times> kernel) option" where
  "skynet_send M context source destination type session data sz k =
     (if sz AND MESSAGE_TYPE_MASK \<noteq> sz then do {
        k \<leftarrow> skynet_error M context (''The message to '' @ fmt_x destination @ '' is too large'') k;
        Some (- 2, k)
      }
      else do {
        ((session, sz), k) \<leftarrow> filter_args context type session sz k;
        source \<leftarrow> source_of context source k;
        if destination = 0 then
          if data \<noteq> Null then do {
            k \<leftarrow> skynet_error M context ''Destination address can't be 0'' k;
            Some (- 1, k)
          }
          else Some (session, k)
        else do {
          remote \<leftarrow> skynet_harbor_message_isremote destination k;
          if remote then do {
            k \<leftarrow> skynet_harbor_send
              (RemoteMessage \<lparr>rn_name = [], rn_handle = destination\<rparr> data (sz_size sz) (sz_type sz))
              source session k;
            Some (session, k)
          }
          else do {
            (r, k) \<leftarrow> skynet_context_push M destination
              \<lparr>msg_source = source, msg_session = session, msg_data = data, msg_sz = sz\<rparr> k;
            Some (if r \<noteq> 0 then - 1 else session, k)
          }
        }
      })"

definition copy_name :: "string \<Rightarrow> bytes" where
  "copy_name addr =
     (let s = take GLOBALNAME_LENGTH (cstr addr) in s @ replicate (GLOBALNAME_LENGTH - length s) 0)"

definition skynet_sendname ::
  "modules \<Rightarrow> ptr option \<Rightarrow> u32 \<Rightarrow> string \<Rightarrow> u32 \<Rightarrow> int \<Rightarrow> payload \<Rightarrow> u64 \<Rightarrow> kernel \<Rightarrow> (int \<times> kernel) option" where
  "skynet_sendname M context source addr type session data sz k = do {
     source \<leftarrow> source_of context source k;
     if addr \<noteq> [] \<and> hd addr = CHR '':'' then
       skynet_send M context source (ucast (strtoul 16 (tl addr))) type session data sz k
     else if addr \<noteq> [] \<and> hd addr = CHR ''.'' then do {
       des \<leftarrow> skynet_handle_findname (k_H k) (tl addr);
       if des = 0 then Some (- 1, k)
       else skynet_send M context source des type session data sz k
     }
     else if sz AND MESSAGE_TYPE_MASK \<noteq> sz then do {
       k \<leftarrow> skynet_error M context (''The message to '' @ addr @ '' is too large'') k;
       Some (- 2, k)
     }
     else do {
       ((session, sz), k) \<leftarrow> filter_args context type session sz k;
       k \<leftarrow> skynet_harbor_send
         (RemoteMessage \<lparr>rn_name = copy_name addr, rn_handle = 0\<rparr> data (sz_size sz) (sz_type sz))
         source session k;
       Some (session, k)
     }
   }"

definition skynet_timeout :: "modules \<Rightarrow> u32 \<Rightarrow> int \<Rightarrow> int \<Rightarrow> kernel \<Rightarrow> (int \<times> kernel) option" where
  "skynet_timeout M handle time session k =
     (if time \<le> 0 then do {
        (r, k) \<leftarrow> skynet_context_push M handle (timeout_message session) k;
        Some (if r \<noteq> 0 then - 1 else session, k)
      }
      else Some (session,
        k\<lparr>k_TI := timer_add (k_TI k) \<lparr>ev_handle = handle, ev_session = session\<rparr> time\<rparr>))"

section \<open>Dispatching\<close>

record skynet_monitor =
  mo_version :: int
  mo_check_version :: int
  mo_source :: u32
  mo_destination :: u32

definition skynet_monitor_new :: skynet_monitor where
  "skynet_monitor_new = \<lparr>mo_version = 0, mo_check_version = 0, mo_source = 0, mo_destination = 0\<rparr>"

definition skynet_monitor_trigger :: "u32 \<Rightarrow> u32 \<Rightarrow> skynet_monitor \<Rightarrow> skynet_monitor" where
  "skynet_monitor_trigger source destination sm =
     sm\<lparr>mo_source := source, mo_destination := destination, mo_version := to_int (mo_version sm + 1)\<rparr>"

definition skynet_monitor_check ::
  "modules \<Rightarrow> skynet_monitor \<Rightarrow> kernel \<Rightarrow> (skynet_monitor \<times> kernel) option" where
  "skynet_monitor_check M sm k =
     (if mo_version sm = mo_check_version sm then
        if mo_destination sm \<noteq> 0 then do {
          k \<leftarrow> skynet_context_endless M (mo_destination sm) k;
          k \<leftarrow> skynet_error M None (''A message from [ :'' @ fmt_08x (mo_source sm) @ '' ] to [ :''
                 @ fmt_08x (mo_destination sm) @ '' ] maybe in an endless loop (version = ''
                 @ fmt_d (mo_version sm) @ '')'') k;
          Some (sm, k)
        }
        else Some (sm, k)
      else Some (sm\<lparr>mo_check_version := mo_version sm\<rparr>, k))"

text \<open>\<open>drop_message\<close>: every message of a dead service is answered with an error.\<close>

definition drop_message :: "modules \<Rightarrow> u32 \<Rightarrow> skynet_message \<Rightarrow> kernel \<Rightarrow> kernel option" where
  "drop_message M handle msg k =
     (if handle = 0 then None
      else do {
        (_, k) \<leftarrow> skynet_send M None handle (msg_source msg) (of_nat PTYPE_ERROR) 0 Null 0 k;
        Some k
      })"

definition dispatch_message :: "modules \<Rightarrow> ptr \<Rightarrow> skynet_message \<Rightarrow> kernel \<Rightarrow> kernel option" where
  "dispatch_message M p msg k = do {
     c \<leftarrow> k_ctx k p;
     if \<not> cx_init c then None
     else do {
       let k = k\<lparr>k_handle_key := cx_handle c\<rparr>;
       k \<leftarrow> upd_ctx p (cx_message_count_update (\<lambda>n. n + 1)) k;
       k \<leftarrow> (if cx_profile c then upd_ctx p (cx_cpu_start_update (\<lambda>_. md_thread_time M k)) k else Some k);
       cb \<leftarrow> cx_cb c;
       (reserve_msg, k) \<leftarrow> md_callback M cb p (cx_cb_ud c) (sz_type (msg_sz msg)) (msg_session msg)
          (msg_source msg) (msg_data msg) (sz_size (msg_sz msg)) k;
       if cx_profile c then do {
         c \<leftarrow> k_ctx k p;
         upd_ctx p (cx_cpu_cost_update (\<lambda>n. n + (md_thread_time M k - cx_cpu_start c))) k
       }
       else Some k
     }
   }"

partial_function (option) skynet_context_dispatchall :: "modules \<Rightarrow> ptr \<Rightarrow> kernel \<Rightarrow> kernel option" where
  "skynet_context_dispatchall M p k =
     Option.bind (k_ctx k p) (\<lambda>c. Option.bind (cx_queue c) (\<lambda>q. Option.bind (mq_pop_at q k) (\<lambda>(msg, k).
       case msg of
         None \<Rightarrow> Some k
       | Some m \<Rightarrow> Option.bind (dispatch_message M p m k) (\<lambda>k. skynet_context_dispatchall M p k))))"

text \<open>
  The loop of \<open>skynet_context_message_dispatch\<close>: \<open>Inl q\<close> when it returns \<open>q\<close>, \<open>Inr\<close> at its end.
\<close>

partial_function (option) dispatch_loop ::
  "modules \<Rightarrow> ptr \<Rightarrow> u32 \<Rightarrow> ptr \<Rightarrow> int \<Rightarrow> nat \<Rightarrow> nat \<Rightarrow> skynet_monitor \<times> kernel
     \<Rightarrow> ((ptr option + unit) \<times> skynet_monitor \<times> kernel) option" where
  "dispatch_loop M q handle p weight i n s =
     (if i < n then
        Option.bind (mq_pop_at q (snd s)) (\<lambda>(msg, k).
          case msg of
            None \<Rightarrow>
              Option.bind (skynet_context_release M p k) (\<lambda>(_, k).
              Option.bind (skynet_globalmq_pop k) (\<lambda>(nq, k). Some (Inl nq, fst s, k)))
          | Some m \<Rightarrow>
              Option.bind (mq_heap k q) (\<lambda>mq.
              let n = (if i = 0 \<and> 0 \<le> weight then skynet_mq_length mq div 2 ^ nat weight else n);
                  (overload, mq) = skynet_mq_overload mq;
                  k = k\<lparr>mq_heap := (mq_heap k)(q \<mapsto> mq)\<rparr>
              in Option.bind (if overload \<noteq> 0 then skynet_error M (Some p)
                      (''May overload, message queue length = '' @ fmt_d (int overload)) k else Some k) (\<lambda>k.
                 let sm = skynet_monitor_trigger (msg_source m) handle (fst s) in
                 Option.bind (k_ctx k p) (\<lambda>c.
                 Option.bind (if cx_cb c = None then Some k else dispatch_message M p m k) (\<lambda>k.
                   dispatch_loop M q handle p weight (i + 1) n (skynet_monitor_trigger 0 0 sm, k))))))
      else Some (Inr (), s))"

text \<open>The part after the worker has a queue.\<close>

definition dispatch_queue ::
  "modules \<Rightarrow> ptr \<Rightarrow> int \<Rightarrow> skynet_monitor \<Rightarrow> kernel \<Rightarrow> (ptr option \<times> skynet_monitor \<times> kernel) option" where
  "dispatch_queue M q weight sm k = do {
     mq \<leftarrow> mq_heap k q;
     let handle = mq_handle mq;
     (ctx, k) \<leftarrow> skynet_handle_grab handle k;
     case ctx of
       None \<Rightarrow> do {
         k \<leftarrow> skynet_mq_release (drop_message M handle) q k;
         (nq, k) \<leftarrow> skynet_globalmq_pop k;
         Some (nq, sm, k)
       }
     | Some p \<Rightarrow> do {
         (r, sm, k) \<leftarrow> dispatch_loop M q handle p weight 0 1 (sm, k);
         case r of
           Inl nq \<Rightarrow> Some (nq, sm, k)
         | Inr _ \<Rightarrow> do {
             c \<leftarrow> k_ctx k p;
             if cx_queue c \<noteq> Some q then None
             else do {
               (nq, k) \<leftarrow> skynet_globalmq_pop k;
               k \<leftarrow> (if nq \<noteq> None then skynet_globalmq_push q k else Some k);
               (_, k) \<leftarrow> skynet_context_release M p k;
               Some (if nq \<noteq> None then nq else Some q, sm, k)
             }
           }
       }
   }"

definition skynet_context_message_dispatch ::
  "modules \<Rightarrow> ptr option \<Rightarrow> int \<Rightarrow> skynet_monitor \<Rightarrow> kernel \<Rightarrow> (ptr option \<times> skynet_monitor \<times> kernel) option" where
  "skynet_context_message_dispatch M q weight sm k = do {
     (q, k) \<leftarrow> (case q of None \<Rightarrow> skynet_globalmq_pop k | Some q \<Rightarrow> Some (Some q, k));
     case q of
       None \<Rightarrow> Some (None, sm, k)
     | Some q \<Rightarrow> dispatch_queue M q weight sm k
   }"

section \<open>Services\<close>

definition skynet_getenv :: "string \<Rightarrow> kernel \<Rightarrow> string option" where
  "skynet_getenv key k = k_env k key"

definition skynet_setenv :: "string \<Rightarrow> string \<Rightarrow> kernel \<Rightarrow> kernel option" where
  "skynet_setenv key v k =
     (if k_env k key \<noteq> None then None else Some (k\<lparr>k_env := (k_env k)(key \<mapsto> v)\<rparr>))"

definition new_context :: "nat \<Rightarrow> nat \<Rightarrow> bool \<Rightarrow> skynet_context" where
  "new_context inst md profile =
     \<lparr>cx_instance = inst, cx_mod = md, cx_cb_ud = 0, cx_cb = None, cx_queue = None, cx_logfile = None,
      cx_cpu_cost = 0, cx_cpu_start = 0, cx_result = [], cx_handle = 0, cx_session_id = 0, cx_ref = 2,
      cx_message_count = 0, cx_init = False, cx_endless = False, cx_profile = profile\<rparr>"

text \<open>The first half of \<open>skynet_context_new\<close>: the context, its handle and its queue.\<close>

definition alloc_context :: "nat \<Rightarrow> nat \<Rightarrow> kernel \<Rightarrow> ((ptr \<times> ptr) \<times> kernel) option" where
  "alloc_context md inst k = do {
     let p = k_brk k;
     let q = k_brk k + 1;
     let k = k\<lparr>k_brk := k_brk k + 2, k_ctx := (k_ctx k)(p \<mapsto> new_context inst md (k_profile k))\<rparr>;
     (h, k) \<leftarrow> skynet_handle_register p k;
     k \<leftarrow> upd_ctx p (cx_handle_update (\<lambda>_. h)) k;
     k \<leftarrow> upd_ctx p (cx_queue_update (\<lambda>_. Some q)) k;
     Some ((p, q), context_inc (k\<lparr>mq_heap := (mq_heap k)(q \<mapsto> skynet_mq_create h)\<rparr>))
   }"

definition skynet_context_new ::
  "modules \<Rightarrow> string \<Rightarrow> string option \<Rightarrow> kernel \<Rightarrow> (ptr option \<times> kernel) option" where
  "skynet_context_new M name param k =
     (case md_query M name of
        None \<Rightarrow> Some (None, k)
      | Some md \<Rightarrow> do {
          (inst, k) \<leftarrow> md_create M md k;
          case inst of
            None \<Rightarrow> Some (None, k)
          | Some inst \<Rightarrow> do {
              ((p, q), k) \<leftarrow> alloc_context md inst k;
              (r, k) \<leftarrow> md_init M md inst p param k;
              if r = 0 then do {
                (ret, k) \<leftarrow> skynet_context_release M p k;
                k \<leftarrow> (if ret \<noteq> None then upd_ctx p (cx_init_update (\<lambda>_. True)) k else Some k);
                k \<leftarrow> skynet_globalmq_push q k;
                k \<leftarrow> (if ret \<noteq> None then
                       skynet_error M ret (''LAUNCH '' @ name @ '' '' @ (case param of None \<Rightarrow> [] | Some a \<Rightarrow> a)) k
                     else Some k);
                Some (ret, k)
              }
              else do {
                k \<leftarrow> skynet_error M (Some p) (''FAILED launch '' @ name) k;
                handle \<leftarrow> skynet_context_handle p k;
                (_, k) \<leftarrow> skynet_context_release M p k;
                (_, k) \<leftarrow> skynet_handle_retire M handle k;
                k \<leftarrow> skynet_mq_release (drop_message M handle) q k;
                Some (None, k)
              }
            }
        })"

definition skynet_callback :: "ptr \<Rightarrow> nat \<Rightarrow> nat option \<Rightarrow> kernel \<Rightarrow> kernel option" where
  "skynet_callback p ud cb k = do {
     k \<leftarrow> upd_ctx p (cx_cb_update (\<lambda>_. cb)) k;
     upd_ctx p (cx_cb_ud_update (\<lambda>_. ud)) k
   }"

definition handle_exit :: "modules \<Rightarrow> ptr \<Rightarrow> u32 \<Rightarrow> kernel \<Rightarrow> kernel option" where
  "handle_exit M context handle k = do {
     own \<leftarrow> skynet_context_handle context k;
     k \<leftarrow> skynet_error M (Some context)
            (if handle = 0 then ''KILL self'' else ''KILL :'' @ fmt_x handle) k;
     let handle = (if handle = 0 then own else handle);
     k \<leftarrow> (if k_monitor_exit k \<noteq> 0 then do {
            (_, k) \<leftarrow> skynet_send M (Some context) handle (k_monitor_exit k) (of_nat PTYPE_CLIENT) 0 Null 0 k;
            Some k
          }
          else Some k);
     (_, k) \<leftarrow> skynet_handle_retire M handle k;
     Some k
   }"

definition skynet_queryname :: "modules \<Rightarrow> ptr \<Rightarrow> string \<Rightarrow> kernel \<Rightarrow> (u32 \<times> kernel) option" where
  "skynet_queryname M context name k =
     (if name \<noteq> [] \<and> hd name = CHR '':'' then Some (ucast (strtoul 16 (tl name)), k)
      else if name \<noteq> [] \<and> hd name = CHR ''.'' then do {
        h \<leftarrow> skynet_handle_findname (k_H k) (tl name);
        Some (h, k)
      }
      else do {
        k \<leftarrow> skynet_error M (Some context) (''Don't support query global name '' @ name) k;
        Some (0, k)
      })"

text \<open>\<open>id_to_hex\<close>: a colon and eight digits.\<close>

definition id_to_hex :: "u32 \<Rightarrow> string" where
  "id_to_hex n =
     CHR '':'' # map (\<lambda>i. ''0123456789ABCDEF'' ! unat (drop_bit ((7 - i) * 4) n AND 0xf)) [0..<8]"

section \<open>Commands\<close>

text \<open>A command's argument may be \<open>NULL\<close>, and so may its result.\<close>

type_synonym cmd_func = "modules \<Rightarrow> ptr \<Rightarrow> string option \<Rightarrow> kernel \<Rightarrow> (string option \<times> kernel) option"

definition return_result :: "ptr \<Rightarrow> string \<Rightarrow> kernel \<Rightarrow> (string option \<times> kernel) option" where
  "return_result p text k = do { k \<leftarrow> upd_ctx p (cx_result_update (\<lambda>_. text)) k; Some (Some text, k) }"

definition cmd_timeout :: cmd_func where
  "cmd_timeout M p param k = do {
     param \<leftarrow> param;
     let ti = to_int (fst (strtol 10 param));
     (session, k) \<leftarrow> skynet_context_newsession p k;
     h \<leftarrow> skynet_context_handle p k;
     (_, k) \<leftarrow> skynet_timeout M h ti session k;
     return_result p (fmt_d session) k
   }"

definition cmd_reg :: cmd_func where
  "cmd_reg M p param k = do {
     h \<leftarrow> skynet_context_handle p k;
     if param = None \<or> param = Some [] then return_result p (CHR '':'' # fmt_x h) k
     else do {
       param \<leftarrow> param;
       if hd param = CHR ''.'' then do {
         (r, H) \<leftarrow> skynet_handle_namehandle h (tl param) (k_H k);
         Some (r, k\<lparr>k_H := H\<rparr>)
       }
       else do {
         k \<leftarrow> skynet_error M (Some p) (''Can't register global name '' @ param @ '' in C'') k;
         Some (None, k)
       }
     }
   }"

definition cmd_query :: cmd_func where
  "cmd_query M p param k = do {
     param \<leftarrow> param;
     if param \<noteq> [] \<and> hd param = CHR ''.'' then do {
       h \<leftarrow> skynet_handle_findname (k_H k) (tl param);
       if h \<noteq> 0 then return_result p (CHR '':'' # fmt_x h) k else Some (None, k)
     }
     else Some (None, k)
   }"

text \<open>\<open>sscanf(param, "%s %s", name, handle)\<close>; a word that is missing leaves its buffer unset.\<close>

definition scan_word :: "string \<Rightarrow> (string \<times> string) option" where
  "scan_word s =
     (let s = dropWhile isspace s in
      if s = [] then None else Some (takeWhile (\<lambda>c. \<not> isspace c) s, dropWhile (\<lambda>c. \<not> isspace c) s))"

definition cmd_name :: cmd_func where
  "cmd_name M p param k = do {
     param \<leftarrow> param;
     (name, rest) \<leftarrow> scan_word param;
     (handle, _) \<leftarrow> scan_word rest;
     let handle_id = ucast (strtoul 16 (tl handle));
     if hd handle \<noteq> CHR '':'' \<or> handle_id = 0 then Some (None, k)
     else if hd name = CHR ''.'' then do {
       (r, H) \<leftarrow> skynet_handle_namehandle handle_id (tl name) (k_H k);
       Some (r, k\<lparr>k_H := H\<rparr>)
     }
     else do {
       k \<leftarrow> skynet_error M (Some p) (''Can't set global name '' @ name @ '' in C'') k;
       Some (None, k)
     }
   }"

definition cmd_exit :: cmd_func where
  "cmd_exit M p param k = do { k \<leftarrow> handle_exit M p 0 k; Some (None, k) }"

definition tohandle :: "modules \<Rightarrow> ptr \<Rightarrow> string \<Rightarrow> kernel \<Rightarrow> (u32 \<times> kernel) option" where
  "tohandle M p param k =
     (if param \<noteq> [] \<and> hd param = CHR '':'' then Some (ucast (strtoul 16 (tl param)), k)
      else if param \<noteq> [] \<and> hd param = CHR ''.'' then do {
        h \<leftarrow> skynet_handle_findname (k_H k) (tl param);
        Some (h, k)
      }
      else do {
        k \<leftarrow> skynet_error M (Some p) (''Can't convert '' @ param @ '' to handle'') k;
        Some (0, k)
      })"

definition cmd_kill :: cmd_func where
  "cmd_kill M p param k = do {
     param \<leftarrow> param;
     (handle, k) \<leftarrow> tohandle M p param k;
     k \<leftarrow> (if handle \<noteq> 0 then handle_exit M p handle k else Some k);
     Some (None, k)
   }"

definition cmd_launch :: cmd_func where
  "cmd_launch M p param k = do {
     param \<leftarrow> param;
     let (md, rest) = strsep [CHR '' '', CHR 0x09, CHR 0x0D, CHR 0x0A] param;
     let args = map_option (\<lambda>r. fst (strsep [CHR 0x0D, CHR 0x0A] r)) rest;
     (inst, k) \<leftarrow> skynet_context_new M md args k;
     case inst of
       None \<Rightarrow> Some (None, k)
     | Some i \<Rightarrow> do {
         h \<leftarrow> skynet_context_handle i k;
         return_result p (id_to_hex h) k
       }
   }"

definition cmd_getenv :: cmd_func where
  "cmd_getenv M p param k = do { param \<leftarrow> param; Some (skynet_getenv param k, k) }"

definition cmd_setenv :: cmd_func where
  "cmd_setenv M p param k = do {
     param \<leftarrow> param;
     let key = takeWhile (\<lambda>c. c \<noteq> CHR '' '') param;
     case dropWhile (\<lambda>c. c \<noteq> CHR '' '') param of
       [] \<Rightarrow> Some (None, k)
     | _ # rest \<Rightarrow> do { k \<leftarrow> skynet_setenv key rest k; Some (None, k) }
   }"

definition cmd_starttime :: cmd_func where
  "cmd_starttime M p param k = return_result p (fmt_d (int (unat (tm_starttime (k_TI k))))) k"

definition cmd_abort :: cmd_func where
  "cmd_abort M p param k = do { k \<leftarrow> skynet_handle_retireall M k; Some (None, k) }"

definition cmd_monitor :: cmd_func where
  "cmd_monitor M p param k =
     (if param = None \<or> param = Some [] then
        if k_monitor_exit k \<noteq> 0 then return_result p (CHR '':'' # fmt_x (k_monitor_exit k)) k
        else Some (None, k)
      else do {
        param \<leftarrow> param;
        (handle, k) \<leftarrow> tohandle M p param k;
        Some (None, k\<lparr>k_monitor_exit := handle\<rparr>)
      })"

definition cmd_stat :: cmd_func where
  "cmd_stat M p param k = do {
     param \<leftarrow> param;
     c \<leftarrow> k_ctx k p;
     if param = ''mqlen'' then do {
       q \<leftarrow> cx_queue c;
       mq \<leftarrow> mq_heap k q;
       return_result p (fmt_d (int (skynet_mq_length mq))) k
     }
     else if param = ''endless'' then
       if cx_endless c then do {
         k \<leftarrow> upd_ctx p (cx_endless_update (\<lambda>_. False)) k;
         return_result p ''1'' k
       }
       else return_result p ''0'' k
     else if param = ''cpu'' then return_result p (md_show_seconds M (cx_cpu_cost c)) k
     else if param = ''time'' then
       return_result p (if cx_profile c then md_show_seconds M (md_thread_time M k - cx_cpu_start c) else ''0'') k
     else if param = ''message'' then return_result p (fmt_d (cx_message_count c)) k
     else return_result p [] k
   }"

definition cmd_logon :: cmd_func where
  "cmd_logon M p param k = do {
     param \<leftarrow> param;
     (handle, k) \<leftarrow> tohandle M p param k;
     if handle = 0 then Some (None, k)
     else do {
       (ctx, k) \<leftarrow> skynet_handle_grab handle k;
       case ctx of
         None \<Rightarrow> Some (None, k)
       | Some x \<Rightarrow> do {
           c \<leftarrow> k_ctx k x;
           k \<leftarrow> (if cx_logfile c = None then do {
                  (f, k) \<leftarrow> md_log_open M p handle k;
                  case f of
                    None \<Rightarrow> Some k
                  | Some f \<Rightarrow> upd_ctx x (\<lambda>c. if cx_logfile c = None then c\<lparr>cx_logfile := Some f\<rparr> else c) k
                }
                else Some k);
           (_, k) \<leftarrow> skynet_context_release M x k;
           Some (None, k)
         }
     }
   }"

definition cmd_logoff :: cmd_func where
  "cmd_logoff M p param k = do {
     param \<leftarrow> param;
     (handle, k) \<leftarrow> tohandle M p param k;
     if handle = 0 then Some (None, k)
     else do {
       (ctx, k) \<leftarrow> skynet_handle_grab handle k;
       case ctx of
         None \<Rightarrow> Some (None, k)
       | Some x \<Rightarrow> do {
           c \<leftarrow> k_ctx k x;
           k \<leftarrow> (case cx_logfile c of
                  None \<Rightarrow> Some k
                | Some f \<Rightarrow> do {
                    k \<leftarrow> upd_ctx x (cx_logfile_update (\<lambda>_. None)) k;
                    md_log_close M p f handle k
                  });
           (_, k) \<leftarrow> skynet_context_release M x k;
           Some (None, k)
         }
     }
   }"

definition cmd_signal :: cmd_func where
  "cmd_signal M p param k = do {
     param \<leftarrow> param;
     (handle, k) \<leftarrow> tohandle M p param k;
     if handle = 0 then Some (None, k)
     else do {
       (ctx, k) \<leftarrow> skynet_handle_grab handle k;
       case ctx of
         None \<Rightarrow> Some (None, k)
       | Some x \<Rightarrow> do {
           c \<leftarrow> k_ctx k x;
           let sig = (case strchr param CHR '' '' of None \<Rightarrow> 0 | Some s \<Rightarrow> to_int (fst (strtol 0 s)));
           k \<leftarrow> md_signal M (cx_mod c) (cx_instance c) sig k;
           (_, k) \<leftarrow> skynet_context_release M x k;
           Some (None, k)
         }
     }
   }"

definition cmd_funcs :: "(string \<times> cmd_func) list" where
  "cmd_funcs =
     [(''TIMEOUT'', cmd_timeout), (''REG'', cmd_reg), (''QUERY'', cmd_query), (''NAME'', cmd_name),
      (''EXIT'', cmd_exit), (''KILL'', cmd_kill), (''LAUNCH'', cmd_launch), (''GETENV'', cmd_getenv),
      (''SETENV'', cmd_setenv), (''STARTTIME'', cmd_starttime), (''ABORT'', cmd_abort),
      (''MONITOR'', cmd_monitor), (''STAT'', cmd_stat), (''LOGON'', cmd_logon), (''LOGOFF'', cmd_logoff),
      (''SIGNAL'', cmd_signal)]"

definition skynet_command :: "modules \<Rightarrow> ptr \<Rightarrow> string \<Rightarrow> string option \<Rightarrow> kernel \<Rightarrow> (string option \<times> kernel) option" where
  "skynet_command M p cmd param k =
     (case find (\<lambda>(name, _). strcmp cmd name = 0) cmd_funcs of
        None \<Rightarrow> Some (None, k)
      | Some (_, func) \<Rightarrow> func M p param k)"

text \<open>\<open>skynet_globalinit\<close>\<close>

definition skynet_globalinit :: "kernel \<Rightarrow> kernel" where
  "skynet_globalinit k = k\<lparr>k_total := 0, k_monitor_exit := 0\<rparr>"

definition skynet_profile_enable :: "bool \<Rightarrow> kernel \<Rightarrow> kernel" where
  "skynet_profile_enable enable k = k\<lparr>k_profile := enable\<rparr>"

section \<open>The node's invariant\<close>

abbreviation bound :: "kernel \<Rightarrow> u32 \<Rightarrow> ptr option" where
  "bound k \<equiv> lookup (\<lambda>p. skynet_context_handle p k) (k_H k)"

text \<open>
  Every service that a handle names has a live context, and a queue of its own that is well formed,
  not marked for release, and flagged whenever it is in the global list or has messages.
\<close>

definition service_ok :: "kernel \<Rightarrow> ptr list \<Rightarrow> ptr \<Rightarrow> bool" where
  "service_ok k xs p \<longleftrightarrow> (\<exists>c q mq. k_ctx k p = Some c \<and> 0 < cx_ref c \<and> cx_queue c = Some q \<and>
     unlinked k q = Some mq \<and> mq_wf mq \<and> \<not> mq_release mq \<and> (mq_in_global mq \<or> q \<notin> set xs) \<and>
     (mq_contents mq \<noteq> [] \<longrightarrow> mq_in_global mq))"

definition queue_of :: "kernel \<Rightarrow> ptr \<Rightarrow> ptr option" where
  "queue_of k p = Option.bind (k_ctx k p) cx_queue"

definition node_ok :: "kernel \<Rightarrow> ptr list \<Rightarrow> bool" where
  "node_ok k xs \<longleftrightarrow> gq_inv k xs \<and> handle_inv (\<lambda>p. skynet_context_handle p k) (k_H k) \<and>
     names_wf (k_H k) \<and> (\<forall>h p. bound k h = Some p \<longrightarrow> service_ok k xs p) \<and>
     (\<forall>h p h' p'. bound k h = Some p \<longrightarrow> bound k h' = Some p' \<longrightarrow> queue_of k p = queue_of k p' \<longrightarrow> p = p')"

text \<open>The messages that wait for the service of a handle.\<close>

definition mailbox :: "kernel \<Rightarrow> u32 \<Rightarrow> skynet_message list option" where
  "mailbox k h = do {
     p \<leftarrow> bound k h;
     q \<leftarrow> queue_of k p;
     mq \<leftarrow> mq_heap k q;
     Some (mq_contents mq)
   }"

lemma kernel_more:
  assumes "mq_state.more k' = mq_state.more k"
  shows "k_ctx k' = k_ctx k" "k_brk k' = k_brk k" "k_H k' = k_H k" "k_total k' = k_total k"
    "k_monitor_exit k' = k_monitor_exit k" "k_profile k' = k_profile k" "k_handle_key k' = k_handle_key k"
    "k_HARBOR k' = k_HARBOR k" "k_REMOTE k' = k_REMOTE k" "k_logger k' = k_logger k" "k_TI k' = k_TI k"
    "k_env k' = k_env k"
  using assms by (cases k; cases k'; simp)+

lemma bound_more:
  assumes "mq_state.more k' = mq_state.more k"
  shows "bound k' = bound k" "queue_of k' = queue_of k" "handle_inv (\<lambda>p. skynet_context_handle p k') (k_H k') =
    handle_inv (\<lambda>p. skynet_context_handle p k) (k_H k)"
    "(\<lambda>p. skynet_context_handle p k') = (\<lambda>p. skynet_context_handle p k)"
  by (simp_all add: kernel_more [OF assms] skynet_context_handle_def queue_of_def fun_eq_iff)

lemma mailbox_unlinked:
  "mailbox k h = Option.bind (bound k h) (\<lambda>p. Option.bind (queue_of k p)
     (\<lambda>q. map_option mq_contents (unlinked k q)))"
  by (auto simp: mailbox_def unlinked_def split: Option.bind_splits)

lemma handle_of_bound: "bound k h = Some p \<Longrightarrow> \<exists>c. k_ctx k p = Some c \<and> cx_handle c = h"
  by (auto simp: lookup_bound skynet_context_handle_def)

lemma bound_inj: "bound k h = Some p \<Longrightarrow> bound k h' = Some p \<Longrightarrow> h = h'"
  by (auto dest!: handle_of_bound)

section \<open>Delivery\<close>

lemma grab_bound:
  assumes "node_ok k xs"
  shows "skynet_handle_grab h k = (case bound k h of None \<Rightarrow> Some (None, k)
    | Some p \<Rightarrow> do { k \<leftarrow> skynet_context_grab p k; Some (Some p, k) })"
proof -
  let ?s = "k_H k"
  have inv: "handle_inv (\<lambda>p. skynet_context_handle p k) ?s" using assms by (simp add: node_ok_def)
  then have sh: "table_shape ?s" by (simp add: handle_inv_def)
  have "\<exists>g. skynet_context_handle p k = Some g" if "hs_slot ?s ! slot_of ?s h = Some p" for p
    using inv that slot_of_less [OF sh, of h] sh by (fastforce simp: handle_inv_def table_shape_def)
  then show ?thesis
    by (fastforce simp: skynet_handle_grab_def lookup_def split: option.splits)
qed

text \<open>The queue operation of a delivery, with the global list after it.\<close>

lemma push_queue_ok:
  assumes "gq_inv k xs" "unlinked k q = Some mq" "mq_wf mq" "\<not> mq_release mq" "mq_in_global mq \<or> q \<notin> set xs"
  shows "\<exists>k' xs' mq'. skynet_mq_push q m k = Some k' \<and> gq_inv k' xs' \<and> set xs' \<subseteq> insert q (set xs) \<and>
    unlinked k' = (unlinked k)(q \<mapsto> mq') \<and> mq_state.more k' = mq_state.more k \<and> mq_wf mq' \<and>
    mq_contents mq' = mq_contents mq @ [m] \<and> mq_in_global mq' \<and> \<not> mq_release mq'"
proof -
  obtain mq0 where q: "mq_heap k q = Some mq0" "mq = mq0\<lparr>mq_next := None\<rparr>"
    using assms(2) by (auto simp: unlinked_def)
  have wf: "mq_wf mq0" "mq_release mq0 = mq_release mq" "mq_in_global mq0 = mq_in_global mq"
    "mq_contents mq = mq_contents mq0" using assms(3) q(2) by simp_all
  obtain q' where st: "mq_store m mq0 = Some q'" using mq_store_ok [OF wf(1)] by blast
  note f = mq_store_frame [OF st] and c = mq.enq_list
  show ?thesis
  proof (cases "mq_in_global mq0")
    case True
    from mq_push_scheduled_ok [OF assms(1) q(1) wf(1) True, of m] st obtain k' where
      "skynet_mq_push q m k = Some k'" "gq_inv k' xs"
      "unlinked k' = (unlinked k)(q \<mapsto> q'\<lparr>mq_next := None\<rparr>)" "mq_state.more k' = mq_state.more k" by auto
    then show ?thesis using f True wf assms(4) st mq_store_ok [OF wf(1), of m]
      by (intro exI [of _ k'] exI [of _ xs] exI [of _ "q'\<lparr>mq_next := None\<rparr>"]) auto
  next
    case False
    then have "q \<notin> set xs" using assms(5) wf by auto
    from mq_push_idle_ok [OF assms(1) q(1) wf(1) False this, of m] st obtain k' where
      "skynet_mq_push q m k = Some k'" "gq_inv k' (xs @ [q])"
      "unlinked k' = (unlinked k)(q \<mapsto> q'\<lparr>mq_in_global := True, mq_next := None\<rparr>)"
      "mq_state.more k' = mq_state.more k" by auto
    then show ?thesis using f wf assms(4) st mq_store_ok [OF wf(1), of m]
      by (intro exI [of _ k'] exI [of _ "xs @ [q]"] exI [of _ "q'\<lparr>mq_in_global := True, mq_next := None\<rparr>"])
         (auto simp: mq_wf_def mq_contents_def)
  qed
qed

lemma service_ok_push:
  assumes "node_ok k xs" "bound k h = Some p" "queue_of k p = Some q"
    "unlinked k' = (unlinked k)(q \<mapsto> mq')" "mq_state.more k' = mq_state.more k" "mq_wf mq'"
    "mq_in_global mq'" "\<not> mq_release mq'" "set xs' \<subseteq> insert q (set xs)" "gq_inv k' xs'"
  shows "node_ok k' xs'"
proof -
  note more = bound_more [OF assms(5)] and km = kernel_more [OF assms(5)]
  have "service_ok k' xs' p'" if "bound k h' = Some p'" for h' p'
  proof -
    have ok: "service_ok k xs p'" using that assms(1) unfolding node_ok_def by blast
    then obtain c q' mq where c: "k_ctx k p' = Some c" "0 < cx_ref c" "cx_queue c = Some q'"
      "unlinked k q' = Some mq" "mq_wf mq" "\<not> mq_release mq" "mq_in_global mq \<or> q' \<notin> set xs"
      "mq_contents mq \<noteq> [] \<longrightarrow> mq_in_global mq" unfolding service_ok_def by blast
    show ?thesis
      unfolding service_ok_def km assms(4)
      using c assms(6-9) by (intro exI [of _ c] exI [of _ q'] exI [of _ "if q' = q then mq' else mq"]) auto
  qed
  then show ?thesis using assms(1,10) unfolding node_ok_def more(2,4) km by blast
qed

lemma mailbox_push:
  assumes "node_ok k xs" "bound k h = Some p" "queue_of k p = Some q" "unlinked k q = Some mq"
    "unlinked k' = (unlinked k)(q \<mapsto> mq')" "mq_state.more k' = mq_state.more k"
    "mq_contents mq' = mq_contents mq @ [m]"
  shows "mailbox k' = (mailbox k)(h := map_option (\<lambda>ms. ms @ [m]) (mailbox k h))"
proof
  fix g
  note more = bound_more [OF assms(6)]
  have other: "queue_of k p' \<noteq> Some q" if "bound k g = Some p'" "g \<noteq> h" for p'
  proof
    assume "queue_of k p' = Some q"
    then have "p' = p" using assms(1-3) that unfolding node_ok_def by metis
    then show False using that assms(2) bound_inj by blast
  qed
  show "mailbox k' g = ((mailbox k)(h := map_option (\<lambda>ms. ms @ [m]) (mailbox k h))) g"
  proof (cases "g = h")
    case True
    then show ?thesis using assms(2-5,7) unfolding mailbox_unlinked more(1,2) by simp
  next
    case False
    then have "mailbox k' g = mailbox k g"
      using other unfolding mailbox_unlinked more(1,2) assms(5)
      by (cases "bound k g"; cases "queue_of k (the (bound k g))") auto
    with False show ?thesis by simp
  qed
qed

lemma bound_service:
  assumes "node_ok k xs" "bound k h = Some p"
  obtains c q mq where "k_ctx k p = Some c" "0 < cx_ref c" "cx_queue c = Some q" "queue_of k p = Some q"
    "unlinked k q = Some mq" "mq_wf mq" "\<not> mq_release mq" "mq_in_global mq \<or> q \<notin> set xs"
    "mq_contents mq \<noteq> [] \<longrightarrow> mq_in_global mq"
proof -
  have "service_ok k xs p" using assms unfolding node_ok_def by blast
  then show thesis unfolding service_ok_def by (elim exE conjE) (rule that, auto simp: queue_of_def)
qed

text \<open>
  The grab and the release of a delivery cancel, so only the queue changes.
\<close>

lemma context_push_ok:
  assumes "node_ok k xs"
  shows "\<exists>k' xs'. skynet_context_push M h m k = Some (if bound k h = None then - 1 else 0, k') \<and>
    node_ok k' xs' \<and> mq_state.more k' = mq_state.more k \<and>
    mailbox k' = (mailbox k)(h := map_option (\<lambda>ms. ms @ [m]) (mailbox k h)) \<and>
    (\<forall>q. (\<nexists>p. bound k h = Some p \<and> queue_of k p = Some q) \<longrightarrow> unlinked k' q = unlinked k q) \<and>
    set xs' \<subseteq> set xs \<union> {q. \<exists>p. bound k h = Some p \<and> queue_of k p = Some q}"
proof (cases "bound k h")
  case None
  then have "mailbox k h = None" by (simp add: mailbox_def)
  then have "mailbox k = (mailbox k)(h := map_option (\<lambda>ms. ms @ [m]) (mailbox k h))" by auto
  with None assms show ?thesis
    by (intro exI [of _ k] exI [of _ xs]) (simp add: skynet_context_push_def grab_bound [OF assms])
next
  case (Some p)
  obtain c q mq where c: "k_ctx k p = Some c" "0 < cx_ref c" "cx_queue c = Some q" "queue_of k p = Some q"
    "unlinked k q = Some mq" "mq_wf mq" "\<not> mq_release mq" "mq_in_global mq \<or> q \<notin> set xs"
    using bound_service [OF assms Some] by metis
  let ?kg = "k\<lparr>k_ctx := (k_ctx k)(p \<mapsto> cx_ref_update (\<lambda>r. r + 1) c)\<rparr>"
  have grab: "skynet_handle_grab h k = Some (Some p, ?kg)"
    using Some c by (simp add: grab_bound [OF assms] skynet_context_grab_def upd_ctx_def)
  have gq: "gq_inv k xs" using assms by (simp add: node_ok_def)
  have g': "gq_inv ?kg xs" "unlinked ?kg = unlinked k"
    using gq by (simp_all add: gq_inv_def next_of_def [abs_def] unlinked_def fun_eq_iff)
  obtain k1 xs' mq' where p1: "skynet_mq_push q m ?kg = Some k1" "gq_inv k1 xs'"
    "set xs' \<subseteq> insert q (set xs)" "unlinked k1 = (unlinked k)(q \<mapsto> mq')"
    "mq_state.more k1 = mq_state.more ?kg" "mq_wf mq'" "mq_contents mq' = mq_contents mq @ [m]"
    "mq_in_global mq'" "\<not> mq_release mq'"
    using push_queue_ok [OF g'(1) c(5) [folded g'(2)] c(6-8), of m] unfolding g'(2) by blast
  let ?k = "k1\<lparr>k_ctx := k_ctx k\<rparr>"
  have rel: "skynet_context_release M p k1 = Some (Some p, ?k)"
    using c(1,2) kernel_more(1) [OF p1(5)]
    by (auto simp: skynet_context_release_def upd_ctx_def fun_upd_idem)
  have more: "mq_state.more ?k = mq_state.more k"
    using p1(5) by (cases k; cases k1) simp
  have k: "gq_inv ?k xs'" "unlinked ?k = (unlinked k)(q \<mapsto> mq')"
    using p1(2,4) by (simp_all add: gq_inv_def next_of_def [abs_def] unlinked_def fun_eq_iff)
  have "skynet_context_push M h m k = Some (0, ?k)"
    using grab c(3) p1(1) rel by (simp add: skynet_context_push_def)
  moreover have "node_ok ?k xs'"
    using service_ok_push [OF assms Some c(4) k(2) more p1(6,8,9,3) k(1)] .
  moreover have "mailbox ?k = (mailbox k)(h := map_option (\<lambda>ms. ms @ [m]) (mailbox k h))"
    using mailbox_push [OF assms Some c(4,5) k(2) more p1(7)] .
  ultimately show ?thesis using Some more k p1(3) c(4)
    by (intro exI [of _ ?k] exI [of _ xs']) auto
qed

lemma sz_size_iff: "sz AND MESSAGE_TYPE_MASK \<noteq> sz \<longleftrightarrow> sz_size sz \<noteq> sz"
  by (simp add: sz_size_def)


section \<open>The queue of a dead service\<close>

definition error_from :: "u32 \<Rightarrow> skynet_message" where
  "error_from handle =
     \<lparr>msg_source = handle, msg_session = 0, msg_data = Null, msg_sz = pack_sz 0 PTYPE_ERROR\<rparr>"

definition local_handle :: "kernel \<Rightarrow> u32 \<Rightarrow> bool" where
  "local_handle k h \<longleftrightarrow> skynet_harbor_message_isremote h k = Some False"

lemma bound_zero: "node_ok k xs \<Longrightarrow> bound k 0 = None"
proof (rule ccontr)
  assume ok: "node_ok k xs" and "bound k 0 \<noteq> None"
  then obtain p where p: "bound k 0 = Some p" by auto
  have inv: "handle_inv (\<lambda>p. skynet_context_handle p k) (k_H k)" using ok by (simp add: node_ok_def)
  then have sh: "table_shape (k_H k)" by (simp add: handle_inv_def)
  from p [unfolded lookup_bound] inv slot_of_less [OF sh, of 0] sh show False
    by (fastforce simp: handle_inv_def table_shape_def)
qed

lemma drop_message_ok:
  assumes ok: "node_ok k xs" and "handle \<noteq> 0" "local_handle k (msg_source m)"
  shows "\<exists>k' xs'. drop_message M handle m k = Some k' \<and> node_ok k' xs' \<and>
    mq_state.more k' = mq_state.more k \<and>
    mailbox k' = (mailbox k)(msg_source m := map_option (\<lambda>ms. ms @ [error_from handle]) (mailbox k (msg_source m))) \<and>
    (\<forall>q. (\<nexists>h p. bound k h = Some p \<and> queue_of k p = Some q) \<longrightarrow> unlinked k' q = unlinked k q \<and> (q \<in> set xs' \<longrightarrow> q \<in> set xs))"
proof (cases "msg_source m = 0")
  case True
  then have "mailbox k (msg_source m) = None" using bound_zero [OF ok] by (simp add: mailbox_def)
  then have mb: "mailbox k = (mailbox k)(msg_source m := map_option (\<lambda>ms. ms @ [error_from handle]) (mailbox k (msg_source m)))"
    by auto
  have "drop_message M handle m k = Some k"
    using True assms(2) by (simp add: drop_message_def skynet_send_def sz_size_iff sz_size_def filter_args_def
        source_of_def ptype_defs PTYPE_TAG_ALLOCSESSION_def)
  then show ?thesis using ok mb by blast
next
  case False
  have "(of_nat PTYPE_ERROR :: u32) = 7" by (simp add: PTYPE_ERROR_def)
  then have snd: "drop_message M handle m k =
    Option.bind (skynet_context_push M (msg_source m) (error_from handle) k) (\<lambda>(r, k). Some k)"
    using False assms(2,3)
    by (cases "skynet_context_push M (msg_source m) (error_from handle) k")
      (auto simp: drop_message_def skynet_send_def sz_size_iff sz_size_def filter_args_def
        source_of_def ptype_defs PTYPE_TAG_ALLOCSESSION_def local_handle_def error_from_def)
  from context_push_ok [OF ok, of M "msg_source m" "error_from handle"] obtain k' xs' where k':
    "skynet_context_push M (msg_source m) (error_from handle) k = Some (if bound k (msg_source m) = None then - 1 else 0, k')"
    "node_ok k' xs'" "mq_state.more k' = mq_state.more k"
    "mailbox k' = (mailbox k)(msg_source m := map_option (\<lambda>ms. ms @ [error_from handle]) (mailbox k (msg_source m)))"
    "\<forall>q. (\<nexists>p. bound k (msg_source m) = Some p \<and> queue_of k p = Some q) \<longrightarrow> unlinked k' q = unlinked k q"
    "set xs' \<subseteq> set xs \<union> {q. \<exists>p. bound k (msg_source m) = Some p \<and> queue_of k p = Some q}" by blast
  then show ?thesis unfolding snd
    by (intro exI [of _ k'] exI [of _ xs']) auto
qed

definition private_queue :: "kernel \<Rightarrow> ptr \<Rightarrow> bool" where
  "private_queue k q \<longleftrightarrow> (\<forall>h p. bound k h = Some p \<longrightarrow> queue_of k p \<noteq> Some q)"

text \<open>A change of a queue that belongs to no service.\<close>

lemma node_ok_private:
  assumes "node_ok k xs" "gq_inv k' xs" "mq_state.more k' = mq_state.more k" "private_queue k q"
    "\<And>q'. q' \<noteq> q \<Longrightarrow> unlinked k' q' = unlinked k q'"
  shows "node_ok k' xs" "mailbox k' = mailbox k"
proof -
  note more = bound_more [OF assms(3)] and km = kernel_more [OF assms(3)]
  have "service_ok k' xs p" if b: "bound k h = Some p" for h p
  proof -
    obtain c q' mq where c: "k_ctx k p = Some c" "0 < cx_ref c" "cx_queue c = Some q'" "queue_of k p = Some q'"
      "unlinked k q' = Some mq" "mq_wf mq" "\<not> mq_release mq" "mq_in_global mq \<or> q' \<notin> set xs"
      "mq_contents mq \<noteq> [] \<longrightarrow> mq_in_global mq" using bound_service [OF assms(1) b] by metis
    have "q' \<noteq> q" using assms(4) b c(4) unfolding private_queue_def by blast
    then show ?thesis using c assms(5) unfolding service_ok_def km by auto
  qed
  then show "node_ok k' xs" using assms(1,2) unfolding node_ok_def more(2,4) km by blast
  show "mailbox k' = mailbox k"
  proof
    fix h
    show "mailbox k' h = mailbox k h"
    proof (cases "bound k h")
      case None
      then show ?thesis unfolding mailbox_unlinked more(1,2) by simp
    next
      case (Some p)
      obtain q' where q': "queue_of k p = Some q'" using bound_service [OF assms(1) Some] by metis
      with assms(4) Some have "q' \<noteq> q" unfolding private_queue_def by blast
      with q' Some assms(5) show ?thesis unfolding mailbox_unlinked more(1,2) by simp
    qed
  qed
qed

lemma private_more: "mq_state.more k' = mq_state.more k \<Longrightarrow> private_queue k' q = private_queue k q"
  unfolding private_queue_def bound_more(1,2) by (rule refl)

lemma release_at_ok:
  assumes "node_ok k xs" "private_queue k q" "mq_heap k q = Some mq" "q \<notin> set xs"
  shows "mq_release_at q k = Some (k\<lparr>mq_heap := (mq_heap k)(q := None)\<rparr>)"
    "node_ok (k\<lparr>mq_heap := (mq_heap k)(q := None)\<rparr>) xs"
    "mailbox (k\<lparr>mq_heap := (mq_heap k)(q := None)\<rparr>) = mailbox k"
proof -
  let ?k = "k\<lparr>mq_heap := (mq_heap k)(q := None)\<rparr>"
  have gq: "gq_inv k xs" using assms(1) by (simp add: node_ok_def)
  then have nx: "next_of k q = None" using assms(4) by (simp add: gq_inv_def)
  then show "mq_release_at q k = Some ?k" using assms(3) by (simp add: mq_release_at_def next_of_def)
  have "next_of ?k = next_of k" using nx by (auto simp: next_of_def fun_eq_iff)
  then have "gq_inv ?k xs" using gq assms(4) by (auto simp: gq_inv_def)
  moreover have "mq_state.more ?k = mq_state.more k" by simp
  moreover have "unlinked ?k q' = unlinked k q'" if "q' \<noteq> q" for q' using that by (simp add: unlinked_def)
  ultimately show "node_ok ?k xs" "mailbox ?k = mailbox k"
    using node_ok_private [OF assms(1) _ _ assms(2)] by blast+
qed

definition errors_for :: "u32 \<Rightarrow> skynet_message list \<Rightarrow> u32 \<Rightarrow> skynet_message list" where
  "errors_for handle ms h = replicate (length (filter (\<lambda>m. msg_source m = h) ms)) (error_from handle)"

lemma drop_queue_ok:
  assumes "node_ok k xs" "private_queue k q" "mq_heap k q = Some mq" "mq_wf mq" "q \<notin> set xs"
    "handle \<noteq> 0" "\<forall>m \<in> set (mq_contents mq). local_handle k (msg_source m)"
  shows "\<exists>k' xs'. drop_queue (drop_message M handle) q k = Some k' \<and> node_ok k' xs' \<and> mq_heap k' q = None \<and>
    mq_state.more k' = mq_state.more k \<and>
    (\<forall>h. mailbox k' h = map_option (\<lambda>ms. ms @ errors_for handle (mq_contents mq) h) (mailbox k h))"
  using assms
proof (induction "mq_contents mq" arbitrary: k xs mq)
  case Nil
  then have gq: "gq_inv k xs" by (simp add: node_ok_def)
  from mq_pop_at_ok [OF gq Nil.prems(3,4)] Nil.hyps obtain q' k1 where p:
    "mq_pop_at q k = Some (None, k1)" "gq_inv k1 xs" "unlinked k1 = (unlinked k)(q \<mapsto> q'\<lparr>mq_next := None\<rparr>)"
    "mq_state.more k1 = mq_state.more k" by auto
  have n1: "node_ok k1 xs" "mailbox k1 = mailbox k"
    using node_ok_private [OF Nil.prems(1) p(2,4) Nil.prems(2)] p(3) by simp_all
  have pv: "private_queue k1 q" using private_more [OF p(4)] Nil.prems(2) by simp
  have "unlinked k1 q = Some (q'\<lparr>mq_next := None\<rparr>)" using p(3) by simp
  then obtain mq1 where "mq_heap k1 q = Some mq1" by (auto simp: unlinked_def)
  note r = release_at_ok [OF n1(1) pv this Nil.prems(5)]
  have "drop_queue (drop_message M handle) q k = Some (k1\<lparr>mq_heap := (mq_heap k1)(q := None)\<rparr>)"
    by (subst drop_queue.simps) (simp add: p(1) r(1))
  then show ?case using r n1 p(4) Nil.hyps
    by (intro exI [of _ "k1\<lparr>mq_heap := (mq_heap k1)(q := None)\<rparr>"] exI [of _ xs])
      (auto simp: errors_for_def option.map_ident)
next
  case (Cons m ms)
  have gq: "gq_inv k xs" using Cons.prems(1) by (simp add: node_ok_def)
  obtain mq' where d: "skynet_mq_pop mq = Some (Some m, mq')"
    using mq.deq_cons [OF Cons.prems(4) Cons.hyps(2) [symmetric]] by blast
  from mq_pop_at_ok [OF gq Cons.prems(3,4)] d obtain k1 where p:
    "mq_pop_at q k = Some (Some m, k1)" "gq_inv k1 xs" "unlinked k1 = (unlinked k)(q \<mapsto> mq'\<lparr>mq_next := None\<rparr>)"
    "mq_state.more k1 = mq_state.more k" "mq_wf mq'" "mq_contents mq' = tl (mq_contents mq)" by auto
  have n1: "node_ok k1 xs" "mailbox k1 = mailbox k"
    using node_ok_private [OF Cons.prems(1) p(2,4) Cons.prems(2)] p(3) by simp_all
  have pv: "private_queue k1 q" using private_more [OF p(4)] Cons.prems(2) by simp
  have loc: "local_handle k1 h = local_handle k h" for h
    by (simp add: local_handle_def skynet_harbor_message_isremote_def kernel_more [OF p(4)])
  have "m \<in> set (mq_contents mq)" by (simp flip: Cons.hyps(2))
  then have "local_handle k1 (msg_source m)" using Cons.prems(7) loc by blast
  from drop_message_ok [OF n1(1) Cons.prems(6) this, of M] obtain k2 xs2 where k2:
    "drop_message M handle m k1 = Some k2" "node_ok k2 xs2" "mq_state.more k2 = mq_state.more k1"
    "mailbox k2 = (mailbox k1)(msg_source m := map_option (\<lambda>ms. ms @ [error_from handle]) (mailbox k1 (msg_source m)))"
    "unlinked k2 q = unlinked k1 q" "q \<in> set xs2 \<longrightarrow> q \<in> set xs" using pv unfolding private_queue_def by metis
  obtain mq2 where mq2: "mq_heap k2 q = Some mq2" "mq_wf mq2" "mq_contents mq2 = ms"
  proof -
    have "unlinked k2 q = Some (mq'\<lparr>mq_next := None\<rparr>)" using k2(5) p(3) by simp
    then obtain mq2 where "mq_heap k2 q = Some mq2" "mq2\<lparr>mq_next := None\<rparr> = mq'\<lparr>mq_next := None\<rparr>"
      by (auto simp: unlinked_def)
    moreover from this p(5,6) Cons.hyps(2) have "mq_wf mq2" "mq_contents mq2 = ms"
      using mq_wf_unlink(1,2) by (metis, metis list.sel(3))
    ultimately show thesis using that by blast
  qed
  have more2: "mq_state.more k2 = mq_state.more k" using k2(3) p(4) by simp
  have loc2: "local_handle k2 h = local_handle k h" for h
    by (simp add: local_handle_def skynet_harbor_message_isremote_def kernel_more [OF more2])
  have "private_queue k2 q" using private_more [OF more2] Cons.prems(2) by simp
  moreover have "q \<notin> set xs2" using k2(6) Cons.prems(5) by blast
  moreover have "\<forall>m \<in> set (mq_contents mq2). local_handle k2 (msg_source m)"
    using Cons.prems(7) mq2(3) by (simp add: loc2 flip: Cons.hyps(2))
  ultimately obtain k' xs' where k': "drop_queue (drop_message M handle) q k2 = Some k'" "node_ok k' xs'"
    "mq_heap k' q = None" "mq_state.more k' = mq_state.more k2"
    "\<forall>h. mailbox k' h = map_option (\<lambda>ms. ms @ errors_for handle (mq_contents mq2) h) (mailbox k2 h)"
    using Cons.hyps(1) [OF mq2(3) [symmetric] k2(2) _ mq2(1,2) _ Cons.prems(6)] by blast
  have "drop_queue (drop_message M handle) q k = Some k'"
    by (subst drop_queue.simps) (simp add: p(1) k2(1) k'(1))
  moreover have "mailbox k' h = map_option (\<lambda>ms. ms @ errors_for handle (mq_contents mq) h) (mailbox k h)" for h
    using k'(5) k2(4) mq2(3) unfolding n1(2) Cons.hyps(2) [symmetric]
    by (auto simp: errors_for_def option.map_comp comp_def)
  ultimately show ?case using k' more2 by auto
qed


lemma kernel_ex_bound: "bound kernel_ex h = Some p \<Longrightarrow> h = 0x01000001 \<and> p = 10"
proof -
  assume "bound kernel_ex h = Some p"
  then have b: "hs_slot (k_H kernel_ex) ! slot_of (k_H kernel_ex) h = Some p"
    "skynet_context_handle p kernel_ex = Some h" by (simp_all add: lookup_bound)
  have sh: "table_shape (k_H kernel_ex)" using kernel_ex_inv(1) by (simp add: handle_inv_def)
  have sl: "hs_slot (k_H kernel_ex) = [None, Some 10, None, None]" by (simp add: kernel_ex_def)
  then have "slot_of (k_H kernel_ex) h < 4" using slot_of_less [OF sh, of h] by simp
  then have "slot_of (k_H kernel_ex) h \<in> {0, 1, 2, 3}" by auto
  then have "p = 10" using b(1) unfolding sl by auto
  with b(2) show "h = 0x01000001 \<and> p = 10"
    by (simp add: kernel_ex_def skynet_context_handle_def ctx_ex_def)
qed

lemma kernel_ex_bound_service: "bound kernel_ex 0x01000001 = Some 10"
proof -
  have sh: "table_shape (k_H kernel_ex)" using kernel_ex_inv(1) by (simp add: handle_inv_def)
  show ?thesis by (simp add: lookup_def slot_of_mod [OF sh])
    (simp add: kernel_ex_def skynet_handle_init_def DEFAULT_SLOT_SIZE_def skynet_context_handle_def ctx_ex_def)
qed

lemma kernel_ex_node_ok: "node_ok kernel_ex [20]"
proof -
  have gq: "gq_inv kernel_ex [20]"
    by (auto simp: gq_inv_def kernel_ex_def next_of_def skynet_mq_create_def split: if_splits)
  have "service_ok kernel_ex [20] 10"
    using mq_wf_create [of "0x01000001"]
    by (auto simp: service_ok_def kernel_ex_def ctx_ex_def unlinked_def)
  moreover have "names_wf (k_H kernel_ex)" using names_wf_init(1) [of 1] by (simp add: kernel_ex_def)
  ultimately show ?thesis
    using gq kernel_ex_inv(1) kernel_ex_bound unfolding node_ok_def by blast
qed


definition dead_ex :: "skynet_message message_queue" where
  "dead_ex = (the (mq_store (error_from 0x01000001) (skynet_mq_create 0x01000005)))\<lparr>mq_release := True\<rparr>"

definition kernel_dead :: kernel where
  "kernel_dead = kernel_ex\<lparr>mq_heap := (mq_heap kernel_ex)(30 \<mapsto> dead_ex)\<rparr>"

lemma dead_ex_wf: "mq_wf dead_ex" "mq_contents dead_ex = [error_from 0x01000001]" "mq_release dead_ex"
  "mq_next dead_ex = None"
proof -
  obtain q where q: "mq_store (error_from 0x01000001) (skynet_mq_create 0x01000005) = Some q" "mq_wf q"
    "mq_contents q = [error_from 0x01000001]"
    using mq_store_ok [OF mq_wf_create(1), of "error_from 0x01000001" "0x01000005"]
    by (auto simp: mq_wf_create(2))
  have "mq_next q = None" using mq_store_frame(4) [OF q(1)] by (simp add: skynet_mq_create_def)
  then show "mq_wf dead_ex" "mq_contents dead_ex = [error_from 0x01000001]" "mq_release dead_ex"
    "mq_next dead_ex = None" using q by (simp_all add: dead_ex_def mq_wf_def mq_contents_def)
qed

lemma kernel_dead_ok: "node_ok kernel_dead [20]" "private_queue kernel_dead 30"
proof -
  have pv: "private_queue kernel_ex 30"
    unfolding private_queue_def by (auto dest!: kernel_ex_bound simp: queue_of_def kernel_ex_def ctx_ex_def)
  have more: "mq_state.more kernel_dead = mq_state.more kernel_ex" by (simp add: kernel_dead_def)
  have "gq_inv kernel_ex [20]" using kernel_ex_node_ok by (simp add: node_ok_def)
  moreover have "next_of kernel_dead = next_of kernel_ex"
    using dead_ex_wf(4) by (auto simp: next_of_def kernel_dead_def kernel_ex_def fun_eq_iff)
  ultimately have "gq_inv kernel_dead [20]" by (auto simp: gq_inv_def kernel_dead_def)
  then show "node_ok kernel_dead [20]"
    using node_ok_private(1) [OF kernel_ex_node_ok _ more pv] by (simp add: kernel_dead_def unlinked_def)
  show "private_queue kernel_dead 30" using pv private_more [OF more] by simp
qed


section \<open>Sessions and addresses\<close>

text \<open>
  Session numbers: \<open>skynet_context_newsession\<close> counts from 1 to \<open>2\<^sup>3\<^sup>1 - 1\<close> and starts again at 1 when
  the \<open>int\<close> overflows, so a session is always positive and returns only after \<open>2\<^sup>3\<^sup>1 - 1\<close> calls; nothing
  but the counter changes.
\<close>

theorem newsession_cycles:
  assumes "k_ctx k p = Some c" "0 \<le> cx_session_id c" "cx_session_id c < 2 ^ 31"
  shows "\<exists>s. s = cx_session_id c mod (2 ^ 31 - 1) + 1 \<and> 0 < s \<and> s < 2 ^ 31 \<and>
    skynet_context_newsession p k = Some (s, k\<lparr>k_ctx := (k_ctx k)(p \<mapsto> c\<lparr>cx_session_id := s\<rparr>)\<rparr>)"
proof -
  let ?i = "cx_session_id c"
  have "to_int (?i + 1) = (if ?i = 2 ^ 31 - 1 then - (2 ^ 31) else ?i + 1)"
    using assms(2,3) by (auto simp: to_int_def)
  then have "(if to_int (?i + 1) \<le> 0 then 1 else to_int (?i + 1)) = ?i mod (2 ^ 31 - 1) + 1"
    using assms(2,3) by auto
  then have "skynet_context_newsession p k = Some (?i mod (2 ^ 31 - 1) + 1,
      k\<lparr>k_ctx := (k_ctx k)(p \<mapsto> c\<lparr>cx_session_id := ?i mod (2 ^ 31 - 1) + 1\<rparr>)\<rparr>)"
    using assms(1) by (simp add: skynet_context_newsession_def upd_ctx_def Let_def)
  moreover have "0 < ?i mod (2 ^ 31 - 1) + 1" "?i mod (2 ^ 31 - 1) + 1 < 2 ^ 31"
    using pos_mod_bound [of "2 ^ 31 - 1" ?i] pos_mod_sign [of "2 ^ 31 - 1" ?i] by simp_all
  ultimately show ?thesis by blast
qed

theorem newsession_cycles_witness:
  "\<exists>s. s = cx_session_id (ctx_ex 0x01000001 20) mod (2 ^ 31 - 1) + 1 \<and> 0 < s \<and> s < 2 ^ 31 \<and>
    skynet_context_newsession 10 kernel_ex =
      Some (s, kernel_ex\<lparr>k_ctx := (k_ctx kernel_ex)(10 \<mapsto> (ctx_ex 0x01000001 20)\<lparr>cx_session_id := s\<rparr>)\<rparr>)"
  by (rule newsession_cycles) (simp_all add: kernel_ex_def ctx_ex_def)

lemma digit_val_hex: "n < 16 \<Longrightarrow> digit_val (''0123456789ABCDEF'' ! n) = n"
proof -
  assume "n < 16"
  then have "n \<in> {0, 1, 2, 3, 4, 5, 6, 7, 8, 9, 10, 11, 12, 13, 14, 15}"
    unfolding insert_iff empty_iff by presburger
  then show ?thesis by (auto simp: digit_val_def)
qed

definition nibble :: "u32 \<Rightarrow> nat \<Rightarrow> nat" where
  "nibble n i = unat n div 2 ^ ((7 - i) * 4) mod 16"

lemma nibble_unat: "unat (drop_bit ((7 - i) * 4) n AND 0xf) = nibble n i" for n :: u32
proof -
  have m: "(0xf :: u32) = mask 4" by (simp add: mask_eq_exp_minus_1)
  show ?thesis by (simp only: m unat_and_mask unat_drop_bit_eq nibble_def) (simp add: drop_bit_eq_div)
qed

lemma div16: "(x::nat) = x div 16 * 16 + x mod 16"
  by simp

lemma nibbles_value: "foldl (\<lambda>a i. a * 16 + nibble n i) 0 [0..<8] = unat n"
proof -
  let ?x = "unat n"
  have lt: "?x < 2 ^ 32" by (rule unat_u32_less)
  have step: "?x div 16 ^ Suc j * 16 + ?x div 16 ^ j mod 16 = ?x div 16 ^ j" for j
    using div_mult_mod_eq [of "?x div 16 ^ j" 16] by (simp add: div_mult2_eq [symmetric] mult.commute)
  have nib: "nibble n i = ?x div 16 ^ (7 - i) mod 16" for i
    by (simp add: nibble_def mult.commute [of _ 4] power_mult)
  have "foldl (\<lambda>a i. a * 16 + nibble n i) 0 [0..<j] = ?x div 16 ^ (8 - j)" if "j \<le> 8" for j
    using that
  proof (induction j)
    case 0
    have "?x div 16 ^ 8 = 0" using lt by (intro div_less) simp
    then show ?case by simp
  next
    case (Suc j)
    then have "8 - j = Suc (7 - j)" "8 - Suc j = 7 - j" by simp_all
    with Suc show ?case by (simp add: nib step del: power_Suc)
  qed
  from this [of 8] show ?thesis by simp
qed

lemma foldl_map_digits:
  "\<forall>i \<in> set is. f i < 16 \<Longrightarrow>
    foldl (\<lambda>a c. a * 16 + digit_val c) acc (map (\<lambda>i. ''0123456789ABCDEF'' ! f i) is) =
    foldl (\<lambda>a i. a * 16 + f i) acc is"
  by (induction "is" arbitrary: acc) (auto simp: digit_val_hex)

lemma id_to_hex_read: "strtoul 16 (tl (id_to_hex n)) = ucast n"
proof -
  have lt: "nibble n i < 16" for i by (simp add: nibble_def)
  let ?s = "map (\<lambda>i. ''0123456789ABCDEF'' ! nibble n i) [0..<8]"
  have tl: "tl (id_to_hex n) = ?s" by (simp add: id_to_hex_def nibble_unat del: upt_rec_numeral)
  have "strto 16 (?s @ []) = (False, digits_value 16 ?s, [])"
    using lt by (intro strto_hex) (auto simp: digit_val_hex simp del: upt_rec_numeral)
  moreover have "digits_value 16 ?s = unat n"
    using lt nibbles_value by (simp add: digits_value_def foldl_map_digits del: upt_rec_numeral)
  ultimately show ?thesis using unat_u32_less [of n] by (simp add: strtoul_def tl del: upt_rec_numeral)
qed

text \<open>
  The textual addresses the commands return can be read back: for any handle, both the form of
  REG, QUERY and MONITOR (a colon and \<open>%x\<close>) and that of LAUNCH (a colon and eight digits) are
  converted by \<open>tohandle\<close> and by \<open>skynet_queryname\<close> to the handle itself, changing nothing.
\<close>

theorem address_roundtrip:
  "a \<in> {CHR '':'' # fmt_x h, id_to_hex h} \<Longrightarrow>
     tohandle M p a k = Some (h, k) \<and> skynet_queryname M p a k = Some (h, k)"
proof -
  have "hd (id_to_hex h) = CHR '':''" "id_to_hex h \<noteq> []" by (simp_all add: id_to_hex_def)
  moreover have "(ucast (ucast h :: u64) :: u32) = h" by (intro bit_word_eqI) (auto simp: bit_simps)
  moreover assume "a \<in> {CHR '':'' # fmt_x h, id_to_hex h}"
  ultimately show ?thesis
    using strtoul_fmt_x [of h] id_to_hex_read [of h] by (auto simp: tohandle_def skynet_queryname_def)
qed

theorem address_roundtrip_witness:
  "tohandle undefined 10 (id_to_hex 0x0100000A) kernel_ex = Some (0x0100000A, kernel_ex) \<and>
   skynet_queryname undefined 10 (id_to_hex 0x0100000A) kernel_ex = Some (0x0100000A, kernel_ex)"
  by (rule address_roundtrip) simp

end
