(* ===== verification/Des.thy ===== *)
theory Des
  imports Cstr
begin

text \<open>
  The DES block cipher of \<open>lualib-src/lua-crypt.c\<close>, its two padding schemes and the \<open>desencode\<close> and
  \<open>desdecode\<close> functions of \<open>skynet.crypt\<close>. Byte strings are lists of bytes; a Lua error is \<open>Inl\<close> of
  its message.
\<close>

unbundle bit_operations_syntax

section \<open>The tables\<close>

definition SB1 :: "u32 list" where
  "SB1 =
     [0x01010400, 0x00000000, 0x00010000, 0x01010404, 0x01010004, 0x00010404,
      0x00000004, 0x00010000, 0x00000400, 0x01010400, 0x01010404, 0x00000400,
      0x01000404, 0x01010004, 0x01000000, 0x00000004, 0x00000404, 0x01000400,
      0x01000400, 0x00010400, 0x00010400, 0x01010000, 0x01010000, 0x01000404,
      0x00010004, 0x01000004, 0x01000004, 0x00010004, 0x00000000, 0x00000404,
      0x00010404, 0x01000000, 0x00010000, 0x01010404, 0x00000004, 0x01010000,
      0x01010400, 0x01000000, 0x01000000, 0x00000400, 0x01010004, 0x00010000,
      0x00010400, 0x01000004, 0x00000400, 0x00000004, 0x01000404, 0x00010404,
      0x01010404, 0x00010004, 0x01010000, 0x01000404, 0x01000004, 0x00000404,
      0x00010404, 0x01010400, 0x00000404, 0x01000400, 0x01000400, 0x00000000,
      0x00010004, 0x00010400, 0x00000000, 0x01010004]"

definition SB2 :: "u32 list" where
  "SB2 =
     [0x80108020, 0x80008000, 0x00008000, 0x00108020, 0x00100000, 0x00000020,
      0x80100020, 0x80008020, 0x80000020, 0x80108020, 0x80108000, 0x80000000,
      0x80008000, 0x00100000, 0x00000020, 0x80100020, 0x00108000, 0x00100020,
      0x80008020, 0x00000000, 0x80000000, 0x00008000, 0x00108020, 0x80100000,
      0x00100020, 0x80000020, 0x00000000, 0x00108000, 0x00008020, 0x80108000,
      0x80100000, 0x00008020, 0x00000000, 0x00108020, 0x80100020, 0x00100000,
      0x80008020, 0x80100000, 0x80108000, 0x00008000, 0x80100000, 0x80008000,
      0x00000020, 0x80108020, 0x00108020, 0x00000020, 0x00008000, 0x80000000,
      0x00008020, 0x80108000, 0x00100000, 0x80000020, 0x00100020, 0x80008020,
      0x80000020, 0x00100020, 0x00108000, 0x00000000, 0x80008000, 0x00008020,
      0x80000000, 0x80100020, 0x80108020, 0x00108000]"

definition SB3 :: "u32 list" where
  "SB3 =
     [0x00000208, 0x08020200, 0x00000000, 0x08020008, 0x08000200, 0x00000000,
      0x00020208, 0x08000200, 0x00020008, 0x08000008, 0x08000008, 0x00020000,
      0x08020208, 0x00020008, 0x08020000, 0x00000208, 0x08000000, 0x00000008,
      0x08020200, 0x00000200, 0x00020200, 0x08020000, 0x08020008, 0x00020208,
      0x08000208, 0x00020200, 0x00020000, 0x08000208, 0x00000008, 0x08020208,
      0x00000200, 0x08000000, 0x08020200, 0x08000000, 0x00020008, 0x00000208,
      0x00020000, 0x08020200, 0x08000200, 0x00000000, 0x00000200, 0x00020008,
      0x08020208, 0x08000200, 0x08000008, 0x00000200, 0x00000000, 0x08020008,
      0x08000208, 0x00020000, 0x08000000, 0x08020208, 0x00000008, 0x00020208,
      0x00020200, 0x08000008, 0x08020000, 0x08000208, 0x00000208, 0x08020000,
      0x00020208, 0x00000008, 0x08020008, 0x00020200]"

definition SB4 :: "u32 list" where
  "SB4 =
     [0x00802001, 0x00002081, 0x00002081, 0x00000080, 0x00802080, 0x00800081,
      0x00800001, 0x00002001, 0x00000000, 0x00802000, 0x00802000, 0x00802081,
      0x00000081, 0x00000000, 0x00800080, 0x00800001, 0x00000001, 0x00002000,
      0x00800000, 0x00802001, 0x00000080, 0x00800000, 0x00002001, 0x00002080,
      0x00800081, 0x00000001, 0x00002080, 0x00800080, 0x00002000, 0x00802080,
      0x00802081, 0x00000081, 0x00800080, 0x00800001, 0x00802000, 0x00802081,
      0x00000081, 0x00000000, 0x00000000, 0x00802000, 0x00002080, 0x00800080,
      0x00800081, 0x00000001, 0x00802001, 0x00002081, 0x00002081, 0x00000080,
      0x00802081, 0x00000081, 0x00000001, 0x00002000, 0x00800001, 0x00002001,
      0x00802080, 0x00800081, 0x00002001, 0x00002080, 0x00800000, 0x00802001,
      0x00000080, 0x00800000, 0x00002000, 0x00802080]"

definition SB5 :: "u32 list" where
  "SB5 =
     [0x00000100, 0x02080100, 0x02080000, 0x42000100, 0x00080000, 0x00000100,
      0x40000000, 0x02080000, 0x40080100, 0x00080000, 0x02000100, 0x40080100,
      0x42000100, 0x42080000, 0x00080100, 0x40000000, 0x02000000, 0x40080000,
      0x40080000, 0x00000000, 0x40000100, 0x42080100, 0x42080100, 0x02000100,
      0x42080000, 0x40000100, 0x00000000, 0x42000000, 0x02080100, 0x02000000,
      0x42000000, 0x00080100, 0x00080000, 0x42000100, 0x00000100, 0x02000000,
      0x40000000, 0x02080000, 0x42000100, 0x40080100, 0x02000100, 0x40000000,
      0x42080000, 0x02080100, 0x40080100, 0x00000100, 0x02000000, 0x42080000,
      0x42080100, 0x00080100, 0x42000000, 0x42080100, 0x02080000, 0x00000000,
      0x40080000, 0x42000000, 0x00080100, 0x02000100, 0x40000100, 0x00080000,
      0x00000000, 0x40080000, 0x02080100, 0x40000100]"

definition SB6 :: "u32 list" where
  "SB6 =
     [0x20000010, 0x20400000, 0x00004000, 0x20404010, 0x20400000, 0x00000010,
      0x20404010, 0x00400000, 0x20004000, 0x00404010, 0x00400000, 0x20000010,
      0x00400010, 0x20004000, 0x20000000, 0x00004010, 0x00000000, 0x00400010,
      0x20004010, 0x00004000, 0x00404000, 0x20004010, 0x00000010, 0x20400010,
      0x20400010, 0x00000000, 0x00404010, 0x20404000, 0x00004010, 0x00404000,
      0x20404000, 0x20000000, 0x20004000, 0x00000010, 0x20400010, 0x00404000,
      0x20404010, 0x00400000, 0x00004010, 0x20000010, 0x00400000, 0x20004000,
      0x20000000, 0x00004010, 0x20000010, 0x20404010, 0x00404000, 0x20400000,
      0x00404010, 0x20404000, 0x00000000, 0x20400010, 0x00000010, 0x00004000,
      0x20400000, 0x00404010, 0x00004000, 0x00400010, 0x20004010, 0x00000000,
      0x20404000, 0x20000000, 0x00400010, 0x20004010]"

definition SB7 :: "u32 list" where
  "SB7 =
     [0x00200000, 0x04200002, 0x04000802, 0x00000000, 0x00000800, 0x04000802,
      0x00200802, 0x04200800, 0x04200802, 0x00200000, 0x00000000, 0x04000002,
      0x00000002, 0x04000000, 0x04200002, 0x00000802, 0x04000800, 0x00200802,
      0x00200002, 0x04000800, 0x04000002, 0x04200000, 0x04200800, 0x00200002,
      0x04200000, 0x00000800, 0x00000802, 0x04200802, 0x00200800, 0x00000002,
      0x04000000, 0x00200800, 0x04000000, 0x00200800, 0x00200000, 0x04000802,
      0x04000802, 0x04200002, 0x04200002, 0x00000002, 0x00200002, 0x04000000,
      0x04000800, 0x00200000, 0x04200800, 0x00000802, 0x00200802, 0x04200800,
      0x00000802, 0x04000002, 0x04200802, 0x04200000, 0x00200800, 0x00000000,
      0x00000002, 0x04200802, 0x00000000, 0x00200802, 0x04200000, 0x00000800,
      0x04000002, 0x04000800, 0x00000800, 0x00200002]"

definition SB8 :: "u32 list" where
  "SB8 =
     [0x10001040, 0x00001000, 0x00040000, 0x10041040, 0x10000000, 0x10001040,
      0x00000040, 0x10000000, 0x00040040, 0x10040000, 0x10041040, 0x00041000,
      0x10041000, 0x00041040, 0x00001000, 0x00000040, 0x10040000, 0x10000040,
      0x10001000, 0x00001040, 0x00041000, 0x00040040, 0x10040040, 0x10041000,
      0x00001040, 0x00000000, 0x00000000, 0x10040040, 0x10000040, 0x10001000,
      0x00041040, 0x00040000, 0x00041040, 0x00040000, 0x10041000, 0x00001000,
      0x00000040, 0x10040040, 0x00001000, 0x00041040, 0x10001000, 0x00000040,
      0x10000040, 0x10040000, 0x10040040, 0x10000000, 0x00040000, 0x10001040,
      0x00000000, 0x10041040, 0x00040040, 0x10000040, 0x10040000, 0x10001000,
      0x10001040, 0x00000000, 0x10041040, 0x00041000, 0x00041000, 0x00001040,
      0x00001040, 0x00040040, 0x10000000, 0x10041000]"

definition LHs :: "u32 list" where
  "LHs =
     [0x00000000, 0x00000001, 0x00000100, 0x00000101, 0x00010000, 0x00010001,
      0x00010100, 0x00010101, 0x01000000, 0x01000001, 0x01000100, 0x01000101,
      0x01010000, 0x01010001, 0x01010100, 0x01010101]"

definition RHs :: "u32 list" where
  "RHs =
     [0x00000000, 0x01000000, 0x00010000, 0x01010000, 0x00000100, 0x01000100,
      0x00010100, 0x01010100, 0x00000001, 0x01000001, 0x00010001, 0x01010001,
      0x00000101, 0x01000101, 0x00010101, 0x01010101]"

section \<open>The block cipher\<close>

definition get_uint32 :: "bytes \<Rightarrow> nat \<Rightarrow> u32" where
  "get_uint32 b i =
     push_bit 24 (ucast (b ! i)) OR push_bit 16 (ucast (b ! (i + 1)))
     OR push_bit 8 (ucast (b ! (i + 2))) OR ucast (b ! (i + 3))"

definition put_uint32 :: "u32 \<Rightarrow> bytes" where
  "put_uint32 n = [ucast (drop_bit 24 n), ucast (drop_bit 16 n), ucast (drop_bit 8 n), ucast n]"

text \<open>A step \<open>T = ((X >> n) ^ Y) & m; Y ^= T; X ^= (T << n)\<close> of the permutations.\<close>

definition delta :: "nat \<Rightarrow> u32 \<Rightarrow> u32 \<times> u32 \<Rightarrow> u32 \<times> u32" where
  "delta n m = (\<lambda>(X, Y). let T = (drop_bit n X XOR Y) AND m in (X XOR push_bit n T, Y XOR T))"

definition rotl32 :: "nat \<Rightarrow> u32 \<Rightarrow> u32" where
  "rotl32 n X = push_bit n X OR drop_bit (32 - n) X"

definition DES_IP :: "u32 \<times> u32 \<Rightarrow> u32 \<times> u32" where
  "DES_IP XY =
     (let (X, Y) = delta 4 0x0F0F0F0F XY;
          (X, Y) = delta 16 0x0000FFFF (X, Y);
          (Y, X) = delta 2 0x33333333 (Y, X);
          (Y, X) = delta 8 0x00FF00FF (Y, X);
          Y = rotl32 1 Y;
          T = (X XOR Y) AND 0xAAAAAAAA;
          Y = Y XOR T;
          X = X XOR T;
          X = rotl32 1 X
      in (X, Y))"

definition DES_FP :: "u32 \<times> u32 \<Rightarrow> u32 \<times> u32" where
  "DES_FP XY =
     (let (X, Y) = XY;
          X = rotl32 31 X;
          T = (X XOR Y) AND 0xAAAAAAAA;
          X = X XOR T;
          Y = Y XOR T;
          Y = rotl32 31 Y;
          (Y, X) = delta 8 0x00FF00FF (Y, X);
          (Y, X) = delta 2 0x33333333 (Y, X);
          (X, Y) = delta 16 0x0000FFFF (X, Y);
          (X, Y) = delta 4 0x0F0F0F0F (X, Y)
      in (X, Y))"

definition sbox :: "u32 list \<Rightarrow> u32 \<Rightarrow> nat \<Rightarrow> u32" where
  "sbox SB T n = SB ! unat (drop_bit n T AND 0x3F)"

text \<open>\<open>DES_ROUND(X,Y)\<close> with two subkeys: the new value of \<open>Y\<close>.\<close>

definition DES_ROUND :: "u32 \<times> u32 \<Rightarrow> u32 \<Rightarrow> u32 \<Rightarrow> u32" where
  "DES_ROUND SK X Y =
     (let T = fst SK XOR X;
          Y = Y XOR (sbox SB8 T 0 XOR sbox SB6 T 8 XOR sbox SB4 T 16 XOR sbox SB2 T 24);
          T = snd SK XOR (push_bit 28 X OR drop_bit 4 X);
          Y = Y XOR (sbox SB7 T 0 XOR sbox SB5 T 8 XOR sbox SB3 T 16 XOR sbox SB1 T 24)
      in Y)"

fun des_rounds :: "(u32 \<times> u32) list \<Rightarrow> u32 \<times> u32 \<Rightarrow> u32 \<times> u32" where
  "des_rounds (k1 # k2 # ks) (X, Y) =
     (let X = DES_ROUND k1 Y X; Y = DES_ROUND k2 X Y in des_rounds ks (X, Y))"
| "des_rounds _ XY = XY"

definition subkey1 :: "u32 \<Rightarrow> u32 \<Rightarrow> u32" where
  "subkey1 X Y =
        (push_bit 4 X AND 0x24000000) OR (push_bit 28 X AND 0x10000000)
        OR (push_bit 14 X AND 0x08000000) OR (push_bit 18 X AND 0x02080000)
        OR (push_bit 6 X AND 0x01000000) OR (push_bit 9 X AND 0x00200000)
        OR (drop_bit 1 X AND 0x00100000) OR (push_bit 10 X AND 0x00040000)
        OR (push_bit 2 X AND 0x00020000) OR (drop_bit 10 X AND 0x00010000)
        OR (drop_bit 13 Y AND 0x00002000) OR (drop_bit 4 Y AND 0x00001000)
        OR (push_bit 6 Y AND 0x00000800) OR (drop_bit 1 Y AND 0x00000400)
        OR (drop_bit 14 Y AND 0x00000200) OR (Y AND 0x00000100)
        OR (drop_bit 5 Y AND 0x00000020) OR (drop_bit 10 Y AND 0x00000010)
        OR (drop_bit 3 Y AND 0x00000008) OR (drop_bit 18 Y AND 0x00000004)
        OR (drop_bit 26 Y AND 0x00000002) OR (drop_bit 24 Y AND 0x00000001)"

definition subkey2 :: "u32 \<Rightarrow> u32 \<Rightarrow> u32" where
  "subkey2 X Y =
        (push_bit 15 X AND 0x20000000) OR (push_bit 17 X AND 0x10000000)
        OR (push_bit 10 X AND 0x08000000) OR (push_bit 22 X AND 0x04000000)
        OR (drop_bit 2 X AND 0x02000000) OR (push_bit 1 X AND 0x01000000)
        OR (push_bit 16 X AND 0x00200000) OR (push_bit 11 X AND 0x00100000)
        OR (push_bit 3 X AND 0x00080000) OR (drop_bit 6 X AND 0x00040000)
        OR (push_bit 15 X AND 0x00020000) OR (drop_bit 4 X AND 0x00010000)
        OR (drop_bit 2 Y AND 0x00002000) OR (push_bit 8 Y AND 0x00001000)
        OR (drop_bit 14 Y AND 0x00000808) OR (drop_bit 9 Y AND 0x00000400)
        OR (Y AND 0x00000200) OR (push_bit 7 Y AND 0x00000100)
        OR (drop_bit 7 Y AND 0x00000020) OR (drop_bit 3 Y AND 0x00000011)
        OR (push_bit 2 Y AND 0x00000004) OR (drop_bit 21 Y AND 0x00000002)"

definition half :: "nat \<Rightarrow> u32 \<Rightarrow> nat \<Rightarrow> u32" where
  "half n X sh = (push_bit n X OR drop_bit sh X) AND 0x0FFFFFFF"

text \<open>Permuted choice 1 of \<open>des_main_ks\<close>.\<close>

definition PC1 :: "bytes \<Rightarrow> u32 \<times> u32" where
  "PC1 key =
     (let X = get_uint32 key 0;
          Y = get_uint32 key 4;
          (Y, X) = delta 4 0x0F0F0F0F (Y, X);
          (Y, X) = delta 0 0x10101010 (Y, X);
          l = (\<lambda>n. LHs ! unat (drop_bit n X AND 0xF));
          r = (\<lambda>n. RHs ! unat (drop_bit n Y AND 0xF));
          X = push_bit 3 (l 0) OR push_bit 2 (l 8) OR push_bit 1 (l 16) OR l 24
              OR push_bit 7 (l 5) OR push_bit 6 (l 13) OR push_bit 5 (l 21) OR push_bit 4 (l 29);
          Y = push_bit 3 (r 1) OR push_bit 2 (r 9) OR push_bit 1 (r 17) OR r 25
              OR push_bit 7 (r 4) OR push_bit 6 (r 12) OR push_bit 5 (r 20) OR push_bit 4 (r 28)
      in (X AND 0x0FFFFFFF, Y AND 0x0FFFFFFF))"

fun subkeys :: "nat list \<Rightarrow> u32 \<times> u32 \<Rightarrow> u32 list" where
  "subkeys [] XY = []"
| "subkeys (i # is) (X, Y) =
     (let (X, Y) = (if i < 2 \<or> i = 8 \<or> i = 15 then (half 1 X 27, half 1 Y 27)
                    else (half 2 X 26, half 2 Y 26))
      in subkey1 X Y # subkey2 X Y # subkeys is (X, Y))"

definition des_main_ks :: "bytes \<Rightarrow> u32 list" where
  "des_main_ks key = subkeys [0..<16] (PC1 key)"

text \<open>The subkeys in the order in which \<open>*SK++\<close> reads them.\<close>

definition key_pairs :: "u32 list \<Rightarrow> (u32 \<times> u32) list" where
  "key_pairs SK = map (\<lambda>i. (SK ! (2 * i), SK ! (2 * i + 1))) [0..<16]"

definition des_crypt :: "u32 list \<Rightarrow> bytes \<Rightarrow> bytes" where
  "des_crypt SK input =
     (let X = get_uint32 input 0;
          Y = get_uint32 input 4;
          (X, Y) = DES_IP (X, Y);
          (X, Y) = des_rounds (key_pairs SK) (X, Y);
          (Y, X) = DES_FP (Y, X)
      in put_uint32 Y @ put_uint32 X)"

section \<open>Padding\<close>

definition PADDING_MODE_ISO7816_4 :: int where "PADDING_MODE_ISO7816_4 = 0"
definition PADDING_MODE_PKCS7 :: int where "PADDING_MODE_PKCS7 = 1"
definition PADDING_MODE_COUNT :: int where "PADDING_MODE_COUNT = 2"

text \<open>
  The padding functions complete a block of which the first \<open>offset\<close> bytes are given. Their inverses
  read backwards from the last byte of the buffer, here from the head of the reversed buffer, and
  return the number of bytes to drop, 0 when invalid; \<open>None\<close> is a read before the buffer.
\<close>

definition padding_add_iso7816_4 :: "bytes \<Rightarrow> bytes" where
  "padding_add_iso7816_4 buf = buf @ 0x80 # replicate (7 - length buf) 0"

fun iso_loop :: "nat \<Rightarrow> nat \<Rightarrow> bytes \<Rightarrow> nat option" where
  "iso_loop 0 padding lst = Some 0"
| "iso_loop (Suc n) padding [] = None"
| "iso_loop (Suc n) padding (b # lst) =
     (if b = 0 then iso_loop n (padding + 1) lst
      else if b = 0x80 then Some padding else Some 0)"

definition padding_remove_iso7816_4 :: "bytes \<Rightarrow> nat option" where
  "padding_remove_iso7816_4 lst = iso_loop 8 1 lst"

definition padding_add_pkcs7 :: "bytes \<Rightarrow> bytes" where
  "padding_add_pkcs7 buf = buf @ replicate (8 - length buf) (of_nat (8 - length buf))"

fun pkcs7_loop :: "nat \<Rightarrow> u8 \<Rightarrow> bytes \<Rightarrow> nat option" where
  "pkcs7_loop 0 padding lst = Some (unat padding)"
| "pkcs7_loop (Suc n) padding [] = None"
| "pkcs7_loop (Suc n) padding (b # lst) =
     (if b \<noteq> padding then Some 0 else pkcs7_loop n padding lst)"

definition padding_remove_pkcs7 :: "bytes \<Rightarrow> nat option" where
  "padding_remove_pkcs7 lst =
     (case lst of [] \<Rightarrow> None | padding # rest \<Rightarrow> pkcs7_loop (unat padding - 1) padding rest)"

definition check_padding_mode :: "int \<Rightarrow> string + unit" where
  "check_padding_mode mode =
     (if mode < 0 \<or> mode \<ge> PADDING_MODE_COUNT then Inl (''Invalid padding mode '' @ fmt_d mode) else Inr ())"

definition add_padding :: "bytes \<Rightarrow> int \<Rightarrow> string + bytes" where
  "add_padding src mode =
     (case check_padding_mode mode of Inl e \<Rightarrow> Inl e
      | Inr _ \<Rightarrow>
          if length src \<ge> 8 then Inl ''Invalid padding''
          else Inr ((if mode = PADDING_MODE_ISO7816_4 then padding_add_iso7816_4 else padding_add_pkcs7) src))"

definition remove_padding :: "bytes \<Rightarrow> int \<Rightarrow> (string + nat) option" where
  "remove_padding lst mode =
     (case check_padding_mode mode of Inl e \<Rightarrow> Some (Inl e)
      | Inr _ \<Rightarrow> map_option Inr
          ((if mode = PADDING_MODE_ISO7816_4 then padding_remove_iso7816_4 else padding_remove_pkcs7) lst))"

section \<open>desencode and desdecode\<close>

definition des_key :: "bytes \<Rightarrow> string + u32 list" where
  "des_key key =
     (if length key \<noteq> 8 then Inl (''Invalid key size '' @ fmt_d (int (length key)) @ '', need 8 bytes'')
      else Inr (des_main_ks key))"

text \<open>The loops over the whole blocks of a text.\<close>

fun ecb :: "(bytes \<Rightarrow> bytes) \<Rightarrow> bytes \<Rightarrow> bytes" where
  "ecb crypt text = (if length text < 8 then [] else crypt (take 8 text) @ ecb crypt (drop 8 text))"

declare ecb.simps [simp del]

definition whole_blocks :: "bytes \<Rightarrow> nat" where
  "whole_blocks text = length text div 8 * 8"

definition ldesencode :: "bytes \<Rightarrow> bytes \<Rightarrow> int \<Rightarrow> string + bytes" where
  "ldesencode key text padding_mode =
     (case des_key key of Inl e \<Rightarrow> Inl e
      | Inr SK \<Rightarrow>
          let buffer = ecb (des_crypt SK) text in
          case add_padding (drop (whole_blocks text) text) padding_mode of Inl e \<Rightarrow> Inl e
          | Inr tail \<Rightarrow> Inr (buffer @ des_crypt SK tail))"

definition reverse_keys :: "u32 list \<Rightarrow> u32 list" where
  "reverse_keys ESK = map (\<lambda>i. if even i then ESK ! (30 - i) else ESK ! (31 - (i - 1))) [0..<32]"

definition ldesdecode :: "bytes \<Rightarrow> bytes \<Rightarrow> int \<Rightarrow> (string + bytes) option" where
  "ldesdecode key text padding_mode =
     (case des_key key of Inl e \<Rightarrow> Some (Inl e)
      | Inr ESK \<Rightarrow>
          if length text mod 8 \<noteq> 0 \<or> text = [] then
            Some (Inl (''Invalid des crypt text length '' @ fmt_d (int (length text))))
          else
            let buffer = ecb (des_crypt (reverse_keys ESK)) text in
            case remove_padding (rev buffer) padding_mode of
              None \<Rightarrow> None
            | Some (Inl e) \<Rightarrow> Some (Inl e)
            | Some (Inr padding) \<Rightarrow>
                if padding = 0 \<or> padding > 8 then Some (Inl ''Invalid des crypt text'')
                else Some (Inr (take (length text - padding) buffer)))"

section \<open>Decryption inverts encryption\<close>

lemma push_drop_mask:
  fixes a m :: u32
  assumes "drop_bit n (push_bit n m) = m"
  shows "drop_bit n (push_bit n (a AND m)) = a AND m"
proof (rule bit_word_eqI)
  fix i assume i: "i < LENGTH(32)"
  have "bit (drop_bit n (push_bit n m)) i = bit m i" by (simp only: assms)
  with i show "bit (drop_bit n (push_bit n (a AND m))) i = bit (a AND m) i" by (auto simp: bit_simps)
qed

lemma drop_bit_xor: "drop_bit n (a XOR b) = drop_bit n a XOR drop_bit n b" for a b :: u32
  by (rule bit_word_eqI) (auto simp: bit_simps)

lemma xor_cancel: "(a XOR t) XOR (b XOR t) = a XOR b" "(a XOR t) XOR t = a" for a b t :: u32
  by (rule bit_word_eqI, auto simp: bit_simps)+

text \<open>Each step of the permutations is its own inverse.\<close>

lemma delta_delta:
  assumes "drop_bit n (push_bit n m) = m"
  shows "delta n m (delta n m XY) = XY"
proof -
  obtain X Y where XY: "XY = (X, Y)" by (cases XY)
  define T where "T = (drop_bit n X XOR Y) AND m"
  have p: "drop_bit n (push_bit n T) = T" unfolding T_def by (rule push_drop_mask [OF assms])
  have "(drop_bit n (X XOR push_bit n T) XOR (Y XOR T)) AND m = (drop_bit n X XOR Y) AND m"
    by (simp only: drop_bit_xor p xor_cancel)
  then have T': "(drop_bit n (X XOR push_bit n T) XOR (Y XOR T)) AND m = T" by (simp only: T_def)
  have "delta n m (X, Y) = (X XOR push_bit n T, Y XOR T)"
    by (simp only: delta_def prod.case Let_def T_def)
  moreover have "delta n m (X XOR push_bit n T, Y XOR T) = (X, Y)"
    by (simp only: delta_def prod.case Let_def T' xor_cancel)
  ultimately show ?thesis by (simp only: XY)
qed

lemma delta_inverses [simp]:
  "delta 4 0x0F0F0F0F (delta 4 0x0F0F0F0F XY) = XY" "delta 16 0x0000FFFF (delta 16 0x0000FFFF XY) = XY"
  "delta 2 0x33333333 (delta 2 0x33333333 XY) = XY" "delta 8 0x00FF00FF (delta 8 0x00FF00FF XY) = XY"
  by (rule delta_delta, code_simp)+

lemma bit_rotl32:
  "n \<le> 32 \<Longrightarrow> bit (rotl32 n X) i \<longleftrightarrow> i < 32 \<and> (n \<le> i \<and> bit X (i - n) \<or> bit X (32 - n + i))"
  by (auto simp: rotl32_def bit_simps dest: bit_imp_le_length)

lemma rotl32_rotl32: "n \<le> 32 \<Longrightarrow> rotl32 (32 - n) (rotl32 n X) = X"
  by (rule bit_word_eqI) (auto simp: bit_rotl32 dest: bit_imp_le_length)

lemma rotl32_inverse [simp]: "rotl32 1 (rotl32 31 X) = X" "rotl32 31 (rotl32 1 X) = X"
  using rotl32_rotl32 [of 31 X] rotl32_rotl32 [of 1 X] by simp_all

lemma xor_swap: "((X XOR (X XOR Y) AND m) XOR (Y XOR (X XOR Y) AND m)) AND m = (X XOR Y) AND m" for X Y m :: u32
  by (rule bit_word_eqI) (auto simp: bit_simps)

lemma DES_IP_FP: "DES_IP (DES_FP XY) = XY" "DES_FP (DES_IP XY) = XY"
proof -
  show "DES_IP (DES_FP XY) = XY"
    by (cases XY)
      (simp add: DES_IP_def DES_FP_def Let_def xor_swap xor_cancel split_beta del: One_nat_def)
  show "DES_FP (DES_IP XY) = XY"
    by (cases XY)
      (simp add: DES_IP_def DES_FP_def Let_def xor_swap xor_cancel split_beta del: One_nat_def)
qed

section \<open>The Feistel network\<close>

lemma DES_ROUND_twice: "DES_ROUND k X (DES_ROUND k X Y) = Y"
proof -
  have "DES_ROUND k X Y = Y XOR DES_ROUND k X 0" for Y
    by (simp only: DES_ROUND_def Let_def xor.left_neutral xor.assoc)
  then show ?thesis by (metis xor.assoc xor.right_neutral xor_self_eq)
qed

lemma des_rounds_append:
  "even (length ks) \<Longrightarrow> des_rounds (ks @ ls) XY = des_rounds ls (des_rounds ks XY)"
  by (induction ks XY rule: des_rounds.induct) (auto simp: Let_def)

text \<open>The same rounds with the keys in the opposite order undo them, on the swapped halves.\<close>

lemma des_rounds_rev:
  "even (length ks) \<Longrightarrow> des_rounds ks (X, Y) = (X', Y') \<Longrightarrow> des_rounds (rev ks) (Y', X') = (Y, X)"
proof (induction ks "(X, Y)" arbitrary: X Y rule: des_rounds.induct)
  case (1 k1 k2 ks X Y)
  let ?X = "DES_ROUND k1 Y X" let ?Y = "DES_ROUND k2 ?X Y"
  have "des_rounds ks (?X, ?Y) = (X', Y')" using 1 by (simp add: Let_def)
  then have "des_rounds (rev ks) (Y', X') = (?Y, ?X)" using 1 by simp
  then show ?case using 1 by (simp add: des_rounds_append Let_def DES_ROUND_twice)
qed auto

lemma get_uint32_le: "get_uint32 b i = of_le32 (b ! (i + 3)) (b ! (i + 2)) (b ! (i + 1)) (b ! i)"
  by (simp only: get_uint32_def of_le32_def or.commute or.left_commute or.assoc)

lemma get_put_uint32:
  "get_uint32 (put_uint32 n @ bs) 0 = n" "get_uint32 (put_uint32 n @ put_uint32 m) 4 = m"
  unfolding get_uint32_le put_uint32_def by (simp_all add: of_le32_le32)

lemma put_get_uint32: "i + 4 \<le> length b \<Longrightarrow> put_uint32 (get_uint32 b i) = take 4 (drop i b)"
proof -
  assume l: "i + 4 \<le> length b"
  have "take 4 (drop i b) = [b ! i, b ! (i + 1), b ! (i + 2), b ! (i + 3)]"
    using l by (intro nth_equalityI) (auto simp: less_Suc_eq numeral_eq_Suc)
  then show ?thesis by (simp add: put_uint32_def ucast_of_le32 get_uint32_le)
qed

lemma length_des_crypt [simp]: "length (des_crypt SK b) = 8"
  by (simp add: des_crypt_def put_uint32_def Let_def split: prod.splits)

lemma length_key_pairs [simp]: "length (key_pairs SK) = 16"
  by (simp add: key_pairs_def)

lemma key_pairs_reverse: "key_pairs (reverse_keys ESK) = rev (key_pairs ESK)"
proof (rule nth_equalityI)
  fix i assume "i < length (key_pairs (reverse_keys ESK))"
  then have i: "i < 16" by simp
  then have "31 - 2 * i = Suc (30 - 2 * i)" "30 - 2 * i = 2 * (15 - i)" by auto
  moreover have "[0..<16] ! (15 - i) = 15 - i" using nth_upt [of 0 "15 - i" 16] i by simp
  ultimately show "key_pairs (reverse_keys ESK) ! i = rev (key_pairs ESK) ! i"
    using i by (simp add: key_pairs_def reverse_keys_def rev_nth del: upt_rec_numeral upt_Suc)
qed simp

text \<open>A block encrypted with a key schedule is decrypted with the reversed one.\<close>

lemma des_crypt_inverse:
  assumes "length b = 8"
  shows "des_crypt (reverse_keys SK) (des_crypt SK b) = b"
proof -
  let ?L = "get_uint32 b 0" and ?R = "get_uint32 b 4"
  obtain X Y where ip: "DES_IP (?L, ?R) = (X, Y)" by (cases "DES_IP (?L, ?R)")
  obtain X' Y' where r: "des_rounds (key_pairs SK) (X, Y) = (X', Y')"
    by (cases "des_rounds (key_pairs SK) (X, Y)")
  obtain P Q where fp: "DES_FP (Y', X') = (P, Q)" by (cases "DES_FP (Y', X')")
  have "DES_IP (P, Q) = (Y', X')" using DES_IP_FP(1) [of "(Y', X')"] fp by simp
  moreover have "des_rounds (rev (key_pairs SK)) (Y', X') = (Y, X)" using des_rounds_rev [OF _ r] by simp
  moreover have "DES_FP (X, Y) = (?L, ?R)" using DES_IP_FP(2) [of "(?L, ?R)"] ip by simp
  moreover have "des_crypt SK b = put_uint32 P @ put_uint32 Q"
    by (simp add: des_crypt_def ip r fp)
  ultimately have "des_crypt (reverse_keys SK) (des_crypt SK b) = put_uint32 ?L @ put_uint32 ?R"
    by (simp add: des_crypt_def get_put_uint32 key_pairs_reverse)
  then show ?thesis
    using put_get_uint32 [of 0 b] put_get_uint32 [of 4 b] assms by (simp add: append_take_drop_id)
qed

section \<open>The interfaces of a block cipher and of a padding scheme\<close>

locale block_cipher =
  fixes E :: "bytes \<Rightarrow> bytes" and D :: "bytes \<Rightarrow> bytes"
  assumes length_E: "length b = 8 \<Longrightarrow> length (E b) = 8"
    and D_E: "length b = 8 \<Longrightarrow> D (E b) = b"
begin

lemma ecb_append: "length b = 8 \<Longrightarrow> ecb f (b @ t) = f b @ ecb f t"
  by (simp add: ecb.simps [of f "b @ t"])

lemma ecb_tail:
  assumes "length tail = 8"
  shows "ecb D (ecb E text @ E tail) = take (whole_blocks text) text @ tail \<and>
    length (ecb E text) = whole_blocks text"
proof (induction "length text" arbitrary: "text" rule: less_induct)
  case less
  show ?case
  proof (cases "length text < 8")
    case True
    then have "ecb E text = []" "whole_blocks text = 0"
      by (simp_all add: ecb.simps [of E "text"] whole_blocks_def)
    then show ?thesis
      using ecb_append [of "E tail" D "[]"] assms by (simp add: length_E D_E ecb.simps [of D "[]"])
  next
    case False
    define b t where bt: "b = take 8 text" "t = drop 8 text"
    then have b: "length b = 8" "text = b @ t" "length t < length text" using False by auto
    have "length text = 8 + length t" using b by simp
    then have w: "whole_blocks text = 8 + whole_blocks t"
      using div_add_self1 [of 8 "length t"] by (simp add: whole_blocks_def)
    have "ecb E text = E b @ ecb E t" using ecb_append [OF b(1)] b(2) by simp
    then show ?thesis
      using less [OF b(3)] ecb_append [of "E b" D "ecb E t @ E tail"] b w by (simp add: length_E D_E)
  qed
qed

end

locale padding_scheme =
  fixes add :: "bytes \<Rightarrow> bytes" and remove :: "bytes \<Rightarrow> nat option"
  assumes length_add: "length src < 8 \<Longrightarrow> length (add src) = 8"
    and take_add: "length src < 8 \<Longrightarrow> take (length src) (add src) = src"
    and remove_add: "length src < 8 \<Longrightarrow> remove (rev (t @ add src)) = Some (8 - length src)"

locale cipher_mode = block_cipher E D + padding_scheme add remove
  for E :: "bytes \<Rightarrow> bytes" and D :: "bytes \<Rightarrow> bytes"
    and add :: "bytes \<Rightarrow> bytes" and remove :: "bytes \<Rightarrow> nat option"
begin

text \<open>What decoding needs of the encoded text: its blocks, the padding found, and the text.\<close>

lemma decode_encode:
  defines "tail \<equiv> \<lambda>bs. drop (whole_blocks bs) bs"
  defines "c \<equiv> \<lambda>bs. ecb E bs @ E (add (tail bs))"
  shows "length (tail bs) < 8" "length (c bs) = whole_blocks bs + 8"
    "remove (rev (ecb D (c bs))) = Some (8 - length (tail bs))"
    "take (length (c bs) - (8 - length (tail bs))) (ecb D (c bs)) = bs"
proof -
  have wb: "whole_blocks bs \<le> length bs" "length bs < whole_blocks bs + 8"
    using mod_less_divisor [of 8 "length bs"] div_mult_mod_eq [of "length bs" 8]
    by (simp_all add: whole_blocks_def)
  then show t: "length (tail bs) < 8" by (simp add: tail_def)
  have e: "ecb D (c bs) = take (whole_blocks bs) bs @ add (tail bs)"
    "length (ecb E bs) = whole_blocks bs"
    using ecb_tail [OF length_add [OF t]] unfolding c_def by simp_all
  then show l: "length (c bs) = whole_blocks bs + 8"
    by (simp add: c_def length_E length_add [OF t])
  show "remove (rev (ecb D (c bs))) = Some (8 - length (tail bs))"
    unfolding e(1) by (rule remove_add [OF t])
  have "take (length (c bs) - (8 - length (tail bs))) (ecb D (c bs)) =
      take (whole_blocks bs) bs @ take (length (tail bs)) (add (tail bs))"
    using t wb unfolding e(1) l by (simp add: tail_def)
  then show "take (length (c bs) - (8 - length (tail bs))) (ecb D (c bs)) = bs"
    by (simp add: take_add [OF t]) (simp add: tail_def)
qed

end

lemma iso_loop_zeros: "k < n \<Longrightarrow> iso_loop n p (replicate k 0 @ 0x80 # r) = Some (p + k)"
proof (induction k arbitrary: n p)
  case 0
  then show ?case by (cases n) auto
next
  case (Suc k)
  then show ?case by (cases n) auto
qed

lemma pkcs7_loop_same: "pkcs7_loop n x (replicate n x @ r) = Some (unat x)"
  by (induction n) auto

interpretation iso7816_4: padding_scheme padding_add_iso7816_4 padding_remove_iso7816_4
proof
  fix src t :: bytes assume l: "length src < 8"
  then show "length (padding_add_iso7816_4 src) = 8" by (simp add: padding_add_iso7816_4_def)
  show "take (length src) (padding_add_iso7816_4 src) = src" by (simp add: padding_add_iso7816_4_def)
  show "padding_remove_iso7816_4 (rev (t @ padding_add_iso7816_4 src)) = Some (8 - length src)"
    using l iso_loop_zeros [of "7 - length src" 8 1 "rev src @ rev t"]
    by (simp add: padding_remove_iso7816_4_def padding_add_iso7816_4_def)
qed

interpretation pkcs7: padding_scheme padding_add_pkcs7 padding_remove_pkcs7
proof
  fix src t :: bytes assume l: "length src < 8"
  then show "length (padding_add_pkcs7 src) = 8" by (simp add: padding_add_pkcs7_def)
  show "take (length src) (padding_add_pkcs7 src) = src" by (simp add: padding_add_pkcs7_def)
  let ?x = "of_nat (8 - length src) :: u8"
  have x: "unat ?x = Suc (7 - length src)" using l by (simp add: unat_of_nat del: of_nat_diff)
  have "8 - length src = Suc (7 - length src)" using l by simp
  then have "rev (t @ padding_add_pkcs7 src) = ?x # replicate (7 - length src) ?x @ rev src @ rev t"
    by (simp add: padding_add_pkcs7_def replicate_append_same)
  then show "padding_remove_pkcs7 (rev (t @ padding_add_pkcs7 src)) = Some (8 - length src)"
    using l x by (simp add: padding_remove_pkcs7_def pkcs7_loop_same)
qed

interpretation des: block_cipher "des_crypt SK" "des_crypt (reverse_keys SK)" for SK
  by unfold_locales (simp_all add: des_crypt_inverse)

interpretation des_iso: cipher_mode "des_crypt SK" "des_crypt (reverse_keys SK)"
  padding_add_iso7816_4 padding_remove_iso7816_4 for SK ..

interpretation des_pkcs7: cipher_mode "des_crypt SK" "des_crypt (reverse_keys SK)"
  padding_add_pkcs7 padding_remove_pkcs7 for SK ..

section \<open>Properties\<close>

text \<open>
  C12. \<open>desdecode\<close> inverts \<open>desencode\<close>: with any 8-byte key, either padding scheme and any text, \<open>desencode\<close>
  returns the text padded to the next multiple of 8 bytes (at least one byte of padding) and
  encrypted, and \<open>desdecode\<close> with the same key and scheme returns the text; no read leaves a buffer.
\<close>

theorem des_roundtrip:
  assumes "length key = 8" "mode \<in> {PADDING_MODE_ISO7816_4, PADDING_MODE_PKCS7}"
  shows "\<exists>c. ldesencode key text mode = Inr c \<and> length c = whole_blocks text + 8 \<and>
    ldesdecode key c mode = Some (Inr text)"
proof -
  let ?SK = "des_main_ks key" and ?tail = "drop (whole_blocks text) text"
  define add where "add = (if mode = PADDING_MODE_ISO7816_4 then padding_add_iso7816_4 else padding_add_pkcs7)"
  define rem where "rem = (if mode = PADDING_MODE_ISO7816_4 then padding_remove_iso7816_4 else padding_remove_pkcs7)"
  define c where "c = ecb (des_crypt ?SK) text @ des_crypt ?SK (add ?tail)"
  let ?b = "ecb (des_crypt (reverse_keys ?SK)) c"
  have m: "check_padding_mode mode = Inr ()"
    using assms(2) by (auto simp: check_padding_mode_def PADDING_MODE_ISO7816_4_def PADDING_MODE_PKCS7_def PADDING_MODE_COUNT_def)
  have d: "length ?tail < 8" "length c = whole_blocks text + 8" "rem (rev ?b) = Some (8 - length ?tail)"
    "take (length c - (8 - length ?tail)) ?b = text"
    using des_iso.decode_encode(1) [where bs = "text"] des_iso.decode_encode(2-4) [where bs = "text" and SK = ?SK]
      des_pkcs7.decode_encode(2-4) [where bs = "text" and SK = ?SK]
    unfolding c_def add_def rem_def by (cases "mode = PADDING_MODE_ISO7816_4"; simp)+
  have "ldesencode key text mode = Inr c"
    using assms(1) m d(1) by (simp add: ldesencode_def des_key_def add_padding_def Let_def c_def add_def)
  moreover have "length c mod 8 = 0" "c \<noteq> []" using d(2) by (auto simp: whole_blocks_def)
  then have "ldesdecode key c mode = Some (Inr text)"
    using assms(1) m d(1,3,4) by (simp add: ldesdecode_def des_key_def remove_padding_def Let_def rem_def)
  ultimately show ?thesis using d(2) by blast
qed

theorem des_roundtrip_witness:
  "\<exists>c. ldesencode [1, 2, 3, 4, 5, 6, 7, 8] [9, 9, 9] PADDING_MODE_PKCS7 = Inr c \<and>
    length c = whole_blocks [9, 9, 9] + 8 \<and>
    ldesdecode [1, 2, 3, 4, 5, 6, 7, 8] c PADDING_MODE_PKCS7 = Some (Inr [9, 9, 9])"
  by (rule des_roundtrip) simp_all

text \<open>
  \<open>padding_remove_pkcs7\<close> trusts the last byte before its caller checks it: for every key there is
  a one-block text (the encryption of eight bytes 9) for which \<open>desdecode\<close> in PKCS7 mode reads before
  the start of its buffer.
\<close>

theorem pkcs7_reads_outside:
  assumes "length key = 8"
  shows "ldesdecode key (des_crypt (des_main_ks key) (replicate 8 9)) PADDING_MODE_PKCS7 = None"
proof -
  have "ecb f b = f b" if "length b = 8" for f :: "bytes \<Rightarrow> bytes" and b
    using that by (simp add: ecb.simps [of f b] ecb.simps [of f "[]"])
  then have "ecb (des_crypt (reverse_keys (des_main_ks key))) (des_crypt (des_main_ks key) (replicate 8 9)) =
      replicate 8 9" by (simp add: des_crypt_inverse)
  moreover have "padding_remove_pkcs7 (replicate 8 9) = None" by code_simp
  moreover have "des_crypt (des_main_ks key) (replicate 8 9) \<noteq> []"
    by (metis length_des_crypt list.size(3) zero_neq_numeral)
  ultimately show ?thesis
    using assms by (simp add: ldesdecode_def des_key_def remove_padding_def check_padding_mode_def
        PADDING_MODE_PKCS7_def PADDING_MODE_ISO7816_4_def PADDING_MODE_COUNT_def Let_def)
qed

theorem pkcs7_reads_outside_witness:
  "ldesdecode [1, 2, 3, 4, 5, 6, 7, 8] (des_crypt (des_main_ks [1, 2, 3, 4, 5, 6, 7, 8]) (replicate 8 9))
     PADDING_MODE_PKCS7 = None"
  by (rule pkcs7_reads_outside) simp

end
