(* ===== verification/Dh.thy ===== *)
theory Dh
  imports Prelude
begin

text \<open>
  The Diffie-Hellman exchange of \<open>lualib-src/lua-crypt.c\<close>: arithmetic modulo the prime \<open>P\<close> in 64 bits.
  A Lua error is \<open>Inl\<close> of its message.
\<close>

unbundle bit_operations_syntax

definition P :: u64 where
  "P = 0xffffffffffffffc5"

definition dh_G :: u64 where
  "dh_G = 5"

text \<open>The loop of \<open>mul_mod_p\<close>, which returns \<open>m\<close>.\<close>

function mul_loop :: "u64 \<Rightarrow> u64 \<Rightarrow> u64 \<Rightarrow> u64" where
  "mul_loop m a b =
     (if b = 0 then m
      else
        let m = (if b AND 1 \<noteq> 0 then let t = P - a in (if m \<ge> t then m - t else m + a) else m);
            a = (if a \<ge> P - a then a * 2 - P else a * 2)
        in mul_loop m a (drop_bit 1 b))"
  by pat_completeness auto
termination
proof (relation "measure (\<lambda>(m, a, b). unat b)")
  fix m a b :: u64 and m' a' :: u64
  assume "b \<noteq> 0"
  then have "unat b div 2 < unat b" by (simp add: unat_gt_0)
  then show "((m', a', drop_bit 1 b), (m, a, b)) \<in> measure (\<lambda>(m, a, b). unat b)"
    by (simp only: in_measure prod.case unat_drop_bit_eq) (simp add: drop_bit_eq_div)
qed simp

declare mul_loop.simps [simp del]

definition mul_mod_p :: "u64 \<Rightarrow> u64 \<Rightarrow> u64" where
  "mul_mod_p a b = mul_loop 0 a b"

partial_function (option) pow_mod_p :: "u64 \<Rightarrow> u64 \<Rightarrow> u64 option" where
  "pow_mod_p a b =
     (if b = 1 then Some a
      else Option.bind (pow_mod_p a (drop_bit 1 b)) (\<lambda>t.
        let t = mul_mod_p t t in
        Some (if b mod 2 \<noteq> 0 then mul_mod_p t a else t)))"

definition powmodp :: "u64 \<Rightarrow> u64 \<Rightarrow> u64 option" where
  "powmodp a b = pow_mod_p (if a > P then a mod P else a) b"

definition read_u32 :: "bytes \<Rightarrow> nat \<Rightarrow> u32" where
  "read_u32 x i = of_le32 (x ! i) (x ! (i + 1)) (x ! (i + 2)) (x ! (i + 3))"

definition qword :: "u32 \<Rightarrow> u32 \<Rightarrow> u64" where
  "qword lo hi = ucast lo OR push_bit 32 (ucast hi)"

definition push64 :: "u64 \<Rightarrow> bytes" where
  "push64 r = map (\<lambda>i. ucast (drop_bit (8 * i) r)) [0..<8]"

text \<open>\<open>read64\<close>: the two arguments as pairs of 32-bit words.\<close>

definition read64 :: "bytes \<Rightarrow> bytes \<Rightarrow> string + ((u32 \<times> u32) \<times> (u32 \<times> u32))" where
  "read64 x y =
     (if length x \<noteq> 8 then Inl ''Invalid uint64 x''
      else if length y \<noteq> 8 then Inl ''Invalid uint64 y''
      else Inr ((read_u32 x 0, read_u32 x 4), (read_u32 y 0, read_u32 y 4)))"

definition ldhsecret :: "bytes \<Rightarrow> bytes \<Rightarrow> (string + bytes) option" where
  "ldhsecret x y =
     (case read64 x y of Inl e \<Rightarrow> Some (Inl e)
      | Inr ((x0, x1), (y0, y1)) \<Rightarrow>
          let xx = qword x0 x1; yy = qword y0 y1 in
          if xx = 0 \<or> yy = 0 then Some (Inl ''Can't be 0'')
          else map_option (\<lambda>r. Inr (push64 r)) (powmodp xx yy))"

definition ldhexchange :: "bytes \<Rightarrow> (string + bytes) option" where
  "ldhexchange x =
     (if length x \<noteq> 8 then Some (Inl ''Invalid dh uint64 key'')
      else
        let x64 = qword (read_u32 x 0) (read_u32 x 4) in
        if x64 = 0 then Some (Inl ''Can't be 0'')
        else map_option (\<lambda>r. Inr (push64 r)) (powmodp dh_G x64))"

section \<open>Modular arithmetic without overflow\<close>

abbreviation Pn :: nat where
  "Pn \<equiv> unat P"

lemma Pn: "Pn = 2 ^ 64 - 59" "unat (- P) = 59"
  by (simp_all add: P_def)

lemma unat_P_minus: "unat a < Pn \<Longrightarrow> unat (P - a) = Pn - unat a"
  by (simp add: unat_sub_if_size word_le_nat_alt)

lemma double_mod:
  assumes "unat a < Pn"
  shows "unat (if a \<ge> P - a then a * 2 - P else a * 2) = 2 * unat a mod Pn"
proof (cases "a \<ge> P - a")
  case True
  then have ge: "Pn \<le> 2 * unat a" using unat_P_minus [OF assms] assms by (simp add: word_le_nat_alt)
  have "a * 2 - P = a - (P - a)" by simp
  then have "unat (a * 2 - P) = unat a - (Pn - unat a)"
    using True unat_P_minus [OF assms] by (metis unat_sub)
  also have "\<dots> = 2 * unat a - Pn" using assms by simp
  finally show ?thesis using True ge assms by (simp add: mod_if [of "2 * unat a"])
next
  case False
  then have lt: "2 * unat a < Pn" using unat_P_minus [OF assms] by (simp add: word_le_nat_alt)
  then have "2 * unat a < 2 ^ 64" using Pn by simp
  then show ?thesis using False lt by (simp add: unat_mult_lem [THEN iffD1] unat_word_ariths mult.commute)
qed

lemma add_mod:
  assumes "unat m < Pn" "unat a < Pn"
  shows "unat (let t = P - a in (if m \<ge> t then m - t else m + a)) = (unat m + unat a) mod Pn"
proof (cases "m \<ge> P - a")
  case True
  then have "Pn \<le> unat m + unat a" using unat_P_minus [OF assms(2)] assms by (simp add: word_le_nat_alt)
  moreover have "unat (m - (P - a)) = unat m - (Pn - unat a)"
    using True unat_P_minus [OF assms(2)] by (metis unat_sub)
  ultimately show ?thesis using True assms by (simp add: Let_def mod_if [of "unat m + unat a"])
next
  case False
  then have lt: "unat m + unat a < Pn" using unat_P_minus [OF assms(2)] by (simp add: word_le_nat_alt)
  then have "unat m + unat a < 2 ^ 64" using Pn by simp
  then show ?thesis using False lt by (simp add: Let_def unat_word_ariths)
qed

lemma mod_sum_prod: "(x mod n + y mod n * z) mod n = (x + y * z) mod n" for x y z n :: nat
  by (intro mod_add_cong) (simp_all add: mod_mult_left_eq)

lemma mul_loop_mod:
  "unat m < Pn \<Longrightarrow> unat a < Pn \<Longrightarrow> unat (mul_loop m a b) = (unat m + unat a * unat b) mod Pn"
proof (induction m a b rule: mul_loop.induct)
  case (1 m a b)
  show ?case
  proof (cases "b = 0")
    case True
    then show ?thesis using 1 by (simp add: mul_loop.simps)
  next
    case False
    define m' where "m' = (if b AND 1 \<noteq> 0 then let t = P - a in (if m \<ge> t then m - t else m + a) else m)"
    define a' where "a' = (if a \<ge> P - a then a * 2 - P else a * 2)"
    have P0: "0 < Pn" by (simp add: Pn)
    have b: "unat b = 2 * unat (drop_bit 1 b) + unat (b AND 1)"
    proof -
      have "unat (drop_bit 1 b) = unat b div 2"
        by (simp only: unat_drop_bit_eq) (simp add: drop_bit_eq_div)
      moreover have "unat (b AND 1) = unat b mod 2"
        by (rule unat_and_one)
      ultimately show ?thesis by simp
    qed
    have m': "unat m' = (unat m + unat a * unat (b AND 1)) mod Pn"
    proof -
      have "unat (b AND 1) = 0 \<or> unat (b AND 1) = 1" unfolding unat_and_one by presburger
      then have "b AND 1 = 0 \<or> b AND 1 = 1" by (auto simp only: word_unat_eq_iff unat_0 unat_1)
      then show ?thesis using 1 add_mod [OF "1.prems"] by (auto simp: m'_def)
    qed
    have a': "unat a' = 2 * unat a mod Pn" unfolding a'_def by (rule double_mod [OF "1.prems"(2)])
    have "unat (mul_loop m' a' (drop_bit 1 b)) = (unat m' + unat a' * unat (drop_bit 1 b)) mod Pn"
      using m' a' P0 by (intro 1(1) [OF False m'_def a'_def]) simp_all
    also have "\<dots> = (unat m + unat a * unat (b AND 1) + 2 * unat a * unat (drop_bit 1 b)) mod Pn"
      unfolding m' a' by (rule mod_sum_prod)
    also have "unat m + unat a * unat (b AND 1) + 2 * unat a * unat (drop_bit 1 b) = unat m + unat a * unat b"
      unfolding b by (simp only: algebra_simps)
    finally show ?thesis
      using False by (simp add: mul_loop.simps [of m] m'_def a'_def Let_def)
  qed
qed

lemma mul_mod_p_mod: "unat a < Pn \<Longrightarrow> unat (mul_mod_p a b) = unat a * unat b mod Pn"
  using mul_loop_mod [of 0 a b] by (simp add: mul_mod_p_def Pn)

text \<open>The recursion of \<open>pow_mod_p\<close> halves the exponent, so it returns for every positive one.\<close>

lemma pow_mod_p_power:
  assumes "unat a < Pn" "b \<noteq> 0"
  shows "\<exists>r. pow_mod_p a b = Some r \<and> unat r = unat a ^ unat b mod Pn"
  using assms(2)
proof (induction "unat b" arbitrary: b rule: less_induct)
  case less
  show ?case
  proof (cases "b = 1")
    case True
    then show ?thesis using assms(1) by (simp add: pow_mod_p.simps)
  next
    case False
    let ?h = "drop_bit 1 b"
    have h: "unat ?h = unat b div 2" by (simp only: unat_drop_bit_eq) (simp add: drop_bit_eq_div)
    have b: "unat b \<noteq> 0" "unat b \<noteq> 1" using False less.prems
      by (simp_all add: unat_eq_0 word_unat_eq_iff [of b 1])
    then have "?h \<noteq> 0" "unat ?h < unat b" using h by (auto simp: word_unat_eq_iff [of "drop_bit 1 b" 0])
    from less.hyps [OF this(2,1)] obtain t where t: "pow_mod_p a ?h = Some t"
      "unat t = unat a ^ unat ?h mod Pn" by blast
    have P0: "0 < Pn" by (simp add: Pn)
    have tl: "unat t < Pn" using t(2) P0 by simp
    have sq: "unat (mul_mod_p t t) = unat a ^ (2 * unat ?h) mod Pn"
      using mul_mod_p_mod [OF tl, of t] t(2) by (simp add: mod_mult_eq power_add mult_2)
    then have sl: "unat (mul_mod_p t t) < Pn" using P0 by simp
    have odd: "b mod 2 \<noteq> 0 \<longleftrightarrow> unat b mod 2 = 1"
      by (auto simp: word_unat_eq_iff unat_mod)
    have "unat (if b mod 2 \<noteq> 0 then mul_mod_p (mul_mod_p t t) a else mul_mod_p t t) = unat a ^ unat b mod Pn"
    proof (cases "unat b mod 2 = 1")
      case True
      then have e: "unat b = Suc (2 * unat ?h)" using h by presburger
      have "unat (mul_mod_p (mul_mod_p t t) a) = unat a ^ (2 * unat ?h) mod Pn * unat a mod Pn"
        using mul_mod_p_mod [OF sl, of a] sq by simp
      also have "\<dots> = unat a ^ unat b mod Pn" by (subst e) (simp add: mod_mult_right_eq mult.commute)
      finally show ?thesis using True odd by simp
    next
      case False
      then have "unat b = 2 * unat ?h" using h by presburger
      then show ?thesis using False odd sq by simp
    qed
    then show ?thesis using False t(1)
      by (subst pow_mod_p.simps) (simp add: Let_def)
  qed
qed

section \<open>Byte strings\<close>

lemma length_push64 [simp]: "length (push64 r) = 8"
  by (simp add: push64_def)

lemma qword_push64: "qword (read_u32 (push64 r) 0) (read_u32 (push64 r) 4) = r"
proof -
  have nth: "push64 r ! i = ucast (drop_bit (8 * i) r)" if "i < 8" for i
    using that by (simp add: push64_def del: upt_rec_numeral)
  show ?thesis
  proof (rule bit_word_eqI)
    fix n assume n: "n < LENGTH(64)"
    then have "n < 8 \<or> 8 \<le> n \<and> n < 16 \<or> 16 \<le> n \<and> n < 24 \<or> 24 \<le> n \<and> n < 32 \<or> 32 \<le> n \<and> n < 40 \<or>
      40 \<le> n \<and> n < 48 \<or> 48 \<le> n \<and> n < 56 \<or> 56 \<le> n \<and> n < 64" by auto
    then show "bit (qword (read_u32 (push64 r) 0) (read_u32 (push64 r) 4)) n = bit r n"
      by (elim disjE) (auto simp: qword_def read_u32_def of_le32_def nth bit_simps)
  qed
qed

definition value64 :: "bytes \<Rightarrow> u64" where
  "value64 x = qword (read_u32 x 0) (read_u32 x 4)"

section \<open>Properties\<close>

text \<open>
  \<open>powmodp\<close> is modular exponentiation: for every base but \<open>P\<close> itself and every positive exponent
  it returns \<open>a\<^sup>b mod P\<close>; no intermediate product overflows its 64 bits.
\<close>

theorem powmodp_correct:
  assumes "a \<noteq> P" "b \<noteq> 0"
  shows "\<exists>r. powmodp a b = Some r \<and> unat r = unat a ^ unat b mod unat P"
proof -
  let ?a = "if a > P then a mod P else a"
  have "unat ?a = unat a mod Pn"
  proof (cases "a > P")
    case False
    then have "unat a < Pn" using assms(1) by (simp add: word_less_nat_alt word_unat_eq_iff)
    with False show ?thesis by simp
  qed (simp add: unat_mod)
  moreover have "0 < Pn" by (simp add: Pn)
  ultimately have "unat ?a < Pn" "unat ?a ^ unat b mod Pn = unat a ^ unat b mod Pn"
    by (simp_all add: power_mod)
  with pow_mod_p_power [of ?a b] assms(2) show ?thesis by (simp add: powmodp_def)
qed

theorem powmodp_correct_witness:
  "\<exists>r. powmodp 0xfffffffffffffff0 65537 = Some r \<and> unat r = unat (0xfffffffffffffff0 :: u64) ^ unat (65537 :: u64) mod unat P"
  by (rule powmodp_correct) (simp_all add: P_def)

text \<open>The exception: \<open>powmodp\<close> of \<open>P\<close> and 1 is \<open>P\<close>, although \<open>P mod P\<close> is 0 (the test is \<open>a > P\<close>).\<close>

lemma powmodp_of_P: "powmodp P 1 = Some P \<and> unat P ^ unat (1 :: u64) mod unat P = 0"
  by (simp add: powmodp_def pow_mod_p.simps)

lemma coprime_G: "coprime (unat dh_G) Pn"
proof -
  have "gcd (18446744073709551557 :: nat) 5 = 1" by (simp add: gcd_non_0_nat)
  then show ?thesis by (simp add: dh_G_def P_def coprime_iff_gcd_eq_1 gcd.commute)
qed

lemma G_power_nonzero: "unat dh_G ^ n mod Pn \<noteq> 0"
proof
  assume "unat dh_G ^ n mod Pn = 0"
  then have "Pn dvd unat dh_G ^ n" by (simp add: mod_eq_0_iff_dvd)
  moreover have "coprime (unat dh_G ^ n) Pn" using coprime_G by simp
  ultimately have "Pn dvd 1" by (metis coprime_common_divisor dvd_refl)
  then show False by (simp add: Pn)
qed

lemma exchange_value:
  assumes "length x = 8" "value64 x \<noteq> 0"
  shows "\<exists>r. ldhexchange x = Some (Inr (push64 r)) \<and> unat r = unat dh_G ^ unat (value64 x) mod Pn \<and>
    r \<noteq> 0 \<and> r \<noteq> P"
proof -
  have "dh_G \<noteq> P" by (simp add: dh_G_def P_def)
  from powmodp_correct [OF this assms(2)] obtain r where r: "powmodp dh_G (value64 x) = Some r"
    "unat r = unat dh_G ^ unat (value64 x) mod Pn" by blast
  have "unat r \<noteq> 0" "unat r \<noteq> Pn"
    using G_power_nonzero [of "unat (value64 x)"] r(2) mod_less_divisor [of Pn "unat dh_G ^ unat (value64 x)"]
    by (auto simp: Pn)
  then have "r \<noteq> 0" "r \<noteq> P" by auto
  with r assms show ?thesis by (auto simp: ldhexchange_def value64_def Let_def)
qed

lemma secret_value:
  assumes "length y = 8" "value64 y \<noteq> 0" "r \<noteq> 0" "r \<noteq> P"
  shows "\<exists>s. ldhsecret (push64 r) y = Some (Inr (push64 s)) \<and> unat s = unat r ^ unat (value64 y) mod Pn"
  using powmodp_correct [OF assms(4,2)] assms qword_push64 [of r]
  by (auto simp: ldhsecret_def read64_def value64_def Let_def)

text \<open>
  Key agreement: for any two private 8-byte keys other than zero, both calls of \<open>dhexchange\<close>
  return a public key, and the secret that one side derives from the other's public key and its own
  private key is the same on both sides, the 8 bytes of \<open>5\<^sup>x\<^sup>y mod P\<close>.
\<close>

theorem dh_agreement:
  assumes "length x = 8" "length y = 8" "value64 x \<noteq> 0" "value64 y \<noteq> 0"
  shows "\<exists>px py s. ldhexchange x = Some (Inr px) \<and> ldhexchange y = Some (Inr py) \<and>
    ldhsecret px y = Some (Inr (push64 s)) \<and> ldhsecret py x = Some (Inr (push64 s)) \<and>
    unat s = unat dh_G ^ (unat (value64 x) * unat (value64 y)) mod unat P"
proof -
  from exchange_value [OF assms(1,3)] obtain a where a: "ldhexchange x = Some (Inr (push64 a))"
    "unat a = unat dh_G ^ unat (value64 x) mod Pn" "a \<noteq> 0" "a \<noteq> P" by blast
  from exchange_value [OF assms(2,4)] obtain b where b: "ldhexchange y = Some (Inr (push64 b))"
    "unat b = unat dh_G ^ unat (value64 y) mod Pn" "b \<noteq> 0" "b \<noteq> P" by blast
  from secret_value [OF assms(2,4) a(3,4)] obtain s where s: "ldhsecret (push64 a) y = Some (Inr (push64 s))"
    "unat s = unat a ^ unat (value64 y) mod Pn" by blast
  from secret_value [OF assms(1,3) b(3,4)] obtain t where t: "ldhsecret (push64 b) x = Some (Inr (push64 t))"
    "unat t = unat b ^ unat (value64 x) mod Pn" by blast
  have us: "unat s = unat dh_G ^ (unat (value64 x) * unat (value64 y)) mod Pn"
    by (simp only: s(2) a(2) power_mod power_mult)
  moreover have "unat t = unat dh_G ^ (unat (value64 y) * unat (value64 x)) mod Pn"
    by (simp only: t(2) b(2) power_mod power_mult)
  ultimately have "s = t" by (simp add: word_unat_eq_iff mult.commute)
  with a b s t us show ?thesis by blast
qed

theorem dh_agreement_witness:
  "\<exists>px py s. ldhexchange [1, 2, 3, 4, 5, 6, 7, 8] = Some (Inr px) \<and>
    ldhexchange [9, 9, 9, 9, 9, 9, 9, 9] = Some (Inr py) \<and>
    ldhsecret px [9, 9, 9, 9, 9, 9, 9, 9] = Some (Inr (push64 s)) \<and>
    ldhsecret py [1, 2, 3, 4, 5, 6, 7, 8] = Some (Inr (push64 s)) \<and>
    unat s = unat dh_G ^ (unat (value64 [1, 2, 3, 4, 5, 6, 7, 8]) * unat (value64 [9, 9, 9, 9, 9, 9, 9, 9])) mod unat P"
proof -
  have "value64 [1, 2, 3, 4, 5, 6, 7, 8] \<noteq> 0" "value64 [9, 9, 9, 9, 9, 9, 9, 9] \<noteq> 0" by code_simp+
  then show ?thesis by (intro dh_agreement) simp_all
qed

end
