(* ===== verification/Codec.thy ===== *)
theory Codec
  imports Cstr Dh
begin

text \<open>
  The text encodings and the hashes of \<open>lualib-src/lua-crypt.c\<close>: hexadecimal, base64, \<open>xor_str\<close>, the
  64-bit string hash, MD5 and the functions built on it, and \<open>randomkey\<close>. A Lua error is \<open>Inl\<close> of its
  message.
\<close>

unbundle bit_operations_syntax

section \<open>Hexadecimal\<close>

definition hex_chars :: bytes where
  "hex_chars = map of_char ''0123456789abcdef''"

definition ltohex :: "bytes \<Rightarrow> bytes" where
  "ltohex text =
     concat (map (\<lambda>b. [hex_chars ! unat (drop_bit 4 b), hex_chars ! unat (b AND 0xf)]) text)"

text \<open>The macro \<open>HEX\<close>, stored in a \<open>uint8_t\<close>.\<close>

definition HEX :: "u8 \<Rightarrow> u8" where
  "HEX c = (if 48 \<le> c \<and> c \<le> 57 then c - 48 else c - 97 + 10)"

fun fromhex_loop :: "bytes \<Rightarrow> string + bytes" where
  "fromhex_loop (a # b # t) =
     (let hi = HEX a; low = HEX b in
      if hi > 16 \<or> low > 16 then Inl ''Invalid hex text''
      else map_sum id ((#) (push_bit 4 hi OR low)) (fromhex_loop t))"
| "fromhex_loop _ = Inr []"

definition lfromhex :: "bytes \<Rightarrow> string + bytes" where
  "lfromhex text =
     (if odd (length text) then Inl (''Invalid hex text size '' @ fmt_d (int (length text)))
      else fromhex_loop text)"

section \<open>Base64\<close>

definition encoding :: bytes where
  "encoding = map of_char ''ABCDEFGHIJKLMNOPQRSTUVWXYZabcdefghijklmnopqrstuvwxyz0123456789+/''"

definition enc :: "u32 \<Rightarrow> u8" where
  "enc v = encoding ! unat v"

fun lb64encode :: "bytes \<Rightarrow> bytes" where
  "lb64encode (a # b # c # t) =
     (let v = push_bit 16 (ucast a) OR push_bit 8 (ucast b) OR ucast c in
      [enc (drop_bit 18 v), enc (drop_bit 12 v AND 0x3f), enc (drop_bit 6 v AND 0x3f), enc (v AND 0x3f)]
      @ lb64encode t)"
| "lb64encode [a] =
     (let v = ucast a in [enc (drop_bit 2 v), enc (push_bit 4 (v AND 3)), 61, 61])"
| "lb64encode [a, b] =
     (let v = push_bit 8 (ucast a) OR ucast b in
      [enc (drop_bit 10 v), enc (drop_bit 4 v AND 0x3f), enc (push_bit 2 (v AND 0xf)), 61])"
| "lb64encode [] = []"

definition decoding :: "int list" where
  "decoding =
     [62, - 1, - 1, - 1, 63, 52, 53, 54, 55, 56, 57, 58, 59, 60, 61, - 1, - 1, - 1, - 2, - 1,
      - 1, - 1, 0, 1, 2, 3, 4, 5, 6, 7, 8, 9, 10, 11, 12, 13, 14, 15, 16, 17,
      18, 19, 20, 21, 22, 23, 24, 25, - 1, - 1, - 1, - 1, - 1, - 1, 26, 27, 28, 29, 30, 31,
      32, 33, 34, 35, 36, 37, 38, 39, 40, 41, 42, 43, 44, 45, 46, 47, 48, 49, 50, 51]"

definition b64index :: "u8 \<Rightarrow> int" where
  "b64index c =
     (if c < 43 then - 1
      else let c = c - 43 in if unat c \<ge> length decoding then - 1 else decoding ! unat c)"

text \<open>The inner loop of \<open>lb64decode\<close>: \<open>n\<close> more codes, or \<open>None\<close> when the text ends first.\<close>

fun b64_codes :: "nat \<Rightarrow> bytes \<Rightarrow> (int list \<times> bytes) option" where
  "b64_codes 0 text = Some ([], text)"
| "b64_codes (Suc n) [] = None"
| "b64_codes (Suc n) (c # text) =
     (if b64index c = - 1 then b64_codes (Suc n) text
      else map_option (\<lambda>(cs, rest). (b64index c # cs, rest)) (b64_codes n text))"

definition b64_quad :: "int list \<Rightarrow> string + bytes" where
  "b64_quad c =
     (let u = (\<lambda>i. of_int (c ! i) :: u32); padding = length (filter (\<lambda>x. x = - 2) c) in
      if padding = 0 then
        let v = push_bit 18 (u 0) OR push_bit 12 (u 1) OR push_bit 6 (u 2) OR u 3
        in Inr [ucast (drop_bit 16 v), ucast (drop_bit 8 v AND 0xff), ucast (v AND 0xff)]
      else if padding = 1 then
        if c ! 3 \<noteq> - 2 \<or> u 2 AND 3 \<noteq> 0 then Inl ''Invalid base64 text''
        else let v = push_bit 10 (u 0) OR push_bit 4 (u 1) OR drop_bit 2 (u 2)
             in Inr [ucast (drop_bit 8 v), ucast (v AND 0xff)]
      else if padding = 2 then
        if c ! 3 \<noteq> - 2 \<or> c ! 2 \<noteq> - 2 \<or> u 1 AND 0xf \<noteq> 0 then Inl ''Invalid base64 text''
        else let v = push_bit 2 (u 0) OR drop_bit 4 (u 1) in Inr [ucast v]
      else Inl ''Invalid base64 text'')"

lemma b64_codes_shorter: "b64_codes n text = Some (cs, rest) \<Longrightarrow> length rest \<le> length text - n \<and> n \<le> length text"
  by (induction n "text" arbitrary: cs rest rule: b64_codes.induct) (fastforce split: if_splits)+

function lb64decode :: "bytes \<Rightarrow> string + bytes" where
  "lb64decode text =
     (if text = [] then Inr []
      else case b64_codes 4 text of
        None \<Rightarrow> Inl ''Invalid base64 text''
      | Some (c, rest) \<Rightarrow>
          (case b64_quad c of
             Inl e \<Rightarrow> Inl e
           | Inr bs \<Rightarrow> map_sum id ((@) bs) (lb64decode rest)))"
  by pat_completeness auto
termination
  by (relation "measure length") (auto dest!: b64_codes_shorter)

declare lb64decode.simps [simp del]

section \<open>Hashes\<close>

definition lxor_str :: "bytes \<Rightarrow> bytes \<Rightarrow> string + bytes" where
  "lxor_str s1 s2 =
     (if s2 = [] then Inl ''Can't xor empty string''
      else Inr (map (\<lambda>i. s1 ! i XOR s2 ! (i mod length s2)) [0..<length s1]))"

fun hash_loop :: "bytes \<Rightarrow> u32 \<times> u32 \<Rightarrow> u32 \<times> u32" where
  "hash_loop [] h = h"
| "hash_loop (c # str) (djb_hash, js_hash) =
     hash_loop str (djb_hash + (push_bit 5 djb_hash + ucast c),
                    js_hash XOR (push_bit 5 js_hash + ucast c + drop_bit 2 js_hash))"

definition Hash :: "bytes \<Rightarrow> bytes" where
  "Hash str = (let (djb_hash, js_hash) = hash_loop str (5381, 1315423911) in le32 djb_hash @ le32 js_hash)"

definition lhashkey :: "bytes \<Rightarrow> bytes" where
  "lhashkey key = Hash key"

definition md5_k :: "u32 list" where
  "md5_k =
     [0xd76aa478, 0xe8c7b756, 0x242070db, 0xc1bdceee, 0xf57c0faf, 0x4787c62a,
      0xa8304613, 0xfd469501, 0x698098d8, 0x8b44f7af, 0xffff5bb1, 0x895cd7be,
      0x6b901122, 0xfd987193, 0xa679438e, 0x49b40821, 0xf61e2562, 0xc040b340,
      0x265e5a51, 0xe9b6c7aa, 0xd62f105d, 0x02441453, 0xd8a1e681, 0xe7d3fbc8,
      0x21e1cde6, 0xc33707d6, 0xf4d50d87, 0x455a14ed, 0xa9e3e905, 0xfcefa3f8,
      0x676f02d9, 0x8d2a4c8a, 0xfffa3942, 0x8771f681, 0x6d9d6122, 0xfde5380c,
      0xa4beea44, 0x4bdecfa9, 0xf6bb4b60, 0xbebfbc70, 0x289b7ec6, 0xeaa127fa,
      0xd4ef3085, 0x04881d05, 0xd9d4d039, 0xe6db99e5, 0x1fa27cf8, 0xc4ac5665,
      0xf4292244, 0x432aff97, 0xab9423a7, 0xfc93a039, 0x655b59c3, 0x8f0ccc92,
      0xffeff47d, 0x85845dd1, 0x6fa87e4f, 0xfe2ce6e0, 0xa3014314, 0x4e0811a1,
      0xf7537e82, 0xbd3af235, 0x2ad7d2bb, 0xeb86d391]"

definition md5_r :: "nat list" where
  "md5_r =
     [7, 12, 17, 22, 7, 12, 17, 22, 7, 12, 17, 22, 7, 12, 17, 22,
      5, 9, 14, 20, 5, 9, 14, 20, 5, 9, 14, 20, 5, 9, 14, 20,
      4, 11, 16, 23, 4, 11, 16, 23, 4, 11, 16, 23, 4, 11, 16, 23,
      6, 10, 15, 21, 6, 10, 15, 21, 6, 10, 15, 21, 6, 10, 15, 21]"

definition LEFTROTATE :: "u32 \<Rightarrow> nat \<Rightarrow> u32" where
  "LEFTROTATE x c = push_bit c x OR drop_bit (32 - c) x"

definition md5_step :: "u32 list \<Rightarrow> nat \<Rightarrow> u32 \<times> u32 \<times> u32 \<times> u32 \<Rightarrow> u32 \<times> u32 \<times> u32 \<times> u32" where
  "md5_step w i = (\<lambda>(a, b, c, d).
     let (f, g) =
       (if i < 16 then ((b AND c) OR (NOT b AND d), i)
        else if i < 32 then ((d AND b) OR (NOT d AND c), (5 * i + 1) mod 16)
        else if i < 48 then (b XOR c XOR d, (3 * i + 5) mod 16)
        else (c XOR (b OR NOT d), (7 * i) mod 16))
     in (d, b + LEFTROTATE (a + f + md5_k ! i + w ! g) (md5_r ! i), b, c))"

definition digest_md5 :: "u32 list \<Rightarrow> u32 \<times> u32 \<times> u32 \<times> u32" where
  "digest_md5 w =
     fold (md5_step w) [0..<64] (0x67452301, 0xefcdab89, 0x98badcfe, 0x10325476)"

definition hmac :: "u32 \<times> u32 \<Rightarrow> u32 \<times> u32 \<Rightarrow> u32 \<times> u32" where
  "hmac x y =
     (let w = concat (replicate 4 [snd x, fst x, snd y, fst y]);
          (r0, r1, r2, r3) = digest_md5 w
      in (r2 XOR r3, r0 XOR r1))"

definition hmac_md5 :: "u32 \<times> u32 \<Rightarrow> u32 \<times> u32 \<Rightarrow> u32 \<times> u32" where
  "hmac_md5 x y =
     (let w = concat (replicate 3 [fst x, snd x, fst y, snd y]) @ [0x80, 0, 384, 0];
          (r0, r1, r2, r3) = digest_md5 w
      in ((r0 + 0x67452301) XOR (r2 + 0x98badcfe), (r1 + 0xefcdab89) XOR (r3 + 0x10325476)))"

definition pushqword :: "u32 \<times> u32 \<Rightarrow> bytes" where
  "pushqword result = le32 (fst result) @ le32 (snd result)"

definition lhmac64 :: "bytes \<Rightarrow> bytes \<Rightarrow> string + bytes" where
  "lhmac64 x y = map_sum id (\<lambda>(x, y). pushqword (hmac x y)) (read64 x y)"

definition lhmac64_md5 :: "bytes \<Rightarrow> bytes \<Rightarrow> string + bytes" where
  "lhmac64_md5 x y = map_sum id (\<lambda>(x, y). pushqword (hmac_md5 x y)) (read64 x y)"

definition lhmac_hash :: "bytes \<Rightarrow> bytes \<Rightarrow> string + bytes" where
  "lhmac_hash x text =
     (if length x \<noteq> 8 then Inl ''Invalid uint64 key''
      else
        let key = (read_u32 x 0, read_u32 x 4);
            h = Hash text
        in Inr (pushqword (hmac (read_u32 h 0, read_u32 h 4) key)))"

text \<open>\<open>randomkey\<close>, given the eight results of \<open>random()\<close>.\<close>

definition lrandomkey :: "(nat \<Rightarrow> u32) \<Rightarrow> bytes" where
  "lrandomkey rnd =
     (let tmp = map (\<lambda>i. ucast (rnd i AND 0xff)) [0..<8]; x = fold (XOR) tmp 0
      in if x = 0 then tmp[0 := tmp ! 0 OR 1] else tmp)"

section \<open>Round trips\<close>

lemma HEX_char: "n < 16 \<Longrightarrow> HEX (hex_chars ! n) = of_nat n"
proof -
  have "list_all (\<lambda>n. HEX (hex_chars ! n) = of_nat n) [0..<16]" by code_simp
  then show "n < 16 \<Longrightarrow> HEX (hex_chars ! n) = of_nat n" by (simp add: list_all_iff del: upt_rec_numeral)
qed

lemma unat_low_bits: "unat (x AND 0xf) < 16" "unat (y AND 0x3f) < 64" for x :: u8 and y :: u32
proof -
  have m: "(0xf :: u8) = mask 4" "(0x3f :: u32) = mask 6" by (simp_all add: mask_eq_exp_minus_1)
  show "unat (x AND 0xf) < 16" "unat (y AND 0x3f) < 64" by (simp_all only: m unat_and_mask) simp_all
qed

lemma HEX_nibbles:
  "HEX (hex_chars ! unat (drop_bit 4 b)) = drop_bit 4 b" "HEX (hex_chars ! unat (b AND 0xf)) = b AND 0xf"
  "\<not> drop_bit 4 b > 16" "\<not> (b AND 0xf) > 16" "push_bit 4 (drop_bit 4 b) OR (b AND 0xf) = b"
proof -
  have "unat (drop_bit 4 b) = unat b div 16" by (simp only: unat_drop_bit_eq) (simp add: drop_bit_eq_div)
  then have lt: "unat (drop_bit 4 b) < 16" using unsigned_less [of b, where ?'a = nat] by simp
  show "HEX (hex_chars ! unat (drop_bit 4 b)) = drop_bit 4 b" "HEX (hex_chars ! unat (b AND 0xf)) = b AND 0xf"
    using lt unat_low_bits(1) [of b] by (simp_all add: HEX_char)
  show "\<not> drop_bit 4 b > 16" "\<not> (b AND 0xf) > 16"
    using lt unat_low_bits(1) [of b] by (simp_all add: word_less_nat_alt)
  have m: "(0xf :: u8) = mask 4" by (simp add: mask_eq_exp_minus_1)
  show "push_bit 4 (drop_bit 4 b) OR (b AND 0xf) = b"
    by (simp only: m) (rule bit_word_eqI, auto simp: bit_simps)
qed

lemma fromhex_tohex: "fromhex_loop (ltohex t) = Inr t"
proof (induction t)
  case (Cons b t)
  then show ?case
    using HEX_nibbles [of b] by (simp add: ltohex_def Let_def)
qed (simp add: ltohex_def)

lemma even_tohex: "even (length (ltohex t))"
  by (induction t) (simp_all add: ltohex_def)

text \<open>\<open>hexdecode\<close> inverts \<open>hexencode\<close> on every byte string.\<close>

theorem hex_roundtrip: "lfromhex (ltohex t) = Inr t"
  using even_tohex [of t] by (simp add: lfromhex_def fromhex_tohex)

text \<open>
  \<open>hexdecode\<close> accepts a digit beyond \<open>f\<close>: its test \<open>hi > 16\<close> lets the letter \<open>g\<close> pass as 16, so
  \<open>"0g"\<close> decodes to the byte \<open>0x10\<close> instead of failing.
\<close>

lemma fromhex_accepts_g: "lfromhex (map of_char ''0g'') = Inr [0x10]"
  by code_simp

lemma b64index_enc: "unat v < 64 \<Longrightarrow> b64index (enc v) = int (unat v)"
proof -
  have "list_all (\<lambda>n. b64index (encoding ! n) = int n) [0..<64]" by code_simp
  then show "unat v < 64 \<Longrightarrow> b64index (enc v) = int (unat v)"
    by (simp add: list_all_iff enc_def del: upt_rec_numeral)
qed

lemma b64_codes_4:
  "b64index a \<noteq> - 1 \<Longrightarrow> b64index b \<noteq> - 1 \<Longrightarrow> b64index c \<noteq> - 1 \<Longrightarrow> b64index d \<noteq> - 1 \<Longrightarrow>
    b64_codes 4 (a # b # c # d # t) = Some ([b64index a, b64index b, b64index c, b64index d], t)"
  by (simp add: numeral_eq_Suc)

lemma b64index_pad: "b64index 61 = - 2"
  by code_simp

lemma of_int_unat: "of_int (int (unat v)) = v" for v :: u32
  by simp

lemma uint_nonneg [simp]: "uint v \<noteq> - 2" "uint v \<noteq> - 1" for v :: u32
  using unsigned_greater_eq [of v, where ?'a = int] by linarith+

lemma unat_take_bit_less: "take_bit n v = v \<Longrightarrow> unat v < 2 ^ n" for v :: u32
  by (metis take_bit_nat_less_exp unsigned_take_bit_eq)

lemma decode_codes:
  assumes "b64index e0 = c0" "b64index e1 = c1" "b64index e2 = c2" "b64index e3 = c3"
    "c0 \<noteq> - 1" "c1 \<noteq> - 1" "c2 \<noteq> - 1" "c3 \<noteq> - 1" "b64_quad [c0, c1, c2, c3] = Inr bs"
  shows "lb64decode (e0 # e1 # e2 # e3 # s) = map_sum id ((@) bs) (lb64decode s)"
  using assms by (subst lb64decode.simps) (auto simp: b64_codes_4)

lemma quads:
  fixes x0 x1 x2 x3 :: u32
  shows "b64_quad [int (unat x0), int (unat x1), int (unat x2), int (unat x3)] =
      (let v = push_bit 18 x0 OR push_bit 12 x1 OR push_bit 6 x2 OR x3
       in Inr [ucast (drop_bit 16 v), ucast (drop_bit 8 v AND 0xff), ucast (v AND 0xff)])"
    and "x2 AND 3 = 0 \<Longrightarrow> b64_quad [int (unat x0), int (unat x1), int (unat x2), - 2] =
      (let v = push_bit 10 x0 OR push_bit 4 x1 OR drop_bit 2 x2
       in Inr [ucast (drop_bit 8 v), ucast (v AND 0xff)])"
    and "x1 AND 0xf = 0 \<Longrightarrow> b64_quad [int (unat x0), int (unat x1), - 2, - 2] =
      (let v = push_bit 2 x0 OR drop_bit 4 x1 in Inr [ucast v])"
  by (simp_all add: b64_quad_def Let_def)

text \<open>The four codes of three bytes, the three of two, the two of one.\<close>

lemma decode_quad:
  assumes "unat v < 2 ^ 24"
  shows "lb64decode (enc (drop_bit 18 v) # enc (drop_bit 12 v AND 0x3f) # enc (drop_bit 6 v AND 0x3f)
      # enc (v AND 0x3f) # s) =
    map_sum id ((@) [ucast (drop_bit 16 v), ucast (drop_bit 8 v), ucast v]) (lb64decode s)"
proof -
  have "unat (drop_bit 18 v) = unat v div 2 ^ 18" by (simp only: unat_drop_bit_eq) (simp only: drop_bit_eq_div)
  then have "unat (drop_bit 18 v) < 64" using assms by simp
  note idx = b64index_enc [OF this] b64index_enc [OF unat_low_bits(2)]
  have m: "(0x3f :: u32) = mask 6" "(0xff :: u32) = mask 8" by (simp_all add: mask_eq_exp_minus_1)
  have v: "push_bit 18 (drop_bit 18 v) OR push_bit 12 (drop_bit 12 v AND 0x3f) OR
      push_bit 6 (drop_bit 6 v AND 0x3f) OR (v AND 0x3f) = v"
  proof (rule bit_word_eqI)
    fix n assume "n < LENGTH(32)"
    then have "n < 6 \<or> 6 \<le> n \<and> n < 12 \<or> 12 \<le> n \<and> n < 18 \<or> 18 \<le> n \<and> n < 32" by auto
    then show "bit (push_bit 18 (drop_bit 18 v) OR push_bit 12 (drop_bit 12 v AND 0x3f) OR
      push_bit 6 (drop_bit 6 v AND 0x3f) OR (v AND 0x3f)) n = bit v n"
      unfolding m by (elim disjE) (auto simp: bit_simps)
  qed
  have b: "(ucast (drop_bit 8 v AND 0xff) :: u8) = ucast (drop_bit 8 v)" "(ucast (v AND 0xff) :: u8) = ucast v"
    unfolding m by (rule bit_word_eqI, auto simp: bit_simps)+
  have q: "b64_quad [int (unat (drop_bit 18 v)), int (unat (drop_bit 12 v AND 0x3f)),
      int (unat (drop_bit 6 v AND 0x3f)), int (unat (v AND 0x3f))] =
    Inr [ucast (drop_bit 16 v), ucast (drop_bit 8 v), ucast v]"
    by (simp only: quads(1) v b Let_def)
  show ?thesis
    by (rule decode_codes [OF idx(1) idx(2) idx(2) idx(2) _ _ _ _ q]) simp_all
qed

lemma decode_pair:
  assumes "unat v < 2 ^ 16"
  shows "lb64decode (enc (drop_bit 10 v) # enc (drop_bit 4 v AND 0x3f) # enc (push_bit 2 (v AND 0xf)) # 61 # s) =
    map_sum id ((@) [ucast (drop_bit 8 v), ucast v]) (lb64decode s)"
proof -
  have m: "(0x3f :: u32) = mask 6" "(0xff :: u32) = mask 8" "(0xf :: u32) = mask 4" "(3 :: u32) = mask 2"
    by (simp_all add: mask_eq_exp_minus_1)
  have "unat (drop_bit 10 v) = unat v div 2 ^ 10" by (simp only: unat_drop_bit_eq) (simp only: drop_bit_eq_div)
  then have d: "unat (drop_bit 10 v) < 64" using assms by simp
  have "unat (v AND 0xf) < 16" by (simp only: m unat_and_mask) simp
  then have "unat (push_bit 2 (v AND 0xf)) < 64"
    by (simp add: push_bit_eq_mult unat_word_ariths)
  note idx = b64index_enc [OF d] b64index_enc [OF unat_low_bits(2)] b64index_enc [OF this] b64index_pad
  have l: "push_bit 2 (v AND 0xf) AND 3 = 0"
    unfolding m by (rule bit_word_eqI) (auto simp: bit_simps)
  have v: "push_bit 10 (drop_bit 10 v) OR push_bit 4 (drop_bit 4 v AND 0x3f) OR
      drop_bit 2 (push_bit 2 (v AND 0xf)) = v"
  proof (rule bit_word_eqI)
    fix n assume "n < LENGTH(32)"
    then have "n < 4 \<or> 4 \<le> n \<and> n < 10 \<or> 10 \<le> n \<and> n < 32" by auto
    then show "bit (push_bit 10 (drop_bit 10 v) OR push_bit 4 (drop_bit 4 v AND 0x3f) OR
      drop_bit 2 (push_bit 2 (v AND 0xf))) n = bit v n"
      unfolding m by (elim disjE) (auto simp: bit_simps)
  qed
  have b: "(ucast (v AND 0xff) :: u8) = ucast v"
    unfolding m by (rule bit_word_eqI) (auto simp: bit_simps)
  have q: "b64_quad [int (unat (drop_bit 10 v)), int (unat (drop_bit 4 v AND 0x3f)),
      int (unat (push_bit 2 (v AND 0xf))), - 2] = Inr [ucast (drop_bit 8 v), ucast v]"
    by (simp only: quads(2) [OF l] v b Let_def)
  show ?thesis
    by (rule decode_codes [OF idx(1) idx(2) idx(3) idx(4) _ _ _ _ q]) simp_all
qed

lemma decode_single:
  assumes "unat v < 2 ^ 8"
  shows "lb64decode (enc (drop_bit 2 v) # enc (push_bit 4 (v AND 3)) # 61 # 61 # s) =
    map_sum id ((@) [ucast v]) (lb64decode s)"
proof -
  have m: "(0xf :: u32) = mask 4" "(3 :: u32) = mask 2" by (simp_all add: mask_eq_exp_minus_1)
  have "unat (drop_bit 2 v) = unat v div 2 ^ 2" by (simp only: unat_drop_bit_eq) (simp only: drop_bit_eq_div)
  then have d: "unat (drop_bit 2 v) < 64" using assms by simp
  have "unat (v AND 3) < 4" by (simp only: m unat_and_mask) simp
  then have "unat (push_bit 4 (v AND 3)) < 64" by (simp add: push_bit_eq_mult unat_word_ariths)
  note idx = b64index_enc [OF d] b64index_enc [OF this] b64index_pad
  have l: "push_bit 4 (v AND 3) AND 0xf = 0"
    unfolding m by (rule bit_word_eqI) (auto simp: bit_simps)
  have v: "push_bit 2 (drop_bit 2 v) OR drop_bit 4 (push_bit 4 (v AND 3)) = v"
  proof (rule bit_word_eqI)
    fix n assume "n < LENGTH(32)"
    then have "n < 2 \<or> 2 \<le> n \<and> n < 32" by auto
    then show "bit (push_bit 2 (drop_bit 2 v) OR drop_bit 4 (push_bit 4 (v AND 3))) n = bit v n"
      unfolding m by (elim disjE) (auto simp: bit_simps dest!: le_Suc_ex)
  qed
  have q: "b64_quad [int (unat (drop_bit 2 v)), int (unat (push_bit 4 (v AND 3))), - 2, - 2] = Inr [ucast v]"
    by (simp only: quads(3) [OF l] v Let_def)
  show ?thesis
    by (rule decode_codes [OF idx(1) idx(2) idx(3) idx(3) _ _ _ _ q]) simp_all
qed

lemma b64_decode_append: "lb64decode (lb64encode t @ s) = map_sum id ((@) t) (lb64decode s)"
proof (induction t rule: lb64encode.induct)
  case (1 a b c t)
  let ?v = "push_bit 16 (ucast a) OR push_bit 8 (ucast b) OR ucast c :: u32"
  have v: "?v = of_le32 c b a 0" by (simp only: of_le32_def ac_simps) simp
  have "take_bit 24 ?v = ?v" by (rule bit_word_eqI) (auto simp: bit_simps dest: bit_imp_le_length)
  from decode_quad [OF unat_take_bit_less [OF this], of "lb64encode t @ s"] 1 show ?case
    by (simp add: Let_def v ucast_of_le32 sum.map_comp comp_def)
next
  case (2 a)
  have "take_bit 8 (ucast a :: u32) = ucast a" by (rule bit_word_eqI) (auto simp: bit_simps dest: bit_imp_le_length)
  moreover have "ucast (ucast a :: u32) = a" by (rule bit_word_eqI) (auto simp: bit_simps dest: bit_imp_le_length)
  moreover have "(@) [a] = (#) a" by (simp add: fun_eq_iff)
  ultimately show ?case
    using decode_single [OF unat_take_bit_less, of "ucast a" s]
    by (simp only: lb64encode.simps Let_def append.simps)
next
  case (3 a b)
  let ?v = "push_bit 8 (ucast a) OR ucast b :: u32"
  have v: "?v = of_le32 b a 0 0" by (simp only: of_le32_def ac_simps) simp
  have "take_bit 16 ?v = ?v" by (rule bit_word_eqI) (auto simp: bit_simps dest: bit_imp_le_length)
  moreover have "(@) [a, b] = (\<lambda>t. a # b # t)" by (simp add: fun_eq_iff)
  ultimately show ?case
    using decode_pair [OF unat_take_bit_less, of ?v s]
    by (simp only: lb64encode.simps Let_def append.simps v ucast_of_le32)
next
  case 4
  then show ?case by (cases "lb64decode s") auto
qed

text \<open>
  \<open>base64decode\<close> inverts \<open>base64encode\<close> on every byte string.
\<close>

theorem base64_roundtrip: "lb64decode (lb64encode t) = Inr t"
  using b64_decode_append [of t "[]"] by (simp add: lb64decode.simps [of "[]"])

text \<open>
  \<open>base64decode\<close> skips foreign characters only before the last code of a group of four: the same
  text with a final newline is an error, whatever was encoded.
\<close>

lemma base64_trailing_newline: "lb64decode (lb64encode t @ [10]) = Inl ''Invalid base64 text''"
proof -
  have "b64index 10 = - 1" by code_simp
  then have "lb64decode [10] = Inl ''Invalid base64 text''"
    by (subst lb64decode.simps) (simp add: numeral_eq_Suc)
  then show ?thesis by (simp add: b64_decode_append)
qed

section \<open>Keys and hashes\<close>

text \<open>\<open>xor_str\<close> with the same non-empty key twice gives the text back.\<close>

lemma xor_str_involution:
  assumes "key \<noteq> []"
  shows "\<exists>c. lxor_str s key = Inr c \<and> length c = length s \<and> lxor_str c key = Inr s"
  using assms by (auto simp: lxor_str_def xor.assoc intro!: nth_equalityI)

theorem xor_str_involution_witness:
  "\<exists>c. lxor_str [1, 2, 3] [7, 9] = Inr c \<and> length c = length [1, 2, 3 :: u8] \<and> lxor_str c [7, 9] = Inr [1, 2, 3]"
  by (rule xor_str_involution) simp

lemma fold_xor: "fold (XOR) xs a = (a :: u8) XOR fold (XOR) xs 0"
proof (induction xs arbitrary: a)
  case (Cons x xs)
  show ?case using Cons [of "x XOR a"] Cons [of x] by (simp add: ac_simps)
qed simp

lemma push64_value64:
  assumes "length bs = 8"
  shows "push64 (value64 bs) = bs"
proof -
  obtain b0 b1 b2 b3 b4 b5 b6 b7 where bs: "bs = [b0, b1, b2, b3, b4, b5, b6, b7]"
    using assms by (auto simp: length_Suc_conv numeral_eq_Suc)
  have hi: "\<not> bit (x :: u8) (8 + m)" "\<not> bit x (16 + m)" "\<not> bit x (24 + m)" for x m
    by (auto dest: bit_imp_le_length)
  have "push64 (value64 bs) = [ucast (drop_bit 0 (value64 bs)), ucast (drop_bit 8 (value64 bs)),
      ucast (drop_bit 16 (value64 bs)), ucast (drop_bit 24 (value64 bs)), ucast (drop_bit 32 (value64 bs)),
      ucast (drop_bit 40 (value64 bs)), ucast (drop_bit 48 (value64 bs)), ucast (drop_bit 56 (value64 bs))]"
    by (simp add: push64_def upt_rec)
  also have "\<dots> = bs"
    unfolding bs value64_def qword_def read_u32_def of_le32_def list.inject
    by (intro conjI bit_word_eqI) (auto simp: bit_simps hi dest: bit_imp_le_length)
  finally show ?thesis .
qed

lemma value64_zero: "length bs = 8 \<Longrightarrow> value64 bs = 0 \<Longrightarrow> bs = replicate 8 0"
proof -
  assume "length bs = 8" "value64 bs = 0"
  then have "bs = push64 0" using push64_value64 by metis
  then show ?thesis by (simp add: push64_def numeral_eq_Suc upt_rec)
qed

text \<open>
  \<open>randomkey\<close> returns 8 bytes, which as a 64-bit number are never 0, so \<open>dhexchange\<close> accepts them
  as a private key.
\<close>

lemma randomkey_nonzero:
  "length (lrandomkey rnd) = 8 \<and> value64 (lrandomkey rnd) \<noteq> 0"
proof -
  define tmp :: bytes where "tmp = map (\<lambda>i. ucast (rnd i AND 0xff)) [0..<8]"
  define x where "x = fold (XOR) tmp 0"
  have key: "lrandomkey rnd = (if x = 0 then tmp[0 := tmp ! 0 OR 1] else tmp)"
    by (simp only: lrandomkey_def Let_def x_def tmp_def)
  have len: "length tmp = 8" by (simp add: tmp_def)
  then have l8: "length (lrandomkey rnd) = 8" by (simp add: key)
  moreover have "value64 (lrandomkey rnd) \<noteq> 0"
  proof
    assume "value64 (lrandomkey rnd) = 0"
    then have z: "lrandomkey rnd = replicate 8 0" by (rule value64_zero [OF l8])
    show False
    proof (cases "x = 0")
      case True
      then have "tmp ! 0 OR 1 = 0" using z len by (metis key nth_list_update_eq nth_replicate zero_less_numeral)
      then have "bit (tmp ! 0 OR 1) 0 = bit (0 :: u8) 0" by simp
      then show False by (simp add: bit_simps)
    next
      case False
      then have "tmp = replicate 8 0" using z key by simp
      then have "x = fold (XOR) (replicate 8 0) 0" by (simp only: x_def)
      then show False using False by (simp add: numeral_eq_Suc)
    qed
  qed
  ultimately show ?thesis ..
qed

section \<open>The MD5 algorithm of RFC 1321\<close>

text \<open>
  A reference: padding to whole blocks of 64 bytes with the length in bits, the four round functions
  over \<open>(b, c, d)\<close>, and the chaining of blocks; the table of sines and the shifts are those above.
\<close>

definition rfc_round :: "nat \<Rightarrow> u32 \<Rightarrow> u32 \<Rightarrow> u32 \<Rightarrow> u32" where
  "rfc_round i x y z =
     (if i < 16 then (x AND y) OR (NOT x AND z)
      else if i < 32 then (x AND z) OR (y AND NOT z)
      else if i < 48 then x XOR y XOR z
      else y XOR (x OR NOT z))"

definition rfc_index :: "nat \<Rightarrow> nat" where
  "rfc_index i = (if i < 16 then i else if i < 32 then (1 + 5 * i) mod 16
     else if i < 48 then (5 + 3 * i) mod 16 else 7 * i mod 16)"

definition rfc_step :: "u32 list \<Rightarrow> nat \<Rightarrow> u32 \<times> u32 \<times> u32 \<times> u32 \<Rightarrow> u32 \<times> u32 \<times> u32 \<times> u32" where
  "rfc_step X i = (\<lambda>(a, b, c, d).
     (d, b + LEFTROTATE (a + rfc_round i b c d + X ! rfc_index i + md5_k ! i) (md5_r ! i), b, c))"

definition words_of :: "bytes \<Rightarrow> u32 list" where
  "words_of block = map (\<lambda>i. read_u32 block (4 * i)) [0..<16]"

definition rfc_block :: "bytes \<Rightarrow> u32 \<times> u32 \<times> u32 \<times> u32 \<Rightarrow> u32 \<times> u32 \<times> u32 \<times> u32" where
  "rfc_block block = (\<lambda>(a, b, c, d).
     let (a', b', c', d') = fold (rfc_step (words_of block)) [0..<64] (a, b, c, d)
     in (a + a', b + b', c + c', d + d'))"

function rfc_blocks :: "bytes \<Rightarrow> u32 \<times> u32 \<times> u32 \<times> u32 \<Rightarrow> u32 \<times> u32 \<times> u32 \<times> u32" where
  "rfc_blocks m s = (if length m < 64 then s else rfc_blocks (drop 64 m) (rfc_block (take 64 m) s))"
  by pat_completeness auto
termination
  by (relation "measure (\<lambda>(m, _). length m)") auto

declare rfc_blocks.simps [simp del]

definition rfc_pad :: "bytes \<Rightarrow> bytes" where
  "rfc_pad m = m @ 0x80 # replicate ((119 - length m mod 64) mod 64) 0 @ push64 (of_nat (8 * length m))"

definition md5 :: "bytes \<Rightarrow> bytes" where
  "md5 m =
     (let (a, b, c, d) = rfc_blocks (rfc_pad m) (0x67452301, 0xefcdab89, 0x98badcfe, 0x10325476)
      in le32 a @ le32 b @ le32 c @ le32 d)"

lemma md5_step_rfc: "md5_step w i = rfc_step w i"
proof -
  have "(d AND b) OR (NOT d AND c) = (b AND d) OR (c AND NOT d)" for b c d :: u32
    by (simp add: ac_simps)
  then show ?thesis
    by (auto simp: md5_step_def rfc_step_def rfc_round_def rfc_index_def fun_eq_iff Let_def ac_simps)
qed

lemma le32_XOR: "map2 (XOR) (le32 a) (le32 b) = le32 (a XOR b)"
proof -
  have "ucast (a XOR b) = (ucast a XOR ucast b :: u8)" for a b :: u32
    by (rule bit_word_eqI) (auto simp: bit_simps)
  moreover have "drop_bit n (a XOR b) = drop_bit n a XOR drop_bit n b" for n
    by (rule bit_word_eqI) (auto simp: bit_simps)
  ultimately show ?thesis by (simp add: le32_def)
qed

lemma rfc_blocks_one: "length m = 64 \<Longrightarrow> rfc_blocks m s = rfc_block m s"
  by (subst rfc_blocks.simps, subst rfc_blocks.simps) simp

text \<open>
  C24. \<open>hmac64_md5\<close> is what its comment says: for two 8-byte strings, the exclusive or of the two
  halves of the MD5 digest of their concatenation repeated three times.
\<close>

theorem hmac64_md5_spec:
  assumes "length x = 8" "length y = 8"
  shows "lhmac64_md5 x y =
    (let m = md5 ((x @ y) @ (x @ y) @ (x @ y)) in Inr (map2 (XOR) (take 8 m) (drop 8 m)))"
proof -
  let ?m = "(x @ y) @ (x @ y) @ (x @ y)" and ?s = "(0x67452301, 0xefcdab89, 0x98badcfe, 0x10325476)"
  let ?x = "(read_u32 x 0, read_u32 x 4)" and ?y = "(read_u32 y 0, read_u32 y 4)"
  let ?w = "concat (replicate 3 [fst ?x, snd ?x, fst ?y, snd ?y]) @ [0x80, 0, 384, 0]"
  obtain x0 x1 x2 x3 x4 x5 x6 x7 where x: "x = [x0, x1, x2, x3, x4, x5, x6, x7]"
    using assms(1) by (auto simp: length_Suc_conv numeral_eq_Suc)
  obtain y0 y1 y2 y3 y4 y5 y6 y7 where y: "y = [y0, y1, y2, y3, y4, y5, y6, y7]"
    using assms(2) by (auto simp: length_Suc_conv numeral_eq_Suc)
  have p: "push64 384 = [128, 1, 0, 0, 0, 0, 0, 0]" by code_simp
  have z: "replicate 7 (0 :: u8) = [0, 0, 0, 0, 0, 0, 0]" by (simp add: numeral_eq_Suc)
  have l: "length ?m = 48" by (simp add: assms)
  have pad: "rfc_pad ?m = ?m @ [0x80, 0, 0, 0, 0, 0, 0, 0, 128, 1, 0, 0, 0, 0, 0, 0]"
    unfolding rfc_pad_def l by (simp add: p z)
  have w: "words_of (rfc_pad ?m) = ?w"
  proof -
    have "[0..<16] = [0, 1, 2, 3, 4, 5, 6, 7, 8, 9, 10, 11, 12, 13, 14, 15::nat]" by (simp add: upt_rec)
    moreover have "of_le32 128 0 0 0 = 0x80" "of_le32 0 0 0 0 = 0" "of_le32 128 1 0 0 = 384" by code_simp+
    moreover have "concat (replicate 3 z) = z @ z @ z" for z :: "u32 list" by (simp add: numeral_eq_Suc)
    ultimately show ?thesis
      unfolding pad unfolding words_of_def x y by (simp add: read_u32_def)
  qed
  obtain r0 r1 r2 r3 where r: "digest_md5 ?w = (r0, r1, r2, r3)" by (cases "digest_md5 ?w") auto
  have "length (rfc_pad ?m) = 64" unfolding pad by (simp add: assms)
  then have "rfc_blocks (rfc_pad ?m) ?s = rfc_block (rfc_pad ?m) ?s" by (rule rfc_blocks_one)
  also have "\<dots> = (0x67452301 + r0, 0xefcdab89 + r1, 0x98badcfe + r2, 0x10325476 + r3)"
    using r by (simp only: rfc_block_def prod.case w digest_md5_def md5_step_rfc [abs_def] Let_def)
  finally have d: "md5 ?m = (le32 (0x67452301 + r0) @ le32 (0xefcdab89 + r1)) @
      (le32 (0x98badcfe + r2) @ le32 (0x10325476 + r3))"
    by (simp only: md5_def Let_def prod.case append.assoc)
  have l8: "length (le32 a @ le32 b) = 8" for a b by simp
  have h: "take 8 (md5 ?m) = le32 (0x67452301 + r0) @ le32 (0xefcdab89 + r1)"
    "drop 8 (md5 ?m) = le32 (0x98badcfe + r2) @ le32 (0x10325476 + r3)"
    unfolding d by simp_all
  have "hmac_md5 ?x ?y = ((r0 + 0x67452301) XOR (r2 + 0x98badcfe), (r1 + 0xefcdab89) XOR (r3 + 0x10325476))"
    using r by (simp only: hmac_md5_def Let_def prod.case)
  then have "lhmac64_md5 x y = Inr (le32 ((r0 + 0x67452301) XOR (r2 + 0x98badcfe)) @
      le32 ((r1 + 0xefcdab89) XOR (r3 + 0x10325476)))"
    using assms by (simp add: lhmac64_md5_def read64_def pushqword_def)
  then show ?thesis
    unfolding Let_def h by (simp add: le32_XOR add.commute)
qed

theorem hmac64_md5_spec_witness:
  "lhmac64_md5 (replicate 8 1) (replicate 8 2) =
    (let m = md5 ((replicate 8 1 @ replicate 8 2) @ (replicate 8 1 @ replicate 8 2) @ (replicate 8 1 @ replicate 8 2))
     in Inr (map2 (XOR) (take 8 m) (drop 8 m)))"
  by (rule hmac64_md5_spec) simp_all

end
