(* ===== verification/Hashid.thy ===== *)
theory Hashid
  imports Cstr "HOL-Library.Signed_Division"
begin

text \<open>
  The table of \<open>service-src/hashid.h\<close>, which gives each live socket id a slot below \<open>cap\<close>: an array of
  nodes linked into hash chains. Pointers into the array are indices; an \<open>int\<close> addition wraps at 32
  bits. An operation returns \<open>None\<close> where the C code fails an assertion, leaves an array or does not
  return.
\<close>

unbundle bit_operations_syntax

section \<open>Operations\<close>

record hashid_node =
  hn_id :: int
  hn_next :: "nat option"

record hashid =
  hi_hashmod :: int
  hi_cap :: int
  hi_count :: int
  hi_id :: "hashid_node list"
  hi_hash :: "nat option list"

definition free_node :: hashid_node where
  "free_node = \<lparr>hn_id = - 1, hn_next = None\<rparr>"

partial_function (option) hash_cap :: "int \<Rightarrow> int \<Rightarrow> int option" where
  "hash_cap hashcap n = (if hashcap < n then hash_cap (to_int (hashcap * 2)) n else Some hashcap)"

definition hashid_init :: "int \<Rightarrow> hashid option" where
  "hashid_init n = do {
     hashcap \<leftarrow> hash_cap 16 n;
     Some \<lparr>hi_hashmod = hashcap - 1, hi_cap = n, hi_count = 0,
           hi_id = replicate (nat n) free_node, hi_hash = replicate (nat hashcap) None\<rparr>
   }"

definition hashid_clear :: "hashid \<Rightarrow> hashid" where
  "hashid_clear hi = \<lparr>hi_hashmod = 1, hi_cap = 0, hi_count = 0, hi_id = [], hi_hash = []\<rparr>"

definition bucket :: "hashid \<Rightarrow> int \<Rightarrow> nat" where
  "bucket hi sid = nat (sid AND hi_hashmod hi)"

definition hash_head :: "hashid \<Rightarrow> int \<Rightarrow> nat option option" where
  "hash_head hi sid =
     (if bucket hi sid < length (hi_hash hi) then Some (hi_hash hi ! bucket hi sid) else None)"

definition node_at :: "hashid_node list \<Rightarrow> nat \<Rightarrow> hashid_node option" where
  "node_at ns c = (if c < length ns then Some (ns ! c) else None)"

partial_function (option) lookup_loop :: "hashid_node list \<Rightarrow> int \<Rightarrow> nat option \<Rightarrow> int option" where
  "lookup_loop ns sid c =
     (case c of
        None \<Rightarrow> Some (- 1)
      | Some c \<Rightarrow> do {
          n \<leftarrow> node_at ns c;
          if hn_id n = sid then Some (int c) else lookup_loop ns sid (hn_next n)
        })"

definition hashid_lookup :: "hashid \<Rightarrow> int \<Rightarrow> int option" where
  "hashid_lookup hi sid = do { c \<leftarrow> hash_head hi sid; lookup_loop (hi_id hi) sid c }"

text \<open>The loop of \<open>hashid_remove\<close>: the node after \<open>c\<close> in the chain that holds the id is taken out.\<close>

partial_function (option) unlink_loop ::
  "hashid_node list \<Rightarrow> int \<Rightarrow> nat \<Rightarrow> (nat option \<times> hashid_node list) option" where
  "unlink_loop ns sid c = do {
     n \<leftarrow> node_at ns c;
     case hn_next n of
       None \<Rightarrow> Some (None, ns)
     | Some t \<Rightarrow> do {
         tn \<leftarrow> node_at ns t;
         if hn_id tn = sid then Some (Some t, ns[c := n\<lparr>hn_next := hn_next tn\<rparr>])
         else unlink_loop ns sid t
       }
   }"

definition clear_node :: "nat \<Rightarrow> hashid \<Rightarrow> hashid" where
  "clear_node c hi = hi\<lparr>hi_id := (hi_id hi)[c := free_node], hi_count := hi_count hi - 1\<rparr>"

definition hashid_remove :: "hashid \<Rightarrow> int \<Rightarrow> (int \<times> hashid) option" where
  "hashid_remove hi sid = do {
     c \<leftarrow> hash_head hi sid;
     case c of
       None \<Rightarrow> Some (- 1, hi)
     | Some c \<Rightarrow> do {
         n \<leftarrow> node_at (hi_id hi) c;
         if hn_id n = sid then
           Some (int c, clear_node c (hi\<lparr>hi_hash := (hi_hash hi)[bucket hi sid := hn_next n]\<rparr>))
         else do {
           (t, ns) \<leftarrow> unlink_loop (hi_id hi) sid c;
           case t of
             None \<Rightarrow> Some (- 1, hi)
           | Some t \<Rightarrow> Some (int t, clear_node t (hi\<lparr>hi_id := ns\<rparr>))
         }
       }
   }"

text \<open>The search for a free node; \<open>%\<close> truncates towards zero, so a wrapped sum is a negative index.\<close>

function free_slot :: "hashid \<Rightarrow> int \<Rightarrow> int \<Rightarrow> nat option option" where
  "free_slot hi sid i =
     (if i < hi_cap hi then
        let index = to_int (i + sid) smod hi_cap hi in
        if index < 0 then None
        else do {
          n \<leftarrow> node_at (hi_id hi) (nat index);
          if hn_id n = - 1 then Some (Some (nat index)) else free_slot hi sid (i + 1)
        }
      else Some None)"
  by pat_completeness auto
termination by (relation "measure (\<lambda>(hi, sid, i). nat (hi_cap hi - i))") auto

declare free_slot.simps [simp del]

definition hashid_insert :: "hashid \<Rightarrow> int \<Rightarrow> (int \<times> hashid) option" where
  "hashid_insert hi sid = do {
     found \<leftarrow> free_slot hi sid 0;
     c \<leftarrow> found;
     n \<leftarrow> node_at (hi_id hi) c;
     if hn_next n \<noteq> None then None
     else do {
       first \<leftarrow> hash_head hi sid;
       Some (int c, hi\<lparr>hi_count := hi_count hi + 1,
                       hi_id := (hi_id hi)[c := \<lparr>hn_id = sid, hn_next = first\<rparr>],
                       hi_hash := (hi_hash hi)[bucket hi sid := Some c]\<rparr>)
     }
   }"

definition hashid_full :: "hashid \<Rightarrow> bool" where
  "hashid_full hi \<longleftrightarrow> hi_count hi = hi_cap hi"

section \<open>The contract of a table of ids\<close>

text \<open>
  A table binds ids to slots below its capacity. The client below keeps one record per slot, tagged
  with the id bound to the slot, or \<open>- 1\<close>.
\<close>

locale id_table =
  fixes lookup :: "'s \<Rightarrow> int \<Rightarrow> int option"
    and insert :: "'s \<Rightarrow> int \<Rightarrow> (int \<times> 's) option"
    and remove :: "'s \<Rightarrow> int \<Rightarrow> (int \<times> 's) option"
    and full :: "'s \<Rightarrow> bool"
    and capacity :: "'s \<Rightarrow> nat"
    and inv :: "'s \<Rightarrow> bool"
    and binding :: "'s \<Rightarrow> int \<Rightarrow> nat option"
  assumes binding_range: "inv s \<Longrightarrow> binding s k = Some i \<Longrightarrow> i < capacity s"
    and binding_inj: "inv s \<Longrightarrow> binding s k = Some i \<Longrightarrow> binding s k' = Some i \<Longrightarrow> k = k'"
    and no_minus_one: "inv s \<Longrightarrow> binding s (- 1) = None"
    and lookup_ok: "inv s \<Longrightarrow> lookup s k = Some (case binding s k of None \<Rightarrow> - 1 | Some i \<Rightarrow> int i)"
    and insert_ok: "\<lbrakk>inv s; \<not> full s; 0 \<le> k; k + int (capacity s) \<le> 2 ^ 31; binding s k = None\<rbrakk> \<Longrightarrow>
      \<exists>i s'. insert s k = Some (int i, s') \<and> inv s' \<and> capacity s' = capacity s \<and>
        i < capacity s \<and> (\<forall>k'. binding s k' \<noteq> Some i) \<and> binding s' = (binding s)(k \<mapsto> i)"
    and remove_ok: "inv s \<Longrightarrow>
      \<exists>s'. remove s k = Some (case binding s k of None \<Rightarrow> - 1 | Some i \<Rightarrow> int i, s') \<and> inv s' \<and>
        capacity s' = capacity s \<and> binding s' = (binding s)(k := None)"
begin

definition tagged :: "'s \<Rightarrow> (nat \<Rightarrow> int) \<Rightarrow> bool" where
  "tagged s tag \<longleftrightarrow> inv s \<and>
     (\<forall>i < capacity s. case tag i of t \<Rightarrow> if t = - 1 then \<forall>k. binding s k \<noteq> Some i else binding s t = Some i)"

lemma tagged_slot: "tagged s tag \<Longrightarrow> i < capacity s \<Longrightarrow> tag i \<noteq> - 1 \<Longrightarrow> binding s (tag i) = Some i"
  by (simp add: tagged_def)

lemma tagged_lookup:
  assumes "tagged s tag"
  shows "(\<exists>i < capacity s. lookup s k = Some (int i) \<and> tag i = k \<and> k \<noteq> - 1) \<or>
    lookup s k = Some (- 1) \<and> (\<forall>i < capacity s. tag i = k \<longrightarrow> k = - 1)"
proof (cases "binding s k")
  case None
  then have "tag i = k \<longrightarrow> k = - 1" if "i < capacity s" for i
    using tagged_slot [OF assms that] by force
  then show ?thesis using None assms lookup_ok [of s k] by (auto simp: tagged_def)
next
  case (Some i)
  then have "i < capacity s" using assms binding_range tagged_def by blast
  moreover from this have "tag i = k"
    using assms Some binding_inj by (auto simp: tagged_def split: if_splits)
  ultimately show ?thesis using Some assms lookup_ok [of s k] no_minus_one [of s] by (auto simp: tagged_def)
qed

lemma tagged_insert:
  assumes "tagged s tag" "\<not> full s" "0 \<le> k" "k + int (capacity s) \<le> 2 ^ 31"
    "\<forall>i < capacity s. tag i \<noteq> k"
  shows "\<exists>i s'. insert s k = Some (int i, s') \<and> i < capacity s \<and> capacity s' = capacity s \<and>
    tag i = - 1 \<and> tagged s' (tag(i := k))"
proof -
  have inv: "inv s" using assms(1) tagged_def by blast
  have "binding s k = None"
  proof (rule ccontr)
    assume "binding s k \<noteq> None"
    then obtain i where "binding s k = Some i" by auto
    then show False
      using assms(1,5) tagged_lookup [OF assms(1), of k] lookup_ok [OF inv, of k] binding_range [OF inv] by auto
  qed
  then obtain i s' where i: "insert s k = Some (int i, s')" "inv s'" "capacity s' = capacity s"
    "i < capacity s" "\<forall>k'. binding s k' \<noteq> Some i" "binding s' = (binding s)(k \<mapsto> i)"
    using insert_ok inv assms by blast
  have "tag i = - 1" using assms(1) i(4,5) by (auto simp: tagged_def split: if_splits)
  moreover have "tagged s' (tag(i := k))"
    unfolding tagged_def
  proof (intro conjI allI impI)
    show "inv s'" by (rule i)
    fix j assume j: "j < capacity s'"
    show "case (tag(i := k)) j of t \<Rightarrow> if t = - 1 then \<forall>k. binding s' k \<noteq> Some j else binding s' t = Some j"
    proof (cases "j = i")
      case True
      then show ?thesis using assms(3) i by simp
    next
      case False
      then show ?thesis using assms(1,5) i j by (auto simp: tagged_def split: if_splits)
    qed
  qed
  ultimately show ?thesis using i by blast
qed

lemma tagged_remove:
  assumes "tagged s tag"
  shows "(\<exists>i s'. i < capacity s \<and> remove s k = Some (int i, s') \<and> tag i = k \<and> k \<noteq> - 1 \<and>
      capacity s' = capacity s \<and> tagged s' (tag(i := - 1))) \<or>
    (\<exists>s'. remove s k = Some (- 1, s') \<and> (\<forall>i < capacity s. tag i = k \<longrightarrow> k = - 1) \<and>
      capacity s' = capacity s \<and> tagged s' tag)"
proof -
  have inv: "inv s" using assms tagged_def by blast
  obtain s' where s': "remove s k = Some (case binding s k of None \<Rightarrow> - 1 | Some i \<Rightarrow> int i, s')" "inv s'"
    "capacity s' = capacity s" "binding s' = (binding s)(k := None)"
    using remove_ok [OF inv, of k] by blast
  show ?thesis
  proof (cases "binding s k")
    case None
    then have "tagged s' tag" using assms s' by (auto simp: tagged_def split: if_splits)
    moreover have "\<forall>i < capacity s. tag i = k \<longrightarrow> k = - 1" using None tagged_slot [OF assms] by fastforce
    ultimately show ?thesis using s' None by auto
  next
    case (Some i)
    have i: "i < capacity s" "tag i = k" "k \<noteq> - 1"
      using tagged_lookup [OF assms, of k] lookup_ok [OF inv, of k] Some by auto
    have "tagged s' (tag(i := - 1))"
      unfolding tagged_def
    proof (intro conjI allI impI)
      show "inv s'" by (rule s')
      fix j assume j: "j < capacity s'"
      show "case (tag(i := - 1)) j of t \<Rightarrow> if t = - 1 then \<forall>k. binding s' k \<noteq> Some j else binding s' t = Some j"
      proof (cases "j = i")
        case True
        then show ?thesis using s'(4) binding_inj [OF inv Some] by auto
      next
        case False
        moreover have "tag j \<noteq> k \<or> k = - 1"
          using False Some assms j s'(3) by (auto simp: tagged_def split: if_splits)
        ultimately show ?thesis using assms j s' i by (auto simp: tagged_def split: if_splits)
      qed
    qed
    then show ?thesis using s' Some i by auto
  qed
qed

end

section \<open>The table keeps the contract\<close>

definition idof :: "hashid_node list \<Rightarrow> nat \<Rightarrow> int" where
  "idof ns i = (if i < length ns then hn_id (ns ! i) else - 1)"

definition next_of :: "hashid_node list \<Rightarrow> nat \<Rightarrow> nat option" where
  "next_of ns i = (if i < length ns then hn_next (ns ! i) else None)"

definition used :: "hashid_node list \<Rightarrow> nat set" where
  "used ns = {i. idof ns i \<noteq> - 1}"

definition chains_ok :: "hashid \<Rightarrow> (nat \<Rightarrow> nat list) \<Rightarrow> bool" where
  "chains_ok hi L \<longleftrightarrow> (\<forall>h < length (hi_hash hi).
     chain (next_of (hi_id hi)) (hi_hash hi ! h) (L h) \<and> distinct (L h) \<and>
     set (L h) = {i. i \<in> used (hi_id hi) \<and> bucket hi (idof (hi_id hi) i) = h})"

text \<open>
  The invariant: a power of two of buckets, the count is the number of used nodes, no id twice, free
  nodes unlinked, and the chain of a bucket holds exactly the used nodes that hash to it.
\<close>

definition hashid_wf :: "hashid \<Rightarrow> bool" where
  "hashid_wf hi \<longleftrightarrow>
     (\<exists>m. hi_hashmod hi = 2 ^ m - 1 \<and> length (hi_hash hi) = 2 ^ m) \<and>
     hi_cap hi = int (length (hi_id hi)) \<and>
     hi_count hi = int (card (used (hi_id hi))) \<and>
     inj_on (idof (hi_id hi)) (used (hi_id hi)) \<and>
     (\<forall>i. i \<notin> used (hi_id hi) \<longrightarrow> next_of (hi_id hi) i = None) \<and>
     (\<exists>L. chains_ok hi L)"

definition binding :: "hashid \<Rightarrow> int \<Rightarrow> nat option" where
  "binding hi k = (if k = - 1 then None else find (\<lambda>i. idof (hi_id hi) i = k) [0..<length (hi_id hi)])"

lemma used_range: "i \<in> used ns \<Longrightarrow> i < length ns"
  by (auto simp: used_def idof_def split: if_splits)

lemma finite_used [simp]: "finite (used ns)"
  using used_range by (rule_tac finite_subset [of _ "{..<length ns}"]) auto

lemma idof_update: "c < length ns \<Longrightarrow> idof (ns[c := n]) = (idof ns)(c := hn_id n)"
  by (auto simp: idof_def)

lemma next_of_update: "c < length ns \<Longrightarrow> next_of (ns[c := n]) = (next_of ns)(c := hn_next n)"
  by (auto simp: next_of_def)

lemma find_SomeD: "find Q xs = Some x \<Longrightarrow> x \<in> set xs \<and> Q x"
  by (auto simp: find_Some_iff)

lemma binding_iff:
  assumes "inj_on (idof (hi_id hi)) (used (hi_id hi))"
  shows "binding hi k = Some i \<longleftrightarrow> i \<in> used (hi_id hi) \<and> idof (hi_id hi) i = k"
proof (cases "k = - 1")
  case False
  let ?f = "find (\<lambda>i. idof (hi_id hi) i = k) [0..<length (hi_id hi)]"
  have "i' = i" if "?f = Some i'" "i \<in> used (hi_id hi)" "idof (hi_id hi) i = k" for i'
    using find_SomeD [OF that(1)] that(2,3) assms False by (auto simp: used_def inj_on_def)
  moreover have "?f \<noteq> None" if "i \<in> used (hi_id hi)" "idof (hi_id hi) i = k"
    using used_range [OF that(1)] that(2) by (auto simp: find_None_iff)
  ultimately show ?thesis
    using False find_SomeD [of _ "[0..<length (hi_id hi)]" i] by (auto simp: binding_def used_def)
qed (auto simp: binding_def used_def)

lemma bucket_less:
  assumes "hi_hashmod hi = 2 ^ m - 1"
  shows "bucket hi k < 2 ^ m"
proof -
  have "k AND hi_hashmod hi = take_bit m k"
    by (simp only: assms take_bit_eq_mask mask_eq_exp_minus_1)
  moreover have "take_bit m k < 2 ^ m" "0 \<le> take_bit m k" by simp_all
  ultimately show ?thesis by (metis bucket_def nat_less_iff of_nat_numeral of_nat_power)
qed

lemma wf_bucket: "hashid_wf hi \<Longrightarrow> bucket hi k < length (hi_hash hi)"
  using bucket_less by (auto simp: hashid_wf_def)

lemma lookup_loop_find:
  "chain (next_of ns) c xs \<Longrightarrow> \<forall>i \<in> set xs. i < length ns \<Longrightarrow>
     lookup_loop ns k c = Some (case find (\<lambda>i. idof ns i = k) xs of None \<Rightarrow> - 1 | Some i \<Rightarrow> int i)"
  by (induction xs arbitrary: c)
     (subst lookup_loop.simps; auto simp: node_at_def idof_def next_of_def)+

lemma find_in_chain:
  assumes "hashid_wf hi" "chains_ok hi L"
  shows "k = - 1 \<or> find (\<lambda>i. idof (hi_id hi) i = k) (L (bucket hi k)) = binding hi k"
    (is "_ \<or> ?f = _")
proof (cases "k = - 1")
  case False
  have inj: "inj_on (idof (hi_id hi)) (used (hi_id hi))" using assms(1) by (simp add: hashid_wf_def)
  have L: "set (L (bucket hi k)) = {i. i \<in> used (hi_id hi) \<and> bucket hi (idof (hi_id hi) i) = bucket hi k}"
    using assms(2) wf_bucket [OF assms(1)] by (simp add: chains_ok_def)
  have "?f = Some i \<longleftrightarrow> binding hi k = Some i" for i
  proof
    assume "?f = Some i"
    then show "binding hi k = Some i" using find_SomeD [of _ _ i] L binding_iff [OF inj] by fastforce
  next
    assume b: "binding hi k = Some i"
    then have i: "i \<in> used (hi_id hi)" "idof (hi_id hi) i = k" using binding_iff [OF inj] by auto
    then have "?f \<noteq> None" using L by (auto simp: find_None_iff)
    then obtain i' where f: "?f = Some i'" by blast
    then have "i' \<in> used (hi_id hi)" "idof (hi_id hi) i' = k" using find_SomeD [OF f] L by auto
    then have "i' = i" using i inj by (auto simp: inj_on_def)
    then show "?f = Some i" using f by simp
  qed
  then show ?thesis by (metis option.exhaust)
qed simp

lemma chain_in_range:
  "hashid_wf hi \<Longrightarrow> chains_ok hi L \<Longrightarrow> i \<in> set (L (bucket hi k)) \<Longrightarrow> i < length (hi_id hi)"
  using wf_bucket [of hi k] used_range by (auto simp: chains_ok_def)

lemma hashid_lookup_binding:
  assumes "hashid_wf hi" 
  shows "hashid_lookup hi k = Some (case binding hi k of None \<Rightarrow> - 1 | Some i \<Rightarrow> int i)"
proof -
  obtain L where L: "chains_ok hi L" using assms by (auto simp: hashid_wf_def)
  have b: "bucket hi k < length (hi_hash hi)" by (rule wf_bucket [OF assms])
  have "hashid_lookup hi k =
      Some (case find (\<lambda>i. idof (hi_id hi) i = k) (L (bucket hi k)) of None \<Rightarrow> - 1 | Some i \<Rightarrow> int i)"
    using L b lookup_loop_find [of "hi_id hi" "hi_hash hi ! bucket hi k" "L (bucket hi k)" k] chain_in_range [OF assms L, of _ k]
    by (simp add: hashid_lookup_def hash_head_def chains_ok_def)
  moreover have "find (\<lambda>i. idof (hi_id hi) i = k) (L (bucket hi k)) = binding hi k"
  proof (cases "k = - 1")
    case True
    then have "\<forall>i \<in> set (L (bucket hi k)). idof (hi_id hi) i \<noteq> k"
      using L b by (auto simp: chains_ok_def used_def)
    then have "find (\<lambda>i. idof (hi_id hi) i = k) (L (bucket hi k)) = None" by (auto simp: find_None_iff)
    then show ?thesis using True by (simp add: binding_def)
  qed (use find_in_chain [OF assms L] in blast)
  ultimately show ?thesis by simp
qed

lemma lookup_wf:
  assumes "hashid_wf hi"
  shows "inj_on (idof (hi_id hi)) (used (hi_id hi))" "hi_cap hi = int (length (hi_id hi))"
    "hi_count hi = int (card (used (hi_id hi)))"
    "i \<notin> used (hi_id hi) \<Longrightarrow> next_of (hi_id hi) i = None"
  using assms by (auto simp: hashid_wf_def)

lemma hashid_full_iff:
  assumes "hashid_wf hi"
  shows "\<not> hashid_full hi \<longleftrightarrow> (\<exists>i < length (hi_id hi). i \<notin> used (hi_id hi))"
proof
  assume "\<not> hashid_full hi"
  then have "card (used (hi_id hi)) \<noteq> length (hi_id hi)" using lookup_wf [OF assms] by (simp add: hashid_full_def)
  then have "used (hi_id hi) \<noteq> {..<length (hi_id hi)}" by (metis card_lessThan)
  then show "\<exists>i < length (hi_id hi). i \<notin> used (hi_id hi)" using used_range by blast
next
  assume "\<exists>i < length (hi_id hi). i \<notin> used (hi_id hi)"
  then have "used (hi_id hi) \<subset> {..<length (hi_id hi)}" using used_range by blast
  then have "card (used (hi_id hi)) < length (hi_id hi)" by (metis card_lessThan finite_lessThan psubset_card_mono)
  then show "\<not> hashid_full hi" using lookup_wf [OF assms] by (simp add: hashid_full_def)
qed

lemma to_int_small: "0 \<le> v \<Longrightarrow> v < 2 ^ 31 \<Longrightarrow> to_int v = v"
  by (simp add: to_int_def)

lemma smod_nonneg: "0 \<le> a \<Longrightarrow> 0 < b \<Longrightarrow> a smod b = a mod b" for a b :: int
  by (cases "a = 0") (simp_all add: signed_modulo_int_def sgn_if)

lemma free_slot_ok:
  assumes "hi_cap hi = int (length (hi_id hi))" "0 \<le> k" "k + hi_cap hi \<le> 2 ^ 31"
  shows "0 \<le> i \<Longrightarrow> i \<le> j \<Longrightarrow> j < hi_cap hi \<Longrightarrow> nat ((j + k) mod hi_cap hi) \<notin> used (hi_id hi) \<Longrightarrow>
    \<exists>c. free_slot hi k i = Some (Some c) \<and> c < length (hi_id hi) \<and> c \<notin> used (hi_id hi)"
  using assms
proof (induction hi k i rule: free_slot.induct)
  case (1 hi k i)
  define c where "c = nat ((i + k) mod hi_cap hi)"
  have pos: "0 < hi_cap hi" "i < hi_cap hi" using "1.prems"(1-3) by linarith+
  have ic: "int c = (i + k) mod hi_cap hi" using pos by (simp add: c_def)
  have c: "c < length (hi_id hi)" using pos ic "1.prems"(5) by (metis of_nat_less_iff pos_mod_bound)
  have x: "to_int (i + k) smod hi_cap hi = int c"
    using "1.prems" pos ic by (simp add: to_int_small smod_nonneg)
  have step: "free_slot hi k i = (if c \<in> used (hi_id hi) then free_slot hi k (i + 1) else Some (Some c))"
    using pos c by (subst free_slot.simps) (simp add: x node_at_def used_def idof_def)
  show ?case
  proof (cases "c \<in> used (hi_id hi)")
    case True
    then have "i \<noteq> j" using "1.prems"(4) c_def by auto
    then have "\<exists>c. free_slot hi k (i + 1) = Some (Some c) \<and> c < length (hi_id hi) \<and> c \<notin> used (hi_id hi)"
      using "1.IH" [OF pos(2) x [symmetric], of "hi_id hi ! c"] "1.prems" c True
      by (simp add: node_at_def used_def idof_def)
    then show ?thesis using True step by simp
  next
    case False
    then show ?thesis using c step by simp
  qed
qed

lemma hashid_insert_ok:
  assumes wf: "hashid_wf hi" and nf: "\<not> hashid_full hi" and k: "0 \<le> k" "k + int (length (hi_id hi)) \<le> 2 ^ 31"
    and fresh: "binding hi k = None"
  shows "\<exists>c hi'. hashid_insert hi k = Some (int c, hi') \<and> hashid_wf hi' \<and>
    length (hi_id hi') = length (hi_id hi) \<and> c < length (hi_id hi) \<and> (\<forall>k'. binding hi k' \<noteq> Some c) \<and>
    binding hi' = (binding hi)(k \<mapsto> c)"
proof -
  let ?ns = "hi_id hi" and ?h = "bucket hi k"
  obtain d where d: "d < length ?ns" "d \<notin> used ?ns" using nf hashid_full_iff [OF wf] by blast
  let ?j = "(int d - k) mod hi_cap hi"
  have cap: "hi_cap hi = int (length ?ns)" by (rule lookup_wf [OF wf])
  have "(?j + k) mod hi_cap hi = int d" using d cap by (simp add: mod_simps)
  moreover have "0 < hi_cap hi" using d(1) cap by linarith
  then have "0 \<le> ?j" "?j < hi_cap hi" by (simp_all only: pos_mod_sign pos_mod_bound)
  ultimately have "\<exists>c. free_slot hi k 0 = Some (Some c) \<and> c < length ?ns \<and> c \<notin> used ?ns"
    using free_slot_ok [OF cap k(1), of 0 ?j] k(2) d(2) unfolding cap by (metis nat_int order_refl)
  then obtain c where c: "free_slot hi k 0 = Some (Some c)" "c < length ?ns" "c \<notin> used ?ns" by blast
  have idc: "idof ?ns c = - 1" using c by (simp add: used_def)
  have nc: "hn_next (?ns ! c) = None" using lookup_wf(4) [OF wf c(3)] c by (simp add: next_of_def)
  obtain L where L: "chains_ok hi L" using wf by (auto simp: hashid_wf_def)
  have b: "?h < length (hi_hash hi)" by (rule wf_bucket [OF wf])
  define first where "first = hi_hash hi ! ?h"
  define ns where "ns = ?ns[c := \<lparr>hn_id = k, hn_next = first\<rparr>]"
  define hi' where "hi' = hi\<lparr>hi_count := hi_count hi + 1, hi_id := ns, hi_hash := (hi_hash hi)[?h := Some c]\<rparr>"
  have ins: "hashid_insert hi k = Some (int c, hi')"
    using c nc b by (simp add: hashid_insert_def node_at_def hash_head_def hi'_def ns_def first_def)
  have idn: "idof ns = (idof ?ns)(c := k)" and nxn: "next_of ns = (next_of ?ns)(c := first)"
    using c by (simp_all add: ns_def idof_update next_of_update)
  have u: "used ns = insert c (used ?ns)" using k idn by (auto simp: used_def)
  have nk: "idof ?ns i \<noteq> k" if "i \<in> used ?ns" for i
    using that fresh binding_iff [OF lookup_wf(1) [OF wf], of k i] by auto
  have inj: "inj_on (idof ns) (used ns)"
    using lookup_wf(1) [OF wf] nk c unfolding u by (auto simp: idn inj_on_def)
  have bk: "bucket hi' = bucket hi" by (auto simp: bucket_def hi'_def)
  have "chains_ok hi' (L(?h := c # L ?h))"
    unfolding chains_ok_def
  proof (intro allI impI)
    fix h assume "h < length (hi_hash hi')"
    then have h: "h < length (hi_hash hi)" by (simp add: hi'_def)
    have l: "chain (next_of ?ns) (hi_hash hi ! h) (L h)" "distinct (L h)"
      "set (L h) = {i. i \<in> used ?ns \<and> bucket hi (idof ?ns i) = h}"
      using L h by (auto simp: chains_ok_def)
    have nin: "c \<notin> set (L h)" using l(3) c by auto
    have hi'n: "hi_id hi' = ns" by (simp add: hi'_def)
    show "chain (next_of (hi_id hi')) (hi_hash hi' ! h) ((L(?h := c # L ?h)) h) \<and>
        distinct ((L(?h := c # L ?h)) h) \<and>
        set ((L(?h := c # L ?h)) h) = {i. i \<in> used (hi_id hi') \<and> bucket hi' (idof (hi_id hi') i) = h}"
      unfolding hi'n bk u nxn idn
      using l nin h c(3) by (cases "h = ?h") (auto simp: hi'_def first_def chain_upd_notin)
  qed
  then have "\<exists>L. chains_ok hi' L" by blast
  moreover have "\<forall>i. i \<notin> used ns \<longrightarrow> next_of ns i = None" using lookup_wf(4) [OF wf] u nxn by auto
  moreover have "int (card (used ns)) = hi_count hi + 1" using lookup_wf(3) [OF wf] c u by simp
  moreover have "length ns = length ?ns" by (simp add: ns_def)
  ultimately have wf': "hashid_wf hi'" using wf inj by (simp add: hashid_wf_def hi'_def)
  have "binding hi' k' = ((binding hi)(k \<mapsto> c)) k'" for k'
  proof -
    have hi'n: "hi_id hi' = ns" by (simp add: hi'_def)
    have "binding hi' k' = Some i \<longleftrightarrow> ((binding hi)(k \<mapsto> c)) k' = Some i" for i
      using binding_iff [OF inj [folded hi'n], of k' i] binding_iff [OF lookup_wf(1) [OF wf], of k' i] nk c
      unfolding hi'n u by (auto simp: idn)
    then show ?thesis by (metis option.exhaust)
  qed
  moreover have "binding hi k' \<noteq> Some c" for k'
    using binding_iff [OF lookup_wf(1) [OF wf], of k' c] c by auto
  ultimately show ?thesis using ins wf' c(2) by (auto simp: hi'_def ns_def)
qed

text \<open>Removal.\<close>

lemma unlink_loop_ok:
  assumes "chain (next_of ns) (Some c) (c # xs)" "\<forall>i \<in> set (c # xs). i < length ns"
  shows "\<forall>i \<in> set xs. idof ns i \<noteq> k \<Longrightarrow> unlink_loop ns k c = Some (None, ns)"
    "xs = ys @ t # zs \<Longrightarrow> \<forall>i \<in> set ys. idof ns i \<noteq> k \<Longrightarrow> idof ns t = k \<Longrightarrow> \<exists>b n.
       b = last (c # ys) \<and> hn_id n = idof ns b \<and> hn_next n = next_of ns t \<and>
       unlink_loop ns k c = Some (Some t, ns[b := n])"
  using assms
proof (induction xs arbitrary: c ys)
  case Nil
  { case 1 then show ?case by (subst unlink_loop.simps) (simp add: node_at_def next_of_def) }
  { case 2 then show ?case by simp }
next
  case (Cons x xs)
  have nx: "hn_next (ns ! c) = Some x" "c < length ns" "x < length ns" "chain (next_of ns) (Some x) (x # xs)"
    if "chain (next_of ns) (Some c) (c # x # xs)" "\<forall>i \<in> set (c # x # xs). i < length ns" for c
    using that by (auto simp: next_of_def)
  { case 1
    note n = nx [OF 1(2,3)]
    have "unlink_loop ns k x = Some (None, ns)" using 1 n by (intro Cons.IH(1)) auto
    then show ?case using 1(1) n by (subst unlink_loop.simps) (simp add: node_at_def idof_def) }
  { case 2
    note n = nx [OF 2(4,5)]
    show ?case
    proof (cases ys)
      case Nil
      then have "t = x" using 2 by simp
      then have "unlink_loop ns k c = Some (Some t, ns[c := (ns ! c)\<lparr>hn_next := next_of ns t\<rparr>])"
        using 2(3) n by (subst unlink_loop.simps) (simp add: node_at_def idof_def next_of_def)
      then show ?thesis
        using Nil n by (intro exI [of _ c] exI [of _ "(ns ! c)\<lparr>hn_next := next_of ns t\<rparr>"]) (simp add: idof_def)
    next
      case (Cons y ys')
      then have "y = x" "xs = ys' @ t # zs" using 2 by auto
      moreover have "\<exists>b n. b = last (x # ys') \<and> hn_id n = idof ns b \<and> hn_next n = next_of ns t \<and>
          unlink_loop ns k x = Some (Some t, ns[b := n])"
        using 2 n calculation Cons by (intro Cons.IH(2) [of ys']) auto
      moreover have "hn_id (ns ! x) \<noteq> k" using 2(2) Cons calculation(1) n(3) by (simp add: idof_def)
      ultimately show ?thesis
        using Cons n by (subst unlink_loop.simps) (simp add: node_at_def)
    qed }
qed

lemma chain_unlink:
  "chain nxt p (ys @ b # t # zs) \<Longrightarrow> distinct (ys @ b # t # zs) \<Longrightarrow>
     chain (nxt(b := nxt t, t := None)) p (ys @ b # zs)"
proof (induction ys arbitrary: p)
  case Nil
  then have "b \<notin> set zs" "t \<notin> set zs" "b \<noteq> t" "p = Some b" "chain nxt (nxt t) zs" by auto
  then have "chain (nxt(b := nxt t, t := None)) (nxt t) zs" by (metis chain_upd_notin)
  then show ?case using \<open>b \<noteq> t\<close> \<open>p = Some b\<close> unfolding append.simps chain.simps by simp
qed auto

text \<open>
  What both ways of taking a node out establish: node \<open>t\<close> is gone from the chain of its bucket and from
  the used nodes, and everything else is as before.
\<close>

lemma removed_wf:
  assumes wf: "hashid_wf hi" and L: "chains_ok hi L" and b: "binding hi k = Some t"
    and hi': "hi' = hi\<lparr>hi_id := ns, hi_hash := hash, hi_count := hi_count hi - 1\<rparr>"
    and shape: "length ns = length (hi_id hi)" "length hash = length (hi_hash hi)"
    and ids: "idof ns = (idof (hi_id hi))(t := - 1)"
    and links: "\<forall>i. i \<notin> used ns \<longrightarrow> next_of ns i = None"
    and own: "chain (next_of ns) (hash ! bucket hi k) (remove1 t (L (bucket hi k)))"
    and others: "\<And>h. h < length hash \<Longrightarrow> h \<noteq> bucket hi k \<Longrightarrow> chain (next_of ns) (hash ! h) (L h)"
  shows "hashid_wf hi' \<and> binding hi' = (binding hi)(k := None)"
proof -
  note inj = lookup_wf(1) [OF wf]
  have t: "t \<in> used (hi_id hi)" "idof (hi_id hi) t = k" using b binding_iff [OF inj] by auto
  have u: "used ns = used (hi_id hi) - {t}" using ids by (auto simp: used_def)
  have bk: "bucket hi' = bucket hi" by (auto simp: bucket_def hi')
  have injn: "inj_on (idof ns) (used ns)" using inj by (auto simp: u ids inj_on_def)
  have n: "hi_id hi' = ns" "hi_hash hi' = hash" by (simp_all add: hi')
  have "chains_ok hi' (L(bucket hi k := remove1 t (L (bucket hi k))))" (is "chains_ok _ ?L")
    unfolding chains_ok_def n
  proof (intro allI impI)
    fix h assume h: "h < length hash"
    then have l: "distinct (L h)" "set (L h) = {i. i \<in> used (hi_id hi) \<and> bucket hi (idof (hi_id hi) i) = h}"
      using L shape by (auto simp: chains_ok_def)
    show "chain (next_of ns) (hash ! h) (?L h) \<and> distinct (?L h) \<and>
        set (?L h) = {i. i \<in> used ns \<and> bucket hi' (idof ns i) = h}"
      using l own others [OF h] t(2) unfolding u ids bk
      by (cases "h = bucket hi k") (auto simp: set_remove1_eq)
  qed
  moreover have "int (card (used ns)) = hi_count hi - 1"
    using lookup_wf(3) [OF wf] t u card_Suc_Diff1 [of "used (hi_id hi)" t] by (simp flip: of_nat_Suc)
  ultimately have "hashid_wf hi'"
    using wf injn links shape unfolding hashid_wf_def n by (auto simp: hi')
  moreover have "binding hi' k' = ((binding hi)(k := None)) k'" for k'
  proof -
    have "binding hi' k' = Some i \<longleftrightarrow> ((binding hi)(k := None)) k' = Some i" for i
      using binding_iff [of hi' k' i] binding_iff [OF inj, of k' i] injn t inj
      unfolding n by (auto simp: u ids inj_on_def)
    then show ?thesis by (metis option.exhaust)
  qed
  ultimately show ?thesis by auto
qed

lemma hashid_remove_ok:
  assumes wf: "hashid_wf hi"
  shows "\<exists>hi'. hashid_remove hi k = Some (case binding hi k of None \<Rightarrow> - 1 | Some i \<Rightarrow> int i, hi') \<and> hashid_wf hi' \<and>
    length (hi_id hi') = length (hi_id hi) \<and> binding hi' = (binding hi)(k := None)"
proof -
  let ?ns = "hi_id hi" and ?h = "bucket hi k"
  note inj = lookup_wf(1) [OF wf]
  obtain L where L: "chains_ok hi L" using wf by (auto simp: hashid_wf_def)
  have h: "?h < length (hi_hash hi)" by (rule wf_bucket [OF wf])
  have l: "chain (next_of ?ns) (hi_hash hi ! ?h) (L ?h)" "distinct (L ?h)"
    "set (L ?h) = {i. i \<in> used ?ns \<and> bucket hi (idof ?ns i) = ?h}"
    using L h by (auto simp: chains_ok_def)
  have lc: "chain (next_of ?ns) (hi_hash hi ! h') (L h')" "set (L h') = {i. i \<in> used ?ns \<and> bucket hi (idof ?ns i) = h'}"
    if "h' < length (hi_hash hi)" for h'
    using L that by (auto simp: chains_ok_def)
  have rng: "\<forall>i \<in> set (L ?h). i < length ?ns" using l(3) used_range by auto
  have miss: "\<forall>i \<in> set (L ?h). idof ?ns i \<noteq> k" if "binding hi k = None"
    using that binding_iff [OF inj, of k] l(3) by fastforce
  have hit: "t \<in> set (L ?h) \<and> idof ?ns t = k" if "binding hi k = Some t" for t
    using that binding_iff [OF inj, of k] l(3) by auto
  have uniq: "i = t" if "binding hi k = Some t" "i \<in> set (L ?h)" "idof ?ns i = k" for i t
    using that binding_iff [OF inj, of k] l(3) inj by (auto simp: inj_on_def)
  show ?thesis
  proof (cases "L ?h")
    case Nil
    then have "hashid_remove hi k = Some (- 1, hi)" using l h by (auto simp: hashid_remove_def hash_head_def)
    moreover have "binding hi k = None" using hit Nil by (cases "binding hi k") auto
    ultimately show ?thesis using wf by auto
  next
    case (Cons c xs)
    then have c: "hi_hash hi ! ?h = Some c" "c < length ?ns" "chain (next_of ?ns) (next_of ?ns c) xs"
      using l rng by auto
    show ?thesis
    proof (cases "hn_id (?ns ! c) = k")
      case True
      then have b: "binding hi k = Some c"
        using binding_iff [OF inj, of k c] l(3) Cons c(2) by (auto simp: idof_def)
      define hi' where "hi' = clear_node c (hi\<lparr>hi_hash := (hi_hash hi)[?h := next_of ?ns c]\<rparr>)"
      have "hashid_remove hi k = Some (int c, hi')"
        using True h c by (simp add: hashid_remove_def hash_head_def node_at_def hi'_def next_of_def)
      moreover have "hashid_wf hi' \<and> binding hi' = (binding hi)(k := None)"
      proof (rule removed_wf [OF wf L b])
        show "hi' = hi\<lparr>hi_id := ?ns[c := free_node], hi_hash := (hi_hash hi)[?h := next_of ?ns c],
            hi_count := hi_count hi - 1\<rparr>" by (simp add: hi'_def clear_node_def)
        show "idof (?ns[c := free_node]) = (idof ?ns)(c := - 1)" using c by (simp add: idof_update free_node_def)
        show "\<forall>i. i \<notin> used (?ns[c := free_node]) \<longrightarrow> next_of (?ns[c := free_node]) i = None"
          using c lookup_wf(4) [OF wf] by (auto simp: next_of_update idof_update used_def free_node_def)
        show "chain (next_of (?ns[c := free_node])) ((hi_hash hi)[?h := next_of ?ns c] ! ?h) (remove1 c (L ?h))"
          using c h l(2) Cons by (simp add: next_of_update chain_upd_notin)
        fix h' assume "h' < length ((hi_hash hi)[?h := next_of ?ns c])" "h' \<noteq> ?h"
        then show "chain (next_of (?ns[c := free_node])) ((hi_hash hi)[?h := next_of ?ns c] ! h') (L h')"
          using lc [of h'] c hit [OF b] by (simp add: next_of_update chain_upd_notin)
      qed simp_all
      ultimately show ?thesis using b by (auto simp: hi'_def clear_node_def)
    next
      case False
      then have nid: "idof ?ns c \<noteq> k" using c by (simp add: idof_def)
      have ch: "chain (next_of ?ns) (Some c) (c # xs)" "\<forall>i \<in> set (c # xs). i < length ?ns"
        using c rng Cons by simp_all
      show ?thesis
      proof (cases "binding hi k")
        case None
        then have "unlink_loop ?ns k c = Some (None, ?ns)"
          using unlink_loop_ok(1) [OF ch] miss Cons by simp
        then have "hashid_remove hi k = Some (- 1, hi)"
          using False h c by (simp add: hashid_remove_def hash_head_def node_at_def)
        then show ?thesis using None wf by auto
      next
        case (Some t)
        then have "t \<in> set xs" using hit [OF Some] nid Cons by auto
        then obtain ys zs where xs: "xs = ys @ t # zs" "t \<notin> set ys" by (meson split_list_first)
        have "\<forall>i \<in> set ys. idof ?ns i \<noteq> k" using uniq [OF Some] xs Cons by fastforce
        then obtain b n where u: "b = last (c # ys)" "hn_id n = idof ?ns b" "hn_next n = next_of ?ns t"
          "unlink_loop ?ns k c = Some (Some t, ?ns[b := n])"
          using unlink_loop_ok(2) [OF ch xs(1)] hit [OF Some] by blast
        define ns where "ns = ?ns[b := n, t := free_node]"
        define hi' where "hi' = clear_node t (hi\<lparr>hi_id := ?ns[b := n]\<rparr>)"
        have rm: "hashid_remove hi k = Some (int t, hi')"
          using False h c u by (simp add: hashid_remove_def hash_head_def node_at_def hi'_def)
        obtain as where as: "c # ys = as @ [b]" using u(1) by (metis append_butlast_last_id list.discI)
        have Lh: "L ?h = as @ b # t # zs" using Cons xs as by (metis append_Cons append_assoc append_Nil)
        have bt: "b < length ?ns" "t < length ?ns" "b \<noteq> t" using rng l(2) Lh by auto
        have nxn: "next_of ns = (next_of ?ns)(b := next_of ?ns t, t := None)"
          using bt u by (simp add: ns_def next_of_update free_node_def)
        have idn: "idof ns = (idof ?ns)(t := - 1)"
          using bt u by (simp add: ns_def idof_update free_node_def)
        have "hashid_wf hi' \<and> binding hi' = (binding hi)(k := None)"
        proof (rule removed_wf [OF wf L Some])
          show "hi' = hi\<lparr>hi_id := ns, hi_hash := hi_hash hi, hi_count := hi_count hi - 1\<rparr>"
            by (simp add: hi'_def ns_def clear_node_def)
          show "idof ns = (idof ?ns)(t := - 1)" by (rule idn)
          have "b \<in> used ?ns" using l(3) Lh by auto
          then show "\<forall>i. i \<notin> used ns \<longrightarrow> next_of ns i = None"
            using lookup_wf(4) [OF wf] bt by (auto simp: nxn idn used_def)
          have "remove1 t (L ?h) = as @ b # zs" using l(2) bt by (simp add: Lh remove1_append)
          then show "chain (next_of ns) (hi_hash hi ! ?h) (remove1 t (L ?h))"
            using chain_unlink [of "next_of ?ns" "hi_hash hi ! ?h" as b t zs] l by (simp add: nxn Lh)
          fix h' assume h': "h' < length (hi_hash hi)" "h' \<noteq> ?h"
          then have "b \<notin> set (L h')" "t \<notin> set (L h')" using lc(2) [of h'] l(3) Lh by auto
          then show "chain (next_of ns) (hi_hash hi ! h') (L h')"
            using lc(1) [OF h'(1)] unfolding nxn by (metis chain_upd_notin)
        qed (simp_all add: ns_def)
        then show ?thesis using rm Some by (auto simp: hi'_def clear_node_def)
      qed
    qed
  qed
qed

lemma hash_cap_power:
  assumes "n \<le> 2 ^ 30"
  shows "m \<le> 30 \<Longrightarrow> \<exists>m'. hash_cap (2 ^ m) n = Some (2 ^ m')"
proof (induction "30 - m" arbitrary: m rule: less_induct)
  case less
  show ?case
  proof (cases "2 ^ m < n")
    case True
    then have "(2 :: int) ^ m < 2 ^ 30" using assms by linarith
    then have m: "m < 30" using power_less_imp_less_exp [of "2 :: int" m 30] by simp
    then have "(2 :: int) ^ Suc m \<le> 2 ^ 30" by (intro power_increasing) auto
    then have "to_int (2 ^ m * 2) = 2 ^ Suc m" by (subst to_int_small) (simp_all add: mult.commute)
    then show ?thesis using True m less(1) [of "Suc m"] by (subst hash_cap.simps) (simp del: power_Suc)
  qed (subst hash_cap.simps, auto)
qed

lemma hashid_init_wf:
  assumes "0 \<le> n" "n \<le> 2 ^ 30"
  shows "\<exists>hi. hashid_init n = Some hi \<and> hashid_wf hi \<and> length (hi_id hi) = nat n \<and> binding hi = Map.empty"
proof -
  obtain m where m: "hash_cap 16 n = Some (2 ^ m)" using hash_cap_power [OF assms(2), of 4] by auto
  define hi where "hi = \<lparr>hi_hashmod = 2 ^ m - 1, hi_cap = n, hi_count = 0,
      hi_id = replicate (nat n) free_node, hi_hash = replicate (2 ^ m) None\<rparr>"
  have u: "used (hi_id hi) = {}" by (auto simp: used_def idof_def hi_def free_node_def)
  have "chains_ok hi (\<lambda>_. [])" using u by (simp add: chains_ok_def) (simp add: hi_def)
  then have "hashid_wf hi"
    using u assms by (auto simp: hashid_wf_def next_of_def) (auto simp: hi_def free_node_def)
  moreover have "binding hi = Map.empty"
    using binding_iff [of hi] u by (metis empty_iff inj_on_empty not_Some_eq ext)
  moreover have "hashid_init n = Some hi" using m by (simp add: hashid_init_def hi_def nat_power_eq)
  ultimately show ?thesis by (auto simp: hi_def)
qed

interpretation hashids: id_table hashid_lookup hashid_insert hashid_remove hashid_full
  "\<lambda>hi. length (hi_id hi)" hashid_wf binding
proof unfold_locales
  fix s k i k'
  assume wf: "hashid_wf s"
  note iff = binding_iff [OF lookup_wf(1) [OF wf]]
  show "i < length (hi_id s)" if "binding s k = Some i" using that iff used_range by blast
  show "k = k'" if "binding s k = Some i" "binding s k' = Some i" using that iff by auto
  show "binding s (- 1) = None" by (simp add: binding_def)
  show "hashid_lookup s k = Some (case binding s k of None \<Rightarrow> - 1 | Some i \<Rightarrow> int i)"
    by (rule hashid_lookup_binding [OF wf])
  show "\<exists>s'. hashid_remove s k = Some (case binding s k of None \<Rightarrow> - 1 | Some i \<Rightarrow> int i, s') \<and> hashid_wf s' \<and>
      length (hi_id s') = length (hi_id s) \<and> binding s' = (binding s)(k := None)"
    using hashid_remove_ok [OF wf] by blast
next
  fix s k
  assume "hashid_wf s" "\<not> hashid_full s" "0 \<le> k" "k + int (length (hi_id s)) \<le> 2 ^ 31" "binding s k = None"
  then show "\<exists>i s'. hashid_insert s k = Some (int i, s') \<and> hashid_wf s' \<and> length (hi_id s') = length (hi_id s) \<and>
      i < length (hi_id s) \<and> (\<forall>k'. binding s k' \<noteq> Some i) \<and> binding s' = (binding s)(k \<mapsto> i)"
    using hashid_insert_ok by blast
qed

section \<open>Properties\<close>

text \<open>The tables that the operations build from \<open>hashid_init\<close>.\<close>

inductive hashid_reach :: "int \<Rightarrow> hashid \<Rightarrow> bool" for n where
  reach_init: "hashid_init n = Some hi \<Longrightarrow> hashid_reach n hi"
| reach_insert: "hashid_reach n hi \<Longrightarrow> \<not> hashid_full hi \<Longrightarrow> hashid_lookup hi k = Some (- 1) \<Longrightarrow> 0 \<le> k \<Longrightarrow>
    k + n \<le> 2 ^ 31 \<Longrightarrow> hashid_insert hi k = Some (i, hi') \<Longrightarrow> hashid_reach n hi'"
| reach_remove: "hashid_reach n hi \<Longrightarrow> hashid_remove hi k = Some (i, hi') \<Longrightarrow> hashid_reach n hi'"

lemma lookup_minus_one: "hashid_wf hi \<Longrightarrow> hashid_lookup hi k = Some (- 1) \<longleftrightarrow> binding hi k = None"
  by (simp add: hashid_lookup_binding split: option.splits)

lemma hashid_reach_wf:
  assumes "0 \<le> n" "n \<le> 2 ^ 30"
  shows "hashid_reach n hi \<Longrightarrow> hashid_wf hi \<and> length (hi_id hi) = nat n"
proof (induction rule: hashid_reach.induct)
  case (reach_init hi)
  then show ?case using hashid_init_wf [OF assms] by auto
next
  case (reach_insert hi k i hi')
  then show ?case using hashids.insert_ok [of hi k] lookup_minus_one [of hi k] assms by auto
next
  case (reach_remove hi k i hi')
  then show ?case using hashids.remove_ok [of hi k] by auto
qed

text \<open>
  C23. In every table that \<open>hashid_init\<close>, \<open>hashid_insert\<close> and \<open>hashid_remove\<close> build, with at most \<open>2\<^sup>30\<close>
  slots, inserting an id that is not in the table into a table that is not full returns a slot that no other id has;
  later lookups of the id return the slot, and those of other ids what they returned before.
  Removing an id returns its slot, or \<open>- 1\<close> when it is not in the table, and later lookups of it return
  \<open>- 1\<close>. No operation fails an assertion, leaves an array or loops.
\<close>

theorem hashid_is_a_map:
  assumes "0 \<le> n" "n \<le> 2 ^ 30" "hashid_reach n hi"
  shows "(\<not> hashid_full hi \<and> 0 \<le> k \<and> k + n \<le> 2 ^ 31 \<and> hashid_lookup hi k = Some (- 1) \<longrightarrow>
      (\<exists>i hi'. hashid_insert hi k = Some (i, hi') \<and> 0 \<le> i \<and> i < n \<and> (\<forall>k'. hashid_lookup hi k' \<noteq> Some i) \<and>
        hashid_lookup hi' = (hashid_lookup hi)(k \<mapsto> i))) \<and>
    (\<exists>i hi'. hashid_remove hi k = Some (i, hi') \<and> hashid_lookup hi k = Some i \<and>
        hashid_lookup hi' = (hashid_lookup hi)(k \<mapsto> - 1))"
proof (intro conjI impI)
  have wf: "hashid_wf hi" "length (hi_id hi) = nat n" using hashid_reach_wf [OF assms] by auto
  { assume "\<not> hashid_full hi \<and> 0 \<le> k \<and> k + n \<le> 2 ^ 31 \<and> hashid_lookup hi k = Some (- 1)"
    then obtain i hi' where i: "hashid_insert hi k = Some (int i, hi')" "hashid_wf hi'" "i < length (hi_id hi)"
      "\<forall>k'. binding hi k' \<noteq> Some i" "binding hi' = (binding hi)(k \<mapsto> i)"
      using hashids.insert_ok [OF wf(1), of k] lookup_minus_one [OF wf(1)] wf assms by auto
    have "hashid_lookup hi' = (hashid_lookup hi)(k \<mapsto> int i)"
      using i by (auto simp: hashid_lookup_binding [OF i(2)] hashid_lookup_binding [OF wf(1)])
    moreover have "hashid_lookup hi k' \<noteq> Some (int i)" for k'
      using i(4) by (auto simp: hashid_lookup_binding [OF wf(1)] split: option.splits)
    ultimately show "\<exists>i hi'. hashid_insert hi k = Some (i, hi') \<and> 0 \<le> i \<and> i < n \<and> (\<forall>k'. hashid_lookup hi k' \<noteq> Some i) \<and>
        hashid_lookup hi' = (hashid_lookup hi)(k \<mapsto> i)"
      using i wf assms by (intro exI [of _ "int i"] exI [of _ hi']) auto }
  obtain hi' where r: "hashid_remove hi k = Some (case binding hi k of None \<Rightarrow> - 1 | Some i \<Rightarrow> int i, hi')"
    "hashid_wf hi'" "binding hi' = (binding hi)(k := None)"
    using hashids.remove_ok [OF wf(1), of k] by blast
  then show "\<exists>i hi'. hashid_remove hi k = Some (i, hi') \<and> hashid_lookup hi k = Some i \<and>
      hashid_lookup hi' = (hashid_lookup hi)(k \<mapsto> - 1)"
    by (auto simp: hashid_lookup_binding [OF r(2)] hashid_lookup_binding [OF wf(1)])
qed

theorem hashid_is_a_map_witness:
  "\<exists>hi. hashid_init 2 = Some hi \<and>
    (\<exists>i hi'. hashid_insert hi 7 = Some (i, hi') \<and> 0 \<le> i \<and> i < 2 \<and> (\<forall>k'. hashid_lookup hi k' \<noteq> Some i) \<and>
        hashid_lookup hi' = (hashid_lookup hi)(7 \<mapsto> i)) \<and>
    (\<exists>i hi'. hashid_remove hi 7 = Some (i, hi') \<and> hashid_lookup hi 7 = Some i \<and>
        hashid_lookup hi' = (hashid_lookup hi)(7 \<mapsto> - 1))"
proof -
  obtain hi where hi: "hashid_init 2 = Some hi" "hashid_wf hi" "length (hi_id hi) = 2" "binding hi = Map.empty"
    using hashid_init_wf [of 2] by auto
  have r: "hashid_reach 2 hi" using hi(1) by (rule reach_init)
  have nf: "\<not> hashid_full hi"
    using hi(1) by (auto simp: hashid_init_def hashid_full_def bind_eq_Some_conv)
  show ?thesis
    using hi(1) hashid_is_a_map [OF _ _ r, of 7] nf lookup_minus_one [OF hi(2), of 7] hi(4)
    by simp
qed

end
