(* ===== verification/Databuffer.thy ===== *)
theory Databuffer
  imports Cstr
begin

text \<open>
  The receive buffer of \<open>service-src/databuffer.h\<close>: a list of received blocks, an offset into the first
  one, and the length header of the frame being read. The linked list of messages is the list of
  their blocks (the size of a message is the length of its block), the pool is the number of its
  free nodes and of its chunks. \<open>None\<close> is a failed assertion or a null pointer.
\<close>

unbundle bit_operations_syntax

section \<open>Operations\<close>

definition MESSAGEPOOL :: nat where "MESSAGEPOOL = 1023"

record databuffer =
  db_header :: int
  db_offset :: nat
  db_size :: int
  db_msgs :: "bytes list"

record messagepool =
  mp_chunks :: nat
  mp_free :: nat

definition empty_buffer :: databuffer where
  "empty_buffer = \<lparr>db_header = 0, db_offset = 0, db_size = 0, db_msgs = []\<rparr>"

definition messagepool_free :: "messagepool \<Rightarrow> messagepool" where
  "messagepool_free mp = \<lparr>mp_chunks = 0, mp_free = 0\<rparr>"

definition return_message :: "databuffer \<times> messagepool \<Rightarrow> (databuffer \<times> messagepool) option" where
  "return_message = (\<lambda>(db, mp).
     if db_msgs db = [] then None
     else Some (db\<lparr>db_msgs := tl (db_msgs db)\<rparr>, mp\<lparr>mp_free := mp_free mp + 1\<rparr>))"

text \<open>The loop of \<open>databuffer_read\<close>, returning the bytes it copies.\<close>

function read_loop :: "databuffer \<times> messagepool \<Rightarrow> nat \<Rightarrow> (bytes \<times> databuffer \<times> messagepool) option" where
  "read_loop (db, mp) sz =
     (case db_msgs db of
        [] \<Rightarrow> None
      | m # _ \<Rightarrow>
          let bsz = length m - db_offset db; rest = drop (db_offset db) m in
          if bsz > sz then Some (take sz rest, db\<lparr>db_offset := db_offset db + sz\<rparr>, mp)
          else do {
            (db', mp') \<leftarrow> return_message (db\<lparr>db_offset := 0\<rparr>, mp);
            if bsz = sz then Some (rest, db', mp')
            else do {
              (bs, s) \<leftarrow> read_loop (db', mp') (sz - bsz);
              Some (rest @ bs, s)
            }
          })"
  by pat_completeness auto
termination
  by (relation "measure (\<lambda>((db, mp), sz). length (db_msgs db))") (auto simp: return_message_def)

declare read_loop.simps [simp del]

definition databuffer_read :: "databuffer \<times> messagepool \<Rightarrow> nat \<Rightarrow> (bytes \<times> databuffer \<times> messagepool) option" where
  "databuffer_read = (\<lambda>(db, mp) sz.
     if db_size db < int sz then None
     else read_loop (db\<lparr>db_size := db_size db - int sz\<rparr>, mp) sz)"

definition databuffer_push :: "databuffer \<times> messagepool \<Rightarrow> bytes \<Rightarrow> databuffer \<times> messagepool" where
  "databuffer_push = (\<lambda>(db, mp) data.
     let mp = (if mp_free mp \<noteq> 0 then mp\<lparr>mp_free := mp_free mp - 1\<rparr>
               else \<lparr>mp_chunks = mp_chunks mp + 1, mp_free = MESSAGEPOOL - 1\<rparr>)
     in (db\<lparr>db_size := to_int (db_size db + int (length data)), db_msgs := db_msgs db @ [data]\<rparr>, mp))"

text \<open>A big-endian number; as an \<open>int\<close>, four bytes may be negative.\<close>

definition plen :: "bytes \<Rightarrow> int" where
  "plen bs = to_int (foldl (\<lambda>n b. n * 256 + uint b) 0 bs)"

definition databuffer_readheader ::
  "databuffer \<times> messagepool \<Rightarrow> nat \<Rightarrow> (int \<times> databuffer \<times> messagepool) option" where
  "databuffer_readheader = (\<lambda>(db, mp) header_size.
     if db_header db = 0 \<and> db_size db < int header_size then Some (- 1, db, mp)
     else do {
       (db, mp) \<leftarrow>
         (if db_header db = 0 then do {
            (bs, db, mp) \<leftarrow> databuffer_read (db, mp) header_size;
            Some (db\<lparr>db_header := plen bs\<rparr>, mp)
          }
          else Some (db, mp));
       Some (if db_size db < db_header db then - 1 else db_header db, db, mp)
     })"

definition databuffer_reset :: "databuffer \<Rightarrow> databuffer" where
  "databuffer_reset db = db\<lparr>db_header := 0\<rparr>"

definition databuffer_clear :: "databuffer \<times> messagepool \<Rightarrow> databuffer \<times> messagepool" where
  "databuffer_clear = (\<lambda>(db, mp). (empty_buffer, mp\<lparr>mp_free := mp_free mp + length (db_msgs db)\<rparr>))"

section \<open>The stream in the buffer\<close>

definition contents :: "databuffer \<Rightarrow> bytes" where
  "contents db = drop (db_offset db) (concat (db_msgs db))"

definition front_ok :: "databuffer \<Rightarrow> bool" where
  "front_ok db \<longleftrightarrow> (case db_msgs db of [] \<Rightarrow> db_offset db = 0 | m # _ \<Rightarrow> db_offset db \<le> length m)"

lemma front_ok_simps [simp]:
  "front_ok (db\<lparr>db_size := n\<rparr>) = front_ok db" "front_ok (db\<lparr>db_header := i\<rparr>) = front_ok db"
  "contents (db\<lparr>db_size := n\<rparr>) = contents db" "contents (db\<lparr>db_header := i\<rparr>) = contents db"
  by (simp_all add: front_ok_def contents_def split: list.splits)

definition buffer_wf :: "databuffer \<Rightarrow> bool" where
  "buffer_wf db \<longleftrightarrow> front_ok db \<and>
     db_size db = int (length (contents db)) \<and> db_size db < 2 ^ 31"

lemma empty_buffer_wf [simp]: "buffer_wf empty_buffer" "contents empty_buffer = []" "db_header empty_buffer = 0"
  by (simp_all add: buffer_wf_def front_ok_def contents_def empty_buffer_def)

lemma push_contents:
  assumes "buffer_wf db" "length (contents db) + length data < 2 ^ 31"
  shows "\<exists>db' mp'. databuffer_push (db, mp) data = (db', mp') \<and> buffer_wf db' \<and>
    contents db' = contents db @ data \<and> db_header db' = db_header db"
proof -
  have "db_offset db \<le> length (concat (db_msgs db))"
    using assms(1) by (cases "db_msgs db") (auto simp: buffer_wf_def front_ok_def)
  then show ?thesis
    using assms by (auto simp: databuffer_push_def buffer_wf_def front_ok_def contents_def Let_def to_int_def
        split: list.splits)
qed

lemma read_loop_ok:
  "sz \<le> length (contents db) \<Longrightarrow> db_msgs db \<noteq> [] \<Longrightarrow>
     front_ok db \<Longrightarrow>
     \<exists>db' mp'. read_loop (db, mp) sz = Some (take sz (contents db), db', mp') \<and>
       contents db' = drop sz (contents db) \<and> db_header db' = db_header db \<and> db_size db' = db_size db \<and>
       front_ok db'"
proof (induction "length (db_msgs db)" arbitrary: db mp sz)
  case (Suc n)
  obtain m ms where m: "db_msgs db = m # ms" using Suc.hyps(2) by (cases "db_msgs db") auto
  let ?rest = "drop (db_offset db) m"
  have c: "contents db = ?rest @ concat ms" using Suc.prems(3) m by (simp add: contents_def front_ok_def)
  note step = read_loop.simps [of db mp sz]
  show ?case
  proof (cases "length ?rest > sz")
    case True
    then show ?thesis
      using m c Suc.prems(3) by (simp add: step contents_def front_ok_def drop_drop add.commute)
  next
    case False
    let ?db = "db\<lparr>db_offset := 0, db_msgs := ms\<rparr>" and ?mp = "mp\<lparr>mp_free := mp_free mp + 1\<rparr>"
    have r: "return_message (db\<lparr>db_offset := 0\<rparr>, mp) = Some (?db, ?mp)" using m by (simp add: return_message_def)
    show ?thesis
    proof (cases "length ?rest = sz")
      case True
      then show ?thesis using m c r by (simp add: step contents_def front_ok_def split: list.splits)
    next
      case neq: False
      then have "ms \<noteq> []" using Suc.prems(1) c False by auto
      then have "\<exists>db' mp'. read_loop (?db, ?mp) (sz - length ?rest) = Some (take (sz - length ?rest) (contents ?db), db', mp') \<and>
          contents db' = drop (sz - length ?rest) (contents ?db) \<and> db_header db' = db_header ?db \<and> db_size db' = db_size ?db \<and>
          front_ok db'"
        using Suc.hyps(2) Suc.prems m c by (intro Suc.hyps(1)) (auto simp: contents_def front_ok_def split: list.splits)
      then show ?thesis
        using m c r False neq by (auto simp: step contents_def)
    qed
  qed
qed simp

lemma databuffer_read_ok:
  assumes "buffer_wf db" "sz \<le> length (contents db)" "0 < sz"
  shows "\<exists>db' mp'. databuffer_read (db, mp) sz = Some (take sz (contents db), db', mp') \<and> buffer_wf db' \<and>
    contents db' = drop sz (contents db) \<and> db_header db' = db_header db"
proof -
  have "db_msgs db \<noteq> []" using assms by (auto simp: contents_def)
  then show ?thesis
    using read_loop_ok [of sz "db\<lparr>db_size := db_size db - int sz\<rparr>" mp] assms
    by (fastforce simp: databuffer_read_def buffer_wf_def)
qed

end
