(* ===== verification/Framing.thy ===== *)
theory Framing
  imports Prelude
begin

text \<open>
  Streams of frames: each frame is a big-endian length of \<open>hs\<close> bytes and that many bytes. A receiver is
  fed the stream in chunks; the locale says what one chunk does, and concludes that how the stream
  was cut into chunks does not matter. \<open>service_gate.c\<close> and \<open>lua-netpack.c\<close> are such receivers.
\<close>

definition be :: "bytes \<Rightarrow> nat" where
  "be bs = foldl (\<lambda>n b. n * 256 + unat b) 0 bs"

fun be_bytes :: "nat \<Rightarrow> nat \<Rightarrow> bytes" where
  "be_bytes 0 n = []"
| "be_bytes (Suc k) n = be_bytes k (n div 256) @ [of_nat n]"

definition frame :: "nat \<Rightarrow> bytes \<Rightarrow> bytes" where
  "frame hs m = be_bytes hs (length m) @ m"

function frames :: "nat \<Rightarrow> bytes \<Rightarrow> bytes list \<times> bytes" where
  "frames hs s =
     (if hs = 0 \<or> length s < hs \<or> length s < hs + be (take hs s) then ([], s)
      else let n = be (take hs s); (fs, r) = frames hs (drop (hs + n) s)
           in (take n (drop hs s) # fs, r))"
  by pat_completeness auto
termination by (relation "measure (\<lambda>(hs, s). length s)") auto

declare frames.simps [simp del]

text \<open>Every header that is met on the way is below a limit.\<close>

function sizes_ok :: "nat \<Rightarrow> nat \<Rightarrow> bytes \<Rightarrow> bool" where
  "sizes_ok lim hs s \<longleftrightarrow>
     (if hs = 0 \<or> length s < hs then True
      else if length s < hs + be (take hs s) then be (take hs s) < lim
      else be (take hs s) < lim \<and> sizes_ok lim hs (drop (hs + be (take hs s)) s))"
  by pat_completeness auto
termination by (relation "measure (\<lambda>(lim, hs, s). length s)") auto

declare sizes_ok.simps [simp del]

section \<open>Encoding\<close>

lemma length_be_bytes [simp]: "length (be_bytes k n) = k"
  by (induction k arbitrary: n) auto

lemma be_snoc: "be (bs @ [b]) = be bs * 256 + unat b"
  by (simp add: be_def)

lemma be_less: "be bs < 256 ^ length bs"
proof (induction bs rule: rev_induct)
  case (snoc b bs)
  have "unat b < 256" using unsigned_less [of b, where ?'a = nat] by simp
  then have "be bs * 256 + unat b < (be bs + 1) * 256" by simp
  also have "\<dots> \<le> 256 ^ length bs * 256" using snoc by (intro mult_right_mono) auto
  finally show ?case by (simp add: be_snoc mult.commute)
qed (simp add: be_def)

lemma be_be_bytes: "n < 256 ^ k \<Longrightarrow> be (be_bytes k n) = n"
proof (induction k arbitrary: n)
  case (Suc k)
  then have "n div 256 < 256 ^ k" by (simp add: less_mult_imp_div_less mult.commute)
  then show ?case using Suc.IH by (simp add: be_snoc unsigned_of_nat take_bit_eq_mod)
qed (simp add: be_def)

lemma frames_step:
  assumes "0 < hs" "length m < 256 ^ hs"
  shows "frames hs (frame hs m @ s) = (m # fst (frames hs s), snd (frames hs s))"
  using assms by (subst frames.simps) (auto simp: frame_def be_be_bytes Let_def split: prod.split)

lemma frames_short: "length s < hs \<Longrightarrow> frames hs s = ([], s)"
  by (simp add: frames.simps)

lemma frames_encode:
  assumes "0 < hs" "\<forall>m \<in> set ms. length m < 256 ^ hs"
  shows "frames hs (concat (map (frame hs) ms)) = (ms, [])"
  using assms(2)
proof (induction ms)
  case Nil
  then show ?case using assms(1) by (simp add: frames_short)
next
  case (Cons m ms)
  then show ?case using frames_step [OF assms(1), of m] by simp
qed

lemma sizes_ok_encode:
  assumes "0 < hs" "\<forall>m \<in> set ms. length m < 256 ^ hs \<and> length m < lim"
  shows "sizes_ok lim hs (concat (map (frame hs) ms))"
  using assms(2)
proof (induction ms)
  case Nil
  then show ?case using assms(1) by (simp add: sizes_ok.simps)
next
  case (Cons m ms)
  then have "sizes_ok lim hs (concat (map (frame hs) ms))" "length m < 256 ^ hs" "length m < lim" by auto
  then show ?case using assms(1) by (subst sizes_ok.simps) (simp add: frame_def [of _ m] be_be_bytes)
qed

lemma frames_header:
  assumes "length h = hs" "0 < hs"
  shows "frames hs (h @ c) = (if length c < be h then ([], h @ c)
    else (take (be h) c # fst (frames hs (drop (be h) c)), snd (frames hs (drop (be h) c))))"
  using assms by (subst frames.simps) (auto simp: Let_def split: prod.split)

lemma sizes_ok_header:
  assumes "length h = hs" "0 < hs" "sizes_ok lim hs (h @ c)"
  shows "be h < lim" "be h \<le> length c \<Longrightarrow> sizes_ok lim hs (drop (be h) c)"
  using assms by (subst (asm) sizes_ok.simps, simp split: if_splits)+

lemma frames_rest_length: "length (snd (frames hs p)) \<le> length p"
proof (induction hs p rule: frames.induct)
  case (1 hs s)
  then show ?case by (subst frames.simps) (auto simp: Let_def split: prod.splits)
qed

section \<open>Cutting a stream\<close>

lemma frames_append:
  "frames hs (s @ t) = (fst (frames hs s) @ fst (frames hs (snd (frames hs s) @ t)), snd (frames hs (snd (frames hs s) @ t)))"
proof (induction hs s rule: frames.induct)
  case (1 hs s)
  show ?case
  proof (cases "hs = 0 \<or> length s < hs \<or> length s < hs + be (take hs s)")
    case True
    then have "frames hs s = ([], s)" by (subst frames.simps) auto
    then show ?thesis by simp
  next
    case False
    let ?n = "be (take hs s)"
    have c: "hs \<noteq> 0" "hs \<le> length s" "hs + ?n \<le> length s" using False by auto
    have h: "frames hs s = (take ?n (drop hs s) # fst (frames hs (drop (hs + ?n) s)), snd (frames hs (drop (hs + ?n) s)))"
      using c by (subst frames.simps) (simp add: Let_def split: prod.split)
    have st: "frames hs (s @ t) = (take ?n (drop hs s) # fst (frames hs (drop (hs + ?n) s @ t)), snd (frames hs (drop (hs + ?n) s @ t)))"
      using c by (subst frames.simps) (simp add: Let_def split: prod.split)
    have "?n = ?n \<Longrightarrow> frames hs (drop (hs + ?n) s @ t) =
        (fst (frames hs (drop (hs + ?n) s)) @ fst (frames hs (snd (frames hs (drop (hs + ?n) s)) @ t)),
         snd (frames hs (snd (frames hs (drop (hs + ?n) s)) @ t)))"
      using "1.IH" False by blast
    then show ?thesis unfolding st h by simp
  qed
qed

lemma sizes_ok_append:
  "sizes_ok lim hs (s @ t) \<Longrightarrow> sizes_ok lim hs s \<and> sizes_ok lim hs (snd (frames hs s) @ t)"
proof (induction lim hs s rule: sizes_ok.induct)
  case (1 lim hs s)
  show ?case
  proof (cases "hs = 0 \<or> length s < hs \<or> length s < hs + be (take hs s)")
    case True
    then have "frames hs s = ([], s)" by (subst frames.simps) auto
    moreover have "sizes_ok lim hs s"
      using True "1.prems" sizes_ok.simps [of lim hs "s @ t"] sizes_ok.simps [of lim hs s]
      by (auto simp: not_less split: if_splits)
    ultimately show ?thesis using "1.prems" by simp
  next
    case False
    let ?n = "be (take hs s)"
    have c: "hs \<noteq> 0" "hs \<le> length s" "hs + ?n \<le> length s" using False by auto
    have h: "snd (frames hs s) = snd (frames hs (drop (hs + ?n) s))"
      using c by (subst frames.simps) (simp add: Let_def split: prod.split)
    have n: "?n < lim" "sizes_ok lim hs (drop (hs + ?n) s @ t)"
      using "1.prems" c by (subst (asm) sizes_ok.simps; simp)+
    then have "sizes_ok lim hs (drop (hs + ?n) s) \<and> sizes_ok lim hs (snd (frames hs (drop (hs + ?n) s)) @ t)"
      using "1.IH" False by blast
    then show ?thesis using n(1) unfolding h by (subst sizes_ok.simps) simp
  qed
qed

lemma concat_map_filter: "concat (map (\<lambda>x. if P x then [f x] else []) xs) = map f (filter P xs)"
  by (induction xs) auto

text \<open>Feeding a receiver chunk by chunk, collecting what it emits.\<close>

fun feeds :: "('s \<Rightarrow> 'c \<Rightarrow> ('s \<times> 'o list) option) \<Rightarrow> 's \<Rightarrow> 'c list \<Rightarrow> ('s \<times> 'o list) option" where
  "feeds feed s [] = Some (s, [])"
| "feeds feed s (c # cs) = do {
     (s, out) \<leftarrow> feed s c;
     (s, out') \<leftarrow> feeds feed s cs;
     Some (s, out @ out')
   }"

text \<open>
  \<open>holds s p\<close>: the receiver in state \<open>s\<close> has the unfinished frame \<open>p\<close>. For each frame \<open>m\<close> it makes
  the calls \<open>emit m\<close>, as long as the stream is \<open>ok\<close>.
\<close>

locale framed_stream =
  fixes hs :: nat
    and feed :: "'s \<Rightarrow> bytes \<Rightarrow> ('s \<times> 'o list) option"
    and holds :: "'s \<Rightarrow> bytes \<Rightarrow> bool"
    and ok :: "bytes \<Rightarrow> bool"
    and emit :: "bytes \<Rightarrow> 'o list"
  assumes ok_append: "ok (x @ t) \<Longrightarrow> ok x \<and> ok (snd (frames hs x) @ t)"
    and feed_frames: "holds s p \<Longrightarrow> ok (p @ c) \<Longrightarrow> c \<noteq> [] \<Longrightarrow>
      \<exists>s'. feed s c = Some (s', concat (map emit (fst (frames hs (p @ c))))) \<and>
        holds s' (snd (frames hs (p @ c)))"
begin

lemma feeds_frames:
  assumes "holds s p" "frames hs p = ([], p)" "ok (p @ concat cs)" "[] \<notin> set cs"
  shows "\<exists>s'. feeds feed s cs = Some (s', concat (map emit (fst (frames hs (p @ concat cs))))) \<and>
    holds s' (snd (frames hs (p @ concat cs)))"
  using assms
proof (induction cs arbitrary: s p)
  case (Cons c cs)
  let ?q = "snd (frames hs (p @ c))"
  have ok: "ok (p @ c)" "ok (?q @ concat cs)" using ok_append [of "p @ c" "concat cs"] Cons.prems by auto
  obtain s1 where s1: "feed s c = Some (s1, concat (map emit (fst (frames hs (p @ c)))))" "holds s1 ?q"
    using feed_frames [OF Cons.prems(1) ok(1)] Cons.prems by auto
  have stable: "frames hs ?q = ([], ?q)"
    using frames_append [of hs "p @ c" "[]"] by (auto simp: prod_eq_iff)
  obtain s2 where "feeds feed s1 cs = Some (s2, concat (map emit (fst (frames hs (?q @ concat cs)))))"
    "holds s2 (snd (frames hs (?q @ concat cs)))"
    using Cons.IH [OF s1(2) stable ok(2)] Cons.prems by auto
  then show ?case using s1 frames_append [of hs "p @ c" "concat cs"] by auto
qed simp

lemma chunks_do_not_matter:
  assumes "holds s []" "0 < hs" "\<forall>m \<in> set ms. length m < 256 ^ hs" "concat cs = concat (map (frame hs) ms)"
    "ok (concat cs)" "[] \<notin> set cs"
  shows "\<exists>s'. feeds feed s cs = Some (s', concat (map emit ms)) \<and> holds s' []"
  using feeds_frames [OF assms(1), of cs] assms(2-) frames_encode [OF assms(2,3)] by (simp add: frames_short)

end

text \<open>
  A receiver of many streams at once, each with a key \<open>f\<close>: \<open>holds s p\<close> says that \<open>p f\<close> is the unfinished
  frame of stream \<open>f\<close>. \<open>received f\<close> is what a sequence of events says about \<open>f\<close>.
\<close>

definition received :: "'f \<Rightarrow> ('f \<times> 'a) list \<Rightarrow> 'a list" where
  "received f evs = map snd (filter (\<lambda>e. fst e = f) evs)"

lemma received_simps [simp]:
  "received f [] = []" "received f ((g, a) # evs) = (if g = f then a # received f evs else received f evs)"
  "received f (xs @ ys) = received f xs @ received f ys"
  "received f (map (Pair g) as) = (if g = f then as else [])"
  by (simp_all add: received_def filter_map o_def)

locale multiplexed_stream =
  fixes hs :: nat
    and feed :: "'s \<Rightarrow> 'f \<times> bytes \<Rightarrow> ('s \<times> ('f \<times> bytes) list) option"
    and holds :: "'s \<Rightarrow> ('f \<Rightarrow> bytes) \<Rightarrow> bool"
  assumes feed_frames: "holds s p \<Longrightarrow> c \<noteq> [] \<Longrightarrow>
      \<exists>s'. feed s (f, c) = Some (s', map (Pair f) (fst (frames hs (p f @ c)))) \<and>
        holds s' (p(f := snd (frames hs (p f @ c))))"
begin

lemma demultiplexes:
  assumes "holds s p" "\<And>f. frames hs (p f) = ([], p f)" "\<forall>(f, c) \<in> set evs. c \<noteq> []"
  shows "\<exists>s' out. feeds feed s evs = Some (s', out) \<and>
    (\<forall>f. received f out = fst (frames hs (p f @ concat (received f evs)))) \<and>
    holds s' (\<lambda>f. snd (frames hs (p f @ concat (received f evs))))"
  using assms
proof (induction evs arbitrary: s p)
  case (Cons e evs)
  obtain f c where e: "e = (f, c)" by (cases e)
  let ?q = "p(f := snd (frames hs (p f @ c)))"
  obtain s1 where s1: "feed s (f, c) = Some (s1, map (Pair f) (fst (frames hs (p f @ c))))" "holds s1 ?q"
    using feed_frames [OF Cons.prems(1), of c f] Cons.prems(3) e by auto
  have "frames hs (?q g) = ([], ?q g)" for g
    using Cons.prems(2) frames_append [of hs "p f @ c" "[]"] by (auto simp: prod_eq_iff)
  then obtain s2 out where s2: "feeds feed s1 evs = Some (s2, out)"
    "\<forall>f. received f out = fst (frames hs (?q f @ concat (received f evs)))"
    "holds s2 (\<lambda>f. snd (frames hs (?q f @ concat (received f evs))))"
    using Cons.IH [OF s1(2)] Cons.prems(3) by auto
  have a: "frames hs (p f @ c @ t) = (fst (frames hs (p f @ c)) @ fst (frames hs (?q f @ t)), snd (frames hs (?q f @ t)))" for t
    using frames_append [of hs "p f @ c" t] by simp
  have "holds s2 (\<lambda>g. snd (frames hs (p g @ concat (received g ((f, c) # evs)))))"
  proof -
    have "(\<lambda>g. snd (frames hs (?q g @ concat (received g evs)))) =
        (\<lambda>g. snd (frames hs (p g @ concat (received g ((f, c) # evs)))))"
      using a by (auto simp: fun_eq_iff)
    then show ?thesis using s2(3) by simp
  qed
  moreover have "received g (map (Pair f) (fst (frames hs (p f @ c))) @ out) =
      fst (frames hs (p g @ concat (received g ((f, c) # evs))))" for g
    using s2(2) a by auto
  ultimately show ?case using s1 s2(1) e by auto
qed simp

end

end
