(* ===== verification/Service.thy ===== *)
theory Service
  imports Server
begin

text \<open>
  What a service written in C sees of the rest of the node: the socket messages of
  \<open>skynet-src/skynet_socket.h\<close>, and the calls it makes. A handler of such a service (\<open>service_gate.c\<close>,
  \<open>service_harbor.c\<close>) returns its new state and the calls it made, in order; \<open>perform\<close> runs the calls to
  the node in the kernel model.
\<close>

section \<open>Calls\<close>

text \<open>
  \<open>skynet_send\<close> with source, destination, type, session and data (\<open>SendNull\<close>: a null pointer of size 0),
  \<open>skynet_error\<close>, \<open>skynet_queryname\<close>, \<open>skynet_callback\<close>, \<open>skynet_harbor_start\<close>, and the socket functions.
\<close>

datatype service_call =
    Send u32 u32 u32 int bytes
  | SendNull u32 u32 u32 int
  | Log string
  | Query string
  | Callback
  | HarborStart
  | Close int
  | Start int
  | Listen string int
  | SocketSend int bytes

record socket_message =
  sm_type :: int
  sm_id :: int
  sm_ud :: int
  sm_buffer :: bytes

definition SKYNET_SOCKET_TYPE_DATA :: int where "SKYNET_SOCKET_TYPE_DATA = 1"
definition SKYNET_SOCKET_TYPE_CONNECT :: int where "SKYNET_SOCKET_TYPE_CONNECT = 2"
definition SKYNET_SOCKET_TYPE_CLOSE :: int where "SKYNET_SOCKET_TYPE_CLOSE = 3"
definition SKYNET_SOCKET_TYPE_ACCEPT :: int where "SKYNET_SOCKET_TYPE_ACCEPT = 4"
definition SKYNET_SOCKET_TYPE_ERROR :: int where "SKYNET_SOCKET_TYPE_ERROR = 5"
definition SKYNET_SOCKET_TYPE_WARNING :: int where "SKYNET_SOCKET_TYPE_WARNING = 7"

lemmas socket_types = SKYNET_SOCKET_TYPE_DATA_def SKYNET_SOCKET_TYPE_CONNECT_def SKYNET_SOCKET_TYPE_CLOSE_def
  SKYNET_SOCKET_TYPE_ACCEPT_def SKYNET_SOCKET_TYPE_ERROR_def SKYNET_SOCKET_TYPE_WARNING_def

text \<open>What the socket library sends for the bytes \<open>c\<close> read from a socket.\<close>

definition data_message :: "int \<Rightarrow> bytes \<Rightarrow> socket_message" where
  "data_message sid c = \<lparr>sm_type = SKYNET_SOCKET_TYPE_DATA, sm_id = sid, sm_ud = int (length c), sm_buffer = c\<rparr>"

definition perform :: "modules \<Rightarrow> ptr \<Rightarrow> service_call \<Rightarrow> kernel \<Rightarrow> kernel option" where
  "perform M p call k =
     (case call of
        Send source dest type session data \<Rightarrow> do {
          (_, k) \<leftarrow> skynet_send M (Some p) source dest type session (Data data) (of_nat (length data)) k;
          Some k
        }
      | SendNull source dest type session \<Rightarrow> do {
          (_, k) \<leftarrow> skynet_send M (Some p) source dest type session Null 0 k;
          Some k
        }
      | Log s \<Rightarrow> skynet_error M (Some p) s k
      | Query s \<Rightarrow> do { (_, k) \<leftarrow> skynet_queryname M p s k; Some k }
      | HarborStart \<Rightarrow> skynet_harbor_start p k
      | _ \<Rightarrow> Some k)"

primrec perform_all :: "modules \<Rightarrow> ptr \<Rightarrow> service_call list \<Rightarrow> kernel \<Rightarrow> kernel option" where
  "perform_all M p [] k = Some k"
| "perform_all M p (c # cs) k = do { k \<leftarrow> perform M p c k; perform_all M p cs k }"

section \<open>Text\<close>

text \<open>The C string at an offset of a buffer, and one \<open>%d\<close> of \<open>sscanf\<close> with the text that follows it.\<close>

definition str_at :: "bytes \<Rightarrow> nat \<Rightarrow> string" where
  "str_at buf p = map (\<lambda>b. char_of (unat b)) (takeWhile (\<lambda>b. b \<noteq> 0) (drop p buf))"

definition scan_int :: "string \<Rightarrow> (int \<times> string) option" where
  "scan_int s = (let (v, rest) = strtol 10 s in if rest = s then None else Some (to_int v, rest))"

end
