(* ===== verification/Gate.thy ===== *)
theory Gate
  imports Hashid Databuffer Framing Service
begin

text \<open>
  The gate service, \<open>service-src/service_gate.c\<close>: it accepts connections, cuts what they send into
  frames and forwards each frame to a broker, to the agent of the connection or to the watchdog. A
  handler returns the new state and the calls it makes to the node and to the socket library, in
  order; \<open>perform\<close> runs the calls to the node. \<open>None\<close> is a failed assertion or a null pointer.
\<close>

unbundle bit_operations_syntax

section \<open>State\<close>

record connection =
  co_id :: int
  co_agent :: u32
  co_client :: u32
  co_remote_name :: bytes
  co_buffer :: databuffer

record gate =
  ga_listen_id :: int
  ga_watchdog :: u32
  ga_broker :: u32
  ga_client_tag :: int
  ga_header_size :: nat
  ga_max_connection :: int
  ga_hash :: hashid
  ga_conn :: "connection list"
  ga_mp :: messagepool

definition gate_create :: gate where
  "gate_create = \<lparr>ga_listen_id = - 1, ga_watchdog = 0, ga_broker = 0, ga_client_tag = 0, ga_header_size = 0,
     ga_max_connection = 0, ga_hash = \<lparr>hi_hashmod = 0, hi_cap = 0, hi_count = 0, hi_id = [], hi_hash = []\<rparr>,
     ga_conn = [], ga_mp = \<lparr>mp_chunks = 0, mp_free = 0\<rparr>\<rparr>"

definition gate_release :: "gate \<Rightarrow> service_call list" where
  "gate_release g =
     map Close (filter (\<lambda>i. i \<ge> 0) (map co_id (take (nat (ga_max_connection g)) (ga_conn g)))) @
     (if ga_listen_id g \<ge> 0 then [Close (ga_listen_id g)] else [])"

section \<open>Text commands\<close>

text \<open>\<open>_parm\<close> moves what follows the command to the front of the buffer.\<close>

definition parm :: "bytes \<Rightarrow> nat \<Rightarrow> nat \<Rightarrow> bytes" where
  "parm msg sz command_sz =
     (let j = command_sz + length (takeWhile (\<lambda>b. b = 32) (drop command_sz (take sz msg))); k = sz - j
      in take k (drop j msg) @ [0] @ drop (k + 1) msg)"

text \<open>\<open>memcmp (command, literal, n) == 0\<close>; \<open>None\<close> when the comparison runs past the literal.\<close>

definition command_is :: "string \<Rightarrow> bytes \<Rightarrow> nat \<Rightarrow> bool option" where
  "command_is literal command n =
     (let l = cstr literal @ [0]; m = length l in
      if n \<le> m then Some (take n command = take n l)
      else if take m command = l then None else Some False)"

text \<open>\<open>strsep\<close> with a space, at an offset: it overwrites the space and returns what follows.\<close>

definition strsep_at :: "bytes \<Rightarrow> nat \<Rightarrow> bytes \<times> nat option" where
  "strsep_at buf p =
     (let e = p + length (takeWhile (\<lambda>b. b \<noteq> 0 \<and> b \<noteq> 32) (drop p buf)) in
      if buf ! e = 32 then (buf[e := 0], Some (e + 1)) else (buf, None))"

definition upd_conn :: "nat \<Rightarrow> (connection \<Rightarrow> connection) \<Rightarrow> gate \<Rightarrow> gate" where
  "upd_conn i f g = g\<lparr>ga_conn := (ga_conn g)[i := f (ga_conn g ! i)]\<rparr>"

definition forward_agent :: "int \<Rightarrow> u32 \<Rightarrow> u32 \<Rightarrow> gate \<Rightarrow> gate option" where
  "forward_agent fd agentaddr clientaddr g = do {
     i \<leftarrow> hashid_lookup (ga_hash g) fd;
     Some (if i \<ge> 0 then upd_conn (nat i) (\<lambda>c. c\<lparr>co_agent := agentaddr, co_client := clientaddr\<rparr>) g else g)
   }"

definition ctrl_kick :: "bytes \<Rightarrow> gate \<Rightarrow> (gate \<times> service_call list) option" where
  "ctrl_kick arg g = do {
     let uid = to_int (fst (strtol 10 (str_at arg 0)));
     i \<leftarrow> hashid_lookup (ga_hash g) uid;
     Some (g, if i \<ge> 0 then [Close uid] else [])
   }"

definition ctrl_forward :: "bytes \<Rightarrow> gate \<Rightarrow> (gate \<times> service_call list) option" where
  "ctrl_forward arg g =
     (case strsep_at arg 0 of
        (arg, None) \<Rightarrow> Some (g, [])
      | (arg, Some agent) \<Rightarrow>
          let fd = to_int (fst (strtol 10 (str_at arg 0))) in
          case strsep_at arg agent of
            (arg, None) \<Rightarrow> Some (g, [])
          | (arg, Some client) \<Rightarrow> do {
              let agent_handle = ucast (strtoul 16 (str_at arg (agent + 1)));
              let client_handle = ucast (strtoul 16 (str_at arg (client + 1)));
              g \<leftarrow> forward_agent fd agent_handle client_handle g;
              Some (g, [])
            })"

definition ctrl_start :: "bytes \<Rightarrow> gate \<Rightarrow> (gate \<times> service_call list) option" where
  "ctrl_start arg g = do {
     let uid = to_int (fst (strtol 10 (str_at arg 0)));
     i \<leftarrow> hashid_lookup (ga_hash g) uid;
     Some (g, if i \<ge> 0 then [Start uid] else [])
   }"

text \<open>\<open>query\<close> is what \<open>skynet_queryname\<close> answers at this time.\<close>

definition gate_ctrl :: "(string \<Rightarrow> u32) \<Rightarrow> bytes \<Rightarrow> gate \<Rightarrow> (gate \<times> service_call list) option" where
  "gate_ctrl query msg g =
     (let sz = length msg; tmp = msg @ [0]; i = length (takeWhile (\<lambda>b. b \<noteq> 32) msg); arg = parm tmp sz i in
      if sz = 0 then Some (g, [])
      else do {
        kick \<leftarrow> command_is ''kick'' tmp i;
        if kick then ctrl_kick arg g
        else do {
          forward \<leftarrow> command_is ''forward'' tmp i;
          if forward then ctrl_forward arg g
          else do {
            broker \<leftarrow> command_is ''broker'' tmp i;
            if broker then Some (g\<lparr>ga_broker := query (str_at arg 0)\<rparr>, [Query (str_at arg 0)])
            else do {
              start \<leftarrow> command_is ''start'' tmp i;
              if start then ctrl_start arg g
              else do {
                close \<leftarrow> command_is ''close'' tmp i;
                if close then
                  if ga_listen_id g \<ge> 0 then Some (g\<lparr>ga_listen_id := - 1\<rparr>, [Close (ga_listen_id g)])
                  else Some (g, [])
                else Some (g, [Log (''[gate] Unkown command : '' @ str_at tmp 0)])
              }
            }
          }
        }
      })"

section \<open>Data\<close>

definition report :: "gate \<Rightarrow> string \<Rightarrow> service_call list" where
  "report g data =
     (if ga_watchdog g = 0 then [] else [Send 0 (ga_watchdog g) (of_nat PTYPE_TEXT) 0 (cstr data)])"

definition client_type :: "gate \<Rightarrow> u32" where
  "client_type g = word_of_int (ga_client_tag g) OR PTYPE_TAG_DONTCOPY"

definition set_buffer :: "nat \<Rightarrow> databuffer \<times> messagepool \<Rightarrow> gate \<Rightarrow> gate" where
  "set_buffer i = (\<lambda>(db, mp) g. upd_conn i (\<lambda>c. c\<lparr>co_buffer := db\<rparr>) (g\<lparr>ga_mp := mp\<rparr>))"

definition take_data :: "nat \<Rightarrow> nat \<Rightarrow> gate \<Rightarrow> (bytes \<times> gate) option" where
  "take_data i sz g = do {
     (data, s) \<leftarrow> databuffer_read (co_buffer (ga_conn g ! i), ga_mp g) sz;
     Some (data, set_buffer i s g)
   }"

definition gate_forward :: "nat \<Rightarrow> nat \<Rightarrow> gate \<Rightarrow> (gate \<times> service_call list) option" where
  "gate_forward i sz g =
     (let c = ga_conn g ! i; fd = co_id c in
      if fd \<le> 0 then Some (g, [])
      else if ga_broker g \<noteq> 0 then do {
        (temp, g) \<leftarrow> take_data i sz g;
        Some (g, [Send 0 (ga_broker g) (client_type g) fd temp])
      }
      else if co_agent c \<noteq> 0 then do {
        (temp, g) \<leftarrow> take_data i sz g;
        Some (g, [Send (co_client c) (co_agent c) (client_type g) fd temp])
      }
      else if ga_watchdog g \<noteq> 0 then do {
        (temp, g) \<leftarrow> take_data i sz g;
        Some (g, [Send 0 (ga_watchdog g) (of_nat PTYPE_TEXT OR PTYPE_TAG_DONTCOPY) fd
                    (cstr (fmt_d fd @ '' data '') @ temp)])
      }
      else Some (g, []))"

partial_function (option) dispatch_frames :: "nat \<Rightarrow> int \<Rightarrow> gate \<Rightarrow> (gate \<times> service_call list) option" where
  "dispatch_frames i sid g = do {
     (size, s) \<leftarrow> databuffer_readheader (co_buffer (ga_conn g ! i), ga_mp g) (ga_header_size g);
     let g = set_buffer i s g;
     if size < 0 then Some (g, [])
     else if size > 0 then
       if size \<ge> 0x1000000 then
         Some (set_buffer i (databuffer_clear s) g, [Close sid, Log ''Recv socket message > 16M''])
       else do {
         (g, out) \<leftarrow> gate_forward i (nat size) g;
         (g, out') \<leftarrow> dispatch_frames i sid (upd_conn i (\<lambda>c. c\<lparr>co_buffer := databuffer_reset (co_buffer c)\<rparr>) g);
         Some (g, out @ out')
       }
     else dispatch_frames i sid g
   }"

definition gate_dispatch :: "nat \<Rightarrow> int \<Rightarrow> bytes \<Rightarrow> gate \<Rightarrow> (gate \<times> service_call list) option" where
  "gate_dispatch i sid data g =
     dispatch_frames i sid (set_buffer i (databuffer_push (co_buffer (ga_conn g ! i), ga_mp g) data) g)"

definition zero_connection :: connection where
  "zero_connection = \<lparr>co_id = 0, co_agent = 0, co_client = 0, co_remote_name = [], co_buffer = empty_buffer\<rparr>"


text \<open>\<open>name\<close> is what follows the message in memory: the text of the peer's address.\<close>

definition gate_accept :: "int \<Rightarrow> bytes \<Rightarrow> gate \<Rightarrow> (gate \<times> service_call list) option" where
  "gate_accept ud name g =
     (if hashid_full (ga_hash g) then Some (g, [Close ud])
      else do {
        (i, h) \<leftarrow> hashid_insert (ga_hash g) ud;
        let name = take 31 name;
        let g = upd_conn (nat i) (\<lambda>c. c\<lparr>co_id := ud, co_remote_name := name\<rparr>) (g\<lparr>ga_hash := h\<rparr>);
        Some (g, report g (fmt_d ud @ '' open '' @ fmt_d ud @ '' '' @ str_at (name @ [0]) 0 @ '':0'') @
                 [Log (''socket open: '' @ fmt_x (word_of_int ud))])
      })"

definition gate_close :: "int \<Rightarrow> gate \<Rightarrow> (gate \<times> service_call list) option" where
  "gate_close sid g = do {
     (i, h) \<leftarrow> hashid_remove (ga_hash g) sid;
     let g = g\<lparr>ga_hash := h\<rparr>;
     if i \<ge> 0 then do {
       let g = set_buffer (nat i) (databuffer_clear (co_buffer (ga_conn g ! nat i), ga_mp g)) g;
       let g = upd_conn (nat i) (\<lambda>c. zero_connection\<lparr>co_id := - 1\<rparr>) g;
       Some (g, report g (fmt_d sid @ '' close''))
     }
     else Some (g, [])
   }"

text \<open>
  The length of the data of a \<open>DATA\<close> message is its \<open>ud\<close>; in an \<open>ACCEPT\<close> message \<open>sm_buffer\<close> is the
  name that follows it.
\<close>

definition dispatch_socket_message :: "socket_message \<Rightarrow> gate \<Rightarrow> (gate \<times> service_call list) option" where
  "dispatch_socket_message m g =
     (let sid = sm_id m in
      if sm_type m = SKYNET_SOCKET_TYPE_DATA then do {
        i \<leftarrow> hashid_lookup (ga_hash g) sid;
        if i \<ge> 0 then gate_dispatch (nat i) sid (sm_buffer m) g
        else Some (g, [Log (''Drop unknown connection '' @ fmt_d sid @ '' message''), Close sid])
      }
      else if sm_type m = SKYNET_SOCKET_TYPE_CONNECT then
        if sid = ga_listen_id g then Some (g, [])
        else do {
          i \<leftarrow> hashid_lookup (ga_hash g) sid;
          Some (g, if i < 0 then [Log (''Close unknown connection '' @ fmt_d sid), Close sid] else [])
        }
      else if sm_type m = SKYNET_SOCKET_TYPE_CLOSE \<or> sm_type m = SKYNET_SOCKET_TYPE_ERROR then gate_close sid g
      else if sm_type m = SKYNET_SOCKET_TYPE_ACCEPT then
        if ga_listen_id g \<noteq> sid then None else gate_accept (sm_ud m) (sm_buffer m) g
      else if sm_type m = SKYNET_SOCKET_TYPE_WARNING then
        Some (g, [Log (''fd ('' @ fmt_d sid @ '') send buffer ('' @ fmt_d (sm_ud m) @ '')K'')])
      else Some (g, []))"

definition client_message :: "u32 \<Rightarrow> bytes \<Rightarrow> gate \<Rightarrow> (int \<times> gate \<times> service_call list) option" where
  "client_message source msg g =
     (let sz = length msg in
      if sz \<le> 4 then Some (0, g, [Log (''Invalid client message from '' @ fmt_x source)])
      else do {
        let uid = sint (of_le32 (msg ! (sz - 4)) (msg ! (sz - 3)) (msg ! (sz - 2)) (msg ! (sz - 1)));
        i \<leftarrow> hashid_lookup (ga_hash g) uid;
        Some (if i \<ge> 0 then (1, g, [SocketSend uid (take (sz - 4) msg)])
              else (0, g, [Log (''Invalid client id '' @ fmt_d uid @ '' from '' @ fmt_x source)]))
      })"

datatype gate_message = Text bytes | Client bytes | Socket socket_message | Other

text \<open>\<open>_cb\<close>; the result 1 keeps the message from being freed.\<close>

definition gate_cb ::
  "(string \<Rightarrow> u32) \<Rightarrow> u32 \<Rightarrow> gate_message \<Rightarrow> gate \<Rightarrow> (int \<times> gate \<times> service_call list) option" where
  "gate_cb query source msg g =
     (case msg of
        Text m \<Rightarrow> map_option (Pair 0) (gate_ctrl query m g)
      | Client m \<Rightarrow> client_message source m g
      | Socket m \<Rightarrow> map_option (Pair 0) (dispatch_socket_message m g)
      | Other \<Rightarrow> Some (0, g, []))"

section \<open>Start\<close>

definition strrchr :: "string \<Rightarrow> char \<Rightarrow> (string \<times> string) option" where
  "strrchr s c =
     (if c \<notin> set s then None
      else let after = rev (takeWhile (\<lambda>d. d \<noteq> c) (rev s)) in Some (take (length s - length after - 1) s, after))"

text \<open>\<open>listen\<close> is what \<open>skynet_socket_listen\<close> returns.\<close>

definition start_listen ::
  "(string \<Rightarrow> int \<Rightarrow> int) \<Rightarrow> string \<Rightarrow> gate \<Rightarrow> int \<times> gate \<times> service_call list" where
  "start_listen listen addr g =
     (let (host, portstr) = (case strrchr addr CHR '':'' of None \<Rightarrow> ([], addr) | Some hp \<Rightarrow> hp);
          port = to_int (fst (strtol 10 portstr))
      in if port \<le> 0 then (1, g, [Log (''Invalid gate address '' @ addr)])
         else
           let l = listen host port; g = g\<lparr>ga_listen_id := l\<rparr> in
           if l < 0 then (1, g, [Listen host port])
           else (0, g, [Listen host port, Start l]))"

text \<open>\<open>sscanf (parm, "%c %s %s %d %d", ...)\<close>, when it reads at least four fields; the fifth is 0 otherwise.\<close>

definition scan_parm :: "string \<Rightarrow> (char \<times> string \<times> string \<times> int \<times> int) option" where
  "scan_parm s =
     (case s of
        [] \<Rightarrow> None
      | header # s \<Rightarrow> do {
          (watchdog, s) \<leftarrow> scan_word s;
          (addr, s) \<leftarrow> scan_word s;
          (client_tag, s) \<leftarrow> scan_int s;
          Some (header, watchdog, addr, client_tag, case scan_int s of None \<Rightarrow> 0 | Some (m, _) \<Rightarrow> m)
        })"

definition gate_init ::
  "(string \<Rightarrow> u32) \<Rightarrow> (string \<Rightarrow> int \<Rightarrow> int) \<Rightarrow> string option \<Rightarrow> gate \<Rightarrow> (int \<times> gate \<times> service_call list) option" where
  "gate_init query listen parameters g =
     (case parameters of
        None \<Rightarrow> Some (1, g, [])
      | Some p \<Rightarrow>
          (case scan_parm p of
             None \<Rightarrow> Some (1, g, [Log (''Invalid gate parm '' @ p)])
           | Some (header, watchdog, addr, client_tag, n) \<Rightarrow>
               if n \<le> 0 then Some (1, g, [Log ''Need max connection''])
               else if header \<noteq> CHR ''S'' \<and> header \<noteq> CHR ''L'' then Some (1, g, [Log ''Invalid data header style''])
               else
                 let client_tag = (if client_tag = 0 then int PTYPE_CLIENT else client_tag);
                     none = hd watchdog = CHR ''!'';
                     wd = (if none then 0 else query watchdog);
                     g = g\<lparr>ga_watchdog := wd\<rparr>;
                     asked = (if none then [] else [Query watchdog])
                 in if \<not> none \<and> wd = 0 then Some (1, g, asked @ [Log (''Invalid watchdog '' @ watchdog)])
                    else do {
                      h \<leftarrow> hashid_init n;
                      let g = g\<lparr>ga_hash := h, ga_conn := replicate (nat n) (zero_connection\<lparr>co_id := - 1\<rparr>),
                               ga_max_connection := n, ga_client_tag := client_tag,
                               ga_header_size := (if header = CHR ''S'' then 2 else 4)\<rparr>;
                      let (r, g, out) = start_listen listen addr g;
                      Some (r, g, asked @ Callback # out)
                    }))"

section \<open>Frames\<close>

definition buf :: "nat \<Rightarrow> gate \<Rightarrow> databuffer \<times> messagepool" where
  "buf i g = (co_buffer (ga_conn g ! i), ga_mp g)"

lemma set_buffer_simps [simp]:
  "ga_hash (set_buffer i s g) = ga_hash g" "ga_listen_id (set_buffer i s g) = ga_listen_id g"
  "ga_watchdog (set_buffer i s g) = ga_watchdog g" "ga_broker (set_buffer i s g) = ga_broker g"
  "ga_client_tag (set_buffer i s g) = ga_client_tag g" "ga_header_size (set_buffer i s g) = ga_header_size g"
  "ga_max_connection (set_buffer i s g) = ga_max_connection g"
  "length (ga_conn (set_buffer i s g)) = length (ga_conn g)" "ga_mp (set_buffer i s g) = snd s"
  by (cases s; simp add: set_buffer_def upd_conn_def)+

lemma set_buffer_twice [simp]: "set_buffer i s (set_buffer i s' g) = set_buffer i s g"
  by (cases "i < length (ga_conn g)") (simp_all add: set_buffer_def upd_conn_def list_update_beyond split: prod.split)

lemma set_buffer_nth [simp]:
  "i < length (ga_conn g) \<Longrightarrow> ga_conn (set_buffer i s g) ! i = (ga_conn g ! i)\<lparr>co_buffer := fst s\<rparr>"
  "j \<noteq> i \<Longrightarrow> ga_conn (set_buffer i s g) ! j = ga_conn g ! j"
  by (cases s; simp add: set_buffer_def upd_conn_def)+

lemma set_buffer_buf [simp]: "set_buffer i (buf i g) g = g"
  by (simp add: set_buffer_def upd_conn_def buf_def)

lemma buf_set_buffer [simp]: "i < length (ga_conn g) \<Longrightarrow> buf i (set_buffer i s g) = s"
  by (simp add: buf_def)

text \<open>Where a frame of connection \<open>i\<close> goes.\<close>

definition routed :: "gate \<Rightarrow> nat \<Rightarrow> bool" where
  "routed g i \<longleftrightarrow> co_id (ga_conn g ! i) > 0 \<and>
     (ga_broker g \<noteq> 0 \<or> co_agent (ga_conn g ! i) \<noteq> 0 \<or> ga_watchdog g \<noteq> 0)"

definition forward_call :: "gate \<Rightarrow> nat \<Rightarrow> bytes \<Rightarrow> service_call" where
  "forward_call g i m =
     (let c = ga_conn g ! i; fd = co_id c in
      if ga_broker g \<noteq> 0 then Send 0 (ga_broker g) (client_type g) fd m
      else if co_agent c \<noteq> 0 then Send (co_client c) (co_agent c) (client_type g) fd m
      else Send 0 (ga_watchdog g) (of_nat PTYPE_TEXT OR PTYPE_TAG_DONTCOPY) fd (cstr (fmt_d fd @ '' data '') @ m))"

lemma routed_set_buffer [simp]: "i < length (ga_conn g) \<Longrightarrow> routed (set_buffer i s g) i = routed g i"
  by (simp add: routed_def)

lemma forward_call_set_buffer [simp]:
  "i < length (ga_conn g) \<Longrightarrow> forward_call (set_buffer i s g) i = forward_call g i"
  by (rule ext) (simp add: forward_call_def client_type_def Let_def)

lemma gate_forward_eq:
  assumes "i < length (ga_conn g)"
  shows "gate_forward i n (set_buffer i s g) =
    (if routed g i then do { (d, s) \<leftarrow> databuffer_read s n; Some (set_buffer i s g, [forward_call g i d]) }
     else Some (set_buffer i s g, []))"
  using assms
  by (auto simp: gate_forward_def take_data_def routed_def forward_call_def client_type_def Let_def
      bind_eq_Some_conv split: Option.bind_splits)

lemma dispatch_frames_eq:
  assumes "i < length (ga_conn g)"
  shows "dispatch_frames i sid (set_buffer i s g) = do {
     (size, s) \<leftarrow> databuffer_readheader s (ga_header_size g);
     if size < 0 then Some (set_buffer i s g, [])
     else if size > 0 then
       if size \<ge> 0x1000000 then
         Some (set_buffer i (databuffer_clear s) g, [Close sid, Log ''Recv socket message > 16M''])
       else do {
         (g', out) \<leftarrow> gate_forward i (nat size) (set_buffer i s g);
         let (db, mp) = buf i g';
         (g'', out') \<leftarrow> dispatch_frames i sid (set_buffer i (databuffer_reset db, mp) g);
         Some (g'', out @ out')
       }
     else dispatch_frames i sid (set_buffer i s g)
   }"
proof -
  have reset: "upd_conn i (\<lambda>c. c\<lparr>co_buffer := databuffer_reset (co_buffer c)\<rparr>) (set_buffer i t g) =
      set_buffer i (databuffer_reset (fst t), snd t) g" for t
    using assms by (simp add: set_buffer_def upd_conn_def split: prod.split)
  show ?thesis
  proof (cases "databuffer_readheader s (ga_header_size g)")
    case None
    then show ?thesis using assms by (subst dispatch_frames.simps) (simp add: buf_def [symmetric])
  next
    case (Some r)
    obtain n t where r: "r = (n, t)" by (cases r)
    show ?thesis
      using assms Some
      by (subst dispatch_frames.simps)
        (auto simp: buf_def [symmetric] r reset gate_forward_eq Let_def bind_eq_Some_conv split: Option.bind_splits prod.split)
  qed
qed

text \<open>The part of the stream that a connection has not forwarded yet, its length header included.\<close>

definition stream :: "nat \<Rightarrow> databuffer \<Rightarrow> bytes \<Rightarrow> bool" where
  "stream hs db p \<longleftrightarrow> buffer_wf db \<and>
     (db_header db = 0 \<and> p = contents db \<or>
      (\<exists>h. length h = hs \<and> 0 < be h \<and> db_header db = int (be h) \<and> p = h @ contents db))"

lemma plen_be: "be bs < 2 ^ 24 \<Longrightarrow> plen bs = int (be bs)"
proof -
  have "foldl (\<lambda>n b. n * 256 + uint b) (int k) bs = int (foldl (\<lambda>n b. n * 256 + unat b) k bs)" for k
  proof (induction bs arbitrary: k)
    case (Cons b bs)
    have "int k * 256 + uint b = int (k * 256 + unat b)" by simp
    then show ?case by (simp only: foldl.simps Cons.IH)
  qed simp
  from this [of 0] show "be bs < 2 ^ 24 \<Longrightarrow> plen bs = int (be bs)" by (simp add: plen_def be_def to_int_def)
qed

lemma readheader_ready:
  assumes "buffer_wf db" "db_header db \<noteq> 0"
  shows "databuffer_readheader (db, mp) hs =
    Some (if int (length (contents db)) < db_header db then - 1 else db_header db, db, mp)"
  using assms by (simp add: databuffer_readheader_def buffer_wf_def)

lemma readheader_next:
  assumes "buffer_wf db" "db_header db = 0" "hs \<le> length (contents db)" "0 < hs" "be (take hs (contents db)) < 2 ^ 24"
  shows "\<exists>db' mp'. databuffer_readheader (db, mp) hs =
      Some (if int (length (contents db')) < db_header db' then - 1 else db_header db', db', mp') \<and>
    buffer_wf db' \<and> contents db' = drop hs (contents db) \<and> db_header db' = int (be (take hs (contents db)))"
proof -
  obtain db' mp' where r: "databuffer_read (db, mp) hs = Some (take hs (contents db), db', mp')" "buffer_wf db'"
    "contents db' = drop hs (contents db)" "db_header db' = db_header db"
    using databuffer_read_ok [OF assms(1,3,4)] by blast
  let ?db = "db'\<lparr>db_header := int (be (take hs (contents db)))\<rparr>"
  have "buffer_wf ?db" using r(2) by (simp add: buffer_wf_def)
  then show ?thesis
    using r assms by (intro exI [of _ ?db] exI [of _ mp']) (simp add: databuffer_readheader_def plen_be buffer_wf_def)
qed

lemma dispatch_frames_ok:
  assumes i: "i < length (ga_conn g)" and hs: "ga_header_size g = hs" "0 < hs" and r: "routed g i"
  shows "stream hs db p \<Longrightarrow> sizes_ok (2 ^ 24) hs p \<Longrightarrow>
    \<exists>s'. dispatch_frames i sid (set_buffer i (db, mp) g) =
        Some (set_buffer i s' g, map (forward_call g i) (filter (\<lambda>m. m \<noteq> []) (fst (frames hs p)))) \<and>
      stream hs (fst s') (snd (frames hs p))"
proof (induction "length p" arbitrary: p db mp rule: less_induct)
  case less
  let ?goal = "\<lambda>db mp. \<exists>s'. dispatch_frames i sid (set_buffer i (db, mp) g) =
        Some (set_buffer i s' g, map (forward_call g i) (filter (\<lambda>m. m \<noteq> []) (fst (frames hs p)))) \<and>
      stream hs (fst s') (snd (frames hs p))"
  have ready: "?goal db mp"
    if rd: "databuffer_readheader (db, mp) hs =
        Some (if int (length (contents db')) < db_header db' then - 1 else db_header db', db', mp')"
      and h: "length h = hs" "0 < be h"
      and db': "buffer_wf db'" "db_header db' = int (be h)" "p = h @ contents db'"
    for db mp db' mp' h
  proof (cases "length (contents db') < be h")
    case True
    then have "frames hs p = ([], p)" "stream hs db' p"
      using h db' hs frames_header [of h hs "contents db'"] by (auto simp: stream_def)
    then show ?thesis
      using True rd db' i hs(1) by (intro exI [of _ "(db', mp')"]) (simp add: dispatch_frames_eq)
  next
    case False
    let ?n = "be h" and ?c = "contents db'"
    have n: "?n < 2 ^ 24" "sizes_ok (2 ^ 24) hs (drop ?n ?c)"
      using sizes_ok_header [OF h(1) hs(2), of "2 ^ 24" ?c] less.prems(2) db' False by auto
    obtain db2 mp2 where d: "databuffer_read (db', mp') ?n = Some (take ?n ?c, db2, mp2)" "buffer_wf db2"
      "contents db2 = drop ?n ?c"
      using databuffer_read_ok [OF db'(1), of ?n mp'] False h(2) by auto
    have "stream hs (databuffer_reset db2) (drop ?n ?c)"
      using d by (simp add: stream_def buffer_wf_def databuffer_reset_def)
    moreover have shorter: "length (drop ?n ?c) < length p" using hs(2) h(1) db'(3) by simp
    ultimately obtain s' where s': "dispatch_frames i sid (set_buffer i (databuffer_reset db2, mp2) g) =
        Some (set_buffer i s' g, map (forward_call g i) (filter (\<lambda>m. m \<noteq> []) (fst (frames hs (drop ?n ?c)))))"
      "stream hs (fst s') (snd (frames hs (drop ?n ?c)))"
      using less.hyps [OF _ _ n(2)] shorter by blast
    have "frames hs p = (take ?n ?c # fst (frames hs (drop ?n ?c)), snd (frames hs (drop ?n ?c)))"
      using frames_header [OF h(1) hs(2), of ?c] False db'(3) by simp
    moreover have "take ?n ?c \<noteq> []" using False h(2) by auto
    moreover have "dispatch_frames i sid (set_buffer i (db, mp) g) = do {
        (g'', out') \<leftarrow> dispatch_frames i sid (set_buffer i (databuffer_reset db2, mp2) g);
        Some (g'', forward_call g i (take ?n ?c) # out')
      }"
      using rd d db' i hs(1) False h(2) n(1) r
      by (simp add: dispatch_frames_eq [OF i] gate_forward_eq [OF i] not_less)
    ultimately show ?thesis using s' by (intro exI [of _ s']) simp
  qed
  from less.prems(1) consider (header) h where "buffer_wf db" "length h = hs" "0 < be h" "db_header db = int (be h)" "p = h @ contents db"
    | (none) "buffer_wf db" "db_header db = 0" "p = contents db"
    by (auto simp: stream_def)
  then show ?case
  proof cases
    case header
    then show ?thesis using ready [of db mp db mp h] readheader_ready [of db mp hs] by auto
  next
    case none
    show ?thesis
    proof (cases "length p < hs")
      case True
      then have "databuffer_readheader (db, mp) hs = Some (- 1, db, mp)"
        using none by (simp add: databuffer_readheader_def buffer_wf_def)
      then show ?thesis
        using True none hs(1) i by (intro exI [of _ "(db, mp)"]) (simp add: dispatch_frames_eq frames_short stream_def)
    next
      case long: False
      let ?h = "take hs p"
      have h: "length ?h = hs" "be ?h < 2 ^ 24" "p = ?h @ drop hs p"
        using long sizes_ok_header [of ?h hs "2 ^ 24" "drop hs p"] less.prems(2) hs(2) by auto
      obtain db' mp' where d: "databuffer_readheader (db, mp) hs =
          Some (if int (length (contents db')) < db_header db' then - 1 else db_header db', db', mp')"
        "buffer_wf db'" "contents db' = drop hs p" "db_header db' = int (be ?h)"
        using readheader_next [OF none(1,2) _ hs(2), of mp] long h(2) unfolding none(3) not_less by blast
      show ?thesis
      proof (cases "be ?h = 0")
        case True
        have shorter: "length (drop hs p) < length p" using hs(2) long by simp
        have "stream hs db' (drop hs p)" using True d by (simp add: stream_def)
        moreover have "sizes_ok (2 ^ 24) hs (drop hs p)"
          using sizes_ok_header(2) [of ?h hs "2 ^ 24" "drop hs p"] h less.prems(2) hs(2) True by simp
        ultimately obtain s' where s': "dispatch_frames i sid (set_buffer i (db', mp') g) =
            Some (set_buffer i s' g, map (forward_call g i) (filter (\<lambda>m. m \<noteq> []) (fst (frames hs (drop hs p)))))"
          "stream hs (fst s') (snd (frames hs (drop hs p)))"
          using less.hyps [OF shorter] by blast
        have "frames hs p = ([] # fst (frames hs (drop hs p)), snd (frames hs (drop hs p)))"
          using frames_header [OF h(1) hs(2), of "drop hs p"] h(3) True by simp
        moreover have "dispatch_frames i sid (set_buffer i (db, mp) g) = dispatch_frames i sid (set_buffer i (db', mp') g)"
          using d i hs(1) True by (subst dispatch_frames_eq) simp_all
        ultimately show ?thesis using s' by (intro exI [of _ s']) simp
      next
        case False
        then show ?thesis using ready [OF d(1) h(1) _ d(2,4)] d(3) h(3) by simp
      qed
    qed
  qed
qed

text \<open>Whatever arrives, the loop ends and leaves the buffer well formed.\<close>

lemma readheader_total:
  assumes "buffer_wf db" "0 < hs"
  shows "\<exists>n db' mp'. databuffer_readheader (db, mp) hs = Some (n, db', mp') \<and> buffer_wf db' \<and>
    (n < 0 \<or> n = db_header db' \<and> n \<le> int (length (contents db')) \<and>
      (if db_header db = 0 then length (contents db') < length (contents db)
       else length (contents db') = length (contents db) \<and> n \<noteq> 0))"
proof (cases "db_header db = 0 \<and> length (contents db) < hs")
  case True
  then show ?thesis using assms by (simp add: databuffer_readheader_def buffer_wf_def)
next
  case False
  show ?thesis
  proof (cases "db_header db = 0")
    case True
    then have "hs \<le> length (contents db)" using False by simp
    then obtain db' mp' where r: "databuffer_read (db, mp) hs = Some (take hs (contents db), db', mp')"
      "buffer_wf db'" "contents db' = drop hs (contents db)" "db_header db' = db_header db"
      using databuffer_read_ok [OF assms(1) _ assms(2)] by blast
    then show ?thesis
      using True False assms by (auto simp: databuffer_readheader_def buffer_wf_def)
  qed (use readheader_ready [OF assms(1)] assms in auto)
qed

lemma dispatch_frames_total:
  assumes i: "i < length (ga_conn g)" and hs: "0 < ga_header_size g"
  shows "buffer_wf db \<Longrightarrow> \<exists>s' out. dispatch_frames i sid (set_buffer i (db, mp) g) = Some (set_buffer i s' g, out) \<and>
    buffer_wf (fst s')"
proof (induction "2 * length (contents db) + (if db_header db = 0 then 0 else 1)" arbitrary: db mp rule: less_induct)
  case less
  obtain n db' mp' where r: "databuffer_readheader (db, mp) (ga_header_size g) = Some (n, db', mp')" "buffer_wf db'"
    "n < 0 \<or> n = db_header db' \<and> n \<le> int (length (contents db')) \<and>
      (if db_header db = 0 then length (contents db') < length (contents db)
       else length (contents db') = length (contents db) \<and> n \<noteq> 0)"
    using readheader_total [OF less.prems hs] by blast
  note eq = dispatch_frames_eq [OF i, of sid "(db, mp)", unfolded r(1) Option.bind.simps prod.case]
  consider "n < 0" | "n \<ge> 0x1000000" | (frame) "0 < n" "n < 0x1000000" | (zero) "n = 0" by linarith
  then show ?case
  proof cases
    case 1
    then show ?thesis using r(2) unfolding eq by auto
  next
    case 2
    then show ?thesis unfolding eq by (auto simp: databuffer_clear_def intro!: exI)
  next
    case frame
    obtain db2 mp2 out where f: "gate_forward i (nat n) (set_buffer i (db', mp') g) = Some (set_buffer i (db2, mp2) g, out)"
      "buffer_wf db2" "length (contents db2) \<le> length (contents db')"
    proof (cases "routed g i")
      case True
      obtain db2 mp2 where "databuffer_read (db', mp') (nat n) = Some (take (nat n) (contents db'), db2, mp2)"
        "buffer_wf db2" "contents db2 = drop (nat n) (contents db')"
        using databuffer_read_ok [OF r(2), of "nat n" mp'] r(3) frame by (auto simp: nat_le_iff)
      then show thesis using True that by (simp add: gate_forward_eq [OF i])
    qed (use that r(2) in \<open>simp add: gate_forward_eq [OF i]\<close>)
    let ?db = "databuffer_reset db2"
    have "buffer_wf ?db" "db_header ?db = 0" "contents ?db = contents db2"
      using f(2) by (simp_all add: databuffer_reset_def buffer_wf_def)
    moreover from this have "2 * length (contents ?db) + (if db_header ?db = 0 then 0 else 1)
        < 2 * length (contents db) + (if db_header db = 0 then 0 else 1)"
      using f(3) r(3) frame by (auto split: if_splits)
    ultimately obtain s' out' where "dispatch_frames i sid (set_buffer i (?db, mp2) g) = Some (set_buffer i s' g, out')"
      "buffer_wf (fst s')"
      using less.hyps by blast
    then show ?thesis using frame f i unfolding eq by (intro exI [of _ s'] exI [of _ "out @ out'"]) simp
  next
    case zero
    then have "2 * length (contents db') + (if db_header db' = 0 then 0 else 1)
        < 2 * length (contents db) + (if db_header db = 0 then 0 else 1)"
      using r(3) by (auto split: if_splits)
    then show ?thesis using less.hyps [OF _ r(2)] zero unfolding eq by simp
  qed
qed

section \<open>Framing is independent of the chunks\<close>

definition gate_feed :: "int \<Rightarrow> gate \<Rightarrow> bytes \<Rightarrow> (gate \<times> service_call list) option" where
  "gate_feed sid g c = dispatch_socket_message (data_message sid c) g"

text \<open>Connection \<open>i\<close> of id \<open>sid\<close> has a destination and waits for the rest of \<open>p\<close>.\<close>

definition gate_holds :: "nat \<Rightarrow> nat \<Rightarrow> int \<Rightarrow> (bytes \<Rightarrow> service_call) \<Rightarrow> gate \<Rightarrow> bytes \<Rightarrow> bool" where
  "gate_holds hs i sid emit g p \<longleftrightarrow>
     hs > 0 \<and> ga_header_size g = hs \<and> i < length (ga_conn g) \<and> hashid_lookup (ga_hash g) sid = Some (int i) \<and>
     routed g i \<and> forward_call g i = emit \<and> stream hs (co_buffer (ga_conn g ! i)) p \<and> length p < 2 ^ 31"

lemma stream_push:
  assumes "stream hs db p" "length (p @ c) < 2 ^ 31"
  shows "stream hs (fst (databuffer_push (db, mp) c)) (p @ c)"
proof -
  have "length (contents db) + length c < 2 ^ 31" using assms by (auto simp: stream_def)
  then show ?thesis using push_contents [of db c mp] assms(1) by (auto simp: stream_def)
qed

interpretation gate_stream: framed_stream hs "gate_feed sid" "gate_holds hs i sid emit"
  "\<lambda>s. length s < 2 ^ 31 \<and> sizes_ok (2 ^ 24) hs s" "\<lambda>m. if m \<noteq> [] then [emit m] else []" for hs i sid emit
proof unfold_locales
  fix x t
  assume "length (x @ t) < 2 ^ 31 \<and> sizes_ok (2 ^ 24) hs (x @ t)"
  then show "(length x < 2 ^ 31 \<and> sizes_ok (2 ^ 24) hs x) \<and>
      length (snd (frames hs x) @ t) < 2 ^ 31 \<and> sizes_ok (2 ^ 24) hs (snd (frames hs x) @ t)"
    using sizes_ok_append [of "2 ^ 24" hs x t] frames_rest_length [of hs x] by simp
next
  fix g p c
  assume h: "gate_holds hs i sid emit g p" and ok: "length (p @ c) < 2 ^ 31 \<and> sizes_ok (2 ^ 24) hs (p @ c)"
  let ?s = "databuffer_push (co_buffer (ga_conn g ! i), ga_mp g) c"
  have "stream hs (fst ?s) (p @ c)" using h ok stream_push by (simp add: gate_holds_def)
  then obtain s' where s': "dispatch_frames i sid (set_buffer i ?s g) =
      Some (set_buffer i s' g, map emit (filter (\<lambda>m. m \<noteq> []) (fst (frames hs (p @ c)))))"
    "stream hs (fst s') (snd (frames hs (p @ c)))"
    using dispatch_frames_ok [of i g hs "fst ?s" "p @ c" sid "snd ?s"] h ok by (auto simp: gate_holds_def)
  then have "gate_feed sid g c = Some (set_buffer i s' g, map emit (filter (\<lambda>m. m \<noteq> []) (fst (frames hs (p @ c)))))"
    using h by (simp add: gate_feed_def dispatch_socket_message_def data_message_def gate_dispatch_def gate_holds_def)
  moreover have "gate_holds hs i sid emit (set_buffer i s' g) (snd (frames hs (p @ c)))"
    using h ok s'(2) frames_rest_length [of hs "p @ c"] by (simp add: gate_holds_def)
  ultimately show "\<exists>s'. gate_feed sid g c = Some (s', concat (map (\<lambda>m. if m \<noteq> [] then [emit m] else []) (fst (frames hs (p @ c))))) \<and>
      gate_holds hs i sid emit s' (snd (frames hs (p @ c)))" unfolding concat_map_filter by blast
qed

text \<open>
  C18. A client's frames reach their destination however the network cuts them: when a connection
  with an empty buffer has a broker, an agent or a watchdog to go to and the socket library delivers
  the encoding of the messages \<open>ms\<close> (2-byte or 4-byte lengths, each message below 16M and less than 2G in
  all) in any sequence of non-empty chunks, then \<open>dispatch_socket_message\<close> makes exactly one call per non-empty message, in order,
  with its bytes, to that destination. It returns on every chunk.
\<close>

theorem gate_forwards_frames:
  assumes "ga_header_size g = hs" "hs = 2 \<or> hs = 4" "hashid_lookup (ga_hash g) sid = Some (int i)"
    "i < length (ga_conn g)" "co_buffer (ga_conn g ! i) = empty_buffer" "routed g i"
    "\<forall>m \<in> set ms. length m < 2 ^ 24 \<and> length m < 256 ^ hs"
    "concat cs = concat (map (frame hs) ms)" "[] \<notin> set cs" "length (concat cs) < 2 ^ 31"
  shows "\<exists>g'. feeds (\<lambda>g c. dispatch_socket_message (data_message sid c) g) g cs =
    Some (g', map (forward_call g i) (filter (\<lambda>m. m \<noteq> []) ms))"
proof -
  have hs: "0 < hs" using assms(2) by auto
  have "gate_holds hs i sid (forward_call g i) g []"
    using assms hs by (simp add: gate_holds_def stream_def)
  moreover have "sizes_ok (2 ^ 24) hs (concat cs)" using sizes_ok_encode [OF hs, of ms "2 ^ 24"] assms(7,8) by simp
  ultimately show ?thesis
    using gate_stream.chunks_do_not_matter [of hs i sid "forward_call g i" g ms cs] hs assms(7-10)
    unfolding gate_feed_def [abs_def] concat_map_filter by auto
qed

definition gate_ex :: "u32 \<Rightarrow> gate" where
  "gate_ex agent = \<lparr>ga_listen_id = 3, ga_watchdog = 0, ga_broker = 0, ga_client_tag = 3, ga_header_size = 2,
     ga_max_connection = 1,
     ga_hash = \<lparr>hi_hashmod = 0, hi_cap = 1, hi_count = 1, hi_id = [\<lparr>hn_id = 7, hn_next = None\<rparr>], hi_hash = [Some 0]\<rparr>,
     ga_conn = [\<lparr>co_id = 7, co_agent = agent, co_client = 0, co_remote_name = [], co_buffer = empty_buffer\<rparr>],
     ga_mp = \<lparr>mp_chunks = 0, mp_free = 0\<rparr>\<rparr>"

lemma gate_ex_lookup [simp]: "hashid_lookup (ga_hash (gate_ex a)) 7 = Some 0"
  by (simp add: gate_ex_def hashid_lookup_def hash_head_def bucket_def lookup_loop.simps node_at_def)

theorem gate_forwards_frames_witness:
  "\<exists>g'. feeds (\<lambda>g c. dispatch_socket_message (data_message 7 c) g) (gate_ex 9) [[0, 3, 65], [66, 67, 0], [1, 68]] =
    Some (g', map (forward_call (gate_ex 9) 0) (filter (\<lambda>m. m \<noteq> []) [[65, 66, 67], [68]]))"
proof (rule gate_forwards_frames [where hs = 2])
  show "routed (gate_ex 9) 0" "ga_header_size (gate_ex 9) = 2" "0 < length (ga_conn (gate_ex 9))"
    "co_buffer (ga_conn (gate_ex 9) ! 0) = empty_buffer"
    by (simp_all add: gate_ex_def routed_def)
  show "concat [[0, 3, 65], [66, 67, 0], [1, 68 :: u8]] = concat (map (frame 2) [[65, 66, 67], [68]])"
    by (simp add: frame_def numeral_2_eq_2)
qed simp_all

section \<open>Every message leaves the gate consistent\<close>

text \<open>
  The table of ids agrees with the ids in the connections, and every buffer is well formed.
\<close>

definition gate_wf :: "gate \<Rightarrow> bool" where
  "gate_wf g \<longleftrightarrow> hashids.tagged (ga_hash g) (\<lambda>i. co_id (ga_conn g ! i)) \<and>
     length (ga_conn g) = length (hi_id (ga_hash g)) \<and> ga_max_connection g = int (length (ga_conn g)) \<and>
     0 < ga_header_size g \<and> (\<forall>c \<in> set (ga_conn g). buffer_wf (co_buffer c))"

text \<open>
  What the gate relies on: commands end within the literal they are compared with, a block of data
  leaves less than 2G in the buffer, and a new connection comes from the listening socket with an id that no
  other connection has.
\<close>

definition acceptable :: "gate_message \<Rightarrow> gate \<Rightarrow> bool" where
  "acceptable msg g \<longleftrightarrow>
     (case msg of
        Text m \<Rightarrow> 0 \<notin> set m
      | Socket m \<Rightarrow>
          (sm_type m = SKYNET_SOCKET_TYPE_DATA \<longrightarrow>
             (\<forall>c \<in> set (ga_conn g). co_id c = sm_id m \<longrightarrow> length (contents (co_buffer c)) + length (sm_buffer m) < 2 ^ 31)) \<and>
          (sm_type m = SKYNET_SOCKET_TYPE_ACCEPT \<longrightarrow>
             sm_id m = ga_listen_id g \<and> 0 \<le> sm_ud m \<and> sm_ud m + ga_max_connection g \<le> 2 ^ 31 \<and>
             (\<forall>c \<in> set (ga_conn g). co_id c \<noteq> sm_ud m))
      | _ \<Rightarrow> True)"

lemma hashids_lookup:
  assumes "gate_wf g"
  shows "\<exists>r. hashid_lookup (ga_hash g) k = Some r \<and>
    (r = - 1 \<or> 0 \<le> r \<and> nat r < length (ga_conn g) \<and> co_id (ga_conn g ! nat r) = k)"
proof -
  have "hashids.tagged (ga_hash g) (\<lambda>i. co_id (ga_conn g ! i))" "length (ga_conn g) = length (hi_id (ga_hash g))"
    using assms by (auto simp: gate_wf_def)
  then show ?thesis using hashids.tagged_lookup [of "ga_hash g" "\<lambda>i. co_id (ga_conn g ! i)" k] by auto
qed

lemma gate_wf_cong:
  assumes "gate_wf g" "ga_hash g' = ga_hash g" "map co_id (ga_conn g') = map co_id (ga_conn g)"
    "ga_max_connection g' = ga_max_connection g" "ga_header_size g' = ga_header_size g"
    "\<forall>c \<in> set (ga_conn g'). buffer_wf (co_buffer c)"
  shows "gate_wf g'"
proof -
  have l: "length (ga_conn g') = length (ga_conn g)" using assms(3) by (metis length_map)
  have "co_id (ga_conn g' ! i) = co_id (ga_conn g ! i)" if "i < length (ga_conn g)" for i
    using assms(3) that l by (metis nth_map)
  then have "hashids.tagged (ga_hash g') (\<lambda>i. co_id (ga_conn g' ! i))"
    using assms(1,2) by (auto simp: gate_wf_def hashids.tagged_def)
  then show ?thesis using assms l by (simp add: gate_wf_def)
qed

lemma command_is_Some:
  assumes "0 \<notin> set m" "n \<le> length m"
  shows "\<exists>b. command_is l (m @ [0]) n = Some b"
proof (rule ccontr)
  let ?l = "cstr l @ [0]"
  assume "\<nexists>b. command_is l (m @ [0]) n = Some b"
  then have c: "length ?l < n" "take (length ?l) (m @ [0]) = ?l"
    by (auto simp: command_is_def Let_def not_le split: if_splits)
  then have "take (length ?l) m = ?l" using assms(2) by simp
  then show False using assms(1) by (metis in_set_conv_decomp in_set_takeD)
qed

lemma gate_wf_update:
  "gate_wf (g\<lparr>ga_broker := b\<rparr>) = gate_wf g" "gate_wf (g\<lparr>ga_listen_id := l\<rparr>) = gate_wf g"
  by (simp_all add: gate_wf_def)

lemma forward_agent_ok:
  assumes "gate_wf g"
  shows "\<exists>g'. forward_agent fd a c g = Some g' \<and> gate_wf g'"
proof -
  obtain r where r: "hashid_lookup (ga_hash g) fd = Some r" "r = - 1 \<or> 0 \<le> r \<and> nat r < length (ga_conn g)"
    using hashids_lookup [OF assms, of fd] by auto
  have "gate_wf (upd_conn i (\<lambda>x. x\<lparr>co_agent := a, co_client := c\<rparr>) g)" if "i < length (ga_conn g)" for i
    using that assms
    by (intro gate_wf_cong [OF assms]) (auto simp: upd_conn_def map_update gate_wf_def list_update_same_conv
        dest!: subsetD [OF set_update_subset_insert])
  then show ?thesis using r assms by (auto simp: forward_agent_def)
qed

lemma gate_ctrl_ok:
  assumes "gate_wf g" "0 \<notin> set m"
  shows "\<exists>g' out. gate_ctrl q m g = Some (g', out) \<and> gate_wf g'"
proof -
  let ?i = "length (takeWhile (\<lambda>b. b \<noteq> 32) m)"
  have c: "\<exists>b. command_is l (m @ [0]) ?i = Some b" for l
    using command_is_Some [OF assms(2)] length_takeWhile_le by blast
  obtain b1 b2 b3 b4 b5 where b: "command_is ''kick'' (m @ [0]) ?i = Some b1" "command_is ''forward'' (m @ [0]) ?i = Some b2"
    "command_is ''broker'' (m @ [0]) ?i = Some b3" "command_is ''start'' (m @ [0]) ?i = Some b4"
    "command_is ''close'' (m @ [0]) ?i = Some b5"
    using c by metis
  have k: "(\<exists>out. ctrl_kick arg g = Some (g, out)) \<and> (\<exists>out. ctrl_start arg g = Some (g, out))" for arg
    using hashids_lookup [OF assms(1), of "to_int (fst (strtol 10 (str_at arg 0)))"]
    by (auto simp: ctrl_kick_def ctrl_start_def Let_def)
  have f: "\<exists>g' out. ctrl_forward arg g = Some (g', out) \<and> gate_wf g'" for arg
  proof -
    obtain a1 o1 where 1: "strsep_at arg 0 = (a1, o1)" by (cases "strsep_at arg 0")
    show ?thesis
    proof (cases o1)
      case (Some n)
      obtain a2 o2 where 2: "strsep_at a1 n = (a2, o2)" by (cases "strsep_at a1 n")
      show ?thesis
      proof (cases o2)
        case (Some c)
        obtain g' where "forward_agent (to_int (fst (strtol 10 (str_at a1 0)))) (ucast (strtoul 16 (str_at a2 (n + 1))))
            (ucast (strtoul 16 (str_at a2 (c + 1)))) g = Some g'" "gate_wf g'"
          using forward_agent_ok [OF assms(1)] by blast
        then show ?thesis using 1 2 Some \<open>o1 = Some n\<close> by (simp add: ctrl_forward_def)
      qed (use 1 2 Some assms(1) in \<open>simp add: ctrl_forward_def\<close>)
    qed (use 1 assms(1) in \<open>simp add: ctrl_forward_def\<close>)
  qed
  show ?thesis
    using k [of "parm (m @ [0]) (length m) ?i"] f [of "parm (m @ [0]) (length m) ?i"] assms(1)
    unfolding gate_ctrl_def Let_def b Option.bind.simps by (auto simp: gate_wf_update)
qed

lemma gate_close_ok:
  assumes "gate_wf g"
  shows "\<exists>g' out. gate_close sid g = Some (g', out) \<and> gate_wf g'"
proof -
  let ?tag = "\<lambda>i. co_id (ga_conn g ! i)"
  have t: "hashids.tagged (ga_hash g) ?tag" and l: "length (ga_conn g) = length (hi_id (ga_hash g))"
    using assms by (auto simp: gate_wf_def)
  from hashids.tagged_remove [OF t, of sid] show ?thesis
  proof (elim disjE exE conjE)
    fix i h
    assume i: "i < length (hi_id (ga_hash g))" "hashid_remove (ga_hash g) sid = Some (int i, h)"
      "length (hi_id h) = length (hi_id (ga_hash g))" "hashids.tagged h (?tag(i := - 1))"
    let ?g = "upd_conn i (\<lambda>c. zero_connection\<lparr>co_id := - 1\<rparr>)
        (set_buffer i (databuffer_clear (co_buffer (ga_conn g ! i), ga_mp g)) (g\<lparr>ga_hash := h\<rparr>))"
    have conn: "ga_conn ?g = (ga_conn g)[i := zero_connection\<lparr>co_id := - 1\<rparr>]" "ga_hash ?g = h"
      "ga_max_connection ?g = ga_max_connection g" "ga_header_size ?g = ga_header_size g"
      by (simp_all add: upd_conn_def set_buffer_def databuffer_clear_def)
    have "hashids.tagged h (\<lambda>j. co_id (ga_conn ?g ! j))"
      using i(4) i(1,3) l unfolding conn hashids.tagged_def by (auto simp: nth_list_update)
    moreover have "\<forall>c \<in> set (ga_conn ?g). buffer_wf (co_buffer c)"
      using assms unfolding conn by (auto simp: gate_wf_def zero_connection_def dest!: subsetD [OF set_update_subset_insert])
    ultimately have "gate_wf ?g" using assms i(3) conn by (simp add: gate_wf_def)
    then show ?thesis using i(2) by (auto simp: gate_close_def Let_def)
  next
    fix h
    assume h: "hashid_remove (ga_hash g) sid = Some (- 1, h)" "length (hi_id h) = length (hi_id (ga_hash g))"
      "hashids.tagged h ?tag"
    then have "gate_wf (g\<lparr>ga_hash := h\<rparr>)" using assms by (simp add: gate_wf_def)
    then show ?thesis using h by (auto simp: gate_close_def Let_def)
  qed
qed

lemma gate_accept_ok:
  assumes "gate_wf g" "0 \<le> ud" "ud + ga_max_connection g \<le> 2 ^ 31" "\<forall>c \<in> set (ga_conn g). co_id c \<noteq> ud"
  shows "\<exists>g' out. gate_accept ud name g = Some (g', out) \<and> gate_wf g'"
proof (cases "hashid_full (ga_hash g)")
  case False
  let ?tag = "\<lambda>i. co_id (ga_conn g ! i)"
  have t: "hashids.tagged (ga_hash g) ?tag" and l: "length (ga_conn g) = length (hi_id (ga_hash g))"
    "ga_max_connection g = int (length (ga_conn g))"
    using assms by (auto simp: gate_wf_def)
  have "\<forall>i < length (hi_id (ga_hash g)). ?tag i \<noteq> ud" using assms(4) l(1) by (metis nth_mem)
  then obtain i h where i: "hashid_insert (ga_hash g) ud = Some (int i, h)" "i < length (hi_id (ga_hash g))"
    "length (hi_id h) = length (hi_id (ga_hash g))" "hashids.tagged h (?tag(i := ud))"
    using hashids.tagged_insert [OF t False assms(2)] assms(3) l by auto
  let ?g = "upd_conn i (\<lambda>c. c\<lparr>co_id := ud, co_remote_name := take 31 name\<rparr>) (g\<lparr>ga_hash := h\<rparr>)"
  have conn: "ga_conn ?g = (ga_conn g)[i := (ga_conn g ! i)\<lparr>co_id := ud, co_remote_name := take 31 name\<rparr>]" "ga_hash ?g = h"
      "ga_max_connection ?g = ga_max_connection g" "ga_header_size ?g = ga_header_size g"
    by (simp_all add: upd_conn_def)
  have "hashids.tagged h (\<lambda>j. co_id (ga_conn ?g ! j))"
    using i(4) i(2,3) l unfolding conn hashids.tagged_def by (auto simp: nth_list_update)
  moreover have "buffer_wf (co_buffer (ga_conn g ! i))" using assms(1) i(2) l by (simp add: gate_wf_def)
  then have "\<forall>c \<in> set (ga_conn ?g). buffer_wf (co_buffer c)"
    using assms unfolding conn by (auto simp: gate_wf_def dest!: subsetD [OF set_update_subset_insert])
  ultimately have "gate_wf ?g" using assms i(3) conn by (simp add: gate_wf_def)
  then show ?thesis using False i(1) by (auto simp: gate_accept_def Let_def)
qed (use assms in \<open>auto simp: gate_accept_def\<close>)

lemma gate_dispatch_ok:
  assumes "gate_wf g" "i < length (ga_conn g)" "length (contents (co_buffer (ga_conn g ! i))) + length data < 2 ^ 31"
  shows "\<exists>g' out. gate_dispatch i sid data g = Some (g', out) \<and> gate_wf g'"
proof -
  have b: "buffer_wf (co_buffer (ga_conn g ! i))" using assms by (simp add: gate_wf_def)
  obtain db mp where p: "databuffer_push (co_buffer (ga_conn g ! i), ga_mp g) data = (db, mp)" "buffer_wf db"
    using push_contents [OF b assms(3)] by blast
  obtain s' out where d: "dispatch_frames i sid (set_buffer i (db, mp) g) = Some (set_buffer i s' g, out)" "buffer_wf (fst s')"
    using dispatch_frames_total [of i g db sid mp] assms(1,2) p(2) by (auto simp: gate_wf_def)
  have "gate_wf (set_buffer i s' g)"
    using assms(1,2) d(2)
    by (intro gate_wf_cong [OF assms(1)]) (auto simp: set_buffer_def upd_conn_def map_update gate_wf_def
        list_update_same_conv dest!: subsetD [OF set_update_subset_insert] split: prod.splits)
  then show ?thesis using d p by (simp add: gate_dispatch_def)
qed

text \<open>
  C19. The gate never fails and stays consistent: \<open>gate_cb\<close>, called in a consistent state with any
  acceptable message, returns, and the table of ids, the ids of the connections and the buffers
  agree afterwards; \<open>gate_init\<close> establishes this.
\<close>

theorem gate_stays_consistent:
  assumes "gate_wf g" "acceptable msg g"
  shows "\<exists>r g' out. gate_cb query source msg g = Some (r, g', out) \<and> gate_wf g'"
proof (cases msg)
  case (Text m)
  then show ?thesis using gate_ctrl_ok [OF assms(1), of m query] assms(2) by (auto simp: gate_cb_def acceptable_def)
next
  case (Client m)
  obtain f where "\<And>k. hashid_lookup (ga_hash g) k = Some (f k)" using hashids_lookup [OF assms(1)] by metis
  then show ?thesis using Client assms(1) by (simp add: gate_cb_def client_message_def Let_def)
next
  case (Socket m)
  obtain r where r: "hashid_lookup (ga_hash g) (sm_id m) = Some r"
    "r = - 1 \<or> 0 \<le> r \<and> nat r < length (ga_conn g) \<and> co_id (ga_conn g ! nat r) = sm_id m"
    using hashids_lookup [OF assms(1)] by blast
  have "\<exists>g' out. dispatch_socket_message m g = Some (g', out) \<and> gate_wf g'"
  proof -
    consider (data) "sm_type m = SKYNET_SOCKET_TYPE_DATA"
      | (close) "sm_type m = SKYNET_SOCKET_TYPE_CLOSE \<or> sm_type m = SKYNET_SOCKET_TYPE_ERROR"
      | (accept) "sm_type m = SKYNET_SOCKET_TYPE_ACCEPT"
      | (other) "sm_type m \<notin> {SKYNET_SOCKET_TYPE_DATA, SKYNET_SOCKET_TYPE_CLOSE, SKYNET_SOCKET_TYPE_ERROR, SKYNET_SOCKET_TYPE_ACCEPT}"
      by auto
    then show ?thesis
    proof cases
      case data
      show ?thesis
      proof (cases "r \<ge> 0")
        case True
        then have "length (contents (co_buffer (ga_conn g ! nat r))) + length (sm_buffer m) < 2 ^ 31"
          using r(2) assms(2) Socket data by (auto simp: acceptable_def)
        then show ?thesis
          using gate_dispatch_ok [OF assms(1), of "nat r"] True r data by (auto simp: dispatch_socket_message_def Let_def)
      qed (use r data assms(1) in \<open>simp add: dispatch_socket_message_def Let_def\<close>)
    next
      case close
      then show ?thesis
        using gate_close_ok [OF assms(1), of "sm_id m"] by (auto simp: dispatch_socket_message_def socket_types)
    next
      case accept
      then have "sm_id m = ga_listen_id g" "0 \<le> sm_ud m" "sm_ud m + ga_max_connection g \<le> 2 ^ 31"
        "\<forall>c \<in> set (ga_conn g). co_id c \<noteq> sm_ud m"
        using assms(2) Socket by (auto simp: acceptable_def)
      then show ?thesis
        using gate_accept_ok [OF assms(1), of "sm_ud m" "sm_buffer m"] accept
        by (auto simp: dispatch_socket_message_def socket_types)
    next
      case other
      then show ?thesis using r(1) assms(1) by (auto simp: dispatch_socket_message_def Let_def)
    qed
  qed
  then show ?thesis using Socket by (auto simp: gate_cb_def)
next
  case Other
  then show ?thesis using assms(1) by (simp add: gate_cb_def)
qed

lemma gate_init_wf:
  assumes "gate_init query listen parameters g = Some (0, g', out)"
    "\<And>h w b t n. parameters = Some p \<Longrightarrow> scan_parm p = Some (h, w, b, t, n) \<Longrightarrow> n \<le> 2 ^ 30" "parameters = Some p"
  shows "gate_wf g'"
proof -
  obtain h w b t n where s: "scan_parm p = Some (h, w, b, t, n)"
    using assms(1,3) by (cases "scan_parm p") (auto simp: gate_init_def)
  have n: "0 < n" "n \<le> 2 ^ 30" using assms s by (auto simp: gate_init_def split: if_splits)
  obtain hi where hi: "hashid_init n = Some hi" "hashid_wf hi" "length (hi_id hi) = nat n" "Hashid.binding hi = Map.empty"
    using hashid_init_wf [of n] n by auto
  have "ga_hash g' = hi" "ga_max_connection g' = n" "ga_header_size g' \<in> {2, 4}"
    "ga_conn g' = replicate (nat n) (zero_connection\<lparr>co_id := - 1\<rparr>)"
    using assms(1,3) s n hi(1)
    by (auto simp: gate_init_def start_listen_def Let_def split: if_splits prod.splits)
  then show ?thesis
    using hi n by (auto simp: gate_wf_def hashids.tagged_def zero_connection_def)
qed

lemma start_ex: "\<exists>g out. gate_init (\<lambda>_. 5) (\<lambda>_ _. 3) (Some ''S ! 8888 0 2'') gate_create = Some (0, g, out) \<and> gate_wf g"
proof -
  have s: "scan_parm ''S ! 8888 0 2'' = Some (CHR ''S'', ''!'', ''8888'', 0, 2)" by code_simp
  have l: "strrchr ''8888'' CHR '':'' = None" "strtol 10 ''8888'' = (8888, [])" by code_simp+
  obtain hi where "hashid_init 2 = Some hi" using hashid_init_wf [of 2] by auto
  then have "\<exists>g out. gate_init (\<lambda>_. 5) (\<lambda>_ _. 3) (Some ''S ! 8888 0 2'') gate_create = Some (0, g, out)"
    by (simp add: gate_init_def s start_listen_def l to_int_def)
  then show ?thesis using gate_init_wf [where p = "''S ! 8888 0 2''"] s by fastforce
qed

theorem gate_stays_consistent_witness:
  "\<exists>g0 out0 r g' out. gate_init (\<lambda>_. 5) (\<lambda>_ _. 3) (Some ''S ! 8888 0 2'') gate_create = Some (0, g0, out0) \<and>
    gate_cb (\<lambda>_. 5) 1 (Client [1, 2, 3, 4, 5]) g0 = Some (r, g', out) \<and> gate_wf g'"
  using start_ex gate_stays_consistent [of _ "Client [1, 2, 3, 4, 5]"] by (fastforce simp: acceptable_def)

text \<open>
  A frame of one byte for which the gate has no destination (no broker, no agent, no watchdog) is
  not taken out of the buffer: nothing is sent, and the byte becomes the start of the next length
  header, so the connection is out of step from there on.
\<close>

theorem gate_unrouted_frame_stays:
  assumes "ga_header_size g = 2" "hashid_lookup (ga_hash g) sid = Some (int i)" "i < length (ga_conn g)"
    "co_buffer (ga_conn g ! i) = empty_buffer" "\<not> routed g i"
  shows "\<exists>g'. dispatch_socket_message (data_message sid (frame 2 [b])) g = Some (g', []) \<and>
    contents (co_buffer (ga_conn g' ! i)) = [b] \<and> db_header (co_buffer (ga_conn g' ! i)) = 0"
proof -
  let ?c = "[0, 1, b]"
  have fr: "frame 2 [b] = ?c" by (simp add: frame_def numeral_2_eq_2)
  obtain db mp where p: "databuffer_push (empty_buffer, ga_mp g) ?c = (db, mp)" "buffer_wf db" "contents db = ?c" "db_header db = 0"
    using push_contents [of empty_buffer ?c "ga_mp g"] by auto
  have "be (take 2 (contents db)) = 1" using p(3) by (simp add: be_def)
  then obtain db1 mp1 where h: "databuffer_readheader (db, mp) 2 = Some (1, db1, mp1)" "buffer_wf db1" "contents db1 = [b]"
    "db_header db1 = 1"
    using readheader_next [of db 2 mp] p by auto
  let ?db = "databuffer_reset db1"
  have r: "databuffer_readheader (?db, mp1) 2 = Some (- 1, ?db, mp1)" "contents ?db = [b]" "db_header ?db = 0"
    using h by (simp_all add: databuffer_readheader_def databuffer_reset_def buffer_wf_def)
  have "dispatch_frames i sid (set_buffer i (db, mp) g) = Some (set_buffer i (?db, mp1) g, [])"
    using assms(1,3,5) h r
    by (simp add: dispatch_frames_eq [OF assms(3), of sid "(db, mp)"] dispatch_frames_eq [OF assms(3), of sid "(?db, mp1)"]
        gate_forward_eq)
  then show ?thesis
    using assms p r by (simp add: fr dispatch_socket_message_def data_message_def gate_dispatch_def)
qed

theorem gate_unrouted_frame_stays_witness:
  "\<exists>g'. dispatch_socket_message (data_message 7 (frame 2 [65])) (gate_ex 0) = Some (g', []) \<and>
    contents (co_buffer (ga_conn g' ! 0)) = [65] \<and> db_header (co_buffer (ga_conn g' ! 0)) = 0"
  by (rule gate_unrouted_frame_stays) (simp_all, simp_all add: gate_ex_def routed_def)

end
