(* ===== verification/Netpack.thy ===== *)
theory Netpack
  imports Gate
begin

text \<open>
  The Lua library \<open>netpack\<close>, \<open>lualib-src/lua-netpack.c\<close>: packages of at most 64K with a 2-byte length, of
  many connections at once. Unfinished packages wait in a hash table of lists; finished ones that
  are not returned at once wait in a ring buffer, which grows when full. The queue is created on
  first use, so the state is an \<open>option\<close>. An operation returns \<open>None\<close> where the C code reads outside
  a buffer or fails an assertion.
\<close>

unbundle bit_operations_syntax

section \<open>State\<close>

definition QUEUESIZE :: nat where "QUEUESIZE = 1024"
definition HASHSIZE :: nat where "HASHSIZE = 4096"

text \<open>A package; its \<open>size\<close> is the length of its buffer.\<close>

record netpack =
  np_id :: int
  np_buffer :: bytes

text \<open>\<open>uc_buffer\<close> is the part of the package read so far.\<close>

record uncomplete =
  uc_id :: int
  uc_size :: nat
  uc_buffer :: bytes
  uc_read :: int
  uc_header :: u8

record netqueue =
  nq_cap :: nat
  nq_head :: nat
  nq_tail :: nat
  nq_hash :: "nat \<Rightarrow> uncomplete list"
  nq_queue :: "netpack option list"

definition new_queue :: netqueue where
  "new_queue = \<lparr>nq_cap = QUEUESIZE, nq_head = 0, nq_tail = 0, nq_hash = (\<lambda>_. []), nq_queue = replicate QUEUESIZE None\<rparr>"

definition get_queue :: "netqueue option \<Rightarrow> netqueue" where
  "get_queue s = (case s of None \<Rightarrow> new_queue | Some q \<Rightarrow> q)"

section \<open>Operations\<close>

text \<open>\<open>clear\<close>: what is freed, in order, and the emptied queue.\<close>

definition clear_ring :: "netqueue \<Rightarrow> netpack list option" where
  "clear_ring q =
     (let tail = (if nq_head q > nq_tail q then nq_tail q + nq_cap q else nq_tail q) in
      those (map (\<lambda>i. arr_read (nq_queue q) (i mod nq_cap q)) [nq_head q..<tail]))"

definition netpack_clear :: "netqueue option \<Rightarrow> (bytes list \<times> netqueue option) option" where
  "netpack_clear s =
     (case s of
        None \<Rightarrow> Some ([], None)
      | Some q \<Rightarrow> do {
          packs \<leftarrow> clear_ring q;
          Some (concat (map (\<lambda>h. map uc_buffer (nq_hash q h)) [0..<HASHSIZE]) @ map np_buffer packs,
                Some (q\<lparr>nq_hash := (\<lambda>h. if h < HASHSIZE then [] else nq_hash q h), nq_head := 0, nq_tail := 0\<rparr>))
        })"

definition hash_fd :: "int \<Rightarrow> nat" where
  "hash_fd fd = nat ((drop_bit 24 fd + drop_bit 12 fd + fd) mod 2 ^ 32 mod int HASHSIZE)"

text \<open>Take the first package of a connection out of a list.\<close>

fun unlink_fd :: "int \<Rightarrow> uncomplete list \<Rightarrow> uncomplete option \<times> uncomplete list" where
  "unlink_fd fd [] = (None, [])"
| "unlink_fd fd (uc # us) =
     (if uc_id uc = fd then (Some uc, us) else let (r, us) = unlink_fd fd us in (r, uc # us))"

definition set_hash :: "nat \<Rightarrow> uncomplete list \<Rightarrow> netqueue \<Rightarrow> netqueue" where
  "set_hash h us q = q\<lparr>nq_hash := (nq_hash q)(h := us)\<rparr>"

definition find_uncomplete :: "int \<Rightarrow> netqueue option \<Rightarrow> uncomplete option \<times> netqueue option" where
  "find_uncomplete fd s =
     (case s of
        None \<Rightarrow> (None, None)
      | Some q \<Rightarrow> let (uc, us) = unlink_fd fd (nq_hash q (hash_fd fd)) in (uc, Some (set_hash (hash_fd fd) us q)))"

definition netpack_expand :: "netqueue \<Rightarrow> netqueue" where
  "netpack_expand q =
     q\<lparr>nq_cap := nq_cap q + QUEUESIZE, nq_head := 0, nq_tail := nq_cap q,
       nq_queue := map (\<lambda>i. arr_read (nq_queue q) ((nq_head q + i) mod nq_cap q)) [0..<nq_cap q]
                   @ replicate QUEUESIZE None\<rparr>"

definition push_data :: "netpack \<Rightarrow> netqueue option \<Rightarrow> netqueue option option" where
  "push_data np s = do {
     let q = get_queue s;
     cells \<leftarrow> arr_write (nq_queue q) (nq_tail q) np;
     let tail = (if nq_tail q + 1 \<ge> nq_cap q then nq_tail q + 1 - nq_cap q else nq_tail q + 1);
     let q = q\<lparr>nq_queue := cells, nq_tail := tail\<rparr>;
     Some (Some (if nq_head q = nq_tail q then netpack_expand q else q))
   }"

definition save_uncomplete :: "uncomplete \<Rightarrow> netqueue option \<Rightarrow> netqueue option" where
  "save_uncomplete uc s =
     (let q = get_queue s; h = hash_fd (uc_id uc) in Some (set_hash h (uc # nq_hash q h) q))"

definition header_only :: "int \<Rightarrow> u8 \<Rightarrow> uncomplete" where
  "header_only fd b = \<lparr>uc_id = fd, uc_size = 0, uc_buffer = [], uc_read = - 1, uc_header = b\<rparr>"

definition partial_pack :: "int \<Rightarrow> nat \<Rightarrow> bytes \<Rightarrow> uncomplete" where
  "partial_pack fd pack_size buffer =
     \<lparr>uc_id = fd, uc_size = pack_size, uc_buffer = buffer, uc_read = int (length buffer), uc_header = 0\<rparr>"

definition read_size :: "u8 \<Rightarrow> u8 \<Rightarrow> nat" where
  "read_size a b = unat (push_bit 8 (ucast a) OR ucast b :: u32)"

function push_more :: "int \<Rightarrow> bytes \<Rightarrow> netqueue option \<Rightarrow> netqueue option option" where
  "push_more fd [] s = None"
| "push_more fd [b] s = Some (save_uncomplete (header_only fd b) s)"
| "push_more fd (a # b # buffer) s =
     (let pack_size = read_size a b in
      if length buffer < pack_size then Some (save_uncomplete (partial_pack fd pack_size buffer) s)
      else do {
        s \<leftarrow> push_data \<lparr>np_id = fd, np_buffer = take pack_size buffer\<rparr> s;
        if length buffer > pack_size then push_more fd (drop pack_size buffer) s else Some s
      })"
  by pat_completeness auto
termination by (relation "measure (\<lambda>(fd, buffer, s). length buffer)") auto

definition close_uncomplete :: "int \<Rightarrow> netqueue option \<Rightarrow> netqueue option" where
  "close_uncomplete fd s = snd (find_uncomplete fd s)"

text \<open>What \<open>filter\<close> returns to Lua after the queue.\<close>

datatype filter_result =
    Nothing
  | DataOf int bytes
  | More
  | Error int bytes
  | Open int bytes
  | Closed int
  | Warning int int

text \<open>The case that an unfinished package of the connection waits for data.\<close>

definition fill_uncomplete ::
  "uncomplete \<Rightarrow> int \<Rightarrow> bytes \<Rightarrow> netqueue option \<Rightarrow> (filter_result \<times> netqueue option) option" where
  "fill_uncomplete uc fd buffer s = do {
     (uc, buffer) \<leftarrow>
       (if uc_read uc < 0 then
          if uc_read uc \<noteq> - 1 \<or> buffer = [] then None
          else Some (uc\<lparr>uc_size := read_size (uc_header uc) (hd buffer), uc_buffer := [], uc_read := 0\<rparr>, tl buffer)
        else Some (uc, buffer));
     let need = nat (int (uc_size uc) - uc_read uc);
     if length buffer < need then do {
       q \<leftarrow> s;
       let h = hash_fd fd;
       let uc = uc\<lparr>uc_buffer := uc_buffer uc @ buffer, uc_read := uc_read uc + int (length buffer)\<rparr>;
       Some (Nothing, Some (set_hash h (uc # nq_hash q h) q))
     }
     else do {
       let pack = uc_buffer uc @ take need buffer;
       let buffer = drop need buffer;
       if buffer = [] then Some (DataOf fd pack, s)
       else do {
         s \<leftarrow> push_data \<lparr>np_id = fd, np_buffer = pack\<rparr> s;
         s \<leftarrow> push_more fd buffer s;
         Some (More, s)
       }
     }
   }"

definition filter_data :: "int \<Rightarrow> bytes \<Rightarrow> netqueue option \<Rightarrow> (filter_result \<times> netqueue option) option" where
  "filter_data fd buffer s =
     (case find_uncomplete fd s of
        (Some uc, s) \<Rightarrow> fill_uncomplete uc fd buffer s
      | (None, s) \<Rightarrow>
          (case buffer of
             [] \<Rightarrow> None
           | [b] \<Rightarrow> Some (Nothing, save_uncomplete (header_only fd b) s)
           | a # b # buffer \<Rightarrow>
               let pack_size = read_size a b in
               if length buffer < pack_size then
                 Some (Nothing, save_uncomplete (partial_pack fd pack_size buffer) s)
               else if length buffer = pack_size then Some (DataOf fd buffer, s)
               else do {
                 s \<leftarrow> push_data \<lparr>np_id = fd, np_buffer = take pack_size buffer\<rparr> s;
                 s \<leftarrow> push_more fd (drop pack_size buffer) s;
                 Some (More, s)
               }))"

definition lfilter :: "socket_message \<Rightarrow> netqueue option \<Rightarrow> (filter_result \<times> netqueue option) option" where
  "lfilter m s =
     (if sm_type m = SKYNET_SOCKET_TYPE_DATA then filter_data (sm_id m) (sm_buffer m) s
      else if sm_type m = SKYNET_SOCKET_TYPE_CONNECT then Some (Nothing, s)
      else if sm_type m = SKYNET_SOCKET_TYPE_CLOSE then Some (Closed (sm_id m), close_uncomplete (sm_id m) s)
      else if sm_type m = SKYNET_SOCKET_TYPE_ACCEPT then Some (Open (sm_ud m) (sm_buffer m), s)
      else if sm_type m = SKYNET_SOCKET_TYPE_ERROR then
        Some (Error (sm_id m) (sm_buffer m), close_uncomplete (sm_id m) s)
      else if sm_type m = SKYNET_SOCKET_TYPE_WARNING then Some (Warning (sm_id m) (sm_ud m), s)
      else Some (Nothing, s))"

definition lpop :: "netqueue option \<Rightarrow> (netpack option \<times> netqueue option) option" where
  "lpop s =
     (case s of
        None \<Rightarrow> Some (None, None)
      | Some q \<Rightarrow>
          if nq_head q = nq_tail q then Some (None, s)
          else do {
            np \<leftarrow> arr_read (nq_queue q) (nq_head q);
            Some (Some np, Some (q\<lparr>nq_head := (if nq_head q + 1 \<ge> nq_cap q then 0 else nq_head q + 1)\<rparr>))
          })"

definition write_size :: "nat \<Rightarrow> bytes" where
  "write_size n = [of_nat (n div 256), of_nat n]"

definition lpack :: "bytes \<Rightarrow> string + bytes" where
  "lpack data =
     (if length data \<ge> 0x10000 then Inl (''Invalid size (too long) of data : '' @ fmt_d (to_int (int (length data))))
      else Inr (write_size (length data) @ data))"

section \<open>The ring buffer is a queue\<close>

definition np_contents :: "netqueue option \<Rightarrow> netpack list" where
  "np_contents s = (case s of None \<Rightarrow> [] | Some q \<Rightarrow> pending (nq_queue q) (nq_head q) (nq_tail q) (nq_cap q))"

definition np_wf :: "netqueue option \<Rightarrow> bool" where
  "np_wf s \<longleftrightarrow> (\<forall>q. s = Some q \<longrightarrow> ring_ok (nq_queue q) (nq_head q) (nq_tail q) (nq_cap q))"

text \<open>The unfinished packages of a connection.\<close>

definition waiting :: "int \<Rightarrow> netqueue option \<Rightarrow> uncomplete list" where
  "waiting fd s = (case s of None \<Rightarrow> [] | Some q \<Rightarrow> filter (\<lambda>u. uc_id u = fd) (nq_hash q (hash_fd fd)))"

lemma get_queue_same:
  "np_wf s \<Longrightarrow> np_wf (Some (get_queue s))" "np_contents (Some (get_queue s)) = np_contents s"
  "waiting fd (Some (get_queue s)) = waiting fd s"
  by (cases s; simp add: get_queue_def np_wf_def np_contents_def waiting_def new_queue_def QUEUESIZE_def ring_new)+

lemma netpack_expand_cells:
  assumes "0 < nq_cap q" "length (nq_queue q) = nq_cap q"
  shows "nq_queue (netpack_expand q) = ring (nq_queue q) (nq_head q) (nq_cap q) @ replicate QUEUESIZE None"
  using assms ring_read [of "nq_queue q" "nq_head q" "nq_cap q"] by (force simp: netpack_expand_def)

lemma np_store_ok:
  assumes "np_wf (Some q)"
  shows "\<exists>q'. push_data m (Some q) = Some (Some q') \<and> np_wf (Some q') \<and>
    np_contents (Some q') = np_contents (Some q) @ [m] \<and> nq_hash q' = nq_hash q"
proof -
  let ?c = "nq_cap q" and ?h = "nq_head q" and ?t = "nq_tail q"
  let ?t' = "Suc ?t mod ?c"
  define q1 where "q1 = q\<lparr>nq_queue := (nq_queue q)[?t := Some m], nq_tail := ?t'\<rparr>"
  have ok: "ring_ok (nq_queue q) ?h ?t ?c" using assms by (simp add: np_wf_def)
  have "(if ?t + 1 \<ge> ?c then ?t + 1 - ?c else ?t + 1) = ?t'" using ok by (auto simp: mod_Suc ring_ok_def)
  then have store: "push_data m (Some q) = Some (Some (if ?h = ?t' then netpack_expand q1 else q1))"
    using ok by (simp add: push_data_def get_queue_def arr_write_def q1_def Let_def ring_ok_def)
  show ?thesis
  proof (cases "?h = ?t'")
    case True
    have "0 < nq_cap q1" "length (nq_queue q1) = nq_cap q1" "?c < ?c + QUEUESIZE"
      using ok by (simp_all add: q1_def ring_ok_def QUEUESIZE_def)
    then have "np_wf (Some (netpack_expand q1))" "np_contents (Some (netpack_expand q1)) = np_contents (Some q) @ [m]"
      using ring_store_full [OF ok True [symmetric], of "?c + QUEUESIZE" m] netpack_expand_cells [of q1]
      by (simp_all add: np_wf_def np_contents_def) (simp_all add: netpack_expand_def q1_def)
    then show ?thesis using store True by (auto simp: netpack_expand_def q1_def)
  next
    case False
    with ring_store [OF ok, of m] have "np_wf (Some q1)" "np_contents (Some q1) = np_contents (Some q) @ [m]"
      by (simp_all add: np_wf_def np_contents_def q1_def)
    then show ?thesis using store False by (auto simp: q1_def)
  qed
qed

lemma push_data_ok:
  assumes "np_wf s"
  shows "\<exists>s'. push_data m s = Some s' \<and> np_wf s' \<and> np_contents s' = np_contents s @ [m] \<and> (\<forall>fd. waiting fd s' = waiting fd s)"
proof -
  obtain q' where "push_data m (Some (get_queue s)) = Some (Some q')" "np_wf (Some q')"
    "np_contents (Some q') = np_contents s @ [m]" "nq_hash q' = nq_hash (get_queue s)"
    using np_store_ok [OF get_queue_same(1) [OF assms], of m] get_queue_same(2) [of s] by auto
  moreover have "push_data m s = push_data m (Some (get_queue s))" by (simp add: push_data_def get_queue_def)
  moreover have "waiting fd (Some q') = waiting fd s" for fd
    using calculation(4) get_queue_same(3) [of fd s] by (simp add: waiting_def)
  ultimately show ?thesis by auto
qed

lemma lpop_ok:
  assumes "np_wf s"
  shows "np_contents s = [] \<Longrightarrow> lpop s = Some (None, s)"
    "np_contents s = m # ms \<Longrightarrow> \<exists>s'. lpop s = Some (Some m, s') \<and> np_wf s' \<and> np_contents s' = ms \<and> (\<forall>fd. waiting fd s' = waiting fd s)"
proof -
  { assume "np_contents s = []"
    then show "lpop s = Some (None, s)"
      using assms by (cases s) (auto simp: lpop_def np_contents_def np_wf_def pending_empty_iff) }
  assume c: "np_contents s = m # ms"
  then obtain q where s: "s = Some q" by (cases s) (auto simp: np_contents_def)
  let ?c = "nq_cap q" and ?h = "nq_head q" and ?t = "nq_tail q"
  let ?h' = "Suc ?h mod ?c"
  have ok: "ring_ok (nq_queue q) ?h ?t ?c" using assms s by (simp add: np_wf_def)
  have p: "pending (nq_queue q) ?h ?t ?c = m # ms" using c s by (simp add: np_contents_def)
  note r = ring_take [OF ok p]
  let ?q = "q\<lparr>nq_head := ?h'\<rparr>"
  have "(if ?h + 1 \<ge> ?c then 0 else ?h + 1) = ?h'" using ok by (auto simp: mod_Suc ring_ok_def)
  then have "lpop s = Some (Some m, Some ?q)" using s r ok by (simp add: lpop_def arr_read_def ring_ok_def)
  moreover have "np_wf (Some ?q)" using r by (simp add: np_wf_def)
  moreover have "np_contents (Some ?q) = ms" using r by (simp add: np_contents_def)
  moreover have "\<forall>fd. waiting fd (Some ?q) = waiting fd s" by (simp add: waiting_def s)
  ultimately show "\<exists>s'. lpop s = Some (Some m, s') \<and> np_wf s' \<and> np_contents s' = ms \<and> (\<forall>fd. waiting fd s' = waiting fd s)"
    by blast
qed

interpretation netpack_queue: fifo push_data lpop np_contents "\<lambda>s. np_wf s \<and> (\<forall>fd. waiting fd s = w fd)" for w
  by unfold_locales (use push_data_ok lpop_ok in \<open>fastforce+\<close>)

section \<open>Packages of many connections\<close>

lemma read_size_be: "read_size a b = be [a, b]"
proof -
  have "push_bit 8 (ucast a) AND (ucast b :: u32) = 0"
    by (rule bit_word_eqI) (auto simp: bit_simps dest: bit_imp_le_length)
  then have "push_bit 8 (ucast a) OR ucast b = push_bit 8 (ucast a) + (ucast b :: u32)"
    by (simp add: disjunctive_add_eq_or)
  moreover have "unat a < 256" "unat b < 256" using unsigned_less [of a, where ?'a = nat] unsigned_less [of b, where ?'a = nat] by simp_all
  ultimately show ?thesis
    by (simp add: read_size_def be_def unat_word_ariths push_bit_eq_mult unsigned_ucast_eq take_bit_eq_mod)
qed

text \<open>The unfinished packages \<open>us\<close> of a connection whose unfinished frame is \<open>p\<close>.\<close>

fun waits :: "uncomplete list \<Rightarrow> bytes \<Rightarrow> bool" where
  "waits us [] \<longleftrightarrow> us = []"
| "waits us [b] \<longleftrightarrow> (\<exists>u. us = [u] \<and> uc_read u = - 1 \<and> uc_header u = b)"
| "waits us (a # b # rest) \<longleftrightarrow> (\<exists>u. us = [u] \<and> uc_read u = int (length rest) \<and> uc_size u = be [a, b] \<and>
     uc_buffer u = rest \<and> length rest < be [a, b])"

lemma frames_two: "frames 2 (a # b # rest) = (if length rest < be [a, b] then ([], a # b # rest)
    else (take (be [a, b]) rest # fst (frames 2 (drop (be [a, b]) rest)), snd (frames 2 (drop (be [a, b]) rest))))"
  using frames_header [of "[a, b]" 2 rest] by simp

lemma save_uncomplete_ok:
  assumes "np_wf s"
  shows "np_wf (save_uncomplete uc s)" "np_contents (save_uncomplete uc s) = np_contents s"
    "waiting fd (save_uncomplete uc s) = (if uc_id uc = fd then [uc] else []) @ waiting fd s"
  using get_queue_same(1,2) [of s] get_queue_same(3) [of fd s] assms
  by (auto simp: save_uncomplete_def Let_def set_hash_def np_wf_def np_contents_def waiting_def)

definition pack :: "int \<Rightarrow> bytes \<Rightarrow> netpack" where
  "pack fd m = \<lparr>np_id = fd, np_buffer = m\<rparr>"

lemma push_more_ok:
  "buffer \<noteq> [] \<Longrightarrow> np_wf s \<Longrightarrow> waiting fd s = [] \<Longrightarrow>
     \<exists>s'. push_more fd buffer s = Some s' \<and> np_wf s' \<and>
       np_contents s' = np_contents s @ map (pack fd) (fst (frames 2 buffer)) \<and>
       waits (waiting fd s') (snd (frames 2 buffer)) \<and> (\<forall>g. g \<noteq> fd \<longrightarrow> waiting g s' = waiting g s)"
proof (induction fd buffer s rule: push_more.induct)
  case (2 fd b s)
  then show ?case by (simp add: save_uncomplete_ok frames_short header_only_def)
next
  case (3 fd a b buffer s)
  let ?n = "read_size a b"
  show ?case
  proof (cases "length buffer < ?n")
    case True
    then show ?thesis
      using 3 by (simp add: save_uncomplete_ok frames_two read_size_be partial_pack_def)
  next
    case False
    obtain s1 where s1: "push_data (pack fd (take ?n buffer)) s = Some s1" "np_wf s1"
      "np_contents s1 = np_contents s @ [pack fd (take ?n buffer)]" "\<forall>g. waiting g s1 = waiting g s"
      using push_data_ok [OF 3(3)] by blast
    show ?thesis
    proof (cases "length buffer > ?n")
      case True
      then have "\<exists>s'. push_more fd (drop ?n buffer) s1 = Some s' \<and> np_wf s' \<and>
          np_contents s' = np_contents s1 @ map (pack fd) (fst (frames 2 (drop ?n buffer))) \<and>
          waits (waiting fd s') (snd (frames 2 (drop ?n buffer))) \<and> (\<forall>g. g \<noteq> fd \<longrightarrow> waiting g s' = waiting g s1)"
        using 3 s1 False by (intro "3.IH") (auto simp: pack_def)
      then show ?thesis using True s1 False by (auto simp: pack_def frames_two read_size_be)
    next
      case False
      then have "drop ?n buffer = []" "length buffer = ?n" using \<open>\<not> length buffer < ?n\<close> by simp_all
      then show ?thesis using s1 3 by (simp add: pack_def frames_two read_size_be frames_short)
    qed
  qed
qed simp

lemma unlink_fd_spec:
  assumes "unlink_fd fd us = (r, us')"
  shows "filter (\<lambda>u. uc_id u = fd) us = (case r of None \<Rightarrow> [] | Some u \<Rightarrow> [u]) @ filter (\<lambda>u. uc_id u = fd) us'"
    "r = None \<Longrightarrow> filter (\<lambda>u. uc_id u = fd) us' = []"
    "g \<noteq> fd \<Longrightarrow> filter (\<lambda>u. uc_id u = g) us' = filter (\<lambda>u. uc_id u = g) us"
    "r = Some u \<Longrightarrow> uc_id u = fd"
  using assms by (induction us arbitrary: us' r) (auto split: if_splits prod.splits option.splits)

lemma find_uncomplete_ok:
  assumes "np_wf s" "find_uncomplete fd s = (r, s')"
  shows "np_wf s'" "np_contents s' = np_contents s" "g \<noteq> fd \<Longrightarrow> waiting g s' = waiting g s"
    "waiting fd s = [] \<Longrightarrow> r = None \<and> waiting fd s' = []"
    "waiting fd s = [u] \<Longrightarrow> r = Some u \<and> uc_id u = fd \<and> waiting fd s' = [] \<and> s' \<noteq> None"
proof -
  have "np_wf s' \<and> np_contents s' = np_contents s \<and> (g \<noteq> fd \<longrightarrow> waiting g s' = waiting g s) \<and>
      (waiting fd s = [] \<longrightarrow> r = None \<and> waiting fd s' = []) \<and>
      (waiting fd s = [u] \<longrightarrow> r = Some u \<and> uc_id u = fd \<and> waiting fd s' = [] \<and> s' \<noteq> None)"
  proof (cases s)
    case None
    then show ?thesis using assms by (auto simp: find_uncomplete_def waiting_def)
  next
    case (Some q)
    obtain us' where u: "unlink_fd fd (nq_hash q (hash_fd fd)) = (r, us')" "s' = Some (set_hash (hash_fd fd) us' q)"
      using assms(2) Some by (auto simp: find_uncomplete_def split: prod.splits)
    have "waiting fd s = (case r of None \<Rightarrow> [] | Some u \<Rightarrow> [u]) @ waiting fd s'"
      using unlink_fd_spec(1) [OF u(1)] by (simp add: waiting_def Some u(2) set_hash_def)
    moreover have "r = None \<longrightarrow> waiting fd s' = []"
      using unlink_fd_spec(2) [OF u(1)] by (simp add: waiting_def u(2) set_hash_def)
    moreover have "g \<noteq> fd \<longrightarrow> waiting g s' = waiting g s"
      using unlink_fd_spec(3) [OF u(1), of g] by (auto simp: waiting_def Some u(2) set_hash_def)
    moreover have "np_wf s'" "np_contents s' = np_contents s"
      using assms(1) by (auto simp: np_wf_def np_contents_def Some u(2) set_hash_def)
    ultimately show ?thesis using u(2) unlink_fd_spec(4) [OF u(1)] by (cases r) auto
  qed
  then show "np_wf s'" "np_contents s' = np_contents s" "g \<noteq> fd \<Longrightarrow> waiting g s' = waiting g s"
    "waiting fd s = [] \<Longrightarrow> r = None \<and> waiting fd s' = []"
    "waiting fd s = [u] \<Longrightarrow> r = Some u \<and> uc_id u = fd \<and> waiting fd s' = [] \<and> s' \<noteq> None" by blast+
qed

text \<open>What a result and the queue say about the finished packages.\<close>

definition delivers :: "int \<Rightarrow> filter_result \<Rightarrow> netpack list \<Rightarrow> bytes list \<Rightarrow> bool" where
  "delivers fd r queued ms \<longleftrightarrow>
     (case r of
        Nothing \<Rightarrow> ms = [] \<and> queued = []
      | DataOf g m \<Rightarrow> g = fd \<and> ms = [m] \<and> queued = []
      | More \<Rightarrow> queued = map (pack fd) ms
      | _ \<Rightarrow> False)"

text \<open>A package that is complete, and what follows it.\<close>

lemma complete_pack_ok:
  assumes "np_wf s" "np_contents s = []" "waiting fd s = []"
  shows "\<exists>r s'. (if rest = [] then Some (DataOf fd m, s)
      else do { s \<leftarrow> push_data (pack fd m) s; s \<leftarrow> push_more fd rest s; Some (More, s) }) = Some (r, s') \<and>
    np_wf s' \<and> delivers fd r (np_contents s') (m # fst (frames 2 rest)) \<and>
    waits (waiting fd s') (snd (frames 2 rest)) \<and> (\<forall>g. g \<noteq> fd \<longrightarrow> waiting g s' = waiting g s)"
proof (cases "rest = []")
  case True
  then show ?thesis using assms by (simp add: frames_short delivers_def)
next
  case False
  obtain s1 where s1: "push_data (pack fd m) s = Some s1" "np_wf s1" "np_contents s1 = [pack fd m]" "\<forall>g. waiting g s1 = waiting g s"
    using push_data_ok [OF assms(1), of "pack fd m"] assms(2) by auto
  obtain s2 where "push_more fd rest s1 = Some s2" "np_wf s2" "np_contents s2 = np_contents s1 @ map (pack fd) (fst (frames 2 rest))"
    "waits (waiting fd s2) (snd (frames 2 rest))" "\<forall>g. g \<noteq> fd \<longrightarrow> waiting g s2 = waiting g s1"
    using push_more_ok [OF False s1(2), of fd] s1(4) assms(3) by auto
  then show ?thesis using False s1 by (simp add: delivers_def)
qed

definition filter_good :: "int \<Rightarrow> netqueue option \<Rightarrow> bytes \<Rightarrow> (filter_result \<times> netqueue option) option \<Rightarrow> bool" where
  "filter_good fd s p x \<longleftrightarrow> (\<exists>r s'. x = Some (r, s') \<and> np_wf s' \<and> delivers fd r (np_contents s') (fst (frames 2 p)) \<and>
     waits (waiting fd s') (snd (frames 2 p)) \<and> (\<forall>g. g \<noteq> fd \<longrightarrow> waiting g s' = waiting g s))"

lemma fill_uncomplete_read:
  assumes s: "np_wf s" "np_contents s = []" "waiting fd s = []" "s \<noteq> None"
    and uc: "uc_id uc = fd" "uc_size uc = be [a, b]" "uc_buffer uc = rest" "uc_read uc = int (length rest)" "length rest \<le> be [a, b]"
  shows "filter_good fd s (a # b # rest @ c) (fill_uncomplete uc fd c s)"
proof -
  let ?n = "be [a, b]"
  define need where "need = ?n - length rest"
  have need: "nat (int (uc_size uc) - uc_read uc) = need" using uc by (simp add: need_def)
  show ?thesis
  proof (cases "length c < need")
    case True
    obtain q where q: "s = Some q" using s(4) by auto
    let ?uc = "uc\<lparr>uc_buffer := rest @ c, uc_read := int (length rest) + int (length c)\<rparr>"
    let ?s = "Some (set_hash (hash_fd fd) (?uc # nq_hash q (hash_fd fd)) q)"
    have "fill_uncomplete uc fd c s = Some (Nothing, ?s)"
      using True uc need q by (simp add: fill_uncomplete_def Let_def)
    moreover have "np_wf ?s" "np_contents ?s = []" "waiting fd ?s = [?uc]" "g \<noteq> fd \<longrightarrow> waiting g ?s = waiting g s" for g
      using s uc(1) q by (auto simp: np_wf_def np_contents_def waiting_def set_hash_def)
    moreover have "frames 2 (a # b # rest @ c) = ([], a # b # rest @ c)" "length (rest @ c) < ?n"
      using True by (simp_all add: frames_two need_def)
    ultimately show ?thesis using uc by (simp add: filter_good_def delivers_def)
  next
    case False
    let ?m = "rest @ take need c" and ?more = "drop need c"
    have "fill_uncomplete uc fd c s = (if ?more = [] then Some (DataOf fd ?m, s)
        else do { s \<leftarrow> push_data (pack fd ?m) s; s \<leftarrow> push_more fd ?more s; Some (More, s) })"
      using False uc need by (simp add: fill_uncomplete_def pack_def)
    moreover have "frames 2 (a # b # rest @ c) = (?m # fst (frames 2 ?more), snd (frames 2 ?more))"
      using False uc(5) by (simp add: frames_two need_def)
    ultimately show ?thesis
      using complete_pack_ok [OF s(1-3), of ?more ?m] by (simp add: filter_good_def)
  qed
qed

lemma filter_data_ok:
  assumes "np_wf s" "np_contents s = []" "waits (waiting fd s) p" "c \<noteq> []"
  shows "filter_good fd s (p @ c) (filter_data fd c s)"
proof -
  obtain r s1 where f: "find_uncomplete fd s = (r, s1)" by (cases "find_uncomplete fd s")
  note fo = find_uncomplete_ok [OF assms(1) f]
  have good: "filter_good fd s q x" if "filter_good fd s1 q x" for q x
    using that fo(3) by (fastforce simp: filter_good_def)
  show ?thesis
  proof (cases "waiting fd s")
    case Nil
    then have p: "p = []" using assms(3) by (cases p rule: remdups_adj.cases) auto
    have r: "r = None" "waiting fd s1 = []" using fo(4) Nil by auto
    have "filter_good fd s1 c (filter_data fd c s)"
    proof (cases c rule: remdups_adj.cases)
      case (2 b)
      then show ?thesis
        using f r fo(1,2) assms(2)
        by (simp add: filter_data_def filter_good_def frames_short save_uncomplete_ok delivers_def header_only_def)
    next
      case (3 a b rest)
      let ?n = "read_size a b"
      show ?thesis
      proof (cases "length rest < ?n")
        case True
        then show ?thesis
          using f r fo(1,2) assms(2) 3
          by (simp add: filter_data_def filter_good_def save_uncomplete_ok delivers_def partial_pack_def frames_two read_size_be)
      next
        case False
        have "filter_data fd c s = (if drop ?n rest = [] then Some (DataOf fd (take ?n rest), s1)
            else do { s \<leftarrow> push_data (pack fd (take ?n rest)) s1; s \<leftarrow> push_more fd (drop ?n rest) s; Some (More, s) })"
          using f r 3 False by (auto simp: filter_data_def pack_def Let_def)
        moreover have "frames 2 c = (take ?n rest # fst (frames 2 (drop ?n rest)), snd (frames 2 (drop ?n rest)))"
          using False 3 by (simp add: frames_two read_size_be)
        ultimately show ?thesis
          using complete_pack_ok [OF fo(1) _ r(2), of "drop ?n rest" "take ?n rest"] fo(2) assms(2)
          by (simp add: filter_good_def)
      qed
    qed (use assms(4) in simp)
    then show ?thesis using good p by simp
  next
    case (Cons u us)
    then have u: "waiting fd s = [u]" using assms(3) by (cases p rule: remdups_adj.cases) auto
    have r: "r = Some u" "uc_id u = fd" "waiting fd s1 = []" "s1 \<noteq> None" "np_contents s1 = []"
      using fo(5) [OF u] fo(2) assms(2) by auto
    have fd: "filter_data fd c s = fill_uncomplete u fd c s1" using f r(1) by (simp add: filter_data_def)
    from assms(3) u consider (header) b where "p = [b]" "uc_read u = - 1" "uc_header u = b"
      | (pack) a b rest where "p = a # b # rest" "uc_read u = int (length rest)" "uc_size u = be [a, b]"
          "uc_buffer u = rest" "length rest < be [a, b]"
      by (cases p rule: remdups_adj.cases) auto
    then have "filter_good fd s1 (p @ c) (fill_uncomplete u fd c s1)"
    proof cases
      case header
      obtain x c' where c: "c = x # c'" using assms(4) by (cases c) auto
      let ?u = "u\<lparr>uc_size := be [b, x], uc_buffer := [], uc_read := 0\<rparr>"
      have "fill_uncomplete u fd c s1 = fill_uncomplete ?u fd c' s1"
        using header c by (simp add: fill_uncomplete_def read_size_be)
      then show ?thesis
        using fill_uncomplete_read [OF fo(1) r(5,3,4), of ?u b x "[]" c'] r(2) header c by simp
    next
      case pack
      then show ?thesis using fill_uncomplete_read [OF fo(1) r(5,3,4,2), of a b rest c] by simp
    qed
    then show ?thesis using good fd by simp
  qed
qed

text \<open>
  What the Lua gate server does with a block of data: call \<open>filter\<close> and, when there is more than one
  package, pop the queue until it is empty.
\<close>

definition netpack_feed :: "netqueue option \<Rightarrow> int \<times> bytes \<Rightarrow> (netqueue option \<times> (int \<times> bytes) list) option" where
  "netpack_feed s = (\<lambda>(fd, c). do {
     (r, s) \<leftarrow> lfilter (data_message fd c) s;
     case r of
       DataOf fd m \<Rightarrow> Some (s, [(fd, m)])
     | More \<Rightarrow> do {
         (packs, s) \<leftarrow> drain lpop s;
         Some (s, map (\<lambda>np. (np_id np, np_buffer np)) packs)
       }
     | _ \<Rightarrow> Some (s, [])
   })"

definition netpack_holds :: "netqueue option \<Rightarrow> (int \<Rightarrow> bytes) \<Rightarrow> bool" where
  "netpack_holds s p \<longleftrightarrow> np_wf s \<and> np_contents s = [] \<and> (\<forall>fd. waits (waiting fd s) (p fd))"

interpretation netpacks: multiplexed_stream 2 netpack_feed netpack_holds
proof unfold_locales
  fix s p fd and c :: bytes
  assume h: "netpack_holds s p" and c: "c \<noteq> []"
  let ?fs = "frames 2 (p fd @ c)"
  obtain r s1 where r: "filter_data fd c s = Some (r, s1)" "np_wf s1" "delivers fd r (np_contents s1) (fst ?fs)"
    "waits (waiting fd s1) (snd ?fs)" "\<forall>g. g \<noteq> fd \<longrightarrow> waiting g s1 = waiting g s"
    using filter_data_ok [of s fd "p fd" c] h c by (auto simp: netpack_holds_def filter_good_def)
  have l: "lfilter (data_message fd c) s = Some (r, s1)" using r(1) by (simp add: lfilter_def data_message_def)
  have w: "\<forall>g. waits (waiting g s1) ((p(fd := snd ?fs)) g)" using r h by (auto simp: netpack_holds_def)
  show "\<exists>s'. netpack_feed s (fd, c) = Some (s', map (Pair fd) (fst ?fs)) \<and> netpack_holds s' (p(fd := snd ?fs))"
  proof (cases "r = More")
    case True
    obtain s2 where "drain lpop s1 = Some (np_contents s1, s2)" "np_wf s2" "\<forall>g. waiting g s2 = waiting g s1" "np_contents s2 = []"
      using netpack_queue.drain_all [of s1 "\<lambda>fd. waiting fd s1"] r(2) by auto
    then show ?thesis
      using True r(3) l w by (auto simp: netpack_feed_def delivers_def netpack_holds_def pack_def)
  next
    case False
    then show ?thesis
      using r(2,3) l w by (cases r) (auto simp: netpack_feed_def delivers_def netpack_holds_def)
  qed
qed

section \<open>Properties\<close>

lemma netpack_start: "netpack_holds None (\<lambda>_. [])"
  by (simp add: netpack_holds_def np_wf_def np_contents_def waiting_def)

text \<open>
  C13. Packages come out whole, in order and per connection: for any interleaving of non-empty blocks
  of data from any number of connections, starting without a queue, filtering each block and popping
  the queue returns every time, and for each connection the packages that come out are exactly the
  frames of the concatenation of its blocks, however they were cut.
\<close>

theorem netpack_demultiplexes:
  assumes "\<forall>(fd, c) \<in> set evs. c \<noteq> []"
  shows "\<exists>s out. feeds netpack_feed None evs = Some (s, out) \<and>
    (\<forall>fd. received fd out = fst (frames 2 (concat (received fd evs))))"
  using netpacks.demultiplexes [OF netpack_start, of evs] assms by (auto simp: frames_short)

theorem netpack_demultiplexes_witness:
  "\<exists>s out. feeds netpack_feed None [(3, [0, 2, 65]), (4, [0]), (3, [66, 0]), (4, [1, 90]), (3, [1, 67])] = Some (s, out) \<and>
    (\<forall>fd. received fd out = fst (frames 2 (concat (received fd
       [(3, [0, 2, 65]), (4, [0]), (3, [66, 0]), (4, [1, 90]), (3, [1, 67])]))))"
  by (rule netpack_demultiplexes) simp

lemma netpack_frames:
  assumes "\<forall>m \<in> set ms. length m < 0x10000" "concat cs = concat (map (frame 2) ms)" "[] \<notin> set cs"
  shows "\<exists>s. feeds netpack_feed None (map (Pair fd) cs) = Some (s, map (Pair fd) ms)"
proof -
  have fr: "fst (frames 2 (concat cs)) = ms" using frames_encode [of 2 ms] assms(1,2) by simp
  obtain s out where s: "feeds netpack_feed None (map (Pair fd) cs) = Some (s, out)"
    "\<forall>g. received g out = fst (frames 2 (concat (received g (map (Pair fd) cs))))"
    using netpacks.demultiplexes [OF netpack_start, of "map (Pair fd) cs"] assms(3) by (auto simp: frames_short)
  have "out = map (Pair fd) ms"
  proof -
    have own: "received fd out = ms" using s(2) fr by simp
    have other: "received g out = []" if "g \<noteq> fd" for g using s(2) that by (simp add: frames_short)
    have "\<forall>x \<in> set out. fst x = fd"
    proof (rule ccontr)
      assume "\<not> (\<forall>x \<in> set out. fst x = fd)"
      then obtain x where "x \<in> set out" "fst x \<noteq> fd" by blast
      then show False using other [of "fst x"] by (auto simp: received_def filter_empty_conv)
    qed
    then have "out = map (Pair fd) (received fd out)"
      by (induction out) auto
    then show ?thesis using own by simp
  qed
  then show ?thesis using s(1) by blast
qed

text \<open>
  Round trip: \<open>pack\<close> accepts any string below 64K, and packages packed one after the other and
  fed in any non-empty blocks on one connection come out as they went in.
\<close>

theorem netpack_roundtrip:
  assumes "\<forall>m \<in> set ms. length m < 0x10000" "concat cs = concat (map (\<lambda>m. projr (lpack m)) ms)" "[] \<notin> set cs"
  shows "(\<forall>m \<in> set ms. \<exists>bs. lpack m = Inr bs) \<and>
    (\<exists>s. feeds netpack_feed None (map (Pair fd) cs) = Some (s, map (Pair fd) ms))"
proof -
  have pk: "lpack m = Inr (frame 2 m)" if "length m < 0x10000" for m
    using that by (simp add: lpack_def write_size_def frame_def numeral_2_eq_2)
  have "concat cs = concat (map (frame 2) ms)" using assms(1,2) pk by (simp cong: map_cong)
  from netpack_frames [OF assms(1) this assms(3), of fd] show ?thesis using pk assms(1) by blast
qed

theorem netpack_roundtrip_witness:
  "(\<exists>bs. lpack [65, 66] = Inr bs) \<and>
    (\<exists>s. feeds netpack_feed None (map (Pair 3) [[0, 2, 65], [66, 0, 0]]) = Some (s, map (Pair 3) [[65, 66], []]))"
proof -
  have "concat [[0, 2, 65], [66, 0, 0]] = concat (map (\<lambda>m. projr (lpack m)) [[65, 66], []])"
    by (simp add: lpack_def write_size_def)
  then show ?thesis using netpack_roundtrip [of "[[65, 66], []]" "[[0, 2, 65], [66, 0, 0]]" 3] by simp
qed

end
