(* ===== verification/Seri.thy ===== *)
theory Seri
  imports Cstr
begin

text \<open>
  The serializer of messages between services, \<open>lualib-src/lua-seri.c\<close>: Lua values are written to a
  chain of 128-byte blocks, copied to one buffer, and read back by the receiver. The Lua interpreter
  is outside; a value is what its C interface shows of it.
\<close>

unbundle bit_operations_syntax

text \<open>
  A table is the elements \<open>1..rawlen\<close> and the pairs that \<open>lua_next\<close> enumerates, in order (a table
  being built: the elements and the pairs set so far); \<open>LMeta\<close> is a table with a \<open>__pairs\<close> metamethod
  and the pairs that its iterator returns; \<open>LOther\<close> is a type that cannot be sent.
\<close>

datatype lua_value =
    LNil
  | LBool bool
  | LInt u64
  | LReal u64
  | LStr bytes
  | LPtr u64
  | LTab "lua_value list" "(lua_value \<times> lua_value) list"
  | LMeta "(lua_value \<times> lua_value) list"
  | LOther string

definition TYPE_NIL :: nat where "TYPE_NIL = 0"
definition TYPE_BOOLEAN :: nat where "TYPE_BOOLEAN = 1"
definition TYPE_NUMBER :: nat where "TYPE_NUMBER = 2"
definition TYPE_USERDATA :: nat where "TYPE_USERDATA = 3"
definition TYPE_SHORT_STRING :: nat where "TYPE_SHORT_STRING = 4"
definition TYPE_LONG_STRING :: nat where "TYPE_LONG_STRING = 5"
definition TYPE_TABLE :: nat where "TYPE_TABLE = 6"
definition TYPE_NUMBER_ZERO :: nat where "TYPE_NUMBER_ZERO = 0"
definition TYPE_NUMBER_BYTE :: nat where "TYPE_NUMBER_BYTE = 1"
definition TYPE_NUMBER_WORD :: nat where "TYPE_NUMBER_WORD = 2"
definition TYPE_NUMBER_DWORD :: nat where "TYPE_NUMBER_DWORD = 4"
definition TYPE_NUMBER_QWORD :: nat where "TYPE_NUMBER_QWORD = 6"
definition TYPE_NUMBER_REAL :: nat where "TYPE_NUMBER_REAL = 8"
definition MAX_COOKIE :: nat where "MAX_COOKIE = 32"
definition BLOCK_SIZE :: nat where "BLOCK_SIZE = 128"
definition MAX_DEPTH :: nat where "MAX_DEPTH = 32"

lemmas seri_consts = TYPE_NIL_def TYPE_BOOLEAN_def TYPE_NUMBER_def TYPE_USERDATA_def TYPE_SHORT_STRING_def
  TYPE_LONG_STRING_def TYPE_TABLE_def TYPE_NUMBER_ZERO_def TYPE_NUMBER_BYTE_def TYPE_NUMBER_WORD_def
  TYPE_NUMBER_DWORD_def TYPE_NUMBER_QWORD_def TYPE_NUMBER_REAL_def MAX_COOKIE_def MAX_DEPTH_def

definition COMBINE_TYPE :: "nat \<Rightarrow> nat \<Rightarrow> u8" where
  "COMBINE_TYPE t v = of_nat t OR push_bit 3 (of_nat v)"

text \<open>The bytes of a number in memory, lowest first, and the number of such bytes.\<close>

fun le_bytes :: "nat \<Rightarrow> nat \<Rightarrow> bytes" where
  "le_bytes 0 n = []"
| "le_bytes (Suc k) n = of_nat n # le_bytes k (n div 256)"

definition le_value :: "bytes \<Rightarrow> nat" where
  "le_value bs = foldr (\<lambda>b n. unat b + 256 * n) bs 0"

section \<open>The block chain\<close>

text \<open>The full blocks before the current one, and the first \<open>ptr\<close> bytes of the current one.\<close>

record write_block =
  wb_blocks :: "bytes list"
  wb_current :: bytes
  wb_len :: nat

definition wb_init :: write_block where
  "wb_init = \<lparr>wb_blocks = [], wb_current = [], wb_len = 0\<rparr>"

definition wb_next :: "write_block \<Rightarrow> write_block" where
  "wb_next b = b\<lparr>wb_blocks := wb_blocks b @ [wb_current b], wb_current := []\<rparr>"

text \<open>\<open>room\<close> is what the current block has room for; the loop starts a new block when there is none.\<close>

function wb_push :: "write_block \<Rightarrow> bytes \<Rightarrow> write_block" where
  "wb_push b buf =
     (let b = (if length (wb_current b) = BLOCK_SIZE then wb_next b else b);
          sz = length buf; ptr = length (wb_current b)
      in if ptr + sz \<le> BLOCK_SIZE \<or> ptr \<ge> BLOCK_SIZE then
           b\<lparr>wb_current := wb_current b @ buf, wb_len := wb_len b + sz\<rparr>
         else
           let copy = BLOCK_SIZE - ptr in
           wb_push (b\<lparr>wb_current := wb_current b @ take copy buf, wb_len := wb_len b + copy\<rparr>) (drop copy buf))"
  by pat_completeness auto
termination
  by (relation "measure (\<lambda>(b, buf). length buf)") (auto simp: Let_def wb_next_def BLOCK_SIZE_def)

declare wb_push.simps [simp del]

text \<open>\<open>seri\<close> copies the chain to one buffer.\<close>

fun seri_copy :: "bytes list \<Rightarrow> nat \<Rightarrow> bytes option" where
  "seri_copy bs 0 = Some []"
| "seri_copy [] len = None"
| "seri_copy (b # bs) len =
     (if len \<ge> BLOCK_SIZE then map_option ((@) (take BLOCK_SIZE b)) (seri_copy bs (len - BLOCK_SIZE))
      else Some (take len b))"

definition seri :: "write_block \<Rightarrow> bytes option" where
  "seri b = seri_copy (wb_blocks b @ [wb_current b]) (wb_len b)"

section \<open>Packing\<close>

definition wb_nil :: "write_block \<Rightarrow> write_block" where
  "wb_nil wb = wb_push wb [of_nat TYPE_NIL]"

definition wb_boolean :: "bool \<Rightarrow> write_block \<Rightarrow> write_block" where
  "wb_boolean v wb = wb_push wb [COMBINE_TYPE TYPE_BOOLEAN (if v then 1 else 0)]"

definition wb_integer :: "u64 \<Rightarrow> write_block \<Rightarrow> write_block" where
  "wb_integer v wb =
     (if v = 0 then wb_push wb [COMBINE_TYPE TYPE_NUMBER TYPE_NUMBER_ZERO]
      else if v \<noteq> scast (ucast v :: u32) then
        wb_push (wb_push wb [COMBINE_TYPE TYPE_NUMBER TYPE_NUMBER_QWORD]) (le_bytes 8 (unat v))
      else if v <s 0 then
        wb_push (wb_push wb [COMBINE_TYPE TYPE_NUMBER TYPE_NUMBER_DWORD]) (le_bytes 4 (unat (ucast v :: u32)))
      else if v < 0x100 then
        wb_push (wb_push wb [COMBINE_TYPE TYPE_NUMBER TYPE_NUMBER_BYTE]) [ucast v]
      else if v < 0x10000 then
        wb_push (wb_push wb [COMBINE_TYPE TYPE_NUMBER TYPE_NUMBER_WORD]) (le_bytes 2 (unat (ucast v :: u16)))
      else
        wb_push (wb_push wb [COMBINE_TYPE TYPE_NUMBER TYPE_NUMBER_DWORD]) (le_bytes 4 (unat (ucast v :: u32))))"

definition wb_real :: "u64 \<Rightarrow> write_block \<Rightarrow> write_block" where
  "wb_real v wb = wb_push (wb_push wb [COMBINE_TYPE TYPE_NUMBER TYPE_NUMBER_REAL]) (le_bytes 8 (unat v))"

definition wb_pointer :: "u64 \<Rightarrow> write_block \<Rightarrow> write_block" where
  "wb_pointer v wb = wb_push (wb_push wb [of_nat TYPE_USERDATA]) (le_bytes 8 (unat v))"

definition wb_string :: "bytes \<Rightarrow> write_block \<Rightarrow> write_block" where
  "wb_string str wb =
     (let len = length str in
      if len < MAX_COOKIE then
        let wb = wb_push wb [COMBINE_TYPE TYPE_SHORT_STRING len] in
        if len > 0 then wb_push wb str else wb
      else if len < 0x10000 then
        wb_push (wb_push (wb_push wb [COMBINE_TYPE TYPE_LONG_STRING 2]) (le_bytes 2 len)) str
      else
        wb_push (wb_push (wb_push wb [COMBINE_TYPE TYPE_LONG_STRING 4]) (le_bytes 4 len)) str)"

text \<open>The header that \<open>wb_table_array\<close> writes.\<close>

definition wb_array_header :: "nat \<Rightarrow> write_block \<Rightarrow> write_block" where
  "wb_array_header array_size wb =
     (if array_size \<ge> MAX_COOKIE - 1 then
        wb_integer (of_nat array_size) (wb_push wb [COMBINE_TYPE TYPE_TABLE (MAX_COOKIE - 1)])
      else wb_push wb [COMBINE_TYPE TYPE_TABLE array_size])"

definition in_array :: "nat \<Rightarrow> lua_value \<Rightarrow> bool" where
  "in_array array_size k = (case k of LInt x \<Rightarrow> 0 < sint x \<and> sint x \<le> int array_size | _ \<Rightarrow> False)"

function pack_one :: "nat \<Rightarrow> lua_value \<Rightarrow> write_block \<Rightarrow> string + write_block"
  and pack_array :: "nat \<Rightarrow> lua_value list \<Rightarrow> write_block \<Rightarrow> string + write_block"
  and pack_pairs :: "nat \<Rightarrow> nat \<Rightarrow> (lua_value \<times> lua_value) list \<Rightarrow> write_block \<Rightarrow> string + write_block" where
  "pack_one depth v b =
     (if depth > MAX_DEPTH then Inl ''serialize can't pack too depth table''
      else case v of
        LNil \<Rightarrow> Inr (wb_nil b)
      | LInt x \<Rightarrow> Inr (wb_integer x b)
      | LReal n \<Rightarrow> Inr (wb_real n b)
      | LBool x \<Rightarrow> Inr (wb_boolean x b)
      | LStr s \<Rightarrow> Inr (wb_string s b)
      | LPtr p \<Rightarrow> Inr (wb_pointer p b)
      | LTab vs ps \<Rightarrow>
          (case pack_array (depth + 1) vs (wb_array_header (length vs) b) of
             Inl e \<Rightarrow> Inl e
           | Inr b \<Rightarrow> pack_pairs (depth + 1) (length vs) ps b)
      | LMeta ps \<Rightarrow> pack_pairs (depth + 1) 0 ps (wb_push b [COMBINE_TYPE TYPE_TABLE 0])
      | LOther t \<Rightarrow> Inl (''Unsupport type '' @ t @ '' to serialize''))"
| "pack_array depth [] b = Inr b"
| "pack_array depth (v # vs) b =
     (case pack_one depth v b of Inl e \<Rightarrow> Inl e | Inr b \<Rightarrow> pack_array depth vs b)"
| "pack_pairs depth n [] b = Inr (wb_nil b)"
| "pack_pairs depth n ((k, v) # ps) b =
     (if in_array n k then pack_pairs depth n ps b
      else case pack_one depth k b of
        Inl e \<Rightarrow> Inl e
      | Inr b \<Rightarrow>
          (case pack_one depth v b of Inl e \<Rightarrow> Inl e | Inr b \<Rightarrow> pack_pairs depth n ps b))"

  by pat_completeness auto
termination
  by (relation "measure (case_sum (\<lambda>(d, v, b). size v) (case_sum (\<lambda>(d, vs, b). size_list size vs)
        (\<lambda>(d, n, ps, b). size_list (size_prod size size) ps)))") auto

declare pack_one.simps [simp del]

definition luaseri_pack :: "lua_value list \<Rightarrow> (string + bytes) option" where
  "luaseri_pack vs =
     (case pack_array 0 vs wb_init of
        Inl e \<Rightarrow> Some (Inl e)
      | Inr b \<Rightarrow> map_option Inr (seri b))"

section \<open>Unpacking\<close>

text \<open>
  The result of reading: a value, a Lua error, a read that C does not define, or the recursion is
  deeper than the fuel given.
\<close>

datatype 'a outcome = Ok 'a | LuaError string | Undefined | OutOfFuel

fun and_then :: "'a outcome \<Rightarrow> ('a \<Rightarrow> 'b outcome) \<Rightarrow> 'b outcome" where
  "and_then (Ok a) f = f a"
| "and_then (LuaError e) f = LuaError e"
| "and_then Undefined f = Undefined"
| "and_then OutOfFuel f = OutOfFuel"

definition invalid_stream :: "bytes \<Rightarrow> 'a outcome" where
  "invalid_stream rb = LuaError (''Invalid serialize stream '' @ fmt_d (int (length rb)))"

text \<open>
  \<open>rb_read\<close> and its check; the rest of the buffer stands for pointer and length. A negative size
  passes the comparison \<open>rb->len < sz\<close>.
\<close>

definition rb_read :: "int \<Rightarrow> bytes \<Rightarrow> (bytes \<times> bytes) outcome" where
  "rb_read sz rb =
     (if int (length rb) < sz then invalid_stream rb
      else if sz < 0 then Undefined
      else Ok (take (nat sz) rb, drop (nat sz) rb))"

definition get_integer :: "nat \<Rightarrow> bytes \<Rightarrow> (u64 \<times> bytes) outcome" where
  "get_integer cookie rb =
     (if cookie = TYPE_NUMBER_ZERO then Ok (0, rb)
      else if cookie = TYPE_NUMBER_BYTE then and_then (rb_read 1 rb) (\<lambda>(p, rb). Ok (of_nat (le_value p), rb))
      else if cookie = TYPE_NUMBER_WORD then and_then (rb_read 2 rb) (\<lambda>(p, rb). Ok (of_nat (le_value p), rb))
      else if cookie = TYPE_NUMBER_DWORD then
        and_then (rb_read 4 rb) (\<lambda>(p, rb). Ok (scast (of_nat (le_value p) :: u32), rb))
      else if cookie = TYPE_NUMBER_QWORD then and_then (rb_read 8 rb) (\<lambda>(p, rb). Ok (of_nat (le_value p), rb))
      else invalid_stream rb)"

definition get_real :: "bytes \<Rightarrow> (u64 \<times> bytes) outcome" where
  "get_real rb = and_then (rb_read 8 rb) (\<lambda>(p, rb). Ok (of_nat (le_value p), rb))"

definition get_pointer :: "bytes \<Rightarrow> (u64 \<times> bytes) outcome" where
  "get_pointer rb = and_then (rb_read 8 rb) (\<lambda>(p, rb). Ok (of_nat (le_value p), rb))"

definition get_buffer :: "int \<Rightarrow> bytes \<Rightarrow> (lua_value \<times> bytes) outcome" where
  "get_buffer len rb = and_then (rb_read len rb) (\<lambda>(p, rb). Ok (LStr p, rb))"

definition get_long_string :: "nat \<Rightarrow> bytes \<Rightarrow> (lua_value \<times> bytes) outcome" where
  "get_long_string cookie rb =
     (if cookie = 2 then and_then (rb_read 2 rb) (\<lambda>(p, rb). get_buffer (int (le_value p)) rb)
      else if cookie \<noteq> 4 then invalid_stream rb
      else and_then (rb_read 4 rb) (\<lambda>(p, rb). get_buffer (to_int (int (le_value p))) rb))"

text \<open>The size of the array part, read from the stream when the cookie is the largest one.\<close>

definition table_size :: "nat \<Rightarrow> bytes \<Rightarrow> (int \<times> bytes) outcome" where
  "table_size array_size rb =
     (if array_size = MAX_COOKIE - 1 then
        and_then (rb_read 1 rb) (\<lambda>(p, rb).
          let type = unat (hd p); cookie = type div 8 in
          if type mod 8 \<noteq> TYPE_NUMBER \<or> cookie = TYPE_NUMBER_REAL then invalid_stream rb
          else and_then (get_integer cookie rb) (\<lambda>(n, rb). Ok (to_int (sint n), rb)))
      else Ok (int array_size, rb))"

text \<open>\<open>type & 7\<close> and \<open>type >> 3\<close>\<close>

definition type_of :: "u8 \<Rightarrow> nat" where "type_of b = unat (b AND 7)"
definition cookie_of :: "u8 \<Rightarrow> nat" where "cookie_of b = unat (drop_bit 3 b)"

function push_value :: "nat \<Rightarrow> nat \<Rightarrow> nat \<Rightarrow> bytes \<Rightarrow> (lua_value \<times> bytes) outcome"
  and unpack_one :: "nat \<Rightarrow> bytes \<Rightarrow> (lua_value \<times> bytes) outcome"
  and unpack_array :: "nat \<Rightarrow> int \<Rightarrow> bytes \<Rightarrow> (lua_value list \<times> bytes) outcome"
  and unpack_pairs :: "nat \<Rightarrow> bytes \<Rightarrow> ((lua_value \<times> lua_value) list \<times> bytes) outcome" where
  "push_value fuel type cookie rb =
     (if type = TYPE_NIL then Ok (LNil, rb)
      else if type = TYPE_BOOLEAN then Ok (LBool (cookie \<noteq> 0), rb)
      else if type = TYPE_NUMBER then
        if cookie = TYPE_NUMBER_REAL then and_then (get_real rb) (\<lambda>(n, rb). Ok (LReal n, rb))
        else and_then (get_integer cookie rb) (\<lambda>(n, rb). Ok (LInt n, rb))
      else if type = TYPE_USERDATA then and_then (get_pointer rb) (\<lambda>(p, rb). Ok (LPtr p, rb))
      else if type = TYPE_SHORT_STRING then get_buffer (int cookie) rb
      else if type = TYPE_LONG_STRING then get_long_string cookie rb
      else if type = TYPE_TABLE then
        (case fuel of
           0 \<Rightarrow> OutOfFuel
         | Suc fuel \<Rightarrow>
             and_then (table_size cookie rb) (\<lambda>(n, rb).
             and_then (unpack_array fuel n rb) (\<lambda>(vs, rb).
             and_then (unpack_pairs fuel rb) (\<lambda>(ps, rb). Ok (LTab vs ps, rb)))))
      else invalid_stream rb)"
| "unpack_one 0 rb = OutOfFuel"
| "unpack_one (Suc fuel) rb =
     and_then (rb_read 1 rb) (\<lambda>(p, rb). push_value fuel (type_of (hd p)) (cookie_of (hd p)) rb)"
| "unpack_array 0 n rb = OutOfFuel"
| "unpack_array (Suc fuel) n rb =
     (if n \<le> 0 then Ok ([], rb)
      else and_then (unpack_one fuel rb) (\<lambda>(v, rb).
           and_then (unpack_array fuel (n - 1) rb) (\<lambda>(vs, rb). Ok (v # vs, rb))))"
| "unpack_pairs 0 rb = OutOfFuel"
| "unpack_pairs (Suc fuel) rb =
     and_then (unpack_one fuel rb) (\<lambda>(k, rb).
       if k = LNil then Ok ([], rb)
       else and_then (unpack_one fuel rb) (\<lambda>(v, rb).
            and_then (unpack_pairs fuel rb) (\<lambda>(ps, rb). Ok ((k, v) # ps, rb))))"

  by pat_completeness auto
termination by (relation "measure (case_sum (case_sum fst fst) (case_sum fst fst))") auto

declare push_value.simps [simp del]

text \<open>The values on the stack, one after the other until the buffer is empty.\<close>

fun unpack_all :: "nat \<Rightarrow> bytes \<Rightarrow> lua_value list outcome" where
  "unpack_all fuel [] = Ok []"
| "unpack_all 0 rb = OutOfFuel"
| "unpack_all (Suc fuel) rb =
     and_then (unpack_one fuel rb) (\<lambda>(v, rb). and_then (unpack_all fuel rb) (\<lambda>vs. Ok (v # vs)))"

text \<open>\<open>unpack\<close> of a string or of a buffer and its length; the fuel is enough for every buffer.\<close>

definition luaseri_unpack :: "bytes \<Rightarrow> lua_value list outcome" where
  "luaseri_unpack rb = unpack_all (3 * length rb + 2) rb"

section \<open>The block chain holds what was written\<close>

definition wb_bytes :: "write_block \<Rightarrow> bytes" where
  "wb_bytes b = concat (wb_blocks b) @ wb_current b"

definition wb_ok :: "write_block \<Rightarrow> bool" where
  "wb_ok b \<longleftrightarrow> (\<forall>x \<in> set (wb_blocks b). length x = BLOCK_SIZE) \<and> length (wb_current b) \<le> BLOCK_SIZE \<and>
     wb_len b = length (wb_bytes b)"

lemma wb_init_ok: "wb_ok wb_init" "wb_bytes wb_init = []"
  by (simp_all add: wb_ok_def wb_bytes_def wb_init_def)

lemma wb_push_ok: "wb_ok b \<Longrightarrow> wb_ok (wb_push b buf) \<and> wb_bytes (wb_push b buf) = wb_bytes b @ buf"
proof (induction b buf rule: wb_push.induct)
  case (1 b buf)
  define b1 where "b1 = (if length (wb_current b) = BLOCK_SIZE then wb_next b else b)"
  have b1: "wb_ok b1" "wb_bytes b1 = wb_bytes b" "length (wb_current b1) < BLOCK_SIZE"
    using "1.prems" by (auto simp: b1_def wb_ok_def wb_bytes_def wb_next_def BLOCK_SIZE_def)
  let ?ptr = "length (wb_current b1)"
  show ?case
  proof (cases "?ptr + length buf \<le> BLOCK_SIZE")
    case True
    then have "wb_push b buf = b1\<lparr>wb_current := wb_current b1 @ buf, wb_len := wb_len b1 + length buf\<rparr>"
      by (subst wb_push.simps) (simp add: b1_def [symmetric] Let_def)
    then show ?thesis using b1 True by (simp add: wb_ok_def wb_bytes_def)
  next
    case False
    let ?copy = "BLOCK_SIZE - ?ptr"
    let ?b2 = "b1\<lparr>wb_current := wb_current b1 @ take ?copy buf, wb_len := wb_len b1 + ?copy\<rparr>"
    have step: "wb_push b buf = wb_push ?b2 (drop ?copy buf)"
      using False b1(3) by (subst wb_push.simps) (simp add: b1_def [symmetric] Let_def)
    have "wb_ok ?b2" "wb_bytes ?b2 = wb_bytes b1 @ take ?copy buf"
      using b1 False by (simp_all add: wb_ok_def wb_bytes_def)
    then have "wb_ok (wb_push ?b2 (drop ?copy buf)) \<and>
        wb_bytes (wb_push ?b2 (drop ?copy buf)) = wb_bytes b1 @ take ?copy buf @ drop ?copy buf"
      using "1.IH" [OF b1_def refl refl _ refl] False b1(3) by auto
    then show ?thesis using step b1(2) by simp
  qed
qed

lemma seri_copy_blocks:
  "\<forall>x \<in> set bs. length x = BLOCK_SIZE \<Longrightarrow> length c \<le> BLOCK_SIZE \<Longrightarrow>
     seri_copy (bs @ [c]) (length (concat bs @ c)) = Some (concat bs @ c)"
proof (induction bs)
  case Nil
  then show ?case by (cases "length c") (auto simp: BLOCK_SIZE_def)
next
  case (Cons b bs)
  obtain n where n: "length (concat (b # bs) @ c) = Suc n" "BLOCK_SIZE \<le> Suc n" "Suc n - BLOCK_SIZE = length (concat bs @ c)"
    using Cons.prems(1) by (auto simp: BLOCK_SIZE_def numeral_eq_Suc)
  then show ?case using Cons by (simp only: append_Cons n(1) seri_copy.simps) (simp add: n)
qed

lemma seri_ok: "wb_ok b \<Longrightarrow> seri b = Some (wb_bytes b)"
  using seri_copy_blocks [of "wb_blocks b" "wb_current b"] by (simp add: seri_def wb_ok_def wb_bytes_def)

section \<open>What is written\<close>

text \<open>\<open>writes f bs\<close>: \<open>f\<close> appends \<open>bs\<close> to the chain.\<close>

definition writes :: "(write_block \<Rightarrow> write_block) \<Rightarrow> bytes \<Rightarrow> bool" where
  "writes f bs \<longleftrightarrow> (\<forall>b. wb_ok b \<longrightarrow> wb_ok (f b) \<and> wb_bytes (f b) = wb_bytes b @ bs)"

lemma writes_push [intro]: "writes (\<lambda>b. wb_push b bs) bs"
  by (simp add: writes_def wb_push_ok)

lemma writes_comp [intro]: "writes f x \<Longrightarrow> writes (\<lambda>b. wb_push (f b) y) (x @ y)"
  by (simp add: writes_def wb_push_ok)

definition enc_integer :: "u64 \<Rightarrow> bytes" where
  "enc_integer v =
     (if v = 0 then [COMBINE_TYPE TYPE_NUMBER TYPE_NUMBER_ZERO]
      else if v \<noteq> scast (ucast v :: u32) then [COMBINE_TYPE TYPE_NUMBER TYPE_NUMBER_QWORD] @ le_bytes 8 (unat v)
      else if v <s 0 then [COMBINE_TYPE TYPE_NUMBER TYPE_NUMBER_DWORD] @ le_bytes 4 (unat (ucast v :: u32))
      else if v < 0x100 then [COMBINE_TYPE TYPE_NUMBER TYPE_NUMBER_BYTE] @ [ucast v]
      else if v < 0x10000 then [COMBINE_TYPE TYPE_NUMBER TYPE_NUMBER_WORD] @ le_bytes 2 (unat (ucast v :: u16))
      else [COMBINE_TYPE TYPE_NUMBER TYPE_NUMBER_DWORD] @ le_bytes 4 (unat (ucast v :: u32)))"

definition enc_string :: "bytes \<Rightarrow> bytes" where
  "enc_string str =
     (let len = length str in
      if len < MAX_COOKIE then [COMBINE_TYPE TYPE_SHORT_STRING len] @ str
      else if len < 0x10000 then ([COMBINE_TYPE TYPE_LONG_STRING 2] @ le_bytes 2 len) @ str
      else ([COMBINE_TYPE TYPE_LONG_STRING 4] @ le_bytes 4 len) @ str)"

definition enc_header :: "nat \<Rightarrow> bytes" where
  "enc_header n =
     (if n \<ge> MAX_COOKIE - 1 then [COMBINE_TYPE TYPE_TABLE (MAX_COOKIE - 1)] @ enc_integer (of_nat n)
      else [COMBINE_TYPE TYPE_TABLE n])"

function enc_one :: "lua_value \<Rightarrow> bytes"
  and enc_array :: "lua_value list \<Rightarrow> bytes"
  and enc_pairs :: "nat \<Rightarrow> (lua_value \<times> lua_value) list \<Rightarrow> bytes" where
  "enc_one v =
     (case v of
        LNil \<Rightarrow> [of_nat TYPE_NIL]
      | LInt x \<Rightarrow> enc_integer x
      | LReal n \<Rightarrow> [COMBINE_TYPE TYPE_NUMBER TYPE_NUMBER_REAL] @ le_bytes 8 (unat n)
      | LBool x \<Rightarrow> [COMBINE_TYPE TYPE_BOOLEAN (if x then 1 else 0)]
      | LStr s \<Rightarrow> enc_string s
      | LPtr p \<Rightarrow> [of_nat TYPE_USERDATA] @ le_bytes 8 (unat p)
      | LTab vs ps \<Rightarrow> enc_header (length vs) @ enc_array vs @ enc_pairs (length vs) ps
      | LMeta ps \<Rightarrow> [COMBINE_TYPE TYPE_TABLE 0] @ enc_pairs 0 ps
      | LOther t \<Rightarrow> [])"
| "enc_array [] = []"
| "enc_array (v # vs) = enc_one v @ enc_array vs"
| "enc_pairs n [] = [of_nat TYPE_NIL]"
| "enc_pairs n ((k, v) # ps) = (if in_array n k then [] else enc_one k @ enc_one v) @ enc_pairs n ps"
  by pat_completeness auto
termination
  by (relation "measure (case_sum size (case_sum (size_list size) (\<lambda>(n, ps). size_list (size_prod size size) ps)))") auto

declare enc_one.simps [simp del]

text \<open>
  \<open>sendable d v\<close>: no table in \<open>v\<close>, at depth \<open>d\<close>, is nested too deep, and there is no value of a type that
  cannot be sent.
\<close>

function sendable :: "nat \<Rightarrow> lua_value \<Rightarrow> bool"
  and sendable_array :: "nat \<Rightarrow> lua_value list \<Rightarrow> bool"
  and sendable_pairs :: "nat \<Rightarrow> nat \<Rightarrow> (lua_value \<times> lua_value) list \<Rightarrow> bool" where
  "sendable d v \<longleftrightarrow> d \<le> MAX_DEPTH \<and>
     (case v of
        LTab vs ps \<Rightarrow> sendable_array (d + 1) vs \<and> sendable_pairs (d + 1) (length vs) ps
      | LMeta ps \<Rightarrow> sendable_pairs (d + 1) 0 ps
      | LOther t \<Rightarrow> False
      | _ \<Rightarrow> True)"
| "sendable_array d [] = True"
| "sendable_array d (v # vs) \<longleftrightarrow> sendable d v \<and> sendable_array d vs"
| "sendable_pairs d n [] = True"
| "sendable_pairs d n ((k, v) # ps) \<longleftrightarrow> (in_array n k \<or> sendable d k \<and> sendable d v) \<and> sendable_pairs d n ps"
  by pat_completeness auto
termination
  by (relation "measure (case_sum (\<lambda>(d, v). size v) (case_sum (\<lambda>(d, vs). size_list size vs)
        (\<lambda>(d, n, ps). size_list (size_prod size size) ps)))") auto

declare sendable.simps [simp del]

lemma wb_integer_writes: "writes (wb_integer v) (enc_integer v)"
  unfolding wb_integer_def enc_integer_def
  by (auto simp del: append.simps intro!: writes_push writes_comp)

lemma wb_string_writes: "writes (wb_string s) (enc_string s)"
  by (auto simp: wb_string_def enc_string_def writes_def wb_push_ok Let_def)

lemma wb_array_header_writes: "writes (wb_array_header n) (enc_header n)"
  using wb_integer_writes [of "of_nat n"]
  by (auto simp: wb_array_header_def enc_header_def writes_def wb_push_ok)

lemmas wb_writes = wb_integer_writes wb_string_writes wb_array_header_writes

text \<open>A pack either appends the encoding or, exactly when the value is not sendable, fails.\<close>

definition packed :: "bool \<Rightarrow> write_block \<Rightarrow> bytes \<Rightarrow> string + write_block \<Rightarrow> bool" where
  "packed good b bs r \<longleftrightarrow>
     (if good then \<exists>b'. r = Inr b' \<and> wb_ok b' \<and> wb_bytes b' = wb_bytes b @ bs else \<exists>e. r = Inl e)"

lemma packed_writes: "writes f bs \<Longrightarrow> wb_ok b \<Longrightarrow> packed True b bs (Inr (f b))"
  by (simp add: packed_def writes_def)

lemma packed_then:
  assumes "packed g1 b x r" "\<And>b'. r = Inr b' \<Longrightarrow> wb_ok b' \<Longrightarrow> wb_bytes b' = wb_bytes b @ x \<Longrightarrow> packed g2 b' y (f b')"
  shows "packed (g1 \<and> g2) b (x @ y) (case r of Inl e \<Rightarrow> Inl e | Inr b \<Rightarrow> f b)"
  using assms by (cases r; cases g1; cases g2) (fastforce simp: packed_def)+

lemma pack_ok:
  "wb_ok b \<Longrightarrow> packed (sendable d v) b (enc_one v) (pack_one d v b)"
  "wb_ok b \<Longrightarrow> packed (sendable_array d vs) b (enc_array vs) (pack_array d vs b)"
  "wb_ok b \<Longrightarrow> packed (sendable_pairs d n ps) b (enc_pairs n ps) (pack_pairs d n ps b)"
proof (induction d v b and d vs b and d n ps b rule: pack_one_pack_array_pack_pairs.induct)
  case (1 d v b)
  show ?case
  proof (cases "d > MAX_DEPTH")
    case True
    then show ?thesis by (simp add: pack_one.simps sendable.simps packed_def)
  next
    case False
    show ?thesis
    proof (cases v)
      case (LTab vs ps)
      let ?b = "wb_array_header (length vs) b"
      have b: "wb_ok ?b" "wb_bytes ?b = wb_bytes b @ enc_header (length vs)"
        using wb_array_header_writes [of "length vs"] "1.prems" by (simp_all add: writes_def)
      have "packed (sendable_array (d + 1) vs \<and> sendable_pairs (d + 1) (length vs) ps) ?b
          (enc_array vs @ enc_pairs (length vs) ps)
          (case pack_array (d + 1) vs ?b of Inl e \<Rightarrow> Inl e | Inr b \<Rightarrow> pack_pairs (d + 1) (length vs) ps b)"
        using "1.IH" False LTab b(1) by (intro packed_then) auto
      then show ?thesis
        using False LTab b(2)
        by (cases "sendable_array (Suc d) vs \<and> sendable_pairs (Suc d) (length vs) ps")
          (auto simp: pack_one.simps sendable.simps enc_one.simps packed_def)
    next
      case (LMeta ps)
      let ?b = "wb_push b [COMBINE_TYPE TYPE_TABLE 0]"
      have b: "wb_ok ?b" "wb_bytes ?b = wb_bytes b @ [COMBINE_TYPE TYPE_TABLE 0]"
        using wb_push_ok "1.prems" by simp_all
      then have "packed (sendable_pairs (d + 1) 0 ps) ?b (enc_pairs 0 ps) (pack_pairs (d + 1) 0 ps ?b)"
        using "1.IH" False LMeta by auto
      then show ?thesis
        using False LMeta b(2)
        by (cases "sendable_pairs (Suc d) 0 ps") (auto simp: pack_one.simps sendable.simps enc_one.simps packed_def)
    qed (use False "1.prems" wb_writes in \<open>auto simp: pack_one.simps sendable.simps enc_one.simps packed_def writes_def
        wb_nil_def wb_boolean_def wb_real_def wb_pointer_def wb_push_ok\<close>)
  qed
next
  case (2 d b)
  then show ?case by (simp add: packed_def)
next
  case (3 d v vs b)
  then show ?case by (auto intro!: packed_then)
next
  case (4 d n b)
  then show ?case by (simp add: packed_def wb_nil_def wb_push_ok)
next
  case (5 d n k v ps b)
  show ?case
  proof (cases "in_array n k")
    case True
    then show ?thesis using 5 by simp
  next
    case False
    have "packed (sendable d k \<and> sendable d v \<and> sendable_pairs d n ps) b (enc_one k @ enc_one v @ enc_pairs n ps)
        (case pack_one d k b of Inl e \<Rightarrow> Inl e
         | Inr b \<Rightarrow> (case pack_one d v b of Inl e \<Rightarrow> Inl e | Inr b \<Rightarrow> pack_pairs d n ps b))"
      using 5 False by (intro packed_then) auto
    then show ?thesis using False by (simp add: conj_assoc)
  qed
qed

section \<open>What is read back\<close>

lemma combine_fields: "t < 8 \<Longrightarrow> c < 32 \<Longrightarrow> type_of (COMBINE_TYPE t c) = t \<and> cookie_of (COMBINE_TYPE t c) = c"
proof -
  have "list_all (\<lambda>t. list_all (\<lambda>c. type_of (COMBINE_TYPE t c) = t \<and> cookie_of (COMBINE_TYPE t c) = c) [0..<32]) [0..<8]"
    by code_simp
  then show "t < 8 \<Longrightarrow> c < 32 \<Longrightarrow> type_of (COMBINE_TYPE t c) = t \<and> cookie_of (COMBINE_TYPE t c) = c"
    by (simp add: list_all_iff del: upt_rec_numeral)
qed

lemma plain_fields: "t < 8 \<Longrightarrow> type_of (of_nat t) = t \<and> cookie_of (of_nat t) = 0"
  using combine_fields [of t 0] by (simp add: COMBINE_TYPE_def)

lemma length_le_bytes [simp]: "length (le_bytes k n) = k"
  by (induction k arbitrary: n) auto

lemma le_value_le_bytes: "n < 256 ^ k \<Longrightarrow> le_value (le_bytes k n) = n"
proof (induction k arbitrary: n)
  case (Suc k)
  then have "n div 256 < 256 ^ k" by (simp add: less_mult_imp_div_less mult.commute)
  then show ?case using Suc.IH by (simp add: le_value_def unsigned_of_nat take_bit_eq_mod)
qed (simp add: le_value_def)

lemma rb_read_app: "length x = n \<Longrightarrow> rb_read (int n) (x @ r) = Ok (x, r)"
  by (simp add: rb_read_def)

lemma rb_read_num: "length x = numeral n \<Longrightarrow> rb_read (numeral n) (x @ r) = Ok (x, r)"
  using rb_read_app [of x "numeral n" r] by simp

lemma rb_read_one [simp]: "rb_read 1 (b # r) = Ok ([b], r)"
  by (simp add: rb_read_def)

lemma read_integer:
  "\<exists>h t. enc_integer v = h # t \<and> type_of h = TYPE_NUMBER \<and> cookie_of h \<noteq> TYPE_NUMBER_REAL \<and>
     get_integer (cookie_of h) (t @ r) = Ok (v, r)"
proof -
  have c: "type_of (COMBINE_TYPE TYPE_NUMBER c) = TYPE_NUMBER \<and> cookie_of (COMBINE_TYPE TYPE_NUMBER c) = c" if "c < 32" for c
    using combine_fields that by (simp add: seri_consts)
  have s8: "unat v < 256" if "v < 0x100" using that by (simp add: word_less_nat_alt)
  have s16: "unat v < 65536" if "v < 0x10000" using that by (simp add: word_less_nat_alt)
  have 8: "unat v < 256 ^ 8" using unsigned_less [of v, where ?'a = nat] by simp
  have 4: "unat (ucast v :: u32) < 256 ^ 4" using unsigned_less [of "ucast v :: u32", where ?'a = nat] by simp
  have 2: "unat (ucast v :: u16) < 256 ^ 2" using unsigned_less [of "ucast v :: u16", where ?'a = nat] by simp
  have u8: "of_nat (le_value [ucast v]) = v" if "v < 0x100"
    using s8 that by (simp add: le_value_def unsigned_ucast_eq take_bit_nat_eq_self)
  have u16: "of_nat (unat (ucast v :: u16)) = v" if "v < 0x10000"
    using s16 that by (simp add: unsigned_ucast_eq take_bit_nat_eq_self)
  note le = le_value_le_bytes [OF 8] le_value_le_bytes [OF 4] le_value_le_bytes [OF 2]
  show ?thesis
    using c [of TYPE_NUMBER_ZERO] c [of TYPE_NUMBER_QWORD] c [of TYPE_NUMBER_DWORD] c [of TYPE_NUMBER_BYTE] c [of TYPE_NUMBER_WORD] u8 u16
    by (auto simp: enc_integer_def get_integer_def seri_consts rb_read_num le)
qed

text \<open>
  What arrives: a table with \<open>__pairs\<close> as a plain table, and the pairs that repeat array elements once.
  \<open>keys_ok\<close>: no key is nil, as in every Lua table.
\<close>

function strip :: "lua_value \<Rightarrow> lua_value"
  and strip_pairs :: "nat \<Rightarrow> (lua_value \<times> lua_value) list \<Rightarrow> (lua_value \<times> lua_value) list"
  and strip_array :: "lua_value list \<Rightarrow> lua_value list" where
  "strip v =
     (case v of
        LTab vs ps \<Rightarrow> LTab (strip_array vs) (strip_pairs (length vs) ps)
      | LMeta ps \<Rightarrow> LTab [] (strip_pairs 0 ps)
      | _ \<Rightarrow> v)"
| "strip_pairs n [] = []"
| "strip_pairs n ((k, v) # ps) = (if in_array n k then [] else [(strip k, strip v)]) @ strip_pairs n ps"
| "strip_array [] = []"
| "strip_array (v # vs) = strip v # strip_array vs"
  by pat_completeness auto
termination
  by (relation "measure (case_sum size (case_sum (\<lambda>(n, ps). size_list (size_prod size size) ps) (size_list size)))") auto

function keys_ok :: "lua_value \<Rightarrow> bool"
  and keys_ok_pairs :: "(lua_value \<times> lua_value) list \<Rightarrow> bool"
  and keys_ok_array :: "lua_value list \<Rightarrow> bool" where
  "keys_ok v \<longleftrightarrow>
     (case v of LTab vs ps \<Rightarrow> keys_ok_array vs \<and> keys_ok_pairs ps | LMeta ps \<Rightarrow> keys_ok_pairs ps | _ \<Rightarrow> True)"
| "keys_ok_pairs [] = True"
| "keys_ok_pairs ((k, v) # ps) \<longleftrightarrow> k \<noteq> LNil \<and> keys_ok k \<and> keys_ok v \<and> keys_ok_pairs ps"
| "keys_ok_array [] = True"
| "keys_ok_array (v # vs) \<longleftrightarrow> keys_ok v \<and> keys_ok_array vs"
  by pat_completeness auto
termination
  by (relation "measure (case_sum size (case_sum (size_list (size_prod size size)) (size_list size)))") auto

declare strip.simps [simp del] keys_ok.simps [simp del]

lemma strip_LNil [simp]: "strip k = LNil \<longleftrightarrow> k = LNil"
  by (cases k) (simp_all add: strip.simps)

lemma enc_integer_Cons: "\<exists>h t. enc_integer v = h # t"
  using read_integer [of v "[]"] by blast

lemma enc_one_Cons: "sendable d v \<Longrightarrow> 0 < length (enc_one v)"
  using enc_integer_Cons
  by (cases v) (auto simp: enc_one.simps sendable.simps enc_string_def enc_header_def Let_def neq_Nil_conv split: if_splits)

lemma length_enc_array: "sendable_array d vs \<Longrightarrow> length vs \<le> length (enc_array vs)"
proof (induction vs)
  case (Cons v vs)
  then show ?case using enc_one_Cons [of d v] by (cases "enc_one v") auto
qed simp

lemma read_header:
  assumes "n < 2 ^ 31"
  shows "\<exists>h t. enc_header n = h # t \<and> type_of h = TYPE_TABLE \<and> table_size (cookie_of h) (t @ r) = Ok (int n, r)"
proof (cases "n \<ge> MAX_COOKIE - 1")
  case True
  obtain h t where i: "enc_integer (of_nat n) = h # t" "type_of h = TYPE_NUMBER" "cookie_of h \<noteq> TYPE_NUMBER_REAL"
    "get_integer (cookie_of h) (t @ r) = Ok (of_nat n, r)"
    using read_integer [of "of_nat n" r] by blast
  have d: "unat h mod 8 = type_of h" "unat h div 8 = cookie_of h"
    using unat_and_mask [of h 3] by (simp_all add: type_of_def cookie_of_def mask_eq_exp_minus_1 drop_bit_eq_div unat_div)
  have "sint (of_nat n :: u64) = int n"
    using assms by (simp add: signed_of_nat signed_take_bit_int_eq_self)
  then have "to_int (sint (of_nat n :: u64)) = int n" using assms by (simp add: to_int_def)
  then show ?thesis
    using True i d combine_fields [of TYPE_TABLE 31] by (simp add: enc_header_def table_size_def seri_consts)
next
  case False
  then show ?thesis using combine_fields [of TYPE_TABLE n] by (simp add: enc_header_def table_size_def seri_consts)
qed

lemma unpack_step:
  "unpack_one (Suc f) (h # r) = push_value f (type_of h) (cookie_of h) r"
  by simp

lemma get_num [simp]:
  "get_real (le_bytes 8 (unat n) @ r) = Ok (n, r)" "get_pointer (le_bytes 8 (unat n) @ r) = Ok (n, r)" for n :: u64
proof -
  have "unat n < 256 ^ 8" using unsigned_less [of n, where ?'a = nat] by simp
  then show "get_real (le_bytes 8 (unat n) @ r) = Ok (n, r)" "get_pointer (le_bytes 8 (unat n) @ r) = Ok (n, r)"
    by (simp_all add: get_real_def get_pointer_def rb_read_num le_value_le_bytes)
qed

lemma unpack_string:
  assumes "length s < 2 ^ 31"
  shows "unpack_one (Suc f) (enc_string s @ r) = Ok (LStr s, r)"
proof -
  have b: "get_buffer (int (length s)) (s @ r) = Ok (LStr s, r)" by (simp add: get_buffer_def rb_read_app)
  consider "length s < MAX_COOKIE" | "\<not> length s < MAX_COOKIE" "length s < 0x10000" | "\<not> length s < MAX_COOKIE" "\<not> length s < 0x10000"
    by blast
  then show ?thesis
  proof cases
    case 1
    then show ?thesis
      using b combine_fields [of TYPE_SHORT_STRING "length s"]
      by (simp add: enc_string_def push_value.simps seri_consts)
  next
    case 2
    then show ?thesis
      using b combine_fields [of TYPE_LONG_STRING 2]
      by (simp add: enc_string_def push_value.simps seri_consts get_long_string_def rb_read_num le_value_le_bytes)
  next
    case 3
    then show ?thesis
      using b assms combine_fields [of TYPE_LONG_STRING 4]
      by (simp add: enc_string_def push_value.simps seri_consts get_long_string_def rb_read_num le_value_le_bytes to_int_def)
  qed
qed

lemma unpack_enc:
  "\<lbrakk>keys_ok v; sendable d v; length (enc_one v @ r) < 2 ^ 31; 3 * length (enc_one v @ r) + 1 \<le> f\<rbrakk> \<Longrightarrow>
     unpack_one f (enc_one v @ r) = Ok (strip v, r)"
  "\<lbrakk>keys_ok_array vs; sendable_array d vs; length (enc_array vs @ r) < 2 ^ 31; 3 * length (enc_array vs @ r) + 2 \<le> f\<rbrakk> \<Longrightarrow>
     unpack_array f (int (length vs)) (enc_array vs @ r) = Ok (strip_array vs, r)"
  "\<lbrakk>keys_ok_pairs ps; sendable_pairs d n ps; length (enc_pairs n ps @ r) < 2 ^ 31; 3 * length (enc_pairs n ps @ r) + 2 \<le> f\<rbrakk> \<Longrightarrow>
     unpack_pairs f (enc_pairs n ps @ r) = Ok (strip_pairs n ps, r)"
proof (induction v and vs and n ps arbitrary: d r f and d r f and d r f rule: enc_one_enc_array_enc_pairs.induct)
  case (1 v)
  obtain g where f: "f = Suc g" using 1(7) by (cases f) auto
  show ?case
  proof (cases v)
    case LNil
    then show ?thesis using f plain_fields [of TYPE_NIL] by (simp add: enc_one.simps strip.simps push_value.simps seri_consts)
  next
    case (LBool x)
    then show ?thesis
      using f combine_fields [of TYPE_BOOLEAN "if x then 1 else 0"]
      by (simp add: enc_one.simps strip.simps push_value.simps seri_consts)
  next
    case (LInt x)
    then show ?thesis
      using f read_integer [of x r] by (auto simp: enc_one.simps strip.simps push_value.simps seri_consts)
  next
    case (LReal x)
    then show ?thesis
      using f combine_fields [of TYPE_NUMBER TYPE_NUMBER_REAL]
      by (simp add: enc_one.simps strip.simps push_value.simps seri_consts)
  next
    case (LPtr x)
    then show ?thesis
      using f plain_fields [of TYPE_USERDATA] by (simp add: enc_one.simps strip.simps push_value.simps seri_consts)
  next
    case (LStr s)
    then have "length s < 2 ^ 31" using 1(6) by (auto simp: enc_one.simps enc_string_def Let_def split: if_splits)
    then show ?thesis using LStr f unpack_string by (simp add: enc_one.simps strip.simps)
  next
    case (LOther t)
    then show ?thesis using 1(5) by (simp add: sendable.simps)
  next
    case (LTab vs ps)
    let ?r1 = "enc_array vs @ enc_pairs (length vs) ps @ r"
    have e: "enc_one v @ r = enc_header (length vs) @ ?r1" using LTab by (simp add: enc_one.simps)
    have s: "sendable_array (d + 1) vs" "sendable_pairs (d + 1) (length vs) ps" using 1(5) LTab by (simp_all add: sendable.simps)
    then have "length vs < 2 ^ 31" using length_enc_array 1(6) e by (fastforce dest: length_enc_array)
    then obtain h t where h: "enc_header (length vs) = h # t" "type_of h = TYPE_TABLE"
      "table_size (cookie_of h) (t @ ?r1) = Ok (int (length vs), ?r1)"
      using read_header [of "length vs" ?r1] by blast
    have "3 * length ?r1 + 4 \<le> f" "length ?r1 < 2 ^ 31" using 1(6,7) h(1) unfolding e by simp_all
    then obtain g' where g': "g = Suc g'" "3 * length ?r1 + 2 \<le> g'" using f by (cases g) auto
    have "unpack_array g' (int (length vs)) ?r1 = Ok (strip_array vs, enc_pairs (length vs) ps @ r)"
      using LTab 1(4) s g'(2) \<open>length ?r1 < 2 ^ 31\<close> by (intro 1(1)) (auto simp: keys_ok.simps)
    moreover have "unpack_pairs g' (enc_pairs (length vs) ps @ r) = Ok (strip_pairs (length vs) ps, r)"
      using LTab 1(4) s g'(2) \<open>length ?r1 < 2 ^ 31\<close> by (intro 1(2)) (auto simp: keys_ok.simps)
    ultimately show ?thesis
      using LTab f g'(1) h unfolding e by (simp add: push_value.simps strip.simps seri_consts)
  next
    case (LMeta ps)
    let ?r1 = "enc_pairs 0 ps @ r"
    have e: "enc_one v @ r = COMBINE_TYPE TYPE_TABLE 0 # ?r1" using LMeta by (simp add: enc_one.simps)
    have "3 * length ?r1 + 4 \<le> f" "length ?r1 < 2 ^ 31" using 1(6,7) unfolding e by simp_all
    then obtain g' where g': "g = Suc g'" "3 * length ?r1 + 2 \<le> g'" using f by (cases g) auto
    have "unpack_array g' 0 ?r1 = Ok ([], ?r1)" using g'(2) by (cases g') auto
    moreover have "unpack_pairs g' ?r1 = Ok (strip_pairs 0 ps, r)"
      using LMeta 1(4,5) g'(2) \<open>length ?r1 < 2 ^ 31\<close> by (intro 1(3)) (auto simp: keys_ok.simps sendable.simps)
    ultimately show ?thesis
      using LMeta f g'(1) combine_fields [of TYPE_TABLE 0] unfolding e
      by (simp add: push_value.simps strip.simps seri_consts table_size_def)
  qed
next
  case 2
  then show ?case by (cases f) auto
next
  case (3 v vs)
  obtain g where f: "f = Suc g" using 3(6) by (cases f) auto
  have "0 < length (enc_one v)" using 3(4) enc_one_Cons by auto
  then have l: "3 * length (enc_array vs @ r) + 2 \<le> g" "3 * length (enc_one v @ enc_array vs @ r) + 1 \<le> g"
    using 3(6) f by (cases "enc_one v"; simp)+
  have "unpack_one g (enc_one v @ enc_array vs @ r) = Ok (strip v, enc_array vs @ r)"
    using 3(3-5) l by (intro 3(1)) auto
  moreover have "unpack_array g (int (length vs)) (enc_array vs @ r) = Ok (strip_array vs, r)"
    using 3(3-5) l by (intro 3(2)) auto
  ultimately show ?case using f by simp
next
  case (4 n)
  obtain g h where f: "f = Suc (Suc h)" using 4(4) by (cases f; cases "f - 1") auto
  then show ?case using plain_fields [of TYPE_NIL] by (simp add: push_value.simps seri_consts)
next
  case (5 n k v ps)
  obtain g where f: "f = Suc g" using 5(7) by (cases f) auto
  show ?case
  proof (cases "in_array n k")
    case True
    then show ?thesis using 5 by simp
  next
    case False
    let ?r1 = "enc_pairs n ps @ r"
    have "0 < length (enc_one k)" "0 < length (enc_one v)" using 5(5) False enc_one_Cons by auto
    then have l: "3 * length ?r1 + 2 \<le> g" "3 * length (enc_one k @ enc_one v @ ?r1) + 1 \<le> g" "3 * length (enc_one v @ ?r1) + 1 \<le> g"
      using 5(7) f False by (cases "enc_one k"; cases "enc_one v"; simp)+
    have "unpack_one g (enc_one k @ enc_one v @ ?r1) = Ok (strip k, enc_one v @ ?r1)"
      using 5(4-6) l False by (intro 5(1)) auto
    moreover have "unpack_one g (enc_one v @ ?r1) = Ok (strip v, ?r1)"
      using 5(4-6) l False by (intro 5(2)) auto
    moreover have "unpack_pairs g ?r1 = Ok (strip_pairs n ps, r)"
      using 5(4-6) l False by (intro 5(3)) auto
    ultimately show ?thesis using f False 5(4) by simp
  qed
qed

section \<open>Reading ends\<close>

text \<open>\<open>reads k rb x\<close>: \<open>x\<close> did not run out of fuel, and if it is a result it took at least \<open>k\<close> bytes.\<close>

definition reads :: "nat \<Rightarrow> bytes \<Rightarrow> ('a \<times> bytes) outcome \<Rightarrow> bool" where
  "reads k rb x \<longleftrightarrow> (case x of OutOfFuel \<Rightarrow> False | Ok (a, r) \<Rightarrow> length r + k \<le> length rb | _ \<Rightarrow> True)"

lemma reads_simps [simp]:
  "reads k rb (invalid_stream rb')" "reads k rb (Ok (a, r)) \<longleftrightarrow> length r + k \<le> length rb" "\<not> reads k rb OutOfFuel"
  "reads k rb Undefined" "reads k rb (LuaError e)"
  by (simp_all add: reads_def invalid_stream_def)

lemma reads_then:
  assumes "reads k rb x" "\<And>a r. length r + k \<le> length rb \<Longrightarrow> reads k' r (f (a, r))" "j \<le> k + k'"
  shows "reads j rb (and_then x f)"
proof (cases x)
  case (Ok y)
  then obtain a r where y: "x = Ok (a, r)" by (cases y) auto
  then have "length r + k \<le> length rb" using assms(1) by simp
  then have "reads k' r (f (a, r))" "length r + k \<le> length rb" using assms(2) by auto
  then show ?thesis using y assms(3) by (cases "f (a, r)") (auto simp: reads_def)
qed (use assms(1) in \<open>simp_all add: reads_def\<close>)

lemma reads_rb: "0 \<le> sz \<Longrightarrow> reads (nat sz) rb (rb_read sz rb)" "reads 0 rb (rb_read sz rb)"
  by (auto simp: rb_read_def)

lemma reads_numbers:
  "reads 0 rb (get_integer c rb)" "reads 0 rb (get_real rb)" "reads 0 rb (get_pointer rb)" "reads 0 rb (get_buffer l rb)"
  "reads 0 rb (get_long_string c rb)" "reads 0 rb (table_size c rb)"
  by (auto simp: get_integer_def get_real_def get_pointer_def get_buffer_def get_long_string_def table_size_def Let_def
      intro!: reads_then [where k = 0 and k' = 0] reads_rb(2))

lemma unpack_reads:
  "3 * length rb + 3 \<le> f \<Longrightarrow> reads 0 rb (push_value f type cookie rb)"
  "3 * length rb + 1 \<le> f \<Longrightarrow> reads 1 rb (unpack_one f rb)"
  "3 * length rb + 2 \<le> f \<Longrightarrow> reads 0 rb (unpack_array f n rb)"
  "3 * length rb + 2 \<le> f \<Longrightarrow> reads 0 rb (unpack_pairs f rb)"
proof (induction f type cookie rb and f rb and f n rb and f rb rule: push_value_unpack_one_unpack_array_unpack_pairs.induct)
  case (1 fuel type cookie rb)
  show ?case
  proof (cases "type = TYPE_TABLE")
    case True
    obtain g where g: "fuel = Suc g" using 1(3) by (cases fuel) auto
    have "reads 0 rb (and_then (table_size cookie rb) (\<lambda>(n, rb). and_then (unpack_array g n rb)
        (\<lambda>(vs, rb). and_then (unpack_pairs g rb) (\<lambda>(ps, rb). Ok (LTab vs ps, rb)))))"
      using 1 g True
      by (auto intro!: reads_then [where k = 0 and k' = 0] reads_numbers simp: seri_consts)
    then show ?thesis using True g by (simp add: push_value.simps seri_consts)
  next
    case False
    then show ?thesis
      by (auto simp: push_value.simps intro!: reads_then [where k = 0 and k' = 0] reads_numbers)
  qed
next
  case (3 fuel rb)
  then show ?case
    by (auto intro!: reads_then [where k = 1 and k' = 0] simp: reads_rb(1) [of 1, simplified])
next
  case (5 fuel n rb)
  have "reads 0 rb (and_then (unpack_one fuel rb) (\<lambda>(v, rb). and_then (unpack_array fuel (n - 1) rb) (\<lambda>(vs, rb). Ok (v # vs, rb))))"
    if "\<not> n \<le> 0"
  proof (rule reads_then [where k = 1 and k' = 0])
    show "reads 1 rb (unpack_one fuel rb)" using 5 that by auto
    fix v and r :: bytes
    assume "length r + 1 \<le> length rb"
    then have "reads 0 r (unpack_array fuel (n - 1) r)" using 5 that by auto
    then show "reads 0 r (case (v, r) of (v, rb) \<Rightarrow> and_then (unpack_array fuel (n - 1) rb) (\<lambda>(vs, rb). Ok (v # vs, rb)))"
      by (auto intro!: reads_then [where k = 0 and k' = 0])
  qed simp
  then show ?case by simp
next
  case (7 fuel rb)
  show ?case
    unfolding unpack_pairs.simps
  proof (rule reads_then [where k = 1 and k' = 0])
    show "reads 1 rb (unpack_one fuel rb)" using 7 by auto
    fix k and r :: bytes
    assume r: "length r + 1 \<le> length rb"
    have "reads 0 r (and_then (unpack_one fuel r) (\<lambda>(v, rb). and_then (unpack_pairs fuel rb) (\<lambda>(ps, rb). Ok ((k, v) # ps, rb))))"
      if "k \<noteq> LNil"
    proof (rule reads_then [where k = 1 and k' = 0])
      show "reads 1 r (unpack_one fuel r)" using 7 that r by auto
      fix v and r' :: bytes
      assume "length r' + 1 \<le> length r"
      then have "reads 0 r' (unpack_pairs fuel r')" using 7 that r by auto
      then show "reads 0 r' (case (v, r') of (v, rb) \<Rightarrow> and_then (unpack_pairs fuel rb) (\<lambda>(ps, rb). Ok ((k, v) # ps, rb)))"
        by (auto intro!: reads_then [where k = 0 and k' = 0])
    qed simp
    then show "reads 0 r (case (k, r) of (k, rb) \<Rightarrow> if k = LNil then Ok ([], rb)
        else and_then (unpack_one fuel rb) (\<lambda>(v, rb). and_then (unpack_pairs fuel rb) (\<lambda>(ps, rb). Ok ((k, v) # ps, rb))))"
      by simp
  qed simp
qed simp_all

lemma unpack_all_enc:
  "\<lbrakk>\<forall>v \<in> set vs. keys_ok v \<and> sendable 0 v; length (enc_array vs) < 2 ^ 31; 3 * length (enc_array vs) + 2 \<le> f\<rbrakk> \<Longrightarrow>
     unpack_all f (enc_array vs) = Ok (map strip vs)"
proof (induction vs arbitrary: f)
  case (Cons v vs)
  obtain g where f: "f = Suc g" using Cons.prems(3) by (cases f) auto
  obtain h t where h: "enc_one v = h # t" using Cons.prems(1) enc_one_Cons [of 0 v] by (cases "enc_one v") auto
  have "unpack_one g (enc_one v @ enc_array vs) = Ok (strip v, enc_array vs)"
    using Cons.prems f by (intro unpack_enc(1) [of v 0]) auto
  moreover have "unpack_all g (enc_array vs) = Ok (map strip vs)"
    using Cons.prems f h by (intro Cons.IH) auto
  ultimately show ?case using f h by simp
qed simp

lemma unpack_all_ends: "3 * length rb + 2 \<le> f \<Longrightarrow> unpack_all f rb \<noteq> OutOfFuel"
proof (induction f rb rule: unpack_all.induct)
  case (3 fuel b rb)
  have r: "reads 1 (b # rb) (unpack_one fuel (b # rb))" using 3(2) by (intro unpack_reads) simp
  show ?case
  proof (cases "unpack_one fuel (b # rb)")
    case (Ok y)
    then obtain v r' where y: "unpack_one fuel (b # rb) = Ok (v, r')" by (cases y) auto
    then have "unpack_all fuel r' \<noteq> OutOfFuel" using 3 r by auto
    then show ?thesis using y by (cases "unpack_all fuel r'") auto
  qed (use r in auto)
qed auto

section \<open>Properties\<close>

lemma pack_array_all: "sendable_array d vs \<longleftrightarrow> (\<forall>v \<in> set vs. sendable d v)"
  by (induction vs) auto

lemma luaseri_pack_ok:
  "if \<forall>v \<in> set vs. sendable 0 v then luaseri_pack vs = Some (Inr (enc_array vs)) else \<exists>e. luaseri_pack vs = Some (Inl e)"
  using pack_ok(2) [of wb_init 0 vs] wb_init_ok seri_ok
  by (auto simp: luaseri_pack_def packed_def pack_array_all split: if_splits)

text \<open>
  C20. What is sent arrives: whatever values a message packs to less than 2G bytes, unpacking the bytes
  returns the same values, in order; a table with a \<open>__pairs\<close> metamethod arrives as a plain table of the
  pairs its iterator returned. (\<open>keys_ok\<close>: no table has a nil key.)
\<close>

theorem seri_roundtrip:
  assumes "luaseri_pack vs = Some (Inr bs)" "length bs < 2 ^ 31" "\<forall>v \<in> set vs. keys_ok v"
  shows "luaseri_unpack bs = Ok (map strip vs)"
proof -
  have "\<forall>v \<in> set vs. sendable 0 v" "bs = enc_array vs"
    using luaseri_pack_ok [of vs] assms(1) by (auto split: if_splits)
  then show ?thesis using unpack_all_enc [of vs] assms by (simp add: luaseri_unpack_def)
qed

theorem seri_roundtrip_witness:
  "luaseri_unpack (enc_array [LStr [104, 105], LTab [LInt 7, LNil] [(LInt 1, LInt 7), (LStr [107], LMeta [(LBool True, LReal 3)])]])
   = Ok (map strip [LStr [104, 105], LTab [LInt 7, LNil] [(LInt 1, LInt 7), (LStr [107], LMeta [(LBool True, LReal 3)])]])"
  (is "luaseri_unpack (enc_array ?vs) = _")
proof (rule seri_roundtrip)
  have "\<forall>v \<in> set ?vs. sendable 0 v" by (simp add: sendable.simps MAX_DEPTH_def)
  then show "luaseri_pack ?vs = Some (Inr (enc_array ?vs))" using luaseri_pack_ok [of ?vs] by presburger
  show "\<forall>v \<in> set ?vs. keys_ok v" by (simp add: keys_ok.simps)
  show "length (enc_array ?vs) < 2 ^ 31"
    by (simp add: enc_one.simps enc_string_def enc_integer_def enc_header_def in_array_def MAX_COOKIE_def)
qed

text \<open>
  C21. Packing returns in every case, with a result exactly when no table is nested more than 32 deep
  and no value has a type that cannot be sent, and with an error otherwise; the block chain is copied
  whole.
\<close>

theorem seri_pack_succeeds_iff:
  "luaseri_pack vs \<noteq> None \<and> ((\<exists>bs. luaseri_pack vs = Some (Inr bs)) \<longleftrightarrow> (\<forall>v \<in> set vs. sendable 0 v))"
  using luaseri_pack_ok [of vs] by (auto split: if_splits)

theorem seri_pack_succeeds_iff_witness:
  "(\<exists>bs. luaseri_pack [LInt 5, LTab [LNil] []] = Some (Inr bs))
   \<and> \<not> (\<exists>bs. luaseri_pack [LInt 5, LTab [LOther ''function''] []] = Some (Inr bs))"
  using seri_pack_succeeds_iff [of "[LInt 5, LTab [LNil] []]"]
    seri_pack_succeeds_iff [of "[LInt 5, LTab [LOther ''function''] []]"]
  by (simp add: sendable.simps MAX_DEPTH_def)

text \<open>
  C22. Unpacking returns on every sequence of bytes: the recursion is never deeper than the fuel, which
  grows with the length.
\<close>

theorem seri_unpack_returns: "luaseri_unpack rb \<noteq> OutOfFuel"
  by (simp add: luaseri_unpack_def unpack_all_ends)

text \<open>
  A long string with a length of \<open>2\<^sup>3\<^sup>1\<close> or more is not refused: the length becomes a negative
  \<open>int\<close> and passes the check against what is left of the buffer.
\<close>

theorem seri_negative_length: "luaseri_unpack (COMBINE_TYPE TYPE_LONG_STRING 4 # le_bytes 4 (2 ^ 31)) = Undefined"
proof -
  have "rb_read 4 (le_bytes 4 (2 ^ 31)) = Ok (le_bytes 4 (2 ^ 31), [])"
    using rb_read_num [of "le_bytes 4 (2 ^ 31)" _ "[]"] by simp
  then have "get_long_string 4 (le_bytes 4 (2 ^ 31)) = Undefined"
    using le_value_le_bytes [of "2 ^ 31" 4]
    by (simp add: get_long_string_def get_buffer_def rb_read_def to_int_def)
  then have "push_value f TYPE_LONG_STRING 4 (le_bytes 4 (2 ^ 31)) = Undefined" for f
    by (simp add: push_value.simps seri_consts)
  then have "unpack_one (Suc f) (COMBINE_TYPE TYPE_LONG_STRING 4 # le_bytes 4 (2 ^ 31)) = Undefined" for f
    using combine_fields [of TYPE_LONG_STRING 4] by (simp add: TYPE_LONG_STRING_def)
  moreover have "unpack_all (Suc (Suc f)) (b # rb) = Undefined" if "\<And>f. unpack_one (Suc f) (b # rb) = Undefined" for f b rb
    using that by simp
  moreover have "3 * length (b # le_bytes 4 (2 ^ 31)) + 2 = Suc (Suc 15)" for b by (simp only: list.size length_le_bytes) simp
  ultimately show ?thesis by (simp only: luaseri_unpack_def)
qed

end
