(* ===== verification/HarborService.thy ===== *)
theory HarborService
  imports Framing Service
begin

text \<open>
  The harbor service, \<open>service-src/service_harbor.c\<close>, which carries messages to the other nodes: a map
  of global names with the messages that wait for a name, and one slave per node (harbor) with its
  connection, the messages that wait for the connection, and the frame it is receiving. \<open>None\<close> is a
  failed assertion or an access outside a buffer. \<open>alive\<close> says which local services exist, the answer
  of \<open>skynet_send\<close>.
\<close>

unbundle bit_operations_syntax

definition HASH_SIZE :: nat where "HASH_SIZE = 4096"
definition DEFAULT_QUEUE_SIZE :: nat where "DEFAULT_QUEUE_SIZE = 1024"
definition HEADER_COOKIE_LENGTH :: nat where "HEADER_COOKIE_LENGTH = 12"
definition REMOTE_MAX :: nat where "REMOTE_MAX = 256"

record remote_message_header =
  rh_source :: u32
  rh_destination :: u32
  rh_session :: u32

text \<open>The size of a message is the length of its buffer; a null buffer is an empty one.\<close>

record harbor_msg =
  hm_header :: remote_message_header
  hm_buffer :: bytes

record harbor_msg_queue =
  hq_size :: nat
  hq_head :: nat
  hq_tail :: nat
  hq_data :: "harbor_msg option list"

record keyvalue =
  kv_key :: bytes
  kv_hash :: u32
  kv_value :: u32
  kv_queue :: "harbor_msg_queue option"

text \<open>The buckets, each the list of its nodes from the first on.\<close>

type_synonym hashmap = "nat \<Rightarrow> keyvalue list"

datatype slave_status = STATUS_WAIT | STATUS_HANDSHAKE | STATUS_HEADER | STATUS_CONTENT | STATUS_DOWN

record slave =
  sl_fd :: int
  sl_queue :: "harbor_msg_queue option"
  sl_status :: slave_status
  sl_length :: nat
  sl_read :: nat
  sl_size :: "u8 option list"
  sl_recv_buffer :: "u8 option list"

record harbor =
  ha_id :: int
  ha_slave :: u32
  ha_map :: hashmap
  ha_s :: "nat \<Rightarrow> slave"

definition upd_slave :: "nat \<Rightarrow> (slave \<Rightarrow> slave) \<Rightarrow> harbor \<Rightarrow> harbor" where
  "upd_slave hid f h = h\<lparr>ha_s := (ha_s h)(hid := f (ha_s h hid))\<rparr>"

section \<open>Queues\<close>

definition push_queue_msg :: "harbor_msg \<Rightarrow> harbor_msg_queue \<Rightarrow> harbor_msg_queue option" where
  "push_queue_msg m queue = do {
     let queue = (if (hq_tail queue + 1) mod hq_size queue = hq_head queue then
         queue\<lparr>hq_data := map (\<lambda>i. arr_read (hq_data queue) ((i + hq_head queue) mod hq_size queue)) [0..<hq_size queue - 1]
                  @ replicate (hq_size queue + 1) None,
               hq_head := 0, hq_tail := hq_size queue - 1, hq_size := hq_size queue * 2\<rparr>
       else queue);
     cells \<leftarrow> arr_write (hq_data queue) (hq_tail queue) m;
     Some (queue\<lparr>hq_data := cells, hq_tail := (hq_tail queue + 1) mod hq_size queue\<rparr>)
   }"

definition pop_queue :: "harbor_msg_queue \<Rightarrow> (harbor_msg option \<times> harbor_msg_queue) option" where
  "pop_queue queue =
     (if hq_head queue = hq_tail queue then Some (None, queue)
      else do {
        slot \<leftarrow> arr_read (hq_data queue) (hq_head queue);
        Some (Some slot, queue\<lparr>hq_head := (hq_head queue + 1) mod hq_size queue\<rparr>)
      })"

definition new_queue :: harbor_msg_queue where
  "new_queue = \<lparr>hq_size = DEFAULT_QUEUE_SIZE, hq_head = 0, hq_tail = 0,
     hq_data = replicate DEFAULT_QUEUE_SIZE None\<rparr>"

text \<open>\<open>release_queue\<close> returns the messages it frees.\<close>

definition release_queue :: "harbor_msg_queue option \<Rightarrow> harbor_msg list option" where
  "release_queue queue =
     (case queue of
        None \<Rightarrow> Some []
      | Some q \<Rightarrow> do { (ms, _) \<leftarrow> drain pop_queue q; Some ms })"

section \<open>Names\<close>

text \<open>The exclusive or of the four words of a name; \<open>strncmp\<close> compares up to a zero byte.\<close>

definition name_hash :: "bytes \<Rightarrow> u32" where
  "name_hash name =
     of_le32 (name ! 0) (name ! 1) (name ! 2) (name ! 3) XOR of_le32 (name ! 4) (name ! 5) (name ! 6) (name ! 7) XOR
     of_le32 (name ! 8) (name ! 9) (name ! 10) (name ! 11) XOR of_le32 (name ! 12) (name ! 13) (name ! 14) (name ! 15)"

definition same_name :: "bytes \<Rightarrow> bytes \<Rightarrow> bool" where
  "same_name a b \<longleftrightarrow> takeWhile (\<lambda>c. c \<noteq> 0) (take GLOBALNAME_LENGTH a) = takeWhile (\<lambda>c. c \<noteq> 0) (take GLOBALNAME_LENGTH b)"

text \<open>A node of the map is named by its bucket and its position there.\<close>

type_synonym kvref = "nat \<times> nat"

primrec node_index :: "(keyvalue \<Rightarrow> bool) \<Rightarrow> keyvalue list \<Rightarrow> nat option" where
  "node_index P [] = None"
| "node_index P (kv # kvs) = (if P kv then Some 0 else map_option Suc (node_index P kvs))"

definition hash_search :: "hashmap \<Rightarrow> bytes \<Rightarrow> kvref option" where
  "hash_search hash name =
     (let h = name_hash name; b = unat h mod HASH_SIZE in
      map_option (Pair b) (node_index (\<lambda>kv. kv_hash kv = h \<and> same_name (kv_key kv) name) (hash b)))"

definition hash_insert :: "hashmap \<Rightarrow> bytes \<Rightarrow> kvref \<times> hashmap" where
  "hash_insert hash name =
     (let h = name_hash name; b = unat h mod HASH_SIZE in
      ((b, 0), hash(b := \<lparr>kv_key = take GLOBALNAME_LENGTH name, kv_hash = h, kv_value = 0, kv_queue = None\<rparr> # hash b)))"

definition kv_at :: "hashmap \<Rightarrow> kvref \<Rightarrow> keyvalue" where
  "kv_at hash = (\<lambda>(b, i). hash b ! i)"

definition upd_kv :: "kvref \<Rightarrow> (keyvalue \<Rightarrow> keyvalue) \<Rightarrow> harbor \<Rightarrow> harbor" where
  "upd_kv = (\<lambda>(b, i) f h. h\<lparr>ha_map := (ha_map h)(b := (ha_map h b)[i := f (ha_map h b ! i)])\<rparr>)"

definition hash_new :: hashmap where
  "hash_new = (\<lambda>_. [])"

text \<open>\<open>hash_delete\<close> returns the messages it frees.\<close>

primrec release_all :: "harbor_msg_queue option list \<Rightarrow> harbor_msg list option" where
  "release_all [] = Some []"
| "release_all (q # qs) = do { ms \<leftarrow> release_queue q; ms' \<leftarrow> release_all qs; Some (ms @ ms') }"

definition hash_delete :: "hashmap \<Rightarrow> harbor_msg list option" where
  "hash_delete hash = release_all (map kv_queue (concat (map hash [0..<HASH_SIZE])))"

text \<open>\<open>hash_search\<close>, and \<open>hash_insert\<close> when it finds nothing.\<close>

definition search_or_insert :: "bytes \<Rightarrow> harbor \<Rightarrow> kvref \<times> harbor" where
  "search_or_insert name h =
     (case hash_search (ha_map h) name of
        Some r \<Rightarrow> (r, h)
      | None \<Rightarrow> let (r, hash) = hash_insert (ha_map h) name in (r, h\<lparr>ha_map := hash\<rparr>))"

section \<open>Connections\<close>

definition close_harbor :: "nat \<Rightarrow> harbor \<Rightarrow> (harbor \<times> service_call list) option" where
  "close_harbor hid h = do {
     let s = ha_s h hid;
     _ \<leftarrow> release_queue (sl_queue s);
     Some (upd_slave hid (\<lambda>s. s\<lparr>sl_status := STATUS_DOWN, sl_queue := None\<rparr>) h,
           if sl_fd s \<noteq> 0 then [Close (sl_fd s)] else [])
   }"

definition report_harbor_down :: "nat \<Rightarrow> harbor \<Rightarrow> service_call list" where
  "report_harbor_down hid h = [Send 0 (ha_slave h) (of_nat PTYPE_TEXT) 0 (cstr (''D '' @ fmt_d (int hid)))]"

definition new_slave :: slave where
  "new_slave = \<lparr>sl_fd = 0, sl_queue = None, sl_status = STATUS_WAIT, sl_length = 0, sl_read = 0,
     sl_size = replicate 4 (Some 0), sl_recv_buffer = []\<rparr>"

definition harbor_create :: harbor where
  "harbor_create = \<lparr>ha_id = 0, ha_slave = 0, ha_map = hash_new, ha_s = (\<lambda>_. new_slave)\<rparr>"

primrec close_all :: "nat list \<Rightarrow> harbor \<Rightarrow> (harbor \<times> service_call list) option" where
  "close_all [] h = Some (h, [])"
| "close_all (i # is) h =
     (let s = ha_s h i in
      if sl_fd s \<noteq> 0 \<and> sl_status s \<noteq> STATUS_DOWN then do {
        (h, out) \<leftarrow> close_harbor i h;
        (h, out') \<leftarrow> close_all is h;
        Some (h, out @ out')
      }
      else close_all is h)"

definition harbor_release :: "harbor \<Rightarrow> service_call list option" where
  "harbor_release h = do {
     (h, out) \<leftarrow> close_all [1..<REMOTE_MAX] h;
     _ \<leftarrow> hash_delete (ha_map h);
     Some out
   }"

section \<open>Frames\<close>

definition to_bigendian :: "u32 \<Rightarrow> bytes" where
  "to_bigendian n = [ucast (drop_bit 24 n AND 0xff), ucast (drop_bit 16 n AND 0xff), ucast (drop_bit 8 n AND 0xff), ucast (n AND 0xff)]"

definition header_to_message :: "remote_message_header \<Rightarrow> bytes" where
  "header_to_message header =
     to_bigendian (rh_source header) @ to_bigendian (rh_destination header) @ to_bigendian (rh_session header)"

definition from_bigendian :: "bytes \<Rightarrow> nat \<Rightarrow> u32" where
  "from_bigendian b i =
     push_bit 24 (ucast (b ! i)) OR push_bit 16 (ucast (b ! (i + 1))) OR push_bit 8 (ucast (b ! (i + 2))) OR ucast (b ! (i + 3))"

definition message_to_header :: "bytes \<Rightarrow> remote_message_header" where
  "message_to_header b =
     \<lparr>rh_source = from_bigendian b 0, rh_destination = from_bigendian b 4, rh_session = from_bigendian b 8\<rparr>"

text \<open>
  A message from another node, with its header behind the body. \<open>skynet_send\<close> answers the session, or
  \<open>-1\<close> when there is no such service.
\<close>

definition forward_local_message :: "(u32 \<Rightarrow> bool) \<Rightarrow> bytes \<Rightarrow> harbor \<Rightarrow> service_call list option" where
  "forward_local_message alive msg h =
     (if length msg < HEADER_COOKIE_LENGTH then None
      else
        let sz = length msg - HEADER_COOKIE_LENGTH;
            header = message_to_header (drop sz msg);
            type = drop_bit HANDLE_REMOTE_SHIFT (rh_destination header);
            destination = (rh_destination header AND HANDLE_MASK) OR push_bit HANDLE_REMOTE_SHIFT (word_of_int (ha_id h));
            session = sint (rh_session header)
        in Some (Send (rh_source header) destination (type OR PTYPE_TAG_DONTCOPY) session (take sz msg) #
             (if (if alive destination then session else - 1) < 0 then
                (if type \<noteq> of_nat PTYPE_ERROR then [SendNull destination (rh_source header) (of_nat PTYPE_ERROR) session] else []) @
                [Log (''Unknown destination :'' @ fmt_x destination @ '' from :'' @ fmt_x (rh_source header) @
                      '' type('' @ fmt_d (uint type) @ '')'')]
              else [])))"

definition send_remote :: "int \<Rightarrow> bytes \<Rightarrow> remote_message_header \<Rightarrow> service_call list" where
  "send_remote fd buffer cookie =
     (let sz_header = length buffer + 12 in
      if sz_header > 0xffffffff then
        [Log (''remote message from :'' @ fmt_08x (rh_source cookie) @ '' to :'' @ fmt_08x (rh_destination cookie) @ '' is too large.'')]
      else [SocketSend fd (to_bigendian (of_nat sz_header) @ buffer @ header_to_message cookie)])"

section \<open>Sending what waited\<close>

definition dispatch_name_queue :: "kvref \<Rightarrow> harbor \<Rightarrow> (harbor \<times> service_call list) option" where
  "dispatch_name_queue r h = do {
     let node = kv_at (ha_map h) r;
     queue \<leftarrow> kv_queue node;
     let handle = kv_value node;
     let harbor_id = unat (drop_bit HANDLE_REMOTE_SHIFT handle);
     let s = ha_s h harbor_id;
     let fd = sl_fd s;
     if fd = 0 then
       if sl_status s = STATUS_DOWN then
         Some (h, [Log (''Drop message to '' @ str_at (kv_key node) 0 @ '' (in harbor '' @ fmt_d (int harbor_id) @ '')'')])
       else do {
         h \<leftarrow> (case sl_queue s of
            None \<Rightarrow> Some (upd_kv r (\<lambda>kv. kv\<lparr>kv_queue := None\<rparr>) (upd_slave harbor_id (\<lambda>s. s\<lparr>sl_queue := Some queue\<rparr>) h))
          | Some squeue \<Rightarrow> do {
              (ms, queue) \<leftarrow> drain pop_queue queue;
              squeue \<leftarrow> enq_all push_queue_msg ms squeue;
              Some (upd_kv r (\<lambda>kv. kv\<lparr>kv_queue := Some queue\<rparr>) (upd_slave harbor_id (\<lambda>s. s\<lparr>sl_queue := Some squeue\<rparr>) h))
            });
         if harbor_id = unat (drop_bit HANDLE_REMOTE_SHIFT (ha_slave h)) then do {
           squeue \<leftarrow> sl_queue (ha_s h harbor_id);
           (ms, squeue) \<leftarrow> drain pop_queue squeue;
           _ \<leftarrow> release_queue (Some squeue);
           Some (upd_slave harbor_id (\<lambda>s. s\<lparr>sl_queue := None\<rparr>) h,
             map (\<lambda>m. Send (rh_source (hm_header m)) handle
                   (drop_bit HANDLE_REMOTE_SHIFT (rh_destination (hm_header m)) OR PTYPE_TAG_DONTCOPY)
                   (sint (rh_session (hm_header m))) (hm_buffer m)) ms)
         }
         else Some (h, [])
       }
     else do {
       (ms, queue) \<leftarrow> drain pop_queue queue;
       Some (upd_kv r (\<lambda>kv. kv\<lparr>kv_queue := Some queue\<rparr>) h,
         concat (map (\<lambda>m. send_remote fd (hm_buffer m)
           ((hm_header m)\<lparr>rh_destination := rh_destination (hm_header m) OR (handle AND HANDLE_MASK)\<rparr>)) ms))
     }
   }"

definition dispatch_queue :: "nat \<Rightarrow> harbor \<Rightarrow> (harbor \<times> service_call list) option" where
  "dispatch_queue hid h =
     (let s = ha_s h hid; fd = sl_fd s in
      if fd = 0 then None
      else case sl_queue s of
        None \<Rightarrow> Some (h, [])
      | Some queue \<Rightarrow> do {
          (ms, queue) \<leftarrow> drain pop_queue queue;
          _ \<leftarrow> release_queue (Some queue);
          Some (upd_slave hid (\<lambda>s. s\<lparr>sl_queue := None\<rparr>) h,
                concat (map (\<lambda>m. send_remote fd (hm_buffer m) (hm_header m)) ms))
        })"

section \<open>Receiving\<close>

definition harbor_id :: "harbor \<Rightarrow> int \<Rightarrow> nat" where
  "harbor_id h fd = (case find (\<lambda>i. sl_fd (ha_s h i) = fd) [1..<REMOTE_MAX] of Some i \<Rightarrow> i | None \<Rightarrow> 0)"

text \<open>\<open>memcpy (dst + at, src, length src)\<close>\<close>

definition blit :: "bytes \<Rightarrow> nat \<Rightarrow> u8 option list \<Rightarrow> u8 option list option" where
  "blit src i dst =
     (if i + length src \<le> length dst then Some (take i dst @ map Some src @ drop (i + length src) dst) else None)"

text \<open>
  The loop of \<open>push_socket_data\<close>. Going through to the next case of the switch is another turn of the
  loop, whose switch takes that case.
\<close>

partial_function (option) recv_loop ::
  "(u32 \<Rightarrow> bool) \<Rightarrow> nat \<Rightarrow> bytes \<Rightarrow> harbor \<Rightarrow> (harbor \<times> service_call list) option" where
  "recv_loop alive hid buffer h =
     (let s = ha_s h hid in
      case sl_status s of
        STATUS_HANDSHAKE \<Rightarrow>
          (case buffer of
             [] \<Rightarrow> None
           | remote_id # buffer \<Rightarrow>
               if unat remote_id \<noteq> hid then do {
                 (h, out) \<leftarrow> close_harbor hid h;
                 Some (h, Log (''Invalid shakehand id ('' @ fmt_d (int hid) @ '') from fd = '' @ fmt_d (sl_fd s) @
                               '' , harbor = '' @ fmt_d (uint remote_id)) # out)
               }
               else do {
                 (h, out) \<leftarrow> dispatch_queue hid (upd_slave hid (\<lambda>s. s\<lparr>sl_status := STATUS_HEADER\<rparr>) h);
                 (h, out') \<leftarrow> recv_loop alive hid buffer h;
                 Some (h, out @ out')
               })
      | STATUS_HEADER \<Rightarrow>
          let need = 4 - sl_read s in
          if length buffer < need then do {
            sz \<leftarrow> blit buffer (sl_read s) (sl_size s);
            Some (upd_slave hid (\<lambda>s. s\<lparr>sl_size := sz, sl_read := sl_read s + length buffer\<rparr>) h, [])
          }
          else do {
            sz \<leftarrow> blit (take need buffer) (sl_read s) (sl_size s);
            b0 \<leftarrow> arr_read sz 0;
            b1 \<leftarrow> arr_read sz 1;
            b2 \<leftarrow> arr_read sz 2;
            b3 \<leftarrow> arr_read sz 3;
            if b0 \<noteq> 0 then do {
              (h, out) \<leftarrow> close_harbor hid (upd_slave hid (\<lambda>s. s\<lparr>sl_size := sz\<rparr>) h);
              Some (h, Log (''Message is too long from harbor '' @ fmt_d (int hid)) # out)
            }
            else do {
              let len = unat b1 * 65536 + unat b2 * 256 + unat b3;
              let h = upd_slave hid (\<lambda>s. s\<lparr>sl_size := sz, sl_length := len, sl_read := 0,
                         sl_recv_buffer := replicate len None, sl_status := STATUS_CONTENT\<rparr>) h;
              if drop need buffer = [] then Some (h, []) else recv_loop alive hid (drop need buffer) h
            }
          }
      | STATUS_CONTENT \<Rightarrow>
          let need = sl_length s - sl_read s in
          if length buffer < need then do {
            rb \<leftarrow> blit buffer (sl_read s) (sl_recv_buffer s);
            Some (upd_slave hid (\<lambda>s. s\<lparr>sl_recv_buffer := rb, sl_read := sl_read s + length buffer\<rparr>) h, [])
          }
          else do {
            rb \<leftarrow> blit (take need buffer) (sl_read s) (sl_recv_buffer s);
            msg \<leftarrow> those rb;
            out \<leftarrow> forward_local_message alive msg h;
            let h = upd_slave hid (\<lambda>s. s\<lparr>sl_length := 0, sl_read := 0, sl_recv_buffer := [], sl_status := STATUS_HEADER\<rparr>) h;
            if drop need buffer = [] then Some (h, out)
            else do {
              (h, out') \<leftarrow> recv_loop alive hid (drop need buffer) h;
              Some (h, out @ out')
            }
          }
      | _ \<Rightarrow> Some (h, []))"

definition push_socket_data :: "(u32 \<Rightarrow> bool) \<Rightarrow> socket_message \<Rightarrow> harbor \<Rightarrow> (harbor \<times> service_call list) option" where
  "push_socket_data alive message h =
     (if sm_type message \<noteq> SKYNET_SOCKET_TYPE_DATA then None
      else
        let fd = sm_id message in
        case find (\<lambda>i. sl_fd (ha_s h i) = fd) [1..<REMOTE_MAX] of
          None \<Rightarrow> Some (h, [Log (''Invalid socket fd ('' @ fmt_d fd @ '') data'')])
        | Some hid \<Rightarrow> recv_loop alive hid (sm_buffer message) h)"

section \<open>Messages out\<close>

definition update_name :: "bytes \<Rightarrow> u32 \<Rightarrow> harbor \<Rightarrow> (harbor \<times> service_call list) option" where
  "update_name name handle h = do {
     let (r, h) = search_or_insert name h;
     let h = upd_kv r (\<lambda>kv. kv\<lparr>kv_value := handle\<rparr>) h;
     if kv_queue (kv_at (ha_map h) r) \<noteq> None then do {
       (h, out) \<leftarrow> dispatch_name_queue r h;
       _ \<leftarrow> release_queue (kv_queue (kv_at (ha_map h) r));
       Some (upd_kv r (\<lambda>kv. kv\<lparr>kv_queue := None\<rparr>) h, out)
     }
     else Some (h, [])
   }"

text \<open>The result 1 keeps the message from being freed.\<close>

definition remote_send_handle ::
  "u32 \<Rightarrow> u32 \<Rightarrow> nat \<Rightarrow> int \<Rightarrow> bytes \<Rightarrow> harbor \<Rightarrow> (int \<times> harbor \<times> service_call list) option" where
  "remote_send_handle source destination type session msg h =
     (let harbor_id = unat (drop_bit HANDLE_REMOTE_SHIFT destination) in
      if int harbor_id = ha_id h then
        Some (1, h, [Send source destination (of_nat type OR PTYPE_TAG_DONTCOPY) session msg])
      else
        let s = ha_s h harbor_id;
            header = \<lparr>rh_source = source,
                      rh_destination = push_bit HANDLE_REMOTE_SHIFT (of_nat type) OR (destination AND HANDLE_MASK),
                      rh_session = word_of_int session\<rparr>
        in
        if sl_fd s = 0 \<or> sl_status s = STATUS_HANDSHAKE then
          if sl_status s = STATUS_DOWN then
            Some (0, h, [SendNull destination source (of_nat PTYPE_ERROR) 0,
                         Log (''Drop message to harbor '' @ fmt_d (int harbor_id) @ '' from '' @ fmt_x source @ '' to '' @
                              fmt_x destination @ '' (session = '' @ fmt_d session @ '', msgsz = '' @ fmt_d (int (length msg)) @ '')'')])
          else do {
            queue \<leftarrow> push_queue_msg \<lparr>hm_header = header, hm_buffer = msg\<rparr>
              (case sl_queue s of None \<Rightarrow> new_queue | Some q \<Rightarrow> q);
            Some (1, upd_slave harbor_id (\<lambda>s. s\<lparr>sl_queue := Some queue\<rparr>) h, [])
          }
        else Some (0, h, send_remote (sl_fd s) msg header))"

definition remote_send_name ::
  "u32 \<Rightarrow> bytes \<Rightarrow> nat \<Rightarrow> int \<Rightarrow> bytes \<Rightarrow> harbor \<Rightarrow> (int \<times> harbor \<times> service_call list) option" where
  "remote_send_name source name type session msg h =
     (let (r, h) = search_or_insert name h; node = kv_at (ha_map h) r in
      if kv_value node = 0 then do {
        queue \<leftarrow> push_queue_msg
          \<lparr>hm_header = \<lparr>rh_source = source, rh_destination = push_bit HANDLE_REMOTE_SHIFT (of_nat type),
                       rh_session = word_of_int session\<rparr>, hm_buffer = msg\<rparr>
          (case kv_queue node of None \<Rightarrow> new_queue | Some q \<Rightarrow> q);
        Some (1, upd_kv r (\<lambda>kv. kv\<lparr>kv_queue := Some queue\<rparr>) h,
          [Send 0 (ha_slave h) (of_nat PTYPE_TEXT) 0
             (cstr ''Q '' @ takeWhile (\<lambda>c. c \<noteq> 0) (take GLOBALNAME_LENGTH name))])
      }
      else remote_send_handle source (kv_value node) type session msg h)"

section \<open>Commands\<close>

definition handshake :: "nat \<Rightarrow> harbor \<Rightarrow> service_call list" where
  "handshake hid h = [SocketSend (sl_fd (ha_s h hid)) [word_of_int (ha_id h)]]"

text \<open>\<open>sscanf (buffer, "%d %d", &fd, &id)\<close>, with 0 for a number that is missing.\<close>

definition scan_pair :: "string \<Rightarrow> int \<times> int" where
  "scan_pair s =
     (case scan_int s of
        None \<Rightarrow> (0, 0)
      | Some (fd, s) \<Rightarrow> (fd, case scan_int s of None \<Rightarrow> 0 | Some (hid, _) \<Rightarrow> hid))"

definition harbor_connect :: "bool \<Rightarrow> int \<Rightarrow> nat \<Rightarrow> harbor \<Rightarrow> (harbor \<times> service_call list) option" where
  "harbor_connect active fd hid h = do {
     let h = upd_slave hid (\<lambda>s. s\<lparr>sl_fd := fd\<rparr>) h;
     let out = Start fd # handshake hid h;
     if active then Some (upd_slave hid (\<lambda>s. s\<lparr>sl_status := STATUS_HANDSHAKE\<rparr>) h, out)
     else do {
       (h, out') \<leftarrow> dispatch_queue hid (upd_slave hid (\<lambda>s. s\<lparr>sl_status := STATUS_HEADER\<rparr>) h);
       Some (h, out @ out')
     }
   }"

definition harbor_command :: "u32 \<Rightarrow> bytes \<Rightarrow> harbor \<Rightarrow> (harbor \<times> service_call list) option" where
  "harbor_command source msg h =
     (let s = int (length msg) - 2; name = drop 2 msg in
      case msg of
        [] \<Rightarrow> None
      | c # _ \<Rightarrow>
          if c = of_char CHR ''N'' then
            if s \<le> 0 \<or> s \<ge> int GLOBALNAME_LENGTH then Some (h, [Log (''Invalid global name '' @ str_at msg 2)])
            else update_name (name @ replicate (GLOBALNAME_LENGTH - length name) 0) source h
          else if c = of_char CHR ''S'' \<or> c = of_char CHR ''A'' then
            if s < 0 then None
            else
              let (fd, hid) = scan_pair (str_at (name @ [0]) 0) in
              if fd = 0 \<or> hid \<le> 0 \<or> hid \<ge> int REMOTE_MAX then
                Some (h, [Log (''Invalid command '' @ char_of (unat c) # '' '' @ str_at (name @ [0]) 0)])
              else if sl_fd (ha_s h (nat hid)) \<noteq> 0 then
                Some (h, [Log (''Harbor '' @ fmt_d hid @ '' alreay exist'')])
              else harbor_connect (c = of_char CHR ''S'') fd (nat hid) h
          else Some (h, [Log (''Unknown command '' @ str_at msg 0)]))"

section \<open>The handler\<close>

datatype harbor_message = Sock socket_message | Command bytes | Out remote_message | Unknown nat

fun body :: "payload \<Rightarrow> bytes option" where
  "body Null = Some []"
| "body (Data b) = Some b"
| "body (Socket_message _) = None"
| "body (Remote _) = None"

definition socket_event :: "(u32 \<Rightarrow> bool) \<Rightarrow> socket_message \<Rightarrow> harbor \<Rightarrow> (harbor \<times> service_call list) option" where
  "socket_event alive m h =
     (if sm_type m = SKYNET_SOCKET_TYPE_DATA then push_socket_data alive m h
      else if sm_type m = SKYNET_SOCKET_TYPE_ERROR \<or> sm_type m = SKYNET_SOCKET_TYPE_CLOSE then
        (let hid = harbor_id h (sm_id m) in
         Some (h, if hid \<noteq> 0 then report_harbor_down hid h
                  else [Log (''Unkown fd ('' @ fmt_d (sm_id m) @ '') closed'')]))
      else if sm_type m = SKYNET_SOCKET_TYPE_CONNECT then Some (h, [])
      else if sm_type m = SKYNET_SOCKET_TYPE_WARNING then
        (let hid = harbor_id h (sm_id m) in
         Some (h, if hid \<noteq> 0 then [Log (''message havn't send to Harbor ('' @ fmt_d (int hid) @ '') reach '' @
                                       fmt_d (sm_ud m) @ '' K'')] else []))
      else Some (h, [Log (''recv invalid socket message type '' @ fmt_d (int PTYPE_SOCKET))]))"

definition mainloop ::
  "(u32 \<Rightarrow> bool) \<Rightarrow> harbor_message \<Rightarrow> int \<Rightarrow> u32 \<Rightarrow> harbor \<Rightarrow> (harbor \<times> service_call list) option" where
  "mainloop alive m session source h =
     (case m of
        Sock sm \<Rightarrow> socket_event alive sm h
      | Command msg \<Rightarrow> harbor_command source msg h
      | Out rmsg \<Rightarrow> do {
          msg \<leftarrow> body (rm_message rmsg);
          (_, h, out) \<leftarrow>
            (if rn_handle (rm_destination rmsg) = 0 then
               remote_send_name source (rn_name (rm_destination rmsg)) (rm_type rmsg) session msg h
             else remote_send_handle source (rn_handle (rm_destination rmsg)) (rm_type rmsg) session msg h);
          Some (h, out)
        }
      | Unknown type \<Rightarrow>
          Some (h, Log (''recv invalid message from '' @ fmt_x source @ '',  type = '' @ fmt_d (int type)) #
                   (if session \<noteq> 0 \<and> type \<noteq> PTYPE_ERROR then [SendNull 0 source (of_nat PTYPE_ERROR) session] else [])))"

definition harbor_init :: "string \<Rightarrow> harbor \<Rightarrow> int \<times> harbor \<times> service_call list" where
  "harbor_init args h =
     (let (harbor_id, rest) = (case scan_int args of None \<Rightarrow> (0, []) | Some v \<Rightarrow> v);
          slave = ucast (strtoul 10 rest)
      in if slave = 0 then (1, h, [])
         else (0, h\<lparr>ha_id := harbor_id, ha_slave := slave\<rparr>, [Callback, HarborStart]))"


section \<open>The queues\<close>

definition hq_contents :: "harbor_msg_queue \<Rightarrow> harbor_msg list" where
  "hq_contents q = pending (hq_data q) (hq_head q) (hq_tail q) (hq_size q)"

definition hq_wf :: "harbor_msg_queue \<Rightarrow> bool" where
  "hq_wf q \<longleftrightarrow> ring_ok (hq_data q) (hq_head q) (hq_tail q) (hq_size q)"

lemma new_queue_ok: "hq_wf new_queue" "hq_contents new_queue = []"
  by (simp_all add: hq_wf_def hq_contents_def new_queue_def DEFAULT_QUEUE_SIZE_def ring_new)

lemma hq_push_room:
  assumes "hq_wf q" "Suc (hq_tail q) mod hq_size q \<noteq> hq_head q"
  shows "\<exists>q'. push_queue_msg m q = Some q' \<and> hq_wf q' \<and> hq_contents q' = hq_contents q @ [m]"
  using assms ring_store [of "hq_data q" "hq_head q" "hq_tail q" "hq_size q" m]
  by (auto simp: push_queue_msg_def hq_wf_def hq_contents_def arr_write_def ring_ok_def)

text \<open>The queue \<open>push_queue_msg\<close> makes of a full one.\<close>

lemma hq_push_full:
  assumes "hq_wf q" "Suc (hq_tail q) mod hq_size q = hq_head q"
  shows "\<exists>q'. hq_wf q' \<and> hq_contents q' = hq_contents q \<and> Suc (hq_tail q') mod hq_size q' \<noteq> hq_head q' \<and>
    push_queue_msg m q = push_queue_msg m q'"
proof -
  let ?n = "hq_size q"
  have ok: "ring_ok (hq_data q) (hq_head q) (hq_tail q) ?n" "0 < ?n" "length (hq_data q) = ?n"
    using assms(1) by (auto simp: hq_wf_def ring_ok_def)
  have l: "ring_len (hq_head q) (hq_tail q) ?n = ?n - 1"
    using ring_len_full [of "hq_head q" ?n "hq_tail q"] assms(2) ok(1) by (auto simp: ring_ok_def)
  define q' where "q' = q\<lparr>hq_data := ring (hq_data q) (hq_head q) (?n - 1) @ replicate (?n * 2 - (?n - 1)) None,
    hq_head := 0, hq_tail := ?n - 1, hq_size := ?n * 2\<rparr>"
  have "None \<notin> set (ring (hq_data q) (hq_head q) (?n - 1))" using ok(1) l by (simp add: ring_ok_def)
  moreover have "?n - 1 < ?n * 2" using ok(2) by linarith
  ultimately have "hq_wf q'" "hq_contents q' = hq_contents q"
    using l ring_move [of "hq_data q" "hq_head q" "?n - 1" "?n * 2"] by (simp_all add: q'_def hq_wf_def hq_contents_def pending_def)
  moreover have "?n * 2 - (?n - 1) = ?n + 1" "Suc (?n - 1) = ?n" using ok(2) by linarith+
  moreover have "map (\<lambda>i. arr_read (hq_data q) ((i + hq_head q) mod ?n)) [0..<?n - 1] = ring (hq_data q) (hq_head q) (?n - 1)"
    using ring_read [of "hq_data q" "hq_head q" "?n - 1"] ok by (force simp: add.commute)
  ultimately show ?thesis
    using assms(2) ok(2) by (intro exI [of _ q']) (simp add: push_queue_msg_def q'_def)
qed

lemma hq_push_ok:
  assumes "hq_wf q"
  shows "\<exists>q'. push_queue_msg m q = Some q' \<and> hq_wf q' \<and> hq_contents q' = hq_contents q @ [m]"
  using hq_push_room [OF assms, of m] hq_push_full [OF assms, of m] hq_push_room by metis

lemma hq_pop_ok:
  assumes "hq_wf q"
  shows "hq_contents q = [] \<Longrightarrow> pop_queue q = Some (None, q)"
    "hq_contents q = m # ms \<Longrightarrow> \<exists>q'. pop_queue q = Some (Some m, q') \<and> hq_wf q' \<and> hq_contents q' = ms"
proof -
  show "pop_queue q = Some (None, q)" if "hq_contents q = []"
    using that assms by (simp add: pop_queue_def hq_contents_def hq_wf_def pending_empty_iff)
  assume c: "hq_contents q = m # ms"
  note r = ring_take [OF assms [unfolded hq_wf_def] c [unfolded hq_contents_def]]
  have "hq_head q < length (hq_data q)" using assms by (simp add: hq_wf_def ring_ok_def)
  then show "\<exists>q'. pop_queue q = Some (Some m, q') \<and> hq_wf q' \<and> hq_contents q' = ms"
    using r by (simp add: pop_queue_def arr_read_def hq_wf_def hq_contents_def)
qed

interpretation harbor_queue: fifo push_queue_msg pop_queue hq_contents hq_wf
  by unfold_locales (use hq_push_ok hq_pop_ok in \<open>fastforce+\<close>)

lemma drain_queue: "hq_wf q \<Longrightarrow> \<exists>q'. drain pop_queue q = Some (hq_contents q, q') \<and> hq_wf q' \<and> hq_contents q' = []"
  by (rule harbor_queue.drain_all)

lemma release_queue_ok: "(\<And>q. queue = Some q \<Longrightarrow> hq_wf q) \<Longrightarrow> \<exists>ms. release_queue queue = Some ms"
  using drain_queue by (cases queue) (fastforce simp: release_queue_def)+

section \<open>Frames between harbors\<close>

lemma to_bigendian_le32: "to_bigendian w = rev (le32 w)"
proof -
  have "(ucast (x AND 0xff) :: u8) = ucast x" for x :: u32
  proof -
    have "x AND 0xff = take_bit 8 x" by (simp add: take_bit_eq_mask mask_eq_exp_minus_1)
    then show ?thesis by (simp only:) (rule bit_word_eqI, auto simp: bit_simps)
  qed
  then show ?thesis by (simp add: to_bigendian_def le32_def)
qed

lemma to_bigendian_be_bytes: "to_bigendian (of_nat n) = be_bytes 4 n"
proof -
  have b: "ucast (drop_bit k (of_nat n :: u32)) = (of_nat (n div 2 ^ k) :: u8)" if "k \<le> 24" for k
    by (rule bit_word_eqI) (use that in \<open>auto simp: bit_simps simp flip: drop_bit_eq_div\<close>)
  have "be_bytes (Suc (Suc (Suc (Suc 0)))) n = [of_nat (n div 2 ^ 24), of_nat (n div 2 ^ 16), of_nat (n div 2 ^ 8), of_nat n]"
    by (simp add: div_mult2_eq [symmetric])
  then have "be_bytes 4 n = [of_nat (n div 2 ^ 24), of_nat (n div 2 ^ 16), of_nat (n div 2 ^ 8), of_nat n]"
    by (simp only: numeral_eq_Suc pred_numeral_simps BitM.simps One_nat_def)
  then show ?thesis
    using b [of 0] b [of 8] b [of 16] b [of 24] by (simp add: to_bigendian_le32 le32_def)
qed

definition harbor_frame :: "harbor_msg \<Rightarrow> bytes" where
  "harbor_frame m = hm_buffer m @ header_to_message (hm_header m)"

lemma length_header [simp]: "length (header_to_message c) = 12"
  by (simp add: header_to_message_def to_bigendian_def)

lemma send_remote_frame:
  "length (hm_buffer m) + 12 \<le> 0xffffffff \<Longrightarrow>
    send_remote fd (hm_buffer m) (hm_header m) = [SocketSend fd (frame 4 (harbor_frame m))]"
  using to_bigendian_be_bytes [of "length (hm_buffer m) + 12"] by (simp add: send_remote_def frame_def harbor_frame_def)

lemma from_to_bigendian: "from_bigendian (xs @ to_bigendian w @ ys) (length xs) = w"
proof -
  have "from_bigendian (xs @ to_bigendian w @ ys) (length xs) =
      of_le32 (ucast w) (ucast (drop_bit 8 w)) (ucast (drop_bit 16 w)) (ucast (drop_bit 24 w))"
    by (simp add: from_bigendian_def to_bigendian_le32 le32_def nth_append of_le32_def or.assoc or.commute or.left_commute)
  then show ?thesis by (simp only: of_le32_le32)
qed

lemma header_round_trip [simp]: "message_to_header (header_to_message c) = c"
proof -
  let ?s = "to_bigendian (rh_source c)" and ?d = "to_bigendian (rh_destination c)" and ?e = "to_bigendian (rh_session c)"
  have "length ?s = 4" "length (?s @ ?d) = 8" by (simp_all add: to_bigendian_def)
  then have "from_bigendian (header_to_message c) 0 = rh_source c" "from_bigendian (header_to_message c) 4 = rh_destination c"
    "from_bigendian (header_to_message c) 8 = rh_session c"
    using from_to_bigendian [of "[]" "rh_source c" "?d @ ?e"] from_to_bigendian [of ?s "rh_destination c" ?e]
      from_to_bigendian [of "?s @ ?d" "rh_session c" "[]"]
    by (simp_all add: header_to_message_def)
  then show ?thesis by (simp add: message_to_header_def)
qed


section \<open>Receiving a stream\<close>

text \<open>
  \<open>receiving p s\<close>: the connection of slave \<open>s\<close> is up and it holds \<open>p\<close>, the part of a frame. A stream is
  acceptable when every frame has a header and is below 16M.
\<close>

definition receiving :: "bytes \<Rightarrow> slave \<Rightarrow> bool" where
  "receiving p s \<longleftrightarrow> sl_fd s \<noteq> 0 \<and> sl_queue s = None \<and> length (sl_size s) = 4 \<and>
     (sl_status s = STATUS_HEADER \<and> sl_read s = length p \<and> length p < 4 \<and> take (length p) (sl_size s) = map Some p \<or>
      sl_status s = STATUS_CONTENT \<and> 4 \<le> length p \<and> sl_length s = be (take 4 p) \<and>
        sl_read s = length p - 4 \<and> sl_read s < sl_length s \<and> length (sl_recv_buffer s) = sl_length s \<and>
        take (sl_read s) (sl_recv_buffer s) = map Some (drop 4 p))"

definition stream_ok :: "bytes \<Rightarrow> bool" where
  "stream_ok x \<longleftrightarrow> sizes_ok (2 ^ 24) 4 x \<and> (\<forall>m \<in> set (fst (frames 4 x)). HEADER_COOKIE_LENGTH \<le> length m)"

lemma stream_ok_append: "stream_ok (x @ t) \<Longrightarrow> stream_ok x \<and> stream_ok (snd (frames 4 x) @ t)"
  using sizes_ok_append [of "2 ^ 24" 4 x t] frames_append [of 4 x t] by (auto simp: stream_ok_def)

lemma stream_ok_header:
  assumes "length h = 4" "stream_ok (h @ c)"
  shows "be h < 2 ^ 24" "0 < be h"
proof -
  show "be h < 2 ^ 24" using sizes_ok_header(1) [of h 4 "2 ^ 24" c] assms by (simp add: stream_ok_def)
  show "0 < be h"
  proof (rule ccontr)
    assume "\<not> 0 < be h"
    then show False using frames_header [of h 4 c] assms by (auto simp: stream_ok_def HEADER_COOKIE_LENGTH_def)
  qed
qed

lemma receiving_stable: "receiving p s \<Longrightarrow> frames 4 p = ([], p)"
  by (subst frames.simps) (auto simp: receiving_def)

lemma receiving_start: "receiving [] s \<longleftrightarrow> sl_fd s \<noteq> 0 \<and> sl_queue s = None \<and> length (sl_size s) = 4 \<and>
    sl_status s = STATUS_HEADER \<and> sl_read s = 0"
  by (auto simp: receiving_def)

definition local_calls :: "(u32 \<Rightarrow> bool) \<Rightarrow> harbor \<Rightarrow> bytes \<Rightarrow> service_call list" where
  "local_calls alive h m = the (forward_local_message alive m h)"

lemma forward_local_ok: "HEADER_COOKIE_LENGTH \<le> length m \<Longrightarrow> forward_local_message alive m h = Some (local_calls alive h m)"
  by (simp add: local_calls_def forward_local_message_def Let_def)

lemma forward_local_upd [simp]: "forward_local_message alive m (upd_slave i f h) = forward_local_message alive m h"
  by (simp add: forward_local_message_def upd_slave_def)

lemma upd_slave_simps [simp]:
  "ha_s (upd_slave i f h) i = f (ha_s h i)" "j \<noteq> i \<Longrightarrow> ha_s (upd_slave i f h) j = ha_s h j"
  "upd_slave i f (upd_slave i g h) = upd_slave i (\<lambda>s. f (g s)) h" "ha_id (upd_slave i f h) = ha_id h"
  "ha_slave (upd_slave i f h) = ha_slave h" "ha_map (upd_slave i f h) = ha_map h"
  by (simp_all add: upd_slave_def)

lemma upd_slave_same: "f (ha_s h i) = ha_s h i \<Longrightarrow> upd_slave i f h = h"
  by (simp add: upd_slave_def fun_upd_idem)

lemma those_map_Some [simp]: "those (map Some xs) = Some xs"
  by (induction xs) simp_all

lemma blit_exact:
  assumes "take n dst = map Some a" "n = length a" "n + length src \<le> length dst"
  shows "\<exists>d. blit src n dst = Some d \<and> length d = length dst \<and> take (n + length src) d = map Some (a @ src)"
  using assms by (auto simp: blit_def)

lemma four_bytes: "length xs = 4 \<Longrightarrow> \<exists>a b c d. xs = [a, b, c, d]"
  by (auto simp: numeral_eq_Suc length_Suc_conv)

text \<open>One turn of the loop: a header is completed, or a body.\<close>

lemma recv_header:
  assumes "sl_status (ha_s h i) = STATUS_HEADER" "receiving p (ha_s h i)" "length p + length c \<ge> 4"
    "be (take 4 (p @ c)) < 2 ^ 24" "be (take 4 (p @ c)) > 0"
  shows "\<exists>s. receiving (take 4 (p @ c)) s \<and> sl_fd s = sl_fd (ha_s h i) \<and>
    recv_loop alive i c h =
      (if drop (4 - length p) c = [] then Some (upd_slave i (\<lambda>_. s) h, [])
       else recv_loop alive i (drop (4 - length p) c) (upd_slave i (\<lambda>_. s) h))"
proof -
  let ?s = "ha_s h i" and ?n = "4 - length p"
  have p: "length p < 4" "sl_read ?s = length p" "take (length p) (sl_size ?s) = map Some p" "length (sl_size ?s) = 4"
    "sl_fd ?s \<noteq> 0" "sl_queue ?s = None"
    using assms(1,2) by (auto simp: receiving_def)
  let ?hd = "p @ take ?n c"
  have hd: "length ?hd = 4" "take 4 (p @ c) = ?hd" using p assms(3) by auto
  obtain sz where sz: "blit (take ?n c) (length p) (sl_size ?s) = Some sz" "sz = map Some ?hd"
    using blit_exact [OF p(3), of "take ?n c"] p hd(1) by auto
  obtain a b d e where l: "?hd = [a, b, d, e]" using four_bytes [OF hd(1)] by blast
  have be: "be ?hd = unat a * 16777216 + (unat b * 65536 + unat d * 256 + unat e)" unfolding l by (simp add: be_def)
  have "be ?hd < 2 ^ 24" "0 < be ?hd" using assms(4,5) hd(2) by simp_all
  then have a: "unat a = 0" using be by (cases "unat a") simp_all
  define k where "k = be ?hd"
  have len: "unat b * 65536 + unat d * 256 + unat e = k" using be a by (simp add: k_def)
  let ?s' = "?s\<lparr>sl_size := sz, sl_length := k, sl_read := 0, sl_recv_buffer := replicate k None,
      sl_status := STATUS_CONTENT\<rparr>"
  have "receiving ?hd ?s'" using hd(1) p sz(2) \<open>0 < be ?hd\<close> by (simp add: receiving_def k_def)
  moreover have "recv_loop alive i c h =
      (if drop ?n c = [] then Some (upd_slave i (\<lambda>_. ?s') h, []) else recv_loop alive i (drop ?n c) (upd_slave i (\<lambda>_. ?s') h))"
  proof -
    have "sz = [Some a, Some b, Some d, Some e]" unfolding sz(2) l by simp
    moreover have "a = 0" using a by (simp add: unat_eq_zero)
    moreover have "\<not> length c < ?n" using assms(3) by linarith
    moreover have "upd_slave i (\<lambda>s. s\<lparr>sl_size := sz, sl_length := k, sl_read := 0, sl_recv_buffer := replicate k None,
      sl_status := STATUS_CONTENT\<rparr>) h = upd_slave i (\<lambda>_. ?s') h" by (simp add: upd_slave_def)
    ultimately show ?thesis
      using assms(1) p(2) sz(1) len by (subst recv_loop.simps) (simp add: Let_def arr_read_def)
  qed
  ultimately show ?thesis unfolding hd(2) by (intro exI [of _ ?s']) simp
qed

lemma recv_content:
  assumes "sl_status (ha_s h i) = STATUS_CONTENT" "receiving p (ha_s h i)" "length p + length c \<ge> 4 + be (take 4 p)"
    "HEADER_COOKIE_LENGTH \<le> be (take 4 p)"
  shows "\<exists>s. receiving [] s \<and> sl_fd s = sl_fd (ha_s h i) \<and>
    recv_loop alive i c h = (let n = 4 + be (take 4 p) - length p; out = local_calls alive h (take (be (take 4 p)) (drop 4 (p @ c))) in
      if drop n c = [] then Some (upd_slave i (\<lambda>_. s) h, out)
      else do { (h, out') \<leftarrow> recv_loop alive i (drop n c) (upd_slave i (\<lambda>_. s) h); Some (h, out @ out') })"
proof -
  let ?s = "ha_s h i" and ?k = "be (take 4 p)" and ?n = "4 + be (take 4 p) - length p"
  have p: "4 \<le> length p" "sl_length ?s = ?k" "sl_read ?s = length p - 4" "length p - 4 < ?k" "length (sl_recv_buffer ?s) = ?k"
    "take (length p - 4) (sl_recv_buffer ?s) = map Some (drop 4 p)" "sl_fd ?s \<noteq> 0" "sl_queue ?s = None" "length (sl_size ?s) = 4"
    using assms(1,2) by (auto simp: receiving_def)
  have n: "sl_length ?s - sl_read ?s = ?n" using p by simp
  have l: "length p - 4 + length (take ?n c) = ?k" using p assms(3) by simp
  obtain d where d: "blit (take ?n c) (length p - 4) (sl_recv_buffer ?s) = Some d" "d = map Some (drop 4 p @ take ?n c)"
    using blit_exact [OF p(6), of "take ?n c"] p(5) l by auto
  have m: "drop 4 p @ take ?n c = take ?k (drop 4 (p @ c))" using p(1,4) by (simp add: add.commute)
  have lm: "length (take ?k (drop 4 (p @ c))) = ?k" using p(1) assms(3) by simp
  have "\<not> length c < ?n" using assms(3) by linarith
  let ?s' = "?s\<lparr>sl_length := 0, sl_read := 0, sl_recv_buffer := [], sl_status := STATUS_HEADER\<rparr>"
  have u: "upd_slave i (\<lambda>s. s\<lparr>sl_length := 0, sl_read := 0, sl_recv_buffer := [], sl_status := STATUS_HEADER\<rparr>) h =
      upd_slave i (\<lambda>_. ?s') h" by (simp add: upd_slave_def)
  have "receiving [] ?s'" using p by (simp add: receiving_start)
  moreover have "recv_loop alive i c h = (let out = local_calls alive h (take ?k (drop 4 (p @ c))) in
      if drop ?n c = [] then Some (upd_slave i (\<lambda>_. ?s') h, out)
      else do { (h, out') \<leftarrow> recv_loop alive i (drop ?n c) (upd_slave i (\<lambda>_. ?s') h); Some (h, out @ out') })"
    using assms(1) n p(3) d m \<open>\<not> length c < ?n\<close> u forward_local_ok [of "take ?k (drop 4 (p @ c))" alive h] assms(4) lm
    by (subst recv_loop.simps) (simp add: Let_def del: take_append drop_append)
  ultimately show ?thesis by (intro exI [of _ ?s']) (simp add: Let_def)
qed


text \<open>A chunk of an acceptable stream: the calls of the frames it completes, and the rest kept.\<close>

lemma frames_rest_twice: "frames hs (snd (frames hs x)) = ([], snd (frames hs x))"
  using frames_append [of hs x "[]"] by (auto simp: prod_eq_iff)

lemma recv_loop_frames:
  assumes "receiving p (ha_s h i)" "stream_ok (p @ c)"
  shows "\<exists>s. receiving (snd (frames 4 (p @ c))) s \<and> sl_fd s = sl_fd (ha_s h i) \<and>
    recv_loop alive i c h =
      Some (upd_slave i (\<lambda>_. s) h, concat (map (local_calls alive h) (fst (frames 4 (p @ c)))))"
  using assms
proof (induction "length c" arbitrary: c p h rule: less_induct)
  case less
  let ?s = "ha_s h i"
  have status: "sl_status ?s = STATUS_HEADER \<and> length p < 4 \<or> sl_status ?s = STATUS_CONTENT \<and> 4 \<le> length p"
    using less.prems(1) by (auto simp: receiving_def)
  then show ?case
  proof (elim disjE conjE)
    assume st: "sl_status ?s = STATUS_HEADER" "length p < 4"
    show ?thesis
    proof (cases "length p + length c < 4")
      case True
      have p: "sl_read ?s = length p" "take (length p) (sl_size ?s) = map Some p" "length (sl_size ?s) = 4"
        "sl_fd ?s \<noteq> 0" "sl_queue ?s = None" using less.prems(1) st by (auto simp: receiving_def)
      obtain sz where sz: "blit c (length p) (sl_size ?s) = Some sz" "length sz = 4" "take (length p + length c) sz = map Some (p @ c)"
        using blit_exact [OF p(2), of c] True p(3) by auto
      let ?s' = "?s\<lparr>sl_size := sz, sl_read := length p + length c\<rparr>"
      have "length c < 4 - length p" using True by linarith
      have "recv_loop alive i c h = Some (upd_slave i (\<lambda>_. ?s') h, [])"
        using st p(1) sz(1) \<open>length c < 4 - length p\<close> by (subst recv_loop.simps) (simp add: Let_def upd_slave_def)
      moreover have "receiving (p @ c) ?s'" using p sz st True by (simp add: receiving_def)
      moreover have "frames 4 (p @ c) = ([], p @ c)" using True by (simp add: frames_short)
      ultimately show ?thesis by (intro exI [of _ ?s']) simp
    next
      case False
      define hd where "hd = take 4 (p @ c)"
      define c' where "c' = drop (4 - length p) c"
      have split: "p @ c = hd @ c'" "length hd = 4" using st(2) False by (auto simp: hd_def c'_def)
      have "be hd < 2 ^ 24" "0 < be hd" using stream_ok_header [of hd c'] less.prems(2) split by metis+
      then obtain s where s: "receiving hd s" "sl_fd s = sl_fd ?s" "recv_loop alive i c h =
          (if c' = [] then Some (upd_slave i (\<lambda>_. s) h, []) else recv_loop alive i c' (upd_slave i (\<lambda>_. s) h))"
        using recv_header [OF st(1) less.prems(1), of c alive] False by (auto simp: not_less hd_def c'_def)
      show ?thesis
      proof (cases "c' = []")
        case True
        then have "p @ c = hd" using split(1) by simp
        then show ?thesis using s True receiving_stable [OF s(1)] by (intro exI [of _ s]) simp
      next
        case False
        have "length c' < length c" using st(2) False by (cases c) (simp_all add: c'_def)
        moreover have "stream_ok (hd @ c')" using less.prems(2) unfolding split(1) .
        moreover have "local_calls alive (upd_slave i (\<lambda>_. s) h) = local_calls alive h" by (simp add: fun_eq_iff local_calls_def)
        ultimately show ?thesis
          using less.hyps [of c' hd "upd_slave i (\<lambda>_. s) h"] s False unfolding split(1) by simp
      qed
    qed
  next
    assume st: "sl_status ?s = STATUS_CONTENT" "4 \<le> length p"
    let ?k = "be (take 4 p)"
    have p: "sl_length ?s = ?k" "sl_read ?s = length p - 4" "length p - 4 < ?k" "length (sl_recv_buffer ?s) = ?k"
      "take (length p - 4) (sl_recv_buffer ?s) = map Some (drop 4 p)" "sl_fd ?s \<noteq> 0" "sl_queue ?s = None" "length (sl_size ?s) = 4"
      using less.prems(1) st by (auto simp: receiving_def)
    show ?thesis
    proof (cases "length p + length c < 4 + ?k")
      case True
      have "length p - 4 + length c \<le> ?k" using True st(2) by linarith
      then obtain d where d: "blit c (length p - 4) (sl_recv_buffer ?s) = Some d" "length d = ?k"
        "take (length p - 4 + length c) d = map Some (drop 4 p @ c)"
        using blit_exact [OF p(5), of c] p(4) st(2) by auto
      let ?s' = "?s\<lparr>sl_recv_buffer := d, sl_read := length p - 4 + length c\<rparr>"
      have "length c < sl_length ?s - sl_read ?s" using True p st(2) by simp
      then have "recv_loop alive i c h = Some (upd_slave i (\<lambda>_. ?s') h, [])"
        using st d(1) p(2) by (subst recv_loop.simps) (simp add: Let_def upd_slave_def)
      moreover have "receiving (p @ c) ?s'" using p d st True by (simp add: receiving_def)
      moreover have "frames 4 (p @ c) = ([], p @ c)" using True st(2) by (subst frames.simps) simp
      ultimately show ?thesis by (intro exI [of _ ?s']) simp
    next
      case False
      let ?n = "4 + ?k - length p"
      define m where "m = drop 4 p @ take ?n c"
      define c' where "c' = drop ?n c"
      have x: "p @ take ?n c = take 4 p @ m" by (metis m_def append.assoc append_take_drop_id)
      have m: "length m = ?k" "take ?k (drop 4 (p @ c)) = m" using st(2) p(3) False by (simp_all add: m_def add.commute)
      have pc: "p @ c = (take 4 p @ m) @ c'" using x by (simp add: c'_def) (metis append.assoc append_take_drop_id)
      have fx: "frames 4 (take 4 p @ m) = ([m], [])"
        using frames_header [of "take 4 p" 4 m] m st(2) by (simp add: frames_short)
      have ok: "stream_ok (take 4 p @ m)" "stream_ok c'"
        using stream_ok_append [of "take 4 p @ m" c'] less.prems(2) pc fx by auto
      have f: "frames 4 (p @ c) = (m # fst (frames 4 c'), snd (frames 4 c'))"
        using frames_append [of 4 "take 4 p @ m" c'] fx pc by simp
      have "HEADER_COOKIE_LENGTH \<le> ?k" using ok(1) fx m(1) by (simp add: stream_ok_def)
      moreover have "4 + ?k \<le> length p + length c" using False by simp
      ultimately have r: "\<exists>s. receiving [] s \<and> sl_fd s = sl_fd ?s \<and> recv_loop alive i c h =
          (if c' = [] then Some (upd_slave i (\<lambda>_. s) h, local_calls alive h m)
           else do { (h', out') \<leftarrow> recv_loop alive i c' (upd_slave i (\<lambda>_. s) h); Some (h', local_calls alive h m @ out') })"
        using recv_content [OF st(1) less.prems(1), of c alive] by (simp only: Let_def m(2) c'_def True_implies_equals)
      obtain s where s: "receiving [] s" "sl_fd s = sl_fd ?s" "recv_loop alive i c h =
          (if c' = [] then Some (upd_slave i (\<lambda>_. s) h, local_calls alive h m)
           else do { (h', out') \<leftarrow> recv_loop alive i c' (upd_slave i (\<lambda>_. s) h); Some (h', local_calls alive h m @ out') })"
        using r by (elim exE conjE)
      show ?thesis
      proof (cases "c' = []")
        case True
        then show ?thesis using s f by (intro exI [of _ s]) (simp add: frames_short)
      next
        case nonempty: False
        have "length c' < length c" using p(3) st(2) nonempty by (cases c) (auto simp: c'_def)
        moreover have "local_calls alive (upd_slave i (\<lambda>_. t) h) = local_calls alive h" for t
          by (simp add: fun_eq_iff local_calls_def)
        ultimately show ?thesis
          using less.hyps [of c' "[]" "upd_slave i (\<lambda>_. s) h"] s f nonempty ok(2) by auto
      qed
    qed
  qed
qed


definition harbor_feed :: "(u32 \<Rightarrow> bool) \<Rightarrow> int \<Rightarrow> harbor \<Rightarrow> bytes \<Rightarrow> (harbor \<times> service_call list) option" where
  "harbor_feed alive fd h c = mainloop alive (Sock (data_message fd c)) 0 0 h"

definition slave_of :: "harbor \<Rightarrow> int \<Rightarrow> nat option" where
  "slave_of h fd = find (\<lambda>i. sl_fd (ha_s h i) = fd) [1..<REMOTE_MAX]"

lemma harbor_feed_eq:
  "harbor_feed alive fd h c = (case slave_of h fd of
     None \<Rightarrow> Some (h, [Log (''Invalid socket fd ('' @ fmt_d fd @ '') data'')]) | Some i \<Rightarrow> recv_loop alive i c h)"
  by (simp add: harbor_feed_def mainloop_def socket_event_def push_socket_data_def data_message_def slave_of_def Let_def
      split: option.split)

lemma slave_of_upd:
  assumes "sl_fd s = sl_fd (ha_s h i)"
  shows "slave_of (upd_slave i (\<lambda>_. s) h) fd = slave_of h fd"
proof -
  have "(\<lambda>j. sl_fd (ha_s (upd_slave i (\<lambda>_. s) h) j) = fd) = (\<lambda>j. sl_fd (ha_s h j) = fd)"
    using assms by (auto simp: fun_eq_iff upd_slave_def)
  then show ?thesis by (simp add: slave_of_def)
qed

text \<open>The state of \<open>h\<close> while its slave \<open>i\<close>, the one with socket \<open>fd\<close>, waits for the rest of \<open>p\<close>.\<close>

definition harbor_holds :: "harbor \<Rightarrow> nat \<Rightarrow> int \<Rightarrow> harbor \<Rightarrow> bytes \<Rightarrow> bool" where
  "harbor_holds h i fd h' p \<longleftrightarrow>
     (\<exists>s. h' = upd_slave i (\<lambda>_. s) h \<and> receiving p s \<and> slave_of h' fd = Some i)"

lemma local_calls_upd [simp]: "local_calls alive (upd_slave i f h) = local_calls alive h"
  by (simp add: fun_eq_iff local_calls_def)

interpretation harbor_stream: framed_stream 4 "harbor_feed alive fd" "harbor_holds h i fd" stream_ok "local_calls alive h"
  for alive h i fd
proof unfold_locales
  fix x t
  assume "stream_ok (x @ t)"
  then show "stream_ok x \<and> stream_ok (snd (frames 4 x) @ t)" by (rule stream_ok_append)
next
  fix h' p c
  assume "harbor_holds h i fd h' p" and ok: "stream_ok (p @ c)"
  then obtain s where s: "h' = upd_slave i (\<lambda>_. s) h" "receiving p s" "slave_of h' fd = Some i"
    by (auto simp: harbor_holds_def)
  then have "receiving p (ha_s h' i)" by simp
  then obtain s' where s': "receiving (snd (frames 4 (p @ c))) s'" "sl_fd s' = sl_fd (ha_s h' i)"
    "recv_loop alive i c h' = Some (upd_slave i (\<lambda>_. s') h', concat (map (local_calls alive h') (fst (frames 4 (p @ c)))))"
    using recv_loop_frames [OF _ ok, of h' i alive] by blast
  have "slave_of (upd_slave i (\<lambda>_. s') h') fd = Some i" using slave_of_upd [OF s'(2)] s(3) by simp
  then have "harbor_holds h i fd (upd_slave i (\<lambda>_. s') h') (snd (frames 4 (p @ c)))"
    using s(1) s'(1) by (auto simp: harbor_holds_def)
  moreover have "harbor_feed alive fd h' c =
      Some (upd_slave i (\<lambda>_. s') h', concat (map (local_calls alive h) (fst (frames 4 (p @ c)))))"
    using s s'(3) by (simp add: harbor_feed_eq)
  ultimately show "\<exists>s'. harbor_feed alive fd h' c =
        Some (s', concat (map (local_calls alive h) (fst (frames 4 (p @ c))))) \<and>
      harbor_holds h i fd s' (snd (frames 4 (p @ c)))" by blast
qed

section \<open>What a slave keeps\<close>

text \<open>
  \<open>slave_wf\<close> is what every operation keeps of a slave. A slave that is down keeps its socket number:
  nothing resets it.
\<close>

definition slave_wf :: "slave \<Rightarrow> bool" where
  "slave_wf s \<longleftrightarrow> (\<forall>q. sl_queue s = Some q \<longrightarrow> hq_wf q) \<and> (sl_status s = STATUS_WAIT \<longleftrightarrow> sl_fd s = 0) \<and>
     (sl_status s \<in> {STATUS_HEADER, STATUS_CONTENT, STATUS_DOWN} \<longrightarrow> sl_queue s = None) \<and>
     (sl_status s \<in> {STATUS_WAIT, STATUS_HANDSHAKE} \<longrightarrow> sl_read s = 0 \<and> length (sl_size s) = 4)"

definition fits :: "harbor_msg \<Rightarrow> bool" where
  "fits m \<longleftrightarrow> length (hm_buffer m) + 12 \<le> 0xffffffff"

definition waiting_msgs :: "slave \<Rightarrow> harbor_msg list" where
  "waiting_msgs s = (case sl_queue s of None \<Rightarrow> [] | Some q \<Rightarrow> hq_contents q)"

definition frames_of :: "harbor_msg list \<Rightarrow> bytes" where
  "frames_of ms = concat (map (\<lambda>m. frame 4 (harbor_frame m)) ms)"

fun written :: "service_call \<Rightarrow> bytes" where
  "written (SocketSend fd b) = b"
| "written _ = []"

definition sent_bytes :: "service_call list \<Rightarrow> bytes" where
  "sent_bytes out = concat (map written out)"

lemma sent_bytes_simps [simp]:
  "sent_bytes [] = []" "sent_bytes (c # out) = written c @ sent_bytes out" "sent_bytes (a @ b) = sent_bytes a @ sent_bytes b"
  by (simp_all add: sent_bytes_def)

lemma frames_of_simps [simp]:
  "frames_of [] = []" "frames_of (a @ b) = frames_of a @ frames_of b"
  by (simp_all add: frames_of_def)

lemma local_calls_no_bytes:
  "forward_local_message alive m h = Some out \<Longrightarrow> sent_bytes out = []"
  by (auto simp: forward_local_message_def Let_def split: if_splits)

lemma send_all_bytes:
  "\<forall>m \<in> set ms. fits m \<Longrightarrow> sent_bytes (concat (map (\<lambda>m. send_remote fd (hm_buffer m) (hm_header m)) ms)) = frames_of ms"
  by (induction ms) (auto simp: frames_of_def fits_def send_remote_frame)

lemma dispatch_queue_ok:
  assumes "\<And>q. sl_queue (ha_s h i) = Some q \<Longrightarrow> hq_wf q" "sl_fd (ha_s h i) \<noteq> 0"
  shows "\<exists>out. dispatch_queue i h = Some (upd_slave i (\<lambda>s. s\<lparr>sl_queue := None\<rparr>) h, out) \<and>
    ((\<forall>m \<in> set (waiting_msgs (ha_s h i)). fits m) \<longrightarrow> sent_bytes out = frames_of (waiting_msgs (ha_s h i)))"
proof (cases "sl_queue (ha_s h i)")
  case None
  moreover have "upd_slave i (\<lambda>s. s\<lparr>sl_queue := None\<rparr>) h = h" using None by (intro upd_slave_same) simp
  ultimately show ?thesis using assms(2) by (auto simp: dispatch_queue_def waiting_msgs_def)
next
  case (Some q)
  obtain q' where "drain pop_queue q = Some (hq_contents q, q')" "hq_wf q'"
    using drain_queue [of q] assms(1) [OF Some] by blast
  moreover obtain ms where "release_queue (Some q') = Some ms" using release_queue_ok [of "Some q'"] calculation by auto
  ultimately show ?thesis
    using Some assms(2) send_all_bytes [of "hq_contents q"] by (auto simp: dispatch_queue_def waiting_msgs_def Let_def)
qed

lemma close_harbor_ok:
  assumes "\<And>q. sl_queue (ha_s h i) = Some q \<Longrightarrow> hq_wf q"
  shows "\<exists>out. close_harbor i h = Some (upd_slave i (\<lambda>s. s\<lparr>sl_status := STATUS_DOWN, sl_queue := None\<rparr>) h, out) \<and>
    sent_bytes out = []"
  using release_queue_ok [of "sl_queue (ha_s h i)"] assms by (auto simp: close_harbor_def Let_def)


text \<open>Everything that a chunk does to the slave it is for, whatever its bytes are.\<close>

definition slave_step :: "nat \<Rightarrow> harbor \<Rightarrow> harbor \<Rightarrow> service_call list \<Rightarrow> bool" where
  "slave_step i h h' out \<longleftrightarrow> (\<exists>s. h' = upd_slave i (\<lambda>_. s) h \<and> slave_wf s \<and> sl_fd s = sl_fd (ha_s h i) \<and>
     (sl_status (ha_s h i) = STATUS_DOWN \<longrightarrow> sl_status s = STATUS_DOWN) \<and>
     (sl_queue s = None \<or> sl_queue s = sl_queue (ha_s h i)) \<and>
     (sl_status s \<noteq> STATUS_DOWN \<and> (\<forall>m \<in> set (waiting_msgs (ha_s h i)). fits m) \<longrightarrow>
        sent_bytes out @ frames_of (waiting_msgs s) = frames_of (waiting_msgs (ha_s h i))))"

lemma slave_step_trans:
  assumes "slave_step i h h1 out" "slave_step i h1 h2 out'"
  shows "slave_step i h h2 (out @ out')"
proof -
  obtain s where s: "h1 = upd_slave i (\<lambda>_. s) h" "sl_fd s = sl_fd (ha_s h i)"
    "sl_status (ha_s h i) = STATUS_DOWN \<longrightarrow> sl_status s = STATUS_DOWN"
    "sl_queue s = None \<or> sl_queue s = sl_queue (ha_s h i)"
    "sl_status s \<noteq> STATUS_DOWN \<and> (\<forall>m \<in> set (waiting_msgs (ha_s h i)). fits m) \<longrightarrow>
        sent_bytes out @ frames_of (waiting_msgs s) = frames_of (waiting_msgs (ha_s h i))"
    using assms(1) by (auto simp: slave_step_def)
  obtain t where t: "h2 = upd_slave i (\<lambda>_. t) h1" "slave_wf t" "sl_fd t = sl_fd s"
    "sl_status s = STATUS_DOWN \<longrightarrow> sl_status t = STATUS_DOWN"
    "sl_queue t = None \<or> sl_queue t = sl_queue s"
    "sl_status t \<noteq> STATUS_DOWN \<and> (\<forall>m \<in> set (waiting_msgs s). fits m) \<longrightarrow>
        sent_bytes out' @ frames_of (waiting_msgs t) = frames_of (waiting_msgs s)"
    using assms(2) by (auto simp: slave_step_def s(1))
  have "set (waiting_msgs s) \<subseteq> set (waiting_msgs (ha_s h i))" using s(4) by (auto simp: waiting_msgs_def)
  then show ?thesis
    using s t unfolding slave_step_def by (intro exI [of _ t]) auto
qed

lemma slave_step_quiet:
  assumes "slave_wf s" "sl_fd s = sl_fd (ha_s h i)" "sl_queue s = sl_queue (ha_s h i)" "sent_bytes out = []"
    "sl_status (ha_s h i) \<noteq> STATUS_DOWN"
  shows "slave_step i h (upd_slave i (\<lambda>_. s) h) out"
  using assms unfolding slave_step_def by (intro exI [of _ s]) (auto simp: waiting_msgs_def)

lemma slave_step_refl: "slave_wf (ha_s h i) \<Longrightarrow> slave_step i h h []"
  unfolding slave_step_def by (intro exI [of _ "ha_s h i"]) (simp add: upd_slave_same)

lemma upd_slave_const: "upd_slave i f h = upd_slave i (\<lambda>_. f (ha_s h i)) h"
  by (simp add: upd_slave_def)

lemma slave_step_close:
  assumes "\<And>q. sl_queue (f (ha_s h i)) = Some q \<Longrightarrow> hq_wf q" "sl_fd (f (ha_s h i)) = sl_fd (ha_s h i)" "sl_fd (ha_s h i) \<noteq> 0"
    "do { (h, out) \<leftarrow> close_harbor i (upd_slave i f h); Some (h, x # out) } = Some r"
  shows "slave_step i h (fst r) (snd r)"
proof -
  let ?s = "(f (ha_s h i))\<lparr>sl_status := STATUS_DOWN, sl_queue := None\<rparr>"
  obtain out where "close_harbor i (upd_slave i f h) =
      Some (upd_slave i (\<lambda>s. s\<lparr>sl_status := STATUS_DOWN, sl_queue := None\<rparr>) (upd_slave i f h), out)"
    using close_harbor_ok [of "upd_slave i f h" i] assms(1) by auto
  then have "r = (upd_slave i (\<lambda>_. ?s) h, x # out)" using assms(4) by (auto simp: upd_slave_def)
  then show ?thesis using assms(2,3) unfolding slave_step_def by (intro exI [of _ ?s]) (simp add: slave_wf_def)
qed

lemma slave_step_dispatch:
  assumes "slave_wf (ha_s h i)" "sl_status (ha_s h i) = STATUS_HANDSHAKE"
    "dispatch_queue i (upd_slave i (\<lambda>s. s\<lparr>sl_status := STATUS_HEADER\<rparr>) h) = Some (h', out)"
  shows "slave_step i h h' out"
proof -
  let ?h = "upd_slave i (\<lambda>s. s\<lparr>sl_status := STATUS_HEADER\<rparr>) h"
  let ?s = "(ha_s h i)\<lparr>sl_status := STATUS_HEADER, sl_queue := None\<rparr>"
  have fd: "sl_fd (ha_s h i) \<noteq> 0" "\<And>q. sl_queue (ha_s h i) = Some q \<Longrightarrow> hq_wf q"
    using assms(1,2) by (auto simp: slave_wf_def)
  have q: "sl_queue (ha_s ?h i) = sl_queue (ha_s h i)" "waiting_msgs (ha_s ?h i) = waiting_msgs (ha_s h i)"
    by (simp_all add: waiting_msgs_def)
  have "h' = upd_slave i (\<lambda>_. ?s) h"
    "(\<forall>m \<in> set (waiting_msgs (ha_s h i)). fits m) \<longrightarrow> sent_bytes out = frames_of (waiting_msgs (ha_s h i))"
    using dispatch_queue_ok [of ?h i] fd assms(3) q by (auto simp: upd_slave_def)
  then show ?thesis using fd(1) assms(2) unfolding slave_step_def
    by (intro exI [of _ ?s]) (simp add: slave_wf_def waiting_msgs_def)
qed

lemma slave_step_receive:
  assumes "slave_wf (ha_s h i)" "sl_status (ha_s h i) \<in> {STATUS_HEADER, STATUS_CONTENT}"
    "sl_status s \<in> {STATUS_HEADER, STATUS_CONTENT}" "sl_queue s = sl_queue (ha_s h i)" "sl_fd s = sl_fd (ha_s h i)"
    "sent_bytes out = []"
  shows "slave_step i h (upd_slave i (\<lambda>_. s) h) out"
  by (rule slave_step_quiet) (use assms in \<open>auto simp: slave_wf_def\<close>)

text \<open>One turn of the loop, \<open>rl\<close> standing for the turns that follow.\<close>

lemma again_step:
  assumes "slave_step i h h1 out" "do { (h2, out2) \<leftarrow> rl c h1; Some (h2, out @ out2) } = Some r"
    "\<And>c h r. rl c h = Some r \<Longrightarrow> slave_wf (ha_s h i) \<longrightarrow> slave_step i h (fst r) (snd r)"
  shows "slave_step i h (fst r) (snd r)"
proof -
  obtain h2 out2 where r: "rl c h1 = Some (h2, out2)" "r = (h2, out @ out2)" using assms(2) by (auto simp: bind_eq_Some_conv)
  have "slave_wf (ha_s h1 i)" using assms(1) by (auto simp: slave_step_def)
  then show ?thesis using slave_step_trans [OF assms(1)] assms(3) [OF r(1)] r(2) by simp
qed


lemma recv_loop_step:
  assumes "recv_loop alive i c h = Some r"
  shows "slave_wf (ha_s h i) \<longrightarrow> slave_step i h (fst r) (snd r)"
proof (rule recv_loop.raw_induct [where P = "\<lambda>alive i c h r. slave_wf (ha_s h i) \<longrightarrow> slave_step i h (fst r) (snd r)", OF _ assms],
    goal_cases)
  case (1 rl alive i c h r)
  let ?s = "ha_s h i"
  note body = 1(2)
  have ih: "\<And>c h r. rl alive i c h = Some r \<Longrightarrow> slave_wf (ha_s h i) \<longrightarrow> slave_step i h (fst r) (snd r)" using 1(1) .
  show ?case
  proof
    assume wf: "slave_wf ?s"
    then have q: "\<And>q. sl_queue ?s = Some q \<Longrightarrow> hq_wf q" by (simp add: slave_wf_def)
    have fd: "sl_status ?s \<noteq> STATUS_WAIT \<Longrightarrow> sl_fd ?s \<noteq> 0" using wf by (auto simp: slave_wf_def)
    have receive: "slave_step i h (upd_slave i f h) out"
      if "sl_status ?s \<in> {STATUS_HEADER, STATUS_CONTENT}" "sl_status (f ?s) \<in> {STATUS_HEADER, STATUS_CONTENT}"
        "sl_queue (f ?s) = sl_queue ?s" "sl_fd (f ?s) = sl_fd ?s" "sent_bytes out = []" for f out
      using slave_step_receive [OF wf that] upd_slave_const [of i f h] by simp
    show "slave_step i h (fst r) (snd r)"
    proof (cases "sl_status ?s")
      case STATUS_HANDSHAKE
      then obtain b c' where c: "c = b # c'" using body by (cases c) auto
      show ?thesis
      proof (cases "unat b = i")
        case False
        with STATUS_HANDSHAKE c body obtain x where "do { (h, out) \<leftarrow> close_harbor i (upd_slave i (\<lambda>s. s) h); Some (h, x # out) } = Some r"
          by (auto simp: upd_slave_same)
        then show ?thesis using slave_step_close [of "\<lambda>s. s"] q fd STATUS_HANDSHAKE by auto
      next
        case True
        with STATUS_HANDSHAKE c body obtain h1 out where
          "dispatch_queue i (upd_slave i (\<lambda>s. s\<lparr>sl_status := STATUS_HEADER\<rparr>) h) = Some (h1, out)"
          "do { (h2, out2) \<leftarrow> rl alive i c' h1; Some (h2, out @ out2) } = Some r"
          by (auto simp: bind_eq_Some_conv)
        then show ?thesis using slave_step_dispatch [OF wf STATUS_HANDSHAKE] ih again_step [where rl = "rl alive i" and h = h and i = i] by blast
      qed
    next
      case STATUS_HEADER
      show ?thesis
      proof (cases "length c < 4 - sl_read ?s")
        case True
        then show ?thesis using body STATUS_HEADER by (auto simp: Let_def bind_eq_Some_conv intro!: receive)
      next
        case False
        let ?c = "drop (4 - sl_read ?s) c"
        obtain sz b0 b1 b2 b3 where sz: "blit (take (4 - sl_read ?s) c) (sl_read ?s) (sl_size ?s) = Some sz"
          "arr_read sz 0 = Some b0" "arr_read sz 1 = Some b1" "arr_read sz 2 = Some b2" "arr_read sz 3 = Some b3"
          using body STATUS_HEADER False by (auto simp: bind_eq_Some_conv Let_def)
        show ?thesis
        proof (cases "b0 = 0")
          case True
          let ?len = "unat b1 * 65536 + unat b2 * 256 + unat b3"
          let ?f = "\<lambda>s. s\<lparr>sl_size := sz, sl_length := ?len, sl_read := 0, sl_recv_buffer := replicate ?len None, sl_status := STATUS_CONTENT\<rparr>"
          have st: "slave_step i h (upd_slave i ?f h) []" using STATUS_HEADER by (intro receive) simp_all
          show ?thesis
          proof (cases "?c = []")
            case True
            then have "r = (upd_slave i ?f h, [])" using body STATUS_HEADER False sz \<open>b0 = 0\<close> by (simp add: Let_def)
            then show ?thesis using st by simp
          next
            case nonempty: False
            then have "rl alive i ?c (upd_slave i ?f h) = Some r"
              using body STATUS_HEADER False sz \<open>b0 = 0\<close> by (simp add: Let_def)
            then have "do { (h2, out2) \<leftarrow> rl alive i ?c (upd_slave i ?f h); Some (h2, [] @ out2) } = Some r" by simp
            then show ?thesis by (rule again_step [OF st]) (rule ih)
          qed
        next
          case big: False
          obtain x where "do { (h, out) \<leftarrow> close_harbor i (upd_slave i (\<lambda>s. s\<lparr>sl_size := sz\<rparr>) h); Some (h, x # out) } = Some r"
            using body STATUS_HEADER False sz big by (simp add: Let_def)
          then show ?thesis using slave_step_close [of "\<lambda>s. s\<lparr>sl_size := sz\<rparr>"] q fd STATUS_HEADER by auto
        qed
      qed
    next
      case STATUS_CONTENT
      let ?n = "sl_length ?s - sl_read ?s"
      let ?f = "\<lambda>s. s\<lparr>sl_length := 0, sl_read := 0, sl_recv_buffer := [], sl_status := STATUS_HEADER\<rparr>"
      show ?thesis
      proof (cases "length c < ?n")
        case True
        then show ?thesis using body STATUS_CONTENT by (auto simp: Let_def bind_eq_Some_conv intro!: receive)
      next
        case False
        obtain rb msg out where rb: "blit (take ?n c) (sl_read ?s) (sl_recv_buffer ?s) = Some rb" "those rb = Some msg"
          "forward_local_message alive msg h = Some out"
          using body STATUS_CONTENT False by (auto simp: bind_eq_Some_conv Let_def)
        have st: "slave_step i h (upd_slave i ?f h) out"
          using STATUS_CONTENT local_calls_no_bytes [OF rb(3)] by (intro receive) simp_all
        show ?thesis
        proof (cases "drop ?n c = []")
          case True
          then have "r = (upd_slave i ?f h, out)" using body STATUS_CONTENT False rb by (simp add: Let_def)
          then show ?thesis using st by simp
        next
          case nonempty: False
          then have "do { (h2, out2) \<leftarrow> rl alive i (drop ?n c) (upd_slave i ?f h); Some (h2, out @ out2) } = Some r"
            using body STATUS_CONTENT False rb by (simp add: Let_def)
          then show ?thesis by (rule again_step [OF st]) (rule ih)
        qed
      qed
    qed (use body slave_step_refl [OF wf] in auto)
  qed
qed


section \<open>The service stays consistent\<close>

definition node_wf :: "keyvalue \<Rightarrow> bool" where
  "node_wf kv \<longleftrightarrow> (\<forall>q. kv_queue kv = Some q \<longrightarrow> hq_wf q)"

definition map_wf :: "hashmap \<Rightarrow> bool" where
  "map_wf hash \<longleftrightarrow> (\<forall>b. \<forall>kv \<in> set (hash b). node_wf kv)"

definition harbor_wf :: "harbor \<Rightarrow> bool" where
  "harbor_wf h \<longleftrightarrow> map_wf (ha_map h) \<and> (\<forall>i. slave_wf (ha_s h i))"

definition ref_ok :: "hashmap \<Rightarrow> kvref \<Rightarrow> bool" where
  "ref_ok hash r \<longleftrightarrow> snd r < length (hash (fst r))"

lemma node_index_Some: "node_index P kvs = Some i \<Longrightarrow> i < length kvs \<and> P (kvs ! i)"
  by (induction kvs arbitrary: i) (auto split: if_splits)

lemma upd_kv_simps [simp]:
  "ha_s (upd_kv r f h) = ha_s h" "ha_id (upd_kv r f h) = ha_id h" "ha_slave (upd_kv r f h) = ha_slave h"
  by (cases r; simp add: upd_kv_def)+

lemma ref_ok_upd [simp]: "ref_ok (ha_map (upd_kv r f h)) r' = ref_ok (ha_map h) r'"
  by (cases r; simp add: upd_kv_def ref_ok_def)

lemma kv_at_upd [simp]: "ref_ok (ha_map h) r \<Longrightarrow> kv_at (ha_map (upd_kv r f h)) r = f (kv_at (ha_map h) r)"
  by (cases r) (simp add: upd_kv_def ref_ok_def kv_at_def)

lemma map_wf_at:
  assumes "map_wf hash" "ref_ok hash r"
  shows "node_wf (kv_at hash r)"
proof -
  have "kv_at hash r \<in> set (hash (fst r))" using assms(2) by (simp add: kv_at_def ref_ok_def split_beta)
  then show ?thesis using assms(1) unfolding map_wf_def by blast
qed

lemma harbor_wf_upd_kv:
  assumes "harbor_wf h" "node_wf (f (kv_at (ha_map h) r))"
  shows "harbor_wf (upd_kv r f h)"
proof -
  have "node_wf kv" if "kv \<in> set ((ha_map h (fst r))[snd r := f (kv_at (ha_map h) r)])" for kv
    using set_update_subset_insert [of "ha_map h (fst r)" "snd r" "f (kv_at (ha_map h) r)"] that assms
    by (auto simp: harbor_wf_def map_wf_def)
  then show ?thesis using assms(1)
    by (cases r) (simp add: harbor_wf_def map_wf_def upd_kv_def kv_at_def)
qed

lemma harbor_wf_upd_slave: "harbor_wf h \<Longrightarrow> slave_wf (f (ha_s h i)) \<Longrightarrow> harbor_wf (upd_slave i f h)"
  by (simp add: harbor_wf_def upd_slave_def)

lemma harbor_wfD: "harbor_wf h \<Longrightarrow> slave_wf (ha_s h i)"
  by (simp add: harbor_wf_def)

lemma search_or_insert_ok:
  assumes "harbor_wf h" "search_or_insert name h = (r, h')"
  shows "harbor_wf h'" "ref_ok (ha_map h') r" "ha_s h' = ha_s h" "ha_id h' = ha_id h" "ha_slave h' = ha_slave h"
proof -
  have "harbor_wf h' \<and> ref_ok (ha_map h') r \<and> ha_s h' = ha_s h \<and> ha_id h' = ha_id h \<and> ha_slave h' = ha_slave h"
    using assms node_index_Some
    by (auto simp: search_or_insert_def hash_search_def hash_insert_def Let_def ref_ok_def harbor_wf_def map_wf_def node_wf_def
        split: option.splits if_splits)
  then show "harbor_wf h'" "ref_ok (ha_map h') r" "ha_s h' = ha_s h" "ha_id h' = ha_id h" "ha_slave h' = ha_slave h"
    by blast+
qed

lemma remote_send_handle_ok:
  assumes "harbor_wf h"
  shows "\<exists>k h' out. remote_send_handle source destination type session msg h = Some (k, h', out) \<and> harbor_wf h'"
proof -
  let ?i = "unat (drop_bit HANDLE_REMOTE_SHIFT destination)"
  let ?s = "ha_s h ?i"
  have wf: "slave_wf ?s" using assms by (rule harbor_wfD)
  have q: "hq_wf (case sl_queue ?s of None \<Rightarrow> new_queue | Some q \<Rightarrow> q)"
    using wf by (auto simp: slave_wf_def new_queue_ok split: option.split)
  have "harbor_wf (upd_slave ?i (\<lambda>s. s\<lparr>sl_queue := Some q'\<rparr>) h)"
    if "hq_wf q'" "sl_fd ?s = 0 \<or> sl_status ?s = STATUS_HANDSHAKE" "sl_status ?s \<noteq> STATUS_DOWN" for q'
    using harbor_wf_upd_slave [OF assms] wf that by (auto simp: slave_wf_def)
  moreover obtain f where "\<And>m. push_queue_msg m (case sl_queue ?s of None \<Rightarrow> new_queue | Some q \<Rightarrow> q) = Some (f m)" "\<And>m. hq_wf (f m)"
    using hq_push_ok [OF q] by metis
  ultimately show ?thesis using assms
    by (cases "sl_fd ?s = 0 \<or> sl_status ?s = STATUS_HANDSHAKE"; cases "sl_status ?s = STATUS_DOWN")
      (auto simp: remote_send_handle_def Let_def)
qed

lemma dispatch_name_queue_ok:
  assumes "harbor_wf h" "ref_ok (ha_map h) r" "kv_queue (kv_at (ha_map h) r) \<noteq> None"
  shows "\<exists>h' out. dispatch_name_queue r h = Some (h', out) \<and> harbor_wf h' \<and> ref_ok (ha_map h') r"
proof -
  obtain q where q: "kv_queue (kv_at (ha_map h) r) = Some q" using assms(3) by auto
  have wq: "hq_wf q" using map_wf_at [OF _ assms(2)] assms(1) q by (simp add: harbor_wf_def node_wf_def)
  let ?handle = "kv_value (kv_at (ha_map h) r)"
  let ?i = "unat (drop_bit HANDLE_REMOTE_SHIFT ?handle)"
  let ?s = "ha_s h ?i"
  have wf: "slave_wf ?s" using assms(1) by (rule harbor_wfD)
  obtain q' where q': "drain pop_queue q = Some (hq_contents q, q')" "hq_wf q'" using drain_queue [OF wq] by auto
  show ?thesis
  proof (cases "sl_fd ?s = 0")
    case False
    have "harbor_wf (upd_kv r (\<lambda>kv. kv\<lparr>kv_queue := Some q'\<rparr>) h)"
      using harbor_wf_upd_kv [OF assms(1)] q'(2) by (simp add: node_wf_def)
    then show ?thesis using False q q'(1) assms(2) by (simp add: dispatch_name_queue_def Let_def)
  next
    case True
    then have st: "sl_status ?s = STATUS_WAIT" using wf by (simp add: slave_wf_def)
    obtain h1 sq where h1: "harbor_wf h1" "ref_ok (ha_map h1) r" "sl_queue (ha_s h1 ?i) = Some sq" "ha_slave h1 = ha_slave h"
      "(case sl_queue ?s of
            None \<Rightarrow> Some (upd_kv r (\<lambda>kv. kv\<lparr>kv_queue := None\<rparr>) (upd_slave ?i (\<lambda>s. s\<lparr>sl_queue := Some q\<rparr>) h))
          | Some squeue \<Rightarrow> do {
              (ms, queue) \<leftarrow> drain pop_queue q;
              squeue \<leftarrow> enq_all push_queue_msg ms squeue;
              Some (upd_kv r (\<lambda>kv. kv\<lparr>kv_queue := Some queue\<rparr>) (upd_slave ?i (\<lambda>s. s\<lparr>sl_queue := Some squeue\<rparr>) h))
            }) = Some h1"
    proof (cases "sl_queue ?s")
      case None
      let ?h = "upd_slave ?i (\<lambda>s. s\<lparr>sl_queue := Some q\<rparr>) h"
      have "harbor_wf ?h" using harbor_wf_upd_slave [OF assms(1)] wf wq st by (simp add: slave_wf_def)
      then have "harbor_wf (upd_kv r (\<lambda>kv. kv\<lparr>kv_queue := None\<rparr>) ?h)" using harbor_wf_upd_kv by (simp add: node_wf_def)
      then show thesis using that None assms(2) by simp
    next
      case (Some squeue)
      obtain sq where sq: "enq_all push_queue_msg (hq_contents q) squeue = Some sq" "hq_wf sq"
        using harbor_queue.enq_list [of squeue "hq_contents q"] wf Some by (auto simp: slave_wf_def)
      let ?h = "upd_slave ?i (\<lambda>s. s\<lparr>sl_queue := Some sq\<rparr>) h"
      have "harbor_wf ?h" using harbor_wf_upd_slave [OF assms(1)] wf sq st by (simp add: slave_wf_def)
      then have "harbor_wf (upd_kv r (\<lambda>kv. kv\<lparr>kv_queue := Some q'\<rparr>) ?h)" using harbor_wf_upd_kv q'(2) by (simp add: node_wf_def)
      then show thesis using that [of "upd_kv r (\<lambda>kv. kv\<lparr>kv_queue := Some q'\<rparr>) ?h" sq] Some sq q' assms(2) by simp
    qed
    show ?thesis
    proof (cases "?i = unat (drop_bit HANDLE_REMOTE_SHIFT (ha_slave h))")
      case False
      then show ?thesis using h1 True st q by (simp add: dispatch_name_queue_def Let_def)
    next
      case loc: True
      have "hq_wf sq" using harbor_wfD [OF h1(1), of ?i] h1(3) by (simp add: slave_wf_def)
      then obtain sq' where sq': "drain pop_queue sq = Some (hq_contents sq, sq')" "hq_wf sq'" using drain_queue by blast
      moreover obtain ms where "release_queue (Some sq') = Some ms" using release_queue_ok [of "Some sq'"] sq'(2) by auto
      moreover have "harbor_wf (upd_slave ?i (\<lambda>s. s\<lparr>sl_queue := None\<rparr>) h1)"
        using harbor_wf_upd_slave [OF h1(1)] harbor_wfD [OF h1(1), of ?i] by (simp add: slave_wf_def)
      ultimately show ?thesis using h1 True st q loc by (simp add: dispatch_name_queue_def Let_def)
    qed
  qed
qed


lemma update_name_ok:
  assumes "harbor_wf h"
  shows "\<exists>h' out. update_name name handle h = Some (h', out) \<and> harbor_wf h'"
proof -
  obtain r h0 where s: "search_or_insert name h = (r, h0)" by fastforce
  note h0 = search_or_insert_ok [OF assms s]
  let ?h = "upd_kv r (\<lambda>kv. kv\<lparr>kv_value := handle\<rparr>) h0"
  have "node_wf (kv_at (ha_map h0) r)" using map_wf_at h0 by (simp add: harbor_wf_def)
  then have wf: "harbor_wf ?h" "ref_ok (ha_map ?h) r" using harbor_wf_upd_kv [OF h0(1)] h0(2) by (simp_all add: node_wf_def)
  show ?thesis
  proof (cases "kv_queue (kv_at (ha_map ?h) r)")
    case None
    then show ?thesis using s wf by (auto simp: update_name_def)
  next
    case (Some q)
    then obtain h1 out where h1: "dispatch_name_queue r ?h = Some (h1, out)" "harbor_wf h1" "ref_ok (ha_map h1) r"
      using dispatch_name_queue_ok [OF wf] by auto
    have "node_wf (kv_at (ha_map h1) r)" using map_wf_at h1 by (simp add: harbor_wf_def)
    then obtain ms where "release_queue (kv_queue (kv_at (ha_map h1) r)) = Some ms"
      using release_queue_ok by (metis node_wf_def)
    moreover have "harbor_wf (upd_kv r (\<lambda>kv. kv\<lparr>kv_queue := None\<rparr>) h1)"
      using harbor_wf_upd_kv [OF h1(2)] by (simp add: node_wf_def)
    ultimately show ?thesis using s Some h1(1) by (auto simp: update_name_def)
  qed
qed

lemma remote_send_name_ok:
  assumes "harbor_wf h"
  shows "\<exists>k h' out. remote_send_name source name type session msg h = Some (k, h', out) \<and> harbor_wf h'"
proof -
  obtain r h0 where s: "search_or_insert name h = (r, h0)" by fastforce
  note h0 = search_or_insert_ok [OF assms s]
  let ?node = "kv_at (ha_map h0) r"
  have "node_wf ?node" using map_wf_at h0 by (simp add: harbor_wf_def)
  then have q: "hq_wf (case kv_queue ?node of None \<Rightarrow> new_queue | Some q \<Rightarrow> q)"
    by (simp add: node_wf_def new_queue_ok split: option.split)
  obtain f where "\<And>m. push_queue_msg m (case kv_queue ?node of None \<Rightarrow> new_queue | Some q \<Rightarrow> q) = Some (f m)" "\<And>m. hq_wf (f m)"
    using hq_push_ok [OF q] by metis
  moreover have "harbor_wf (upd_kv r (\<lambda>kv. kv\<lparr>kv_queue := Some q\<rparr>) h0)" if "hq_wf q" for q
    using harbor_wf_upd_kv [OF h0(1)] that by (simp add: node_wf_def)
  ultimately show ?thesis
    using remote_send_handle_ok [OF h0(1)] s by (cases "kv_value ?node = 0") (auto simp: remote_send_name_def)
qed

lemma harbor_connect_ok:
  assumes "harbor_wf h" "fd \<noteq> 0" "sl_fd (ha_s h i) = 0"
  shows "\<exists>h' out. harbor_connect active fd i h = Some (h', out) \<and> harbor_wf h'"
proof -
  have wf: "slave_wf (ha_s h i)" using assms(1) by (rule harbor_wfD)
  show ?thesis
  proof (cases active)
    case True
    have "harbor_wf (upd_slave i (\<lambda>s. s\<lparr>sl_status := STATUS_HANDSHAKE\<rparr>) (upd_slave i (\<lambda>s. s\<lparr>sl_fd := fd\<rparr>) h))"
      unfolding upd_slave_simps by (rule harbor_wf_upd_slave [OF assms(1)]) (use wf assms in \<open>simp add: slave_wf_def\<close>)
    then show ?thesis using True by (simp add: harbor_connect_def)
  next
    case False
    let ?h = "upd_slave i (\<lambda>s. s\<lparr>sl_status := STATUS_HEADER\<rparr>) (upd_slave i (\<lambda>s. s\<lparr>sl_fd := fd\<rparr>) h)"
    obtain out where "dispatch_queue i ?h = Some (upd_slave i (\<lambda>s. s\<lparr>sl_queue := None\<rparr>) ?h, out)"
      using dispatch_queue_ok [of ?h i] wf assms(2) by (auto simp: slave_wf_def)
    moreover have "harbor_wf (upd_slave i (\<lambda>s. s\<lparr>sl_queue := None\<rparr>) ?h)"
      unfolding upd_slave_simps by (rule harbor_wf_upd_slave [OF assms(1)]) (use wf assms in \<open>simp add: slave_wf_def\<close>)
    ultimately show ?thesis using False by (simp add: harbor_connect_def)
  qed
qed

lemma harbor_command_ok:
  assumes "harbor_wf h" "2 \<le> length msg"
  shows "\<exists>h' out. harbor_command source msg h = Some (h', out) \<and> harbor_wf h'"
proof -
  obtain c d m where msg: "msg = c # d # m" using assms(2) by (cases msg rule: list.exhaust [case_product list.exhaust]) (auto simp: numeral_2_eq_2 Suc_le_length_iff)
  obtain fd n where p: "scan_pair (str_at (m @ [0]) 0) = (fd, n)" by fastforce
  show ?thesis
    using assms(1) update_name_ok [OF assms(1)] harbor_connect_ok [OF assms(1), of fd "nat n"]
    by (auto simp: harbor_command_def msg p Let_def)
qed

text \<open>
  What the service can be given: no socket data for a connection that waits for its handshake without
  a byte in it, and no frame too short for its header.
\<close>

definition acceptable_data :: "nat \<Rightarrow> slave \<Rightarrow> bytes \<Rightarrow> bool" where
  "acceptable_data i s c \<longleftrightarrow>
     (sl_status s \<in> {STATUS_HEADER, STATUS_CONTENT} \<longrightarrow> (\<exists>p. receiving p s \<and> stream_ok (p @ c))) \<and>
     (sl_status s = STATUS_HANDSHAKE \<longrightarrow> (\<exists>b c'. c = b # c' \<and> stream_ok c'))"

definition acceptable :: "harbor_message \<Rightarrow> harbor \<Rightarrow> bool" where
  "acceptable m h = (case m of
     Sock sm \<Rightarrow> sm_type sm = SKYNET_SOCKET_TYPE_DATA \<longrightarrow>
       (\<forall>i. slave_of h (sm_id sm) = Some i \<longrightarrow> acceptable_data i (ha_s h i) (sm_buffer sm))
   | Command msg \<Rightarrow> 2 \<le> length msg
   | Out rmsg \<Rightarrow> body (rm_message rmsg) \<noteq> None
   | Unknown t \<Rightarrow> True)"

lemma recv_loop_returns:
  assumes "harbor_wf h" "acceptable_data i (ha_s h i) c"
  shows "\<exists>h' out. recv_loop alive i c h = Some (h', out)"
proof (cases "sl_status (ha_s h i)")
  case STATUS_HANDSHAKE
  let ?s = "ha_s h i" and ?h = "upd_slave i (\<lambda>s. s\<lparr>sl_status := STATUS_HEADER\<rparr>) h"
  obtain b c' where c: "c = b # c'" "stream_ok c'" using STATUS_HANDSHAKE assms(2) by (auto simp: acceptable_data_def)
  have wf: "slave_wf ?s" using assms(1) by (rule harbor_wfD)
  then have s: "\<And>q. sl_queue ?s = Some q \<Longrightarrow> hq_wf q" "sl_fd ?s \<noteq> 0" "sl_read ?s = 0" "length (sl_size ?s) = 4"
    using STATUS_HANDSHAKE by (auto simp: slave_wf_def)
  obtain out1 where o1: "close_harbor i h = Some (upd_slave i (\<lambda>s. s\<lparr>sl_status := STATUS_DOWN, sl_queue := None\<rparr>) h, out1)"
    using close_harbor_ok s(1) by blast
  obtain out2 where o2: "dispatch_queue i ?h = Some (upd_slave i (\<lambda>s. s\<lparr>sl_queue := None\<rparr>) ?h, out2)"
    using dispatch_queue_ok [of ?h i] s by auto
  let ?h2 = "upd_slave i (\<lambda>s. s\<lparr>sl_queue := None\<rparr>) ?h"
  have "receiving [] (ha_s ?h2 i)" using s by (simp add: receiving_start)
  then obtain r where "recv_loop alive i c' ?h2 = Some r" using recv_loop_frames [of "[]" ?h2 i c' alive] c(2) by auto
  then show ?thesis using STATUS_HANDSHAKE c(1) o1 o2 by (subst recv_loop.simps) (cases r; simp)
next
  case STATUS_HEADER
  then show ?thesis using recv_loop_frames assms(2) by (force simp: acceptable_data_def)
next
  case STATUS_CONTENT
  then show ?thesis using recv_loop_frames assms(2) by (force simp: acceptable_data_def)
qed (subst recv_loop.simps; simp)+

lemma recv_loop_wf:
  assumes "harbor_wf h" "recv_loop alive i c h = Some (h', out)"
  shows "harbor_wf h'"
  using recv_loop_step [OF assms(2)] harbor_wfD [OF assms(1), of i] harbor_wf_upd_slave [OF assms(1)]
  by (auto simp: slave_step_def)

lemma harbor_init_wf: "harbor_wf (fst (snd (harbor_init args harbor_create)))"
  by (auto simp: harbor_init_def Let_def harbor_create_def harbor_wf_def map_wf_def hash_new_def slave_wf_def new_slave_def
      split: prod.split)

text \<open>
  C15. The harbor never crashes and stays well-formed: from a well-formed state every acceptable message is
  handled by \<open>mainloop\<close> without reading outside a buffer or using a queue that is gone, and the state after
  it is well-formed again (slaves, their receive buffers, the queues of the slaves and of the names).
\<close>

theorem harbor_stays_consistent:
  assumes "harbor_wf h" "acceptable m h"
  shows "\<exists>h' out. mainloop alive m session source h = Some (h', out) \<and> harbor_wf h'"
proof (cases m)
  case (Sock sm)
  show ?thesis
  proof (cases "sm_type sm = SKYNET_SOCKET_TYPE_DATA")
    case data: True
    show ?thesis
    proof (cases "slave_of h (sm_id sm)")
      case None
      then show ?thesis using Sock data assms(1)
        by (simp add: mainloop_def socket_event_def push_socket_data_def slave_of_def Let_def)
    next
      case (Some i)
      then obtain h' out where "recv_loop alive i (sm_buffer sm) h = Some (h', out)"
        using recv_loop_returns [OF assms(1), of i "sm_buffer sm" alive] assms(2) Sock data by (auto simp: acceptable_def)
      then show ?thesis using Sock data Some recv_loop_wf [OF assms(1)]
        by (simp add: mainloop_def socket_event_def push_socket_data_def slave_of_def Let_def)
    qed
  qed (use Sock assms(1) in \<open>simp add: mainloop_def socket_event_def Let_def\<close>)
next
  case (Command msg)
  then show ?thesis using harbor_command_ok [OF assms(1)] assms(2) by (simp add: mainloop_def acceptable_def)
next
  case (Out rmsg)
  then obtain b where "body (rm_message rmsg) = Some b" using assms(2) by (auto simp: acceptable_def)
  then show ?thesis
    using Out remote_send_handle_ok [OF assms(1), of source "rn_handle (rm_destination rmsg)" "rm_type rmsg" session b]
      remote_send_name_ok [OF assms(1), of source "rn_name (rm_destination rmsg)" "rm_type rmsg" session b]
    by (auto simp: mainloop_def)
next
  case (Unknown t)
  then show ?thesis using assms(1) by (simp add: mainloop_def)
qed


section \<open>One connection\<close>

text \<open>
  The events of one link: messages to handles of harbor \<open>i\<close>, the commands that connect it to socket \<open>fd\<close>,
  and data of that socket.
\<close>

type_synonym event = "harbor_message \<times> int \<times> u32"

definition header_for :: "u32 \<Rightarrow> u32 \<Rightarrow> nat \<Rightarrow> int \<Rightarrow> remote_message_header" where
  "header_for source handle type session =
     \<lparr>rh_source = source, rh_destination = push_bit HANDLE_REMOTE_SHIFT (of_nat type) OR (handle AND HANDLE_MASK),
      rh_session = word_of_int session\<rparr>"

fun msgs_of :: "event \<Rightarrow> harbor_msg list" where
  "msgs_of (Out r, session, source) = (case body (rm_message r) of
     None \<Rightarrow> [] | Some b \<Rightarrow> [\<lparr>hm_header = header_for source (rn_handle (rm_destination r)) (rm_type r) session, hm_buffer = b\<rparr>])"
| "msgs_of _ = []"

fun link_event :: "nat \<Rightarrow> int \<Rightarrow> event \<Rightarrow> bool" where
  "link_event i fd (Out r, session, source) \<longleftrightarrow> rn_handle (rm_destination r) \<noteq> 0 \<and>
     unat (drop_bit HANDLE_REMOTE_SHIFT (rn_handle (rm_destination r))) = i \<and>
     (\<exists>b. body (rm_message r) = Some b \<and> length b + 12 \<le> 0xffffffff)"
| "link_event i fd (Command msg, session, source) \<longleftrightarrow> 2 \<le> length msg \<and> hd msg \<in> {of_char CHR ''S'', of_char CHR ''A''} \<and>
     scan_pair (str_at (drop 2 msg @ [0]) 0) = (fd, int i)"
| "link_event i fd (Sock sm, session, source) \<longleftrightarrow> (\<exists>c. sm = data_message fd c)"
| "link_event i fd (Unknown t, session, source) \<longleftrightarrow> True"

definition link_ok :: "nat \<Rightarrow> int \<Rightarrow> harbor \<Rightarrow> bool" where
  "link_ok i fd h \<longleftrightarrow> harbor_wf h \<and> fd \<noteq> 0 \<and> 1 \<le> i \<and> i < REMOTE_MAX \<and> int i \<noteq> ha_id h \<and>
     sl_fd (ha_s h i) \<in> {0, fd} \<and> (\<forall>j. j \<noteq> i \<longrightarrow> sl_fd (ha_s h j) \<noteq> fd) \<and> (\<forall>m \<in> set (waiting_msgs (ha_s h i)). fits m)"

definition greeting :: "nat \<Rightarrow> harbor \<Rightarrow> harbor \<Rightarrow> bytes" where
  "greeting i h h' = (if sl_fd (ha_s h i) = 0 \<and> sl_fd (ha_s h' i) \<noteq> 0 then [word_of_int (ha_id h)] else [])"

text \<open>What one event does to the link.\<close>

definition link_step :: "nat \<Rightarrow> harbor \<Rightarrow> harbor \<Rightarrow> harbor_msg list \<Rightarrow> service_call list \<Rightarrow> bool" where
  "link_step i h h' ms out \<longleftrightarrow> ha_id h' = ha_id h \<and> (\<forall>j. j \<noteq> i \<longrightarrow> ha_s h' j = ha_s h j) \<and>
     (sl_status (ha_s h i) = STATUS_DOWN \<longrightarrow> sl_status (ha_s h' i) = STATUS_DOWN) \<and>
     (sl_fd (ha_s h i) \<noteq> 0 \<longrightarrow> sl_fd (ha_s h' i) = sl_fd (ha_s h i)) \<and>
     (sl_fd (ha_s h' i) = 0 \<longrightarrow> sent_bytes out = []) \<and>
     (sl_status (ha_s h' i) \<noteq> STATUS_DOWN \<longrightarrow>
        sent_bytes out @ frames_of (waiting_msgs (ha_s h' i)) = greeting i h h' @ frames_of (waiting_msgs (ha_s h i) @ ms))"

lemma find_self: "i \<in> set xs \<Longrightarrow> find (\<lambda>j. j = i) xs = Some i"
  by (induction xs) auto

lemma waiting_msgs_upd [simp]:
  "waiting_msgs (s\<lparr>sl_fd := fd\<rparr>) = waiting_msgs s" "waiting_msgs (s\<lparr>sl_status := st\<rparr>) = waiting_msgs s"
  "waiting_msgs (s\<lparr>sl_queue := None\<rparr>) = []"
  by (simp_all add: waiting_msgs_def)

lemma slave_of_link:
  assumes "link_ok i fd h"
  shows "slave_of h fd = (if sl_fd (ha_s h i) = fd then Some i else None)"
proof (cases "sl_fd (ha_s h i) = fd")
  case True
  then have "(\<lambda>j. sl_fd (ha_s h j) = fd) = (\<lambda>j. j = i)" using assms by (auto simp: link_ok_def fun_eq_iff)
  moreover have "find (\<lambda>j. j = i) [1..<REMOTE_MAX] = Some i"
    using assms by (intro find_self) (auto simp: link_ok_def)
  ultimately show ?thesis using True by (simp add: slave_of_def)
next
  case False
  then have "\<not> (\<exists>j. j \<in> set [1..<REMOTE_MAX] \<and> sl_fd (ha_s h j) = fd)" using assms by (metis link_ok_def)
  then show ?thesis using False by (auto simp: slave_of_def find_None_iff)
qed

lemma link_send:
  assumes "link_ok i fd h" "unat (drop_bit HANDLE_REMOTE_SHIFT handle) = i" "length b + 12 \<le> 0xffffffff"
    "remote_send_handle source handle type session b h = Some (k, h', out)"
  shows "link_step i h h' [\<lparr>hm_header = header_for source handle type session, hm_buffer = b\<rparr>] out \<and>
    (\<forall>m \<in> set (waiting_msgs (ha_s h' i)). fits m)"
proof -
  let ?s = "ha_s h i" and ?m = "\<lparr>hm_header = header_for source handle type session, hm_buffer = b\<rparr>"
  have wf: "slave_wf ?s" "\<forall>m \<in> set (waiting_msgs ?s). fits m" "int i \<noteq> ha_id h"
    using assms(1) harbor_wfD by (auto simp: link_ok_def)
  have fits: "fits ?m" using assms(3) by (simp add: fits_def)
  show ?thesis
  proof (cases "sl_fd ?s = 0 \<or> sl_status ?s = STATUS_HANDSHAKE")
    case True
    then have st: "sl_status ?s \<noteq> STATUS_DOWN" using wf(1) by (auto simp: slave_wf_def)
    let ?q = "case sl_queue ?s of None \<Rightarrow> new_queue | Some q \<Rightarrow> q"
    have q: "hq_wf ?q" "hq_contents ?q = waiting_msgs ?s"
      using wf(1) by (auto simp: slave_wf_def new_queue_ok waiting_msgs_def split: option.split)
    obtain q' where q': "push_queue_msg ?m ?q = Some q'" "hq_contents q' = waiting_msgs ?s @ [?m]"
      using hq_push_ok [OF q(1)] q(2) by metis
    then have "h' = upd_slave i (\<lambda>s. s\<lparr>sl_queue := Some q'\<rparr>) h" "out = []"
      using assms(2,4) True st wf(3) by (auto simp: remote_send_handle_def Let_def header_for_def)
    then show ?thesis using wf(2) fits q'(2) by (auto simp: link_step_def waiting_msgs_def greeting_def)
  next
    case False
    then have out: "h' = h" "out = send_remote (sl_fd ?s) (hm_buffer ?m) (hm_header ?m)"
      using assms(2,4) wf(3) by (auto simp: remote_send_handle_def Let_def header_for_def)
    have "sl_queue ?s = None" using False wf(1) by (cases "sl_status ?s") (auto simp: slave_wf_def)
    then show ?thesis using out False send_remote_frame [of ?m "sl_fd ?s"] assms(3)
      by (simp add: link_step_def waiting_msgs_def greeting_def frames_of_def)
  qed
qed

lemma link_connect:
  assumes "link_ok i fd h" "sl_fd (ha_s h i) = 0" "harbor_connect active fd i h = Some (h', out)"
  shows "link_step i h h' [] out \<and> (\<forall>m \<in> set (waiting_msgs (ha_s h' i)). fits m) \<and> sl_fd (ha_s h' i) = fd"
proof -
  let ?s = "ha_s h i" and ?h0 = "upd_slave i (\<lambda>s. s\<lparr>sl_fd := fd\<rparr>) h"
  have wf: "slave_wf ?s" "\<forall>m \<in> set (waiting_msgs ?s). fits m" "fd \<noteq> 0"
    using assms(1) harbor_wfD by (auto simp: link_ok_def)
  have st: "sl_status ?s = STATUS_WAIT" using wf(1) assms(2) by (simp add: slave_wf_def)
  show ?thesis
  proof (cases active)
    case True
    then show ?thesis using assms(2,3) wf st
      by (auto simp: harbor_connect_def link_step_def greeting_def handshake_def)
  next
    case False
    let ?h = "upd_slave i (\<lambda>s. s\<lparr>sl_status := STATUS_HEADER\<rparr>) ?h0"
    obtain o2 where o2: "dispatch_queue i ?h = Some (upd_slave i (\<lambda>s. s\<lparr>sl_queue := None\<rparr>) ?h, o2)"
      "sent_bytes o2 = frames_of (waiting_msgs ?s)"
      using dispatch_queue_ok [of ?h i] wf by (auto simp: slave_wf_def)
    then show ?thesis using False assms(2,3) wf(3) st
      by (auto simp: harbor_connect_def link_step_def greeting_def handshake_def)
  qed
qed

lemma link_data:
  assumes "link_ok i fd h" "harbor_feed alive fd h c = Some (h', out)"
  shows "link_step i h h' [] out \<and> (\<forall>m \<in> set (waiting_msgs (ha_s h' i)). fits m) \<and> sl_fd (ha_s h' i) = sl_fd (ha_s h i)"
proof (cases "sl_fd (ha_s h i) = fd")
  case True
  have wf: "slave_wf (ha_s h i)" "\<forall>m \<in> set (waiting_msgs (ha_s h i)). fits m" "fd \<noteq> 0"
    using assms(1) harbor_wfD by (auto simp: link_ok_def)
  have "recv_loop alive i c h = Some (h', out)" using assms slave_of_link [OF assms(1)] True by (simp add: harbor_feed_eq)
  then have "slave_step i h h' out" using recv_loop_step [of alive i c h] wf(1) by fastforce
  then obtain s where s: "h' = upd_slave i (\<lambda>_. s) h" "sl_fd s = sl_fd (ha_s h i)"
     "sl_status (ha_s h i) = STATUS_DOWN \<longrightarrow> sl_status s = STATUS_DOWN"
     "sl_queue s = None \<or> sl_queue s = sl_queue (ha_s h i)"
     "sl_status s \<noteq> STATUS_DOWN \<longrightarrow> sent_bytes out @ frames_of (waiting_msgs s) = frames_of (waiting_msgs (ha_s h i))"
    using wf(2) by (auto simp: slave_step_def)
  moreover have "set (waiting_msgs s) \<subseteq> set (waiting_msgs (ha_s h i))" using s(4) by (auto simp: waiting_msgs_def)
  ultimately show ?thesis using True wf(2,3) by (auto simp: link_step_def greeting_def)
next
  case False
  then show ?thesis using assms slave_of_link [OF assms(1)]
    by (auto simp: harbor_feed_eq link_step_def greeting_def link_ok_def)
qed


lemma link_event_step:
  assumes "link_ok i fd h" "link_event i fd (m, session, source)" "mainloop alive m session source h = Some (h', out)"
  shows "link_step i h h' (msgs_of (m, session, source)) out \<and> harbor_wf h' \<and>
    (\<forall>m \<in> set (waiting_msgs (ha_s h' i)). fits m) \<and> sl_fd (ha_s h' i) \<in> {0, fd}"
proof -
  have wf: "harbor_wf h" "\<forall>m \<in> set (waiting_msgs (ha_s h i)). fits m" "sl_fd (ha_s h i) \<in> {0, fd}" "fd \<noteq> 0" "1 \<le> i" "i < REMOTE_MAX"
    using assms(1) by (auto simp: link_ok_def)
  have same: "link_step i h h [] o' \<and> harbor_wf h \<and> (\<forall>m \<in> set (waiting_msgs (ha_s h i)). fits m) \<and> sl_fd (ha_s h i) \<in> {0, fd}"
    if "sent_bytes o' = []" for o' using wf that by (simp add: link_step_def greeting_def)
  show ?thesis
  proof (cases m)
    case (Sock sm)
    then obtain c where c: "harbor_feed alive fd h c = Some (h', out)"
      using assms(2,3) by (auto simp: harbor_feed_def mainloop_def)
    have "harbor_wf h'" using c wf(1) recv_loop_wf slave_of_link [OF assms(1)]
      by (auto simp: harbor_feed_eq split: if_splits)
    then show ?thesis using link_data [OF assms(1) c] Sock wf(3) by simp
  next
    case (Command msg)
    then obtain c d rest where msg: "msg = c # d # rest" "c \<in> {of_char CHR ''S'', of_char CHR ''A''}"
      "scan_pair (str_at (rest @ [0]) 0) = (fd, int i)"
      using assms(2) by (cases msg rule: list.exhaust [case_product list.exhaust])
        (auto simp: neq_Nil_conv Suc_le_length_iff numeral_2_eq_2)
    have "of_char CHR ''N'' \<noteq> (of_char CHR ''S'' :: u8)" "of_char CHR ''N'' \<noteq> (of_char CHR ''A'' :: u8)" by (simp_all add: of_char_def)
    then have cmd: "harbor_command source msg h =
        (if sl_fd (ha_s h i) \<noteq> 0 then Some (h, [Log (''Harbor '' @ fmt_d (int i) @ '' alreay exist'')])
         else harbor_connect (c = of_char CHR ''S'') fd i h)"
      using msg wf by (auto simp: harbor_command_def)
    show ?thesis
    proof (cases "sl_fd (ha_s h i) = 0")
      case True
      then have "harbor_connect (c = of_char CHR ''S'') fd i h = Some (h', out)"
        using assms(3) Command cmd by (simp add: mainloop_def)
      moreover have "harbor_wf h'" using harbor_connect_ok [OF wf(1,4) True, of "c = of_char CHR ''S''"] calculation by auto
      ultimately show ?thesis using link_connect [OF assms(1) True] Command by simp
    next
      case False
      then have "h' = h" "sent_bytes out = []" using assms(3) Command cmd by (auto simp: mainloop_def)
      then show ?thesis using same [of out] Command by simp
    qed
  next
    case (Out r)
    then obtain b k where b: "body (rm_message r) = Some b" "length b + 12 \<le> 0xffffffff"
      "remote_send_handle source (rn_handle (rm_destination r)) (rm_type r) session b h = Some (k, h', out)"
      "unat (drop_bit HANDLE_REMOTE_SHIFT (rn_handle (rm_destination r))) = i"
      using assms(2,3) by (auto simp: mainloop_def bind_eq_Some_conv)
    have "harbor_wf h'" using remote_send_handle_ok [OF wf(1)] b(3) by (metis Pair_inject option.inject)
    moreover have "link_step i h h' (msgs_of (m, session, source)) out \<and> (\<forall>m \<in> set (waiting_msgs (ha_s h' i)). fits m)"
      using link_send [OF assms(1) b(4,2,3)] Out b(1) by simp
    moreover have "sl_fd (ha_s h' i) = sl_fd (ha_s h i)"
      using b(3) by (auto simp: remote_send_handle_def Let_def bind_eq_Some_conv upd_slave_def split: if_splits)
    ultimately show ?thesis using wf(3) by simp
  next
    case (Unknown t)
    then have "h' = h" "sent_bytes out = []" using assms(3) by (auto simp: mainloop_def)
    then show ?thesis using same Unknown by simp
  qed
qed

definition handle_event :: "(u32 \<Rightarrow> bool) \<Rightarrow> harbor \<Rightarrow> event \<Rightarrow> (harbor \<times> service_call list) option" where
  "handle_event alive h = (\<lambda>(m, session, source). mainloop alive m session source h)"

lemma link_run:
  assumes "link_ok i fd h" "\<forall>e \<in> set evs. link_event i fd e" "feeds (handle_event alive) h evs = Some (h', out)"
  shows "link_ok i fd h' \<and> link_step i h h' (concat (map msgs_of evs)) out"
  using assms
proof (induction evs arbitrary: h out)
  case Nil
  then show ?case by (auto simp: link_step_def greeting_def)
next
  case (Cons e evs)
  obtain m session source where e: "e = (m, session, source)" by (cases e)
  obtain h1 out1 out2 where r: "mainloop alive m session source h = Some (h1, out1)"
    "feeds (handle_event alive) h1 evs = Some (h', out2)" "out = out1 @ out2"
    using Cons.prems(3) by (auto simp: bind_eq_Some_conv handle_event_def [of alive h] e)
  have ev: "link_event i fd (m, session, source)" using Cons.prems(2) e by simp
  note st = link_event_step [OF Cons.prems(1) ev r(1)]
  then have st1: "link_step i h h1 (msgs_of e) out1" using e by simp
  have "link_ok i fd h1"
    using Cons.prems(1) st by (simp add: link_ok_def link_step_def)
  then have st2: "link_ok i fd h'" "link_step i h1 h' (concat (map msgs_of evs)) out2"
    using Cons.IH [OF _ _ r(2)] Cons.prems(2) by auto
  have "sent_bytes out @ frames_of (waiting_msgs (ha_s h' i)) =
      greeting i h h' @ frames_of (waiting_msgs (ha_s h i) @ concat (map msgs_of (e # evs)))"
    if "sl_status (ha_s h' i) \<noteq> STATUS_DOWN"
  proof -
    let ?q = "\<lambda>h. frames_of (waiting_msgs (ha_s h i))" and ?F = "frames_of (concat (map msgs_of evs))"
    have a: "sent_bytes out2 @ ?q h' = greeting i h1 h' @ ?q h1 @ ?F" using st2(2) that by (simp add: link_step_def)
    have b: "sent_bytes out1 @ ?q h1 = greeting i h h1 @ ?q h @ frames_of (msgs_of e)"
      using st1 st2(2) that by (auto simp: link_step_def)
    have c: "sent_bytes out1 @ greeting i h1 h' = greeting i h1 h' @ sent_bytes out1"
      using st1 by (auto simp: link_step_def greeting_def)
    have d: "greeting i h1 h' @ greeting i h h1 = greeting i h h'"
      using st1 st2(2) by (auto simp: link_step_def greeting_def)
    have "sent_bytes out @ ?q h' = sent_bytes out1 @ (sent_bytes out2 @ ?q h')" using r(3) by simp
    also have "\<dots> = (sent_bytes out1 @ greeting i h1 h') @ ?q h1 @ ?F" unfolding a by simp
    also have "\<dots> = greeting i h1 h' @ (sent_bytes out1 @ ?q h1) @ ?F" unfolding c by simp
    also have "\<dots> = (greeting i h1 h' @ greeting i h h1) @ ?q h @ frames_of (msgs_of e) @ ?F" unfolding b by simp
    also have "\<dots> = greeting i h h' @ frames_of (waiting_msgs (ha_s h i) @ concat (map msgs_of (e # evs)))" unfolding d by simp
    finally show ?thesis .
  qed
  moreover have "sl_fd (ha_s h' i) = 0 \<longrightarrow> sent_bytes out = []"
    using st1 st2(2) r(3) by (auto simp: link_step_def)
  ultimately show ?case using st1 st2 by (auto simp: link_step_def)
qed

text \<open>
  Messages leave in order: whatever happens on the link to a harbor, before, during and after it is
  connected, the bytes written to its socket are this harbor's id and then the frames of all messages
  sent to it, in order, except the ones that still wait in its queue.
\<close>

theorem harbor_link_in_order:
  assumes "link_ok i fd h" "sl_fd (ha_s h i) = 0" "sl_queue (ha_s h i) = None"
    "\<forall>e \<in> set evs. link_event i fd e" "feeds (handle_event alive) h evs = Some (h', out)"
    "sl_status (ha_s h' i) \<noteq> STATUS_DOWN"
  shows "sent_bytes out @ frames_of (waiting_msgs (ha_s h' i)) =
    (if sl_fd (ha_s h' i) = 0 then [] else [word_of_int (ha_id h)]) @ frames_of (concat (map msgs_of evs))"
proof -
  have "waiting_msgs (ha_s h i) = []" using assms(3) by (simp add: waiting_msgs_def)
  then show ?thesis using link_run [OF assms(1,4,5)] assms(2,6) by (auto simp: link_step_def greeting_def)
qed

text \<open>What the events are worth to the other side: each message, at its destination.\<close>

fun deliveries :: "event \<Rightarrow> service_call list" where
  "deliveries (Out r, session, source) = (case body (rm_message r) of
     None \<Rightarrow> [] | Some b \<Rightarrow> [Send source (rn_handle (rm_destination r)) (of_nat (rm_type r) OR PTYPE_TAG_DONTCOPY) session b])"
| "deliveries _ = []"

fun small :: "event \<Rightarrow> bool" where
  "small (Out r, session, source) \<longleftrightarrow> 0 \<le> session \<and> session < 2 ^ 31 \<and> rm_type r < 256 \<and>
     (\<forall>b. body (rm_message r) = Some b \<longrightarrow> length b + 12 < 2 ^ 24)"
| "small _ \<longleftrightarrow> True"

lemma remote_destination:
  assumes "t < 256" "int (unat (drop_bit HANDLE_REMOTE_SHIFT handle)) = n"
  defines "d \<equiv> push_bit HANDLE_REMOTE_SHIFT (of_nat t) OR (handle AND HANDLE_MASK)"
  shows "drop_bit HANDLE_REMOTE_SHIFT d = (of_nat t :: u32)"
    "(d AND HANDLE_MASK) OR push_bit HANDLE_REMOTE_SHIFT (word_of_int n) = (handle :: u32)"
proof -
  have m: "HANDLE_MASK = mask 24" by (simp add: HANDLE_MASK_def mask_eq_exp_minus_1)
  have "take_bit 8 t = t" using assms(1) by (simp add: take_bit_nat_eq_self)
  then have bt: "bit t k \<Longrightarrow> k < 8" for k by (metis bit_take_bit_iff)
  show "drop_bit HANDLE_REMOTE_SHIFT d = (of_nat t :: u32)"
    by (rule bit_word_eqI) (use bt in \<open>auto simp: d_def m HANDLE_REMOTE_SHIFT_def bit_simps\<close>)
  have "word_of_int n = drop_bit 24 handle"
    unfolding assms(2) [symmetric] HANDLE_REMOTE_SHIFT_def by simp
  moreover have "bit ((d AND HANDLE_MASK) OR push_bit 24 (drop_bit 24 handle)) k = bit handle k" if "k < 32" for k
    using that by (cases "k < 24") (auto simp: d_def m HANDLE_REMOTE_SHIFT_def bit_simps)
  ultimately show "(d AND HANDLE_MASK) OR push_bit HANDLE_REMOTE_SHIFT (word_of_int n) = (handle :: u32)"
    by (intro bit_word_eqI) (simp add: HANDLE_REMOTE_SHIFT_def)
qed

lemma delivered:
  assumes "link_event i fd e" "small e" "int i = ha_id h" "\<And>d. alive d"
  shows "concat (map (local_calls alive h \<circ> harbor_frame) (msgs_of e)) = deliveries e"
proof (cases e rule: msgs_of.cases)
  case (1 r session source)
  let ?d = "rn_handle (rm_destination r)"
  obtain b where b: "body (rm_message r) = Some b" "unat (drop_bit HANDLE_REMOTE_SHIFT ?d) = i"
    using assms(1) 1 by auto
  have t: "rm_type r < 256" "0 \<le> session" "session < 2 ^ 31" using assms(2) 1 by auto
  have "sint (word_of_int session :: u32) = session"
    using t by (simp add: signed_of_int signed_take_bit_int_eq_self)
  moreover have "int (unat (drop_bit HANDLE_REMOTE_SHIFT ?d)) = ha_id h" using b(2) assms(3) by simp
  note remote_destination [OF t(1) this]
  ultimately have "forward_local_message alive (b @ header_to_message (header_for source ?d (rm_type r) session)) h =
      Some [Send source ?d (of_nat (rm_type r) OR PTYPE_TAG_DONTCOPY) session b]"
    using assms(4) t(2) by (simp add: forward_local_message_def HEADER_COOKIE_LENGTH_def header_for_def Let_def)
  then show ?thesis using 1 b(1) by (simp add: local_calls_def harbor_frame_def)
qed (use assms in auto)


text \<open>
  A node that is down: nothing resets the socket number of its slave, so a message for it does not
  take the branch that answers the sender with an error; it is written to the closed socket, and the
  sender is told nothing.
\<close>

theorem harbor_down_swallows:
  assumes "harbor_wf h" "unat (drop_bit HANDLE_REMOTE_SHIFT destination) = n" "int n \<noteq> ha_id h"
    "sl_status (ha_s h n) = STATUS_DOWN"
  shows "remote_send_handle source destination type session msg h =
    Some (0, h, send_remote (sl_fd (ha_s h n)) msg (header_for source destination type session))"
  using harbor_wfD [OF assms(1), of n] assms(2-4)
  by (auto simp: remote_send_handle_def slave_wf_def header_for_def Let_def)

text \<open>
  A message sent by name before the name is known waits in the queue of the name. When the name turns
  out to be a service of a harbor that is not connected yet, the message moves to the queue of that
  harbor as it is, without the handle of the service, and so it leaves, when the harbor connects, for
  handle 0.
\<close>

theorem harbor_name_queue_loses_handle:
  assumes "hash_search (ha_map h) name = None" "length name = GLOBALNAME_LENGTH"
    "n = unat (drop_bit HANDLE_REMOTE_SHIFT handle)" "ha_s h n = new_slave" "fd \<noteq> 0"
    "n \<noteq> unat (drop_bit HANDLE_REMOTE_SHIFT (ha_slave h))" "length msg + 12 \<le> 0xffffffff"
  shows "\<exists>h1 q h2 h3. remote_send_name source name type session msg h = Some (1, h1, q) \<and>
    update_name name handle h1 = Some (h2, []) \<and>
    harbor_connect False fd n h2 = Some (h3, [Start fd, SocketSend fd [word_of_int (ha_id h)],
      SocketSend fd (frame 4 (msg @ header_to_message (header_for source 0 type session)))])"
proof -
  let ?m = "\<lparr>hm_header = header_for source 0 type session, hm_buffer = msg\<rparr>"
  let ?b = "unat (name_hash name) mod HASH_SIZE"
  let ?kv = "\<lambda>v q. \<lparr>kv_key = take GLOBALNAME_LENGTH name, kv_hash = name_hash name, kv_value = v, kv_queue = q\<rparr>"
  let ?h = "\<lambda>v q. h\<lparr>ha_map := (ha_map h)(?b := ?kv v q # ha_map h ?b)\<rparr>"
  obtain q1 where q1: "push_queue_msg ?m new_queue = Some q1" "hq_wf q1" "hq_contents q1 = [?m]"
    using hq_push_ok [OF new_queue_ok(1), of ?m] new_queue_ok(2) by auto
  have s0: "search_or_insert name h = ((?b, 0), ?h 0 None)"
    using assms(1) by (simp add: search_or_insert_def hash_insert_def Let_def)
  have u: "upd_kv (?b, 0) f (?h v q) = h\<lparr>ha_map := (ha_map h)(?b := f (?kv v q) # ha_map h ?b)\<rparr>" for f v q
    by (simp add: upd_kv_def)
  have "remote_send_name source name type session msg h = Some (1, ?h 0 (Some q1),
      [Send 0 (ha_slave h) (of_nat PTYPE_TEXT) 0 (cstr ''Q '' @ takeWhile (\<lambda>c. c \<noteq> 0) (take GLOBALNAME_LENGTH name))])"
    using q1(1) by (simp add: remote_send_name_def s0 kv_at_def u header_for_def)
  moreover have "same_name (take GLOBALNAME_LENGTH name) name" by (simp add: same_name_def)
  then have s1: "search_or_insert name (?h 0 (Some q1)) = ((?b, 0), ?h 0 (Some q1))"
    by (simp add: search_or_insert_def hash_search_def Let_def)
  let ?h2 = "upd_slave n (\<lambda>s. s\<lparr>sl_queue := Some q1\<rparr>) (?h handle None)"
  have "update_name name handle (?h 0 (Some q1)) = Some (?h2, [])"
    using assms(3,4,6)
    by (simp add: update_name_def s1 u kv_at_def dispatch_name_queue_def Let_def new_slave_def upd_slave_def release_queue_def upd_kv_def)
  moreover have "\<exists>h3. harbor_connect False fd n ?h2 = Some (h3, [Start fd, SocketSend fd [word_of_int (ha_id h)],
      SocketSend fd (frame 4 (msg @ header_to_message (header_for source 0 type session)))])"
  proof -
    obtain q' where "drain pop_queue q1 = Some ([?m], q')" "hq_wf q'" using drain_queue [OF q1(2)] q1(3) by auto
    moreover obtain ms where "release_queue (Some q') = Some ms" using release_queue_ok [of "Some q'"] calculation by auto
    moreover have "send_remote fd msg (header_for source 0 type session) =
        [SocketSend fd (frame 4 (msg @ header_to_message (header_for source 0 type session)))]"
      using send_remote_frame [of ?m fd] assms(7) by (simp add: harbor_frame_def)
    ultimately show ?thesis using assms(5) by (simp add: harbor_connect_def dispatch_queue_def Let_def handshake_def)
  qed
  ultimately show ?thesis by blast
qed


section \<open>Examples\<close>

definition harbor_ex :: "int \<Rightarrow> harbor" where
  "harbor_ex n = harbor_create\<lparr>ha_id := n, ha_slave := 0x01000004\<rparr>"

text \<open>Node 1 accepts node 2 on socket 7 (the text is "A 7 2") and sends one message to service \<open>:02000005\<close>.\<close>

definition remote_ex :: remote_message where
  "remote_ex = RemoteMessage \<lparr>rn_name = [], rn_handle = 0x02000005\<rparr> (Data [104, 105]) 2 10"

definition events_ex :: "event list" where
  "events_ex = [(Command [65, 32, 55, 32, 50], 0, 0), (Out remote_ex, 3, 0x01000008)]"

lemma harbor_ex_wf: "harbor_wf (harbor_ex n)"
  by (simp add: harbor_ex_def harbor_create_def harbor_wf_def map_wf_def hash_new_def slave_wf_def new_slave_def)

lemma link_ex: "link_ok 2 7 (harbor_ex 1)" "sl_fd (ha_s (harbor_ex 1) 2) = 0" "sl_queue (ha_s (harbor_ex 1) 2) = None"
  using harbor_ex_wf by (simp_all add: link_ok_def REMOTE_MAX_def waiting_msgs_def harbor_ex_def harbor_create_def new_slave_def)

lemma events_ex_ok: "\<forall>e \<in> set events_ex. link_event 2 7 e \<and> small e"
proof -
  have "scan_pair (str_at [55, 32, 50, 0] 0) = (7, 2)" by code_simp
  then show ?thesis by (simp add: events_ex_def remote_ex_def HANDLE_REMOTE_SHIFT_def of_char_def)
qed

definition sent_ex :: bytes where
  "sent_ex = frame 4 ([104, 105] @ header_to_message (header_for 0x01000008 0x02000005 10 3))"

lemma run_ex: "\<exists>h out. feeds (handle_event alive) (harbor_ex 1) events_ex = Some (h, out) \<and>
    sl_status (ha_s h 2) = STATUS_HEADER \<and> sent_bytes out = 1 # sent_ex"
proof -
  let ?h = "upd_slave 2 (\<lambda>s. s\<lparr>sl_fd := 7, sl_status := STATUS_HEADER\<rparr>) (harbor_ex 1)"
  have p: "scan_pair (str_at [55, 32, 50, 0] 0) = (7, 2)" by code_simp
  have "harbor_connect False 7 2 (harbor_ex 1) = Some (?h, [Start 7, SocketSend 7 [1]])"
    by (simp add: harbor_connect_def dispatch_queue_def Let_def handshake_def harbor_ex_def harbor_create_def new_slave_def)
  moreover have "sl_fd (ha_s (harbor_ex 1) 2) = 0" by (rule link_ex)
  ultimately have a: "mainloop alive (Command [65, 32, 55, 32, 50]) 0 0 (harbor_ex 1) = Some (?h, [Start 7, SocketSend 7 [1]])"
    using p by (simp add: mainloop_def harbor_command_def REMOTE_MAX_def of_char_def)
  have b: "mainloop alive (Out remote_ex) 3 0x01000008 ?h = Some (?h, [SocketSend 7 sent_ex])"
    using send_remote_frame [of "\<lparr>hm_header = header_for 0x01000008 0x02000005 10 3, hm_buffer = [104, 105]\<rparr>" 7]
    by (simp add: mainloop_def remote_ex_def remote_send_handle_def HANDLE_REMOTE_SHIFT_def header_for_def harbor_ex_def sent_ex_def
        harbor_frame_def)
  show ?thesis using a b by (simp add: events_ex_def handle_event_def)
qed

theorem harbor_stays_consistent_witness:
  "\<exists>h' out. mainloop (\<lambda>_. True) (Out remote_ex) 3 0x01000008 (harbor_ex 1) = Some (h', out) \<and> harbor_wf h'"
  by (rule harbor_stays_consistent) (simp_all add: harbor_ex_wf acceptable_def remote_ex_def)

theorem harbor_link_in_order_witness:
  "\<exists>h' out. feeds (handle_event (\<lambda>_. True)) (harbor_ex 1) events_ex = Some (h', out) \<and>
    sent_bytes out @ frames_of (waiting_msgs (ha_s h' 2)) =
    (if sl_fd (ha_s h' 2) = 0 then [] else [1]) @ frames_of (concat (map msgs_of events_ex))"
proof -
  obtain h out where r: "feeds (handle_event (\<lambda>_. True)) (harbor_ex 1) events_ex = Some (h, out)"
    "sl_status (ha_s h 2) = STATUS_HEADER" using run_ex by blast
  have "word_of_int (ha_id (harbor_ex 1)) = (1 :: u8)" by (simp add: harbor_ex_def)
  then show ?thesis using harbor_link_in_order [OF link_ex _ r(1)] r events_ex_ok by auto
qed


theorem harbor_down_swallows_witness:
  "remote_send_handle 1 0x02000005 10 3 [104] ((harbor_ex 1)\<lparr>ha_s := (\<lambda>j. new_slave)(2 := new_slave\<lparr>sl_fd := 7, sl_status := STATUS_DOWN\<rparr>)\<rparr>) =
    Some (0, (harbor_ex 1)\<lparr>ha_s := (\<lambda>j. new_slave)(2 := new_slave\<lparr>sl_fd := 7, sl_status := STATUS_DOWN\<rparr>)\<rparr>,
      send_remote 7 [104] (header_for 1 0x02000005 10 3))"
  using harbor_down_swallows [of "(harbor_ex 1)\<lparr>ha_s := (\<lambda>j. new_slave)(2 := new_slave\<lparr>sl_fd := 7, sl_status := STATUS_DOWN\<rparr>)\<rparr>" "0x02000005" 2 1 10 3 "[104]"]
  by (simp add: HANDLE_REMOTE_SHIFT_def harbor_ex_def harbor_create_def harbor_wf_def map_wf_def hash_new_def slave_wf_def new_slave_def)

theorem harbor_name_queue_loses_handle_witness:
  "\<exists>h1 q h2 h3. remote_send_name 1 (replicate 16 65) 10 3 [104] (harbor_ex 1) = Some (1, h1, q) \<and>
    update_name (replicate 16 65) 0x02000005 h1 = Some (h2, []) \<and>
    harbor_connect False 7 2 h2 = Some (h3, [Start 7, SocketSend 7 [word_of_int (ha_id (harbor_ex 1))],
      SocketSend 7 (frame 4 ([104] @ header_to_message (header_for 1 0 10 3)))])"
  by (rule harbor_name_queue_loses_handle)
    (simp_all add: harbor_ex_def harbor_create_def hash_search_def hash_new_def GLOBALNAME_LENGTH_def HANDLE_REMOTE_SHIFT_def Let_def)

end
