(* ===== verification/Locks.thy ===== *)
theory Locks
  imports Prelude
begin

text \<open>
  The locks of \<open>skynet-src/spinlock.h\<close> and \<open>skynet-src/rwlock.h\<close>, one atomic instruction at a time: every
  thread has a program counter, a step is one access to the lock of one thread, and the accesses of all
  threads interleave in any order (the \<open>__sync\<close> builtins are full barriers). The other theories take a
  region between lock and unlock as one step; the theorems here are why.
\<close>

section \<open>Spin lock\<close>

record spinlock =
  sp_lock :: int

definition spinlock_init :: spinlock where
  "spinlock_init = \<lparr>sp_lock = 0\<rparr>"

text \<open>\<open>__sync_lock_test_and_set (&lock, 1)\<close>: the old value, and the lock set.\<close>

definition spin_test_and_set :: "spinlock \<Rightarrow> int \<times> spinlock" where
  "spin_test_and_set l = (sp_lock l, l\<lparr>sp_lock := 1\<rparr>)"

text \<open>Outside, in the loop of \<open>spinlock_lock\<close>, about to run \<open>spinlock_trylock\<close>, inside, and in \<open>spinlock_unlock\<close>.\<close>

datatype spin_pc = SIdle | SSpin | STry | SHeld | SUnlock

fun spinlock_instr :: "spin_pc \<Rightarrow> spinlock \<Rightarrow> spin_pc \<times> spinlock" where
  "spinlock_instr SSpin l = (let (old, l) = spin_test_and_set l in (if old \<noteq> 0 then SSpin else SHeld, l))"
| "spinlock_instr STry l = (let (old, l) = spin_test_and_set l in (if old = 0 then SHeld else SIdle, l))"
| "spinlock_instr SUnlock l = (SIdle, l\<lparr>sp_lock := 0\<rparr>)"
| "spinlock_instr p l = (p, l)"

text \<open>A thread outside may call \<open>lock\<close> or \<open>trylock\<close>; one inside may call \<open>unlock\<close>.\<close>

inductive spin_step :: "spin_pc list \<times> spinlock \<Rightarrow> spin_pc list \<times> spinlock \<Rightarrow> bool" where
  lock: "i < length ps \<Longrightarrow> ps ! i = SIdle \<Longrightarrow> spin_step (ps, l) (ps[i := SSpin], l)"
| trylock: "i < length ps \<Longrightarrow> ps ! i = SIdle \<Longrightarrow> spin_step (ps, l) (ps[i := STry], l)"
| unlock: "i < length ps \<Longrightarrow> ps ! i = SHeld \<Longrightarrow> spin_step (ps, l) (ps[i := SUnlock], l)"
| instr: "i < length ps \<Longrightarrow> spinlock_instr (ps ! i) l = (p, l') \<Longrightarrow> spin_step (ps, l) (ps[i := p], l')"

inductive spin_reachable :: "nat \<Rightarrow> spin_pc list \<times> spinlock \<Rightarrow> bool" for n where
  start: "spin_reachable n (replicate n SIdle, spinlock_init)"
| step: "spin_reachable n s \<Longrightarrow> spin_step s s' \<Longrightarrow> spin_reachable n s'"

section \<open>Read-write lock\<close>

record rwlock =
  rw_write :: int
  rw_read :: int

definition rwlock_init :: rwlock where
  "rwlock_init = \<lparr>rw_write = 0, rw_read = 0\<rparr>"

text \<open>
  The instructions of \<open>rwlock_rlock\<close>: the inner loop that waits for \<open>write\<close> to be 0, the increment, the
  second look at \<open>write\<close>, the decrement that takes the increment back; of \<open>rwlock_wlock\<close>: the loop that
  sets \<open>write\<close>, the loop that waits for the readers; and of the two unlock functions.
\<close>

datatype rw_pc = Idle | RLoop | RAdd | RCheck | RBack | Reading | RUnlock | WSet | WWait | Writing | WUnlock

fun rwlock_instr :: "rw_pc \<Rightarrow> rwlock \<Rightarrow> rw_pc \<times> rwlock" where
  "rwlock_instr RLoop l = (if rw_write l \<noteq> 0 then RLoop else RAdd, l)"
| "rwlock_instr RAdd l = (RCheck, l\<lparr>rw_read := rw_read l + 1\<rparr>)"
| "rwlock_instr RCheck l = (if rw_write l \<noteq> 0 then RBack else Reading, l)"
| "rwlock_instr RBack l = (RLoop, l\<lparr>rw_read := rw_read l - 1\<rparr>)"
| "rwlock_instr RUnlock l = (Idle, l\<lparr>rw_read := rw_read l - 1\<rparr>)"
| "rwlock_instr WSet l = (if rw_write l \<noteq> 0 then WSet else WWait, l\<lparr>rw_write := 1\<rparr>)"
| "rwlock_instr WWait l = (if rw_read l \<noteq> 0 then WWait else Writing, l)"
| "rwlock_instr WUnlock l = (Idle, l\<lparr>rw_write := 0\<rparr>)"
| "rwlock_instr p l = (p, l)"

inductive rw_step :: "rw_pc list \<times> rwlock \<Rightarrow> rw_pc list \<times> rwlock \<Rightarrow> bool" where
  rlock: "i < length ps \<Longrightarrow> ps ! i = Idle \<Longrightarrow> rw_step (ps, l) (ps[i := RLoop], l)"
| wlock: "i < length ps \<Longrightarrow> ps ! i = Idle \<Longrightarrow> rw_step (ps, l) (ps[i := WSet], l)"
| runlock: "i < length ps \<Longrightarrow> ps ! i = Reading \<Longrightarrow> rw_step (ps, l) (ps[i := RUnlock], l)"
| wunlock: "i < length ps \<Longrightarrow> ps ! i = Writing \<Longrightarrow> rw_step (ps, l) (ps[i := WUnlock], l)"
| instr: "i < length ps \<Longrightarrow> rwlock_instr (ps ! i) l = (p, l') \<Longrightarrow> rw_step (ps, l) (ps[i := p], l')"

inductive rw_reachable :: "nat \<Rightarrow> rw_pc list \<times> rwlock \<Rightarrow> bool" for n where
  start: "rw_reachable n (replicate n Idle, rwlock_init)"
| step: "rw_reachable n s \<Longrightarrow> rw_step s s' \<Longrightarrow> rw_reachable n s'"

inductive_cases rw_stepE: "rw_step s s'"
inductive_cases spin_stepE: "spin_step s s'"

section \<open>Counting threads\<close>

text \<open>How many threads are at one of a set of instructions, and how a step of one thread changes that.\<close>

definition at :: "'p set \<Rightarrow> 'p list \<Rightarrow> int" where
  "at A ps = (\<Sum>i<length ps. if ps ! i \<in> A then 1 else 0)"

lemma at_update:
  assumes "i < length ps"
  shows "at A (ps[i := p]) = at A ps - (if ps ! i \<in> A then 1 else 0) + (if p \<in> A then 1 else 0)"
proof -
  have s: "{..<length ps} = insert i ({..<length ps} - {i})" using assms by auto
  have "(\<Sum>j \<in> {..<length ps} - {i}. if ps[i := p] ! j \<in> A then 1 else 0) =
      (\<Sum>j \<in> {..<length ps} - {i}. if ps ! j \<in> A then 1 else (0 :: int))"
    by (rule sum.cong) auto
  then show ?thesis unfolding at_def length_list_update using assms by (subst (1 2) s) (simp add: sum.insert_remove)
qed

lemma at_replicate: "at A (replicate n p) = (if p \<in> A then int n else 0)"
  by (simp add: at_def)

lemma at_two:
  assumes "i < length ps" "j < length ps" "i \<noteq> j" "ps ! i \<in> A" "ps ! j \<in> A"
  shows "2 \<le> at A ps"
proof -
  have "(\<Sum>k \<in> {i, j}. if ps ! k \<in> A then 1 else 0) \<le> at A ps"
    unfolding at_def by (rule sum_mono2) (use assms in auto)
  then show ?thesis using assms by simp
qed

lemma at_zero: "at A ps = 0 \<Longrightarrow> i < length ps \<Longrightarrow> ps ! i \<notin> A"
proof
  assume "at A ps = 0" "i < length ps" "ps ! i \<in> A"
  moreover have "(\<Sum>k \<in> {i}. if ps ! k \<in> A then 1 else 0) \<le> at A ps"
    unfolding at_def by (rule sum_mono2) (use \<open>i < length ps\<close> in auto)
  ultimately show False by simp
qed

lemma at_nonneg: "0 \<le> at A ps"
  unfolding at_def by (rule sum_nonneg) simp

section \<open>Invariants\<close>

text \<open>The lock word says whether a thread is inside.\<close>

definition spin_inv :: "spin_pc list \<times> spinlock \<Rightarrow> bool" where
  "spin_inv = (\<lambda>(ps, l). sp_lock l \<in> {0, 1} \<and> at {SHeld, SUnlock} ps = sp_lock l)"

lemma spin_inv_step: "spin_step s s' \<Longrightarrow> spin_inv s \<Longrightarrow> spin_inv s'"
proof (erule spin_stepE)
  fix i ps l p l'
  assume s: "s = (ps, l)" "s' = (ps[i := p], l')" and i: "i < length ps" "spinlock_instr (ps ! i) l = (p, l')" and inv: "spin_inv s"
  then show "spin_inv s'"
    using at_zero [of "{SHeld, SUnlock}" ps i]
    by (cases "ps ! i") (auto simp: spin_inv_def at_update spin_test_and_set_def split: if_splits)
qed (auto simp: spin_inv_def at_update)

lemma spin_reachable_inv: "spin_reachable n s \<Longrightarrow> spin_inv s"
proof (induction rule: spin_reachable.induct)
  case start
  show ?case by (simp add: spin_inv_def at_replicate spinlock_init_def)
qed (rule spin_inv_step)

text \<open>
  \<open>read\<close> counts the threads between their increment and their decrement, \<open>write\<close> says whether a thread
  has set it, and no thread reads while another writes.
\<close>

definition rw_inv :: "rw_pc list \<times> rwlock \<Rightarrow> bool" where
  "rw_inv = (\<lambda>(ps, l). rw_read l = at {RCheck, RBack, Reading, RUnlock} ps \<and>
     rw_write l \<in> {0, 1} \<and> at {WWait, Writing, WUnlock} ps = rw_write l \<and>
     (at {Writing, WUnlock} ps > 0 \<longrightarrow> at {Reading, RUnlock} ps = 0))"

lemma at_mono: "A \<subseteq> B \<Longrightarrow> at A ps \<le> at B ps"
  unfolding at_def by (rule sum_mono) auto

lemma rw_inv_step: "rw_step s s' \<Longrightarrow> rw_inv s \<Longrightarrow> rw_inv s'"
proof (erule rw_stepE)
  fix i ps l p l'
  assume s: "s = (ps, l)" "s' = (ps[i := p], l')" and i: "i < length ps" "rwlock_instr (ps ! i) l = (p, l')" and inv: "rw_inv s"
  have m: "at {Writing, WUnlock} ps \<le> at {WWait, Writing, WUnlock} ps"
    "at {Reading, RUnlock} ps \<le> at {RCheck, RBack, Reading, RUnlock} ps" by (rule at_mono; auto)+
  show "rw_inv s'"
    using s i inv m at_zero [of "{Reading, RUnlock}" ps i] at_zero [of "{WWait, Writing, WUnlock}" ps i] at_nonneg [of "{Writing, WUnlock}" ps] at_nonneg [of "{Reading, RUnlock}" ps]
    by (cases "ps ! i") (auto simp: rw_inv_def at_update split: if_splits)
qed (auto simp: rw_inv_def at_update)

lemma rw_reachable_inv: "rw_reachable n s \<Longrightarrow> rw_inv s"
proof (induction rule: rw_reachable.induct)
  case start
  show ?case by (simp add: rw_inv_def at_replicate rwlock_init_def)
qed (rule rw_inv_step)

section \<open>Properties\<close>

text \<open>A spin lock is held by one thread at most.\<close>

lemma spinlock_exclusion:
  assumes "spin_reachable n (ps, l)" "i < length ps" "j < length ps" "ps ! i = SHeld" "ps ! j = SHeld"
  shows "i = j"
proof (rule ccontr)
  assume "i \<noteq> j"
  then have "2 \<le> at {SHeld, SUnlock} ps" using at_two [of i ps j "{SHeld, SUnlock}"] assms(2-) by simp
  then show False using spin_reachable_inv [OF assms(1)] by (auto simp: spin_inv_def)
qed

text \<open>
  C17. Exclusion by the read-write lock: in every interleaving of the instructions of any number of threads,
  when one thread has the write lock, no other has the read lock or the write lock.
\<close>

theorem rwlock_exclusion:
  assumes "rw_reachable n (ps, l)" "i < length ps" "j < length ps" "i \<noteq> j" "ps ! i = Writing"
  shows "ps ! j \<noteq> Reading \<and> ps ! j \<noteq> Writing"
proof -
  have inv: "rw_inv (ps, l)" by (rule rw_reachable_inv [OF assms(1)])
  have "at {Writing, WUnlock} ps > 0"
    using at_zero [of "{Writing, WUnlock}" ps i] at_nonneg [of "{Writing, WUnlock}" ps] assms(2,5) by fastforce
  then have "ps ! j \<noteq> Reading" using at_zero [of "{Reading, RUnlock}" ps j] inv assms(3) by (auto simp: rw_inv_def)
  moreover have "ps ! j \<noteq> Writing"
    using at_two [of i ps j "{WWait, Writing, WUnlock}"] inv assms(2-) by (auto simp: rw_inv_def)
  ultimately show ?thesis by simp
qed

text \<open>
  A writer that waits is not passed by new readers: as long as it waits, no thread enters the
  read-locked region.
\<close>

lemma rwlock_writer_not_passed:
  assumes "rw_reachable n (ps, l)" "rw_step (ps, l) (ps', l')" "i < length ps" "ps ! i = WWait" "j < length ps'"
    "ps' ! j = Reading"
  shows "ps ! j = Reading"
proof -
  have "rw_inv (ps, l)" by (rule rw_reachable_inv [OF assms(1)])
  moreover have "at {WWait, Writing, WUnlock} ps > 0"
    using at_zero [of "{WWait, Writing, WUnlock}" ps i] at_nonneg [of "{WWait, Writing, WUnlock}" ps] assms(3,4) by fastforce
  ultimately have w: "rw_write l \<noteq> 0" by (auto simp: rw_inv_def)
  show ?thesis using assms(2)
  proof (cases rule: rw_step.cases)
    case (instr k p)
    then show ?thesis using assms(5,6) w
      by (cases "ps ! k") (auto simp: nth_list_update split: if_splits)
  qed (use assms(5,6) in \<open>auto simp: nth_list_update split: if_splits\<close>)
qed

theorem rwlock_exclusion_witness:
  "\<exists>l. rw_reachable 2 ([Writing, RBack], l) \<and> RBack \<noteq> Reading \<and> RBack \<noteq> Writing"
proof -
  let ?l = "\<lambda>w r. \<lparr>rw_write = w, rw_read = r\<rparr>"
  have instr: "rw_reachable 2 (ps[i := p], l')" if "rw_reachable 2 (ps, l)" "i < length ps" "rwlock_instr (ps ! i) l = (p, l')"
    for ps i p l l' using rw_reachable.step [OF that(1) rw_step.instr [OF that(2,3)]] .
  have "rw_reachable 2 ([Idle, Idle], ?l 0 0)"
    using rw_reachable.start [of 2] by (simp add: rwlock_init_def numeral_2_eq_2)
  then have "rw_reachable 2 ([WSet, Idle], ?l 0 0)" by (rule rw_reachable.step) (use rw_step.wlock [of 0 "[Idle, Idle]"] in simp)
  then have "rw_reachable 2 ([WSet, RLoop], ?l 0 0)" by (rule rw_reachable.step) (use rw_step.rlock [of 1 "[WSet, Idle]"] in simp)
  from instr [OF this, of 1] have "rw_reachable 2 ([WSet, RAdd], ?l 0 0)" by simp
  from instr [OF this, of 0] have "rw_reachable 2 ([WWait, RAdd], ?l 1 0)" by simp
  from instr [OF this, of 0] have "rw_reachable 2 ([Writing, RAdd], ?l 1 0)" by simp
  from instr [OF this, of 1] have "rw_reachable 2 ([Writing, RCheck], ?l 1 1)" by simp
  from instr [OF this, of 1] have "rw_reachable 2 ([Writing, RBack], ?l 1 1)" by simp
  then show ?thesis using rwlock_exclusion [of 2 "[Writing, RBack]" _ 0 1] by fastforce
qed

end
