(* ===== verification/Posix.thy ===== *)
theory Posix
  imports Cstr
begin

text \<open>
  The operating system, as \<open>skynet-src/socket_server.c\<close> uses it: a record of system calls over a world of
  any type, and the wrapper \<open>skynet-src/socket_epoll.h\<close> around epoll. Nothing is assumed of the calls
  here; \<open>posix_write\<close> names the one documented fact that theorems rely on.
\<close>

section \<open>System calls\<close>

datatype errno = EINTR | EAGAIN | EINPROGRESS | EMFILE | ENFILE | Errno nat

text \<open>
  A socket address: port and address as the bytes in memory (network order), 4 of them for IPv4 and 16
  for IPv6.
\<close>

datatype sockaddr = Sockaddr_in (sa_port: bytes) (sa_addr: bytes) | Sockaddr_in6 (sa_port: bytes) (sa_addr: bytes)

datatype family = AF_INET | AF_INET6

datatype socktype = SOCK_STREAM | SOCK_DGRAM

text \<open>The events of \<open>epoll_ctl\<close>: the interest in reading and in writing, and the pointer handed back.\<close>

datatype epoll_op = EPOLL_CTL_ADD | EPOLL_CTL_MOD | EPOLL_CTL_DEL

record epoll_event =
  epoll_in :: bool
  epoll_out :: bool
  epoll_err :: bool
  epoll_hup :: bool
  epoll_ptr :: "nat option"

text \<open>
  A call returns \<open>Inl\<close> with the error number where the C function returns -1; \<open>epoll_ctl\<close>, which
  has no other result, the error or \<open>None\<close>. \<open>sys_trylock\<close> says whether
  another thread holds the lock of a socket; \<open>sys_select\<close> whether \<open>select\<close> on the control pipe itself
  succeeds; \<open>sys_epoll_wait\<close> returns the value of \<open>errno\<close> next to the events.
\<close>

record 'w sys =
  sys_write :: "int \<Rightarrow> bytes \<Rightarrow> 'w \<Rightarrow> (errno + nat) \<times> 'w"
  sys_read :: "int \<Rightarrow> nat \<Rightarrow> 'w \<Rightarrow> (errno + bytes) \<times> 'w"
  sys_sendto :: "int \<Rightarrow> bytes \<Rightarrow> sockaddr \<Rightarrow> 'w \<Rightarrow> (errno + nat) \<times> 'w"
  sys_recvfrom :: "int \<Rightarrow> nat \<Rightarrow> 'w \<Rightarrow> (errno + bytes \<times> sockaddr) \<times> 'w"
  sys_close :: "int \<Rightarrow> 'w \<Rightarrow> 'w"
  sys_accept :: "int \<Rightarrow> 'w \<Rightarrow> (errno + int \<times> sockaddr) \<times> 'w"
  sys_socket :: "family \<Rightarrow> socktype \<Rightarrow> 'w \<Rightarrow> (errno + int) \<times> 'w"
  sys_connect :: "int \<Rightarrow> sockaddr \<Rightarrow> 'w \<Rightarrow> (errno + unit) \<times> 'w"
  sys_bind :: "int \<Rightarrow> sockaddr \<Rightarrow> 'w \<Rightarrow> (errno + unit) \<times> 'w"
  sys_listen :: "int \<Rightarrow> int \<Rightarrow> 'w \<Rightarrow> (errno + unit) \<times> 'w"
  sys_nonblocking :: "int \<Rightarrow> 'w \<Rightarrow> 'w"
  sys_keepalive :: "int \<Rightarrow> 'w \<Rightarrow> 'w"
  sys_reuseaddr :: "int \<Rightarrow> 'w \<Rightarrow> (errno + unit) \<times> 'w"
  sys_tcp_option :: "int \<Rightarrow> int \<Rightarrow> int \<Rightarrow> 'w \<Rightarrow> 'w"
  sys_so_error :: "int \<Rightarrow> 'w \<Rightarrow> (errno + errno option) \<times> 'w"
  sys_getpeername :: "int \<Rightarrow> 'w \<Rightarrow> sockaddr option \<times> 'w"
  sys_getsockname :: "int \<Rightarrow> 'w \<Rightarrow> sockaddr option \<times> 'w"
  sys_getaddrinfo :: "string \<Rightarrow> int \<Rightarrow> socktype \<Rightarrow> 'w \<Rightarrow> (int + (family \<times> sockaddr) list) \<times> 'w"
  sys_pipe :: "'w \<Rightarrow> (errno + int \<times> int) \<times> 'w"
  sys_epoll_create :: "'w \<Rightarrow> (errno + int) \<times> 'w"
  sys_epoll_ctl :: "int \<Rightarrow> epoll_op \<Rightarrow> int \<Rightarrow> epoll_event \<Rightarrow> 'w \<Rightarrow> errno option \<times> 'w"
  sys_epoll_wait :: "int \<Rightarrow> nat \<Rightarrow> 'w \<Rightarrow> (errno \<times> epoll_event list) \<times> 'w"
  sys_select :: "int \<Rightarrow> 'w \<Rightarrow> bool \<times> 'w"
  sys_trylock :: "nat \<Rightarrow> 'w \<Rightarrow> bool \<times> 'w"
  sys_malloc :: "nat \<Rightarrow> 'w \<Rightarrow> nat \<times> 'w"
  sys_strerror :: "errno \<Rightarrow> string"
  sys_gai_strerror :: "int \<Rightarrow> string"
  sys_inet_ntop :: "sockaddr \<Rightarrow> string option"

section \<open>The wrapper around epoll\<close>

record event =
  e_s :: "nat option"
  e_read :: bool
  e_write :: bool
  e_error :: bool
  e_eof :: bool

text \<open>\<open>Some e\<close> where the code returns 1 with \<open>errno\<close> set.\<close>

definition sp_add :: "'w sys \<Rightarrow> int \<Rightarrow> int \<Rightarrow> nat option \<Rightarrow> 'w \<Rightarrow> errno option \<times> 'w" where
  "sp_add sys efd sock ud w =
     sys_epoll_ctl sys efd EPOLL_CTL_ADD sock
       \<lparr>epoll_in = True, epoll_out = False, epoll_err = False, epoll_hup = False, epoll_ptr = ud\<rparr> w"

definition sp_del :: "'w sys \<Rightarrow> int \<Rightarrow> int \<Rightarrow> 'w \<Rightarrow> 'w" where
  "sp_del sys efd sock w =
     snd (sys_epoll_ctl sys efd EPOLL_CTL_DEL sock
       \<lparr>epoll_in = False, epoll_out = False, epoll_err = False, epoll_hup = False, epoll_ptr = None\<rparr> w)"

definition sp_write :: "'w sys \<Rightarrow> int \<Rightarrow> int \<Rightarrow> nat \<Rightarrow> bool \<Rightarrow> 'w \<Rightarrow> 'w" where
  "sp_write sys efd sock ud enable w =
     snd (sys_epoll_ctl sys efd EPOLL_CTL_MOD sock
       \<lparr>epoll_in = True, epoll_out = enable, epoll_err = False, epoll_hup = False, epoll_ptr = Some ud\<rparr> w)"

definition sp_event :: "epoll_event \<Rightarrow> event" where
  "sp_event ev =
     \<lparr>e_s = epoll_ptr ev, e_read = (epoll_in ev \<or> epoll_hup ev), e_write = epoll_out ev, e_error = epoll_err ev,
      e_eof = False\<rparr>"

definition sp_wait :: "'w sys \<Rightarrow> int \<Rightarrow> nat \<Rightarrow> 'w \<Rightarrow> (errno \<times> event list) \<times> 'w" where
  "sp_wait sys efd n w =
     (let ((e, evs), w) = sys_epoll_wait sys efd n w in ((e, map sp_event evs), w))"

section \<open>Documented behaviour\<close>

text \<open>What POSIX says of \<open>write\<close>: it takes a prefix of the buffer.\<close>

definition posix_write :: "'w sys \<Rightarrow> bool" where
  "posix_write sys \<longleftrightarrow> (\<forall>fd buf w n. fst (sys_write sys fd buf w) = Inr n \<longrightarrow> n \<le> length buf)"

end
