(* ===== verification/SocketServer.thy ===== *)
theory SocketServer
  imports Posix
begin

text \<open>
  The socket server, \<open>skynet-src/socket_server.c\<close>. Its thread runs \<open>socket_server_poll\<close>; the other
  functions of its interface run in worker threads and reach the socket thread through the control pipe,
  except that \<open>socket_server_send\<close> may write to a descriptor itself when nothing waits to be written.
  A step of the model is one call of an interface function or one turn of the loop of
  \<open>socket_server_poll\<close>. A function that meets an assertion that does not hold, calls through a null
  pointer or waits in a busy loop has no result (\<open>None\<close>).
\<close>

unbundle bit_operations_syntax

section \<open>State\<close>

definition MAX_INFO :: nat where "MAX_INFO = 128"
definition MAX_SOCKET_P :: nat where "MAX_SOCKET_P = 16"
definition MAX_SOCKET :: nat where "MAX_SOCKET = 65536"
definition MAX_EVENT :: nat where "MAX_EVENT = 64"
definition MIN_READ_BUFFER :: nat where "MIN_READ_BUFFER = 64"
definition MAX_UDP_PACKAGE :: nat where "MAX_UDP_PACKAGE = 65535"
definition WARNING_SIZE :: int where "WARNING_SIZE = 1024 * 1024"
definition UDP_ADDRESS_SIZE :: nat where "UDP_ADDRESS_SIZE = 19"

datatype socket_type =
  SOCKET_TYPE_INVALID | SOCKET_TYPE_RESERVE | SOCKET_TYPE_PLISTEN | SOCKET_TYPE_LISTEN | SOCKET_TYPE_CONNECTING
| SOCKET_TYPE_CONNECTED | SOCKET_TYPE_HALFCLOSE | SOCKET_TYPE_PACCEPT | SOCKET_TYPE_BIND

datatype priority = PRIORITY_HIGH | PRIORITY_LOW

datatype reading = READING_PAUSE | READING_RESUME | READING_CLOSE

datatype protocol = PROTOCOL_TCP | PROTOCOL_UDP | PROTOCOL_UDPv6 | PROTOCOL_UNKNOWN

fun protocol_code :: "protocol \<Rightarrow> u8" where
  "protocol_code PROTOCOL_TCP = 0"
| "protocol_code PROTOCOL_UDP = 1"
| "protocol_code PROTOCOL_UDPv6 = 2"
| "protocol_code PROTOCOL_UNKNOWN = 255"

definition HASH_ID :: "int \<Rightarrow> nat" where
  "HASH_ID sid = nat (sid mod int MAX_SOCKET)"

definition ID_TAG16 :: "int \<Rightarrow> u32" where
  "ID_TAG16 sid = word_of_int (sid div int MAX_SOCKET) AND 0xffff"

text \<open>
  A buffer of a caller: memory at an address, or (a size of \<open>USEROBJECT\<close>) an object only the object
  interface can look into. \<open>SOCKET_BUFFER_RAWPOINTER\<close> stays the caller's.
\<close>

datatype cbuffer = Memory (cb_addr: nat) (cb_bytes: bytes) | Object (cb_addr: nat)

datatype sendbuffer_data =
  SOCKET_BUFFER_MEMORY nat bytes | SOCKET_BUFFER_OBJECT nat | SOCKET_BUFFER_RAWPOINTER nat bytes

record socket_sendbuffer =
  sb_id :: int
  sb_buffer :: sendbuffer_data

record socket_object_interface =
  soi_buffer :: "nat \<Rightarrow> nat"
  soi_content :: "nat \<Rightarrow> bytes"

text \<open>
  A write buffer: what it was made from, the address of the next byte to write and the bytes from there,
  and the UDP address when it was allocated with room for one (\<open>SIZEOF_UDPBUFFER\<close>).
\<close>

record write_buffer =
  wb_buffer :: cbuffer
  wb_ptr :: nat
  wb_data :: bytes
  wb_udp_address :: "bytes option"

record socket_stat =
  st_rtime :: u64
  st_wtime :: u64
  st_read :: u64
  st_write :: u64

datatype socket_p = P_size nat | P_udp_address bytes

text \<open>
  A socket. The last two fields are not in the code: they record what happened on the descriptor since
  \<open>new_fd\<close>, namely the bytes \<open>write\<close> accepted and the calls of \<open>epoll_ctl\<close> with their interest in writing.
\<close>

record socket =
  so_opaque :: u64
  so_high :: "write_buffer list"
  so_low :: "write_buffer list"
  so_wb_size :: int
  so_stat :: socket_stat
  so_sending :: u32
  so_fd :: int
  so_id :: int
  so_protocol :: protocol
  so_type :: socket_type
  so_reading :: reading
  so_udpconnecting :: int
  so_warn_size :: int
  so_p :: socket_p
  so_dw_offset :: nat
  so_dw_buffer :: "cbuffer option"
  so_wire :: bytes
  so_polls :: "(epoll_op \<times> bool) list"

datatype message_data = Nothing | Text string | Bytes bytes

record socket_message =
  re_id :: int
  re_opaque :: u64
  re_ud :: int
  re_data :: message_data

datatype poll_type =
  SOCKET_DATA | SOCKET_CLOSE | SOCKET_OPEN | SOCKET_ACCEPT | SOCKET_ERR | SOCKET_EXIT | SOCKET_UDP | SOCKET_WARNING

text \<open>
  The requests on the control pipe (\<open>struct request_package\<close>), one constructor per letter. A request is
  written and read whole, so the pipe is a list of requests.
\<close>

datatype request =
  Resume int u64
| Pause int u64
| Bind int int u64
| Listen int int u64
| Close int bool u64
| Open int int u64 string
| Exit
| Send priority int cbuffer
| SendUdp int cbuffer bytes
| SetUdp int bytes
| Setopt int int int
| Udp int int family u64

text \<open>
  \<open>ss_ev\<close> are the \<open>event_n\<close> events of the last wait, \<open>ss_pipe\<close> stands for the pipe behind \<open>recvctrl_fd\<close> and \<open>sendctrl_fd\<close>, \<open>ss_os\<close> for the operating system,
  and \<open>ss_freed\<close> records the buffers given back with \<open>FREE\<close> or the \<open>free\<close> of the object interface.
\<close>

record 'w socket_server =
  ss_time :: u64
  ss_recvctrl_fd :: int
  ss_sendctrl_fd :: int
  ss_checkctrl :: bool
  ss_event_fd :: int
  ss_alloc_id :: u32
  ss_event_index :: nat
  ss_soi :: "socket_object_interface option"
  ss_ev :: "event list"
  ss_slot :: "nat \<Rightarrow> socket"
  ss_pipe :: "request list"
  ss_freed :: "cbuffer list"
  ss_os :: 'w

text \<open>A system call on the world inside the server, and an update of one slot.\<close>

definition call :: "('w \<Rightarrow> 'a \<times> 'w) \<Rightarrow> 'w socket_server \<Rightarrow> 'a \<times> 'w socket_server" where
  "call f ss = (let (r, w) = f (ss_os ss) in (r, ss\<lparr>ss_os := w\<rparr>))"

definition run :: "('w \<Rightarrow> 'w) \<Rightarrow> 'w socket_server \<Rightarrow> 'w socket_server" where
  "run f ss = ss\<lparr>ss_os := f (ss_os ss)\<rparr>"

definition upd_sock :: "nat \<Rightarrow> (socket \<Rightarrow> socket) \<Rightarrow> 'w socket_server \<Rightarrow> 'w socket_server" where
  "upd_sock i f ss = ss\<lparr>ss_slot := (ss_slot ss)(i := f (ss_slot ss i))\<rparr>"

text \<open>Watching the descriptor of a slot.\<close>

definition watch :: "'w sys \<Rightarrow> nat \<Rightarrow> int \<Rightarrow> 'w socket_server \<Rightarrow> errno option \<times> 'w socket_server" where
  "watch sys i fd ss =
     (let (failed, ss) = call (sp_add sys (ss_event_fd ss) fd (Some i)) ss
      in (failed, upd_sock i (\<lambda>s. s\<lparr>so_polls := so_polls s @ (if failed = None then [(EPOLL_CTL_ADD, False)] else [])\<rparr>) ss))"

definition unwatch :: "'w sys \<Rightarrow> nat \<Rightarrow> 'w socket_server \<Rightarrow> 'w socket_server" where
  "unwatch sys i ss =
     upd_sock i (\<lambda>s. s\<lparr>so_polls := so_polls s @ [(EPOLL_CTL_DEL, False)]\<rparr>)
       (run (sp_del sys (ss_event_fd ss) (so_fd (ss_slot ss i))) ss)"

definition watch_write :: "'w sys \<Rightarrow> nat \<Rightarrow> bool \<Rightarrow> 'w socket_server \<Rightarrow> 'w socket_server" where
  "watch_write sys i enable ss =
     upd_sock i (\<lambda>s. s\<lparr>so_polls := so_polls s @ [(EPOLL_CTL_MOD, enable)]\<rparr>)
       (run (sp_write sys (ss_event_fd ss) (so_fd (ss_slot ss i)) i enable) ss)"

section \<open>Buffers\<close>

text \<open>\<open>send_object_init\<close>: the address of the data and the data.\<close>

definition send_object_init :: "'w socket_server \<Rightarrow> cbuffer \<Rightarrow> (nat \<times> bytes) option" where
  "send_object_init ss b =
     (case b of
        Memory a bs \<Rightarrow> Some (a, bs)
      | Object a \<Rightarrow> do { soi \<leftarrow> ss_soi ss; Some (soi_buffer soi a, soi_content soi a) })"

definition FREE :: "cbuffer \<Rightarrow> 'w socket_server \<Rightarrow> 'w socket_server option" where
  "FREE b ss =
     (if (case b of Object _ \<Rightarrow> ss_soi ss = None | _ \<Rightarrow> False) then None
      else Some (ss\<lparr>ss_freed := ss_freed ss @ [b]\<rparr>))"

definition write_buffer_free :: "write_buffer \<Rightarrow> 'w socket_server \<Rightarrow> 'w socket_server option" where
  "write_buffer_free wb ss = FREE (wb_buffer wb) ss"

primrec free_wb_list :: "write_buffer list \<Rightarrow> 'w socket_server \<Rightarrow> 'w socket_server option" where
  "free_wb_list [] ss = Some ss"
| "free_wb_list (wb # wbs) ss = do { ss \<leftarrow> write_buffer_free wb ss; free_wb_list wbs ss }"

definition free_buffer :: "socket_sendbuffer \<Rightarrow> 'w socket_server \<Rightarrow> 'w socket_server option" where
  "free_buffer buf ss =
     (case sb_buffer buf of
        SOCKET_BUFFER_MEMORY a bs \<Rightarrow> FREE (Memory a bs) ss
      | SOCKET_BUFFER_OBJECT a \<Rightarrow> FREE (Object a) ss
      | SOCKET_BUFFER_RAWPOINTER a bs \<Rightarrow> Some ss)"

definition clone_buffer :: "'w sys \<Rightarrow> socket_sendbuffer \<Rightarrow> 'w socket_server \<Rightarrow> cbuffer \<times> 'w socket_server" where
  "clone_buffer sys buf ss =
     (case sb_buffer buf of
        SOCKET_BUFFER_MEMORY a bs \<Rightarrow> (Memory a bs, ss)
      | SOCKET_BUFFER_OBJECT a \<Rightarrow> (Object a, ss)
      | SOCKET_BUFFER_RAWPOINTER a bs \<Rightarrow>
          (let (tmp, ss) = call (sys_malloc sys (length bs)) ss in (Memory tmp bs, ss)))"

definition sendbuffer_content :: "'w socket_server \<Rightarrow> socket_sendbuffer \<Rightarrow> bytes option" where
  "sendbuffer_content ss buf =
     (case sb_buffer buf of
        SOCKET_BUFFER_MEMORY a bs \<Rightarrow> Some bs
      | SOCKET_BUFFER_OBJECT a \<Rightarrow> map_option snd (send_object_init ss (Object a))
      | SOCKET_BUFFER_RAWPOINTER a bs \<Rightarrow> Some bs)"

section \<open>Slots\<close>

definition reserve_loop_body :: "'w socket_server \<Rightarrow> int \<times> 'w socket_server" where
  "reserve_loop_body ss =
     (let sid = ss_alloc_id ss + 1 in
      if sint sid < 0 then (sint (sid AND 0x7fffffff), ss\<lparr>ss_alloc_id := sid AND 0x7fffffff\<rparr>)
      else (sint sid, ss\<lparr>ss_alloc_id := sid\<rparr>))"

primrec reserve_loop :: "nat \<Rightarrow> 'w socket_server \<Rightarrow> int \<times> 'w socket_server" where
  "reserve_loop 0 ss = (- 1, ss)"
| "reserve_loop (Suc n) ss =
     (let (sid, ss) = reserve_loop_body ss; i = HASH_ID sid in
      if so_type (ss_slot ss i) = SOCKET_TYPE_INVALID then
        (sid, upd_sock i (\<lambda>s. s\<lparr>so_type := SOCKET_TYPE_RESERVE, so_id := sid, so_protocol := PROTOCOL_UNKNOWN,
                              so_udpconnecting := 0, so_fd := - 1\<rparr>) ss)
      else reserve_loop n ss)"

definition reserve_id :: "'w socket_server \<Rightarrow> int \<times> 'w socket_server" where
  "reserve_id ss = reserve_loop MAX_SOCKET ss"

text \<open>\<open>mem\<close> are the contents of the fresh memory of the slots.\<close>

definition socket_server_create :: "'w sys \<Rightarrow> (nat \<Rightarrow> socket) \<Rightarrow> u64 \<Rightarrow> 'w \<Rightarrow> 'w socket_server option \<times> 'w" where
  "socket_server_create sys mem time w =
     (case sys_epoll_create sys w of
        (Inl _, w) \<Rightarrow> (None, w)
      | (Inr efd, w) \<Rightarrow>
          (case sys_pipe sys w of
             (Inl _, w) \<Rightarrow> (None, sys_close sys efd w)
           | (Inr (fd0, fd1), w) \<Rightarrow>
               (case sp_add sys efd fd0 None w of
                  (Some _, w) \<Rightarrow> (None, sys_close sys efd (sys_close sys fd1 (sys_close sys fd0 w)))
                | (None, w) \<Rightarrow>
                    (Some \<lparr>ss_time = time, ss_recvctrl_fd = fd0, ss_sendctrl_fd = fd1, ss_checkctrl = True,
                           ss_event_fd = efd, ss_alloc_id = 0, ss_event_index = 0,
                           ss_soi = None, ss_ev = [],
                           ss_slot = (\<lambda>i. (mem i)\<lparr>so_type := SOCKET_TYPE_INVALID, so_high := [], so_low := []\<rparr>),
                           ss_pipe = [], ss_freed = [], ss_os = w\<rparr>, w))))"

definition socket_server_updatetime :: "u64 \<Rightarrow> 'w socket_server \<Rightarrow> 'w socket_server" where
  "socket_server_updatetime time ss = ss\<lparr>ss_time := time\<rparr>"

definition no_message :: "socket \<Rightarrow> socket_message" where
  "no_message s = \<lparr>re_id = so_id s, re_opaque = so_opaque s, re_ud = 0, re_data = Nothing\<rparr>"

text \<open>What \<open>force_close\<close> does to the slot and its descriptor between freeing the lists and the direct write buffer.\<close>

definition shut_slot :: "'w sys \<Rightarrow> nat \<Rightarrow> 'w socket_server \<Rightarrow> 'w socket_server" where
  "shut_slot sys i ss =
     (let s = ss_slot ss i;
          ss = upd_sock i (\<lambda>s. s\<lparr>so_high := [], so_low := []\<rparr>) ss;
          ss = (if so_reading s = READING_RESUME then unwatch sys i ss else ss);
          ss = upd_sock i (\<lambda>s. s\<lparr>so_reading := READING_CLOSE\<rparr>) ss;
          ss = (if so_type s \<noteq> SOCKET_TYPE_BIND then run (sys_close sys (so_fd s)) ss else ss)
      in upd_sock i (\<lambda>s. s\<lparr>so_type := SOCKET_TYPE_INVALID\<rparr>) ss)"

definition force_close :: "'w sys \<Rightarrow> nat \<Rightarrow> 'w socket_server \<Rightarrow> (socket_message \<times> 'w socket_server) option" where
  "force_close sys i ss =
     (let s = ss_slot ss i; result = no_message s in
      if so_type s = SOCKET_TYPE_INVALID then Some (result, ss)
      else if so_type s = SOCKET_TYPE_RESERVE then None
      else do {
        ss \<leftarrow> free_wb_list (so_high s) ss;
        ss \<leftarrow> free_wb_list (so_low s) ss;
        let ss = shut_slot sys i ss;
        ss \<leftarrow> (case so_dw_buffer s of None \<Rightarrow> Some ss | Some b \<Rightarrow> FREE b ss);
        Some (result, upd_sock i (\<lambda>s. s\<lparr>so_dw_buffer := None\<rparr>) ss)
      })"

primrec release_loop :: "'w sys \<Rightarrow> nat list \<Rightarrow> 'w socket_server \<Rightarrow> 'w socket_server option" where
  "release_loop sys [] ss = Some ss"
| "release_loop sys (i # is) ss = do {
     ss \<leftarrow> (if so_type (ss_slot ss i) \<noteq> SOCKET_TYPE_RESERVE then map_option snd (force_close sys i ss) else Some ss);
     release_loop sys is ss
   }"

definition socket_server_release :: "'w sys \<Rightarrow> 'w socket_server \<Rightarrow> 'w socket_server option" where
  "socket_server_release sys ss = do {
     ss \<leftarrow> release_loop sys [0..<MAX_SOCKET] ss;
     Some (run (sys_close sys (ss_event_fd ss)) (run (sys_close sys (ss_recvctrl_fd ss))
       (run (sys_close sys (ss_sendctrl_fd ss)) ss)))
   }"

text \<open>\<open>new_fd\<close> returns whether it succeeded.\<close>

definition new_fd ::
  "'w sys \<Rightarrow> int \<Rightarrow> int \<Rightarrow> protocol \<Rightarrow> u64 \<Rightarrow> bool \<Rightarrow> 'w socket_server \<Rightarrow> (bool \<times> 'w socket_server) option" where
  "new_fd sys sid fd protocol opaque add ss =
     (let i = HASH_ID sid; ss0 = upd_sock i (\<lambda>s. s\<lparr>so_polls := [], so_wire := []\<rparr>) ss in
      if so_type (ss_slot ss i) \<noteq> SOCKET_TYPE_RESERVE then None
      else
        let (failed, ss) = (if add then watch sys i fd ss0 else (None, ss0)) in
        if failed \<noteq> None then Some (False, upd_sock i (\<lambda>s. s\<lparr>so_type := SOCKET_TYPE_INVALID\<rparr>) ss)
        else if so_high (ss_slot ss i) \<noteq> [] \<or> so_low (ss_slot ss i) \<noteq> [] then None
        else Some (True, upd_sock i (\<lambda>s. s\<lparr>
          so_id := sid,
          so_fd := fd,
          so_reading := (if add then READING_RESUME else READING_PAUSE),
          so_sending := push_bit 16 (ID_TAG16 sid),
          so_protocol := protocol,
          so_p := P_size MIN_READ_BUFFER,
          so_opaque := opaque,
          so_wb_size := 0,
          so_warn_size := 0,
          so_dw_buffer := None,
          so_stat := \<lparr>st_rtime = 0, st_wtime = 0, st_read = 0, st_write = 0\<rparr>\<rparr>) ss))"

definition stat_read :: "nat \<Rightarrow> nat \<Rightarrow> 'w socket_server \<Rightarrow> 'w socket_server" where
  "stat_read i n ss =
     upd_sock i (\<lambda>s. s\<lparr>so_stat := (so_stat s)\<lparr>st_read := st_read (so_stat s) + of_nat n, st_rtime := ss_time ss\<rparr>\<rparr>) ss"

definition stat_write :: "nat \<Rightarrow> nat \<Rightarrow> 'w socket_server \<Rightarrow> 'w socket_server" where
  "stat_write i n ss =
     upd_sock i (\<lambda>s. s\<lparr>so_stat := (so_stat s)\<lparr>st_write := st_write (so_stat s) + of_nat n, st_wtime := ss_time ss\<rparr>\<rparr>) ss"

section \<open>Connecting\<close>

text \<open>
  The loop of \<open>open_socket\<close> over the addresses: \<open>socket\<close>, the options, \<open>connect\<close>. It returns the connected
  or connecting descriptor with its address, or the error of the last call that failed.
\<close>

primrec connect_loop ::
  "'w sys \<Rightarrow> errno \<Rightarrow> (family \<times> sockaddr) list \<Rightarrow> 'w socket_server \<Rightarrow> (errno + int \<times> bool \<times> sockaddr) \<times> 'w socket_server" where
  "connect_loop sys err [] ss = (Inl err, ss)"
| "connect_loop sys err (ai # ais) ss =
     (case call (sys_socket sys (fst ai) SOCK_STREAM) ss of
        (Inl e, ss) \<Rightarrow> connect_loop sys e ais ss
      | (Inr sock, ss) \<Rightarrow>
          (let ss = run (sys_nonblocking sys sock) (run (sys_keepalive sys sock) ss) in
           case call (sys_connect sys sock (snd ai)) ss of
             (Inr _, ss) \<Rightarrow> (Inr (sock, True, snd ai), ss)
           | (Inl e, ss) \<Rightarrow>
               if e = EINPROGRESS then (Inr (sock, False, snd ai), ss)
               else connect_loop sys e ais (run (sys_close sys sock) ss)))"

definition text_or_null :: "string option \<Rightarrow> message_data" where
  "text_or_null x = (case x of Some t \<Rightarrow> Text t | None \<Rightarrow> Nothing)"

text \<open>
  What a request reports: nothing (the -1 of the code), or the type of a message and the message.
\<close>

type_synonym report = "(poll_type \<times> socket_message) option"

definition limit_error :: string where
  "limit_error = ''reach skynet socket number limit''"

definition open_socket ::
  "'w sys \<Rightarrow> int \<Rightarrow> int \<Rightarrow> u64 \<Rightarrow> string \<Rightarrow> 'w socket_server \<Rightarrow> (report \<times> 'w socket_server) option" where
  "open_socket sys sid port opaque host ss =
     (let result = (\<lambda>data. \<lparr>re_id = sid, re_opaque = opaque, re_ud = 0, re_data = data\<rparr>);
          failed = (\<lambda>text ss. Some (Some (SOCKET_ERR, result (Text text)),
                                    upd_sock (HASH_ID sid) (\<lambda>s. s\<lparr>so_type := SOCKET_TYPE_INVALID\<rparr>) ss)) in
      case call (sys_getaddrinfo sys host port SOCK_STREAM) ss of
        (Inl status, ss) \<Rightarrow> failed (sys_gai_strerror sys status) ss
      | (Inr ai_list, ss) \<Rightarrow>
          (case connect_loop sys (Errno 0) ai_list ss of
             (Inl e, ss) \<Rightarrow> failed (sys_strerror sys e) ss
           | (Inr (sock, connected, addr), ss) \<Rightarrow> do {
               (ns, ss) \<leftarrow> new_fd sys sid sock PROTOCOL_TCP opaque True ss;
               if \<not> ns then failed limit_error (run (sys_close sys sock) ss)
               else if connected then
                 Some (Some (SOCKET_OPEN, result (text_or_null (sys_inet_ntop sys addr))),
                       upd_sock (HASH_ID sid) (\<lambda>s. s\<lparr>so_type := SOCKET_TYPE_CONNECTED\<rparr>) ss)
               else
                 Some (None, watch_write sys (HASH_ID sid) True
                               (upd_sock (HASH_ID sid) (\<lambda>s. s\<lparr>so_type := SOCKET_TYPE_CONNECTING\<rparr>) ss))
             }))"

section \<open>Writing\<close>

text \<open>\<open>write\<close>, tried again as long as it is interrupted.\<close>

partial_function (option) write_retry ::
  "'w sys \<Rightarrow> int \<Rightarrow> bytes \<Rightarrow> 'w socket_server \<Rightarrow> ((errno + nat) \<times> 'w socket_server) option" where
  "write_retry sys fd buf ss =
     (case call (sys_write sys fd buf) ss of
        (Inl e, ss) \<Rightarrow> if e = EINTR then write_retry sys fd buf ss else Some (Inl e, ss)
      | (Inr n, ss) \<Rightarrow> Some (Inr n, ss))"

text \<open>The two write lists of a socket.\<close>

definition wb_list :: "priority \<Rightarrow> socket \<Rightarrow> write_buffer list" where
  "wb_list pr s = (case pr of PRIORITY_HIGH \<Rightarrow> so_high s | PRIORITY_LOW \<Rightarrow> so_low s)"

definition set_wb_list :: "priority \<Rightarrow> write_buffer list \<Rightarrow> socket \<Rightarrow> socket" where
  "set_wb_list pr l s = (case pr of PRIORITY_HIGH \<Rightarrow> s\<lparr>so_high := l\<rparr> | PRIORITY_LOW \<Rightarrow> s\<lparr>so_low := l\<rparr>)"

primrec write_tcp ::
  "'w sys \<Rightarrow> nat \<Rightarrow> priority \<Rightarrow> write_buffer list \<Rightarrow> 'w socket_server \<Rightarrow> (report \<times> 'w socket_server) option" where
  "write_tcp sys i pr [] ss = Some (None, ss)"
| "write_tcp sys i pr (tmp # rest) ss = do {
     (r, ss) \<leftarrow> write_retry sys (so_fd (ss_slot ss i)) (wb_data tmp) ss;
     case r of
       Inl e \<Rightarrow>
         if e = EAGAIN then Some (None, ss)
         else do { (result, ss) \<leftarrow> force_close sys i ss; Some (Some (SOCKET_CLOSE, result), ss) }
     | Inr sz \<Rightarrow> do {
         let ss = stat_write i sz ss;
         let ss = upd_sock i (\<lambda>s. s\<lparr>so_wb_size := so_wb_size s - int sz, so_wire := so_wire s @ take sz (wb_data tmp)\<rparr>) ss;
         if sz \<noteq> length (wb_data tmp) then
           Some (None, upd_sock i (set_wb_list pr (tmp\<lparr>wb_ptr := wb_ptr tmp + sz, wb_data := drop sz (wb_data tmp)\<rparr> # rest)) ss)
         else do {
           ss \<leftarrow> write_buffer_free tmp (upd_sock i (set_wb_list pr rest) ss);
           write_tcp sys i pr rest ss
         }
       }
   }"

definition send_list_tcp :: "'w sys \<Rightarrow> nat \<Rightarrow> priority \<Rightarrow> 'w socket_server \<Rightarrow> (report \<times> 'w socket_server) option" where
  "send_list_tcp sys i pr ss = write_tcp sys i pr (wb_list pr (ss_slot ss i)) ss"

text \<open>The address for \<open>sendto\<close>, when the type of the address (its first byte) is the protocol of the socket.\<close>

definition udp_socket_address :: "protocol \<Rightarrow> bytes \<Rightarrow> sockaddr option" where
  "udp_socket_address protocol udp_address =
     (if udp_address = [] \<or> hd udp_address \<noteq> protocol_code protocol then None
      else case protocol of
        PROTOCOL_UDP \<Rightarrow> Some (Sockaddr_in (take 2 (drop 1 udp_address)) (take 4 (drop 3 udp_address)))
      | PROTOCOL_UDPv6 \<Rightarrow> Some (Sockaddr_in6 (take 2 (drop 1 udp_address)) (take 16 (drop 3 udp_address)))
      | _ \<Rightarrow> None)"

definition drop_udp :: "nat \<Rightarrow> priority \<Rightarrow> write_buffer \<Rightarrow> write_buffer list \<Rightarrow> 'w socket_server \<Rightarrow> 'w socket_server option" where
  "drop_udp i pr tmp rest ss =
     write_buffer_free tmp
       (upd_sock i (\<lambda>s. set_wb_list pr rest (s\<lparr>so_wb_size := so_wb_size s - int (length (wb_data tmp))\<rparr>)) ss)"

text \<open>
  A buffer without room for an address must not be in the list of a UDP socket: the code would read behind
  the allocated block, the model has no result.
\<close>

primrec write_udp ::
  "'w sys \<Rightarrow> nat \<Rightarrow> priority \<Rightarrow> write_buffer list \<Rightarrow> 'w socket_server \<Rightarrow> (report \<times> 'w socket_server) option" where
  "write_udp sys i pr [] ss = Some (None, ss)"
| "write_udp sys i pr (tmp # rest) ss = do {
     udp_address \<leftarrow> wb_udp_address tmp;
     case udp_socket_address (so_protocol (ss_slot ss i)) udp_address of
       None \<Rightarrow> do { ss \<leftarrow> drop_udp i pr tmp rest ss; Some (None, ss) }
     | Some sa \<Rightarrow>
         (case call (sys_sendto sys (so_fd (ss_slot ss i)) (wb_data tmp) sa) ss of
            (Inl e, ss) \<Rightarrow>
              if e = EINTR \<or> e = EAGAIN then Some (None, ss)
              else do { ss \<leftarrow> drop_udp i pr tmp rest ss; Some (None, ss) }
          | (Inr _, ss) \<Rightarrow> do {
              ss \<leftarrow> drop_udp i pr tmp rest (stat_write i (length (wb_data tmp)) ss);
              write_udp sys i pr rest ss
            })
   }"

definition send_list_udp :: "'w sys \<Rightarrow> nat \<Rightarrow> priority \<Rightarrow> 'w socket_server \<Rightarrow> (report \<times> 'w socket_server) option" where
  "send_list_udp sys i pr ss = write_udp sys i pr (wb_list pr (ss_slot ss i)) ss"

definition send_list :: "'w sys \<Rightarrow> nat \<Rightarrow> priority \<Rightarrow> 'w socket_server \<Rightarrow> (report \<times> 'w socket_server) option" where
  "send_list sys i pr ss =
     (if so_protocol (ss_slot ss i) = PROTOCOL_TCP then send_list_tcp sys i pr ss else send_list_udp sys i pr ss)"

definition list_uncomplete :: "write_buffer list \<Rightarrow> bool" where
  "list_uncomplete l = (case l of [] \<Rightarrow> False | wb # _ \<Rightarrow> wb_ptr wb \<noteq> cb_addr (wb_buffer wb))"

definition raise_uncomplete :: "nat \<Rightarrow> 'w socket_server \<Rightarrow> 'w socket_server option" where
  "raise_uncomplete i ss =
     (case so_low (ss_slot ss i) of
        [] \<Rightarrow> None
      | tmp # low \<Rightarrow>
          if so_high (ss_slot ss i) \<noteq> [] then None
          else Some (upd_sock i (\<lambda>s. s\<lparr>so_low := low, so_high := [tmp]\<rparr>) ss))"

definition send_buffer_empty :: "socket \<Rightarrow> bool" where
  "send_buffer_empty s \<longleftrightarrow> so_high s = [] \<and> so_low s = []"

text \<open>Step 4 of \<open>send_lists\<close>: both lists are empty.\<close>

definition all_sent :: "'w sys \<Rightarrow> nat \<Rightarrow> 'w socket_server \<Rightarrow> (report \<times> 'w socket_server) option" where
  "all_sent sys i ss =
     (if \<not> (send_buffer_empty (ss_slot ss i) \<and> so_wb_size (ss_slot ss i) = 0) then None
      else
        let ss = watch_write sys i False ss; s = ss_slot ss i in
        if so_type s = SOCKET_TYPE_HALFCLOSE then do {
          (result, ss) \<leftarrow> force_close sys i ss;
          Some (Some (SOCKET_CLOSE, result), ss)
        }
        else if so_warn_size s > 0 then
          Some (Some (SOCKET_WARNING, no_message s), upd_sock i (\<lambda>s. s\<lparr>so_warn_size := 0\<rparr>) ss)
        else Some (None, ss))"

definition closed :: "report \<Rightarrow> bool" where
  "closed r = (case r of Some (SOCKET_CLOSE, _) \<Rightarrow> True | _ \<Rightarrow> False)"

definition send_lists :: "'w sys \<Rightarrow> nat \<Rightarrow> 'w socket_server \<Rightarrow> (report \<times> 'w socket_server) option" where
  "send_lists sys i ss =
     (if list_uncomplete (so_low (ss_slot ss i)) then None
      else do {
        (r, ss) \<leftarrow> send_list sys i PRIORITY_HIGH ss;
        if closed r then Some (r, ss)
        else if so_high (ss_slot ss i) \<noteq> [] then Some (None, ss)
        else if so_low (ss_slot ss i) = [] then all_sent sys i ss
        else do {
          (r, ss) \<leftarrow> send_list sys i PRIORITY_LOW ss;
          if closed r then Some (r, ss)
          else if list_uncomplete (so_low (ss_slot ss i)) then do {
            ss \<leftarrow> raise_uncomplete i ss;
            Some (None, ss)
          }
          else if so_low (ss_slot ss i) \<noteq> [] then Some (None, ss)
          else all_sent sys i ss
        }
      })"

text \<open>The remainder of a direct write goes to the front of the high list.\<close>

definition take_dw_buffer :: "nat \<Rightarrow> 'w socket_server \<Rightarrow> 'w socket_server option" where
  "take_dw_buffer i ss =
     (case so_dw_buffer (ss_slot ss i) of
        None \<Rightarrow> Some ss
      | Some b \<Rightarrow> do {
          (a, bs) \<leftarrow> send_object_init ss b;
          let k = so_dw_offset (ss_slot ss i);
          Some (upd_sock i (\<lambda>s. s\<lparr>
            so_wb_size := so_wb_size s + int (length (drop k bs)),
            so_high := \<lparr>wb_buffer = b, wb_ptr = a + k, wb_data = drop k bs, wb_udp_address = None\<rparr> # so_high s,
            so_dw_buffer := None\<rparr>) ss)
        })"

definition send_buffer :: "'w sys \<Rightarrow> nat \<Rightarrow> 'w socket_server \<Rightarrow> (report \<times> 'w socket_server) option" where
  "send_buffer sys i ss =
     (let (locked, ss) = call (sys_trylock sys i) ss in
      if \<not> locked then Some (None, ss)
      else do {
        ss \<leftarrow> take_dw_buffer i ss;
        send_lists sys i ss
      })"

section \<open>Requests\<close>

definition append_to ::
  "nat \<Rightarrow> priority \<Rightarrow> cbuffer \<Rightarrow> bytes option \<Rightarrow> 'w socket_server \<Rightarrow> 'w socket_server option" where
  "append_to i pr request udp_address ss = do {
     (a, bs) \<leftarrow> send_object_init ss request;
     let buf = \<lparr>wb_buffer = request, wb_ptr = a, wb_data = bs, wb_udp_address = udp_address\<rparr>;
     Some (upd_sock i (\<lambda>s. set_wb_list pr (wb_list pr s @ [buf]) (s\<lparr>so_wb_size := so_wb_size s + int (length bs)\<rparr>)) ss)
   }"

definition append_sendbuffer :: "nat \<Rightarrow> cbuffer \<Rightarrow> 'w socket_server \<Rightarrow> 'w socket_server option" where
  "append_sendbuffer i request ss = append_to i PRIORITY_HIGH request None ss"

definition append_sendbuffer_low :: "nat \<Rightarrow> cbuffer \<Rightarrow> 'w socket_server \<Rightarrow> 'w socket_server option" where
  "append_sendbuffer_low i request ss = append_to i PRIORITY_LOW request None ss"

definition append_sendbuffer_udp ::
  "nat \<Rightarrow> priority \<Rightarrow> cbuffer \<Rightarrow> bytes \<Rightarrow> 'w socket_server \<Rightarrow> 'w socket_server option" where
  "append_sendbuffer_udp i pr request udp_address ss = append_to i pr request (Some udp_address) ss"

text \<open>The end of \<open>send_socket\<close>: a warning when the waiting bytes pass the next threshold.\<close>

definition check_warning :: "nat \<Rightarrow> 'w socket_server \<Rightarrow> report \<times> 'w socket_server" where
  "check_warning i ss =
     (let s = ss_slot ss i in
      if so_wb_size s \<ge> WARNING_SIZE \<and> so_wb_size s \<ge> so_warn_size s then
        (Some (SOCKET_WARNING,
           \<lparr>re_id = so_id s, re_opaque = so_opaque s,
            re_ud = (if so_wb_size s mod 1024 = 0 then so_wb_size s div 1024 else so_wb_size s div 1024 + 1),
            re_data = Nothing\<rparr>),
         upd_sock i (\<lambda>s. s\<lparr>so_warn_size := (if so_warn_size s = 0 then WARNING_SIZE * 2 else so_warn_size s * 2)\<rparr>) ss)
      else (None, ss))"

text \<open>The address of a datagram: the one given, or the default of the socket.\<close>

definition target_address :: "bytes option \<Rightarrow> socket \<Rightarrow> bytes option" where
  "target_address udp_address s =
     (case udp_address of Some a \<Rightarrow> Some a | None \<Rightarrow> (case so_p s of P_udp_address a \<Rightarrow> Some a | P_size _ \<Rightarrow> None))"

definition send_socket ::
  "'w sys \<Rightarrow> int \<Rightarrow> cbuffer \<Rightarrow> priority \<Rightarrow> bytes option \<Rightarrow> 'w socket_server \<Rightarrow> (report \<times> 'w socket_server) option" where
  "send_socket sys sid request pr udp_address ss =
     (let i = HASH_ID sid; s = ss_slot ss i; drop = (\<lambda>ss. do { ss \<leftarrow> FREE request ss; Some (None, ss) }) in do {
      (_, content) \<leftarrow> send_object_init ss request;
      if so_type s = SOCKET_TYPE_INVALID \<or> so_id s \<noteq> sid \<or> so_type s = SOCKET_TYPE_HALFCLOSE \<or> so_type s = SOCKET_TYPE_PACCEPT then
        drop ss
      else if so_type s = SOCKET_TYPE_PLISTEN \<or> so_type s = SOCKET_TYPE_LISTEN then drop ss
      else if send_buffer_empty s \<and> so_type s = SOCKET_TYPE_CONNECTED then
        if so_protocol s = PROTOCOL_TCP then do {
          ss \<leftarrow> append_sendbuffer i request ss;
          Some (check_warning i (watch_write sys i True ss))
        }
        else do {
          udp_address \<leftarrow> target_address udp_address s;
          case udp_socket_address (so_protocol s) udp_address of
            None \<Rightarrow> drop ss
          | Some sa \<Rightarrow>
              let (n, ss) = call (sys_sendto sys (so_fd s) content sa) ss in
              if n \<noteq> Inr (length content) then do {
                ss \<leftarrow> append_sendbuffer_udp i pr request udp_address ss;
                Some (check_warning i (watch_write sys i True ss))
              }
              else drop (stat_write i (length content) ss)
        }
      else if so_protocol s = PROTOCOL_TCP then do {
        ss \<leftarrow> (if pr = PRIORITY_LOW then append_sendbuffer_low i request ss else append_sendbuffer i request ss);
        Some (check_warning i ss)
      }
      else do {
        udp_address \<leftarrow> target_address udp_address s;
        ss \<leftarrow> append_sendbuffer_udp i pr request udp_address ss;
        Some (check_warning i ss)
      }
     })"

definition listen_socket :: "'w sys \<Rightarrow> int \<Rightarrow> int \<Rightarrow> u64 \<Rightarrow> 'w socket_server \<Rightarrow> (report \<times> 'w socket_server) option" where
  "listen_socket sys sid listen_fd opaque ss = do {
     (s, ss) \<leftarrow> new_fd sys sid listen_fd PROTOCOL_TCP opaque False ss;
     if s then Some (None, upd_sock (HASH_ID sid) (\<lambda>s. s\<lparr>so_type := SOCKET_TYPE_PLISTEN\<rparr>) ss)
     else
       Some (Some (SOCKET_ERR, \<lparr>re_id = sid, re_opaque = opaque, re_ud = 0, re_data = Text limit_error\<rparr>),
             upd_sock (HASH_ID sid) (\<lambda>s. s\<lparr>so_type := SOCKET_TYPE_INVALID\<rparr>) (run (sys_close sys listen_fd) ss))
   }"

definition sending_count :: "socket \<Rightarrow> u32" where
  "sending_count s = so_sending s AND 0xffff"

definition nomore_sending_data :: "socket \<Rightarrow> bool" where
  "nomore_sending_data s \<longleftrightarrow> send_buffer_empty s \<and> so_dw_buffer s = None \<and> sending_count s = 0"

text \<open>Neither -1 nor \<open>SOCKET_WARNING\<close>.\<close>

definition final :: "report \<Rightarrow> bool" where
  "final r = (case r of None \<Rightarrow> False | Some (SOCKET_WARNING, _) \<Rightarrow> False | _ \<Rightarrow> True)"

definition close_socket ::
  "'w sys \<Rightarrow> int \<Rightarrow> bool \<Rightarrow> u64 \<Rightarrow> 'w socket_server \<Rightarrow> (report \<times> 'w socket_server) option" where
  "close_socket sys sid shutdown opaque ss =
     (let i = HASH_ID sid; s = ss_slot ss i in
      if so_type s = SOCKET_TYPE_INVALID \<or> so_id s \<noteq> sid then
        Some (Some (SOCKET_CLOSE, \<lparr>re_id = sid, re_opaque = opaque, re_ud = 0, re_data = Nothing\<rparr>), ss)
      else do {
        (r, ss) \<leftarrow> (if \<not> nomore_sending_data s then send_buffer sys i ss else Some (None, ss));
        if final r then Some (r, ss)
        else if shutdown \<or> nomore_sending_data (ss_slot ss i) then do {
          (result, ss) \<leftarrow> force_close sys i ss;
          Some (Some (SOCKET_CLOSE, result\<lparr>re_id := sid, re_opaque := opaque\<rparr>), ss)
        }
        else Some (None, upd_sock i (\<lambda>s. s\<lparr>so_type := SOCKET_TYPE_HALFCLOSE\<rparr>) ss)
      })"

definition bind_socket :: "'w sys \<Rightarrow> int \<Rightarrow> int \<Rightarrow> u64 \<Rightarrow> 'w socket_server \<Rightarrow> (report \<times> 'w socket_server) option" where
  "bind_socket sys sid fd opaque ss =
     (let result = (\<lambda>text. \<lparr>re_id = sid, re_opaque = opaque, re_ud = 0, re_data = Text text\<rparr>) in do {
      (s, ss) \<leftarrow> new_fd sys sid fd PROTOCOL_TCP opaque True ss;
      if \<not> s then Some (Some (SOCKET_ERR, result limit_error), ss)
      else Some (Some (SOCKET_OPEN, result ''binding''),
                 upd_sock (HASH_ID sid) (\<lambda>s. s\<lparr>so_type := SOCKET_TYPE_BIND\<rparr>) (run (sys_nonblocking sys fd) ss))
     })"

definition resume_socket :: "'w sys \<Rightarrow> int \<Rightarrow> u64 \<Rightarrow> 'w socket_server \<Rightarrow> (report \<times> 'w socket_server) option" where
  "resume_socket sys sid opaque ss =
     (let i = HASH_ID sid; s = ss_slot ss i;
          result = (\<lambda>text. \<lparr>re_id = sid, re_opaque = opaque, re_ud = 0, re_data = Text text\<rparr>) in
      if so_type s = SOCKET_TYPE_INVALID \<or> so_id s \<noteq> sid then
        Some (Some (SOCKET_ERR, result ''invalid socket''), ss)
      else
        let (failed, ss) = (if so_reading s = READING_PAUSE then watch sys i (so_fd s) ss else (None, ss)) in
        case failed of
          Some e \<Rightarrow> do {
            (m, ss) \<leftarrow> force_close sys i ss;
            Some (Some (SOCKET_ERR, m\<lparr>re_data := Text (sys_strerror sys e)\<rparr>), ss)
          }
        | None \<Rightarrow>
          let ss = (if so_reading s = READING_PAUSE then upd_sock i (\<lambda>s. s\<lparr>so_reading := READING_RESUME\<rparr>) ss else ss) in
          if so_type s = SOCKET_TYPE_PACCEPT \<or> so_type s = SOCKET_TYPE_PLISTEN then
            Some (Some (SOCKET_OPEN, result ''start''),
                  upd_sock i (\<lambda>s. s\<lparr>so_type := (if so_type s = SOCKET_TYPE_PACCEPT then SOCKET_TYPE_CONNECTED else SOCKET_TYPE_LISTEN),
                                    so_opaque := opaque\<rparr>) ss)
          else if so_type s = SOCKET_TYPE_CONNECTED then
            Some (Some (SOCKET_OPEN, result ''transfer''), upd_sock i (\<lambda>s. s\<lparr>so_opaque := opaque\<rparr>) ss)
          else Some (None, ss))"

definition pause_socket :: "'w sys \<Rightarrow> int \<Rightarrow> 'w socket_server \<Rightarrow> 'w socket_server" where
  "pause_socket sys sid ss =
     (let i = HASH_ID sid; s = ss_slot ss i in
      if so_type s = SOCKET_TYPE_INVALID \<or> so_id s \<noteq> sid then ss
      else if so_reading s = READING_RESUME then
        upd_sock i (\<lambda>s. s\<lparr>so_reading := READING_PAUSE\<rparr>) (unwatch sys i ss)
      else ss)"

definition setopt_socket :: "'w sys \<Rightarrow> int \<Rightarrow> int \<Rightarrow> int \<Rightarrow> 'w socket_server \<Rightarrow> 'w socket_server" where
  "setopt_socket sys sid what v ss =
     (let s = ss_slot ss (HASH_ID sid) in
      if so_type s = SOCKET_TYPE_INVALID \<or> so_id s \<noteq> sid then ss
      else run (sys_tcp_option sys (so_fd s) what v) ss)"

definition add_udp_socket :: "'w sys \<Rightarrow> int \<Rightarrow> int \<Rightarrow> family \<Rightarrow> u64 \<Rightarrow> 'w socket_server \<Rightarrow> 'w socket_server option" where
  "add_udp_socket sys sid fd family opaque ss = do {
     (ns, ss) \<leftarrow> new_fd sys sid fd (if family = AF_INET6 then PROTOCOL_UDPv6 else PROTOCOL_UDP) opaque True ss;
     if \<not> ns then Some (upd_sock (HASH_ID sid) (\<lambda>s. s\<lparr>so_type := SOCKET_TYPE_INVALID\<rparr>) (run (sys_close sys fd) ss))
     else Some (upd_sock (HASH_ID sid) (\<lambda>s. s\<lparr>so_type := SOCKET_TYPE_CONNECTED,
                                             so_p := P_udp_address (replicate UDP_ADDRESS_SIZE 0)\<rparr>) ss)
   }"

definition set_udp_address :: "int \<Rightarrow> bytes \<Rightarrow> 'w socket_server \<Rightarrow> (report \<times> 'w socket_server) option" where
  "set_udp_address sid address ss =
     (let i = HASH_ID sid; s = ss_slot ss i in
      if so_type s = SOCKET_TYPE_INVALID \<or> so_id s \<noteq> sid then Some (None, ss)
      else case address of
        [] \<Rightarrow> None
      | type # _ \<Rightarrow>
          if type \<noteq> protocol_code (so_protocol s) then
            Some (Some (SOCKET_ERR, \<lparr>re_id = so_id s, re_opaque = so_opaque s, re_ud = 0, re_data = Text ''protocol mismatch''\<rparr>), ss)
          else
            (case so_p s of
               P_size _ \<Rightarrow> None
             | P_udp_address old \<Rightarrow>
                 let n = (if type = protocol_code PROTOCOL_UDP then 1 + 2 + 4 else 1 + 2 + 16) in
                 Some (None, upd_sock i (\<lambda>s. s\<lparr>so_p := P_udp_address (take n address @ drop n old),
                                               so_udpconnecting := so_udpconnecting s - 1\<rparr>) ss)))"

text \<open>No result while the counter is at its limit: the code waits for the socket thread to decrement it.\<close>

definition inc_sending_ref :: "int \<Rightarrow> 'w socket_server \<Rightarrow> 'w socket_server option" where
  "inc_sending_ref sid ss =
     (let i = HASH_ID sid; s = ss_slot ss i in
      if so_protocol s \<noteq> PROTOCOL_TCP then Some ss
      else if drop_bit 16 (so_sending s) = ID_TAG16 sid then
        if sending_count s = 0xffff then None
        else Some (upd_sock i (\<lambda>s. s\<lparr>so_sending := so_sending s + 1\<rparr>) ss)
      else Some ss)"

definition dec_sending_ref :: "int \<Rightarrow> 'w socket_server \<Rightarrow> 'w socket_server option" where
  "dec_sending_ref sid ss =
     (let i = HASH_ID sid; s = ss_slot ss i in
      if so_id s = sid \<and> so_protocol s = PROTOCOL_TCP then
        if sending_count s = 0 then None
        else Some (upd_sock i (\<lambda>s. s\<lparr>so_sending := so_sending s - 1\<rparr>) ss)
      else Some ss)"

definition has_cmd :: "'w sys \<Rightarrow> 'w socket_server \<Rightarrow> bool \<times> 'w socket_server" where
  "has_cmd sys ss = (let (ok, ss) = call (sys_select sys (ss_recvctrl_fd ss)) ss in (ok \<and> ss_pipe ss \<noteq> [], ss))"

text \<open>One request, taken from the pipe.\<close>

definition ctrl_request :: "'w sys \<Rightarrow> request \<Rightarrow> 'w socket_server \<Rightarrow> (report \<times> 'w socket_server) option" where
  "ctrl_request sys req ss =
     (case req of
        Resume sid opaque \<Rightarrow> resume_socket sys sid opaque ss
      | Pause sid opaque \<Rightarrow> Some (None, pause_socket sys sid ss)
      | Bind sid fd opaque \<Rightarrow> bind_socket sys sid fd opaque ss
      | Listen sid fd opaque \<Rightarrow> listen_socket sys sid fd opaque ss
      | Close sid shutdown opaque \<Rightarrow> close_socket sys sid shutdown opaque ss
      | Open sid port opaque host \<Rightarrow> open_socket sys sid port opaque host ss
      | Exit \<Rightarrow> Some (Some (SOCKET_EXIT, \<lparr>re_id = 0, re_opaque = 0, re_ud = 0, re_data = Nothing\<rparr>), ss)
      | Send pr sid buffer \<Rightarrow> do {
          (ret, ss) \<leftarrow> send_socket sys sid buffer pr None ss;
          ss \<leftarrow> dec_sending_ref sid ss;
          Some (ret, ss)
        }
      | SendUdp sid buffer address \<Rightarrow> send_socket sys sid buffer PRIORITY_HIGH (Some address) ss
      | SetUdp sid address \<Rightarrow> set_udp_address sid address ss
      | Setopt sid what v \<Rightarrow> Some (None, setopt_socket sys sid what v ss)
      | Udp sid fd family opaque \<Rightarrow> do { ss \<leftarrow> add_udp_socket sys sid fd family opaque ss; Some (None, ss) })"

definition ctrl_cmd :: "'w sys \<Rightarrow> 'w socket_server \<Rightarrow> (report \<times> 'w socket_server) option" where
  "ctrl_cmd sys ss =
     (case ss_pipe ss of [] \<Rightarrow> None | req # reqs \<Rightarrow> ctrl_request sys req (ss\<lparr>ss_pipe := reqs\<rparr>))"

section \<open>Events\<close>

definition forward_message_tcp :: "'w sys \<Rightarrow> nat \<Rightarrow> 'w socket_server \<Rightarrow> (report \<times> 'w socket_server) option" where
  "forward_message_tcp sys i ss =
     (case so_p (ss_slot ss i) of
        P_udp_address _ \<Rightarrow> None
      | P_size sz \<Rightarrow>
          (case call (sys_read sys (so_fd (ss_slot ss i)) sz) ss of
             (Inl e, ss) \<Rightarrow>
               if e = EINTR \<or> e = EAGAIN then Some (None, ss)
               else do {
                 (result, ss) \<leftarrow> force_close sys i ss;
                 Some (Some (SOCKET_ERR, result\<lparr>re_data := Text (sys_strerror sys e)\<rparr>), ss)
               }
           | (Inr buffer, ss) \<Rightarrow>
               let n = length buffer in
               if n = 0 then do {
                 (result, ss) \<leftarrow> force_close sys i ss;
                 Some (Some (SOCKET_CLOSE, result), ss)
               }
               else if so_type (ss_slot ss i) = SOCKET_TYPE_HALFCLOSE then Some (None, ss)
               else
                 let ss = stat_read i n ss;
                     ss = upd_sock i (\<lambda>s. s\<lparr>so_p := P_size (if n = sz then sz * 2
                                                            else if sz > MIN_READ_BUFFER \<and> n * 2 < sz then sz div 2
                                                            else sz)\<rparr>) ss;
                     s = ss_slot ss i
                 in Some (Some (SOCKET_DATA, \<lparr>re_id = so_id s, re_opaque = so_opaque s, re_ud = int n, re_data = Bytes buffer\<rparr>), ss)))"

definition gen_udp_address :: "protocol \<Rightarrow> sockaddr \<Rightarrow> bytes" where
  "gen_udp_address protocol sa = protocol_code protocol # sa_port sa @ sa_addr sa"

definition is_v4 :: "sockaddr \<Rightarrow> bool" where
  "is_v4 sa = (case sa of Sockaddr_in _ _ \<Rightarrow> True | _ \<Rightarrow> False)"

definition forward_message_udp :: "'w sys \<Rightarrow> nat \<Rightarrow> 'w socket_server \<Rightarrow> (report \<times> 'w socket_server) option" where
  "forward_message_udp sys i ss =
     (case call (sys_recvfrom sys (so_fd (ss_slot ss i)) MAX_UDP_PACKAGE) ss of
        (Inl e, ss) \<Rightarrow>
          if e = EINTR \<or> e = EAGAIN then Some (None, ss)
          else do {
            (result, ss) \<leftarrow> force_close sys i ss;
            Some (Some (SOCKET_ERR, result\<lparr>re_data := Text (sys_strerror sys e)\<rparr>), ss)
          }
      | (Inr (buffer, sa), ss) \<Rightarrow>
          let ss = stat_read i (length buffer) ss; s = ss_slot ss i;
              protocol = (if is_v4 sa then PROTOCOL_UDP else PROTOCOL_UDPv6) in
          if so_protocol s \<noteq> protocol then Some (None, ss)
          else Some (Some (SOCKET_UDP,
            \<lparr>re_id = so_id s, re_opaque = so_opaque s, re_ud = int (length buffer),
             re_data = Bytes (buffer @ gen_udp_address protocol sa)\<rparr>), ss))"

definition report_connect :: "'w sys \<Rightarrow> nat \<Rightarrow> 'w socket_server \<Rightarrow> (report \<times> 'w socket_server) option" where
  "report_connect sys i ss =
     (let failed = (\<lambda>e ss. do {
            (result, ss) \<leftarrow> force_close sys i ss;
            Some (Some (SOCKET_ERR, result\<lparr>re_data := Text (sys_strerror sys e)\<rparr>), ss)
          }) in
      case call (sys_so_error sys (so_fd (ss_slot ss i))) ss of
        (Inl e, ss) \<Rightarrow> failed e ss
      | (Inr (Some e), ss) \<Rightarrow> failed e ss
      | (Inr None, ss) \<Rightarrow>
          let ss = upd_sock i (\<lambda>s. s\<lparr>so_type := SOCKET_TYPE_CONNECTED\<rparr>) ss;
              ss = (if nomore_sending_data (ss_slot ss i) then watch_write sys i False ss else ss);
              (peer, ss) = call (sys_getpeername sys (so_fd (ss_slot ss i))) ss;
              s = ss_slot ss i
          in Some (Some (SOCKET_OPEN,
               \<lparr>re_id = so_id s, re_opaque = so_opaque s, re_ud = 0,
                re_data = (case peer of None \<Rightarrow> Nothing | Some sa \<Rightarrow> text_or_null (sys_inet_ntop sys sa))\<rparr>), ss))"

text \<open>\<open>ntohs\<close> of the two bytes of a port, and the text \<open>address:port\<close> in the buffer of the server.\<close>

definition ntohs :: "bytes \<Rightarrow> nat" where
  "ntohs p = (case p of [a, b] \<Rightarrow> unat a * 256 + unat b | _ \<Rightarrow> 0)"

definition getname :: "'w sys \<Rightarrow> sockaddr \<Rightarrow> string option" where
  "getname sys sa =
     map_option (\<lambda>tmp. take (MAX_INFO - 1) (tmp @ '':'' @ fmt_d (int (ntohs (sa_port sa))))) (sys_inet_ntop sys sa)"

text \<open>\<open>Inl\<close> for the results 0 and -1 of \<open>report_accept\<close>, the latter with the message; \<open>Inr\<close> for 1.\<close>

definition report_accept ::
  "'w sys \<Rightarrow> nat \<Rightarrow> 'w socket_server \<Rightarrow> ((socket_message option + socket_message) \<times> 'w socket_server) option" where
  "report_accept sys i ss =
     (case call (sys_accept sys (so_fd (ss_slot ss i))) ss of
        (Inl e, ss) \<Rightarrow>
          if e = EMFILE \<or> e = ENFILE then
            Some (Inl (Some ((no_message (ss_slot ss i))\<lparr>re_data := Text (sys_strerror sys e)\<rparr>)), ss)
          else Some (Inl None, ss)
      | (Inr (client_fd, sa), ss) \<Rightarrow>
          (case reserve_id ss of (sid, ss) \<Rightarrow>
             if sid < 0 then Some (Inl None, run (sys_close sys client_fd) ss)
             else do {
               let ss = run (sys_nonblocking sys client_fd) (run (sys_keepalive sys client_fd) ss);
               (ns, ss) \<leftarrow> new_fd sys sid client_fd PROTOCOL_TCP (so_opaque (ss_slot ss i)) False ss;
               if \<not> ns then Some (Inl None, run (sys_close sys client_fd) ss)
               else
                 let ss = upd_sock (HASH_ID sid) (\<lambda>s. s\<lparr>so_type := SOCKET_TYPE_PACCEPT\<rparr>) (stat_read i 1 ss);
                     s = ss_slot ss i
                 in Some (Inr \<lparr>re_id = so_id s, re_opaque = so_opaque s, re_ud = sid,
                               re_data = text_or_null (getname sys sa)\<rparr>, ss)
             }))"

text \<open>The first remaining event of a socket that was closed is blanked.\<close>

primrec blank_event :: "(nat \<Rightarrow> socket) \<Rightarrow> int \<Rightarrow> event list \<Rightarrow> event list" where
  "blank_event slot sid [] = []"
| "blank_event slot sid (e # es) =
     (if (case e_s e of None \<Rightarrow> False | Some i \<Rightarrow> so_type (slot i) = SOCKET_TYPE_INVALID \<and> so_id (slot i) = sid)
      then e\<lparr>e_s := None\<rparr> # es else e # blank_event slot sid es)"

definition clear_closed_event :: "poll_type \<Rightarrow> socket_message \<Rightarrow> 'w socket_server \<Rightarrow> 'w socket_server" where
  "clear_closed_event type result ss =
     (if type = SOCKET_CLOSE \<or> type = SOCKET_ERR then
        ss\<lparr>ss_ev := take (ss_event_index ss) (ss_ev ss) @
                    blank_event (ss_slot ss) (re_id result) (drop (ss_event_index ss) (ss_ev ss))\<rparr>
      else ss)"

text \<open>
  One event, already counted in \<open>event_index\<close>. In the default case a socket is read first; when it is also
  writable, the event stays for the next turn, without its read flag.
\<close>

definition again :: "'w socket_server \<Rightarrow> 'w socket_server" where
  "again ss = ss\<lparr>ss_event_index := ss_event_index ss - 1\<rparr>"

definition without_read :: "nat \<Rightarrow> 'w socket_server \<Rightarrow> 'w socket_server" where
  "without_read k ss = ss\<lparr>ss_ev := (ss_ev ss)[k := (ss_ev ss ! k)\<lparr>e_read := False\<rparr>]\<rparr>"

definition socket_error_text :: "'w sys \<Rightarrow> errno + errno option \<Rightarrow> string" where
  "socket_error_text sys r =
     (case r of Inl e \<Rightarrow> sys_strerror sys e | Inr (Some e) \<Rightarrow> sys_strerror sys e | Inr None \<Rightarrow> ''Unknown error'')"

definition readable :: "'w sys \<Rightarrow> nat \<Rightarrow> nat \<Rightarrow> event \<Rightarrow> 'w socket_server \<Rightarrow> (report \<times> 'w socket_server) option" where
  "readable sys k i e ss = do {
     (r, ss) \<leftarrow> (if so_protocol (ss_slot ss i) = PROTOCOL_TCP then forward_message_tcp sys i ss
                  else forward_message_udp sys i ss);
     let udp = (case r of Some (SOCKET_UDP, _) \<Rightarrow> True | _ \<Rightarrow> False);
     let ended = (case r of Some (SOCKET_CLOSE, _) \<Rightarrow> True | Some (SOCKET_ERR, _) \<Rightarrow> True | _ \<Rightarrow> False);
     if udp then Some (r, again ss)
     else Some (r, if e_write e \<and> \<not> ended then again (without_read k ss) else ss)
   }"

definition dispatch_event :: "'w sys \<Rightarrow> nat \<Rightarrow> nat \<Rightarrow> event \<Rightarrow> 'w socket_server \<Rightarrow> (report \<times> 'w socket_server) option" where
  "dispatch_event sys k i e ss =
     (case so_type (ss_slot ss i) of
        SOCKET_TYPE_CONNECTING \<Rightarrow> report_connect sys i ss
      | SOCKET_TYPE_LISTEN \<Rightarrow> do {
          (ok, ss) \<leftarrow> report_accept sys i ss;
          Some (case ok of Inr m \<Rightarrow> Some (SOCKET_ACCEPT, m)
                         | Inl (Some m) \<Rightarrow> Some (SOCKET_ERR, m)
                         | Inl None \<Rightarrow> None, ss)
        }
      | SOCKET_TYPE_INVALID \<Rightarrow> Some (None, ss)
      | _ \<Rightarrow>
          if e_read e then readable sys k i e ss
          else if e_write e then send_buffer sys i ss
          else if e_error e then
            let (r, ss) = call (sys_so_error sys (so_fd (ss_slot ss i))) ss in do {
              (result, ss) \<leftarrow> force_close sys i ss;
              Some (Some (SOCKET_ERR, result\<lparr>re_data := Text (socket_error_text sys r)\<rparr>), ss)
            }
          else if e_eof e then do {
            (result, ss) \<leftarrow> force_close sys i ss;
            Some (Some (SOCKET_CLOSE, result), ss)
          }
          else Some (None, ss))"

text \<open>
  One turn of the loop of \<open>socket_server_poll\<close>: a request of the control pipe, or else an event, after
  waiting for new ones if none is left. \<open>Inl\<close> goes on with the loop, \<open>Inr\<close> returns.
\<close>

definition next_event :: "'w sys \<Rightarrow> bool \<Rightarrow> 'w socket_server \<Rightarrow>
    ((bool + report \<times> bool) \<times> 'w socket_server) option" where
  "next_event sys mo ss =
     (if ss_event_index ss < length (ss_ev ss) then
        let k = ss_event_index ss; e = ss_ev ss ! k; ss = ss\<lparr>ss_event_index := k + 1\<rparr> in
        (case e_s e of
           None \<Rightarrow> Some (Inl mo, ss)
         | Some i \<Rightarrow> do {
             (r, ss) \<leftarrow> dispatch_event sys k i e ss;
             Some (if r = None then Inl mo else Inr (r, mo), ss)
           })
      else None)"

definition poll_turn :: "'w sys \<Rightarrow> bool \<Rightarrow> 'w socket_server \<Rightarrow>
    ((bool + report \<times> bool) \<times> 'w socket_server) option" where
  "poll_turn sys mo ss =
     (let (cmd, ss) = (if ss_checkctrl ss then has_cmd sys ss else (False, ss)) in
      if cmd then do {
        (r, ss) \<leftarrow> ctrl_cmd sys ss;
        Some (case r of None \<Rightarrow> (Inl mo, ss)
                      | Some (type, result) \<Rightarrow> (Inr (r, mo), clear_closed_event type result ss))
      }
      else
        let ss = ss\<lparr>ss_checkctrl := False\<rparr> in
        if ss_event_index ss = length (ss_ev ss) then
          let ((err, evs), ss) = call (sp_wait sys (ss_event_fd ss) MAX_EVENT) ss;
              ss = ss\<lparr>ss_ev := evs, ss_checkctrl := True, ss_event_index := 0\<rparr> in
          if evs = [] then Some (if err = EINTR then Inl False else Inr (None, False), ss)
          else next_event sys False ss
        else next_event sys mo ss)"

partial_function (option) socket_server_poll ::
  "'w sys \<Rightarrow> bool \<Rightarrow> 'w socket_server \<Rightarrow> (report \<times> bool \<times> 'w socket_server) option" where
  "socket_server_poll sys mo ss = do {
     (r, ss) \<leftarrow> poll_turn sys mo ss;
     case r of Inl mo \<Rightarrow> socket_server_poll sys mo ss
             | Inr (r, mo) \<Rightarrow> Some (r, mo, ss)
   }"

section \<open>The interface for other threads\<close>

definition send_request :: "request \<Rightarrow> 'w socket_server \<Rightarrow> 'w socket_server" where
  "send_request req ss = ss\<lparr>ss_pipe := ss_pipe ss @ [req]\<rparr>"

text \<open>The size of \<open>struct request_open\<close>, which limits the length of a host name in a request of 255 bytes.\<close>

definition SIZEOF_REQUEST_OPEN :: nat where "SIZEOF_REQUEST_OPEN = 24"

definition socket_server_connect :: "u64 \<Rightarrow> string \<Rightarrow> int \<Rightarrow> 'w socket_server \<Rightarrow> int \<times> 'w socket_server" where
  "socket_server_connect opaque addr port ss =
     (if length addr + SIZEOF_REQUEST_OPEN \<ge> 256 then (- 1, ss)
      else case reserve_id ss of (sid, ss) \<Rightarrow>
        if sid < 0 then (- 1, ss) else (sid, send_request (Open sid port opaque addr) ss))"

definition can_direct_write :: "socket \<Rightarrow> int \<Rightarrow> bool" where
  "can_direct_write s sid \<longleftrightarrow>
     so_id s = sid \<and> nomore_sending_data s \<and> so_type s = SOCKET_TYPE_CONNECTED \<and> so_udpconnecting s = 0"

text \<open>A request to send, after the counter of the socket.\<close>

definition queue_send :: "'w sys \<Rightarrow> priority \<Rightarrow> socket_sendbuffer \<Rightarrow> 'w socket_server \<Rightarrow> (int \<times> 'w socket_server) option" where
  "queue_send sys pr buf ss = do {
     ss \<leftarrow> inc_sending_ref (sb_id buf) ss;
     let (b, ss) = clone_buffer sys buf ss;
     Some (0, send_request (Send pr (sb_id buf) b) ss)
   }"

text \<open>
  The locked part of \<open>socket_server_send\<close>: one write, whose errors count as 0 bytes; what is left waits in
  the socket for the socket thread.
\<close>

definition after_write ::
  "'w sys \<Rightarrow> nat \<Rightarrow> socket_sendbuffer \<Rightarrow> bytes \<Rightarrow> errno + nat \<Rightarrow> 'w socket_server \<Rightarrow> (int \<times> 'w socket_server) option" where
  "after_write sys i buf content r ss =
     (let n = (case r of Inl _ \<Rightarrow> 0 | Inr n \<Rightarrow> n);
          ss = stat_write i n (upd_sock i (\<lambda>s. s\<lparr>so_wire := so_wire s @ take n content\<rparr>) ss)
      in if n = length content then do { ss \<leftarrow> free_buffer buf ss; Some (0, ss) }
         else (case clone_buffer sys buf ss of (b, ss) \<Rightarrow>
           Some (0, watch_write sys i True (upd_sock i (\<lambda>s. s\<lparr>so_dw_buffer := Some b, so_dw_offset := n\<rparr>) ss))))"

definition direct_write ::
  "'w sys \<Rightarrow> nat \<Rightarrow> socket_sendbuffer \<Rightarrow> 'w socket_server \<Rightarrow> (int \<times> 'w socket_server) option" where
  "direct_write sys i buf ss =
     (let s = ss_slot ss i in do {
        content \<leftarrow> sendbuffer_content ss buf;
        if so_protocol s = PROTOCOL_TCP then
          (case call (sys_write sys (so_fd s) content) ss of (r, ss) \<Rightarrow> after_write sys i buf content r ss)
        else
          (case so_p s of
             P_size _ \<Rightarrow> None
           | P_udp_address udp_address \<Rightarrow>
               (case udp_socket_address (so_protocol s) udp_address of
                  None \<Rightarrow> do { ss \<leftarrow> free_buffer buf ss; Some (- 1, ss) }
                | Some sa \<Rightarrow> (case call (sys_sendto sys (so_fd s) content sa) ss of (r, ss) \<Rightarrow> after_write sys i buf content r ss)))
      })"

definition socket_server_send :: "'w sys \<Rightarrow> socket_sendbuffer \<Rightarrow> 'w socket_server \<Rightarrow> (int \<times> 'w socket_server) option" where
  "socket_server_send sys buf ss =
     (let sid = sb_id buf; i = HASH_ID sid; s = ss_slot ss i in
      if so_id s \<noteq> sid \<or> so_type s = SOCKET_TYPE_INVALID then do { ss \<leftarrow> free_buffer buf ss; Some (- 1, ss) }
      else if can_direct_write s sid then
        let (locked, ss) = call (sys_trylock sys i) ss in
        if locked \<and> can_direct_write (ss_slot ss i) sid then direct_write sys i buf ss
        else queue_send sys PRIORITY_HIGH buf ss
      else queue_send sys PRIORITY_HIGH buf ss)"

definition socket_server_send_lowpriority ::
  "'w sys \<Rightarrow> socket_sendbuffer \<Rightarrow> 'w socket_server \<Rightarrow> (int \<times> 'w socket_server) option" where
  "socket_server_send_lowpriority sys buf ss =
     (let sid = sb_id buf; s = ss_slot ss (HASH_ID sid) in
      if so_id s \<noteq> sid \<or> so_type s = SOCKET_TYPE_INVALID then do { ss \<leftarrow> free_buffer buf ss; Some (- 1, ss) }
      else queue_send sys PRIORITY_LOW buf ss)"

definition socket_server_exit :: "'w socket_server \<Rightarrow> 'w socket_server" where
  "socket_server_exit ss = send_request Exit ss"

definition socket_server_close :: "u64 \<Rightarrow> int \<Rightarrow> 'w socket_server \<Rightarrow> 'w socket_server" where
  "socket_server_close opaque sid ss = send_request (Close sid False opaque) ss"

definition socket_server_shutdown :: "u64 \<Rightarrow> int \<Rightarrow> 'w socket_server \<Rightarrow> 'w socket_server" where
  "socket_server_shutdown opaque sid ss = send_request (Close sid True opaque) ss"

text \<open>\<open>host\<close> is \<open>None\<close> for a null pointer.\<close>

definition do_bind ::
  "'w sys \<Rightarrow> string option \<Rightarrow> int \<Rightarrow> socktype \<Rightarrow> 'w socket_server \<Rightarrow> (int \<times> family) option \<times> 'w socket_server" where
  "do_bind sys host port type ss =
     (let host = (case host of None \<Rightarrow> ''0.0.0.0'' | Some [] \<Rightarrow> ''0.0.0.0'' | Some h \<Rightarrow> h) in
      case call (sys_getaddrinfo sys host port type) ss of
        (Inl _, ss) \<Rightarrow> (None, ss)
      | (Inr [], ss) \<Rightarrow> (None, ss)
      | (Inr ((family, sa) # _), ss) \<Rightarrow>
          (case call (sys_socket sys family type) ss of
             (Inl _, ss) \<Rightarrow> (None, ss)
           | (Inr fd, ss) \<Rightarrow>
               (case call (sys_reuseaddr sys fd) ss of
                  (Inl _, ss) \<Rightarrow> (None, run (sys_close sys fd) ss)
                | (Inr _, ss) \<Rightarrow>
                    (case call (sys_bind sys fd sa) ss of
                       (Inl _, ss) \<Rightarrow> (None, run (sys_close sys fd) ss)
                     | (Inr _, ss) \<Rightarrow> (Some (fd, family), ss)))))"

definition do_listen ::
  "'w sys \<Rightarrow> string option \<Rightarrow> int \<Rightarrow> int \<Rightarrow> 'w socket_server \<Rightarrow> int option \<times> 'w socket_server" where
  "do_listen sys host port backlog ss =
     (case do_bind sys host port SOCK_STREAM ss of
        (None, ss) \<Rightarrow> (None, ss)
      | (Some (listen_fd, _), ss) \<Rightarrow>
          (case call (sys_listen sys listen_fd backlog) ss of
             (Inl _, ss) \<Rightarrow> (None, run (sys_close sys listen_fd) ss)
           | (Inr _, ss) \<Rightarrow> (Some listen_fd, ss)))"

definition socket_server_listen ::
  "'w sys \<Rightarrow> u64 \<Rightarrow> string option \<Rightarrow> int \<Rightarrow> int \<Rightarrow> 'w socket_server \<Rightarrow> int \<times> 'w socket_server" where
  "socket_server_listen sys opaque addr port backlog ss =
     (case do_listen sys addr port backlog ss of
        (None, ss) \<Rightarrow> (- 1, ss)
      | (Some fd, ss) \<Rightarrow>
          (case reserve_id ss of (sid, ss) \<Rightarrow>
             if sid < 0 then (sid, run (sys_close sys fd) ss)
             else (sid, send_request (Listen sid fd opaque) ss)))"

definition socket_server_bind :: "u64 \<Rightarrow> int \<Rightarrow> 'w socket_server \<Rightarrow> int \<times> 'w socket_server" where
  "socket_server_bind opaque fd ss =
     (case reserve_id ss of (sid, ss) \<Rightarrow>
        if sid < 0 then (- 1, ss) else (sid, send_request (Bind sid fd opaque) ss))"

definition socket_server_start :: "u64 \<Rightarrow> int \<Rightarrow> 'w socket_server \<Rightarrow> 'w socket_server" where
  "socket_server_start opaque sid ss = send_request (Resume sid opaque) ss"

definition socket_server_pause :: "u64 \<Rightarrow> int \<Rightarrow> 'w socket_server \<Rightarrow> 'w socket_server" where
  "socket_server_pause opaque sid ss = send_request (Pause sid opaque) ss"

definition TCP_NODELAY :: int where "TCP_NODELAY = 1"

definition socket_server_nodelay :: "int \<Rightarrow> 'w socket_server \<Rightarrow> 'w socket_server" where
  "socket_server_nodelay sid ss = send_request (Setopt sid TCP_NODELAY 1) ss"

definition socket_server_userobject :: "socket_object_interface \<Rightarrow> 'w socket_server \<Rightarrow> 'w socket_server" where
  "socket_server_userobject soi ss = ss\<lparr>ss_soi := Some soi\<rparr>"

definition socket_server_udp ::
  "'w sys \<Rightarrow> u64 \<Rightarrow> string option \<Rightarrow> int \<Rightarrow> 'w socket_server \<Rightarrow> int \<times> 'w socket_server" where
  "socket_server_udp sys opaque addr port ss =
     (case (if port \<noteq> 0 \<or> addr \<noteq> None then do_bind sys addr port SOCK_DGRAM ss
            else case call (sys_socket sys AF_INET SOCK_DGRAM) ss of
              (Inl _, ss) \<Rightarrow> (None, ss)
            | (Inr fd, ss) \<Rightarrow> (Some (fd, AF_INET), ss)) of
        (None, ss) \<Rightarrow> (- 1, ss)
      | (Some (fd, family), ss) \<Rightarrow>
          (case reserve_id (run (sys_nonblocking sys fd) ss) of (sid, ss) \<Rightarrow>
             if sid < 0 then (- 1, run (sys_close sys fd) ss)
             else (sid, send_request (Udp sid fd family opaque) ss)))"

definition udp_address_size :: "bytes \<Rightarrow> nat option" where
  "udp_address_size address =
     (case address of
        [] \<Rightarrow> None
      | type # _ \<Rightarrow>
          if type = protocol_code PROTOCOL_UDP then Some (1 + 2 + 4)
          else if type = protocol_code PROTOCOL_UDPv6 then Some (1 + 2 + 16)
          else None)"

definition socket_server_udp_send ::
  "'w sys \<Rightarrow> bytes \<Rightarrow> socket_sendbuffer \<Rightarrow> 'w socket_server \<Rightarrow> (int \<times> 'w socket_server) option" where
  "socket_server_udp_send sys udp_address buf ss =
     (let sid = sb_id buf; i = HASH_ID sid; s = ss_slot ss i;
          fail = (\<lambda>ss. do { ss \<leftarrow> free_buffer buf ss; Some (- 1, ss) });
          queue = (\<lambda>addrsz ss.
            let (b, ss) = clone_buffer sys buf ss
            in Some (0, send_request (SendUdp sid b (take addrsz udp_address)) ss)) in
      if so_id s \<noteq> sid \<or> so_type s = SOCKET_TYPE_INVALID then fail ss
      else case udp_address_size udp_address of
        None \<Rightarrow> fail ss
      | Some addrsz \<Rightarrow>
          if can_direct_write s sid then
            let (locked, ss) = call (sys_trylock sys i) ss in
            if locked \<and> can_direct_write (ss_slot ss i) sid then do {
              content \<leftarrow> sendbuffer_content ss buf;
              case udp_socket_address (so_protocol s) udp_address of
                None \<Rightarrow> fail ss
              | Some sa \<Rightarrow>
                  (case call (sys_sendto sys (so_fd s) content sa) ss of
                     (Inl _, ss) \<Rightarrow> queue addrsz ss
                   | (Inr n, ss) \<Rightarrow> do { ss \<leftarrow> free_buffer buf (stat_write i n ss); Some (0, ss) })
            }
            else queue addrsz ss
          else queue addrsz ss)"

definition socket_server_udp_connect ::
  "'w sys \<Rightarrow> int \<Rightarrow> string \<Rightarrow> int \<Rightarrow> 'w socket_server \<Rightarrow> int \<times> 'w socket_server" where
  "socket_server_udp_connect sys sid addr port ss =
     (let i = HASH_ID sid; s = ss_slot ss i in
      if so_id s \<noteq> sid \<or> so_type s = SOCKET_TYPE_INVALID then (- 1, ss)
      else
        let ss = upd_sock i (\<lambda>s. s\<lparr>so_udpconnecting := so_udpconnecting s + 1\<rparr>) ss in
        case call (sys_getaddrinfo sys addr port SOCK_DGRAM) ss of
          (Inl _, ss) \<Rightarrow> (- 1, ss)
        | (Inr [], ss) \<Rightarrow> (- 1, ss)
        | (Inr ((family, sa) # _), ss) \<Rightarrow>
            let protocol = (case family of AF_INET \<Rightarrow> PROTOCOL_UDP | AF_INET6 \<Rightarrow> PROTOCOL_UDPv6)
            in (0, send_request (SetUdp sid (gen_udp_address protocol sa)) ss))"

text \<open>The address of a received datagram, behind its data.\<close>

definition socket_server_udp_address :: "socket_message \<Rightarrow> bytes option" where
  "socket_server_udp_address msg =
     (case re_data msg of
        Bytes data \<Rightarrow>
          (let address = drop (nat (re_ud msg)) data
           in map_option (\<lambda>addrsz. take addrsz address) (udp_address_size address))
      | _ \<Rightarrow> None)"

section \<open>Information about sockets\<close>

datatype info_type = SOCKET_INFO_UNKNOWN | SOCKET_INFO_LISTEN | SOCKET_INFO_TCP | SOCKET_INFO_UDP | SOCKET_INFO_BIND

text \<open>\<open>si_name\<close> is \<open>None\<close> where the code leaves the name as it was.\<close>

record socket_info =
  si_id :: int
  si_type :: info_type
  si_opaque :: u64
  si_read :: u64
  si_write :: u64
  si_rtime :: u64
  si_wtime :: u64
  si_wbuffer :: int
  si_name :: "string option"

definition name_of :: "'w sys \<Rightarrow> sockaddr option \<Rightarrow> string option" where
  "name_of sys sa = (case sa of None \<Rightarrow> None | Some sa \<Rightarrow> (case getname sys sa of None \<Rightarrow> Some [] | Some n \<Rightarrow> Some n))"

definition query_info :: "'w sys \<Rightarrow> socket \<Rightarrow> 'w socket_server \<Rightarrow> socket_info option \<times> 'w socket_server" where
  "query_info sys s ss =
     (let info = (\<lambda>type name. \<lparr>si_id = so_id s, si_type = type, si_opaque = so_opaque s, si_read = st_read (so_stat s),
            si_write = st_write (so_stat s), si_rtime = st_rtime (so_stat s), si_wtime = st_wtime (so_stat s),
            si_wbuffer = so_wb_size s, si_name = name\<rparr>) in
      case so_type s of
        SOCKET_TYPE_BIND \<Rightarrow> (Some (info SOCKET_INFO_BIND (Some [])), ss)
      | SOCKET_TYPE_LISTEN \<Rightarrow>
          (let (u, ss) = call (sys_getsockname sys (so_fd s)) ss in (Some (info SOCKET_INFO_LISTEN (name_of sys u)), ss))
      | SOCKET_TYPE_CONNECTED \<Rightarrow>
          if so_protocol s = PROTOCOL_TCP then
            (let (u, ss) = call (sys_getpeername sys (so_fd s)) ss in (Some (info SOCKET_INFO_TCP (name_of sys u)), ss))
          else
            (Some (info SOCKET_INFO_UDP (name_of sys
               (case so_p s of P_udp_address a \<Rightarrow> udp_socket_address (so_protocol s) a | P_size _ \<Rightarrow> None))), ss)
      | _ \<Rightarrow> (None, ss))"

text \<open>The list is built front to back, so the last slot comes first.\<close>

primrec info_loop :: "'w sys \<Rightarrow> nat list \<Rightarrow> socket_info list \<Rightarrow> 'w socket_server \<Rightarrow> socket_info list \<times> 'w socket_server" where
  "info_loop sys [] si ss = (si, ss)"
| "info_loop sys (i # is) si ss =
     (case query_info sys (ss_slot ss i) ss of
        (None, ss) \<Rightarrow> info_loop sys is si ss
      | (Some temp, ss) \<Rightarrow> info_loop sys is (temp # si) ss)"

definition socket_server_info :: "'w sys \<Rightarrow> 'w socket_server \<Rightarrow> socket_info list \<times> 'w socket_server" where
  "socket_server_info sys ss = info_loop sys [0..<MAX_SOCKET] [] ss"

end
