(* ===== verification/SocketStream.thy ===== *)
theory SocketStream
  imports SocketServer "HOL-Library.Multiset"
begin

text \<open>
  What a TCP connection writes: the operations of \<open>SocketServer\<close> on one slot, the invariant of an open
  socket, and the order of the bytes on the wire.
\<close>

section \<open>Operations on one slot\<close>

definition touches :: "nat \<Rightarrow> 'w socket_server \<Rightarrow> 'w socket_server \<Rightarrow> bool" where
  "touches i ss ss' \<longleftrightarrow> (\<exists>s fr w. ss' = ss\<lparr>ss_slot := (ss_slot ss)(i := s), ss_freed := fr, ss_os := w\<rparr>)"

lemma touchesI: "ss' = ss\<lparr>ss_slot := (ss_slot ss)(i := s), ss_freed := fr, ss_os := w\<rparr> \<Longrightarrow> touches i ss ss'"
  by (auto simp: touches_def)

lemma touches_refl [simp, intro]: "touches i ss ss"
  by (rule touchesI [where s = "ss_slot ss i" and fr = "ss_freed ss" and w = "ss_os ss"]) simp

lemma touches_iff:
  "touches i ss ss' \<longleftrightarrow> (\<forall>j. j \<noteq> i \<longrightarrow> ss_slot ss' j = ss_slot ss j) \<and> ss_time ss' = ss_time ss \<and>
     ss_recvctrl_fd ss' = ss_recvctrl_fd ss \<and> ss_sendctrl_fd ss' = ss_sendctrl_fd ss \<and> ss_checkctrl ss' = ss_checkctrl ss \<and>
     ss_event_fd ss' = ss_event_fd ss \<and> ss_alloc_id ss' = ss_alloc_id ss \<and> ss_event_index ss' = ss_event_index ss \<and>
     ss_soi ss' = ss_soi ss \<and> ss_ev ss' = ss_ev ss \<and> ss_pipe ss' = ss_pipe ss"
  (is "_ \<longleftrightarrow> ?r")
proof
  assume ?r
  then show "touches i ss ss'"
    by (intro touchesI [where s = "ss_slot ss' i" and fr = "ss_freed ss'" and w = "ss_os ss'"] socket_server.equality) auto
qed (auto simp: touches_def)

lemma touches_trans: "touches i a b \<Longrightarrow> touches i b c \<Longrightarrow> touches i a c"
  by (fastforce simp: touches_def)

lemma touchesD:
  assumes "touches i ss ss'"
  shows "ss_pipe ss' = ss_pipe ss" "ss_soi ss' = ss_soi ss" "ss_ev ss' = ss_ev ss" "ss_event_index ss' = ss_event_index ss"
    "ss_checkctrl ss' = ss_checkctrl ss" "ss_alloc_id ss' = ss_alloc_id ss" "ss_event_fd ss' = ss_event_fd ss"
    "j \<noteq> i \<Longrightarrow> ss_slot ss' j = ss_slot ss j"
  using assms by (auto simp: touches_def)

lemma touches_upd [simp, intro]: "touches i ss (upd_sock i f ss)"
  by (rule touchesI [where s = "f (ss_slot ss i)" and fr = "ss_freed ss" and w = "ss_os ss"]) (simp add: upd_sock_def)

lemma touches_run [simp, intro]: "touches i ss (run f ss)"
  by (rule touchesI [where s = "ss_slot ss i" and fr = "ss_freed ss"]) (simp add: run_def)

lemma touches_call [simp, intro]: "touches i ss (snd (call f ss))"
  by (rule touchesI [where s = "ss_slot ss i" and fr = "ss_freed ss"]) (simp add: call_def split_def Let_def)

lemma slot_upd [simp]: "ss_slot (upd_sock i f ss) i = f (ss_slot ss i)"
  by (simp add: upd_sock_def)

lemma slot_upd_other [simp]: "j \<noteq> i \<Longrightarrow> ss_slot (upd_sock i f ss) j = ss_slot ss j"
  by (simp add: upd_sock_def)

lemma upd_sock_fields [simp]:
  "ss_freed (upd_sock i f ss) = ss_freed ss" "ss_soi (upd_sock i f ss) = ss_soi ss" "ss_os (upd_sock i f ss) = ss_os ss"
  "ss_freed (run g ss) = ss_freed ss" "ss_soi (run g ss) = ss_soi ss"
  by (simp_all add: upd_sock_def run_def)

lemma slot_run [simp]: "ss_slot (run f ss) = ss_slot ss"
  by (simp add: run_def)

lemma slot_call [simp]: "ss_slot (snd (call f ss)) = ss_slot ss"
  by (simp add: call_def split_def Let_def)

lemma callE:
  assumes "call f ss = (r, ss')"
  shows "touches i ss ss'" "ss_slot ss' = ss_slot ss" "ss_freed ss' = ss_freed ss" "ss_soi ss' = ss_soi ss" "fst (f (ss_os ss)) = r"
    "ss_os ss' = snd (f (ss_os ss))"
  using assms touches_call [of i ss f] by (auto simp: call_def split_def Let_def)

lemma watch_slot:
  assumes "watch sys i fd ss = (failed, ss')"
  shows "touches i ss ss'" "ss_slot ss' i = (ss_slot ss i)\<lparr>so_polls := so_polls (ss_slot ss i) @ (if failed = None then [(EPOLL_CTL_ADD, False)] else [])\<rparr>"
    "ss_freed ss' = ss_freed ss"
  using assms touches_trans [OF touches_call touches_upd]
  by (auto simp: watch_def Let_def split_def upd_sock_def call_def)

lemma watch_write_slot:
  "touches i ss (watch_write sys i b ss)"
  "ss_slot (watch_write sys i b ss) i = (ss_slot ss i)\<lparr>so_polls := so_polls (ss_slot ss i) @ [(EPOLL_CTL_MOD, b)]\<rparr>"
  "ss_freed (watch_write sys i b ss) = ss_freed ss"
  using touches_trans [OF touches_run touches_upd] by (auto simp: watch_write_def upd_sock_def run_def)

lemma unwatch_slot:
  "touches i ss (unwatch sys i ss)"
  "ss_slot (unwatch sys i ss) i = (ss_slot ss i)\<lparr>so_polls := so_polls (ss_slot ss i) @ [(EPOLL_CTL_DEL, False)]\<rparr>"
  "ss_freed (unwatch sys i ss) = ss_freed ss"
  using touches_trans [OF touches_run touches_upd] by (auto simp: unwatch_def upd_sock_def run_def)

lemma stat_slot:
  "touches i ss (stat_write i n ss)"
  "\<exists>st. ss_slot (stat_write i n ss) i = (ss_slot ss i)\<lparr>so_stat := st\<rparr>"
  "touches i ss (stat_read i n ss)"
  "\<exists>st. ss_slot (stat_read i n ss) i = (ss_slot ss i)\<lparr>so_stat := st\<rparr>"
  "ss_freed (stat_write i n ss) = ss_freed ss" "ss_freed (stat_read i n ss) = ss_freed ss"
  by (simp_all add: stat_write_def stat_read_def) (auto simp: upd_sock_def)

lemma FREE_slot:
  assumes "FREE b ss = Some ss'"
  shows "touches i ss ss'" "ss_slot ss' = ss_slot ss" "ss_soi ss' = ss_soi ss" "ss_freed ss' = ss_freed ss @ [b]"
  using assms by (auto simp: FREE_def intro: touchesI [where s = "ss_slot ss i" and w = "ss_os ss"] split: if_splits)

lemma FREE_Memory [simp]: "FREE (Memory a bs) ss = Some (ss\<lparr>ss_freed := ss_freed ss @ [Memory a bs]\<rparr>)"
  by (simp add: FREE_def)

lemma free_wb_list_slot:
  assumes "free_wb_list wbs ss = Some ss'"
  shows "touches i ss ss' \<and> ss_slot ss' = ss_slot ss \<and> ss_soi ss' = ss_soi ss \<and> ss_freed ss' = ss_freed ss @ map wb_buffer wbs"
  using assms
proof (induction wbs arbitrary: ss)
  case Nil then show ?case by simp
next
  case (Cons wb wbs)
  then obtain ss1 where 1: "FREE (wb_buffer wb) ss = Some ss1" and 2: "free_wb_list wbs ss1 = Some ss'"
    by (auto simp: write_buffer_free_def bind_eq_Some_conv)
  show ?case using Cons.IH [OF 2] FREE_slot(1) [OF 1, of i] FREE_slot(2-4) [OF 1] by (auto intro: touches_trans)
qed

text \<open>The socket after \<open>force_close\<close>.\<close>

definition closed_from :: "socket \<Rightarrow> socket \<Rightarrow> bool" where
  "closed_from s s' \<longleftrightarrow> so_type s' = SOCKET_TYPE_INVALID \<and> so_high s' = [] \<and> so_low s' = [] \<and> so_dw_buffer s' = None \<and>
     so_id s' = so_id s \<and> so_protocol s' = so_protocol s \<and> so_sending s' = so_sending s"

lemma shut_slot_slot:
  "touches i ss (shut_slot sys i ss)" "closed_from ((ss_slot ss i)\<lparr>so_dw_buffer := None\<rparr>) ((ss_slot (shut_slot sys i ss) i)\<lparr>so_dw_buffer := None\<rparr>)"
  "ss_freed (shut_slot sys i ss) = ss_freed ss" "ss_soi (shut_slot sys i ss) = ss_soi ss"
  by (auto simp: shut_slot_def Let_def closed_from_def unwatch_def upd_sock_def run_def touches_iff)

lemma force_close_slot:
  assumes "force_close sys i ss = Some (m, ss')" "so_type (ss_slot ss i) \<noteq> SOCKET_TYPE_INVALID"
  shows "touches i ss ss' \<and> closed_from (ss_slot ss i) (ss_slot ss' i) \<and> m = no_message (ss_slot ss i) \<and>
    ss_freed ss' = ss_freed ss @ map wb_buffer (so_high (ss_slot ss i)) @ map wb_buffer (so_low (ss_slot ss i)) @
      (case so_dw_buffer (ss_slot ss i) of None \<Rightarrow> [] | Some b \<Rightarrow> [b])"
proof -
  let ?s = "ss_slot ss i"
  obtain a b c where a: "free_wb_list (so_high ?s) ss = Some a" and b: "free_wb_list (so_low ?s) a = Some b"
    and c: "(case so_dw_buffer ?s of None \<Rightarrow> Some (shut_slot sys i b) | Some x \<Rightarrow> FREE x (shut_slot sys i b)) = Some c"
    and fin: "ss' = upd_sock i (\<lambda>s. s\<lparr>so_dw_buffer := None\<rparr>) c" "m = no_message ?s"
    using assms by (auto simp: force_close_def Let_def bind_eq_Some_conv split: if_splits)
  have "touches i (shut_slot sys i b) c \<and> ss_slot c = ss_slot (shut_slot sys i b) \<and>
      ss_freed c = ss_freed b @ (case so_dw_buffer ?s of None \<Rightarrow> [] | Some b \<Rightarrow> [b])"
    using c shut_slot_slot(3) [of sys i b] FREE_slot [where ss = "shut_slot sys i b" and ss' = c] by (auto split: option.splits)
  then show ?thesis
    using free_wb_list_slot [OF a, where i = i] free_wb_list_slot [OF b, where i = i] shut_slot_slot [where i = i and ss = b and sys = sys] fin
    by (auto simp: closed_from_def upd_sock_def touches_iff)
qed

section \<open>The writes of a socket\<close>

text \<open>\<open>eintr_ends\<close>: a write is not interrupted for ever.\<close>

definition eintr_ends :: "'w sys \<Rightarrow> bool" where
  "eintr_ends sys \<longleftrightarrow>
     (\<exists>m. \<forall>fd buf w. fst (sys_write sys fd buf w) = Inl EINTR \<longrightarrow> m (snd (sys_write sys fd buf w)) < (m w :: nat))"

lemma write_retry_aux:
  assumes "write_retry sys fd buf ss = Some y"
  shows "(\<exists>w. snd y = ss\<lparr>ss_os := w\<rparr>) \<and> fst y \<noteq> Inl EINTR \<and> (posix_write sys \<longrightarrow> (\<forall>n. fst y = Inr n \<longrightarrow> n \<le> length buf))"
proof (rule write_retry.raw_induct [where P = "\<lambda>sys fd buf ss y. (\<exists>w. snd y = ss\<lparr>ss_os := w\<rparr>) \<and> fst y \<noteq> Inl EINTR \<and>
      (posix_write sys \<longrightarrow> (\<forall>n. fst y = Inr n \<longrightarrow> n \<le> length buf))", OF _ assms], goal_cases)
  case (1 rec sys fd buf ss y)
  let ?r = "sys_write sys fd buf (ss_os ss)"
  show ?case
  proof (cases "fst ?r")
    case (Inl e)
    then show ?thesis using 1(1) [of sys fd buf "ss\<lparr>ss_os := snd ?r\<rparr>" y] 1(2)
      by (cases "e = EINTR") (auto simp: call_def split_def Let_def)
  next
    case (Inr n)
    then show ?thesis using 1(2) by (auto simp: call_def split_def Let_def posix_write_def)
  qed
qed

lemma write_retry_result:
  assumes "write_retry sys fd buf ss = Some (r, ss')"
  shows "touches i ss ss'" "ss_slot ss' = ss_slot ss" "ss_freed ss' = ss_freed ss" "r \<noteq> Inl EINTR"
    "posix_write sys \<Longrightarrow> r = Inr n \<Longrightarrow> n \<le> length buf"
  using write_retry_aux [OF assms] by (auto simp: touches_iff)

lemma write_retry_returns:
  assumes "eintr_ends sys"
  shows "\<exists>r ss'. write_retry sys fd buf ss = Some (r, ss')"
proof -
  obtain m where m: "\<And>w. fst (sys_write sys fd buf w) = Inl EINTR \<Longrightarrow> m (snd (sys_write sys fd buf w)) < (m w :: nat)"
    using assms unfolding eintr_ends_def by blast
  show ?thesis
  proof (induction ss rule: measure_induct_rule [of "\<lambda>ss. m (ss_os ss)"])
    case (less ss)
    show ?case
      using m [of "ss_os ss"] less.IH [of "ss\<lparr>ss_os := snd (sys_write sys fd buf (ss_os ss))\<rparr>"]
      by (subst write_retry.simps) (auto simp: call_def split_def Let_def split: sum.splits)
  qed
qed

text \<open>
  What is on the wire and what waits, high priority first: the rest of a direct write goes before the high
  list. The low list starts with a buffer of which nothing is written (\<open>low_fresh\<close>).
\<close>

definition dw_rest :: "socket \<Rightarrow> bytes list" where
  "dw_rest s = (case so_dw_buffer s of Some (Memory a bs) \<Rightarrow> [drop (so_dw_offset s) bs] | _ \<Rightarrow> [])"

type_synonym stream = "bytes \<times> bytes list \<times> bytes list"

definition stream_of :: "socket \<Rightarrow> stream" where
  "stream_of s = (so_wire s, dw_rest s @ map wb_data (so_high s), map wb_data (so_low s))"

inductive adv :: "stream \<Rightarrow> stream \<Rightarrow> bool" where
  put: "adv (w, b # H, L) (w @ take n b, drop n b # H, L)"
| pop: "adv (w, [] # H, L) (w, H, L)"
| raise: "adv (w, [], b # L) (w, [b], L)"

text \<open>\<open>sent l w l'\<close>: writing from the front of the list \<open>l\<close> puts \<open>w\<close> on the wire and leaves \<open>l'\<close>.\<close>

definition advance :: "nat \<Rightarrow> write_buffer \<Rightarrow> write_buffer" where
  "advance n b = b\<lparr>wb_ptr := wb_ptr b + n, wb_data := drop n (wb_data b)\<rparr>"

inductive sent :: "write_buffer list \<Rightarrow> bytes \<Rightarrow> write_buffer list \<Rightarrow> bool" where
  none: "sent [] [] []"
| cut: "n \<le> length (wb_data b) \<Longrightarrow> sent (b # l) (take n (wb_data b)) (advance n b # l)"
| rest: "sent l w l' \<Longrightarrow> sent (b # l) (wb_data b @ w) l'"

lemma advance_0 [simp]: "advance 0 b = b"
  by (simp add: advance_def)

lemma sent_stop: "sent (b # l) [] (b # l)"
  using sent.cut [of 0 b l] by simp

definition list_size :: "write_buffer list \<Rightarrow> int" where
  "list_size l = int (sum_list (map (length \<circ> wb_data) l))"

lemma list_size_simps [simp]:
  "list_size [] = 0" "list_size (b # l) = int (length (wb_data b)) + list_size l" "list_size (l @ l') = list_size l + list_size l'"
  by (simp_all add: list_size_def)

lemma list_size_nonneg [simp]: "0 \<le> list_size l"
  by (simp add: list_size_def)

lemma sent_size: "sent l w l' \<Longrightarrow> list_size l' = list_size l - int (length w)"
  by (induction rule: sent.induct) (auto simp: advance_def)

lemma sent_tail: "sent l w l' \<Longrightarrow> set (tl l') \<subseteq> set l"
proof (induction rule: sent.induct)
  case (cut n b l) then show ?case by (auto dest: list.set_sel)
qed auto

lemma adv_write_all:
  assumes "adv\<^sup>*\<^sup>* (w @ b, [] # H, L) s"
  shows "adv\<^sup>*\<^sup>* (w, b # H, L) s"
  using adv.put [of w b H L "length b"] assms by (auto intro: converse_rtranclp_into_rtranclp)

lemma sent_adv: "sent l w l' \<Longrightarrow> adv\<^sup>*\<^sup>* (w0, map wb_data l, L) (w0 @ w, map wb_data l', L)"
proof (induction arbitrary: w0 rule: sent.induct)
  case none then show ?case by simp
next
  case (cut n b l) then show ?case by (auto simp: advance_def intro: r_into_rtranclp adv.put)
next
  case (rest l w l' b)
  then have "adv\<^sup>*\<^sup>* (w0 @ wb_data b, [] # map wb_data l, L) (w0 @ wb_data b @ w, map wb_data l', L)"
    using adv.pop [of "w0 @ wb_data b" "map wb_data l" L] rest.IH [of "w0 @ wb_data b"]
    by (auto intro: converse_rtranclp_into_rtranclp)
  then show ?case by (auto intro: adv_write_all)
qed

text \<open>Writing from the low list while the high list is empty; a buffer that is cut can be raised.\<close>

lemma sent_low_adv:
  "sent l w l' \<Longrightarrow>
     l' = [] \<and> adv\<^sup>*\<^sup>* (w0, [], map wb_data l) (w0 @ w, [], []) \<or>
     (\<exists>b n r. l' = advance n b # r \<and> b \<in> set l \<and> set r \<subseteq> set l \<and> n \<le> length (wb_data b) \<and>
        adv\<^sup>*\<^sup>* (w0, [], map wb_data l) (w0 @ w, [drop n (wb_data b)], map wb_data r) \<and>
        (n = 0 \<longrightarrow> adv\<^sup>*\<^sup>* (w0, [], map wb_data l) (w0 @ w, [], map wb_data l')))"
proof (induction arbitrary: w0 rule: sent.induct)
  case none then show ?case by simp
next
  case (cut n b l)
  have "adv\<^sup>*\<^sup>* (w0, [], map wb_data (b # l)) (w0 @ take n (wb_data b), [drop n (wb_data b)], map wb_data l)"
    using adv.raise [of w0 "wb_data b" "map wb_data l"] adv.put [of w0 "wb_data b" "[]" "map wb_data l" n]
    by (auto intro: converse_rtranclp_into_rtranclp)
  then show ?case using cut by (intro disjI2 exI [of _ b] exI [of _ n] exI [of _ l]) auto
next
  case (rest l w l' b)
  have step: "adv\<^sup>*\<^sup>* (w0, [], wb_data b # map wb_data l) s" if "adv\<^sup>*\<^sup>* (w0 @ wb_data b, [], map wb_data l) s" for s
  proof -
    have "adv\<^sup>*\<^sup>* (w0 @ wb_data b, [] # [], map wb_data l) s"
      using converse_rtranclp_into_rtranclp [of adv, OF adv.pop that] .
    then show ?thesis
      using converse_rtranclp_into_rtranclp [of adv, OF adv.raise adv_write_all] by simp
  qed
  from rest.IH [of "w0 @ wb_data b"] show ?case
  proof
    assume "l' = [] \<and> adv\<^sup>*\<^sup>* (w0 @ wb_data b, [], map wb_data l) ((w0 @ wb_data b) @ w, [], [])"
    then show ?thesis by (simp add: step)
  next
    assume "\<exists>b' n r. l' = advance n b' # r \<and> b' \<in> set l \<and> set r \<subseteq> set l \<and> n \<le> length (wb_data b') \<and>
      adv\<^sup>*\<^sup>* (w0 @ wb_data b, [], map wb_data l) ((w0 @ wb_data b) @ w, [drop n (wb_data b')], map wb_data r) \<and>
      (n = 0 \<longrightarrow> adv\<^sup>*\<^sup>* (w0 @ wb_data b, [], map wb_data l) ((w0 @ wb_data b) @ w, [], map wb_data l'))"
    then obtain b' n r where "l' = advance n b' # r" "b' \<in> set l" "set r \<subseteq> set l" "n \<le> length (wb_data b')"
      "adv\<^sup>*\<^sup>* (w0 @ wb_data b, [], map wb_data l) ((w0 @ wb_data b) @ w, [drop n (wb_data b')], map wb_data r)"
      "n = 0 \<longrightarrow> adv\<^sup>*\<^sup>* (w0 @ wb_data b, [], map wb_data l) ((w0 @ wb_data b) @ w, [], map wb_data l')" by blast
    then show ?thesis by (intro disjI2 exI [of _ b'] exI [of _ n] exI [of _ r]) (auto dest: step)
  qed
qed

text \<open>
  The buffers a socket holds. An operation on one slot is \<open>balanced\<close> when every buffer that leaves the socket
  is freed, once.
\<close>

definition held :: "socket \<Rightarrow> cbuffer multiset" where
  "held s = mset (map wb_buffer (so_high s)) + mset (map wb_buffer (so_low s)) +
     (case so_dw_buffer s of None \<Rightarrow> {#} | Some b \<Rightarrow> {#b#})"

definition balanced :: "nat \<Rightarrow> 'w socket_server \<Rightarrow> 'w socket_server \<Rightarrow> bool" where
  "balanced i ss ss' \<longleftrightarrow> touches i ss ss' \<and>
     mset (ss_freed ss') + held (ss_slot ss' i) = mset (ss_freed ss) + held (ss_slot ss i)"

lemma balanced_refl [simp, intro]: "balanced i ss ss"
  by (simp add: balanced_def)

lemma balanced_trans: "balanced i a b \<Longrightarrow> balanced i b c \<Longrightarrow> balanced i a c"
  unfolding balanced_def by (metis touches_trans)

lemma balancedD: "balanced i ss ss' \<Longrightarrow> touches i ss ss'"
  by (simp add: balanced_def)

lemma balancedI:
  "touches i ss ss' \<Longrightarrow> ss_freed ss' = ss_freed ss \<Longrightarrow> held (ss_slot ss' i) = held (ss_slot ss i) \<Longrightarrow> balanced i ss ss'"
  by (simp add: balanced_def)

lemma held_simps [simp]:
  "held (s\<lparr>so_stat := a\<rparr>) = held s" "held (s\<lparr>so_wb_size := b\<rparr>) = held s" "held (s\<lparr>so_wire := c\<rparr>) = held s"
  "held (s\<lparr>so_polls := d\<rparr>) = held s" "held (s\<lparr>so_warn_size := b\<rparr>) = held s" "held (s\<lparr>so_type := t\<rparr>) = held s"
  "held (s\<lparr>so_sending := u\<rparr>) = held s" "held (s\<lparr>so_p := p\<rparr>) = held s" "held (s\<lparr>so_reading := rd\<rparr>) = held s"
  "held (s\<lparr>so_opaque := q\<rparr>) = held s" "held (s\<lparr>so_udpconnecting := b\<rparr>) = held s" "held (s\<lparr>so_dw_offset := n\<rparr>) = held s"
  by (simp_all add: held_def)

lemma force_close_balanced:
  assumes "force_close sys i ss = Some (m, ss')" "so_type (ss_slot ss i) \<noteq> SOCKET_TYPE_INVALID"
  shows "balanced i ss ss'" "closed_from (ss_slot ss i) (ss_slot ss' i)" "m = no_message (ss_slot ss i)"
  using force_close_slot [OF assms]
  by (auto simp: balanced_def held_def closed_from_def split: option.splits)

text \<open>What a run of writes does to a socket: it stays open with bytes moved to the wire, or it is closed.\<close>

definition wrote :: "priority \<Rightarrow> socket \<Rightarrow> write_buffer list \<Rightarrow> bytes \<Rightarrow> write_buffer list \<Rightarrow> socket \<Rightarrow> bool" where
  "wrote pr s l w l' s' \<longleftrightarrow> sent l w l' \<and>
     (\<exists>st. s' = set_wb_list pr l' (s\<lparr>so_wb_size := so_wb_size s - int (length w), so_wire := so_wire s @ w, so_stat := st\<rparr>))"

lemma wb_list_simps [simp]:
  "wb_list pr (set_wb_list pr l s) = l" "set_wb_list pr l (set_wb_list pr l0 s) = set_wb_list pr l s"
  "set_wb_list pr (wb_list pr s) s = s"
  "wb_list pr (s\<lparr>so_stat := a\<rparr>) = wb_list pr s" "wb_list pr (s\<lparr>so_wb_size := b\<rparr>) = wb_list pr s"
  "wb_list pr (s\<lparr>so_wire := c\<rparr>) = wb_list pr s"
  by (cases pr; simp add: wb_list_def set_wb_list_def)+

lemma set_wb_list_fields [simp]:
  "so_fd (set_wb_list pr l s) = so_fd s" "so_id (set_wb_list pr l s) = so_id s" "so_type (set_wb_list pr l s) = so_type s"
  "so_wb_size (set_wb_list pr l s) = so_wb_size s" "so_wire (set_wb_list pr l s) = so_wire s" "so_stat (set_wb_list pr l s) = so_stat s"
  "so_protocol (set_wb_list pr l s) = so_protocol s" "so_sending (set_wb_list pr l s) = so_sending s"
  "so_polls (set_wb_list pr l s) = so_polls s" "so_dw_buffer (set_wb_list pr l s) = so_dw_buffer s"
  by (cases pr; simp add: set_wb_list_def)+

lemma held_pop:
  "held (set_wb_list pr l s) + {#wb_buffer b#} = held (set_wb_list pr (b # l) s)"
  by (cases pr) (simp_all add: held_def set_wb_list_def)

lemma held_head: "wb_buffer b' = wb_buffer b \<Longrightarrow> held (set_wb_list pr (b' # l) s) = held (set_wb_list pr (b # l) s)"
  by (cases pr) (simp_all add: held_def set_wb_list_def)

lemma set_wb_list_commute:
  "(set_wb_list pr l s)\<lparr>so_wb_size := b\<rparr> = set_wb_list pr l (s\<lparr>so_wb_size := b\<rparr>)"
  "(set_wb_list pr l s)\<lparr>so_wire := c\<rparr> = set_wb_list pr l (s\<lparr>so_wire := c\<rparr>)"
  "(set_wb_list pr l s)\<lparr>so_stat := a\<rparr> = set_wb_list pr l (s\<lparr>so_stat := a\<rparr>)"
  by (cases pr; simp add: set_wb_list_def)+

lemma write_tcp_slot:
  assumes "write_tcp sys i pr l ss = Some (r, ss')" "wb_list pr (ss_slot ss i) = l" "posix_write sys"
    "so_type (ss_slot ss i) \<noteq> SOCKET_TYPE_INVALID"
  shows "balanced i ss ss' \<and>
    ((\<exists>m. r = Some (SOCKET_CLOSE, m) \<and> closed_from (ss_slot ss i) (ss_slot ss' i) \<and> re_id m = so_id (ss_slot ss i)) \<or>
     (r = None \<and> (\<exists>w l'. wrote pr (ss_slot ss i) l w l' (ss_slot ss' i))))"
  using assms
proof (induction l arbitrary: ss)
  case Nil
  have "wrote pr (ss_slot ss i) [] [] [] (ss_slot ss i)"
    unfolding wrote_def by (auto intro!: sent.none exI [of _ "so_stat (ss_slot ss i)"]) (metis Nil.prems(2) wb_list_simps(3))
  then show ?case using Nil by auto
next
  case (Cons b l)
  let ?s = "ss_slot ss i"
  note l = Cons.prems(2)
  obtain e ss1 where w: "write_retry sys (so_fd ?s) (wb_data b) ss = Some (e, ss1)"
    and rest: "(case e of
       Inl e \<Rightarrow>
         if e = EAGAIN then Some (None, ss1)
         else do { (result, ss) \<leftarrow> force_close sys i ss1; Some (Some (SOCKET_CLOSE, result), ss) }
     | Inr sz \<Rightarrow> do {
         let ss = stat_write i sz ss1;
         let ss = upd_sock i (\<lambda>s. s\<lparr>so_wb_size := so_wb_size s - int sz, so_wire := so_wire s @ take sz (wb_data b)\<rparr>) ss;
         if sz \<noteq> length (wb_data b) then
           Some (None, upd_sock i (set_wb_list pr (b\<lparr>wb_ptr := wb_ptr b + sz, wb_data := drop sz (wb_data b)\<rparr> # l)) ss)
         else do {
           ss \<leftarrow> write_buffer_free b (upd_sock i (set_wb_list pr l) ss);
           write_tcp sys i pr l ss
         }
       }) = Some (r, ss')"
    using Cons.prems(1) by (auto simp: bind_eq_Some_conv)
  note w1 = write_retry_result [OF w]
  have b1: "balanced i ss ss1" using w1 by (auto intro: balancedI)
  show ?case
  proof (cases e)
    case (Inl x)
    show ?thesis
    proof (cases "x = EAGAIN")
      case True
      have "wrote pr ?s (b # l) [] (b # l) ?s"
        unfolding wrote_def using l by (auto intro!: sent_stop exI [of _ "so_stat ?s"]) (metis wb_list_simps(3))
      then show ?thesis using rest True Inl b1 w1(2) by auto
    next
      case False
      then obtain m where fc: "force_close sys i ss1 = Some (m, ss')" and r: "r = Some (SOCKET_CLOSE, m)"
        using rest Inl by (auto simp: bind_eq_Some_conv)
      show ?thesis
        using force_close_balanced [OF fc] w1(2) Cons.prems(4) b1 r by (auto simp: no_message_def intro: balanced_trans)
    qed
  next
    case (Inr n)
    have n: "n \<le> length (wb_data b)" using w1(5) [OF Cons.prems(3) Inr] .
    define ss2 where "ss2 = upd_sock i (\<lambda>s. s\<lparr>so_wb_size := so_wb_size s - int n, so_wire := so_wire s @ take n (wb_data b)\<rparr>)
      (stat_write i n ss1)"
    obtain st where st: "ss_slot (stat_write i n ss1) i = ?s\<lparr>so_stat := st\<rparr>"
      using stat_slot(2) [where i = i and n = n and ss = ss1] w1(2) by auto
    have s2: "ss_slot ss2 i = ?s\<lparr>so_wb_size := so_wb_size ?s - int n, so_wire := so_wire ?s @ take n (wb_data b), so_stat := st\<rparr>"
      by (rule socket.equality) (simp_all add: ss2_def st)
    have t2: "touches i ss ss2" "ss_freed ss2 = ss_freed ss"
      using w1(1,3) stat_slot(1,5) [where i = i and n = n and ss = ss1] by (auto simp: ss2_def upd_sock_def [of _ _ "stat_write i n ss1"] touches_iff)
    show ?thesis
    proof (cases "n = length (wb_data b)")
      case False
      then have r: "r = None" "ss' = upd_sock i (set_wb_list pr (advance n b # l)) ss2"
        using rest Inr by (auto simp: Let_def ss2_def advance_def)
      have "wrote pr ?s (b # l) (take n (wb_data b)) (advance n b # l) (ss_slot ss' i)"
        using n by (auto simp: wrote_def r s2 intro!: sent.cut exI [of _ st])
      moreover have "held (set_wb_list pr (advance n b # l) (ss_slot ss2 i)) = held ?s"
        using held_head [of "advance n b" b pr l "ss_slot ss2 i"] l held_simps(1-3) wb_list_simps(3) [of pr ?s]
        by (simp add: advance_def s2 set_wb_list_commute [symmetric])
      ultimately show ?thesis using r t2 by (auto simp: balanced_def intro: touches_trans)
    next
      case True
      obtain ss3 where f: "FREE (wb_buffer b) (upd_sock i (set_wb_list pr l) ss2) = Some ss3"
        and go: "write_tcp sys i pr l ss3 = Some (r, ss')"
        using rest Inr True by (auto simp: Let_def ss2_def bind_eq_Some_conv write_buffer_free_def)
      have s3: "ss_slot ss3 i = set_wb_list pr l (ss_slot ss2 i)" using FREE_slot(2) [OF f] by simp
      have "held (ss_slot ss3 i) + {#wb_buffer b#} = held ?s"
        using held_pop [of pr l "ss_slot ss2 i" b] l held_simps(1-3) wb_list_simps(3) [of pr ?s]
        by (simp add: s3 s2 set_wb_list_commute [symmetric])
      then have b3: "balanced i ss ss3"
        using FREE_slot(4) [OF f] t2 touches_trans [OF t2(1) touches_trans [OF touches_upd FREE_slot(1) [OF f]]]
        by (simp add: balanced_def)
      have "wrote pr ?s (b # l) (wb_data b @ w) l' (ss_slot ss' i)" if "wrote pr (ss_slot ss3 i) l w l' (ss_slot ss' i)" for w l'
        using that True by (auto simp: wrote_def s3 s2 set_wb_list_commute algebra_simps intro: sent.rest)
      moreover have "closed_from ?s x" if "closed_from (ss_slot ss3 i) x" for x
        using that by (auto simp: closed_from_def s3 s2)
      moreover have "so_id (ss_slot ss3 i) = so_id ?s" "so_type (ss_slot ss3 i) = so_type ?s" by (simp_all add: s3 s2)
      ultimately show ?thesis
        using Cons.IH [OF go _ Cons.prems(3)] Cons.prems(4) b3 by (fastforce simp: s3 intro: balanced_trans)
    qed
  qed
qed

section \<open>Invariant of an open TCP socket\<close>

text \<open>
  Nothing of the low list is written yet, \<open>wb_size\<close> counts the waiting bytes, and while the socket was never
  paused, epoll watches it: for writing, too, as long as something waits.
\<close>

definition low_fresh :: "write_buffer list \<Rightarrow> bool" where
  "low_fresh l \<longleftrightarrow> (\<forall>b \<in> set l. wb_ptr b = cb_addr (wb_buffer b))"

definition waits :: "socket \<Rightarrow> bool" where
  "waits s \<longleftrightarrow> so_high s \<noteq> [] \<or> so_low s \<noteq> [] \<or> so_dw_buffer s \<noteq> None"

definition never_paused :: "socket \<Rightarrow> bool" where
  "never_paused s \<longleftrightarrow> EPOLL_CTL_DEL \<notin> fst ` set (so_polls s)"

lemma never_paused_same: "so_polls s' = so_polls s \<Longrightarrow> never_paused s' \<longleftrightarrow> never_paused s"
  by (simp add: never_paused_def)

definition watched :: "bool \<Rightarrow> (epoll_op \<times> bool) list \<Rightarrow> bool" where
  "watched writing polls \<longleftrightarrow>
     polls \<noteq> [] \<and> fst (hd polls) = EPOLL_CTL_ADD \<and> fst ` set (tl polls) \<subseteq> {EPOLL_CTL_MOD} \<and> (writing \<longrightarrow> snd (last polls))"

definition watch_ok :: "socket \<Rightarrow> bool" where
  "watch_ok s \<longleftrightarrow>
     (never_paused s \<and> so_type s \<in> {SOCKET_TYPE_CONNECTING, SOCKET_TYPE_CONNECTED, SOCKET_TYPE_HALFCLOSE} \<longrightarrow>
      watched (waits s) (so_polls s))"

definition sock_ok :: "socket \<Rightarrow> bool" where
  "sock_ok s \<longleftrightarrow> so_protocol s = PROTOCOL_TCP \<and> low_fresh (so_low s) \<and> (\<exists>n. so_p s = P_size n) \<and>
     so_wb_size s = list_size (so_high s) + list_size (so_low s) \<and> watch_ok s"

definition moved :: "socket \<Rightarrow> socket \<Rightarrow> bool" where
  "moved s s' \<longleftrightarrow> so_id s' = so_id s \<and> so_protocol s' = so_protocol s \<and> so_sending s' = so_sending s \<and> so_type s' = so_type s \<and>
     so_reading s' = so_reading s \<and> so_opaque s' = so_opaque s \<and> sock_ok s' \<and> (never_paused s' \<longrightarrow> never_paused s) \<and> adv\<^sup>*\<^sup>* (stream_of s) (stream_of s')"

lemma moved_trans: "moved a b \<Longrightarrow> moved b c \<Longrightarrow> moved a c"
  by (auto simp: moved_def)

lemma sock_okD:
  assumes "sock_ok s"
  shows "so_protocol s = PROTOCOL_TCP" "low_fresh (so_low s)" "so_wb_size s = list_size (so_high s) + list_size (so_low s)" "watch_ok s"
    "\<exists>n. so_p s = P_size n"
  using assms by (simp_all add: sock_ok_def)

lemma watched_mod: "watched x polls \<Longrightarrow> (y \<longrightarrow> b) \<Longrightarrow> watched y (polls @ [(EPOLL_CTL_MOD, b)])"
  by (cases polls) (auto simp: watched_def)

lemma watched_less: "watched x polls \<Longrightarrow> (y \<longrightarrow> x) \<Longrightarrow> watched y polls"
  by (auto simp: watched_def)

lemma watch_ok_less:
  assumes "watch_ok s" "so_type s' = so_type s" "so_polls s' = so_polls s" "waits s' \<Longrightarrow> waits s"
  shows "watch_ok s'"
  using assms watched_less [of _ "so_polls s"] unfolding watch_ok_def never_paused_def by auto

lemma sent_Nil: "sent [] w l' \<longleftrightarrow> w = [] \<and> l' = []"
  by (auto elim: sent.cases intro: sent.none)

lemma wrote_high:
  assumes "wrote PRIORITY_HIGH s (so_high s) w h s'" "sock_ok s" "so_dw_buffer s = None"
  shows "moved s s' \<and> so_high s' = h \<and> so_low s' = so_low s \<and> so_dw_buffer s' = None"
proof -
  obtain st where se: "sent (so_high s) w h" and
    s': "s' = s\<lparr>so_wb_size := so_wb_size s - int (length w), so_wire := so_wire s @ w, so_stat := st, so_high := h\<rparr>"
    using assms(1) by (auto simp: wrote_def set_wb_list_def)
  have "waits s' \<Longrightarrow> waits s" using se by (auto simp: waits_def s' sent_Nil)
  then have "sock_ok s'"
    using assms(2) watch_ok_less [of s s'] sent_size [OF se] by (auto simp: sock_ok_def s')
  moreover have "adv\<^sup>*\<^sup>* (stream_of s) (stream_of s')"
    using sent_adv [OF se, of "so_wire s"] assms(3) by (simp add: stream_of_def dw_rest_def s')
  ultimately show ?thesis using assms(3) never_paused_same [of s' s] by (simp add: moved_def s')
qed

lemma list_uncomplete_advance:
  "wb_ptr b = cb_addr (wb_buffer b) \<Longrightarrow> list_uncomplete (advance n b # r) \<longleftrightarrow> n \<noteq> 0"
  by (simp add: list_uncomplete_def advance_def)

lemma wrote_low:
  assumes "wrote PRIORITY_LOW s (so_low s) w l s'" "sock_ok s" "so_dw_buffer s = None" "so_high s = []"
  shows "(if list_uncomplete l then moved s (s'\<lparr>so_low := tl l, so_high := [hd l]\<rparr>) else moved s s')"
    "so_high s' = []" "so_low s' = l" "so_dw_buffer s' = None"
proof -
  obtain st where se: "sent (so_low s) w l" and
    s': "s' = s\<lparr>so_wb_size := so_wb_size s - int (length w), so_wire := so_wire s @ w, so_stat := st, so_low := l\<rparr>"
    using assms(1) by (auto simp: wrote_def set_wb_list_def)
  show "so_high s' = []" "so_low s' = l" "so_dw_buffer s' = None" using assms(3,4) by (simp_all add: s')
  have fresh: "low_fresh (so_low s)" using sock_okD [OF assms(2)] by simp
  have ok: "sock_ok x" if "so_low x = l2" "so_high x = h2" "low_fresh l2" "list_size h2 + list_size l2 = list_size l"
    "length h2 + length l2 = length l" "x = s'\<lparr>so_low := l2, so_high := h2\<rparr>" for x l2 h2
  proof -
    have "waits x \<Longrightarrow> waits s" using se assms(3,4) that by (cases "so_low s = []") (auto simp: waits_def s' sent_Nil)
    then show ?thesis
      using that assms(2,4) watch_ok_less [of s x] sent_size [OF se] by (auto simp: sock_ok_def s')
  qed
  have st0: "stream_of s = (so_wire s, [], map wb_data (so_low s))" using assms(3,4) by (simp add: stream_of_def dw_rest_def)
  from sent_low_adv [OF se, of "so_wire s"]
  show "if list_uncomplete l then moved s (s'\<lparr>so_low := tl l, so_high := [hd l]\<rparr>) else moved s s'"
  proof (elim disjE exE conjE)
    assume l: "l = []" and a: "adv\<^sup>*\<^sup>* (so_wire s, [], map wb_data (so_low s)) (so_wire s @ w, [], [])"
    have "sock_ok s'" using ok [of s' "[]" "[]"] l assms(4) by (simp add: s' low_fresh_def)
    then show ?thesis using a l assms(3,4) st0 by (simp add: moved_def list_uncomplete_def s' stream_of_def dw_rest_def never_paused_def)
  next
    fix b n r
    assume l: "l = advance n b # r" and b: "b \<in> set (so_low s)" and r: "set r \<subseteq> set (so_low s)" and n: "n \<le> length (wb_data b)"
      and a: "adv\<^sup>*\<^sup>* (so_wire s, [], map wb_data (so_low s)) (so_wire s @ w, [drop n (wb_data b)], map wb_data r)"
      and a0: "n = 0 \<longrightarrow> adv\<^sup>*\<^sup>* (so_wire s, [], map wb_data (so_low s)) (so_wire s @ w, [], map wb_data l)"
    have bf: "wb_ptr b = cb_addr (wb_buffer b)" and rf: "low_fresh r" using fresh b r by (auto simp: low_fresh_def)
    show ?thesis
    proof (cases "n = 0")
      case True
      have "low_fresh l" using rf bf l True by (simp add: low_fresh_def)
      then have "sock_ok s'" using ok [of s' l "[]"] assms(4) by (simp add: s')
      moreover have "\<not> list_uncomplete l" using l True bf by (simp add: list_uncomplete_def)
      ultimately show ?thesis using True a0 assms(3,4) st0 by (simp add: moved_def s' stream_of_def dw_rest_def never_paused_def)
    next
      case False
      let ?x = "s'\<lparr>so_low := tl l, so_high := [hd l]\<rparr>"
      have "sock_ok ?x" using ok [of ?x r "[advance n b]"] rf l by (simp add: s')
      moreover have "list_uncomplete l" using l False bf by (simp add: list_uncomplete_advance)
      ultimately show ?thesis using a l assms(3,4) st0 by (simp add: moved_def s' stream_of_def dw_rest_def advance_def never_paused_def)
    qed
  qed
qed

lemma all_sent_slot:
  assumes "all_sent sys i ss = Some (r, ss')" "sock_ok (ss_slot ss i)" "so_dw_buffer (ss_slot ss i) = None"
    "so_type (ss_slot ss i) \<noteq> SOCKET_TYPE_INVALID"
  shows "balanced i ss ss' \<and>
    ((\<exists>m. r = Some (SOCKET_CLOSE, m) \<and> closed_from (ss_slot ss i) (ss_slot ss' i) \<and> re_id m = so_id (ss_slot ss i)) \<or>
     \<not> final r \<and> moved (ss_slot ss i) (ss_slot ss' i))"
proof -
  let ?s = "ss_slot ss i" and ?ss1 = "watch_write sys i False ss"
  have empty: "so_high ?s = []" "so_low ?s = []" and body: "(if so_type (ss_slot ?ss1 i) = SOCKET_TYPE_HALFCLOSE then do {
          (result, ss) \<leftarrow> force_close sys i ?ss1;
          Some (Some (SOCKET_CLOSE, result), ss)
        }
        else if so_warn_size (ss_slot ?ss1 i) > 0 then
          Some (Some (SOCKET_WARNING, no_message (ss_slot ?ss1 i)), upd_sock i (\<lambda>s. s\<lparr>so_warn_size := 0\<rparr>) ?ss1)
        else Some (None, ?ss1)) = Some (r, ss')"
    using assms(1) by (auto simp: all_sent_def send_buffer_empty_def Let_def split: if_splits)
  note w = watch_write_slot [where i = i and ss = ss and sys = sys and b = False]
  have b: "balanced i ss ?ss1" using w by (auto intro: balancedI)
  have ok: "moved ?s s'" if "so_type ?s \<noteq> SOCKET_TYPE_HALFCLOSE" "s' = (ss_slot ?ss1 i)\<lparr>so_warn_size := x\<rparr>" for s' x
  proof -
    have "watch_ok s'"
      using sock_okD(4) [OF assms(2)] that(1) assms(3) empty watched_mod [of _ "so_polls ?s" False False]
      by (auto simp: that(2) w(2) watch_ok_def never_paused_def waits_def)
    then show ?thesis
      using assms(2,3) by (simp add: that(2) w(2) moved_def sock_ok_def stream_of_def dw_rest_def never_paused_def)
  qed
  show ?thesis
  proof (cases "so_type ?s = SOCKET_TYPE_HALFCLOSE")
    case True
    then obtain m where fc: "force_close sys i ?ss1 = Some (m, ss')" and r: "r = Some (SOCKET_CLOSE, m)"
      using body w(2) by (auto simp: bind_eq_Some_conv)
    show ?thesis
      using force_close_balanced [OF fc] balanced_trans [OF b] assms(4) by (auto simp: r w(2) closed_from_def no_message_def)
  next
    case False
    have "moved ?s (ss_slot ss' i)"
      using body False ok [of "ss_slot ss' i" 0] ok [of "ss_slot ss' i" "so_warn_size (ss_slot ss' i)"] w(2) by (auto split: if_splits)
    moreover have "balanced i ?ss1 ss'" using body False w(2) by (auto split: if_splits intro!: balancedI)
    moreover have "\<not> final r" using body False w(2) by (auto simp: final_def split: if_splits)
    ultimately show ?thesis using b balanced_trans by blast
  qed
qed

text \<open>What a run of \<open>send_buffer\<close> does to a socket.\<close>

definition sends :: "nat \<Rightarrow> 'w socket_server \<Rightarrow> report \<Rightarrow> 'w socket_server \<Rightarrow> bool" where
  "sends i ss r ss' \<longleftrightarrow> balanced i ss ss' \<and>
     ((\<exists>m. r = Some (SOCKET_CLOSE, m) \<and> closed_from (ss_slot ss i) (ss_slot ss' i) \<and> re_id m = so_id (ss_slot ss i)) \<or>
      \<not> final r \<and> moved (ss_slot ss i) (ss_slot ss' i))"

lemma sends_trans:
  assumes "balanced i a b" "moved (ss_slot a i) (ss_slot b i)" "sends i b r c"
  shows "sends i a r c"
  using assms balanced_trans [OF assms(1)] moved_trans [OF assms(2)]
  by (auto simp: sends_def moved_def closed_from_def)

lemma closed_iff: "closed r \<longleftrightarrow> (\<exists>m. r = Some (SOCKET_CLOSE, m))"
  by (auto simp: closed_def split: option.splits prod.splits poll_type.splits)

lemma moved_refl: "sock_ok s \<Longrightarrow> moved s s"
  by (simp add: moved_def)

lemma send_list_slot:
  assumes "send_list sys i pr ss = Some (r, ss')" "posix_write sys" "sock_ok (ss_slot ss i)" "so_type (ss_slot ss i) \<noteq> SOCKET_TYPE_INVALID"
  shows "balanced i ss ss'"
    "(\<exists>m. r = Some (SOCKET_CLOSE, m) \<and> closed_from (ss_slot ss i) (ss_slot ss' i) \<and> re_id m = so_id (ss_slot ss i)) \<or>
     (r = None \<and> (\<exists>w l'. wrote pr (ss_slot ss i) (wb_list pr (ss_slot ss i)) w l' (ss_slot ss' i)))"
  using write_tcp_slot [of sys i pr _ ss r ss'] assms
  by (auto simp: send_list_def send_list_tcp_def sock_ok_def)

lemma send_lists_slot:
  assumes "send_lists sys i ss = Some (r, ss')" "posix_write sys" "sock_ok (ss_slot ss i)" "so_dw_buffer (ss_slot ss i) = None"
    "so_type (ss_slot ss i) \<noteq> SOCKET_TYPE_INVALID"
  shows "sends i ss r ss'"
proof -
  let ?s = "ss_slot ss i"
  obtain r1 ss1 where h: "send_list sys i PRIORITY_HIGH ss = Some (r1, ss1)" and go1:
    "(if closed r1 then Some (r1, ss1)
      else if so_high (ss_slot ss1 i) \<noteq> [] then Some (None, ss1)
      else if so_low (ss_slot ss1 i) = [] then all_sent sys i ss1
      else do {
        (r, ss) \<leftarrow> send_list sys i PRIORITY_LOW ss1;
        if closed r then Some (r, ss)
        else if list_uncomplete (so_low (ss_slot ss i)) then do {
          ss \<leftarrow> raise_uncomplete i ss;
          Some (None, ss)
        }
        else if so_low (ss_slot ss i) \<noteq> [] then Some (None, ss)
        else all_sent sys i ss
      }) = Some (r, ss')"
    using assms(1) by (auto simp: send_lists_def bind_eq_Some_conv split: if_splits)
  note b1 = send_list_slot [OF h assms(2,3,5)]
  show ?thesis
  proof (cases "closed r1")
    case True
    then show ?thesis using b1 go1 by (auto simp: sends_def closed_iff)
  next
    case False
    then obtain w1 h1 where "r1 = None" "wrote PRIORITY_HIGH ?s (so_high ?s) w1 h1 (ss_slot ss1 i)"
      using b1(2) by (auto simp: closed_iff wb_list_def)
    then have s1: "moved ?s (ss_slot ss1 i)" "so_dw_buffer (ss_slot ss1 i) = None" using wrote_high assms(3,4) by blast+
    have ok1: "sock_ok (ss_slot ss1 i)" "so_type (ss_slot ss1 i) \<noteq> SOCKET_TYPE_INVALID" using s1 assms(5) by (auto simp: moved_def)
    have via: "sends i ss r ss'" if "sends i ss1 r ss'" using sends_trans [OF b1(1) s1(1) that] .
    show ?thesis
    proof (cases "so_high (ss_slot ss1 i) \<noteq> [] \<or> so_low (ss_slot ss1 i) = []")
      case True
      then show ?thesis
        using go1 False via all_sent_slot [of sys i ss1 r ss'] ok1 s1(2) moved_refl [of "ss_slot ss1 i"]
        by (auto simp: sends_def final_def split: if_splits)
    next
      case high: False
      let ?s1 = "ss_slot ss1 i"
      obtain r2 ss2 where l: "send_list sys i PRIORITY_LOW ss1 = Some (r2, ss2)" and go2:
        "(if closed r2 then Some (r2, ss2)
          else if list_uncomplete (so_low (ss_slot ss2 i)) then do {
            ss \<leftarrow> raise_uncomplete i ss2;
            Some (None, ss)
          }
          else if so_low (ss_slot ss2 i) \<noteq> [] then Some (None, ss2)
          else all_sent sys i ss2) = Some (r, ss')"
        using go1 False high by (auto simp: bind_eq_Some_conv split: if_splits)
      note b2 = send_list_slot [OF l assms(2) ok1]
      show ?thesis
      proof (cases "closed r2")
        case True
        then show ?thesis using b2 go2 by (intro via) (auto simp: sends_def closed_iff)
      next
        case open2: False
        then obtain w2 l2 where "r2 = None" "wrote PRIORITY_LOW ?s1 (so_low ?s1) w2 l2 (ss_slot ss2 i)"
          using b2(2) by (auto simp: closed_iff wb_list_def)
        note w = wrote_low [OF this(2) ok1(1) s1(2)]
        note s2 = w(2-4) [OF] and step = w(1)
        show ?thesis
        proof (cases "list_uncomplete (so_low (ss_slot ss2 i))")
          case True
          then have r: "r = None" and ru: "raise_uncomplete i ss2 = Some ss'" using go2 open2 by (auto simp: bind_eq_Some_conv)
          then have "ss' = upd_sock i (\<lambda>s. s\<lparr>so_low := tl l2, so_high := [hd l2]\<rparr>) ss2" "l2 \<noteq> []"
            using s2 high by (auto simp: raise_uncomplete_def split: list.splits if_splits)
          moreover from this have "balanced i ss2 ss'"
            using s2 high by (cases l2) (auto simp: balanced_def held_def)
          ultimately show ?thesis
            using step True s2 high r b2(1) balanced_trans [OF b2(1)] by (intro via) (auto simp: sends_def final_def)
        next
          case unc: False
          then have m2: "moved ?s1 (ss_slot ss2 i)" using step s2 high by auto
          then have "sock_ok (ss_slot ss2 i)" "so_type (ss_slot ss2 i) \<noteq> SOCKET_TYPE_INVALID" using ok1(2) by (auto simp: moved_def)
          then have "sends i ss2 r ss'"
            using go2 open2 unc all_sent_slot [of sys i ss2 r ss'] s2 high moved_refl [of "ss_slot ss2 i"]
            by (auto simp: sends_def final_def split: if_splits)
          then show ?thesis using sends_trans [OF b2(1) m2] via by blast
        qed
      qed
    qed
  qed
qed

lemma take_dw_buffer_slot:
  assumes "take_dw_buffer i ss = Some ss'" "sock_ok (ss_slot ss i)" "ss_soi ss = None"
  shows "balanced i ss ss'" "moved (ss_slot ss i) (ss_slot ss' i)" "so_dw_buffer (ss_slot ss' i) = None"
proof -
  let ?s = "ss_slot ss i"
  show "balanced i ss ss'"
    using assms by (auto simp: take_dw_buffer_def bind_eq_Some_conv Let_def balanced_def held_def split: option.splits)
  have "moved ?s (ss_slot ss' i) \<and> so_dw_buffer (ss_slot ss' i) = None"
  proof (cases "so_dw_buffer ?s")
    case None
    then show ?thesis using assms by (auto simp: take_dw_buffer_def moved_refl)
  next
    case (Some b)
    then obtain a bs where b: "b = Memory a bs" using assms(1,3)
      by (cases b) (auto simp: take_dw_buffer_def send_object_init_def bind_eq_Some_conv)
    let ?k = "so_dw_offset ?s"
    have s': "ss_slot ss' i = ?s\<lparr>so_wb_size := so_wb_size ?s + int (length (drop ?k bs)),
      so_high := \<lparr>wb_buffer = b, wb_ptr = a + ?k, wb_data = drop ?k bs, wb_udp_address = None\<rparr> # so_high ?s, so_dw_buffer := None\<rparr>"
      using assms(1) Some b by (auto simp: take_dw_buffer_def send_object_init_def Let_def)
    have "waits ?s" using Some by (simp add: waits_def)
    then have "watch_ok (ss_slot ss' i)" using watch_ok_less [OF sock_okD(4) [OF assms(2)], of "ss_slot ss' i"] by (simp add: s')
    then show ?thesis using assms(2) Some b by (simp add: s' moved_def sock_ok_def stream_of_def dw_rest_def never_paused_def)
  qed
  then show "moved ?s (ss_slot ss' i)" "so_dw_buffer (ss_slot ss' i) = None" by simp_all
qed

lemma send_buffer_slot:
  assumes "send_buffer sys i ss = Some (r, ss')" "posix_write sys" "sock_ok (ss_slot ss i)" "ss_soi ss = None"
    "so_type (ss_slot ss i) \<noteq> SOCKET_TYPE_INVALID"
  shows "sends i ss r ss'"
proof -
  obtain locked ss1 where c: "call (sys_trylock sys i) ss = (locked, ss1)" by fastforce
  note c1 = callE [OF c]
  have m1: "balanced i ss ss1" "moved (ss_slot ss i) (ss_slot ss1 i)"
    using c1(1) [of i] c1(2,3) assms(3) by (auto intro: balancedI moved_refl)
  show ?thesis
  proof (cases locked)
    case False
    then show ?thesis using assms(1) c m1 by (auto simp: send_buffer_def sends_def final_def)
  next
    case True
    then obtain ss2 where t: "take_dw_buffer i ss1 = Some ss2" and s: "send_lists sys i ss2 = Some (r, ss')"
      using assms(1) c by (auto simp: send_buffer_def bind_eq_Some_conv)
    note t2 = take_dw_buffer_slot [OF t]
    have t2: "balanced i ss1 ss2" "moved (ss_slot ss1 i) (ss_slot ss2 i)" "so_dw_buffer (ss_slot ss2 i) = None"
      using t2 assms(3,4) c1(2,4) by auto
    have "sends i ss2 r ss'"
      using send_lists_slot [OF s assms(2)] t2(2,3) assms(5) c1(2) by (auto simp: moved_def)
    then show ?thesis using sends_trans [OF m1] sends_trans [OF t2(1,2)] by blast
  qed
qed

section \<open>The order of the bytes\<close>

text \<open>
  \<open>in_order hs ls\<close>: the packages \<open>hs\<close> of high and \<open>ls\<close> of low priority, merged in some order that keeps the
  order of each kind, are the whole packages on the wire, the one that is being written and the waiting ones.
\<close>

definition pieces :: "bytes \<Rightarrow> bytes list \<Rightarrow> (priority \<times> bytes) list \<Rightarrow> bool" where
  "pieces part H cur \<longleftrightarrow>
     (case cur of [] \<Rightarrow> part = [] \<and> H = [] | c # cs \<Rightarrow> \<exists>rest. snd c = part @ rest \<and> H = rest # map snd cs)"

definition of_prio :: "priority \<Rightarrow> (priority \<times> bytes) list \<Rightarrow> bytes list" where
  "of_prio pr ps = map snd (filter (\<lambda>p. fst p = pr) ps)"

fun in_order :: "bytes list \<Rightarrow> bytes list \<Rightarrow> stream \<Rightarrow> bool" where
  "in_order hs ls (w, H, L) \<longleftrightarrow>
     (\<exists>dn cur part. w = concat (map snd dn) @ part \<and> pieces part H cur \<and>
        of_prio PRIORITY_HIGH (dn @ cur) = hs \<and> of_prio PRIORITY_LOW (dn @ cur) @ L = ls)"

lemma of_prio_simps [simp]:
  "of_prio pr [] = []" "of_prio pr (xs @ ys) = of_prio pr xs @ of_prio pr ys"
  "of_prio pr ((p, b) # xs) = (if p = pr then [b] else []) @ of_prio pr xs"
  by (simp_all add: of_prio_def)

lemma in_orderI:
  "w = concat (map snd dn) @ part \<Longrightarrow> pieces part H cur \<Longrightarrow> of_prio PRIORITY_HIGH (dn @ cur) = hs \<Longrightarrow>
   of_prio PRIORITY_LOW (dn @ cur) @ L = ls \<Longrightarrow> in_order hs ls (w, H, L)"
  by auto

lemma in_orderE:
  assumes "in_order hs ls (w, H, L)"
  obtains dn cur part where "w = concat (map snd dn) @ part" "pieces part H cur"
    "of_prio PRIORITY_HIGH (dn @ cur) = hs" "of_prio PRIORITY_LOW (dn @ cur) @ L = ls"
  using assms by auto

lemma pieces_simps [simp]:
  "pieces part H [] \<longleftrightarrow> part = [] \<and> H = []"
  "pieces part [] cur \<longleftrightarrow> part = [] \<and> cur = []"
  by (auto simp: pieces_def split: list.splits)

lemma pieces_nil: "pieces [] H cur \<longleftrightarrow> H = map snd cur"
  by (auto simp: pieces_def split: list.splits)

lemma in_order_adv: "adv s s' \<Longrightarrow> in_order hs ls s \<Longrightarrow> in_order hs ls s'"
proof (induction rule: adv.induct)
  case (put w b H L n)
  from put.prems show ?case
  proof (rule in_orderE)
    fix dn cur part
    assume a: "w = concat (map snd dn) @ part" "pieces part (b # H) cur" "of_prio PRIORITY_HIGH (dn @ cur) = hs"
      "of_prio PRIORITY_LOW (dn @ cur) @ L = ls"
    then have "pieces (part @ take n b) (drop n b # H) cur" by (auto simp: pieces_def split: list.splits)
    then show ?thesis using a by (intro in_orderI [of _ dn "part @ take n b" _ cur]) auto
  qed
next
  case (pop w H L)
  from pop.prems show ?case
  proof (rule in_orderE)
    fix dn cur part
    assume a: "w = concat (map snd dn) @ part" "pieces part ([] # H) cur" "of_prio PRIORITY_HIGH (dn @ cur) = hs"
      "of_prio PRIORITY_LOW (dn @ cur) @ L = ls"
    then obtain p cs where "cur = (p, part) # cs" "H = map snd cs" by (auto simp: pieces_def split: list.splits)
    then show ?thesis using a by (intro in_orderI [of _ "dn @ [(p, part)]" "[]" _ cs]) (auto simp: pieces_nil)
  qed
next
  case (raise w b L)
  from raise.prems show ?case
  proof (rule in_orderE)
    fix dn cur part
    assume a: "w = concat (map snd dn) @ part" "pieces part [] cur" "of_prio PRIORITY_HIGH (dn @ cur) = hs"
      "of_prio PRIORITY_LOW (dn @ cur) @ b # L = ls"
    then show ?thesis by (intro in_orderI [of _ dn "[]" _ "[(PRIORITY_LOW, b)]"]) (auto simp: pieces_nil)
  qed
qed

lemma in_order_advs: "adv\<^sup>*\<^sup>* s s' \<Longrightarrow> in_order hs ls s \<Longrightarrow> in_order hs ls s'"
  by (induction rule: rtranclp_induct) (auto intro: in_order_adv)

lemma pieces_append: "pieces part H cur \<Longrightarrow> pieces part (H @ [b]) (cur @ [(p, b)])"
  by (cases cur) (auto simp: pieces_def)

lemma in_order_high: "in_order hs ls (w, H, L) \<Longrightarrow> in_order (hs @ [b]) ls (w, H @ [b], L)"
  by (erule in_orderE, rule in_orderI [OF _ pieces_append [of _ _ _ _ PRIORITY_HIGH]]) auto

lemma in_order_low: "in_order hs ls (w, H, L) \<Longrightarrow> in_order hs (ls @ [b]) (w, H, L @ [b])"
  by (erule in_orderE, rule in_orderI) auto

lemma in_order_low_first: "in_order hs ls (w, [], []) \<Longrightarrow> in_order hs (ls @ [b]) (w, [b], [])"
  by (erule in_orderE, rule in_orderI [OF _ pieces_append [of _ "[]" _ _ PRIORITY_LOW, simplified]]) auto

lemma in_order_shuffle:
  assumes "in_order hs ls (w, H, L)"
  shows "\<exists>order \<in> shuffles hs ls. concat order = w @ concat H @ concat L"
  using assms
proof (rule in_orderE)
  fix dn cur part
  assume a: "w = concat (map snd dn) @ part" "pieces part H cur" "of_prio PRIORITY_HIGH (dn @ cur) = hs"
    "of_prio PRIORITY_LOW (dn @ cur) @ L = ls"
  let ?all = "dn @ cur @ map (Pair PRIORITY_LOW) L"
  have low: "filter (\<lambda>p. \<not> fst p = PRIORITY_HIGH) xs = filter (\<lambda>p. fst p = PRIORITY_LOW) xs" for xs :: "(priority \<times> bytes) list"
    by (rule filter_cong) (auto intro: priority.exhaust)
  have "map snd ?all \<in> shuffles (of_prio PRIORITY_HIGH ?all) (of_prio PRIORITY_LOW ?all)"
    unfolding of_prio_def low [symmetric] by (intro map_in_shuffles partition_in_shuffles)
  moreover have "of_prio PRIORITY_HIGH ?all = hs" "of_prio PRIORITY_LOW ?all = ls"
    using a by (auto simp: of_prio_def filter_map o_def)
  moreover have "concat (map snd cur) = part @ concat H" using a(2) by (auto simp: pieces_def split: list.splits)
  ultimately show ?thesis using a(1) by (intro bexI [of _ "map snd ?all"]) (auto simp: o_def)
qed

end
