(* ===== verification/SocketLink.thy ===== *)
theory SocketLink
  imports SocketStream
begin

text \<open>
  The slot of one TCP connection: which operations leave it alone, and what the ones that work on it do to
  its stream, its counter of requests and its interest in writing.
\<close>

unbundle bit_operations_syntax

section \<open>The counter of requests on their way\<close>

lemma unat_and_ffff: "unat (x AND 0xffff) = unat x mod 65536" for x :: u32
proof -
  have "(0xffff :: u32) = mask 16" by (simp add: mask_eq_exp_minus_1)
  then show ?thesis by (simp only: unat_and_mask) simp
qed

lemma unat_drop_16: "unat (drop_bit 16 x) = unat x div 65536" for x :: u32
  by (simp only: unat_drop_bit_eq) (simp add: drop_bit_eq_div)

text \<open>\<open>counted n s\<close>: the counter of the socket is \<open>n\<close>, and it belongs to the id of the socket.\<close>

definition counted :: "nat \<Rightarrow> socket \<Rightarrow> bool" where
  "counted n s \<longleftrightarrow> drop_bit 16 (so_sending s) = ID_TAG16 (so_id s) \<and> unat (sending_count s) = n"

lemma counted_iff:
  "counted n s \<longleftrightarrow> unat (so_sending s) div 65536 = unat (ID_TAG16 (so_id s)) \<and> unat (so_sending s) mod 65536 = n"
  by (simp add: counted_def sending_count_def unat_and_ffff unat_drop_16 [symmetric] word_unat_eq_iff)

lemma sending_count_0: "sending_count s = 0 \<longleftrightarrow> unat (so_sending s) mod 65536 = 0"
  using unat_and_ffff [of "so_sending s"] by (simp add: sending_count_def word_unat_eq_iff)

lemma sending_count_max: "sending_count s = 0xffff \<longleftrightarrow> unat (so_sending s) mod 65536 = 65535"
  using unat_and_ffff [of "so_sending s"] by (simp add: sending_count_def word_unat_eq_iff)

lemma counted_0: "counted n s \<Longrightarrow> sending_count s = 0 \<longleftrightarrow> n = 0"
  by (simp add: counted_iff sending_count_0)

lemma counted_inc:
  assumes "counted n s" "sending_count s \<noteq> 0xffff"
  shows "counted (Suc n) (s\<lparr>so_sending := so_sending s + 1\<rparr>)"
proof -
  let ?x = "unat (so_sending s)"
  have m: "?x mod 65536 < 65535" using assms(2) by (simp add: sending_count_max)
  have "?x < 2 ^ 32" using unsigned_less [of "so_sending s"] by simp
  moreover have "?x \<noteq> 2 ^ 32 - 1" using m by auto
  ultimately have "Suc ?x < 2 ^ 32" by simp
  then have "unat (so_sending s + 1) = Suc ?x" by (simp add: unat_word_ariths)
  then show ?thesis using assms(1) m by (simp add: counted_iff mod_Suc div_Suc)
qed

lemma counted_dec:
  assumes "counted (Suc n) s"
  shows "counted n (s\<lparr>so_sending := so_sending s - 1\<rparr>)"
proof -
  let ?x = "unat (so_sending s)"
  have m: "?x mod 65536 = Suc n" using assms by (simp add: counted_iff)
  then obtain y where y: "?x = Suc y" by (cases ?x) auto
  then have "so_sending s \<noteq> 0" by auto
  then have "unat (so_sending s - 1) = y" using unat_minus_one [of "so_sending s"] y by auto
  then show ?thesis using assms m by (auto simp: counted_iff y mod_Suc div_Suc split: if_splits)
qed

lemma counted_new: "so_sending s = push_bit 16 (ID_TAG16 (so_id s)) \<Longrightarrow> counted 0 s"
proof -
  assume s: "so_sending s = push_bit 16 (ID_TAG16 (so_id s))"
  have "unat (ID_TAG16 (so_id s)) < 65536" by (simp add: ID_TAG16_def unat_and_ffff)
  then have "unat (so_sending s) = unat (ID_TAG16 (so_id s)) * 65536"
    by (simp add: s push_bit_eq_mult unat_word_ariths)
  then show ?thesis by (simp add: counted_iff)
qed

section \<open>Which slot an operation touches\<close>

text \<open>
  Each operation on a socket changes its slot, the list of freed buffers and the operating system only.
  \<open>within i ss m\<close> says so of a computation \<open>m\<close> with a result, \<open>within1\<close> of one without.
\<close>

definition within :: "nat \<Rightarrow> 'w socket_server \<Rightarrow> ('a \<times> 'w socket_server) option \<Rightarrow> bool" where
  "within i ss m \<longleftrightarrow> (\<forall>r ss'. m = Some (r, ss') \<longrightarrow> touches i ss ss')"

definition within1 :: "nat \<Rightarrow> 'w socket_server \<Rightarrow> 'w socket_server option \<Rightarrow> bool" where
  "within1 i ss m \<longleftrightarrow> (\<forall>ss'. m = Some ss' \<longrightarrow> touches i ss ss')"

lemma withinD: "within i ss m \<Longrightarrow> m = Some (r, ss') \<Longrightarrow> touches i ss ss'"
  by (simp add: within_def)

lemma within1D: "within1 i ss m \<Longrightarrow> m = Some ss' \<Longrightarrow> touches i ss ss'"
  by (simp add: within1_def)

named_theorems withins

lemma within_rules [withins]:
  "within i ss None" "within1 i ss None"
  "touches i ss ss' \<Longrightarrow> within i ss (Some (r, ss'))"
  "touches i ss ss' \<Longrightarrow> within1 i ss (Some ss')"
  "within i ss m \<Longrightarrow> (\<And>r s. touches i ss s \<Longrightarrow> within i ss (f (r, s))) \<Longrightarrow> within i ss (Option.bind m f)"
  "within i ss m \<Longrightarrow> (\<And>r s. touches i ss s \<Longrightarrow> within1 i ss (g (r, s))) \<Longrightarrow> within1 i ss (Option.bind m g)"
  "within1 i ss m1 \<Longrightarrow> (\<And>s. touches i ss s \<Longrightarrow> within i ss (h s)) \<Longrightarrow> within i ss (Option.bind m1 h)"
  "within1 i ss m1 \<Longrightarrow> (\<And>s. touches i ss s \<Longrightarrow> within1 i ss (k s)) \<Longrightarrow> within1 i ss (Option.bind m1 k)"
  by (auto simp: within_def within1_def bind_eq_Some_conv)

lemma within_pure:
  "(\<And>x. within i ss (f x)) \<Longrightarrow> within i ss (Option.bind m f)"
  "(\<And>x. within1 i ss (g x)) \<Longrightarrow> within1 i ss (Option.bind m g)"
  by (auto simp: within_def within1_def bind_eq_Some_conv)

lemma within_call [withins]:
  "touches i ss s0 \<Longrightarrow> (\<And>r s. touches i ss s \<Longrightarrow> within i ss (f r s)) \<Longrightarrow> within i ss (case call c s0 of (r, s) \<Rightarrow> f r s)"
  "touches i ss s0 \<Longrightarrow> (\<And>r s. touches i ss s \<Longrightarrow> within1 i ss (g r s)) \<Longrightarrow> within1 i ss (case call c s0 of (r, s) \<Rightarrow> g r s)"
  by (simp_all add: within_def within1_def split: prod.split) (blast intro: touches_trans callE(1))+

lemma touches_steps [withins]:
  assumes "touches i ss s"
  shows "touches i ss (upd_sock i f s)" "touches i ss (run g s)" "touches i ss (watch_write sys i b s)" "touches i ss (unwatch sys i s)"
    "touches i ss (stat_write i n s)" "touches i ss (stat_read i n s)" "touches i ss (shut_slot sys i s)"
  using touches_trans [OF assms] by (simp_all add: watch_write_slot(1) unwatch_slot(1) stat_slot(1,3) shut_slot_slot(1))

lemma within_FREE [withins]: "touches i ss s \<Longrightarrow> within1 i ss (FREE b s)"
  using touches_trans [OF _ FREE_slot(1)] by (auto simp: within1_def)

lemma within_write_buffer_free [withins]: "touches i ss s \<Longrightarrow> within1 i ss (write_buffer_free b s)"
  by (simp add: write_buffer_free_def within_FREE)

lemma within_free_wb_list [withins]: "touches i ss s \<Longrightarrow> within1 i ss (free_wb_list l s)"
  by (induction l arbitrary: s) (auto intro!: withins)

lemma within_force_close [withins]: "touches i ss s \<Longrightarrow> within i ss (force_close sys i s)"
  by (auto simp: force_close_def Let_def intro!: withins split: option.split)

lemma within_write_retry [withins]: "touches i ss s \<Longrightarrow> within i ss (write_retry sys fd buf s)"
  using touches_trans [OF _ write_retry_result(1)] by (auto simp: within_def)

lemma within_write_tcp [withins]: "touches i ss s \<Longrightarrow> within i ss (write_tcp sys i pr l s)"
  by (induction l arbitrary: s) (auto simp: Let_def intro!: withins split: sum.split)

lemma within_write_udp [withins]: "touches i ss s \<Longrightarrow> within i ss (write_udp sys i pr l s)"
  by (induction l arbitrary: s) (auto simp: drop_udp_def intro!: within_pure(1) [of _ _ _ "wb_udp_address _"] withins split: option.split sum.split)

lemma within_send_list [withins]: "touches i ss s \<Longrightarrow> within i ss (send_list sys i pr s)"
  by (auto simp: send_list_def send_list_tcp_def send_list_udp_def intro!: withins)

lemma within_raise_uncomplete [withins]: "touches i ss s \<Longrightarrow> within1 i ss (raise_uncomplete i s)"
  by (auto simp: raise_uncomplete_def intro!: withins split: list.split)

lemma within_all_sent [withins]: "touches i ss s \<Longrightarrow> within i ss (all_sent sys i s)"
  by (auto simp: all_sent_def Let_def intro!: withins)

lemma within_send_lists [withins]: "touches i ss s \<Longrightarrow> within i ss (send_lists sys i s)"
  by (auto simp: send_lists_def intro!: withins)

lemma within_take_dw_buffer [withins]: "touches i ss s \<Longrightarrow> within1 i ss (take_dw_buffer i s)"
  by (auto simp: take_dw_buffer_def Let_def intro!: within_pure(2) [of _ _ _ "send_object_init _ _"] withins split: option.split)

lemma within_send_buffer [withins]: "touches i ss s \<Longrightarrow> within i ss (send_buffer sys i s)"
  by (auto simp: send_buffer_def Let_def intro!: withins)

lemma within_append [withins]:
  "touches i ss s \<Longrightarrow> within1 i ss (append_to i pr b a s)" "touches i ss s \<Longrightarrow> within1 i ss (append_sendbuffer i b s)"
  "touches i ss s \<Longrightarrow> within1 i ss (append_sendbuffer_low i b s)" "touches i ss s \<Longrightarrow> within1 i ss (append_sendbuffer_udp i pr b u s)"
proof -
  have "within1 i ss (append_to i pr b a s)" if "touches i ss s" for pr b a s
    using that by (auto simp: append_to_def Let_def intro!: within_pure(2) [of _ _ _ "send_object_init _ _"] withins)
  then show "touches i ss s \<Longrightarrow> within1 i ss (append_to i pr b a s)" "touches i ss s \<Longrightarrow> within1 i ss (append_sendbuffer i b s)"
    "touches i ss s \<Longrightarrow> within1 i ss (append_sendbuffer_low i b s)" "touches i ss s \<Longrightarrow> within1 i ss (append_sendbuffer_udp i pr b u s)"
    by (simp_all add: append_sendbuffer_def append_sendbuffer_low_def append_sendbuffer_udp_def)
qed

lemma within_check_warning [withins]: "touches i ss s \<Longrightarrow> within i ss (Some (check_warning i s))"
  by (auto simp: check_warning_def Let_def intro!: withins)

lemma within_send_socket [withins]: "touches (HASH_ID sid) ss s \<Longrightarrow> within (HASH_ID sid) ss (send_socket sys sid b pr a s)"
  by (auto simp: send_socket_def Let_def
      intro!: within_pure(1) [of _ _ _ "send_object_init _ _"] within_pure(1) [of _ _ _ "target_address _ _"] withins
      split: option.split)

lemma touches_watch: "touches i ss s \<Longrightarrow> watch sys i fd s = (f, s') \<Longrightarrow> touches i ss s'"
  using touches_trans watch_slot(1) by blast

lemma within_watch [withins]:
  "touches i ss s0 \<Longrightarrow> (\<And>r s. touches i ss s \<Longrightarrow> within i ss (f r s)) \<Longrightarrow> within i ss (case watch sys i fd s0 of (r, s) \<Rightarrow> f r s)"
  by (auto simp: within_def split: prod.splits dest: touches_watch)

lemma within_new_fd [withins]: "touches (HASH_ID sid) ss s \<Longrightarrow> within (HASH_ID sid) ss (new_fd sys sid fd pr op add s)"
  by (auto simp: new_fd_def Let_def intro!: withins)

lemma within_listen_socket [withins]: "touches (HASH_ID sid) ss s \<Longrightarrow> within (HASH_ID sid) ss (listen_socket sys sid fd op s)"
  by (auto simp: listen_socket_def intro!: withins)

lemma within_close_socket [withins]: "touches (HASH_ID sid) ss s \<Longrightarrow> within (HASH_ID sid) ss (close_socket sys sid sh op s)"
  by (auto simp: close_socket_def Let_def intro!: withins)

lemma within_bind_socket [withins]: "touches (HASH_ID sid) ss s \<Longrightarrow> within (HASH_ID sid) ss (bind_socket sys sid fd op s)"
  by (auto simp: bind_socket_def Let_def intro!: withins)

lemma within_resume_socket [withins]: "touches (HASH_ID sid) ss s \<Longrightarrow> within (HASH_ID sid) ss (resume_socket sys sid op s)"
  by (auto simp: resume_socket_def Let_def intro!: withins split: option.split)

lemma touches_pause_socket [withins]: "touches (HASH_ID sid) ss s \<Longrightarrow> touches (HASH_ID sid) ss (pause_socket sys sid s)"
  by (auto simp: pause_socket_def Let_def intro!: withins)

lemma touches_setopt_socket [withins]: "touches (HASH_ID sid) ss s \<Longrightarrow> touches (HASH_ID sid) ss (setopt_socket sys sid w v s)"
  by (auto simp: setopt_socket_def Let_def intro!: withins)

lemma within_add_udp_socket [withins]: "touches (HASH_ID sid) ss s \<Longrightarrow> within1 (HASH_ID sid) ss (add_udp_socket sys sid fd fam op s)"
  by (auto simp: add_udp_socket_def intro!: withins)

lemma within_set_udp_address [withins]: "touches (HASH_ID sid) ss s \<Longrightarrow> within (HASH_ID sid) ss (set_udp_address sid a s)"
  by (auto simp: set_udp_address_def Let_def intro!: withins split: list.split socket_p.split)

lemma within_sending_ref [withins]:
  "touches (HASH_ID sid) ss s \<Longrightarrow> within1 (HASH_ID sid) ss (inc_sending_ref sid s)"
  "touches (HASH_ID sid) ss s \<Longrightarrow> within1 (HASH_ID sid) ss (dec_sending_ref sid s)"
  by (auto simp: inc_sending_ref_def dec_sending_ref_def Let_def intro!: withins)

lemma touches_connect_loop: "touches i ss s \<Longrightarrow> connect_loop sys e ais s = (r, s') \<Longrightarrow> touches i ss s'"
proof (induction ais arbitrary: e s)
  case (Cons ai ais)
  obtain r1 s1 where c1: "call (sys_socket sys (fst ai) SOCK_STREAM) s = (r1, s1)" by fastforce
  have t1: "touches i ss s1" using Cons.prems(1) callE(1) [OF c1] touches_trans by blast
  show ?case
  proof (cases r1)
    case (Inl e)
    then show ?thesis using Cons c1 t1 by auto
  next
    case (Inr sock)
    let ?s2 = "run (sys_nonblocking sys sock) (run (sys_keepalive sys sock) s1)"
    obtain r3 s3 where c3: "call (sys_connect sys sock (snd ai)) ?s2 = (r3, s3)" by fastforce
    have t3: "touches i ss s3" using t1 callE(1) [OF c3] touches_trans touches_run by blast
    then show ?thesis using Cons c1 c3 Inr touches_steps(2) [OF t3] by (auto split: sum.splits if_splits)
  qed
qed simp

lemma within_connect_loop [withins]:
  "touches i ss s0 \<Longrightarrow> (\<And>r s. touches i ss s \<Longrightarrow> within i ss (f r s)) \<Longrightarrow> within i ss (case connect_loop sys e ais s0 of (r, s) \<Rightarrow> f r s)"
  by (auto simp: within_def split: prod.splits dest: touches_connect_loop)

lemma within_open_socket [withins]: "touches (HASH_ID sid) ss s \<Longrightarrow> within (HASH_ID sid) ss (open_socket sys sid port op host s)"
  by (auto simp: open_socket_def Let_def intro!: withins split: sum.split)

lemma within_forward_message [withins]:
  "touches i ss s \<Longrightarrow> within i ss (forward_message_tcp sys i s)"
  "touches i ss s \<Longrightarrow> within i ss (forward_message_udp sys i s)"
  by (auto simp: forward_message_tcp_def forward_message_udp_def Let_def intro!: withins split: socket_p.split sum.split)

lemma within_report_connect [withins]: "touches i ss s \<Longrightarrow> within i ss (report_connect sys i s)"
  by (auto simp: report_connect_def Let_def intro!: withins split: sum.split option.split)

section \<open>An open connection\<close>

definition open_link :: "socket \<Rightarrow> bool" where
  "open_link s \<longleftrightarrow> so_type s = SOCKET_TYPE_CONNECTING \<or> so_type s = SOCKET_TYPE_CONNECTED"

definition link_ok :: "socket \<Rightarrow> bool" where
  "link_ok s \<longleftrightarrow> sock_ok s \<and>
     (never_paused s \<longrightarrow> so_reading s = READING_RESUME \<and> (so_type s = SOCKET_TYPE_CONNECTING \<longrightarrow> snd (last (so_polls s))))"

definition quiet :: "socket \<Rightarrow> socket \<Rightarrow> bool" where
  "quiet s s' \<longleftrightarrow> so_id s' = so_id s \<and> so_sending s' = so_sending s \<and> link_ok s' \<and> adv\<^sup>*\<^sup>* (stream_of s) (stream_of s')"

text \<open>An operation on the slot of a connection that sends nothing new: the connection goes on, or it is over.\<close>

definition goes_on :: "nat \<Rightarrow> 'w socket_server \<Rightarrow> 'w socket_server \<Rightarrow> bool" where
  "goes_on i ss ss' \<longleftrightarrow> touches i ss ss' \<and> (open_link (ss_slot ss' i) \<longrightarrow> quiet (ss_slot ss i) (ss_slot ss' i))"

lemma quiet_refl: "link_ok s \<Longrightarrow> quiet s s"
  by (simp add: quiet_def)

lemma quiet_moved: "moved s s' \<Longrightarrow> link_ok s \<Longrightarrow> so_type s \<noteq> SOCKET_TYPE_CONNECTING \<Longrightarrow> quiet s s'"
  by (auto simp: quiet_def moved_def link_ok_def)

lemma closed_not_open: "closed_from s s' \<Longrightarrow> \<not> open_link s'"
  by (simp add: closed_from_def open_link_def)

lemma stream_of_cong:
  "so_wire s' = so_wire s \<Longrightarrow> so_high s' = so_high s \<Longrightarrow> so_low s' = so_low s \<Longrightarrow> so_dw_buffer s' = so_dw_buffer s \<Longrightarrow>
   so_dw_offset s' = so_dw_offset s \<Longrightarrow> stream_of s' = stream_of s"
  by (simp add: stream_of_def dw_rest_def split: option.split cbuffer.split)

lemma goes_on_same: "touches i ss ss' \<Longrightarrow> ss_slot ss' i = ss_slot ss i \<Longrightarrow> link_ok (ss_slot ss i) \<Longrightarrow> goes_on i ss ss'"
  by (simp add: goes_on_def quiet_refl)

lemma goes_on_refl: "link_ok (ss_slot ss i) \<Longrightarrow> goes_on i ss ss"
  by (simp add: goes_on_def quiet_refl)

lemma goes_on_closed: "touches i ss ss' \<Longrightarrow> closed_from s (ss_slot ss' i) \<Longrightarrow> goes_on i ss ss'"
  by (simp add: goes_on_def closed_not_open)

lemma goes_on_before:
  assumes "touches i a b" "ss_slot b i = ss_slot a i" "goes_on i b c"
  shows "goes_on i a c"
  using assms touches_trans [OF assms(1)] by (auto simp: goes_on_def)

lemma force_close_goes_on:
  assumes "force_close sys i ss = Some (m, ss')" "so_type (ss_slot ss i) \<noteq> SOCKET_TYPE_INVALID"
  shows "goes_on i ss ss'"
  using force_close_balanced [OF assms] by (auto intro: goes_on_closed balancedD)

lemma open_link_simps [simp]:
  assumes "open_link s"
  shows "so_type s \<noteq> SOCKET_TYPE_INVALID" "so_type s \<noteq> SOCKET_TYPE_RESERVE" "so_type s \<noteq> SOCKET_TYPE_HALFCLOSE"
    "so_type s \<noteq> SOCKET_TYPE_PACCEPT" "so_type s \<noteq> SOCKET_TYPE_PLISTEN" "so_type s \<noteq> SOCKET_TYPE_LISTEN"
  using assms by (auto simp: open_link_def)

lemma link_okI:
  assumes "link_ok s" "so_protocol s' = so_protocol s" "so_high s' = so_high s" "so_low s' = so_low s"
    "so_wb_size s' = so_wb_size s" "so_dw_buffer s' = so_dw_buffer s" "so_type s' = so_type s" "so_p s' = P_size n"
    "so_reading s' = so_reading s" "so_polls s' = so_polls s"
  shows "link_ok s'"
proof -
  have "watch_ok s'" using assms watch_ok_less [of s s'] by (auto simp: link_ok_def sock_ok_def waits_def)
  then show ?thesis using assms never_paused_same [of s' s] by (auto simp: link_ok_def sock_ok_def)
qed

lemma quietI:
  assumes "link_ok s" "so_protocol s' = so_protocol s" "so_high s' = so_high s" "so_low s' = so_low s"
    "so_wb_size s' = so_wb_size s" "so_dw_buffer s' = so_dw_buffer s" "so_type s' = so_type s" "so_p s' = P_size n"
    "so_reading s' = so_reading s" "so_polls s' = so_polls s"
    "so_wire s' = so_wire s" "so_dw_offset s' = so_dw_offset s" "so_id s' = so_id s" "so_sending s' = so_sending s"
  shows "quiet s s'"
  using link_okI [OF assms(1-10)] stream_of_cong [of s' s] assms by (simp add: quiet_def)

lemma link_ok_P_size: "link_ok s \<Longrightarrow> \<exists>n. so_p s = P_size n"
  by (simp add: link_ok_def sock_ok_def)

lemma paused_quiet:
  assumes "link_ok s" "so_protocol s' = so_protocol s" "so_high s' = so_high s" "so_low s' = so_low s"
    "so_wb_size s' = so_wb_size s" "so_dw_buffer s' = so_dw_buffer s" "so_p s' = so_p s"
    "so_wire s' = so_wire s" "so_dw_offset s' = so_dw_offset s" "so_id s' = so_id s" "so_sending s' = so_sending s"
    "\<not> never_paused s'"
  shows "quiet s s'"
  using stream_of_cong [of s' s] assms by (simp add: quiet_def link_ok_def sock_ok_def watch_ok_def)

subsection \<open>Requests for a connection\<close>

lemma close_socket_goes_on:
  assumes "close_socket sys sid sh op ss = Some (r, ss')" "HASH_ID sid = i" "posix_write sys" "ss_soi ss = None"
    "link_ok (ss_slot ss i)" "open_link (ss_slot ss i)"
  shows "goes_on i ss ss'"
proof (cases "so_id (ss_slot ss i) = sid")
  case False
  then have "ss' = ss" using assms(1,2) by (auto simp: close_socket_def Let_def)
  then show ?thesis using assms(5) goes_on_refl by simp
next
  case True
  have t: "touches i ss ss'" using withinD [OF within_close_socket assms(1)] assms(2) by auto
  have "\<not> open_link (ss_slot ss' i)"
  proof -
    obtain r1 ss1 where s: "(if \<not> nomore_sending_data (ss_slot ss i) then send_buffer sys i ss else Some (None, ss)) = Some (r1, ss1)"
      and go: "(if final r1 then Some (r1, ss1)
        else if sh \<or> nomore_sending_data (ss_slot ss1 i) then do {
          (result, ss) \<leftarrow> force_close sys i ss1;
          Some (Some (SOCKET_CLOSE, result\<lparr>re_id := sid, re_opaque := op\<rparr>), ss)
        }
        else Some (None, upd_sock i (\<lambda>s. s\<lparr>so_type := SOCKET_TYPE_HALFCLOSE\<rparr>) ss1)) = Some (r, ss')"
      using assms(1,2,6) True by (auto simp: close_socket_def Let_def bind_eq_Some_conv)
    have "sends i ss r1 ss1"
      using s send_buffer_slot [of sys i ss r1 ss1] assms(3-6) by (auto simp: sends_def final_def moved_refl link_ok_def split: if_splits)
    then consider "closed_from (ss_slot ss i) (ss_slot ss1 i)" "final r1" | "\<not> final r1" "moved (ss_slot ss i) (ss_slot ss1 i)"
      by (auto simp: sends_def final_def)
    then show ?thesis
    proof cases
      case 1
      then show ?thesis using go closed_not_open by auto
    next
      case 2
      then have "so_type (ss_slot ss1 i) \<noteq> SOCKET_TYPE_INVALID" using assms(6) by (simp add: moved_def)
      then show ?thesis
        using go 2(1) force_close_slot [of sys i ss1] closed_not_open by (auto simp: bind_eq_Some_conv open_link_def closed_from_def split: if_splits)
    qed
  qed
  then show ?thesis using t by (simp add: goes_on_def)
qed

lemma resume_socket_goes_on:
  assumes "resume_socket sys sid op ss = Some (r, ss')" "HASH_ID sid = i" "link_ok (ss_slot ss i)" "open_link (ss_slot ss i)"
  shows "goes_on i ss ss'"
proof (cases "so_id (ss_slot ss i) = sid")
  case False
  then have "ss' = ss" using assms(1,2) by (auto simp: resume_socket_def Let_def)
  then show ?thesis using assms(3) goes_on_refl by simp
next
  case True
  let ?s = "ss_slot ss i"
  have t: "touches i ss ss'" using withinD [OF within_resume_socket assms(1)] assms(2) by auto
  obtain n where n: "so_p ?s = P_size n" using link_ok_P_size [OF assms(3)] by blast
  show ?thesis
  proof (cases "so_reading ?s = READING_PAUSE")
    case False
    then have "ss_slot ss' i = ?s \<or> ss_slot ss' i = ?s\<lparr>so_opaque := op\<rparr>"
      using assms(1,2,4) True by (auto simp: resume_socket_def Let_def split: if_splits)
    then have "quiet ?s (ss_slot ss' i)" using assms(3) n by (auto intro!: quietI [of _ _ n] quiet_refl)
    then show ?thesis using t by (simp add: goes_on_def)
  next
    case pause: True
    obtain f ss1 where w: "watch sys i (so_fd ?s) ss = (f, ss1)" by fastforce
    note w1 = watch_slot [OF w]
    have np: "\<not> never_paused ?s" using assms(3) pause by (auto simp: link_ok_def)
    show ?thesis
    proof (cases f)
      case None
      have s': "ss_slot ss' i = (ss_slot ss1 i)\<lparr>so_reading := READING_RESUME\<rparr> \<or> ss_slot ss' i = (ss_slot ss1 i)\<lparr>so_reading := READING_RESUME, so_opaque := op\<rparr>"
        using assms(1,2,4) True pause w None by (auto simp: resume_socket_def Let_def split: if_splits)
      then have "\<not> never_paused (ss_slot ss' i)" using np w1(2) by (auto simp: never_paused_def)
      then have "quiet ?s (ss_slot ss' i)" using assms(3) w1(2) s' by (auto intro!: paused_quiet)
      then show ?thesis using t by (simp add: goes_on_def)
    next
      case (Some e)
      then obtain m where "force_close sys i ss1 = Some (m, ss')"
        using assms(1,2,4) True pause w by (auto simp: resume_socket_def Let_def bind_eq_Some_conv)
      then show ?thesis using force_close_slot [of sys i ss1 m ss'] w1(2) assms(4) t by (auto intro: goes_on_closed)
    qed
  qed
qed

lemma new_fd_open: "open_link (ss_slot ss (HASH_ID sid)) \<Longrightarrow> new_fd sys sid fd pr op add ss = None"
  by (auto simp: new_fd_def Let_def)

lemma pause_socket_goes_on:
  assumes "HASH_ID sid = i" "link_ok (ss_slot ss i)"
  shows "goes_on i ss (pause_socket sys sid ss)"
proof -
  have t: "touches i ss (pause_socket sys sid ss)" using touches_pause_socket [OF touches_refl] assms(1) by blast
  show ?thesis
  proof (cases "so_type (ss_slot ss i) \<noteq> SOCKET_TYPE_INVALID \<and> so_id (ss_slot ss i) = sid \<and> so_reading (ss_slot ss i) = READING_RESUME")
    case False
    then have "pause_socket sys sid ss = ss" using assms(1) by (auto simp: pause_socket_def Let_def)
    then show ?thesis using assms(2) goes_on_refl by simp
  next
    case True
    then have s': "ss_slot (pause_socket sys sid ss) i = (ss_slot (unwatch sys i ss) i)\<lparr>so_reading := READING_PAUSE\<rparr>"
      using assms(1) by (auto simp: pause_socket_def Let_def)
    have "quiet (ss_slot ss i) (ss_slot (pause_socket sys sid ss) i)"
      using assms(2) by (intro paused_quiet) (simp_all add: s' unwatch_slot(2) never_paused_def)
    then show ?thesis using t by (simp add: goes_on_def)
  qed
qed

lemma set_udp_address_goes_on:
  assumes "set_udp_address sid a ss = Some (r, ss')" "HASH_ID sid = i" "link_ok (ss_slot ss i)"
  shows "goes_on i ss ss'"
  using assms link_ok_P_size [OF assms(3)] goes_on_refl [OF assms(3)]
  by (auto simp: set_udp_address_def Let_def split: list.splits if_splits)

lemma open_socket_goes_on:
  assumes "open_socket sys sid port op host ss = Some (r, ss')" "HASH_ID sid = i" "open_link (ss_slot ss i)"
  shows "goes_on i ss ss'"
proof -
  have t: "touches i ss ss'" using withinD [OF within_open_socket assms(1)] assms(2) by auto
  have "\<not> open_link (ss_slot ss' i)"
  proof -
    obtain r1 ss1 where c1: "call (sys_getaddrinfo sys host port SOCK_STREAM) ss = (r1, ss1)" by fastforce
    show ?thesis
    proof (cases r1)
      case (Inl e)
      then show ?thesis using assms(1,2) c1 by (auto simp: open_socket_def Let_def open_link_def)
    next
      case (Inr ais)
      obtain r2 ss2 where c2: "connect_loop sys (Errno 0) ais ss1 = (r2, ss2)" by fastforce
      have "ss_slot ss2 i = ss_slot ss i"
        using touchesD(8) [OF touches_connect_loop [OF touches_refl c2], of i "Suc i"] callE(2) [OF c1] by simp
      then have "new_fd sys sid sock PROTOCOL_TCP op True ss2 = None" for sock
        using assms(2,3) new_fd_open by metis
      then show ?thesis
        using assms(1,2) c1 Inr c2 by (auto simp: open_socket_def Let_def open_link_def split: sum.splits)
    qed
  qed
  then show ?thesis using t by (simp add: goes_on_def)
qed

subsection \<open>Events of a connection\<close>

lemma stat_read_quiet:
  assumes "link_ok (ss_slot ss i)" "s' = (ss_slot (stat_read i n ss) i)\<lparr>so_p := P_size k\<rparr>"
  shows "quiet (ss_slot ss i) s'"
proof -
  obtain st where "ss_slot (stat_read i n ss) i = (ss_slot ss i)\<lparr>so_stat := st\<rparr>" using stat_slot(4) by blast
  then show ?thesis using assms(1) by (intro quietI [of _ _ k]) (simp_all add: assms(2))
qed

lemma forward_message_tcp_goes_on:
  assumes "forward_message_tcp sys i ss = Some (r, ss')" "link_ok (ss_slot ss i)" "open_link (ss_slot ss i)"
  shows "goes_on i ss ss'"
proof -
  have t: "touches i ss ss'" using withinD [OF within_forward_message(1) assms(1)] by auto
  obtain sz where sz: "so_p (ss_slot ss i) = P_size sz" using link_ok_P_size [OF assms(2)] by blast
  obtain r1 ss1 where c: "call (sys_read sys (so_fd (ss_slot ss i)) sz) ss = (r1, ss1)" by fastforce
  note c1 = callE(1) [OF c, of i] fun_cong [OF callE(2) [OF c], of i]
  have fc: "goes_on i ss s'" if "force_close sys i ss1 = Some (m, s')" for m s'
    using goes_on_before [OF c1 force_close_goes_on [OF that]] c1(2) assms(3) by auto
  show ?thesis
  proof (cases r1)
    case (Inl e)
    then show ?thesis using assms(1) sz c fc goes_on_same [OF t] c1(2) assms(2)
      by (auto simp: forward_message_tcp_def bind_eq_Some_conv split: if_splits)
  next
    case (Inr buffer)
    show ?thesis
    proof (cases "buffer = []")
      case True
      then show ?thesis using assms(1) sz c fc Inr by (auto simp: forward_message_tcp_def bind_eq_Some_conv)
    next
      case False
      then obtain n k where "ss' = upd_sock i (\<lambda>s. s\<lparr>so_p := P_size k\<rparr>) (stat_read i n ss1)"
        using assms(1,3) sz c Inr c1(2) by (auto simp: forward_message_tcp_def Let_def)
      then have "quiet (ss_slot ss1 i) (ss_slot ss' i)" using stat_read_quiet [of ss1 i] assms(2) c1(2) by auto
      then show ?thesis using t c1(2) by (simp add: goes_on_def)
    qed
  qed
qed

lemma report_connect_goes_on:
  assumes "report_connect sys i ss = Some (r, ss')" "link_ok (ss_slot ss i)" "so_type (ss_slot ss i) = SOCKET_TYPE_CONNECTING"
  shows "goes_on i ss ss'"
proof -
  let ?s = "ss_slot ss i"
  have t: "touches i ss ss'" using withinD [OF within_report_connect assms(1)] by auto
  obtain r1 ss1 where c: "call (sys_so_error sys (so_fd ?s)) ss = (r1, ss1)" by fastforce
  note c1 = callE(1) [OF c, of i] fun_cong [OF callE(2) [OF c], of i]
  have fc: "goes_on i ss s'" if "force_close sys i ss1 = Some (m, s')" for m s'
    using goes_on_before [OF c1 force_close_goes_on [OF that]] c1(2) assms(3) by auto
  show ?thesis
  proof (cases "r1 = Inr None")
    case False
    then show ?thesis using assms(1) c fc by (cases r1) (auto simp: report_connect_def bind_eq_Some_conv Let_def split: option.splits)
  next
    case True
    let ?ss2 = "upd_sock i (\<lambda>s. s\<lparr>so_type := SOCKET_TYPE_CONNECTED\<rparr>) ss1"
    let ?ss3 = "if nomore_sending_data (ss_slot ?ss2 i) then watch_write sys i False ?ss2 else ?ss2"
    have "ss_slot ss' = ss_slot ?ss3"
      using assms(1) c True by (auto simp: report_connect_def Let_def split: prod.splits dest: callE(2))
    then have s': "ss_slot ss' i = ?s\<lparr>so_type := SOCKET_TYPE_CONNECTED,
        so_polls := so_polls ?s @ (if nomore_sending_data (?s\<lparr>so_type := SOCKET_TYPE_CONNECTED\<rparr>) then [(EPOLL_CTL_MOD, False)] else [])\<rparr>"
      using c1(2) watch_write_slot(2) [where i = i and ss = ?ss2 and sys = sys and b = False] by (auto intro: socket.equality)
    have np: "never_paused (ss_slot ss' i) \<Longrightarrow> never_paused ?s" by (auto simp: s' never_paused_def)
    have "watch_ok (ss_slot ss' i)"
    proof (cases "nomore_sending_data (?s\<lparr>so_type := SOCKET_TYPE_CONNECTED\<rparr>)")
      case True
      then have "\<not> waits (ss_slot ss' i)" by (auto simp: s' waits_def nomore_sending_data_def send_buffer_empty_def)
      then show ?thesis
        using assms(2,3) np True watched_mod [of "waits ?s" "so_polls ?s" False False]
        by (auto simp: link_ok_def sock_ok_def watch_ok_def s')
    next
      case False
      then show ?thesis using assms(2,3) by (auto simp: link_ok_def sock_ok_def watch_ok_def s' never_paused_def waits_def)
    qed
    then have "link_ok (ss_slot ss' i)" using assms(2) np by (auto simp: link_ok_def sock_ok_def s')
    moreover have "stream_of (ss_slot ss' i) = stream_of ?s" by (rule stream_of_cong) (simp_all add: s')
    ultimately have "quiet ?s (ss_slot ss' i)" by (simp add: quiet_def) (simp add: s')
    then show ?thesis using t by (simp add: goes_on_def)
  qed
qed

lemma send_buffer_goes_on:
  assumes "send_buffer sys i ss = Some (r, ss')" "posix_write sys" "ss_soi ss = None" "link_ok (ss_slot ss i)"
    "so_type (ss_slot ss i) = SOCKET_TYPE_CONNECTED"
  shows "goes_on i ss ss'"
proof -
  have "sends i ss r ss'" using send_buffer_slot [OF assms(1,2) _ assms(3)] assms(4,5) by (simp add: link_ok_def)
  then show ?thesis
    using quiet_moved [OF _ assms(4)] assms(5) closed_not_open balancedD by (auto simp: sends_def goes_on_def)
qed

subsection \<open>New data for a connection\<close>

definition pushed :: "priority \<Rightarrow> bytes \<Rightarrow> stream \<Rightarrow> stream \<Rightarrow> bool" where
  "pushed pr b x y \<longleftrightarrow>
     (case x of (w, H, L) \<Rightarrow>
        if pr = PRIORITY_HIGH then y = (w, H @ [b], L) else y = (w, H, L @ [b]) \<or> L = [] \<and> y = (w, H @ [b], []))"

lemma in_order_low_to_high: "in_order hs ls (w, H, []) \<Longrightarrow> in_order hs (ls @ [b]) (w, H @ [b], [])"
  by (erule in_orderE, rule in_orderI [OF _ pieces_append [of _ _ _ _ PRIORITY_LOW]]) auto

lemma in_order_pushed:
  assumes "in_order hs ls x" "pushed pr b x y"
  shows "in_order (hs @ (if pr = PRIORITY_HIGH then [b] else [])) (ls @ (if pr = PRIORITY_LOW then [b] else [])) y"
  using assms in_order_high in_order_low in_order_low_to_high
  by (cases x; cases pr) (auto simp: pushed_def simp del: in_order.simps)

definition takes :: "priority \<Rightarrow> bytes \<Rightarrow> socket \<Rightarrow> socket \<Rightarrow> bool" where
  "takes pr b s s' \<longleftrightarrow> so_id s' = so_id s \<and> so_sending s' = so_sending s \<and> so_type s' = so_type s \<and> link_ok s' \<and>
     pushed pr b (stream_of s) (stream_of s')"

lemma check_warning_slot:
  assumes "check_warning i ss = (r, ss')"
  shows "\<exists>x. ss_slot ss' i = (ss_slot ss i)\<lparr>so_warn_size := x\<rparr>"
proof -
  have "\<exists>x. s = s\<lparr>so_warn_size := x\<rparr>" for s :: socket by (rule exI [of _ "so_warn_size s"]) simp
  then show ?thesis using assms by (auto simp: check_warning_def Let_def split: if_splits)
qed

lemma append_link_ok:
  assumes "link_ok s" "so_dw_buffer s' = so_dw_buffer s" "so_p s' = so_p s" "so_protocol s' = so_protocol s" "so_type s' = so_type s"
    "so_reading s' = so_reading s" "so_polls s' = so_polls s @ ps" "ps = [] \<and> waits s \<or> ps = [(EPOLL_CTL_MOD, True)] \<or> ps = [] \<and> so_type s = SOCKET_TYPE_CONNECTING"
    "so_wb_size s' = so_wb_size s + int (length bs)" "wb_ptr b = cb_addr (wb_buffer b)" "wb_data b = bs"
    "so_high s' = so_high s @ [b] \<and> so_low s' = so_low s \<or> so_high s' = so_high s \<and> so_low s' = so_low s @ [b]"
  shows "link_ok s'"
proof -
  have np: "never_paused s' \<Longrightarrow> never_paused s" using assms(7) by (auto simp: never_paused_def)
  have "watched True (so_polls s')"
    if "never_paused s" "so_type s \<in> {SOCKET_TYPE_CONNECTING, SOCKET_TYPE_CONNECTED, SOCKET_TYPE_HALFCLOSE}"
  proof -
    have "watched (waits s) (so_polls s)" "so_type s = SOCKET_TYPE_CONNECTING \<longrightarrow> snd (last (so_polls s))"
      using assms(1) that by (auto simp: link_ok_def sock_ok_def watch_ok_def)
    then show ?thesis
      using assms(7,8) watched_mod [of "waits s" "so_polls s" True True] by (auto simp: watched_def)
  qed
  then have "watch_ok s'" using np assms(5) watched_less by (auto simp: watch_ok_def)
  moreover have "so_type s = SOCKET_TYPE_CONNECTING \<and> never_paused s' \<longrightarrow> snd (last (so_polls s'))"
    using assms(1,7,8) np by (auto simp: link_ok_def)
  ultimately show ?thesis using assms np by (auto simp: link_ok_def sock_ok_def low_fresh_def)
qed

lemma stream_append:
  assumes "so_wire s' = so_wire s" "so_dw_buffer s' = so_dw_buffer s" "so_dw_offset s' = so_dw_offset s" "wb_data b = bs"
    "so_high s' = so_high s @ [b] \<and> so_low s' = so_low s \<and> (pr = PRIORITY_HIGH \<or> so_low s = []) \<or>
     so_high s' = so_high s \<and> so_low s' = so_low s @ [b] \<and> pr = PRIORITY_LOW"
  shows "pushed pr bs (stream_of s) (stream_of s')"
proof -
  have "dw_rest s' = dw_rest s" using assms(2,3) by (simp add: dw_rest_def split: option.split cbuffer.split)
  then show ?thesis using assms by (cases pr) (auto simp: pushed_def stream_of_def)
qed

lemma send_socket_takes:
  assumes "send_socket sys sid b pr None ss = Some (r, ss')" "HASH_ID sid = i" "ss_soi ss = None"
    "link_ok (ss_slot ss i)" "open_link (ss_slot ss i)" "so_id (ss_slot ss i) = sid"
  shows "\<exists>a bs. b = Memory a bs \<and> takes pr bs (ss_slot ss i) (ss_slot ss' i)"
proof -
  let ?s = "ss_slot ss i"
  obtain a bs where b: "b = Memory a bs" using assms(1,3) by (cases b) (auto simp: send_socket_def send_object_init_def Let_def)
  have tcp: "so_protocol ?s = PROTOCOL_TCP" using assms(4) by (simp add: link_ok_def sock_ok_def)
  let ?b = "\<lparr>wb_buffer = b, wb_ptr = a, wb_data = bs, wb_udp_address = None\<rparr>"
  let ?first = "send_buffer_empty ?s \<and> so_type ?s = SOCKET_TYPE_CONNECTED"
  let ?pr = "if ?first then PRIORITY_HIGH else pr"
  let ?ss1 = "upd_sock i (\<lambda>s. set_wb_list ?pr (wb_list ?pr s @ [?b]) (s\<lparr>so_wb_size := so_wb_size s + int (length bs)\<rparr>)) ss"
  let ?ss2 = "if ?first then watch_write sys i True ?ss1 else ?ss1"
  have go: "check_warning i ?ss2 = (r, ss')"
    using assms(1,2,5,6) tcp
    by (cases pr) (auto simp: send_socket_def Let_def b send_object_init_def append_sendbuffer_def append_sendbuffer_low_def append_to_def)
  obtain x where "ss_slot ss' i = (ss_slot ?ss2 i)\<lparr>so_warn_size := x\<rparr>" using check_warning_slot [OF go] by blast
  then have s': "ss_slot ss' i = (set_wb_list ?pr (wb_list ?pr ?s @ [?b]) (?s\<lparr>so_wb_size := so_wb_size ?s + int (length bs)\<rparr>))
      \<lparr>so_polls := so_polls ?s @ (if ?first then [(EPOLL_CTL_MOD, True)] else []), so_warn_size := x\<rparr>"
    using watch_write_slot(2) [where i = i and ss = ?ss1 and sys = sys and b = True] by auto
  have lists: "so_high (ss_slot ss' i) = so_high ?s @ [?b] \<and> so_low (ss_slot ss' i) = so_low ?s \<and> (pr = PRIORITY_HIGH \<or> so_low ?s = []) \<or>
     so_high (ss_slot ss' i) = so_high ?s \<and> so_low (ss_slot ss' i) = so_low ?s @ [?b] \<and> pr = PRIORITY_LOW"
    by (cases ?first; cases pr) (auto simp: s' set_wb_list_def wb_list_def send_buffer_empty_def)
  have f: "so_dw_buffer (ss_slot ss' i) = so_dw_buffer ?s" "so_p (ss_slot ss' i) = so_p ?s" "so_protocol (ss_slot ss' i) = so_protocol ?s"
    "so_type (ss_slot ss' i) = so_type ?s" "so_reading (ss_slot ss' i) = so_reading ?s" "so_wire (ss_slot ss' i) = so_wire ?s"
    "so_dw_offset (ss_slot ss' i) = so_dw_offset ?s" "so_id (ss_slot ss' i) = so_id ?s" "so_sending (ss_slot ss' i) = so_sending ?s"
    "so_wb_size (ss_slot ss' i) = so_wb_size ?s + int (length bs)"
    by (simp_all add: s') (simp_all add: set_wb_list_def split: priority.split)
  have "link_ok (ss_slot ss' i)"
    using lists assms(5)
    by (intro append_link_ok [OF assms(4) f(1-5), of "if ?first then [(EPOLL_CTL_MOD, True)] else []" bs ?b])
      (auto simp: s' f(10) b waits_def send_buffer_empty_def open_link_def)
  moreover have "pushed pr bs (stream_of ?s) (stream_of (ss_slot ss' i))"
    using lists f by (intro stream_append [of _ _ ?b]) auto
  ultimately show ?thesis using b f by (auto simp: takes_def)
qed

end
