(* ===== verification/SocketConn.thy ===== *)
theory SocketConn
  imports SocketLink
begin

text \<open>
  One TCP connection among everything the socket server does: calls of the interface and turns of the poll
  loop, in any order. What reaches the wire, and when epoll watches for it.
\<close>

unbundle bit_operations_syntax

section \<open>Everything that can happen\<close>

text \<open>The requests on the control pipe that send to a socket, and what they send.\<close>

fun sends_to :: "int \<Rightarrow> request \<Rightarrow> bool" where
  "sends_to sid (Send pr sid' b) \<longleftrightarrow> sid' = sid"
| "sends_to sid _ \<longleftrightarrow> False"

fun cb_content :: "cbuffer \<Rightarrow> bytes" where
  "cb_content (Memory a bs) = bs"
| "cb_content (Object a) = []"

fun sent_by :: "priority \<Rightarrow> int \<Rightarrow> request \<Rightarrow> bytes list" where
  "sent_by pr sid (Send pr' sid' b) = (if pr' = pr \<and> sid' = sid then [cb_content b] else [])"
| "sent_by pr sid _ = []"

fun datagram_to :: "int \<Rightarrow> request \<Rightarrow> bool" where
  "datagram_to sid (SendUdp sid' b a) \<longleftrightarrow> sid' = sid"
| "datagram_to sid _ \<longleftrightarrow> False"

definition on_pipe :: "priority \<Rightarrow> int \<Rightarrow> request list \<Rightarrow> bytes list" where
  "on_pipe pr sid reqs = concat (map (sent_by pr sid) reqs)"

text \<open>
  The invariant of the connection \<open>sid\<close> to which \<open>hs\<close> was sent with high and \<open>ls\<close> with low priority since
  it was opened.
\<close>

definition conn_inv :: "int \<Rightarrow> bytes list \<Rightarrow> bytes list \<Rightarrow> 'w socket_server \<Rightarrow> bool" where
  "conn_inv sid hs ls ss \<longleftrightarrow>
     so_id (ss_slot ss (HASH_ID sid)) = sid \<and> open_link (ss_slot ss (HASH_ID sid)) \<and> link_ok (ss_slot ss (HASH_ID sid)) \<and>
     counted (length (filter (sends_to sid) (ss_pipe ss))) (ss_slot ss (HASH_ID sid)) \<and>
     ss_soi ss = None \<and> (\<forall>r \<in> set (ss_pipe ss). \<not> datagram_to sid r) \<and>
     (\<exists>hs0 ls0. hs = hs0 @ on_pipe PRIORITY_HIGH sid (ss_pipe ss) \<and> ls = ls0 @ on_pipe PRIORITY_LOW sid (ss_pipe ss) \<and>
        in_order hs0 ls0 (stream_of (ss_slot ss (HASH_ID sid))))"

definition same_link :: "nat \<Rightarrow> 'w socket_server \<Rightarrow> 'w socket_server \<Rightarrow> bool" where
  "same_link i ss ss' \<longleftrightarrow> ss_slot ss' i = ss_slot ss i \<and> ss_pipe ss' = ss_pipe ss \<and> ss_soi ss' = ss_soi ss"

lemma conn_inv_same: "conn_inv sid hs ls ss \<Longrightarrow> same_link (HASH_ID sid) ss ss' \<Longrightarrow> conn_inv sid hs ls ss'"
  by (simp add: conn_inv_def same_link_def)

lemma counted_cong: "so_id s' = so_id s \<Longrightarrow> so_sending s' = so_sending s \<Longrightarrow> counted n s' \<longleftrightarrow> counted n s"
  by (simp add: counted_def sending_count_def)

lemma conn_inv_goes_on:
  assumes "conn_inv sid hs ls ss" "goes_on (HASH_ID sid) ss ss'" "open_link (ss_slot ss' (HASH_ID sid))"
  shows "conn_inv sid hs ls ss'"
proof -
  have "quiet (ss_slot ss (HASH_ID sid)) (ss_slot ss' (HASH_ID sid))" and t: "touches (HASH_ID sid) ss ss'"
    using assms(2,3) by (auto simp: goes_on_def)
  then show ?thesis
    using assms(1,3) touchesD(1,2) [OF t] counted_cong [of "ss_slot ss' (HASH_ID sid)" "ss_slot ss (HASH_ID sid)"] in_order_advs
    unfolding conn_inv_def quiet_def by metis
qed

lemma conn_inv_touches_other:
  assumes "conn_inv sid hs ls ss" "touches j ss ss'" "j \<noteq> HASH_ID sid"
  shows "conn_inv sid hs ls ss'"
  using conn_inv_same [OF assms(1)] touchesD(1,2,8) [OF assms(2)] assms(3) by (simp add: same_link_def)

lemma conn_inv_pop:
  assumes "conn_inv sid hs ls ss" "ss_pipe ss = req # reqs" "\<not> sends_to sid req"
  shows "conn_inv sid hs ls (ss\<lparr>ss_pipe := reqs\<rparr>)"
proof -
  have "sent_by pr sid req = []" for pr using assms(3) by (cases req) auto
  then show ?thesis using assms by (simp add: conn_inv_def on_pipe_def)
qed

subsection \<open>Requests\<close>

text \<open>A request that does not send to the connection.\<close>

lemma other_request_goes_on:
  assumes "ctrl_request sys req ss = Some (r, ss')" "conn_inv sid hs ls ss" "posix_write sys" "\<not> sends_to sid req" "\<not> datagram_to sid req"
    "open_link (ss_slot ss' (HASH_ID sid))"
  shows "conn_inv sid hs ls ss'"
proof -
  let ?i = "HASH_ID sid"
  have l: "link_ok (ss_slot ss ?i)" "open_link (ss_slot ss ?i)" "ss_soi ss = None" "so_id (ss_slot ss ?i) = sid"
    using assms(2) by (auto simp: conn_inv_def)
  note on = conn_inv_goes_on [OF assms(2) _ assms(6)]
  have sock: "conn_inv sid hs ls ss'" if t: "touches (HASH_ID sid') ss ss'" and g: "HASH_ID sid' = ?i \<Longrightarrow> goes_on ?i ss ss'" for sid'
    using conn_inv_touches_other [OF assms(2) t] on [OF g] by (cases "HASH_ID sid' = ?i") auto
  have dropped: "ss_slot ss1 ?i = ss_slot ss ?i \<and> goes_on ?i ss ss1" if f: "send_socket sys sid' b pr a ss = Some (r1, ss1)" "HASH_ID sid' = ?i" "sid' \<noteq> sid" for sid' b pr a r1 ss1
  proof -
    obtain ss2 where "FREE b ss = Some ss2" "ss1 = ss2"
      using f l(4) by (auto simp: send_socket_def Let_def bind_eq_Some_conv)
    then show ?thesis using FREE_slot(1,2) goes_on_same l(1) by metis
  qed
  show ?thesis
  proof (cases req)
    case (Resume sid' op)
    then show ?thesis
      using assms(1) withinD [OF within_resume_socket [OF touches_refl]] resume_socket_goes_on [of sys sid' op ss r ss' ?i] l
      by (intro sock [of sid']) (auto simp: ctrl_request_def)
  next
    case (Pause sid' op)
    then show ?thesis
      using assms(1) touches_pause_socket [OF touches_refl] pause_socket_goes_on [of sid' ?i ss sys] l
      by (intro sock [of sid']) (auto simp: ctrl_request_def)
  next
    case (Bind sid' fd op)
    then show ?thesis
      using assms(1) withinD [OF within_bind_socket [OF touches_refl]] new_fd_open [of ss sid'] l
      by (intro sock [of sid']) (auto simp: ctrl_request_def bind_socket_def Let_def)
  next
    case (Listen sid' fd op)
    then show ?thesis
      using assms(1) withinD [OF within_listen_socket [OF touches_refl]] new_fd_open [of ss sid'] l
      by (intro sock [of sid']) (auto simp: ctrl_request_def listen_socket_def)
  next
    case (Close sid' sh op)
    then show ?thesis
      using assms(1,3) withinD [OF within_close_socket [OF touches_refl]] close_socket_goes_on [of sys sid' sh op ss r ss' ?i] l
      by (intro sock [of sid']) (auto simp: ctrl_request_def)
  next
    case (Open sid' port op host)
    then show ?thesis
      using assms(1) withinD [OF within_open_socket [OF touches_refl]] open_socket_goes_on [of sys sid' port op host ss r ss' ?i] l
      by (intro sock [of sid']) (auto simp: ctrl_request_def)
  next
    case Exit
    then show ?thesis using assms(1,2) by (simp add: ctrl_request_def)
  next
    case (Send pr sid' b)
    then obtain ss1 where s: "send_socket sys sid' b pr None ss = Some (r, ss1)" and d: "dec_sending_ref sid' ss1 = Some ss'"
      using assms(1) by (auto simp: ctrl_request_def bind_eq_Some_conv)
    have t: "touches (HASH_ID sid') ss ss1" using withinD [OF within_send_socket s] by blast
    have t': "touches (HASH_ID sid') ss ss'" using within1D [OF within_sending_ref(2) d] t by blast
    have ne: "sid' \<noteq> sid" using assms(4) Send by simp
    show ?thesis
    proof (rule sock [OF t'])
      assume h: "HASH_ID sid' = ?i"
      have "ss' = ss1" using d h ne l(4) dropped [OF s h ne] by (auto simp: dec_sending_ref_def Let_def)
      then show "goes_on ?i ss ss'" using dropped [OF s h ne] by simp
    qed
  next
    case (SendUdp sid' b a)
    then have s: "send_socket sys sid' b PRIORITY_HIGH (Some a) ss = Some (r, ss')" using assms(1) by (simp add: ctrl_request_def)
    show ?thesis
      using withinD [OF within_send_socket s] dropped [OF s] assms(5) SendUdp by (intro sock [of sid']) auto
  next
    case (SetUdp sid' a)
    then show ?thesis
      using assms(1) withinD [OF within_set_udp_address [OF touches_refl]] set_udp_address_goes_on [of sid' a ss r ss' ?i] l
      by (intro sock [of sid']) (auto simp: ctrl_request_def)
  next
    case (Setopt sid' w v)
    then have e: "ss' = setopt_socket sys sid' w v ss" using assms(1) by (simp add: ctrl_request_def)
    have tr: "touches (HASH_ID sid') ss ss'" unfolding e by (rule touches_setopt_socket [OF touches_refl])
    have sl: "ss_slot ss' = ss_slot ss" by (simp add: e setopt_socket_def Let_def)
    show ?thesis by (rule sock [OF tr]) (use goes_on_same [of ?i ss ss'] tr l(1) sl in simp)
  next
    case (Udp sid' fd fam op)
    then have u: "add_udp_socket sys sid' fd fam op ss = Some ss'" using assms(1) by (auto simp: ctrl_request_def bind_eq_Some_conv)
    show ?thesis
      by (rule sock [OF within1D [OF within_add_udp_socket [OF touches_refl] u]])
        (use u new_fd_open [of ss sid'] l(2) in \<open>simp add: add_udp_socket_def\<close>)
  qed
qed

text \<open>A request that sends to the connection.\<close>

lemma send_request_conn:
  assumes "conn_inv sid hs ls ss0" "ss_pipe ss0 = req # reqs" "sends_to sid req"
    "ctrl_request sys req (ss0\<lparr>ss_pipe := reqs\<rparr>) = Some (r, ss')"
  shows "conn_inv sid hs ls ss'"
proof -
  let ?i = "HASH_ID sid" and ?ss = "ss0\<lparr>ss_pipe := reqs\<rparr>"
  let ?s = "ss_slot ss0 ?i"
  obtain pr b where req: "req = Send pr sid b" using assms(3) by (cases req) auto
  then obtain ss1 where s: "send_socket sys sid b pr None ?ss = Some (r, ss1)" and d: "dec_sending_ref sid ss1 = Some ss'"
    using assms(4) by (auto simp: ctrl_request_def bind_eq_Some_conv)
  have l: "link_ok ?s" "open_link ?s" "ss_soi ss0 = None" "so_id ?s = sid"
    and n: "counted (Suc (length (filter (sends_to sid) reqs))) ?s"
    using assms(1-3) by (auto simp: conn_inv_def)
  obtain a bs where b: "b = Memory a bs" and tk: "takes pr bs ?s (ss_slot ss1 ?i)"
    using send_socket_takes [OF s] l by auto
  have t1: "touches ?i ?ss ss1" using withinD [OF within_send_socket s] by blast
  have tcp: "so_protocol (ss_slot ss1 ?i) = PROTOCOL_TCP" using tk by (auto simp: takes_def link_ok_def sock_ok_def)
  have c1: "counted (Suc (length (filter (sends_to sid) reqs))) (ss_slot ss1 ?i)"
    using n tk counted_cong [of "ss_slot ss1 ?i" ?s] by (simp add: takes_def)
  then have ss': "ss' = upd_sock ?i (\<lambda>s. s\<lparr>so_sending := so_sending s - 1\<rparr>) ss1"
    using d tk l(4) tcp counted_0 [OF c1] by (auto simp: dec_sending_ref_def Let_def takes_def)
  obtain hs0 ls0 where io: "hs = hs0 @ on_pipe PRIORITY_HIGH sid (req # reqs)" "ls = ls0 @ on_pipe PRIORITY_LOW sid (req # reqs)"
    "in_order hs0 ls0 (stream_of ?s)"
    using assms(1,2) by (auto simp: conn_inv_def)
  let ?s' = "ss_slot ss' ?i"
  have f: "so_id ?s' = sid" "open_link ?s'" using tk l(2,4) by (auto simp: ss' takes_def open_link_def)
  have lk: "link_ok ?s'"
  proof -
    have l1: "link_ok (ss_slot ss1 ?i)" using tk by (simp add: takes_def)
    obtain k where "so_p (ss_slot ss1 ?i) = P_size k" using link_ok_P_size [OF l1] by blast
    then show ?thesis by (intro link_okI [OF l1, of _ k]) (simp_all add: ss')
  qed
  have cn: "counted (length (filter (sends_to sid) reqs)) ?s'" using counted_dec [OF c1] by (simp add: ss')
  have st: "stream_of ?s' = stream_of (ss_slot ss1 ?i)" by (rule stream_of_cong) (simp_all add: ss')
  have "in_order (hs0 @ (if pr = PRIORITY_HIGH then [bs] else [])) (ls0 @ (if pr = PRIORITY_LOW then [bs] else [])) (stream_of ?s')"
    using in_order_pushed [OF io(3)] tk by (simp add: st takes_def)
  moreover have "ss_pipe ss' = reqs" "ss_soi ss' = None" using touchesD(1,2) [OF t1] l(3) by (auto simp: ss' upd_sock_def)
  ultimately show ?thesis
    using f lk cn io(1,2) assms(1,2) unfolding conn_inv_def
    by (cases pr) (auto simp: req b on_pipe_def simp del: in_order.simps)
qed

lemma ctrl_cmd_conn:
  assumes "ctrl_cmd sys ss = Some (r, ss')" "conn_inv sid hs ls ss" "posix_write sys" "open_link (ss_slot ss' (HASH_ID sid))"
  shows "conn_inv sid hs ls ss'"
proof -
  obtain req reqs where p: "ss_pipe ss = req # reqs" and c: "ctrl_request sys req (ss\<lparr>ss_pipe := reqs\<rparr>) = Some (r, ss')"
    using assms(1) by (auto simp: ctrl_cmd_def split: list.splits)
  show ?thesis
  proof (cases "sends_to sid req")
    case True
    then show ?thesis using send_request_conn [OF assms(2) p _ c] by blast
  next
    case False
    have "\<not> datagram_to sid req" using assms(2) p by (auto simp: conn_inv_def)
    then show ?thesis using other_request_goes_on [OF c conn_inv_pop [OF assms(2) p False] assms(3) False _ assms(4)] by blast
  qed
qed

subsection \<open>Reserving an id\<close>

lemma reserve_loop_keeps:
  "reserve_loop n ss = (sid, ss') \<Longrightarrow> so_type (ss_slot ss i) \<noteq> SOCKET_TYPE_INVALID \<Longrightarrow>
     ss_slot ss' i = ss_slot ss i \<and> ss_pipe ss' = ss_pipe ss \<and> ss_soi ss' = ss_soi ss"
proof (induction n arbitrary: ss)
  case (Suc n)
  obtain id0 ss0 where b: "reserve_loop_body ss = (id0, ss0)" by fastforce
  then have s0: "ss_slot ss0 = ss_slot ss" "ss_pipe ss0 = ss_pipe ss" "ss_soi ss0 = ss_soi ss"
    by (auto simp: reserve_loop_body_def Let_def split: if_splits)
  show ?case
  proof (cases "so_type (ss_slot ss0 (HASH_ID id0)) = SOCKET_TYPE_INVALID")
    case True
    then show ?thesis using Suc.prems b s0 by (auto simp: upd_sock_def Let_def)
  next
    case False
    then show ?thesis using Suc.IH [of ss0] Suc.prems b s0 by (auto simp: Let_def)
  qed
qed simp

lemma reserve_id_keeps:
  assumes "reserve_id ss = (sid, ss')" "so_type (ss_slot ss i) \<noteq> SOCKET_TYPE_INVALID"
  shows "same_link i ss ss'"
  using reserve_loop_keeps [OF assms(1) [unfolded reserve_id_def] assms(2)] by (simp add: same_link_def)

lemma reserve_loop_slot:
  "reserve_loop n ss = (sid, ss') \<Longrightarrow> sid \<ge> 0 \<Longrightarrow>
     so_type (ss_slot ss (HASH_ID sid)) = SOCKET_TYPE_INVALID \<and> so_type (ss_slot ss' (HASH_ID sid)) = SOCKET_TYPE_RESERVE \<and>
     so_id (ss_slot ss' (HASH_ID sid)) = sid"
proof (induction n arbitrary: ss)
  case (Suc n)
  obtain id0 ss0 where b: "reserve_loop_body ss = (id0, ss0)" by fastforce
  then have s0: "ss_slot ss0 = ss_slot ss" by (auto simp: reserve_loop_body_def Let_def split: if_splits)
  then show ?case using Suc.IH [of ss0] Suc.prems b by (auto simp: Let_def split: if_splits)
qed simp

lemma same_link_trans: "same_link i a b \<Longrightarrow> same_link i b c \<Longrightarrow> same_link i a c"
  by (simp add: same_link_def)

lemma same_link_touches: "touches j ss ss' \<Longrightarrow> j \<noteq> i \<Longrightarrow> same_link i ss ss'"
  using touchesD(1,2) [of j ss ss'] touchesD(8) [of j ss ss' i] by (simp add: same_link_def)

lemma pipe_sys [simp]: "ss_pipe (run f ss) = ss_pipe ss" "ss_pipe (upd_sock i g ss) = ss_pipe ss"
  by (simp_all add: run_def upd_sock_def)

lemma same_link_sys [simp]: "same_link i ss (run f ss)" "call g ss = (r, ss') \<Longrightarrow> same_link i ss ss'"
  using touchesD(1,2) [OF callE(1)] by (auto simp: same_link_def run_def dest: callE(2))

subsection \<open>Events and turns of the loop\<close>

lemma report_accept_keeps:
  assumes "report_accept sys j ss = Some (r, ss')" "so_type (ss_slot ss j) = SOCKET_TYPE_LISTEN" "open_link (ss_slot ss i)"
  shows "same_link i ss ss'"
proof -
  obtain r1 ss1 where c: "call (sys_accept sys (so_fd (ss_slot ss j))) ss = (r1, ss1)" by fastforce
  note c1 = callE(2) [OF c] same_link_sys(2) [OF c, of i]
  show ?thesis
  proof (cases r1)
    case (Inl e)
    then show ?thesis using assms(1) c c1 by (auto simp: report_accept_def split: if_splits)
  next
    case (Inr x)
    obtain fd sa where x: "x = (fd, sa)" by fastforce
    obtain sid ss2 where r: "reserve_id ss1 = (sid, ss2)" by fastforce
    have open1: "so_type (ss_slot ss1 i) \<noteq> SOCKET_TYPE_INVALID" using assms(3) c1 by simp
    note k2 = reserve_id_keeps [OF r open1]
    show ?thesis
    proof (cases "sid < 0")
      case True
      then show ?thesis
        using assms(1) c Inr x r same_link_trans [OF c1(2) k2] same_link_trans [OF same_link_trans [OF c1(2) k2]]
        by (auto simp: report_accept_def)
    next
      case False
      have ne: "HASH_ID sid \<noteq> i"
        using reserve_loop_slot [OF r [unfolded reserve_id_def]] False assms(3) c1 by (auto simp: open_link_def)
      let ?ss3 = "run (sys_nonblocking sys fd) (run (sys_keepalive sys fd) ss2)"
      obtain ns ss4 where nf: "new_fd sys sid fd PROTOCOL_TCP (so_opaque (ss_slot ?ss3 j)) False ?ss3 = Some (ns, ss4)"
        and fin: "ss' = (if ns then upd_sock (HASH_ID sid) (\<lambda>s. s\<lparr>so_type := SOCKET_TYPE_PACCEPT\<rparr>) (stat_read j 1 ss4) else run (sys_close sys fd) ss4)"
        using assms(1) c Inr x r False by (auto simp: report_accept_def Let_def bind_eq_Some_conv split: if_splits)
      have k4: "same_link i ss ss4"
        using same_link_trans [OF c1(2) k2] same_link_touches [OF withinD [OF within_new_fd [OF touches_refl] nf] ne]
        by (simp add: same_link_def)
      have "j \<noteq> i" using assms(2,3) by (auto simp: open_link_def)
      then have "same_link i ss4 (stat_read j 1 ss4)" using same_link_touches [OF stat_slot(3)] by blast
      then show ?thesis using k4 ne by (auto simp: fin same_link_def upd_sock_def [of _ _ "stat_read j 1 ss4"] run_def)
    qed
  qed
qed

lemma same_link_events [simp]: "same_link i ss (again ss)" "same_link i ss (without_read k ss)" "same_link i ss (clear_closed_event t m ss)"
  by (simp_all add: same_link_def again_def without_read_def clear_closed_event_def)

lemma dispatch_event_conn:
  assumes "dispatch_event sys k j e ss = Some (r, ss')" "conn_inv sid hs ls ss" "posix_write sys" "open_link (ss_slot ss' (HASH_ID sid))"
  shows "conn_inv sid hs ls ss'"
proof -
  let ?i = "HASH_ID sid"
  have l: "link_ok (ss_slot ss ?i)" "open_link (ss_slot ss ?i)" "ss_soi ss = None"
    using assms(2) by (auto simp: conn_inv_def)
  show ?thesis
  proof (cases "j = ?i")
    case False
    show ?thesis
    proof (cases "so_type (ss_slot ss j) = SOCKET_TYPE_LISTEN")
      case True
      then show ?thesis
        using assms(1) report_accept_keeps [OF _ True l(2)] conn_inv_same [OF assms(2)]
        by (auto simp: dispatch_event_def bind_eq_Some_conv)
    next
      case nl: False
      have "\<exists>ss1. touches j ss ss1 \<and> same_link ?i ss1 ss'"
      proof (cases "e_read e \<and> so_type (ss_slot ss j) \<notin> {SOCKET_TYPE_CONNECTING, SOCKET_TYPE_INVALID}")
        case True
        then have "readable sys k j e ss = Some (r, ss')" using assms(1) nl by (auto simp: dispatch_event_def split: socket_type.splits)
        then obtain ss1 where f: "(if so_protocol (ss_slot ss j) = PROTOCOL_TCP then forward_message_tcp sys j ss else forward_message_udp sys j ss) = Some (r, ss1)"
          and e: "ss' = again ss1 \<or> ss' = again (without_read k ss1) \<or> ss' = ss1"
          by (auto simp: readable_def Let_def bind_eq_Some_conv split: if_splits)
        have "touches j ss ss1" using f withinD [OF within_forward_message(1) [OF touches_refl]] withinD [OF within_forward_message(2) [OF touches_refl]]
          by (auto split: if_splits)
        moreover have "same_link ?i ss1 ss'" using e by (auto simp: same_link_def again_def without_read_def)
        ultimately show ?thesis by blast
      next
        case False
        have "within j ss (dispatch_event sys k j e ss)"
          using False nl by (auto simp: dispatch_event_def Let_def intro!: withins split: socket_type.split)
        then show ?thesis using withinD [OF _ assms(1)] by (auto simp: same_link_def)
      qed
      then show ?thesis using conn_inv_touches_other [OF assms(2)] conn_inv_same False by blast
    qed
  next
    case True
    note on = conn_inv_goes_on [OF assms(2) _ assms(4)]
    consider "so_type (ss_slot ss ?i) = SOCKET_TYPE_CONNECTING" | "so_type (ss_slot ss ?i) = SOCKET_TYPE_CONNECTED"
      using l(2) by (auto simp: open_link_def)
    then show ?thesis
    proof cases
      case 1
      then show ?thesis using assms(1) report_connect_goes_on [OF _ l(1)] on True by (auto simp: dispatch_event_def)
    next
      case 2
      have tcp: "so_protocol (ss_slot ss ?i) = PROTOCOL_TCP" using l(1) by (simp add: link_ok_def sock_ok_def)
      consider "e_read e" | "\<not> e_read e" "e_write e" | "\<not> e_read e" "\<not> e_write e" by blast
      then show ?thesis
      proof cases
        case 1
        then have "readable sys k ?i e ss = Some (r, ss')" using assms(1) 2 True by (auto simp: dispatch_event_def)
        then obtain ss1 where f: "forward_message_tcp sys ?i ss = Some (r, ss1)"
          and e: "same_link ?i ss1 ss'"
          using tcp by (auto simp: readable_def Let_def bind_eq_Some_conv same_link_def again_def without_read_def split: if_splits)
        have "open_link (ss_slot ss1 ?i)" using e assms(4) by (simp add: same_link_def)
        then have "conn_inv sid hs ls ss1"
          using conn_inv_goes_on [OF assms(2) forward_message_tcp_goes_on [OF f l(1,2)]] by blast
        then show ?thesis using e conn_inv_same by blast
      next
        case wr: 2
        then show ?thesis using assms(1) send_buffer_goes_on [OF _ assms(3) l(3,1) 2] on True 2 by (auto simp: dispatch_event_def)
      next
        case er: 3
        show ?thesis
        proof (cases "e_error e")
          case True
          obtain r1 ss1 where c: "call (sys_so_error sys (so_fd (ss_slot ss ?i))) ss = (r1, ss1)" by fastforce
          obtain m where "force_close sys ?i ss1 = Some (m, ss')"
            using assms(1) er 2 True c \<open>j = ?i\<close> by (auto simp: dispatch_event_def bind_eq_Some_conv)
          then have "\<not> open_link (ss_slot ss' ?i)"
            using force_close_slot [of sys ?i ss1 m ss'] callE(2) [OF c] 2 closed_not_open by auto
          then show ?thesis using assms(4) by blast
        next
          case False
          then show ?thesis
            using assms(1,2) er 2 \<open>j = ?i\<close> force_close_goes_on [of sys ?i ss _ ss'] on
            by (auto simp: dispatch_event_def bind_eq_Some_conv split: if_splits)
        qed
      qed
    qed
  qed
qed

lemma poll_turn_conn:
  assumes "poll_turn sys mo ss = Some (r, ss')" "conn_inv sid hs ls ss" "posix_write sys" "open_link (ss_slot ss' (HASH_ID sid))"
  shows "conn_inv sid hs ls ss'"
proof -
  let ?i = "HASH_ID sid"
  obtain cmd ss1 where h: "(if ss_checkctrl ss then has_cmd sys ss else (False, ss)) = (cmd, ss1)" by fastforce
  have k1: "same_link ?i ss ss1"
    using h same_link_sys(2) by (fastforce simp: has_cmd_def Let_def same_link_def split: if_splits prod.splits)
  note i1 = conn_inv_same [OF assms(2) k1]
  have next_conn: "conn_inv sid hs ls ss'" if nx: "next_event sys mo' s = Some (r', ss')" and sl: "same_link ?i ss1 s" for mo' s r'
  proof -
    let ?k = "ss_event_index s" let ?s = "s\<lparr>ss_event_index := ?k + 1\<rparr>"
    have i2: "conn_inv sid hs ls ?s"
      using conn_inv_same [OF i1] sl by (simp add: same_link_def)
    show ?thesis
    proof (cases "e_s (ss_ev s ! ?k)")
      case None
      then show ?thesis using nx i2 by (auto simp: next_event_def Let_def split: if_splits)
    next
      case (Some j)
      then obtain r2 where "dispatch_event sys ?k j (ss_ev s ! ?k) ?s = Some (r2, ss')"
        using nx by (auto simp: next_event_def Let_def bind_eq_Some_conv split: if_splits)
      then show ?thesis using dispatch_event_conn [OF _ i2 assms(3,4)] by blast
    qed
  qed
  show ?thesis
  proof (cases cmd)
    case True
    then obtain r2 ss2 where c: "ctrl_cmd sys ss1 = Some (r2, ss2)" and e: "same_link ?i ss2 ss'"
      using assms(1) h by (auto simp: poll_turn_def Let_def bind_eq_Some_conv same_link_def split: option.splits)
        (auto simp: clear_closed_event_def)
    have "open_link (ss_slot ss2 ?i)" using e assms(4) by (simp add: same_link_def)
    then show ?thesis using ctrl_cmd_conn [OF c i1 assms(3)] conn_inv_same [OF _ e] by blast
  next
    case False
    show ?thesis
    proof (cases "ss_event_index ss1 = length (ss_ev ss1)")
      case True
      obtain ev ss2 where c: "call (sp_wait sys (ss_event_fd ss1) MAX_EVENT) (ss1\<lparr>ss_checkctrl := False\<rparr>) = (ev, ss2)" by fastforce
      obtain er evs where ev: "ev = (er, evs)" by fastforce
      let ?s3 = "ss2\<lparr>ss_ev := evs, ss_checkctrl := True, ss_event_index := 0\<rparr>"
      have k3: "same_link ?i ss1 ?s3" using same_link_sys(2) [OF c, of ?i] by (simp add: same_link_def)
      show ?thesis
      proof (cases "evs = []")
        case True
        then have "ss' = ?s3" using assms(1) h False \<open>ss_event_index ss1 = length (ss_ev ss1)\<close> c ev by (auto simp: poll_turn_def Let_def)
        then show ?thesis using conn_inv_same [OF i1 k3] by simp
      next
        case ne: False
        then have "next_event sys False ?s3 = Some (r, ss')"
          using assms(1) h False True c ev by (auto simp: poll_turn_def Let_def)
        then show ?thesis using next_conn k3 by blast
      qed
    next
      case ne: False
      then have "next_event sys mo (ss1\<lparr>ss_checkctrl := False\<rparr>) = Some (r, ss')"
        using assms(1) h False by (auto simp: poll_turn_def Let_def)
      then show ?thesis using next_conn by (auto simp: same_link_def)
    qed
  qed
qed

subsection \<open>Calls of the interface\<close>

datatype server_call =
  Poll bool
| Call_connect u64 string int
| Call_listen u64 "string option" int int
| Call_bind u64 int
| Call_send socket_sendbuffer
| Call_send_lowpriority socket_sendbuffer
| Call_close u64 int
| Call_shutdown u64 int
| Call_start u64 int
| Call_pause u64 int
| Call_nodelay int
| Call_udp u64 "string option" int
| Call_udp_send bytes socket_sendbuffer
| Call_udp_connect int string int
| Call_updatetime u64
| Call_exit

fun server_step :: "'w sys \<Rightarrow> server_call \<Rightarrow> 'w socket_server \<Rightarrow> 'w socket_server option" where
  "server_step sys (Poll mo) ss = map_option snd (poll_turn sys mo ss)"
| "server_step sys (Call_connect op addr port) ss = Some (snd (socket_server_connect op addr port ss))"
| "server_step sys (Call_listen op addr port backlog) ss = Some (snd (socket_server_listen sys op addr port backlog ss))"
| "server_step sys (Call_bind op fd) ss = Some (snd (socket_server_bind op fd ss))"
| "server_step sys (Call_send buf) ss = map_option snd (socket_server_send sys buf ss)"
| "server_step sys (Call_send_lowpriority buf) ss = map_option snd (socket_server_send_lowpriority sys buf ss)"
| "server_step sys (Call_close op sid) ss = Some (socket_server_close op sid ss)"
| "server_step sys (Call_shutdown op sid) ss = Some (socket_server_shutdown op sid ss)"
| "server_step sys (Call_start op sid) ss = Some (socket_server_start op sid ss)"
| "server_step sys (Call_pause op sid) ss = Some (socket_server_pause op sid ss)"
| "server_step sys (Call_nodelay sid) ss = Some (socket_server_nodelay sid ss)"
| "server_step sys (Call_udp op addr port) ss = Some (snd (socket_server_udp sys op addr port ss))"
| "server_step sys (Call_udp_send a buf) ss = map_option snd (socket_server_udp_send sys a buf ss)"
| "server_step sys (Call_udp_connect sid addr port) ss = Some (snd (socket_server_udp_connect sys sid addr port ss))"
| "server_step sys (Call_updatetime time) ss = Some (socket_server_updatetime time ss)"
| "server_step sys Call_exit ss = Some (socket_server_exit ss)"

text \<open>What a call sends to the connection \<open>sid\<close>; datagram calls are for UDP sockets.\<close>

definition buffer_bytes :: "socket_sendbuffer \<Rightarrow> bytes" where
  "buffer_bytes buf =
     (case sb_buffer buf of SOCKET_BUFFER_MEMORY a bs \<Rightarrow> bs | SOCKET_BUFFER_OBJECT a \<Rightarrow> [] | SOCKET_BUFFER_RAWPOINTER a bs \<Rightarrow> bs)"

fun sent_high :: "int \<Rightarrow> server_call \<Rightarrow> bytes list" where
  "sent_high sid (Call_send buf) = (if sb_id buf = sid then [buffer_bytes buf] else [])"
| "sent_high sid _ = []"

fun sent_low :: "int \<Rightarrow> server_call \<Rightarrow> bytes list" where
  "sent_low sid (Call_send_lowpriority buf) = (if sb_id buf = sid then [buffer_bytes buf] else [])"
| "sent_low sid _ = []"

fun no_datagram :: "int \<Rightarrow> server_call \<Rightarrow> bool" where
  "no_datagram sid (Call_udp_send a buf) \<longleftrightarrow> sb_id buf \<noteq> sid"
| "no_datagram sid _ \<longleftrightarrow> True"

lemma conn_inv_request:
  assumes "conn_inv sid hs ls ss" "\<not> sends_to sid req" "\<not> datagram_to sid req"
  shows "conn_inv sid hs ls (send_request req ss)"
proof -
  have "sent_by pr sid req = []" for pr using assms(2) by (cases req) auto
  then show ?thesis using assms by (simp add: conn_inv_def on_pipe_def send_request_def)
qed

lemma clone_buffer_slot:
  assumes "clone_buffer sys buf ss = (b, ss')"
  shows "touches i ss ss'" "ss_slot ss' = ss_slot ss" "cb_content b = buffer_bytes buf"
    "sb_buffer buf \<noteq> SOCKET_BUFFER_OBJECT x \<Longrightarrow> (\<forall>a. sb_buffer buf \<noteq> SOCKET_BUFFER_OBJECT a) \<Longrightarrow> \<exists>a. b = Memory a (buffer_bytes buf)"
  using assms callE(1,2) by (auto simp: clone_buffer_def buffer_bytes_def Let_def split: sendbuffer_data.splits prod.splits)

lemma free_buffer_slot:
  assumes "free_buffer buf ss = Some ss'"
  shows "touches i ss ss'" "ss_slot ss' = ss_slot ss"
  using assms FREE_slot(1,2) by (auto simp: free_buffer_def simp del: FREE_Memory split: sendbuffer_data.splits)

lemma same_link_slot:
  assumes "touches i ss ss'" "ss_slot ss' i = ss_slot ss i"
  shows "same_link i ss ss'"
  using assms(2) touchesD(1,2) [OF assms(1)] by (simp add: same_link_def)

lemma queue_send_conn:
  assumes "queue_send sys pr buf ss = Some (v, ss')" "conn_inv sid hs ls ss" "sb_id buf = sid"
  shows "conn_inv sid (hs @ (if pr = PRIORITY_HIGH then [buffer_bytes buf] else []))
    (ls @ (if pr = PRIORITY_LOW then [buffer_bytes buf] else [])) ss'"
proof -
  let ?i = "HASH_ID sid" let ?s = "ss_slot ss ?i"
  obtain ss1 where i: "inc_sending_ref sid ss = Some ss1"
    and q: "(case clone_buffer sys buf ss1 of (b, ss2) \<Rightarrow> Some (0, send_request (Send pr sid b) ss2)) = Some (v, ss')"
    using assms(1,3) by (auto simp: queue_send_def Let_def bind_eq_Some_conv)
  obtain b ss2 where c: "clone_buffer sys buf ss1 = (b, ss2)" by fastforce
  have e: "ss' = send_request (Send pr sid b) ss2" using q c by simp
  have l: "link_ok ?s" "open_link ?s" "ss_soi ss = None" "so_id ?s = sid"
    and n: "counted (length (filter (sends_to sid) (ss_pipe ss))) ?s"
    using assms(2) by (auto simp: conn_inv_def)
  have ne: "sending_count ?s \<noteq> 0xffff" and ss1: "ss1 = upd_sock ?i (\<lambda>s. s\<lparr>so_sending := so_sending s + 1\<rparr>) ss"
    using i l n by (auto simp: inc_sending_ref_def Let_def link_ok_def sock_ok_def counted_def split: if_splits)
  have s2: "ss_slot ss2 ?i = ?s\<lparr>so_sending := so_sending ?s + 1\<rparr>" using clone_buffer_slot(2) [OF c] by (simp add: ss1)
  have k: "ss_pipe ss2 = ss_pipe ss" "ss_soi ss2 = None"
    using touchesD(1,2) [OF clone_buffer_slot(1) [OF c]] l(3) by (simp_all add: ss1)
  obtain p where p: "so_p ?s = P_size p" using link_ok_P_size [OF l(1)] by blast
  have "link_ok (ss_slot ss2 ?i)" by (rule link_okI [OF l(1), of _ p]) (simp_all add: s2 p)
  moreover have "stream_of (ss_slot ss2 ?i) = stream_of ?s" by (rule stream_of_cong) (simp_all add: s2)
  moreover have "open_link (ss_slot ss2 ?i)" using l(2) by (simp add: s2 open_link_def)
  ultimately show ?thesis
    using assms(2) counted_inc [OF n ne] l(4) k clone_buffer_slot(3) [OF c]
    by (cases pr) (auto simp: conn_inv_def e send_request_def s2 on_pipe_def simp del: in_order.simps)
qed

lemma direct_write_conn:
  assumes "direct_write sys i buf ss = Some (v, ss')" "conn_inv sid hs ls ss" "i = HASH_ID sid" "posix_write sys"
    "can_direct_write (ss_slot ss i) sid"
  shows "conn_inv sid (hs @ [buffer_bytes buf]) ls ss'"
proof -
  let ?s = "ss_slot ss i" let ?bs = "buffer_bytes buf"
  have l: "link_ok ?s" "ss_soi ss = None" "so_id ?s = sid"
    and n: "counted (length (filter (sends_to sid) (ss_pipe ss))) ?s"
    using assms(2,3) by (auto simp: conn_inv_def)
  have d: "so_high ?s = []" "so_low ?s = []" "so_dw_buffer ?s = None" "so_type ?s = SOCKET_TYPE_CONNECTED"
    and none: "filter (sends_to sid) (ss_pipe ss) = []"
    using assms(5) counted_0 [OF n] by (auto simp: can_direct_write_def nomore_sending_data_def send_buffer_empty_def)
  have tcp: "so_protocol ?s = PROTOCOL_TCP" using l(1) by (simp add: link_ok_def sock_ok_def)
  have content: "sendbuffer_content ss buf = Some ?bs" and mem: "\<And>a. sb_buffer buf \<noteq> SOCKET_BUFFER_OBJECT a"
    using assms(1) l(2) by (auto simp: direct_write_def sendbuffer_content_def buffer_bytes_def send_object_init_def Let_def split: sendbuffer_data.splits)
  obtain r ss1 where c: "call (sys_write sys (so_fd ?s) ?bs) ss = (r, ss1)" by fastforce
  note c1 = callE(1,2,5) [OF c]
  define k where "k = (case r of Inl _ \<Rightarrow> 0 | Inr n \<Rightarrow> n)"
  have k: "k \<le> length ?bs"
    using c1(3) assms(4) unfolding k_def posix_write_def by (cases r) auto
  define ss2 where "ss2 = stat_write i k (upd_sock i (\<lambda>s. s\<lparr>so_wire := so_wire s @ take k ?bs\<rparr>) ss1)"
  have t2: "touches i ss ss2"
    unfolding ss2_def by (intro touches_steps c1)
  obtain st where s2: "ss_slot ss2 i = ?s\<lparr>so_wire := so_wire ?s @ take k ?bs, so_stat := st\<rparr>"
    using stat_slot(2) [of i k "upd_sock i (\<lambda>s. s\<lparr>so_wire := so_wire s @ take k ?bs\<rparr>) ss1"] c1(2) by (auto simp: ss2_def)
  obtain p where p: "so_p ?s = P_size p" using link_ok_P_size [OF l(1)] by blast
  have empty: "on_pipe pr sid (ss_pipe ss) = []" for pr
    using none by (auto simp: on_pipe_def filter_empty_conv) (metis request.exhaust sends_to.simps(1) sent_by.simps)
  have w: "after_write sys i buf ?bs r ss1 = Some (v, ss')"
    using assms(1) by (simp add: direct_write_def Let_def content tcp c)
  have io: "in_order hs ls (so_wire ?s, [], [])"
    using assms(2,3) d empty by (auto simp: conn_inv_def stream_of_def dw_rest_def simp del: in_order.simps)
  have io1: "in_order (hs @ [?bs]) ls (so_wire ?s @ take k ?bs, [drop k ?bs], [])"
    using in_order_adv [OF adv.put] in_order_high [OF io, of ?bs] by (metis append.left_neutral)
  have fin: "conn_inv sid (hs @ [?bs]) ls ss'"
    if "touches i ss ss'" "link_ok (ss_slot ss' i)" "so_id (ss_slot ss' i) = sid" "so_type (ss_slot ss' i) = so_type ?s"
      "so_sending (ss_slot ss' i) = so_sending ?s" "in_order (hs @ [?bs]) ls (stream_of (ss_slot ss' i))"
    using that assms(2,3) touchesD(1,2) [OF that(1)] empty counted_cong [of "ss_slot ss' i" ?s]
    by (simp add: conn_inv_def open_link_def del: in_order.simps)
  show ?thesis
  proof (cases "k = length ?bs")
    case True
    then have f: "free_buffer buf ss2 = Some ss'"
      using w unfolding after_write_def Let_def k_def [symmetric] ss2_def [symmetric] by (auto simp: bind_eq_Some_conv)
    have s': "ss_slot ss' i = ss_slot ss2 i" using free_buffer_slot(2) [OF f] by simp
    have "link_ok (ss_slot ss' i)" by (rule link_okI [OF l(1), of _ p]) (simp_all add: s' s2 p)
    moreover have "in_order (hs @ [?bs]) ls (so_wire ?s @ ?bs, [], [])"
      using in_order_adv [OF adv.pop, of _ _ "so_wire ?s @ ?bs" "[]" "[]"] io1 True
      by (simp del: in_order.simps)
    ultimately show ?thesis
      using touches_trans [OF t2 free_buffer_slot(1) [OF f]] d l(3)
      by (intro fin) (simp_all add: s' s2 stream_of_def dw_rest_def True del: in_order.simps)
  next
    case False
    then obtain b ss3 where cl: "clone_buffer sys buf ss2 = (b, ss3)" and
      ss': "ss' = watch_write sys i True (upd_sock i (\<lambda>s. s\<lparr>so_dw_buffer := Some b, so_dw_offset := k\<rparr>) ss3)"
      using w unfolding after_write_def Let_def k_def [symmetric] ss2_def [symmetric] by (auto split: prod.splits)
    obtain a where b: "b = Memory a ?bs" using clone_buffer_slot(4) [OF cl] mem by blast
    have s': "ss_slot ss' i = (ss_slot ss2 i)\<lparr>so_dw_buffer := Some b, so_dw_offset := k, so_polls := so_polls ?s @ [(EPOLL_CTL_MOD, True)]\<rparr>"
      by (rule socket.equality) (simp_all add: ss' watch_write_slot(2) clone_buffer_slot(2) [OF cl] s2)
    have t': "touches i ss ss'" unfolding ss' by (intro touches_steps touches_trans [OF t2 clone_buffer_slot(1) [OF cl]])
    have np: "never_paused (ss_slot ss' i) \<longleftrightarrow> never_paused ?s" by (simp add: s' s2 never_paused_def)
    have "never_paused ?s \<Longrightarrow> watched True (so_polls (ss_slot ss' i))"
      using l(1) d(4) watched_mod [of "waits ?s" "so_polls ?s" True True]
      by (simp add: link_ok_def sock_ok_def watch_ok_def s' s2)
    then have wok: "watch_ok (ss_slot ss' i)" using watched_less [of True] unfolding watch_ok_def np by blast
    have "so_type (ss_slot ss' i) = SOCKET_TYPE_CONNECTED" "so_reading (ss_slot ss' i) = so_reading ?s"
      "so_protocol (ss_slot ss' i) = PROTOCOL_TCP" "so_low (ss_slot ss' i) = []" "so_high (ss_slot ss' i) = []"
      "so_p (ss_slot ss' i) = P_size p" "so_wb_size (ss_slot ss' i) = so_wb_size ?s"
      using d tcp p by (simp_all add: s' s2)
    then have "link_ok (ss_slot ss' i)" using l(1) wok d unfolding link_ok_def sock_ok_def np by simp
    moreover have "stream_of (ss_slot ss' i) = (so_wire ?s @ take k ?bs, [drop k ?bs], [])"
      using d by (simp add: s' s2 stream_of_def dw_rest_def b)
    ultimately show ?thesis
      using t' io1 l(3) by (intro fin) (simp_all add: s' s2 del: in_order.simps)
  qed
qed


text \<open>Calls for other sockets.\<close>

lemma within_free_buffer [withins]: "touches i ss s \<Longrightarrow> within1 i ss (free_buffer buf s)"
  by (auto simp: within1_def intro: touches_trans free_buffer_slot(1))

lemma within_clone_buffer [withins]:
  assumes "touches i ss s" "\<And>b s. touches i ss s \<Longrightarrow> within i ss (f b s)"
  shows "within i ss (case clone_buffer sys buf s of (b, s) \<Rightarrow> f b s)"
  using assms(2) touches_trans [OF assms(1) clone_buffer_slot(1)] by (auto split: prod.split)

lemma within_after_write [withins]: "touches i ss s \<Longrightarrow> within i ss (after_write sys i buf content r s)"
  by (auto simp: after_write_def Let_def intro!: withins)

lemma within_direct_write [withins]: "touches i ss s \<Longrightarrow> within i ss (direct_write sys i buf s)"
  by (auto simp: direct_write_def Let_def intro!: withins
      within_pure(1) [of _ _ _ "sendbuffer_content _ _"] split: socket_p.split option.split)

lemma conn_inv_free: "free_buffer buf ss = Some ss' \<Longrightarrow> conn_inv sid hs ls ss \<Longrightarrow> conn_inv sid hs ls ss'"
  using conn_inv_same same_link_slot free_buffer_slot by metis

lemma conn_inv_clone: "clone_buffer sys buf ss = (b, ss') \<Longrightarrow> conn_inv sid hs ls ss \<Longrightarrow> conn_inv sid hs ls ss'"
  using conn_inv_same same_link_slot clone_buffer_slot by metis


text \<open>A call to send: to the connection or to another socket.\<close>

lemma queue_send_other:
  assumes "queue_send sys pr buf ss = Some (v, ss')" "conn_inv sid hs ls ss" "sb_id buf \<noteq> sid"
    "HASH_ID (sb_id buf) \<noteq> HASH_ID sid"
  shows "conn_inv sid hs ls ss'"
proof -
  obtain ss1 where i: "inc_sending_ref (sb_id buf) ss = Some ss1"
    and q: "(case clone_buffer sys buf ss1 of (b, ss2) \<Rightarrow> Some (0, send_request (Send pr (sb_id buf) b) ss2)) = Some (v, ss')"
    using assms(1) by (auto simp: queue_send_def Let_def bind_eq_Some_conv)
  obtain b ss2 where c: "clone_buffer sys buf ss1 = (b, ss2)" by fastforce
  have e: "ss' = send_request (Send pr (sb_id buf) b) ss2" using q c by simp
  have "conn_inv sid hs ls ss2"
    using conn_inv_clone [OF c] conn_inv_touches_other [OF assms(2) within1D [OF within_sending_ref(1) [OF touches_refl] i] assms(4)]
    by blast
  then show ?thesis unfolding e by (rule conn_inv_request) (use assms(3) in simp_all)
qed

lemma conn_inv_open: "conn_inv sid hs ls ss \<Longrightarrow> so_id (ss_slot ss (HASH_ID sid)) = sid \<and> so_type (ss_slot ss (HASH_ID sid)) \<noteq> SOCKET_TYPE_INVALID"
  by (auto simp: conn_inv_def open_link_def)

lemma conn_inv_call: "conn_inv sid hs ls ss \<Longrightarrow> call g ss = (r, ss') \<Longrightarrow> conn_inv sid hs ls ss'"
  by (rule conn_inv_same [OF _ same_link_sys(2)])

lemma conn_inv_run: "conn_inv sid hs ls ss \<Longrightarrow> conn_inv sid hs ls (run g ss)"
  by (rule conn_inv_same [OF _ same_link_sys(1)])

lemma conn_inv_reserve: "conn_inv sid hs ls ss \<Longrightarrow> reserve_id ss = (n, ss') \<Longrightarrow> conn_inv sid hs ls ss'"
  using conn_inv_same reserve_id_keeps conn_inv_open by blast

lemma socket_server_send_conn:
  assumes "socket_server_send sys buf ss = Some (v, ss')" "conn_inv sid hs ls ss" "posix_write sys"
  shows "conn_inv sid (hs @ sent_high sid (Call_send buf)) ls ss'"
proof -
  let ?n = "sb_id buf" let ?i = "HASH_ID ?n"
  consider (bad) "free_buffer buf ss = Some ss'" "so_id (ss_slot ss ?i) \<noteq> ?n \<or> so_type (ss_slot ss ?i) = SOCKET_TYPE_INVALID"
    | (direct) k ss1 where "call (sys_trylock sys ?i) ss = (k, ss1)" "direct_write sys ?i buf ss1 = Some (v, ss')"
        "can_direct_write (ss_slot ss1 ?i) ?n" "so_id (ss_slot ss ?i) = ?n"
    | (queue) k ss1 where "call (sys_trylock sys ?i) ss = (k, ss1) \<or> ss1 = ss" "queue_send sys PRIORITY_HIGH buf ss1 = Some (v, ss')"
        "so_id (ss_slot ss ?i) = ?n"
    using assms(1) by (auto simp: socket_server_send_def Let_def bind_eq_Some_conv split: if_splits prod.splits)
  then show ?thesis
  proof cases
    case bad
    then show ?thesis using conn_inv_free assms(2) conn_inv_open [OF assms(2)] by auto
  next
    case direct
    have i1: "conn_inv sid hs ls ss1" by (rule conn_inv_call [OF assms(2) direct(1)])
    show ?thesis
    proof (cases "?n = sid")
      case True
      then show ?thesis using direct_write_conn [OF direct(2) i1 _ assms(3)] direct(3) by simp
    next
      case False
      then have "?i \<noteq> HASH_ID sid" using direct(4) conn_inv_open [OF assms(2)] by auto
      then show ?thesis
        using False conn_inv_touches_other [OF i1 withinD [OF within_direct_write [OF touches_refl] direct(2)]] by simp
    qed
  next
    case queue
    have i1: "conn_inv sid hs ls ss1" using conn_inv_call [OF assms(2), of "sys_trylock sys ?i" k ss1] assms(2) queue(1) by auto
    show ?thesis
    proof (cases "?n = sid")
      case True
      then show ?thesis using queue_send_conn [OF queue(2) i1] by simp
    next
      case False
      then have "?i \<noteq> HASH_ID sid" using queue(3) conn_inv_open [OF assms(2)] by auto
      then show ?thesis using False queue_send_other [OF queue(2) i1] by simp
    qed
  qed
qed

lemma socket_server_send_lowpriority_conn:
  assumes "socket_server_send_lowpriority sys buf ss = Some (v, ss')" "conn_inv sid hs ls ss"
  shows "conn_inv sid hs (ls @ sent_low sid (Call_send_lowpriority buf)) ss'"
proof (cases "sb_id buf = sid")
  case True
  then show ?thesis
    using assms(1) queue_send_conn [of sys PRIORITY_LOW buf ss v ss', OF _ assms(2)] conn_inv_open [OF assms(2)]
    by (auto simp: socket_server_send_lowpriority_def Let_def)
next
  case False
  then show ?thesis
    using assms(1) conn_inv_free [OF _ assms(2)] queue_send_other [OF _ assms(2) False] conn_inv_open [OF assms(2)]
    by (fastforce simp: socket_server_send_lowpriority_def Let_def bind_eq_Some_conv split: if_splits)
qed

lemma conn_inv_request_other:
  "conn_inv sid hs ls ss \<Longrightarrow> (\<And>pr b. req \<noteq> Send pr sid b) \<Longrightarrow> (\<And>b a. req \<noteq> SendUdp sid b a) \<Longrightarrow> conn_inv sid hs ls (send_request req ss)"
  by (rule conn_inv_request; cases req; auto)

lemma socket_server_udp_send_conn:
  assumes "socket_server_udp_send sys a buf ss = Some (v, ss')" "conn_inv sid hs ls ss" "sb_id buf \<noteq> sid"
  shows "conn_inv sid hs ls ss'"
proof -
  let ?n = "sb_id buf" let ?i = "HASH_ID ?n"
  have queue: "conn_inv sid hs ls ss2"
    if "(case clone_buffer sys buf ss1 of (b, ss) \<Rightarrow> Some (0, send_request (SendUdp ?n b addr) ss)) = Some (v, ss2)" "conn_inv sid hs ls ss1"
    for ss1 ss2 v addr
    using that conn_inv_clone [OF _ that(2)] conn_inv_request_other assms(3) by (fastforce split: prod.splits)
  show ?thesis
  proof (cases "so_id (ss_slot ss ?i) \<noteq> ?n \<or> so_type (ss_slot ss ?i) = SOCKET_TYPE_INVALID \<or> udp_address_size a = None")
    case True
    then show ?thesis
      using assms(1) conn_inv_free [OF _ assms(2)] by (auto simp: socket_server_udp_send_def Let_def bind_eq_Some_conv split: if_splits)
  next
    case False
    then obtain addrsz where sz: "udp_address_size a = Some addrsz" by auto
    have other: "?i \<noteq> HASH_ID sid" using False assms(3) conn_inv_open [OF assms(2)] by auto
    obtain k ss1 where c: "call (sys_trylock sys ?i) ss = (k, ss1)" by fastforce
    note i1 = conn_inv_call [OF assms(2) c]
    show ?thesis
    proof (cases "can_direct_write (ss_slot ss ?i) ?n \<and> k \<and> can_direct_write (ss_slot ss1 ?i) ?n")
      case False
      then show ?thesis
        using assms(1) sz c queue [OF _ i1] queue [OF _ assms(2)] \<open>\<not> (_ \<or> _ \<or> _)\<close>
        by (auto simp: socket_server_udp_send_def Let_def split: if_splits)
    next
      case True
      then obtain content where w: "(case udp_socket_address (so_protocol (ss_slot ss ?i)) a of
          None \<Rightarrow> do { ss \<leftarrow> free_buffer buf ss1; Some (- 1, ss) }
        | Some sa \<Rightarrow>
            (case call (sys_sendto sys (so_fd (ss_slot ss ?i)) content sa) ss1 of
              (Inl _, ss) \<Rightarrow> (case clone_buffer sys buf ss of (b, ss) \<Rightarrow> Some (0, send_request (SendUdp ?n b (take addrsz a)) ss))
            | (Inr n, ss) \<Rightarrow> do { ss \<leftarrow> free_buffer buf (stat_write ?i n ss); Some (0, ss) })) = Some (v, ss')"
        using assms(1) sz c \<open>\<not> (_ \<or> _ \<or> _)\<close> by (auto simp: socket_server_udp_send_def Let_def bind_eq_Some_conv)
      show ?thesis
      proof (cases "udp_socket_address (so_protocol (ss_slot ss ?i)) a")
        case None
        then show ?thesis using w conn_inv_free [OF _ i1] by (auto simp: bind_eq_Some_conv)
      next
        case (Some sa)
        obtain r ss2 where c2: "call (sys_sendto sys (so_fd (ss_slot ss ?i)) content sa) ss1 = (r, ss2)" by fastforce
        note i2 = conn_inv_call [OF i1 c2]
        have "conn_inv sid hs ls (stat_write ?i n ss2)" for n by (rule conn_inv_touches_other [OF i2 stat_slot(1) other])
        then show ?thesis using w Some c2 queue [OF _ i2] \<open>\<And>n. conn_inv _ _ _ (stat_write _ n _)\<close> [THEN conn_inv_free [rotated]]
          by (auto simp: bind_eq_Some_conv split: sum.splits)
      qed
    qed
  qed
qed

lemma socket_server_udp_connect_conn:
  assumes "conn_inv sid hs ls ss"
  shows "conn_inv sid hs ls (snd (socket_server_udp_connect sys n addr port ss))"
proof (cases "so_id (ss_slot ss (HASH_ID n)) \<noteq> n \<or> so_type (ss_slot ss (HASH_ID n)) = SOCKET_TYPE_INVALID")
  case True
  then show ?thesis using assms by (auto simp: socket_server_udp_connect_def Let_def)
next
  case False
  let ?ss1 = "upd_sock (HASH_ID n) (\<lambda>s. s\<lparr>so_udpconnecting := so_udpconnecting s + 1\<rparr>) ss"
  have i1: "conn_inv sid hs ls ?ss1"
  proof (cases "HASH_ID n = HASH_ID sid")
    case True
    let ?s = "ss_slot ss (HASH_ID sid)" and ?s' = "ss_slot ?ss1 (HASH_ID sid)"
    obtain k where k: "so_p ?s = P_size k" using assms link_ok_P_size by (auto simp: conn_inv_def)
    have s': "?s' = ?s\<lparr>so_udpconnecting := so_udpconnecting ?s + 1\<rparr>" using True by simp
    have op: "open_link ?s" "link_ok ?s" using assms by (simp_all add: conn_inv_def)
    have "quiet ?s ?s'" unfolding s' using op(2) k by (intro quietI) simp_all
    moreover have "touches (HASH_ID sid) ss ?ss1" unfolding True by (intro touches_steps touches_refl)
    moreover have "open_link ?s'" unfolding s' using op(1) by (simp add: open_link_def)
    ultimately show ?thesis using conn_inv_goes_on [OF assms] unfolding goes_on_def by blast
  next
    case False
    show ?thesis by (rule conn_inv_touches_other [OF assms _ False]) (intro touches_steps touches_refl)
  qed
  obtain r ss2 where c: "call (sys_getaddrinfo sys addr port SOCK_DGRAM) ?ss1 = (r, ss2)" by fastforce
  note i2 = conn_inv_call [OF i1 c]
  have "snd (socket_server_udp_connect sys n addr port ss) = ss2 \<or>
      (\<exists>a. snd (socket_server_udp_connect sys n addr port ss) = send_request (SetUdp n a) ss2)"
    using False c by (auto simp: socket_server_udp_connect_def Let_def split: sum.split list.split)
  then show ?thesis using i2 conn_inv_request_other [OF i2] by auto
qed

named_theorems keeps

lemma conn_inv_keeps [keeps]:
  "conn_inv sid hs ls ss \<Longrightarrow> (\<And>r s. conn_inv sid hs ls s \<Longrightarrow> conn_inv sid hs ls (snd (f r s))) \<Longrightarrow>
     conn_inv sid hs ls (snd (case call g ss of (r, s) \<Rightarrow> f r s))"
  "conn_inv sid hs ls ss \<Longrightarrow> (\<And>n s. conn_inv sid hs ls s \<Longrightarrow> conn_inv sid hs ls (snd (h n s))) \<Longrightarrow>
     conn_inv sid hs ls (snd (case reserve_id ss of (n, s) \<Rightarrow> h n s))"
  "conn_inv sid hs ls ss \<Longrightarrow> conn_inv sid hs ls (run k ss)"
  by (simp_all add: conn_inv_run split: prod.split) (blast intro: conn_inv_call conn_inv_reserve)+

lemma conn_inv_do_bind [keeps]:
  assumes "conn_inv sid hs ls ss"
  shows "conn_inv sid hs ls (snd (do_bind sys host port ty ss))"
  using assms unfolding do_bind_def Let_def by (auto intro!: keeps split: sum.split list.split)

lemma conn_inv_then_bind [keeps]:
  "conn_inv sid hs ls ss \<Longrightarrow> (\<And>r s. conn_inv sid hs ls s \<Longrightarrow> conn_inv sid hs ls (snd (f r s))) \<Longrightarrow>
     conn_inv sid hs ls (snd (case do_bind sys host port ty ss of (r, s) \<Rightarrow> f r s))"
  using conn_inv_do_bind [of sid hs ls ss sys host port ty] by (auto split: prod.split)

lemma conn_inv_then_listen [keeps]:
  assumes "conn_inv sid hs ls ss" "\<And>r s. conn_inv sid hs ls s \<Longrightarrow> conn_inv sid hs ls (snd (f r s))"
  shows "conn_inv sid hs ls (snd (case do_listen sys host port backlog ss of (r, s) \<Rightarrow> f r s))"
proof -
  have "conn_inv sid hs ls (snd (do_listen sys host port backlog ss))"
    using assms(1) unfolding do_listen_def by (auto intro!: keeps split: sum.split option.split)
  then show ?thesis using assms(2) by (auto split: prod.split)
qed

lemma conn_inv_then_socket [keeps]:
  assumes "conn_inv sid hs ls ss" "\<And>r s. conn_inv sid hs ls s \<Longrightarrow> conn_inv sid hs ls (snd (f r s))"
  shows "conn_inv sid hs ls (snd (case (case call g ss of (Inl x, ss) \<Rightarrow> (None, ss) | (Inr y, ss) \<Rightarrow> (Some (y, k), ss)) of (r, s) \<Rightarrow> f r s))"
proof -
  obtain r s where c: "call g ss = (r, s)" by fastforce
  show ?thesis using assms(2) conn_inv_call [OF assms(1) c] by (simp add: c split: sum.split)
qed

lemma conn_inv_new:
  assumes "conn_inv sid hs ls ss"
  shows "conn_inv sid hs ls (snd (socket_server_connect op addr' port ss))" "conn_inv sid hs ls (snd (socket_server_bind op fd ss))"
    "conn_inv sid hs ls (snd (socket_server_listen sys op addr port backlog ss))"
    "conn_inv sid hs ls (snd (socket_server_udp sys op addr port ss))"
  using assms unfolding socket_server_connect_def socket_server_bind_def socket_server_listen_def socket_server_udp_def
  by (auto intro!: keeps conn_inv_request_other split: option.split sum.split)

lemma server_step_conn:
  assumes "server_step sys c ss = Some ss'" "conn_inv sid hs ls ss" "posix_write sys" "no_datagram sid c"
    "open_link (ss_slot ss' (HASH_ID sid))"
  shows "conn_inv sid (hs @ sent_high sid c) (ls @ sent_low sid c) ss'"
proof (cases c)
  case (Poll mo)
  then show ?thesis using assms poll_turn_conn by auto
next
  case (Call_connect op addr port)
  then show ?thesis using assms(1,2) conn_inv_new(1) by auto
next
  case (Call_listen op addr port backlog)
  then show ?thesis using assms(1,2) conn_inv_new(3) by auto
next
  case (Call_bind op fd)
  then show ?thesis using assms(1,2) conn_inv_new(2) by auto
next
  case (Call_send buf)
  then show ?thesis using assms(1) socket_server_send_conn [OF _ assms(2,3), of buf _ ss'] by (auto simp del: sent_high.simps(1))
next
  case (Call_send_lowpriority buf)
  then show ?thesis using assms(1) socket_server_send_lowpriority_conn [OF _ assms(2), of sys buf _ ss'] by (auto simp del: sent_low.simps(1))
next
  case (Call_udp op addr port)
  then show ?thesis using assms(1,2) conn_inv_new(4) by auto
next
  case (Call_udp_send a buf)
  then show ?thesis using assms socket_server_udp_send_conn by auto
next
  case (Call_udp_connect n addr port)
  then show ?thesis using assms(1,2) socket_server_udp_connect_conn [OF assms(2)] by auto
next
  case (Call_updatetime time)
  then show ?thesis using assms(1) conn_inv_same [OF assms(2), of ss'] by (auto simp: socket_server_updatetime_def same_link_def)
qed (use assms(1,2) in \<open>auto simp: socket_server_close_def socket_server_shutdown_def socket_server_start_def
   socket_server_pause_def socket_server_nodelay_def socket_server_exit_def intro!: conn_inv_request_other\<close>)

section \<open>A connection while it is open\<close>

text \<open>The calls \<open>cs\<close> while the connection \<open>sid\<close> stays open; \<open>None\<close> when a call aborts or the connection is closed.\<close>

definition is_open :: "int \<Rightarrow> 'w socket_server \<Rightarrow> bool" where
  "is_open sid ss \<longleftrightarrow> so_id (ss_slot ss (HASH_ID sid)) = sid \<and> open_link (ss_slot ss (HASH_ID sid))"

fun open_run :: "'w sys \<Rightarrow> int \<Rightarrow> server_call list \<Rightarrow> 'w socket_server \<Rightarrow> 'w socket_server option" where
  "open_run sys sid [] ss = Some ss"
| "open_run sys sid (c # cs) ss = do {
     ss \<leftarrow> server_step sys c ss;
     if is_open sid ss then open_run sys sid cs ss else None
   }"

text \<open>A connection as \<open>new_fd\<close> leaves it, of which nothing has been sent and no request is on the pipe.\<close>

definition just_opened :: "int \<Rightarrow> 'w socket_server \<Rightarrow> bool" where
  "just_opened sid ss \<longleftrightarrow>
     (let s = ss_slot ss (HASH_ID sid) in
      is_open sid ss \<and> so_protocol s = PROTOCOL_TCP \<and> so_p s = P_size MIN_READ_BUFFER \<and> so_sending s = push_bit 16 (ID_TAG16 sid) \<and>
      so_high s = [] \<and> so_low s = [] \<and> so_dw_buffer s = None \<and> so_wb_size s = 0 \<and> so_wire s = [] \<and>
      so_reading s = READING_RESUME \<and> watched (so_type s = SOCKET_TYPE_CONNECTING) (so_polls s) \<and>
      ss_soi ss = None \<and> (\<forall>req \<in> set (ss_pipe ss). \<not> sends_to sid req \<and> \<not> datagram_to sid req))"

lemma conn_inv_open_run:
  assumes "open_run sys sid cs ss = Some ss'" "conn_inv sid hs ls ss" "posix_write sys" "\<forall>c \<in> set cs. no_datagram sid c"
  shows "conn_inv sid (hs @ concat (map (sent_high sid) cs)) (ls @ concat (map (sent_low sid) cs)) ss'"
  using assms
proof (induction cs arbitrary: ss hs ls)
  case (Cons c cs)
  then obtain ss1 where s: "server_step sys c ss = Some ss1" and o: "is_open sid ss1" and r: "open_run sys sid cs ss1 = Some ss'"
    by (auto simp: bind_eq_Some_conv split: if_splits)
  have "conn_inv sid (hs @ sent_high sid c) (ls @ sent_low sid c) ss1"
    using server_step_conn [OF s Cons.prems(2,3)] Cons.prems(4) o by (auto simp: is_open_def)
  from Cons.IH [OF r this Cons.prems(3)] Cons.prems(4) show ?case by simp
qed simp

lemma on_pipe_none: "\<forall>req \<in> set reqs. \<not> sends_to sid req \<Longrightarrow> on_pipe pr sid reqs = []"
proof (induction reqs)
  case (Cons req reqs)
  then show ?case by (cases req) (auto simp: on_pipe_def)
qed (simp add: on_pipe_def)

lemma tag16_bits:
  "drop_bit 16 (push_bit 16 (ID_TAG16 sid)) = ID_TAG16 sid" "push_bit 16 (ID_TAG16 sid) AND 0xffff = 0"
proof -
  have m: "(0xffff :: u32) = mask 16" by (simp add: mask_eq_exp_minus_1)
  show "drop_bit 16 (push_bit 16 (ID_TAG16 sid)) = ID_TAG16 sid"
    by (rule bit_word_eqI) (auto simp: ID_TAG16_def m bit_simps)
  show "push_bit 16 (ID_TAG16 sid) AND 0xffff = 0" unfolding m by (rule bit_word_eqI) (auto simp: bit_simps)
qed

lemma just_opened_conn:
  assumes "just_opened sid ss"
  shows "conn_inv sid [] [] ss"
proof -
  let ?s = "ss_slot ss (HASH_ID sid)"
  have "watch_ok ?s" "snd (last (so_polls ?s))" if "so_type ?s = SOCKET_TYPE_CONNECTING"
    using assms that by (auto simp: just_opened_def Let_def watch_ok_def watched_def)
  moreover have "watch_ok ?s"
    using assms watched_less by (fastforce simp: just_opened_def Let_def watch_ok_def waits_def)
  ultimately have "link_ok ?s" using assms by (auto simp: just_opened_def Let_def link_ok_def sock_ok_def low_fresh_def)
  moreover have "counted 0 ?s" using assms by (simp add: just_opened_def Let_def counted_def is_open_def sending_count_def tag16_bits)
  moreover have "filter (sends_to sid) (ss_pipe ss) = []" using assms by (auto simp: just_opened_def Let_def filter_empty_conv)
  moreover have "in_order [] [] ([], [], [])" by (auto simp: pieces_def intro!: exI [of _ "[]"])
  ultimately show ?thesis
    using assms on_pipe_none [of "ss_pipe ss" sid]
    by (simp add: just_opened_def Let_def conn_inv_def is_open_def stream_of_def dw_rest_def del: in_order.simps)
qed


lemma in_order_on_pipe: "in_order hs ls (w, H, L) \<Longrightarrow> in_order (hs @ hs') (ls @ ls') (w, H @ hs', L @ ls')"
proof (induction hs' rule: rev_induct)
  case Nil
  then show ?case
  proof (induction ls' rule: rev_induct)
    case (snoc b ls')
    then show ?case using in_order_low [of hs "ls @ ls'" w H "L @ ls'" b] by (simp del: in_order.simps)
  qed (simp del: in_order.simps)
next
  case (snoc b hs')
  then show ?case using in_order_high [of "hs @ hs'" "ls @ ls'" w "H @ hs'" "L @ ls'" b] by (simp del: in_order.simps)
qed

text \<open>What was sent to the connection and has not reached the wire: in the socket, and on the control pipe.\<close>

definition unsent :: "int \<Rightarrow> 'w socket_server \<Rightarrow> bytes" where
  "unsent sid ss =
     (case stream_of (ss_slot ss (HASH_ID sid)) of (w, H, L) \<Rightarrow>
        concat (H @ on_pipe PRIORITY_HIGH sid (ss_pipe ss)) @ concat (L @ on_pipe PRIORITY_LOW sid (ss_pipe ss)))"

lemma conn_inv_order:
  assumes "conn_inv sid hs ls ss"
  shows "\<exists>order \<in> shuffles hs ls. so_wire (ss_slot ss (HASH_ID sid)) @ unsent sid ss = concat order"
proof -
  let ?s = "ss_slot ss (HASH_ID sid)"
  obtain hs0 ls0 where h: "hs = hs0 @ on_pipe PRIORITY_HIGH sid (ss_pipe ss)" "ls = ls0 @ on_pipe PRIORITY_LOW sid (ss_pipe ss)"
    "in_order hs0 ls0 (stream_of ?s)"
    using assms by (auto simp: conn_inv_def)
  obtain H L where st: "stream_of ?s = (so_wire ?s, H, L)" by (simp add: stream_of_def)
  from in_order_shuffle [OF in_order_on_pipe [OF h(3) [unfolded st]]] show ?thesis
    unfolding unsent_def st h(1,2) prod.case by metis
qed

text \<open>
  C7. A TCP connection is a stream. From the moment it is opened, whatever calls services make (on this or other
  sockets, with direct writes or through the control pipe), whatever events epoll reports and however the
  kernel cuts the writes, what has reached the wire followed by what still waits is the concatenation of the
  buffers sent, in an order that keeps the buffers of each priority in the order they were sent: none is lost,
  repeated, torn apart or reordered within its priority.
\<close>

theorem socket_stream_in_order:
  assumes "just_opened sid ss" "open_run sys sid cs ss = Some ss'" "posix_write sys" "\<forall>c \<in> set cs. no_datagram sid c"
  shows "\<exists>order \<in> shuffles (concat (map (sent_high sid) cs)) (concat (map (sent_low sid) cs)).
    so_wire (ss_slot ss' (HASH_ID sid)) @ unsent sid ss' = concat order"
  using conn_inv_order [OF conn_inv_open_run [OF assms(2) just_opened_conn [OF assms(1)] assms(3,4)]] by simp


end
