(* ===== verification/SkynetSocket.thy ===== *)
theory SkynetSocket
  imports SocketConn Service
begin

text \<open>
  \<open>skynet-src/skynet_socket.c\<close>: the socket thread hands what \<open>socket_server_poll\<close> reports to the mailbox of the
  service that owns the socket, and services call the socket server in the name of their handle. The state is
  the socket server next to the kernel.
\<close>

section \<open>Reports become messages\<close>

definition SKYNET_SOCKET_TYPE_UDP :: int where "SKYNET_SOCKET_TYPE_UDP = 6"

definition SIZEOF_SKYNET_SOCKET_MESSAGE :: nat where "SIZEOF_SKYNET_SOCKET_MESSAGE = 24"

text \<open>The memory behind \<open>data\<close>: nothing, a string, or a block.\<close>

definition data_bytes :: "message_data \<Rightarrow> bytes option" where
  "data_bytes data = (case data of Nothing \<Rightarrow> None | Text t \<Rightarrow> Some (cstr t) | Bytes bs \<Rightarrow> Some bs)"

text \<open>\<open>forward_message\<close>: with \<open>padding\<close>, at most 128 bytes of the text, as far as \<open>strlen\<close> goes, follow the message.\<close>

definition socket_body :: "int \<Rightarrow> bool \<Rightarrow> SocketServer.socket_message \<Rightarrow> skynet_socket_message" where
  "socket_body type padding result =
     \<lparr>sk_type = type, sk_id = re_id result, sk_ud = re_ud result,
      sk_buffer = (if padding then None else data_bytes (re_data result)),
      sk_text = (if padding then (case data_bytes (re_data result) of None \<Rightarrow> [] | Some d \<Rightarrow> take 128 (takeWhile (\<lambda>c. c \<noteq> 0) d))
                 else [])\<rparr>"

definition forward_message :: "modules \<Rightarrow> int \<Rightarrow> bool \<Rightarrow> SocketServer.socket_message \<Rightarrow> kernel \<Rightarrow> kernel option" where
  "forward_message M type padding result k =
     (let sm = socket_body type padding result;
          message = \<lparr>msg_source = 0, msg_session = 0, msg_data = Socket_message sm,
            msg_sz = pack_sz (of_nat (SIZEOF_SKYNET_SOCKET_MESSAGE + length (sk_text sm))) PTYPE_SOCKET\<rparr>
      in do {
        (_, k) \<leftarrow> skynet_context_push M (ucast (re_opaque result)) message k;
        Some k
      })"

text \<open>The type of the message and whether it is padded, for the reports that are forwarded.\<close>

definition report_type :: "poll_type \<Rightarrow> (int \<times> bool) option" where
  "report_type type =
     (case type of
        SOCKET_EXIT \<Rightarrow> None
      | SOCKET_DATA \<Rightarrow> Some (SKYNET_SOCKET_TYPE_DATA, False)
      | SOCKET_CLOSE \<Rightarrow> Some (SKYNET_SOCKET_TYPE_CLOSE, False)
      | SOCKET_OPEN \<Rightarrow> Some (SKYNET_SOCKET_TYPE_CONNECT, True)
      | SOCKET_ERR \<Rightarrow> Some (SKYNET_SOCKET_TYPE_ERROR, True)
      | SOCKET_ACCEPT \<Rightarrow> Some (SKYNET_SOCKET_TYPE_ACCEPT, True)
      | SOCKET_UDP \<Rightarrow> Some (SKYNET_SOCKET_TYPE_UDP, False)
      | SOCKET_WARNING \<Rightarrow> Some (SKYNET_SOCKET_TYPE_WARNING, False))"

definition skynet_socket_poll ::
  "modules \<Rightarrow> 'w sys \<Rightarrow> 'w socket_server \<Rightarrow> kernel \<Rightarrow> (int \<times> 'w socket_server \<times> kernel) option" where
  "skynet_socket_poll M sys ss k = do {
     (report, mo, ss) \<leftarrow> socket_server_poll sys True ss;
     case report of
       None \<Rightarrow> do {
         k \<leftarrow> skynet_error M None ''Unknown socket message type -1.'' k;
         Some (- 1, ss, k)
       }
     | Some (type, result) \<Rightarrow>
         (case report_type type of
            None \<Rightarrow> Some (0, ss, k)
          | Some (t, padding) \<Rightarrow> do {
              k \<leftarrow> forward_message M t padding result k;
              Some (if mo then - 1 else 1, ss, k)
            })
   }"

section \<open>Calls of services\<close>

definition skynet_socket_sendbuffer :: "'w sys \<Rightarrow> socket_sendbuffer \<Rightarrow> 'w socket_server \<Rightarrow> (int \<times> 'w socket_server) option" where
  "skynet_socket_sendbuffer sys buffer ss = socket_server_send sys buffer ss"

definition skynet_socket_sendbuffer_lowpriority ::
  "'w sys \<Rightarrow> socket_sendbuffer \<Rightarrow> 'w socket_server \<Rightarrow> (int \<times> 'w socket_server) option" where
  "skynet_socket_sendbuffer_lowpriority sys buffer ss = socket_server_send_lowpriority sys buffer ss"

definition skynet_socket_listen ::
  "'w sys \<Rightarrow> ptr \<Rightarrow> string option \<Rightarrow> int \<Rightarrow> int \<Rightarrow> kernel \<Rightarrow> 'w socket_server \<Rightarrow> (int \<times> 'w socket_server) option" where
  "skynet_socket_listen sys ctx host port backlog k ss = do {
     source \<leftarrow> skynet_context_handle ctx k;
     Some (socket_server_listen sys (ucast source) host port backlog ss)
   }"

definition skynet_socket_connect ::
  "ptr \<Rightarrow> string \<Rightarrow> int \<Rightarrow> kernel \<Rightarrow> 'w socket_server \<Rightarrow> (int \<times> 'w socket_server) option" where
  "skynet_socket_connect ctx host port k ss = do {
     source \<leftarrow> skynet_context_handle ctx k;
     Some (socket_server_connect (ucast source) host port ss)
   }"

definition skynet_socket_bind :: "ptr \<Rightarrow> int \<Rightarrow> kernel \<Rightarrow> 'w socket_server \<Rightarrow> (int \<times> 'w socket_server) option" where
  "skynet_socket_bind ctx fd k ss = do {
     source \<leftarrow> skynet_context_handle ctx k;
     Some (socket_server_bind (ucast source) fd ss)
   }"

definition skynet_socket_close :: "ptr \<Rightarrow> int \<Rightarrow> kernel \<Rightarrow> 'w socket_server \<Rightarrow> 'w socket_server option" where
  "skynet_socket_close ctx sid k ss = do {
     source \<leftarrow> skynet_context_handle ctx k;
     Some (socket_server_close (ucast source) sid ss)
   }"

definition skynet_socket_shutdown :: "ptr \<Rightarrow> int \<Rightarrow> kernel \<Rightarrow> 'w socket_server \<Rightarrow> 'w socket_server option" where
  "skynet_socket_shutdown ctx sid k ss = do {
     source \<leftarrow> skynet_context_handle ctx k;
     Some (socket_server_shutdown (ucast source) sid ss)
   }"

definition skynet_socket_start :: "ptr \<Rightarrow> int \<Rightarrow> kernel \<Rightarrow> 'w socket_server \<Rightarrow> 'w socket_server option" where
  "skynet_socket_start ctx sid k ss = do {
     source \<leftarrow> skynet_context_handle ctx k;
     Some (socket_server_start (ucast source) sid ss)
   }"

definition skynet_socket_pause :: "ptr \<Rightarrow> int \<Rightarrow> kernel \<Rightarrow> 'w socket_server \<Rightarrow> 'w socket_server option" where
  "skynet_socket_pause ctx sid k ss = do {
     source \<leftarrow> skynet_context_handle ctx k;
     Some (socket_server_pause (ucast source) sid ss)
   }"

definition skynet_socket_nodelay :: "int \<Rightarrow> 'w socket_server \<Rightarrow> 'w socket_server" where
  "skynet_socket_nodelay sid ss = socket_server_nodelay sid ss"

definition skynet_socket_udp ::
  "'w sys \<Rightarrow> ptr \<Rightarrow> string option \<Rightarrow> int \<Rightarrow> kernel \<Rightarrow> 'w socket_server \<Rightarrow> (int \<times> 'w socket_server) option" where
  "skynet_socket_udp sys ctx addr port k ss = do {
     source \<leftarrow> skynet_context_handle ctx k;
     Some (socket_server_udp sys (ucast source) addr port ss)
   }"

definition skynet_socket_udp_connect ::
  "'w sys \<Rightarrow> int \<Rightarrow> string \<Rightarrow> int \<Rightarrow> 'w socket_server \<Rightarrow> int \<times> 'w socket_server" where
  "skynet_socket_udp_connect sys sid addr port ss = socket_server_udp_connect sys sid addr port ss"

definition skynet_socket_udp_sendbuffer ::
  "'w sys \<Rightarrow> bytes \<Rightarrow> socket_sendbuffer \<Rightarrow> 'w socket_server \<Rightarrow> (int \<times> 'w socket_server) option" where
  "skynet_socket_udp_sendbuffer sys address buffer ss = socket_server_udp_send sys address buffer ss"

definition skynet_socket_udp_address :: "skynet_socket_message \<Rightarrow> bytes option" where
  "skynet_socket_udp_address msg =
     (if sk_type msg \<noteq> SKYNET_SOCKET_TYPE_UDP then None
      else socket_server_udp_address \<lparr>re_id = sk_id msg, re_opaque = 0, re_ud = sk_ud msg,
             re_data = (case sk_buffer msg of None \<Rightarrow> Nothing | Some b \<Rightarrow> Bytes b)\<rparr>)"

definition skynet_socket_init :: "'w sys \<Rightarrow> (nat \<Rightarrow> socket) \<Rightarrow> u64 \<Rightarrow> 'w \<Rightarrow> 'w socket_server option \<times> 'w" where
  "skynet_socket_init sys mem time w = socket_server_create sys mem time w"

definition skynet_socket_exit :: "'w socket_server \<Rightarrow> 'w socket_server" where
  "skynet_socket_exit ss = socket_server_exit ss"

definition skynet_socket_free :: "'w sys \<Rightarrow> 'w socket_server \<Rightarrow> 'w socket_server option" where
  "skynet_socket_free sys ss = socket_server_release sys ss"

definition skynet_socket_updatetime :: "u64 \<Rightarrow> 'w socket_server \<Rightarrow> 'w socket_server" where
  "skynet_socket_updatetime time ss = socket_server_updatetime time ss"

definition skynet_socket_info :: "'w sys \<Rightarrow> 'w socket_server \<Rightarrow> socket_info list \<times> 'w socket_server" where
  "skynet_socket_info sys ss = socket_server_info sys ss"

section \<open>Delivery\<close>

lemma small_sz:
  assumes "n \<le> 152"
  shows "sz_size (of_nat n) = (of_nat n :: u64)" "unat (of_nat n :: u64) = n"
proof -
  have u: "unat (of_nat n :: u64) = n" using assms by (simp add: unat_of_nat)
  show "unat (of_nat n :: u64) = n" by (rule u)
  have "take_bit 56 n = n" using assms by (simp add: take_bit_nat_eq_self)
  then show "sz_size (of_nat n) = (of_nat n :: u64)" unfolding sz_size_take_bit by (metis take_bit_of_nat)
qed

text \<open>
  C27. A report of the socket server becomes exactly one message at the end of the mailbox of the service that owns
  the socket, with the type of the socket layer, the socket message as its body and the size of the message
  with its text; no other mailbox changes, and the node stays consistent. When no service has the handle, no
  mailbox changes at all.
\<close>

theorem socket_poll_delivers:
  assumes "node_ok k xs" "socket_server_poll sys True ss = Some (Some (type, result), mo, ss')" "report_type type = Some (t, padding)"
  shows "\<exists>k' xs' msg. skynet_socket_poll M sys ss k = Some (if mo then - 1 else 1, ss', k') \<and> node_ok k' xs' \<and>
    mailbox k' = (mailbox k)(ucast (re_opaque result) := map_option (\<lambda>ms. ms @ [msg]) (mailbox k (ucast (re_opaque result)))) \<and>
    msg_data msg = Socket_message (socket_body t padding result) \<and> sz_type (msg_sz msg) = PTYPE_SOCKET \<and>
    unat (sz_size (msg_sz msg)) = SIZEOF_SKYNET_SOCKET_MESSAGE + length (sk_text (socket_body t padding result))"
proof -
  let ?sm = "socket_body t padding result" let ?n = "SIZEOF_SKYNET_SOCKET_MESSAGE + length (sk_text ?sm)"
  let ?msg = "\<lparr>msg_source = 0, msg_session = 0, msg_data = Socket_message ?sm, msg_sz = pack_sz (of_nat ?n) PTYPE_SOCKET\<rparr>"
  have n: "?n \<le> 152" by (auto simp: socket_body_def SIZEOF_SKYNET_SOCKET_MESSAGE_def split: option.split)
  note sz = small_sz [OF n]
  have ty: "sz_type (pack_sz (of_nat ?n) PTYPE_SOCKET) = PTYPE_SOCKET"
    by (rule sz_type_pack [OF sz(1)]) (simp add: PTYPE_SOCKET_def)
  from context_push_ok [OF assms(1), of M "ucast (re_opaque result)" ?msg] obtain k' xs' v where k':
    "skynet_context_push M (ucast (re_opaque result)) ?msg k = Some (v, k')" "node_ok k' xs'"
    "mailbox k' = (mailbox k)(ucast (re_opaque result) := map_option (\<lambda>ms. ms @ [?msg]) (mailbox k (ucast (re_opaque result))))"
    by blast
  have "skynet_socket_poll M sys ss k = Some (if mo then - 1 else 1, ss', k')"
    using assms(2,3) k'(1) by (simp add: skynet_socket_poll_def forward_message_def Let_def)
  moreover have "sz_size (pack_sz (of_nat ?n) PTYPE_SOCKET) = (of_nat ?n :: u64)"
    unfolding sz_size_pack by (rule sz(1))
  ultimately show ?thesis using k'(2,3) ty sz(2)
    by (intro exI [of _ k'] exI [of _ xs'] exI [of _ ?msg]) simp
qed


text \<open>A node whose service 0x01000001 asks for a socket that does not exist.\<close>

definition err_server :: "unit socket_server" where
  "err_server = \<lparr>ss_time = 0, ss_recvctrl_fd = 3, ss_sendctrl_fd = 4, ss_checkctrl = True, ss_event_fd = 5,
     ss_alloc_id = 0, ss_event_index = 0, ss_soi = None, ss_ev = [],
     ss_slot = (\<lambda>i. undefined\<lparr>so_type := SOCKET_TYPE_INVALID\<rparr>), ss_pipe = [Resume 5 0x01000001], ss_freed = [], ss_os = ()\<rparr>"

theorem socket_poll_delivers_witness:
  "\<exists>sys k' xs' msg. skynet_socket_poll undefined sys err_server kernel_ex = Some (- 1, err_server\<lparr>ss_pipe := []\<rparr>, k') \<and> node_ok k' xs' \<and>
     mailbox k' 0x01000001 = map_option (\<lambda>ms. ms @ [msg]) (mailbox kernel_ex 0x01000001) \<and>
     msg_data msg = Socket_message \<lparr>sk_type = SKYNET_SOCKET_TYPE_ERROR, sk_id = 5, sk_ud = 0, sk_buffer = None, sk_text = cstr ''invalid socket''\<rparr>"
proof -
  let ?sys = "(undefined :: unit sys)\<lparr>sys_select := \<lambda>fd w. (True, w)\<rparr>"
  let ?m = "\<lparr>re_id = 5, re_opaque = 0x01000001, re_ud = 0, re_data = Text ''invalid socket''\<rparr>"
  have p: "socket_server_poll ?sys True err_server = Some (Some (SOCKET_ERR, ?m), True, err_server\<lparr>ss_pipe := []\<rparr>)"
    by (subst socket_server_poll.simps)
      (simp add: poll_turn_def err_server_def has_cmd_def call_def ctrl_cmd_def ctrl_request_def resume_socket_def Let_def clear_closed_event_def)
  have t: "report_type SOCKET_ERR = Some (SKYNET_SOCKET_TYPE_ERROR, True)" by (simp add: report_type_def)
  have b: "socket_body SKYNET_SOCKET_TYPE_ERROR True ?m =
      \<lparr>sk_type = SKYNET_SOCKET_TYPE_ERROR, sk_id = 5, sk_ud = 0, sk_buffer = None, sk_text = cstr ''invalid socket''\<rparr>"
    by (simp add: socket_body_def data_bytes_def cstr_def)
  show ?thesis using socket_poll_delivers [OF kernel_ex_node_ok p t, of undefined] b by (auto intro!: exI [of _ ?sys])
qed

end
