(* ===== verification/SocketOpen.thy ===== *)
theory SocketOpen
  imports SocketConn
begin

text \<open>
  How connections begin, and two orders of requests that the code does not carry through: data sent before
  the connection is opened, and a pause while data waits.
\<close>

unbundle bit_operations_syntax

section \<open>A connection opened\<close>

lemma new_fd_slot:
  assumes "new_fd sys sid fd pr op add ss = Some (True, ss')"
  shows "touches (HASH_ID sid) ss ss'"
    "ss_slot ss' (HASH_ID sid) = (ss_slot ss (HASH_ID sid))\<lparr>so_id := sid, so_fd := fd,
       so_reading := (if add then READING_RESUME else READING_PAUSE), so_sending := push_bit 16 (ID_TAG16 sid), so_protocol := pr,
       so_p := P_size MIN_READ_BUFFER, so_opaque := op, so_wb_size := 0, so_warn_size := 0, so_dw_buffer := None,
       so_stat := \<lparr>st_rtime = 0, st_wtime = 0, st_read = 0, st_write = 0\<rparr>, so_wire := [],
       so_polls := (if add then [(EPOLL_CTL_ADD, False)] else []), so_high := [], so_low := []\<rparr>"
    "so_type (ss_slot ss (HASH_ID sid)) = SOCKET_TYPE_RESERVE"
proof -
  let ?i = "HASH_ID sid"
  let ?ss0 = "upd_sock ?i (\<lambda>s. s\<lparr>so_polls := [], so_wire := []\<rparr>) ss"
  show "touches ?i ss ss'" using withinD [OF within_new_fd [OF touches_refl] assms] .
  show "so_type (ss_slot ss ?i) = SOCKET_TYPE_RESERVE" using assms by (auto simp: new_fd_def Let_def split: if_splits)
  obtain f ss1 where w: "watch sys ?i fd ?ss0 = (f, ss1)" by fastforce
  show "ss_slot ss' ?i = (ss_slot ss ?i)\<lparr>so_id := sid, so_fd := fd,
       so_reading := (if add then READING_RESUME else READING_PAUSE), so_sending := push_bit 16 (ID_TAG16 sid), so_protocol := pr,
       so_p := P_size MIN_READ_BUFFER, so_opaque := op, so_wb_size := 0, so_warn_size := 0, so_dw_buffer := None,
       so_stat := \<lparr>st_rtime = 0, st_wtime = 0, st_read = 0, st_write = 0\<rparr>, so_wire := [],
       so_polls := (if add then [(EPOLL_CTL_ADD, False)] else []), so_high := [], so_low := []\<rparr>"
    using assms watch_slot(2) [OF w]
    by (cases add) (auto simp: new_fd_def Let_def w split: if_splits intro!: socket.equality)
qed

lemma open_socket_new_fd:
  assumes "open_socket sys sid port op host ss = Some (r, ss')" "so_type (ss_slot ss' (HASH_ID sid)) \<noteq> SOCKET_TYPE_INVALID"
  obtains ss2 ss3 sock where "touches (HASH_ID sid) ss ss2" "new_fd sys sid sock PROTOCOL_TCP op True ss2 = Some (True, ss3)"
    "ss' = upd_sock (HASH_ID sid) (\<lambda>s. s\<lparr>so_type := SOCKET_TYPE_CONNECTED\<rparr>) ss3 \<or>
     ss' = watch_write sys (HASH_ID sid) True (upd_sock (HASH_ID sid) (\<lambda>s. s\<lparr>so_type := SOCKET_TYPE_CONNECTING\<rparr>) ss3)"
proof -
  obtain r1 ss1 where c1: "call (sys_getaddrinfo sys host port SOCK_STREAM) ss = (r1, ss1)" by fastforce
  obtain ais where ais: "r1 = Inr ais" using assms c1 by (cases r1) (auto simp: open_socket_def Let_def)
  obtain r2 ss2 where c2: "connect_loop sys (Errno 0) ais ss1 = (r2, ss2)" by fastforce
  obtain sock con addr where r2: "r2 = Inr (sock, con, addr)" using assms c1 ais c2 by (cases r2) (auto simp: open_socket_def Let_def)
  have t: "touches (HASH_ID sid) ss ss2"
    using touches_connect_loop [OF touches_refl c2] touches_trans callE(1) [OF c1] by blast
  obtain ss3 where "new_fd sys sid sock PROTOCOL_TCP op True ss2 = Some (True, ss3)"
    "ss' = upd_sock (HASH_ID sid) (\<lambda>s. s\<lparr>so_type := SOCKET_TYPE_CONNECTED\<rparr>) ss3 \<or>
     ss' = watch_write sys (HASH_ID sid) True (upd_sock (HASH_ID sid) (\<lambda>s. s\<lparr>so_type := SOCKET_TYPE_CONNECTING\<rparr>) ss3)"
    using assms c1 ais c2 r2 by (auto simp: open_socket_def Let_def bind_eq_Some_conv split: if_splits)
  then show ?thesis using that t by blast
qed

lemma open_socket_opened:
  assumes "open_socket sys sid port op host ss = Some (r, ss')" "so_type (ss_slot ss' (HASH_ID sid)) \<noteq> SOCKET_TYPE_INVALID"
    "ss_soi ss = None"
  shows "touches (HASH_ID sid) ss ss'" "just_opened sid (ss'\<lparr>ss_pipe := []\<rparr>)"
proof -
  obtain ss2 ss3 sock where t: "touches (HASH_ID sid) ss ss2" and n: "new_fd sys sid sock PROTOCOL_TCP op True ss2 = Some (True, ss3)"
    and e: "ss' = upd_sock (HASH_ID sid) (\<lambda>s. s\<lparr>so_type := SOCKET_TYPE_CONNECTED\<rparr>) ss3 \<or>
     ss' = watch_write sys (HASH_ID sid) True (upd_sock (HASH_ID sid) (\<lambda>s. s\<lparr>so_type := SOCKET_TYPE_CONNECTING\<rparr>) ss3)"
    using open_socket_new_fd [OF assms(1,2)] by blast
  note n' = new_fd_slot(1,2) [OF n]
  show t': "touches (HASH_ID sid) ss ss'" using e touches_trans [OF t n'(1)] touches_trans [OF _ touches_upd] touches_steps(1,3) by metis
  show "just_opened sid (ss'\<lparr>ss_pipe := []\<rparr>)"
    using e touchesD(2) [OF t'] assms(3)
    by (elim disjE) (simp_all add: just_opened_def Let_def is_open_def open_link_def watched_def watch_write_slot(2) n'(2))
qed

text \<open>
  When the socket thread opens a connection and the slot does not end up free, the connection is as it has to
  be at the start: connecting or connected, with empty lists, the counter at 0 under its own id, and watched
  by epoll, for writing while it connects.
\<close>

theorem open_socket_opens:
  assumes "open_socket sys sid port op host ss = Some (r, ss')" "so_type (ss_slot ss' (HASH_ID sid)) \<noteq> SOCKET_TYPE_INVALID"
    "\<forall>req \<in> set (ss_pipe ss). \<not> sends_to sid req \<and> \<not> datagram_to sid req" "ss_soi ss = None"
  shows "just_opened sid ss'"
  using open_socket_opened [OF assms(1,2,4)] assms(3) touchesD(1) [of "HASH_ID sid" ss ss']
  by (auto simp: just_opened_def Let_def is_open_def)

section \<open>Data sent before the connection is opened\<close>

lemma uncounted_send_aborts:
  assumes "just_opened sid (ss\<lparr>ss_pipe := []\<rparr>)"
  shows "ctrl_request sys (Send pr sid b) (ss\<lparr>ss_pipe := reqs\<rparr>) = None"
proof (cases "send_socket sys sid b pr None (ss\<lparr>ss_pipe := reqs\<rparr>)")
  case (Some x)
  obtain r ss1 where x: "x = (r, ss1)" by fastforce
  let ?s = "ss_slot ss (HASH_ID sid)"
  have l: "link_ok ?s" "open_link ?s" "so_id ?s = sid" "counted 0 ?s" "ss_soi ss = None"
    using just_opened_conn [OF assms] by (simp_all add: conn_inv_def del: in_order.simps)
  obtain bs where "takes pr bs ?s (ss_slot ss1 (HASH_ID sid))"
    using send_socket_takes [OF Some [unfolded x] refl] l by auto
  then have "so_id (ss_slot ss1 (HASH_ID sid)) = sid" "so_protocol (ss_slot ss1 (HASH_ID sid)) = PROTOCOL_TCP"
    "sending_count (ss_slot ss1 (HASH_ID sid)) = 0"
    using l(3) counted_0 [OF l(4)] by (simp_all add: takes_def link_ok_def sock_ok_def sending_count_def)
  then show ?thesis by (simp add: ctrl_request_def Some x dec_sending_ref_def Let_def)
qed (simp add: ctrl_request_def)

text \<open>
  C28. Sending to a connection whose open request is still on the control pipe aborts the socket thread: the call
  succeeds without counting the request, because the protocol of the slot is not known yet, and when the
  connection could be opened, the request to send fails the assertion of \<open>dec_sending_ref\<close>.
\<close>

theorem send_before_open_aborts:
  assumes "so_type (ss_slot ss (HASH_ID sid)) = SOCKET_TYPE_RESERVE" "so_id (ss_slot ss (HASH_ID sid)) = sid"
    "so_protocol (ss_slot ss (HASH_ID sid)) = PROTOCOL_UNKNOWN" "sb_id buf = sid" "ss_soi ss = None" "ss_pipe ss = [Open sid port op host]"
  shows "\<exists>ss1. socket_server_send sys buf ss = Some (0, ss1) \<and>
    (case ctrl_cmd sys ss1 of None \<Rightarrow> True
     | Some (r, ss2) \<Rightarrow> so_type (ss_slot ss2 (HASH_ID sid)) = SOCKET_TYPE_INVALID \<or> ctrl_cmd sys ss2 = None)"
proof -
  obtain b ss1 where c: "clone_buffer sys buf ss = (b, ss1)" by fastforce
  have t: "touches (HASH_ID sid) ss ss1" by (rule clone_buffer_slot(1) [OF c])
  let ?ss1 = "send_request (Send PRIORITY_HIGH sid b) ss1"
  have "socket_server_send sys buf ss = Some (0, ?ss1)"
    using assms c by (simp add: socket_server_send_def Let_def can_direct_write_def queue_send_def inc_sending_ref_def)
  moreover have p: "ss_pipe ?ss1 = [Open sid port op host, Send PRIORITY_HIGH sid b]" "ss_soi ?ss1 = None"
    using touchesD(1,2) [OF t] assms(5,6) by (simp_all add: send_request_def)
  moreover have "case ctrl_cmd sys ?ss1 of None \<Rightarrow> True
     | Some (r, ss2) \<Rightarrow> so_type (ss_slot ss2 (HASH_ID sid)) = SOCKET_TYPE_INVALID \<or> ctrl_cmd sys ss2 = None"
  proof (cases "ctrl_cmd sys ?ss1")
    case (Some x)
    obtain r ss2 where x: "x = (r, ss2)" by fastforce
    have o: "open_socket sys sid port op host (?ss1\<lparr>ss_pipe := [Send PRIORITY_HIGH sid b]\<rparr>) = Some (r, ss2)"
      using Some p(1) by (simp add: ctrl_cmd_def ctrl_request_def x)
    have "ctrl_cmd sys ss2 = None" if v: "so_type (ss_slot ss2 (HASH_ID sid)) \<noteq> SOCKET_TYPE_INVALID"
    proof -
      note oo = open_socket_opened [OF o v, simplified, OF p(2)]
      have "ss_pipe ss2 = [Send PRIORITY_HIGH sid b]" using touchesD(1) [OF oo(1)] by simp
      then show ?thesis using uncounted_send_aborts [OF oo(2)] by (simp add: ctrl_cmd_def)
    qed
    then show ?thesis by (cases "so_type (ss_slot ss2 (HASH_ID sid)) = SOCKET_TYPE_INVALID") (simp_all add: Some x)
  qed simp
  ultimately show ?thesis by blast
qed

section \<open>A pause while data waits\<close>

text \<open>
  C29. Pausing a connection and starting it again loses the interest in writing: the descriptor leaves epoll and comes
  back for reading only, while the data that waited still waits.
\<close>

theorem resume_forgets_writing:
  assumes "so_id (ss_slot ss (HASH_ID sid)) = sid" "so_type (ss_slot ss (HASH_ID sid)) = SOCKET_TYPE_CONNECTED"
    "so_reading (ss_slot ss (HASH_ID sid)) = READING_RESUME"
    "\<forall>efd op fd ev w. fst (sys_epoll_ctl sys efd op fd ev w) = None"
  shows "\<exists>r ss'. resume_socket sys sid opaque (pause_socket sys sid ss) = Some (Some (SOCKET_OPEN, r), ss') \<and>
    (let s = ss_slot ss (HASH_ID sid); s' = ss_slot ss' (HASH_ID sid) in
       so_type s' = SOCKET_TYPE_CONNECTED \<and> so_reading s' = READING_RESUME \<and> stream_of s' = stream_of s \<and> waits s' = waits s \<and>
       so_polls s' = so_polls s @ [(EPOLL_CTL_DEL, False), (EPOLL_CTL_ADD, False)])"
proof -
  let ?i = "HASH_ID sid"
  let ?ss1 = "upd_sock ?i (\<lambda>s. s\<lparr>so_reading := READING_PAUSE\<rparr>) (unwatch sys ?i ss)"
  have p: "pause_socket sys sid ss = ?ss1" using assms by (simp add: pause_socket_def Let_def)
  obtain f ss2 where w: "watch sys ?i (so_fd (ss_slot ?ss1 ?i)) ?ss1 = (f, ss2)" by fastforce
  have f: "f = None" using w assms(4) by (auto simp: watch_def sp_add_def call_def Let_def split_def)
  note s2 = watch_slot(2) [OF w]
  let ?ss3 = "upd_sock ?i (\<lambda>s. s\<lparr>so_opaque := opaque\<rparr>) (upd_sock ?i (\<lambda>s. s\<lparr>so_reading := READING_RESUME\<rparr>) ss2)"
  have "stream_of (ss_slot ?ss3 ?i) = stream_of (ss_slot ss ?i)" by (rule stream_of_cong) (simp_all add: s2 unwatch_slot(2))
  moreover have "\<exists>r. resume_socket sys sid opaque ?ss1 = Some (Some (SOCKET_OPEN, r), ?ss3)"
    using assms(1-3) w f s2 by (simp add: resume_socket_def Let_def unwatch_slot(2))
  ultimately show ?thesis using assms(2) f by (auto simp: p s2 unwatch_slot(2) waits_def Let_def)
qed

end
