(* ===== verification/SocketDrain.thy ===== *)
theory SocketDrain
  imports SocketStream
begin

text \<open>
  What happens to the data that waits in a socket when the peer reads: one write event sends all of it, and
  a socket that was only waiting for that is closed.
\<close>

definition takes_all :: "'w sys \<Rightarrow> bool" where
  "takes_all sys \<longleftrightarrow> (\<forall>fd buf w. fst (sys_write sys fd buf w) = Inr (length buf)) \<and> (\<forall>i w. fst (sys_trylock sys i w))"

text \<open>A buffer that can be given back: an object only with the interface of the objects.\<close>

definition releasable :: "'w socket_server \<Rightarrow> cbuffer \<Rightarrow> bool" where
  "releasable ss b \<longleftrightarrow> (\<forall>a. b = Object a \<longrightarrow> ss_soi ss \<noteq> None)"

lemma releasable_touches: "touches i ss ss' \<Longrightarrow> releasable ss' b \<longleftrightarrow> releasable ss b"
  by (drule touchesD(2)) (simp add: releasable_def)

lemma FREE_releasable: "releasable ss b \<Longrightarrow> \<exists>ss'. FREE b ss = Some ss'"
  by (cases b) (auto simp: FREE_def releasable_def)

lemma write_retry_all:
  assumes "takes_all sys"
  shows "\<exists>w. write_retry sys fd buf ss = Some (Inr (length buf), ss\<lparr>ss_os := w\<rparr>)"
proof -
  have "fst (sys_write sys fd buf (ss_os ss)) = Inr (length buf)" using assms by (simp add: takes_all_def)
  then show ?thesis by (subst write_retry.simps) (auto simp: call_def Let_def split_def split: sum.split)
qed

lemma write_tcp_all:
  assumes "takes_all sys" "\<forall>b \<in> set l. releasable ss (wb_buffer b)" "wb_list pr (ss_slot ss i) = l"
  shows "\<exists>ss' st. write_tcp sys i pr l ss = Some (None, ss') \<and> touches i ss ss' \<and>
    ss_slot ss' i = set_wb_list pr [] ((ss_slot ss i)\<lparr>so_wb_size := so_wb_size (ss_slot ss i) - list_size l,
      so_wire := so_wire (ss_slot ss i) @ concat (map wb_data l), so_stat := st\<rparr>)"
  using assms(2,3)
proof (induction l arbitrary: ss)
  case Nil
  let ?s = "ss_slot ss i"
  have "?s = set_wb_list pr [] (?s\<lparr>so_wb_size := so_wb_size ?s - 0, so_wire := so_wire ?s @ [], so_stat := so_stat ?s\<rparr>)"
    using Nil.prems(2) wb_list_simps(3) [of pr ?s] by simp
  then show ?case by (intro exI [of _ ss] exI [of _ "so_stat ?s"]) simp
next
  case (Cons b l)
  let ?s = "ss_slot ss i" and ?n = "length (wb_data b)"
  obtain w where w: "write_retry sys (so_fd ?s) (wb_data b) ss = Some (Inr ?n, ss\<lparr>ss_os := w\<rparr>)"
    using write_retry_all [OF assms(1)] by blast
  define ss1 where "ss1 = stat_write i ?n (ss\<lparr>ss_os := w\<rparr>)"
  define ss2 where "ss2 = upd_sock i (set_wb_list pr l) (upd_sock i (\<lambda>s. s\<lparr>so_wb_size := so_wb_size s - int ?n,
    so_wire := so_wire s @ wb_data b\<rparr>) ss1)"
  have t1: "touches i ss ss1" unfolding ss1_def by (rule touches_trans [OF _ stat_slot(1)]) (simp add: touches_iff)
  have t2: "touches i ss ss2" unfolding ss2_def by (intro touches_trans [OF touches_trans [OF t1 touches_upd] touches_upd])
  obtain st1 where s1: "ss_slot ss1 i = ?s\<lparr>so_stat := st1\<rparr>" using stat_slot(2) [of i ?n "ss\<lparr>ss_os := w\<rparr>"] by (auto simp: ss1_def)
  obtain ss3 where f: "FREE (wb_buffer b) ss2 = Some ss3"
    using FREE_releasable [of ss2 "wb_buffer b"] Cons.prems(1) releasable_touches [OF t2] by auto
  note f' = FREE_slot(1,2) [OF f]
  have s3: "ss_slot ss3 i = set_wb_list pr l (?s\<lparr>so_wb_size := so_wb_size ?s - int ?n, so_wire := so_wire ?s @ wb_data b, so_stat := st1\<rparr>)"
    using f'(2) by (cases pr) (simp_all add: ss2_def s1 set_wb_list_def)
  have t3: "touches i ss ss3" by (rule touches_trans [OF t2 f'(1)])
  have "\<forall>b \<in> set l. releasable ss3 (wb_buffer b)" using Cons.prems(1) releasable_touches [OF t3] by simp
  moreover have "wb_list pr (ss_slot ss3 i) = l" by (simp add: s3)
  ultimately obtain ss' st where r: "write_tcp sys i pr l ss3 = Some (None, ss')" "touches i ss3 ss'"
    "ss_slot ss' i = set_wb_list pr [] ((ss_slot ss3 i)\<lparr>so_wb_size := so_wb_size (ss_slot ss3 i) - list_size l,
      so_wire := so_wire (ss_slot ss3 i) @ concat (map wb_data l), so_stat := st\<rparr>)"
    using Cons.IH by blast
  have "write_tcp sys i pr (b # l) ss = Some (None, ss')"
    using w f r(1) by (simp add: ss1_def ss2_def write_buffer_free_def Let_def)
  moreover have "ss_slot ss' i = set_wb_list pr [] (?s\<lparr>so_wb_size := so_wb_size ?s - list_size (b # l),
      so_wire := so_wire ?s @ concat (map wb_data (b # l)), so_stat := st\<rparr>)"
    using r(3) s3 by (cases pr) (simp_all add: set_wb_list_def)
  ultimately show ?case using touches_trans [OF t3 r(2)] by blast
qed


lemma send_list_all:
  assumes "takes_all sys" "sock_ok (ss_slot ss i)" "\<forall>b \<in> set (wb_list pr (ss_slot ss i)). releasable ss (wb_buffer b)"
  shows "\<exists>ss' st. send_list sys i pr ss = Some (None, ss') \<and> touches i ss ss' \<and>
    ss_slot ss' i = set_wb_list pr [] ((ss_slot ss i)\<lparr>so_wb_size := so_wb_size (ss_slot ss i) - list_size (wb_list pr (ss_slot ss i)),
      so_wire := so_wire (ss_slot ss i) @ concat (map wb_data (wb_list pr (ss_slot ss i))), so_stat := st\<rparr>)"
  using write_tcp_all [OF assms(1,3) refl] sock_okD(1) [OF assms(2)] by (simp add: send_list_def send_list_tcp_def)

text \<open>Everything is sent: nothing waits, epoll no longer watches for writing, and a half-closed socket is closed.\<close>

definition flushed :: "socket \<Rightarrow> report \<Rightarrow> socket \<Rightarrow> bool" where
  "flushed s r s' \<longleftrightarrow> \<not> waits s' \<and> so_wb_size s' = 0 \<and>
     (if so_type s = SOCKET_TYPE_HALFCLOSE then closed r \<and> so_type s' = SOCKET_TYPE_INVALID
      else so_type s' = so_type s \<and> \<not> snd (last (so_polls s')) \<and>
        map_option fst r = (if so_warn_size s > 0 then Some SOCKET_WARNING else None))"

lemma force_close_all:
  assumes "so_type (ss_slot ss i) = SOCKET_TYPE_HALFCLOSE" "\<not> waits (ss_slot ss i)"
  shows "\<exists>m ss'. force_close sys i ss = Some (m, ss') \<and> touches i ss ss' \<and> so_type (ss_slot ss' i) = SOCKET_TYPE_INVALID \<and>
    so_wire (ss_slot ss' i) = so_wire (ss_slot ss i) \<and> \<not> waits (ss_slot ss' i) \<and> so_wb_size (ss_slot ss' i) = so_wb_size (ss_slot ss i)"
  using assms by (auto simp: force_close_def Let_def shut_slot_def waits_def unwatch_def upd_sock_def run_def touches_iff)

lemma all_sent_all:
  assumes "\<not> waits (ss_slot ss i)" "so_wb_size (ss_slot ss i) = 0"
  shows "\<exists>r ss'. all_sent sys i ss = Some (r, ss') \<and> touches i ss ss' \<and> so_wire (ss_slot ss' i) = so_wire (ss_slot ss i) \<and>
    flushed (ss_slot ss i) r (ss_slot ss' i)"
proof -
  let ?ss1 = "watch_write sys i False ss"
  note w = watch_write_slot [where i = i and ss = ss and sys = sys and b = False]
  show ?thesis
  proof (cases "so_type (ss_slot ss i) = SOCKET_TYPE_HALFCLOSE")
    case True
    obtain m ss' where "force_close sys i ?ss1 = Some (m, ss')" "touches i ?ss1 ss'" "so_type (ss_slot ss' i) = SOCKET_TYPE_INVALID"
      "so_wire (ss_slot ss' i) = so_wire (ss_slot ss i)" "\<not> waits (ss_slot ss' i)" "so_wb_size (ss_slot ss' i) = 0"
      using force_close_all [of ?ss1 i sys] True assms by (auto simp: w waits_def)
    then show ?thesis
      using True assms touches_trans [OF w(1)]
      by (auto simp: all_sent_def Let_def waits_def send_buffer_empty_def w flushed_def closed_def)
  next
    case False
    then show ?thesis
      using assms touches_trans [OF w(1) touches_upd] w(1)
      by (auto simp: all_sent_def Let_def waits_def send_buffer_empty_def w flushed_def closed_def)
  qed
qed


text \<open>The buffers of a socket are in memory, or the interface of the objects is there.\<close>

definition plain :: "'w socket_server \<Rightarrow> socket \<Rightarrow> bool" where
  "plain ss s \<longleftrightarrow> (\<forall>b \<in> set (so_high s @ so_low s). releasable ss (wb_buffer b)) \<and> (\<forall>a. so_dw_buffer s \<noteq> Some (Object a))"

lemma send_lists_all:
  assumes "takes_all sys" "sock_ok (ss_slot ss i)" "so_dw_buffer (ss_slot ss i) = None" "plain ss (ss_slot ss i)"
  shows "\<exists>r ss'. send_lists sys i ss = Some (r, ss') \<and> touches i ss ss' \<and>
    so_wire (ss_slot ss' i) = so_wire (ss_slot ss i) @ concat (map wb_data (so_high (ss_slot ss i))) @ concat (map wb_data (so_low (ss_slot ss i))) \<and>
    flushed (ss_slot ss i) r (ss_slot ss' i)"
proof -
  let ?s = "ss_slot ss i"
  note ok = sock_okD [OF assms(2)]
  have lu: "\<not> list_uncomplete (so_low ?s)" using ok(2) by (auto simp: list_uncomplete_def low_fresh_def split: list.split)
  obtain ss1 st1 where h: "send_list sys i PRIORITY_HIGH ss = Some (None, ss1)" "touches i ss ss1" and
    s1: "ss_slot ss1 i = ?s\<lparr>so_wb_size := so_wb_size ?s - list_size (so_high ?s),
      so_wire := so_wire ?s @ concat (map wb_data (so_high ?s)), so_stat := st1, so_high := []\<rparr>"
    using send_list_all [OF assms(1,2), of PRIORITY_HIGH] assms(4) by (auto simp: wb_list_def set_wb_list_def plain_def)
  have fl: "flushed (ss_slot ss2 i) r s' \<longleftrightarrow> flushed ?s r s'" if "so_type (ss_slot ss2 i) = so_type ?s" "so_warn_size (ss_slot ss2 i) = so_warn_size ?s"
    for ss2 r s' using that by (simp add: flushed_def)
  show ?thesis
  proof (cases "so_low ?s = []")
    case True
    obtain r ss' where "all_sent sys i ss1 = Some (r, ss')" "touches i ss1 ss'" "so_wire (ss_slot ss' i) = so_wire (ss_slot ss1 i)"
      "flushed (ss_slot ss1 i) r (ss_slot ss' i)"
      using all_sent_all [of ss1 i sys] ok(3) assms(3) True by (auto simp: s1 waits_def)
    then show ?thesis using h lu touches_trans [OF h(2)] True fl [of ss1] by (auto simp: send_lists_def closed_def s1)
  next
    case False
    have tcp: "send_list sys i PRIORITY_LOW ss1 = write_tcp sys i PRIORITY_LOW (so_low ?s) ss1"
      using ok(1) by (simp add: send_list_def send_list_tcp_def s1 wb_list_def)
    obtain ss2 st2 where l: "write_tcp sys i PRIORITY_LOW (so_low ?s) ss1 = Some (None, ss2)" "touches i ss1 ss2" and
      s2: "ss_slot ss2 i = (ss_slot ss1 i)\<lparr>so_wb_size := so_wb_size (ss_slot ss1 i) - list_size (so_low ?s),
        so_wire := so_wire (ss_slot ss1 i) @ concat (map wb_data (so_low ?s)), so_stat := st2, so_low := []\<rparr>"
      using write_tcp_all [OF assms(1), of "so_low ?s" ss1 PRIORITY_LOW i] assms(4) releasable_touches [OF h(2)]
      by (auto simp: wb_list_def set_wb_list_def plain_def s1)
    obtain r ss' where "all_sent sys i ss2 = Some (r, ss')" "touches i ss2 ss'" "so_wire (ss_slot ss' i) = so_wire (ss_slot ss2 i)"
      "flushed (ss_slot ss2 i) r (ss_slot ss' i)"
      using all_sent_all [of ss2 i sys] ok(3) assms(3) by (auto simp: s1 s2 waits_def)
    then show ?thesis
      using h l lu touches_trans [OF touches_trans [OF h(2) l(2)]] False fl [of ss2]
      by (auto simp: send_lists_def closed_def s1 s2 tcp list_uncomplete_def)
  qed
qed

lemma take_dw_all:
  assumes "sock_ok (ss_slot ss i)" "plain ss (ss_slot ss i)"
  shows "\<exists>ss'. take_dw_buffer i ss = Some ss' \<and> touches i ss ss' \<and> sock_ok (ss_slot ss' i) \<and> so_dw_buffer (ss_slot ss' i) = None \<and>
    stream_of (ss_slot ss' i) = stream_of (ss_slot ss i) \<and> plain ss' (ss_slot ss' i) \<and>
    so_type (ss_slot ss' i) = so_type (ss_slot ss i) \<and> so_warn_size (ss_slot ss' i) = so_warn_size (ss_slot ss i)"
proof (cases "so_dw_buffer (ss_slot ss i)")
  case None
  then show ?thesis using assms by (auto simp: take_dw_buffer_def)
next
  case (Some b)
  let ?s = "ss_slot ss i" let ?k = "so_dw_offset ?s"
  obtain a bs where b: "b = Memory a bs" using assms(2) Some by (cases b) (auto simp: plain_def)
  let ?f = "\<lambda>s. s\<lparr>so_wb_size := so_wb_size s + int (length (drop ?k bs)),
    so_high := \<lparr>wb_buffer = b, wb_ptr = a + ?k, wb_data = drop ?k bs, wb_udp_address = None\<rparr> # so_high s, so_dw_buffer := None\<rparr>"
  have t: "take_dw_buffer i ss = Some (upd_sock i ?f ss)" using Some b by (simp add: take_dw_buffer_def send_object_init_def Let_def)
  have "waits ?s" using Some by (simp add: waits_def)
  then have "watch_ok (?f ?s)" using watch_ok_less [OF sock_okD(4) [OF assms(1)], of "?f ?s"] by simp
  then have "sock_ok (?f ?s)" using assms(1) by (simp add: sock_ok_def)
  moreover have "stream_of (?f ?s) = stream_of ?s" using Some b by (simp add: stream_of_def dw_rest_def)
  moreover have "plain (upd_sock i ?f ss) (?f ?s)"
    using assms(2) releasable_touches [OF touches_upd, of i ?f ss] by (auto simp: plain_def b releasable_def)
  ultimately show ?thesis using t by (intro exI [of _ "upd_sock i ?f ss"]) simp
qed

text \<open>
  When the kernel takes everything, one write event sends all the data that waits, the remainder of a direct
  write first, then the high list, then the low list. Nothing waits afterwards, epoll no longer watches for
  writing, a warning is reported exactly when one was given before, and a half-closed socket is closed.
\<close>

theorem send_buffer_flushes:
  assumes "takes_all sys" "sock_ok (ss_slot ss i)" "plain ss (ss_slot ss i)"
  shows "\<exists>r ss'. send_buffer sys i ss = Some (r, ss') \<and>
    (case stream_of (ss_slot ss i) of (wire, high, low) \<Rightarrow> so_wire (ss_slot ss' i) = wire @ concat high @ concat low) \<and>
    flushed (ss_slot ss i) r (ss_slot ss' i)"
proof -
  let ?s = "ss_slot ss i"
  obtain k ss0 where c: "call (sys_trylock sys i) ss = (k, ss0)" by fastforce
  note c' = callE(1,2,5) [OF c]
  have k: "k" using c'(3) assms(1) by (auto simp: takes_all_def)
  obtain ss1 where t: "take_dw_buffer i ss0 = Some ss1" and s1: "sock_ok (ss_slot ss1 i)" "so_dw_buffer (ss_slot ss1 i) = None"
    "stream_of (ss_slot ss1 i) = stream_of ?s" "plain ss1 (ss_slot ss1 i)" "so_type (ss_slot ss1 i) = so_type ?s"
    "so_warn_size (ss_slot ss1 i) = so_warn_size ?s"
    using take_dw_all [of ss0 i] assms(2,3) c'(2) callE(4) [OF c] by (auto simp: plain_def releasable_def)
  obtain r ss' where l: "send_lists sys i ss1 = Some (r, ss')" "flushed (ss_slot ss1 i) r (ss_slot ss' i)"
    "so_wire (ss_slot ss' i) = so_wire (ss_slot ss1 i) @ concat (map wb_data (so_high (ss_slot ss1 i))) @ concat (map wb_data (so_low (ss_slot ss1 i)))"
    using send_lists_all [OF assms(1) s1(1,2,4)] by blast
  have "stream_of ?s = (so_wire (ss_slot ss1 i), map wb_data (so_high (ss_slot ss1 i)), map wb_data (so_low (ss_slot ss1 i)))"
    using s1(2,3) by (simp add: stream_of_def dw_rest_def)
  moreover have "flushed ?s r (ss_slot ss' i)" using l(2) s1(5,6) by (simp add: flushed_def)
  ultimately show ?thesis using k c t l(1,3) by (auto simp: send_buffer_def)
qed

end
