(* ===== verification/SocketIds.thy ===== *)
theory SocketIds
  imports SocketStream
begin

text \<open>
  The ids of sockets: \<open>reserve_id\<close> finds a free slot whenever there is one, and gives out an id of that slot.
\<close>

unbundle bit_operations_syntax

lemma sint_nonneg_eq:
  fixes x :: u32
  assumes "0 \<le> sint x"
  shows "sint x = int (unat x)"
proof -
  have u: "0 \<le> uint x" "uint x < 2 ^ 32" using uint_lt2p [of x] by simp_all
  have s: "sint x = (uint x + 2 ^ 31) mod 2 ^ 32 - 2 ^ 31" using int_word_sint [of "uint x", where 'a = 32] by simp
  have "uint x < 2 ^ 31"
  proof (rule ccontr)
    assume "\<not> uint x < 2 ^ 31"
    then have "(uint x + 2 ^ 31) mod 2 ^ 32 = uint x + 2 ^ 31 - 2 ^ 32"
      using u by (intro int_mod_pos_eq [of _ _ 1]) auto
    then show False using s assms u by simp
  qed
  then have "(uint x + 2 ^ 31) mod 2 ^ 32 = uint x + 2 ^ 31" using u by (intro mod_pos_pos_trivial) auto
  then show ?thesis using s by simp
qed

lemma unat_mask31: "unat (x AND 0x7fffffff) = unat x mod 2 ^ 31" for x :: u32
proof -
  have "(0x7fffffff :: u32) = mask 31" by (simp add: mask_eq_exp_minus_1)
  then show ?thesis by (simp only: unat_and_mask)
qed

lemma sint_mask31: "sint (x AND 0x7fffffff) = int (unat x mod 2 ^ 31)" for x :: u32
proof -
  have "\<not> bit (x AND 0x7fffffff) 31"
  proof -
    have "(0x7fffffff :: u32) = mask 31" by (simp add: mask_eq_exp_minus_1)
    then show ?thesis by (simp only: bit_simps) simp
  qed
  then have "0 \<le> sint (x AND 0x7fffffff)" using bit_last_iff [of "x AND 0x7fffffff"] by (simp add: not_less)
  then show ?thesis using sint_nonneg_eq unat_mask31 by metis
qed

text \<open>Each turn of the loop looks at the next slot.\<close>

lemma reserve_loop_body_next:
  assumes "reserve_loop_body ss = (sid, ss')"
  shows "0 \<le> sid" "HASH_ID sid = Suc (unat (ss_alloc_id ss)) mod MAX_SOCKET" "unat (ss_alloc_id ss') mod MAX_SOCKET = HASH_ID sid"
    "ss_slot ss' = ss_slot ss"
proof -
  let ?n = "ss_alloc_id ss + 1"
  have n: "unat ?n mod 65536 = Suc (unat (ss_alloc_id ss)) mod 65536"
    by (simp add: unat_word_ariths mod_mod_cancel)
  have h: "HASH_ID (int k) = k mod 65536" for k by (simp add: HASH_ID_def MAX_SOCKET_def nat_mod_distrib)
  have m: "unat x mod 2 ^ 31 mod 65536 = unat x mod 65536" for x :: u32 by (rule mod_mod_cancel) simp
  have "ss_slot ss' = ss_slot ss \<and> (\<exists>m. sid = int m \<and> unat (ss_alloc_id ss') = m \<and> m mod 65536 = unat ?n mod 65536)"
  proof (cases "sint ?n < 0")
    case True
    then have "sid = sint (?n AND 0x7fffffff)" "ss' = ss\<lparr>ss_alloc_id := ?n AND 0x7fffffff\<rparr>"
      using assms by (auto simp: reserve_loop_body_def Let_def)
    then show ?thesis unfolding sint_mask31 using m [of ?n] unat_mask31 [of ?n] by simp
  next
    case False
    then have "sid = int (unat ?n)" "ss' = ss\<lparr>ss_alloc_id := ?n\<rparr>"
      using assms unfolding reserve_loop_body_def Let_def by (simp_all del: of_nat_unat add: sint_nonneg_eq)
    then show ?thesis by simp
  qed
  then obtain m where m: "sid = int m" "unat (ss_alloc_id ss') = m" "m mod 65536 = unat ?n mod 65536" "ss_slot ss' = ss_slot ss" by blast
  then show "0 \<le> sid" "HASH_ID sid = Suc (unat (ss_alloc_id ss)) mod MAX_SOCKET" "unat (ss_alloc_id ss') mod MAX_SOCKET = HASH_ID sid"
    "ss_slot ss' = ss_slot ss"
    using n h by (simp_all add: MAX_SOCKET_def)
qed

lemma reserve_loop_finds:
  assumes "reserve_loop n ss = (sid, ss')"
  shows "(sid < 0 \<longrightarrow> ss_slot ss' = ss_slot ss \<and> (\<forall>k < n. so_type (ss_slot ss (Suc (unat (ss_alloc_id ss) + k) mod MAX_SOCKET)) \<noteq> SOCKET_TYPE_INVALID)) \<and>
    (0 \<le> sid \<longrightarrow> so_type (ss_slot ss (HASH_ID sid)) = SOCKET_TYPE_INVALID \<and> 
       ss_slot ss' = (ss_slot ss)(HASH_ID sid := (ss_slot ss (HASH_ID sid))\<lparr>so_type := SOCKET_TYPE_RESERVE, so_id := sid,
         so_protocol := PROTOCOL_UNKNOWN, so_udpconnecting := 0, so_fd := - 1\<rparr>))"
  using assms
proof (induction n arbitrary: ss)
  case (Suc n)
  obtain id0 ss0 where b: "reserve_loop_body ss = (id0, ss0)" by fastforce
  note nx = reserve_loop_body_next [OF b]
  show ?case
  proof (cases "so_type (ss_slot ss0 (HASH_ID id0)) = SOCKET_TYPE_INVALID")
    case True
    then show ?thesis using Suc.prems b nx(1,4) by (auto simp: Let_def upd_sock_def)
  next
    case False
    then have r: "reserve_loop n ss0 = (sid, ss')" using Suc.prems b by (simp add: Let_def)
    have "so_type (ss_slot ss (Suc (unat (ss_alloc_id ss) + k) mod MAX_SOCKET)) \<noteq> SOCKET_TYPE_INVALID"
      if s: "sid < 0" and "k < Suc n" for k
    proof (cases k)
      case 0
      then show ?thesis using False nx by simp
    next
      case (Suc j)
      have "Suc (unat (ss_alloc_id ss0) + j) mod MAX_SOCKET = Suc (unat (ss_alloc_id ss) + k) mod MAX_SOCKET"
      proof -
        have "unat (ss_alloc_id ss0) mod MAX_SOCKET = Suc (unat (ss_alloc_id ss)) mod MAX_SOCKET" using nx(2,3) by simp
        then show ?thesis by (metis Suc add_Suc add_Suc_right mod_Suc_eq mod_add_left_eq)
      qed
      then show ?thesis using Suc.IH [OF r] s \<open>k < Suc n\<close> Suc nx(4) by auto
    qed
    then show ?thesis using Suc.IH [OF r] nx(4) by simp
  qed
qed simp

text \<open>
  \<open>reserve_id\<close> fails exactly when no slot is free, and then changes no slot. Otherwise the id it returns
  belongs to a slot that was free, which is reserved under this id, and no other slot changes.
\<close>

theorem reserve_id_free_slot:
  "case reserve_id ss of (sid, ss') \<Rightarrow>
     (sid < 0 \<longleftrightarrow> SOCKET_TYPE_INVALID \<notin> (\<lambda>i. so_type (ss_slot ss i)) ` {..<MAX_SOCKET}) \<and>
     (if sid < 0 then ss_slot ss' = ss_slot ss
      else so_type (ss_slot ss (HASH_ID sid)) = SOCKET_TYPE_INVALID \<and>
        ss_slot ss' = (ss_slot ss)(HASH_ID sid := ss_slot ss' (HASH_ID sid)) \<and>
        so_type (ss_slot ss' (HASH_ID sid)) = SOCKET_TYPE_RESERVE \<and> so_id (ss_slot ss' (HASH_ID sid)) = sid)"
proof -
  obtain sid ss' where r: "reserve_loop MAX_SOCKET ss = (sid, ss')" by fastforce
  note f = reserve_loop_finds [OF r]
  have h: "HASH_ID n < MAX_SOCKET" for n by (simp add: HASH_ID_def MAX_SOCKET_def nat_less_iff)
  have u: "so_type (ss_slot ss i) \<noteq> SOCKET_TYPE_INVALID" if "sid < 0" "i < MAX_SOCKET" for i
  proof -
    let ?a = "Suc (unat (ss_alloc_id ss))"
    let ?k = "(i + (MAX_SOCKET - ?a mod MAX_SOCKET)) mod MAX_SOCKET"
    have k: "?k < MAX_SOCKET" by (simp add: MAX_SOCKET_def)
    have a: "?a mod MAX_SOCKET \<le> MAX_SOCKET" by (simp add: MAX_SOCKET_def less_imp_le)
    have "Suc (unat (ss_alloc_id ss) + ?k) mod MAX_SOCKET = (?a mod MAX_SOCKET + (i + (MAX_SOCKET - ?a mod MAX_SOCKET))) mod MAX_SOCKET"
      by (metis add_Suc mod_add_eq mod_mod_trivial)
    also have "\<dots> = (i + MAX_SOCKET) mod MAX_SOCKET" using a by simp
    also have "\<dots> = i" using that(2) by simp
    finally have "Suc (unat (ss_alloc_id ss) + ?k) mod MAX_SOCKET = i" .
    then show ?thesis using f that(1) k by metis
  qed
  have q: "sid < 0 \<longleftrightarrow> SOCKET_TYPE_INVALID \<notin> (\<lambda>i. so_type (ss_slot ss i)) ` {..<MAX_SOCKET}"
  proof (cases "sid < 0")
    case True
    then show ?thesis using u by (auto dest: sym)
  next
    case False
    then have "SOCKET_TYPE_INVALID \<in> (\<lambda>i. so_type (ss_slot ss i)) ` {..<MAX_SOCKET}"
      using f h by (intro image_eqI [of _ _ "HASH_ID sid"]) simp_all
    then show ?thesis using False by blast
  qed
  have "if sid < 0 then ss_slot ss' = ss_slot ss
    else so_type (ss_slot ss (HASH_ID sid)) = SOCKET_TYPE_INVALID \<and>
      ss_slot ss' = (ss_slot ss)(HASH_ID sid := ss_slot ss' (HASH_ID sid)) \<and>
      so_type (ss_slot ss' (HASH_ID sid)) = SOCKET_TYPE_RESERVE \<and> so_id (ss_slot ss' (HASH_ID sid)) = sid"
    using f by auto
  then show ?thesis using q r unfolding reserve_id_def by (simp only: prod.case)
qed

end
