(* ===== verification/SocketDemo.thy ===== *)
theory SocketDemo
  imports SocketOpen SocketDrain SocketIds
begin

text \<open>
  A small world in which the theorems about sockets apply: a server with one connection, and a kernel that
  takes \<open>f n\<close> of the \<open>n\<close> bytes of a \<open>write\<close>. Data is sent through a kernel that takes at most three bytes at a time.
\<close>

definition no_event :: epoll_event where
  "no_event = \<lparr>epoll_in = False, epoll_out = False, epoll_err = False, epoll_hup = False, epoll_ptr = None\<rparr>"

definition demo_sys :: "(nat \<Rightarrow> nat) \<Rightarrow> unit sys" where
  "demo_sys f = \<lparr>
     sys_write = (\<lambda>fd buf w. (Inr (f (length buf)), w)),
     sys_read = (\<lambda>fd sz w. (Inl EAGAIN, w)),
     sys_sendto = (\<lambda>fd buf sa w. (Inr (length buf), w)),
     sys_recvfrom = (\<lambda>fd sz w. (Inl EAGAIN, w)),
     sys_close = (\<lambda>fd w. w),
     sys_accept = (\<lambda>fd w. (Inl EAGAIN, w)),
     sys_socket = (\<lambda>f t w. (Inr 9, w)),
     sys_connect = (\<lambda>fd sa w. (Inl EINPROGRESS, w)),
     sys_bind = (\<lambda>fd sa w. (Inr (), w)),
     sys_listen = (\<lambda>fd backlog w. (Inr (), w)),
     sys_nonblocking = (\<lambda>fd w. w),
     sys_keepalive = (\<lambda>fd w. w),
     sys_reuseaddr = (\<lambda>fd w. (Inr (), w)),
     sys_tcp_option = (\<lambda>fd what v w. w),
     sys_so_error = (\<lambda>fd w. (Inr None, w)),
     sys_getpeername = (\<lambda>fd w. (None, w)),
     sys_getsockname = (\<lambda>fd w. (None, w)),
     sys_getaddrinfo = (\<lambda>host port t w. (Inr [(AF_INET, Sockaddr_in [0, 80] [127, 0, 0, 1])], w)),
     sys_pipe = (\<lambda>w. (Inr (3, 4), w)),
     sys_epoll_create = (\<lambda>w. (Inr 5, w)),
     sys_epoll_ctl = (\<lambda>efd op fd ev w. (None, w)),
     sys_epoll_wait = (\<lambda>efd n w. ((EAGAIN, [no_event\<lparr>epoll_out := True, epoll_ptr := Some 1\<rparr>]), w)),
     sys_select = (\<lambda>fd w. (True, w)),
     sys_trylock = (\<lambda>i w. (True, w)),
     sys_malloc = (\<lambda>sz w. (64, w)),
     sys_strerror = (\<lambda>e. ''error''),
     sys_gai_strerror = (\<lambda>e. ''error''),
     sys_inet_ntop = (\<lambda>sa. None)\<rparr>"

definition demo_socket :: socket where
  "demo_socket = \<lparr>so_opaque = 0, so_high = [], so_low = [], so_wb_size = 0,
     so_stat = \<lparr>st_rtime = 0, st_wtime = 0, st_read = 0, st_write = 0\<rparr>, so_sending = 0, so_fd = - 1, so_id = 0,
     so_protocol = PROTOCOL_UNKNOWN, so_type = SOCKET_TYPE_INVALID, so_reading = READING_RESUME, so_udpconnecting = 0,
     so_warn_size = 0, so_p = P_size 0, so_dw_offset = 0, so_dw_buffer = None, so_wire = [], so_polls = []\<rparr>"

definition demo_link :: socket where
  "demo_link = demo_socket\<lparr>so_fd := 9, so_id := 1, so_protocol := PROTOCOL_TCP, so_type := SOCKET_TYPE_CONNECTED,
     so_p := P_size MIN_READ_BUFFER, so_polls := [(EPOLL_CTL_ADD, False)]\<rparr>"

definition demo_server :: "(nat \<Rightarrow> socket) \<Rightarrow> request list \<Rightarrow> unit socket_server" where
  "demo_server slots pipe = \<lparr>ss_time = 0, ss_recvctrl_fd = 3, ss_sendctrl_fd = 4, ss_checkctrl = True, ss_event_fd = 5,
     ss_alloc_id = 0, ss_event_index = 0, ss_soi = None, ss_ev = [], ss_slot = slots, ss_pipe = pipe, ss_freed = [], ss_os = ()\<rparr>"

definition demo_open :: "unit socket_server" where
  "demo_open = demo_server ((\<lambda>i. demo_socket)(1 := demo_link)) []"

definition demo_buffer :: "bytes \<Rightarrow> socket_sendbuffer" where
  "demo_buffer bs = \<lparr>sb_id = 1, sb_buffer = SOCKET_BUFFER_RAWPOINTER 32 bs\<rparr>"

definition demo_calls :: "server_call list" where
  "demo_calls = [Call_send (demo_buffer [1, 2, 3, 4, 5]), Call_send_lowpriority (demo_buffer [7]), Call_send (demo_buffer [6]),
     Poll True, Poll True, Poll True]"

lemma demo_posix: "posix_write (demo_sys (min 3))" by (simp add: posix_write_def demo_sys_def)

lemma demo_just_opened: "just_opened 1 demo_open"
  by (simp add: just_opened_def Let_def is_open_def open_link_def demo_open_def demo_server_def demo_link_def demo_socket_def HASH_ID_def
      MAX_SOCKET_def ID_TAG16_def watched_def)

lemmas demo_defs = demo_open_def demo_server_def demo_link_def demo_socket_def demo_buffer_def HASH_ID_def MAX_SOCKET_def

definition demo_1 :: "unit socket_server" where
  "demo_1 = demo_server ((\<lambda>i. demo_socket)(1 := demo_link\<lparr>so_dw_buffer := Some (Memory 64 [1, 2, 3, 4, 5]), so_dw_offset := 3,
     so_wire := [1, 2, 3], so_polls := [(EPOLL_CTL_ADD, False), (EPOLL_CTL_MOD, True)],
     so_stat := \<lparr>st_rtime = 0, st_wtime = 0, st_read = 0, st_write = 3\<rparr>\<rparr>)) []"

lemma demo_step_1: "server_step (demo_sys (min 3)) (Call_send (demo_buffer [1, 2, 3, 4, 5])) demo_open = Some demo_1"
  by (simp add: demo_defs demo_1_def socket_server_send_def Let_def can_direct_write_def nomore_sending_data_def send_buffer_empty_def
    sending_count_def call_def demo_sys_def direct_write_def sendbuffer_content_def after_write_def stat_write_def upd_sock_def
    clone_buffer_def watch_write_def run_def sp_write_def numeral_3_eq_3)


definition demo_2 :: "unit socket_server" where
  "demo_2 = demo_server ((\<lambda>i. demo_socket)(1 := (ss_slot demo_1 1)\<lparr>so_sending := 2\<rparr>))
     [Send PRIORITY_LOW 1 (Memory 64 [7]), Send PRIORITY_HIGH 1 (Memory 64 [6])]"

lemma demo_step_2:
  "open_run (demo_sys (min 3)) 1 [Call_send_lowpriority (demo_buffer [7]), Call_send (demo_buffer [6])] demo_1 = Some demo_2"
  by (simp add: demo_defs demo_1_def demo_2_def socket_server_send_def socket_server_send_lowpriority_def Let_def can_direct_write_def
    nomore_sending_data_def send_buffer_empty_def queue_send_def inc_sending_ref_def ID_TAG16_def is_open_def open_link_def
    sending_count_def call_def demo_sys_def upd_sock_def clone_buffer_def send_request_def)

definition demo_3 :: "unit socket_server" where
  "demo_3 = (demo_server ((\<lambda>i. demo_socket)(1 := (ss_slot demo_1 1)\<lparr>so_sending := 1,
     so_high := [\<lparr>wb_buffer = Memory 64 [7], wb_ptr = 64, wb_data = [7], wb_udp_address = None\<rparr>], so_wb_size := 1,
     so_polls := [(EPOLL_CTL_ADD, False), (EPOLL_CTL_MOD, True), (EPOLL_CTL_MOD, True)]\<rparr>))
     [Send PRIORITY_HIGH 1 (Memory 64 [6])])"

lemma demo_step_3: "server_step (demo_sys (min 3)) (Poll True) demo_2 = Some demo_3"
  by (simp add: demo_defs demo_1_def demo_2_def demo_3_def poll_turn_def has_cmd_def call_def demo_sys_def ctrl_cmd_def ctrl_request_def
     send_socket_def Let_def send_object_init_def send_buffer_empty_def append_sendbuffer_def append_to_def watch_write_def run_def sp_write_def wb_list_def set_wb_list_def
     upd_sock_def check_warning_def WARNING_SIZE_def dec_sending_ref_def sending_count_def
     del: map_option_eq_Some)

definition demo_4 :: "unit socket_server" where
  "demo_4 = demo_server ((\<lambda>i. demo_socket)(1 := (ss_slot demo_3 1)\<lparr>so_sending := 0,
     so_high := [\<lparr>wb_buffer = Memory 64 [7], wb_ptr = 64, wb_data = [7], wb_udp_address = None\<rparr>,
       \<lparr>wb_buffer = Memory 64 [6], wb_ptr = 64, wb_data = [6], wb_udp_address = None\<rparr>], so_wb_size := 2\<rparr>)) []"

lemma demo_step_4: "server_step (demo_sys (min 3)) (Poll True) demo_3 = Some demo_4"
  by (simp add: demo_defs demo_1_def demo_3_def demo_4_def poll_turn_def has_cmd_def call_def demo_sys_def ctrl_cmd_def ctrl_request_def
     send_socket_def Let_def send_object_init_def send_buffer_empty_def append_sendbuffer_def append_to_def wb_list_def set_wb_list_def
     upd_sock_def check_warning_def WARNING_SIZE_def dec_sending_ref_def sending_count_def
     del: map_option_eq_Some)

lemma demo_write: "write_retry (demo_sys f) fd buf ss = Some (Inr (f (length buf)), ss)"
  by (subst write_retry.simps) (simp add: call_def demo_sys_def)

lemma demo_call: "call (sys_trylock (demo_sys f) i) ss = (True, ss)"
  by (simp add: call_def demo_sys_def)

lemma demo_step_5: "\<exists>ss. server_step (demo_sys (min 3)) (Poll True) demo_4 = Some ss \<and> so_wire (ss_slot ss 1) = [1, 2, 3, 4, 5, 7, 6] \<and>
   is_open 1 ss \<and> unsent 1 ss = [] \<and> never_paused (ss_slot ss 1)"
proof -
  have p: "poll_turn (demo_sys (min 3)) True demo_4 = 
    next_event (demo_sys (min 3)) False (demo_4\<lparr>ss_checkctrl := True, ss_ev := [\<lparr>e_s = Some 1, e_read = False, e_write = True, e_error = False, e_eof = False\<rparr>],
      ss_event_index := 0\<rparr>)"
    by (simp add: demo_4_def demo_server_def poll_turn_def has_cmd_def call_def demo_sys_def Let_def sp_wait_def sp_event_def no_event_def)
  show ?thesis
    unfolding server_step.simps p
    by (simp add: next_event_def dispatch_event_def demo_defs demo_1_def demo_3_def demo_4_def Let_def send_buffer_def demo_call take_dw_buffer_def
     send_object_init_def upd_sock_def send_lists_def send_list_def send_list_tcp_def wb_list_def set_wb_list_def demo_write stat_write_def
      write_buffer_free_def list_uncomplete_def closed_def all_sent_def send_buffer_empty_def watch_write_def run_def is_open_def open_link_def
      unsent_def stream_of_def dw_rest_def on_pipe_def never_paused_def)
qed


lemma demo_run:
  "\<exists>ss. open_run (demo_sys (min 3)) 1 demo_calls demo_open = Some ss \<and> so_wire (ss_slot ss 1) = [1, 2, 3, 4, 5, 7, 6] \<and>
     unsent 1 ss = [] \<and> never_paused (ss_slot ss 1)"
proof -
  have op: "is_open 1 demo_1" "is_open 1 demo_3" "is_open 1 demo_4"
    by (simp_all add: is_open_def open_link_def demo_defs demo_1_def demo_3_def demo_4_def)
  obtain ss where ss: "server_step (demo_sys (min 3)) (Poll True) demo_4 = Some ss" "is_open 1 ss"
    and r: "so_wire (ss_slot ss 1) = [1, 2, 3, 4, 5, 7, 6]" "unsent 1 ss = []" "never_paused (ss_slot ss 1)"
    using demo_step_5 by blast
  have "open_run (demo_sys (min 3)) 1 (Call_send_lowpriority (demo_buffer [7]) # Call_send (demo_buffer [6]) # cs) demo_1 =
      open_run (demo_sys (min 3)) 1 cs demo_2" for cs
    using demo_step_2 by (auto simp: bind_eq_Some_conv split: if_splits)
  then have "open_run (demo_sys (min 3)) 1 demo_calls demo_open = Some ss"
    unfolding demo_calls_def using op ss demo_step_1 demo_step_3 demo_step_4
    by (simp del: server_step.simps)
  then show ?thesis using r by blast
qed

theorem socket_stream_in_order_witness:
  "\<exists>ss. open_run (demo_sys (min 3)) 1 demo_calls demo_open = Some ss \<and> so_wire (ss_slot ss 1) = [1, 2, 3, 4, 5, 7, 6] \<and>
     (\<exists>order \<in> shuffles [[1, 2, 3, 4, 5], [6]] [[7]]. so_wire (ss_slot ss 1) @ unsent 1 ss = concat order)"
proof -
  obtain ss where r: "open_run (demo_sys (min 3)) 1 demo_calls demo_open = Some ss" "so_wire (ss_slot ss 1) = [1, 2, 3, 4, 5, 7, 6]"
    using demo_run by blast
  have "HASH_ID 1 = 1" by (simp add: HASH_ID_def MAX_SOCKET_def)
  then show ?thesis
    using r socket_stream_in_order [OF demo_just_opened r(1) demo_posix]
    by (simp add: demo_calls_def demo_buffer_def buffer_bytes_def)
qed


lemma demo_takes_all: "takes_all (demo_sys id)" by (simp add: takes_all_def demo_sys_def)

theorem send_buffer_flushes_witness:
  "\<exists>r ss. send_buffer (demo_sys id) 1 demo_4 = Some (r, ss) \<and> so_wire (ss_slot ss 1) = [1, 2, 3, 4, 5, 7, 6] \<and>
     flushed (ss_slot demo_4 1) r (ss_slot ss 1)"
proof -
  have ok: "sock_ok (ss_slot demo_4 1)"
    by (simp add: demo_4_def demo_3_def demo_1_def demo_defs sock_ok_def low_fresh_def watch_ok_def never_paused_def watched_def waits_def)
  have "plain demo_4 (ss_slot demo_4 1)"
    by (simp add: demo_4_def demo_3_def demo_1_def demo_defs plain_def releasable_def)
  moreover have "stream_of (ss_slot demo_4 1) = ([1, 2, 3], [[4, 5], [7], [6]], [])"
    by (simp add: demo_4_def demo_3_def demo_1_def demo_defs stream_of_def dw_rest_def)
  ultimately show ?thesis using send_buffer_flushes [OF demo_takes_all ok] by simp
qed

text \<open>A slot that is reserved for a connection to be opened.\<close>

definition demo_reserved :: "unit socket_server" where
  "demo_reserved = demo_server ((\<lambda>i. demo_socket)(1 := demo_socket\<lparr>so_type := SOCKET_TYPE_RESERVE, so_id := 1\<rparr>)) [Open 1 80 7 ''host'']"

lemma demo_opening:
  "\<exists>r ss. open_socket (demo_sys id) 1 80 7 ''host'' (demo_reserved\<lparr>ss_pipe := []\<rparr>) = Some (r, ss) \<and>
     so_type (ss_slot ss 1) = SOCKET_TYPE_CONNECTING"
  by (simp add: open_socket_def Let_def demo_reserved_def demo_defs call_def demo_sys_def run_def new_fd_def watch_def sp_add_def upd_sock_def
      watch_write_def)

theorem open_socket_opens_witness: "\<exists>ss. just_opened 1 (ss :: unit socket_server) \<and> so_type (ss_slot ss 1) = SOCKET_TYPE_CONNECTING"
proof -
  obtain r ss where o: "open_socket (demo_sys id) 1 80 7 ''host'' (demo_reserved\<lparr>ss_pipe := []\<rparr>) = Some (r, ss)"
    "so_type (ss_slot ss 1) = SOCKET_TYPE_CONNECTING"
    using demo_opening by blast
  have "just_opened 1 ss"
    by (rule open_socket_opens [OF o(1)]) (use o(2) in \<open>simp_all add: HASH_ID_def MAX_SOCKET_def demo_reserved_def demo_server_def\<close>)
  then show ?thesis using o(2) by blast
qed

theorem send_before_open_aborts_witness:
  "\<exists>ss. socket_server_send (demo_sys id) (demo_buffer [1]) demo_reserved = Some (0, ss) \<and>
     (case ctrl_cmd (demo_sys id) ss of None \<Rightarrow> True
      | Some (r, ss2) \<Rightarrow> so_type (ss_slot ss2 1) = SOCKET_TYPE_INVALID \<or> ctrl_cmd (demo_sys id) ss2 = None)"
proof -
  have h: "HASH_ID 1 = 1" by (simp add: HASH_ID_def MAX_SOCKET_def)
  show ?thesis
    by (rule send_before_open_aborts [of demo_reserved 1 "demo_buffer [1]" 80 7 "''host''" "demo_sys id", unfolded h])
      (simp_all add: demo_reserved_def demo_server_def demo_socket_def demo_buffer_def)
qed

theorem resume_forgets_writing_witness:
  "\<exists>r ss. resume_socket (demo_sys id) 1 7 (pause_socket (demo_sys id) 1 demo_1) = Some (Some (SOCKET_OPEN, r), ss) \<and>
     waits (ss_slot ss 1) \<and> \<not> snd (last (so_polls (ss_slot ss 1)))"
proof -
  have h: "HASH_ID 1 = 1" by (simp add: HASH_ID_def MAX_SOCKET_def)
  have "waits (ss_slot demo_1 1)" by (simp add: waits_def demo_1_def demo_defs)
  then show ?thesis
    using resume_forgets_writing [of demo_1 1 "demo_sys id" 7]
    by (auto simp: h demo_1_def demo_server_def demo_link_def demo_socket_def demo_sys_def Let_def)
qed

end
