(* ===== verification/SocketBuffer.thy ===== *)
theory SocketBuffer
  imports Prelude
begin

text \<open>
  The receive buffers of Lua services (\<open>lualib-src/lua-socket.c\<close>): the blocks that come from the socket
  server are linked behind a buffer, and read as a number of bytes, up to a separator, or all at once. The
  link nodes come from a pool that all buffers of a service share. Node addresses are numbers, the Lua table
  of the pool is its first entry (the free list) and the sizes of its chunks of nodes. Sizes are natural
  numbers: the code keeps them in an \<open>int\<close>, so a buffer of 2 GB is not covered. A function returns \<open>None\<close> where the
  code follows a null pointer, fails an assertion or reads a length below 0.
\<close>

section \<open>Data\<close>

definition LARGE_PAGE_NODE :: nat where "LARGE_PAGE_NODE = 12"

record buffer_node =
  bn_msg :: "bytes option"
  bn_sz :: nat
  bn_next :: "nat option"

record socket_buffer =
  bf_size :: nat
  bf_offset :: nat
  bf_head :: "nat option"
  bf_tail :: "nat option"

record pool =
  pl_node :: "nat \<Rightarrow> buffer_node"
  pl_brk :: nat
  pl_free :: "nat option"
  pl_chunks :: "nat list"

definition upd_node :: "nat \<Rightarrow> (buffer_node \<Rightarrow> buffer_node) \<Rightarrow> pool \<Rightarrow> pool" where
  "upd_node a f pl = pl\<lparr>pl_node := (pl_node pl)(a := f (pl_node pl a))\<rparr>"

section \<open>Operations\<close>

definition lnewpool :: "nat \<Rightarrow> pool \<Rightarrow> nat \<times> pool" where
  "lnewpool sz pl =
     (let a = pl_brk pl in
      (a, pl\<lparr>pl_node := (\<lambda>x. if a \<le> x \<and> x < a + sz
                then \<lparr>bn_msg = None, bn_sz = 0, bn_next = (if x = a + sz - 1 then None else Some (x + 1))\<rparr> else pl_node pl x),
             pl_brk := a + sz\<rparr>))"

definition lnewbuffer :: socket_buffer where
  "lnewbuffer = \<lparr>bf_size = 0, bf_offset = 0, bf_head = None, bf_tail = None\<rparr>"

definition lfreepool :: "nat \<Rightarrow> nat \<Rightarrow> pool \<Rightarrow> pool" where
  "lfreepool a sz pl =
     pl\<lparr>pl_node := (\<lambda>x. if a \<le> x \<and> x < a + sz then (pl_node pl x)\<lparr>bn_msg := None\<rparr> else pl_node pl x)\<rparr>"

text \<open>The length of the pool table; 8 nodes in the unit of a chunk, doubled for every chunk up to a limit.\<close>

definition rawlen :: "pool \<Rightarrow> nat" where
  "rawlen pl = (if pl_chunks pl = [] then 0 else 1 + length (pl_chunks pl))"

definition chunk_size :: "nat \<Rightarrow> nat" where
  "chunk_size tsz = 8 * 2 ^ (if tsz \<le> LARGE_PAGE_NODE - 3 then tsz else LARGE_PAGE_NODE - 3)"

definition get_node :: "pool \<Rightarrow> nat \<times> pool" where
  "get_node pl =
     (case pl_free pl of
        Some a \<Rightarrow> (a, pl)
      | None \<Rightarrow>
          (let tsz = (if rawlen pl = 0 then 1 else rawlen pl);
               size = chunk_size tsz;
               (a, pl) = lnewpool size pl
           in (a, pl\<lparr>pl_chunks := pl_chunks pl @ [size]\<rparr>)))"

definition lpushbuffer :: "bytes \<Rightarrow> socket_buffer \<times> pool \<Rightarrow> (nat \<times> socket_buffer \<times> pool) option" where
  "lpushbuffer msg = (\<lambda>(sb, pl).
     let (a, pl) = get_node pl;
         pl = pl\<lparr>pl_free := bn_next (pl_node pl a)\<rparr>;
         pl = upd_node a (\<lambda>_. \<lparr>bn_msg = Some msg, bn_sz = length msg, bn_next = None\<rparr>) pl
     in do {
       (sb, pl) \<leftarrow>
         (if bf_head sb = None then
            if bf_tail sb \<noteq> None then None else Some (sb\<lparr>bf_head := Some a, bf_tail := Some a\<rparr>, pl)
          else do {
            t \<leftarrow> bf_tail sb;
            Some (sb\<lparr>bf_tail := Some a\<rparr>, upd_node t (\<lambda>n. n\<lparr>bn_next := Some a\<rparr>) pl)
          });
       let sb = sb\<lparr>bf_size := bf_size sb + length msg\<rparr>;
       Some (bf_size sb, sb, pl)
     })"

definition return_free_node :: "socket_buffer \<times> pool \<Rightarrow> (socket_buffer \<times> pool) option" where
  "return_free_node = (\<lambda>(sb, pl). do {
     a \<leftarrow> bf_head sb;
     let head = bn_next (pl_node pl a);
     Some (sb\<lparr>bf_offset := 0, bf_head := head, bf_tail := (if head = None then None else bf_tail sb)\<rparr>,
           (upd_node a (\<lambda>_. \<lparr>bn_msg = None, bn_sz = 0, bn_next = pl_free pl\<rparr>) pl)\<lparr>pl_free := Some a\<rparr>)
   })"

text \<open>What is left of the block of a node behind an offset.\<close>

definition node_rest :: "pool \<Rightarrow> nat \<Rightarrow> nat \<Rightarrow> bytes option" where
  "node_rest pl a off = map_option (\<lambda>m. drop off (take (bn_sz (pl_node pl a)) m)) (bn_msg (pl_node pl a))"

partial_function (option) pop_loop ::
  "nat \<Rightarrow> nat \<Rightarrow> socket_buffer \<times> pool \<Rightarrow> (bytes \<times> socket_buffer \<times> pool) option" where
  "pop_loop sz skip s =
     (case s of (sb, pl) \<Rightarrow> do {
        current \<leftarrow> bf_head sb;
        rest \<leftarrow> node_rest pl current (bf_offset sb);
        let bs = bn_sz (pl_node pl current) - bf_offset sb;
        if bs \<ge> sz then do {
          let sb = sb\<lparr>bf_offset := bf_offset sb + sz\<rparr>;
          s \<leftarrow> (if bs = sz then return_free_node (sb, pl) else Some (sb, pl));
          Some (take (sz - skip) rest, s)
        }
        else do {
          s \<leftarrow> return_free_node (sb, pl);
          (more, s) \<leftarrow> pop_loop (sz - bs) skip s;
          Some (take (sz - skip) rest @ more, s)
        }
      })"

definition pop_lstring :: "nat \<Rightarrow> nat \<Rightarrow> socket_buffer \<times> pool \<Rightarrow> (bytes \<times> socket_buffer \<times> pool) option" where
  "pop_lstring sz skip = (\<lambda>(sb, pl). do {
     current \<leftarrow> bf_head sb;
     rest \<leftarrow> node_rest pl current (bf_offset sb);
     let bs = bn_sz (pl_node pl current) - bf_offset sb;
     if sz < bs then Some (take (sz - skip) rest, sb\<lparr>bf_offset := bf_offset sb + sz\<rparr>, pl)
     else if sz = bs then do {
       s \<leftarrow> return_free_node (sb, pl);
       Some (take (sz - skip) rest, s)
     }
     else pop_loop sz skip (sb, pl)
   })"

text \<open>\<open>lheader\<close>: a big-endian number of 1 to 4 bytes, or an error.\<close>

definition lheader :: "bytes \<Rightarrow> nat option" where
  "lheader s = (if length s > 4 \<or> length s < 1 then None else Some (foldl (\<lambda>n b. n * 256 + unat b) 0 s))"

definition lpopbuffer :: "int \<Rightarrow> socket_buffer \<times> pool \<Rightarrow> (bytes option \<times> socket_buffer \<times> pool) option" where
  "lpopbuffer sz = (\<lambda>(sb, pl).
     if int (bf_size sb) < sz \<or> sz = 0 then Some (None, sb, pl)
     else if sz < 0 then None
     else do {
       (bs, sb, pl) \<leftarrow> pop_lstring (nat sz) 0 (sb, pl);
       Some (Some bs, sb\<lparr>bf_size := bf_size sb - nat sz\<rparr>, pl)
     })"

partial_function (option) clear_loop :: "socket_buffer \<times> pool \<Rightarrow> (socket_buffer \<times> pool) option" where
  "clear_loop s = (if bf_head (fst s) = None then Some s else do { s \<leftarrow> return_free_node s; clear_loop s })"

definition lclearbuffer :: "socket_buffer \<times> pool \<Rightarrow> (socket_buffer \<times> pool) option" where
  "lclearbuffer s = do { (sb, pl) \<leftarrow> clear_loop s; Some (sb\<lparr>bf_size := 0\<rparr>, pl) }"

partial_function (option) readall_loop :: "socket_buffer \<times> pool \<Rightarrow> (bytes \<times> socket_buffer \<times> pool) option" where
  "readall_loop s =
     (case s of (sb, pl) \<Rightarrow>
        (case bf_head sb of
           None \<Rightarrow> Some ([], sb, pl)
         | Some current \<Rightarrow> do {
             rest \<leftarrow> node_rest pl current (bf_offset sb);
             s \<leftarrow> return_free_node (sb, pl);
             (more, s) \<leftarrow> readall_loop s;
             Some (rest @ more, s)
           }))"

definition lreadall :: "socket_buffer \<times> pool \<Rightarrow> (bytes \<times> socket_buffer \<times> pool) option" where
  "lreadall s = do { (bs, sb, pl) \<leftarrow> readall_loop s; Some (bs, sb\<lparr>bf_size := 0\<rparr>, pl) }"

partial_function (option) check_sep :: "pool \<Rightarrow> nat option \<Rightarrow> nat \<Rightarrow> bytes \<Rightarrow> bool option" where
  "check_sep pl node from sep = do {
     a \<leftarrow> node;
     rest \<leftarrow> node_rest pl a from;
     let sz = bn_sz (pl_node pl a) - from;
     if sz \<ge> length sep then Some (take (length sep) rest = sep)
     else if sz > 0 \<and> rest \<noteq> take sz sep then Some False
     else check_sep pl (bn_next (pl_node pl a)) 0 (drop sz sep)
   }"

text \<open>The loop of \<open>lreadline\<close> with \<open>k\<close> turns left: the index where the separator is found.\<close>

primrec readline_loop :: "pool \<Rightarrow> bytes \<Rightarrow> nat \<Rightarrow> nat \<Rightarrow> nat \<Rightarrow> nat \<Rightarrow> int \<Rightarrow> nat option option" where
  "readline_loop pl sep 0 i current from bs = Some None"
| "readline_loop pl sep (Suc k) i current from bs = do {
     found \<leftarrow> check_sep pl (Some current) from sep;
     if found then Some (Some i)
     else if bs - 1 = 0 then
       (case bn_next (pl_node pl current) of
          None \<Rightarrow> Some None
        | Some nx \<Rightarrow> readline_loop pl sep k (i + 1) nx 0 (int (bn_sz (pl_node pl nx))))
     else readline_loop pl sep k (i + 1) current (from + 1) (bs - 1)
   }"

datatype line_result = Nothing_yet | Found | Line bytes

definition lreadline :: "bool \<Rightarrow> bytes \<Rightarrow> socket_buffer \<times> pool \<Rightarrow> (line_result \<times> socket_buffer \<times> pool) option" where
  "lreadline check sep = (\<lambda>(sb, pl).
     case bf_head sb of
       None \<Rightarrow> Some (Nothing_yet, sb, pl)
     | Some current \<Rightarrow> do {
         found \<leftarrow> readline_loop pl sep (bf_size sb + 1 - length sep) 0 current (bf_offset sb)
                     (int (bn_sz (pl_node pl current)) - int (bf_offset sb));
         case found of
           None \<Rightarrow> Some (Nothing_yet, sb, pl)
         | Some i \<Rightarrow>
             if check then Some (Found, sb, pl)
             else do {
               (bs, sb, pl) \<leftarrow> pop_lstring (i + length sep) (length sep) (sb, pl);
               Some (Line bs, sb\<lparr>bf_size := bf_size sb - (i + length sep)\<rparr>, pl)
             }
       })"

section \<open>The bytes in a buffer\<close>

abbreviation nxt :: "pool \<Rightarrow> nat \<Rightarrow> nat option" where
  "nxt pl \<equiv> \<lambda>x. bn_next (pl_node pl x)"

definition node_ok :: "pool \<Rightarrow> nat \<Rightarrow> bool" where
  "node_ok pl x \<longleftrightarrow> (\<exists>m. bn_msg (pl_node pl x) = Some m \<and> bn_sz (pl_node pl x) = length m \<and> m \<noteq> [])"

definition block :: "pool \<Rightarrow> nat \<Rightarrow> bytes" where
  "block pl x = the (bn_msg (pl_node pl x))"

definition blocks :: "pool \<Rightarrow> nat list \<Rightarrow> bytes" where
  "blocks pl xs = concat (map (block pl) xs)"

text \<open>\<open>live pl sb xs\<close>: the nodes of the buffer are \<open>xs\<close>; \<open>text_of\<close> is what can be read from it.\<close>

definition linked :: "pool \<Rightarrow> socket_buffer \<Rightarrow> nat list \<Rightarrow> bool" where
  "linked pl sb xs \<longleftrightarrow> chain (nxt pl) (bf_head sb) xs \<and> bf_tail sb = (if xs = [] then None else Some (last xs)) \<and>
     (\<forall>x \<in> set xs. node_ok pl x)"

definition live :: "pool \<Rightarrow> socket_buffer \<Rightarrow> nat list \<Rightarrow> bool" where
  "live pl sb xs \<longleftrightarrow> linked pl sb xs \<and> (if xs = [] then bf_offset sb = 0 else bf_offset sb < length (block pl (hd xs)))"

definition text_of :: "pool \<Rightarrow> socket_buffer \<Rightarrow> nat list \<Rightarrow> bytes" where
  "text_of pl sb xs = drop (bf_offset sb) (blocks pl xs)"

lemma blocks_simps [simp]: "blocks pl [] = []" "blocks pl (x # xs) = block pl x @ blocks pl xs" "blocks pl (xs @ ys) = blocks pl xs @ blocks pl ys"
  by (simp_all add: blocks_def)

lemma node_ok_block: "node_ok pl x \<Longrightarrow> bn_msg (pl_node pl x) = Some (block pl x) \<and> bn_sz (pl_node pl x) = length (block pl x) \<and> block pl x \<noteq> []"
  by (auto simp: node_ok_def block_def)

lemma node_rest_ok: "node_ok pl x \<Longrightarrow> node_rest pl x off = Some (drop off (block pl x))"
  using node_ok_block [of pl x] by (simp add: node_rest_def)

lemma same_nodes:
  assumes "\<And>x. x \<in> set xs \<Longrightarrow> pl_node pl' x = pl_node pl x"
  shows "blocks pl' xs = blocks pl xs" "chain (nxt pl') p xs \<longleftrightarrow> chain (nxt pl) p xs"
    "(\<forall>x \<in> set xs. node_ok pl' x) \<longleftrightarrow> (\<forall>x \<in> set xs. node_ok pl x)"
proof -
  show "blocks pl' xs = blocks pl xs" using assms by (simp add: blocks_def block_def cong: map_cong)
  show "chain (nxt pl') p xs \<longleftrightarrow> chain (nxt pl) p xs" using assms by (intro chain_cong) simp
  show "(\<forall>x \<in> set xs. node_ok pl' x) \<longleftrightarrow> (\<forall>x \<in> set xs. node_ok pl x)" using assms by (simp add: node_ok_def)
qed

lemma live_same:
  assumes "\<And>x. x \<in> set xs \<Longrightarrow> pl_node pl' x = pl_node pl x" "live pl sb xs"
  shows "live pl' sb xs" "text_of pl' sb xs = text_of pl sb xs"
  using assms(2) same_nodes [OF assms(1)] assms(1) [of "hd xs"]
  by (cases "xs = []"; simp add: live_def linked_def text_of_def block_def)+

text \<open>Nodes move from the front of a buffer to the free list; everything else in the pool stays.\<close>

definition moves :: "pool \<Rightarrow> socket_buffer \<Rightarrow> nat list \<Rightarrow> nat list \<Rightarrow> pool \<Rightarrow> socket_buffer \<Rightarrow> nat list \<Rightarrow> nat list \<Rightarrow> bool" where
  "moves pl sb xs fl pl' sb' xs' fl' \<longleftrightarrow>
     (\<exists>ys. xs = ys @ xs' \<and> fl' = rev ys @ fl \<and> (\<forall>y. y \<notin> set ys \<longrightarrow> pl_node pl' y = pl_node pl y)) \<and>
     chain (nxt pl') (pl_free pl') fl' \<and> live pl' sb' xs' \<and> pl_brk pl' = pl_brk pl \<and> pl_chunks pl' = pl_chunks pl \<and> bf_size sb' = bf_size sb"

lemma return_free_node_ok:
  assumes "linked pl sb (x # xs)" "chain (nxt pl) (pl_free pl) fl" "distinct ((x # xs) @ fl)"
  shows "\<exists>sb' pl'. return_free_node (sb, pl) = Some (sb', pl') \<and> moves pl sb (x # xs) fl pl' sb' xs (x # fl) \<and> bf_offset sb' = 0 \<and>
    text_of pl' sb' xs = blocks pl xs"
proof -
  let ?sb = "sb\<lparr>bf_offset := 0, bf_head := nxt pl x, bf_tail := (if nxt pl x = None then None else bf_tail sb)\<rparr>"
  let ?pl = "(upd_node x (\<lambda>_. \<lparr>bn_msg = None, bn_sz = 0, bn_next = pl_free pl\<rparr>) pl)\<lparr>pl_free := Some x\<rparr>"
  have h: "bf_head sb = Some x" "chain (nxt pl) (nxt pl x) xs" "bf_tail sb = Some (last (x # xs))" "\<forall>y \<in> set xs. node_ok pl y"
    using assms(1) by (auto simp: linked_def)
  have e: "return_free_node (sb, pl) = Some (?sb, ?pl)" using h(1) by (simp add: return_free_node_def Let_def)
  have same: "y \<noteq> x \<Longrightarrow> pl_node ?pl y = pl_node pl y" for y by (simp add: upd_node_def)
  have xs: "\<And>y. y \<in> set xs \<Longrightarrow> pl_node ?pl y = pl_node pl y" and fl: "\<And>y. y \<in> set fl \<Longrightarrow> pl_node ?pl y = pl_node pl y"
    using same assms(3) by (metis Un_iff distinct.simps(2) set_append append_Cons)+
  have t: "xs = [] \<longleftrightarrow> nxt pl x = None" using h(2) by (cases xs) auto
  have c: "chain (nxt ?pl) (pl_free ?pl) (x # fl)"
    using assms(2) same_nodes(2) [OF fl, where p = "pl_free pl"] by (simp add: upd_node_def)
  have l: "linked ?pl ?sb xs"
    using h same_nodes(2,3) [OF xs] t unfolding linked_def by (simp add: upd_node_def)
  have lv: "live ?pl ?sb xs"
  proof (cases xs)
    case (Cons y ys)
    then have "node_ok ?pl y" using l by (simp add: linked_def)
    then show ?thesis using l Cons node_ok_block [of ?pl y] by (simp add: live_def)
  qed (use l in \<open>simp add: live_def\<close>)
  have "moves pl sb (x # xs) fl ?pl ?sb xs (x # fl)"
    unfolding moves_def using c lv same by (intro conjI exI [of _ "[x]"]) (simp_all add: upd_node_def)
  moreover have "text_of ?pl ?sb xs = blocks pl xs" using same_nodes(1) [OF xs] by (simp add: text_of_def)
  ultimately show ?thesis using e by auto
qed

lemma moves_refl: "live pl sb xs \<Longrightarrow> chain (nxt pl) (pl_free pl) fl \<Longrightarrow> moves pl sb xs fl pl sb xs fl"
  by (auto simp: moves_def)

lemma moves_trans:
  assumes "moves pl sb xs fl pl1 sb1 xs1 fl1" "moves pl1 sb1 xs1 fl1 pl2 sb2 xs2 fl2"
  shows "moves pl sb xs fl pl2 sb2 xs2 fl2"
proof -
  obtain ys zs where "xs = ys @ xs1" "fl1 = rev ys @ fl" "\<forall>y. y \<notin> set ys \<longrightarrow> pl_node pl1 y = pl_node pl y"
    and "xs1 = zs @ xs2" "fl2 = rev zs @ fl1" "\<forall>y. y \<notin> set zs \<longrightarrow> pl_node pl2 y = pl_node pl1 y"
    using assms unfolding moves_def by blast
  then show ?thesis using assms unfolding moves_def by (intro conjI exI [of _ "ys @ zs"]) auto
qed

lemma moves_distinct: "moves pl sb xs fl pl' sb' xs' fl' \<Longrightarrow> distinct (xs @ fl) \<Longrightarrow> distinct (xs' @ fl')"
  by (auto simp: moves_def)


text \<open>Taking bytes: part of the first block, or the block and more.\<close>

lemma take_part:
  assumes "live pl sb (x # xs)" "chain (nxt pl) (pl_free pl) fl" "n < length (block pl x) - bf_offset sb"
  shows "moves pl sb (x # xs) fl pl (sb\<lparr>bf_offset := bf_offset sb + n\<rparr>) (x # xs) fl"
    "text_of pl (sb\<lparr>bf_offset := bf_offset sb + n\<rparr>) (x # xs) = drop n (text_of pl sb (x # xs))"
  using assms by (auto simp: moves_def live_def linked_def text_of_def add.commute)

lemma linked_offset [simp]: "linked pl (sb\<lparr>bf_offset := n\<rparr>) xs = linked pl sb xs"
  by (simp add: linked_def)

lemma moves_offset: "moves pl (sb\<lparr>bf_offset := n\<rparr>) xs fl pl' sb' xs' fl' = moves pl sb xs fl pl' sb' xs' fl'"
  by (simp add: moves_def)

lemma text_first: "live pl sb (x # xs) \<Longrightarrow> text_of pl sb (x # xs) = drop (bf_offset sb) (block pl x) @ blocks pl xs"
  by (simp add: live_def text_of_def)

lemma take_block:
  assumes "live pl sb (x # xs)" "chain (nxt pl) (pl_free pl) fl" "distinct ((x # xs) @ fl)" "n = length (block pl x) - bf_offset sb"
  shows "\<exists>sb' pl'. return_free_node (sb\<lparr>bf_offset := k\<rparr>, pl) = Some (sb', pl') \<and> moves pl sb (x # xs) fl pl' sb' xs (x # fl) \<and>
    text_of pl' sb' xs = drop n (text_of pl sb (x # xs))"
proof -
  have l: "linked pl (sb\<lparr>bf_offset := k\<rparr>) (x # xs)" using assms(1) by (simp add: live_def)
  obtain sb' pl' where "return_free_node (sb\<lparr>bf_offset := k\<rparr>, pl) = Some (sb', pl')"
    "moves pl (sb\<lparr>bf_offset := k\<rparr>) (x # xs) fl pl' sb' xs (x # fl)" "text_of pl' sb' xs = blocks pl xs"
    using return_free_node_ok [OF l assms(2,3)] by blast
  then show ?thesis using assms(4) text_first [OF assms(1)] by (auto simp: moves_offset)
qed

lemma live_first: "live pl sb (x # xs) \<Longrightarrow> bf_head sb = Some x \<and> node_rest pl x k = Some (drop k (block pl x)) \<and>
    bn_sz (pl_node pl x) = length (block pl x) \<and> bf_offset sb < length (block pl x)"
  using node_rest_ok [of pl x k] node_ok_block [of pl x] by (auto simp: live_def linked_def)

lemma live_text_Nil: "live pl sb [] \<Longrightarrow> text_of pl sb [] = []"
  by (simp add: text_of_def)

lemma pop_loop_ok:
  assumes "live pl sb xs" "chain (nxt pl) (pl_free pl) fl" "distinct (xs @ fl)" "0 < sz" "sz \<le> length (text_of pl sb xs)"
  shows "\<exists>sb' pl' xs' fl'. pop_loop sz skip (sb, pl) = Some (take (sz - skip) (text_of pl sb xs), sb', pl') \<and>
    moves pl sb xs fl pl' sb' xs' fl' \<and> text_of pl' sb' xs' = drop sz (text_of pl sb xs)"
  using assms
proof (induction xs arbitrary: pl sb fl sz)
  case Nil
  then show ?case using live_text_Nil by simp
next
  case (Cons x xs)
  let ?rest = "drop (bf_offset sb) (block pl x)" let ?n = "length (block pl x) - bf_offset sb"
  note f = live_first [OF Cons.prems(1)] and tx = text_first [OF Cons.prems(1)]
  consider (part) "sz < ?n" | (all) "sz = ?n" | (more) "?n < sz" by linarith
  then show ?case
  proof cases
    case part
    have "pop_loop sz skip (sb, pl) = Some (take (sz - skip) ?rest, sb\<lparr>bf_offset := bf_offset sb + sz\<rparr>, pl)"
      using f part by (subst pop_loop.simps) (simp add: Let_def)
    then show ?thesis using take_part [OF Cons.prems(1,2) part] part tx by auto
  next
    case all
    obtain sb' pl' where r: "return_free_node (sb\<lparr>bf_offset := bf_offset sb + sz\<rparr>, pl) = Some (sb', pl')"
      "moves pl sb (x # xs) fl pl' sb' xs (x # fl)" "text_of pl' sb' xs = drop sz (text_of pl sb (x # xs))"
      using take_block [OF Cons.prems(1-3) all] by blast
    then have "pop_loop sz skip (sb, pl) = Some (take (sz - skip) ?rest, sb', pl')"
      using f all by (subst pop_loop.simps) (simp add: Let_def)
    then show ?thesis using r(2,3) all tx by auto
  next
    case more
    obtain sb1 pl1 where r: "return_free_node (sb\<lparr>bf_offset := bf_offset sb\<rparr>, pl) = Some (sb1, pl1)"
      "moves pl sb (x # xs) fl pl1 sb1 xs (x # fl)" "text_of pl1 sb1 xs = drop ?n (text_of pl sb (x # xs))"
      using take_block [OF Cons.prems(1-3) refl] by blast
    have "live pl1 sb1 xs" "chain (nxt pl1) (pl_free pl1) (x # fl)" using r(2) by (auto simp: moves_def)
    moreover have "distinct (xs @ x # fl)" using moves_distinct [OF r(2) Cons.prems(3)] .
    moreover have "0 < sz - ?n" "sz - ?n \<le> length (text_of pl1 sb1 xs)" using more Cons.prems(5) r(3) by simp_all
    ultimately obtain sb' pl' xs' fl' where q: "pop_loop (sz - ?n) skip (sb1, pl1) = Some (take (sz - ?n - skip) (text_of pl1 sb1 xs), sb', pl')"
      "moves pl1 sb1 xs (x # fl) pl' sb' xs' fl'" "text_of pl' sb' xs' = drop (sz - ?n) (text_of pl1 sb1 xs)"
      using Cons.IH by blast
    have "pop_loop sz skip (sb, pl) = Some (take (sz - skip) ?rest @ take (sz - ?n - skip) (text_of pl1 sb1 xs), sb', pl')"
      using f more r(1) q(1) by (subst pop_loop.simps) (simp add: Let_def)
    moreover have "take (sz - skip) ?rest @ take (sz - ?n - skip) (text_of pl1 sb1 xs) = take (sz - skip) (text_of pl sb (x # xs))"
      using r(3) tx by (simp add: diff_commute add.commute)
    ultimately show ?thesis using moves_trans [OF r(2) q(2)] q(3) r(3) more by auto
  qed
qed

lemma pop_lstring_ok:
  assumes "live pl sb xs" "chain (nxt pl) (pl_free pl) fl" "distinct (xs @ fl)" "0 < sz" "sz \<le> length (text_of pl sb xs)"
  shows "\<exists>sb' pl' xs' fl'. pop_lstring sz skip (sb, pl) = Some (take (sz - skip) (text_of pl sb xs), sb', pl') \<and>
    moves pl sb xs fl pl' sb' xs' fl' \<and> text_of pl' sb' xs' = drop sz (text_of pl sb xs)"
proof (cases xs)
  case Nil
  then show ?thesis using assms live_text_Nil by simp
next
  case (Cons x ys)
  note f = live_first [OF assms(1) [unfolded Cons]]
  have "pop_lstring sz skip (sb, pl) = pop_loop sz skip (sb, pl)"
    using f by (cases "sz \<le> length (block pl x) - bf_offset sb")
      (auto simp: pop_lstring_def pop_loop.simps [of sz skip "(sb, pl)"] Let_def return_free_node_def)
  then show ?thesis using pop_loop_ok [OF assms] by simp
qed


lemma readall_loop_ok:
  assumes "live pl sb xs" "chain (nxt pl) (pl_free pl) fl" "distinct (xs @ fl)"
  shows "\<exists>sb' pl' fl'. readall_loop (sb, pl) = Some (text_of pl sb xs, sb', pl') \<and> moves pl sb xs fl pl' sb' [] fl'"
  using assms
proof (induction xs arbitrary: pl sb fl)
  case Nil
  then have "readall_loop (sb, pl) = Some ([], sb, pl)" by (subst readall_loop.simps) (simp add: live_def linked_def)
  then show ?case using moves_refl [OF Nil.prems(1,2)] live_text_Nil [OF Nil.prems(1)] by auto
next
  case (Cons x xs)
  note f = live_first [OF Cons.prems(1)]
  obtain sb1 pl1 where r: "return_free_node (sb, pl) = Some (sb1, pl1)" "moves pl sb (x # xs) fl pl1 sb1 xs (x # fl)"
    "text_of pl1 sb1 xs = drop (length (block pl x) - bf_offset sb) (text_of pl sb (x # xs))"
    using take_block [OF Cons.prems refl, of "bf_offset sb"] by auto
  have "live pl1 sb1 xs" "chain (nxt pl1) (pl_free pl1) (x # fl)" using r(2) by (auto simp: moves_def)
  then obtain sb' pl' fl' where q: "readall_loop (sb1, pl1) = Some (text_of pl1 sb1 xs, sb', pl')" "moves pl1 sb1 xs (x # fl) pl' sb' [] fl'"
    using Cons.IH moves_distinct [OF r(2) Cons.prems(3)] by blast
  have "readall_loop (sb, pl) = Some (drop (bf_offset sb) (block pl x) @ text_of pl1 sb1 xs, sb', pl')"
    using f r(1) q(1) by (subst readall_loop.simps) simp
  moreover have "drop (bf_offset sb) (block pl x) @ text_of pl1 sb1 xs = text_of pl sb (x # xs)"
    using r(3) text_first [OF Cons.prems(1)] by simp
  ultimately show ?case using moves_trans [OF r(2) q(2)] by auto
qed

lemma clear_loop_ok:
  assumes "live pl sb xs" "chain (nxt pl) (pl_free pl) fl" "distinct (xs @ fl)"
  shows "\<exists>sb' pl' fl'. clear_loop (sb, pl) = Some (sb', pl') \<and> moves pl sb xs fl pl' sb' [] fl'"
  using assms
proof (induction xs arbitrary: pl sb fl)
  case Nil
  then have "clear_loop (sb, pl) = Some (sb, pl)" by (subst clear_loop.simps) (simp add: live_def linked_def)
  then show ?case using moves_refl [OF Nil.prems(1,2)] by auto
next
  case (Cons x xs)
  note f = live_first [OF Cons.prems(1)]
  obtain sb1 pl1 where r: "return_free_node (sb, pl) = Some (sb1, pl1)" "moves pl sb (x # xs) fl pl1 sb1 xs (x # fl)"
    using take_block [OF Cons.prems refl, of "bf_offset sb"] by auto
  have "live pl1 sb1 xs" "chain (nxt pl1) (pl_free pl1) (x # fl)" using r(2) by (auto simp: moves_def)
  then obtain sb' pl' fl' where q: "clear_loop (sb1, pl1) = Some (sb', pl')" "moves pl1 sb1 xs (x # fl) pl' sb' [] fl'"
    using Cons.IH moves_distinct [OF r(2) Cons.prems(3)] by blast
  have "clear_loop (sb, pl) = Some (sb', pl')" using f r(1) q(1) by (subst clear_loop.simps) simp
  then show ?case using moves_trans [OF r(2) q(2)] by auto
qed

section \<open>Separators\<close>

text \<open>The reference: the first index where the separator stands in the text.\<close>

definition first_sep :: "bytes \<Rightarrow> bytes \<Rightarrow> nat option" where
  "first_sep sep t = find (\<lambda>i. take (length sep) (drop i t) = sep) [0..<length t + 1 - length sep]"

lemma check_sep_ok:
  assumes "chain (nxt pl) p xs" "\<forall>x \<in> set xs. node_ok pl x" "length sep \<le> length (drop k (blocks pl xs))" "sep \<noteq> []"
    "xs \<noteq> [] \<Longrightarrow> k \<le> length (block pl (hd xs))"
  shows "check_sep pl p k sep = Some (take (length sep) (drop k (blocks pl xs)) = sep)"
  using assms
proof (induction xs arbitrary: p k sep)
  case (Cons x xs)
  let ?b = "drop k (block pl x)"
  have x: "p = Some x" "node_ok pl x" "chain (nxt pl) (nxt pl x) xs" and k: "k \<le> length (block pl x)" using Cons.prems by auto
  note f = node_rest_ok [OF x(2), of k] and g = node_ok_block [OF x(2)]
  show ?case
  proof (cases "length sep \<le> length ?b")
    case True
    then have "check_sep pl p k sep = Some (take (length sep) ?b = sep)"
      using x(1) f g by (subst check_sep.simps) (simp add: Let_def)
    then show ?thesis using True k by simp
  next
    case False
    then have split: "take (length sep) (drop k (blocks pl (x # xs))) = sep \<longleftrightarrow>
        ?b = take (length ?b) sep \<and> take (length sep - length ?b) (blocks pl xs) = drop (length ?b) sep"
      using k append_eq_conv_conj [of ?b "take (length sep - length ?b) (blocks pl xs)" sep] by auto
    have len: "length (drop (length ?b) sep) \<le> length (drop 0 (blocks pl xs))" "drop (length ?b) sep \<noteq> []"
      using Cons.prems(3) False k by simp_all
    have rec: "check_sep pl (nxt pl x) 0 (drop (length ?b) sep)
        = Some (take (length (drop (length ?b) sep)) (drop 0 (blocks pl xs)) = drop (length ?b) sep)"
      by (rule Cons.IH [OF x(3) _ len]) (use Cons.prems(2) in simp_all)
    have "check_sep pl p k sep = (if ?b \<noteq> [] \<and> ?b \<noteq> take (length ?b) sep then Some False
        else check_sep pl (nxt pl x) 0 (drop (length ?b) sep))"
      using x(1) f g False by (subst check_sep.simps) (simp add: Let_def)
    then show ?thesis using rec split by auto
  qed
qed simp

lemma readline_loop_ok:
  assumes "chain (nxt pl) (Some c) xs" "\<forall>x \<in> set xs. node_ok pl x" "from < length (block pl c)"
    "drop from (blocks pl xs) = drop i t" "i \<le> length t" "k = length t + 1 - length sep - i" "sep \<noteq> []"
  shows "readline_loop pl sep k i c from (int (length (block pl c)) - int from) =
    Some (find (\<lambda>j. take (length sep) (drop j t) = sep) [i..<i + k])"
  using assms
proof (induction k arbitrary: xs c "from" i)
  case (Suc k)
  obtain ys where xs: "xs = c # ys" "chain (nxt pl) (nxt pl c) ys" using Suc.prems(1) by (auto simp: chain_Some)
  have len: "length sep \<le> length (drop from (blocks pl xs))" using Suc.prems(4,6) by simp
  have found: "check_sep pl (Some c) from sep = Some (take (length sep) (drop i t) = sep)"
    using check_sep_ok [OF Suc.prems(1,2) len Suc.prems(7)] Suc.prems(3) xs(1) unfolding Suc.prems(4) by simp
  have up: "[i..<i + Suc k] = i # [Suc i..<Suc i + k]" by (simp add: upt_conv_Cons del: upt_Suc)
  have i: "i < length t" "k = length t + 1 - length sep - (i + 1)" using Suc.prems(6,7) by (cases sep; simp)+
  have step: "drop (Suc from) (blocks pl xs) = drop (i + 1) t"
    using Suc.prems(4) by (metis Suc_eq_plus1 drop_drop plus_1_eq_Suc add.commute)
  show ?case
  proof (cases "take (length sep) (drop i t) = sep")
    case False
    consider (same) "Suc from < length (block pl c)" | (last) "Suc from = length (block pl c)" "ys = []"
      | (next') y zs where "Suc from = length (block pl c)" "ys = y # zs"
      using Suc.prems(3) by (metis Suc_lessI list.exhaust)
    then show ?thesis
    proof cases
      case same
      then show ?thesis
        using Suc.IH [OF Suc.prems(1,2) same step _ i(2) Suc.prems(7)] i(1) found False up
        by (simp del: upt_Suc add: algebra_simps)
    next
      case last
      then have "i + 1 = length t" using step xs(1) i(1) by simp
      then have "k = 0" using i(2) Suc.prems(7) by (cases sep) auto
      then show ?thesis using last found False up xs by (simp del: upt_Suc)
    next
      case next'
      have y: "nxt pl c = Some y" "node_ok pl y" "chain (nxt pl) (Some y) ys" "\<forall>x \<in> set ys. node_ok pl x"
        using next' xs Suc.prems(2) by auto
      note g = node_ok_block [OF y(2)]
      have "drop 0 (blocks pl ys) = drop (i + 1) t" using step next' xs(1) by simp
      then have "readline_loop pl sep k (i + 1) y 0 (int (length (block pl y)) - int 0) =
          Some (find (\<lambda>j. take (length sep) (drop j t) = sep) [i + 1..<i + 1 + k])"
        using i g by (intro Suc.IH [OF y(3,4)] Suc.prems(7)) simp_all
      then show ?thesis using next' found False up y(1) g by (simp del: upt_Suc)
    qed
  qed (use found up in \<open>simp del: upt_Suc\<close>)
qed simp


section \<open>Buffers over one pool\<close>

text \<open>
  \<open>pool_ok pl B N fl\<close>: every buffer \<open>B k\<close> holds the nodes \<open>N k\<close>, no node is in two buffers or both in a buffer and free,
  and the free list is \<open>fl\<close>.
\<close>

definition pool_ok :: "pool \<Rightarrow> ('k \<Rightarrow> socket_buffer) \<Rightarrow> ('k \<Rightarrow> nat list) \<Rightarrow> nat list \<Rightarrow> bool" where
  "pool_ok pl B N fl \<longleftrightarrow>
     (\<forall>k. live pl (B k) (N k) \<and> bf_size (B k) = length (text_of pl (B k) (N k)) \<and> distinct (N k @ fl)) \<and>
     (\<forall>k j. j \<noteq> k \<longrightarrow> set (N j) \<inter> set (N k) = {}) \<and>
     chain (nxt pl) (pl_free pl) fl \<and> (\<forall>x \<in> set fl \<union> (\<Union>k. set (N k)). x < pl_brk pl)"

definition holds :: "pool \<Rightarrow> ('k \<Rightarrow> socket_buffer) \<Rightarrow> ('k \<Rightarrow> bytes) \<Rightarrow> bool" where
  "holds pl B T \<longleftrightarrow> (\<exists>N fl. pool_ok pl B N fl \<and> T = (\<lambda>k. text_of pl (B k) (N k)))"

lemma live_resize [simp]: "live pl (sb\<lparr>bf_size := n\<rparr>) xs = live pl sb xs" "text_of pl (sb\<lparr>bf_size := n\<rparr>) xs = text_of pl sb xs"
  by (simp_all add: live_def linked_def text_of_def)

lemma pool_ok_moves:
  assumes ok: "pool_ok pl B N fl" and mv: "moves pl (B k) (N k) fl pl' sb' xs' fl'"
  shows "holds pl' (B(k := sb'\<lparr>bf_size := length (text_of pl' sb' xs')\<rparr>)) ((\<lambda>j. text_of pl (B j) (N j))(k := text_of pl' sb' xs'))"
proof -
  let ?B = "B(k := sb'\<lparr>bf_size := length (text_of pl' sb' xs')\<rparr>)" let ?N = "N(k := xs')"
  obtain ys where ys: "N k = ys @ xs'" "fl' = rev ys @ fl" "\<And>y. y \<notin> set ys \<Longrightarrow> pl_node pl' y = pl_node pl y"
    using mv by (auto simp: moves_def)
  have m: "chain (nxt pl') (pl_free pl') fl'" "live pl' sb' xs'" "pl_brk pl' = pl_brk pl" using mv by (simp_all add: moves_def)
  have dj: "set (N j) \<inter> set (N k) = {}" if "j \<noteq> k" for j using ok that by (simp add: pool_ok_def)
  have same: "live pl' (B j) (N j) \<and> text_of pl' (B j) (N j) = text_of pl (B j) (N j)" if "j \<noteq> k" for j
  proof -
    have l: "live pl (B j) (N j)" using ok by (simp add: pool_ok_def)
    have n: "\<And>x. x \<in> set (N j) \<Longrightarrow> pl_node pl' x = pl_node pl x" using dj [OF that] ys(1,3) by auto
    show ?thesis using live_same [OF n l] by simp
  qed
  have lv: "live pl' (?B j) (?N j) \<and> bf_size (?B j) = length (text_of pl' (?B j) (?N j))" for j
    using m(2) same [of j] ok by (simp add: pool_ok_def)
  have d: "distinct (N j @ fl)" for j using ok by (simp add: pool_ok_def)
  have ds: "distinct (?N j @ fl')" for j
  proof (cases "j = k")
    case True
    then show ?thesis using d [of k] ys(1,2) by auto
  next
    case False
    then show ?thesis using d [of j] d [of k] dj [OF False] ys(1,2) by auto
  qed
  have sub: "set (?N j) \<subseteq> set (N j)" for j using ys(1) by auto
  have di: "set (?N i) \<inter> set (?N j) = {}" if "i \<noteq> j" for i j
  proof -
    have "set (N i) \<inter> set (N j) = {}" using ok that by (simp add: pool_ok_def)
    then show ?thesis using sub [of i] sub [of j] by blast
  qed
  have lt: "x < pl_brk pl'" if "x \<in> set fl' \<union> (\<Union>j. set (?N j))" for x
  proof -
    have k: "set fl' \<subseteq> set (N k) \<union> set fl" using ys(1,2) by auto
    have "x \<in> set fl' \<or> (\<exists>j. x \<in> set (?N j))" using that by blast
    then have "x \<in> set fl \<or> (\<exists>j. x \<in> set (N j))" using k sub by blast
    then show ?thesis using ok unfolding m(3) pool_ok_def by blast
  qed
  have "pool_ok pl' ?B ?N fl'" unfolding pool_ok_def using lv ds di m(1) lt by blast
  moreover have "(\<lambda>j. text_of pl (B j) (N j))(k := text_of pl' sb' xs') = (\<lambda>j. text_of pl' (?B j) (?N j))"
    using same by (auto simp: fun_eq_iff)
  ultimately show ?thesis unfolding holds_def by blast
qed

lemma live_free [simp]:
  "block (pl\<lparr>pl_free := v\<rparr>) = block pl" "node_ok (pl\<lparr>pl_free := v\<rparr>) = node_ok pl" "live (pl\<lparr>pl_free := v\<rparr>) sb xs = live pl sb xs"
  "text_of (pl\<lparr>pl_free := v\<rparr>) sb xs = text_of pl sb xs"
proof -
  show b: "block (pl\<lparr>pl_free := v\<rparr>) = block pl" and n: "node_ok (pl\<lparr>pl_free := v\<rparr>) = node_ok pl"
    by (simp_all add: fun_eq_iff node_ok_def block_def)
  show "live (pl\<lparr>pl_free := v\<rparr>) sb xs = live pl sb xs" "text_of (pl\<lparr>pl_free := v\<rparr>) sb xs = text_of pl sb xs"
    by (simp_all add: live_def linked_def text_of_def blocks_def b n)
qed

text \<open>A node for a block: the first free one, or the first of a new chunk.\<close>

lemma get_node_ok:
  assumes "pool_ok pl B N fl"
  shows "\<exists>a pl' fl'. get_node pl = (a, pl') \<and> pool_ok (pl'\<lparr>pl_free := Some a\<rparr>) B N (a # fl') \<and>
    (\<forall>k. text_of pl' (B k) (N k) = text_of pl (B k) (N k))"
proof (cases fl)
  case (Cons a fl')
  then have f: "pl_free pl = Some a" using assms by (simp add: pool_ok_def)
  then have e: "pl\<lparr>pl_free := Some a\<rparr> = pl" by (cases pl) simp
  show ?thesis using assms Cons f by (auto simp: get_node_def e)
next
  case Nil
  define sz where "sz = chunk_size (if rawlen pl = 0 then 1 else rawlen pl)"
  define pl' where "pl' = (snd (lnewpool sz pl))\<lparr>pl_chunks := pl_chunks pl @ [sz]\<rparr>"
  let ?a = "pl_brk pl" let ?fl = "[?a..<?a + sz]" let ?p = "pl'\<lparr>pl_free := Some ?a\<rparr>"
  have sz: "0 < sz" by (simp add: sz_def chunk_size_def)
  have nf: "pl_free pl = None" using assms Nil by (simp add: pool_ok_def)
  have g: "get_node pl = (?a, pl')" by (simp add: get_node_def nf pl'_def sz_def lnewpool_def Let_def)
  have node: "pl_node pl' x = pl_node pl x" if "x < ?a" for x using that by (simp add: pl'_def lnewpool_def Let_def)
  have chain_from: "chain (nxt pl') (Some (?a + i)) [?a + i..<?a + sz]" if "i < sz" for i
    using that
  proof (induction "sz - i" arbitrary: i)
    case (Suc n)
    have nx: "nxt pl' (?a + i) = (if Suc i = sz then None else Some (?a + Suc i))"
      using Suc.prems by (auto simp: pl'_def lnewpool_def Let_def)
    have up: "[?a + i..<?a + sz] = (?a + i) # [?a + Suc i..<?a + sz]" using Suc.prems by (simp add: upt_conv_Cons)
    show ?case
    proof (cases "Suc i = sz")
      case False
      then show ?thesis using Suc.hyps(1) [of "Suc i"] Suc.hyps(2) Suc.prems unfolding up by (simp add: nx)
    qed (simp add: up nx)
  qed simp
  have old: "x < ?a" if "x \<in> set (N k)" for x k using assms that by (auto simp: pool_ok_def)
  have same: "live ?p (B k) (N k) \<and> text_of ?p (B k) (N k) = text_of pl (B k) (N k)" for k
  proof -
    have l: "live pl (B k) (N k)" using assms by (simp add: pool_ok_def)
    show ?thesis using live_same [OF _ l, of ?p] node old by simp
  qed
  have ds: "distinct (N k @ ?fl)" for k using assms old [of _ k] by (fastforce simp: pool_ok_def)
  have brk: "pl_brk ?p = ?a + sz" by (simp add: pl'_def lnewpool_def Let_def)
  have lt: "\<forall>x \<in> set ?fl \<union> (\<Union>k. set (N k)). x < pl_brk ?p" using old unfolding brk by (auto intro: trans_less_add1)
  have ch: "chain (nxt ?p) (pl_free ?p) ?fl" using chain_from [of 0] sz by simp
  have "pool_ok ?p B N ?fl"
    unfolding pool_ok_def using same ds ch lt assms by (simp add: pool_ok_def)
  moreover have "?fl = ?a # [Suc ?a..<?a + sz]" using sz by (simp add: upt_conv_Cons)
  moreover have "text_of pl' (B k) (N k) = text_of pl (B k) (N k)" for k using same [of k] by (simp add: text_of_def blocks_def block_def)
  ultimately show ?thesis using g by metis
qed


text \<open>Linking a node with a block behind the nodes of a buffer.\<close>

lemma append_node:
  assumes lv: "live p sb xs" and xs: "distinct xs" "a \<notin> set xs" and msg: "msg \<noteq> []"
    and p1: "p1 = upd_node a (\<lambda>_. \<lparr>bn_msg = Some msg, bn_sz = length msg, bn_next = None\<rparr>) p"
    and p2: "p2 = (if xs = [] then p1 else upd_node (last xs) (\<lambda>n. n\<lparr>bn_next := Some a\<rparr>) p1)"
    and sb: "sb' = sb\<lparr>bf_head := (if xs = [] then Some a else bf_head sb), bf_tail := Some a, bf_size := n\<rparr>"
  shows "live p2 sb' (xs @ [a])" "text_of p2 sb' (xs @ [a]) = text_of p sb xs @ msg"
proof -
  have n1: "pl_node p1 a = \<lparr>bn_msg = Some msg, bn_sz = length msg, bn_next = None\<rparr>" by (simp add: p1 upd_node_def)
  have "xs \<noteq> [] \<Longrightarrow> a \<noteq> last xs" using xs(2) last_in_set by metis
  then have n2: "pl_node p2 a = pl_node p1 a" by (simp add: p2 upd_node_def)
  have new: "nxt p2 a = None" "node_ok p2 a" "block p2 a = msg"
    using msg by (simp_all add: n2 n1 node_ok_def block_def)
  have old: "block p2 x = block p x \<and> node_ok p2 x = node_ok p x" if "x \<in> set xs" for x
  proof -
    have "x \<noteq> a" using that xs(2) by metis
    then have "bn_msg (pl_node p2 x) = bn_msg (pl_node p x) \<and> bn_sz (pl_node p2 x) = bn_sz (pl_node p x)"
      by (simp add: p2 p1 upd_node_def)
    then show ?thesis by (simp add: block_def node_ok_def)
  qed
  have bl: "blocks p2 xs = blocks p xs" using old by (simp add: blocks_def cong: map_cong)
  have ch: "chain (nxt p2) (bf_head sb') (xs @ [a])"
  proof (cases xs rule: rev_cases)
    case Nil
    then show ?thesis using new(1) by (simp add: sb)
  next
    case (snoc zs z)
    have "chain (nxt p) (bf_head sb) xs" using lv by (simp add: live_def linked_def)
    moreover have "chain (nxt p1) (bf_head sb) xs = chain (nxt p) (bf_head sb) xs"
      by (rule chain_cong) (use xs(2) in \<open>auto simp: p1 upd_node_def\<close>)
    ultimately have "chain (nxt p1) (bf_head sb) xs" by simp
    moreover have "nxt p1 a = None" by (simp add: p1 upd_node_def)
    moreover have "nxt p2 = (nxt p1)(z := Some a)" using snoc by (auto simp: p2 upd_node_def fun_eq_iff)
    ultimately show ?thesis using chain_snoc [of "nxt p1" "bf_head sb" zs z a] snoc xs by (simp add: sb)
  qed
  have lk: "linked p2 sb' (xs @ [a])"
    using ch new(2) old lv by (simp add: linked_def live_def) (simp add: sb)
  show "live p2 sb' (xs @ [a])"
    using lk new(3) msg old [of "hd xs"] lv by (cases xs) (simp_all add: live_def sb)
  show "text_of p2 sb' (xs @ [a]) = text_of p sb xs @ msg"
  proof -
    have "bf_offset sb \<le> length (blocks p xs)" using lv by (cases xs) (simp_all add: live_def)
    moreover have "blocks p2 (xs @ [a]) = blocks p xs @ msg" using bl new(3) by simp
    ultimately show ?thesis unfolding text_of_def by (simp add: sb)
  qed
qed

text \<open>Pushing a block appends it to the text of its buffer.\<close>

lemma lpushbuffer_ok:
  assumes "holds pl B T" "msg \<noteq> []"
  shows "\<exists>sb' pl'. lpushbuffer msg (B k, pl) = Some (length (T k @ msg), sb', pl') \<and> holds pl' (B(k := sb')) (T(k := T k @ msg))"
proof -
  obtain N fl where ok: "pool_ok pl B N fl" and T: "T = (\<lambda>k. text_of pl (B k) (N k))" using assms(1) unfolding holds_def by blast
  obtain a p fl' where g: "get_node pl = (a, p)" and ok': "pool_ok (p\<lparr>pl_free := Some a\<rparr>) B N (a # fl')"
    and tx: "\<And>k. text_of p (B k) (N k) = T k"
    using get_node_ok [OF ok] T by blast
  define p0 where "p0 = p\<lparr>pl_free := nxt p a\<rparr>"
  define p1 where "p1 = upd_node a (\<lambda>_. \<lparr>bn_msg = Some msg, bn_sz = length msg, bn_next = None\<rparr>) p0"
  define p2 where "p2 = (if N k = [] then p1 else upd_node (last (N k)) (\<lambda>n. n\<lparr>bn_next := Some a\<rparr>) p1)"
  define sb' where "sb' = (B k)\<lparr>bf_head := (if N k = [] then Some a else bf_head (B k)), bf_tail := Some a, bf_size := length (T k @ msg)\<rparr>"
  let ?B = "B(k := sb')" let ?N = "N(k := N k @ [a])"
  have i: "live p0 (B j) (N j)" "text_of p0 (B j) (N j) = T j" "bf_size (B j) = length (T j)" "distinct (N j)" "a \<notin> set (N j)"
      "set fl' \<inter> set (N j) = {}" for j
    using ok' tx [of j] by (auto simp: pool_ok_def p0_def)
  have ii: "distinct (a # fl')" "chain (nxt p0) (nxt p0 a) fl'" "\<forall>x \<in> set (a # fl') \<union> (\<Union>k. set (N k)). x < pl_brk p0"
    using ok' by (auto simp: pool_ok_def p0_def)
  have dj: "set (N i) \<inter> set (N j) = {}" if "i \<noteq> j" for i j using ok' that by (auto simp: pool_ok_def)
  note new = append_node [OF i(1,4,5) assms(2) p1_def p2_def sb'_def]
  have run: "lpushbuffer msg (B k, pl) = Some (length (T k @ msg), sb', p2)"
  proof -
    have "bf_head (B k) = None \<longleftrightarrow> N k = []" "bf_tail (B k) = (if N k = [] then None else Some (last (N k)))"
      using i(1) [of k] by (cases "N k"; simp add: live_def linked_def)+
    then show ?thesis using i(3) [of k] by (auto simp: lpushbuffer_def g p0_def p1_def p2_def sb'_def Let_def)
  qed
  have other: "pl_node p2 x = pl_node p0 x" if "x \<noteq> a" "x \<notin> set (N k)" for x
    using that by (auto simp: p2_def p1_def upd_node_def)
  have rest: "live p2 (B j) (N j) \<and> text_of p2 (B j) (N j) = T j" if "j \<noteq> k" for j
  proof -
    have n: "pl_node p2 x = pl_node p0 x" if "x \<in> set (N j)" for x
    proof (rule other)
      show "x \<noteq> a" using that i(5) [of j] by metis
      show "x \<notin> set (N k)" using that dj [OF \<open>j \<noteq> k\<close>] by (metis disjoint_iff)
    qed
    show ?thesis using live_same [OF n i(1)] i(2) by simp
  qed
  have free: "chain (nxt p2) (pl_free p2) fl'"
  proof -
    have n: "pl_node p2 x = pl_node p0 x" if "x \<in> set fl'" for x
    proof (rule other)
      show "x \<noteq> a" using that ii(1) by auto
      show "x \<notin> set (N k)" using that i(6) [of k] by (metis disjoint_iff)
    qed
    have "pl_free p2 = nxt p0 a" by (simp add: p2_def p1_def upd_node_def p0_def)
    then show ?thesis using same_nodes(2) [OF n] ii(2) by simp
  qed
  have t: "text_of p2 (?B j) (?N j) = (T(k := T k @ msg)) j" for j by (cases "j = k") (simp_all add: new(2) i(2) rest)
  have lv: "live p2 (?B j) (?N j) \<and> bf_size (?B j) = length (text_of p2 (?B j) (?N j)) \<and> distinct (?N j @ fl')" for j
    using new(1) rest i(3-6) [of j] ii(1) unfolding t by (auto simp: sb'_def)
  have "pool_ok p2 ?B ?N fl'"
    unfolding pool_ok_def
  proof (intro conjI allI)
    show "j \<noteq> i \<longrightarrow> set (?N j) \<inter> set (?N i) = {}" for i j using dj [of j i] i(5) [of i] i(5) [of j] by auto
    have "pl_brk p2 = pl_brk p0" by (simp add: p2_def p1_def upd_node_def)
    then show "\<forall>x \<in> set fl' \<union> (\<Union>j. set (?N j)). x < pl_brk p2" using ii(3) by (simp add: all_conj_distrib ball_Un)
  qed (use lv free in blast)+
  moreover have "T(k := T k @ msg) = (\<lambda>j. text_of p2 (?B j) (?N j))" by (rule ext) (rule t [symmetric])
  ultimately have "holds p2 ?B (T(k := T k @ msg))" unfolding holds_def by blast
  then show ?thesis using run by blast
qed


text \<open>What the other operations do to the text of their buffer.\<close>

lemma pool_okD:
  assumes "pool_ok pl B N fl" "T = (\<lambda>k. text_of pl (B k) (N k))"
  shows "live pl (B k) (N k)" "text_of pl (B k) (N k) = T k" "bf_size (B k) = length (T k)"
    "chain (nxt pl) (pl_free pl) fl" "distinct (N k @ fl)"
  using assms unfolding pool_ok_def by simp_all

lemma holds_size: "holds pl B T \<Longrightarrow> bf_size (B k) = length (T k)"
  unfolding holds_def by (elim exE conjE) (rule pool_okD(3))

lemma holds_moves:
  assumes "pool_ok pl B N fl" "T = (\<lambda>k. text_of pl (B k) (N k))" "moves pl (B k) (N k) fl pl' sb' xs' fl'" "text_of pl' sb' xs' = t"
    "n = length t"
  shows "holds pl' (B(k := sb'\<lparr>bf_size := n\<rparr>)) (T(k := t))"
  using pool_ok_moves [OF assms(1,3)] assms(2,4,5) by simp

lemma pop_lstring_holds:
  assumes "holds pl B T" "0 < sz" "sz \<le> length (T k)"
  shows "\<exists>sb' pl'. pop_lstring sz skip (B k, pl) = Some (take (sz - skip) (T k), sb', pl') \<and>
    holds pl' (B(k := sb'\<lparr>bf_size := length (T k) - sz\<rparr>)) (T(k := drop sz (T k))) \<and> bf_size sb' = length (T k)"
proof -
  obtain N fl where ok: "pool_ok pl B N fl" "T = (\<lambda>k. text_of pl (B k) (N k))" using assms(1) unfolding holds_def by blast
  note h = ok(1) pool_okD [OF ok] ok(2)
  obtain sb' pl' xs' fl' where p: "pop_lstring sz skip (B k, pl) = Some (take (sz - skip) (T k), sb', pl')"
    and mv: "moves pl (B k) (N k) fl pl' sb' xs' fl'" and tx: "text_of pl' sb' xs' = drop sz (T k)"
    using pop_lstring_ok [OF h(2,5,6) assms(2), of k skip] assms(3) unfolding h(3) by blast
  have "holds pl' (B(k := sb'\<lparr>bf_size := length (T k) - sz\<rparr>)) (T(k := drop sz (T k)))"
    by (rule holds_moves [OF h(1,7) mv tx]) simp
  then show ?thesis using p mv h(4) by (auto simp: moves_def)
qed

lemma lpopbuffer_ok:
  assumes "holds pl B T" "0 \<le> sz"
  shows "if sz = 0 \<or> int (length (T k)) < sz then lpopbuffer sz (B k, pl) = Some (None, B k, pl)
    else \<exists>sb' pl'. lpopbuffer sz (B k, pl) = Some (Some (take (nat sz) (T k)), sb', pl') \<and> holds pl' (B(k := sb')) (T(k := drop (nat sz) (T k)))"
proof -
  have size: "bf_size (B k) = length (T k)" by (rule holds_size [OF assms(1)])
  show ?thesis
  proof (cases "sz = 0 \<or> int (length (T k)) < sz")
    case False
    then have "0 < nat sz" "nat sz \<le> length (T k)" using assms(2) by auto
    then obtain sb' pl' where "pop_lstring (nat sz) 0 (B k, pl) = Some (take (nat sz - 0) (T k), sb', pl')"
      "holds pl' (B(k := sb'\<lparr>bf_size := length (T k) - nat sz\<rparr>)) (T(k := drop (nat sz) (T k)))" "bf_size sb' = length (T k)"
      using pop_lstring_holds [OF assms(1), of "nat sz" k 0] by blast
    then show ?thesis using False size assms(2) by (simp add: lpopbuffer_def)
  qed (use size in \<open>auto simp: lpopbuffer_def\<close>)
qed

lemma lreadall_ok:
  assumes "holds pl B T"
  shows "\<exists>sb' pl'. lreadall (B k, pl) = Some (T k, sb', pl') \<and> holds pl' (B(k := sb')) (T(k := []))"
proof -
  obtain N fl where ok: "pool_ok pl B N fl" "T = (\<lambda>k. text_of pl (B k) (N k))" using assms(1) unfolding holds_def by blast
  note h = ok(1) pool_okD [OF ok] ok(2)
  obtain sb' pl' fl' where p: "readall_loop (B k, pl) = Some (T k, sb', pl')" and mv: "moves pl (B k) (N k) fl pl' sb' [] fl'"
    using readall_loop_ok [OF h(2,5,6), of k] h(3) by auto
  have "text_of pl' sb' [] = []" by (simp add: text_of_def)
  then have "holds pl' (B(k := sb'\<lparr>bf_size := 0\<rparr>)) (T(k := []))" by (rule holds_moves [OF h(1,7) mv]) simp
  then show ?thesis using p by (auto simp: lreadall_def)
qed

lemma lclearbuffer_ok:
  assumes "holds pl B T"
  shows "\<exists>sb' pl'. lclearbuffer (B k, pl) = Some (sb', pl') \<and> holds pl' (B(k := sb')) (T(k := []))"
proof -
  obtain N fl where ok: "pool_ok pl B N fl" "T = (\<lambda>k. text_of pl (B k) (N k))" using assms(1) unfolding holds_def by blast
  note h = ok(1) pool_okD [OF ok] ok(2)
  obtain sb' pl' fl' where p: "clear_loop (B k, pl) = Some (sb', pl')" and mv: "moves pl (B k) (N k) fl pl' sb' [] fl'"
    using clear_loop_ok [OF h(2,5,6), of k] by blast
  have "text_of pl' sb' [] = []" by (simp add: text_of_def)
  then have "holds pl' (B(k := sb'\<lparr>bf_size := 0\<rparr>)) (T(k := []))" by (rule holds_moves [OF h(1,7) mv]) simp
  then show ?thesis using p by (auto simp: lclearbuffer_def)
qed

lemma first_sep_bound: "first_sep sep t = Some i \<Longrightarrow> i + length sep \<le> length t"
  by (auto simp: first_sep_def find_Some_iff)

lemma lreadline_ok:
  assumes "holds pl B T" "sep \<noteq> []"
  shows "case first_sep sep (T k) of
      None \<Rightarrow> lreadline check sep (B k, pl) = Some (Nothing_yet, B k, pl)
    | Some i \<Rightarrow> if check then lreadline check sep (B k, pl) = Some (Found, B k, pl)
        else \<exists>sb' pl'. lreadline check sep (B k, pl) = Some (Line (take i (T k)), sb', pl') \<and>
          holds pl' (B(k := sb')) (T(k := drop (i + length sep) (T k)))"
proof -
  obtain N fl where ok: "pool_ok pl B N fl" "T = (\<lambda>k. text_of pl (B k) (N k))" using assms(1) unfolding holds_def by blast
  note h = ok(1) pool_okD [OF ok] ok(2)
  show ?thesis
  proof (cases "N k")
    case Nil
    then have "T k = []" "bf_head (B k) = None" using h(2) [of k] h(3) [of k] by (simp_all add: live_def linked_def text_of_def)
    then show ?thesis using assms(2) by (cases sep) (simp_all add: lreadline_def first_sep_def)
  next
    case (Cons x xs)
    note f = live_first [OF h(2) [of k, unfolded Cons]]
    have ch: "chain (nxt pl) (Some x) (N k)" "\<forall>y \<in> set (N k). node_ok pl y" using h(2) [of k] Cons by (auto simp: live_def linked_def)
    have "drop (bf_offset (B k)) (blocks pl (N k)) = drop 0 (T k)" using h(3) [of k] by (simp add: text_of_def)
    then have loop: "readline_loop pl sep (bf_size (B k) + 1 - length sep) 0 x (bf_offset (B k))
        (int (bn_sz (pl_node pl x)) - int (bf_offset (B k))) = Some (first_sep sep (T k))"
      using readline_loop_ok [OF ch, of "bf_offset (B k)" 0 "T k" _ sep] f h(4) assms(2) by (simp add: first_sep_def)
    show ?thesis
    proof (cases "first_sep sep (T k)")
      case None
      then show ?thesis using f loop by (simp add: lreadline_def)
    next
      case (Some i)
      then have "i + length sep \<le> length (T k)" using first_sep_bound by blast
      moreover have "0 < i + length sep" using assms(2) by simp
      ultimately obtain sb' pl' where "pop_lstring (i + length sep) (length sep) (B k, pl) = Some (take i (T k), sb', pl')"
        "holds pl' (B(k := sb'\<lparr>bf_size := length (T k) - (i + length sep)\<rparr>)) (T(k := drop (i + length sep) (T k)))" "bf_size sb' = length (T k)"
        using pop_lstring_holds [OF assms(1), of "i + length sep" k "length sep"] by auto
      then show ?thesis using f loop Some by (simp add: lreadline_def)
    qed
  qed
qed

section \<open>Any use of the buffers of a service\<close>

datatype 'k buffer_op = Push_block 'k bytes | Pop_bytes 'k int | Read_line 'k bool bytes | Read_all 'k | Clear_buffer 'k

datatype buffer_result = Size nat | Bytes "bytes option" | Line_found line_result | Cleared

definition upd_buffer :: "'k \<Rightarrow> ('a \<times> socket_buffer \<times> pool) option \<Rightarrow> ('a \<Rightarrow> buffer_result) \<Rightarrow> ('k \<Rightarrow> socket_buffer) \<Rightarrow>
    (buffer_result \<times> ('k \<Rightarrow> socket_buffer) \<times> pool) option" where
  "upd_buffer k r f B = map_option (\<lambda>(x, sb, pl). (f x, B(k := sb), pl)) r"

primrec buffer_step :: "'k buffer_op \<Rightarrow> ('k \<Rightarrow> socket_buffer) \<times> pool \<Rightarrow> (buffer_result \<times> ('k \<Rightarrow> socket_buffer) \<times> pool) option" where
  "buffer_step (Push_block k msg) s = upd_buffer k (lpushbuffer msg (fst s k, snd s)) Size (fst s)"
| "buffer_step (Pop_bytes k sz) s = upd_buffer k (lpopbuffer sz (fst s k, snd s)) Bytes (fst s)"
| "buffer_step (Read_line k check sep) s = upd_buffer k (lreadline check sep (fst s k, snd s)) Line_found (fst s)"
| "buffer_step (Read_all k) s = upd_buffer k (lreadall (fst s k, snd s)) (\<lambda>x. Bytes (Some x)) (fst s)"
| "buffer_step (Clear_buffer k) s = upd_buffer k (map_option (Pair ()) (lclearbuffer (fst s k, snd s))) (\<lambda>_. Cleared) (fst s)"

primrec buffer_run :: "'k buffer_op list \<Rightarrow> ('k \<Rightarrow> socket_buffer) \<times> pool \<Rightarrow> (buffer_result list \<times> ('k \<Rightarrow> socket_buffer) \<times> pool) option" where
  "buffer_run [] s = Some ([], s)"
| "buffer_run (b # bs) s = do {
     (r, s) \<leftarrow> buffer_step b s;
     (rs, s) \<leftarrow> buffer_run bs s;
     Some (r # rs, s)
   }"

text \<open>The specification: every buffer is a byte string of its own.\<close>

primrec text_step :: "'k buffer_op \<Rightarrow> ('k \<Rightarrow> bytes) \<Rightarrow> buffer_result \<times> ('k \<Rightarrow> bytes)" where
  "text_step (Push_block k msg) T = (Size (length (T k @ msg)), T(k := T k @ msg))"
| "text_step (Pop_bytes k sz) T =
     (if sz = 0 \<or> int (length (T k)) < sz then (Bytes None, T)
      else (Bytes (Some (take (nat sz) (T k))), T(k := drop (nat sz) (T k))))"
| "text_step (Read_line k check sep) T =
     (case first_sep sep (T k) of
        None \<Rightarrow> (Line_found Nothing_yet, T)
      | Some i \<Rightarrow> if check then (Line_found Found, T)
          else (Line_found (Line (take i (T k))), T(k := drop (i + length sep) (T k))))"
| "text_step (Read_all k) T = (Bytes (Some (T k)), T(k := []))"
| "text_step (Clear_buffer k) T = (Cleared, T(k := []))"

primrec text_run :: "'k buffer_op list \<Rightarrow> ('k \<Rightarrow> bytes) \<Rightarrow> buffer_result list \<times> ('k \<Rightarrow> bytes)" where
  "text_run [] T = ([], T)"
| "text_run (b # bs) T = (let (r, T) = text_step b T; (rs, T) = text_run bs T in (r # rs, T))"

primrec sane_op :: "'k buffer_op \<Rightarrow> bool" where
  "sane_op (Push_block k msg) \<longleftrightarrow> msg \<noteq> []"
| "sane_op (Pop_bytes k sz) \<longleftrightarrow> 0 \<le> sz"
| "sane_op (Read_line k check sep) \<longleftrightarrow> sep \<noteq> []"
| "sane_op (Read_all k) \<longleftrightarrow> True"
| "sane_op (Clear_buffer k) \<longleftrightarrow> True"

definition buffers0 :: "'k \<Rightarrow> socket_buffer" where
  "buffers0 = (\<lambda>_. lnewbuffer)"

definition pool0 :: pool where
  "pool0 = \<lparr>pl_node = (\<lambda>_. \<lparr>bn_msg = None, bn_sz = 0, bn_next = None\<rparr>), pl_brk = 0, pl_free = None, pl_chunks = []\<rparr>"

lemma holds0: "holds pool0 buffers0 (\<lambda>_. [])"
  unfolding holds_def
  by (intro exI [of _ "\<lambda>_. []"] exI [of _ "[]"]) (simp add: pool_ok_def pool0_def buffers0_def lnewbuffer_def live_def linked_def text_of_def)

lemma buffer_step_ok:
  assumes "holds (snd s) (fst s) T" "sane_op b"
  shows "\<exists>s'. buffer_step b s = Some (fst (text_step b T), s') \<and> holds (snd s') (fst s') (snd (text_step b T))"
proof (cases b)
  case (Push_block k msg)
  then show ?thesis using lpushbuffer_ok [OF assms(1), of msg k] assms(2) by (auto simp: upd_buffer_def)
next
  case (Pop_bytes k sz)
  then show ?thesis using lpopbuffer_ok [OF assms(1), of sz k] assms by (auto simp: upd_buffer_def split: if_splits)
next
  case (Read_line k check sep)
  then show ?thesis using lreadline_ok [OF assms(1), where sep = sep and k = k and check = check] assms
    by (cases "first_sep sep (T k)"; cases check) (auto simp: upd_buffer_def)
next
  case (Read_all k)
  then show ?thesis using lreadall_ok [OF assms(1), of k] by (auto simp: upd_buffer_def)
next
  case (Clear_buffer k)
  then show ?thesis using lclearbuffer_ok [OF assms(1), of k] by (auto simp: upd_buffer_def)
qed

lemma buffer_run_ok:
  assumes "holds (snd s) (fst s) T" "\<forall>b \<in> set bs. sane_op b"
  shows "\<exists>s'. buffer_run bs s = Some (fst (text_run bs T), s') \<and> holds (snd s') (fst s') (snd (text_run bs T))"
  using assms
proof (induction bs arbitrary: s T)
  case (Cons b bs)
  obtain s1 where "buffer_step b s = Some (fst (text_step b T), s1)" "holds (snd s1) (fst s1) (snd (text_step b T))"
    using buffer_step_ok [OF Cons.prems(1), of b] Cons.prems(2) by auto
  moreover from this(2) obtain s2 where "buffer_run bs s1 = Some (fst (text_run bs (snd (text_step b T))), s2)"
    "holds (snd s2) (fst s2) (snd (text_run bs (snd (text_step b T))))"
    using Cons.IH Cons.prems(2) by fastforce
  ultimately show ?case by (auto simp: Let_def split: prod.split)
qed simp

text \<open>
  C25. Any sequence of pushes, reads of a number of bytes, reads of a line, reads of everything and clears, on any number of buffers that
  share one pool of nodes, gives what the same operations give on byte strings: the bytes come out once, in the order
  they were pushed, a line ends at the first separator also when the separator is cut over several blocks, and no operation follows
  a null pointer or touches another buffer, whatever the sizes of the blocks. The blocks and the separators are not empty and
  no length is negative.
\<close>

theorem receive_buffers_are_strings:
  assumes "\<forall>b \<in> set bs. sane_op b"
  shows "map_option fst (buffer_run bs (buffers0, pool0)) = Some (fst (text_run bs (\<lambda>_. [])))"
  using buffer_run_ok [of "(buffers0, pool0)" "\<lambda>_. []" bs] holds0 assms by auto

text \<open>Two clients whose blocks arrive in turns; the first line of client 0 is cut in the separator.\<close>

definition buffer_example :: "nat buffer_op list" where
  "buffer_example = [Push_block 0 [71, 69, 13], Push_block 1 [1], Push_block 0 [10, 84], Read_line 0 False [13, 10], Pop_bytes 0 2, Push_block 1 [2, 3],
     Pop_bytes 1 2, Read_all 0, Clear_buffer 1, Pop_bytes 1 1]"

lemma receive_buffers_are_strings_witness:
  "map_option fst (buffer_run buffer_example (buffers0, pool0)) =
    Some [Size 3, Size 1, Size 5, Line_found (Line [71, 69]), Bytes None, Size 3, Bytes (Some [1, 2]), Bytes (Some [84]), Cleared, Bytes None]"
  by (subst receive_buffers_are_strings) (simp_all add: buffer_example_def first_sep_def upt_conv_Cons)

end
