(* ===== verification/Sha1.thy ===== *)
theory Sha1
  imports Prelude
begin

text \<open>
  SHA-1 and its keyed hash (\<open>lualib-src/lsha1.c\<close>, functions \<open>sha1\<close> and \<open>hmac_sha1\<close> of the crypt library):
  the unrolled rounds over registers that change names, the schedule that expands in place in 16 words, the buffer of
  a partly filled block and the counter of bits. The reference is the algorithm of FIPS 180 and RFC 2104 over whole
  byte strings.
\<close>

section \<open>The code\<close>

record SHA1_CTX =
  sha_state :: "u32 list"
  sha_count0 :: u32
  sha_count1 :: u32
  sha_buffer :: bytes

definition rol :: "u32 \<Rightarrow> nat \<Rightarrow> u32" where
  "rol value bits = push_bit bits value OR drop_bit (32 - bits) value"

text \<open>\<open>memcpy\<close> of a block into 16 words on a little-endian machine; \<open>blk0\<close> turns one into big-endian order.\<close>

definition block_words :: "bytes \<Rightarrow> u32 list" where
  "block_words b = map (\<lambda>i. of_le32 (b ! (4 * i)) (b ! (4 * i + 1)) (b ! (4 * i + 2)) (b ! (4 * i + 3))) [0..<16]"

definition blk0 :: "nat \<Rightarrow> u32 list \<Rightarrow> u32 list" where
  "blk0 i l = l[i := (rol (l ! i) 24 AND 0xFF00FF00) OR (rol (l ! i) 8 AND 0x00FF00FF)]"

definition blk :: "nat \<Rightarrow> u32 list \<Rightarrow> u32 list" where
  "blk i l = l[i mod 16 := rol (l ! ((i + 13) mod 16) XOR l ! ((i + 8) mod 16) XOR l ! ((i + 2) mod 16) XOR l ! (i mod 16)) 1]"

text \<open>
  The \<open>k\<close>-th register argument of the \<open>i\<close>-th round macro: the calls go \<open>(a,b,c,d,e)\<close>, \<open>(e,a,b,c,d)\<close>, \<open>(d,e,a,b,c)\<close> and so on.
\<close>

definition reg :: "nat \<Rightarrow> nat \<Rightarrow> nat" where
  "reg i k = (k + 5 - i mod 5) mod 5"

definition round_f :: "nat \<Rightarrow> u32 \<Rightarrow> u32 \<Rightarrow> u32 \<Rightarrow> u32" where
  "round_f i w x y =
     (if i < 20 then (w AND (x XOR y)) XOR y
      else if i < 40 then w XOR x XOR y
      else if i < 60 then ((w OR x) AND y) OR (w AND x)
      else w XOR x XOR y)"

definition round_k :: "nat \<Rightarrow> u32" where
  "round_k i = (if i < 20 then 0x5A827999 else if i < 40 then 0x6ED9EBA1 else if i < 60 then 0x8F1BBCDC else 0xCA62C1D6)"

definition round_R :: "nat \<Rightarrow> u32 list \<times> u32 list \<Rightarrow> u32 list \<times> u32 list" where
  "round_R i = (\<lambda>(r, l).
     let l = (if i < 16 then blk0 i l else blk i l);
         v = reg i 0; w = reg i 1; x = reg i 2; y = reg i 3; z = reg i 4;
         r = r[z := r ! z + round_f i (r ! w) (r ! x) (r ! y) + l ! (i mod 16) + round_k i + rol (r ! v) 5];
         r = r[w := rol (r ! w) 30]
     in (r, l))"

definition SHA1_Transform :: "u32 list \<Rightarrow> bytes \<Rightarrow> u32 list" where
  "SHA1_Transform state buffer = map2 (+) state (fst (fold round_R [0..<80] (state, block_words buffer)))"

definition sat_SHA1_Init :: "SHA1_CTX \<Rightarrow> SHA1_CTX" where
  "sat_SHA1_Init context = context\<lparr>sha_state := [0x67452301, 0xEFCDAB89, 0x98BADCFE, 0x10325476, 0xC3D2E1F0], sha_count0 := 0, sha_count1 := 0\<rparr>"

function update_loop :: "bytes \<Rightarrow> u32 list \<Rightarrow> nat \<Rightarrow> u32 list \<times> nat" where
  "update_loop data state i =
     (if i + 63 < length data then update_loop data (SHA1_Transform state (take 64 (drop i data))) (i + 64) else (state, i))"
  by pat_completeness auto
termination
  by (relation "measure (\<lambda>(data, state, i). length data - i)") auto

declare update_loop.simps [simp del]

text \<open>\<open>len\<close> is a \<open>size_t\<close> of 64 bits, the two counters have 32.\<close>

definition sat_SHA1_Update :: "SHA1_CTX \<Rightarrow> bytes \<Rightarrow> SHA1_CTX" where
  "sat_SHA1_Update context data =
     (let len = (of_nat (length data) :: u64);
          j = unat (drop_bit 3 (sha_count0 context) AND 63);
          count0 = sha_count0 context + ucast (push_bit 3 len);
          count1 = sha_count1 context + (if ucast count0 < push_bit 3 len then 1 else 0) + ucast (drop_bit 29 len);
          context = context\<lparr>sha_count0 := count0, sha_count1 := count1\<rparr>
      in if j + length data > 63 then
           (let i = 64 - j;
                buffer = take j (sha_buffer context) @ take i data;
                (state, i) = update_loop data (SHA1_Transform (sha_state context) buffer) i
            in context\<lparr>sha_state := state, sha_buffer := drop i data @ drop (length data - i) buffer\<rparr>)
         else context\<lparr>sha_buffer := take j (sha_buffer context) @ data @ drop (j + length data) (sha_buffer context)\<rparr>)"

definition be32 :: "u32 \<Rightarrow> bytes" where
  "be32 w = map (\<lambda>i. ucast (drop_bit ((3 - i) * 8) w AND 255)) [0..<4]"

partial_function (option) final_pad :: "SHA1_CTX \<Rightarrow> SHA1_CTX option" where
  "final_pad context =
     (if sha_count0 context AND 504 \<noteq> 448 then final_pad (sat_SHA1_Update context [0]) else Some context)"

definition sat_SHA1_Final :: "SHA1_CTX \<Rightarrow> bytes option" where
  "sat_SHA1_Final context =
     (let finalcount = be32 (sha_count1 context) @ be32 (sha_count0 context) in do {
        context \<leftarrow> final_pad (sat_SHA1_Update context [0x80]);
        Some (concat (map be32 (sha_state (sat_SHA1_Update context finalcount))))
      })"

text \<open>\<open>garbage\<close> is what the context on the stack holds before it is initialised.\<close>

definition lsha1 :: "SHA1_CTX \<Rightarrow> bytes \<Rightarrow> bytes option" where
  "lsha1 garbage buffer = sat_SHA1_Final (sat_SHA1_Update (sat_SHA1_Init garbage) buffer)"

definition BLOCKSIZE :: nat where "BLOCKSIZE = 64"

definition xor_key :: "bytes \<Rightarrow> u32 \<Rightarrow> bytes" where
  "xor_key key x = concat (map (\<lambda>k. le32 (k XOR x)) (block_words key))"

definition lhmac_sha1 :: "SHA1_CTX \<Rightarrow> bytes \<Rightarrow> bytes \<Rightarrow> bytes option" where
  "lhmac_sha1 garbage key text = do {
     rkey \<leftarrow> (if length key > BLOCKSIZE then do {
          digest \<leftarrow> sat_SHA1_Final (sat_SHA1_Update (sat_SHA1_Init garbage) key);
          Some (digest @ replicate (BLOCKSIZE - 20) 0)
        }
        else Some (key @ replicate (BLOCKSIZE - length key) 0));
     let rkey = xor_key rkey 0x5c5c5c5c;
     let ctx1 = sat_SHA1_Update (sat_SHA1_Init garbage) rkey;
     let rkey = xor_key rkey (0x5c5c5c5c XOR 0x36363636);
     let ctx2 = sat_SHA1_Update (sat_SHA1_Init garbage) rkey;
     let ctx2 = sat_SHA1_Update ctx2 text;
     digest2 \<leftarrow> sat_SHA1_Final ctx2;
     sat_SHA1_Final (sat_SHA1_Update ctx1 digest2)
   }"

section \<open>The standard\<close>

text \<open>FIPS 180: the message schedule of 80 words, the round functions, the compression of a block, padding.\<close>

definition of_be32 :: "bytes \<Rightarrow> nat \<Rightarrow> u32" where
  "of_be32 b i = of_le32 (b ! (i + 3)) (b ! (i + 2)) (b ! (i + 1)) (b ! i)"

primrec fips_schedule :: "bytes \<Rightarrow> nat \<Rightarrow> u32 list" where
  "fips_schedule b 0 = map (\<lambda>i. of_be32 b (4 * i)) [0..<16]"
| "fips_schedule b (Suc n) =
     (let W = fips_schedule b n; t = 16 + n
      in W @ [word_rotl 1 (W ! (t - 3) XOR W ! (t - 8) XOR W ! (t - 14) XOR W ! (t - 16))])"

definition fips_f :: "nat \<Rightarrow> u32 \<Rightarrow> u32 \<Rightarrow> u32 \<Rightarrow> u32" where
  "fips_f t x y z =
     (if t < 20 then (x AND y) XOR (NOT x AND z)
      else if t < 40 then x XOR y XOR z
      else if t < 60 then (x AND y) XOR (x AND z) XOR (y AND z)
      else x XOR y XOR z)"

type_synonym fips_state = "u32 \<times> u32 \<times> u32 \<times> u32 \<times> u32"

definition fips_step :: "u32 list \<Rightarrow> nat \<Rightarrow> fips_state \<Rightarrow> fips_state" where
  "fips_step W t = (\<lambda>(a, b, c, d, e).
     (word_rotl 5 a + fips_f t b c d + e + round_k t + W ! t, a, word_rotl 30 b, c, d))"

definition fips_compress :: "fips_state \<Rightarrow> bytes \<Rightarrow> fips_state" where
  "fips_compress = (\<lambda>(h0, h1, h2, h3, h4) b.
     let (a, b, c, d, e) = fold (fips_step (fips_schedule b 64)) [0..<80] (h0, h1, h2, h3, h4)
     in (h0 + a, h1 + b, h2 + c, h3 + d, h4 + e))"

definition chunks_of :: "nat \<Rightarrow> bytes \<Rightarrow> bytes list" where
  "chunks_of n m = map (\<lambda>i. take 64 (drop (64 * i) m)) [0..<n]"

definition fips_pad :: "bytes \<Rightarrow> bytes" where
  "fips_pad m = m @ 0x80 # replicate ((119 - length m mod 64) mod 64) 0 @ map (\<lambda>i. of_nat (8 * length m div 256 ^ (7 - i))) [0..<8]"

definition sha1_blocks :: "bytes list \<Rightarrow> fips_state" where
  "sha1_blocks = foldl fips_compress (0x67452301, 0xEFCDAB89, 0x98BADCFE, 0x10325476, 0xC3D2E1F0)"

definition digest_bytes :: "fips_state \<Rightarrow> bytes" where
  "digest_bytes = (\<lambda>(a, b, c, d, e). concat (map be32 [a, b, c, d, e]))"

definition sha1 :: "bytes \<Rightarrow> bytes" where
  "sha1 m = (let p = fips_pad m in digest_bytes (sha1_blocks (chunks_of (length p div 64) p)))"

text \<open>RFC 2104.\<close>

definition hmac_sha1 :: "bytes \<Rightarrow> bytes \<Rightarrow> bytes" where
  "hmac_sha1 key m =
     (let k = (if length key > 64 then sha1 key else key); k = k @ replicate (64 - length k) 0
      in sha1 (map (\<lambda>b. b XOR 0x5c) k @ sha1 (map (\<lambda>b. b XOR 0x36) k @ m)))"

section \<open>The rounds\<close>

lemma rol_rotl: "n < 32 \<Longrightarrow> rol w n = word_rotl n w"
proof (rule bit_word_eqI)
  fix m assume n: "n < 32" and "m < LENGTH(32)"
  then have m: "m < 32" by simp
  show "bit (rol w n) m = bit (word_rotl n w) m"
  proof (cases "n \<le> m")
    case True
    then have "(m + (32 - n)) mod 32 = m - n" using m n by (simp add: mod_if)
    moreover have "\<not> bit w (32 - n + m)" using True n by (auto dest: bit_imp_le_length)
    ultimately show ?thesis using True m n by (simp add: rol_def bit_simps)
  next
    case False
    then have "(m + (32 - n)) mod 32 = 32 - n + m" using n by simp
    then show ?thesis using False m n by (simp add: rol_def bit_simps)
  qed
qed

lemma round_f_fips: "round_f t x y z = fips_f t x y z"
  unfolding round_f_def fips_f_def by (auto intro!: bit_word_eqI simp: bit_simps)

lemma length_fips_schedule [simp]: "length (fips_schedule b n) = 16 + n"
  by (induction n) (simp_all add: Let_def)

lemma fips_schedule_prefix: "t < 16 + n \<Longrightarrow> n \<le> m \<Longrightarrow> fips_schedule b m ! t = fips_schedule b n ! t"
  by (induction m) (auto simp: Let_def nth_append le_Suc_eq)

lemma fips_schedule_nth:
  assumes "16 \<le> t" "t < 80"
  shows "fips_schedule b 64 ! t = word_rotl 1 (fips_schedule b 64 ! (t - 3) XOR fips_schedule b 64 ! (t - 8) XOR
    fips_schedule b 64 ! (t - 14) XOR fips_schedule b 64 ! (t - 16))"
proof -
  let ?n = "t - 16"
  have p: "s < 16 + ?n \<Longrightarrow> fips_schedule b 64 ! s = fips_schedule b ?n ! s" for s
    by (rule fips_schedule_prefix) (use assms in auto)
  have "fips_schedule b 64 ! t = fips_schedule b (Suc ?n) ! t" by (rule fips_schedule_prefix) (use assms in auto)
  also have "\<dots> = word_rotl 1 (fips_schedule b ?n ! (t - 3) XOR fips_schedule b ?n ! (t - 8) XOR
      fips_schedule b ?n ! (t - 14) XOR fips_schedule b ?n ! (t - 16))"
    using assms(1) by (simp add: Let_def nth_append)
  finally show ?thesis using assms(1) by (simp add: p)
qed

lemma fips_schedule_first: "t < 16 \<Longrightarrow> fips_schedule b 64 ! t = of_be32 b (4 * t)"
  using fips_schedule_prefix [of t 0 64 b] by simp

lemma swap_word:
  "(rol (of_le32 a b c d) 24 AND 0xFF00FF00) OR (rol (of_le32 a b c d) 8 AND 0x00FF00FF) = of_le32 d c b a"
proof -
  have m: "0xFF00FF00 = (push_bit 8 (mask 8) OR push_bit 24 (mask 8) :: u32)" "0x00FF00FF = (mask 8 OR push_bit 16 (mask 8) :: u32)"
    by (simp_all add: mask_eq_exp_minus_1)
  show ?thesis
  proof (rule bit_word_eqI)
    fix n assume "n < LENGTH(32)"
    then consider "n < 8" | "8 \<le> n \<and> n < 16" | "16 \<le> n \<and> n < 24" | "24 \<le> n \<and> n < 32" by (simp, linarith)
    then show "bit ((rol (of_le32 a b c d) 24 AND 0xFF00FF00) OR (rol (of_le32 a b c d) 8 AND 0x00FF00FF)) n = bit (of_le32 d c b a) n"
      unfolding m by cases (auto simp: rol_def of_le32_def bit_simps dest: bit_imp_le_length)
  qed
qed


text \<open>After \<open>i\<close> rounds the registers hold the working variables under the names of the next call, and the 16 words the newest of the schedule.\<close>

definition renamed :: "nat \<Rightarrow> u32 list \<Rightarrow> fips_state" where
  "renamed i r = (r ! reg i 0, r ! reg i 1, r ! reg i 2, r ! reg i 3, r ! reg i 4)"

definition window :: "bytes \<Rightarrow> nat \<Rightarrow> u32 list \<Rightarrow> bool" where
  "window b i l \<longleftrightarrow> length l = 16 \<and> (\<forall>t < i. i \<le> t + 16 \<longrightarrow> l ! (t mod 16) = fips_schedule b 64 ! t) \<and>
     (\<forall>t. i \<le> t \<longrightarrow> t < 16 \<longrightarrow> l ! t = block_words b ! t)"

lemma window_step:
  assumes "window b i l" "i < 80"
  defines "l' \<equiv> (if i < 16 then blk0 i l else blk i l)"
  shows "window b (Suc i) l'" "l' ! (i mod 16) = fips_schedule b 64 ! i"
proof -
  have l: "length l = 16" using assms(1) by (simp add: window_def)
  define v where "v = l' ! (i mod 16)"
  have upd: "l' = l[i mod 16 := v]" using l by (simp add: v_def l'_def blk0_def blk_def)
  show v: "l' ! (i mod 16) = fips_schedule b 64 ! i"
  proof (cases "i < 16")
    case True
    then have "l ! i = block_words b ! i" using assms(1) by (simp add: window_def)
    then have "l ! i = of_le32 (b ! (4 * i)) (b ! (4 * i + 1)) (b ! (4 * i + 2)) (b ! (4 * i + 3))"
      using True by (simp add: block_words_def)
    then have li: "l ! i = of_le32 (b ! (4 * i)) (b ! (4 * i + 1)) (b ! (4 * i + 2)) (b ! (4 * i + 3))" .
    have "l' ! i = (rol (l ! i) 24 AND 0xFF00FF00) OR (rol (l ! i) 8 AND 0x00FF00FF)"
      unfolding l'_def blk0_def using True l by (simp only: if_True nth_list_update_eq)
    also have "\<dots> = of_be32 b (4 * i)" unfolding li swap_word of_be32_def by (rule refl)
    finally have "l' ! i = of_be32 b (4 * i)" .
    then show ?thesis using True by (simp add: fips_schedule_first)
  next
    case False
    have w: "l ! (t mod 16) = fips_schedule b 64 ! t" if "t < i" "i \<le> t + 16" for t using assms(1) that by (simp add: window_def)
    have m: "(i + 13) mod 16 = (i - 3) mod 16" "(i + 8) mod 16 = (i - 8) mod 16" "(i + 2) mod 16 = (i - 14) mod 16" "i mod 16 = (i - 16) mod 16"
    proof -
      have "i + 13 = (i - 3) + 16" "i + 8 = (i - 8) + 16" "i + 2 = (i - 14) + 16" "i = (i - 16) + 16" using False by simp_all
      then show "(i + 13) mod 16 = (i - 3) mod 16" "(i + 8) mod 16 = (i - 8) mod 16" "(i + 2) mod 16 = (i - 14) mod 16" "i mod 16 = (i - 16) mod 16"
        by (metis mod_add_self2)+
    qed
    have "l' ! (i mod 16) = rol (fips_schedule b 64 ! (i - 3) XOR fips_schedule b 64 ! (i - 8) XOR
        fips_schedule b 64 ! (i - 14) XOR fips_schedule b 64 ! (i - 16)) 1"
      using False l w [of "i - 3"] w [of "i - 8"] w [of "i - 14"] w [of "i - 16"] unfolding l'_def blk_def m by simp
    then show ?thesis using False assms(2) fips_schedule_nth [of i b] by (simp add: rol_rotl)
  qed
  show "window b (Suc i) l'"
    unfolding window_def
  proof (intro conjI allI impI)
    show "length l' = 16" using upd l by simp
  next
    fix t assume t: "t < Suc i" "Suc i \<le> t + 16"
    show "l' ! (t mod 16) = fips_schedule b 64 ! t"
    proof (cases "t = i")
      case False
      then have lt: "t < i" "i < t + 16" using t by linarith+
      have "t mod 16 \<noteq> i mod 16"
      proof
        assume "t mod 16 = i mod 16"
        then have "16 dvd i - t" using lt(1) mod_eq_dvd_iff_nat [of t i 16] by simp
        then show False using lt by (auto dest: dvd_imp_le)
      qed
      then show ?thesis using False t assms(1) upd by (simp add: window_def)
    qed (use v in simp)
  next
    fix t assume "Suc i \<le> t" "t < 16"
    then show "l' ! t = block_words b ! t" using assms(1) upd by (simp add: window_def)
  qed
qed

lemma round_step:
  assumes "window b i l" "i < 80" "length r = 5"
  defines "s \<equiv> round_R i (r, l)"
  shows "window b (Suc i) (snd s)" "length (fst s) = 5" "renamed (Suc i) (fst s) = fips_step (fips_schedule b 64) i (renamed i r)"
proof -
  define l' where "l' = (if i < 16 then blk0 i l else blk i l)"
  note w = window_step [OF assms(1,2), folded l'_def]
  have s: "s = (let v = reg i 0; w = reg i 1; x = reg i 2; y = reg i 3; z = reg i 4;
      r = r[z := r ! z + fips_f i (r ! w) (r ! x) (r ! y) + fips_schedule b 64 ! i + round_k i + word_rotl 5 (r ! v)]
      in (r[w := word_rotl 30 (r ! w)], l'))"
    by (simp add: s_def round_R_def Let_def round_f_fips rol_rotl w(2) flip: l'_def)
  show "window b (Suc i) (snd s)" using w(1) by (simp add: s Let_def)
  show "length (fst s) = 5" using assms(3) by (simp add: s Let_def)
  have "i mod 5 = 0 \<or> i mod 5 = 1 \<or> i mod 5 = 2 \<or> i mod 5 = 3 \<or> i mod 5 = 4" by presburger
  then show "renamed (Suc i) (fst s) = fips_step (fips_schedule b 64) i (renamed i r)"
    by (elim disjE) (simp_all add: s renamed_def fips_step_def Let_def reg_def mod_Suc assms(3) ac_simps)
qed


lemma rounds:
  fixes b :: bytes
  assumes "length r = 5" "i \<le> 80"
  defines "s \<equiv> fold round_R [0..<i] (r, block_words b)"
  shows "window b i (snd s) \<and> length (fst s) = 5 \<and> renamed i (fst s) = fold (fips_step (fips_schedule b 64)) [0..<i] (renamed 0 r)"
  using assms(2) unfolding s_def
proof (induction i)
  case 0
  then show ?case using assms(1) by (simp add: window_def block_words_def)
next
  case (Suc i)
  obtain r' l where p: "fold round_R [0..<i] (r, block_words b) = (r', l)" by fastforce
  then show ?case using Suc round_step [of b i l r'] by simp
qed

definition state_list :: "fips_state \<Rightarrow> u32 list" where
  "state_list = (\<lambda>(a, b, c, d, e). [a, b, c, d, e])"

lemma length_state_list [simp]: "length (state_list h) = 5"
  by (cases h) (simp add: state_list_def)

lemma list5: "length r = 5 \<Longrightarrow> \<exists>a b c d e. r = [a, b, c, d, e]"
  by (auto simp: length_Suc_conv numeral_eq_Suc)

text \<open>The transformation of one block is the compression function of the standard.\<close>

lemma SHA1_Transform_compress: "SHA1_Transform (state_list h) b = state_list (fips_compress h b)"
proof -
  obtain h0 h1 h2 h3 h4 where h: "h = (h0, h1, h2, h3, h4)" by (cases h)
  let ?r = "fst (fold round_R [0..<80] (state_list h, block_words b))"
  have r: "length ?r = 5" "renamed 80 ?r = fold (fips_step (fips_schedule b 64)) [0..<80] (renamed 0 (state_list h))"
    using rounds [OF length_state_list order_refl, of b h] by blast+
  obtain a b' c d e where l: "?r = [a, b', c, d, e]" using list5 [OF r(1)] by blast
  have "renamed 80 ?r = (a, b', c, d, e)" unfolding l by (simp add: renamed_def reg_def)
  moreover have "renamed 0 (state_list h) = h" by (simp add: h renamed_def reg_def state_list_def)
  ultimately have f: "fold (fips_step (fips_schedule b 64)) [0..<80] (h0, h1, h2, h3, h4) = (a, b', c, d, e)" using r(2) h by metis
  have "fips_compress h b = (h0 + a, h1 + b', h2 + c, h3 + d, h4 + e)"
    unfolding h fips_compress_def prod.case f Let_def by (rule refl)
  then show ?thesis unfolding SHA1_Transform_def l by (simp add: h state_list_def)
qed

section \<open>Partly filled blocks\<close>

lemma chunks_of_Suc: "chunks_of (Suc n) m = chunks_of n m @ [take 64 (drop (64 * n) m)]"
  by (simp add: chunks_of_def)

lemma chunks_of_prefix: "64 * n \<le> length m \<Longrightarrow> chunks_of n (m @ d) = chunks_of n m"
  by (auto simp: chunks_of_def)

text \<open>\<open>absorbed m ctx\<close>: the whole blocks of \<open>m\<close> are in the state, the rest in the buffer, its length in bits in the counter.\<close>

definition absorbed :: "bytes \<Rightarrow> SHA1_CTX \<Rightarrow> bool" where
  "absorbed m ctx \<longleftrightarrow>
     sha_state ctx = state_list (sha1_blocks (chunks_of (length m div 64) m)) \<and>
     length (sha_buffer ctx) = 64 \<and> take (length m mod 64) (sha_buffer ctx) = drop (64 * (length m div 64)) m \<and>
     sha_count0 ctx = of_nat (8 * length m) \<and> sha_count1 ctx = of_nat (8 * length m div 2 ^ 32)"

lemma absorbed_Init: "length (sha_buffer ctx) = 64 \<Longrightarrow> absorbed [] (sat_SHA1_Init ctx)"
  by (simp add: absorbed_def sat_SHA1_Init_def sha1_blocks_def chunks_of_def state_list_def)

lemma update_loop_ok:
  assumes "state = state_list (sha1_blocks (chunks_of n m))" "64 * n = p + i" "drop p m = data" "p \<le> length m" "i \<le> length data"
  shows "case update_loop data state i of (state', i') \<Rightarrow>
    state' = state_list (sha1_blocks (chunks_of (length m div 64) m)) \<and> p + i' = 64 * (length m div 64) \<and> i' \<le> length data"
  using assms
proof (induction data state i arbitrary: n rule: update_loop.induct)
  case (1 data state i)
  have len: "length m = p + length data" using "1.prems"(3,4) by auto
  show ?case
  proof (cases "i + 63 < length data")
    case True
    have "drop i data = drop (64 * n) m" using "1.prems"(2,3) by (auto simp: add.commute)
    then have "SHA1_Transform state (take 64 (drop i data)) = state_list (sha1_blocks (chunks_of (Suc n) m))"
      using "1.prems"(1) by (simp add: SHA1_Transform_compress chunks_of_Suc sha1_blocks_def)
    moreover have "64 * Suc n = p + (i + 64)" "i + 64 \<le> length data" using True "1.prems"(2) by simp_all
    ultimately show ?thesis
      using "1.IH" [OF True _ _ "1.prems"(3,4)] True by (simp add: update_loop.simps [of data state i])
  next
    case False
    then have "length m div 64 = n" using len "1.prems"(2,5) by linarith
    moreover have "update_loop data state i = (state, i)" using False by (subst update_loop.simps) simp
    ultimately show ?thesis using "1.prems"(1,2,5) by simp
  qed
qed

lemma drop3_63: "unat (drop_bit 3 (of_nat (8 * n) :: u32) AND 63) = n mod 64"
proof -
  have "(63 :: u32) = mask 6" by (simp add: mask_eq_exp_minus_1)
  then have "unat (drop_bit 3 (of_nat (8 * n) :: u32) AND 63) = unat (of_nat (8 * n) :: u32) div 8 mod 64"
    unfolding \<open>63 = mask 6\<close> unfolding take_bit_eq_mask [symmetric] unsigned_take_bit_eq unat_drop_bit_eq
    by (simp add: drop_bit_eq_div take_bit_eq_mod)
  also have "unat (of_nat (8 * n) :: u32) div 8 = n mod 2 ^ 29" unfolding unat_of_nat using mult_mod_right [of 8 n "2 ^ 29"] by simp
  also have "n mod 2 ^ 29 mod 64 = n mod 64" by (rule mod_mod_cancel) simp
  finally show ?thesis .
qed

text \<open>The counter of bits of a piece below 512 MB.\<close>

lemma count_carry:
  assumes "len < 2 ^ 29" "n + len < 2 ^ 61"
  defines "c \<equiv> of_nat (8 * n) + ucast (push_bit 3 (of_nat len :: u64)) :: u32"
  shows "c = of_nat (8 * (n + len))"
    "of_nat (8 * n div 2 ^ 32) + (if ucast c < push_bit 3 (of_nat len :: u64) then 1 else 0) + ucast (drop_bit 29 (of_nat len :: u64))
       = (of_nat (8 * (n + len) div 2 ^ 32) :: u32)"
proof -
  have p: "push_bit 3 (of_nat len :: u64) = of_nat (8 * len)" by (simp add: push_bit_eq_mult)
  have ul: "unat (of_nat (8 * len) :: u64) = 8 * len" using assms(1) unfolding unat_of_nat by simp
  have u: "(ucast (of_nat (8 * len) :: u64) :: u32) = of_nat (8 * len)" using of_nat_unat [of "of_nat (8 * len) :: u64"] unfolding ul by (rule sym)
  show c: "c = of_nat (8 * (n + len))" unfolding c_def p u by (simp add: distrib_left)
  have "unat (of_nat len :: u64) = len" using assms(1) by (simp add: unat_of_nat)
  then have "unat (drop_bit 29 (of_nat len :: u64)) = 0"
    using assms(1) unfolding unat_drop_bit_eq by (simp add: drop_bit_eq_div)
  then have d: "(ucast (drop_bit 29 (of_nat len :: u64)) :: u32) = 0" unfolding unsigned_eq_0_iff by (rule ssubst) simp
  let ?r = "8 * n mod 2 ^ 32" let ?q = "8 * n div 2 ^ 32"
  have n: "8 * n = 2 ^ 32 * ?q + ?r" "?r < 2 ^ 32" by (rule mult_div_mod_eq [symmetric]) simp
  have uc: "unat c = (?r + 8 * len) mod 2 ^ 32" unfolding c unat_of_nat by (simp add: distrib_left mod_simps)
  have less: "ucast c < push_bit 3 (of_nat len :: u64) \<longleftrightarrow> unat c < 8 * len"
  proof -
    have "unat c < 2 ^ 64" unfolding uc by (rule less_trans [OF mod_less_divisor]) simp_all
    then show ?thesis unfolding p word_less_nat_alt ul unsigned_ucast_eq by (simp add: take_bit_nat_eq_self)
  qed
  have "8 * (n + len) div 2 ^ 32 = ?q + (?r + 8 * len) div 2 ^ 32"
  proof -
    have "8 * (n + len) = 2 ^ 32 * ?q + (?r + 8 * len)" unfolding add.assoc [symmetric] n(1) [symmetric] by simp
    then show ?thesis by simp
  qed
  moreover have "(?r + 8 * len) div 2 ^ 32 = (if unat c < 8 * len then 1 else 0)"
  proof (cases "?r + 8 * len < 2 ^ 32")
    case True
    then show ?thesis using uc by simp
  next
    case False
    have "8 * len < 2 ^ 32" using assms(1) by simp
    moreover obtain t where t: "?r + 8 * len = 2 ^ 32 + t" using False by (metis le_add_diff_inverse not_less)
    ultimately have lt: "t < 2 ^ 32" "t < 8 * len" using n(2) by linarith+
    have "(2 ^ 32 + t) div 2 ^ 32 = 1" "(2 ^ 32 + t) mod 2 ^ 32 = t" using lt(1) by simp_all
    then show ?thesis using uc lt(2) unfolding t by simp
  qed
  ultimately show "of_nat (8 * n div 2 ^ 32) + (if ucast c < push_bit 3 (of_nat len :: u64) then 1 else 0) + ucast (drop_bit 29 (of_nat len :: u64))
       = (of_nat (8 * (n + len) div 2 ^ 32) :: u32)"
    unfolding less d by simp
qed


lemma fill_block: "64 * Suc (n div 64) = n + (64 - n mod 64)" for n :: nat
proof -
  define q x where "q = n div 64" and "x = n mod 64"
  have "n = 64 * q + x" "x < 64" by (simp_all add: q_def x_def)
  then show ?thesis unfolding q_def [symmetric] x_def [symmetric] by simp
qed

text \<open>Every piece below 512 MB is absorbed, however the pieces cut the text.\<close>

lemma absorbed_Update:
  assumes "absorbed m ctx" "length d < 2 ^ 29" "length m + length d < 2 ^ 61"
  shows "absorbed (m @ d) (sat_SHA1_Update ctx d)"
proof -
  let ?j = "length m mod 64" and ?n = "length m div 64"
  have st: "sha_state ctx = state_list (sha1_blocks (chunks_of ?n m))" and buf: "length (sha_buffer ctx) = 64"
    "take ?j (sha_buffer ctx) = drop (64 * ?n) m" and c0: "sha_count0 ctx = of_nat (8 * length m)"
    and c1: "sha_count1 ctx = of_nat (8 * length m div 2 ^ 32)"
    using assms(1) by (simp_all only: absorbed_def)
  have j: "unat (drop_bit 3 (sha_count0 ctx) AND 63) = ?j" unfolding c0 by (rule drop3_63)
  have m: "length m = 64 * ?n + ?j" by simp
  note count = count_carry [OF assms(2,3)]
  define u where "u = sat_SHA1_Update ctx d"
  have cu: "sha_count0 u = of_nat (8 * length (m @ d))" "sha_count1 u = of_nat (8 * length (m @ d) div 2 ^ 32)"
    unfolding u_def sat_SHA1_Update_def Let_def c0 c1 length_append count(1) [symmetric] count(2) [symmetric]
    by (simp_all split: prod.split)
  show ?thesis
  proof (cases "?j + length d > 63")
    case False
    then have n: "length (m @ d) div 64 = ?n" "length (m @ d) mod 64 = ?j + length d" 
    proof -
      have "length (m @ d) = 64 * ?n + (?j + length d)" using m by simp
      then show "length (m @ d) div 64 = ?n" "length (m @ d) mod 64 = ?j + length d" using False
        by (simp_all only: div_mult_self4 mod_mult_self4) simp_all
    qed
    have u: "sha_state u = sha_state ctx" "sha_buffer u = take ?j (sha_buffer ctx) @ d @ drop (?j + length d) (sha_buffer ctx)"
      using False unfolding u_def sat_SHA1_Update_def Let_def j by simp_all
    have "64 * ?n \<le> length m" "length m - 64 * ?n = ?j" by (simp_all add: minus_mult_div_eq_mod)
    then show ?thesis
      unfolding u_def [symmetric] absorbed_def n using u buf False st cu by (simp add: chunks_of_prefix)
  next
    case True
    let ?i = "64 - ?j"
    define b where "b = take ?j (sha_buffer ctx) @ take ?i d"
    obtain s' i' where l: "update_loop d (SHA1_Transform (sha_state ctx) b) ?i = (s', i')" by fastforce
    have u: "sha_state u = s'" "sha_buffer u = drop i' d @ drop (length d - i') b"
      using True l unfolding u_def sat_SHA1_Update_def Let_def j b_def by simp_all
    have jd: "?j < 64" "?i \<le> length d" using True by simp_all
    have bn: "b = take 64 (drop (64 * ?n) (m @ d))" "length b = 64"
    proof -
      have "64 + 64 * ?n - length m = ?i" using m jd(1) by linarith
      then show "b = take 64 (drop (64 * ?n) (m @ d))" "length b = 64" using buf jd by (simp_all add: b_def)
    qed
    have "chunks_of (Suc ?n) (m @ d) = chunks_of ?n m @ [b]"
      using bn(1) by (simp add: chunks_of_Suc chunks_of_prefix)
    then have "SHA1_Transform (sha_state ctx) b = state_list (sha1_blocks (chunks_of (Suc ?n) (m @ d)))"
      by (simp add: st SHA1_Transform_compress sha1_blocks_def)
    moreover have "64 * Suc ?n = length m + ?i" by (rule fill_block)
    ultimately have "case update_loop d (SHA1_Transform (sha_state ctx) b) ?i of (s', i') \<Rightarrow>
        s' = state_list (sha1_blocks (chunks_of (length (m @ d) div 64) (m @ d))) \<and> length m + i' = 64 * (length (m @ d) div 64) \<and> i' \<le> length d"
      by (rule update_loop_ok) (use jd(2) in simp_all)
    then have e: "s' = state_list (sha1_blocks (chunks_of (length (m @ d) div 64) (m @ d)))" "length m + i' = 64 * (length (m @ d) div 64)"
      "i' \<le> length d" unfolding l prod.case by blast+
    have r: "length (m @ d) mod 64 = length d - i'" "drop (64 * (length (m @ d) div 64)) (m @ d) = drop i' d"
    proof -
      have "length (m @ d) mod 64 = length (m @ d) - 64 * (length (m @ d) div 64)" by (rule minus_mult_div_eq_mod [symmetric])
      then show "length (m @ d) mod 64 = length d - i'" unfolding e(2) [symmetric] by simp
      show "drop (64 * (length (m @ d) div 64)) (m @ d) = drop i' d" unfolding e(2) [symmetric] by simp
    qed
    have "length d - i' < 64" using r(1) by (metis mod_less_divisor zero_less_numeral)
    then show ?thesis
      unfolding u_def [symmetric] absorbed_def r using u e(1) cu bn(2) by simp
  qed
qed


section \<open>The digest\<close>

lemma and_504: "(w AND 504 \<noteq> 448) \<longleftrightarrow> unat (drop_bit 3 w AND 63) \<noteq> 56" for w :: u32
proof -
  have m: "504 = (push_bit 3 (mask 6) :: u32)" "63 = (mask 6 :: u32)" by (simp_all add: mask_eq_exp_minus_1)
  have e: "w AND 504 = push_bit 3 (drop_bit 3 w AND 63)" unfolding m by (auto intro!: bit_word_eqI simp: bit_simps)
  have d: "drop_bit 3 (push_bit 3 (drop_bit 3 w AND 63)) = drop_bit 3 w AND 63" unfolding m by (auto intro!: bit_word_eqI simp: bit_simps)
  have "drop_bit 3 w AND 63 = 56 \<longleftrightarrow> push_bit 3 (drop_bit 3 w AND 63) = (448 :: u32)"
  proof
    assume "drop_bit 3 w AND 63 = 56"
    then show "push_bit 3 (drop_bit 3 w AND 63) = (448 :: u32)" by simp
  next
    assume a: "push_bit 3 (drop_bit 3 w AND 63) = (448 :: u32)"
    have "drop_bit 3 w AND 63 = drop_bit 3 (448 :: u32)" unfolding a [symmetric] d by (rule refl)
    then show "drop_bit 3 w AND 63 = 56" by simp
  qed
  moreover have "unat x = 56 \<longleftrightarrow> x = 56" for x :: u32 using word_unat_eq_iff [of x 56] by simp
  ultimately show ?thesis unfolding e by simp
qed

lemma pad_arith:
  fixes x :: nat
  assumes "x < 64"
  shows "(120 - x) mod 64 = (if x \<le> 56 then 56 - x else 120 - x)" "(119 - x) mod 64 = (if x \<le> 55 then 55 - x else 119 - x)"
  using assms by (cases "x \<le> 56"; simp add: mod_if)+

lemma low_bits: "absorbed m ctx \<Longrightarrow> unat (drop_bit 3 (sha_count0 ctx) AND 63) = length m mod 64"
  by (simp only: absorbed_def drop3_63)

lemma final_pad_ok:
  assumes "absorbed m ctx" "length m < 2 ^ 60"
  defines "k \<equiv> (120 - length m mod 64) mod 64"
  shows "\<exists>ctx'. final_pad ctx = Some ctx' \<and> absorbed (m @ replicate k 0) ctx'"
proof -
  have gen: "\<exists>ctx'. final_pad ctx = Some ctx' \<and> absorbed (m @ replicate k 0) ctx'"
    if "absorbed m ctx" "length m + k < 2 ^ 61" "k = (120 - length m mod 64) mod 64" for k m ctx
    using that
  proof (induction k arbitrary: m ctx)
    case 0
    have "length m mod 64 < 64" by simp
    with 0(3) have "length m mod 64 = 56" by (simp add: pad_arith split: if_splits)
    then have "\<not> (sha_count0 ctx AND 504 \<noteq> 448)" unfolding and_504 low_bits [OF 0(1)] by simp
    then show ?case using 0(1) by (subst final_pad.simps) simp
  next
    case (Suc k)
    have l: "length m mod 64 < 64" by simp
    with Suc.prems(3) have n: "length m mod 64 \<noteq> 56" by auto
    then have "sha_count0 ctx AND 504 \<noteq> 448" unfolding and_504 low_bits [OF Suc.prems(1)] .
    then have "final_pad ctx = final_pad (sat_SHA1_Update ctx [0])" by (subst final_pad.simps) simp
    moreover have "absorbed (m @ [0]) (sat_SHA1_Update ctx [0])" using Suc.prems by (intro absorbed_Update) simp_all
    moreover have "k = (120 - length (m @ [0]) mod 64) mod 64"
    proof (cases "length m mod 64 = 63")
      case True
      then show ?thesis using Suc.prems(3) by (simp add: mod_Suc)
    next
      case False
      then have "length (m @ [0 :: u8]) mod 64 = Suc (length m mod 64)" by (simp add: mod_Suc)
      then show ?thesis using Suc.prems(3) n l False by (simp add: pad_arith split: if_splits)
    qed
    moreover have "length (m @ [0 :: u8]) + k < 2 ^ 61" using Suc.prems(2) by simp
    ultimately show ?case using Suc.IH [of "m @ [0]" "sat_SHA1_Update ctx [0]"] by (simp add: replicate_append_same)
  qed
  have "k < 64" by (simp add: k_def)
  then show ?thesis using gen [OF assms(1) _ k_def [THEN meta_eq_to_obj_eq]] assms(2) by simp
qed

lemma be32_counter: "be32 (of_nat (N div 2 ^ 32)) @ be32 (of_nat N) = map (\<lambda>i. of_nat (N div 256 ^ (7 - i))) [0..<8]"
proof -
  have byte: "ucast (drop_bit j (of_nat M :: u32) AND 255) = (of_nat (M div 2 ^ j) :: u8)" if "j \<le> 24" for j M
  proof (rule bit_word_eqI)
    fix n assume "n < LENGTH(8)"
    then have n: "n < 8" by simp
    have "255 = (mask 8 :: u32)" by (simp add: mask_eq_exp_minus_1)
    show "bit (ucast (drop_bit j (of_nat M :: u32) AND 255) :: u8) n = bit (of_nat (M div 2 ^ j) :: u8) n"
      unfolding \<open>255 = mask 8\<close> using that n by (simp add: bit_simps bit_of_nat_iff flip: drop_bit_eq_div)
  qed
  have u4: "[0..<4] = [0, 1, 2, 3 :: nat]" and u8: "[0..<8] = [0, 1, 2, 3, 4, 5, 6, 7 :: nat]" by (simp_all add: upt_rec)
  have be: "be32 (of_nat M) = [of_nat (M div 2 ^ 24), of_nat (M div 2 ^ 16), of_nat (M div 2 ^ 8), of_nat M]" for M
    using byte [of 24 M] byte [of 16 M] byte [of 8 M] byte [of 0 M] by (simp add: be32_def u4)
  show ?thesis
    unfolding be u8 by (simp add: div_mult2_eq [symmetric])
qed

lemma length_fips_pad: "64 dvd length (fips_pad m)"
proof -
  have "length (fips_pad m) = length m + 1 + (119 - length m mod 64) mod 64 + 8" by (simp add: fips_pad_def)
  also have "\<dots> = 64 * (length m div 64 + (if length m mod 64 \<le> 55 then 1 else 2))"
  proof -
    define q x where "q = length m div 64" and "x = length m mod 64"
    have e: "length m = 64 * q + x" "x < 64" by (simp_all add: q_def x_def)
    then show ?thesis
      unfolding q_def [symmetric] x_def [symmetric] pad_arith(2) [OF e(2)] by (cases "x \<le> 55") simp_all
  qed
  finally show ?thesis by simp
qed

lemma sat_SHA1_Final_ok:
  assumes "absorbed m ctx" "length m < 2 ^ 60 - 200"
  shows "sat_SHA1_Final ctx = Some (sha1 m)"
proof -
  let ?c = "be32 (sha_count1 ctx) @ be32 (sha_count0 ctx)" let ?k = "(119 - length m mod 64) mod 64"
  have c: "?c = map (\<lambda>i. of_nat (8 * length m div 256 ^ (7 - i))) [0..<8]"
    using assms(1) be32_counter [of "8 * length m"] by (simp only: absorbed_def)
  have a1: "absorbed (m @ [0x80]) (sat_SHA1_Update ctx [0x80])" using assms by (intro absorbed_Update) simp_all
  have "(120 - length (m @ [0x80 :: u8]) mod 64) mod 64 = ?k"
  proof -
    have "length m mod 64 < 64" by simp
    then show ?thesis by (simp add: mod_Suc)
  qed
  then obtain ctx' where p: "final_pad (sat_SHA1_Update ctx [0x80]) = Some ctx'" "absorbed ((m @ [0x80]) @ replicate ?k 0) ctx'"
    using final_pad_ok [OF a1] assms(2) by auto
  have pad: "((m @ [0x80]) @ replicate ?k 0) @ ?c = fips_pad m" unfolding c fips_pad_def by simp
  have "?k < 64" by simp
  then have "absorbed (fips_pad m) (sat_SHA1_Update ctx' ?c)"
    unfolding pad [symmetric] using assms(2) by (intro absorbed_Update [OF p(2)]) (simp_all add: be32_def)
  then have "sha_state (sat_SHA1_Update ctx' ?c) = state_list (sha1_blocks (chunks_of (length (fips_pad m) div 64) (fips_pad m)))"
    by (simp add: absorbed_def)
  moreover have "concat (map be32 (state_list h)) = digest_bytes h" for h by (cases h) (simp add: state_list_def digest_bytes_def)
  ultimately show ?thesis using p(1) by (simp add: sat_SHA1_Final_def Let_def sha1_def)
qed

text \<open>
  C26. \<open>sha1\<close> of the crypt library is SHA-1 of FIPS 180 for every text below 512 MB, whatever the context held before, and returns.
\<close>

theorem lsha1_is_sha1:
  assumes "length (sha_buffer garbage) = 64" "length text < 2 ^ 29"
  shows "lsha1 garbage text = Some (sha1 text)"
proof -
  have "absorbed ([] @ text) (sat_SHA1_Update (sat_SHA1_Init garbage) text)"
    using absorbed_Init [OF assms(1)] assms(2) by (intro absorbed_Update) simp_all
  then show ?thesis using assms(2) by (simp add: lsha1_def sat_SHA1_Final_ok)
qed


text \<open>From 512 MB on a carry is taken although the low counter did not wrap: the length is counted wrong.\<close>

lemma long_text_miscounted:
  assumes "length text = 2 ^ 29"
  shows "sha_count1 (sat_SHA1_Update (sat_SHA1_Init ctx) text) = of_nat (8 * length text div 2 ^ 32) + 1"
proof -
  let ?u = "sat_SHA1_Update (sat_SHA1_Init ctx) text"
  have l: "(of_nat (length text) :: u64) = 536870912" using assms by simp
  have "sha_count1 ?u = (if ucast (ucast (push_bit 3 (536870912 :: u64)) :: u32) < push_bit 3 (536870912 :: u64) then 1 else 0) + ucast (drop_bit 29 (536870912 :: u64))"
    unfolding sat_SHA1_Update_def Let_def l by (simp add: sat_SHA1_Init_def split: prod.split)
  also have "\<dots> = 2" by code_simp
  finally show ?thesis using assms by simp
qed

section \<open>The keyed hash\<close>

lemma xor_word_bytes:
  "le32 (of_le32 a b c d XOR of_le32 x x x x) = [a XOR x, b XOR x, c XOR x, d XOR x]"
proof -
  have "of_le32 a b c d XOR of_le32 x x x x = of_le32 (a XOR x) (b XOR x) (c XOR x) (d XOR x)"
  proof (rule bit_word_eqI)
    fix n assume "n < LENGTH(32)"
    then consider "n < 8" | "8 \<le> n \<and> n < 16" | "16 \<le> n \<and> n < 24" | "24 \<le> n \<and> n < 32" by (simp, linarith)
    then show "bit (of_le32 a b c d XOR of_le32 x x x x) n = bit (of_le32 (a XOR x) (b XOR x) (c XOR x) (d XOR x)) n"
      by cases (auto simp: of_le32_def bit_simps dest: bit_imp_le_length)
  qed
  then show ?thesis by (simp add: le32_def ucast_of_le32)
qed

lemma xor_key_ok:
  assumes "length key = 64"
  shows "xor_key key (of_le32 x x x x) = map (\<lambda>b. b XOR x) key"
proof -
  have "concat (map (\<lambda>i. map (\<lambda>b. b XOR x) [key ! (4 * i), key ! (4 * i + 1), key ! (4 * i + 2), key ! (4 * i + 3)]) [0..<n])
      = map (\<lambda>b. b XOR x) (take (4 * n) key)" if "4 * n \<le> 64" for n
    using that
  proof (induction n)
    case (Suc n)
    have "take (4 * Suc n) key = take (4 * n) key @ [key ! (4 * n), key ! (4 * n + 1), key ! (4 * n + 2), key ! (4 * n + 3)]"
      using Suc.prems assms by (simp add: take_Suc_conv_app_nth numeral_eq_Suc)
    then show ?case using Suc by simp
  qed simp
  from this [of 16] show ?thesis
    using assms by (simp add: xor_key_def block_words_def xor_word_bytes o_def)
qed

text \<open>
  \<open>hmac_sha1\<close> of the crypt library is HMAC-SHA-1 of RFC 2104 for every key and text below 512 MB, long keys included.
\<close>

theorem lhmac_sha1_is_hmac:
  assumes "length (sha_buffer garbage) = 64" "length key < 2 ^ 29" "length text < 2 ^ 29"
  shows "lhmac_sha1 garbage key text = Some (hmac_sha1 key text)"
proof -
  define k where "k = (if length key > 64 then sha1 key else key)"
  define r where "r = k @ replicate (64 - length k) 0"
  have l20: "length (sha1 m) = 20" for m
    by (cases "sha1_blocks (chunks_of (length (fips_pad m) div 64) (fips_pad m))") (simp add: sha1_def Let_def digest_bytes_def be32_def)
  have r: "length r = 64" using l20 by (simp add: r_def k_def)
  have i: "absorbed m (sat_SHA1_Update (sat_SHA1_Init garbage) m)" if "length m < 2 ^ 29" for m
    using absorbed_Update [OF absorbed_Init [OF assms(1)], of m] that by simp
  have key: "(if length key > BLOCKSIZE then do {
          digest \<leftarrow> sat_SHA1_Final (sat_SHA1_Update (sat_SHA1_Init garbage) key);
          Some (digest @ replicate (BLOCKSIZE - 20) 0)
        }
        else Some (key @ replicate (BLOCKSIZE - length key) 0)) = Some r"
    using sat_SHA1_Final_ok [OF i [OF assms(2)]] assms(2) l20 by (simp add: BLOCKSIZE_def r_def k_def)
  let ?o = "map (\<lambda>b. b XOR 0x5c) r" and ?i = "map (\<lambda>b. b XOR 0x36) r"
  have c: "0x5c5c5c5c = of_le32 0x5c 0x5c 0x5c 0x5c" "0x5c5c5c5c XOR 0x36363636 = of_le32 0x6a 0x6a 0x6a 0x6a" by code_simp+
  have "b XOR 0x5c XOR 0x6a = b XOR 0x36" for b :: u8 by (simp add: xor.assoc)
  then have x: "xor_key r 0x5c5c5c5c = ?o" "xor_key ?o (0x5c5c5c5c XOR 0x36363636) = ?i"
    using xor_key_ok [OF r, where x = "0x5c", folded c(1)] xor_key_ok [where key = ?o and x = "0x6a", folded c(2)] r by (simp_all add: xor.assoc)
  have f2: "sat_SHA1_Final (sat_SHA1_Update (sat_SHA1_Update (sat_SHA1_Init garbage) ?i) text) = Some (sha1 (?i @ text))"
    using r assms(3) by (intro sat_SHA1_Final_ok absorbed_Update i) simp_all
  have f1: "sat_SHA1_Final (sat_SHA1_Update (sat_SHA1_Update (sat_SHA1_Init garbage) ?o) (sha1 (?i @ text))) = Some (sha1 (?o @ sha1 (?i @ text)))"
    using r l20 by (intro sat_SHA1_Final_ok absorbed_Update i) simp_all
  have h: "hmac_sha1 key text = sha1 (?o @ sha1 (?i @ text))"
    unfolding hmac_sha1_def Let_def k_def [symmetric] r_def [symmetric] by (rule refl)
  show ?thesis
    unfolding lhmac_sha1_def key h using x f1 f2 by simp
qed

definition garbage0 :: SHA1_CTX where
  "garbage0 = \<lparr>sha_state = [], sha_count0 = 3, sha_count1 = 7, sha_buffer = replicate 64 0xAA\<rparr>"

text \<open>The test vector of the standard.\<close>

lemma lsha1_is_sha1_witness:
  "lsha1 garbage0 [0x61, 0x62, 0x63] = Some (sha1 [0x61, 0x62, 0x63])"
  by (rule lsha1_is_sha1) (simp_all add: garbage0_def)

lemma lhmac_sha1_is_hmac_witness:
  "lhmac_sha1 garbage0 (replicate 70 1) [2] = Some (hmac_sha1 (replicate 70 1) [2])"
  by (rule lhmac_sha1_is_hmac) (simp_all add: garbage0_def)

end
