(* ===== verification/SprotoPack.thy ===== *)
theory SprotoPack
  imports Prelude
begin

text \<open>
  The zero packing of sproto (\<open>sproto_pack\<close> and \<open>sproto_unpack\<close> of \<open>lualib-src/sproto/sproto.c\<close>): eight bytes become a
  header with a bit for each byte that is not zero and those bytes, or join a run of up to 256 segments that is
  copied as it is. Memory is a list of bytes; a read or a write outside it, and a copy through a pointer to the
  temporary segment of an earlier turn, is \<open>None\<close>. Sizes are below \<open>2 ^ 31\<close>.
\<close>

section \<open>Packing\<close>

definition put :: "nat \<Rightarrow> bytes \<Rightarrow> bytes \<Rightarrow> bytes option" where
  "put p bs mem = (if p + length bs \<le> length mem then Some (take p mem @ bs @ drop (p + length bs) mem) else None)"

primrec seg_loop :: "bytes \<Rightarrow> nat \<Rightarrow> nat \<times> u8 \<times> nat \<times> int \<times> bytes \<Rightarrow> (nat \<times> u8 \<times> nat \<times> int \<times> bytes) option" where
  "seg_loop [] i s = Some s"
| "seg_loop (x # xs) i s =
     (case s of (notzero, header, buffer, sz, mem) \<Rightarrow>
        if x \<noteq> 0 then
          if sz > 0 then do {
            mem \<leftarrow> put buffer [x] mem;
            seg_loop xs (i + 1) (notzero + 1, header OR push_bit i 1, buffer + 1, sz - 1, mem)
          }
          else seg_loop xs (i + 1) (notzero + 1, header OR push_bit i 1, buffer, sz, mem)
        else seg_loop xs (i + 1) (notzero, header, buffer, sz, mem))"

definition pack_seg :: "bytes \<Rightarrow> nat \<Rightarrow> int \<Rightarrow> nat \<Rightarrow> bytes \<Rightarrow> (nat \<times> bytes) option" where
  "pack_seg src buffer sz n mem = do {
     (notzero, header, _, _, mem) \<leftarrow> seg_loop src 0 (0, 0, buffer + 1, sz - 1, mem);
     let notzero = (if (notzero = 7 \<or> notzero = 6) \<and> n > 0 then 8 else notzero);
     if notzero = 8 then Some (if n > 0 then 8 else 10, mem)
     else do {
       mem \<leftarrow> (if sz - 1 < 0 then Some mem else put buffer [header] mem);
       Some (notzero + 1, mem)
     }
   }"

text \<open>The start of a run is an offset into the source; \<open>None\<close> is a pointer to the temporary segment.\<close>

definition write_ff :: "bytes \<Rightarrow> nat option \<Rightarrow> nat \<Rightarrow> nat \<Rightarrow> bytes \<Rightarrow> bytes option" where
  "write_ff source src des n mem = do {
     s \<leftarrow> src;
     mem \<leftarrow> put des [0xff, of_nat (n - 1)] mem;
     if s + n * 8 \<le> length source then put (des + 2) (take (n * 8) (drop s source)) mem
     else put (des + 2) (drop s source @ replicate (n * 8 - (length source - s)) 0) mem
   }"

record pack_state =
  pk_mem :: bytes
  pk_buffer :: nat
  pk_bufsz :: int
  pk_size :: nat
  pk_ff_n :: nat
  pk_ff_src :: "nat option"
  pk_ff_des :: nat

definition segment :: "bytes \<Rightarrow> nat \<Rightarrow> bytes" where
  "segment source i = take 8 (drop i source) @ replicate (i + 8 - length source) 0"

definition pack_turn :: "bytes \<Rightarrow> nat \<Rightarrow> pack_state \<Rightarrow> pack_state option" where
  "pack_turn source i st = do {
     let src = (if i + 8 > length source then None else Some i);
     (n, mem) \<leftarrow> pack_seg (segment source i) (pk_buffer st) (pk_bufsz st) (pk_ff_n st) (pk_mem st);
     let st = st\<lparr>pk_mem := mem, pk_bufsz := pk_bufsz st - int n\<rparr>;
     st \<leftarrow>
       (if n = 10 then Some (st\<lparr>pk_ff_src := src, pk_ff_des := pk_buffer st, pk_ff_n := 1\<rparr>)
        else if n = 8 \<and> pk_ff_n st > 0 then
          (let st = st\<lparr>pk_ff_n := pk_ff_n st + 1\<rparr> in
           if pk_ff_n st = 256 then do {
             mem \<leftarrow> (if pk_bufsz st \<ge> 0 then write_ff source (pk_ff_src st) (pk_ff_des st) 256 (pk_mem st) else Some (pk_mem st));
             Some (st\<lparr>pk_mem := mem, pk_ff_n := 0\<rparr>)
           }
           else Some st)
        else if pk_ff_n st > 0 then do {
          mem \<leftarrow> (if pk_bufsz st \<ge> 0 then write_ff source (pk_ff_src st) (pk_ff_des st) (pk_ff_n st) (pk_mem st) else Some (pk_mem st));
          Some (st\<lparr>pk_mem := mem, pk_ff_n := 0\<rparr>)
        }
        else Some st);
     Some (st\<lparr>pk_buffer := pk_buffer st + n, pk_size := pk_size st + n\<rparr>)
   }"

function pack_loop :: "bytes \<Rightarrow> nat \<Rightarrow> pack_state \<Rightarrow> pack_state option" where
  "pack_loop source i st =
     (if i < length source then do { st \<leftarrow> pack_turn source i st; pack_loop source (i + 8) st } else Some st)"
  by pat_completeness auto
termination
  by (relation "measure (\<lambda>(source, i, st). length source - i)") auto

declare pack_loop.simps [simp del]

definition sproto_pack :: "bytes \<Rightarrow> bytes \<Rightarrow> (nat \<times> bytes) option" where
  "sproto_pack source mem = do {
     st \<leftarrow> pack_loop source 0 \<lparr>pk_mem = mem, pk_buffer = 0, pk_bufsz = int (length mem), pk_size = 0, pk_ff_n = 0, pk_ff_src = None, pk_ff_des = 0\<rparr>;
     mem \<leftarrow> (if pk_bufsz st \<ge> 0 \<and> pk_ff_n st > 0 then write_ff source (pk_ff_src st) (pk_ff_des st) (pk_ff_n st) (pk_mem st) else Some (pk_mem st));
     Some (pk_size st, mem)
   }"

section \<open>Unpacking\<close>

definition peek :: "bytes \<Rightarrow> nat \<Rightarrow> u8 option" where
  "peek mem p = (if p < length mem then Some (mem ! p) else None)"

text \<open>
  The source is the first \<open>srcsz\<close> bytes at offset \<open>src\<close> of the memory \<open>mem\<close>, which may be longer. \<open>Some None\<close> is the result -1.
\<close>

type_synonym unpack_state = "nat \<times> int \<times> nat \<times> int \<times> bytes"

primrec unpack_bits :: "nat \<Rightarrow> bytes \<Rightarrow> u8 \<Rightarrow> unpack_state \<Rightarrow> unpack_state option option" where
  "unpack_bits 0 mem header s = Some (Some s)"
| "unpack_bits (Suc k) mem header s =
     (case s of (src, srcsz, buffer, bufsz, out) \<Rightarrow>
        if bit header (7 - k) then
          if srcsz < 0 then Some None
          else do {
            b \<leftarrow> peek mem src;
            if bufsz > 0 then do {
              out \<leftarrow> put buffer [b] out;
              unpack_bits k mem header (src + 1, srcsz - 1, buffer + 1, bufsz - 1, out)
            }
            else unpack_bits k mem header (src + 1, srcsz - 1, buffer, bufsz, out)
          }
        else if bufsz > 0 then do {
          out \<leftarrow> put buffer [0] out;
          unpack_bits k mem header (src, srcsz, buffer + 1, bufsz - 1, out)
        }
        else unpack_bits k mem header (src, srcsz, buffer, bufsz, out))"

partial_function (option) unpack_loop :: "bytes \<Rightarrow> unpack_state \<Rightarrow> nat \<Rightarrow> (nat \<times> bytes) option option" where
  "unpack_loop mem s done_n =
     (case s of (src, srcsz, buffer, bufsz, out) \<Rightarrow>
        if srcsz > 0 then do {
          header \<leftarrow> peek mem src;
          let srcsz = srcsz - 1;
          let src = src + 1;
          if header = 0xff then
            if srcsz < 0 then Some None
            else do {
              c \<leftarrow> peek mem src;
              let n = (unat c + 1) * 8;
              if srcsz < int (n + 1) then Some None
              else do {
                let srcsz = srcsz - int (n + 1);
                let src = src + 1;
                out \<leftarrow> (if bufsz \<ge> int n then if src + n \<le> length mem then put buffer (take n (drop src mem)) out else None
                        else Some out);
                unpack_loop mem (src + n, srcsz, buffer + n, bufsz - int n, out) (done_n + n)
              }
            }
          else do {
            r \<leftarrow> unpack_bits 8 mem header (src, srcsz, buffer, bufsz, out);
            case r of None \<Rightarrow> Some None | Some s \<Rightarrow> unpack_loop mem s (done_n + 8)
          }
        }
        else Some (Some (done_n, out)))"

definition sproto_unpack :: "bytes \<Rightarrow> nat \<Rightarrow> bytes \<Rightarrow> (nat \<times> bytes) option option" where
  "sproto_unpack mem srcsz out = unpack_loop mem (0, int srcsz, 0, int (length out), out) 0"

section \<open>The format\<close>

text \<open>What a packed string stands for.\<close>

primrec spread :: "nat \<Rightarrow> u8 \<Rightarrow> bytes \<Rightarrow> (bytes \<times> bytes) option" where
  "spread 0 h bs = Some ([], bs)"
| "spread (Suc k) h bs =
     (if bit h (7 - k) then
        (case bs of [] \<Rightarrow> None | b # bs \<Rightarrow> map_option (\<lambda>(xs, r). (b # xs, r)) (spread k h bs))
      else map_option (\<lambda>(xs, r). (0 # xs, r)) (spread k h bs))"

lemma spread_length: "spread k h bs = Some (xs, r) \<Longrightarrow> length xs = k \<and> length r \<le> length bs"
  by (induction k arbitrary: bs xs r) (fastforce split: if_splits list.splits)+

lemma spread_append: "spread k h a = Some (xs, u) \<Longrightarrow> spread k h (a @ b) = Some (xs, u @ b)"
proof (induction k arbitrary: a xs u)
  case (Suc k)
  show ?case
  proof (cases "bit h (7 - k)")
    case True
    then obtain y ys xs' where "a = y # ys" "spread k h ys = Some (xs', u)" "xs = y # xs'"
      using Suc.prems by (auto split: list.splits)
    then show ?thesis using True Suc.IH by simp
  next
    case False
    then obtain xs' where "spread k h a = Some (xs', u)" "xs = 0 # xs'" using Suc.prems by auto
    then show ?thesis using False Suc.IH by simp
  qed
qed simp

function expand :: "bytes \<Rightarrow> bytes option" where
  "expand [] = Some []"
| "expand (h # t) =
     (if h = 0xff then
        (case t of [] \<Rightarrow> None
         | c # t \<Rightarrow>
             if length t < (unat c + 1) * 8 then None
             else map_option (\<lambda>r. take ((unat c + 1) * 8) t @ r) (expand (drop ((unat c + 1) * 8) t)))
      else
        (case spread 8 h t of None \<Rightarrow> None
         | Some (xs, t) \<Rightarrow> map_option (\<lambda>r. xs @ r) (expand t)))"
  by pat_completeness auto
termination
  by (relation "measure length") (auto dest: spread_length)

declare expand.simps(2) [simp del]

lemma expand_append:
  assumes "expand a = Some x"
  shows "expand (a @ b) = map_option ((@) x) (expand b)"
  using assms
proof (induction a arbitrary: x rule: expand.induct)
  case (2 h t)
  show ?case
  proof (cases "h = 0xff")
    case True
    then obtain c u where u: "t = c # u" "\<not> length u < (unat c + 1) * 8"
      using "2.prems" by (auto simp: expand.simps(2) split: list.splits if_splits)
    let ?n = "(unat c + 1) * 8"
    obtain r where r: "expand (drop ?n u) = Some r" "x = take ?n u @ r"
      using "2.prems" True u by (auto simp: expand.simps(2))
    have "expand (drop ?n u @ b) = map_option ((@) r) (expand b)" by (rule "2.IH"(1) [OF True u r(1)])
    moreover have "drop ?n (u @ b) = drop ?n u @ b" "take ?n (u @ b) = take ?n u" using u(2) by simp_all
    ultimately show ?thesis
      using True u r(2) by (cases "expand b") (simp_all add: expand.simps(2) del: drop_append take_append mult_Suc)
  next
    case False
    then obtain xs u where u: "spread 8 h t = Some (xs, u)" using "2.prems" by (auto simp: expand.simps(2) split: option.splits)
    obtain r where r: "expand u = Some r" "x = xs @ r" using "2.prems" False u by (auto simp: expand.simps(2))
    have "expand (u @ b) = map_option ((@) r) (expand b)" by (rule "2.IH"(2) [OF False u refl r(1)])
    then show ?thesis using False spread_append [OF u] r(2) by (cases "expand b") (simp_all add: expand.simps(2))
  qed
qed (cases "expand b"; simp)


section \<open>Unpacking follows the format\<close>

lemma put_ok: "p + length bs \<le> length mem \<Longrightarrow> put p bs mem = Some (take p mem @ bs @ drop (p + length bs) mem)"
  by (simp add: put_def)

text \<open>The state after \<open>xs\<close> was written from the source; the memory is long enough for the rest.\<close>

lemma put_next:
  assumes "length xs + length ys \<le> length out - p" "p \<le> length out"
  shows "put (p + length xs) ys (take p out @ xs @ drop (p + length xs) out) = Some (take p out @ (xs @ ys) @ drop (p + length (xs @ ys)) out)"
  using assms by (simp add: put_def add.assoc) (simp add: add.commute add.left_commute)

lemma overwrite_twice:
  assumes "length a = m" "d + m \<le> length out"
  shows "take (d + m) (take d out @ a @ drop (d + m) out) @ r @ drop (d + m + n) (take d out @ a @ drop (d + m) out) =
    take d out @ (a @ r) @ drop (d + (m + n)) out"
  using assms by (simp add: min_def ac_simps)

lemma unpack_bits_ok:
  assumes "spread k h bs = Some (xs, r)" "mem = pre @ bs" "int (length out) = int d + bufsz" "int k \<le> bufsz"
  shows "unpack_bits k mem h (length pre, int (length bs), d, bufsz, out) =
    Some (Some (length pre + (length bs - length r), int (length r), d + k, bufsz - int k, take d out @ xs @ drop (d + k) out)) \<and>
    (\<exists>pre'. mem = pre' @ r \<and> length pre' = length pre + (length bs - length r))"
  using assms
proof (induction k arbitrary: bs xs pre d bufsz out)
  case (Suc k)
  have d: "d < length out" "0 < bufsz" using Suc.prems(3,4) by linarith+
  show ?case
  proof (cases "bit h (7 - k)")
    case True
    then obtain y ys xs' where y: "bs = y # ys" "spread k h ys = Some (xs', r)" "xs = y # xs'"
      using Suc.prems(1) by (auto split: list.splits)
    let ?out = "take d out @ [y] @ drop (d + 1) out"
    have l: "length r \<le> length ys" using spread_length [OF y(2)] by simp
    have "int (length ?out) = int (d + 1) + (bufsz - 1)" "mem = (pre @ [y]) @ ys" using d Suc.prems(2,3) y(1) by simp_all
    note IH = Suc.IH [OF y(2) this(2) this(1)]
    then have u: "unpack_bits k mem h (length pre + 1, int (length ys), d + 1, bufsz - 1, ?out) =
        Some (Some (length pre + 1 + (length ys - length r), int (length r), d + 1 + k, bufsz - 1 - int k, take (d + 1) ?out @ xs' @ drop (d + 1 + k) ?out))"
      "\<exists>pre'. mem = pre' @ r \<and> length pre' = length pre + 1 + (length ys - length r)"
      using Suc.prems(4) by simp_all
    have "take (d + 1) ?out @ xs' @ drop (d + 1 + k) ?out = take d out @ xs @ drop (d + Suc k) out"
      using d y(3) by (simp add: min_def add.commute)
    then show ?thesis
      using u l True d y(1) Suc.prems(2) by (simp add: peek_def put_ok Suc_diff_le)
  next
    case False
    then obtain xs' where y: "spread k h bs = Some (xs', r)" "xs = 0 # xs'" using Suc.prems(1) by auto
    let ?out = "take d out @ [0] @ drop (d + 1) out"
    have "int (length ?out) = int (d + 1) + (bufsz - 1)" using d Suc.prems(3) by simp
    note IH = Suc.IH [OF y(1) Suc.prems(2) this]
    have "take (d + 1) ?out @ xs' @ drop (d + 1 + k) ?out = take d out @ xs @ drop (d + Suc k) out"
      using d y(2) by (simp add: min_def add.commute)
    then show ?thesis using IH False d Suc.prems(4) by (simp add: put_ok)
  qed
qed simp

lemma unpack_loop_ok:
  assumes "expand bs = Some o'" "mem = pre @ bs" "int (length out) = int d + bufsz" "int (length o') \<le> bufsz"
  shows "unpack_loop mem (length pre, int (length bs), d, bufsz, out) n =
    Some (Some (n + length o', take d out @ o' @ drop (d + length o') out))"
  using assms
proof (induction bs arbitrary: o' pre d bufsz out n rule: expand.induct)
  case 1
  then show ?case by (subst unpack_loop.simps) simp
next
  case (2 h t)
  have pk: "peek mem (length pre) = Some h" using "2.prems"(2) by (simp add: peek_def)
  show ?case
  proof (cases "h = 0xff")
    case True
    then obtain c u where u: "t = c # u" "\<not> length u < (unat c + 1) * 8"
      using "2.prems"(1) by (auto simp: expand.simps(2) split: list.splits if_splits)
    let ?m = "(unat c + 1) * 8" let ?pre = "pre @ h # c # take ?m u"
    obtain r where r: "expand (drop ?m u) = Some r" "o' = take ?m u @ r"
      using "2.prems"(1) True u by (auto simp: expand.simps(2))
    have m: "?m \<le> length u" "0 < ?m" using u(2) by (simp_all only: not_less) simp
    let ?out = "take d out @ take ?m u @ drop (d + ?m) out"
    have len: "length o' = ?m + length r" using r(2) m(1) by (simp del: mult_Suc)
    have d: "d + ?m \<le> length out" using "2.prems"(3,4) len by linarith
    have c: "peek mem (length pre + 1) = Some c" using "2.prems"(2) u(1) by (simp add: peek_def nth_append)
    have src: "take ?m (drop (length pre + 2) mem) = take ?m u" "length pre + 2 + ?m \<le> length mem" "mem = ?pre @ drop ?m u"
      using "2.prems"(2) u(1) m(1) by (simp_all del: mult_Suc)
    have sz: "int (length ?out) = int (d + ?m) + (bufsz - int ?m)" "int (length r) \<le> bufsz - int ?m"
      using "2.prems"(3,4) len d m(1) by (simp_all del: mult_Suc)
    have "unpack_loop mem (length ?pre, int (length (drop ?m u)), d + ?m, bufsz - int ?m, ?out) (n + ?m) =
        Some (Some (n + ?m + length r, take (d + ?m) ?out @ r @ drop (d + ?m + length r) ?out))"
      by (rule "2.IH"(1) [OF True u r(1) src(3) sz])
    moreover have "take (d + ?m) ?out @ r @ drop (d + ?m + length r) ?out = take d out @ o' @ drop (d + length o') out"
      unfolding len unfolding r(2) using m(1) d by (intro overwrite_twice) simp_all
    moreover have "8 + uint c * 8 \<le> bufsz" using "2.prems"(4) unfolding len by simp
    then have "unpack_loop mem (length pre, int (length (h # t)), d, bufsz, out) n =
        unpack_loop mem (length ?pre, int (length (drop ?m u)), d + ?m, bufsz - int ?m, ?out) (n + ?m)"
      using pk c True u(1) m src(1,2) d "2.prems"(3) len
      by (subst unpack_loop.simps) (simp add: put_ok Let_def diff_diff_eq add.commute [of "uint c * 8"] del: mult_Suc)
    ultimately show ?thesis using len by simp
  next
    case False
    then obtain xs u where u: "spread 8 h t = Some (xs, u)" using "2.prems"(1) by (auto simp: expand.simps(2) split: option.splits)
    obtain r where r: "expand u = Some r" "o' = xs @ r" using "2.prems"(1) False u by (auto simp: expand.simps(2))
    have l: "length xs = 8" using spread_length [OF u] by simp
    have mem: "mem = (pre @ [h]) @ t" using "2.prems"(2) by simp
    have b8: "int 8 \<le> bufsz" using "2.prems"(4) r(2) l by simp
    let ?out = "take d out @ xs @ drop (d + 8) out"
    note b = unpack_bits_ok [OF u mem "2.prems"(3) b8]
    then obtain pre' where pre': "mem = pre' @ u" "length pre' = length pre + 1 + (length t - length u)" by auto
    have sz: "int (length ?out) = int (d + 8) + (bufsz - int 8)" "int (length r) \<le> bufsz - int 8"
      using "2.prems"(3,4) r(2) l b8 by simp_all
    have "unpack_loop mem (length pre', int (length u), d + 8, bufsz - int 8, ?out) (n + 8) =
        Some (Some (n + 8 + length r, take (d + 8) ?out @ r @ drop (d + 8 + length r) ?out))"
      by (rule "2.IH"(2) [OF False u refl r(1) pre'(1) sz])
    moreover have "take (d + 8) ?out @ r @ drop (d + 8 + length r) ?out = take d out @ o' @ drop (d + length o') out"
      unfolding r(2) length_append l using b8 "2.prems"(3) l by (intro overwrite_twice) simp_all
    moreover have "unpack_loop mem (length pre, int (length (h # t)), d, bufsz, out) n =
        unpack_loop mem (length pre', int (length u), d + 8, bufsz - int 8, ?out) (n + 8)"
      using pk False b pre'(2) by (subst unpack_loop.simps) (simp add: Let_def)
    ultimately show ?thesis using r(2) l by simp
  qed
qed

lemma sproto_unpack_expand:
  assumes "expand src = Some x" "length x \<le> length out"
  shows "sproto_unpack src (length src) out = Some (Some (length x, x @ drop (length x) out))"
  using unpack_loop_ok [OF assms(1), of src "[]" out 0 "int (length out)" 0] assms(2) by (simp add: sproto_unpack_def)


section \<open>Packing writes the format\<close>

abbreviation nz :: "u8 \<Rightarrow> bool" where "nz b \<equiv> b \<noteq> 0"

primrec header_of :: "nat \<Rightarrow> bytes \<Rightarrow> u8" where
  "header_of i [] = 0"
| "header_of i (x # xs) = (if nz x then push_bit i 1 else 0) OR header_of (i + 1) xs"

lemma bit_header_of:
  "j < 8 \<Longrightarrow> i + length xs \<le> 8 \<Longrightarrow> bit (header_of i xs) j \<longleftrightarrow> i \<le> j \<and> j < i + length xs \<and> nz (xs ! (j - i))"
proof (induction xs arbitrary: i)
  case (Cons x xs)
  have "bit (push_bit i 1 :: u8) j \<longleftrightarrow> i = j" using Cons.prems by (auto simp: bit_exp_iff)
  then show ?case using Cons by (auto simp: bit_or_iff nth_Cons' not_less le_Suc_eq Suc_le_eq)
qed simp

text \<open>The stores stay in the memory although \<open>sz\<close> may be negative; what is left of them below \<open>buffer\<close> is unchanged.\<close>

lemma seg_loop_ok:
  assumes "int (length mem) = int buffer + sz"
  shows "\<exists>buffer' sz' mem'. seg_loop xs i (k, h, buffer, sz, mem) = Some (k + length (filter nz xs), h OR header_of i xs, buffer', sz', mem') \<and>
    length mem' = length mem \<and> take buffer mem' = take buffer mem \<and>
    (int (length (filter nz xs)) \<le> sz \<longrightarrow> take (length (filter nz xs)) (drop buffer mem') = filter nz xs)"
  using assms
proof (induction xs arbitrary: i k h buffer sz mem)
  case (Cons x xs)
  show ?case
  proof (cases "nz x \<and> sz > 0")
    case True
    then have p: "put buffer [x] mem = Some (take buffer mem @ [x] @ drop (buffer + 1) mem)" using Cons.prems by (simp add: put_def)
    let ?mem = "take buffer mem @ [x] @ drop (buffer + 1) mem"
    have lt: "buffer < length mem" using True Cons.prems by linarith
    have l1: "length ?mem = length mem" using lt by simp
    have l2: "int (length ?mem) = int (buffer + 1) + (sz - 1)" unfolding l1 using Cons.prems by simp
    note l = l1 l2
    obtain b' s' m' where r: "seg_loop xs (i + 1) (k + 1, h OR push_bit i 1, buffer + 1, sz - 1, ?mem) =
        Some (k + 1 + length (filter nz xs), (h OR push_bit i 1) OR header_of (i + 1) xs, b', s', m')"
      "length m' = length ?mem" "take (buffer + 1) m' = take (buffer + 1) ?mem"
      "int (length (filter nz xs)) \<le> sz - 1 \<Longrightarrow> take (length (filter nz xs)) (drop (buffer + 1) m') = filter nz xs"
      using Cons.IH [OF l(2)] by blast
    have t: "take buffer m' = take buffer mem" "m' ! buffer = x"
    proof -
      have "take buffer m' = take buffer (take (buffer + 1) ?mem)" unfolding r(3) [symmetric] by simp
      then show "take buffer m' = take buffer mem" using True Cons.prems by simp
      have "m' ! buffer = take (buffer + 1) m' ! buffer" by simp
      then show "m' ! buffer = x" unfolding r(3) using True Cons.prems by (simp add: nth_append)
    qed
    have "take (Suc n) (drop buffer m') = x # take n (drop (buffer + 1) m')" for n
      using t(2) l r(2) True Cons.prems by (simp add: take_Suc_conv_app_nth Cons_nth_drop_Suc [symmetric])
    then show ?thesis using True p r t l(1) by (simp add: or.assoc)
  next
    case False
    then show ?thesis
    proof (cases "nz x")
      case True
      obtain b' s' m' where r: "seg_loop xs (i + 1) (k + 1, h OR push_bit i 1, buffer, sz, mem) =
          Some (k + 1 + length (filter nz xs), (h OR push_bit i 1) OR header_of (i + 1) xs, b', s', m')"
        "length m' = length mem" "take buffer m' = take buffer mem"
        using Cons.IH [OF Cons.prems] by blast
      then show ?thesis using True False by (simp add: or.assoc)
    next
      case z: False
      then show ?thesis using Cons.IH [OF Cons.prems, of "i + 1" k h] by simp
    qed
  qed
qed simp

definition seg_kind :: "bytes \<Rightarrow> nat \<Rightarrow> nat" where
  "seg_kind src n =
     (let k = length (filter nz src); k = (if (k = 7 \<or> k = 6) \<and> n > 0 then 8 else k)
      in if k = 8 then if n > 0 then 8 else 10 else k + 1)"

lemma seg_kind_cases:
  assumes "length src = 8"
  defines "k \<equiv> length (filter nz src)"
  obtains (run) "k = 8 \<or> (k = 7 \<or> k = 6) \<and> n > 0" "seg_kind src n = (if n > 0 then 8 else 10)"
  | (bits) "k < 8" "n > 0 \<Longrightarrow> k < 6" "seg_kind src n = k + 1"
proof -
  have k8: "k \<le> 8" using length_filter_le [of nz src] assms by simp
  have e: "seg_kind src n = (if k = 8 \<or> (k = 7 \<or> k = 6) \<and> n > 0 then if n > 0 then 8 else 10 else k + 1)"
    by (simp add: seg_kind_def k_def Let_def)
  show ?thesis
  proof (cases "k = 8 \<or> (k = 7 \<or> k = 6) \<and> n > 0")
    case False
    then show ?thesis using e k8 by (intro bits) auto
  qed (use e in \<open>intro run, simp_all\<close>)
qed

lemma pack_seg_ok:
  assumes "int (length mem) = int p + sz" "length src = 8"
  shows "\<exists>mem'. pack_seg src p sz n mem = Some (seg_kind src n, mem') \<and> length mem' = length mem \<and> take p mem' = take p mem \<and>
    (seg_kind src n \<noteq> 8 \<or> n = 0 \<longrightarrow> seg_kind src n \<noteq> 10 \<longrightarrow> int (seg_kind src n) \<le> sz \<longrightarrow>
      take (seg_kind src n) (drop p mem') = header_of 0 src # filter nz src)"
proof -
  let ?k = "length (filter nz src)"
  obtain b' s' m where r: "seg_loop src 0 (0, 0, p + 1, sz - 1, mem) = Some (?k, header_of 0 src, b', s', m)"
    "length m = length mem" "take (p + 1) m = take (p + 1) mem" "int ?k \<le> sz - 1 \<Longrightarrow> take ?k (drop (p + 1) m) = filter nz src"
    using seg_loop_ok [of mem "p + 1" "sz - 1" src 0 0 0] assms by auto
  have t: "take p m = take p mem" using arg_cong [OF r(3), of "take p"] by simp
  have put: "0 < sz \<Longrightarrow> put p [header_of 0 src] m = Some (take p m @ header_of 0 src # drop (p + 1) m)"
    using assms r(2) by (simp add: put_def)
  show ?thesis
  proof (cases rule: seg_kind_cases [OF assms(2), of n, case_names run bits])
    case run
    then have "pack_seg src p sz n mem = Some (seg_kind src n, m)" using r(1) by (auto simp: pack_seg_def)
    then show ?thesis using run(2) r(2) t by auto
  next
    case bits
    note k = bits(3)
    let ?m = "if 0 < sz then take p m @ header_of 0 src # drop (p + 1) m else m"
    have c: "?k \<noteq> 8" "n = 0 \<or> ?k \<noteq> 7 \<and> ?k \<noteq> 6" using bits(1,2) by auto
    have "pack_seg src p sz n mem = Some (seg_kind src n, ?m)"
    proof (cases "0 < sz")
      case True
      then show ?thesis using c put [OF True] r(1) True unfolding k by (auto simp: pack_seg_def)
    next
      case False
      then show ?thesis using c r(1) False unfolding k by (auto simp: pack_seg_def)
    qed
    moreover have "length ?m = length mem" "take p ?m = take p mem" using assms r(2) t by (auto simp: min_def)
    moreover have "take (seg_kind src n) (drop p ?m) = header_of 0 src # filter nz src" if "int (seg_kind src n) \<le> sz"
    proof -
      have "0 < sz" "p < length m" using that k assms r(2) by linarith+
      then have "drop p ?m = header_of 0 src # drop (p + 1) m" by simp
      then show ?thesis using r(4) that k by simp
    qed
    ultimately show ?thesis by blast
  qed
qed


text \<open>A header with its bytes stands for its segment, a run for its segments.\<close>

lemma spread_header:
  assumes "length xs = k" "k \<le> 8" "\<And>j. j < k \<Longrightarrow> bit h (8 - k + j) \<longleftrightarrow> nz (xs ! j)"
  shows "spread k h (filter nz xs) = Some (xs, [])"
  using assms
proof (induction xs arbitrary: k)
  case (Cons x xs)
  have k: "k = Suc (length xs)" "7 - length xs = 8 - k" using Cons.prems(1,2) by auto
  have "spread (length xs) h (filter nz xs) = Some (xs, [])"
  proof (rule Cons.IH [OF refl])
    show "bit h (8 - length xs + j) \<longleftrightarrow> nz (xs ! j)" if "j < length xs" for j
    proof -
      have e: "8 - k + Suc j = 8 - length xs + j" using k Cons.prems(2) by simp
      have "bit h (8 - k + Suc j) \<longleftrightarrow> nz ((x # xs) ! Suc j)" by (rule Cons.prems(3)) (use that k(1) in simp)
      then show ?thesis unfolding e by simp
    qed
  qed (use Cons.prems in simp)
  moreover have "bit h (8 - k) \<longleftrightarrow> nz x" using Cons.prems(3) [of 0] k(1) by simp
  ultimately show ?case using k(1) by simp
qed simp

lemma expand_segment:
  assumes "length seg = 8" "length (filter nz seg) < 8"
  shows "expand (header_of 0 seg # filter nz seg) = Some seg"
proof -
  have b: "bit (header_of 0 seg) j \<longleftrightarrow> nz (seg ! j)" if "j < 8" for j using that assms(1) by (simp add: bit_header_of)
  have sp: "spread 8 (header_of 0 seg) (filter nz seg) = Some (seg, [])" by (rule spread_header [OF assms(1)]) (simp_all add: b)
  have "header_of 0 seg \<noteq> 0xff"
  proof
    assume h: "header_of 0 seg = 0xff"
    have "\<forall>x \<in> set seg. nz x"
    proof
      fix x assume "x \<in> set seg"
      then obtain j where j: "j < 8" "seg ! j = x" using assms(1) by (metis in_set_conv_nth)
      have "(0xff :: u8) = mask 8" by (simp add: mask_eq_exp_minus_1)
      then show "nz x" using b [OF j(1)] j unfolding h \<open>0xff = mask 8\<close> by (simp add: bit_mask_iff)
    qed
    then show False using assms by (simp add: filter_id_conv [THEN iffD2])
  qed
  then show ?thesis by (simp add: expand.simps(2) sp)
qed

lemma expand_run:
  assumes "0 < n" "n \<le> 256" "length W = 8 * n"
  shows "expand (0xff # of_nat (n - 1) # W) = Some W"
proof -
  obtain m where "n = Suc m" using assms(1) by (cases n) auto
  then have "unat (of_nat (n - 1) :: u8) = n - 1" using assms(2) by (simp add: unat_of_nat)
  then have "(unat (of_nat (n - 1) :: u8) + 1) * 8 = length W" using assms by simp
  then show ?thesis by (simp add: expand.simps(2))
qed

section \<open>The loop\<close>

text \<open>The source up to \<open>i\<close>, filled up with zeros.\<close>

definition upto_seg :: "bytes \<Rightarrow> nat \<Rightarrow> bytes" where
  "upto_seg source i = take i source @ replicate (i - length source) 0"

lemma upto_seg_add: "s \<le> length source \<Longrightarrow> upto_seg source (s + m) = upto_seg source s @ take m (drop s source) @ replicate (s + m - length source) 0"
  by (simp add: upto_seg_def take_add)

lemma segment_length [simp]: "i \<le> length source \<Longrightarrow> length (segment source i) = 8"
  by (simp add: segment_def)

lemma upto_seg_8: "i \<le> length source \<Longrightarrow> upto_seg source (i + 8) = upto_seg source i @ segment source i"
  by (simp add: upto_seg_add segment_def)

lemma write_ff_ok:
  assumes "s \<le> length source" "0 < n" "n \<le> 256" "d + 2 + 8 * n \<le> length mem"
  defines "W \<equiv> take (8 * n) (drop s source) @ replicate (s + 8 * n - length source) 0"
  shows "write_ff source (Some s) d n mem = Some (take d mem @ (0xff # of_nat (n - 1) # W) @ drop (d + 2 + 8 * n) mem)"
    "length W = 8 * n" "upto_seg source (s + 8 * n) = upto_seg source s @ W"
proof -
  show l: "length W = 8 * n" using assms(1) by (auto simp: W_def)
  show "upto_seg source (s + 8 * n) = upto_seg source s @ W" using upto_seg_add [OF assms(1)] by (simp add: W_def)
  have "(if s + n * 8 \<le> length source then take (n * 8) (drop s source) else drop s source @ replicate (n * 8 - (length source - s)) 0) = W"
    using assms(1) by (auto simp: W_def mult.commute)
  moreover have "put (d + 2) W (take d mem @ [0xff, of_nat (n - 1)] @ drop (d + 2) mem) = Some (take d mem @ (0xff # of_nat (n - 1) # W) @ drop (d + 2 + 8 * n) mem)"
  proof -
    have "d + 8 * n \<le> length mem - 2" using assms(4) by linarith
    then show ?thesis using assms(4) l by (simp add: put_def min_def add.commute)
  qed
  ultimately show "write_ff source (Some s) d n mem = Some (take d mem @ (0xff # of_nat (n - 1) # W) @ drop (d + 2 + 8 * n) mem)"
    using assms(4) unfolding write_ff_def by (auto simp: put_ok split: if_splits)
qed

definition pack_inv :: "bytes \<Rightarrow> nat \<Rightarrow> nat \<Rightarrow> pack_state \<Rightarrow> bool" where
  "pack_inv source i L st \<longleftrightarrow>
     length (pk_mem st) = L \<and> pk_bufsz st = int L - int (pk_buffer st) \<and> pk_size st = pk_buffer st \<and> pk_ff_n st < 256 \<and>
     (if pk_ff_n st = 0 then pk_buffer st \<le> L \<longrightarrow> expand (take (pk_buffer st) (pk_mem st)) = Some (upto_seg source i)
      else \<exists>s. pk_ff_src st = Some s \<and> i = s + 8 * pk_ff_n st \<and> s \<le> length source \<and> pk_buffer st = pk_ff_des st + 2 + 8 * pk_ff_n st \<and>
        (pk_buffer st \<le> L \<longrightarrow> expand (take (pk_ff_des st) (pk_mem st)) = Some (upto_seg source s)))"

text \<open>Writing a finished run.\<close>

lemma flush_ok:
  assumes "s \<le> length source" "0 < n" "n \<le> 256" "d + 2 + 8 * n \<le> length mem" "expand (take d mem) = Some (upto_seg source s)"
  shows "\<exists>mem'. write_ff source (Some s) d n mem = Some mem' \<and> length mem' = length mem \<and>
    expand (take (d + 2 + 8 * n) mem') = Some (upto_seg source (s + 8 * n)) \<and> drop (d + 2 + 8 * n) mem' = drop (d + 2 + 8 * n) mem"
proof -
  let ?W = "take (8 * n) (drop s source) @ replicate (s + 8 * n - length source) 0"
  note w = write_ff_ok [OF assms(1-4)]
  let ?m = "take d mem @ (0xff # of_nat (n - 1) # ?W) @ drop (d + 2 + 8 * n) mem"
  have l: "length (take d mem @ (0xff # of_nat (n - 1) # ?W)) = d + 2 + 8 * n" using assms(4) w(2) by simp
  have e: "take (d + 2 + 8 * n) ?m = take d mem @ (0xff # of_nat (n - 1) # ?W)" "drop (d + 2 + 8 * n) ?m = drop (d + 2 + 8 * n) mem"
    "length ?m = length mem"
    using append_eq_conv_conj [of "take d mem @ (0xff # of_nat (n - 1) # ?W)" "drop (d + 2 + 8 * n) mem" ?m] l assms(4) w(2) by simp_all
  have "expand (take d mem @ (0xff # of_nat (n - 1) # ?W)) = Some (upto_seg source s @ ?W)"
    using expand_append [OF assms(5)] expand_run [OF assms(2,3) w(2)] by simp
  then show ?thesis using w(1,3) e by metis
qed


definition fresh_pack :: "bytes \<Rightarrow> pack_state" where
  "fresh_pack mem = \<lparr>pk_mem = mem, pk_buffer = 0, pk_bufsz = int (length mem), pk_size = 0, pk_ff_n = 0, pk_ff_src = None, pk_ff_des = 0\<rparr>"

lemma pack_inv_fresh: "pack_inv source 0 (length mem) (fresh_pack mem)"
  by (simp add: pack_inv_def fresh_pack_def upto_seg_def)

lemma take_after: "take p m' = take p m \<Longrightarrow> q \<le> p \<Longrightarrow> take q m' = take q m"
  by (metis min.absorb1 take_take)

lemma full_segment:
  assumes "i < length source" "length (filter nz (segment source i)) = 8"
  shows "i + 8 \<le> length source"
proof (rule ccontr)
  assume "\<not> i + 8 \<le> length source"
  then have "0 \<in> set (segment source i)" by (auto simp: segment_def)
  then have "length (filter nz (segment source i)) < length (segment source i)" by (rule length_filter_less) simp
  then show False using assms by simp
qed

lemma expand_bits:
  assumes "expand (take p m) = Some x" "take q (drop p m) = header_of 0 seg # filter nz seg" "length seg = 8" "length (filter nz seg) < 8"
  shows "expand (take (p + q) m) = Some (x @ seg)"
  using expand_append [OF assms(1)] expand_segment [OF assms(3,4)] assms(2) by (simp add: take_add)

text \<open>How far a turn gets, and what becomes of a run.\<close>

definition next_run :: "nat \<Rightarrow> nat \<Rightarrow> nat" where
  "next_run kind n = (if kind = 10 then 1 else if kind = 8 \<and> n > 0 then (n + 1) mod 256 else 0)"

lemma pack_turn_ok:
  assumes "pack_inv source i L st" "i < length source"
  defines "kind \<equiv> seg_kind (segment source i) (pk_ff_n st)"
  shows "\<exists>st'. pack_turn source i st = Some st' \<and> pack_inv source (i + 8) L st' \<and> pk_buffer st' = pk_buffer st + kind \<and>
    pk_ff_n st' = next_run kind (pk_ff_n st)"
proof -
  let ?seg = "segment source i" let ?n = "pk_ff_n st" let ?p = "pk_buffer st" let ?d = "pk_ff_des st"
  have inv: "length (pk_mem st) = L" "pk_bufsz st = int L - int ?p" "pk_size st = ?p" "?n < 256" using assms(1) by (simp_all add: pack_inv_def)
  have l8: "length ?seg = 8" using assms(2) by simp
  have bal: "int (length (pk_mem st)) = int ?p + pk_bufsz st" using inv by simp
  obtain mem where G: "pack_seg ?seg ?p (pk_bufsz st) ?n (pk_mem st) = Some (kind, mem) \<and> length mem = length (pk_mem st) \<and>
      take ?p mem = take ?p (pk_mem st) \<and> (kind \<noteq> 8 \<or> ?n = 0 \<longrightarrow> kind \<noteq> 10 \<longrightarrow> int kind \<le> pk_bufsz st \<longrightarrow>
      take kind (drop ?p mem) = header_of 0 ?seg # filter nz ?seg)"
    using pack_seg_ok [OF bal l8, of ?n, folded kind_def] by (elim exE) (rule that)
  then have g: "pack_seg ?seg ?p (pk_bufsz st) ?n (pk_mem st) = Some (kind, mem)" "length mem = L" "take ?p mem = take ?p (pk_mem st)"
    "kind \<noteq> 8 \<or> ?n = 0 \<Longrightarrow> kind \<noteq> 10 \<Longrightarrow> int kind \<le> pk_bufsz st \<Longrightarrow> take kind (drop ?p mem) = header_of 0 ?seg # filter nz ?seg"
    using inv(1) by (elim conjE; simp)+
  have i8: "upto_seg source (i + 8) = upto_seg source i @ ?seg" using assms(2) by (simp add: upto_seg_8)
  have runs: "\<exists>s. pk_ff_src st = Some s \<and> i = s + 8 * ?n \<and> s \<le> length source \<and> ?p = ?d + 2 + 8 * ?n \<and>
      (?p \<le> L \<longrightarrow> expand (take ?d mem) = Some (upto_seg source s))" if "?n > 0"
  proof -
    have n0: "?n \<noteq> 0" using that by simp
    obtain s where s: "pk_ff_src st = Some s" "i = s + 8 * ?n" "s \<le> length source" "?p = ?d + 2 + 8 * ?n"
      "?p \<le> L \<Longrightarrow> expand (take ?d (pk_mem st)) = Some (upto_seg source s)"
      using assms(1) n0 unfolding pack_inv_def by auto
    then show ?thesis using take_after [OF g(3), of ?d] by auto
  qed
  have whole: "expand (take ?p mem) = Some (upto_seg source i)" if "?n = 0" "?p \<le> L"
    using assms(1) that g(3) by (simp add: pack_inv_def)
  show ?thesis
  proof (cases rule: seg_kind_cases [OF l8, of ?n, folded kind_def, case_names run bits])
    case run: run
    show ?thesis
    proof (cases "?n = 0")
      case True
      then have k: "kind = 10" and "length (filter nz ?seg) = 8" using run by simp_all
      from full_segment [OF assms(2) this(2)] have full: "\<not> i + 8 > length source" by simp
      let ?st = "st\<lparr>pk_mem := mem, pk_bufsz := pk_bufsz st - 10, pk_ff_src := Some i, pk_ff_des := ?p, pk_ff_n := 1, pk_buffer := ?p + 10, pk_size := pk_size st + 10\<rparr>"
      have t: "pack_turn source i st = Some ?st" using full g(1) unfolding k by (simp add: pack_turn_def)
      have "pack_inv source (i + 8) L ?st" using whole [OF True] assms(2) inv g(2) by (simp add: pack_inv_def)
      then show ?thesis using t k by (auto simp: next_run_def)
    next
      case False
      then have k: "kind = 8" and n: "?n > 0" using run by simp_all
      obtain s where s: "pk_ff_src st = Some s" "i = s + 8 * ?n" "s \<le> length source" "?p = ?d + 2 + 8 * ?n"
        "?p \<le> L \<Longrightarrow> expand (take ?d mem) = Some (upto_seg source s)" using runs [OF n] by blast
      show ?thesis
      proof (cases "?n + 1 = 256")
        case True
        obtain mem' where m: "(if pk_bufsz st - 8 \<ge> 0 then write_ff source (Some s) ?d 256 mem else Some mem) = Some mem'" "length mem' = L"
          "?p + 8 \<le> L \<Longrightarrow> expand (take (?p + 8) mem') = Some (upto_seg source (i + 8))"
        proof (cases "pk_bufsz st - 8 \<ge> 0")
          case True
          then have e: "?d + 2 + 8 * 256 = ?p + 8" "s + 8 * 256 = i + 8" and pL: "?p + 8 \<le> L" using \<open>?n + 1 = 256\<close> s(2,4) inv(2) by simp_all
          then show ?thesis using flush_ok [of s source 256 ?d mem, unfolded e] s(3,5) g(2) True that by auto
        qed (use g(2) inv(2) that in auto)
        let ?st = "st\<lparr>pk_mem := mem', pk_bufsz := pk_bufsz st - 8, pk_ff_n := 0, pk_buffer := ?p + 8, pk_size := pk_size st + 8\<rparr>"
        have "pack_turn source i st = Some ?st" using g(1) n True s(1) m(1) unfolding k by (cases "8 \<le> pk_bufsz st") (auto simp: pack_turn_def Let_def)
        moreover have "pack_inv source (i + 8) L ?st" using m(2,3) inv by (simp add: pack_inv_def)
        ultimately show ?thesis using k n True by (auto simp: next_run_def)
      next
        case False
        let ?st = "st\<lparr>pk_mem := mem, pk_bufsz := pk_bufsz st - 8, pk_ff_n := ?n + 1, pk_buffer := ?p + 8, pk_size := pk_size st + 8\<rparr>"
        have "pack_turn source i st = Some ?st" using g(1) n False unfolding k by (simp add: pack_turn_def)
        moreover have "pack_inv source (i + 8) L ?st" using s inv g(2) False by (simp add: pack_inv_def)
        ultimately show ?thesis using k n False inv(4) by (auto simp: next_run_def)
      qed
    qed
  next
    case bits
    have k: "kind \<noteq> 10" "kind \<noteq> 8 \<or> ?n = 0" "length (filter nz ?seg) < 8" using bits by (cases "?n = 0"; simp)+
    obtain mem' where m: "(if ?n > 0 \<and> pk_bufsz st - int kind \<ge> 0 then write_ff source (pk_ff_src st) ?d ?n mem else Some mem) = Some mem'" "length mem' = L"
      "?p + kind \<le> L \<Longrightarrow> expand (take ?p mem') = Some (upto_seg source i) \<and> drop ?p mem' = drop ?p mem"
    proof (cases "?n > 0 \<and> pk_bufsz st - int kind \<ge> 0")
      case True
      obtain s where s: "pk_ff_src st = Some s" "i = s + 8 * ?n" "s \<le> length source" "?p = ?d + 2 + 8 * ?n"
        "?p \<le> L \<Longrightarrow> expand (take ?d mem) = Some (upto_seg source s)" using runs [OF conjunct1 [OF True]] by blast
      have "?p \<le> L" using True inv(2) by linarith
      then show ?thesis using flush_ok [of s source ?n ?d mem] s g(2) True inv(4) that by auto
    next
      case False
      show ?thesis
        by (rule that) (use False g(2) whole inv(2) in auto)
    qed
    let ?st = "st\<lparr>pk_mem := mem', pk_bufsz := pk_bufsz st - int kind, pk_ff_n := 0, pk_buffer := ?p + kind, pk_size := pk_size st + kind\<rparr>"
    have "pack_turn source i st = Some ?st"
      using g(1) k(1,2) m(1) by (cases "?n > 0"; cases "kind = 8") (auto simp: pack_turn_def Let_def split: if_splits)
    moreover have "pack_inv source (i + 8) L ?st"
    proof -
      have "expand (take (?p + kind) mem') = Some (upto_seg source (i + 8))" if "?p + kind \<le> L"
      proof -
        have "take kind (drop ?p mem') = header_of 0 ?seg # filter nz ?seg"
          using m(3) [OF that] g(4) [OF k(2,1)] that inv(2) by simp
        then show ?thesis using expand_bits [OF _ _ l8 k(3)] m(3) [OF that] unfolding i8 by blast
      qed
      then show ?thesis using inv m(2) by (simp add: pack_inv_def)
    qed
    ultimately show ?thesis using k by (auto simp: next_run_def)
  qed
qed


section \<open>The size of a packed string\<close>

text \<open>\<open>lpack\<close> gives \<open>sproto_pack\<close> a buffer of this size.\<close>

definition pack_maxsz :: "nat \<Rightarrow> nat" where
  "pack_maxsz sz = (sz + 2047) div 2048 * 2 + sz + 2"

text \<open>
  Two bytes more than the source for each run of 256 segments that is complete, and two for the run that is open: a run that ends early is
  followed by a segment that saves two.
\<close>

definition pack_bound :: "nat \<Rightarrow> nat \<Rightarrow> nat \<Rightarrow> bool" where
  "pack_bound i p n \<longleftrightarrow> (\<exists>full. p \<le> i + 2 * full + (if n > 0 then 2 else 0) \<and> 2048 * full + 8 * n \<le> i)"

lemma pack_bound_step:
  assumes "pack_bound i p n" "n < 256" "length seg = 8"
  shows "pack_bound (i + 8) (p + seg_kind seg n) (next_run (seg_kind seg n) n)"
proof -
  obtain full where f: "p \<le> i + 2 * full + (if n > 0 then 2 else 0)" "2048 * full + 8 * n \<le> i" using assms(1) by (auto simp: pack_bound_def)
  show ?thesis
  proof (cases rule: seg_kind_cases [OF assms(3), of n, case_names run bits])
    case run
    show ?thesis
    proof (cases "n = 0 \<or> n + 1 < 256")
      case True
      then have "next_run (seg_kind seg n) n = n + 1" using run(2) by (auto simp: next_run_def)
      then show ?thesis using f run(2) unfolding pack_bound_def by (intro exI [of _ full]) (cases "n = 0"; simp)
    next
      case False
      then have "n = 255" using assms(2) by simp
      then show ?thesis using f run(2) unfolding pack_bound_def by (intro exI [of _ "full + 1"]) (simp add: next_run_def)
    qed
  next
    case bits
    then have "next_run (seg_kind seg n) n = 0" by (cases "n = 0") (auto simp: next_run_def)
    then show ?thesis using f bits unfolding pack_bound_def by (intro exI [of _ full]) (cases "n = 0"; auto)
  qed
qed

lemma maxsz_ge: "2048 * full + m \<le> len \<Longrightarrow> 2 * full + (if m > 0 then 2 else 0) + len + 2 \<le> pack_maxsz len"
proof -
  assume a: "2048 * full + m \<le> len"
  have "full + (if m > 0 then 1 else 0) \<le> (len + 2047) div 2048" using a by (simp add: less_eq_div_iff_mult_less_eq)
  then show ?thesis by (auto simp: pack_maxsz_def)
qed

lemma pack_bound_last:
  assumes "pack_bound i p n" "i < length source" "length source < i + 8"
  shows "p + seg_kind (segment source i) n \<le> pack_maxsz (length source)"
proof -
  obtain full where f: "p \<le> i + 2 * full + (if n > 0 then 2 else 0)" "2048 * full + 8 * n \<le> i" using assms(1) by (auto simp: pack_bound_def)
  have "length (filter nz (segment source i)) \<le> length source - i"
  proof -
    have "filter nz (segment source i) = filter nz (take 8 (drop i source))" by (simp add: segment_def)
    then show ?thesis using length_filter_le [of nz "take 8 (drop i source)"] by simp
  qed
  then have k: "length (filter nz (segment source i)) + i \<le> length source" using assms(2) by linarith
  have m: "2 * full + (if n > 0 then 2 else 0) + length source + 2 \<le> pack_maxsz (length source)"
    using maxsz_ge [of full "8 * n" "length source"] f(2) assms(2) by auto
  have l8: "length (segment source i) = 8" using assms(2) by simp
  show ?thesis
  proof (cases rule: seg_kind_cases [OF l8, of n, case_names run bits])
    case run
    then have "n > 0" "length (filter nz (segment source i)) \<ge> 6" using k assms(3) by auto
    then show ?thesis using f(1) k m run(2) by simp
  next
    case bits
    then show ?thesis using f(1) k m by simp
  qed
qed

lemma pack_loop_ok:
  assumes "pack_inv source i L st" "8 dvd i" "i \<le> length source" "pack_bound i (pk_buffer st) (pk_ff_n st)"
  shows "\<exists>st' j. pack_loop source i st = Some st' \<and> pack_inv source j L st' \<and> 8 dvd j \<and> length source \<le> j \<and> j \<le> length source + 7 \<and>
    pk_buffer st' \<le> pack_maxsz (length source)"
  using assms
proof (induction source i st rule: pack_loop.induct)
  case (1 source i st)
  show ?case
  proof (cases "i < length source")
    case True
    obtain st1 where t: "pack_turn source i st = Some st1" "pack_inv source (i + 8) L st1"
      and p: "pk_buffer st1 = pk_buffer st + seg_kind (segment source i) (pk_ff_n st)" "pk_ff_n st1 = next_run (seg_kind (segment source i) (pk_ff_n st)) (pk_ff_n st)"
      using pack_turn_ok [OF "1.prems"(1) True] by blast
    have d: "8 dvd i + 8" using "1.prems"(2) by simp
    have l: "pack_loop source i st = pack_loop source (i + 8) st1" using True t(1) by (subst pack_loop.simps) simp
    show ?thesis
    proof (cases "i + 8 \<le> length source")
      case full: True
      have "pk_ff_n st < 256" using "1.prems"(1) by (simp add: pack_inv_def)
      then have "pack_bound (i + 8) (pk_buffer st1) (pk_ff_n st1)"
        using pack_bound_step [OF "1.prems"(4), of "segment source i"] True unfolding p by simp
      then show ?thesis using "1.IH" [OF True t d full] unfolding l by blast
    next
      case False
      then have "pk_buffer st1 \<le> pack_maxsz (length source)" using pack_bound_last [OF "1.prems"(4) True] p(1) by simp
      moreover have "pack_loop source (i + 8) st1 = Some st1" using False by (subst pack_loop.simps) simp
      ultimately show ?thesis using t(2) d True False unfolding l by (intro exI [of _ st1] exI [of _ "i + 8"]) simp
    qed
  next
    case False
    then have "pack_loop source i st = Some st" "i = length source" using "1.prems"(3) by (subst pack_loop.simps, simp_all)
    moreover have "pk_buffer st \<le> pack_maxsz i"
    proof -
      obtain full where "pk_buffer st \<le> i + 2 * full + (if pk_ff_n st > 0 then 2 else 0)" "2048 * full + 8 * pk_ff_n st \<le> i"
        using "1.prems"(4) by (auto simp: pack_bound_def)
      then show ?thesis using maxsz_ge [of full "8 * pk_ff_n st" i] by (auto split: if_splits)
    qed
    ultimately show ?thesis using "1.prems" by (intro exI [of _ st] exI [of _ i]) simp
  qed
qed

text \<open>The bytes that come back: the source filled up to a multiple of eight.\<close>

definition zero_filled :: "bytes \<Rightarrow> bytes" where
  "zero_filled source = source @ replicate ((8 - length source mod 8) mod 8) 0"

lemma zero_filled_upto:
  assumes "8 dvd j" "length source \<le> j" "j \<le> length source + 7"
  shows "upto_seg source j = zero_filled source" "length (zero_filled source) = j"
proof -
  have "j - length source = (8 - length source mod 8) mod 8"
  proof -
    define a b where "a = length source div 8" and "b = length source mod 8"
    have l: "length source = 8 * a + b" "b < 8" by (simp_all add: a_def b_def)
    obtain q where q: "j = 8 * q" using assms(1) by (rule dvdE)
    have "q = (if b = 0 then a else a + 1)" using assms(2,3) l q by (auto simp: le_Suc_eq)
    then show ?thesis using l q unfolding b_def [symmetric] by (cases "b = 0") simp_all
  qed
  then show "upto_seg source j = zero_filled source" using assms(2) by (simp add: upto_seg_def zero_filled_def)
  then show "length (zero_filled source) = j" using assms(2) by (auto simp: upto_seg_def dest: arg_cong [of _ _ length])
qed

lemma zero_filled_length: "8 dvd length (zero_filled source)"
proof -
  define a b where "a = length source div 8" and "b = length source mod 8"
  have l: "length source = 8 * a + b" "b < 8" by (simp_all add: a_def b_def)
  have "length (zero_filled source) = 8 * (if b = 0 then a else a + 1)"
    unfolding zero_filled_def b_def [symmetric] using l by (cases "b = 0") (simp_all add: mod_less)
  then show ?thesis by simp
qed

lemma sproto_pack_ok:
  "\<exists>sz mem'. sproto_pack source mem = Some (sz, mem') \<and> length mem' = length mem \<and> sz \<le> pack_maxsz (length source) \<and>
    (sz \<le> length mem \<longrightarrow> expand (take sz mem') = Some (zero_filled source))"
proof -
  obtain st j where l: "pack_loop source 0 (fresh_pack mem) = Some st" "pack_inv source j (length mem) st"
    "8 dvd j" "length source \<le> j" "j \<le> length source + 7" "pk_buffer st \<le> pack_maxsz (length source)"
    using pack_loop_ok [OF pack_inv_fresh, of source mem] by (auto simp: fresh_pack_def pack_bound_def)
  note z = zero_filled_upto [OF l(3,4,5)]
  have inv: "length (pk_mem st) = length mem" "pk_bufsz st = int (length mem) - int (pk_buffer st)" "pk_size st = pk_buffer st" "pk_ff_n st < 256"
    using l(2) by (simp_all add: pack_inv_def)
  have f: "\<lparr>pk_mem = mem, pk_buffer = 0, pk_bufsz = int (length mem), pk_size = 0, pk_ff_n = 0, pk_ff_src = None, pk_ff_des = 0\<rparr> = fresh_pack mem"
    by (simp add: fresh_pack_def)
  show ?thesis
  proof (cases "pk_bufsz st \<ge> 0 \<and> pk_ff_n st > 0")
    case True
    obtain s where s: "pk_ff_src st = Some s" "j = s + 8 * pk_ff_n st" "s \<le> length source" "pk_buffer st = pk_ff_des st + 2 + 8 * pk_ff_n st"
      "pk_buffer st \<le> length mem \<Longrightarrow> expand (take (pk_ff_des st) (pk_mem st)) = Some (upto_seg source s)"
      using l(2) True by (auto simp: pack_inv_def)
    have "pk_buffer st \<le> length mem" using True inv(2) by simp
    then show ?thesis
      using flush_ok [of s source "pk_ff_n st" "pk_ff_des st" "pk_mem st"] s inv True l(1,6) z(1) by (auto simp: sproto_pack_def f)
  next
    case False
    then show ?thesis using l(1,2,6) inv z(1) by (auto simp: sproto_pack_def f pack_inv_def split: if_splits)
  qed
qed

text \<open>
  C35. Packing never reads or writes outside its buffers, whatever the size of the output buffer, and returns the size the packed string
  needs. When that size fits, unpacking the packed string into a buffer that is large enough succeeds and gives back the
  source, filled up with zeros to a multiple of eight bytes.
\<close>

theorem sproto_pack_roundtrip:
  "\<exists>sz mem'. sproto_pack source mem = Some (sz, mem') \<and> length mem' = length mem \<and>
    (sz \<le> length mem \<longrightarrow> length (zero_filled source) \<le> length out \<longrightarrow>
      sproto_unpack (take sz mem') sz out = Some (Some (length (zero_filled source), zero_filled source @ drop (length (zero_filled source)) out)))"
proof -
  obtain sz mem' where p: "sproto_pack source mem = Some (sz, mem')" "length mem' = length mem"
    "sz \<le> length mem \<Longrightarrow> expand (take sz mem') = Some (zero_filled source)"
    using sproto_pack_ok by blast
  have "sproto_unpack (take sz mem') sz out = Some (Some (length (zero_filled source), zero_filled source @ drop (length (zero_filled source)) out))"
    if "sz \<le> length mem" "length (zero_filled source) \<le> length out"
    using sproto_unpack_expand [OF p(3) [OF that(1)] that(2)] p(2) that(1) by simp
  then show ?thesis using p(1,2) by blast
qed

definition pack_example :: bytes where
  "pack_example = [8, 0, 0, 0, 3, 0, 2, 0, 25, 0, 0, 0, 170, 1]"

lemma sproto_pack_roundtrip_witness:
  "sproto_pack pack_example (replicate 20 7) = Some (8, [0x51, 8, 3, 2, 0x31, 25, 170, 1] @ replicate 12 7) \<and>
   (\<exists>sz mem'. sproto_pack pack_example (replicate 20 7) = Some (sz, mem') \<and> length mem' = length (replicate 20 (7 :: u8)) \<and>
    (sz \<le> length (replicate 20 (7 :: u8)) \<longrightarrow> length (zero_filled pack_example) \<le> length (replicate 16 (0 :: u8)) \<longrightarrow>
      sproto_unpack (take sz mem') sz (replicate 16 0) = Some (Some (length (zero_filled pack_example),
        zero_filled pack_example @ drop (length (zero_filled pack_example)) (replicate 16 0)))))"
  by (intro conjI sproto_pack_roundtrip) code_simp

text \<open>
  The packed string is at most two bytes per started 2 KB, and two more, longer than the source, so the buffer that \<open>lpack\<close> provides
  is always large enough and its error of a packed string that does not fit is never raised.
\<close>

theorem sproto_pack_fits:
  "\<exists>sz mem'. sproto_pack source mem = Some (sz, mem') \<and> sz \<le> (length source + 2047) div 2048 * 2 + length source + 2"
  using sproto_pack_ok [of source mem] by (auto simp: pack_maxsz_def)

section \<open>The functions of the library\<close>

text \<open>
  \<open>pack\<close> and \<open>unpack\<close> of \<open>lsproto.c\<close> share a buffer that grows by doubling; \<open>fresh n\<close> is what a new buffer of \<open>n\<close> bytes
  holds. Both return their string and the buffer.
\<close>

definition ENCODE_MAXSIZE :: nat where "ENCODE_MAXSIZE = 0x1000000"

partial_function (option) grow_loop :: "nat \<Rightarrow> nat \<Rightarrow> nat option" where
  "grow_loop osz nsz = (let osz = osz * 2 in if osz < nsz then grow_loop osz nsz else Some osz)"

definition expand_buffer :: "(nat \<Rightarrow> bytes) \<Rightarrow> nat \<Rightarrow> nat \<Rightarrow> (string + bytes) option" where
  "expand_buffer fresh osz nsz = do {
     osz \<leftarrow> grow_loop osz nsz;
     Some (if osz > ENCODE_MAXSIZE then Inl ''object is too large'' else Inr (fresh osz))
   }"

definition lpack :: "(nat \<Rightarrow> bytes) \<Rightarrow> bytes \<Rightarrow> bytes \<Rightarrow> (string + bytes \<times> bytes) option" where
  "lpack fresh source output = do {
     let maxsz = pack_maxsz (length source);
     r \<leftarrow> (if length output < maxsz then expand_buffer fresh (length output) maxsz else Some (Inr output));
     case r of
       Inl e \<Rightarrow> Some (Inl e)
     | Inr output \<Rightarrow> do {
         (n, mem) \<leftarrow> sproto_pack source (take maxsz output);
         Some (if n > maxsz then Inl ''packing error'' else Inr (take n mem, mem @ drop maxsz output))
       }
   }"

definition lunpack :: "(nat \<Rightarrow> bytes) \<Rightarrow> bytes \<Rightarrow> bytes \<Rightarrow> (string + bytes \<times> bytes) option" where
  "lunpack fresh source output = do {
     r \<leftarrow> sproto_unpack source (length source) output;
     case r of
       None \<Rightarrow> Some (Inl ''Invalid unpack stream'')
     | Some (n, out) \<Rightarrow>
         if n > length output then do {
           e \<leftarrow> expand_buffer fresh (length output) n;
           case e of
             Inl e \<Rightarrow> Some (Inl e)
           | Inr output \<Rightarrow> do {
               r \<leftarrow> sproto_unpack source (length source) (take n output);
               case r of
                 None \<Rightarrow> Some (Inl ''Invalid unpack stream'')
               | Some (n', out) \<Rightarrow> Some (Inr (take n' out, out @ drop n output))
             }
         }
         else Some (Inr (take n out, out))
   }"

lemma grow_loop_ok:
  assumes "0 < osz" "osz < nsz"
  shows "\<exists>n. grow_loop osz nsz = Some n \<and> nsz \<le> n \<and> n < 2 * nsz"
  using assms
proof (induction "nsz - osz" arbitrary: osz rule: less_induct)
  case less
  show ?case
  proof (cases "osz * 2 < nsz")
    case True
    have "nsz - osz * 2 < nsz - osz" "0 < osz * 2" using less.prems by simp_all
    then show ?thesis using less.hyps [OF _ _ True] True by (subst grow_loop.simps) (simp add: Let_def)
  next
    case False
    then show ?thesis using less.prems by (subst grow_loop.simps) simp
  qed
qed

lemma expand_buffer_ok:
  assumes "0 < osz" "osz < nsz" "2 * nsz \<le> ENCODE_MAXSIZE" "\<And>n. length (fresh n) = n"
  shows "\<exists>output. expand_buffer fresh osz nsz = Some (Inr output) \<and> nsz \<le> length output"
proof -
  obtain n where "grow_loop osz nsz = Some n" "nsz \<le> n" "n < 2 * nsz" using grow_loop_ok [OF assms(1,2)] by blast
  then show ?thesis using assms(3,4) by (auto simp: expand_buffer_def)
qed

text \<open>With a buffer that is too small \<open>sproto_unpack\<close> still tells the size.\<close>

lemma unpack_bits_any:
  assumes "spread k h bs = Some (xs, r)" "mem = pre @ bs" "int (length out) = int d + bufsz"
  shows "\<exists>d' b' out' pre'. unpack_bits k mem h (length pre, int (length bs), d, bufsz, out) = Some (Some (length pre', int (length r), d', b', out')) \<and>
    mem = pre' @ r \<and> length out' = length out \<and> int (length out) = int d' + b'"
  using assms
proof (induction k arbitrary: bs xs pre d bufsz out)
  case (Suc k)
  have put1: "\<exists>out1. put d [y] out = Some out1 \<and> length out1 = length out" if "0 < bufsz" for y
    using Suc.prems(3) that by (simp add: put_def)
  show ?case
  proof (cases "bit h (7 - k)")
    case True
    then obtain y ys xs' where y: "bs = y # ys" "spread k h ys = Some (xs', r)" "xs = y # xs'"
      using Suc.prems(1) by (auto split: list.splits)
    have m: "mem = (pre @ [y]) @ ys" "peek mem (length pre) = Some y" using Suc.prems(2) y(1) by (simp_all add: peek_def)
    show ?thesis
    proof (cases "0 < bufsz")
      case pos: True
      obtain out1 where o: "put d [y] out = Some out1" "length out1 = length out" using put1 [OF pos] by blast
      have "int (length out1) = int (d + 1) + (bufsz - 1)" using o(2) Suc.prems(3) by simp
      from Suc.IH [OF y(2) m(1) this] show ?thesis using True y(1) m(2) o pos by simp
    next
      case False
      from Suc.IH [OF y(2) m(1) Suc.prems(3)] show ?thesis using True y(1) m(2) False by simp
    qed
  next
    case False
    then obtain xs' where y: "spread k h bs = Some (xs', r)" using Suc.prems(1) by auto
    show ?thesis
    proof (cases "0 < bufsz")
      case pos: True
      obtain out1 where o: "put d [0] out = Some out1" "length out1 = length out" using put1 [OF pos] by blast
      have "int (length out1) = int (d + 1) + (bufsz - 1)" using o(2) Suc.prems(3) by simp
      from Suc.IH [OF y Suc.prems(2) this] show ?thesis using False o pos by simp
    next
      case neg: False
      from Suc.IH [OF y Suc.prems(2,3)] show ?thesis using False neg by simp
    qed
  qed
qed auto

lemma unpack_loop_any:
  assumes "expand bs = Some o'" "mem = pre @ bs" "int (length out) = int d + bufsz"
  shows "\<exists>out'. unpack_loop mem (length pre, int (length bs), d, bufsz, out) n = Some (Some (n + length o', out')) \<and> length out' = length out"
  using assms
proof (induction bs arbitrary: o' pre d bufsz out n rule: expand.induct)
  case 1
  then show ?case by (subst unpack_loop.simps) simp
next
  case (2 h t)
  have pk: "peek mem (length pre) = Some h" using "2.prems"(2) by (simp add: peek_def)
  show ?case
  proof (cases "h = 0xff")
    case True
    then obtain c u where u: "t = c # u" "\<not> length u < (unat c + 1) * 8"
      using "2.prems"(1) by (auto simp: expand.simps(2) split: list.splits if_splits)
    let ?m = "(unat c + 1) * 8" let ?pre = "pre @ h # c # take ?m u"
    obtain r where r: "expand (drop ?m u) = Some r" "o' = take ?m u @ r"
      using "2.prems"(1) True u by (auto simp: expand.simps(2))
    have m: "?m \<le> length u" using u(2) by (simp only: not_less)
    have c: "peek mem (length pre + 1) = Some c" using "2.prems"(2) u(1) by (simp add: peek_def nth_append)
    have src: "take ?m (drop (length pre + 2) mem) = take ?m u" "length pre + 2 + ?m \<le> length mem" "mem = ?pre @ drop ?m u"
      using "2.prems"(2) u(1) m by (simp_all del: mult_Suc)
    obtain out1 where put: "bufsz \<ge> int ?m \<Longrightarrow> put d (take ?m u) out = Some out1" "\<not> bufsz \<ge> int ?m \<Longrightarrow> out1 = out" "length out1 = length out"
    proof (cases "bufsz \<ge> int ?m")
      case True
      then have "d + ?m \<le> length out" using "2.prems"(3) by linarith
      then show ?thesis using True m by (intro that [of "take d out @ take ?m u @ drop (d + ?m) out"]) (simp_all add: put_def del: mult_Suc)
    qed (use that in blast)
    have o1: "int (length out1) = int (d + ?m) + (bufsz - int ?m)" using "2.prems"(3) put(3) by simp
    obtain out' where "unpack_loop mem (length ?pre, int (length (drop ?m u)), d + ?m, bufsz - int ?m, out1) (n + ?m) =
        Some (Some (n + ?m + length r, out'))" "length out' = length out1"
      using "2.IH"(1) [OF True u r(1) src(3) o1] by blast
    moreover have "unpack_loop mem (length pre, int (length (h # t)), d, bufsz, out) n =
        unpack_loop mem (length ?pre, int (length (drop ?m u)), d + ?m, bufsz - int ?m, out1) (n + ?m)"
    proof (cases "bufsz \<ge> int ?m")
      case b: True
      then have "8 + uint c * 8 \<le> bufsz" by simp
      then show ?thesis using pk c True u(1) m src(1,2) put(1) [OF b]
        by (subst unpack_loop.simps) (simp add: Let_def diff_diff_eq add.commute [of "uint c * 8"] del: mult_Suc)
    next
      case b: False
      then have "\<not> 8 + uint c * 8 \<le> bufsz" "out1 = out" using put(2) by simp_all
      then show ?thesis using pk c True u(1) m
        by (subst unpack_loop.simps) (simp add: Let_def diff_diff_eq add.commute [of "uint c * 8"] del: mult_Suc)
    qed
    ultimately show ?thesis using r(2) m put(3) by (simp del: mult_Suc)
  next
    case False
    then obtain xs u where u: "spread 8 h t = Some (xs, u)" using "2.prems"(1) by (auto simp: expand.simps(2) split: option.splits)
    obtain r where r: "expand u = Some r" "o' = xs @ r" using "2.prems"(1) False u by (auto simp: expand.simps(2))
    have l: "length xs = 8" using spread_length [OF u] by simp
    have mem: "mem = (pre @ [h]) @ t" using "2.prems"(2) by simp
    obtain d' b' out1 pre' where b: "unpack_bits 8 mem h (length (pre @ [h]), int (length t), d, bufsz, out) = Some (Some (length pre', int (length u), d', b', out1))"
      "mem = pre' @ u" "length out1 = length out" "int (length out) = int d' + b'"
      using unpack_bits_any [OF u mem "2.prems"(3)] by blast
    have "int (length out1) = int d' + b'" using b(3,4) by simp
    from "2.IH"(2) [OF False u refl r(1) b(2) this]
    obtain out' where "unpack_loop mem (length pre', int (length u), d', b', out1) (n + 8) = Some (Some (n + 8 + length r, out'))" "length out' = length out1"
      by blast
    moreover have "unpack_loop mem (length pre, int (length (h # t)), d, bufsz, out) n = unpack_loop mem (length pre', int (length u), d', b', out1) (n + 8)"
      using pk False b(1) by (subst unpack_loop.simps) (simp add: Let_def)
    ultimately show ?thesis using r(2) l b(3) by simp
  qed
qed

text \<open>
  The Lua functions \<open>pack\<close> and \<open>unpack\<close> are inverse up to the zeros at the end, whatever the shared buffer held and however
  small it was, for every source whose packed size is at most half of the limit.
\<close>

theorem lpack_lunpack:
  assumes "2 * pack_maxsz (length source) \<le> ENCODE_MAXSIZE" "output \<noteq> []" "\<And>n. length (fresh n) = n"
  shows "\<exists>packed output' output''. lpack fresh source output = Some (Inr (packed, output')) \<and>
    lunpack fresh packed output' = Some (Inr (zero_filled source, output''))"
proof -
  let ?m = "pack_maxsz (length source)" let ?z = "zero_filled source"
  obtain out where o1: "(if length output < ?m then expand_buffer fresh (length output) ?m else Some (Inr output)) = Some (Inr out)" "?m \<le> length out"
    using expand_buffer_ok [of "length output" ?m fresh] assms by (cases "length output < ?m") auto
  obtain n mem where p: "sproto_pack source (take ?m out) = Some (n, mem)" "length mem = ?m" "n \<le> ?m" "expand (take n mem) = Some ?z"
    using sproto_pack_ok [of source "take ?m out"] o1(2) by auto
  have lp: "lpack fresh source output = Some (Inr (take n mem, mem @ drop ?m out))"
    using o1(1) p by (simp add: lpack_def Let_def)
  let ?p = "take n mem" let ?o = "mem @ drop ?m out"
  have "length ?z \<le> length source + 7" by (simp add: zero_filled_def less_Suc_eq_le [symmetric])
  then have zm: "length ?z \<le> ?m + 5" by (simp add: pack_maxsz_def)
  have "\<exists>output''. lunpack fresh ?p ?o = Some (Inr (?z, output''))"
  proof (cases "length ?z \<le> length ?o")
    case True
    then have "sproto_unpack ?p (length ?p) ?o = Some (Some (length ?z, ?z @ drop (length ?z) ?o))" by (rule sproto_unpack_expand [OF p(4)])
    then show ?thesis using True by (simp add: lunpack_def)
  next
    case False
    obtain o2 where u: "sproto_unpack ?p (length ?p) ?o = Some (Some (length ?z, o2))"
      using unpack_loop_any [OF p(4), of ?p "[]" ?o 0 "int (length ?o)" 0] by (auto simp: sproto_unpack_def)
    have "0 < length ?o" "length ?o < length ?z" using False p(2) by (simp_all add: pack_maxsz_def)
    moreover have "2 * length ?z \<le> ENCODE_MAXSIZE"
    proof -
      obtain q where q: "length ?z = 8 * q" using zero_filled_length by (rule dvdE)
      then have "8 * q \<le> 0x800000 + 5" using zm assms(1) by (simp add: ENCODE_MAXSIZE_def)
      then show ?thesis unfolding q ENCODE_MAXSIZE_def by simp
    qed
    ultimately have "0 < length ?o" "length ?o < length ?z" "2 * length ?z \<le> ENCODE_MAXSIZE" .
    from expand_buffer_ok [OF this assms(3)] obtain o3 where e: "expand_buffer fresh (length ?o) (length ?z) = Some (Inr o3)" "length ?z \<le> length o3" by blast
    have "sproto_unpack ?p (length ?p) (take (length ?z) o3) = Some (Some (length ?z, ?z @ drop (length ?z) (take (length ?z) o3)))"
      by (rule sproto_unpack_expand [OF p(4)]) (use e(2) in simp)
    then show ?thesis using False u e by (simp add: lunpack_def)
  qed
  then show ?thesis using lp by blast
qed

text \<open>A buffer of one byte has to grow twice.\<close>

lemma lpack_lunpack_witness:
  "\<exists>packed output' output''. lpack (\<lambda>n. replicate n 7) pack_example [0] = Some (Inr (packed, output')) \<and>
    lunpack (\<lambda>n. replicate n 7) packed output' = Some (Inr (pack_example @ [0, 0], output''))"
proof -
  have "zero_filled pack_example = pack_example @ [0, 0]" by code_simp
  then show ?thesis using lpack_lunpack [of pack_example "[0]" "\<lambda>n. replicate n 7"]
    by (simp add: pack_example_def pack_maxsz_def ENCODE_MAXSIZE_def)
qed

text \<open>
  A packed string that is cut inside a segment is not always refused: \<open>sproto_unpack\<close> tests the number of bytes left after it is
  negative, so it reads one byte behind the source and gives it out as data. Here the source is the one byte 1.
\<close>

theorem unpack_reads_past_source:
  "sproto_unpack [1, x] 1 (replicate 8 0) = Some (Some (8, [x, 0, 0, 0, 0, 0, 0, 0])) \<and> sproto_unpack [1] 1 (replicate 8 0) = None"
proof (rule conjI)
  have b: "unpack_bits 8 [1, x] 1 (1, 0, 0, 8, replicate 8 0) = Some (Some (2, - 1, 8, 0, [x, 0, 0, 0, 0, 0, 0, 0]))"
    "unpack_bits 8 [1] 1 (1, 0, 0, 8, replicate 8 0) = None"
    by (simp_all add: peek_def put_def numeral_eq_Suc)
  have l: "unpack_loop [1, x] (2, - 1, 8, 0, [x, 0, 0, 0, 0, 0, 0, 0]) 8 = Some (Some (8, [x, 0, 0, 0, 0, 0, 0, 0]))"
    by (subst unpack_loop.simps) simp
  show "sproto_unpack [1, x] 1 (replicate 8 0) = Some (Some (8, [x, 0, 0, 0, 0, 0, 0, 0]))"
    unfolding sproto_unpack_def using b(1) l by (subst unpack_loop.simps) (simp add: peek_def)
  show "sproto_unpack [1] 1 (replicate 8 0) = None"
    unfolding sproto_unpack_def using b(2) by (subst unpack_loop.simps) (simp add: peek_def)
qed

end
