(* ===== verification/Sproto.thy ===== *)
theory Sproto
  imports Prelude
begin

text \<open>
  The wire format of sproto (\<open>lualib-src/sproto/sproto.c\<close>): the layout of a type, the search for a field, \<open>sproto_encode\<close> and
  \<open>sproto_decode\<close>. The callback that \<open>sproto_encode\<close> asks for the value of a field is a function of the field, the index in an
  array and the room; the calls that \<open>sproto_decode\<close> makes to its callback are a list. What is written behind the
  buffer pointer is a list that grows, \<open>size\<close> the room that is left. \<open>None\<close> is the result -1 of the encoder.
\<close>

section \<open>Types\<close>

definition SPROTO_TINTEGER :: u32 where "SPROTO_TINTEGER = 0"
definition SPROTO_TBOOLEAN :: u32 where "SPROTO_TBOOLEAN = 1"
definition SPROTO_TSTRING :: u32 where "SPROTO_TSTRING = 2"
definition SPROTO_TDOUBLE :: u32 where "SPROTO_TDOUBLE = 3"
definition SPROTO_TSTRUCT :: u32 where "SPROTO_TSTRUCT = 4"
definition SPROTO_TARRAY :: u32 where "SPROTO_TARRAY = 0x80"

lemmas sproto_types = SPROTO_TINTEGER_def SPROTO_TBOOLEAN_def SPROTO_TSTRING_def SPROTO_TDOUBLE_def SPROTO_TSTRUCT_def SPROTO_TARRAY_def

record field =
  fd_tag :: int
  fd_type :: u32
  fd_name :: string
  fd_st :: "nat option"
  fd_key :: int
  fd_extra :: int

record sproto_type =
  st_name :: string
  st_base :: int
  st_maxn :: nat
  st_f :: "field list"

definition is_array :: "field \<Rightarrow> bool" where
  "is_array f \<longleftrightarrow> fd_type f AND SPROTO_TARRAY \<noteq> 0"

definition value_type :: "field \<Rightarrow> u32" where
  "value_type f = fd_type f AND NOT SPROTO_TARRAY"

text \<open>The end of \<open>import_type\<close>: the fields come with ascending tags; a type without fields is not handled by that part.\<close>

primrec layout_loop :: "int \<Rightarrow> nat \<Rightarrow> field list \<Rightarrow> nat option" where
  "layout_loop lst maxn [] = Some maxn"
| "layout_loop lst maxn (f # fs) =
     (if fd_tag f \<le> lst then None
      else layout_loop (fd_tag f) (if fd_tag f > lst + 1 then maxn + 1 else maxn) fs)"

definition type_layout :: "string \<Rightarrow> field list \<Rightarrow> sproto_type option" where
  "type_layout name fs = do {
     maxn \<leftarrow> layout_loop (-1) (length fs) fs;
     if fs = [] then None
     else
       (let base = fd_tag (hd fs);
            n = fd_tag (last fs) - base + 1
        in Some \<lparr>st_name = name, st_base = (if n \<noteq> int (length fs) then -1 else base), st_maxn = maxn, st_f = fs\<rparr>)
   }"

text \<open>The bisection of \<open>findtag\<close> and \<open>query_proto\<close>, with the tag of an element as a parameter.\<close>

function bisect :: "('a \<Rightarrow> int) \<Rightarrow> 'a list \<Rightarrow> int \<Rightarrow> nat \<Rightarrow> nat \<Rightarrow> 'a option" where
  "bisect key fs tag b e =
     (if b < e then
        (let mid = (b + e) div 2; f = fs ! mid; t = key f
         in if t = tag then Some f
            else if tag > t then bisect key fs tag (mid + 1) e
            else bisect key fs tag b mid)
      else None)"
  by pat_completeness auto
termination
  by (relation "measure (\<lambda>(key, fs, tag, b, e). e - b)") auto

declare bisect.simps [simp del]

definition findtag :: "sproto_type \<Rightarrow> int \<Rightarrow> field option" where
  "findtag st tag =
     (if st_base st \<ge> 0 then
        (let tag = tag - st_base st
         in if tag < 0 \<or> tag \<ge> int (length (st_f st)) then None else Some (st_f st ! nat tag))
      else bisect fd_tag (st_f st) tag 0 (length (st_f st)))"

section \<open>Encoding\<close>

datatype cb_result = CB_ERROR | CB_NIL | CB_NOARRAY | CB_data bytes

type_synonym callback = "field \<Rightarrow> nat \<Rightarrow> int \<Rightarrow> cb_result"

definition fill_size :: "bytes \<Rightarrow> bytes" where
  "fill_size bs = le32 (of_nat (length bs)) @ bs"

definition encode_integer :: "u32 \<Rightarrow> int \<Rightarrow> bytes option" where
  "encode_integer v room = (if room < 4 + 4 then None else Some (fill_size (le32 v)))"

definition encode_uint64 :: "bytes \<Rightarrow> int \<Rightarrow> bytes option" where
  "encode_uint64 v room = (if room < 4 + 8 then None else Some (fill_size v))"

text \<open>\<open>Some []\<close> is the result 0; the assertion that the callback kept to its room fails with \<open>None\<close>.\<close>

definition encode_object :: "callback \<Rightarrow> field \<Rightarrow> int \<Rightarrow> bytes option" where
  "encode_object cb f room =
     (if room < 4 then None
      else
        (case cb f 0 (room - 4) of
           CB_NIL \<Rightarrow> Some []
         | CB_data v \<Rightarrow> if int (length v) \<le> room - 4 then Some (fill_size v) else None
         | _ \<Rightarrow> None))"

definition uint32_to_uint64 :: "bytes \<Rightarrow> bytes" where
  "uint32_to_uint64 v = replicate 4 (if v ! 3 AND 0x80 \<noteq> 0 then 0xff else 0)"

text \<open>The 4-byte integers that are already there become 8-byte integers in place, the last one first.\<close>

primrec rearrange :: "nat \<Rightarrow> bytes \<Rightarrow> bytes" where
  "rearrange 0 mem = mem"
| "rearrange (Suc i) mem =
     (let v = take 4 (drop (i * 4) mem);
          mem = take (i * 8) mem @ v @ uint32_to_uint64 v @ drop (i * 8 + 8) mem
      in rearrange i mem)"

function integer_loop :: "callback \<Rightarrow> field \<Rightarrow> nat \<Rightarrow> nat \<Rightarrow> int \<Rightarrow> bytes \<Rightarrow> (bytes \<times> nat \<times> bool) option" where
  "integer_loop cb f index intlen room out =
     (case cb f index 8 of
        CB_NIL \<Rightarrow> Some (out, intlen, False)
      | CB_NOARRAY \<Rightarrow> Some (out, intlen, True)
      | CB_ERROR \<Rightarrow> None
      | CB_data v \<Rightarrow>
          if v = [] then None
          else if room < 8 then None
          else if length v = 4 then
            integer_loop cb f (index + 1) intlen (room - int (if intlen = 8 then 8 else 4))
              (out @ v @ (if intlen = 8 then uint32_to_uint64 v else []))
          else if length v \<noteq> 8 then None
          else if intlen = 4 then
            if room - int ((index - 1) * 4) < 8 then None
            else integer_loop cb f (index + 1) 8 (room - int ((index - 1) * 4) - 8)
              (rearrange (index - 1) (out @ replicate ((index - 1) * 4) 0) @ v)
          else integer_loop cb f (index + 1) intlen (room - 8) (out @ v))"
  by pat_completeness auto
termination
  by (relation "measure (\<lambda>(cb, f, index, intlen, room, out). nat room)") auto

declare integer_loop.simps [simp del]

definition encode_integer_array :: "callback \<Rightarrow> field \<Rightarrow> int \<Rightarrow> (bytes \<times> bool) option" where
  "encode_integer_array cb f room =
     (if room < 1 then None
      else do {
        (out, intlen, noarray) \<leftarrow> integer_loop cb f 1 4 (room - 1) [];
        Some (if out = [] then [] else of_nat intlen # out, noarray)
      })"

text \<open>The result of the two other kinds of array: \<open>Some None\<close> when there is no array.\<close>

function boolean_loop :: "callback \<Rightarrow> field \<Rightarrow> nat \<Rightarrow> int \<Rightarrow> bytes \<Rightarrow> bytes option option" where
  "boolean_loop cb f index room out =
     (case cb f index 4 of
        CB_NIL \<Rightarrow> Some (Some out)
      | CB_NOARRAY \<Rightarrow> Some None
      | CB_ERROR \<Rightarrow> None
      | CB_data v \<Rightarrow>
          if room < 1 then None
          else boolean_loop cb f (index + 1) (room - 1) (out @ [if \<exists>b \<in> set v. b \<noteq> 0 then 1 else 0]))"
  by pat_completeness auto
termination
  by (relation "measure (\<lambda>(cb, f, index, room, out). nat room)") auto

declare boolean_loop.simps [simp del]

function object_loop :: "callback \<Rightarrow> field \<Rightarrow> nat \<Rightarrow> int \<Rightarrow> bytes \<Rightarrow> bytes option option" where
  "object_loop cb f index room out =
     (if room < 4 then None
      else
        (case cb f index (room - 4) of
           CB_NIL \<Rightarrow> Some (Some out)
         | CB_NOARRAY \<Rightarrow> Some None
         | CB_ERROR \<Rightarrow> None
         | CB_data v \<Rightarrow> object_loop cb f (index + 1) (room - 4 - int (length v)) (out @ fill_size v)))"
  by pat_completeness auto
termination
  by (relation "measure (\<lambda>(cb, f, index, room, out). nat room)") auto

declare object_loop.simps [simp del]

definition encode_array :: "callback \<Rightarrow> field \<Rightarrow> int \<Rightarrow> bytes option" where
  "encode_array cb f room =
     (if room < 4 then None
      else do {
        r \<leftarrow>
          (if value_type f = SPROTO_TDOUBLE \<or> value_type f = SPROTO_TINTEGER then do {
             (out, noarray) \<leftarrow> encode_integer_array cb f (room - 4);
             Some (if noarray then None else Some out)
           }
           else if value_type f = SPROTO_TBOOLEAN then boolean_loop cb f 1 (room - 4) []
           else object_loop cb f 1 (room - 4) []);
        case r of None \<Rightarrow> Some [] | Some out \<Rightarrow> Some (fill_size out)
      })"

text \<open>The switch of \<open>sproto_encode\<close>: a value in the record of the field, or data; \<open>Zero\<close> ends the whole function with 0.\<close>

datatype encoded = Zero | Inline nat | Data bytes

definition of_le32_list :: "bytes \<Rightarrow> u32" where
  "of_le32_list v = of_le32 (v ! 0) (v ! 1) (v ! 2) (v ! 3)"

definition encode_field :: "callback \<Rightarrow> field \<Rightarrow> int \<Rightarrow> encoded option" where
  "encode_field cb f room =
     (if is_array f then map_option Data (encode_array cb f room)
      else if fd_type f = SPROTO_TDOUBLE \<or> fd_type f = SPROTO_TINTEGER \<or> fd_type f = SPROTO_TBOOLEAN then
        (case cb f 0 8 of
           CB_NIL \<Rightarrow> Some (Data [])
         | CB_NOARRAY \<Rightarrow> Some Zero
         | CB_ERROR \<Rightarrow> None
         | CB_data v \<Rightarrow>
             if length v = 4 then
               (let u = of_le32_list v
                in if u < 0x7fff then Some (Inline (unat ((u + 1) * 2))) else map_option Data (encode_integer u room))
             else if length v = 8 then map_option Data (encode_uint64 v room)
             else None)
      else if fd_type f = SPROTO_TSTRUCT \<or> fd_type f = SPROTO_TSTRING then map_option Data (encode_object cb f room)
      else None)"

text \<open>The records and the data of the fields; \<open>Some None\<close> when a field ends the function with 0.\<close>

definition put_record :: "int \<Rightarrow> int \<Rightarrow> nat \<Rightarrow> nat list option" where
  "put_record tag lasttag v =
     (let g = tag - lasttag - 1
      in if g > 0 then if (g - 1) * 2 + 1 > 0xffff then None else Some [nat ((g - 1) * 2 + 1), v]
         else Some [v])"

primrec encode_loop :: "callback \<Rightarrow> field list \<Rightarrow> int \<Rightarrow> int \<Rightarrow> (nat list \<times> bytes) option option" where
  "encode_loop cb [] room lasttag = Some (Some ([], []))"
| "encode_loop cb (f # fs) room lasttag = do {
     e \<leftarrow> encode_field cb f room;
     case e of
       Zero \<Rightarrow> Some None
     | Inline v \<Rightarrow> do {
         r \<leftarrow> put_record (fd_tag f) lasttag v;
         rest \<leftarrow> encode_loop cb fs room (fd_tag f);
         Some (map_option (\<lambda>(rs, d). (r @ rs, d)) rest)
       }
     | Data [] \<Rightarrow> encode_loop cb fs room lasttag
     | Data (b # bs) \<Rightarrow> do {
         r \<leftarrow> put_record (fd_tag f) lasttag 0;
         rest \<leftarrow> encode_loop cb fs (room - int (length (b # bs))) (fd_tag f);
         Some (map_option (\<lambda>(rs, d). (r @ rs, (b # bs) @ d)) rest)
       }
   }"

definition le16 :: "nat \<Rightarrow> bytes" where
  "le16 n = [of_nat n, of_nat (n div 256)]"

definition sproto_encode :: "sproto_type \<Rightarrow> callback \<Rightarrow> int \<Rightarrow> bytes option" where
  "sproto_encode st cb room =
     (let header_sz = 2 + st_maxn st * 2
      in if room < int header_sz then None
         else do {
           r \<leftarrow> encode_loop cb (st_f st) (room - int header_sz) (-1);
           case r of
             None \<Rightarrow> Some []
           | Some (records, data) \<Rightarrow> Some (le16 (length records) @ concat (map le16 records) @ data)
         })"

section \<open>Decoding\<close>

text \<open>
  A call of the callback: the field, the index and the value, which is a number, a block of the message given by its offset and its
  length, or nothing. A result is \<open>None\<close> when memory outside the message is read, and \<open>Some None\<close> for -1.
\<close>

datatype payload = Value u64 | Block nat int | Null

type_synonym call = "field \<times> int \<times> payload"

definition and_then :: "'a option option \<Rightarrow> ('a \<Rightarrow> 'b option option) \<Rightarrow> 'b option option" where
  "and_then r f = (case r of None \<Rightarrow> None | Some None \<Rightarrow> Some None | Some (Some x) \<Rightarrow> f x)"

definition toword :: "bytes \<Rightarrow> nat \<Rightarrow> nat option" where
  "toword data p = (if p + 2 \<le> length data then Some (unat (data ! p) + 256 * unat (data ! (p + 1))) else None)"

definition todword :: "bytes \<Rightarrow> nat \<Rightarrow> u32 option" where
  "todword data p = (if p + 4 \<le> length data then Some (of_le32 (data ! p) (data ! (p + 1)) (data ! (p + 2)) (data ! (p + 3))) else None)"

definition expand64 :: "u32 \<Rightarrow> u64" where
  "expand64 v = (let value = ucast v in if value AND 0x80000000 \<noteq> 0 then value OR push_bit 32 (NOT 0) else value)"

function array_object_loop :: "(call \<Rightarrow> bool) \<Rightarrow> field \<Rightarrow> bytes \<Rightarrow> nat \<Rightarrow> int \<Rightarrow> nat \<Rightarrow> call list option option" where
  "array_object_loop refuse f data stream sz index =
     (if sz > 0 then
        if sz < 4 then Some None
        else
          (case todword data stream of
             None \<Rightarrow> None
           | Some hsz \<Rightarrow>
               if int (unat hsz) > sz - 4 then Some None
               else
                 (let c = (f, int index, Block (stream + 4) (int (unat hsz)))
                  in if refuse c then Some None
                     else and_then (array_object_loop refuse f data (stream + 4 + unat hsz) (sz - 4 - int (unat hsz)) (index + 1))
                       (\<lambda>cs. Some (Some (c # cs)))))
      else Some (Some []))"
  by pat_completeness auto
termination
  by (relation "measure (\<lambda>(refuse, f, data, stream, sz, index). nat sz)") (auto simp del: of_nat_unat)

declare array_object_loop.simps [simp del]

definition number32 :: "bytes \<Rightarrow> nat \<Rightarrow> u64 option" where
  "number32 data p = map_option expand64 (todword data p)"

definition number64 :: "bytes \<Rightarrow> nat \<Rightarrow> u64 option" where
  "number64 data p = do { low \<leftarrow> todword data p; hi \<leftarrow> todword data (p + 4); Some (ucast low OR push_bit 32 (ucast hi)) }"

text \<open>The calls for an array of numbers of \<open>w\<close> bytes, read by \<open>rd\<close>.\<close>

primrec number_calls :: "(bytes \<Rightarrow> nat \<Rightarrow> u64 option) \<Rightarrow> nat \<Rightarrow> field \<Rightarrow> bytes \<Rightarrow> nat \<Rightarrow> nat \<Rightarrow> nat \<Rightarrow> call list option" where
  "number_calls rd w f data stream i 0 = Some []"
| "number_calls rd w f data stream i (Suc n) = do {
     v \<leftarrow> rd data (stream + i * w);
     cs \<leftarrow> number_calls rd w f data stream (i + 1) n;
     Some ((f, int i + 1, Value v) # cs)
   }"

definition byte_at :: "bytes \<Rightarrow> nat \<Rightarrow> u64 option" where
  "byte_at data p = (if p < length data then Some (ucast (data ! p)) else None)"

definition decode_array :: "(call \<Rightarrow> bool) \<Rightarrow> field \<Rightarrow> bytes \<Rightarrow> nat \<Rightarrow> call list option option" where
  "decode_array refuse f data stream = do {
     sz \<leftarrow> todword data stream;
     if sz = 0 then Some (Some [(f, -1, Null)])
     else
       (let stream = stream + 4; type = value_type f
        in if type = SPROTO_TDOUBLE \<or> type = SPROTO_TINTEGER then do {
             len \<leftarrow> byte_at data stream;
             let stream = stream + 1;
             let n = unat (sz - 1);
             if len = 4 then if n mod 4 \<noteq> 0 then Some None else map_option Some (number_calls number32 4 f data stream 0 (n div 4))
             else if len = 8 then if n mod 8 \<noteq> 0 then Some None else map_option Some (number_calls number64 8 f data stream 0 (n div 8))
             else Some None
           }
           else if type = SPROTO_TBOOLEAN then map_option Some (number_calls byte_at 1 f data stream 0 (unat sz))
           else if type = SPROTO_TSTRING \<or> type = SPROTO_TSTRUCT then array_object_loop refuse f data stream (sint sz) 1
           else Some None)
   }"

text \<open>A field whose value is in the data at \<open>currentdata\<close>.\<close>

definition decode_data :: "(call \<Rightarrow> bool) \<Rightarrow> field \<Rightarrow> bytes \<Rightarrow> nat \<Rightarrow> call list option option" where
  "decode_data refuse f data currentdata =
     (if is_array f then decode_array refuse f data currentdata
      else if fd_type f = SPROTO_TDOUBLE \<or> fd_type f = SPROTO_TINTEGER then do {
        sz \<leftarrow> todword data currentdata;
        if sz = 4 then do { v \<leftarrow> number32 data (currentdata + 4); Some (Some [(f, 0, Value v)]) }
        else if sz \<noteq> 8 then Some None
        else do { v \<leftarrow> number64 data (currentdata + 4); Some (Some [(f, 0, Value v)]) }
      }
      else if fd_type f = SPROTO_TSTRING \<or> fd_type f = SPROTO_TSTRUCT then do {
        sz \<leftarrow> todword data currentdata;
        let c = (f, 0, Block (currentdata + 4) (sint sz));
        Some (if refuse c then None else Some [c])
      }
      else Some None)"

text \<open>
  One turn: the tag after the record, the calls, the data pointer and the size that is left. \<open>sz + SIZEOF_LENGTH\<close> is computed with 32
  bits.
\<close>

definition decode_record :: "sproto_type \<Rightarrow> (call \<Rightarrow> bool) \<Rightarrow> bytes \<Rightarrow> nat \<Rightarrow> int \<times> nat \<times> int \<Rightarrow> (call list \<times> int \<times> nat \<times> int) option option" where
  "decode_record st refuse data value = (\<lambda>(tag, datastream, room).
     let tag = tag + 1 in
     if odd value then Some (Some ([], tag + int (value div 2), datastream, room))
     else
       (let value = int (value div 2) - 1 in
        and_then
          (if value < 0 then
             if room < 4 then Some None
             else do {
               sz \<leftarrow> todword data datastream;
               if (of_int room :: u32) < sz + 4 then Some None
               else Some (Some (datastream + unat (sz + 4), room - int (unat (sz + 4))))
             }
           else Some (Some (datastream, room)))
          (\<lambda>(next', room').
             case findtag st tag of
               None \<Rightarrow> Some (Some ([], tag, next', room'))
             | Some f \<Rightarrow>
                 and_then
                   (if value < 0 then decode_data refuse f data datastream
                    else if fd_type f \<noteq> SPROTO_TINTEGER \<and> fd_type f \<noteq> SPROTO_TBOOLEAN then Some None
                    else Some (Some [(f, 0, Value (of_int value))]))
                   (\<lambda>cs. Some (Some (cs, tag, next', room'))))))"

primrec decode_loop :: "sproto_type \<Rightarrow> (call \<Rightarrow> bool) \<Rightarrow> bytes \<Rightarrow> nat list \<Rightarrow> int \<times> nat \<times> int \<Rightarrow> (call list \<times> int) option option" where
  "decode_loop st refuse data [] s = Some (Some ([], snd (snd s)))"
| "decode_loop st refuse data (v # vs) s =
     and_then (decode_record st refuse data v s) (\<lambda>(cs, s). and_then (decode_loop st refuse data vs s) (\<lambda>(cs', room). Some (Some (cs @ cs', room))))"

definition sproto_decode :: "sproto_type \<Rightarrow> (call \<Rightarrow> bool) \<Rightarrow> bytes \<Rightarrow> (call list \<times> int) option option" where
  "sproto_decode st refuse data =
     (let room = int (length data)
      in if room < 2 then Some None
         else do {
           fn \<leftarrow> toword data 0;
           if room - 2 < int fn * 2 then Some None
           else
             (let values = map (\<lambda>i. unat (data ! (2 + 2 * i)) + 256 * unat (data ! (3 + 2 * i))) [0..<fn]
              in and_then (decode_loop st refuse data values (-1, 2 + fn * 2, room - 2 - int fn * 2)) (\<lambda>(cs, room'). Some (Some (cs, room - room'))))
         })"


section \<open>Results and lengths\<close>

text \<open>A result that is there, and has a property unless it is an error.\<close>

definition safe :: "('a \<Rightarrow> bool) \<Rightarrow> 'a option option \<Rightarrow> bool" where
  "safe P r \<longleftrightarrow> (case r of None \<Rightarrow> False | Some None \<Rightarrow> True | Some (Some x) \<Rightarrow> P x)"

lemma safe_simps [simp]: "safe P (Some None)" "safe P (Some (Some x)) \<longleftrightarrow> P x" "\<not> safe P None"
  by (simp_all add: safe_def)

lemma safe_mono: "safe P r \<Longrightarrow> (\<And>x. P x \<Longrightarrow> Q x) \<Longrightarrow> safe Q r"
  by (auto simp: safe_def split: option.splits)

lemma safe_and_then: "safe P r \<Longrightarrow> (\<And>x. P x \<Longrightarrow> safe Q (g x)) \<Longrightarrow> safe Q (and_then r g)"
proof -
  assume r: "safe P r" and g: "\<And>x. P x \<Longrightarrow> safe Q (g x)"
  show ?thesis
  proof (cases r)
    case (Some y)
    then show ?thesis using r g by (cases y) (simp_all add: and_then_def)
  qed (use r in simp)
qed

text \<open>No four bytes of the message are a length that overflows when 4 is added.\<close>

definition no_wrap :: "bytes \<Rightarrow> bool" where
  "no_wrap data \<longleftrightarrow> (\<forall>p < length data. \<forall>sz. todword data p = Some sz \<longrightarrow> sz < 0xfffffffc)"

lemma decide_no_wrap: "no_wrap data \<longleftrightarrow> (\<forall>p \<in> set [0..<length data]. case todword data p of None \<Rightarrow> True | Some sz \<Rightarrow> sz < 0xfffffffc)"
  by (auto simp: no_wrap_def split: option.splits)

lemma todword_inside: "p + 4 \<le> length data \<Longrightarrow> \<exists>v. todword data p = Some v"
  by (simp add: todword_def)

section \<open>Finding a field\<close>

abbreviation tags :: "field list \<Rightarrow> int list" where "tags fs \<equiv> map fd_tag fs"

lemma layout_loop_sorted: "layout_loop lst m fs = Some k \<Longrightarrow> sorted_wrt (<) (lst # tags fs)"
proof (induction fs arbitrary: lst m)
  case (Cons f fs)
  then have lt: "lst < fd_tag f" "sorted_wrt (<) (fd_tag f # tags fs)" by (auto split: if_splits)
  then show ?case by (auto intro: less_trans)
qed simp

lemma type_layout_sorted:
  assumes "type_layout name fs = Some st"
  shows "sorted_wrt (<) (-1 # tags (st_f st))" "st_f st = fs" "fs \<noteq> []"
  using assms layout_loop_sorted by (auto simp: type_layout_def Let_def bind_eq_Some_conv split: if_splits)

text \<open>The reference: the first field with the tag.\<close>

definition field_with :: "field list \<Rightarrow> int \<Rightarrow> field option" where
  "field_with fs tag = find (\<lambda>f. fd_tag f = tag) fs"

lemma field_with_nth: "sorted_wrt (<) (tags fs) \<Longrightarrow> i < length fs \<Longrightarrow> field_with fs (fd_tag (fs ! i)) = Some (fs ! i)"
proof (induction fs arbitrary: i)
  case (Cons f fs)
  then show ?case
  proof (cases i)
    case (Suc j)
    have "fd_tag f < fd_tag (fs ! j)" using Cons.prems Suc by (auto simp: nth_mem)
    then show ?thesis using Cons Suc by (auto simp: field_with_def)
  qed (simp add: field_with_def)
qed simp

lemma field_with_None: "tag \<notin> set (tags fs) \<Longrightarrow> field_with fs tag = None"
  by (auto simp: field_with_def find_None_iff)

lemma find_app: "find P (xs @ ys) = (case find P xs of None \<Rightarrow> find P ys | Some x \<Rightarrow> Some x)"
  by (induction xs) auto

lemma bisect_find:
  assumes "sorted_wrt (<) (map key fs)" "e \<le> length fs"
  shows "bisect key fs tag b e = (case find (\<lambda>i. key (fs ! i) = tag) [b..<e] of None \<Rightarrow> None | Some i \<Rightarrow> Some (fs ! i))"
  using assms
proof (induction key fs tag b e rule: bisect.induct)
  case (1 key fs tag b e)
  show ?case
  proof (cases "b < e")
    case True
    define mid where "mid = (b + e) div 2"
    have mid: "b \<le> mid" "mid < e" using True by (auto simp: mid_def)
    have less: "key (fs ! i) < key (fs ! j)" if "i < j" "j < e" for i j
      using "1.prems" that by (auto simp: sorted_wrt_iff_nth_less)
    have split: "[b..<e] = [b..<mid] @ mid # [mid + 1..<e]" 
      using upt_add_eq_append [of b mid "e - mid"] upt_conv_Cons [of mid e] mid by simp
    consider "key (fs ! mid) = tag" | "tag > key (fs ! mid)" | "tag < key (fs ! mid)" by linarith
    then show ?thesis
    proof cases
      case eq: 1
      have "find (\<lambda>i. key (fs ! i) = tag) [b..<mid] = None" using less [of _ mid] mid eq by (fastforce simp: find_None_iff)
      then have "find (\<lambda>i. key (fs ! i) = tag) [b..<e] = Some mid" unfolding split using eq by (simp add: find_app)
      then show ?thesis using True eq by (subst bisect.simps) (simp add: Let_def flip: mid_def)
    next
      case 2
      have "find (\<lambda>i. key (fs ! i) = tag) [b..<mid] = None" using less [of _ mid] mid 2 by (fastforce simp: find_None_iff)
      then have "find (\<lambda>i. key (fs ! i) = tag) [b..<e] = find (\<lambda>i. key (fs ! i) = tag) [mid + 1..<e]"
        unfolding split using 2 by (simp add: find_app)
      moreover have "bisect key fs tag b e = bisect key fs tag (mid + 1) e" using True 2 by (subst bisect.simps) (simp add: Let_def flip: mid_def)
      ultimately show ?thesis using "1.IH"(1) [OF True mid_def refl refl _ 2 "1.prems"] 2 by simp
    next
      case 3
      have "find (\<lambda>i. key (fs ! i) = tag) [mid + 1..<e] = None"
      proof -
        have "key (fs ! x) \<noteq> tag" if "x \<in> set [mid + 1..<e]" for x using less [of mid x] 3 that by simp
        then show ?thesis unfolding find_None_iff by blast
      qed
      then have "find (\<lambda>i. key (fs ! i) = tag) [b..<e] = find (\<lambda>i. key (fs ! i) = tag) [b..<mid]"
        unfolding split using 3 by (simp add: find_app split: option.splits)
      moreover have "bisect key fs tag b e = bisect key fs tag b mid" using True 3 by (subst bisect.simps) (simp add: Let_def flip: mid_def)
      ultimately show ?thesis using "1.IH"(2) [OF True mid_def refl refl _ _ "1.prems"(1)] 3 mid "1.prems"(2) by simp
    qed
  qed (subst bisect.simps, simp)
qed

lemma find_index: "(case find (\<lambda>i. P (xs ! i)) [0..<length xs] of None \<Rightarrow> None | Some i \<Rightarrow> Some (xs ! i)) = find P xs"
proof (induction xs)
  case (Cons x xs)
  have "find (\<lambda>i. P ((x # xs) ! i)) [1..<length (x # xs)] = map_option Suc (find (\<lambda>i. P (xs ! i)) [0..<length xs])"
  proof -
    have "[1..<length (x # xs)] = map Suc [0..<length xs]" by (simp add: map_Suc_upt)
    moreover have "find Q (map Suc l) = map_option Suc (find (Q \<circ> Suc) l)" for Q l by (induction l) auto
    ultimately show ?thesis by (simp add: o_def)
  qed
  moreover have "[0..<length (x # xs)] = 0 # [1..<length (x # xs)]" by (simp add: upt_conv_Cons del: upt_Suc)
  ultimately show ?case using Cons by (cases "P x") (auto simp del: upt_Suc split: option.splits)
qed simp

text \<open>Tags that follow each other without a gap are found by subtraction.\<close>

lemma sorted_dense:
  assumes "sorted_wrt (<) (tags fs)" "fs \<noteq> []" "fd_tag (last fs) - fd_tag (hd fs) + 1 = int (length fs)" "i < length fs"
  shows "fd_tag (fs ! i) = fd_tag (hd fs) + int i"
proof -
  have mono: "fd_tag (fs ! i) + int (j - i) \<le> fd_tag (fs ! j)" if "i \<le> j" "j < length fs" for i j
    using that
  proof (induction "j - i" arbitrary: j)
    case (Suc n)
    then obtain k where k: "j = Suc k" "i \<le> k" by (cases j) auto
    have "fd_tag (fs ! k) < fd_tag (fs ! j)" using assms(1) Suc.prems k by (auto simp: sorted_wrt_iff_nth_less)
    moreover have "n = k - i" using Suc.hyps(2) k by simp
    ultimately show ?case using Suc.hyps(1) [of k] Suc.prems k by simp
  qed simp
  have h: "hd fs = fs ! 0" "last fs = fs ! (length fs - 1)" using assms(2) by (simp_all add: hd_conv_nth last_conv_nth)
  show ?thesis using mono [of 0 i] mono [of i "length fs - 1"] assms(2-4) unfolding h by (cases fs) auto
qed

lemma findtag_find:
  assumes "type_layout name fs = Some st"
  shows "findtag st tag = find (\<lambda>f. fd_tag f = tag) fs"
proof -
  note t = type_layout_sorted [OF assms]
  have srt: "sorted_wrt (<) (tags fs)" and all: "\<forall>f \<in> set fs. -1 < fd_tag f" using t(1) unfolding t(2) by auto
  have pos: "0 \<le> fd_tag (fs ! i)" if "i < length fs" for i using all nth_mem [OF that] by force
  have b: "st_base st = (if fd_tag (last fs) - fd_tag (hd fs) + 1 \<noteq> int (length fs) then -1 else fd_tag (hd fs))"
    using assms by (auto simp: type_layout_def Let_def bind_eq_Some_conv split: if_splits)
  have hd: "0 \<le> fd_tag (hd fs)" using pos [of 0] t(3) by (simp add: hd_conv_nth)
  show ?thesis
  proof (cases "fd_tag (last fs) - fd_tag (hd fs) + 1 = int (length fs)")
    case True
    note d = sorted_dense [OF srt t(3) True]
    show ?thesis
    proof (cases "0 \<le> tag - fd_tag (hd fs) \<and> tag - fd_tag (hd fs) < int (length fs)")
      case inside: True
      define i where "i = nat (tag - fd_tag (hd fs))"
      have i: "i < length fs" "fd_tag (fs ! i) = tag" using inside d [of i] by (auto simp: i_def)
      then show ?thesis using field_with_nth [OF srt i(1)] inside True b hd t(2) by (simp add: findtag_def field_with_def i_def)
    next
      case False
      then have "tag \<notin> set (tags fs)" using d by (auto simp: in_set_conv_nth)
      then show ?thesis using field_with_None [of tag fs] False True b hd t(2) by (auto simp: findtag_def field_with_def)
    qed
  next
    case False
    then show ?thesis using b bisect_find [OF srt order_refl, of tag 0] find_index [where P = "\<lambda>f. fd_tag f = tag" and xs = fs] t(2)
      by (simp add: findtag_def)
  qed
qed

text \<open>A type for the examples: a number, an array of numbers and a string, with a gap before the last tag.\<close>

definition demo_fields :: "field list" where
  "demo_fields =
     [\<lparr>fd_tag = 0, fd_type = SPROTO_TINTEGER, fd_name = ''id'', fd_st = None, fd_key = -1, fd_extra = 0\<rparr>,
      \<lparr>fd_tag = 1, fd_type = SPROTO_TARRAY OR SPROTO_TINTEGER, fd_name = ''scores'', fd_st = None, fd_key = -1, fd_extra = 0\<rparr>,
      \<lparr>fd_tag = 4, fd_type = SPROTO_TSTRING, fd_name = ''name'', fd_st = None, fd_key = -1, fd_extra = 0\<rparr>]"

definition demo_type :: sproto_type where
  "demo_type = \<lparr>st_name = ''player'', st_base = -1, st_maxn = 4, st_f = demo_fields\<rparr>"

lemma demo_layout: "type_layout ''player'' demo_fields = Some demo_type"
  by (simp add: type_layout_def demo_fields_def demo_type_def)

text \<open>
  For every type that the schema loader accepts, \<open>findtag\<close> finds exactly the field with the tag, whether it subtracts the base of
  tags without gaps or searches by bisection, and nothing for a tag that no field has.
\<close>

theorem findtag_finds:
  assumes "type_layout name fs = Some st"
  shows "findtag st tag = find (\<lambda>f. fd_tag f = tag) fs"
  using assms by (rule findtag_find)

theorem findtag_finds_witness: "findtag demo_type 4 = find (\<lambda>f. fd_tag f = 4) demo_fields"
  by (rule findtag_finds [OF demo_layout])

section \<open>The encoder stays in its buffer\<close>

definition keeps_room :: "callback \<Rightarrow> bool" where
  "keeps_room cb \<longleftrightarrow> (\<forall>f i r v. cb f i r = CB_data v \<longrightarrow> int (length v) \<le> r)"

lemma length_fill_size [simp]: "length (fill_size v) = 4 + length v"
  by (simp add: fill_size_def)

lemma length_uint32_to_uint64 [simp]: "length (uint32_to_uint64 v) = 4"
  by (simp add: uint32_to_uint64_def)

lemma length_rearrange: "8 * n \<le> length mem \<Longrightarrow> length (rearrange n mem) = length mem"
  by (induction n arbitrary: mem) (simp_all add: Let_def)

lemma integer_loop_fits:
  assumes "integer_loop cb f index intlen r out = Some (out', il, na)" "length out = (index - 1) * intlen" "intlen = 4 \<or> intlen = 8" "0 \<le> r" "0 < index"
  shows "int (length out') \<le> int (length out) + r"
  using assms
proof (induction cb f index intlen r out rule: integer_loop.induct)
  case (1 cb f index intlen r out)
  show ?case
  proof (cases "cb f index 8")
    case (CB_data v)
    have v: "v \<noteq> []" "\<not> r < 8" using "1.prems"(1) CB_data by (auto simp: integer_loop.simps [of cb f index intlen r out] split: if_splits)
    have c: "index + 1 - 1 = Suc (index - 1)" using "1.prems"(5) by simp
    consider (four) "length v = 4" | (wide) "length v = 8" "intlen = 4" | (eight) "length v = 8" "intlen \<noteq> 4"
      using "1.prems"(1) CB_data by (auto simp: integer_loop.simps [of cb f index intlen r out] split: if_splits)
    then show ?thesis
    proof cases
      case four
      let ?out = "out @ v @ (if intlen = 8 then uint32_to_uint64 v else [])"
      have l: "length ?out = (index + 1 - 1) * intlen" "length ?out = length out + intlen" unfolding c using "1.prems"(2,3) four by auto
      have "integer_loop cb f (index + 1) intlen (r - int (if intlen = 8 then 8 else 4)) ?out = Some (out', il, na)"
        using "1.prems"(1) CB_data v four by (simp add: integer_loop.simps [of cb f index intlen r out])
      from "1.IH"(1) [OF CB_data v four this l(1) "1.prems"(3)] show ?thesis using "1.prems"(3) v(2) l(2) by auto
    next
      case wide
      let ?out = "rearrange (index - 1) (out @ replicate ((index - 1) * 4) 0) @ v"
      have rr: "\<not> r - int ((index - 1) * 4) < 8"
      proof
        assume "r - int ((index - 1) * 4) < 8"
        then have "integer_loop cb f index intlen r out = None"
          unfolding integer_loop.simps [of cb f index intlen r out] CB_data using v wide by (simp only: cb_result.case if_True if_False) simp
        then show False using "1.prems"(1) by simp
      qed
      have l: "length ?out = (index + 1 - 1) * 8" unfolding c using "1.prems"(2) wide by (simp add: length_rearrange)
      have "integer_loop cb f index intlen r out = integer_loop cb f (index + 1) 8 (r - int ((index - 1) * 4) - 8) ?out"
        unfolding integer_loop.simps [of cb f index intlen r out] CB_data using v wide rr by (simp only: cb_result.case if_False) simp
      then have "integer_loop cb f (index + 1) 8 (r - int ((index - 1) * 4) - 8) ?out = Some (out', il, na)" using "1.prems"(1) by simp
      from "1.IH"(2) [OF CB_data v _ _ wide(2) rr this l] show ?thesis using "1.prems"(2) wide rr l c by simp
    next
      case eight
      then have i8: "intlen = 8" using "1.prems"(3) by simp
      have l: "length (out @ v) = (index + 1 - 1) * intlen" unfolding c using "1.prems"(2) eight(1) i8 by simp
      have "integer_loop cb f (index + 1) intlen (r - 8) (out @ v) = Some (out', il, na)"
        using "1.prems"(1) CB_data v eight by (simp add: integer_loop.simps [of cb f index intlen r out])
      from "1.IH"(3) [OF CB_data v _ _ eight(2) this l "1.prems"(3)] show ?thesis using eight v(2) by simp
    qed
  qed (use "1.prems"(1,4) in \<open>auto simp: integer_loop.simps [of cb f index intlen r out]\<close>)
qed

lemma boolean_loop_fits:
  "boolean_loop cb f index r out = Some (Some out') \<Longrightarrow> 0 \<le> r \<Longrightarrow> int (length out') \<le> int (length out) + r"
proof (induction cb f index r out rule: boolean_loop.induct)
  case (1 cb f index r out)
  then show ?case
    by (cases "cb f index 4") (fastforce simp: boolean_loop.simps [of cb f index r out] split: if_splits)+
qed

lemma object_loop_fits:
  "object_loop cb f index r out = Some (Some out') \<Longrightarrow> keeps_room cb \<Longrightarrow> int (length out') \<le> int (length out) + r"
proof (induction cb f index r out rule: object_loop.induct)
  case (1 cb f index r out)
  have r: "\<not> r < 4" using "1.prems"(1) by (auto simp: object_loop.simps [of cb f index r out])
  show ?case
  proof (cases "cb f index (r - 4)")
    case (CB_data v)
    then have "object_loop cb f (index + 1) (r - 4 - int (length v)) (out @ fill_size v) = Some (Some out')"
      using "1.prems"(1) r by (simp add: object_loop.simps [of cb f index r out])
    then show ?thesis using "1.IH" [OF r CB_data] "1.prems"(2) by simp
  qed (use "1.prems"(1) r in \<open>auto simp: object_loop.simps [of cb f index r out]\<close>)
qed

lemma encode_array_fits:
  assumes "encode_array cb f r = Some bs" "keeps_room cb" "0 \<le> r"
  shows "int (length bs) \<le> r"
proof -
  have r: "\<not> r < 4" using assms(1) by (auto simp: encode_array_def)
  have int: "int (length out) \<le> r - 4" if "encode_integer_array cb f (r - 4) = Some (out, na)" for out na
  proof -
    note enc = that
    have r5: "\<not> r - 4 < 1" using enc by (auto simp: encode_integer_array_def)
    then obtain p where p: "integer_loop cb f 1 4 (r - 4 - 1) [] = Some p"
      using enc by (cases "integer_loop cb f 1 4 (r - 4 - 1) []") (simp_all add: encode_integer_array_def)
    obtain o' il na' where p': "p = (o', il, na')" by (cases p)
    have o': "integer_loop cb f 1 4 (r - 4 - 1) [] = Some (o', il, na')" "\<not> r - 4 < 1" "length out \<le> length o' + 1"
      using enc p p' r5 by (auto simp: encode_integer_array_def split: if_splits)
    then show ?thesis using integer_loop_fits [OF o'(1)] by simp
  qed
  show ?thesis
    using assms(1) r int boolean_loop_fits [of cb f 1 "r - 4" "[]"] object_loop_fits [of cb f 1 "r - 4" "[]"] assms(2)
    by (auto simp: encode_array_def bind_eq_Some_conv split: if_splits option.splits) force+
qed

lemma encode_field_fits:
  assumes "encode_field cb f r = Some (Data bs)" "keeps_room cb" "0 \<le> r"
  shows "int (length bs) \<le> r"
  using assms encode_array_fits [of cb f r]
  by (auto simp: encode_field_def encode_integer_def encode_uint64_def encode_object_def Let_def split: if_splits cb_result.splits)

text \<open>The gaps between the tags of the type.\<close>

primrec gaps :: "int \<Rightarrow> field list \<Rightarrow> nat" where
  "gaps lst [] = 0"
| "gaps lst (f # fs) = (if fd_tag f > lst + 1 then 1 else 0) + gaps (fd_tag f) fs"

lemma layout_loop_gaps: "layout_loop lst m fs = Some k \<Longrightarrow> k = m + gaps lst fs"
proof (induction fs arbitrary: lst m)
  case (Cons f fs)
  then have "layout_loop (fd_tag f) (if fd_tag f > lst + 1 then m + 1 else m) fs = Some k" by (simp split: if_splits)
  from Cons.IH [OF this] show ?case by simp
qed simp

lemma put_record_length: "put_record tag lst v = Some r \<Longrightarrow> length r = (if tag > lst + 1 then 2 else 1)"
  by (auto simp: put_record_def Let_def split: if_splits)

text \<open>A field that is left out makes room for the skip record of the next one.\<close>

lemma encode_loop_fits:
  assumes "encode_loop cb fs r lasttag = Some (Some (rs, d))" "keeps_room cb" "0 \<le> r" "sorted_wrt (<) (lst # tags fs)" "lasttag \<le> lst"
  shows "int (length d) \<le> r \<and> length rs \<le> length fs + gaps lst fs + (if lasttag < lst then 1 else 0)"
  using assms
proof (induction fs arbitrary: r lasttag lst rs d)
  case (Cons f fs)
  have srt: "sorted_wrt (<) (fd_tag f # tags fs)" "lst < fd_tag f" using Cons.prems(4) by auto
  obtain e where e: "encode_field cb f r = Some e" using Cons.prems(1) by (auto simp: bind_eq_Some_conv)
  have put: ?case if "put_record (fd_tag f) lasttag v = Some h" "encode_loop cb fs r' (fd_tag f) = Some (Some (rs', d'))" "rs = h @ rs'"
    "int (length d) = int (length d') + (r - r')" "0 \<le> r'" for v h rs' d' r'
  proof -
    have "int (length d') \<le> r' \<and> length rs' \<le> length fs + gaps (fd_tag f) fs"
      using Cons.IH [OF that(2) Cons.prems(2) that(5) srt(1) order_refl] by simp
    then show ?thesis using put_record_length [OF that(1)] that(3,4) srt(2) Cons.prems(5) by auto
  qed
  show ?case
  proof (cases e)
    case Zero
    then show ?thesis using e Cons.prems(1) by simp
  next
    case (Inline v)
    then obtain h rs' d' where h: "put_record (fd_tag f) lasttag v = Some h" "encode_loop cb fs r (fd_tag f) = Some (Some (rs', d'))" "rs = h @ rs'" "d = d'"
      using e Cons.prems(1) by (auto simp: bind_eq_Some_conv)
    show ?thesis by (rule put [OF h(1,2,3)]) (use h(4) Cons.prems(3) in simp_all)
  next
    case (Data bs)
    show ?thesis
    proof (cases bs)
      case Nil
      then have "encode_loop cb fs r lasttag = Some (Some (rs, d))" using e Data Cons.prems(1) by simp
      then show ?thesis using Cons.IH [OF _ Cons.prems(2,3) srt(1), of lasttag rs d] srt(2) Cons.prems(5) by auto
    next
      case (Cons b bs')
      then obtain h rs' d' where h: "put_record (fd_tag f) lasttag 0 = Some h"
        "encode_loop cb fs (r - int (length bs)) (fd_tag f) = Some (Some (rs', d'))" "rs = h @ rs'" "d = bs @ d'"
        using e Data \<open>encode_loop cb (f # fs) r lasttag = _\<close> by (auto simp: bind_eq_Some_conv)
      have "int (length bs) \<le> r" using encode_field_fits [of cb f r bs] e Data \<open>keeps_room cb\<close> \<open>0 \<le> r\<close> by simp
      then show ?thesis by (intro put [OF h(1,2,3)]) (use h(4) in simp_all)
    qed
  qed
qed simp

text \<open>
  C34. The encoder stays in its buffer: for a type that the schema loader accepts and a callback that keeps to its room, the records fit
  in the header the loader computed for the type, and the whole message in the size of the buffer, also where an array of integers
  is widened in place.
\<close>

theorem sproto_encode_fits:
  assumes "type_layout name fs = Some st" "keeps_room cb" "sproto_encode st cb room = Some out"
  shows "int (length out) \<le> room \<and>
    (\<forall>records data. encode_loop cb (st_f st) (room - int (2 + st_maxn st * 2)) (-1) = Some (Some (records, data)) \<longrightarrow> length records \<le> st_maxn st)"
proof -
  note t = type_layout_sorted [OF assms(1)]
  obtain m where m: "layout_loop (-1) (length fs) fs = Some m" "st_maxn st = m"
    using assms(1) by (auto simp: type_layout_def Let_def bind_eq_Some_conv split: if_splits)
  have sz: "0 \<le> room - int (2 + st_maxn st * 2)" using assms(3) by (auto simp: sproto_encode_def Let_def split: if_splits)
  have fits: "int (length d) \<le> room - int (2 + st_maxn st * 2) \<and> length rs \<le> st_maxn st"
    if "encode_loop cb (st_f st) (room - int (2 + st_maxn st * 2)) (-1) = Some (Some (rs, d))" for rs d
    using encode_loop_fits [OF that assms(2) sz t(1) order_refl] layout_loop_gaps [OF m(1)] m(2) t(2) by simp
  have len: "length (concat (map le16 rs)) = 2 * length rs" for rs by (induction rs) (simp_all add: le16_def)
  have "int (length out) \<le> room"
  proof -
    obtain r where r: "encode_loop cb (st_f st) (room - int (2 + st_maxn st * 2)) (-1) = Some r"
      "out = (case r of None \<Rightarrow> [] | Some (records, data) \<Rightarrow> le16 (length records) @ concat (map le16 records) @ data)"
      using assms(3) by (auto simp: sproto_encode_def Let_def bind_eq_Some_conv split: if_splits option.splits)
    show ?thesis
    proof (cases r)
      case (Some p)
      obtain rs d where p: "p = (rs, d)" by (cases p)
      show ?thesis using fits [of rs d] r Some p by (simp add: len le16_def)
    qed (use r sz in auto)
  qed
  then show ?thesis using fits by blast
qed

theorem sproto_encode_fits_witness:
  "let cb = (\<lambda>f i room. if is_array f then CB_NOARRAY else if 4 \<le> room then CB_data [1, 0, 0, 0] else CB_ERROR) in
   \<exists>out. sproto_encode demo_type cb 30 = Some out \<and> int (length out) \<le> 30"
proof -
  let ?cb = "\<lambda>f i room. if is_array f then CB_NOARRAY else if 4 \<le> room then CB_data [1, 0, 0, 0] else CB_ERROR"
  have k: "keeps_room ?cb" by (simp add: keeps_room_def split: if_splits)
  have "\<exists>out. sproto_encode demo_type ?cb 30 = Some out"
    by (simp add: sproto_encode_def demo_type_def demo_fields_def encode_field_def encode_array_def encode_integer_array_def integer_loop.simps
        encode_object_def is_array_def value_type_def sproto_types of_le32_list_def of_le32_def put_record_def fill_size_def le32_def Let_def)
  then obtain out where out: "sproto_encode demo_type ?cb 30 = Some out" ..
  from sproto_encode_fits [OF demo_layout k out] out show ?thesis by auto
qed

end
