(* ===== verification/SprotoDecode.thy ===== *)
theory SprotoDecode
  imports Sproto
begin

text \<open>
  What \<open>sproto_decode\<close> does with bytes that no encoder wrote: it stays in the message as long as no length in it overflows the addition
  of the four bytes before it, and leaves it otherwise.
\<close>

section \<open>The decoder stays in the message\<close>

definition inside :: "bytes \<Rightarrow> call \<Rightarrow> bool" where
  "inside data c = (case snd (snd c) of Block p n \<Rightarrow> 0 \<le> n \<and> int p + n \<le> int (length data) | _ \<Rightarrow> True)"

abbreviation calls_inside :: "bytes \<Rightarrow> call list \<Rightarrow> bool" where
  "calls_inside data cs \<equiv> \<forall>c \<in> set cs. inside data c"

lemma inside_Value [simp]: "inside data (f, i, Value v)"
  by (simp add: inside_def)

lemma number_calls_inside:
  assumes "\<And>p. p + w \<le> length data \<Longrightarrow> \<exists>v. rd data p = Some v" "stream + (i + n) * w \<le> length data"
  shows "\<exists>cs. number_calls rd w f data stream i n = Some cs \<and> calls_inside data cs"
  using assms(2)
proof (induction n arbitrary: i)
  case (Suc n)
  have "stream + i * w + w \<le> length data"
  proof -
    have "i * w \<le> (i + n) * w" by (rule mult_le_mono1) simp
    moreover have "(i + Suc n) * w = w + (i + n) * w" by simp
    ultimately show ?thesis using Suc.prems by linarith
  qed
  then obtain v where v: "rd data (stream + i * w) = Some v" using assms(1) by blast
  moreover obtain cs where "number_calls rd w f data stream (i + 1) n = Some cs" "calls_inside data cs" using Suc.IH [of "i + 1"] Suc.prems by auto
  ultimately show ?case by auto
qed simp

lemma array_object_loop_inside:
  assumes "0 \<le> sz" "int stream + sz \<le> int (length data)"
  shows "safe (calls_inside data) (array_object_loop refuse f data stream sz index)"
  using assms
proof (induction refuse f data stream sz index rule: array_object_loop.induct)
  case (1 refuse f data stream sz index)
  show ?case
  proof (cases "sz > 0 \<and> \<not> sz < 4")
    case True
    then obtain hsz where h: "todword data stream = Some hsz" using todword_inside [of stream data] "1.prems"(2) by auto
    let ?c = "(f, int index, Block (stream + 4) (int (unat hsz)))"
    show ?thesis
    proof (cases "int (unat hsz) > sz - 4 \<or> refuse ?c")
      case False
      have "safe (calls_inside data) (array_object_loop refuse f data (stream + 4 + unat hsz) (sz - 4 - int (unat hsz)) (index + 1))"
        using "1.IH" [OF _ _ h _ refl] True False "1.prems" by (simp del: of_nat_unat)
      moreover have "inside data ?c" using False "1.prems"(2) by (auto simp: inside_def simp del: of_nat_unat)
      ultimately have "safe (calls_inside data) (and_then (array_object_loop refuse f data (stream + 4 + unat hsz) (sz - 4 - int (unat hsz)) (index + 1))
          (\<lambda>cs. Some (Some (?c # cs))))"
        by (elim safe_and_then) (simp del: of_nat_unat)
      then show ?thesis using True False h by (subst array_object_loop.simps) (simp add: Let_def del: of_nat_unat)
    qed (use True h in \<open>subst array_object_loop.simps, auto simp del: of_nat_unat\<close>)
  qed (subst array_object_loop.simps, auto)
qed

lemma number_reads:
  "p + 4 \<le> length data \<Longrightarrow> \<exists>v. number32 data p = Some v"
  "p + 8 \<le> length data \<Longrightarrow> \<exists>v. number64 data p = Some v"
  "p + 1 \<le> length data \<Longrightarrow> \<exists>v. byte_at data p = Some v"
  by (auto simp: number32_def number64_def todword_def byte_at_def)

lemma unat_minus_1: "sz \<noteq> 0 \<Longrightarrow> unat (sz - 1 :: u32) = unat sz - 1"
  by (rule unat_minus_one)

lemma sint_small: "unat (sz :: u32) < 2 ^ 31 \<Longrightarrow> sint sz = int (unat sz)"
proof -
  assume u: "unat sz < 2 ^ 31"
  have "sint (of_nat (unat sz) :: u32) = int (unat sz)"
    using u by (simp add: signed_of_nat del: of_nat_unat) (rule signed_take_bit_int_eq_self, simp_all del: of_nat_unat)
  then show ?thesis by simp
qed

lemma decode_array_inside:
  assumes "todword data stream = Some sz" "stream + 4 + unat sz \<le> length data" "length data < 2 ^ 31"
  shows "safe (calls_inside data) (decode_array refuse f data stream)"
proof (cases "sz = 0")
  case True
  then show ?thesis using assms(1) by (simp add: decode_array_def inside_def)
next
  case False
  then have pos: "0 < unat sz" by (simp add: unat_gt_0)
  obtain len where len: "byte_at data (stream + 4) = Some len" using number_reads(3) [of "stream + 4" data] assms(2) pos by auto
  have n: "stream + 5 + unat (sz - 1) \<le> length data" using unat_minus_1 [OF False] assms(2) pos by simp
  have numbers: "\<exists>cs. number_calls rd w f data (stream + 5) 0 (unat (sz - 1) div w) = Some cs \<and> calls_inside data cs"
    if "\<And>p. p + w \<le> length data \<Longrightarrow> \<exists>v. rd data p = Some v" for w rd
  proof (rule number_calls_inside [of w data rd "stream + 5" 0 "unat (sz - 1) div w" f, OF that])
    have "unat (sz - 1) div w * w \<le> unat (sz - 1)" by simp
    then show "stream + 5 + (0 + unat (sz - 1) div w) * w \<le> length data" using n unfolding add_0 by linarith
  qed simp
  obtain cs4 where cs4: "number_calls number32 4 f data (stream + 5) 0 (unat (sz - 1) div 4) = Some cs4" "calls_inside data cs4"
    using numbers [of 4 number32] number_reads(1) by blast
  obtain cs8 where cs8: "number_calls number64 8 f data (stream + 5) 0 (unat (sz - 1) div 8) = Some cs8" "calls_inside data cs8"
    using numbers [of 8 number64] number_reads(2) by blast
  obtain cs1 where cs1: "number_calls byte_at 1 f data (stream + 4) 0 (unat sz) = Some cs1" "calls_inside data cs1"
    using number_calls_inside [of 1 data byte_at "stream + 4" 0 "unat sz" f] number_reads(3) assms(2) by auto
  have "sint sz = int (unat sz)" using sint_small assms(2,3) by simp
  then have obj: "safe (calls_inside data) (array_object_loop refuse f data (stream + 4) (sint sz) 1)"
    using array_object_loop_inside [of "sint sz" "stream + 4" data refuse f 1] assms(2) by (simp del: of_nat_unat)
  show ?thesis using assms(1) False len cs4 cs8 cs1 obj
    by (auto simp: decode_array_def Let_def add.commute [of 5 stream] simp del: of_nat_unat)
qed


lemma decode_data_inside:
  assumes "todword data p = Some sz" "p + 4 + unat sz \<le> length data" "length data < 2 ^ 31"
  shows "safe (calls_inside data) (decode_data refuse f data p)"
proof -
  have u: "sz = 4 \<Longrightarrow> \<exists>v. number32 data (p + 4) = Some v" "sz = 8 \<Longrightarrow> \<exists>v. number64 data (p + 4) = Some v"
    using number_reads(1,2) [of "p + 4" data] assms(2) by auto
  have s: "sint sz = int (unat sz)" using sint_small assms(2,3) by simp
  have b: "inside data (f, 0, Block (p + 4) (sint sz))" using assms(2) unfolding s by (simp add: inside_def del: of_nat_unat)
  show ?thesis
    using assms(1) u b decode_array_inside [OF assms, of refuse f] by (cases "sz = 4"; cases "sz = 8") (auto simp: decode_data_def Let_def)
qed

lemma decode_record_inside:
  assumes "no_wrap data" "length data < 2 ^ 31" "0 \<le> room" "int p + room = int (length data)"
  shows "safe (\<lambda>(cs, tag', q, room'). calls_inside data cs \<and> 0 \<le> room' \<and> int q + room' = int (length data)) (decode_record st refuse data value (tag, p, room))"
proof (cases "odd value")
  case True
  then show ?thesis using assms by (simp add: decode_record_def)
next
  case even: False
  show ?thesis
  proof (cases "value div 2 = 0")
    case True
    show ?thesis
    proof (cases "room < 4")
      case room: False
      obtain sz where sz: "todword data p = Some sz" using todword_inside [of p data] assms(4) room by auto
      have "p < length data" using assms(4) room by simp
      then have "sz < 0xfffffffc" using assms(1) sz by (simp add: no_wrap_def)
      then have u: "unat (sz + 4) = unat sz + 4" by (subst unat_add_lem [THEN iffD1]) (simp_all add: word_less_nat_alt)
      have "(of_int room :: u32) = of_nat (nat room)" using assms(3) by simp
      then have r: "unat (of_int room :: u32) = nat room"
        using assms(2-4) by (simp only: unat_of_nat) (simp add: take_bit_nat_eq_self nat_less_iff)
      show ?thesis
      proof (cases "(of_int room :: u32) < sz + 4")
        case False
        then have le: "int (unat sz) + 4 \<le> room" using assms(3) unfolding word_less_nat_alt u r by arith
        then have "p + 4 + unat sz \<le> length data" using assms(4) by arith
        note d = decode_data_inside [OF sz this assms(2)]
        show ?thesis
        proof (cases "findtag st (tag + 1)")
          case (Some f)
          have "safe (\<lambda>(cs, tag', q, room'). calls_inside data cs \<and> 0 \<le> room' \<and> int q + room' = int (length data))
              (and_then (decode_data refuse f data p) (\<lambda>cs. Some (Some (cs, tag + 1, p + unat (sz + 4), room - int (unat (sz + 4))))))"
            using d [of refuse f] by (elim safe_and_then) (use le assms(4) in \<open>simp add: u del: of_nat_unat\<close>)
          then show ?thesis using even True room sz False Some by (simp add: decode_record_def Let_def and_then_def)
        qed (use even True room sz False le assms(4) u in \<open>simp add: decode_record_def Let_def and_then_def del: of_nat_unat\<close>)
      qed (use even True room sz in \<open>simp add: decode_record_def Let_def and_then_def\<close>)
    qed (use even True in \<open>simp add: decode_record_def Let_def and_then_def\<close>)
  next
    case False
    then show ?thesis using even assms by (cases "findtag st (tag + 1)") (auto simp: decode_record_def Let_def and_then_def)
  qed
qed

lemma decode_loop_inside:
  assumes "no_wrap data" "length data < 2 ^ 31" "0 \<le> room" "int p + room = int (length data)"
  shows "safe (\<lambda>(cs, room'). calls_inside data cs \<and> 0 \<le> room') (decode_loop st refuse data vs (tag, p, room))"
  using assms(3,4)
proof (induction vs arbitrary: tag p room)
  case (Cons v vs)
  let ?Q = "\<lambda>(cs, room'). calls_inside data cs \<and> 0 \<le> room'"
  have step: "safe ?Q (and_then (decode_loop st refuse data vs s) (\<lambda>(cs', room). Some (Some (cs @ cs', room))))"
    if "calls_inside data cs" "s = (tag', q, room')" "0 \<le> room'" "int q + room' = int (length data)" for cs s tag' q room'
    using Cons.IH [OF that(3,4), of tag'] unfolding that(2) by (rule safe_and_then) (use that(1) in auto)
  show ?case unfolding decode_loop.simps
    by (rule safe_and_then [OF decode_record_inside [OF assms(1,2) Cons.prems]]) (use step in auto)
qed simp




section \<open>Lengths that overflow\<close>

definition one_field :: "u32 \<Rightarrow> sproto_type" where
  "one_field type = \<lparr>st_name = ''T'', st_base = 0, st_maxn = 1, st_f = [\<lparr>fd_tag = 0, fd_type = type, fd_name = ''f'', fd_st = None, fd_key = -1, fd_extra = 0\<rparr>]\<rparr>"

text \<open>
  A length that overflows when 4 is added passes the check of \<open>sproto_decode\<close>: eight bytes make it hand a block of length -4 at the end of
  the message to the callback for a field that is a string, and read behind the message for a field that is an array of integers.
\<close>

theorem sproto_decode_overflow:
  "sproto_decode (one_field SPROTO_TSTRING) (\<lambda>_. False) [1, 0, 0, 0, 0xfc, 0xff, 0xff, 0xff] =
     Some (Some ([(hd (st_f (one_field SPROTO_TSTRING)), 0, Block 8 (-4))], 4)) \<and>
   sproto_decode (one_field (SPROTO_TARRAY OR SPROTO_TINTEGER)) (\<lambda>_. False) [1, 0, 0, 0, 0xfc, 0xff, 0xff, 0xff] = None"
proof -
  have t: "todword [1, 0, 0, 0, 0xfc, 0xff, 0xff, 0xff] 4 = Some 0xfffffffc" by (simp add: todword_def of_le32_def)
  note decode = sproto_decode_def toword_def decode_record_def and_then_def findtag_def decode_data_def is_array_def one_field_def sproto_types
  have "sproto_decode (one_field SPROTO_TSTRING) (\<lambda>_. False) [1, 0, 0, 0, 0xfc, 0xff, 0xff, 0xff] =
     Some (Some ([(hd (st_f (one_field SPROTO_TSTRING)), 0, Block 8 (-4))], 4))"
    using t by (simp add: decode Let_def upt_rec)
  moreover have "sproto_decode (one_field (SPROTO_TARRAY OR SPROTO_TINTEGER)) (\<lambda>_. False) [1, 0, 0, 0, 0xfc, 0xff, 0xff, 0xff] = None"
    using t by (simp add: decode decode_array_def value_type_def byte_at_def Let_def upt_rec)
  ultimately show ?thesis by blast
qed

end
