(* ===== verification/SprotoRound.thy ===== *)
theory SprotoRound
  imports Sproto
begin

text \<open>
  What \<open>sproto_encode\<close> writes, \<open>sproto_decode\<close> reads back: the values that a message holds for the fields of a type are handed to
  the decoder's callback, field by field and element by element.
\<close>

section \<open>Bytes at an offset\<close>

definition has :: "bytes \<Rightarrow> nat \<Rightarrow> bytes \<Rightarrow> bool" where
  "has out p bs \<longleftrightarrow> take (length bs) (drop p out) = bs"

lemma has_Nil [simp]: "has out p []"
  by (simp add: has_def)

lemma has_append: "has out p (xs @ ys) \<longleftrightarrow> has out p xs \<and> has out (p + length xs) ys"
proof
  assume a: "has out p (xs @ ys)"
  have "take (length xs) (take (length (xs @ ys)) (drop p out)) = xs" using a by (simp add: has_def del: length_append take_take)
  moreover have "drop (length xs) (take (length (xs @ ys)) (drop p out)) = ys" using a by (simp add: has_def del: length_append)
  ultimately show "has out p xs \<and> has out (p + length xs) ys" by (simp add: has_def drop_take add.commute min_def split: if_splits)
next
  assume "has out p xs \<and> has out (p + length xs) ys"
  then show "has out p (xs @ ys)" by (simp add: has_def take_add add.commute)
qed

lemma has_nth:
  assumes "has out p bs" "i < length bs"
  shows "p + i < length out" "out ! (p + i) = bs ! i"
proof -
  have l: "length (take (length bs) (drop p out)) = length bs" using assms(1) by (simp add: has_def)
  show "p + i < length out" using l assms(2) by auto
  then show "out ! (p + i) = bs ! i" using arg_cong [OF assms(1) [unfolded has_def], of "\<lambda>l. l ! i"] assms(2) by simp
qed

lemma has_inside: "has out p bs \<Longrightarrow> bs \<noteq> [] \<Longrightarrow> p + length bs \<le> length out"
  using has_nth(1) [of out p bs "length bs - 1"] by (cases bs) auto

lemma has_self: "has (pre @ bs @ post) (length pre) bs"
  by (simp add: has_def)

lemma todword_has: "has out p v \<Longrightarrow> length v = 4 \<Longrightarrow> todword out p = Some (of_le32_list v)"
  using has_nth [of out p v 0] has_nth [of out p v 1] has_nth [of out p v 2] has_nth [of out p v 3] has_inside [of out p v]
  by (simp add: todword_def of_le32_list_def numeral_2_eq_2 numeral_3_eq_3)

lemma of_le32_list_le32: "of_le32_list (le32 w) = w"
  by (simp add: of_le32_list_def le32_def numeral_2_eq_2 numeral_3_eq_3 of_le32_le32)

section \<open>Numbers\<close>

definition sext :: "bytes \<Rightarrow> u64" where
  "sext v = (if length v = 4 then expand64 (of_le32_list v) else ucast (of_le32_list v) OR push_bit 32 (ucast (of_le32_list (drop 4 v))))"

definition widen :: "bytes \<Rightarrow> bytes" where
  "widen v = v @ uint32_to_uint64 v"

lemma number32_has: "has out p v \<Longrightarrow> length v = 4 \<Longrightarrow> number32 out p = Some (sext v)"
  by (simp add: number32_def todword_has sext_def)

lemma number64_has:
  assumes "has out p v" "length v = 8"
  shows "number64 out p = Some (sext v)"
proof -
  have s: "has out p (take 4 v)" "has out (p + 4) (drop 4 v)"
    using assms has_append [of out p "take 4 v" "drop 4 v"] by (simp_all)
  have "of_le32_list (take 4 v) = of_le32_list v" using assms(2) by (simp add: of_le32_list_def)
  then show ?thesis using todword_has [OF s(1)] todword_has [OF s(2)] assms(2) by (simp add: number64_def sext_def)
qed

lemma msb_of_le32: "of_le32 a b c d AND 0x80000000 = 0 \<longleftrightarrow> d AND 0x80 = 0"
proof -
  have "(0x80000000 :: u32) = push_bit 24 (ucast (0x80 :: u8))" by simp
  have "of_le32 a b c d AND 0x80000000 = 0 \<longleftrightarrow> \<not> bit (of_le32 a b c d) 31"
    using and_exp_eq_0_iff_not_bit [of "of_le32 a b c d" 31] by simp
  moreover have "d AND 0x80 = 0 \<longleftrightarrow> \<not> bit d 7" using and_exp_eq_0_iff_not_bit [of d 7] by simp
  moreover have "bit (of_le32 a b c d) 31 \<longleftrightarrow> bit d 7" by (auto simp: of_le32_def bit_simps dest: bit_imp_le_length)
  ultimately show ?thesis by simp
qed

lemma sext_widen:
  assumes "length v = 4"
  shows "sext (widen v) = sext v"
proof -
  obtain a b c d where v: "v = [a, b, c, d]" using assms by (auto simp: length_Suc_conv numeral_eq_Suc)
  have m: "(ucast (of_le32 a b c d) :: u64) AND 0x80000000 = 0 \<longleftrightarrow> d AND 0x80 = 0"
  proof -
    have "(ucast (of_le32 a b c d) :: u64) AND 0x80000000 = 0 \<longleftrightarrow> \<not> bit (ucast (of_le32 a b c d) :: u64) 31"
      using and_exp_eq_0_iff_not_bit [of "ucast (of_le32 a b c d) :: u64" 31] by simp
    moreover have "of_le32 a b c d AND 0x80000000 = 0 \<longleftrightarrow> \<not> bit (of_le32 a b c d) 31"
      using and_exp_eq_0_iff_not_bit [of "of_le32 a b c d" 31] by simp
    ultimately show ?thesis using msb_of_le32 [of a b c d] by (simp add: bit_simps)
  qed
  have ff: "of_le32 0xff 0xff 0xff 0xff = NOT 0" "of_le32 0 0 0 0 = 0" by (simp_all add: of_le32_def)
  have p: "push_bit 32 (ucast (NOT 0 :: u32)) = (push_bit 32 (NOT 0) :: u64)" by (rule bit_word_eqI) (auto simp: bit_simps)
  show ?thesis using m ff p
    by (simp add: v sext_def widen_def uint32_to_uint64_def expand64_def of_le32_list_def Let_def numeral_eq_Suc split: if_splits)
qed


section \<open>The message\<close>

text \<open>The values of a message by tag, and the callback that hands them to the encoder.\<close>

datatype field_value = Absent | Single bytes | Many "bytes list"

type_synonym message = "int \<Rightarrow> field_value"

definition give :: "bytes \<Rightarrow> int \<Rightarrow> cb_result" where
  "give v room = (if int (length v) \<le> room then CB_data v else CB_ERROR)"

definition cb_of :: "message \<Rightarrow> callback" where
  "cb_of m f i room =
     (case m (fd_tag f) of
        Absent \<Rightarrow> if is_array f then CB_NOARRAY else CB_NIL
      | Single v \<Rightarrow> if i = 0 then give v room else CB_ERROR
      | Many vs \<Rightarrow> if i = 0 then CB_ERROR else if i \<le> length vs then give (vs ! (i - 1)) room else CB_NIL)"

datatype item = Number u64 | Bytes bytes | Nothing

definition truth :: "bytes \<Rightarrow> u8" where
  "truth v = (if \<exists>b \<in> set v. b \<noteq> 0 then 1 else 0)"

definition item_of :: "u32 \<Rightarrow> bytes \<Rightarrow> item" where
  "item_of type v =
     (if type = SPROTO_TDOUBLE \<or> type = SPROTO_TINTEGER then Number (sext v)
      else if type = SPROTO_TBOOLEAN then Number (ucast (truth v))
      else Bytes v)"

text \<open>What the decoder's callback is to be called with for a field.\<close>

definition expected :: "message \<Rightarrow> field \<Rightarrow> (field \<times> int \<times> item) list" where
  "expected m f =
     (case m (fd_tag f) of
        Absent \<Rightarrow> []
      | Single v \<Rightarrow> [(f, 0, if fd_type f = SPROTO_TBOOLEAN then Number (ucast (of_le32_list v)) else item_of (value_type f) v)]
      | Many [] \<Rightarrow> [(f, -1, Nothing)]
      | Many vs \<Rightarrow> map (\<lambda>i. (f, int i + 1, item_of (value_type f) (vs ! i))) [0..<length vs])"

definition well_typed :: "message \<Rightarrow> field \<Rightarrow> bool" where
  "well_typed m f \<longleftrightarrow>
     value_type f \<in> {SPROTO_TINTEGER, SPROTO_TBOOLEAN, SPROTO_TSTRING, SPROTO_TDOUBLE, SPROTO_TSTRUCT} \<and>
     (case m (fd_tag f) of
        Absent \<Rightarrow> True
      | Single v \<Rightarrow>
          \<not> is_array f \<and>
          (fd_type f = SPROTO_TINTEGER \<longrightarrow> length v = 4 \<or> length v = 8) \<and>
          (fd_type f = SPROTO_TDOUBLE \<longrightarrow> length v = 8) \<and>
          (fd_type f = SPROTO_TBOOLEAN \<longrightarrow> length v = 4 \<and> of_le32_list v < 0x7fff)
      | Many vs \<Rightarrow>
          is_array f \<and>
          (value_type f = SPROTO_TINTEGER \<or> value_type f = SPROTO_TDOUBLE \<longrightarrow> (\<forall>v \<in> set vs. length v = 4 \<or> length v = 8)) \<and>
          (value_type f = SPROTO_TBOOLEAN \<longrightarrow> (\<forall>v \<in> set vs. length v \<le> 4)))"

definition contents :: "bytes \<Rightarrow> call \<Rightarrow> field \<times> int \<times> item" where
  "contents out = (\<lambda>(f, i, v). (f, i, case v of Value n \<Rightarrow> Number n | Block p n \<Rightarrow> Bytes (take (nat n) (drop p out)) | Null \<Rightarrow> Nothing))"

section \<open>Arrays\<close>

lemma concat_upt_Suc: "concat (map g [0..<Suc n]) = concat (map g [0..<n]) @ g n"
  by simp

lemma rearrange_widens:
  "8 * n \<le> length mem \<Longrightarrow> rearrange n mem = concat (map (\<lambda>i. widen (take 4 (drop (4 * i) mem))) [0..<n]) @ drop (8 * n) mem"
proof (induction n arbitrary: mem)
  case (Suc n)
  define v where "v = take 4 (drop (4 * n) mem)"
  define mem' where "mem' = take (8 * n) mem @ v @ uint32_to_uint64 v @ drop (8 * n + 8) mem"
  have v: "length v = 4" using Suc.prems by (simp add: v_def)
  have same: "take 4 (drop (4 * i) mem') = take 4 (drop (4 * i) mem)" if "i < n" for i
    using that Suc.prems by (simp add: mem'_def take_drop)
  have "rearrange (Suc n) mem = rearrange n mem'" by (simp add: mem'_def v_def Let_def mult.commute add.commute)
  also have "\<dots> = concat (map (\<lambda>i. widen (take 4 (drop (4 * i) mem'))) [0..<n]) @ drop (8 * n) mem'"
    by (rule Suc.IH) (use Suc.prems v in \<open>simp add: mem'_def\<close>)
  also have "concat (map (\<lambda>i. widen (take 4 (drop (4 * i) mem'))) [0..<n]) = concat (map (\<lambda>i. widen (take 4 (drop (4 * i) mem))) [0..<n])"
    using same by (intro arg_cong [of _ _ concat] map_cong) auto
  also have "drop (8 * n) mem' = widen v @ drop (8 * Suc n) mem" using Suc.prems by (simp add: mem'_def widen_def add.commute)
  finally show ?case by (simp add: v_def)
qed simp

lemma four_chunks: "\<forall>v \<in> set vs. length v = 4 \<Longrightarrow> i < length vs \<Longrightarrow> take 4 (drop (4 * i) (concat vs @ z)) = vs ! i"
proof (induction vs arbitrary: i)
  case (Cons v vs)
  then show ?case by (cases i) auto
qed simp

lemma length_fours: "\<forall>v \<in> set vs. length v = n \<Longrightarrow> length (concat vs) = n * length vs"
  by (induction vs) auto

lemma rearrange_fours:
  assumes "\<forall>v \<in> set vs. length v = 4" "n = length vs"
  shows "rearrange n (concat vs @ replicate (4 * n) 0) = concat (map widen vs)"
proof -
  have "map (\<lambda>i. widen (take 4 (drop (4 * i) (concat vs @ replicate (4 * n) 0)))) [0..<n] = map widen vs"
    by (rule nth_equalityI) (simp_all add: assms(2) four_chunks [OF assms(1)] del: drop_append take_append)
  then show ?thesis using length_fours [OF assms(1)] assms(2) by (subst rearrange_widens) simp_all
qed


text \<open>An array of integers: all of four bytes until the first of eight.\<close>

definition wide :: "nat \<Rightarrow> bytes \<Rightarrow> bytes" where
  "wide intlen v = (if intlen = 8 \<and> length v = 4 then widen v else v)"

lemma integer_loop_elements:
  assumes "integer_loop cb f index intlen r out = Some (out', il, na)" "m (fd_tag f) = Many vs" "cb = cb_of m" "0 < index" "index \<le> length vs + 1"
    "\<forall>v \<in> set vs. length v = 4 \<or> length v = 8" "out = concat (map (wide intlen) (take (index - 1) vs))"
    "intlen = 4 \<or> intlen = 8" "intlen = 4 \<longrightarrow> (\<forall>v \<in> set (take (index - 1) vs). length v = 4)"
  shows "\<not> na \<and> (il = 4 \<or> il = 8) \<and> out' = concat (map (wide il) vs) \<and> (il = 4 \<longrightarrow> (\<forall>v \<in> set vs. length v = 4))"
  using assms
proof (induction cb f index intlen r out rule: integer_loop.induct)
  case (1 cb f index intlen r out)
  note prems = "1.prems"
  show ?case
  proof (cases "index \<le> length vs")
    case True
    define v where "v = vs ! (index - 1)"
    have lv: "length v = 4 \<or> length v = 8" using prems(4,6) True by (simp add: v_def)
    have cb: "cb f index 8 = CB_data v" using prems(2-4) True lv by (auto simp: cb_of_def give_def v_def)
    have take: "take (index + 1 - 1) vs = take (index - 1) vs @ [v]"
      using prems(4) True take_Suc_conv_app_nth [of "index - 1" vs] by (simp add: v_def)
    have room: "v \<noteq> []" "\<not> r < 8" using prems(1) cb lv by (auto simp: integer_loop.simps [of cb f index intlen r out] split: if_splits)
    have next': "0 < index + 1" "index + 1 \<le> length vs + 1" using True by simp_all
    consider (four) "length v = 4" | (wide) "length v = 8" "intlen = 4" | (eight) "length v = 8" "intlen = 8" "intlen \<noteq> 4"
      using lv prems(8) by auto
    then show ?thesis
    proof cases
      case four
      let ?out = "out @ v @ (if intlen = 8 then uint32_to_uint64 v else [])"
      have step: "integer_loop cb f (index + 1) intlen (r - int (if intlen = 8 then 8 else 4)) ?out = Some (out', il, na)"
        using prems(1) cb room four by (simp add: integer_loop.simps [of cb f index intlen r out])
      have "wide intlen v = v @ (if intlen = 8 then uint32_to_uint64 v else [])" using four by (simp add: wide_def widen_def)
      then have "?out = concat (map (wide intlen) (take (index + 1 - 1) vs))" using prems(7) unfolding take by simp
      moreover have "intlen = 4 \<longrightarrow> (\<forall>v \<in> set (take (index + 1 - 1) vs). length v = 4)" using prems(9) four unfolding take by auto
      ultimately show ?thesis using "1.IH"(1) [OF cb room four step prems(2,3) next' prems(6) _ prems(8)] by blast
    next
      case wide
      let ?out = "rearrange (index - 1) (out @ replicate ((index - 1) * 4) 0) @ v"
      have rr: "\<not> r - int ((index - 1) * 4) < 8"
      proof
        assume "r - int ((index - 1) * 4) < 8"
        then have "integer_loop cb f index intlen r out = None"
          unfolding integer_loop.simps [of cb f index intlen r out] cb using room wide by (simp only: cb_result.case if_True if_False) simp
        then show False using prems(1) by simp
      qed
      have "integer_loop cb f index intlen r out = integer_loop cb f (index + 1) 8 (r - int ((index - 1) * 4) - 8) ?out"
        unfolding integer_loop.simps [of cb f index intlen r out] cb using room wide rr by (simp only: cb_result.case if_False) simp
      then have step: "integer_loop cb f (index + 1) 8 (r - int ((index - 1) * 4) - 8) ?out = Some (out', il, na)" using prems(1) by simp
      have fours: "\<forall>v \<in> set (take (index - 1) vs). length v = 4" using prems(9) wide by simp
      have "out = concat (take (index - 1) vs)" using prems(7) wide by (simp add: wide_def [abs_def])
      then have "rearrange (index - 1) (out @ replicate ((index - 1) * 4) 0) = concat (map widen (take (index - 1) vs))"
        using rearrange_fours [OF fours, of "index - 1"] True by (simp add: mult.commute)
      moreover have "map widen (take (index - 1) vs) = map (wide 8) (take (index - 1) vs)" using fours by (simp add: wide_def)
      moreover have "wide 8 v = v" using wide by (simp add: wide_def)
      ultimately have "?out = concat (map (wide 8) (take (index + 1 - 1) vs))" unfolding take by (simp only: concat_append map_append list.map concat.simps append_Nil2)
      then show ?thesis
        using "1.IH"(2) [OF cb room _ _ wide(2) rr step prems(2,3) next' prems(6)] wide by simp
    next
      case eight
      have "integer_loop cb f index intlen r out = integer_loop cb f (index + 1) intlen (r - 8) (out @ v)"
        unfolding integer_loop.simps [of cb f index intlen r out] cb using room eight by (simp only: cb_result.case if_False) simp
      then have step: "integer_loop cb f (index + 1) intlen (r - 8) (out @ v) = Some (out', il, na)" using prems(1) by simp
      have "wide intlen v = v" using eight by (simp add: wide_def)
      then have "out @ v = concat (map (wide intlen) (take (index + 1 - 1) vs))"
        using prems(7) unfolding take by (simp only: concat_append map_append list.map concat.simps append_Nil2)
      then show ?thesis using "1.IH"(3) [OF cb room _ _ eight(3) step prems(2,3) next' prems(6) _ prems(8)] eight by simp
    qed
  next
    case False
    then have nil: "cb f index 8 = CB_NIL" "take (index - 1) vs = vs" using prems(2-5) by (auto simp: cb_of_def)
    have "out' = out \<and> il = intlen \<and> \<not> na" using prems(1) nil(1) by (simp add: integer_loop.simps [of cb f index intlen r out])
    then show ?thesis using prems(7-9) nil(2) by simp
  qed
qed

lemma boolean_loop_elements:
  assumes "boolean_loop cb f index r out = Some res" "m (fd_tag f) = Many vs" "cb = cb_of m" "0 < index" "index \<le> length vs + 1"
    "out = map truth (take (index - 1) vs)"
  shows "res = Some (map truth vs)"
  using assms
proof (induction cb f index r out rule: boolean_loop.induct)
  case (1 cb f index r out)
  note prems = "1.prems"
  show ?case
  proof (cases "index \<le> length vs")
    case True
    define v where "v = vs ! (index - 1)"
    have "cb f index 4 = give v 4" using prems(2-4) True by (simp add: cb_of_def v_def)
    then have cb: "cb f index 4 = CB_data v"
      using prems(1) by (cases "int (length v) \<le> 4") (auto simp: boolean_loop.simps [of cb f index r out] give_def)
    have r: "\<not> r < 1" using prems(1) cb by (auto simp: boolean_loop.simps [of cb f index r out])
    have "boolean_loop cb f (index + 1) (r - 1) (out @ [if \<exists>b \<in> set v. b \<noteq> 0 then 1 else 0]) = Some res"
      using prems(1) cb r by (simp add: boolean_loop.simps [of cb f index r out])
    moreover have "out @ [if \<exists>b \<in> set v. b \<noteq> 0 then 1 else 0] = map truth (take (index + 1 - 1) vs)"
      using prems(4,6) True take_Suc_conv_app_nth [of "index - 1" vs] by (simp add: v_def truth_def)
    ultimately show ?thesis using "1.IH" [OF cb r _ prems(2,3)] True by simp
  next
    case False
    then have nil: "cb f index 4 = CB_NIL" "take (index - 1) vs = vs" using prems(2-5) by (auto simp: cb_of_def)
    have "res = Some out" using prems(1) nil(1) by (simp add: boolean_loop.simps [of cb f index r out])
    then show ?thesis using prems(6) nil(2) by simp
  qed
qed

lemma object_loop_elements:
  assumes "object_loop cb f index r out = Some res" "m (fd_tag f) = Many vs" "cb = cb_of m" "0 < index" "index \<le> length vs + 1"
    "out = concat (map fill_size (take (index - 1) vs))"
  shows "res = Some (concat (map fill_size vs))"
  using assms
proof (induction cb f index r out rule: object_loop.induct)
  case (1 cb f index r out)
  note prems = "1.prems"
  have r: "\<not> r < 4" using prems(1) by (auto simp: object_loop.simps [of cb f index r out])
  show ?case
  proof (cases "index \<le> length vs")
    case True
    define v where "v = vs ! (index - 1)"
    have "cb f index (r - 4) = give v (r - 4)" using prems(2-4) True by (simp add: cb_of_def v_def)
    then have cb: "cb f index (r - 4) = CB_data v"
      using prems(1) r by (cases "int (length v) \<le> r - 4") (auto simp: object_loop.simps [of cb f index r out] give_def)
    have "object_loop cb f (index + 1) (r - 4 - int (length v)) (out @ fill_size v) = Some res"
      using prems(1) cb r by (simp add: object_loop.simps [of cb f index r out])
    moreover have "out @ fill_size v = concat (map fill_size (take (index + 1 - 1) vs))"
      using prems(4,6) True take_Suc_conv_app_nth [of "index - 1" vs] by (simp add: v_def)
    ultimately show ?thesis using "1.IH" [OF r cb _ prems(2,3)] True by simp
  next
    case False
    then have nil: "cb f index (r - 4) = CB_NIL" "take (index - 1) vs = vs" using prems(2-5) by (auto simp: cb_of_def)
    have "res = Some out" using prems(1) nil(1) r by (simp add: object_loop.simps [of cb f index r out])
    then show ?thesis using prems(6) nil(2) by simp
  qed
qed


section \<open>The decoder on an element\<close>

lemma has_fill_size:
  assumes "has out p (fill_size v)"
  shows "todword out p = Some (of_nat (length v))" "has out (p + 4) v"
proof -
  have h: "has out p (le32 (of_nat (length v)))" "has out (p + 4) v"
    using assms has_append [of out p "le32 (of_nat (length v))" v] by (simp_all add: fill_size_def)
  show "todword out p = Some (of_nat (length v))" using todword_has [OF h(1)] by (simp add: of_le32_list_le32)
  show "has out (p + 4) v" by (rule h(2))
qed

lemma number_calls_map:
  assumes "\<forall>k < n. rd out (p + (i + k) * w) = Some (g (i + k))"
  shows "number_calls rd w f out p i n = Some (map (\<lambda>k. (f, int k + 1, Value (g k))) [i..<i + n])"
  using assms
proof (induction n arbitrary: i)
  case (Suc n)
  have "\<forall>k < n. rd out (p + ((i + 1) + k) * w) = Some (g ((i + 1) + k))"
  proof (intro allI impI)
    fix k assume "k < n"
    then show "rd out (p + ((i + 1) + k) * w) = Some (g ((i + 1) + k))" using Suc.prems [rule_format, of "Suc k"] by simp
  qed
  from Suc.IH [OF this] show ?case using Suc.prems [rule_format, of 0] by (simp add: upt_conv_Cons del: upt_Suc)
qed simp

lemma has_chunk:
  "has out p (concat vs) \<Longrightarrow> \<forall>v \<in> set vs. length v = n \<Longrightarrow> i < length vs \<Longrightarrow> has out (p + i * n) (vs ! i)"
proof (induction vs arbitrary: p i)
  case (Cons v vs)
  have h: "has out p v" "has out (p + n) (concat vs)" using Cons.prems by (auto simp: has_append)
  show ?case
  proof (cases i)
    case (Suc j)
    then show ?thesis using Cons.IH [OF h(2), of j] Cons.prems by (simp add: ac_simps)
  qed (use h in simp)
qed simp

lemma array_object_loop_elements:
  assumes "has out p (concat (map fill_size vs))" "int (length (concat (map fill_size vs))) < 2 ^ 31"
  shows "\<exists>cs. array_object_loop (\<lambda>_. False) f out p (int (length (concat (map fill_size vs)))) index = Some (Some cs) \<and>
    map (contents out) cs = map (\<lambda>i. (f, int (index + i), Bytes (vs ! i))) [0..<length vs]"
  using assms
proof (induction vs arbitrary: p index)
  case (Cons v vs)
  have h: "has out p (fill_size v)" "has out (p + (4 + length v)) (concat (map fill_size vs))" using Cons.prems(1) by (auto simp: has_append)
  have small: "int (length (concat (map fill_size vs))) < 2 ^ 31" "length v < 2 ^ 32" using Cons.prems(2) by auto
  have n: "unat (of_nat (length v) :: u32) = length v" using small(2) by (simp add: unat_of_nat take_bit_nat_eq_self)
  obtain cs where cs: "array_object_loop (\<lambda>_. False) f out (p + (4 + length v)) (int (length (concat (map fill_size vs)))) (index + 1) = Some (Some cs)"
    "map (contents out) cs = map (\<lambda>i. (f, int (index + 1 + i), Bytes (vs ! i))) [0..<length vs]"
    using Cons.IH [OF h(2) small(1), of "index + 1"] by blast
  let ?c = "(f, int index, Block (p + 4) (int (length v)))"
  have "array_object_loop (\<lambda>_. False) f out p (int (length (concat (map fill_size (v # vs))))) index = Some (Some (?c # cs))"
    using cs(1) has_fill_size(1) [OF h(1)] n
    by (subst array_object_loop.simps) (simp add: and_then_def add.commute add.left_commute Let_def del: of_nat_unat)
  moreover have "contents out ?c = (f, int index, Bytes v)" using has_fill_size(2) [OF h(1)] by (simp add: contents_def has_def)
  moreover have "[0..<length (v # vs)] = 0 # map Suc [0..<length vs]" by (simp add: upt_conv_Cons map_Suc_upt del: upt_Suc)
  ultimately show ?case using cs(2) by (simp add: o_def del: upt_Suc)
qed (simp add: array_object_loop.simps)


lemma keeps_room_cb_of: "keeps_room (cb_of m)"
  by (auto simp: keeps_room_def cb_of_def give_def split: field_value.splits if_splits)

text \<open>The array of numbers behind its width.\<close>

lemma integers_decode:
  assumes "encode_integer_array (cb_of m) f r = Some (body, na)" "m (fd_tag f) = Many vs" "\<forall>v \<in> set vs. length v = 4 \<or> length v = 8"
  shows "\<not> na" "vs = [] \<Longrightarrow> body = []"
    "vs \<noteq> [] \<Longrightarrow> \<exists>il. (il = 4 \<or> il = 8) \<and> body = of_nat il # concat (map (wide il) vs) \<and> (\<forall>v \<in> set vs. length (wide il v) = il \<and> sext (wide il v) = sext v)"
proof -
  have r: "\<not> r < 1" using assms(1) by (auto simp: encode_integer_array_def)
  obtain out' il na' where l: "integer_loop (cb_of m) f 1 4 (r - 1) [] = Some (out', il, na')" "na' = na" "body = (if out' = [] then [] else of_nat il # out')"
    using assms(1) r by (cases "integer_loop (cb_of m) f 1 4 (r - 1) []") (auto simp: encode_integer_array_def)
  note e = integer_loop_elements [OF l(1) assms(2) refl _ _ assms(3), simplified]
  show "\<not> na" using e l(2) by simp
  show "body = []" if "vs = []" using e l(3) that by simp
  show "\<exists>il. (il = 4 \<or> il = 8) \<and> body = of_nat il # concat (map (wide il) vs) \<and> (\<forall>v \<in> set vs. length (wide il v) = il \<and> sext (wide il v) = sext v)" if "vs \<noteq> []"
  proof -
    have w: "\<forall>v \<in> set vs. length (wide il v) = il \<and> sext (wide il v) = sext v"
      using e assms(3) by (auto simp: wide_def widen_def [symmetric] sext_widen) (auto simp: widen_def)
    have "out' \<noteq> []" using e w that by (cases vs) auto
    then show ?thesis using e l(3) w by auto
  qed
qed

lemma unat_small: "n < 2 ^ 32 \<Longrightarrow> unat (of_nat n :: u32) = n"
  by (simp add: unat_of_nat take_bit_nat_eq_self)

lemma number_calls_chunks:
  assumes "has out p (concat vs)" "\<forall>v \<in> set vs. length v = w" "\<And>p v. has out p v \<Longrightarrow> length v = w \<Longrightarrow> rd out p = Some (g v)"
  shows "number_calls rd w f out p 0 (length vs) = Some (map (\<lambda>k. (f, int k + 1, Value (g (vs ! k)))) [0..<length vs])"
proof -
  have "\<forall>k < length vs. rd out (p + (0 + k) * w) = Some (g (vs ! (0 + k)))" using has_chunk [OF assms(1,2)] assms(2,3) by simp
  then show ?thesis using number_calls_map [of "length vs" rd out p 0 w "\<lambda>k. g (vs ! k)" f] by simp
qed

lemma array_header:
  assumes "has out p (fill_size body)" "int (length (fill_size body)) < 2 ^ 31"
  shows "todword out p = Some (of_nat (length body))" "has out (p + 4) body" "(of_nat (length body) :: u32) = 0 \<longleftrightarrow> body = []"
    "unat (of_nat (length body) :: u32) = length body" "sint (of_nat (length body) :: u32) = int (length body)"
proof -
  have n: "length body < 2 ^ 31" using assms(2) by simp
  show u: "unat (of_nat (length body) :: u32) = length body" using unat_small [of "length body"] n by simp
  show "todword out p = Some (of_nat (length body))" "has out (p + 4) body" using has_fill_size [OF assms(1)] by simp_all
  show "(of_nat (length body) :: u32) = 0 \<longleftrightarrow> body = []" using u by (auto simp: unat_eq_0 [symmetric])
  show "sint (of_nat (length body) :: u32) = int (length body)" using n by (simp add: signed_of_nat) (rule signed_take_bit_int_eq_self, simp_all)
qed

lemma integer_array_roundtrip:
  assumes "encode_integer_array (cb_of m) f r = Some (body, na)" "m (fd_tag f) = Many vs" "\<forall>v \<in> set vs. length v = 4 \<or> length v = 8"
    "value_type f = SPROTO_TDOUBLE \<or> value_type f = SPROTO_TINTEGER" "has out p (fill_size body)" "int (length (fill_size body)) < 2 ^ 31" "vs \<noteq> []"
  shows "\<exists>cs. decode_array (\<lambda>_. False) f out p = Some (Some cs) \<and> map (contents out) cs = map (\<lambda>i. (f, int i + 1, Number (sext (vs ! i)))) [0..<length vs]"
proof -
  obtain il where il: "il = 4 \<or> il = 8" "body = of_nat il # concat (map (wide il) vs)" "\<forall>v \<in> set vs. length (wide il v) = il \<and> sext (wide il v) = sext v"
    using integers_decode(3) [OF assms(1-3,7)] by blast
  note h = array_header [OF assms(5,6)]
  let ?ws = "map (wide il) vs"
  have b: "has out (p + 4) [of_nat il]" "has out (p + 5) (concat ?ws)" using h(2) has_append [of out "p + 4" "[of_nat il]" "concat ?ws"] by (simp_all add: il(2) add.commute)
  have lw: "\<forall>v \<in> set ?ws. length v = il" using il(3) by simp
  have len: "length body = Suc (il * length vs)" using length_fours [OF lw] by (simp add: il(2))
  have n: "unat (of_nat (length body) - 1 :: u32) = il * length vs"
    using assms(6) unat_small [of "il * length vs"] unfolding len length_fill_size of_nat_Suc by (simp del: of_nat_mult)
  have byte: "byte_at out (p + 4) = Some (of_nat il)" using has_nth [OF b(1), of 0] il(1) by (auto simp: byte_at_def)
  have calls4: "number_calls number32 il f out (p + 5) 0 (length vs) = Some (map (\<lambda>k. (f, int k + 1, Value (sext (?ws ! k)))) [0..<length vs])" if "il = 4"
    using number_calls_chunks [OF b(2) lw, of number32 sext f] number32_has that by simp
  have calls8: "number_calls number64 il f out (p + 5) 0 (length vs) = Some (map (\<lambda>k. (f, int k + 1, Value (sext (?ws ! k)))) [0..<length vs])" if "il = 8"
    using number_calls_chunks [OF b(2) lw, of number64 sext f] number64_has that by simp
  have "decode_array (\<lambda>_. False) f out p = Some (Some (map (\<lambda>k. (f, int k + 1, Value (sext (?ws ! k)))) [0..<length vs]))"
    using il(1)
  proof
    assume "il = 4"
    then show ?thesis using h(1,3) assms(4) il(2) byte n calls4 by (auto simp: decode_array_def Let_def add.commute [of 5 p])
  next
    assume "il = 8"
    then show ?thesis using h(1,3) assms(4) il(2) byte n calls8 by (auto simp: decode_array_def Let_def add.commute [of 5 p])
  qed
  then show ?thesis using il(3) by (auto simp: contents_def)
qed


lemma boolean_array_roundtrip:
  assumes "value_type f = SPROTO_TBOOLEAN" "has out p (fill_size (map truth vs))" "int (length (fill_size (map truth vs))) < 2 ^ 31" "vs \<noteq> []"
  shows "\<exists>cs. decode_array (\<lambda>_. False) f out p = Some (Some cs) \<and>
    map (contents out) cs = map (\<lambda>i. (f, int i + 1, Number (ucast (truth (vs ! i))))) [0..<length vs]"
proof -
  note h = array_header [OF assms(2,3)]
  have "\<forall>k < length vs. byte_at out (p + 4 + (0 + k) * 1) = Some (ucast (map truth vs ! (0 + k)))"
    using has_nth [OF h(2)] by (auto simp: byte_at_def)
  then have "number_calls byte_at 1 f out (p + 4) 0 (length vs) = Some (map (\<lambda>k. (f, int k + 1, Value (ucast (map truth vs ! k)))) [0..<length vs])"
    using number_calls_map [of "length vs" byte_at out "p + 4" 0 1 "\<lambda>k. ucast (map truth vs ! k)" f] by simp
  then have "decode_array (\<lambda>_. False) f out p = Some (Some (map (\<lambda>k. (f, int k + 1, Value (ucast (map truth vs ! k)))) [0..<length vs]))"
    using h(1,3,4) assms(1,4) by (simp add: decode_array_def Let_def sproto_types)
  then show ?thesis by (auto simp: contents_def)
qed

lemma object_array_roundtrip:
  assumes "value_type f = SPROTO_TSTRING \<or> value_type f = SPROTO_TSTRUCT" "vs \<noteq> []"
    "has out p (fill_size (concat (map fill_size vs)))" "int (length (fill_size (concat (map fill_size vs)))) < 2 ^ 31"
  shows "\<exists>cs. decode_array (\<lambda>_. False) f out p = Some (Some cs) \<and> map (contents out) cs = map (\<lambda>i. (f, int i + 1, Bytes (vs ! i))) [0..<length vs]"
proof -
  let ?body = "concat (map fill_size vs)"
  note h = array_header [OF assms(3,4)]
  have ne: "?body \<noteq> []" using assms(2) by (cases vs) (auto simp: fill_size_def le32_def)
  have "int (length ?body) < 2 ^ 31" using assms(4) by simp
  from array_object_loop_elements [OF h(2) this, of f 1]
  obtain cs where cs: "array_object_loop (\<lambda>_. False) f out (p + 4) (int (length ?body)) 1 = Some (Some cs)"
    "map (contents out) cs = map (\<lambda>i. (f, int (1 + i), Bytes (vs ! i))) [0..<length vs]" by blast
  have "decode_array (\<lambda>_. False) f out p = array_object_loop (\<lambda>_. False) f out (p + 4) (sint (of_nat (length ?body) :: u32)) 1"
    using h(1,3) ne assms(1) by (auto simp: decode_array_def Let_def sproto_types simp del: length_concat)
  then show ?thesis using cs unfolding h(5) by (simp add: add.commute)
qed

lemma array_roundtrip:
  assumes "encode_array (cb_of m) f r = Some bs" "well_typed m f" "is_array f" "m (fd_tag f) = Many vs" "has out p bs" "int (length bs) < 2 ^ 31"
  shows "bs \<noteq> []" "\<exists>cs. decode_array (\<lambda>_. False) f out p = Some (Some cs) \<and> map (contents out) cs = expected m f"
proof -
  have r: "\<not> r < 4" using assms(1) by (auto simp: encode_array_def)
  have t: "value_type f \<in> {SPROTO_TINTEGER, SPROTO_TBOOLEAN, SPROTO_TSTRING, SPROTO_TDOUBLE, SPROTO_TSTRUCT}" using assms(2) by (simp add: well_typed_def)
  have e: "expected m f = (if vs = [] then [(f, -1, Nothing)] else map (\<lambda>i. (f, int i + 1, item_of (value_type f) (vs ! i))) [0..<length vs])"
    using assms(4) by (cases vs) (simp_all add: expected_def)
  consider (numbers) "value_type f = SPROTO_TDOUBLE \<or> value_type f = SPROTO_TINTEGER"
    | (booleans) "value_type f = SPROTO_TBOOLEAN" | (objects) "value_type f = SPROTO_TSTRING \<or> value_type f = SPROTO_TSTRUCT"
    using t by auto
  then have "\<exists>body. bs = fill_size body \<and> (vs = [] \<longrightarrow> body = []) \<and> (vs \<noteq> [] \<longrightarrow> (\<exists>cs. decode_array (\<lambda>_. False) f out p = Some (Some cs) \<and>
      map (contents out) cs = map (\<lambda>i. (f, int i + 1, item_of (value_type f) (vs ! i))) [0..<length vs]))"
  proof cases
    case numbers
    have fours: "\<forall>v \<in> set vs. length v = 4 \<or> length v = 8" using assms(2,4) numbers by (auto simp: well_typed_def)
    obtain body na where body: "encode_integer_array (cb_of m) f (r - 4) = Some (body, na)" "bs = (if na then [] else fill_size body)"
      using assms(1) r numbers by (cases "encode_integer_array (cb_of m) f (r - 4)") (auto simp: encode_array_def split: if_splits)
    note d = integers_decode [OF body(1) assms(4) fours]
    have bs: "bs = fill_size body" using body(2) d(1) by simp
    then show ?thesis
      using d(2) integer_array_roundtrip [OF body(1) assms(4) fours numbers assms(5) [unfolded bs] assms(6) [unfolded bs]] numbers by (auto simp: item_of_def)
  next
    case booleans
    obtain res where res: "boolean_loop (cb_of m) f 1 (r - 4) [] = Some res" "bs = (case res of None \<Rightarrow> [] | Some out \<Rightarrow> fill_size out)"
      using assms(1) r booleans by (cases "boolean_loop (cb_of m) f 1 (r - 4) []") (auto simp: encode_array_def sproto_types split: option.splits)
    have bs: "bs = fill_size (map truth vs)" using boolean_loop_elements [OF res(1) assms(4) refl] res(2) by simp
    then show ?thesis
      using boolean_array_roundtrip [OF booleans assms(5) [unfolded bs] assms(6) [unfolded bs]] booleans by (auto simp: item_of_def sproto_types)
  next
    case objects
    obtain res where res: "object_loop (cb_of m) f 1 (r - 4) [] = Some res" "bs = (case res of None \<Rightarrow> [] | Some out \<Rightarrow> fill_size out)"
      using assms(1) r objects by (cases "object_loop (cb_of m) f 1 (r - 4) []") (auto simp: encode_array_def sproto_types split: option.splits)
    have bs: "bs = fill_size (concat (map fill_size vs))" using object_loop_elements [OF res(1) assms(4) refl] res(2) by simp
    then show ?thesis
      using object_array_roundtrip [OF objects _ assms(5) [unfolded bs] assms(6) [unfolded bs]] objects by (auto simp: item_of_def sproto_types)
  qed
  then obtain body where body: "bs = fill_size body" "vs = [] \<longrightarrow> body = []"
    "vs \<noteq> [] \<longrightarrow> (\<exists>cs. decode_array (\<lambda>_. False) f out p = Some (Some cs) \<and>
      map (contents out) cs = map (\<lambda>i. (f, int i + 1, item_of (value_type f) (vs ! i))) [0..<length vs])" by blast
  show "bs \<noteq> []" using body(1) by (simp add: fill_size_def le32_def)
  show "\<exists>cs. decode_array (\<lambda>_. False) f out p = Some (Some cs) \<and> map (contents out) cs = expected m f"
  proof (cases "vs = []")
    case True
    then have "decode_array (\<lambda>_. False) f out p = Some (Some [(f, -1, Null)])"
      using array_header(1) [OF assms(5) [unfolded body(1)]] assms(6) body by (simp add: decode_array_def)
    then show ?thesis using e True by (simp add: contents_def)
  qed (use e body(3) in simp)
qed


section \<open>A field\<close>

lemma value_type_scalar: "\<not> is_array f \<Longrightarrow> value_type f = fd_type f"
proof -
  assume "\<not> is_array f"
  then have a: "fd_type f AND SPROTO_TARRAY = 0" by (simp add: is_array_def)
  have "fd_type f = (fd_type f AND SPROTO_TARRAY) OR (fd_type f AND NOT SPROTO_TARRAY)" by (rule bit_word_eqI) (auto simp: bit_simps)
  then show ?thesis using a by (simp add: value_type_def)
qed

lemma encode_integer_array_absent: "m (fd_tag f) = Absent \<Longrightarrow> is_array f \<Longrightarrow> encode_integer_array (cb_of m) f r = Some (body, na) \<Longrightarrow> na"
  by (auto simp: encode_integer_array_def integer_loop.simps cb_of_def split: if_splits)

lemma encode_array_absent:
  assumes "encode_array (cb_of m) f r = Some bs" "m (fd_tag f) = Absent" "is_array f"
  shows "bs = []"
proof -
  have r: "\<not> r < 4" using assms(1) by (auto simp: encode_array_def)
  show ?thesis
  proof (cases "value_type f = SPROTO_TDOUBLE \<or> value_type f = SPROTO_TINTEGER")
    case True
    then obtain body na where "encode_integer_array (cb_of m) f (r - 4) = Some (body, na)" "bs = (if na then [] else fill_size body)"
      using assms(1) r by (cases "encode_integer_array (cb_of m) f (r - 4)") (auto simp: encode_array_def split: if_splits)
    then show ?thesis using encode_integer_array_absent [of m f, OF assms(2,3)] by auto
  next
    case False
    have "boolean_loop (cb_of m) f 1 (r - 4) [] = Some None" using assms(2,3) by (simp add: boolean_loop.simps cb_of_def)
    moreover have "object_loop (cb_of m) f 1 (r - 4) [] \<in> {None, Some None}" using assms(2,3) by (simp add: object_loop.simps cb_of_def)
    ultimately show ?thesis using assms(1) r False by (auto simp: encode_array_def split: if_splits)
  qed
qed

lemma encode_field_not_zero: "encode_field (cb_of m) f r \<noteq> Some Zero"
  by (auto simp: encode_field_def cb_of_def give_def Let_def split: field_value.splits if_splits)

lemma expand64_small: "u < 0x7fff \<Longrightarrow> expand64 u = ucast u"
proof -
  assume "u < 0x7fff"
  then have "unat u < 0x7fff" by (simp add: word_less_nat_alt)
  then have "\<not> bit u 31" by (simp add: bit_iff_odd drop_bit_eq_div word_arith_nat_div unat_div)
  then have "(ucast u :: u64) AND 0x80000000 = 0"
    using and_exp_eq_0_iff_not_bit [of "ucast u :: u64" 31] by (simp add: bit_simps)
  then show ?thesis by (simp add: expand64_def)
qed

lemma encode_field_inline:
  assumes "encode_field (cb_of m) f r = Some (Inline v)" "well_typed m f"
  shows "\<exists>u. v = 2 * (unat u + 1) \<and> unat u < 0x7fff \<and> (fd_type f = SPROTO_TINTEGER \<or> fd_type f = SPROTO_TBOOLEAN) \<and> expected m f = [(f, 0, Number (ucast (u :: u32)))]"
proof -
  obtain w where w: "\<not> is_array f" "fd_type f = SPROTO_TDOUBLE \<or> fd_type f = SPROTO_TINTEGER \<or> fd_type f = SPROTO_TBOOLEAN"
    "cb_of m f 0 8 = CB_data w" "length w = 4" "of_le32_list w < 0x7fff" "v = unat ((of_le32_list w + 1) * 2)"
    using assms(1) by (auto simp: encode_field_def Let_def split: if_splits cb_result.splits)
  have m: "m (fd_tag f) = Single w" using w(1,3) by (auto simp: cb_of_def give_def split: field_value.splits if_splits)
  have t: "fd_type f = SPROTO_TINTEGER \<or> fd_type f = SPROTO_TBOOLEAN" using w(2,4) m assms(2) by (auto simp: well_typed_def)
  define u where "u = of_le32_list w"
  have u: "unat u < 0x7fff" using w(5) by (simp add: u_def word_less_nat_alt)
  have "(u + 1) * 2 = of_nat (2 * (unat u + 1))" by (simp add: algebra_simps)
  then have "v = unat (of_nat (2 * (unat u + 1)) :: u32)" using w(6) unfolding u_def by presburger
  moreover have "2 * (unat u + 1) < 2 ^ 32" using u by simp
  ultimately have v: "v = 2 * (unat u + 1)" using unat_small by metis
  have "sext w = ucast u" using w(4,5) expand64_small by (simp add: sext_def u_def)
  then have "expected m f = [(f, 0, Number (ucast u))]"
    using m t value_type_scalar [OF w(1)] by (auto simp: expected_def item_of_def u_def)
  then show ?thesis using u v t by blast
qed

lemma encode_object_cases:
  assumes "encode_object (cb_of m) f r = Some bs" "m (fd_tag f) \<noteq> Absent" "\<not> is_array f" "well_typed m f"
  shows "\<exists>v. m (fd_tag f) = Single v \<and> bs = fill_size v"
  using assms by (auto simp: encode_object_def cb_of_def give_def well_typed_def split: if_splits field_value.splits)

lemma le32_of_le32_list: "length w = 4 \<Longrightarrow> le32 (of_le32_list w) = w"
proof -
  assume "length w = 4"
  then obtain a b c d where "w = [a, b, c, d]" by (auto simp: length_Suc_conv numeral_eq_Suc)
  then show ?thesis by (simp add: of_le32_list_def le32_def ucast_of_le32)
qed

lemma encode_field_roundtrip:
  assumes "encode_field (cb_of m) f r = Some (Data bs)" "well_typed m f" "has out p bs" "int (length bs) < 2 ^ 31"
  shows "bs = [] \<Longrightarrow> expected m f = []"
    "bs \<noteq> [] \<Longrightarrow> \<exists>body. bs = fill_size body"
    "bs \<noteq> [] \<Longrightarrow> \<exists>cs. decode_data (\<lambda>_. False) f out p = Some (Some cs) \<and> map (contents out) cs = expected m f"
proof -
  have t: "value_type f \<in> {SPROTO_TINTEGER, SPROTO_TBOOLEAN, SPROTO_TSTRING, SPROTO_TDOUBLE, SPROTO_TSTRUCT}" using assms(2) by (simp add: well_typed_def)
  have absent: "bs = []" if "m (fd_tag f) = Absent"
    using assms(1) that encode_array_absent [of m f r bs]
    by (auto simp: encode_field_def encode_object_def cb_of_def Let_def split: if_splits)
  have all: "bs = [] \<and> expected m f = [] \<or> (\<exists>body. bs = fill_size body) \<and> (\<exists>cs. decode_data (\<lambda>_. False) f out p = Some (Some cs) \<and> map (contents out) cs = expected m f)"
  proof (cases "m (fd_tag f) = Absent")
    case True
    then show ?thesis using absent by (simp add: expected_def)
  next
    case present: False
    show ?thesis
    proof (cases "is_array f")
      case True
      then have e: "encode_array (cb_of m) f r = Some bs" using assms(1) by (simp add: encode_field_def)
      obtain vs where vs: "m (fd_tag f) = Many vs" using present True assms(2) by (cases "m (fd_tag f)") (auto simp: well_typed_def)
      note a = array_roundtrip [OF e assms(2) True vs assms(3,4)]
      have "\<exists>body. bs = fill_size body" using e a(1) by (auto simp: encode_array_def split: if_splits option.splits bind_splits)
      then show ?thesis using a(2) True by (simp add: decode_data_def)
    next
      case False
      note vt = value_type_scalar [OF False]
      obtain w where w: "m (fd_tag f) = Single w" using present False assms(2) by (cases "m (fd_tag f)") (auto simp: well_typed_def)
      consider (number) "fd_type f = SPROTO_TDOUBLE \<or> fd_type f = SPROTO_TINTEGER" | (boolean) "fd_type f = SPROTO_TBOOLEAN"
        | (object) "fd_type f = SPROTO_TSTRING \<or> fd_type f = SPROTO_TSTRUCT"
        using t vt by auto
      then show ?thesis
      proof cases
        case number
        then have lw: "length w = 4 \<or> length w = 8" using w assms(2) by (auto simp: well_typed_def)
        then have "cb_of m f 0 8 = CB_data w" using w by (auto simp: cb_of_def give_def)
        then have bs: "bs = fill_size w"
          using assms(1) lw number False
          by (auto simp: encode_field_def encode_integer_def encode_uint64_def Let_def le32_of_le32_list split: if_splits)
        have h: "todword out p = Some (of_nat (length w))" "has out (p + 4) w" using has_fill_size [of out p w] assms(3) bs by simp_all
        have "decode_data (\<lambda>_. False) f out p = Some (Some [(f, 0, Value (sext w))])"
          using lw h number32_has [OF h(2)] number64_has [OF h(2)] number False by (auto simp: decode_data_def)
        then show ?thesis using bs w number vt by (auto simp: expected_def item_of_def contents_def sproto_types)
      next
        case boolean
        then have lw: "length w = 4" "of_le32_list w < 0x7fff" using w assms(2) by (auto simp: well_typed_def)
        then have "cb_of m f 0 8 = CB_data w" using w by (auto simp: cb_of_def give_def)
        then show ?thesis using assms(1) lw boolean False by (auto simp: encode_field_def Let_def)
      next
        case object
        then have "encode_object (cb_of m) f r = Some bs" using assms(1) False by (auto simp: encode_field_def sproto_types)
        then have bs: "bs = fill_size w" using encode_object_cases [OF _ present False assms(2)] w by auto
        then have n: "has out p (fill_size w)" "int (length (fill_size w)) < 2 ^ 31" using assms(3,4) by simp_all
        note h = array_header [OF n]
        have "decode_data (\<lambda>_. False) f out p = Some (Some [(f, 0, Block (p + 4) (int (length w)))])"
          using h(1,5) object False by (auto simp: decode_data_def sproto_types)
        then show ?thesis using bs w object vt h(2) by (auto simp: expected_def item_of_def contents_def sproto_types has_def)
      qed
    qed
  qed
  have f: "[] \<noteq> fill_size body" for body by (simp add: fill_size_def le32_def)
  show "expected m f = []" if "bs = []" using all that f by auto
  show "\<exists>body. bs = fill_size body" if "bs \<noteq> []" using all that by blast
  show "\<exists>cs. decode_data (\<lambda>_. False) f out p = Some (Some cs) \<and> map (contents out) cs = expected m f" if "bs \<noteq> []" using all that by blast
qed

section \<open>The records\<close>

lemma put_record_read:
  assumes "put_record tag lasttag v = Some h" "lasttag < tag"
  shows "decode_loop st refuse out (h @ rs) (lasttag, p, room) = decode_loop st refuse out (v # rs) (tag - 1, p, room)"
    "v < 0x10000 \<Longrightarrow> \<forall>x \<in> set h. x < 0x10000"
proof -
  have id: "and_then (Some (Some ([], s))) g = g ([], s)" for s and g :: "call list \<times> int \<times> nat \<times> int \<Rightarrow> (call list \<times> int) option option"
    by (simp add: and_then_def)
  have same: "and_then w (\<lambda>(cs', room). Some (Some (cs', room))) = w" for w :: "(call list \<times> int) option option"
    by (auto simp: and_then_def split: option.splits)
  define g where "g = tag - lasttag - 1"
  show "decode_loop st refuse out (h @ rs) (lasttag, p, room) = decode_loop st refuse out (v # rs) (tag - 1, p, room)"
  proof (cases "g > 0")
    case True
    define x where "x = nat ((g - 1) * 2 + 1)"
    have h: "h = [x, v]" using assms(1) True by (auto simp: put_record_def Let_def x_def simp flip: g_def split: if_splits)
    have "odd x" "int (x div 2) = g - 1" using True by (auto simp: x_def even_nat_iff nat_add_distrib nat_mult_distrib) 
    then have "decode_record st refuse out x (lasttag, p, room) = Some (Some ([], tag - 1, p, room))" by (simp add: decode_record_def Let_def g_def)
    then show ?thesis unfolding h by (simp add: id same)
  next
    case False
    then have "h = [v]" "tag - 1 = lasttag" using assms by (auto simp: put_record_def Let_def g_def split: if_splits)
    then show ?thesis by simp
  qed
  show "\<forall>x \<in> set h. x < 0x10000" if "v < 0x10000"
    using assms(1) that by (auto simp: put_record_def Let_def split: if_splits)
qed

lemma decode_inline:
  assumes "findtag st (tag + 1) = Some f" "fd_type f = SPROTO_TINTEGER \<or> fd_type f = SPROTO_TBOOLEAN"
  shows "decode_record st refuse out (2 * (unat u + 1)) (tag, p, room) = Some (Some ([(f, 0, Value (ucast (u :: u32)))], tag + 1, p, room))"
proof -
  have "(of_int (int (unat u)) :: u64) = ucast u" by simp
  then show ?thesis using assms by (auto simp: decode_record_def and_then_def Let_def)
qed

lemma decode_pointer:
  assumes "findtag st (tag + 1) = Some f" "has out p (fill_size body)" "int (length (fill_size body)) \<le> room" "room < 2 ^ 31"
    "decode_data (\<lambda>_. False) f out p = Some (Some cs)"
  shows "decode_record st (\<lambda>_. False) out 0 (tag, p, room) =
    Some (Some (cs, tag + 1, p + length (fill_size body), room - int (length (fill_size body))))"
proof -
  note h = has_fill_size [OF assms(2)]
  have n: "unat (of_nat (length body) + 4 :: u32) = length body + 4" using unat_small [of "length body + 4"] assms(3,4) by simp
  have r: "unat (of_int room :: u32) = nat room" using unat_small [of "nat room"] assms(3,4) by simp
  have "\<not> (of_int room :: u32) < of_nat (length body) + 4" unfolding word_less_nat_alt n r using assms(3) by simp
  then show ?thesis using assms(1,3,5) h(1) n by (simp add: decode_record_def and_then_def Let_def add.commute)
qed


text \<open>All the fields from one on: the records behind the last one, and the data at the end of the message.\<close>

lemma decode_fields:
  assumes "encode_loop (cb_of m) fs r lasttag = Some res" "0 \<le> r" "r < 2 ^ 31" "sorted_wrt (<) (lst # tags fs)" "lasttag \<le> lst"
    "\<forall>f \<in> set fs. well_typed m f \<and> findtag st (fd_tag f) = Some f"
  shows "\<exists>rs d. res = Some (rs, d) \<and> (\<forall>x \<in> set rs. x < 0x10000) \<and>
    (\<forall>out p. has out p d \<longrightarrow> (\<exists>cs. decode_loop st (\<lambda>_. False) out rs (lasttag, p, int (length d)) = Some (Some (cs, 0)) \<and>
       map (contents out) cs = concat (map (expected m) fs)))"
  using assms
proof (induction fs arbitrary: r lasttag lst res)
  case (Cons f fs)
  note prems = Cons.prems
  have srt: "sorted_wrt (<) (fd_tag f # tags fs)" "lst < fd_tag f" using prems(4) by auto
  have later: "\<forall>f \<in> set fs. well_typed m f \<and> findtag st (fd_tag f) = Some f" and wt: "well_typed m f" and ft: "findtag st (fd_tag f - 1 + 1) = Some f"
    using prems(6) by auto
  have lt: "lasttag < fd_tag f" using srt(2) prems(5) by simp
  obtain e where e: "encode_field (cb_of m) f r = Some e" using prems(1) by (auto simp: bind_eq_Some_conv)
  have step: "decode_loop st (\<lambda>_. False) out (h @ rs) (lasttag, p, room) = Some (Some (cs @ cs', 0))"
    if "put_record (fd_tag f) lasttag v = Some h" "decode_record st (\<lambda>_. False) out v (fd_tag f - 1, p, room) = Some (Some (cs, fd_tag f, q, room'))"
      "decode_loop st (\<lambda>_. False) out rs (fd_tag f, q, room') = Some (Some (cs', 0))" for out v h p room cs q room' cs' rs
    using put_record_read(1) [OF that(1) lt, of st "\<lambda>_. False" out rs p room] that(2,3) by (simp add: and_then_def)
  show ?case
  proof (cases e)
    case Zero
    then show ?thesis using e encode_field_not_zero by blast
  next
    case (Inline v)
    obtain h rest where h: "put_record (fd_tag f) lasttag v = Some h" "encode_loop (cb_of m) fs r (fd_tag f) = Some rest" "res = map_option (\<lambda>(rs, d). (h @ rs, d)) rest"
      using prems(1) e Inline by (auto simp: bind_eq_Some_conv)
    obtain u where u: "v = 2 * (unat u + 1)" "unat u < 0x7fff" "fd_type f = SPROTO_TINTEGER \<or> fd_type f = SPROTO_TBOOLEAN" "expected m f = [(f, 0, Number (ucast (u :: u32)))]"
      using encode_field_inline [OF e [unfolded Inline] wt] by blast
    obtain rs d where rd: "rest = Some (rs, d)" "\<forall>x \<in> set rs. x < 0x10000"
      "\<forall>out p. has out p d \<longrightarrow> (\<exists>cs. decode_loop st (\<lambda>_. False) out rs (fd_tag f, p, int (length d)) = Some (Some (cs, 0)) \<and> map (contents out) cs = concat (map (expected m) fs))"
      using Cons.IH [OF h(2) prems(2,3) srt(1) order_refl later] by blast
    have "\<forall>x \<in> set (h @ rs). x < 0x10000" using put_record_read(2) [OF h(1) lt] rd(2) u(1,2) by auto
    moreover have "\<exists>cs. decode_loop st (\<lambda>_. False) out (h @ rs) (lasttag, p, int (length d)) = Some (Some (cs, 0)) \<and> map (contents out) cs = concat (map (expected m) (f # fs))"
      if "has out p d" for out p
    proof -
      obtain cs where cs: "decode_loop st (\<lambda>_. False) out rs (fd_tag f, p, int (length d)) = Some (Some (cs, 0))" "map (contents out) cs = concat (map (expected m) fs)"
        using rd(3) \<open>has out p d\<close> by blast
      have dec: "decode_record st (\<lambda>_. False) out v (fd_tag f - 1, p, int (length d)) = Some (Some ([(f, 0, Value (ucast u))], fd_tag f, p, int (length d)))"
        using decode_inline [OF ft u(3), of "\<lambda>_. False" out u p "int (length d)"] u(1) by simp
      show ?thesis using step [OF h(1) dec cs(1)] cs(2) u(4) by (auto simp: contents_def)
    qed
    ultimately show ?thesis using h(3) rd(1) by simp
  next
    case (Data bs)
    show ?thesis
    proof (cases "bs = []")
      case True
      then have "encode_loop (cb_of m) fs r lasttag = Some res" using prems(1) e Data by simp
      moreover have "expected m f = []" using encode_field_roundtrip(1) [OF e [unfolded Data] wt _ _ True, of "[]" 0] True by simp
      ultimately show ?thesis using Cons.IH [OF _ prems(2,3) srt(1) _ later, of lasttag res] lt by simp
    next
      case False
      obtain h rest where h: "put_record (fd_tag f) lasttag 0 = Some h" "encode_loop (cb_of m) fs (r - int (length bs)) (fd_tag f) = Some rest"
        "res = map_option (\<lambda>(rs, d). (h @ rs, bs @ d)) rest"
        using prems(1) e Data False by (cases bs) (auto simp: bind_eq_Some_conv)
      have fits: "int (length bs) \<le> r" using encode_field_fits [OF e [unfolded Data] keeps_room_cb_of prems(2)] .
      obtain rs d where rd: "rest = Some (rs, d)" "\<forall>x \<in> set rs. x < 0x10000"
        "\<forall>out p. has out p d \<longrightarrow> (\<exists>cs. decode_loop st (\<lambda>_. False) out rs (fd_tag f, p, int (length d)) = Some (Some (cs, 0)) \<and> map (contents out) cs = concat (map (expected m) fs))"
        using Cons.IH [OF h(2) _ _ srt(1) order_refl later] fits prems(3) by auto
      have "int (length d) \<le> r - int (length bs)"
        using encode_loop_fits [OF _ keeps_room_cb_of _ srt(1) order_refl, of m "r - int (length bs)" rs d] h(2) rd(1) fits by simp
      then have small: "int (length bs) < 2 ^ 31" "int (length (bs @ d)) < 2 ^ 31" using prems(3) by simp_all
      obtain body where body: "bs = fill_size body"
        using encode_field_roundtrip(2) [OF e [unfolded Data] wt _ small(1) False, of bs 0] by (auto simp: has_def)
      have "\<forall>x \<in> set (h @ rs). x < 0x10000" using put_record_read(2) [OF h(1) lt] rd(2) by auto
      moreover have "\<exists>cs. decode_loop st (\<lambda>_. False) out (h @ rs) (lasttag, p, int (length (bs @ d))) = Some (Some (cs, 0)) \<and> map (contents out) cs = concat (map (expected m) (f # fs))"
        if "has out p (bs @ d)" for out p
      proof -
        have hs: "has out p bs" "has out (p + length bs) d" using \<open>has out p (bs @ d)\<close> by (simp_all add: has_append)
        obtain cs' where cs': "decode_loop st (\<lambda>_. False) out rs (fd_tag f, p + length bs, int (length d)) = Some (Some (cs', 0))" "map (contents out) cs' = concat (map (expected m) fs)"
          using rd(3) hs(2) by blast
        obtain cs where cs: "decode_data (\<lambda>_. False) f out p = Some (Some cs)" "map (contents out) cs = expected m f"
          using encode_field_roundtrip(3) [OF e [unfolded Data] wt hs(1) small(1) False] by blast
        have dec: "decode_record st (\<lambda>_. False) out 0 (fd_tag f - 1, p, int (length (bs @ d))) = Some (Some (cs, fd_tag f, p + length bs, int (length d)))"
          using decode_pointer [OF ft hs(1) [unfolded body] _ small(2) cs(1)] body by simp
        show ?thesis using step [OF h(1) dec cs'(1)] cs(2) cs'(2) by simp
      qed
      ultimately show ?thesis using h(3) rd(1) by simp
    qed
  qed
qed simp


section \<open>The message comes back\<close>

lemma le16_read: "n < 0x10000 \<Longrightarrow> unat (le16 n ! 0) + 256 * unat (le16 n ! 1) = n"
  by (simp add: le16_def unat_of_nat take_bit_eq_mod)

lemma records_read:
  assumes "has out 2 (concat (map le16 rs))" "\<forall>x \<in> set rs. x < 0x10000"
  shows "map (\<lambda>i. unat (out ! (2 + 2 * i)) + 256 * unat (out ! (3 + 2 * i))) [0..<length rs] = rs"
proof (rule nth_equalityI)
  fix i assume i: "i < length (map (\<lambda>i. unat (out ! (2 + 2 * i)) + 256 * unat (out ! (3 + 2 * i))) [0..<length rs])"
  have l: "\<forall>v \<in> set (map le16 rs). length v = 2" by (simp add: le16_def)
  have h: "has out (2 + i * 2) (le16 (rs ! i))" using has_chunk [OF assms(1) l, of i] i by simp
  have "out ! (2 + 2 * i) = le16 (rs ! i) ! 0" "out ! (3 + 2 * i) = le16 (rs ! i) ! 1"
    using has_nth(2) [OF h, of 0] has_nth(2) [OF h, of 1] by (simp_all add: le16_def mult.commute numeral_3_eq_3 numeral_2_eq_2)
  then show "map (\<lambda>i. unat (out ! (2 + 2 * i)) + 256 * unat (out ! (3 + 2 * i))) [0..<length rs] ! i = rs ! i"
    using le16_read [of "rs ! i"] assms(2) i by simp
qed simp

lemma decode_encoded:
  assumes "type_layout name fs = Some st" "\<forall>f \<in> set fs. well_typed m f" "st_maxn st < 0x10000" "room < 2 ^ 31"
    "sproto_encode st (cb_of m) room = Some out"
  shows "\<exists>cs. sproto_decode st (\<lambda>_. False) out = Some (Some (cs, int (length out))) \<and> map (contents out) cs = concat (map (expected m) fs)"
proof -
  note t = type_layout_sorted [OF assms(1)]
  have sz: "0 \<le> room - int (2 + st_maxn st * 2)" using assms(5) by (auto simp: sproto_encode_def Let_def split: if_splits)
  then have small: "room - int (2 + st_maxn st * 2) < 2 ^ 31" using assms(4) by simp
  obtain res where res: "encode_loop (cb_of m) fs (room - int (2 + st_maxn st * 2)) (-1) = Some res"
    "out = (case res of None \<Rightarrow> [] | Some (records, data) \<Rightarrow> le16 (length records) @ concat (map le16 records) @ data)"
    using assms(5) t(2) by (auto simp: sproto_encode_def Let_def bind_eq_Some_conv split: if_splits option.splits)
  have found: "findtag st (fd_tag f) = Some f" if "f \<in> set fs" for f
  proof -
    obtain i where i: "i < length fs" "fs ! i = f" using \<open>f \<in> set fs\<close> by (auto simp: in_set_conv_nth)
    have "sorted_wrt (<) (tags fs)" using t(1) unfolding t(2) by simp
    from field_with_nth [OF this i(1)] show ?thesis using i(2) findtag_find [OF assms(1)] by (simp add: field_with_def)
  qed
  obtain rs d where rd: "res = Some (rs, d)" "\<forall>x \<in> set rs. x < 0x10000"
    "\<And>out p. has out p d \<Longrightarrow> \<exists>cs. decode_loop st (\<lambda>_. False) out rs (-1, p, int (length d)) = Some (Some (cs, 0)) \<and> map (contents out) cs = concat (map (expected m) fs)"
    using decode_fields [OF res(1) sz small _ order_refl] t(1) assms(2) found unfolding t(2) by blast
  have len: "length rs < 0x10000"
  proof -
    have "length rs \<le> length fs + gaps (-1) fs"
      using encode_loop_fits [OF res(1) [unfolded rd(1)] keeps_room_cb_of sz t(1) [unfolded t(2)] order_refl] by simp
    then show ?thesis using layout_loop_gaps [of "-1" "length fs" fs "st_maxn st"] assms(1,3)
      by (auto simp: type_layout_def Let_def bind_eq_Some_conv split: if_splits)
  qed
  define recs where "recs = concat (map le16 rs)"
  have lr: "length recs = 2 * length rs" unfolding recs_def using length_fours [of "map le16 rs" 2] by (simp add: le16_def)
  have out: "out = le16 (length rs) @ recs @ d" using res(2) rd(1) by (simp add: recs_def)
  have h: "has out 0 (le16 (length rs))" "has out 2 recs" "has out (2 + 2 * length rs) d"
    using has_self [of "[]" "le16 (length rs)" "recs @ d"] has_self [of "le16 (length rs)" recs d] has_self [of "le16 (length rs) @ recs" d "[]"] lr
    by (simp_all add: out le16_def numeral_2_eq_2)
  have fn: "toword out 0 = Some (length rs)"
    using le16_read [OF len] by (simp add: toword_def out) (simp add: le16_def)
  have total: "length out = 2 + 2 * length rs + length d" using lr by (simp add: out le16_def)
  obtain cs where cs: "decode_loop st (\<lambda>_. False) out rs (-1, 2 + 2 * length rs, int (length d)) = Some (Some (cs, 0))"
    "map (contents out) cs = concat (map (expected m) fs)"
    using rd(3) [OF h(3)] by blast
  have "sproto_decode st (\<lambda>_. False) out = Some (Some (cs, int (length out)))"
    using fn cs(1) records_read [OF h(2) [unfolded recs_def] rd(2)] total
    by (simp add: sproto_decode_def Let_def and_then_def mult.commute)
  then show ?thesis using cs(2) by blast
qed


section \<open>Room enough\<close>

definition field_bytes :: "message \<Rightarrow> field \<Rightarrow> nat" where
  "field_bytes m f =
     12 + (case m (fd_tag f) of Absent \<Rightarrow> 0 | Single v \<Rightarrow> length v | Many vs \<Rightarrow> (\<Sum>v \<leftarrow> vs. 8 + length v))"

lemma integer_loop_enough:
  assumes "m (fd_tag f) = Many vs" "cb = cb_of m" "0 < index" "index \<le> length vs + 1" "\<forall>v \<in> set vs. length v = 4 \<or> length v = 8"
    "intlen = 4 \<or> intlen = 8" "int (8 * length vs) - int (intlen * (index - 1)) \<le> r"
  shows "\<exists>res. integer_loop cb f index intlen r out = Some res"
  using assms
proof (induction cb f index intlen r out rule: integer_loop.induct)
  case (1 cb f index intlen r out)
  note prems = "1.prems"
  obtain i where i: "index = Suc i" using prems(3) by (cases index) auto
  show ?case
  proof (cases "index \<le> length vs")
    case True
    define v where "v = vs ! (index - 1)"
    have lv: "length v = 4 \<or> length v = 8" using prems(3,5) True by (simp add: v_def)
    then have ne: "v \<noteq> []" by auto
    have cb: "cb f index 8 = CB_data v" using prems(1-3) True lv by (auto simp: cb_of_def give_def v_def)
    obtain k where k: "length vs = i + 1 + k" using True i le_Suc_ex [of "Suc i" "length vs"] by auto
    have r: "8 * int k + 8 + (8 - int intlen) * int i \<le> r" using prems(7) unfolding i k by (simp add: algebra_simps)
    then have r8: "\<not> r < 8" using prems(6) by auto
    consider (four) "length v = 4" | (wide) "length v = 8" "intlen = 4" | (eight) "length v = 8" "intlen = 8" "intlen \<noteq> 4"
      using lv prems(6) by auto
    then show ?thesis
    proof cases
      case four
      have eq: "integer_loop cb f index intlen r out = integer_loop cb f (index + 1) intlen (r - int (if intlen = 8 then 8 else 4)) (out @ v @ (if intlen = 8 then uint32_to_uint64 v else []))"
        unfolding integer_loop.simps [of cb f index intlen r out] cb using ne r8 four by (simp only: cb_result.case if_False) simp
      have "int (8 * length vs) - int (intlen * (index + 1 - 1)) \<le> r - int (if intlen = 8 then 8 else 4)"
        using prems(6) r unfolding i k by (auto simp: algebra_simps)
      then show ?thesis unfolding eq using "1.IH"(1) [OF cb ne r8 four prems(1,2) _ _ prems(5,6)] True by simp
    next
      case wide
      have rr: "\<not> r - int ((index - 1) * 4) < 8" using r wide unfolding i by (simp add: algebra_simps)
      have eq: "integer_loop cb f index intlen r out =
          integer_loop cb f (index + 1) 8 (r - int ((index - 1) * 4) - 8) (rearrange (index - 1) (out @ replicate ((index - 1) * 4) 0) @ v)"
        unfolding integer_loop.simps [of cb f index intlen r out] cb using ne r8 wide rr by (simp only: cb_result.case if_False) simp
      have "int (8 * length vs) - int (8 * (index + 1 - 1)) \<le> r - int ((index - 1) * 4) - 8"
        using wide r unfolding i k by (simp add: algebra_simps)
      then show ?thesis unfolding eq using "1.IH"(2) [OF cb ne r8 _ _ wide(2) rr prems(1,2) _ _ prems(5)] wide True by simp
    next
      case eight
      have eq: "integer_loop cb f index intlen r out = integer_loop cb f (index + 1) intlen (r - 8) (out @ v)"
        unfolding integer_loop.simps [of cb f index intlen r out] cb using ne r8 eight by (simp only: cb_result.case if_False) simp
      have "int (8 * length vs) - int (intlen * (index + 1 - 1)) \<le> r - 8" using eight r unfolding i k by (simp add: algebra_simps)
      then show ?thesis unfolding eq using "1.IH"(3) [OF cb ne r8 _ _ eight(3) prems(1,2) _ _ prems(5,6)] eight True by simp
    qed
  next
    case False
    then have "cb f index 8 = CB_NIL" using prems(1-4) by (auto simp: cb_of_def)
    then have "integer_loop cb f index intlen r out = Some (out, intlen, False)" by (simp add: integer_loop.simps [of cb f index intlen r out])
    then show ?thesis by blast
  qed
qed

lemma boolean_loop_enough:
  assumes "m (fd_tag f) = Many vs" "cb = cb_of m" "0 < index" "index \<le> length vs + 1" "\<forall>v \<in> set vs. length v \<le> 4"
    "int (length vs) - int (index - 1) \<le> r"
  shows "\<exists>res. boolean_loop cb f index r out = Some res"
  using assms
proof (induction cb f index r out rule: boolean_loop.induct)
  case (1 cb f index r out)
  note prems = "1.prems"
  show ?case
  proof (cases "index \<le> length vs")
    case True
    define v where "v = vs ! (index - 1)"
    have "length v \<le> 4" using prems(3,5) True by (simp add: v_def)
    then have cb: "cb f index 4 = CB_data v" using prems(1-3) True by (simp add: cb_of_def give_def v_def)
    have r: "\<not> r < 1" using prems(3,6) True by auto
    have eq: "boolean_loop cb f index r out = boolean_loop cb f (index + 1) (r - 1) (out @ [if \<exists>b \<in> set v. b \<noteq> 0 then 1 else 0])"
      using cb r by (simp add: boolean_loop.simps [of cb f index r out])
    show ?thesis unfolding eq using "1.IH" [OF cb r prems(1,2) _ _ prems(5)] True prems(3,6) by auto
  next
    case False
    then have "cb f index 4 = CB_NIL" using prems(1-4) by (auto simp: cb_of_def)
    then show ?thesis by (simp add: boolean_loop.simps [of cb f index r out])
  qed
qed

lemma object_loop_enough:
  assumes "m (fd_tag f) = Many vs" "cb = cb_of m" "0 < index" "index \<le> length vs + 1"
    "4 + (\<Sum>v \<leftarrow> drop (index - 1) vs. int (4 + length v)) \<le> r"
  shows "\<exists>res. object_loop cb f index r out = Some res"
  using assms
proof (induction cb f index r out rule: object_loop.induct)
  case (1 cb f index r out)
  note prems = "1.prems"
  have pos: "0 \<le> (\<Sum>v \<leftarrow> ws. int (4 + length v))" for ws :: "bytes list" by (induction ws) auto
  have r: "\<not> r < 4" using prems(5) pos [of "drop (index - 1) vs"] by linarith
  show ?case
  proof (cases "index \<le> length vs")
    case True
    define v where "v = vs ! (index - 1)"
    have d: "drop (index - 1) vs = v # drop index vs" using Cons_nth_drop_Suc [of "index - 1" vs] prems(3) True by (simp add: v_def)
    have r': "4 + (\<Sum>v \<leftarrow> drop index vs. int (4 + length v)) \<le> r - 4 - int (length v)" using prems(5) unfolding d by simp
    then have cb: "cb f index (r - 4) = CB_data v" using prems(1-3) True pos [of "drop index vs"] by (simp add: cb_of_def give_def v_def)
    have eq: "object_loop cb f index r out = object_loop cb f (index + 1) (r - 4 - int (length v)) (out @ fill_size v)"
      using cb r by (simp add: object_loop.simps [of cb f index r out])
    show ?thesis unfolding eq using "1.IH" [OF r cb prems(1,2)] r' True by simp
  next
    case False
    then have "cb f index (r - 4) = CB_NIL" using prems(1-4) by (auto simp: cb_of_def)
    then show ?thesis using r by (simp add: object_loop.simps [of cb f index r out])
  qed
qed


lemma integer_array_enough:
  assumes "m (fd_tag f) = Many vs" "\<forall>v \<in> set vs. length v = 4 \<or> length v = 8" "int (1 + 8 * length vs) \<le> r"
  shows "\<exists>body. encode_integer_array (cb_of m) f r = Some (body, False) \<and> length body \<le> 1 + 8 * length vs"
proof -
  obtain res where res: "integer_loop (cb_of m) f 1 4 (r - 1) [] = Some res"
    using integer_loop_enough [of m f vs "cb_of m" 1 4 "r - 1" "[]", OF assms(1) refl _ _ assms(2)] assms(3) by auto
  obtain out' il na where "res = (out', il, na)" by (cases res)
  then obtain body where body: "encode_integer_array (cb_of m) f r = Some (body, na)" using res assms(3) by (simp add: encode_integer_array_def)
  note d = integers_decode [OF body assms(1,2)]
  have "length body \<le> 1 + 8 * length vs"
  proof (cases "vs = []")
    case False
    then obtain il where il: "il = 4 \<or> il = 8" "body = of_nat il # concat (map (wide il) vs)" "\<forall>v \<in> set vs. length (wide il v) = il" using d(3) by blast
    have "\<forall>v \<in> set (map (wide il) vs). length v = il" using il(3) by simp
    from length_fours [OF this] show ?thesis using il(1,2) by auto
  qed (use d(2) in simp)
  then show ?thesis using d(1) body by auto
qed

lemma object_array_enough:
  assumes "m (fd_tag f) = Many vs" "int (4 + (\<Sum>v \<leftarrow> vs. 4 + length v)) \<le> r"
  shows "object_loop (cb_of m) f 1 r [] = Some (Some (concat (map fill_size vs)))"
proof -
  have "(\<Sum>v \<leftarrow> vs. int (4 + length v)) = int (\<Sum>v \<leftarrow> vs. 4 + length v)" by (induction vs) auto
  then obtain res where res: "object_loop (cb_of m) f 1 r [] = Some res"
    using object_loop_enough [of m f vs "cb_of m" 1 r "[]", OF assms(1) refl] assms(2) by auto
  then show ?thesis using object_loop_elements [OF res assms(1) refl] by simp
qed

lemma sum_8_length: "8 * length vs \<le> (\<Sum>v \<leftarrow> vs. 8 + length v)" "(\<Sum>v \<leftarrow> vs. 4 + length v) \<le> (\<Sum>v \<leftarrow> vs. 8 + length v)"
  "length vs \<le> (\<Sum>v \<leftarrow> vs. 8 + length v)" "length (concat (map fill_size vs)) = (\<Sum>v \<leftarrow> vs. 4 + length v)"
  by (induction vs) (auto simp del: length_concat)

lemma encode_array_enough:
  assumes "well_typed m f" "is_array f" "int (field_bytes m f) \<le> r"
  shows "\<exists>bs. encode_array (cb_of m) f r = Some bs \<and> length bs \<le> field_bytes m f"
proof (cases "m (fd_tag f)")
  case Absent
  have r: "12 \<le> r" using assms(3) by (simp add: field_bytes_def)
  have loops: "boolean_loop (cb_of m) f 1 (r - 4) [] = Some None" "object_loop (cb_of m) f 1 (r - 4) [] = Some None"
    "encode_integer_array (cb_of m) f (r - 4) = Some ([], True)"
    using Absent assms(2) r by (simp_all add: boolean_loop.simps object_loop.simps encode_integer_array_def integer_loop.simps cb_of_def)
  then have "encode_array (cb_of m) f r = Some []" using r by (auto simp: encode_array_def)
  then show ?thesis by simp
next
  case (Single v)
  then show ?thesis using assms(1,2) by (simp add: well_typed_def)
next
  case (Many vs)
  have r: "int (12 + (\<Sum>v \<leftarrow> vs. 8 + length v)) \<le> r" "field_bytes m f = 12 + (\<Sum>v \<leftarrow> vs. 8 + length v)"
    using assms(3) Many by (simp_all add: field_bytes_def)
  have r4: "\<not> r < 4" using r(1) by simp
  have t: "value_type f \<in> {SPROTO_TINTEGER, SPROTO_TBOOLEAN, SPROTO_TSTRING, SPROTO_TDOUBLE, SPROTO_TSTRUCT}" using assms(1) by (simp add: well_typed_def)
  consider (numbers) "value_type f = SPROTO_TDOUBLE \<or> value_type f = SPROTO_TINTEGER" | (booleans) "value_type f = SPROTO_TBOOLEAN"
    | (objects) "value_type f = SPROTO_TSTRING \<or> value_type f = SPROTO_TSTRUCT" using t by auto
  then show ?thesis
  proof cases
    case numbers
    have "\<forall>v \<in> set vs. length v = 4 \<or> length v = 8" using assms(1) Many numbers by (auto simp: well_typed_def)
    from integer_array_enough [of m f vs "r - 4", OF Many this]
    obtain body where "encode_integer_array (cb_of m) f (r - 4) = Some (body, False)" "length body \<le> 1 + 8 * length vs"
      using r(1) sum_8_length(1) [of vs] by auto
    then show ?thesis using numbers r4 r(2) sum_8_length(1) [of vs] by (auto simp: encode_array_def)
  next
    case booleans
    have "\<forall>v \<in> set vs. length v \<le> 4" using assms(1) Many booleans by (auto simp: well_typed_def sproto_types)
    from boolean_loop_enough [of m f vs "cb_of m" 1 "r - 4" "[]", OF Many refl _ _ this]
    obtain res where res: "boolean_loop (cb_of m) f 1 (r - 4) [] = Some res" using r(1) sum_8_length(3) [of vs] by auto
    have "res = Some (map truth vs)" by (rule boolean_loop_elements [OF res Many refl]) simp_all
    then show ?thesis using res booleans r4 r(2) sum_8_length(3) [of vs] by (auto simp: encode_array_def sproto_types)
  next
    case objects
    have "object_loop (cb_of m) f 1 (r - 4) [] = Some (Some (concat (map fill_size vs)))"
      by (rule object_array_enough [of m f vs "r - 4", OF Many]) (use r(1) sum_8_length(2) [of vs] in simp)
    then have "encode_array (cb_of m) f r = Some (fill_size (concat (map fill_size vs)))" using objects r4 by (auto simp: encode_array_def sproto_types)
    then show ?thesis using r(2) sum_8_length(2,4) [of vs] by (auto simp del: length_concat)
  qed
qed

lemma encode_field_enough:
  assumes "well_typed m f" "int (field_bytes m f) \<le> r"
  shows "\<exists>e. encode_field (cb_of m) f r = Some e \<and> (\<forall>bs. e = Data bs \<longrightarrow> length bs \<le> field_bytes m f)"
proof (cases "is_array f")
  case True
  then show ?thesis using encode_array_enough [OF assms(1) True assms(2)] by (auto simp: encode_field_def)
next
  case False
  have t: "fd_type f \<in> {SPROTO_TINTEGER, SPROTO_TBOOLEAN, SPROTO_TSTRING, SPROTO_TDOUBLE, SPROTO_TSTRUCT}"
    using assms(1) value_type_scalar [OF False] by (simp add: well_typed_def)
  have r: "12 \<le> r" using assms(2) by (simp add: field_bytes_def)
  show ?thesis
  proof (cases "m (fd_tag f)")
    case Absent
    then have cb: "cb_of m f i room = CB_NIL" for i room using False by (simp add: cb_of_def)
    show ?thesis using t r False cb by (auto simp: encode_field_def encode_object_def field_bytes_def)
  next
    case (Single v)
    have rv: "12 + int (length v) \<le> r" using assms(2) Single by (simp add: field_bytes_def)
    have cb: "cb_of m f 0 room = give v room" for room using Single by (simp add: cb_of_def)
    consider (number) "fd_type f = SPROTO_TDOUBLE \<or> fd_type f = SPROTO_TINTEGER \<or> fd_type f = SPROTO_TBOOLEAN"
      | (object) "fd_type f = SPROTO_TSTRING \<or> fd_type f = SPROTO_TSTRUCT" using t by auto
    then show ?thesis
    proof cases
      case number
      then have lv: "length v = 4 \<or> length v = 8" using Single assms(1) by (auto simp: well_typed_def)
      then have "cb_of m f 0 8 = CB_data v" using cb by (auto simp: give_def)
      then show ?thesis using lv number False rv Single
        by (auto simp: encode_field_def encode_integer_def encode_uint64_def Let_def field_bytes_def)
    next
      case object
      then have "encode_field (cb_of m) f r = Some (Data (fill_size v))"
        using False rv cb by (auto simp: encode_field_def encode_object_def give_def sproto_types)
      then show ?thesis using Single by (simp add: field_bytes_def)
    qed
  next
    case (Many vs)
    then show ?thesis using assms(1) False by (simp add: well_typed_def)
  qed
qed

lemma put_record_enough: "-1 \<le> lasttag \<Longrightarrow> tag < 0x8000 \<Longrightarrow> \<exists>h. put_record tag lasttag v = Some h"
  by (auto simp: put_record_def Let_def)

lemma encode_loop_enough:
  assumes "\<forall>f \<in> set fs. well_typed m f \<and> fd_tag f < 0x8000 \<and> -1 \<le> fd_tag f" "-1 \<le> lasttag" "int (\<Sum>f \<leftarrow> fs. field_bytes m f) \<le> r"
  shows "\<exists>res. encode_loop (cb_of m) fs r lasttag = Some res"
  using assms
proof (induction fs arbitrary: r lasttag)
  case (Cons f fs)
  have f: "well_typed m f" "fd_tag f < 0x8000" "-1 \<le> fd_tag f" and later: "\<forall>f \<in> set fs. well_typed m f \<and> fd_tag f < 0x8000 \<and> -1 \<le> fd_tag f"
    using Cons.prems(1) by auto
  have r: "int (field_bytes m f) + int (\<Sum>f \<leftarrow> fs. field_bytes m f) \<le> r" using Cons.prems(3) by simp
  obtain e where e: "encode_field (cb_of m) f r = Some e" "\<forall>bs. e = Data bs \<longrightarrow> length bs \<le> field_bytes m f"
    using encode_field_enough [OF f(1), of r] r by auto
  show ?case
  proof (cases e)
    case Zero
    then show ?thesis using e by simp
  next
    case (Inline v)
    then show ?thesis using e(1) put_record_enough [OF Cons.prems(2) f(2), of v] Cons.IH [OF later f(3), of r] r by auto
  next
    case (Data bs)
    then have l: "length bs \<le> field_bytes m f" using e(2) by simp
    show ?thesis
    proof (cases bs)
      case Nil
      then show ?thesis using e(1) Data Cons.IH [OF later Cons.prems(2), of r] r by auto
    next
      case (Cons b bs')
      then show ?thesis using e(1) Data l put_record_enough [OF \<open>-1 \<le> lasttag\<close> f(2), of 0] Cons.IH [OF later f(3), of "r - int (length bs)"] r by auto
    qed
  qed
qed simp

lemma layout_small:
  assumes "layout_loop lst m fs = Some k" "\<forall>f \<in> set fs. fd_tag f < 0x8000" "lst < 0x8000" "-1 \<le> lst"
  shows "int (length fs) + int (gaps lst fs) \<le> 0x7fff - lst"
  using assms
proof (induction fs arbitrary: lst m)
  case (Cons f fs)
  have lt: "lst < fd_tag f" and l: "layout_loop (fd_tag f) (if fd_tag f > lst + 1 then m + 1 else m) fs = Some k"
    using Cons.prems(1) by (auto split: if_splits)
  show ?case using Cons.IH [OF l] Cons.prems(2,4) lt by auto
qed simp

text \<open>
  C30. What \<open>sproto_encode\<close> writes, \<open>sproto_decode\<close> reads back. For every type that the schema loader accepts, with tags below \<open>0x8000\<close>, and
  every message of that type, a buffer with room for the header and the fields is enough; the decoder consumes the whole message and
  calls its callback for exactly the fields that have a value, in the order of their tags, with the values of the message: a number
  with its sign, in its record or in 4 or 8 bytes, every element of an array with its index, also of an array of integers that was
  widened in place, and index -1 for an array that is empty.
\<close>

theorem sproto_encode_decode:
  assumes "type_layout name fs = Some st" "\<forall>f \<in> set fs. well_typed m f \<and> fd_tag f < 0x8000"
    "int (2 + 2 * st_maxn st + (\<Sum>f \<leftarrow> fs. field_bytes m f)) \<le> room" "room < 2 ^ 31"
  shows "\<exists>out cs. sproto_encode st (cb_of m) room = Some out \<and> sproto_decode st (\<lambda>_. False) out = Some (Some (cs, int (length out))) \<and>
    map (contents out) cs = concat (map (expected m) fs)"
proof -
  note t = type_layout_sorted [OF assms(1)]
  have low: "\<forall>f \<in> set fs. -1 \<le> fd_tag f" using t(1) unfolding t(2) by auto
  have layout: "layout_loop (-1) (length fs) fs = Some (st_maxn st)"
    using assms(1) by (auto simp: type_layout_def Let_def bind_eq_Some_conv split: if_splits)
  have small: "st_maxn st < 0x10000" using layout_small [OF layout] layout_loop_gaps [OF layout] assms(2) by simp
  obtain res where res: "encode_loop (cb_of m) fs (room - int (2 + st_maxn st * 2)) (-1) = Some res"
    using encode_loop_enough [of fs m "-1" "room - int (2 + st_maxn st * 2)"] assms(2,3) low by auto
  have "\<exists>out. sproto_encode st (cb_of m) room = Some out"
    using res t(2) assms(3) by (cases res) (auto simp: sproto_encode_def Let_def)
  then obtain out where out: "sproto_encode st (cb_of m) room = Some out" ..
  show ?thesis using decode_encoded [OF assms(1) _ small assms(4) out] out assms(2) by blast
qed

definition demo_message :: message where
  "demo_message = (\<lambda>_. Absent)(0 := Single [7, 0, 0, 0], 1 := Many [[1, 0, 0, 0], [0, 0, 0, 0, 1, 0, 0, 0]], 4 := Single [72, 105])"

theorem sproto_encode_decode_witness:
  "\<exists>out cs. sproto_encode demo_type (cb_of demo_message) 200 = Some out \<and> sproto_decode demo_type (\<lambda>_. False) out = Some (Some (cs, int (length out))) \<and>
    map (contents out) cs = concat (map (expected demo_message) demo_fields)"
  by (rule sproto_encode_decode [OF demo_layout])
    (simp_all add: demo_fields_def demo_type_def demo_message_def well_typed_def field_bytes_def is_array_def value_type_def sproto_types)

end
