(* ===== verification/SprotoSchema.thy ===== *)
theory SprotoSchema
  imports Sproto Cstr
begin

text \<open>
  The schema of sproto (\<open>lualib-src/sproto/sproto.c\<close>): \<open>sproto_create\<close>, which reads the types and the protocols from a binary bundle,
  and the queries. The bundle is a list of bytes, a pointer into it an offset. A result is \<open>None\<close> when memory outside the bundle is read
  or the function does not return, and \<open>Some None\<close> for \<open>NULL\<close> and -1. Memory of the pool is always available.
\<close>

section \<open>Reading a structure\<close>

partial_function (option) count_loop :: "bytes \<Rightarrow> nat \<Rightarrow> u32 \<Rightarrow> nat \<Rightarrow> nat option option" where
  "count_loop data stream len n =
     (if len = 0 then Some (Some n)
      else if len < 4 then Some None
      else
        (case todword data stream of
           None \<Rightarrow> None
         | Some nsz \<Rightarrow>
             if nsz + 4 > len then Some None
             else count_loop data (stream + unat (nsz + 4)) (len - (nsz + 4)) (n + 1)))"

declare count_loop.simps [code]

definition count_array :: "bytes \<Rightarrow> nat \<Rightarrow> nat option option" where
  "count_array data stream = do { len \<leftarrow> todword data stream; count_loop data (stream + 4) len 0 }"

primrec struct_loop :: "bytes \<Rightarrow> nat \<Rightarrow> nat \<Rightarrow> nat \<Rightarrow> nat \<Rightarrow> unit option option" where
  "struct_loop data field 0 stream sz = Some (Some ())"
| "struct_loop data field (Suc n) stream sz = do {
     value \<leftarrow> toword data field;
     if value \<noteq> 0 then struct_loop data (field + 2) n stream sz
     else if sz < 4 then Some None
     else do {
       dsz \<leftarrow> todword data stream;
       if sz < unat (4 + dsz) then Some None
       else struct_loop data (field + 2) n (stream + unat (4 + dsz)) (sz - unat (4 + dsz))
     }
   }"

definition struct_field :: "bytes \<Rightarrow> nat \<Rightarrow> nat \<Rightarrow> nat option option" where
  "struct_field data stream sz =
     (if sz < 4 then Some None
      else do {
        fn \<leftarrow> toword data stream;
        let header = 2 + 2 * fn;
        if sz < header then Some None
        else and_then (struct_loop data (stream + 2) fn (stream + header) (sz - header)) (\<lambda>_. Some (Some fn))
      })"

text \<open>A name is a C string: it ends at the first NUL.\<close>

definition import_string :: "bytes \<Rightarrow> nat \<Rightarrow> string option" where
  "import_string data stream = do {
     sz \<leftarrow> todword data stream;
     if stream + 4 + unat sz \<le> length data
     then Some (map (\<lambda>b. char_of (unat b)) (takeWhile (\<lambda>b. b \<noteq> 0) (take (unat sz) (drop (stream + 4) data))))
     else None
   }"

text \<open>Multiplication of \<open>int\<close> wraps.\<close>

fun calc_pow :: "u32 \<Rightarrow> nat \<Rightarrow> u32" where
  "calc_pow base n =
     (if n = 0 then 1
      else (let r = calc_pow (base * base) (n div 2) in if odd n then r * base else r))"

declare calc_pow.simps [simp del]

section \<open>A field\<close>

record field_import =
  fi_f :: field
  fi_name :: "string option"
  fi_array :: bool

definition field_case :: "bytes \<Rightarrow> nat \<Rightarrow> nat \<Rightarrow> int \<Rightarrow> nat \<Rightarrow> field_import \<Rightarrow> field_import option option" where
  "field_case data type_n names tag value s =
     (if tag = 0 then
        if value \<noteq> 0 then Some None
        else do { name \<leftarrow> import_string data names; Some (Some (s\<lparr>fi_name := Some name\<rparr>)) }
      else if value = 0 then Some None
      else
        (let value = value div 2 - 1; f = fi_f s
         in if tag = 1 then
              if value \<ge> 4 then Some None else Some (Some (s\<lparr>fi_f := f\<lparr>fd_type := of_nat value\<rparr>\<rparr>))
            else if tag = 2 then
              if fd_type f = SPROTO_TINTEGER then Some (Some (s\<lparr>fi_f := f\<lparr>fd_extra := sint (calc_pow 10 value)\<rparr>\<rparr>))
              else if fd_type f = SPROTO_TSTRING then Some (Some (s\<lparr>fi_f := f\<lparr>fd_extra := int value\<rparr>\<rparr>))
              else if value \<ge> type_n then Some None
              else if sint (fd_type f) \<ge> 0 then Some None
              else Some (Some (s\<lparr>fi_f := f\<lparr>fd_type := SPROTO_TSTRUCT, fd_st := Some value\<rparr>\<rparr>))
            else if tag = 3 then Some (Some (s\<lparr>fi_f := f\<lparr>fd_tag := int value\<rparr>\<rparr>))
            else if tag = 4 then Some (Some (if value \<noteq> 0 then s\<lparr>fi_array := True\<rparr> else s))
            else if tag = 5 then Some (Some (s\<lparr>fi_f := f\<lparr>fd_key := int value\<rparr>\<rparr>))
            else Some None))"

primrec field_loop :: "bytes \<Rightarrow> nat \<Rightarrow> nat \<Rightarrow> nat \<Rightarrow> nat \<Rightarrow> int \<Rightarrow> field_import \<Rightarrow> field_import option option" where
  "field_loop data type_n names 0 stream tag s = Some (Some s)"
| "field_loop data type_n names (Suc n) stream tag s = do {
     let tag = tag + 1;
     value \<leftarrow> toword data stream;
     if odd value then field_loop data type_n names n (stream + 2) (tag + int (value div 2)) s
     else and_then (field_case data type_n names tag value s) (field_loop data type_n names n (stream + 2) tag)
   }"

definition field_init :: field_import where
  "field_init =
     \<lparr>fi_f = \<lparr>fd_tag = -1, fd_type = -1, fd_name = '''', fd_st = None, fd_key = -1, fd_extra = 0\<rparr>, fi_name = None, fi_array = False\<rparr>"

definition import_field :: "bytes \<Rightarrow> nat \<Rightarrow> nat \<Rightarrow> (field \<times> nat) option option" where
  "import_field data type_n stream = do {
     sz \<leftarrow> todword data stream;
     let result = stream + 4 + unat sz;
     and_then (struct_field data (stream + 4) (unat sz))
       (\<lambda>fn. and_then (field_loop data type_n (stream + 6 + 2 * fn) fn (stream + 6) (-1) field_init)
         (\<lambda>s. case fi_name s of
                None \<Rightarrow> Some None
              | Some name \<Rightarrow>
                  if fd_tag (fi_f s) < 0 \<or> sint (fd_type (fi_f s)) < 0 then Some None
                  else Some (Some ((fi_f s)\<lparr>fd_name := name, fd_type := fd_type (fi_f s) OR (if fi_array s then SPROTO_TARRAY else 0)\<rparr>, result))))
   }"

section \<open>A type\<close>

primrec zeros :: "bytes \<Rightarrow> nat \<Rightarrow> nat \<Rightarrow> bool option" where
  "zeros data 0 stream = Some True"
| "zeros data (Suc n) stream = do { v \<leftarrow> toword data stream; if v \<noteq> 0 then Some False else zeros data n (stream + 2) }"

primrec fields_loop :: "bytes \<Rightarrow> nat \<Rightarrow> nat \<Rightarrow> nat \<Rightarrow> int \<Rightarrow> nat \<Rightarrow> (field list \<times> nat) option option" where
  "fields_loop data type_n 0 stream lst maxn = Some (Some ([], maxn))"
| "fields_loop data type_n (Suc n) stream lst maxn =
     and_then (import_field data type_n stream)
       (\<lambda>(f, stream).
          if fd_tag f \<le> lst then Some None
          else and_then (fields_loop data type_n n stream (fd_tag f) (if fd_tag f > lst + 1 then maxn + 1 else maxn))
            (\<lambda>(fs, maxn). Some (Some (f # fs, maxn))))"

text \<open>
  The tags of the first and the last field. Without fields they are read from memory of the pool that holds no field: \<open>stale\<close> is what is
  found there.
\<close>

definition end_tags :: "int \<times> int \<Rightarrow> field list \<Rightarrow> int \<times> int" where
  "end_tags stale fs = (if fs = [] then stale else (fd_tag (hd fs), fd_tag (last fs)))"

definition import_fields :: "int \<times> int \<Rightarrow> bytes \<Rightarrow> nat \<Rightarrow> string \<Rightarrow> nat \<Rightarrow> sproto_type option option" where
  "import_fields stale data type_n name content =
     and_then (count_array data content)
       (\<lambda>n. and_then (fields_loop data type_n n (content + 4) (-1) n)
         (\<lambda>(fs, maxn).
            let base = fst (end_tags stale fs)
            in Some (Some \<lparr>st_name = name, st_base = (if snd (end_tags stale fs) - base + 1 \<noteq> int n then -1 else base), st_maxn = maxn, st_f = fs\<rparr>)))"

definition type_content :: "int \<times> int \<Rightarrow> bytes \<Rightarrow> nat \<Rightarrow> nat \<Rightarrow> nat \<Rightarrow> sproto_type option option" where
  "type_content stale data type_n fn content = do {
     name \<leftarrow> import_string data content;
     if fn = 1 then Some (Some \<lparr>st_name = name, st_base = 0, st_maxn = 0, st_f = []\<rparr>)
     else do { sz \<leftarrow> todword data content; import_fields stale data type_n name (content + unat (sz + 4)) }
   }"

definition import_type :: "(nat \<Rightarrow> int \<times> int) \<Rightarrow> bytes \<Rightarrow> nat \<Rightarrow> nat \<Rightarrow> (sproto_type \<times> nat) option option" where
  "import_type stale data type_n stream = do {
     sz \<leftarrow> todword data stream;
     and_then (struct_field data (stream + 4) (unat sz))
       (\<lambda>fn. if fn = 0 \<or> fn > 2 then Some None
         else do {
           z \<leftarrow> zeros data fn (stream + 6);
           if \<not> z then Some None
           else and_then (type_content (stale stream) data type_n fn (stream + 6 + 2 * fn)) (\<lambda>t. Some (Some (t, stream + 4 + unat sz)))
         })
   }"

section \<open>A protocol\<close>

record protocol =
  pr_name :: "string option"
  pr_tag :: int
  pr_request :: "nat option"
  pr_response :: "nat option"
  pr_confirm :: int

definition proto_case :: "bytes \<Rightarrow> nat \<Rightarrow> nat \<Rightarrow> nat \<Rightarrow> int \<Rightarrow> protocol \<Rightarrow> protocol option option" where
  "proto_case data type_n names i value p =
     (if i = 0 then
        if value \<noteq> -1 then Some None else do { name \<leftarrow> import_string data names; Some (Some (p\<lparr>pr_name := Some name\<rparr>)) }
      else if i = 1 then if value < 0 then Some None else Some (Some (p\<lparr>pr_tag := value\<rparr>))
      else if i = 2 then if value < 0 \<or> value \<ge> int type_n then Some None else Some (Some (p\<lparr>pr_request := Some (nat value)\<rparr>))
      else if i = 3 then if value < 0 \<or> value \<ge> int type_n then Some None else Some (Some (p\<lparr>pr_response := Some (nat value)\<rparr>))
      else if i = 4 then Some (Some (p\<lparr>pr_confirm := value\<rparr>))
      else Some None)"

primrec proto_loop :: "bytes \<Rightarrow> nat \<Rightarrow> nat \<Rightarrow> nat \<Rightarrow> nat \<Rightarrow> nat \<Rightarrow> protocol \<Rightarrow> protocol option option" where
  "proto_loop data type_n names 0 stream i p = Some (Some p)"
| "proto_loop data type_n names (Suc n) stream i p = do {
     value \<leftarrow> toword data stream;
     if odd value then proto_loop data type_n names n (stream + 2) (i + 1) p
     else and_then (proto_case data type_n names i (int (value div 2) - 1) p) (proto_loop data type_n names n (stream + 2) (i + 1))
   }"

definition import_protocol :: "bytes \<Rightarrow> nat \<Rightarrow> nat \<Rightarrow> (protocol \<times> nat) option option" where
  "import_protocol data type_n stream = do {
     sz \<leftarrow> todword data stream;
     let result = stream + 4 + unat sz;
     and_then (struct_field data (stream + 4) (unat sz))
       (\<lambda>fn. and_then
         (proto_loop data type_n (stream + 6 + 2 * fn) fn (stream + 6) 0
           \<lparr>pr_name = None, pr_tag = -1, pr_request = None, pr_response = None, pr_confirm = 0\<rparr>)
         (\<lambda>p. if pr_name p = None \<or> pr_tag p < 0 then Some None else Some (Some (p, result))))
   }"

section \<open>The bundle\<close>

record sproto =
  sp_type :: "sproto_type list"
  sp_proto :: "protocol list"

text \<open>The number of elements and the place of the data of the types and of the protocols.\<close>

primrec bundle_loop :: "bytes \<Rightarrow> nat \<Rightarrow> nat \<Rightarrow> nat \<Rightarrow> (nat \<times> nat) list option option" where
  "bundle_loop data 0 stream content = Some (Some [])"
| "bundle_loop data (Suc n) stream content = do {
     value \<leftarrow> toword data stream;
     if value \<noteq> 0 then Some None
     else and_then (count_array data content)
       (\<lambda>k. do {
          sz \<leftarrow> todword data content;
          and_then (bundle_loop data n (stream + 2) (content + unat (sz + 4))) (\<lambda>rest. Some (Some ((k, content + 4) # rest)))
        })
   }"

primrec import_all :: "(nat \<Rightarrow> ('a \<times> nat) option option) \<Rightarrow> nat \<Rightarrow> nat \<Rightarrow> 'a list option option" where
  "import_all imp 0 stream = Some (Some [])"
| "import_all imp (Suc n) stream =
     and_then (imp stream) (\<lambda>(x, stream). and_then (import_all imp n stream) (\<lambda>xs. Some (Some (x # xs))))"

definition import_parts :: "(nat \<Rightarrow> int \<times> int) \<Rightarrow> bytes \<Rightarrow> nat \<times> nat \<Rightarrow> nat \<times> nat \<Rightarrow> sproto option option" where
  "import_parts stale data types protos =
     and_then (import_all (import_type stale data (fst types)) (fst types) (snd types))
       (\<lambda>ts. and_then (import_all (import_protocol data (fst types)) (fst protos) (snd protos))
         (\<lambda>ps. Some (Some \<lparr>sp_type = ts, sp_proto = ps\<rparr>)))"

definition create_from_bundle :: "(nat \<Rightarrow> int \<times> int) \<Rightarrow> bytes \<Rightarrow> sproto option option" where
  "create_from_bundle stale data =
     and_then (struct_field data 0 (length data))
       (\<lambda>fn. if fn > 2 then Some None
         else and_then (bundle_loop data fn 2 (2 + 2 * fn))
           (\<lambda>parts. import_parts stale data (if parts = [] then (0, 0) else parts ! 0) (if length parts < 2 then (0, 0) else parts ! 1)))"

definition sproto_create :: "(nat \<Rightarrow> int \<times> int) \<Rightarrow> bytes \<Rightarrow> sproto option option" where
  "sproto_create stale data = create_from_bundle stale data"

section \<open>Queries\<close>

primrec prototag_loop :: "protocol list \<Rightarrow> string \<Rightarrow> int" where
  "prototag_loop [] name = -1"
| "prototag_loop (p # ps) name = (if strcmp name (the (pr_name p)) = 0 then pr_tag p else prototag_loop ps name)"

definition sproto_prototag :: "sproto \<Rightarrow> string \<Rightarrow> int" where
  "sproto_prototag sp name = prototag_loop (sp_proto sp) name"

definition query_proto :: "sproto \<Rightarrow> int \<Rightarrow> protocol option" where
  "query_proto sp tag = bisect pr_tag (sp_proto sp) tag 0 (length (sp_proto sp))"

text \<open>The result is the index of the type.\<close>

definition sproto_protoquery :: "sproto \<Rightarrow> int \<Rightarrow> int \<Rightarrow> nat option" where
  "sproto_protoquery sp proto what =
     (if what < 0 \<or> what > 1 then None
      else (case query_proto sp proto of None \<Rightarrow> None | Some p \<Rightarrow> if what = 0 then pr_request p else pr_response p))"

definition sproto_protoresponse :: "sproto \<Rightarrow> int \<Rightarrow> bool" where
  "sproto_protoresponse sp proto =
     (case query_proto sp proto of None \<Rightarrow> False | Some p \<Rightarrow> pr_response p \<noteq> None \<or> pr_confirm p \<noteq> 0)"

definition sproto_protoname :: "sproto \<Rightarrow> int \<Rightarrow> string option" where
  "sproto_protoname sp proto = (case query_proto sp proto of None \<Rightarrow> None | Some p \<Rightarrow> pr_name p)"

primrec type_loop :: "sproto_type list \<Rightarrow> string \<Rightarrow> nat \<Rightarrow> nat option" where
  "type_loop [] name i = None"
| "type_loop (t # ts) name i = (if strcmp name (st_name t) = 0 then Some i else type_loop ts name (i + 1))"

definition sproto_type_find :: "sproto \<Rightarrow> string \<Rightarrow> nat option" where
  "sproto_type_find sp name = type_loop (sp_type sp) name 0"

definition sproto_name :: "sproto_type \<Rightarrow> string" where
  "sproto_name st = st_name st"


section \<open>An example\<close>

text \<open>A bundle with a type \<open>A\<close>, its field \<open>x\<close>, an integer with tag 0, and a protocol \<open>p\<close> with tag 5 and request \<open>A\<close>.\<close>

definition demo_bundle :: bytes where
  "demo_bundle =
     [2, 0, 0, 0, 0, 0,
      38, 0, 0, 0, 34, 0, 0, 0, 2, 0, 0, 0, 0, 0, 1, 0, 0, 0, 65,
      19, 0, 0, 0, 15, 0, 0, 0, 4, 0, 0, 0, 2, 0, 1, 0, 2, 0, 1, 0, 0, 0, 120,
      17, 0, 0, 0, 13, 0, 0, 0, 3, 0, 0, 0, 12, 0, 2, 0, 1, 0, 0, 0, 112]"

lemma demo_bundle_loads:
  "sproto_create (\<lambda>_. (0, 0)) demo_bundle =
     Some (Some \<lparr>sp_type = [\<lparr>st_name = ''A'', st_base = 0, st_maxn = 1,
         st_f = [\<lparr>fd_tag = 0, fd_type = 0, fd_name = ''x'', fd_st = None, fd_key = -1, fd_extra = 0\<rparr>]\<rparr>],
       sp_proto = [\<lparr>pr_name = Some ''p'', pr_tag = 5, pr_request = Some 0, pr_response = None, pr_confirm = 0\<rparr>]\<rparr>)"
  by code_simp

section \<open>What the loader accepts\<close>

lemma and_then_SomeD: "and_then r g = Some (Some y) \<Longrightarrow> \<exists>x. r = Some (Some x) \<and> g x = Some (Some y)"
  by (auto simp: and_then_def split: option.splits)

lemma and_then_SomeE:
  assumes "and_then r g = Some (Some y)"
  obtains x where "r = Some (Some x)" "g x = Some (Some y)"
  using and_then_SomeD [OF assms] that by blast

lemma toword_less: "toword data p = Some v \<Longrightarrow> v < 0x10000"
proof -
  assume "toword data p = Some v"
  then have "v = unat (data ! p) + 256 * unat (data ! (p + 1))" by (simp add: toword_def split: if_splits)
  then show ?thesis using unsigned_less [of "data ! p", where ?'a = nat] unsigned_less [of "data ! (p + 1)", where ?'a = nat] by simp
qed

definition field_ok :: "nat \<Rightarrow> field \<Rightarrow> bool" where
  "field_ok type_n f \<longleftrightarrow>
     0 \<le> fd_tag f \<and> fd_tag f < 0x7fff \<and> -1 \<le> fd_key f \<and>
     value_type f \<in> {SPROTO_TINTEGER, SPROTO_TBOOLEAN, SPROTO_TSTRING, SPROTO_TDOUBLE, SPROTO_TSTRUCT} \<and>
     (value_type f = SPROTO_TSTRUCT \<longleftrightarrow> fd_st f \<noteq> None) \<and> (\<forall>k. fd_st f = Some k \<longrightarrow> k < type_n)"

definition type_ok :: "nat \<Rightarrow> sproto_type \<Rightarrow> bool" where
  "type_ok type_n t \<longleftrightarrow> (\<forall>f \<in> set (st_f t). field_ok type_n f) \<and> (st_f t \<noteq> [] \<longrightarrow> type_layout (st_name t) (st_f t) = Some t)"

definition protocol_ok :: "nat \<Rightarrow> protocol \<Rightarrow> bool" where
  "protocol_ok type_n p \<longleftrightarrow>
     pr_name p \<noteq> None \<and> 0 \<le> pr_tag p \<and> pr_tag p < 0x7fff \<and>
     (\<forall>k. pr_request p = Some k \<longrightarrow> k < type_n) \<and> (\<forall>k. pr_response p = Some k \<longrightarrow> k < type_n)"

definition schema_ok :: "sproto \<Rightarrow> bool" where
  "schema_ok s \<longleftrightarrow> (\<forall>t \<in> set (sp_type s). type_ok (length (sp_type s)) t) \<and> (\<forall>p \<in> set (sp_proto s). protocol_ok (length (sp_type s)) p)"

text \<open>A field while its records are read; \<open>tag\<close> is the tag of the last one.\<close>

definition field_inv :: "nat \<Rightarrow> int \<Rightarrow> field \<Rightarrow> bool" where
  "field_inv type_n tag f \<longleftrightarrow>
     fd_tag f < 0x7fff \<and> -1 \<le> fd_key f \<and>
     fd_type f \<in> {-1, SPROTO_TINTEGER, SPROTO_TBOOLEAN, SPROTO_TSTRING, SPROTO_TDOUBLE, SPROTO_TSTRUCT} \<and>
     (fd_type f = SPROTO_TSTRUCT \<longleftrightarrow> fd_st f \<noteq> None) \<and> (\<forall>k. fd_st f = Some k \<longrightarrow> k < type_n) \<and> (tag < 2 \<longrightarrow> fd_st f = None)"

lemma field_inv_mono: "field_inv type_n tag f \<Longrightarrow> tag \<le> tag' \<Longrightarrow> field_inv type_n tag' f"
  by (auto simp: field_inv_def)

lemma small_types: "n < 4 \<Longrightarrow> (of_nat n :: u32) \<in> {SPROTO_TINTEGER, SPROTO_TBOOLEAN, SPROTO_TSTRING, SPROTO_TDOUBLE}"
proof -
  assume "n < 4"
  then have "n = 0 \<or> n = 1 \<or> n = 2 \<or> n = 3" by auto
  then show ?thesis by (auto simp: sproto_types)
qed

lemma type_numbers: "(SPROTO_TSTRUCT :: u32) \<noteq> SPROTO_TINTEGER" "SPROTO_TSTRUCT \<noteq> SPROTO_TBOOLEAN" "SPROTO_TSTRUCT \<noteq> SPROTO_TSTRING" "SPROTO_TSTRUCT \<noteq> SPROTO_TDOUBLE"
  "sint SPROTO_TINTEGER = 0" "sint SPROTO_TBOOLEAN = 1" "sint SPROTO_TSTRING = 2" "sint SPROTO_TDOUBLE = 3" "sint SPROTO_TSTRUCT = 4"
  by (simp_all add: sproto_types)

lemma field_case_inv:
  assumes "field_case data type_n names tag val s = Some (Some s')" "field_inv type_n (tag - 1) (fi_f s)" "val < 0x10000"
  shows "field_inv type_n tag (fi_f s')"
proof -
  consider "tag = 0" | "tag = 1" | "tag = 2" | "tag = 3" | "tag = 4" | "tag = 5"
    using assms(1) by (auto simp: field_case_def Let_def bind_eq_Some_conv split: if_splits)
  then show ?thesis
  proof cases
    case 1
    then show ?thesis using assms by (auto simp: field_case_def bind_eq_Some_conv field_inv_def split: if_splits)
  next
    case 2
    then have s': "val div 2 - 1 < 4" "s' = s\<lparr>fi_f := (fi_f s)\<lparr>fd_type := of_nat (val div 2 - 1)\<rparr>\<rparr>"
      using assms(1) by (auto simp: field_case_def Let_def split: if_splits)
    then show ?thesis using small_types [OF s'(1)] assms(2) 2 type_numbers(1-4) by (auto simp: field_inv_def)
  next
    case 3
    then show ?thesis using assms(1,2) type_numbers by (auto simp: field_case_def Let_def field_inv_def split: if_splits)
  next
    case 4
    then have "s' = s\<lparr>fi_f := (fi_f s)\<lparr>fd_tag := int (val div 2 - 1)\<rparr>\<rparr>" using assms(1) by (auto simp: field_case_def Let_def split: if_splits)
    then show ?thesis using assms(2,3) 4 by (auto simp: field_inv_def)
  next
    case 5
    then show ?thesis using assms(1,2) by (auto simp: field_case_def Let_def field_inv_def split: if_splits)
  next
    case 6
    then have "s' = s\<lparr>fi_f := (fi_f s)\<lparr>fd_key := int (val div 2 - 1)\<rparr>\<rparr>" using assms(1) by (auto simp: field_case_def Let_def split: if_splits)
    then show ?thesis using assms(2) 6 by (auto simp: field_inv_def)
  qed
qed

lemma field_loop_inv:
  "field_loop data type_n names n stream tag s = Some (Some s') \<Longrightarrow> field_inv type_n tag (fi_f s) \<Longrightarrow> \<exists>tag'. field_inv type_n tag' (fi_f s')"
proof (induction n arbitrary: stream tag s)
  case (Suc n)
  obtain val where v: "toword data stream = Some val" using Suc.prems(1) by (auto simp: bind_eq_Some_conv Let_def)
  show ?case
  proof (cases "odd val")
    case True
    then have "field_loop data type_n names n (stream + 2) (tag + 1 + int (val div 2)) s = Some (Some s')" using Suc.prems(1) v by (simp add: Let_def)
    moreover have "field_inv type_n (tag + 1 + int (val div 2)) (fi_f s)" by (rule field_inv_mono [OF Suc.prems(2)]) simp
    ultimately show ?thesis by (rule Suc.IH)
  next
    case False
    then have "and_then (field_case data type_n names (tag + 1) val s) (field_loop data type_n names n (stream + 2) (tag + 1)) = Some (Some s')"
      using Suc.prems(1) v by (simp add: Let_def)
    then obtain s1 where s1: "field_case data type_n names (tag + 1) val s = Some (Some s1)" "field_loop data type_n names n (stream + 2) (tag + 1) s1 = Some (Some s')"
      by (rule and_then_SomeE)
    have "field_inv type_n (tag + 1) (fi_f s1)" using field_case_inv [OF s1(1) _ toword_less [OF v]] Suc.prems(2) by simp
    then show ?thesis using Suc.IH [OF s1(2)] by blast
  qed
qed auto

lemma field_types_array:
  assumes "t \<in> {SPROTO_TINTEGER, SPROTO_TBOOLEAN, SPROTO_TSTRING, SPROTO_TDOUBLE, SPROTO_TSTRUCT}"
  shows "(t OR (if a then SPROTO_TARRAY else 0)) AND NOT SPROTO_TARRAY = t"
  using assms by (auto simp: sproto_types)

lemma import_field_ok:
  assumes "import_field data type_n stream = Some (Some (f, q))"
  shows "field_ok type_n f"
proof -
  obtain fn s name where s: "field_loop data type_n (stream + 6 + 2 * fn) fn (stream + 6) (-1) field_init = Some (Some s)" "fi_name s = Some name"
    "\<not> (fd_tag (fi_f s) < 0 \<or> sint (fd_type (fi_f s)) < 0)"
    "f = (fi_f s)\<lparr>fd_name := name, fd_type := fd_type (fi_f s) OR (if fi_array s then SPROTO_TARRAY else 0)\<rparr>"
    using assms by (auto simp: import_field_def Let_def bind_eq_Some_conv dest!: and_then_SomeD split: option.splits if_splits)
  have "field_inv type_n (-1) (fi_f field_init)" by (simp add: field_inv_def field_init_def sproto_types)
  then obtain tag' where inv: "field_inv type_n tag' (fi_f s)" using field_loop_inv [OF s(1)] by blast
  have "fd_type (fi_f s) \<noteq> -1" using s(3) by auto
  then have t: "fd_type (fi_f s) \<in> {SPROTO_TINTEGER, SPROTO_TBOOLEAN, SPROTO_TSTRING, SPROTO_TDOUBLE, SPROTO_TSTRUCT}" using inv by (auto simp: field_inv_def)
  have "value_type f = fd_type (fi_f s)" using field_types_array [OF t, of "fi_array s"] by (simp add: s(4) value_type_def)
  then show ?thesis using inv t s(3) unfolding field_ok_def field_inv_def s(4) by auto
qed


lemma fields_loop_ok:
  assumes "fields_loop data type_n n stream lst maxn = Some (Some (fs, maxn'))"
  shows "length fs = n \<and> (\<forall>f \<in> set fs. field_ok type_n f) \<and> layout_loop lst maxn fs = Some maxn'"
  using assms
proof (induction n arbitrary: stream lst maxn fs)
  case (Suc n)
  obtain f q fs' where f: "import_field data type_n stream = Some (Some (f, q))" "\<not> fd_tag f \<le> lst" "fs = f # fs'"
    "fields_loop data type_n n q (fd_tag f) (if fd_tag f > lst + 1 then maxn + 1 else maxn) = Some (Some (fs', maxn'))"
    using Suc.prems by (auto dest!: and_then_SomeD split: if_splits)
  show ?case using Suc.IH [OF f(4)] import_field_ok [OF f(1)] f(2,3) by simp
qed simp

lemma import_fields_ok:
  assumes "import_fields stale data type_n name content = Some (Some t)"
  shows "type_ok type_n t"
proof -
  obtain n where n: "and_then (fields_loop data type_n n (content + 4) (-1) n)
     (\<lambda>(fs, maxn). let base = fst (end_tags stale fs)
        in Some (Some \<lparr>st_name = name, st_base = (if snd (end_tags stale fs) - base + 1 \<noteq> int n then -1 else base), st_maxn = maxn, st_f = fs\<rparr>)) = Some (Some t)"
    using assms unfolding import_fields_def by (rule and_then_SomeE)
  then obtain r where r: "fields_loop data type_n n (content + 4) (-1) n = Some (Some r)"
    "(\<lambda>(fs, maxn). let base = fst (end_tags stale fs)
        in Some (Some \<lparr>st_name = name, st_base = (if snd (end_tags stale fs) - base + 1 \<noteq> int n then -1 else base), st_maxn = maxn, st_f = fs\<rparr>)) r = Some (Some t)"
    by (rule and_then_SomeE)
  obtain fs maxn where "r = (fs, maxn)" by (cases r)
  then show ?thesis using fields_loop_ok [of data type_n n "content + 4" "-1" n fs maxn] r
    by (auto simp: type_ok_def type_layout_def end_tags_def Let_def)
qed

lemma import_type_ok:
  assumes "import_type stale data type_n stream = Some (Some (t, q))"
  shows "type_ok type_n t"
proof -
  obtain fn content where c: "type_content (stale stream) data type_n fn content = Some (Some t)"
    using assms by (auto simp: import_type_def bind_eq_Some_conv dest!: and_then_SomeD split: if_splits)
  show ?thesis
  proof (cases "fn = 1")
    case True
    then show ?thesis using c by (auto simp: type_content_def bind_eq_Some_conv type_ok_def)
  next
    case False
    then obtain name sz where "import_fields (stale stream) data type_n name (content + unat (sz + 4 :: u32)) = Some (Some t)"
      using c by (auto simp: type_content_def bind_eq_Some_conv)
    then show ?thesis by (rule import_fields_ok)
  qed
qed

lemma proto_loop_ok:
  assumes "proto_loop data type_n names n stream i p = Some (Some p')"
    "-1 \<le> pr_tag p" "pr_tag p < 0x7fff" "\<forall>k. pr_request p = Some k \<longrightarrow> k < type_n" "\<forall>k. pr_response p = Some k \<longrightarrow> k < type_n"
  shows "pr_tag p' < 0x7fff \<and> (\<forall>k. pr_request p' = Some k \<longrightarrow> k < type_n) \<and> (\<forall>k. pr_response p' = Some k \<longrightarrow> k < type_n)"
  using assms
proof (induction n arbitrary: stream i p)
  case (Suc n)
  obtain val where v: "toword data stream = Some val" using Suc.prems(1) by (auto simp: bind_eq_Some_conv)
  show ?case
  proof (cases "odd val")
    case True
    then have "proto_loop data type_n names n (stream + 2) (i + 1) p = Some (Some p')" using Suc.prems(1) v by simp
    then show ?thesis using Suc.prems(2-5) by (rule Suc.IH)
  next
    case False
    then have "and_then (proto_case data type_n names i (int (val div 2) - 1) p) (proto_loop data type_n names n (stream + 2) (i + 1)) = Some (Some p')"
      using Suc.prems(1) v by simp
    then obtain p1 where p1: "proto_case data type_n names i (int (val div 2) - 1) p = Some (Some p1)" "proto_loop data type_n names n (stream + 2) (i + 1) p1 = Some (Some p')"
      by (rule and_then_SomeE)
    have "-1 \<le> pr_tag p1 \<and> pr_tag p1 < 0x7fff \<and> (\<forall>k. pr_request p1 = Some k \<longrightarrow> k < type_n) \<and> (\<forall>k. pr_response p1 = Some k \<longrightarrow> k < type_n)"
      using p1(1) Suc.prems(2-5) toword_less [OF v] by (auto simp: proto_case_def bind_eq_Some_conv split: if_splits)
    then show ?thesis using Suc.IH [OF p1(2)] by blast
  qed
qed simp

lemma import_protocol_ok:
  assumes "import_protocol data type_n stream = Some (Some (p, q))"
  shows "protocol_ok type_n p"
proof -
  obtain fn where p: "proto_loop data type_n (stream + 6 + 2 * fn) fn (stream + 6) 0
    \<lparr>pr_name = None, pr_tag = -1, pr_request = None, pr_response = None, pr_confirm = 0\<rparr> = Some (Some p)" "\<not> (pr_name p = None \<or> pr_tag p < 0)"
    using assms by (auto simp: import_protocol_def Let_def bind_eq_Some_conv dest!: and_then_SomeD split: if_splits)
  show ?thesis using proto_loop_ok [OF p(1)] p(2) by (auto simp: protocol_ok_def)
qed

lemma import_all_ok:
  assumes "import_all imp n stream = Some (Some xs)" "\<And>p x q. imp p = Some (Some (x, q)) \<Longrightarrow> P x"
  shows "length xs = n \<and> (\<forall>x \<in> set xs. P x)"
  using assms(1)
proof (induction n arbitrary: stream xs)
  case (Suc n)
  obtain x q xs' where x: "imp stream = Some (Some (x, q))" "import_all imp n q = Some (Some xs')" "xs = x # xs'"
    using Suc.prems by (auto dest!: and_then_SomeD)
  show ?case using Suc.IH [OF x(2)] assms(2) [OF x(1)] x(3) by simp
qed simp

text \<open>
  C31. A schema that \<open>sproto_create\<close> accepts is well formed: every field has a tag below \<open>0x7fff\<close> and one of the five types, alone or as an
  array, and it refers to a type exactly when it is a structure, to one of the schema; the tags of a type ascend and its layout is the one
  the encoder and the decoder rely on; every protocol has a name and a tag, and its request and its response are types of the schema.
\<close>

theorem sproto_create_well_formed:
  assumes "sproto_create stale data = Some (Some s)"
  shows "schema_ok s"
proof -
  obtain fn where fn: "(if fn > 2 then Some None else and_then (bundle_loop data fn 2 (2 + 2 * fn))
      (\<lambda>parts. import_parts stale data (if parts = [] then (0, 0) else parts ! 0) (if length parts < 2 then (0, 0) else parts ! 1))) = Some (Some s)"
    using assms unfolding sproto_create_def create_from_bundle_def by (rule and_then_SomeE)
  then have "\<not> fn > 2" by auto
  then have "and_then (bundle_loop data fn 2 (2 + 2 * fn))
      (\<lambda>parts. import_parts stale data (if parts = [] then (0, 0) else parts ! 0) (if length parts < 2 then (0, 0) else parts ! 1)) = Some (Some s)"
    using fn by (simp only: if_False)
  then obtain p q where "import_parts stale data p q = Some (Some s)"
    by (rule and_then_SomeE) (rule that)
  then obtain types protos where l: "import_all (import_type stale data (fst p)) (fst p) (snd p) = Some (Some types)"
    "import_all (import_protocol data (fst p)) (fst q) (snd q) = Some (Some protos)" "s = \<lparr>sp_type = types, sp_proto = protos\<rparr>"
    by (auto simp: import_parts_def dest!: and_then_SomeD)
  show ?thesis
    using import_all_ok [OF l(1), of "type_ok (fst p)"] import_all_ok [OF l(2), of "protocol_ok (fst p)"] import_type_ok import_protocol_ok l(3)
    by (auto simp: schema_ok_def)
qed

theorem sproto_create_well_formed_witness: "\<exists>s. sproto_create (\<lambda>_. (0, 0)) demo_bundle = Some (Some s) \<and> schema_ok s"
proof -
  obtain s where s: "sproto_create (\<lambda>_. (0, 0)) demo_bundle = Some (Some s)" using demo_bundle_loads by blast
  from sproto_create_well_formed [OF s] s show ?thesis by blast
qed

end
