(* ===== verification/SprotoLoad.thy ===== *)
theory SprotoLoad
  imports SprotoSchema
begin

text \<open>
  The schema loader of sproto on any bundle: it reads the bundle only and returns, unless a length in it overflows; the queries find what
  was loaded.
\<close>

section \<open>The loader stays in the bundle and returns\<close>

text \<open>\<open>n\<close> pieces, each a length and that many bytes, from \<open>p\<close> to \<open>e\<close>.\<close>

primrec tiled :: "bytes \<Rightarrow> nat \<Rightarrow> nat \<Rightarrow> nat \<Rightarrow> bool" where
  "tiled data 0 p e \<longleftrightarrow> p = e"
| "tiled data (Suc n) p e \<longleftrightarrow> (\<exists>sz. todword data p = Some sz \<and> tiled data n (p + 4 + unat sz) e)"

lemma tiled_le: "tiled data n p e \<Longrightarrow> p \<le> e"
proof (induction n arbitrary: p)
  case (Suc n)
  then obtain sz :: u32 where "tiled data n (p + 4 + unat sz) e" by auto
  then show ?case using Suc.IH by fastforce
qed simp

lemma todword_bound: "todword data p = Some sz \<Longrightarrow> p + 4 \<le> length data"
  by (simp add: todword_def split: if_splits)

lemma no_wrap_add:
  assumes "no_wrap data" "todword data p = Some sz"
  shows "unat (sz + 4) = unat sz + 4" "unat (4 + sz) = unat sz + 4"
proof -
  have "p < length data" using todword_bound [OF assms(2)] by simp
  then have "sz < 0xfffffffc" using assms by (simp add: no_wrap_def)
  then show "unat (sz + 4) = unat sz + 4" by (subst unat_add_lem [THEN iffD1]) (simp_all add: word_less_nat_alt)
  then show "unat (4 + sz) = unat sz + 4" by (simp add: add.commute)
qed

lemma toword_inside: "p + 2 \<le> length data \<Longrightarrow> \<exists>v. toword data p = Some v"
  by (simp add: toword_def)

lemma count_loop_safe:
  assumes "no_wrap data" "p + unat len \<le> length data"
  shows "safe (\<lambda>k. \<exists>j. k = n + j \<and> tiled data j p (p + unat len)) (count_loop data p len n)"
  using assms(2)
proof (induction "unat len" arbitrary: p len n rule: less_induct)
  case less
  show ?case
  proof (cases "len = 0 \<or> len < 4")
    case True
    then show ?thesis by (subst count_loop.simps) (auto intro!: exI [of _ 0])
  next
    case False
    then have "4 \<le> unat len" by (simp add: word_less_nat_alt)
    then obtain nsz where nsz: "todword data p = Some nsz" using todword_inside [of p data] less.prems by auto
    note u = no_wrap_add [OF assms(1) nsz]
    show ?thesis
    proof (cases "nsz + 4 > len")
      case True
      then show ?thesis using False nsz by (subst count_loop.simps) simp
    next
      case le: False
      then have ul: "unat nsz + 4 \<le> unat len" using u by (simp add: word_less_nat_alt)
      have d: "unat (len - (nsz + 4)) = unat len - (unat nsz + 4)" using le u by (simp add: unat_sub not_less)
      have eq: "count_loop data p len n = count_loop data (p + (unat nsz + 4)) (len - (nsz + 4)) (n + 1)"
        using False nsz le u by (subst count_loop.simps) simp
      have e: "p + (unat nsz + 4) + unat (len - (nsz + 4)) = p + unat len" using ul unfolding d by simp
      have "safe (\<lambda>k. \<exists>j. k = n + 1 + j \<and> tiled data j (p + (unat nsz + 4)) (p + unat len))
          (count_loop data (p + (unat nsz + 4)) (len - (nsz + 4)) (n + 1))"
        using less.hyps [of "len - (nsz + 4)" "p + (unat nsz + 4)" "n + 1"] ul less.prems unfolding e d by simp
      then show ?thesis unfolding eq
      proof (rule safe_mono)
        fix k assume "\<exists>j. k = n + 1 + j \<and> tiled data j (p + (unat nsz + 4)) (p + unat len)"
        then obtain j where "k = n + Suc j" "tiled data (Suc j) p (p + unat len)" using nsz by (auto simp: add.assoc add.commute [of 4])
        then show "\<exists>j. k = n + j \<and> tiled data j p (p + unat len)" by blast
      qed
    qed
  qed
qed

lemma count_array_safe:
  assumes "no_wrap data" "todword data p = Some len" "p + 4 + unat len \<le> length data"
  shows "safe (\<lambda>n. tiled data n (p + 4) (p + 4 + unat len)) (count_array data p)"
  using count_loop_safe [OF assms(1), of "p + 4" len 0] assms(2,3) by (simp add: count_array_def)

text \<open>The data of the records that are 0, one after the other.\<close>

lemma struct_loop_safe:
  assumes "field + 2 * n \<le> length data" "stream + sz \<le> length data" "no_wrap data"
  shows "safe (\<lambda>_. True) (struct_loop data field n stream sz)"
  using assms(1,2)
proof (induction n arbitrary: field stream sz)
  case (Suc n)
  obtain v where v: "toword data field = Some v" using toword_inside [of field data] Suc.prems(1) by auto
  show ?case
  proof (cases "v \<noteq> 0 \<or> sz < 4")
    case True
    then show ?thesis using v Suc.IH [of "field + 2" stream sz] Suc.prems by auto
  next
    case False
    then obtain dsz where d: "todword data stream = Some dsz" using todword_inside [of stream data] Suc.prems(2) by auto
    then show ?thesis using v False no_wrap_add [OF assms(3) d] Suc.IH [of "field + 2" "stream + (unat dsz + 4)" "sz - (unat dsz + 4)"] Suc.prems by simp
  qed
qed simp

lemma struct_loop_chunk:
  assumes "struct_loop data field (Suc n) stream sz = Some (Some ())" "toword data field = Some 0" "no_wrap data"
  shows "\<exists>dsz. todword data stream = Some dsz \<and> unat dsz + 4 \<le> sz \<and> struct_loop data (field + 2) n (stream + 4 + unat dsz) (sz - (unat dsz + 4)) = Some (Some ())"
proof -
  obtain dsz where d: "todword data stream = Some dsz" "\<not> sz < unat (4 + dsz)"
    "struct_loop data (field + 2) n (stream + unat (4 + dsz)) (sz - unat (4 + dsz)) = Some (Some ())"
    using assms(1,2) by (auto simp: bind_eq_Some_conv split: if_splits)
  then show ?thesis using no_wrap_add [OF assms(3) d(1)] by (simp add: add.assoc add.commute [of 4])
qed

lemma struct_field_safe:
  assumes "stream + sz \<le> length data" "no_wrap data"
  shows "safe (\<lambda>fn. 2 + 2 * fn \<le> sz \<and> struct_loop data (stream + 2) fn (stream + 2 + 2 * fn) (sz - (2 + 2 * fn)) = Some (Some ())) (struct_field data stream sz)"
proof (cases "sz < 4")
  case False
  then obtain fn where fn: "toword data stream = Some fn" using toword_inside [of stream data] assms(1) by auto
  show ?thesis
  proof (cases "sz < 2 + 2 * fn")
    case le: False
    have "safe (\<lambda>_. True) (struct_loop data (stream + 2) fn (stream + 2 + 2 * fn) (sz - (2 + 2 * fn)))"
      by (rule struct_loop_safe) (use le assms in simp_all)
    then consider "struct_loop data (stream + 2) fn (stream + 2 + 2 * fn) (sz - (2 + 2 * fn)) = Some None"
      | "struct_loop data (stream + 2) fn (stream + 2 + 2 * fn) (sz - (2 + 2 * fn)) = Some (Some ())"
      by (auto simp: safe_def split: option.splits)
    then show ?thesis using False fn le by cases (simp_all add: struct_field_def and_then_def)
  qed (use False fn in \<open>simp add: struct_field_def\<close>)
qed (simp add: struct_field_def)

lemma import_string_inside: "todword data p = Some sz \<Longrightarrow> p + 4 + unat sz \<le> length data \<Longrightarrow> \<exists>name. import_string data p = Some name"
  by (simp add: import_string_def)

lemma field_loop_safe:
  assumes "stream + 2 * n \<le> length data" "-1 \<le> tag" "tag = -1 \<and> 0 < n \<and> toword data stream = Some 0 \<Longrightarrow> \<exists>name. import_string data names = Some name"
  shows "safe (\<lambda>_. True) (field_loop data type_n names n stream tag s)"
  using assms
proof (induction n arbitrary: stream tag s)
  case (Suc n)
  obtain v where v: "toword data stream = Some v" using toword_inside [of stream data] Suc.prems(1) by auto
  show ?case
  proof (cases "odd v")
    case True
    then show ?thesis using v Suc.IH [of "stream + 2" "tag + 1 + int (v div 2)" s] Suc.prems(1,2) by (simp add: Let_def)
  next
    case False
    have "safe (\<lambda>_. True) (field_case data type_n names (tag + 1) v s)"
      using Suc.prems(2,3) v by (auto simp: field_case_def Let_def)
    then have "safe (\<lambda>_. True) (and_then (field_case data type_n names (tag + 1) v s) (field_loop data type_n names n (stream + 2) (tag + 1)))"
      by (rule safe_and_then) (rule Suc.IH, use Suc.prems(1,2) in auto)
    then show ?thesis using v False by (simp add: Let_def)
  qed
qed simp

lemma import_field_safe:
  assumes "no_wrap data" "todword data p = Some sz" "p + 4 + unat sz \<le> length data"
  shows "safe (\<lambda>(f, q). q = p + 4 + unat sz) (import_field data type_n p)"
proof -
  have fields: "safe (\<lambda>_. True) (field_loop data type_n (p + 6 + 2 * fn) fn (p + 6) (-1) field_init)"
    if "2 + 2 * fn \<le> unat sz" "struct_loop data (p + 6) fn (p + 6 + 2 * fn) (unat sz - (2 + 2 * fn)) = Some (Some ())" for fn
  proof -
    note h = that
    show ?thesis
    proof (rule field_loop_safe)
    show "p + 6 + 2 * fn \<le> length data" using h(1) assms(3) by simp
    assume first: "(-1 :: int) = -1 \<and> 0 < fn \<and> toword data (p + 6) = Some 0"
    then obtain n where n: "fn = Suc n" by (cases fn) auto
    obtain dsz where d: "todword data (p + 6 + 2 * fn) = Some dsz" "unat dsz + 4 \<le> unat sz - (2 + 2 * fn)"
      using struct_loop_chunk [OF h(2) [unfolded n] _ assms(1)] first n by auto
    show "\<exists>name. import_string data (p + 6 + 2 * fn) = Some name"
      by (rule import_string_inside [OF d(1)]) (use d(2) h(1) assms(3) in simp)
    qed simp
  qed
  let ?fields = "\<lambda>fn. and_then (field_loop data type_n (p + 6 + 2 * fn) fn (p + 6) (-1) field_init)
         (\<lambda>s. case fi_name s of
                None \<Rightarrow> Some None
              | Some name \<Rightarrow>
                  if fd_tag (fi_f s) < 0 \<or> sint (fd_type (fi_f s)) < 0 then Some None
                  else Some (Some ((fi_f s)\<lparr>fd_name := name, fd_type := fd_type (fi_f s) OR (if fi_array s then SPROTO_TARRAY else 0)\<rparr>, p + 4 + unat sz)))"
  have "import_field data type_n p = and_then (struct_field data (p + 4) (unat sz)) ?fields"
    using assms(2) by (simp add: import_field_def Let_def)
  moreover have "safe (\<lambda>(f, q). q = p + 4 + unat sz) (and_then (struct_field data (p + 4) (unat sz)) ?fields)"
  proof (rule safe_and_then [OF struct_field_safe [OF assms(3) assms(1)]])
    fix fn assume "2 + 2 * fn \<le> unat sz \<and> struct_loop data (p + 4 + 2) fn (p + 4 + 2 + 2 * fn) (unat sz - (2 + 2 * fn)) = Some (Some ())"
    then have "safe (\<lambda>_. True) (field_loop data type_n (p + 6 + 2 * fn) fn (p + 6) (-1) field_init)" using fields [of fn] by (simp add: add.commute [of 6 p])
    then show "safe (\<lambda>(f, q). q = p + 4 + unat sz) (?fields fn)"
      by (rule safe_and_then) (auto split: option.splits)
  qed
  ultimately show ?thesis by simp
qed

lemma fields_loop_safe:
  assumes "no_wrap data" "tiled data n p e" "e \<le> length data"
  shows "safe (\<lambda>_. True) (fields_loop data type_n n p lst maxn)"
  using assms(2)
proof (induction n arbitrary: p lst maxn)
  case (Suc n)
  obtain sz where sz: "todword data p = Some sz" "tiled data n (p + 4 + unat sz) e" using Suc.prems by auto
  have "p + 4 + unat sz \<le> length data" using tiled_le [OF sz(2)] assms(3) by simp
  note f = import_field_safe [OF assms(1) sz(1) this, of type_n]
  show ?case unfolding fields_loop.simps
  proof (rule safe_and_then [OF f])
    fix x :: "field \<times> nat"
    assume x: "case x of (f, q) \<Rightarrow> q = p + 4 + unat sz"
    obtain f q where [simp]: "x = (f, q)" by (cases x)
    have "safe (\<lambda>_. True) (and_then (fields_loop data type_n n q (fd_tag f) m) (\<lambda>(fs, maxn). Some (Some (f # fs, maxn))))" for m
      by (rule safe_and_then [OF Suc.IH]) (use x sz(2) in auto)
    then show "safe (\<lambda>_. True) (case x of (f, stream) \<Rightarrow> if fd_tag f \<le> lst then Some None
        else and_then (fields_loop data type_n n stream (fd_tag f) (if fd_tag f > lst + 1 then maxn + 1 else maxn)) (\<lambda>(fs, maxn). Some (Some (f # fs, maxn))))"
      by simp
  qed
qed simp

lemma zeros_inside: "p + 2 * n \<le> length data \<Longrightarrow> \<exists>z. zeros data n p = Some z \<and> (z \<longrightarrow> (\<forall>i < n. toword data (p + 2 * i) = Some 0))"
proof (induction n arbitrary: p)
  case (Suc n)
  obtain v where v: "toword data p = Some v" using toword_inside [of p data] Suc.prems by auto
  obtain z where z: "zeros data n (p + 2) = Some z" "z \<longrightarrow> (\<forall>i < n. toword data (p + 2 + 2 * i) = Some 0)" using Suc.IH [of "p + 2"] Suc.prems by auto
  have "z \<and> v = 0 \<longrightarrow> toword data (p + 2 * i) = Some 0" if "i < Suc n" for i
    using that z(2) v by (cases i) auto
  then show ?case using v z(1) by auto
qed auto

lemma import_type_safe:
  assumes "no_wrap data" "todword data p = Some sz" "p + 4 + unat sz \<le> length data"
  shows "safe (\<lambda>(t, q). q = p + 4 + unat sz) (import_type stale data type_n p)"
proof -
  have content: "safe (\<lambda>_. True) (type_content (stale p) data type_n fn (p + 6 + 2 * fn))"
    if h: "2 + 2 * fn \<le> unat sz" "struct_loop data (p + 6) fn (p + 6 + 2 * fn) (unat sz - (2 + 2 * fn)) = Some (Some ())"
      "fn = 1 \<or> fn = 2" "\<forall>i < fn. toword data (p + 6 + 2 * i) = Some 0" for fn
  proof -
    obtain n where n: "fn = Suc n" "n = 0 \<or> n = 1" using h(3) by auto
    define c where "c = p + 6 + 2 * fn"
    have "toword data (p + 6) = Some 0" using h(4) n(1) by auto
    then obtain dsz where d: "todword data c = Some dsz" "unat dsz + 4 \<le> unat sz - (2 + 2 * fn)"
      "struct_loop data (p + 6 + 2) n (c + 4 + unat dsz) (unat sz - (2 + 2 * fn) - (unat dsz + 4)) = Some (Some ())"
      using struct_loop_chunk [OF h(2) [unfolded n(1)] _ assms(1)] unfolding c_def n(1) by blast
    obtain name where name: "import_string data c = Some name"
    proof -
      have "c + 4 + unat dsz \<le> length data" unfolding c_def using d(2) h(1) assms(3) by linarith
      from import_string_inside [OF d(1) this] show ?thesis using that by blast
    qed
    have "safe (\<lambda>_. True) (type_content (stale p) data type_n fn c)"
    proof (cases "n = 0")
      case True
      then show ?thesis using name n(1) by (simp add: type_content_def)
    next
      case False
      then have n2: "fn = 2" "n = Suc 0" using n by auto
      have "toword data (p + 6 + 2 * 1) = Some 0" using h(4) [rule_format, of 1] n2(1) by simp
      then obtain len where len: "todword data (c + 4 + unat dsz) = Some len" "unat len + 4 \<le> unat sz - (2 + 2 * fn) - (unat dsz + 4)"
        using struct_loop_chunk [OF d(3) [unfolded n2(2)] _ assms(1)] by auto
      have inside: "c + 4 + unat dsz + 4 + unat len \<le> length data" using len(2) d(2) h(1) assms(3) by (simp add: c_def)
      have "safe (\<lambda>_. True) (import_fields (stale p) data type_n name (c + 4 + unat dsz))"
        unfolding import_fields_def
        by (rule safe_and_then [OF count_array_safe [OF assms(1) len(1) inside]], rule safe_and_then [OF fields_loop_safe [OF assms(1) _ inside]])
          (auto simp: Let_def)
      then show ?thesis using name n2(1) d(1) no_wrap_add(1) [OF assms(1) d(1)]
        by (simp add: type_content_def add.assoc add.commute [of 4])
    qed
    then show ?thesis by (simp only: c_def)
  qed
  let ?rest = "\<lambda>fn. if fn = 0 \<or> fn > 2 then Some None
         else do {
           z \<leftarrow> zeros data fn (p + 6);
           if \<not> z then Some None
           else and_then (type_content (stale p) data type_n fn (p + 6 + 2 * fn)) (\<lambda>t. Some (Some (t, p + 4 + unat sz)))
         }"
  have "import_type stale data type_n p = and_then (struct_field data (p + 4) (unat sz)) ?rest"
    using assms(2) by (simp add: import_type_def)
  moreover have "safe (\<lambda>(t, q). q = p + 4 + unat sz) (and_then (struct_field data (p + 4) (unat sz)) ?rest)"
  proof (rule safe_and_then [OF struct_field_safe [OF assms(3) assms(1)]])
    fix fn assume "2 + 2 * fn \<le> unat sz \<and> struct_loop data (p + 4 + 2) fn (p + 4 + 2 + 2 * fn) (unat sz - (2 + 2 * fn)) = Some (Some ())"
    then have s: "2 + 2 * fn \<le> unat sz" "struct_loop data (p + 6) fn (p + 6 + 2 * fn) (unat sz - (2 + 2 * fn)) = Some (Some ())" by (simp_all add: add.commute [of 6 p])
    have "p + 6 + 2 * fn \<le> length data" using s(1) assms(3) by simp
    then obtain z where z: "zeros data fn (p + 6) = Some z" "z \<longrightarrow> (\<forall>i < fn. toword data (p + 6 + 2 * i) = Some 0)" using zeros_inside by blast
    show "safe (\<lambda>(t, q). q = p + 4 + unat sz) (?rest fn)"
    proof (cases "(fn = 1 \<or> fn = 2) \<and> z")
      case True
      then have "safe (\<lambda>_. True) (type_content (stale p) data type_n fn (p + 6 + 2 * fn))" using content [OF s] z(2) by blast
      then have "safe (\<lambda>(t, q). q = p + 4 + unat sz) (and_then (type_content (stale p) data type_n fn (p + 6 + 2 * fn)) (\<lambda>t. Some (Some (t, p + 4 + unat sz))))"
        by (rule safe_and_then) simp
      then show ?thesis using True z(1) by auto
    next
      case False
      then show ?thesis using z(1) by auto
    qed
  qed
  ultimately show ?thesis by simp
qed


lemma import_protocol_safe:
  assumes "no_wrap data" "todword data p = Some sz" "p + 4 + unat sz \<le> length data"
  shows "safe (\<lambda>(x, q). q = p + 4 + unat sz) (import_protocol data type_n p)"
proof -
  have protos: "safe (\<lambda>_. True) (proto_loop data type_n names n stream i x)"
    if "stream + 2 * n \<le> length data" "i = 0 \<and> 0 < n \<and> toword data stream = Some 0 \<longrightarrow> (\<exists>name. import_string data names = Some name)" for names n stream i x
    using that
  proof (induction n arbitrary: stream i x)
    case (Suc n)
    obtain v where v: "toword data stream = Some v" using toword_inside [of stream data] Suc.prems(1) by auto
    have later: "safe (\<lambda>_. True) (proto_loop data type_n names n (stream + 2) (i + 1) y)" for y by (rule Suc.IH) (use Suc.prems(1) in auto)
    show ?case
    proof (cases "odd v")
      case False
      have "safe (\<lambda>_. True) (proto_case data type_n names i (int (v div 2) - 1) x)"
      proof (cases "i = 0 \<and> int (v div 2) - 1 = -1")
        case True
        then have "v = 0" using False by auto
        then show ?thesis using True Suc.prems(2) v by (auto simp: proto_case_def)
      qed (auto simp: proto_case_def)
      then have "safe (\<lambda>_. True) (and_then (proto_case data type_n names i (int (v div 2) - 1) x) (proto_loop data type_n names n (stream + 2) (i + 1)))"
        by (rule safe_and_then) (rule later)
      then show ?thesis using v False by simp
    qed (use v later in simp)
  qed simp
  let ?rest = "\<lambda>fn. and_then
         (proto_loop data type_n (p + 6 + 2 * fn) fn (p + 6) 0
           \<lparr>pr_name = None, pr_tag = -1, pr_request = None, pr_response = None, pr_confirm = 0\<rparr>)
         (\<lambda>x. if pr_name x = None \<or> pr_tag x < 0 then Some None else Some (Some (x, p + 4 + unat sz)))"
  have "import_protocol data type_n p = and_then (struct_field data (p + 4) (unat sz)) ?rest" using assms(2) by (simp add: import_protocol_def Let_def)
  moreover have "safe (\<lambda>(x, q). q = p + 4 + unat sz) (and_then (struct_field data (p + 4) (unat sz)) ?rest)"
  proof (rule safe_and_then [OF struct_field_safe [OF assms(3) assms(1)]])
    fix fn assume s: "2 + 2 * fn \<le> unat sz \<and> struct_loop data (p + 4 + 2) fn (p + 4 + 2 + 2 * fn) (unat sz - (2 + 2 * fn)) = Some (Some ())"
    have "safe (\<lambda>_. True) (proto_loop data type_n (p + 6 + 2 * fn) fn (p + 6) 0 x)" for x
    proof (rule protos, use s assms(3) in simp, intro impI)
      assume "0 = (0 :: nat) \<and> 0 < fn \<and> toword data (p + 6) = Some 0"
      then have first: "toword data (p + 4 + 2) = Some 0" "0 < fn" by (simp_all add: add.commute [of 6 p])
      obtain n where n: "fn = Suc n" using first(2) by (cases fn) auto
      have loop: "struct_loop data (p + 4 + 2) (Suc n) (p + 4 + 2 + 2 * fn) (unat sz - (2 + 2 * fn)) = Some (Some ())" using s n by simp
      obtain dsz where d: "todword data (p + 4 + 2 + 2 * fn) = Some dsz" "unat dsz + 4 \<le> unat sz - (2 + 2 * fn)"
        using struct_loop_chunk [OF loop first(1) assms(1)] by blast
      have "p + 4 + 2 + 2 * fn + 4 + unat dsz \<le> length data" using d(2) s assms(3) by linarith
      from import_string_inside [OF d(1) this] show "\<exists>name. import_string data (p + 6 + 2 * fn) = Some name" by (simp add: add.commute [of 6 p])
    qed
    then show "safe (\<lambda>(x, q). q = p + 4 + unat sz) (?rest fn)" by (rule safe_and_then) simp
  qed
  ultimately show ?thesis by simp
qed

text \<open>A reader of one element of a list: it reads inside the element and leaves the pointer behind it.\<close>

locale element_reader =
  fixes imp :: "bytes \<Rightarrow> nat \<Rightarrow> ('a \<times> nat) option option"
  assumes reads_element:
    "no_wrap data \<Longrightarrow> todword data p = Some sz \<Longrightarrow> p + 4 + unat sz \<le> length data \<Longrightarrow> safe (\<lambda>(x, q). q = p + 4 + unat sz) (imp data p)"
begin

lemma import_all_safe:
  assumes "no_wrap data" "tiled data n p e" "e \<le> length data"
  shows "safe (\<lambda>_. True) (import_all (imp data) n p)"
  using assms(2)
proof (induction n arbitrary: p)
  case (Suc n)
  obtain sz where sz: "todword data p = Some sz" "tiled data n (p + 4 + unat sz) e" using Suc.prems by auto
  have "p + 4 + unat sz \<le> length data" using tiled_le [OF sz(2)] assms(3) by simp
  from reads_element [OF assms(1) sz(1) this] show ?case unfolding import_all.simps
  proof (rule safe_and_then)
    fix x :: "'a \<times> nat" assume "case x of (x, q) \<Rightarrow> q = p + 4 + unat sz"
    then obtain y where x: "x = (y, p + 4 + unat sz)" by (cases x) auto
    have "safe (\<lambda>_. True) (and_then (import_all (imp data) n (p + 4 + unat sz)) (\<lambda>xs. Some (Some (y # xs))))"
      by (rule safe_and_then [OF Suc.IH [OF sz(2)]]) simp
    then show "safe (\<lambda>_. True) (case x of (x, stream) \<Rightarrow> and_then (import_all (imp data) n stream) (\<lambda>xs. Some (Some (x # xs))))" unfolding x by simp
  qed
qed simp

end

interpretation type_reader: element_reader "\<lambda>data. import_type stale data type_n" for stale type_n
  by unfold_locales (rule import_type_safe)

interpretation protocol_reader: element_reader "\<lambda>data. import_protocol data type_n" for type_n
  by unfold_locales (rule import_protocol_safe)

abbreviation part_ok :: "bytes \<Rightarrow> nat \<times> nat \<Rightarrow> bool" where
  "part_ok data part \<equiv> \<exists>e \<le> length data. tiled data (fst part) (snd part) e"

lemma bundle_loop_safe:
  assumes "stream + 2 * n \<le> length data" "struct_loop data stream n content sz = Some (Some ())" "content + sz \<le> length data" "no_wrap data"
  shows "safe (\<lambda>parts. \<forall>part \<in> set parts. part_ok data part) (bundle_loop data n stream content)"
  using assms(1-3)
proof (induction n arbitrary: stream content sz)
  case (Suc n)
  obtain v where v: "toword data stream = Some v" using toword_inside [of stream data] Suc.prems(1) by auto
  show ?case
  proof (cases "v = 0")
    case True
    obtain dsz where d: "todword data content = Some dsz" "unat dsz + 4 \<le> sz"
      "struct_loop data (stream + 2) n (content + 4 + unat dsz) (sz - (unat dsz + 4)) = Some (Some ())"
      using struct_loop_chunk [OF Suc.prems(2) v [unfolded True] assms(4)] by blast
    have inside: "content + 4 + unat dsz \<le> length data" "content + 4 + unat dsz + (sz - (unat dsz + 4)) \<le> length data" using d(2) Suc.prems(3) by linarith+
    have later: "safe (\<lambda>parts. \<forall>part \<in> set parts. part_ok data part) (bundle_loop data n (stream + 2) (content + 4 + unat dsz))"
      by (rule Suc.IH [OF _ d(3) inside(2)]) (use Suc.prems(1) in simp)
    let ?rest = "\<lambda>k. and_then (bundle_loop data n (stream + 2) (content + 4 + unat dsz)) (\<lambda>rest. Some (Some ((k, content + 4) # rest)))"
    have "safe (\<lambda>parts. \<forall>part \<in> set parts. part_ok data part) (and_then (count_array data content) ?rest)"
    proof (rule safe_and_then [OF count_array_safe [OF assms(4) d(1) inside(1)]])
      fix k assume "tiled data k (content + 4) (content + 4 + unat dsz)"
      then have "part_ok data (k, content + 4)" using inside(1) by auto
      then show "safe (\<lambda>parts. \<forall>part \<in> set parts. part_ok data part) (?rest k)"
        by (intro safe_and_then [OF later]) simp
    qed
    moreover have "bundle_loop data (Suc n) stream content = and_then (count_array data content) ?rest"
      using v True d(1) no_wrap_add(1) [OF assms(4) d(1)] by (simp add: add.assoc add.commute [of 4])
    ultimately show ?thesis by simp
  qed (use v in simp)
qed simp


lemma demo_bundle_no_wrap: "no_wrap demo_bundle"
  unfolding decide_no_wrap by code_simp


section \<open>Lengths that overflow\<close>

text \<open>A list of one element, of \<open>0xfffffffc\<close> bytes: with its own 4 bytes its size is 0.\<close>

definition endless_bundle :: bytes where
  "endless_bundle = [1, 0, 0, 0, 4, 0, 0, 0, 0xfc, 0xff, 0xff, 0xff]"

lemma endless_element: "todword endless_bundle 8 = Some 0xfffffffc"
  by (simp add: endless_bundle_def todword_def of_le32_def)

lemma wrapped: "(- 4294967292 :: u32) = 4" "0xfffffffc + 4 = (0 :: u32)"
  by (simp_all add: word_eq_iff_unsigned)

lemma endless_count: "count_loop endless_bundle 8 4 n = count_loop endless_bundle 8 4 (n + 1)"
  by (subst count_loop.simps) (simp add: endless_element wrapped)

lemma count_loop_not_endless: "count_loop data p len k = Some r \<Longrightarrow> \<not> (data = endless_bundle \<and> p = 8 \<and> len = 4)"
proof (rule count_loop.raw_induct [where P = "\<lambda>data p len k r. \<not> (data = endless_bundle \<and> p = 8 \<and> len = 4)"])
  fix count_loop :: "bytes \<Rightarrow> nat \<Rightarrow> u32 \<Rightarrow> nat \<Rightarrow> nat option option" and data p len k r
  assume IH: "\<And>data p len k r. count_loop data p len k = Some r \<Longrightarrow> \<not> (data = endless_bundle \<and> p = 8 \<and> len = 4)"
    and step: "(if len = 0 then Some (Some k) else if len < 4 then Some None
      else (case todword data p of None \<Rightarrow> None | Some nsz \<Rightarrow>
        if len < nsz + 4 then Some None else count_loop data (p + unat (nsz + 4)) (len - (nsz + 4)) (k + 1))) = Some r"
  show "\<not> (data = endless_bundle \<and> p = 8 \<and> len = 4)"
  proof
    assume "data = endless_bundle \<and> p = 8 \<and> len = 4"
    then have "count_loop endless_bundle 8 4 (k + 1) = Some r" using step by (simp add: endless_element wrapped)
    then show False using IH by blast
  qed
qed

lemma count_loop_endless: "count_loop endless_bundle 8 4 n = None"
  using count_loop_not_endless by (cases "count_loop endless_bundle 8 4 n") blast+


section \<open>Queries and powers\<close>

lemma calc_pow_power: "calc_pow base n = base ^ n"
proof (induction base n rule: calc_pow.induct)
  case (1 base n)
  show ?case
  proof (cases "n = 0")
    case False
    have e: "base ^ n = (base * base) ^ (n div 2) * (if odd n then base else 1)"
    proof -
      have "n = 2 * (n div 2) + (if odd n then 1 else 0)" by (auto elim: oddE)
      then have "base ^ n = base ^ (2 * (n div 2)) * base ^ (if odd n then 1 else 0)" by (metis power_add)
      then show ?thesis by (simp add: power_mult power2_eq_square split: if_splits)
    qed
    show ?thesis using 1 [OF False] False e by (subst calc_pow.simps) (simp add: Let_def)
  qed (subst calc_pow.simps, simp)
qed

lemma query_proto_find:
  assumes "sorted_wrt (<) (map pr_tag (sp_proto sp))"
  shows "query_proto sp tag = find (\<lambda>p. pr_tag p = tag) (sp_proto sp)"
  using bisect_find [OF assms order_refl, of tag 0] find_index [where P = "\<lambda>p. pr_tag p = tag" and xs = "sp_proto sp"]
  by (simp add: query_proto_def)

lemma sproto_protoname_find:
  assumes "sorted_wrt (<) (map pr_tag (sp_proto sp))" "p \<in> set (sp_proto sp)"
  shows "sproto_protoname sp (pr_tag p) = pr_name p"
proof -
  obtain i where i: "i < length (sp_proto sp)" "sp_proto sp ! i = p" using assms(2) by (auto simp: in_set_conv_nth)
  have "find (\<lambda>q. pr_tag q = pr_tag p) (sp_proto sp) = Some p"
  proof (subst find_Some_iff, intro exI conjI)
    show "i < length (sp_proto sp)" "pr_tag (sp_proto sp ! i) = pr_tag p" "p = sp_proto sp ! i" using i by auto
    show "\<forall>j<i. pr_tag (sp_proto sp ! j) \<noteq> pr_tag p" using assms(1) i by (fastforce simp: sorted_wrt_iff_nth_less)
  qed
  then show ?thesis using query_proto_find [OF assms(1)] by (simp add: sproto_protoname_def)
qed

end
