(* ===== verification/Cluster.thy ===== *)
theory Cluster
  imports Cstr Framing
begin

text \<open>
  The messages between the nodes of a cluster (\<open>lualib-src/lua-cluster.c\<close>): requests and responses are packed into frames with a 2-byte
  length; one of 32K or more is announced by its size and sent in parts. The receiver unpacks the content of each frame and joins
  the parts. A message is a list of bytes, its \<open>sz\<close> the length of the list. \<open>None\<close> is a failed assertion or a read outside the
  message, \<open>Inl\<close> a Lua error.
\<close>

section \<open>Packing\<close>

definition MULTI_PART :: nat where "MULTI_PART = 0x8000"

text \<open>What the Lua API shows of an address: a number, a string, or neither.\<close>

datatype lua_address = LNumber int | LString bytes | LOther

datatype cluster_error =
    Invalid_request_message
  | Invalid_request_session int
  | Name_not_string
  | Name_too_long bytes
  | Trace_too_long int
  | Invalid_cluster_message int
  | Invalid_multi_size int
  | Invalid_multi_part
  | Invalid_package_type int
  | Need_lightuserdata

definition fill_uint32 :: "u32 \<Rightarrow> bytes" where
  "fill_uint32 n = le32 n"

definition fill_header :: "nat \<Rightarrow> bytes option" where
  "fill_header sz = (if sz < 0x10000 then Some [of_nat (sz div 256), of_nat sz] else None)"

text \<open>The number of parts behind the first frame, 0 when there is only that frame.\<close>

definition parts_of :: "nat \<Rightarrow> nat" where
  "parts_of sz = (sz - 1) div MULTI_PART + 1"

definition packreq_number :: "int \<Rightarrow> int \<Rightarrow> bytes \<Rightarrow> bool \<Rightarrow> (bytes \<times> nat) option" where
  "packreq_number addr session msg is_push =
     (if length msg < MULTI_PART then do {
        header \<leftarrow> fill_header (length msg + 9);
        Some (header @ [0] @ fill_uint32 (of_int addr) @ fill_uint32 (if is_push then 0 else of_int session) @ msg, 0)
      }
      else do {
        header \<leftarrow> fill_header 13;
        Some (header @ [if is_push then 0x41 else 1] @ fill_uint32 (of_int addr) @ fill_uint32 (of_int session) @ fill_uint32 (of_nat (length msg)),
          parts_of (length msg))
      })"

definition packreq_string :: "lua_address \<Rightarrow> int \<Rightarrow> bytes \<Rightarrow> bool \<Rightarrow> (cluster_error + bytes \<times> nat) option" where
  "packreq_string addr session msg is_push =
     (case addr of
        LString name \<Rightarrow>
          if length name < 1 \<or> length name > 255 then Some (Inl (Name_too_long name))
          else if length msg < MULTI_PART then do {
            header \<leftarrow> fill_header (length msg + 6 + length name);
            Some (Inr (header @ [0x80, of_nat (length name)] @ name @ fill_uint32 (if is_push then 0 else of_int session) @ msg, 0))
          }
          else do {
            header \<leftarrow> fill_header (10 + length name);
            Some (Inr (header @ [if is_push then 0xc1 else 0x81, of_nat (length name)] @ name @ fill_uint32 (of_int session) @
              fill_uint32 (of_nat (length msg)), parts_of (length msg)))
          }
      | _ \<Rightarrow> Some (Inl Name_not_string))"

text \<open>The frames of the parts; \<open>n\<close> of them are left.\<close>

primrec multi_loop :: "int \<Rightarrow> bytes \<Rightarrow> nat \<Rightarrow> bytes list option" where
  "multi_loop session msg 0 = Some []"
| "multi_loop session msg (Suc n) =
     (let more_parts = length msg > MULTI_PART; s = (if more_parts then MULTI_PART else length msg)
      in do {
        header \<leftarrow> fill_header (s + 5);
        rest \<leftarrow> multi_loop session (drop s msg) n;
        Some ((header @ [if more_parts then 2 else 3] @ fill_uint32 (of_int session) @ take s msg) # rest)
      })"

definition packreq_multi :: "int \<Rightarrow> bytes \<Rightarrow> bytes list option" where
  "packreq_multi session msg = multi_loop session msg (parts_of (length msg))"

definition next_session :: "int \<Rightarrow> int" where
  "next_session session = (if session + 1 > 0x7fffffff then 1 else session + 1)"

text \<open>The first frame, the next session and the frames of the parts, when there are parts.\<close>

definition packrequest :: "lua_address \<Rightarrow> int \<Rightarrow> bytes option \<Rightarrow> bool \<Rightarrow> (cluster_error + bytes \<times> int \<times> bytes list option) option" where
  "packrequest addr session message is_push =
     (case message of
        None \<Rightarrow> Some (Inl Invalid_request_message)
      | Some msg \<Rightarrow>
          let session = to_int session in
          if session \<le> 0 then Some (Inl (Invalid_request_session session))
          else do {
            r \<leftarrow> (case addr of LNumber n \<Rightarrow> map_option Inr (packreq_number n session msg is_push) | _ \<Rightarrow> packreq_string addr session msg is_push);
            case r of
              Inl e \<Rightarrow> Some (Inl e)
            | Inr (first, multipak) \<Rightarrow>
                if multipak \<noteq> 0 then map_option (\<lambda>parts. Inr (first, next_session session, Some parts)) (packreq_multi session msg)
                else Some (Inr (first, next_session session, None))
          })"

definition lpackrequest :: "lua_address \<Rightarrow> int \<Rightarrow> bytes option \<Rightarrow> (cluster_error + bytes \<times> int \<times> bytes list option) option" where
  "lpackrequest addr session msg = packrequest addr session msg False"

definition lpackpush :: "lua_address \<Rightarrow> int \<Rightarrow> bytes option \<Rightarrow> (cluster_error + bytes \<times> int \<times> bytes list option) option" where
  "lpackpush addr session msg = packrequest addr session msg True"

definition lpacktrace :: "bytes \<Rightarrow> (cluster_error + bytes) option" where
  "lpacktrace tag =
     (if length tag > 0x8000 then Some (Inl (Trace_too_long (int (length tag))))
      else do { header \<leftarrow> fill_header (length tag + 1); Some (Inr (header @ [4] @ tag)) })"

section \<open>Unpacking\<close>

datatype cluster_addr = Addr u32 | Name bytes

datatype unpacked =
    Request cluster_addr u32 bytes bool
  | Multi cluster_addr u32 u32 bool
  | Part u32 bytes bool
  | Trace bytes

definition unpack_uint32 :: "bytes \<Rightarrow> nat \<Rightarrow> u32" where
  "unpack_uint32 buffer i = of_le32 (buffer ! i) (buffer ! (i + 1)) (buffer ! (i + 2)) (buffer ! (i + 3))"

definition unpackreq_number :: "bytes \<Rightarrow> cluster_error + unpacked" where
  "unpackreq_number buffer =
     (if length buffer < 9 then Inl (Invalid_cluster_message (int (length buffer)))
      else let session = unpack_uint32 buffer 5 in Inr (Request (Addr (unpack_uint32 buffer 1)) session (drop 9 buffer) (session = 0)))"

definition unpackmreq_number :: "bytes \<Rightarrow> bool \<Rightarrow> cluster_error + unpacked" where
  "unpackmreq_number buffer is_push =
     (if length buffer \<noteq> 13 then Inl (Invalid_multi_size (int (length buffer)))
      else Inr (Multi (Addr (unpack_uint32 buffer 1)) (unpack_uint32 buffer 5) (unpack_uint32 buffer 9) is_push))"

definition unpackmreq_part :: "bytes \<Rightarrow> cluster_error + unpacked" where
  "unpackmreq_part buffer =
     (if length buffer < 5 then Inl Invalid_multi_part else Inr (Part (unpack_uint32 buffer 1) (drop 5 buffer) (hd buffer = 2)))"

definition unpackreq_string :: "bytes \<Rightarrow> cluster_error + unpacked" where
  "unpackreq_string buffer =
     (if length buffer < 2 then Inl (Invalid_cluster_message (int (length buffer)))
      else
        (let namesz = unat (buffer ! 1)
         in if length buffer < namesz + 6 then Inl (Invalid_cluster_message (int (length buffer)))
            else
              (let session = unpack_uint32 buffer (namesz + 2)
               in Inr (Request (Name (take namesz (drop 2 buffer))) session (drop (namesz + 6) buffer) (session = 0)))))"

definition unpackmreq_string :: "bytes \<Rightarrow> bool \<Rightarrow> cluster_error + unpacked" where
  "unpackmreq_string buffer is_push =
     (if length buffer < 2 then Inl (Invalid_cluster_message (int (length buffer)))
      else
        (let namesz = unat (buffer ! 1)
         in if length buffer < namesz + 10 then Inl (Invalid_cluster_message (int (length buffer)))
            else Inr (Multi (Name (take namesz (drop 2 buffer))) (unpack_uint32 buffer (namesz + 2)) (unpack_uint32 buffer (namesz + 6)) is_push)))"

text \<open>An empty Lua string has a NUL behind it; behind an empty block of memory there is nothing to read.\<close>

definition lunpackrequest :: "bool \<Rightarrow> bytes \<Rightarrow> (cluster_error + unpacked) option" where
  "lunpackrequest lightuserdata msg =
     (if msg = [] \<and> lightuserdata then None
      else
        (let type = (if msg = [] then 0 else hd msg)
         in Some (if type = 0 then unpackreq_number msg
                  else if type = 1 then unpackmreq_number msg False
                  else if type = 0x41 then unpackmreq_number msg True
                  else if type = 2 \<or> type = 3 then unpackmreq_part msg
                  else if type = 4 then Inr (Trace (tl msg))
                  else if type = 0x80 then unpackreq_string msg
                  else if type = 0x81 then unpackmreq_string msg False
                  else if type = 0xc1 then unpackmreq_string msg True
                  else Inl (Invalid_package_type (sint type)))))"

section \<open>Responses\<close>

datatype packed = One bytes | Parts "bytes list"

primrec response_loop :: "u32 \<Rightarrow> bytes \<Rightarrow> nat \<Rightarrow> bytes list option" where
  "response_loop session msg 0 = Some []"
| "response_loop session msg (Suc n) =
     (let more_parts = length msg > MULTI_PART; s = (if more_parts then MULTI_PART else length msg)
      in do {
        header \<leftarrow> fill_header (s + 5);
        rest \<leftarrow> response_loop session (drop s msg) n;
        Some ((header @ fill_uint32 session @ [if more_parts then 3 else 4] @ take s msg) # rest)
      })"

definition lpackresponse :: "int \<Rightarrow> bool \<Rightarrow> bytes \<Rightarrow> packed option" where
  "lpackresponse session ok msg =
     (let msg = (if \<not> ok \<and> length msg > MULTI_PART then take MULTI_PART msg else msg)
      in if ok \<and> length msg > MULTI_PART then do {
           header \<leftarrow> fill_header 9;
           parts \<leftarrow> response_loop (of_int session) msg (parts_of (length msg));
           Some (Parts ((header @ fill_uint32 (of_int session) @ [2] @ fill_uint32 (of_nat (length msg))) # parts))
         }
         else do {
           header \<leftarrow> fill_header (length msg + 5);
           Some (One (header @ fill_uint32 (of_int session) @ [if ok then 1 else 0] @ msg))
         })"

datatype response =
    Whole bool bytes
  | Begin u32
  | Piece_of bytes

text \<open>The session and the response; nothing for a content that is no response.\<close>

definition lunpackresponse :: "bytes \<Rightarrow> (u32 \<times> response) option" where
  "lunpackresponse buffer =
     (if length buffer < 5 then None
      else
        (let session = unpack_uint32 buffer 0; type = buffer ! 4
         in if type = 0 then Some (session, Whole False (drop 5 buffer))
            else if type = 1 \<or> type = 4 then Some (session, Whole True (drop 5 buffer))
            else if type = 2 then if length buffer \<noteq> 9 then None else Some (session, Begin (unpack_uint32 buffer 5))
            else if type = 3 then Some (session, Piece_of (drop 5 buffer))
            else None))"

section \<open>Joining parts\<close>

text \<open>The table of the parts of a message: its size, then the parts.\<close>

datatype cell = Size int | Piece bytes

datatype lua_buffer = Nil_buffer | Memory bytes | No_memory

definition lappend :: "cell list \<Rightarrow> lua_buffer \<Rightarrow> int \<Rightarrow> cluster_error + cell list" where
  "lappend t buffer sz =
     (case buffer of
        Nil_buffer \<Rightarrow> Inr (t @ [Size sz])
      | No_memory \<Rightarrow> Inl Need_lightuserdata
      | Memory b \<Rightarrow> Inr (t @ [Piece b]))"

primrec concat_loop :: "nat \<Rightarrow> bytes \<Rightarrow> cell list \<Rightarrow> bytes option" where
  "concat_loop sz buff [] = Some buff"
| "concat_loop sz buff (c # cs) =
     (case c of Size _ \<Rightarrow> Some buff | Piece s \<Rightarrow> if length s + length buff > sz then None else concat_loop sz (buff @ s) cs)"

text \<open>\<open>None\<close> is a size below 0, for which no memory can be had.\<close>

definition lconcat :: "cell list \<Rightarrow> bytes option option" where
  "lconcat t =
     (case t of
        Size n # cells \<Rightarrow>
          let sz = to_int n in
          if sz < 0 then None
          else
            (case concat_loop (nat sz) [] cells of
               None \<Rightarrow> Some None
             | Some buff \<Rightarrow> if int (length buff) \<noteq> sz then Some None else Some (Some buff))
      | _ \<Rightarrow> Some None)"

definition lisname :: "bytes option \<Rightarrow> bool" where
  "lisname name = (case name of Some (c # _) \<Rightarrow> c = 0x40 | _ \<Rightarrow> False)"


lemma next_session_valid: "0 < session \<Longrightarrow> session < 2 ^ 31 \<Longrightarrow> 0 < next_session session \<and> next_session session < 2 ^ 31"
  by (simp add: next_session_def)

section \<open>Frames and their contents\<close>

lemma fill_header_be: "n < 0x10000 \<Longrightarrow> fill_header n = Some (be_bytes 2 n)"
  by (simp add: fill_header_def numeral_2_eq_2)

lemma fill_header_frame: "length c < 0x10000 \<Longrightarrow> fill_header (length c) = Some h \<Longrightarrow> h @ c = frame 2 c"
  by (simp add: fill_header_be frame_def)

lemma length_fill_uint32 [simp]: "length (fill_uint32 n) = 4"
  by (simp add: fill_uint32_def)

lemma unpack_fill: "i = length x \<Longrightarrow> unpack_uint32 (x @ fill_uint32 n @ y) i = n"
  by (simp add: unpack_uint32_def fill_uint32_def le32_def nth_append numeral_2_eq_2 numeral_3_eq_3 of_le32_le32)

text \<open>The contents of the frames that are packed.\<close>

definition request_content :: "cluster_addr \<Rightarrow> u32 \<Rightarrow> bytes \<Rightarrow> bytes" where
  "request_content addr session msg =
     (case addr of
        Addr a \<Rightarrow> [0] @ fill_uint32 a @ fill_uint32 session @ msg
      | Name name \<Rightarrow> [0x80, of_nat (length name)] @ name @ fill_uint32 session @ msg)"

definition multi_content :: "cluster_addr \<Rightarrow> u32 \<Rightarrow> u32 \<Rightarrow> bool \<Rightarrow> bytes" where
  "multi_content addr session size_n is_push =
     (case addr of
        Addr a \<Rightarrow> [if is_push then 0x41 else 1] @ fill_uint32 a @ fill_uint32 session @ fill_uint32 size_n
      | Name name \<Rightarrow> [if is_push then 0xc1 else 0x81, of_nat (length name)] @ name @ fill_uint32 session @ fill_uint32 size_n)"

definition part_content :: "u32 \<Rightarrow> bytes \<Rightarrow> bool \<Rightarrow> bytes" where
  "part_content session msg padding = [if padding then 2 else 3] @ fill_uint32 session @ msg"

definition valid_addr :: "cluster_addr \<Rightarrow> bool" where
  "valid_addr addr = (case addr of Addr _ \<Rightarrow> True | Name name \<Rightarrow> 0 < length name \<and> length name < 256)"

lemma unpack_request:
  assumes "valid_addr addr"
  shows "lunpackrequest ud (request_content addr session msg) = Some (Inr (Request addr session msg (session = 0)))"
proof (cases addr)
  case (Addr a)
  let ?c = "0 # fill_uint32 a @ fill_uint32 session @ msg"
  have "unpack_uint32 ?c 1 = a" "unpack_uint32 ?c 5 = session"
    using unpack_fill [of 1 "[0]" a "fill_uint32 session @ msg"] unpack_fill [of 5 "0 # fill_uint32 a" session msg] by simp_all
  then show ?thesis using Addr by (simp add: lunpackrequest_def request_content_def unpackreq_number_def Let_def)
next
  case (Name name)
  let ?c = "0x80 # of_nat (length name) # name @ fill_uint32 session @ msg"
  have n: "unat (of_nat (length name) :: u8) = length name" using assms Name by (simp add: valid_addr_def unat_of_nat take_bit_nat_eq_self)
  have "unpack_uint32 ?c (length name + 2) = session"
    using unpack_fill [of "length name + 2" "0x80 # of_nat (length name) # name" session msg] by simp
  moreover have "drop (length name + 6) ?c = msg"
  proof -
    have "?c = (0x80 # of_nat (length name) # name @ fill_uint32 session) @ msg" by simp
    moreover have "length (0x80 # of_nat (length name) # name @ fill_uint32 session) = length name + 6" by simp
    ultimately show ?thesis by (metis append_eq_conv_conj)
  qed
  ultimately show ?thesis using Name n by (simp add: lunpackrequest_def request_content_def unpackreq_string_def Let_def)
qed

lemma unpack_multi:
  assumes "valid_addr addr"
  shows "lunpackrequest ud (multi_content addr session size_n is_push) = Some (Inr (Multi addr session size_n is_push))"
proof (cases addr)
  case (Addr a)
  let ?c = "\<lambda>t. t # fill_uint32 a @ fill_uint32 session @ fill_uint32 size_n"
  have "unpack_uint32 (?c t) 1 = a" "unpack_uint32 (?c t) 5 = session" "unpack_uint32 (?c t) 9 = size_n" for t
    using unpack_fill [of 1 "[t]" a "fill_uint32 session @ fill_uint32 size_n"] unpack_fill [of 5 "t # fill_uint32 a" session "fill_uint32 size_n"]
      unpack_fill [of 9 "t # fill_uint32 a @ fill_uint32 session" size_n "[]"] by simp_all
  then show ?thesis using Addr by (simp add: lunpackrequest_def multi_content_def unpackmreq_number_def Let_def)
next
  case (Name name)
  let ?c = "\<lambda>t. t # of_nat (length name) # name @ fill_uint32 session @ fill_uint32 size_n"
  have n: "unat (of_nat (length name) :: u8) = length name" using assms Name by (simp add: valid_addr_def unat_of_nat take_bit_nat_eq_self)
  have "unpack_uint32 (?c t) (length name + 2) = session" "unpack_uint32 (?c t) (length name + 6) = size_n" for t
    using unpack_fill [of "length name + 2" "t # of_nat (length name) # name" session "fill_uint32 size_n"]
      unpack_fill [of "length name + 6" "t # of_nat (length name) # name @ fill_uint32 session" size_n "[]"] by simp_all
  then show ?thesis using Name n by (simp add: lunpackrequest_def multi_content_def unpackmreq_string_def Let_def)
qed

lemma unpack_part: "lunpackrequest ud (part_content session msg padding) = Some (Inr (Part session msg padding))"
proof -
  have "unpack_uint32 (t # fill_uint32 session @ msg) 1 = session" for t using unpack_fill [of 1 "[t]" session msg] by simp
  then show ?thesis by (simp add: lunpackrequest_def part_content_def unpackmreq_part_def Let_def)
qed

text \<open>A message is cut into its parts.\<close>

primrec pieces :: "bytes \<Rightarrow> nat \<Rightarrow> bytes list" where
  "pieces msg 0 = []"
| "pieces msg (Suc n) = (let s = min MULTI_PART (length msg) in take s msg # pieces (drop s msg) n)"

lemma pieces_concat: "length msg \<le> n * MULTI_PART \<Longrightarrow> concat (pieces msg n) = msg"
  by (induction n arbitrary: msg) (auto simp: Let_def)

lemma parts_of_enough: "sz \<le> parts_of sz * MULTI_PART" "0 < sz \<Longrightarrow> (parts_of sz - 1) * MULTI_PART < sz"
proof -
  define q where "q = (sz - 1) div MULTI_PART"
  have m: "0 < MULTI_PART" by (simp add: MULTI_PART_def)
  have d: "sz - 1 = q * MULTI_PART + (sz - 1) mod MULTI_PART" by (simp add: q_def)
  have r: "(sz - 1) mod MULTI_PART < MULTI_PART" using m by simp
  show "sz \<le> parts_of sz * MULTI_PART" unfolding parts_of_def q_def [symmetric] using d r by (simp add: algebra_simps)
  show "(parts_of sz - 1) * MULTI_PART < sz" if "0 < sz" unfolding parts_of_def q_def [symmetric] using d that by simp
qed


text \<open>What the frames of the parts hold, for requests (\<open>content = part_content session\<close>) and for responses.\<close>

primrec part_contents :: "(bytes \<Rightarrow> bool \<Rightarrow> bytes) \<Rightarrow> bytes \<Rightarrow> nat \<Rightarrow> bytes list" where
  "part_contents content msg 0 = []"
| "part_contents content msg (Suc n) = (let s = min MULTI_PART (length msg) in content (take s msg) (n \<noteq> 0) # part_contents content (drop s msg) n)"

lemma more_parts:
  assumes "n * MULTI_PART < length msg" "length msg \<le> Suc n * MULTI_PART"
  shows "length msg > MULTI_PART \<longleftrightarrow> n \<noteq> 0" "(if length msg > MULTI_PART then MULTI_PART else length msg) = min MULTI_PART (length msg)"
    "n \<noteq> 0 \<Longrightarrow> (n - 1) * MULTI_PART < length (drop (min MULTI_PART (length msg)) msg) \<and> length (drop (min MULTI_PART (length msg)) msg) \<le> n * MULTI_PART"
  using assms by (cases n; auto simp: MULTI_PART_def)+

lemma multi_loop_frames:
  assumes "n = 0 \<or> (n - 1) * MULTI_PART < length msg \<and> length msg \<le> n * MULTI_PART"
  shows "multi_loop session msg n = Some (map (frame 2) (part_contents (part_content (of_int session)) msg n))"
  using assms
proof (induction n arbitrary: msg)
  case (Suc n)
  have h: "n * MULTI_PART < length msg" "length msg \<le> Suc n * MULTI_PART" using Suc.prems by auto
  note m = more_parts [OF h]
  let ?s = "min MULTI_PART (length msg)"
  have rest: "multi_loop session (drop ?s msg) n = Some (map (frame 2) (part_contents (part_content (of_int session)) (drop ?s msg) n))"
    by (rule Suc.IH) (use m(3) in blast)
  have l: "length (part_content (of_int session) (take ?s msg) (n \<noteq> 0)) = ?s + 5" by (simp add: part_content_def)
  have small: "?s + 5 < 0x10000" by (simp add: MULTI_PART_def)
  have "be_bytes 2 (?s + 5) @ [if n \<noteq> 0 then 2 else 3] @ fill_uint32 (of_int session) @ take ?s msg = frame 2 (part_content (of_int session) (take ?s msg) (n \<noteq> 0))"
    unfolding frame_def l by (simp add: part_content_def)
  then show ?case using rest fill_header_be [OF small] m(1,2) by (simp add: Let_def del: neq0_conv)
qed simp

lemma packreq_multi_frames:
  assumes "0 < length msg"
  shows "packreq_multi session msg = Some (map (frame 2) (part_contents (part_content (of_int session)) msg (parts_of (length msg))))"
  unfolding packreq_multi_def by (rule multi_loop_frames) (use parts_of_enough [of "length msg"] assms in auto)

text \<open>The frames of a request.\<close>

definition sent_contents :: "cluster_addr \<Rightarrow> u32 \<Rightarrow> bytes \<Rightarrow> bool \<Rightarrow> bytes list" where
  "sent_contents addr session msg is_push =
     (if length msg < MULTI_PART then [request_content addr (if is_push then 0 else session) msg]
      else multi_content addr session (of_nat (length msg)) is_push # part_contents (part_content session) msg (parts_of (length msg)))"

definition lua_of :: "cluster_addr \<Rightarrow> lua_address" where
  "lua_of addr = (case addr of Addr a \<Rightarrow> LNumber (uint a) | Name name \<Rightarrow> LString name)"

lemma packrequest_frames:
  assumes "valid_addr addr" "0 < session" "session < 2 ^ 31"
  shows "\<exists>first rest. packrequest (lua_of addr) session (Some msg) is_push = Some (Inr (first, next_session session, rest)) \<and>
    first # (case rest of None \<Rightarrow> [] | Some fs \<Rightarrow> fs) = map (frame 2) (sent_contents addr (of_int session) msg is_push)"
proof -
  have s: "to_int session = session" using assms(2,3) by (simp add: to_int_def)
  show ?thesis
  proof (cases "length msg < MULTI_PART")
    case True
    then have small: "length msg + 9 < 0x10000" "length name < 256 \<Longrightarrow> length msg + 6 + length name < 0x10000" for name :: bytes by (auto simp: MULTI_PART_def)
    show ?thesis
    proof (cases addr)
      case (Addr a)
      then show ?thesis using True s assms(2) fill_header_be [OF small(1)]
        by (simp add: packrequest_def lua_of_def packreq_number_def sent_contents_def request_content_def frame_def add.commute)
    next
      case (Name name)
      then have n: "0 < length name" "length name < 256" using assms(1) by (auto simp: valid_addr_def)
      then have "packreq_string (LString name) session msg is_push = Some (Inr (frame 2 (sent_contents addr (of_int session) msg is_push ! 0), 0))"
        using True fill_header_be [OF small(2) [OF n(2)]] Name
        by (simp add: packreq_string_def sent_contents_def request_content_def frame_def add.commute add.left_commute Suc_le_eq)
      then show ?thesis using True s assms(2) Name by (simp add: packrequest_def lua_of_def sent_contents_def)
    qed
  next
    case False
    then have pos: "0 < length msg" "parts_of (length msg) \<noteq> 0" by (auto simp: MULTI_PART_def parts_of_def)
    note multi = packreq_multi_frames [OF pos(1), of session]
    show ?thesis
    proof (cases addr)
      case (Addr a)
      have "packreq_number (uint a) session msg is_push = Some (frame 2 (multi_content addr (of_int session) (of_nat (length msg)) is_push), parts_of (length msg))"
        using False Addr fill_header_be [of 13] by (simp add: packreq_number_def multi_content_def frame_def)
      then show ?thesis using False s assms(2) Addr multi pos(2) by (simp add: packrequest_def lua_of_def sent_contents_def)
    next
      case (Name name)
      then have n: "0 < length name" "length name < 256" using assms(1) by (auto simp: valid_addr_def)
      then have "packreq_string (LString name) session msg is_push =
          Some (Inr (frame 2 (multi_content addr (of_int session) (of_nat (length msg)) is_push), parts_of (length msg)))"
        using False Name fill_header_be [of "10 + length name"]
        by (simp add: packreq_string_def multi_content_def frame_def add.commute add.left_commute Suc_le_eq)
      then show ?thesis using False s assms(2) Name multi pos(2) by (simp add: packrequest_def lua_of_def sent_contents_def)
    qed
  qed
qed

end
