(* ===== verification/Sessions.thy ===== *)
theory Sessions
  imports Framing
begin

text \<open>
  Messages of several frames that share a connection. The frames of different messages are merged in any order; a receiver keeps a state
  per session and hands out a message when its last frame has come. The locale \<open>session_receiver\<close> states what such a receiver promises, and
  in it the messages come out as they were sent.
\<close>

section \<open>Merging\<close>

text \<open>The merges of some lists: each keeps its order.\<close>

definition interleavings :: "'a list list \<Rightarrow> 'a list set" where
  "interleavings xss = foldr (\<lambda>xs S. \<Union>ys \<in> S. shuffles xs ys) xss {[]}"

lemma interleavings_simps [simp]:
  "interleavings [] = {[]}" "interleavings (xs # xss) = (\<Union>ys \<in> interleavings xss. shuffles xs ys)"
  by (simp_all add: interleavings_def)

lemma interleavings_map: "zs \<in> interleavings xss \<Longrightarrow> map f zs \<in> interleavings (map (map f) xss)"
  by (induction xss arbitrary: zs) (auto dest: map_in_shuffles)

lemma interleavings_filter: "zs \<in> interleavings xss \<Longrightarrow> filter P zs \<in> interleavings (map (filter P) xss)"
proof (induction xss arbitrary: zs)
  case (Cons xs xss)
  then obtain ys where ys: "ys \<in> interleavings xss" "zs \<in> shuffles xs ys" by auto
  then have "filter P zs \<in> shuffles (filter P xs) (filter P ys)" using filter_shuffles [of P xs ys] by blast
  then show ?case using Cons.IH [OF ys(1)] by auto
qed simp

lemma interleavings_set: "zs \<in> interleavings xss \<Longrightarrow> set zs = \<Union> (set (map set xss))"
  by (induction xss arbitrary: zs) (auto dest: set_shuffles)

lemma interleavings_mset: "zs \<in> interleavings xss \<Longrightarrow> mset zs = mset (concat xss)"
  by (induction xss arbitrary: zs) (auto dest: mset_shuffles)

lemma interleavings_nil: "zs \<in> interleavings xss \<Longrightarrow> \<forall>xs \<in> set xss. xs = [] \<Longrightarrow> zs = []"
  by (induction xss arbitrary: zs) auto

lemma interleavings_one: "zs \<in> interleavings xss \<Longrightarrow> filter (\<lambda>xs. xs \<noteq> []) xss = [ys] \<Longrightarrow> zs = ys"
proof (induction xss arbitrary: zs)
  case (Cons xs xss)
  show ?case
  proof (cases "xs = []")
    case False
    then have "xs = ys" "\<forall>xs \<in> set xss. xs = []" using Cons.prems(2) by (auto simp: filter_empty_conv)
    then show ?thesis using Cons.prems(1) by (auto dest: interleavings_nil)
  qed (use Cons in auto)
qed simp

lemma distinct_filter_one: "distinct xs \<Longrightarrow> length (filter (\<lambda>x. x = k) xs) \<le> 1"
  by (induction xs) (auto simp: filter_empty_conv)

lemma mset_by_key:
  assumes "\<And>k. mset (filter (\<lambda>x. f x = k) xs) = mset (filter (\<lambda>x. f x = k) ys)"
  shows "mset xs = mset ys"
proof (rule multiset_eqI)
  fix x
  have "count (mset (filter (\<lambda>y. f y = f x) zs)) x = count (mset zs) x" for zs by simp
  then show "count (mset xs) x = count (mset ys) x" using assms [of "f x"] by metis
qed

lemma mset_concat_map: "mset xs = mset ys \<Longrightarrow> mset (concat (map g xs)) = mset (concat (map g ys))"
proof -
  have "mset (concat (map g zs)) = sum_mset (image_mset (mset \<circ> g) (mset zs))" for zs by (induction zs) auto
  then show "mset xs = mset ys \<Longrightarrow> ?thesis" by simp
qed

section \<open>A receiver with a state per session\<close>

definition by_session :: "('o \<Rightarrow> 'u \<Rightarrow> ('o \<times> 'd list) option) \<Rightarrow> ('u \<Rightarrow> 'k) \<Rightarrow> ('k \<Rightarrow> 'o) \<Rightarrow> 'u \<Rightarrow> (('k \<Rightarrow> 'o) \<times> 'd list) option" where
  "by_session own key st u = do { (own', out) \<leftarrow> own (st (key u)) u; Some (st(key u := own'), out) }"

text \<open>
  \<open>own\<close> is the step of one session, \<open>idle\<close> its state between messages, \<open>key\<close> the session of a frame and \<open>dkey\<close> that of
  what is handed out. A message \<open>r\<close> has the frames \<open>frames_of r\<close>, all of the session \<open>wire r\<close>, and is handed out as \<open>deliver r\<close>.
\<close>

locale session_receiver =
  fixes own :: "'o \<Rightarrow> 'u \<Rightarrow> ('o \<times> 'd list) option"
    and idle :: 'o
    and key :: "'u \<Rightarrow> 'k"
    and dkey :: "'d \<Rightarrow> 'k"
    and valid :: "'r \<Rightarrow> bool"
    and frames_of :: "'r \<Rightarrow> 'u list"
    and wire :: "'r \<Rightarrow> 'k"
    and deliver :: "'r \<Rightarrow> 'd"
  assumes out_key: "own o1 u = Some (o2, out) \<Longrightarrow> d \<in> set out \<Longrightarrow> dkey d = key u"
    and whole: "valid r \<Longrightarrow> feeds own idle (frames_of r) = Some (idle, [deliver r])"
    and frame_key: "valid r \<Longrightarrow> u \<in> set (frames_of r) \<Longrightarrow> key u = wire r"
    and deliver_key: "valid r \<Longrightarrow> dkey (deliver r) = wire r"
    and some_frame: "valid r \<Longrightarrow> frames_of r \<noteq> []"
begin

text \<open>The frames of a session are handled independently of the others.\<close>

lemma splits:
  assumes "\<And>k. feeds own (st k) (filter (\<lambda>u. key u = k) us) = Some (final k, out k)"
  shows "\<exists>ds. feeds (by_session own key) st us = Some (final, ds) \<and> (\<forall>k. filter (\<lambda>d. dkey d = k) ds = out k)"
  using assms
proof (induction us arbitrary: st out)
  case Nil
  then have "st = final" "out = (\<lambda>_. [])" by auto
  then show ?case by simp
next
  case (Cons u us)
  let ?k = "key u"
  obtain o1 ds1 where step: "own (st ?k) u = Some (o1, ds1)"
    using Cons.prems [of ?k] by (cases "own (st ?k) u") auto
  obtain ds2 where rest: "feeds own o1 (filter (\<lambda>u. key u = ?k) us) = Some (final ?k, ds2)" "out ?k = ds1 @ ds2"
    using Cons.prems [of ?k] step by (cases "feeds own o1 (filter (\<lambda>u. key u = ?k) us)") auto
  have "\<exists>ds. feeds (by_session own key) (st(?k := o1)) us = Some (final, ds) \<and>
      (\<forall>k. filter (\<lambda>d. dkey d = k) ds = (out(?k := ds2)) k)"
  proof (rule Cons.IH)
    fix k
    show "feeds own ((st(?k := o1)) k) (filter (\<lambda>u. key u = k) us) = Some (final k, (out(?k := ds2)) k)"
      using Cons.prems [of k] rest by (cases "k = ?k") auto
  qed
  then obtain ds where ds: "feeds (by_session own key) (st(?k := o1)) us = Some (final, ds)"
    "\<And>k. filter (\<lambda>d. dkey d = k) ds = (out(?k := ds2)) k" by blast
  have "\<forall>d \<in> set ds1. dkey d = ?k" using out_key [OF step] by blast
  then have "filter (\<lambda>d. dkey d = k) (ds1 @ ds) = out k" for k
    using ds(2) [of k] rest(2) by (cases "k = ?k") (auto simp: filter_id_conv filter_empty_conv)
  moreover have "feeds (by_session own key) st (u # us) = Some (final, ds1 @ ds)" using ds(1) step by (simp add: by_session_def)
  ultimately show ?case by blast
qed

text \<open>Messages of one frame each may share a session.\<close>

lemma single_frames:
  "\<forall>u \<in> set us. \<exists>r. valid r \<and> frames_of r = [u] \<Longrightarrow> feeds own idle us = Some (idle, concat (map (\<lambda>u. snd (the (own idle u))) us))"
proof (induction us)
  case (Cons u us)
  then obtain r where "valid r" "frames_of r = [u]" by auto
  then have "own idle u = Some (idle, [deliver r])" using whole [of r] by (auto split: Option.bind_splits)
  then show ?case using Cons by simp
qed simp

lemma one_session:
  assumes "\<forall>r \<in> set rs. valid r" "distinct (filter (\<lambda>k. \<not> shared k) (map wire rs))"
    "\<forall>r \<in> set rs. shared (wire r) \<longrightarrow> length (frames_of r) = 1" "us \<in> interleavings (map frames_of rs)"
  shows "\<exists>out. feeds own idle (filter (\<lambda>u. key u = k) us) = Some (idle, out) \<and>
    mset out = mset (map deliver (filter (\<lambda>r. wire r = k) rs))"
proof -
  let ?us = "filter (\<lambda>u. key u = k) us" and ?rs = "filter (\<lambda>r. wire r = k) rs"
  let ?own = "\<lambda>r. if wire r = k then frames_of r else []"
  have "map (filter (\<lambda>u. key u = k)) (map frames_of rs) = map ?own rs"
    using assms(1) frame_key by (auto simp: filter_id_conv filter_empty_conv)
  then have i: "?us \<in> interleavings (map ?own rs)" using interleavings_filter [OF assms(4), of "\<lambda>u. key u = k"] by argo
  have own: "filter (\<lambda>xs. xs \<noteq> []) (map ?own rs) = map frames_of ?rs"
    using assms(1) some_frame by (induction rs) auto
  show ?thesis
  proof (cases "shared k")
    case False
    have "length ?rs = length (filter (\<lambda>x. x = k) (filter (\<lambda>k. \<not> shared k) (map wire rs)))"
      using False by (induction rs) auto
    then have "length ?rs \<le> 1" using distinct_filter_one [OF assms(2)] by simp
    then consider "?rs = []" | r where "?rs = [r]" by (cases ?rs) (auto simp: le_Suc_eq)
    then show ?thesis
    proof cases
      case 1
      then have "?us = []" using own by (intro interleavings_nil [OF i]) (auto simp: filter_empty_conv)
      then show ?thesis using 1 by simp
    next
      case (2 r)
      then have "r \<in> set ?rs" by simp
      then have "valid r" using assms(1) by simp
      moreover have "?us = frames_of r" by (rule interleavings_one [OF i]) (simp add: own 2)
      ultimately show ?thesis using 2 whole by simp
    qed
  next
    case True
    have one: "frames_of r = [hd (frames_of r)]" if "r \<in> set rs" "wire r = k" for r
      using that assms(3) True by (cases "frames_of r") auto
    have "concat (map ?own rs) = map (hd \<circ> frames_of) ?rs" using one by (induction rs) auto
    then have m: "mset ?us = mset (map (hd \<circ> frames_of) ?rs)" using interleavings_mset [OF i] by simp
    have "set ?us = set (map (hd \<circ> frames_of) ?rs)" using arg_cong [OF m, of set_mset] by simp
    then have "\<forall>u \<in> set ?us. \<exists>r. valid r \<and> frames_of r = [u]" using one assms(1) by fastforce
    note out = single_frames [OF this]
    let ?g = "\<lambda>u. snd (the (own idle u))"
    have "?g (hd (frames_of r)) = [deliver r]" if "r \<in> set ?rs" for r
    proof -
      have r: "valid r" "frames_of r = [hd (frames_of r)]" using that assms(1) one by auto
      have "feeds own idle [hd (frames_of r)] = Some (idle, [deliver r])" using whole [OF r(1)] r(2) by argo
      then have "own idle (hd (frames_of r)) = Some (idle, [deliver r])" by (auto split: Option.bind_splits)
      then show ?thesis by simp
    qed
    then have "concat (map ?g (map (hd \<circ> frames_of) ?rs)) = map deliver ?rs" by (induction rs) auto
    then show ?thesis using out mset_concat_map [OF m, of ?g] by auto
  qed
qed

lemma arrive:
  assumes "\<forall>r \<in> set rs. valid r" "distinct (filter (\<lambda>k. \<not> shared k) (map wire rs))"
    "\<forall>r \<in> set rs. shared (wire r) \<longrightarrow> length (frames_of r) = 1" "us \<in> interleavings (map frames_of rs)"
  shows "\<exists>ds. feeds (by_session own key) (\<lambda>_. idle) us = Some (\<lambda>_. idle, ds) \<and> mset ds = mset (map deliver rs)"
proof -
  obtain out where out: "\<And>k. feeds own idle (filter (\<lambda>u. key u = k) us) = Some (idle, out k)"
    "\<And>k. mset (out k) = mset (map deliver (filter (\<lambda>r. wire r = k) rs))"
    using one_session [OF assms] by metis
  obtain ds where ds: "feeds (by_session own key) (\<lambda>_. idle) us = Some (\<lambda>_. idle, ds)" "\<forall>k. filter (\<lambda>d. dkey d = k) ds = out k"
    using splits [of "\<lambda>_. idle" us "\<lambda>_. idle" out] out(1) by blast
  have own: "filter (\<lambda>d. dkey d = k) (map deliver rs) = map deliver (filter (\<lambda>r. wire r = k) rs)" for k
    using assms(1) by (induction rs) (simp_all add: deliver_key)
  have "mset ds = mset (map deliver rs)" by (rule mset_by_key [of dkey]) (simp only: own ds(2) out(2))
  with ds(1) show ?thesis by (intro exI conjI)
qed

text \<open>Frames on the wire that unpack to those of the messages.\<close>

lemma unpack_merged:
  assumes "\<forall>r \<in> set rs. map un (cs_of r) = map Some (frames_of r)" "ms \<in> interleavings (map cs_of rs)"
  shows "\<exists>us. us \<in> interleavings (map frames_of rs) \<and> map un ms = map Some us"
proof (intro exI conjI)
  let ?us = "map (\<lambda>m. the (un m)) ms"
  have "map (\<lambda>m. the (un m)) (cs_of r) = frames_of r" if "r \<in> set rs" for r
    using arg_cong [OF bspec [OF assms(1) that], of "map the"] by (simp add: comp_def)
  then have "map (map (\<lambda>m. the (un m))) (map cs_of rs) = map frames_of rs" by simp
  then show "?us \<in> interleavings (map frames_of rs)" using interleavings_map [OF assms(2), of "\<lambda>m. the (un m)"] by argo
  have "un m \<noteq> None" if m: "m \<in> set ms" for m
  proof -
    obtain r where "r \<in> set rs" "m \<in> set (cs_of r)" using m interleavings_set [OF assms(2)] by auto
    then have "un m \<in> set (map Some (frames_of r))" using assms(1) by (metis image_eqI list.set_map)
    then show ?thesis by auto
  qed
  then show "map un ms = map Some ?us" by auto
qed

end

end
