(* ===== verification/ClusterLink.thy ===== *)
theory ClusterLink
  imports Netpack Cluster Sessions
begin

text \<open>
  Two nodes of a cluster that talk over connections: the receivers of requests and of responses as the services of \<open>service/clusteragent.lua\<close>
  and \<open>service/clustersender.lua\<close> have them, interpreted as \<open>session_receiver\<close>s, and what arrives when the frames of many messages are merged.
\<close>

section \<open>The receiving agent\<close>

text \<open>
  What the agent of the other node does with the unpacked frames (\<open>dispatch_request\<close> of \<open>service/clusteragent.lua\<close>), up to the point
  where a request is complete. Its state is \<open>large_request\<close>: per session the address, whether it is a push, and the parts so far. Tracing
  is left out. \<open>None\<close> is a failed allocation or a Lua error.
\<close>

datatype delivery = Deliver "cluster_addr option" u32 bytes bool | Refuse u32

type_synonym large_request = "cluster_addr option \<times> bool \<times> cell list"

definition keep_part :: "large_request option \<Rightarrow> large_request \<Rightarrow> lua_buffer \<Rightarrow> int \<Rightarrow> (large_request option \<times> delivery list) option" where
  "keep_part own fresh msg sz =
     (let (addr, is_push, t) = (case own of Some req \<Rightarrow> req | None \<Rightarrow> fresh)
      in case lappend t msg sz of Inl _ \<Rightarrow> None | Inr t \<Rightarrow> Some (Some (addr, is_push, t), []))"

definition complete :: "large_request option \<Rightarrow> cluster_addr option \<Rightarrow> u32 \<Rightarrow> bytes \<Rightarrow> bool \<Rightarrow> (large_request option \<times> delivery list) option" where
  "complete own addr session msg is_push =
     (case own of
        None \<Rightarrow> Some (None, [Deliver addr session msg is_push])
      | Some (addr, is_push, t) \<Rightarrow>
          (case lappend t (Memory msg) (int (length msg)) of
             Inl _ \<Rightarrow> None
           | Inr t \<Rightarrow> do {
               r \<leftarrow> lconcat t;
               Some (None, [case r of None \<Rightarrow> Refuse session | Some m \<Rightarrow> Deliver addr session m is_push])
             }))"

fun session_of :: "unpacked \<Rightarrow> u32" where
  "session_of (Request addr session msg is_push) = session"
| "session_of (Multi addr session size_n is_push) = session"
| "session_of (Part session msg padding) = session"
| "session_of (Trace tag) = 0"

fun own_step :: "large_request option \<Rightarrow> unpacked \<Rightarrow> (large_request option \<times> delivery list) option" where
  "own_step own (Request addr session msg is_push) = complete own (Some addr) session msg is_push"
| "own_step own (Multi addr session size_n is_push) = keep_part own (Some addr, is_push, []) Nil_buffer (uint size_n)"
| "own_step own (Part session msg padding) =
     (if padding then keep_part own (None, False, []) (Memory msg) (int (length msg)) else complete own None session msg False)"
| "own_step own (Trace tag) = Some (own, [])"

definition dispatch_request :: "(u32 \<rightharpoonup> large_request) \<Rightarrow> unpacked \<Rightarrow> ((u32 \<rightharpoonup> large_request) \<times> delivery list) option" where
  "dispatch_request = by_session own_step session_of"

text \<open>A frame that cannot be unpacked raises an error in the agent's dispatcher and is dropped.\<close>

definition agent_frame :: "(u32 \<rightharpoonup> large_request) \<Rightarrow> bytes \<Rightarrow> ((u32 \<rightharpoonup> large_request) \<times> delivery list) option" where
  "agent_frame large content = do {
     r \<leftarrow> lunpackrequest True content;
     case r of Inl _ \<Rightarrow> Some (large, []) | Inr u \<Rightarrow> dispatch_request large u
   }"

fun delivery_session :: "delivery \<Rightarrow> u32" where
  "delivery_session (Deliver addr session msg is_push) = session"
| "delivery_session (Refuse session) = session"

lemma own_step_session: "own_step own u = Some (own', out) \<Longrightarrow> d \<in> set out \<Longrightarrow> delivery_session d = session_of u"
  by (cases u) (auto simp: keep_part_def complete_def Let_def split: if_splits option.splits sum.splits prod.splits Option.bind_splits)

text \<open>The parts of one message, one after the other, come together again.\<close>

lemma concat_loop_pieces:
  "length buff + length (concat ps) \<le> sz \<Longrightarrow> concat_loop sz buff (map Piece ps) = Some (buff @ concat ps)"
  by (induction ps arbitrary: buff) auto

lemma to_int_id: "0 \<le> n \<Longrightarrow> n < 2 ^ 31 \<Longrightarrow> to_int n = n"
  by (simp add: to_int_def)

lemma lconcat_pieces:
  assumes "concat ps = msg" "length msg < 2 ^ 31"
  shows "lconcat (Size (int (length msg)) # map Piece ps) = Some (Some msg)"
proof -
  have t: "to_int (int (length msg)) = int (length msg)" using assms(2) by (intro to_int_id) auto
  have "concat_loop (length msg) [] (map Piece ps) = Some msg" using concat_loop_pieces [of "[]" ps "length msg"] assms(1) by simp
  then show ?thesis unfolding lconcat_def by (simp add: t)
qed

primrec parts_unpacked :: "u32 \<Rightarrow> bytes \<Rightarrow> nat \<Rightarrow> unpacked list" where
  "parts_unpacked session msg 0 = []"
| "parts_unpacked session msg (Suc n) =
     (let s = min MULTI_PART (length msg) in Part session (take s msg) (n \<noteq> 0) # parts_unpacked session (drop s msg) n)"

lemma own_parts:
  assumes "0 < n" "lconcat (t @ map Piece (pieces msg n)) = Some (Some m)"
  shows "feeds own_step (Some (addr, is_push, t)) (parts_unpacked session msg n) = Some (None, [Deliver addr session m is_push])"
  using assms
proof (induction n arbitrary: t msg)
  case (Suc n)
  let ?s = "min MULTI_PART (length msg)"
  show ?case
  proof (cases n)
    case 0
    then show ?thesis using Suc.prems(2) by (simp add: complete_def lappend_def Let_def)
  next
    case (Suc n')
    have "feeds own_step (Some (addr, is_push, t @ [Piece (take ?s msg)])) (parts_unpacked session (drop ?s msg) n) =
        Some (None, [Deliver addr session m is_push])"
      by (rule Suc.IH) (use Suc Suc.prems(2) in \<open>simp_all add: Let_def\<close>)
    then show ?thesis using Suc by (simp add: keep_part_def lappend_def Let_def)
  qed
qed simp

lemma uint_length: "length msg < 2 ^ 31 \<Longrightarrow> uint (of_nat (length msg) :: u32) = int (length msg)"
proof -
  assume "length msg < 2 ^ 31"
  then have "unat (of_nat (length msg) :: u32) = length msg" by (simp add: unat_of_nat take_bit_nat_eq_self)
  then show ?thesis by (metis uint_nat)
qed

definition request_unpacked :: "cluster_addr \<Rightarrow> u32 \<Rightarrow> bytes \<Rightarrow> bool \<Rightarrow> unpacked list" where
  "request_unpacked addr session msg is_push =
     (if length msg < MULTI_PART then [Request addr (if is_push then 0 else session) msg ((if is_push then 0 else session) = 0)]
      else Multi addr session (of_nat (length msg)) is_push # parts_unpacked session msg (parts_of (length msg)))"

lemma parts_unpack:
  "map (lunpackrequest ud) (part_contents (part_content session) msg n) = map (Some \<circ> Inr) (parts_unpacked session msg n)"
  by (induction n arbitrary: msg) (simp_all add: Let_def unpack_part)

lemma contents_unpack:
  assumes "valid_addr addr"
  shows "map (lunpackrequest ud) (sent_contents addr session msg is_push) = map (Some \<circ> Inr) (request_unpacked addr session msg is_push)"
  using assms by (simp add: sent_contents_def request_unpacked_def unpack_request unpack_multi parts_unpack)

lemma own_request:
  assumes "length msg < 2 ^ 31" "session \<noteq> 0"
  shows "feeds own_step None (request_unpacked addr session msg is_push) =
    Some (None, [Deliver (Some addr) (if is_push \<and> length msg < MULTI_PART then 0 else session) msg is_push])"
proof (cases "length msg < MULTI_PART")
  case False
  then have pos: "0 < parts_of (length msg)" by (simp add: parts_of_def)
  have sz: "uint (of_nat (length msg) :: u32) = int (length msg)" using assms(1) by (rule uint_length)
  have "lconcat ([Size (int (length msg))] @ map Piece (pieces msg (parts_of (length msg)))) = Some (Some msg)"
    using lconcat_pieces [OF pieces_concat [OF parts_of_enough(1)] assms(1)] by simp
  from own_parts [OF pos this, of "Some addr" is_push session] show ?thesis
    using False by (simp add: request_unpacked_def keep_part_def lappend_def sz)
qed (use assms in \<open>simp add: request_unpacked_def complete_def\<close>)

lemma request_unpacked_session:
  "u \<in> set (request_unpacked addr session msg is_push) \<Longrightarrow> session_of u = (if is_push \<and> length msg < MULTI_PART then 0 else session)"
proof -
  have "u \<in> set (parts_unpacked session m n) \<Longrightarrow> session_of u = session" for m n
    by (induction n arbitrary: m) (auto simp: Let_def)
  then show "u \<in> set (request_unpacked addr session msg is_push) \<Longrightarrow> session_of u = (if is_push \<and> length msg < MULTI_PART then 0 else session)"
    by (auto simp: request_unpacked_def split: if_splits)
qed

section \<open>Requests that share a connection\<close>

type_synonym cluster_request = "cluster_addr \<times> int \<times> bytes \<times> bool"

fun valid_request :: "cluster_request \<Rightarrow> bool" where
  "valid_request (addr, session, msg, is_push) \<longleftrightarrow> valid_addr addr \<and> 0 < session \<and> session < 2 ^ 31 \<and> length msg < 2 ^ 31"

text \<open>The session on the wire: a push of one frame has none.\<close>

fun wire_session :: "cluster_request \<Rightarrow> u32" where
  "wire_session (addr, session, msg, is_push) = (if is_push \<and> length msg < MULTI_PART then 0 else of_int session)"

fun delivery_of :: "cluster_request \<Rightarrow> delivery" where
  "delivery_of (addr, session, msg, is_push) = Deliver (Some addr) (wire_session (addr, session, msg, is_push)) msg is_push"

text \<open>The frames that are sent for a request.\<close>

definition request_frames :: "cluster_request \<Rightarrow> bytes list" where
  "request_frames r = (case r of (addr, session, msg, is_push) \<Rightarrow>
     (case (if is_push then lpackpush else lpackrequest) (lua_of addr) session (Some msg) of
        Some (Inr (first, _, rest)) \<Rightarrow> first # (case rest of None \<Rightarrow> [] | Some fs \<Rightarrow> fs)
      | _ \<Rightarrow> []))"

fun request_contents :: "cluster_request \<Rightarrow> bytes list" where
  "request_contents (addr, session, msg, is_push) = sent_contents addr (of_int session) msg is_push"

fun request_us :: "cluster_request \<Rightarrow> unpacked list" where
  "request_us (addr, session, msg, is_push) = request_unpacked addr (of_int session) msg is_push"

lemma request_frames_contents:
  assumes "valid_request r"
  shows "request_frames r = map (frame 2) (request_contents r)"
proof -
  obtain addr session msg is_push where r: "r = (addr, session, msg, is_push)" by (cases r)
  have v: "valid_addr addr" "0 < session" "session < 2 ^ 31" using assms r by auto
  obtain first rest where p: "packrequest (lua_of addr) session (Some msg) is_push = Some (Inr (first, next_session session, rest))"
    "first # (case rest of None \<Rightarrow> [] | Some fs \<Rightarrow> fs) = map (frame 2) (sent_contents addr (of_int session) msg is_push)"
    using packrequest_frames [OF v, of msg is_push] by (elim exE conjE) (rule that)
  show ?thesis using p unfolding request_frames_def r by (cases is_push) (simp_all add: lpackrequest_def lpackpush_def)
qed

lemma session_word: "0 < session \<Longrightarrow> session < 2 ^ 31 \<Longrightarrow> (of_int session :: u32) \<noteq> 0"
proof -
  assume s: "0 < session" "session < 2 ^ 31"
  have "uint (of_int session :: u32) = session" using s by (simp add: unsigned_of_int take_bit_int_eq_self)
  then show ?thesis using s(1) by auto
qed

lemma agent_unpacked:
  "map (lunpackrequest True) ms = map (Some \<circ> Inr) us \<Longrightarrow> feeds agent_frame large ms = feeds dispatch_request large us"
proof (induction ms arbitrary: us large)
  case (Cons m ms)
  then obtain u us' where us: "us = u # us'" "lunpackrequest True m = Some (Inr u)" "map (lunpackrequest True) ms = map (Some \<circ> Inr) us'"
    by (cases us) auto
  then show ?case using Cons.IH [OF us(3)] by (simp add: agent_frame_def)
qed simp

lemma part_contents_length:
  "c \<in> set (part_contents (part_content session) msg n) \<Longrightarrow> length c < 0x10000"
  by (induction n arbitrary: msg) (auto simp: Let_def part_content_def MULTI_PART_def)

lemma request_contents_length:
  assumes "valid_request r" "c \<in> set (request_contents r)"
  shows "length c < 0x10000"
proof -
  obtain addr session msg is_push where r: "r = (addr, session, msg, is_push)" by (cases r)
  have a: "addr = Name name \<Longrightarrow> length name < 256" for name using assms(1) r by (auto simp: valid_addr_def)
  show ?thesis
  proof (cases "c \<in> set (part_contents (part_content (of_int session)) msg (parts_of (length msg)))")
    case True
    then show ?thesis by (rule part_contents_length)
  next
    case False
    then show ?thesis using assms(2) a unfolding r
      by (cases addr) (auto simp: sent_contents_def request_content_def multi_content_def MULTI_PART_def split: if_splits)
  qed
qed

lemma request_contents_unpack:
  "valid_request r \<Longrightarrow> map (lunpackrequest ud) (request_contents r) = map (Some \<circ> Inr) (request_us r)"
  by (cases r) (simp add: contents_unpack)

lemma request_us_session: "u \<in> set (request_us r) \<Longrightarrow> session_of u = wire_session r"
  by (cases r) (auto dest: request_unpacked_session)

lemma request_us_filter: "filter (\<lambda>u. session_of u = k) (request_us r) = (if wire_session r = k then request_us r else [])"
  using request_us_session [of _ r] by (auto simp: filter_id_conv filter_empty_conv)

lemma request_us_nonempty [simp]: "request_us r \<noteq> []"
  by (cases r) (simp add: request_unpacked_def)

lemma own_request_us: "valid_request r \<Longrightarrow> feeds own_step None (request_us r) = Some (None, [delivery_of r])"
  by (cases r) (simp add: own_request session_word)

interpretation requests: session_receiver own_step None session_of delivery_session valid_request request_us wire_session delivery_of
proof
  show "own_step o1 u = Some (o2, out) \<Longrightarrow> d \<in> set out \<Longrightarrow> delivery_session d = session_of u" for o1 u o2 out d
    by (rule own_step_session)
  show "valid_request r \<Longrightarrow> feeds own_step None (request_us r) = Some (None, [delivery_of r])" for r by (rule own_request_us)
  show "u \<in> set (request_us r) \<Longrightarrow> session_of u = wire_session r" for u r by (rule request_us_session)
  show "delivery_session (delivery_of r) = wire_session r" for r by (cases r) simp
qed simp

lemma shared_single:
  assumes "valid_request r" "wire_session r = 0"
  shows "length (request_us r) = 1"
proof -
  obtain addr session msg is_push where r: "r = (addr, session, msg, is_push)" by (cases r)
  show ?thesis using assms session_word [of session] unfolding r by (auto simp: request_unpacked_def split: if_splits)
qed

text \<open>Frames that are merged are the frames of merged contents.\<close>

lemma merged_frames:
  assumes "fs \<in> interleavings (map (\<lambda>r. map (frame 2) (cs_of r)) rs)"
  shows "\<exists>ms. ms \<in> interleavings (map cs_of rs) \<and> fs = map (frame 2) ms"
proof (intro exI conjI)
  have d: "drop 2 (frame 2 c) = c" for c by (simp add: frame_def)
  show "map (drop 2) fs \<in> interleavings (map cs_of rs)"
    using interleavings_map [OF assms, of "drop 2"] by (simp add: comp_def d)
  have "\<forall>f \<in> set fs. frame 2 (drop 2 f) = f" using interleavings_set [OF assms] by (auto simp: d)
  then show "fs = map (frame 2) (map (drop 2) fs)" by (simp add: map_idI)
qed

text \<open>
  C36. The requests of a node reach the other one as they were sent. Any number of requests and pushes, to addresses or names, of
  any size below 2 GB, are packed; their frames are merged in any order that keeps each request's own (the parts of a large request are
  written with low priority), and the bytes arrive in non-empty blocks cut anywhere. Then \<open>netpack\<close> returns every time, the agent unpacks every frame,
  joins the parts, and delivers exactly the requests, each once, with its address, session, message and kind; no part is left over. The sessions
  of those that have one on the wire are to be different.
\<close>

theorem cluster_requests_arrive:
  assumes "\<forall>r \<in> set rs. valid_request r" "distinct (filter (\<lambda>k. k \<noteq> 0) (map wire_session rs))"
    "fs \<in> interleavings (map request_frames rs)" "concat cs = concat fs" "[] \<notin> set cs"
  shows "\<exists>s out ds. feeds netpack_feed None (map (Pair fd) cs) = Some (s, out) \<and>
    feeds agent_frame Map.empty (map snd out) = Some (Map.empty, ds) \<and> mset ds = mset (map delivery_of rs)"
proof -
  have "map request_frames rs = map (\<lambda>r. map (frame 2) (request_contents r)) rs" using assms(1) request_frames_contents by simp
  then obtain ms where ms: "ms \<in> interleavings (map request_contents rs)" "fs = map (frame 2) ms"
    using merged_frames [of fs request_contents rs] assms(3) by metis
  have "\<forall>m \<in> set ms. length m < 0x10000"
    using interleavings_set [OF ms(1)] assms(1) request_contents_length by auto
  then obtain s where net: "feeds netpack_feed None (map (Pair fd) cs) = Some (s, map (Pair fd) ms)"
    using netpack_frames [of ms cs fd] assms(4,5) ms(2) by auto
  let ?un = "\<lambda>c. case lunpackrequest True c of Some (Inr u) \<Rightarrow> Some u | _ \<Rightarrow> None"
  have un: "map ?un (request_contents r) = map Some (request_us r)" if "r \<in> set rs" for r
    using arg_cong [OF request_contents_unpack [of r True], of "map (\<lambda>x. case x of Some (Inr u) \<Rightarrow> Some u | _ \<Rightarrow> None)"]
      that assms(1) by (simp add: comp_def)
  obtain us where us: "us \<in> interleavings (map request_us rs)" "map ?un ms = map Some us"
    using requests.unpack_merged [of rs ?un request_contents ms] un ms(1) by blast
  have all: "map (lunpackrequest True) ms = map (Some \<circ> Inr) us"
    using us(2) by (induction ms arbitrary: us) (auto simp: Cons_eq_map_conv split: option.splits sum.splits)
  obtain ds where "feeds dispatch_request Map.empty us = Some (Map.empty, ds)" "mset ds = mset (map delivery_of rs)"
    using requests.arrive [of rs "\<lambda>k. k = 0" us] assms(1,2) us(1) shared_single unfolding dispatch_request_def by blast
  then show ?thesis using net agent_unpacked [OF all, of Map.empty] by (simp add: comp_def)
qed

theorem cluster_requests_arrive_witness:
  "\<exists>s out ds. feeds netpack_feed None (map (Pair 7) [[0, 10, 0, 5], [0, 0, 0, 0, 0, 0, 0, 66, 0, 9, 128], [2, 64, 97, 1, 0, 0, 0, 65]]) = Some (s, out) \<and>
    feeds agent_frame Map.empty (map snd out) = Some (Map.empty, ds) \<and>
    mset ds = mset [Deliver (Some (Name [64, 97])) 1 [65] False, Deliver (Some (Addr 5)) 0 [66] True]"
proof -
  let ?rs = "[(Name [64, 97], 1, [65], False), (Addr 5, 1, [66], True)]"
  let ?fs = "[[0, 10, 0, 5, 0, 0, 0, 0, 0, 0, 0, 66], [0, 9, 128, 2, 64, 97, 1, 0, 0, 0, 65]]"
  have "map request_frames ?rs = rev (map (\<lambda>f. [f]) ?fs)"
    by (simp add: request_frames_def lpackrequest_def lpackpush_def packrequest_def to_int_def lua_of_def packreq_string_def
        packreq_number_def MULTI_PART_def fill_header_def fill_uint32_def le32_def)
  then have "?fs \<in> interleavings (map request_frames ?rs)" by simp
  then show ?thesis
    using cluster_requests_arrive [of ?rs ?fs "[[0, 10, 0, 5], [0, 0, 0, 0, 0, 0, 0, 66, 0, 9, 128], [2, 64, 97, 1, 0, 0, 0, 65]]" 7]
    by (simp add: valid_addr_def MULTI_PART_def)
qed

text \<open>
  A size of 2 GB or more, which a peer may announce in 13 bytes, is a negative \<open>int\<close> for \<open>lconcat\<close>: the allocation fails and ends the process.
\<close>

lemma agent_huge_size:
  "feeds agent_frame Map.empty [multi_content (Addr 1) 1 0x80000000 False, part_content 1 [] False] = None"
proof -
  have "map (lunpackrequest True) [multi_content (Addr 1) 1 0x80000000 False, part_content 1 [] False] =
      map (Some \<circ> Inr) [Multi (Addr 1) 1 0x80000000 False, Part 1 [] False]"
    by (simp add: unpack_multi unpack_part valid_addr_def)
  from agent_unpacked [OF this] show ?thesis
    by (simp add: dispatch_request_def by_session_def keep_part_def complete_def lappend_def lconcat_def to_int_def)
qed

section \<open>Responses that share a connection\<close>

text \<open>
  The node that asked reads frame by frame (\<open>read_response\<close> of \<open>service/clustersender.lua\<close>) and hands the data to the request of the session
  (\<open>dispatch_by_session\<close> of \<open>lualib/skynet/socketchannel.lua\<close>); data in several pieces is a table, which is then concatenated. A
  frame that is no response ends the connection: \<open>None\<close>.
\<close>

type_synonym answer = "u32 \<times> bool \<times> bytes option"

definition append_data :: "cell list option \<Rightarrow> cell \<Rightarrow> cell list" where
  "append_data result_data c = (case result_data of Some t \<Rightarrow> t @ [c] | None \<Rightarrow> [c])"

fun own_response :: "cell list option \<Rightarrow> u32 \<times> response \<Rightarrow> (cell list option \<times> answer list) option" where
  "own_response own (session, Whole ok msg) =
     (case own of
        None \<Rightarrow> Some (None, [(session, ok, Some msg)])
      | Some t \<Rightarrow>
          if ok then do { r \<leftarrow> lconcat (append_data own (Piece msg)); Some (None, [(session, True, r)]) }
          else Some (None, [(session, ok, Some msg)]))"
| "own_response own (session, Begin n) = Some (Some (append_data own (Size (uint n))), [])"
| "own_response own (session, Piece_of msg) = Some (Some (append_data own (Piece msg)), [])"

definition dispatch_response :: "(u32 \<rightharpoonup> cell list) \<Rightarrow> u32 \<times> response \<Rightarrow> ((u32 \<rightharpoonup> cell list) \<times> answer list) option" where
  "dispatch_response = by_session own_response fst"

definition response_frame :: "(u32 \<rightharpoonup> cell list) \<Rightarrow> bytes \<Rightarrow> ((u32 \<rightharpoonup> cell list) \<times> answer list) option" where
  "response_frame result_data content = do { r \<leftarrow> lunpackresponse content; dispatch_response result_data r }"

definition response_content :: "u32 \<Rightarrow> bytes \<Rightarrow> bool \<Rightarrow> bytes" where
  "response_content session msg padding = fill_uint32 session @ [if padding then 3 else 4] @ msg"

lemma response_loop_frames:
  assumes "n = 0 \<or> (n - 1) * MULTI_PART < length msg \<and> length msg \<le> n * MULTI_PART"
  shows "response_loop session msg n = Some (map (frame 2) (part_contents (response_content session) msg n))"
  using assms
proof (induction n arbitrary: msg)
  case (Suc n)
  have h: "n * MULTI_PART < length msg" "length msg \<le> Suc n * MULTI_PART" using Suc.prems by auto
  note m = more_parts [OF h]
  let ?s = "min MULTI_PART (length msg)"
  have rest: "response_loop session (drop ?s msg) n = Some (map (frame 2) (part_contents (response_content session) (drop ?s msg) n))"
    by (rule Suc.IH) (use m(3) in blast)
  have l: "length (response_content session (take ?s msg) (n \<noteq> 0)) = ?s + 5" by (simp add: response_content_def)
  have small: "?s + 5 < 0x10000" by (simp add: MULTI_PART_def)
  have "be_bytes 2 (?s + 5) @ fill_uint32 session @ [if n \<noteq> 0 then 3 else 4] @ take ?s msg = frame 2 (response_content session (take ?s msg) (n \<noteq> 0))"
    unfolding frame_def l by (simp add: response_content_def)
  then show ?case using rest fill_header_be [OF small] m(1,2) by (simp add: Let_def del: neq0_conv)
qed simp

type_synonym cluster_response = "int \<times> bool \<times> bytes"

fun valid_response :: "cluster_response \<Rightarrow> bool" where
  "valid_response (session, ok, msg) \<longleftrightarrow> length msg < 2 ^ 31"

text \<open>What arrives: an error message is cut to 32K.\<close>

fun answer_of :: "cluster_response \<Rightarrow> answer" where
  "answer_of (session, ok, msg) = (of_int session, ok, Some (if ok then msg else take MULTI_PART msg))"

definition response_frames :: "cluster_response \<Rightarrow> bytes list" where
  "response_frames r = (case r of (session, ok, msg) \<Rightarrow>
     (case lpackresponse session ok msg of Some (One f) \<Rightarrow> [f] | Some (Parts fs) \<Rightarrow> fs | None \<Rightarrow> []))"

definition response_contents :: "cluster_response \<Rightarrow> bytes list" where
  "response_contents r = (case r of (session, ok, msg) \<Rightarrow>
     if ok \<and> length msg > MULTI_PART
     then (fill_uint32 (of_int session) @ [2] @ fill_uint32 (of_nat (length msg))) #
       part_contents (response_content (of_int session)) msg (parts_of (length msg))
     else [fill_uint32 (of_int session) @ [if ok then 1 else 0] @ take MULTI_PART msg])"

primrec parts_responses :: "u32 \<Rightarrow> bytes \<Rightarrow> nat \<Rightarrow> (u32 \<times> response) list" where
  "parts_responses session msg 0 = []"
| "parts_responses session msg (Suc n) =
     (let s = min MULTI_PART (length msg)
      in (session, if n \<noteq> 0 then Piece_of (take s msg) else Whole True (take s msg)) # parts_responses session (drop s msg) n)"

definition response_us :: "cluster_response \<Rightarrow> (u32 \<times> response) list" where
  "response_us r = (case r of (session, ok, msg) \<Rightarrow>
     if ok \<and> length msg > MULTI_PART
     then (of_int session, Begin (of_nat (length msg))) # parts_responses (of_int session) msg (parts_of (length msg))
     else [(of_int session, Whole ok (take MULTI_PART msg))])"

lemma response_frames_contents: "response_frames r = map (frame 2) (response_contents r)"
proof -
  obtain session ok msg where r: "r = (session, ok, msg)" by (cases r)
  show ?thesis
  proof (cases "ok \<and> length msg > MULTI_PART")
    case True
    then have loop: "response_loop (of_int session) msg (parts_of (length msg)) =
        Some (map (frame 2) (part_contents (response_content (of_int session)) msg (parts_of (length msg))))"
      by (intro response_loop_frames disjI2 conjI parts_of_enough) auto
    show ?thesis unfolding r using True loop fill_header_be [of 9]
      by (simp add: response_frames_def response_contents_def lpackresponse_def frame_def [of 2 "_ @ _"])
  next
    case False
    let ?msg = "take MULTI_PART msg"
    have small: "length ?msg + 5 < 0x10000" by (simp add: MULTI_PART_def)
    have "lpackresponse session ok msg = Some (One (frame 2 (fill_uint32 (of_int session) @ [if ok then 1 else 0] @ ?msg)))"
    proof -
      have m: "(if \<not> ok \<and> length msg > MULTI_PART then take MULTI_PART msg else msg) = ?msg" using False by auto
      have f: "\<not> (ok \<and> length ?msg > MULTI_PART)" by simp
      show ?thesis unfolding lpackresponse_def Let_def m if_not_P [OF f] using fill_header_be [OF small] by (simp add: frame_def add.commute)
    qed
    then show ?thesis unfolding r using False by (auto simp: response_frames_def response_contents_def)
  qed
qed

lemma unpack_response_head: "unpack_uint32 (fill_uint32 s @ y) 0 = s"
  using unpack_fill [of 0 "[]" s y] by simp

lemma unpack_response_type: "length y = 4 \<Longrightarrow> (y @ t # z) ! 4 = t"
  by (simp add: nth_append)

lemma response_contents_unpack: "map lunpackresponse (response_contents r) = map Some (response_us r)"
proof -
  obtain session ok msg where r: "r = (session, ok, msg)" by (cases r)
  have parts: "map lunpackresponse (part_contents (response_content s) m n) = map Some (parts_responses s m n)" for s m n
    by (induction n arbitrary: m)
      (simp_all add: Let_def lunpackresponse_def response_content_def unpack_response_head unpack_response_type)
  have size_n: "unpack_uint32 (fill_uint32 s @ 2 # fill_uint32 k) 5 = k" for s k
    using unpack_fill [of 5 "fill_uint32 s @ [2]" k "[]"] by simp
  show ?thesis unfolding r
    by (auto simp: response_contents_def response_us_def parts lunpackresponse_def Let_def unpack_response_head unpack_response_type size_n)
qed

lemma own_responses:
  assumes "0 < n" "lconcat (t @ map Piece (pieces msg n)) = Some (Some m)"
  shows "feeds own_response (Some t) (parts_responses session msg n) = Some (None, [(session, True, Some m)])"
  using assms
proof (induction n arbitrary: t msg)
  case (Suc n)
  let ?s = "min MULTI_PART (length msg)"
  show ?case
  proof (cases n)
    case 0
    then show ?thesis using Suc.prems(2) by (simp add: append_data_def Let_def)
  next
    case (Suc n')
    have "feeds own_response (Some (t @ [Piece (take ?s msg)])) (parts_responses session (drop ?s msg) n) = Some (None, [(session, True, Some m)])"
      by (rule Suc.IH) (use Suc Suc.prems(2) in \<open>simp_all add: Let_def\<close>)
    then show ?thesis using Suc by (simp add: append_data_def Let_def)
  qed
qed simp

lemma own_response_us:
  assumes "valid_response r"
  shows "feeds own_response None (response_us r) = Some (None, [answer_of r])"
proof -
  obtain session ok msg where r: "r = (session, ok, msg)" by (cases r)
  show ?thesis
  proof (cases "ok \<and> length msg > MULTI_PART")
    case True
    then have pos: "0 < parts_of (length msg)" by (simp add: parts_of_def)
    have small: "length msg < 2 ^ 31" using assms r by simp
    then have sz: "uint (of_nat (length msg) :: u32) = int (length msg)" by (rule uint_length)
    have "lconcat ([Size (int (length msg))] @ map Piece (pieces msg (parts_of (length msg)))) = Some (Some msg)"
      using lconcat_pieces [OF pieces_concat [OF parts_of_enough(1)] small] by simp
    from own_responses [OF pos this, of "of_int session"] show ?thesis
      using True r by (simp add: response_us_def append_data_def sz)
  qed (auto simp: r response_us_def)
qed

lemma response_us_session: "u \<in> set (response_us r) \<Longrightarrow> fst u = of_int (fst r)"
proof -
  have "u \<in> set (parts_responses s m n) \<Longrightarrow> fst u = s" for s m n by (induction n arbitrary: m) (auto simp: Let_def)
  then show "u \<in> set (response_us r) \<Longrightarrow> fst u = of_int (fst r)" by (auto simp: response_us_def split: if_splits prod.splits)
qed

interpretation responses: session_receiver own_response None fst fst valid_response response_us "\<lambda>r. of_int (fst r) :: u32" answer_of
proof
  show "own_response o1 u = Some (o2, out) \<Longrightarrow> d \<in> set out \<Longrightarrow> fst d = fst u" for o1 u o2 out d
    by (cases "(o1, u)" rule: own_response.cases) (auto split: option.splits if_splits Option.bind_splits)
  show "valid_response r \<Longrightarrow> feeds own_response None (response_us r) = Some (None, [answer_of r])" for r by (rule own_response_us)
  show "u \<in> set (response_us r) \<Longrightarrow> fst u = of_int (fst r)" for u r by (rule response_us_session)
  show "fst (answer_of r) = of_int (fst r)" for r by (cases r) simp
  show "response_us r \<noteq> []" for r by (cases r) (simp add: response_us_def)
qed



end
