(* ===== verification/Stm.thy ===== *)
theory Stm
  imports Locks
begin

text \<open>
  Shared messages (\<open>lualib-src/lua-stm.c\<close>): an object is shared by one writer and any number of readers, possibly in different services;
  the writer replaces the message, the readers see whether it changed. Objects and messages count their references. A call is one step here;
  the last section takes apart the one call whose lock does not make it so. \<open>None\<close> is a failed assertion or the use of freed memory.
\<close>

section \<open>Objects and copies\<close>

record stm_copy =
  cp_reference :: int
  cp_msg :: bytes

record stm_object =
  ob_reference :: int
  ob_copy :: "nat option"

text \<open>The memory in use. Where an operation allocates, the address is an argument.\<close>

record stm_heap =
  hp_copies :: "nat \<rightharpoonup> stm_copy"
  hp_objects :: "nat \<rightharpoonup> stm_object"

definition stm_newcopy :: "stm_heap \<Rightarrow> nat \<Rightarrow> bytes \<Rightarrow> stm_heap" where
  "stm_newcopy h c msg = h\<lparr>hp_copies := (hp_copies h)(c \<mapsto> \<lparr>cp_reference = 1, cp_msg = msg\<rparr>)\<rparr>"

definition stm_new :: "stm_heap \<Rightarrow> nat \<Rightarrow> nat \<Rightarrow> bytes \<Rightarrow> stm_heap" where
  "stm_new h ob c msg =
     (let h = stm_newcopy h c msg in h\<lparr>hp_objects := (hp_objects h)(ob \<mapsto> \<lparr>ob_reference = 1, ob_copy = Some c\<rparr>)\<rparr>)"

definition stm_releasecopy :: "stm_heap \<Rightarrow> nat option \<Rightarrow> stm_heap option" where
  "stm_releasecopy h copy =
     (case copy of
        None \<Rightarrow> Some h
      | Some c \<Rightarrow> do {
          x \<leftarrow> hp_copies h c;
          let x = x\<lparr>cp_reference := cp_reference x - 1\<rparr>;
          Some (h\<lparr>hp_copies := (hp_copies h)(c := if cp_reference x = 0 then None else Some x)\<rparr>)
        })"

definition stm_release :: "stm_heap \<Rightarrow> nat \<Rightarrow> stm_heap option" where
  "stm_release h ob = do {
     x \<leftarrow> hp_objects h ob;
     h \<leftarrow> (if ob_copy x = None then None else stm_releasecopy h (ob_copy x));
     let x = x\<lparr>ob_copy := None, ob_reference := ob_reference x - 1\<rparr>;
     Some (h\<lparr>hp_objects := (hp_objects h)(ob := if ob_reference x > 0 then Some x else None)\<rparr>)
   }"

definition stm_releasereader :: "stm_heap \<Rightarrow> nat \<Rightarrow> stm_heap option" where
  "stm_releasereader h ob = do {
     x \<leftarrow> hp_objects h ob;
     let x = x\<lparr>ob_reference := ob_reference x - 1\<rparr>;
     if ob_reference x = 0
     then if ob_copy x = None then Some (h\<lparr>hp_objects := (hp_objects h)(ob := None)\<rparr>) else None
     else Some (h\<lparr>hp_objects := (hp_objects h)(ob \<mapsto> x)\<rparr>)
   }"

definition stm_grab :: "stm_heap \<Rightarrow> nat \<Rightarrow> stm_heap option" where
  "stm_grab h ob = do {
     x \<leftarrow> hp_objects h ob;
     if ob_reference x > 0 then Some (h\<lparr>hp_objects := (hp_objects h)(ob \<mapsto> x\<lparr>ob_reference := ob_reference x + 1\<rparr>)\<rparr>) else None
   }"

definition stm_copy_of :: "stm_heap \<Rightarrow> nat \<Rightarrow> (stm_heap \<times> nat option) option" where
  "stm_copy_of h ob = do {
     x \<leftarrow> hp_objects h ob;
     case ob_copy x of
       None \<Rightarrow> Some (h, None)
     | Some c \<Rightarrow> do {
         y \<leftarrow> hp_copies h c;
         if cp_reference y > 0 then Some (h\<lparr>hp_copies := (hp_copies h)(c \<mapsto> y\<lparr>cp_reference := cp_reference y + 1\<rparr>)\<rparr>, Some c) else None
       }
   }"

definition stm_update :: "stm_heap \<Rightarrow> nat \<Rightarrow> nat \<Rightarrow> bytes \<Rightarrow> stm_heap option" where
  "stm_update h ob c msg = do {
     let h = stm_newcopy h c msg;
     x \<leftarrow> hp_objects h ob;
     stm_releasecopy (h\<lparr>hp_objects := (hp_objects h)(ob \<mapsto> x\<lparr>ob_copy := Some c\<rparr>)\<rparr>) (ob_copy x)
   }"

section \<open>The Lua calls\<close>

text \<open>
  The boxes that Lua holds: the objects of the writers, the objects that were copied and have no reader yet, and the objects of the
  readers with their last copy. A box is collected once; its delete function is called then.
\<close>

record stm_boxes =
  bx_writers :: "nat multiset"
  bx_copied :: "nat multiset"
  bx_readers :: "(nat \<times> nat option) multiset"

text \<open>The new last copy, and the message when it has changed.\<close>

definition stm_lread :: "stm_heap \<Rightarrow> nat \<Rightarrow> nat option \<Rightarrow> (stm_heap \<times> nat option \<times> bytes option) option" where
  "stm_lread h ob lastcopy = do {
     (h, copy) \<leftarrow> stm_copy_of h ob;
     if copy = lastcopy then map_option (\<lambda>h. (h, lastcopy, None)) (stm_releasecopy h copy)
     else do {
       h \<leftarrow> stm_releasecopy h lastcopy;
       case copy of None \<Rightarrow> Some (h, None, None) | Some c \<Rightarrow> do { y \<leftarrow> hp_copies h c; Some (h, copy, Some (cp_msg y)) }
     }
   }"

definition stm_deletereader :: "stm_heap \<Rightarrow> nat \<Rightarrow> nat option \<Rightarrow> stm_heap option" where
  "stm_deletereader h ob lastcopy = do { h \<leftarrow> stm_releasereader h ob; stm_releasecopy h lastcopy }"

inductive stm_call :: "stm_heap \<times> stm_boxes \<Rightarrow> stm_heap \<times> stm_boxes \<Rightarrow> bool" where
  newwriter: "hp_objects h ob = None \<Longrightarrow> hp_copies h c = None \<Longrightarrow>
    stm_call (h, b) (stm_new h ob c msg, b\<lparr>bx_writers := add_mset ob (bx_writers b)\<rparr>)"
| copy: "ob \<in># bx_writers b \<Longrightarrow> stm_grab h ob = Some h' \<Longrightarrow>
    stm_call (h, b) (h', b\<lparr>bx_copied := add_mset ob (bx_copied b)\<rparr>)"
| newreader: "ob \<in># bx_copied b \<Longrightarrow>
    stm_call (h, b) (h, b\<lparr>bx_copied := bx_copied b - {#ob#}, bx_readers := add_mset (ob, None) (bx_readers b)\<rparr>)"
| update: "ob \<in># bx_writers b \<Longrightarrow> hp_copies h c = None \<Longrightarrow> stm_update h ob c msg = Some h' \<Longrightarrow> stm_call (h, b) (h', b)"
| read: "(ob, lastcopy) \<in># bx_readers b \<Longrightarrow> stm_lread h ob lastcopy = Some (h', lastcopy', r) \<Longrightarrow>
    stm_call (h, b) (h', b\<lparr>bx_readers := add_mset (ob, lastcopy') (bx_readers b - {#(ob, lastcopy)#})\<rparr>)"
| deletewriter: "ob \<in># bx_writers b \<Longrightarrow> stm_release h ob = Some h' \<Longrightarrow>
    stm_call (h, b) (h', b\<lparr>bx_writers := bx_writers b - {#ob#}\<rparr>)"
| deletereader: "(ob, lastcopy) \<in># bx_readers b \<Longrightarrow> stm_deletereader h ob lastcopy = Some h' \<Longrightarrow>
    stm_call (h, b) (h', b\<lparr>bx_readers := bx_readers b - {#(ob, lastcopy)#}\<rparr>)"

inductive_cases stm_callE: "stm_call s s'"

definition stm_start :: "stm_heap \<times> stm_boxes" where
  "stm_start = (\<lparr>hp_copies = Map.empty, hp_objects = Map.empty\<rparr>, \<lparr>bx_writers = {#}, bx_copied = {#}, bx_readers = {#}\<rparr>)"

inductive stm_reachable :: "stm_heap \<times> stm_boxes \<Rightarrow> bool" where
  start: "stm_reachable stm_start"
| call: "stm_reachable s \<Longrightarrow> stm_call s s' \<Longrightarrow> stm_reachable s'"

section \<open>Reference counts\<close>

definition obj_refs :: "stm_heap \<Rightarrow> nat \<Rightarrow> int" where
  "obj_refs h ob = (case hp_objects h ob of None \<Rightarrow> 0 | Some x \<Rightarrow> ob_reference x)"

definition cp_refs :: "stm_heap \<Rightarrow> nat \<Rightarrow> int" where
  "cp_refs h c = (case hp_copies h c of None \<Rightarrow> 0 | Some x \<Rightarrow> cp_reference x)"

definition obj_copy :: "stm_heap \<Rightarrow> nat \<Rightarrow> nat option" where
  "obj_copy h ob = Option.bind (hp_objects h ob) ob_copy"

definition pos :: "stm_heap \<Rightarrow> bool" where
  "pos h \<longleftrightarrow> (\<forall>x \<in> ran (hp_objects h). 0 < ob_reference x) \<and> (\<forall>x \<in> ran (hp_copies h). 0 < cp_reference x)"

lemma alive_object: "pos h \<Longrightarrow> hp_objects h ob \<noteq> None \<longleftrightarrow> 0 < obj_refs h ob"
  by (auto simp: pos_def obj_refs_def ran_def split: option.splits)

lemma alive_copy: "pos h \<Longrightarrow> hp_copies h c \<noteq> None \<longleftrightarrow> 0 < cp_refs h c"
  by (auto simp: pos_def cp_refs_def ran_def split: option.splits)

lemma refs_nonneg: "pos h \<Longrightarrow> 0 \<le> cp_refs h c" "pos h \<Longrightarrow> 0 \<le> obj_refs h ob"
  by (auto simp: pos_def cp_refs_def obj_refs_def ran_def split: option.splits)

text \<open>What the operations do to the counts, when what they touch is alive.\<close>

lemma releasecopy_refs:
  assumes "pos h" "\<forall>c. copy = Some c \<longrightarrow> 0 < cp_refs h c"
  shows "\<exists>h'. stm_releasecopy h copy = Some h' \<and> pos h' \<and> hp_objects h' = hp_objects h \<and>
    (\<forall>c. cp_refs h' c = cp_refs h c - (if copy = Some c then 1 else 0)) \<and>
    (\<forall>c y. hp_copies h c = Some y \<longrightarrow> 0 < cp_refs h' c \<longrightarrow> (\<exists>y'. hp_copies h' c = Some y' \<and> cp_msg y' = cp_msg y))"
proof (cases copy)
  case None
  then show ?thesis using assms(1) by (simp add: stm_releasecopy_def)
next
  case (Some c)
  then obtain x where x: "hp_copies h c = Some x" "0 < cp_reference x"
    using assms by (auto simp: cp_refs_def split: option.splits)
  show ?thesis using assms(1) x Some
    by (auto simp: stm_releasecopy_def pos_def cp_refs_def ran_def split: if_splits)
qed

lemma copy_of_refs:
  assumes "pos h" "0 < obj_refs h ob" "\<forall>c. obj_copy h ob = Some c \<longrightarrow> 0 < cp_refs h c"
  shows "\<exists>h'. stm_copy_of h ob = Some (h', obj_copy h ob) \<and> pos h' \<and> hp_objects h' = hp_objects h \<and>
    (\<forall>c. cp_refs h' c = cp_refs h c + (if obj_copy h ob = Some c then 1 else 0)) \<and>
    (\<forall>c y. hp_copies h c = Some y \<longrightarrow> (\<exists>y'. hp_copies h' c = Some y' \<and> cp_msg y' = cp_msg y))"
proof -
  obtain x where x: "hp_objects h ob = Some x" using assms(2) by (auto simp: obj_refs_def split: option.splits)
  show ?thesis
  proof (cases "ob_copy x")
    case None
    then show ?thesis using x assms(1) by (simp add: stm_copy_of_def obj_copy_def)
  next
    case (Some c)
    then have "0 < cp_refs h c" using assms(3) x by (simp add: obj_copy_def)
    then obtain y where y: "hp_copies h c = Some y" "0 < cp_reference y" by (auto simp: cp_refs_def split: option.splits)
    show ?thesis using x y Some assms(1) by (auto simp: stm_copy_of_def obj_copy_def pos_def cp_refs_def ran_def)
  qed
qed

definition stm_inv :: "stm_heap \<times> stm_boxes \<Rightarrow> bool" where
  "stm_inv = (\<lambda>(h, b). pos h \<and>
     (\<forall>ob. obj_refs h ob = int (count (bx_writers b) ob) + int (count (bx_copied b) ob) + int (count (image_mset fst (bx_readers b)) ob)) \<and>
     (\<forall>ob. count (bx_writers b) ob = (if obj_copy h ob = None then 0 else 1)) \<and>
     (\<forall>c. cp_refs h c = (if Some c \<in> range (obj_copy h) then 1 else 0) + int (count (image_mset snd (bx_readers b)) (Some c))) \<and>
     (\<forall>o1 o2 c. obj_copy h o1 = Some c \<and> obj_copy h o2 = Some c \<longrightarrow> o1 = o2))"

lemma stm_invI:
  assumes "pos h"
    "\<And>ob. obj_refs h ob = int (count (bx_writers b) ob) + int (count (bx_copied b) ob) + int (count (image_mset fst (bx_readers b)) ob)"
    "\<And>ob. count (bx_writers b) ob = (if obj_copy h ob = None then 0 else 1)"
    "\<And>c. cp_refs h c = (if Some c \<in> range (obj_copy h) then 1 else 0) + int (count (image_mset snd (bx_readers b)) (Some c))"
    "\<And>o1 o2 c. obj_copy h o1 = Some c \<and> obj_copy h o2 = Some c \<longrightarrow> o1 = o2"
  shows "stm_inv (h, b)"
  unfolding stm_inv_def prod.case using assms by blast

lemma range_some: "Some a \<in> range f \<longleftrightarrow> (\<exists>x. f x = Some a)"
  by (metis imageE rangeI)

lemma range_remove:
  assumes "f ob = Some d" "\<And>o1. f o1 = Some d \<Longrightarrow> o1 = ob"
  shows "Some a \<in> range (f(ob := None)) \<longleftrightarrow> a \<noteq> d \<and> Some a \<in> range f"
  unfolding range_some using assms by (metis fun_upd_apply option.distinct(1) option.inject)

lemma range_replace:
  assumes "f ob = Some d" "\<And>o1. f o1 = Some d \<Longrightarrow> o1 = ob" "Some c \<notin> range f"
  shows "Some a \<in> range (f(ob \<mapsto> c)) \<longleftrightarrow> a = c \<or> a \<noteq> d \<and> Some a \<in> range f"
  using assms unfolding range_some by (metis fun_upd_apply option.inject)

lemma stm_inv_start: "stm_inv stm_start"
  by (simp add: stm_inv_def stm_start_def pos_def obj_refs_def cp_refs_def obj_copy_def image_def)

lemma count_image: "(a, l) \<in># R \<Longrightarrow> 0 < count (image_mset fst R) a \<and> 0 < count (image_mset snd R) l"
  by (metis count_greater_zero_iff fst_conv image_eqI set_image_mset snd_conv)

lemma count_fst_remove: "(a, l) \<in># R \<Longrightarrow> int (count (image_mset fst (R - {#(a, l)#})) x) = int (count (image_mset fst R) x) - (if x = a then 1 else 0)"
  by (simp add: image_mset_Diff) (metis count_image less_numeral_extra(3) of_nat_diff Suc_leI One_nat_def of_nat_1)

lemma count_snd_remove: "(a, l) \<in># R \<Longrightarrow> int (count (image_mset snd (R - {#(a, l)#})) x) = int (count (image_mset snd R) x) - (if x = l then 1 else 0)"
  by (simp add: image_mset_Diff) (metis count_image less_numeral_extra(3) of_nat_diff Suc_leI One_nat_def of_nat_1)

lemma stm_invD:
  assumes "stm_inv (h, b)"
  shows "pos h"
    "obj_refs h ob = int (count (bx_writers b) ob) + int (count (bx_copied b) ob) + int (count (image_mset fst (bx_readers b)) ob)"
    "count (bx_writers b) ob = (if obj_copy h ob = None then 0 else 1)"
    "cp_refs h c = (if Some c \<in> range (obj_copy h) then 1 else 0) + int (count (image_mset snd (bx_readers b)) (Some c))"
    "obj_copy h o1 = Some c \<Longrightarrow> obj_copy h o2 = Some c \<Longrightarrow> o1 = o2"
  using assms unfolding stm_inv_def by auto

lemma writer_alive:
  assumes "stm_inv (h, b)" "ob \<in># bx_writers b"
  shows "0 < obj_refs h ob" "\<exists>c. obj_copy h ob = Some c \<and> 0 < cp_refs h c"
proof -
  have w: "0 < count (bx_writers b) ob" using assms(2) by simp
  then show "0 < obj_refs h ob" using stm_invD(2) [OF assms(1), of ob] by linarith
  obtain c where c: "obj_copy h ob = Some c" using w stm_invD(3) [OF assms(1), of ob] by (auto split: if_splits)
  then have "Some c \<in> range (obj_copy h)" by (metis rangeI)
  then show "\<exists>c. obj_copy h ob = Some c \<and> 0 < cp_refs h c" using c stm_invD(4) [OF assms(1), of c] by auto
qed

lemma reader_alive:
  assumes "stm_inv (h, b)" "(ob, l) \<in># bx_readers b"
  shows "0 < obj_refs h ob" "\<forall>c. l = Some c \<longrightarrow> 0 < cp_refs h c" "\<forall>c. obj_copy h ob = Some c \<longrightarrow> 0 < cp_refs h c"
proof -
  note n = count_image [OF assms(2)]
  show "0 < obj_refs h ob" using stm_invD(2) [OF assms(1), of ob] n by linarith
  show "\<forall>c. l = Some c \<longrightarrow> 0 < cp_refs h c"
  proof (intro allI impI)
    fix c
    assume "l = Some c"
    then show "0 < cp_refs h c" using stm_invD(4) [OF assms(1), of c] n by auto
  qed
  show "\<forall>c. obj_copy h ob = Some c \<longrightarrow> 0 < cp_refs h c"
  proof (intro allI impI)
    fix c
    assume "obj_copy h ob = Some c"
    then have "Some c \<in> range (obj_copy h)" by (metis rangeI)
    then show "0 < cp_refs h c" using stm_invD(4) [OF assms(1), of c] by auto
  qed
qed

lemma last_reader:
  assumes "stm_inv (h, b)" "(ob, l) \<in># bx_readers b"
  shows "obj_refs h ob = 1 \<longrightarrow> obj_copy h ob = None"
proof (rule impI, rule ccontr)
  assume "obj_refs h ob = 1" "obj_copy h ob \<noteq> None"
  moreover have "0 < count (image_mset fst (bx_readers b)) ob" using count_image [OF assms(2)] by blast
  ultimately show False using stm_invD(2,3) [OF assms(1), of ob] by simp
qed

lemma grab_refs:
  assumes "pos h" "0 < obj_refs h ob"
  shows "\<exists>h'. stm_grab h ob = Some h' \<and> pos h' \<and> hp_copies h' = hp_copies h \<and> obj_copy h' = obj_copy h \<and>
    (\<forall>a. obj_refs h' a = obj_refs h a + (if a = ob then 1 else 0))"
proof -
  obtain x where "hp_objects h ob = Some x" "0 < ob_reference x" using assms by (auto simp: obj_refs_def split: option.splits)
  then show ?thesis using assms(1) by (auto simp: stm_grab_def pos_def obj_refs_def obj_copy_def ran_def fun_eq_iff)
qed

lemma releasereader_refs:
  assumes "pos h" "0 < obj_refs h ob" "obj_refs h ob = 1 \<longrightarrow> obj_copy h ob = None"
  shows "\<exists>h'. stm_releasereader h ob = Some h' \<and> pos h' \<and> hp_copies h' = hp_copies h \<and> obj_copy h' = obj_copy h \<and>
    (\<forall>a. obj_refs h' a = obj_refs h a - (if a = ob then 1 else 0))"
proof -
  obtain x where x: "hp_objects h ob = Some x" "0 < ob_reference x" using assms by (auto simp: obj_refs_def split: option.splits)
  show ?thesis
  proof (cases "ob_reference x = 1")
    case True
    then have "ob_copy x = None" using assms(3) x by (simp add: obj_refs_def obj_copy_def)
    then show ?thesis using assms(1) x True
      by (auto simp: stm_releasereader_def pos_def obj_refs_def obj_copy_def ran_def fun_eq_iff)
  next
    case False
    then show ?thesis using assms(1) x
      by (auto simp: stm_releasereader_def pos_def obj_refs_def obj_copy_def ran_def fun_eq_iff)
  qed
qed

lemma release_refs:
  assumes "pos h" "0 < obj_refs h ob" "obj_copy h ob = Some c" "0 < cp_refs h c"
  shows "\<exists>h'. stm_release h ob = Some h' \<and> pos h' \<and> obj_copy h' = (obj_copy h)(ob := None) \<and>
    (\<forall>a. obj_refs h' a = obj_refs h a - (if a = ob then 1 else 0)) \<and> (\<forall>a. cp_refs h' a = cp_refs h a - (if a = c then 1 else 0))"
proof -
  obtain x where x: "hp_objects h ob = Some x" "0 < ob_reference x" using assms(1,2) by (auto simp: obj_refs_def split: option.splits)
  have c: "ob_copy x = Some c" using assms(3) x by (simp add: obj_copy_def)
  have "\<forall>a. Some c = Some a \<longrightarrow> 0 < cp_refs h a" using assms(4) by simp
  from releasecopy_refs [OF assms(1) this] obtain h1 where h: "stm_releasecopy h (Some c) = Some h1" "pos h1" "hp_objects h1 = hp_objects h"
    "\<forall>a. cp_refs h1 a = cp_refs h a - (if Some c = Some a then 1 else 0)" by blast
  then have h1: "stm_releasecopy h (Some c) = Some h1" "pos h1" "hp_objects h1 = hp_objects h"
    "\<forall>a. cp_refs h1 a = cp_refs h a - (if a = c then 1 else 0)" by auto
  let ?x = "x\<lparr>ob_copy := None, ob_reference := ob_reference x - 1\<rparr>"
  let ?h = "h1\<lparr>hp_objects := (hp_objects h)(ob := if 0 < ob_reference ?x then Some ?x else None)\<rparr>"
  have "stm_release h ob = Some ?h" using x c h1(1,3) by (simp add: stm_release_def Let_def)
  moreover have "pos ?h" using h1(2,3) by (auto simp: pos_def ran_def)
  moreover have "obj_copy ?h = (obj_copy h)(ob := None)" by (auto simp: obj_copy_def fun_eq_iff)
  moreover have "obj_refs ?h a = obj_refs h a - (if a = ob then 1 else 0)" for a using x by (auto simp: obj_refs_def)
  moreover have "cp_refs ?h a = cp_refs h1 a" for a by (simp add: cp_refs_def)
  ultimately show ?thesis using h1(4) by auto
qed

lemma update_refs:
  assumes "pos h" "0 < obj_refs h ob" "obj_copy h ob = Some d" "0 < cp_refs h d" "hp_copies h c = None"
  shows "\<exists>h'. stm_update h ob c msg = Some h' \<and> pos h' \<and> obj_copy h' = (obj_copy h)(ob \<mapsto> c) \<and>
    (\<forall>a. obj_refs h' a = obj_refs h a) \<and> (\<forall>a. cp_refs h' a = cp_refs h a + (if a = c then 1 else 0) - (if a = d then 1 else 0)) \<and>
    (\<exists>y. hp_copies h' c = Some y \<and> cp_msg y = msg)"
proof -
  obtain x where x: "hp_objects h ob = Some x" "0 < ob_reference x" using assms(1,2) by (auto simp: obj_refs_def split: option.splits)
  have d: "ob_copy x = Some d" "d \<noteq> c" using assms(3,4,5) x by (auto simp: obj_copy_def cp_refs_def)
  let ?h = "(stm_newcopy h c msg)\<lparr>hp_objects := (hp_objects h)(ob \<mapsto> x\<lparr>ob_copy := Some c\<rparr>)\<rparr>"
  have p: "pos ?h" using assms(1) x by (auto simp: pos_def stm_newcopy_def ran_def)
  have refs: "cp_refs ?h a = cp_refs h a + (if a = c then 1 else 0)" for a using assms(5) by (simp add: cp_refs_def stm_newcopy_def)
  have alive: "\<forall>a. Some d = Some a \<longrightarrow> 0 < cp_refs ?h a" using refs [of d] d(2) assms(4) by simp
  from releasecopy_refs [OF p alive] obtain h' where h: "stm_releasecopy ?h (Some d) = Some h'" "pos h'" "hp_objects h' = hp_objects ?h"
    "\<forall>a. cp_refs h' a = cp_refs ?h a - (if Some d = Some a then 1 else 0)"
    and h5: "\<forall>a y. hp_copies ?h a = Some y \<longrightarrow> 0 < cp_refs h' a \<longrightarrow> (\<exists>y'. hp_copies h' a = Some y' \<and> cp_msg y' = cp_msg y)" by blast
  then have h': "stm_releasecopy ?h (Some d) = Some h'" "pos h'" "hp_objects h' = hp_objects ?h"
    "\<forall>a. cp_refs h' a = cp_refs ?h a - (if a = d then 1 else 0)" by auto
  have "0 < cp_refs h' c" using h'(4) refs d(2) assms(5) by (simp add: cp_refs_def)
  moreover have "hp_copies ?h c = Some \<lparr>cp_reference = 1, cp_msg = msg\<rparr>" by (simp add: stm_newcopy_def)
  ultimately have "\<exists>y. hp_copies h' c = Some y \<and> cp_msg y = msg" using h5 by fastforce
  moreover have "stm_update h ob c msg = Some h'" using x d h'(1) by (simp add: stm_update_def Let_def stm_newcopy_def)
  moreover have "obj_copy h' = (obj_copy h)(ob \<mapsto> c)" using h'(3) by (auto simp: obj_copy_def fun_eq_iff)
  moreover have "obj_refs h' a = obj_refs h a" for a using h'(3) x by (simp add: obj_refs_def)
  ultimately show ?thesis using h'(2,4) refs by auto
qed

text \<open>A read returns the present message unless the last copy is it.\<close>

lemma lread_refs:
  assumes "pos h" "0 < obj_refs h ob" "\<forall>c. obj_copy h ob = Some c \<longrightarrow> 0 < cp_refs h c" "\<forall>c. l = Some c \<longrightarrow> 0 < cp_refs h c"
  shows "\<exists>h' r. stm_lread h ob l = Some (h', obj_copy h ob, r) \<and> pos h' \<and> hp_objects h' = hp_objects h \<and>
    (\<forall>a. cp_refs h' a = cp_refs h a + (if obj_copy h ob = Some a then 1 else 0) - (if l = Some a then 1 else 0)) \<and>
    r = (if obj_copy h ob = l then None else map_option (\<lambda>c. cp_msg (the (hp_copies h c))) (obj_copy h ob))"
proof -
  obtain h1 where h1: "stm_copy_of h ob = Some (h1, obj_copy h ob)" "pos h1" "hp_objects h1 = hp_objects h"
    "\<forall>c. cp_refs h1 c = cp_refs h c + (if obj_copy h ob = Some c then 1 else 0)"
    "\<forall>c y. hp_copies h c = Some y \<longrightarrow> (\<exists>y'. hp_copies h1 c = Some y' \<and> cp_msg y' = cp_msg y)"
    using copy_of_refs [OF assms(1-3)] by blast
  have "\<forall>c. l = Some c \<longrightarrow> 0 < cp_refs h1 c" using assms(4) h1(4) by auto
  then obtain h2 where h2: "stm_releasecopy h1 l = Some h2" "pos h2" "hp_objects h2 = hp_objects h1"
    "\<forall>c. cp_refs h2 c = cp_refs h1 c - (if l = Some c then 1 else 0)"
    "\<forall>c y. hp_copies h1 c = Some y \<longrightarrow> 0 < cp_refs h2 c \<longrightarrow> (\<exists>y'. hp_copies h2 c = Some y' \<and> cp_msg y' = cp_msg y)"
    using releasecopy_refs [OF h1(2)] by blast
  have rest: "pos h2" "hp_objects h2 = hp_objects h"
    "\<forall>a. cp_refs h2 a = cp_refs h a + (if obj_copy h ob = Some a then 1 else 0) - (if l = Some a then 1 else 0)"
    using h1 h2 by auto
  show ?thesis
  proof (cases "obj_copy h ob = l")
    case True
    then have "stm_lread h ob l = Some (h2, obj_copy h ob, None)" using h1(1) h2(1) by (simp add: stm_lread_def)
    then show ?thesis using rest True by simp
  next
    case False
    show ?thesis
    proof (cases "obj_copy h ob")
      case None
      then have "stm_lread h ob l = Some (h2, None, None)" using h1(1) h2(1) False by (simp add: stm_lread_def)
      then show ?thesis using rest None by simp
    next
      case (Some c)
      then have c: "0 < cp_refs h c" using assms(3) by simp
      then obtain y where y: "hp_copies h c = Some y" by (auto simp: cp_refs_def split: option.splits)
      have "0 < cp_refs h2 c" using rest(3) Some False c by auto
      then obtain y' where y': "hp_copies h2 c = Some y'" "cp_msg y' = cp_msg y" using y h1(5) h2(5) by fastforce
      have "stm_lread h ob l = Some (h2, obj_copy h ob, Some (cp_msg y))" using h1(1) h2(1) False Some y' by (simp add: stm_lread_def)
      then show ?thesis using rest False Some y by simp
    qed
  qed
qed

text \<open>A call keeps the counts right.\<close>

lemma stm_inv_call:
  assumes "stm_call s s'" "stm_inv s"
  shows "stm_inv s'"
  using assms(1)
proof (cases rule: stm_call.cases)
  case (newwriter h ob c b msg)
  have inv: "stm_inv (h, b)" using assms(2) newwriter by simp
  note D = stm_invD [OF inv]
  let ?h = "stm_new h ob c msg"
  have none: "obj_copy h ob = None" "obj_refs h ob = 0" "cp_refs h c = 0"
    using newwriter by (simp_all add: obj_copy_def obj_refs_def cp_refs_def)
  have new: "obj_copy ?h = (obj_copy h)(ob \<mapsto> c)" "obj_refs ?h = (obj_refs h)(ob := 1)" "cp_refs ?h = (cp_refs h)(c := 1)"
    by (auto simp: stm_new_def stm_newcopy_def obj_copy_def obj_refs_def cp_refs_def Let_def fun_eq_iff)
  have "pos ?h" using D(1) by (auto simp: pos_def stm_new_def stm_newcopy_def Let_def ran_def)
  then have p: "pos ?h" .
  have fresh: "Some c \<notin> range (obj_copy h)" "count (image_mset snd (bx_readers b)) (Some c) = 0"
    using D(4) [of c] none(3) by (auto split: if_splits)
  have own: "Some a \<in> range ((obj_copy h)(ob \<mapsto> c)) \<longleftrightarrow> a = c \<or> Some a \<in> range (obj_copy h)" for a
    unfolding range_some using none(1) by (metis fun_upd_apply option.distinct(1) option.inject)
  have inj: "((obj_copy h)(ob \<mapsto> c)) o1 = Some a \<and> ((obj_copy h)(ob \<mapsto> c)) o2 = Some a \<longrightarrow> o1 = o2" for o1 o2 a
    using D(5) [of o1 a o2] fresh(1) unfolding range_some by (auto split: if_splits)
  have cps: "cp_refs ?h a = (if a = c \<or> Some a \<in> range (obj_copy h) then 1 else 0) + int (count (image_mset snd (bx_readers b)) (Some a))" for a
    using D(4) [of a] fresh(2) new(3) by auto
  have obs: "obj_refs ?h a = int (count (add_mset ob (bx_writers b)) a) + int (count (bx_copied b) a) + int (count (image_mset fst (bx_readers b)) a)" for a
    using D(2) [of a] none(2) new(2) by auto
  have wrs: "count (add_mset ob (bx_writers b)) a = (if ((obj_copy h)(ob \<mapsto> c)) a = None then 0 else 1)" for a
    using D(3) [of a] none(1) by auto
  show ?thesis unfolding newwriter
  proof (rule stm_invI, goal_cases)
    case (2 a)
    then show ?case using obs [of a] by simp
  next
    case (3 a)
    then show ?case using wrs [of a] new(1) by simp
  next
    case (4 a)
    then show ?case using cps [of a] unfolding new(1) own by simp
  next
    case (5 o1 o2 a)
    then show ?case using inj [of o1 a o2] unfolding new(1) .
  qed (rule p)
next
  case (copy ob b h h')
  have inv: "stm_inv (h, b)" using assms(2) copy by simp
  note D = stm_invD [OF inv]
  obtain g where g: "stm_grab h ob = Some g" "pos g" "hp_copies g = hp_copies h" "obj_copy g = obj_copy h"
    "\<forall>a. obj_refs g a = obj_refs h a + (if a = ob then 1 else 0)"
    using grab_refs [OF D(1) writer_alive(1) [OF inv]] copy by blast
  have "h' = g" "cp_refs g = cp_refs h" using copy g(1,3) by (simp_all add: cp_refs_def fun_eq_iff)
  then show ?thesis unfolding copy stm_inv_def using D g(2,4,5) by auto
next
  case (newreader ob b h)
  have inv: "stm_inv (h, b)" using assms(2) newreader by simp
  note D = stm_invD [OF inv]
  have "int (count (bx_copied b - {#ob#}) a) = int (count (bx_copied b) a) - (if a = ob then 1 else 0)" for a
    using newreader by (auto simp: of_nat_diff Suc_le_eq)
  then show ?thesis unfolding newreader stm_inv_def using D by auto
next
  case (update ob b h c msg h')
  have inv: "stm_inv (h, b)" using assms(2) update by simp
  note D = stm_invD [OF inv]
  obtain d where d: "obj_copy h ob = Some d" "0 < cp_refs h d" using writer_alive(2) [OF inv] update by blast
  obtain g where g: "stm_update h ob c msg = Some g" "pos g" "obj_copy g = (obj_copy h)(ob \<mapsto> c)" "\<forall>a. obj_refs g a = obj_refs h a"
    "\<forall>a. cp_refs g a = cp_refs h a + (if a = c then 1 else 0) - (if a = d then 1 else 0)"
    using update_refs [OF D(1) writer_alive(1) [OF inv] d] update by blast
  have h': "h' = g" using update g(1) by simp
  have "cp_refs h c = 0" using update by (simp add: cp_refs_def)
  then have fresh: "Some c \<notin> range (obj_copy h)" "count (image_mset snd (bx_readers b)) (Some c) = 0"
    using D(4) [of c] by (auto split: if_splits)
  have own: "Some a \<in> range (obj_copy g) \<longleftrightarrow> a = c \<or> a \<noteq> d \<and> Some a \<in> range (obj_copy h)" for a
    unfolding g(3) by (rule range_replace [of "obj_copy h" ob d, OF d(1) D(5) [OF _ d(1)] fresh(1)])
  have dr: "Some d \<in> range (obj_copy h)" using d(1) by (metis rangeI)
  have cp: "cp_refs g a = (if Some a \<in> range (obj_copy g) then 1 else 0) + int (count (image_mset snd (bx_readers b)) (Some a))" for a
    using g(5) own [of a] D(4) [of a] fresh dr by auto
  have inj: "obj_copy g o1 = Some a \<and> obj_copy g o2 = Some a \<longrightarrow> o1 = o2" for o1 o2 a
    using g(3) D(5) [of o1 a o2] fresh(1) unfolding range_some by (auto split: if_splits)
  have wr: "count (bx_writers b) a = (if obj_copy g a = None then 0 else 1)" for a using g(3) D(3) [of a] d(1) by auto
  show ?thesis unfolding update h'
  proof (rule stm_invI, goal_cases)
    case (2 a)
    then show ?case using g(4) D(2) [of a] by simp
  qed (rule g(2) wr cp inj)+
next
  case (read ob l b h h' l' r)
  have inv: "stm_inv (h, b)" using assms(2) read by simp
  note D = stm_invD [OF inv] and A = reader_alive [OF inv read(3)]
  obtain g q where g: "stm_lread h ob l = Some (g, obj_copy h ob, q)" "pos g" "hp_objects g = hp_objects h"
    "\<forall>a. cp_refs g a = cp_refs h a + (if obj_copy h ob = Some a then 1 else 0) - (if l = Some a then 1 else 0)"
    using lread_refs [OF D(1) A(1,3,2)] by blast
  have e: "h' = g" "l' = obj_copy h ob" using read g(1) by simp_all
  have "obj_refs g = obj_refs h" "obj_copy g = obj_copy h" using g(3) by (simp_all add: obj_refs_def obj_copy_def fun_eq_iff)
  note same = this
  show ?thesis unfolding read e
  proof (rule stm_invI, goal_cases)
    case (2 a)
    then show ?case using D(2) [of a] same(1) count_fst_remove [OF read(3), of a] by (auto split: if_splits)
  next
    case (3 a)
    then show ?case using D(3) [of a] same(2) by simp
  next
    case (4 a)
    then show ?case using D(4) [of a] same(2) g(4) count_snd_remove [OF read(3), of "Some a"] by (auto split: if_splits)
  next
    case (5 o1 o2 a)
    then show ?case using D(5) [of o1 a o2] same(2) by simp
  qed (rule g(2))
next
  case (deletewriter ob b h h')
  have inv: "stm_inv (h, b)" using assms(2) deletewriter by simp
  note D = stm_invD [OF inv]
  obtain d where d: "obj_copy h ob = Some d" "0 < cp_refs h d" using writer_alive(2) [OF inv] deletewriter by blast
  obtain g where g: "stm_release h ob = Some g" "pos g" "obj_copy g = (obj_copy h)(ob := None)"
    "\<forall>a. obj_refs g a = obj_refs h a - (if a = ob then 1 else 0)" "\<forall>a. cp_refs g a = cp_refs h a - (if a = d then 1 else 0)"
    using release_refs [OF D(1) writer_alive(1) [OF inv] d] deletewriter by blast
  have h': "h' = g" using deletewriter g(1) by simp
  have own: "Some a \<in> range (obj_copy g) \<longleftrightarrow> a \<noteq> d \<and> Some a \<in> range (obj_copy h)" for a
    unfolding g(3) by (rule range_remove [of "obj_copy h" ob d, OF d(1) D(5) [OF _ d(1)]])
  have dr: "Some d \<in> range (obj_copy h)" using d(1) by (metis rangeI)
  have cp: "cp_refs g a = (if Some a \<in> range (obj_copy g) then 1 else 0) + int (count (image_mset snd (bx_readers b)) (Some a))" for a
    using g(5) own [of a] D(4) [of a] dr by auto
  have w1: "count (bx_writers b) ob = 1" using D(3) [of ob] d(1) by simp
  have inj: "obj_copy g o1 = Some a \<and> obj_copy g o2 = Some a \<longrightarrow> o1 = o2" for o1 o2 a
    using g(3) D(5) by (auto split: if_splits)
  show ?thesis unfolding deletewriter h'
  proof (rule stm_invI, goal_cases)
    case (2 a)
    then show ?case using g(4) D(2) [of a] w1 by (auto simp: of_nat_diff)
  next
    case (3 a)
    then show ?case using g(3) D(3) [of a] w1 by auto
  next
    case (4 a)
    then show ?case using cp [of a] by simp
  qed (rule g(2) inj)+
next
  case (deletereader ob l b h h')
  have inv: "stm_inv (h, b)" using assms(2) deletereader by simp
  note D = stm_invD [OF inv] and A = reader_alive [OF inv deletereader(3)]
  obtain g where g: "stm_releasereader h ob = Some g" "pos g" "hp_copies g = hp_copies h" "obj_copy g = obj_copy h"
    "\<forall>a. obj_refs g a = obj_refs h a - (if a = ob then 1 else 0)"
    using releasereader_refs [OF D(1) A(1) last_reader [OF inv deletereader(3)]] by blast
  have cg: "cp_refs g = cp_refs h" using g(3) by (simp add: cp_refs_def fun_eq_iff)
  then obtain k where k: "stm_releasecopy g l = Some k" "pos k" "hp_objects k = hp_objects g"
    "\<forall>a. cp_refs k a = cp_refs g a - (if l = Some a then 1 else 0)"
    using releasecopy_refs [OF g(2), of l] A(2) by auto
  have h': "h' = k" using deletereader g(1) k(1) by (simp add: stm_deletereader_def)
  have "obj_refs k = obj_refs g" "obj_copy k = obj_copy g" using k(3) by (simp_all add: obj_refs_def obj_copy_def fun_eq_iff)
  note same = this
  show ?thesis unfolding deletereader h'
  proof (rule stm_invI, goal_cases)
    case (2 a)
    then show ?case using D(2) [of a] same(1) g(5) count_fst_remove [OF deletereader(3), of a] by (auto split: if_splits)
  next
    case (3 a)
    then show ?case using D(3) [of a] same(2) g(4) by simp
  next
    case (4 a)
    then show ?case using D(4) [of a] same(2) g(4) k(4) cg count_snd_remove [OF deletereader(3), of "Some a"] by (auto split: if_splits)
  next
    case (5 o1 o2 a)
    then show ?case using D(5) [of o1 a o2] same(2) g(4) by simp
  qed (rule k(2))
qed

lemma stm_reachable_inv: "stm_reachable s \<Longrightarrow> stm_inv s"
  by (induction rule: stm_reachable.induct) (auto intro: stm_inv_start stm_inv_call)

section \<open>What holds of every run\<close>


text \<open>
  A reader sees an update once. In every reachable state, when the writer puts a new message at any free address, the next read of any
  reader returns that message, even where the address was in use before; the read after it returns that nothing changed.
\<close>

theorem stm_reader_sees_update:
  assumes "stm_reachable (h, b)" "ob \<in># bx_writers b" "(ob, l) \<in># bx_readers b" "hp_copies h c = None"
  shows "\<exists>h1 h2 h3. stm_update h ob c msg = Some h1 \<and> stm_lread h1 ob l = Some (h2, Some c, Some msg) \<and>
    stm_lread h2 ob (Some c) = Some (h3, Some c, None)"
proof -
  have inv: "stm_inv (h, b)" using stm_reachable_inv [OF assms(1)] .
  note D = stm_invD [OF inv] and A = reader_alive [OF inv assms(3)]
  obtain d where d: "obj_copy h ob = Some d" "0 < cp_refs h d" using writer_alive(2) [OF inv assms(2)] by blast
  obtain h1 y where h1: "stm_update h ob c msg = Some h1" "obj_copy h1 = (obj_copy h)(ob \<mapsto> c)" "hp_copies h1 c = Some y" "cp_msg y = msg"
    using update_refs [OF D(1) writer_alive(1) [OF inv assms(2)] d assms(4), of msg] by blast
  have "stm_reachable (h1, b)" using assms(1) stm_call.update [OF assms(2,4) h1(1)] by (rule stm_reachable.call)
  note r1 = this
  have inv1: "stm_inv (h1, b)" by (rule stm_reachable_inv [OF r1])
  note D1 = stm_invD [OF inv1] and A1 = reader_alive [OF inv1 assms(3)]
  have cl: "l \<noteq> Some c" using A(2) assms(4) by (auto simp: cp_refs_def)
  obtain h2 where h2: "stm_lread h1 ob l = Some (h2, Some c, Some msg)" "hp_objects h2 = hp_objects h1"
    using lread_refs [OF D1(1) A1(1,3,2)] cl h1 by auto
  let ?b = "b\<lparr>bx_readers := add_mset (ob, Some c) (bx_readers b - {#(ob, l)#})\<rparr>"
  have "stm_reachable (h2, ?b)" using r1 stm_call.read [OF assms(3) h2(1)] by (rule stm_reachable.call)
  then have inv2: "stm_inv (h2, ?b)" by (rule stm_reachable_inv)
  have r2: "(ob, Some c) \<in># bx_readers ?b" by simp
  note A2 = reader_alive [OF inv2 r2]
  have "obj_copy h2 ob = obj_copy h1 ob" using h2(2) by (simp add: obj_copy_def)
  then have "obj_copy h2 ob = Some c" using h1(2) by simp
  then obtain h3 where "stm_lread h2 ob (Some c) = Some (h3, Some c, None)"
    using lread_refs [OF stm_invD(1) [OF inv2] A2(1,3,2)] by auto
  then show ?thesis using h1(1) h2(1) by blast
qed

section \<open>Readers that are collected at the same time\<close>

text \<open>
  \<open>stm_releasereader\<close> one instruction at a time. Both readers hold the read lock while they count down; the last one frees the
  object at once, without a look at the lock. The object is its lock and its reference count, or nothing when it is free.
\<close>

datatype release_pc = In rw_pc | Free | Done

fun releasereader_instr :: "release_pc \<Rightarrow> (rwlock \<times> int) option \<Rightarrow> (release_pc \<times> (rwlock \<times> int) option) option" where
  "releasereader_instr Done ob = Some (Done, ob)"
| "releasereader_instr p None = None"
| "releasereader_instr Free (Some _) = Some (Done, None)"
| "releasereader_instr (In p) (Some (lock, reference)) =
     (if p = Reading then Some (if reference - 1 = 0 then Free else In RUnlock, Some (lock, reference - 1))
      else (let (p', lock) = rwlock_instr p lock in Some (if p = RUnlock then Done else In p', Some (lock, reference))))"

text \<open>The threads take turns as a schedule says.\<close>

fun release_run :: "release_pc list \<Rightarrow> (rwlock \<times> int) option \<Rightarrow> nat list \<Rightarrow> (release_pc list \<times> (rwlock \<times> int) option) option" where
  "release_run ps ob [] = Some (ps, ob)"
| "release_run ps ob (i # is) = do { (p, ob) \<leftarrow> releasereader_instr (ps ! i) ob; release_run (ps[i := p]) ob is }"


section \<open>A run\<close>

text \<open>A writer, a reader that has read the first message.\<close>

definition demo_heap :: stm_heap where
  "demo_heap = \<lparr>hp_copies = [0 \<mapsto> \<lparr>cp_reference = 2, cp_msg = [65]\<rparr>], hp_objects = [0 \<mapsto> \<lparr>ob_reference = 2, ob_copy = Some 0\<rparr>]\<rparr>"

definition demo_boxes :: stm_boxes where
  "demo_boxes = \<lparr>bx_writers = {#0#}, bx_copied = {#}, bx_readers = {#(0, Some 0)#}\<rparr>"

lemma demo_reachable: "stm_reachable (demo_heap, demo_boxes)"
proof -
  let ?b = "\<lambda>w c r. \<lparr>bx_writers = w, bx_copied = c, bx_readers = r\<rparr>"
  let ?h = "\<lambda>m n. \<lparr>hp_copies = [0 \<mapsto> \<lparr>cp_reference = m, cp_msg = [65]\<rparr>], hp_objects = [0 \<mapsto> \<lparr>ob_reference = n, ob_copy = Some 0\<rparr>]\<rparr>"
  have "stm_reachable (?h 1 1, ?b {#0#} {#} {#})"
  proof (rule stm_reachable.call [OF stm_reachable.start])
    show "stm_call stm_start (?h 1 1, ?b {#0#} {#} {#})"
      using stm_call.newwriter [of "fst stm_start" 0 0 "snd stm_start" "[65]"]
      by (simp add: stm_start_def stm_new_def stm_newcopy_def Let_def)
  qed
  from stm_reachable.call [OF this, OF stm_call.copy [of 0 "?b {#0#} {#} {#}" "?h 1 1" "?h 1 2"]]
  have "stm_reachable (?h 1 2, ?b {#0#} {#0#} {#})" by (simp add: stm_grab_def)
  from stm_reachable.call [OF this, OF stm_call.newreader [of 0 "?b {#0#} {#0#} {#}" "?h 1 2"]]
  have "stm_reachable (?h 1 2, ?b {#0#} {#} {#(0, None)#})" by simp
  from stm_reachable.call [OF this, OF stm_call.read [of 0 None "?b {#0#} {#} {#(0, None)#}" "?h 1 2" "?h 2 2" "Some 0" "Some [65]"]]
  show ?thesis by (simp add: stm_lread_def stm_copy_of_def stm_releasecopy_def demo_heap_def demo_boxes_def)
qed


theorem stm_reader_sees_update_witness:
  "\<exists>h1 h2 h3. stm_update demo_heap 0 1 [66] = Some h1 \<and> stm_lread h1 0 (Some 0) = Some (h2, Some 1, Some [66]) \<and>
    stm_lread h2 0 (Some 1) = Some (h3, Some 1, None)"
  using stm_reader_sees_update [OF demo_reachable, of 0 "Some 0" 1 "[66]"] by (simp add: demo_boxes_def demo_heap_def)

end
