(* ===== verification/Spec2Isabelle.thy ===== *)
theory Spec2Isabelle
  imports Scheduler Timer Server Des Dh Codec Gate Netpack Seri HarborService Locks SkynetSocket SocketDemo SocketBuffer Sha1 SprotoPack SprotoDecode SprotoRound SprotoLoad ClusterLink Stm
begin

text \<open>
  A verification library of the skynet server: the C code under \<open>skynet-src/\<close> (the node), \<open>service-src/\<close>
  (services written in C) and \<open>lualib-src/\<close> (libraries called from Lua).

  \<^bold>\<open>The program.\<close> A node runs services. A service has a handle, a mailbox and a callback; a message names its source,
  a session and a type. Worker threads take mailboxes from a global queue and call the callbacks; a timer
  thread sends the responses to timeouts; a socket thread owns the descriptors, turns what epoll reports into messages, and obeys
  the requests that services write to a control pipe. A node belongs to a cluster under a harbor number, the top byte of its
  handles; the harbor service carries messages to the other nodes. The gate service cuts client streams into frames. Most
  services are Lua; the libraries below serialise messages, cut packages, encode and encrypt for them.

  \<^bold>\<open>Conventions.\<close> A structure is a record, an enumeration or a union a datatype, a pointer an address (a natural number,
  \<open>None\<close> for \<open>NULL\<close>), a buffer a list of bytes. Unsigned integers are words of their width; a signed one is an \<open>int\<close> or a
  \<open>nat\<close>, with the wrap-around written out where the code can reach it. A function that mutates its argument returns it
  updated. \<open>None\<close> is a failed assertion, an access outside memory or a loop that does not end; an error that the code reports is a value.
  Loops that may not end are partial functions to \<open>option\<close>; theorems that speak of their results say that there is one. The operations of a thread under a
  lock are atomic steps, and \<open>Locks\<close> verifies the locks themselves.

  \<^bold>\<open>Theories.\<close>

  \<^item> \<open>Prelude\<close>: machine integers, ring buffers, pointer chains, byte orders; the locale \<open>fifo\<close>, the contract of a queue, which
    \<open>Mq\<close>, \<open>Netpack\<close> and \<open>HarborService\<close> provide (interpretations \<open>mq\<close>, \<open>netpack_queue\<close>, \<open>harbor_queue\<close>). \<open>Cstr\<close>: what is
    used of C strings.

  \<^item> \<open>Mq\<close> (\<open>skynet_mq.c\<close>): the ring of a mailbox and its growth; every run of operations is that of a list. \<open>Scheduler\<close>: all
    threads on all mailboxes and the global queue as a step relation; by rule induction no mailbox has two workers, none with
    messages is forgotten, no assertion fails, and a queued mailbox is overtaken only by those before it.

  \<^item> \<open>Timer\<close> (\<open>skynet_timer.c\<close>): the timing wheel. The locale \<open>calendar\<close> says what a tick does to a list of
    expiries; the interpretation \<open>wheel\<close> shows that 256 near slots, four levels and a 32-bit clock that wraps implement it. \<open>skynet_thread_time\<close> (profiling)
    and the system clocks are arguments or left out.

  \<^item> \<open>Names\<close> and \<open>Kernel\<close> (\<open>skynet_handle.c\<close>, state of \<open>skynet_server.c\<close>): the sorted array of local names (locale \<open>name_service\<close>),
    the hashed slots of handles, reference counts, registration and retirement. \<open>Message\<close>, \<open>Server\<close> (\<open>skynet_server.c\<close>,
    \<open>skynet_harbor.c\<close>, \<open>skynet_monitor.c\<close>, \<open>skynet_env.c\<close>, \<open>skynet_error.c\<close>): sending, dispatching, the text commands, the death of a service.
    The code of a service is the parameter \<open>modules\<close>.

  \<^item> \<open>Locks\<close> (\<open>spinlock.h\<close>, \<open>rwlock.h\<close>): one atomic instruction at a time, all interleavings.

  \<^item> \<open>Posix\<close> (\<open>socket_epoll.h\<close> and the system calls, a record of functions), \<open>SocketServer\<close> (\<open>socket_server.c\<close>, every
    function of it). \<open>SocketStream\<close>, \<open>SocketLink\<close>, \<open>SocketConn\<close>: one TCP connection among all calls and all turns of the poll loop;
    the bytes on the wire followed by the bytes that wait are the buffers sent. \<open>SocketDrain\<close>: one event when the kernel takes everything.
    \<open>SocketIds\<close>, \<open>SocketOpen\<close>: ids and opening, and two orders of requests that go wrong. \<open>SocketDemo\<close>: a world in which the
    theorems apply. \<open>SkynetSocket\<close> (\<open>skynet_socket.c\<close>): reports become messages in mailboxes of \<open>Kernel\<close>.

  \<^item> \<open>Service\<close>, \<open>Framing\<close>, \<open>Hashid\<close>, \<open>Databuffer\<close>, \<open>Gate\<close> (\<open>service_gate.c\<close>, \<open>hashid.h\<close>, \<open>databuffer.h\<close>): the gate. The locale \<open>framed_stream\<close> concludes from what one
    chunk does that cutting does not matter; the gate and the harbor interpret it (\<open>gate_stream\<close>, \<open>harbor_stream\<close>), and \<open>multiplexed_stream\<close>
    does it for many connections (\<open>netpacks\<close>). \<open>id_table\<close> is the contract of the table of ids (\<open>hashids\<close>).

  \<^item> \<open>HarborService\<close> (\<open>service_harbor.c\<close>): links, names, queues; two harbors end to end. The handler of a local message is told by the parameter \<open>alive\<close> which
    services exist.

  \<^item> \<open>Netpack\<close> (\<open>lua-netpack.c\<close>), \<open>SocketBuffer\<close> (\<open>lua-socket.c\<close>): packages and receive buffers of Lua services, as lists of frames and as
    byte strings. \<open>Seri\<close> (\<open>lua-seri.c\<close>): the serializer, with its round trip. The recursion of the reader has fuel: \<open>3 * length rb + 2\<close> is enough, since
    every level consumes a byte or counts down an array, and \<open>seri_unpack_returns\<close> proves that it never runs out.

  \<^item> \<open>Des\<close> (locales \<open>block_cipher\<close>, \<open>padding_scheme\<close>, \<open>cipher_mode\<close>, interpreted on DES and both paddings), \<open>Dh\<close>, \<open>Codec\<close>
    (\<open>lua-crypt.c\<close>), \<open>Sha1\<close> (\<open>lsha1.c\<close>): round trips, agreement, and equality with MD5 of RFC 1321 and SHA-1 of FIPS 180.

  \<^item> \<open>SprotoPack\<close>, \<open>Sproto\<close>, \<open>SprotoDecode\<close>, \<open>SprotoRound\<close>, \<open>SprotoSchema\<close>, \<open>SprotoLoad\<close> (\<open>sproto/sproto.c\<close>): zero packing; the wire format, whose encoder stays in
    its buffer and whose decoder reads back every message; the decoder on arbitrary bytes; the schema loader, which accepts
    well-formed schemas only, returns, and reads nothing but the bundle unless a length overflows. The locale \<open>element_reader\<close> is the contract of the
    readers of types and of protocols.

  \<^item> \<open>Cluster\<close> (\<open>lua-cluster.c\<close>): the requests and responses between nodes, packed into frames of at most 32K and a header. \<open>Sessions\<close>: frames of many
    messages merged on a connection; the locale \<open>session_receiver\<close> is the contract of a receiver with a state per session. \<open>ClusterLink\<close> interprets it
    on the agent that receives requests and on the channel that receives responses (\<open>requests\<close>, \<open>responses\<close>; their Lua code
    is modelled as far as it joins frames): with \<open>Netpack\<close> in between, whatever the sizes, the order of the frames and the cuts, what was sent arrives, once.

  \<^item> \<open>Stm\<close> (\<open>lua-stm.c\<close>): messages shared by a writer and readers, with their reference counts; one call at a time nothing is used after it
    is freed and nothing leaks, while two readers that are collected at the same time can use a freed lock.

  \<^bold>\<open>Hypotheses.\<close> Theorems about sockets assume what POSIX says of \<open>write\<close> (\<open>posix_write\<close>), or that the kernel takes everything where they say so. Sizes below \<open>2\<^sup>3\<^sup>1\<close>
  are assumed where the code keeps them in an \<open>int\<close>. Theorems about sproto on arbitrary bytes assume that no length overflows when
  4 is added; what happens otherwise is proved too. A message of sproto is given by values as the C callback sees them: 4 or 8 bytes for a number,
  a byte string for a string or a structure that is encoded already. Memory is never exhausted.

  \<^bold>\<open>Not modelled.\<close> The module loader (\<open>dlopen\<close>), start-up, daemon and log files, and the malloc hook only call the operating
  system. The services \<open>logger\<close> and \<open>snlua\<close> write a file and host a Lua state. The bindings (\<open>lua-skynet.c\<close>, \<open>lua-clientsocket.c\<close>, \<open>lua-multicast.c\<close>,
  \<open>lua-memory.c\<close>, \<open>lua-profile.c\<close>, \<open>lua-debugchannel.c\<close>, \<open>ltls.c\<close>), the shared tables (\<open>lua-sharedata.c\<close>,
  \<open>lua-sharetable.c\<close>, \<open>lua-datasheet.c\<close>), \<open>lua-bson.c\<close>, \<open>lua-mongo.c\<close> and the callbacks of \<open>lsproto.c\<close> walk and build values of a Lua
  state; the Lua interpreter is code outside the repository's own, as are jemalloc, lpeg and the rest of \<open>3rd/\<close>. Services in Lua are not modelled, but for the joining of cluster messages. The memory pool of sproto and its dump are left out.
\<close>

end
